(* ===== verification/Fsutil_Prelude.thy ===== *)
theory Fsutil_Prelude
  imports Main "HOL-Library.Char_ord" "HOL-Library.List_Lexorder" "HOL-Library.Sublist"
    "HOL-Library.Word"
begin

text \<open>
  Shared vocabulary of the development: bytes and Go strings, Go errors as values, the result
  type of a fallible Go function, and the generic lemmas on lists and maps that several
  components use.

  A Go \<open>string\<close> and a Go \<open>[]byte\<close> are both a list of bytes, and a byte is an Isabelle
  \<^typ>\<open>char\<close> (8 bits; its numeric value is \<^term>\<open>of_char c\<close>). The order on \<^typ>\<open>char\<close>
  (from \<open>Char_ord\<close>) is the numeric order of bytes and the order on \<^typ>\<open>string\<close> (from
  \<open>List_Lexorder\<close>) is Go's \<open><\<close> on strings.
\<close>

unbundle bit_operations_syntax

named_theorems path_simps
  \<open>rewrite rules for slash-separated paths\<close>

named_theorems step_simps
  \<open>defining equations of the handlers, unfolded one step at a time\<close>

section \<open>Errors and results\<close>

text \<open>The \<open>syscall\<close> error numbers the sources name, and \<open>os.ErrNotExist\<close> and its like.\<close>

datatype errno =
    EINVAL | ENOENT | ENOTDIR | EISDIR | EEXIST | EBADMSG | EACCES | EPERM | ENOTSUP
  | ELOOP | ENXIO | ENOSYS | ERANGE | EClosed | EOther nat

text \<open>
  An error value: \<open>os.PathError\<close> with its operation and path, an error built by
  \<open>errors.Errorf\<close> (format and arguments), a wrapped error (\<open>errors.Wrap\<close>), the end of a
  stream, the error of a cancelled context, a bare error number, \<open>filepath.SkipDir\<close>, and a
  panic.
\<close>

datatype go_error =
    PathError string string errno
  | Errorf string "string list"
  | Wrap string go_error
  | Eof
  | UnexpectedEof
  | CtxErr
  | Errno errno
  | SkipDir
  | Panic string

type_synonym 'a res = "go_error + 'a"

fun errno_of :: "go_error \<Rightarrow> errno option" where
  "errno_of (PathError _ _ e) = Some e"
| "errno_of (Wrap _ e) = errno_of e"
| "errno_of (Errno e) = Some e"
| "errno_of _ = None"

definition res_bind :: "'a res \<Rightarrow> ('a \<Rightarrow> 'b res) \<Rightarrow> 'b res" where
  "res_bind r f = (case r of Inl e \<Rightarrow> Inl e | Inr x \<Rightarrow> f x)"

lemma res_bind_simps [simp]:
  "res_bind (Inl e) f = Inl e"
  "res_bind (Inr x) f = f x"
  by (simp_all add: res_bind_def)

lemma res_bind_Inr_iff: "res_bind r f = Inr y \<longleftrightarrow> (\<exists>x. r = Inr x \<and> f x = Inr y)"
  by (cases r) auto

text \<open>A handler that fails stops the stream: Go's \<open>if err := h(...); err != nil { return err }\<close>.\<close>

fun res_fold :: "('x \<Rightarrow> 's \<Rightarrow> 's res) \<Rightarrow> 'x list \<Rightarrow> 's \<Rightarrow> 's res" where
  "res_fold h [] s = Inr s"
| "res_fold h (x # xs) s = res_bind (h x s) (res_fold h xs)"

lemma res_fold_Nil_eta [simp]: "res_fold h [] = Inr"
  by (rule ext) simp

lemma res_fold_append:
  "res_fold h (xs @ ys) s = res_bind (res_fold h xs s) (res_fold h ys)"
proof (induction xs arbitrary: s)
  case Nil
  then show ?case by simp
next
  case (Cons x xs)
  then show ?case by (cases "h x s") simp_all
qed

lemma res_fold_invariant:
  assumes "res_fold h xs s = Inr t" and "I s"
    and "\<And>x s s'. x \<in> set xs \<Longrightarrow> I s \<Longrightarrow> h x s = Inr s' \<Longrightarrow> I s'"
  shows "I t"
  using assms
proof (induction xs arbitrary: s)
  case Nil
  then show ?case by simp
next
  case (Cons x xs)
  from Cons.prems(1) obtain s' where s': "h x s = Inr s'" "res_fold h xs s' = Inr t"
    by (auto simp: res_bind_Inr_iff)
  have "I s'" using Cons.prems(2,3) s'(1) by auto
  with s'(2) Cons.prems(3) show ?case by (auto intro: Cons.IH)
qed

section \<open>Lists and strings\<close>

text \<open>\<open>strings.HasPrefix(s, p)\<close>.\<close>

abbreviation has_prefix :: "string \<Rightarrow> string \<Rightarrow> bool" where
  "has_prefix s p \<equiv> prefix p s"

text \<open>\<open>strings.TrimSuffix\<close> and \<open>strings.TrimPrefix\<close>.\<close>

definition trim_suffix :: "string \<Rightarrow> string \<Rightarrow> string" where
  "trim_suffix s t = (if suffix t s then take (length s - length t) s else s)"

definition trim_prefix :: "string \<Rightarrow> string \<Rightarrow> string" where
  "trim_prefix s t = (if prefix t s then drop (length t) s else s)"

lemma char_less_iff: "(c :: char) < d \<longleftrightarrow> (of_char c :: nat) < of_char d"
  by (simp add: less_char_def)

lemma list_less_append_iff [simp]: "(xs :: 'a::linorder list) @ ys < xs @ zs \<longleftrightarrow> ys < zs"
  by (induction xs) auto

lemma Nil_less_iff [simp]: "[] < (xs :: 'a::linorder list) \<longleftrightarrow> xs \<noteq> []"
  by (cases xs) auto

lemma sum_cases_Inr:
  "(case r of Inl e \<Rightarrow> Inl e | Inr x \<Rightarrow> f x) = Inr y \<longleftrightarrow> (\<exists>x. r = Inr x \<and> f x = Inr y)"
  by (cases r) auto

end
