(* ===== verification/Go_Path.thy ===== *)
theory Go_Path
  imports Fsutil_Prelude
begin

text \<open>
  The part of Go's \<open>path/filepath\<close> the sources use, for a Unix host (separator \<open>/\<close>):
  \<open>Clean\<close>, \<open>Dir\<close>, \<open>Base\<close>, \<open>Join\<close>, \<open>IsAbs\<close>, \<open>Split\<close> and \<open>Rel\<close>. They belong to the
  language's standard library and carry no entry of the source map. The lemmas relate them to
  lists of components, which is how the other theories reason about paths.
  \<open>FromSlash\<close> and \<open>ToSlash\<close> are the identity on such a host.
\<close>

abbreviation slash :: char where
  "slash \<equiv> CHR 0x2F"

section \<open>Splitting and joining at slashes\<close>

text \<open>\<open>strings.Split(p, "/")\<close> and \<open>strings.Join(cs, "/")\<close>.\<close>

fun split_slash :: "string \<Rightarrow> string list" where
  "split_slash [] = [[]]"
| "split_slash (c # cs) =
     (if c = slash then [] # split_slash cs
      else (case split_slash cs of [] \<Rightarrow> [[c]] | x # xs \<Rightarrow> (c # x) # xs))"

fun join_slash :: "string list \<Rightarrow> string" where
  "join_slash [] = []"
| "join_slash [x] = x"
| "join_slash (x # y # zs) = x @ slash # join_slash (y # zs)"

lemma split_slash_nonempty [simp]: "split_slash p \<noteq> []"
  by (induction p) (auto split: list.splits)

lemma split_slash_no_slash: "c \<in> set (split_slash p) \<Longrightarrow> slash \<notin> set c"
proof (induction p arbitrary: c)
  case Nil
  then show ?case by simp
next
  case (Cons a p)
  then show ?case by (cases "split_slash p") (auto split: if_splits)
qed

lemma join_slash_Cons: "ys \<noteq> [] \<Longrightarrow> join_slash (x # ys) = x @ slash # join_slash ys"
  by (cases ys) auto

lemma join_slash_append:
  "xs \<noteq> [] \<Longrightarrow> ys \<noteq> [] \<Longrightarrow> join_slash (xs @ ys) = join_slash xs @ slash # join_slash ys"
proof (induction xs)
  case Nil
  then show ?case by simp
next
  case (Cons x xs)
  then show ?case by (cases "xs = []") (auto simp: join_slash_Cons)
qed

lemma join_split_slash [simp]: "join_slash (split_slash p) = p"
proof (induction p)
  case Nil
  then show ?case by simp
next
  case (Cons c p)
  obtain x xs where sp: "split_slash p = x # xs"
    by (cases "split_slash p") auto
  have "join_slash ((c # x) # xs) = c # join_slash (x # xs)"
    by (cases xs) auto
  then show ?case using Cons sp by (auto simp: join_slash_Cons)
qed

lemma split_slash_no_slash_id: "slash \<notin> set x \<Longrightarrow> split_slash x = [x]"
  by (induction x) auto

lemma split_slash_append_slash:
  "slash \<notin> set x \<Longrightarrow> split_slash (x @ slash # p) = x # split_slash p"
  by (induction x) auto

lemma split_slash_append: "split_slash (d @ slash # r) = split_slash d @ split_slash r"
proof (induction d)
  case Nil
  then show ?case by simp
next
  case (Cons c d)
  obtain x xs where "split_slash d = x # xs" by (cases "split_slash d") auto
  then show ?case using Cons by simp
qed

lemma split_join_slash:
  "xs \<noteq> [] \<Longrightarrow> \<forall>x \<in> set xs. slash \<notin> set x \<Longrightarrow> split_slash (join_slash xs) = xs"
proof (induction xs rule: join_slash.induct)
  case (3 x y zs)
  then show ?case by (simp add: split_slash_append_slash)
qed (auto simp: split_slash_no_slash_id)

lemma join_slash_inj:
  assumes "xs \<noteq> []" "ys \<noteq> []" "\<forall>x \<in> set xs. slash \<notin> set x" "\<forall>x \<in> set ys. slash \<notin> set x"
    and "join_slash xs = join_slash ys"
  shows "xs = ys"
  using assms split_join_slash by metis

lemma join_slash_eq_Nil: "join_slash xs = [] \<longleftrightarrow> xs = [] \<or> xs = [[]]"
  by (induction xs rule: join_slash.induct) auto

section \<open>Clean\<close>

text \<open>
  \<open>filepath.Clean\<close>: drop empty and \<open>.\<close> components, let \<open>..\<close> remove the component before
  it (or nothing, at the root), and return \<open>.\<close> for the empty result. The second argument
  holds the components kept so far, last first.
\<close>

fun clean_comps :: "bool \<Rightarrow> string list \<Rightarrow> string list \<Rightarrow> string list" where
  "clean_comps rooted acc [] = rev acc"
| "clean_comps rooted acc (c # cs) =
     (if c = [] \<or> c = ''.'' then clean_comps rooted acc cs
      else if c = ''..'' then
        (if acc \<noteq> [] \<and> hd acc \<noteq> ''..'' then clean_comps rooted (tl acc) cs
         else if rooted then clean_comps rooted acc cs
         else clean_comps rooted (c # acc) cs)
      else clean_comps rooted (c # acc) cs)"

definition is_abs :: "string \<Rightarrow> bool" where
  "is_abs p \<longleftrightarrow> has_prefix p [slash]"

definition clean :: "string \<Rightarrow> string" where
  "clean p =
     (if p = [] then ''.''
      else
        let rooted = is_abs p;
            out = join_slash (clean_comps rooted [] (split_slash p))
        in if rooted then slash # out else if out = [] then ''.'' else out)"

text \<open>\<open>filepath.Split\<close>, \<open>Dir\<close>, \<open>Base\<close>, \<open>Join\<close>.\<close>

definition split_dir :: "string \<Rightarrow> string" where
  "split_dir p = rev (dropWhile (\<lambda>c. c \<noteq> slash) (rev p))"

definition split_file :: "string \<Rightarrow> string" where
  "split_file p = rev (takeWhile (\<lambda>c. c \<noteq> slash) (rev p))"

definition dir :: "string \<Rightarrow> string" where
  "dir p = clean (split_dir p)"

definition base :: "string \<Rightarrow> string" where
  "base p =
     (if p = [] then ''.''
      else let q = rev (dropWhile (\<lambda>c. c = slash) (rev p))
           in if q = [] then [slash] else split_file q)"

fun join_elems :: "string list \<Rightarrow> string" where
  "join_elems [] = []"
| "join_elems (e # es) = (if e \<noteq> [] then clean (join_slash (e # es)) else join_elems es)"

definition join2 :: "string \<Rightarrow> string \<Rightarrow> string" where
  "join2 a b = join_elems [a, b]"

section \<open>Proper relative paths\<close>

text \<open>
  A proper component is a file name: not empty, no slash, and neither \<open>.\<close> nor \<open>..\<close>. A
  proper relative path is a non-empty sequence of them joined by slashes.
\<close>

definition good_comp :: "string \<Rightarrow> bool" where
  "good_comp c \<longleftrightarrow> c \<noteq> [] \<and> slash \<notin> set c \<and> c \<noteq> ''.'' \<and> c \<noteq> ''..''"

definition good_comps :: "string list \<Rightarrow> bool" where
  "good_comps cs \<longleftrightarrow> cs \<noteq> [] \<and> list_all good_comp cs"

definition good_path :: "string \<Rightarrow> bool" where
  "good_path p \<longleftrightarrow> good_comps (split_slash p)"

lemma good_compD:
  assumes "good_comp c"
  shows "c \<noteq> []" "slash \<notin> set c" "c \<noteq> ''.''" "c \<noteq> ''..''"
  using assms by (auto simp: good_comp_def)

lemma good_comps_no_slash: "good_comps cs \<Longrightarrow> \<forall>c \<in> set cs. slash \<notin> set c"
  by (auto simp: good_comps_def list_all_iff good_comp_def)

lemma split_join_good [path_simps]: "good_comps cs \<Longrightarrow> split_slash (join_slash cs) = cs"
  by (simp add: split_join_slash good_comps_no_slash good_comps_def)

lemma good_path_join [path_simps]: "good_comps cs \<Longrightarrow> good_path (join_slash cs)"
  by (simp add: good_path_def split_join_good)

lemma good_pathE:
  assumes "good_path p"
  obtains cs where "good_comps cs" "p = join_slash cs"
  using assms by (metis good_path_def join_split_slash)

lemma good_comps_singleton [simp]: "good_comps [c] \<longleftrightarrow> good_comp c"
  by (simp add: good_comps_def)

lemma good_comps_append:
  "xs \<noteq> [] \<Longrightarrow> ys \<noteq> [] \<Longrightarrow> good_comps (xs @ ys) \<longleftrightarrow> good_comps xs \<and> good_comps ys"
  by (auto simp: good_comps_def)

lemma good_comps_snoc:
  "good_comps (xs @ [x]) \<longleftrightarrow> (xs = [] \<or> good_comps xs) \<and> good_comp x"
  by (cases "xs = []") (auto simp: good_comps_append)

lemma join_slash_hd:
  assumes "good_comps cs"
  shows "join_slash cs \<noteq> []" "hd (join_slash cs) \<noteq> slash"
proof -
  obtain c cs' where cs: "cs = c # cs'" "good_comp c"
    using assms by (cases cs) (auto simp: good_comps_def)
  obtain a as where c: "c = a # as" using good_compD(1)[OF cs(2)] by (cases c) auto
  have "a \<noteq> slash" using good_compD(2)[OF cs(2)] c by auto
  then show "join_slash cs \<noteq> []" "hd (join_slash cs) \<noteq> slash"
    using cs c by (cases cs'; simp)+
qed

lemma good_path_not_abs [path_simps]: "good_comps cs \<Longrightarrow> \<not> is_abs (join_slash cs)"
  using join_slash_hd[of cs] by (cases "join_slash cs") (auto simp: is_abs_def)

lemma clean_comps_good:
  "list_all good_comp cs \<Longrightarrow> clean_comps rooted acc cs = rev acc @ cs"
  by (induction cs arbitrary: acc) (auto simp: good_comp_def)

lemma clean_good [path_simps]: "good_comps cs \<Longrightarrow> clean (join_slash cs) = join_slash cs"
  using join_slash_hd[of cs] good_path_not_abs[of cs]
  by (auto simp: clean_def Let_def split_join_good clean_comps_good good_comps_def)

lemma clean_good_trailing:
  assumes "good_comps cs"
  shows "clean (join_slash cs @ [slash]) = join_slash cs"
proof -
  have eq: "join_slash cs @ [slash] = join_slash (cs @ [[]])"
    using assms by (simp add: join_slash_append good_comps_def)
  have sp: "split_slash (join_slash cs @ [slash]) = cs @ [[]]"
    unfolding eq using assms good_comps_no_slash[OF assms]
    by (intro split_join_slash) (auto simp: good_comps_def)
  have cc: "clean_comps rooted acc (cs @ [[]]) = rev acc @ cs" for rooted acc
  proof -
    have "list_all good_comp cs" using assms by (simp add: good_comps_def)
    then show ?thesis by (induction cs arbitrary: acc) (auto simp: good_comp_def)
  qed
  have "\<not> is_abs (join_slash cs @ [slash])"
    using join_slash_hd[OF assms] by (cases "join_slash cs") (auto simp: is_abs_def)
  then show ?thesis
    using join_slash_hd(1)[OF assms] by (simp add: clean_def sp cc)
qed

lemma dropWhile_not_slash:
  "slash \<notin> set x \<Longrightarrow> dropWhile (\<lambda>c. c \<noteq> slash) (rev x @ slash # ys) = slash # ys"
  by (subst dropWhile_append2) auto

lemma dropWhile_all_rev: "slash \<notin> set x \<Longrightarrow> dropWhile (\<lambda>c. c \<noteq> slash) (rev x) = []"
  by (subst dropWhile_eq_Nil_conv) auto

lemma takeWhile_not_slash:
  "slash \<notin> set x \<Longrightarrow> takeWhile (\<lambda>c. c \<noteq> slash) (rev x @ slash # ys) = rev x"
  by (subst takeWhile_append2) auto

lemma split_dir_snoc:
  "good_comps xs \<Longrightarrow> good_comp x \<Longrightarrow> split_dir (join_slash (xs @ [x])) = join_slash xs @ [slash]"
  by (simp add: split_dir_def join_slash_append good_comps_def good_comp_def dropWhile_not_slash)

lemma dir_snoc [path_simps]:
  "good_comps xs \<Longrightarrow> good_comp x \<Longrightarrow> dir (join_slash (xs @ [x])) = join_slash xs"
  by (simp add: dir_def split_dir_snoc clean_good_trailing)

lemma dir_single [path_simps]: "good_comp x \<Longrightarrow> dir x = ''.''"
  by (simp add: dir_def split_dir_def dropWhile_all_rev good_comp_def clean_def)

lemma last_not_slash:
  assumes "good_comp x"
  shows "dropWhile (\<lambda>c. c = slash) (rev x @ r) = rev x @ r"
  using good_compD(1,2)[OF assms] by (cases "rev x") (auto dest: arg_cong[of _ _ set])

lemma split_file_snoc: "slash \<notin> set x \<Longrightarrow> split_file (p @ slash # x) = x"
  by (simp add: split_file_def takeWhile_not_slash)

lemma split_file_single: "slash \<notin> set x \<Longrightarrow> split_file x = x"
  by (subst split_file_def, subst takeWhile_eq_all_conv[THEN iffD2]) auto

lemma base_snoc [path_simps]:
  assumes "good_comp x"
  shows "base (join_slash (xs @ [x])) = x"
proof (cases "xs = []")
  case True
  then show ?thesis
    using assms last_not_slash[OF assms, of "[]"]
    by (simp add: base_def good_comp_def split_file_single)
next
  case False
  then show ?thesis
    using assms last_not_slash[OF assms, of "slash # rev (join_slash xs)"]
    by (simp add: base_def good_comp_def join_slash_append split_file_snoc)
qed

lemma base_single [path_simps]: "good_comp x \<Longrightarrow> base x = x"
  using base_snoc[of x "[]"] by simp

lemma join2_good [path_simps]:
  assumes "good_comps xs" "good_comp x"
  shows "join2 (join_slash xs) x = join_slash (xs @ [x])"
proof -
  have "join_slash [join_slash xs, x] = join_slash (xs @ [x])"
    using assms by (simp add: join_slash_append good_comps_def)
  moreover have "good_comps (xs @ [x])" using assms by (simp add: good_comps_snoc)
  ultimately show ?thesis
    using join_slash_hd(1)[OF assms(1)] by (simp add: join2_def clean_good)
qed

lemma join2_Nil_good [path_simps]: "good_comp x \<Longrightarrow> join2 [] x = x"
  using clean_good[of "[x]"] by (simp add: join2_def good_comp_def)

section \<open>What clean relative paths look like\<close>

text \<open>
  A clean path that is not absolute is \<open>.\<close>, or some \<open>..\<close> components followed by proper
  ones. Without a leading \<open>..\<close> it is \<open>.\<close> or a proper relative path.
\<close>

definition dots_then_good :: "string list \<Rightarrow> bool" where
  "dots_then_good cs \<longleftrightarrow> list_all good_comp (dropWhile (\<lambda>c. c = ''..'') cs)"

lemma dots_then_good_snoc:
  "dots_then_good (cs @ [c]) \<longleftrightarrow>
     (if \<forall>x \<in> set cs. x = ''..'' then c = ''..'' \<or> good_comp c else dots_then_good cs \<and> good_comp c)"
proof (cases "\<forall>x \<in> set cs. x = ''..''")
  case True
  then have "dropWhile (\<lambda>c. c = ''..'') (cs @ [c]) = dropWhile (\<lambda>c. c = ''..'') [c]"
    by (subst dropWhile_append2) auto
  then show ?thesis using True by (simp add: dots_then_good_def)
next
  case False
  then obtain x where "x \<in> set cs" "x \<noteq> ''..''" by auto
  then show ?thesis using False by (auto simp: dots_then_good_def dropWhile_append1)
qed

lemma dots_then_good_last:
  assumes "dots_then_good (cs @ [c])" "c \<noteq> ''..''"
  shows "dots_then_good cs"
proof (cases "\<forall>x \<in> set cs. x = ''..''")
  case True
  then have "dropWhile (\<lambda>c. c = ''..'') cs = []" by (auto simp: dropWhile_eq_Nil_conv)
  then show ?thesis by (metis dots_then_good_def list.pred_inject(1))
next
  case False
  then show ?thesis using assms by (simp add: dots_then_good_snoc)
qed

lemma dots_then_good_up:
  assumes "dots_then_good cs" "cs = [] \<or> last cs = ''..''"
  shows "dots_then_good (cs @ [''..''])"
proof (cases "\<forall>x \<in> set cs. x = ''..''")
  case True
  then show ?thesis by (simp add: dots_then_good_snoc)
next
  case False
  then have "cs \<noteq> []" by auto
  then obtain ds where ds: "cs = ds @ [''..'']"
    using assms(2) by (metis append_butlast_last_id)
  with False have "\<not> (\<forall>x \<in> set ds. x = ''..'')" by auto
  with assms(1) ds have "good_comp ''..''" by (simp add: dots_then_good_snoc)
  then show ?thesis by (simp add: good_comp_def)
qed

lemma clean_comps_form:
  assumes "\<forall>c \<in> set cs. slash \<notin> set c" "dots_then_good (rev acc)"
  shows "dots_then_good (clean_comps False acc cs)"
  using assms
proof (induction cs arbitrary: acc)
  case Nil
  then show ?case by simp
next
  case (Cons c cs)
  consider "c = [] \<or> c = ''.''" | "c = ''..''" "acc \<noteq> [] \<and> hd acc \<noteq> ''..''"
    | "c = ''..''" "\<not> (acc \<noteq> [] \<and> hd acc \<noteq> ''..'')" | "good_comp c"
    using Cons.prems(1) by (auto simp: good_comp_def)
  then show ?case
  proof cases
    case 1
    then show ?thesis using Cons by simp
  next
    case 2
    then have "dots_then_good (rev (tl acc))"
      using Cons.prems(2) dots_then_good_last[of "rev (tl acc)" "hd acc"] by (cases acc) auto
    then show ?thesis using 2 Cons by simp
  next
    case 3
    then have "dots_then_good (rev (''..'' # acc))"
      using Cons.prems(2) dots_then_good_up[of "rev acc"] by (cases acc) auto
    then have "dots_then_good (clean_comps False (''..'' # acc) cs)"
      using Cons.prems(1) by (intro Cons.IH) auto
    then show ?thesis using 3 by auto
  next
    case 4
    then have "dots_then_good (rev (c # acc))"
      using Cons.prems(2) by (auto simp: dots_then_good_snoc)
    then show ?thesis using 4 Cons by (simp add: good_comp_def)
  qed
qed

text \<open>The paths the sources accept as names below a root.\<close>

definition local_path :: "string \<Rightarrow> bool" where
  "local_path p \<longleftrightarrow> p = clean p \<and> \<not> is_abs p \<and> p \<noteq> ''..'' \<and> \<not> has_prefix p ''../''"

lemma good_path_local:
  assumes "good_path p"
  shows "local_path p"
proof -
  obtain cs where cs: "good_comps cs" "p = join_slash cs" using assms by (rule good_pathE)
  obtain c cs' where c: "cs = c # cs'" "good_comp c"
    using cs(1) by (cases cs) (auto simp: good_comps_def)
  have "p \<noteq> ''..'' \<and> \<not> has_prefix p ''../''"
  proof (rule ccontr)
    assume "\<not> ?thesis"
    then have "p = ''..'' \<or> (\<exists>r. p = ''..'' @ slash # r)" by (auto elim!: prefixE)
    then have "hd (split_slash p) = ''..''"
      by (auto simp: split_slash_no_slash_id split_slash_append_slash simp del: append.simps)
    then show False using cs(2) c split_join_good[OF cs(1)] by (simp add: good_comp_def)
  qed
  then show ?thesis
    using cs clean_good[OF cs(1)] good_path_not_abs[OF cs(1)] by (simp add: local_path_def)
qed

lemma local_path_cases:
  assumes "local_path p"
  shows "p = ''.'' \<or> good_path p"
proof (rule disjCI)
  assume no_dot: "\<not> good_path p"
  show "p = ''.''"
  proof (rule ccontr)
    assume not_dot: "p \<noteq> ''.''"
    define cs where "cs = clean_comps False [] (split_slash p)"
    have p: "p = join_slash cs" "p \<noteq> []"
      using assms not_dot by (auto simp: local_path_def clean_def cs_def Let_def split: if_splits)
    have dg: "dots_then_good cs"
      unfolding cs_def by (intro clean_comps_form) (auto simp: dots_then_good_def dest: split_slash_no_slash)
    have ne: "cs \<noteq> []" using p by auto
    have "hd cs \<noteq> ''..''"
    proof
      assume "hd cs = ''..''"
      then have "p = ''..'' \<or> has_prefix p ''../''"
        using ne p(1) by (cases cs; cases "tl cs") auto
      then show False using assms by (simp add: local_path_def)
    qed
    then have "list_all good_comp cs"
      using dg ne by (cases cs) (auto simp: dots_then_good_def)
    then have "good_path p" using ne p(1) good_path_join by (simp add: good_comps_def)
    then show False using no_dot by simp
  qed
qed

lemma local_path_iff: "local_path p \<longleftrightarrow> p = ''.'' \<or> good_path p"
proof -
  have "local_path ''.''" by (simp add: local_path_def clean_def is_abs_def)
  then show ?thesis using local_path_cases good_path_local by blast
qed

text \<open>
  Reading a path without its last component and the last component itself; the components of
  \<open>.\<close> are \<open>[.]\<close>, so the same equations serve for it.
\<close>

definition local_comps :: "string list \<Rightarrow> bool" where
  "local_comps cs \<longleftrightarrow> cs = [''.''] \<or> good_comps cs"

lemma local_comps_split: "local_path p \<Longrightarrow> local_comps (split_slash p)"
  by (auto simp: local_path_iff local_comps_def good_path_def)

lemma local_comps_no_slash: "local_comps cs \<Longrightarrow> \<forall>c \<in> set cs. slash \<notin> set c"
  by (auto simp: local_comps_def dest: good_comps_no_slash)

lemma local_comps_nonempty: "local_comps cs \<Longrightarrow> cs \<noteq> [] \<and> (\<forall>c \<in> set cs. c \<noteq> [])"
  by (auto simp: local_comps_def good_comps_def list_all_iff good_comp_def)

definition parent_of :: "string \<Rightarrow> string" where
  "parent_of p = join_slash (butlast (split_slash p))"

lemma dir_local:
  assumes "local_path p"
  shows "(if dir p = ''.'' then [] else dir p) = parent_of p"
proof (cases "p = ''.''")
  case True
  then show ?thesis by (simp add: dir_def split_dir_def clean_def parent_of_def)
next
  case False
  then have "good_path p" using assms by (simp add: local_path_iff)
  then obtain cs where cs: "good_comps cs" "p = join_slash cs" by (rule good_pathE)
  obtain xs x where snoc: "cs = xs @ [x]" using cs(1) by (cases cs rule: rev_cases) (auto simp: good_comps_def)
  have x: "good_comp x" using cs(1) snoc by (simp add: good_comps_snoc)
  show ?thesis
  proof (cases "xs = []")
    case True
    then show ?thesis
      using cs snoc x split_join_good[OF cs(1)] by (simp add: dir_single parent_of_def)
  next
    case False
    then have xs: "good_comps xs" using cs(1) snoc by (simp add: good_comps_snoc)
    have "join_slash xs \<noteq> ''.''"
      using split_join_good[OF xs] xs by (auto simp: good_comps_def good_comp_def)
    then show ?thesis
      using cs snoc x xs split_join_good[OF cs(1)] dir_snoc[OF xs x] by (simp add: parent_of_def)
  qed
qed

lemma dir_local_good:
  assumes "local_path p"
  shows "good_path (dir p) \<or> dir p = ''.''"
proof (cases "p = ''.''")
  case True
  then show ?thesis by (simp add: dir_def split_dir_def clean_def)
next
  case False
  then obtain cs where cs: "good_comps cs" "p = join_slash cs"
    using assms by (auto simp: local_path_iff elim: good_pathE)
  obtain xs x where snoc: "cs = xs @ [x]" using cs(1) by (cases cs rule: rev_cases) (auto simp: good_comps_def)
  then have "good_comp x" "xs = [] \<or> good_comps xs" using cs(1) by (simp_all add: good_comps_snoc)
  then show ?thesis using cs snoc by (auto simp: dir_single dir_snoc good_path_join)
qed

lemma base_local:
  assumes "local_path p"
  shows "base p = last (split_slash p)"
proof (cases "p = ''.''")
  case True
  then show ?thesis by (simp add: base_def split_file_def)
next
  case False
  then have "good_path p" using assms by (simp add: local_path_iff)
  then obtain cs where cs: "good_comps cs" "p = join_slash cs" by (rule good_pathE)
  obtain xs x where snoc: "cs = xs @ [x]" using cs(1) by (cases cs rule: rev_cases) (auto simp: good_comps_def)
  then show ?thesis
    using cs split_join_good[OF cs(1)] base_snoc[of x xs] by (simp add: good_comps_snoc)
qed

lemma base_nonempty: "local_path p \<Longrightarrow> base p \<noteq> []"
  using local_comps_nonempty[OF local_comps_split, of p] base_local[of p] by simp

lemma join_parent_base:
  assumes "local_path p"
  shows "join2 (parent_of p) (base p) = p"
proof (cases "p = ''.''")
  case True
  then show ?thesis by (simp add: parent_of_def base_def split_file_def join2_def clean_def is_abs_def)
next
  case False
  then have "good_path p" using assms by (simp add: local_path_iff)
  then obtain cs where cs: "good_comps cs" "p = join_slash cs" by (rule good_pathE)
  obtain xs x where snoc: "cs = xs @ [x]" using cs(1) by (cases cs rule: rev_cases) (auto simp: good_comps_def)
  have x: "good_comp x" using cs(1) snoc by (simp add: good_comps_snoc)
  then show ?thesis
    using cs snoc base_snoc[OF x, of xs] split_join_good[OF cs(1)] join2_good[of xs x]
    by (cases "xs = []") (auto simp: parent_of_def good_comps_snoc join2_Nil_good)
qed

section \<open>Joining and relating paths\<close>

lemma clean_dot_slash: "good_comps cs \<Longrightarrow> clean (''./'' @ join_slash cs) = join_slash cs"
proof -
  assume cs: "good_comps cs"
  have "split_slash (''./'' @ join_slash cs) = ''.'' # cs"
    using split_slash_append[of "''.''" "join_slash cs"] split_join_good[OF cs] by simp
  then show ?thesis
    using cs join_slash_hd[OF cs]
    by (simp add: clean_def is_abs_def clean_comps_good good_comps_def)
qed

lemma join2_dot: "good_path p \<Longrightarrow> join2 ''.'' p = p"
  by (elim good_pathE) (use clean_dot_slash join_slash_hd in \<open>auto simp: join2_def\<close>)

lemma join2_good_good:
  assumes "good_comps xs" "good_comps ys"
  shows "join2 (join_slash xs) (join_slash ys) = join_slash (xs @ ys)"
proof -
  have "join_slash [join_slash xs, join_slash ys] = join_slash (xs @ ys)"
    using assms by (simp add: join_slash_append good_comps_def)
  moreover have "good_comps (xs @ ys)" using assms by (simp add: good_comps_def)
  ultimately show ?thesis using join_slash_hd(1)[OF assms(1)] by (simp add: join2_def clean_good)
qed

text \<open>
  \<open>filepath.Rel\<close>: drop the components both clean paths begin with, go up once for each one left
  of the base and down the rest of the target.
\<close>

definition rel_comps :: "string \<Rightarrow> string list" where
  "rel_comps p = (if p = [] \<or> p = [slash] then [] else if is_abs p then split_slash (tl p) else split_slash p)"

fun strip_common :: "'a list \<Rightarrow> 'a list \<Rightarrow> 'a list \<times> 'a list" where
  "strip_common (x # xs) (y # ys) = (if x = y then strip_common xs ys else (x # xs, y # ys))"
| "strip_common xs ys = (xs, ys)"

definition rel_path :: "string \<Rightarrow> string \<Rightarrow> string res" where
  "rel_path basepath targpath =
     (let b = clean basepath; t = clean targpath in
      if t = b then Inr ''.''
      else
        let b = (if b = ''.'' then [] else b);
            failed = Inl (Errorf ''Rel: can't make %s relative to %s'' [targpath, basepath])
        in if is_abs b \<noteq> is_abs t then failed
           else
             let (bs, ts) = strip_common (rel_comps b) (rel_comps t)
             in if bs \<noteq> [] \<and> hd bs = ''..'' then failed
                else Inr (join_slash (replicate (length bs) ''..'' @ ts)))"

text \<open>The result leads out of the base.\<close>

definition goes_up :: "string \<Rightarrow> bool" where
  "goes_up p \<longleftrightarrow> p = ''..'' \<or> has_prefix p (''..'' @ [slash])"

lemma strip_common_append [simp]: "strip_common xs (xs @ ys) = ([], ys)"
  by (induction xs) auto

lemma strip_common_split:
  assumes "strip_common xs ys = (as, bs)"
  shows "\<exists>zs. xs = zs @ as \<and> ys = zs @ bs \<and> (as = [] \<or> bs = [] \<or> hd as \<noteq> hd bs)"
  using assms
proof (induction xs ys rule: strip_common.induct)
  case (1 x xs y ys)
  then show ?case by (cases "x = y") (auto intro: exI[of _ "x # _"])
qed auto

lemma rel_comps_good: "good_comps cs \<Longrightarrow> rel_comps (join_slash cs) = cs"
  using join_slash_hd[of cs] good_path_not_abs[of cs] split_join_good[of cs]
  by (auto simp: rel_comps_def is_abs_def)

lemma good_not_dot: "good_comps cs \<Longrightarrow> join_slash cs \<noteq> ''.''"
  using split_join_good[of cs] by (auto simp: good_comps_def good_comp_def)

lemma join_ups: "0 < n \<Longrightarrow> goes_up (join_slash (replicate n ''..'' @ ts))"
proof (cases n)
  case (Suc m)
  then have "replicate n ''..'' @ ts = ''..'' # (replicate m ''..'' @ ts)" by simp
  then show ?thesis
    by (cases "replicate m ''..'' @ ts") (simp_all add: goes_up_def)
qed simp

lemma rel_path_below:
  assumes "good_comps xs" "good_comps ys"
  shows "rel_path (join_slash xs) (join_slash (xs @ ys)) = Inr (join_slash ys)"
proof -
  have g: "good_comps (xs @ ys)" using assms by (simp add: good_comps_def)
  have "join_slash (xs @ ys) \<noteq> join_slash xs"
    using split_join_good[OF g] split_join_good[OF assms(1)] assms(2) by (auto simp: good_comps_def)
  then show ?thesis
    using assms g by (simp add: rel_path_def clean_good good_path_not_abs good_not_dot rel_comps_good Let_def)
qed

lemma rel_path_not_below:
  assumes "good_comps xs" "good_path t \<or> t = ''.''" "\<not> (\<exists>ys. split_slash t = xs @ ys)"
  shows "\<exists>r. rel_path (join_slash xs) t = Inr r \<and> goes_up r"
proof -
  define ts where "ts = split_slash t"
  have ts: "ts = split_slash t" "t = join_slash ts" by (simp_all add: ts_def)
  have t: "clean t = t" "\<not> is_abs t" "rel_comps t = ts"
  proof -
    have dot: "clean ''.'' = ''.''" "\<not> is_abs ''.''" "rel_comps ''.'' = split_slash ''.''"
      by (simp_all add: clean_def is_abs_def rel_comps_def)
    have "good_comps ts \<or> t = ''.''" using assms(2) ts(1) by (simp add: good_path_def)
    then show "clean t = t" "\<not> is_abs t" "rel_comps t = ts"
      using ts dot by (metis clean_good) (metis good_path_not_abs ts(2) dot(2) \<open>good_comps ts \<or> t = ''.''\<close>,
        metis rel_comps_good ts dot(3) \<open>good_comps ts \<or> t = ''.''\<close>)
  qed
  obtain as bs where st: "strip_common xs ts = (as, bs)" by fastforce
  obtain zs where zs: "xs = zs @ as" "ts = zs @ bs" using strip_common_split[OF st] by blast
  have as: "as \<noteq> []" using zs assms(3) ts(1) by auto
  have "hd as \<noteq> ''..''"
    using assms(1) as zs(1) by (cases as) (auto simp: good_comps_def list_all_iff good_comp_def)
  moreover have "t \<noteq> join_slash xs" using assms(1,3) split_join_good[OF assms(1)] by auto
  ultimately show ?thesis
    using assms(1) t st as by (auto simp: rel_path_def clean_good good_path_not_abs good_not_dot rel_comps_good
        Let_def intro!: join_ups)
qed

text \<open>The last component of a clean relative path.\<close>

lemma base_snoc_plain:
  assumes "x \<noteq> []" "slash \<notin> set x"
  shows "base (join_slash (xs @ [x])) = x"
proof -
  have dw: "dropWhile (\<lambda>c. c = slash) (rev x @ r) = rev x @ r" for r
    using assms by (cases "rev x") (auto dest: arg_cong[of _ _ set])
  show ?thesis
    using dw[of "[]"] dw[of "slash # rev (join_slash xs)"] assms
    by (cases "xs = []") (simp_all add: base_def join_slash_append split_file_snoc split_file_single)
qed

lemma base_clean:
  assumes "\<not> is_abs (clean p)"
  shows "base (clean p) = ''.'' \<or> base (clean p) = ''..'' \<or> good_comp (base (clean p))"
proof (cases "clean p = ''.''")
  case True
  then show ?thesis by (simp add: base_def split_file_def)
next
  case False
  define cs where "cs = clean_comps False [] (split_slash p)"
  have p: "clean p = join_slash cs" "cs \<noteq> []"
    using assms False by (auto simp: clean_def cs_def Let_def is_abs_def split: if_splits)
  have dg: "dots_then_good cs"
    unfolding cs_def by (intro clean_comps_form) (auto simp: dots_then_good_def dest: split_slash_no_slash)
  obtain xs x where snoc: "cs = xs @ [x]" using p(2) by (cases cs rule: rev_cases) auto
  have x: "x = ''..'' \<or> good_comp x" using dg snoc by (auto simp: dots_then_good_snoc split: if_splits)
  then have "base (clean p) = x"
    unfolding p(1) snoc by (intro base_snoc_plain) (auto simp: good_comp_def)
  then show ?thesis using x by auto
qed

lemma clean_abs [simp]: "is_abs (clean p) = is_abs p"
proof (cases "is_abs p")
  case True
  then have "p \<noteq> []" by (auto simp: is_abs_def)
  then show ?thesis using True by (simp add: clean_def Let_def) (simp add: is_abs_def)
next
  case False
  show ?thesis
  proof (cases "clean p = ''.''")
    case True
    then show ?thesis using False by (simp add: is_abs_def)
  next
    case nd: False
    define cs where "cs = clean_comps False [] (split_slash p)"
    have p: "clean p = join_slash cs" "cs \<noteq> []"
      using False nd by (auto simp: clean_def cs_def Let_def split: if_splits)
    have "dots_then_good cs"
      unfolding cs_def by (intro clean_comps_form) (auto simp: dots_then_good_def dest: split_slash_no_slash)
    then have "hd cs = ''..'' \<or> good_comp (hd cs)"
      using p(2) by (cases cs) (auto simp: dots_then_good_def split: if_splits)
    then have "hd cs \<noteq> [] \<and> slash \<notin> set (hd cs)" by (auto simp: good_comp_def)
    then obtain a as where "hd cs = a # as" "a \<noteq> slash" by (cases "hd cs") auto
    then have "\<not> is_abs (join_slash cs)" using p(2) by (cases cs; cases "tl cs") (auto simp: is_abs_def)
    then show ?thesis using False p by simp
  qed
qed

lemma split_dir_file: "split_dir p @ split_file p = p"
  unfolding split_dir_def split_file_def by (metis rev_append rev_rev_ident takeWhile_dropWhile_id)

lemma split_dir_abs:
  assumes "is_abs p"
  shows "split_dir p \<noteq> []" "is_abs (split_dir p)"
proof -
  obtain r where p: "p = slash # r" using assms by (auto simp: is_abs_def elim: prefixE)
  show ne: "split_dir p \<noteq> []" by (auto simp: split_dir_def p)
  then show "is_abs (split_dir p)"
    using split_dir_file[of p] unfolding p is_abs_def by (cases "split_dir (slash # r)") auto
qed

end
