(* ===== verification/Types_Stat.thy ===== *)
theory Types_Stat
  imports Go_Path
begin

text \<open>
  The data the whole program passes around: the \<open>Stat\<close> message and its \<open>Packet\<close> envelope
  (\<open>types/\<close>), the file mode bits of \<open>io/fs\<close>, and the \<open>os.FileInfo\<close> values handed to change
  handlers (\<open>fs.go\<close>, \<open>StatInfo\<close>). Integers keep their Go width; \<open>int64\<close> fields are 64-bit
  words read with \<^const>\<open>sint\<close>. A Go map is an association list with distinct keys, in the
  order in which a \<open>range\<close> over it happens to visit the keys.
\<close>

section \<open>Messages\<close>

record stat =
  st_path :: string
  st_mode :: "32 word"
  st_uid :: "32 word"
  st_gid :: "32 word"
  st_size :: "64 word"
  st_modtime :: "64 word"
  st_linkname :: string
  st_devmajor :: "64 word"
  st_devminor :: "64 word"
  st_xattrs :: "(string \<times> string) list"
  st_unknown :: string

definition empty_stat :: stat where
  "empty_stat =
     \<lparr>st_path = [], st_mode = 0, st_uid = 0, st_gid = 0, st_size = 0, st_modtime = 0,
      st_linkname = [], st_devmajor = 0, st_devminor = 0, st_xattrs = [], st_unknown = []\<rparr>"

text \<open>\<open>Packet_PacketType\<close> is an \<open>int32\<close>; the five named values.\<close>

type_synonym packet_type = "32 word"

definition PACKET_STAT :: packet_type where "PACKET_STAT = 0"
definition PACKET_REQ :: packet_type where "PACKET_REQ = 1"
definition PACKET_DATA :: packet_type where "PACKET_DATA = 2"
definition PACKET_FIN :: packet_type where "PACKET_FIN = 3"
definition PACKET_ERR :: packet_type where "PACKET_ERR = 4"

lemmas packet_types = PACKET_STAT_def PACKET_REQ_def PACKET_DATA_def PACKET_FIN_def PACKET_ERR_def

record packet =
  pk_type :: packet_type
  pk_stat :: "stat option"
  pk_id :: "32 word"
  pk_data :: string
  pk_unknown :: string

definition empty_packet :: packet where
  "empty_packet =
     \<lparr>pk_type = 0, pk_stat = None, pk_id = 0, pk_data = [], pk_unknown = []\<rparr>"

section \<open>File modes\<close>

definition mode_dir :: "32 word" where "mode_dir = push_bit 31 1"
definition mode_symlink :: "32 word" where "mode_symlink = push_bit 27 1"
definition mode_device :: "32 word" where "mode_device = push_bit 26 1"
definition mode_named_pipe :: "32 word" where "mode_named_pipe = push_bit 25 1"
definition mode_socket :: "32 word" where "mode_socket = push_bit 24 1"
definition mode_setuid :: "32 word" where "mode_setuid = push_bit 23 1"
definition mode_setgid :: "32 word" where "mode_setgid = push_bit 22 1"
definition mode_char_device :: "32 word" where "mode_char_device = push_bit 21 1"
definition mode_sticky :: "32 word" where "mode_sticky = push_bit 20 1"
definition mode_irregular :: "32 word" where "mode_irregular = push_bit 19 1"
definition mode_perm :: "32 word" where "mode_perm = 0x1FF"

definition mode_type :: "32 word" where
  "mode_type = mode_dir OR mode_symlink OR mode_named_pipe OR mode_socket OR mode_device
     OR mode_char_device OR mode_irregular"

lemmas mode_bits = mode_dir_def mode_symlink_def mode_device_def mode_named_pipe_def
  mode_socket_def mode_setuid_def mode_setgid_def mode_char_device_def mode_sticky_def
  mode_irregular_def mode_perm_def

definition has_mode :: "32 word \<Rightarrow> 32 word \<Rightarrow> bool" where
  "has_mode m b \<longleftrightarrow> m AND b \<noteq> 0"

definition mode_is_dir :: "32 word \<Rightarrow> bool" where
  "mode_is_dir m \<longleftrightarrow> has_mode m mode_dir"

definition mode_is_regular :: "32 word \<Rightarrow> bool" where
  "mode_is_regular m \<longleftrightarrow> m AND mode_type = 0"

text \<open>\<open>Stat.IsDir\<close> (\<open>types/stat.go\<close>) and \<open>fileCanRequestData\<close> (\<open>send.go\<close>).\<close>

definition stat_is_dir :: "stat \<Rightarrow> bool" where
  "stat_is_dir s \<longleftrightarrow> mode_is_dir (st_mode s)"

definition file_can_request_data :: "32 word \<Rightarrow> bool" where
  "file_can_request_data m \<longleftrightarrow> m AND mode_type = 0"

text \<open>\<open>mode_type\<close> as a numeral, and the bits it is made of.\<close>

lemma mode_type_eq: "mode_type = 0x8F280000"
  by (simp add: mode_type_def mode_bits)

lemma mode_dir_eq: "mode_dir = 0x80000000"
  by (simp add: mode_bits)

lemma and_or_eq_0: "(m :: 'a::len word) AND (a OR b) = 0 \<longleftrightarrow> m AND a = 0 \<and> m AND b = 0"
  by (simp add: bit_eq_iff bit_and_iff bit_or_iff) blast

lemma file_can_request_data_iff:
  "file_can_request_data m \<longleftrightarrow>
     \<not> mode_is_dir m \<and> \<not> has_mode m mode_symlink \<and> \<not> has_mode m mode_named_pipe \<and>
     \<not> has_mode m mode_socket \<and> \<not> has_mode m mode_device \<and> \<not> has_mode m mode_char_device \<and>
     \<not> has_mode m mode_irregular"
  by (simp add: file_can_request_data_def mode_type_def and_or_eq_0 mode_is_dir_def has_mode_def)

section \<open>File information\<close>

text \<open>
  What a change handler receives: no information at all (a nil \<open>os.FileInfo\<close>, or a \<open>StatInfo\<close>
  around a nil \<open>Stat\<close>, on which every accessor panics), a \<open>StatInfo\<close> around a \<open>Stat\<close>, or some
  other \<open>os.FileInfo\<close>, known by its mode, whose \<open>Sys()\<close> is not a \<open>Stat\<close>.
\<close>

datatype file_info = NilInfo | StatInfo stat | OtherInfo "32 word"

datatype change_kind = ChangeKindAdd | ChangeKindModify | ChangeKindDelete

fun fi_mode :: "file_info \<Rightarrow> (32 word) res" where
  "fi_mode NilInfo = Inl (Panic ''nil FileInfo'')"
| "fi_mode (StatInfo s) = Inr (st_mode s)"
| "fi_mode (OtherInfo m) = Inr m"

definition fi_is_dir :: "file_info \<Rightarrow> bool res" where
  "fi_is_dir fi = res_bind (fi_mode fi) (\<lambda>m. Inr (mode_is_dir m))"

lemma fi_is_dir_StatInfo [simp]: "fi_is_dir (StatInfo s) = Inr (stat_is_dir s)"
  by (simp add: fi_is_dir_def stat_is_dir_def)

section \<open>Cloning and comparing messages\<close>

text \<open>\<open>Stat.CloneVT\<close> and \<open>Stat.EqualVT\<close>; a nil pointer is \<^const>\<open>None\<close>.\<close>

fun clone_vt :: "stat option \<Rightarrow> stat option" where
  "clone_vt None = None"
| "clone_vt (Some m) =
     Some \<lparr>st_path = st_path m, st_mode = st_mode m, st_uid = st_uid m, st_gid = st_gid m,
       st_size = st_size m, st_modtime = st_modtime m, st_linkname = st_linkname m,
       st_devmajor = st_devmajor m, st_devminor = st_devminor m,
       st_xattrs = map (\<lambda>(k, v). (k, v)) (st_xattrs m), st_unknown = st_unknown m\<rparr>"

fun equal_vt :: "stat option \<Rightarrow> stat option \<Rightarrow> bool" where
  "equal_vt None None = True"
| "equal_vt None (Some _) = False"
| "equal_vt (Some _) None = False"
| "equal_vt (Some a) (Some b) =
     (if st_path a \<noteq> st_path b then False
      else if st_mode a \<noteq> st_mode b then False
      else if st_uid a \<noteq> st_uid b then False
      else if st_gid a \<noteq> st_gid b then False
      else if st_size a \<noteq> st_size b then False
      else if st_modtime a \<noteq> st_modtime b then False
      else if st_linkname a \<noteq> st_linkname b then False
      else if st_devmajor a \<noteq> st_devmajor b then False
      else if st_devminor a \<noteq> st_devminor b then False
      else if length (st_xattrs a) \<noteq> length (st_xattrs b) then False
      else if \<not> list_all (\<lambda>(k, v). map_of (st_xattrs b) k = Some v) (st_xattrs a) then False
      else st_unknown a = st_unknown b)"

text \<open>A Go map has one value per key; the association list shows it in some order.\<close>

definition stat_ok :: "stat \<Rightarrow> bool" where
  "stat_ok s \<longleftrightarrow> distinct (map fst (st_xattrs s))"

text \<open>Equality of two messages as Go sees them: field by field, maps as functions.\<close>

definition same_stat :: "stat \<Rightarrow> stat \<Rightarrow> bool" where
  "same_stat a b \<longleftrightarrow>
     b\<lparr>st_xattrs := []\<rparr> = a\<lparr>st_xattrs := []\<rparr> \<and> map_of (st_xattrs a) = map_of (st_xattrs b)"

lemma clone_vt_id [simp]: "clone_vt m = m"
  by (cases m) (auto simp: case_prod_unfold)

lemma map_of_subset_eq:
  assumes "distinct (map fst xs)" "distinct (map fst ys)" "length xs = length ys"
    and "list_all (\<lambda>(k, v). map_of ys k = Some v) xs"
  shows "map_of xs = map_of ys"
proof -
  have sub: "set xs \<subseteq> set ys"
    using assms(4) by (auto simp: list_all_iff dest: map_of_SomeD)
  have "card (set xs) = card (set ys)"
    using assms(1-3) by (metis distinct_card distinct_map length_map)
  then have "set xs = set ys" using sub by (simp add: card_subset_eq)
  then show ?thesis using assms(1,2) by (metis map_of_inject_set)
qed

lemma equal_vt_iff:
  assumes "stat_ok a" "stat_ok b"
  shows "equal_vt (Some a) (Some b) \<longleftrightarrow> same_stat a b"
proof -
  have "length (st_xattrs a) = length (st_xattrs b) \<and>
      list_all (\<lambda>(k, v). map_of (st_xattrs b) k = Some v) (st_xattrs a) \<longleftrightarrow>
      map_of (st_xattrs a) = map_of (st_xattrs b)"
  proof
    assume eq: "map_of (st_xattrs a) = map_of (st_xattrs b)"
    then have sets: "set (st_xattrs a) = set (st_xattrs b)"
      using assms by (metis map_of_inject_set stat_ok_def)
    then have "length (st_xattrs a) = length (st_xattrs b)"
      using assms by (metis distinct_card distinct_map length_map stat_ok_def)
    moreover have "list_all (\<lambda>(k, v). map_of (st_xattrs b) k = Some v) (st_xattrs a)"
      using assms sets by (auto simp: list_all_iff stat_ok_def)
    ultimately show "length (st_xattrs a) = length (st_xattrs b) \<and>
      list_all (\<lambda>(k, v). map_of (st_xattrs b) k = Some v) (st_xattrs a)" by simp
  next
    assume "length (st_xattrs a) = length (st_xattrs b) \<and>
      list_all (\<lambda>(k, v). map_of (st_xattrs b) k = Some v) (st_xattrs a)"
    then show "map_of (st_xattrs a) = map_of (st_xattrs b)"
      using assms by (intro map_of_subset_eq) (auto simp: stat_ok_def)
  qed
  then show ?thesis by (cases a; cases b) (auto simp: same_stat_def)
qed

end
