(* ===== verification/Path_Order.thy ===== *)
theory Path_Order
  imports Types_Stat
begin

text \<open>
  The order in which trees are walked and changes are sent: \<open>ComparePath\<close> of
  \<open>validator.go\<close>. It is a linear order on all strings (an interpretation of the class
  \<open>linorder\<close>), in which the paths below a directory follow the directory immediately, and on
  clean paths it is the lexicographic order of the component lists.
\<close>

section \<open>ComparePath\<close>

text \<open>The loop over the common length; \<^const>\<open>None\<close> when it finds no difference.\<close>

fun compare_bytes :: "string \<Rightarrow> string \<Rightarrow> int option" where
  "compare_bytes (a # p1) (b # p2) =
     (if a = b then compare_bytes p1 p2
      else if b \<noteq> slash \<and> a < b \<or> a = slash then Some (- 1)
      else Some 1)"
| "compare_bytes _ _ = None"

definition compare_path :: "string \<Rightarrow> string \<Rightarrow> int" where
  "compare_path p1 p2 =
     (case compare_bytes p1 p2 of
        Some r \<Rightarrow> r
      | None \<Rightarrow> int (length p1) - int (length p2))"

definition path_less :: "string \<Rightarrow> string \<Rightarrow> bool" where
  "path_less p q \<longleftrightarrow> compare_path p q < 0"

definition path_le :: "string \<Rightarrow> string \<Rightarrow> bool" where
  "path_le p q \<longleftrightarrow> compare_path p q \<le> 0"

section \<open>A key that explains the order\<close>

text \<open>The slash is moved below every other byte; then the order is the lexicographic one.\<close>

definition byte_key :: "char \<Rightarrow> nat" where
  "byte_key c = (if c = slash then 0 else Suc (of_char c))"

abbreviation path_key :: "string \<Rightarrow> nat list" where
  "path_key p \<equiv> map byte_key p"

lemma byte_key_inj: "byte_key a = byte_key b \<longleftrightarrow> a = b"
  by (auto simp: byte_key_def)

lemma byte_key_less:
  "a \<noteq> b \<Longrightarrow> (b \<noteq> slash \<and> a < b \<or> a = slash) \<longleftrightarrow> byte_key a < byte_key b"
  by (auto simp: byte_key_def char_less_iff)

lemma path_key_inj: "path_key p = path_key q \<longleftrightarrow> p = q"
  by (metis byte_key_inj inj_def inj_map_eq_map)

lemma compare_path_Cons [simp]:
  "compare_path (a # p) (b # q) =
     (if a = b then compare_path p q else if byte_key a < byte_key b then - 1 else 1)"
  using byte_key_less[of a b] by (auto simp: compare_path_def split: option.splits)

lemma compare_path_Nil [simp]:
  "compare_path [] q = - int (length q)"
  "compare_path p [] = int (length p)"
  by (simp add: compare_path_def, cases p) (simp_all add: compare_path_def)

lemma compare_path_key:
  "(compare_path p q < 0 \<longleftrightarrow> path_key p < path_key q) \<and> (compare_path p q = 0 \<longleftrightarrow> p = q)"
proof (induction p arbitrary: q)
  case Nil
  then show ?case by (cases q) auto
next
  case (Cons a p)
  then show ?case
  proof (cases q)
    case (Cons b q')
    then show ?thesis using Cons.IH[of q'] byte_key_inj[of a b] by auto
  qed auto
qed

lemma path_less_key: "path_less p q \<longleftrightarrow> path_key p < path_key q"
  by (simp add: path_less_def compare_path_key)

lemma path_le_key: "path_le p q \<longleftrightarrow> path_key p \<le> path_key q"
proof -
  have "path_le p q \<longleftrightarrow> compare_path p q < 0 \<or> compare_path p q = 0"
    by (auto simp: path_le_def)
  also have "\<dots> \<longleftrightarrow> path_key p < path_key q \<or> path_key p = path_key q"
    by (simp only: compare_path_key path_key_inj)
  finally show ?thesis by (simp only: le_less)
qed

interpretation path_ord: linorder path_le path_less
proof unfold_locales
  fix p q r :: string
  show "path_less p q \<longleftrightarrow> path_le p q \<and> \<not> path_le q p"
    by (auto simp: path_less_key path_le_key)
  show "path_le p p" by (simp add: path_le_key)
  show "path_le p q \<Longrightarrow> path_le q r \<Longrightarrow> path_le p r" by (auto simp: path_le_key)
  show "path_le p q \<Longrightarrow> path_le q p \<Longrightarrow> p = q"
    unfolding path_le_key using path_key_inj by (metis order_antisym)
  show "path_le p q \<or> path_le q p" by (auto simp: path_le_key)
qed

lemma compare_path_antisym: "(compare_path p q > 0) \<longleftrightarrow> path_less q p"
proof -
  have "compare_path p q > 0 \<longleftrightarrow> \<not> path_less p q \<and> p \<noteq> q"
    using compare_path_key[of p q] by (auto simp: path_less_def)
  then show ?thesis by (metis path_ord.less_irrefl path_ord.linorder_cases path_ord.less_asym)
qed

section \<open>Directories and what is below them\<close>

text \<open>\<open>below d p\<close>: the test \<open>strings.HasPrefix(p, d + "/")\<close>.\<close>

definition below :: "string \<Rightarrow> string \<Rightarrow> bool" where
  "below d p \<longleftrightarrow> has_prefix p (d @ [slash])"

lemma below_append [simp]: "below d (d @ slash # r)"
  by (simp add: below_def)

lemma belowE:
  assumes "below d p"
  obtains r where "p = d @ slash # r"
  using assms by (auto simp: below_def elim: prefixE)

lemma path_less_prefix: "r \<noteq> [] \<Longrightarrow> path_less d (d @ r)"
proof (induction d)
  case Nil
  then show ?case by (auto simp: path_less_def)
next
  case (Cons a d)
  then show ?case by (simp add: path_less_def)
qed

lemma below_less: "below d p \<Longrightarrow> path_less d p"
  by (auto elim!: belowE intro: path_less_prefix)

text \<open>Nothing that is not below a directory sorts between it and a path below it.\<close>

lemma below_convex:
  assumes "path_less d q" "path_less q r" "below d r"
  shows "below d q"
proof -
  obtain s where "r = d @ slash # s" using assms(3) by (rule belowE)
  then have "path_less q (d @ slash # s)" using assms(2) by simp
  with assms(1) show ?thesis
  proof (induction d arbitrary: q)
    case Nil
    then show ?case
      by (cases q) (auto simp: below_def path_less_def byte_key_def split: if_splits)
  next
    case (Cons a d)
    obtain b q' where q: "q = b # q'"
      using Cons.prems(1) by (cases q) (auto simp: path_less_def)
    have "a = b"
    proof (rule ccontr)
      assume "a \<noteq> b"
      then have "byte_key a < byte_key b" "byte_key b < byte_key a"
        using Cons.prems q by (auto simp: path_less_def split: if_splits)
      then show False by simp
    qed
    then show ?case
      using Cons.IH[of q'] Cons.prems q by (simp add: path_less_def below_def)
  qed
qed

lemma below_trans: "below d p \<Longrightarrow> below p q \<Longrightarrow> below d q"
  unfolding below_def by (metis append_prefixD prefix_order.trans)

lemma below_not_refl [simp]: "\<not> below p p"
  using below_less[of p p] by auto

section \<open>Component order\<close>

lemma key_less_slashless:
  assumes "x < y" "slash \<notin> set x" "slash \<notin> set y"
    and "r = [] \<or> hd r = slash" "s = [] \<or> hd s = slash"
  shows "path_key (x @ r) < path_key (y @ s)"
  using assms(1-3)
proof (induction x arbitrary: y)
  case Nil
  then obtain b y' where y: "y = b # y'" by (cases y) auto
  then have "0 < byte_key b" using Nil by (auto simp: byte_key_def)
  then show ?case using assms(4) y by (cases r) (auto simp: byte_key_def)
next
  case (Cons a x)
  then obtain b y' where y: "y = b # y'" by (cases y) auto
  show ?case
  proof (cases "a = b")
    case True
    then show ?thesis using Cons y by simp
  next
    case False
    then have "a < b" using Cons.prems(1) y by auto
    then have "byte_key a < byte_key b"
      using Cons.prems y by (auto simp: byte_key_def char_less_iff)
    then show ?thesis using y by simp
  qed
qed

lemma join_slash_hd_tl:
  "join_slash (x # xs) = x @ (if xs = [] then [] else slash # join_slash xs)"
  by (cases xs) auto

lemma path_less_join:
  assumes "\<forall>x \<in> set xs. slash \<notin> set x" "\<forall>y \<in> set ys. slash \<notin> set y" "xs \<noteq> []" "ys \<noteq> []"
    and "xs < ys"
  shows "path_less (join_slash xs) (join_slash ys)"
  using assms
proof (induction xs arbitrary: ys)
  case Nil
  then show ?case by simp
next
  case (Cons x xs)
  then obtain y ys' where ys: "ys = y # ys'" by (cases ys) auto
  show ?case
  proof (cases "x = y")
    case True
    have less: "xs < ys'" using Cons.prems(5) ys True by auto
    then have ne: "ys' \<noteq> []" by auto
    show ?thesis
    proof (cases "xs = []")
      case True
      then show ?thesis using ys \<open>x = y\<close> ne path_less_prefix by (simp add: join_slash_hd_tl)
    next
      case False
      then have "path_less (join_slash xs) (join_slash ys')"
        using Cons.IH[of ys'] Cons.prems ys ne less by auto
      then show ?thesis
        using False ne ys \<open>x = y\<close> by (simp add: join_slash_hd_tl path_less_key del: append_Cons)
    qed
  next
    case False
    then have "x < y" using Cons.prems(5) ys by auto
    then have "path_key (x @ (if xs = [] then [] else slash # join_slash xs))
        < path_key (y @ (if ys' = [] then [] else slash # join_slash ys'))"
      using Cons.prems(1,2) ys by (intro key_less_slashless) auto
    then show ?thesis using ys by (simp only: path_less_key join_slash_hd_tl)
  qed
qed

text \<open>Clean paths compare as their lists of components do, name by name.\<close>

lemma path_less_join_iff:
  assumes "\<forall>x \<in> set xs. slash \<notin> set x" "\<forall>y \<in> set ys. slash \<notin> set y" "xs \<noteq> []" "ys \<noteq> []"
  shows "path_less (join_slash xs) (join_slash ys) \<longleftrightarrow> xs < ys"
proof
  assume less: "path_less (join_slash xs) (join_slash ys)"
  show "xs < ys"
  proof (rule ccontr)
    assume "\<not> xs < ys"
    then have "ys < xs \<or> ys = xs" by auto
    then have "path_less (join_slash ys) (join_slash xs) \<or> join_slash ys = join_slash xs"
      using path_less_join[OF assms(2,1,4,3)] by auto
    then show False using less path_ord.less_asym by auto
  qed
qed (rule path_less_join[OF assms])

lemma path_less_split_iff: "path_less p q \<longleftrightarrow> split_slash p < split_slash q"
  using path_less_join_iff[of "split_slash p" "split_slash q"] by (auto dest: split_slash_no_slash)

section \<open>Properties\<close>

text \<open>C23. \<open>ComparePath\<close> orders two paths as their lists of components compare lexicographically,
  name by name (so a directory comes before its contents, and these come before its next
  sibling); it is zero only on equal paths, and swapping the arguments swaps the sign.\<close>

theorem compare_path_component_order:
  "(compare_path p q < 0 \<longleftrightarrow> split_slash p < split_slash q) \<and>
   (compare_path p q = 0 \<longleftrightarrow> p = q) \<and>
   (0 < compare_path p q \<longleftrightarrow> compare_path q p < 0)"
  using path_less_split_iff[of p q] compare_path_key[of p q] compare_path_antisym[of p q]
  by (simp add: path_less_def)

text \<open>The subtree of a directory is contiguous in this order: whatever sorts between a directory
  and a path below it is below it too.\<close>

theorem compare_path_subtree:
  assumes "compare_path d q < 0" "compare_path q r < 0" "below d r"
  shows "below d q"
  using below_convex[of d q r] assms by (simp add: path_less_def)

theorem compare_path_subtree_witness: "below ''a'' ''a/b''"
  using compare_path_subtree[of "''a''" "''a/b''" "''a/b/c''"]
  by (simp add: below_def byte_key_def)

end
