(* ===== verification/Validator.thy ===== *)
theory Validator
  imports Path_Order
begin

text \<open>
  \<open>validator.go\<close>: the receiver's check that the stream of changes is in tree order and that
  every change's parent directory was part of it. The state is the slice \<open>parentDirs\<close>; the
  binary search is \<open>sort.Search\<close> of the standard library.

  The lemmas show that the slice is a function of the last accepted change alone
  (\<open>validator_state\<close>), that one step accepts exactly the paths that may follow, and, in
  \<open>validator_accepts_iff\<close>, that a stream is accepted exactly when it is strictly sorted, every
  path is local to the root, and every parent directory came before.
\<close>

section \<open>sort.Search\<close>

text \<open>
  \<^verbatim>\<open>
  i, j := 0, n
  for i < j { h := (i + j) / 2; if !f(h) { i = h + 1 } else { j = h } }
  return i
  \<close>
\<close>

function search_loop :: "(nat \<Rightarrow> bool) \<Rightarrow> nat \<Rightarrow> nat \<Rightarrow> nat" where
  "search_loop f i j =
     (if i < j then
        let h = (i + j) div 2
        in if \<not> f h then search_loop f (h + 1) j else search_loop f i h
      else i)"
  by pat_completeness auto
termination
  by (relation "measure (\<lambda>(f, i, j). j - i)") auto

declare search_loop.simps [simp del]

definition sort_search :: "nat \<Rightarrow> (nat \<Rightarrow> bool) \<Rightarrow> nat" where
  "sort_search n f = search_loop f 0 n"

lemma search_loop_correct:
  assumes "i \<le> j" "j \<le> n" "\<forall>a b. a \<le> b \<and> b < n \<and> f a \<longrightarrow> f b"
    and "\<forall>k < i. \<not> f k" "\<forall>k. j \<le> k \<and> k < n \<longrightarrow> f k"
  shows "search_loop f i j \<le> n \<and> (\<forall>k < search_loop f i j. \<not> f k) \<and>
    (\<forall>k. search_loop f i j \<le> k \<and> k < n \<longrightarrow> f k)"
  using assms
proof (induction f i j rule: search_loop.induct)
  case (1 f i j)
  show ?case
  proof (cases "i < j")
    case False
    then have "search_loop f i j = i" by (simp add: search_loop.simps[of f i j])
    moreover have "i = j" using False "1.prems"(1) by simp
    ultimately show ?thesis using "1.prems"(2,4,5) by simp
  next
    case True
    define h where "h = (i + j) div 2"
    have h: "i \<le> h" "h < j" using True by (auto simp: h_def)
    show ?thesis
    proof (cases "f h")
      case True
      have eq: "search_loop f i j = search_loop f i h"
        using \<open>i < j\<close> True by (simp add: search_loop.simps[of f i j] h_def)
      have "\<forall>k. h \<le> k \<and> k < n \<longrightarrow> f k" using "1.prems"(3) True by blast
      moreover have "\<not> \<not> f h" "h \<le> n" using True h "1.prems"(2) by auto
      ultimately show ?thesis
        unfolding eq using "1.IH"(2)[OF \<open>i < j\<close> h_def _ h(1)] "1.prems"(3,4) by blast
    next
      case False
      have eq: "search_loop f i j = search_loop f (h + 1) j"
        using \<open>i < j\<close> False by (simp add: search_loop.simps[of f i j] h_def)
      have "\<not> f k" if "k < h + 1" for k
        using "1.prems"(2,3) False h that by (metis le_less_trans less_Suc_eq_le order_less_le_trans Suc_eq_plus1)
      then have "\<forall>k < h + 1. \<not> f k" by blast
      moreover have "h + 1 \<le> j" using h by simp
      ultimately show ?thesis
        unfolding eq using "1.IH"(1)[OF \<open>i < j\<close> h_def False] "1.prems"(2,3,5) by blast
    qed
  qed
qed

lemma sort_search_first:
  assumes "\<forall>a b. a \<le> b \<and> b < n \<and> f a \<longrightarrow> f b"
  shows "sort_search n f \<le> n" "k < sort_search n f \<Longrightarrow> \<not> f k"
    "sort_search n f \<le> k \<Longrightarrow> k < n \<Longrightarrow> f k"
proof -
  have "search_loop f 0 n \<le> n \<and> (\<forall>k < search_loop f 0 n. \<not> f k) \<and>
      (\<forall>k. search_loop f 0 n \<le> k \<and> k < n \<longrightarrow> f k)"
    by (rule search_loop_correct[OF _ _ assms]) auto
  then show "sort_search n f \<le> n" "k < sort_search n f \<Longrightarrow> \<not> f k"
    "sort_search n f \<le> k \<Longrightarrow> k < n \<Longrightarrow> f k"
    unfolding sort_search_def by blast+
qed

section \<open>State and handler\<close>

record parent =
  pr_dir :: string
  pr_last :: string

text \<open>\<open>Validator.parentDirs\<close>; the empty list is the nil slice of a fresh validator.\<close>

record validator =
  parent_dirs :: "parent list"

definition new_validator :: validator where
  "new_validator = \<lparr>parent_dirs = []\<rparr>"

text \<open>
  \<open>Validator.HandleChange\<close>. The index \<open>i\<close> is kept as an integer: were the search to find
  nothing, it would be \<open>-1\<close> and the slice accesses would panic. A failed call returns the
  error only; every caller stops at it.
\<close>

definition validator_handle_change ::
  "change_kind \<Rightarrow> string \<Rightarrow> file_info \<Rightarrow> go_error option \<Rightarrow> validator \<Rightarrow> validator res" where
  "validator_handle_change kind p fi err v =
     (case err of Some e \<Rightarrow> Inl e
      | None \<Rightarrow>
        let pds = (if parent_dirs v = [] then [\<lparr>pr_dir = [], pr_last = []\<rparr>] else parent_dirs v)
        in if p \<noteq> clean p then Inl (PathError ''unclean path'' p EINVAL)
        else if is_abs p then Inl (PathError ''absolute path'' p EINVAL)
        else
          let d0 = dir p; b = base p; d = (if d0 = ''.'' then [] else d0)
          in if p = ''..'' \<or> d = ''..'' \<or> has_prefix p ''../'' then
               Inl (PathError ''escape check'' p EINVAL)
          else
            let n = length pds;
                s = sort_search n (\<lambda>i. compare_path (pr_dir (pds ! (n - 1 - i))) d \<le> 0);
                i = int n - 1 - int s
            in if i < 0 then Inl (Panic ''index out of range'')
            else
              let k = nat i;
                  pds = (if i \<noteq> int n - 1 then take (k + 1) pds else pds)
              in if d \<noteq> pr_dir (last pds) \<or> pr_last (pds ! k) \<ge> b then
                   Inl (Errorf ''changes out of order: %q %q''
                     [p, join2 (pr_dir (pds ! k)) (pr_last (pds ! k))])
              else
                let pds = pds[k := (pds ! k)\<lparr>pr_last := b\<rparr>]
                in if kind \<noteq> ChangeKindDelete then
                     res_bind (fi_is_dir fi) (\<lambda>isdir.
                       Inr (v\<lparr>parent_dirs :=
                         (if isdir then pds @ [\<lparr>pr_dir = join2 d b, pr_last = []\<rparr>] else pds)\<rparr>))
                   else Inr (v\<lparr>parent_dirs := pds\<rparr>))"

section \<open>The slice is determined by the last accepted change\<close>

text \<open>
  The chain of a path with components \<open>cs\<close>: each ancestor directory with the name the path
  continues with below it.
\<close>

definition chain :: "string list \<Rightarrow> parent list" where
  "chain cs = map (\<lambda>j. \<lparr>pr_dir = join_slash (take j cs), pr_last = cs ! j\<rparr>) [0..<length cs]"

definition chain_state :: "string list \<Rightarrow> bool \<Rightarrow> parent list" where
  "chain_state cs isdir =
     chain cs @ (if isdir then [\<lparr>pr_dir = join_slash cs, pr_last = []\<rparr>] else [])"

text \<open>
  A change as the validator sees it: kind, path, whether it is a directory. It opens a
  directory when it is one and is not a deletion.
\<close>

record vchange =
  vc_kind :: change_kind
  vc_path :: string
  vc_info :: stat

definition opens_dir :: "vchange \<Rightarrow> bool" where
  "opens_dir c \<longleftrightarrow> vc_kind c \<noteq> ChangeKindDelete \<and> stat_is_dir (vc_info c)"

definition validator_state :: "vchange option \<Rightarrow> parent list" where
  "validator_state lc =
     (case lc of
        None \<Rightarrow> [\<lparr>pr_dir = [], pr_last = []\<rparr>]
      | Some c \<Rightarrow> chain_state (split_slash (vc_path c)) (opens_dir c))"

lemma length_chain [simp]: "length (chain cs) = length cs"
  by (simp add: chain_def)

lemma chain_nth [simp]:
  "j < length cs \<Longrightarrow> chain cs ! j = \<lparr>pr_dir = join_slash (take j cs), pr_last = cs ! j\<rparr>"
  by (simp add: chain_def)

text \<open>Every state is a chain whose final name may be empty: \<open>cs\<close> with \<open>[]\<close> appended.\<close>

lemma chain_snoc:
  "chain (cs @ [c]) = chain cs @ [\<lparr>pr_dir = join_slash cs, pr_last = c\<rparr>]"
  by (auto simp: chain_def nth_append)

lemma chain_state_chain: "chain_state cs isdir = chain (if isdir then cs @ [[]] else cs)"
  by (simp add: chain_state_def chain_snoc)

definition state_names :: "vchange option \<Rightarrow> string list" where
  "state_names lc =
     (case lc of None \<Rightarrow> [[]]
      | Some c \<Rightarrow> split_slash (vc_path c) @ (if opens_dir c then [[]] else []))"

lemma validator_state_chain: "validator_state lc = chain (state_names lc)"
  by (auto simp: validator_state_def state_names_def chain_state_chain chain_def split: option.splits)

text \<open>Names are never empty except the last one, which marks an open directory.\<close>

definition names_ok :: "string list \<Rightarrow> bool" where
  "names_ok ns \<longleftrightarrow> ns \<noteq> [] \<and> (\<forall>c \<in> set ns. slash \<notin> set c) \<and>
     (\<forall>c \<in> set (butlast ns). c \<noteq> [])"

definition last_ok :: "vchange option \<Rightarrow> bool" where
  "last_ok lc \<longleftrightarrow> (case lc of None \<Rightarrow> True | Some c \<Rightarrow> local_path (vc_path c))"

lemma state_names_ok: "last_ok lc \<Longrightarrow> names_ok (state_names lc)"
  using local_comps_nonempty[OF local_comps_split] local_comps_no_slash[OF local_comps_split]
    in_set_butlastD
  by (fastforce simp: last_ok_def state_names_def names_ok_def butlast_append split: option.splits)

section \<open>One step\<close>

lemma list_less_take:
  "j < k \<Longrightarrow> k \<le> length cs \<Longrightarrow> take j cs < take k (cs :: string list)"
proof (induction cs arbitrary: j k)
  case Nil
  then show ?case by simp
next
  case (Cons c cs)
  then show ?case by (cases k; cases j) auto
qed

lemma chain_dirs_increasing:
  assumes "names_ok ns" "j < k" "k < length ns"
  shows "path_less (join_slash (take j ns)) (join_slash (take k ns))"
proof (cases "j = 0")
  case True
  have "join_slash (take k ns) \<noteq> []"
  proof -
    have "hd ns \<noteq> []" using assms unfolding names_ok_def
      by (cases ns) (auto simp: in_set_butlast_appendI split: if_splits)
    then show ?thesis using assms by (cases ns; cases k) (auto simp: join_slash_eq_Nil)
  qed
  then show ?thesis using True by (cases "join_slash (take k ns)") (auto simp: path_less_def)
next
  case False
  then show ?thesis
    using assms list_less_take[of j k ns]
    by (intro path_less_join) (auto simp: names_ok_def dest: in_set_takeD)
qed

text \<open>
  The search over the chain of \<open>ns\<close> for the directory \<open>join_slash (take k ns)\<close> stops at
  index \<open>k\<close>; for any other directory it stops at a chain entry with another directory.
\<close>

definition found_index :: "string list \<Rightarrow> string \<Rightarrow> int" where
  "found_index ns d =
     int (length ns) - 1 -
     int (sort_search (length ns)
       (\<lambda>i. compare_path (pr_dir (chain ns ! (length ns - 1 - i))) d \<le> 0))"

lemma found_index_props:
  assumes "names_ok ns"
  shows "0 \<le> found_index ns d" "found_index ns d < int (length ns)"
    "path_le (join_slash (take (nat (found_index ns d)) ns)) d"
    "\<And>k. k < length ns \<Longrightarrow> path_le (join_slash (take k ns)) d \<Longrightarrow> int k \<le> found_index ns d"
proof -
  define n where "n = length ns"
  define f where "f = (\<lambda>i. compare_path (pr_dir (chain ns ! (n - 1 - i))) d \<le> 0)"
  have n: "n > 0" using assms by (auto simp: names_ok_def n_def)
  have f: "f i \<longleftrightarrow> path_le (join_slash (take (n - 1 - i) ns)) d" for i
    using n by (simp add: f_def path_le_def n_def)
  have mono1: "f b" if "a \<le> b" "b < n" "f a" for a b
  proof -
    have "path_le (join_slash (take (n - 1 - b) ns)) (join_slash (take (n - 1 - a) ns))"
      using chain_dirs_increasing[OF assms, of "n - 1 - b" "n - 1 - a"] that n
      by (cases "a = b") (auto simp: n_def intro: path_ord.less_imp_le)
    then show ?thesis using that f path_ord.order_trans by blast
  qed
  then have mono: "\<forall>a b. a \<le> b \<and> b < n \<and> f a \<longrightarrow> f b" by blast
  define s where "s = sort_search n f"
  have fi: "found_index ns d = int n - 1 - int s"
    by (simp add: found_index_def s_def f_def n_def)
  have "f (n - 1)" by (cases d) (auto simp: f path_le_def)
  note first = sort_search_first[of n f, OF mono, folded s_def]
  have not_before: "\<forall>k < s. \<not> f k" using first(2) by blast
  have "\<not> n - 1 < s" using not_before \<open>f (n - 1)\<close> by blast
  then have "s < n" using n by simp
  then have s: "s < n" "f s" "\<forall>k < s. \<not> f k" using first(3) not_before by auto
  show "0 \<le> found_index ns d" "found_index ns d < int (length ns)"
    using s n fi by (auto simp: n_def)
  have "nat (found_index ns d) = n - 1 - s" using s fi by simp
  then show "path_le (join_slash (take (nat (found_index ns d)) ns)) d"
    using s(2) f by simp
  fix k assume k: "k < length ns" "path_le (join_slash (take k ns)) d"
  then have "f (n - 1 - k)" using f[of "n - 1 - k"] by (simp add: n_def)
  then have "s \<le> n - 1 - k" using s(3) by (meson not_le_imp_less)
  then show "int k \<le> found_index ns d" using fi k(1) n by (auto simp: n_def)
qed

lemma found_index_hit:
  assumes "names_ok ns" "k < length ns"
  shows "found_index ns (join_slash (take k ns)) = int k"
proof (rule antisym)
  let ?d = "join_slash (take k ns)"
  note props = found_index_props[OF assms(1), where d = ?d]
  show "int k \<le> found_index ns ?d" using props(4)[OF assms(2)] by simp
  show "found_index ns ?d \<le> int k"
  proof (rule ccontr)
    assume "\<not> ?thesis"
    then have "path_less ?d (join_slash (take (nat (found_index ns ?d)) ns))"
      using props(1,2) assms by (intro chain_dirs_increasing) auto
    then show False using props(3) path_ord.not_le by blast
  qed
qed

text \<open>
  What may come after the last accepted change: a local path whose parent directory is on the
  chain, with a name greater than the chain's current name there.
\<close>

definition may_follow :: "vchange option \<Rightarrow> string \<Rightarrow> bool" where
  "may_follow lc p \<longleftrightarrow> local_path p \<and>
     (\<exists>k < length (state_names lc).
        parent_of p = join_slash (take k (state_names lc)) \<and> state_names lc ! k < base p)"

definition validator_matches :: "vchange option \<Rightarrow> validator \<Rightarrow> bool" where
  "validator_matches lc v \<longleftrightarrow>
     parent_dirs v = validator_state lc \<or> lc = None \<and> parent_dirs v = []"

lemma parent_of_not_up: "local_path p \<Longrightarrow> parent_of p \<noteq> ''..''"
proof
  assume p: "local_path p" and up: "parent_of p = ''..''"
  let ?cs = "butlast (split_slash p)"
  have ne: "?cs \<noteq> []" using up by (auto simp: parent_of_def)
  have "split_slash (join_slash ?cs) = ?cs"
    using ne by (intro split_join_slash) (auto dest: split_slash_no_slash[OF in_set_butlastD])
  then have cs: "?cs = [''..'']" using up by (simp add: parent_of_def split_slash_no_slash_id)
  have "p \<noteq> ''.''" using ne by auto
  then have "good_comps (split_slash p)" using p by (auto simp: local_path_iff good_path_def)
  then have "\<forall>c \<in> set (split_slash p). good_comp c" by (simp add: good_comps_def list_all_iff)
  moreover have "''..'' \<in> set (split_slash p)" using cs by (metis in_set_butlastD list.set_intros(1))
  ultimately have "good_comp ''..''" by (rule bspec)
  then show False using good_compD(4) by blast
qed

lemma join_butlast_inj:
  assumes "names_ok ns" "k < length ns" "local_path p" "parent_of p = join_slash (take k ns)"
  shows "butlast (split_slash p) = take k ns"
proof -
  let ?cs = "butlast (split_slash p)"
  have cs: "\<forall>c \<in> set ?cs. c \<noteq> [] \<and> slash \<notin> set c"
    using local_comps_nonempty[OF local_comps_split[OF assms(3)]]
    by (auto dest: in_set_butlastD split_slash_no_slash[OF in_set_butlastD])
  have "take k ns = take k (butlast ns)" using assms(2) by (simp add: take_butlast)
  then have ns: "\<forall>c \<in> set (take k ns). c \<noteq> [] \<and> slash \<notin> set c"
    using assms(1) by (auto simp: names_ok_def dest: in_set_takeD in_set_butlastD)
  have eq: "join_slash ?cs = join_slash (take k ns)" using assms(4) by (simp add: parent_of_def)
  show ?thesis
  proof (cases "?cs = [] \<or> take k ns = []")
    case True
    then show ?thesis using eq cs ns by (metis join_slash.simps(1) join_slash_eq_Nil list.set_intros(1))
  next
    case False
    then show ?thesis using eq cs ns by (intro join_slash_inj) auto
  qed
qed

lemma chain_take_update:
  assumes "k < length ns"
  shows "(take (Suc k) (chain ns))[k := (take (Suc k) (chain ns) ! k)\<lparr>pr_last := b\<rparr>]
    = chain (take k ns @ [b])"
  using assms by (intro nth_equalityI) (auto simp: nth_list_update chain_def nth_append less_Suc_eq)

lemma validator_step_search:
  assumes "names_ok ns" "local_path p"
    and pds: "(if parent_dirs v = [] then [\<lparr>pr_dir = [], pr_last = []\<rparr>] else parent_dirs v) = chain ns"
  shows "\<exists>k < length ns. int k = found_index ns (parent_of p) \<and>
    validator_handle_change kind p (StatInfo st) None v =
      (if parent_of p \<noteq> join_slash (take k ns) \<or> ns ! k \<ge> base p then
         Inl (Errorf ''changes out of order: %q %q''
           [p, join2 (pr_dir (chain ns ! k)) (pr_last (chain ns ! k))])
       else Inr (v\<lparr>parent_dirs :=
         (if kind \<noteq> ChangeKindDelete \<and> stat_is_dir st
          then chain (take k ns @ [base p]) @ [\<lparr>pr_dir = p, pr_last = []\<rparr>]
          else chain (take k ns @ [base p]))\<rparr>))"
proof -
  let ?d = "parent_of p"
  define k where "k = nat (found_index ns ?d)"
  have k: "k < length ns" "int k = found_index ns ?d"
    using found_index_props(1,2)[OF assms(1), where d = ?d] by (auto simp: k_def)
  have d: "(if dir p = ''.'' then [] else dir p) = ?d" by (rule dir_local[OF assms(2)])
  have acc: "clean p = p" "\<not> is_abs p" "p \<noteq> ''..''" "\<not> has_prefix p ''../''" "?d \<noteq> ''..''"
    using assms(2) parent_of_not_up by (auto simp: local_path_def)
  have search: "int (length (chain ns)) - 1 -
      int (sort_search (length (chain ns))
        (\<lambda>i. compare_path (pr_dir (chain ns ! (length (chain ns) - 1 - i))) ?d \<le> 0)) = int k"
    using k(2) by (simp add: found_index_def)
  have last: "last (take (Suc k) (chain ns)) = chain ns ! k"
    using k(1) by (simp add: take_Suc_conv_app_nth)
  have nth: "take (Suc k) (chain ns) ! k = chain ns ! k" by simp
  have pd: "(if int k \<noteq> int (length (chain ns)) - 1
      then take (nat (int k) + 1) (chain ns) else chain ns) = take (Suc k) (chain ns)"
    using k(1) by (auto intro: take_all[symmetric])
  have upd: "(take (Suc k) (chain ns))[nat (int k) :=
      (take (Suc k) (chain ns) ! nat (int k))\<lparr>pr_last := base p\<rparr>] = chain (take k ns @ [base p])"
    using chain_take_update[OF k(1)] by simp
  have "validator_handle_change kind p (StatInfo st) None v =
      (if ?d \<noteq> join_slash (take k ns) \<or> ns ! k \<ge> base p then
         Inl (Errorf ''changes out of order: %q %q''
           [p, join2 (pr_dir (chain ns ! k)) (pr_last (chain ns ! k))])
       else Inr (v\<lparr>parent_dirs :=
         (if kind \<noteq> ChangeKindDelete \<and> stat_is_dir st
          then chain (take k ns @ [base p]) @ [\<lparr>pr_dir = p, pr_last = []\<rparr>]
          else chain (take k ns @ [base p]))\<rparr>))"
    unfolding validator_handle_change_def option.case Let_def pds d search pd upd
      join_parent_base[OF assms(2)]
    by (simp add: acc last nth k(1))
  then show ?thesis using k by blast
qed

text \<open>The step: accepted exactly when the path may follow, and then the state is its chain.\<close>

lemma matches_chain:
  "validator_matches lc v \<Longrightarrow>
   (if parent_dirs v = [] then [\<lparr>pr_dir = [], pr_last = []\<rparr>] else parent_dirs v) = chain (state_names lc)"
  by (auto simp: validator_matches_def validator_state_chain chain_def state_names_def
      split: option.splits)

lemma validator_step_ok:
  assumes "last_ok lc" "validator_matches lc v" "may_follow lc (vc_path c)"
  shows "validator_handle_change (vc_kind c) (vc_path c) (StatInfo (vc_info c)) None v =
    Inr (v\<lparr>parent_dirs := validator_state (Some c)\<rparr>)"
proof -
  let ?ns = "state_names lc" and ?p = "vc_path c"
  have ns: "names_ok ?ns" by (rule state_names_ok[OF assms(1)])
  obtain j where j: "j < length ?ns" "parent_of ?p = join_slash (take j ?ns)" "?ns ! j < base ?p"
    and p: "local_path ?p" using assms(3) by (auto simp: may_follow_def)
  obtain k where k: "k < length ?ns" "int k = found_index ?ns (parent_of ?p)"
    and eq: "validator_handle_change (vc_kind c) ?p (StatInfo (vc_info c)) None v =
      (if parent_of ?p \<noteq> join_slash (take k ?ns) \<or> ?ns ! k \<ge> base ?p then
         Inl (Errorf ''changes out of order: %q %q''
           [?p, join2 (pr_dir (chain ?ns ! k)) (pr_last (chain ?ns ! k))])
       else Inr (v\<lparr>parent_dirs :=
         (if vc_kind c \<noteq> ChangeKindDelete \<and> stat_is_dir (vc_info c)
          then chain (take k ?ns @ [base ?p]) @ [\<lparr>pr_dir = ?p, pr_last = []\<rparr>]
          else chain (take k ?ns @ [base ?p]))\<rparr>))"
    using validator_step_search[OF ns p matches_chain[OF assms(2)]] by blast
  have kj: "k = j" using k(2) j(2) found_index_hit[OF ns j(1)] by simp
  have "take k ?ns @ [base ?p] = split_slash ?p"
    using join_butlast_inj[OF ns k(1) p] j(2) kj base_local[OF p] by (metis append_butlast_last_id split_slash_nonempty)
  then show ?thesis
    using eq j kj by (auto simp: validator_state_def chain_state_def opens_dir_def)
qed

lemma validator_step_error:
  assumes "last_ok lc" "validator_matches lc v" "\<not> may_follow lc p"
  shows "\<exists>e. validator_handle_change kind p (StatInfo st) None v = Inl e \<and> (\<forall>m. e \<noteq> Panic m)"
proof (cases "local_path p")
  case True
  let ?ns = "state_names lc"
  obtain k where k: "k < length ?ns"
    and eq: "validator_handle_change kind p (StatInfo st) None v =
      (if parent_of p \<noteq> join_slash (take k ?ns) \<or> ?ns ! k \<ge> base p then
         Inl (Errorf ''changes out of order: %q %q''
           [p, join2 (pr_dir (chain ?ns ! k)) (pr_last (chain ?ns ! k))])
       else Inr (v\<lparr>parent_dirs :=
         (if kind \<noteq> ChangeKindDelete \<and> stat_is_dir st
          then chain (take k ?ns @ [base p]) @ [\<lparr>pr_dir = p, pr_last = []\<rparr>]
          else chain (take k ?ns @ [base p]))\<rparr>))"
    using validator_step_search[OF state_names_ok[OF assms(1)] True matches_chain[OF assms(2)]]
    by blast
  have "parent_of p \<noteq> join_slash (take k ?ns) \<or> ?ns ! k \<ge> base p"
    using assms(3) True k by (auto simp: may_follow_def not_less)
  then show ?thesis unfolding eq by simp
next
  case False
  then consider "p \<noteq> clean p" | "p = clean p" "is_abs p"
    | "p = clean p" "\<not> is_abs p" "p = ''..'' \<or> has_prefix p ''../''"
    by (auto simp: local_path_def)
  then show ?thesis
  proof cases
    case 1
    then show ?thesis by (simp add: validator_handle_change_def Let_def)
  next
    case 2
    then show ?thesis by (simp add: validator_handle_change_def Let_def)
  next
    case 3
    then show ?thesis by (auto simp: validator_handle_change_def Let_def)
  qed
qed

section \<open>Whole streams\<close>

definition validator_run :: "vchange list \<Rightarrow> validator \<Rightarrow> validator res" where
  "validator_run cs v =
     res_fold (\<lambda>c. validator_handle_change (vc_kind c) (vc_path c) (StatInfo (vc_info c)) None) cs v"

text \<open>
  The specification, without any state: local paths, strictly increasing in the tree order,
  each below the root directly or in a directory that an earlier change of the stream opened.
\<close>

definition tree_order :: "vchange list \<Rightarrow> bool" where
  "tree_order cs \<longleftrightarrow>
     (\<forall>c \<in> set cs. local_path (vc_path c)) \<and>
     sorted_wrt path_less (map vc_path cs) \<and>
     (\<forall>i < length cs. parent_of (vc_path (cs ! i)) = [] \<or>
        (\<exists>j < i. vc_path (cs ! j) = parent_of (vc_path (cs ! i)) \<and> opens_dir (cs ! j)))"

lemma tree_order_Nil [simp]: "tree_order []"
  by (simp add: tree_order_def)

lemma tree_order_snoc:
  "tree_order (cs @ [c]) \<longleftrightarrow>
     tree_order cs \<and> local_path (vc_path c) \<and> (\<forall>c' \<in> set cs. path_less (vc_path c') (vc_path c)) \<and>
     (parent_of (vc_path c) = [] \<or>
       (\<exists>c' \<in> set cs. vc_path c' = parent_of (vc_path c) \<and> opens_dir c'))"
proof -
  define opened where "opened = (\<lambda>ds i. parent_of (vc_path (ds ! i)) = [] \<or>
      (\<exists>j < i. vc_path (ds ! j) = parent_of (vc_path (ds ! i)) \<and> opens_dir (ds ! j)))"
  have old: "(cs @ [c]) ! j = cs ! j" if "j < length cs" for j using that by (simp add: nth_append)
  have ex: "(\<exists>j < i. vc_path ((cs @ [c]) ! j) = q \<and> opens_dir ((cs @ [c]) ! j)) \<longleftrightarrow>
      (\<exists>j < i. vc_path (cs ! j) = q \<and> opens_dir (cs ! j))" if "i \<le> length cs" for i q
    by (rule ex_cong1, rule conj_cong[OF refl]) (use that old in simp)
  have prev: "opened (cs @ [c]) i \<longleftrightarrow> opened cs i" if "i < length cs" for i
    unfolding opened_def using old[OF that] ex[of i] that by simp
  have new: "opened (cs @ [c]) (length cs) \<longleftrightarrow> parent_of (vc_path c) = [] \<or>
      (\<exists>j < length cs. vc_path (cs ! j) = parent_of (vc_path c) \<and> opens_dir (cs ! j))"
    unfolding opened_def using ex[of "length cs"] by simp
  have "(\<forall>i < length (cs @ [c]). opened (cs @ [c]) i) \<longleftrightarrow>
      (\<forall>i < length cs. opened cs i) \<and> opened (cs @ [c]) (length cs)"
    using prev by (auto simp: less_Suc_eq)
  then have "(\<forall>i < length (cs @ [c]). opened (cs @ [c]) i) \<longleftrightarrow> (\<forall>i < length cs. opened cs i) \<and>
      (parent_of (vc_path c) = [] \<or>
       (\<exists>j < length cs. vc_path (cs ! j) = parent_of (vc_path c) \<and> opens_dir (cs ! j)))"
    unfolding new .
  moreover have "(\<exists>j < length cs. vc_path (cs ! j) = parent_of (vc_path c) \<and> opens_dir (cs ! j)) \<longleftrightarrow>
      (\<exists>c' \<in> set cs. vc_path c' = parent_of (vc_path c) \<and> opens_dir c')"
    by (metis in_set_conv_nth)
  ultimately have "(\<forall>i < length (cs @ [c]). opened (cs @ [c]) i) \<longleftrightarrow>
      (\<forall>i < length cs. opened cs i) \<and>
      (parent_of (vc_path c) = [] \<or>
       (\<exists>c' \<in> set cs. vc_path c' = parent_of (vc_path c) \<and> opens_dir c'))"
    by simp
  then show ?thesis
    unfolding tree_order_def opened_def by (auto simp: sorted_wrt_append)
qed

lemma tree_order_closed:
  assumes "tree_order cs" "c \<in> set cs" "0 < k" "k < length (split_slash (vc_path c))"
  shows "\<exists>c' \<in> set cs. vc_path c' = join_slash (take k (split_slash (vc_path c))) \<and> opens_dir c'"
  using assms(2-4)
proof (induction "length (split_slash (vc_path c)) - k" arbitrary: c)
  case 0
  then show ?case by simp
next
  case (Suc n)
  let ?cs = "split_slash (vc_path c)"
  have no_slash: "\<forall>x \<in> set ?cs. slash \<notin> set x" by (auto dest: split_slash_no_slash)
  have ne: "\<forall>x \<in> set ?cs. x \<noteq> []"
    using assms(1) Suc.prems(1) local_comps_nonempty[OF local_comps_split] by (auto simp: tree_order_def)
  obtain i where i: "i < length cs" "cs ! i = c" using Suc.prems(1) by (auto simp: in_set_conv_nth)
  have b_ne: "butlast ?cs \<noteq> []" using Suc.prems by (cases ?cs rule: rev_cases) auto
  have b_sub: "\<forall>x \<in> set (butlast ?cs). x \<noteq> [] \<and> slash \<notin> set x"
    using ne no_slash by (auto dest: in_set_butlastD)
  have "parent_of (vc_path c) \<noteq> []"
    using b_ne b_sub by (auto simp: parent_of_def join_slash_eq_Nil)
  then obtain j where j: "j < i" "vc_path (cs ! j) = parent_of (vc_path c)" "opens_dir (cs ! j)"
    using assms(1) i by (auto simp: tree_order_def)
  have sp: "split_slash (vc_path (cs ! j)) = butlast ?cs"
    using j(2) b_ne b_sub by (simp add: parent_of_def split_join_slash)
  show ?case
  proof (cases "k = length ?cs - 1")
    case True
    then have "take k ?cs = butlast ?cs" by (simp add: butlast_conv_take)
    then show ?thesis using j i by (auto simp: parent_of_def intro!: bexI[of _ "cs ! j"])
  next
    case False
    have "n = length (split_slash (vc_path (cs ! j))) - k" "k < length (split_slash (vc_path (cs ! j)))"
      using Suc.hyps(2) Suc.prems(3) False by (auto simp: sp)
    moreover have "cs ! j \<in> set cs" using j i by auto
    ultimately obtain c' where "c' \<in> set cs" "opens_dir c'"
      "vc_path c' = join_slash (take k (butlast ?cs))"
      using Suc.hyps(1)[of "cs ! j"] Suc.prems(2) sp by auto
    moreover have "take k (butlast ?cs) = take k ?cs" using Suc.prems(3) by (simp add: take_butlast)
    ultimately show ?thesis by auto
  qed
qed

lemma list_between:
  assumes "d \<le> ls" "ls < d @ [b]"
  shows "ls = d \<or> (\<exists>x t. ls = d @ x # t \<and> x < (b :: 'a::linorder))"
  using assms
proof (induction d arbitrary: ls)
  case Nil
  then show ?case by (cases ls) auto
next
  case (Cons a d)
  then show ?case by (cases ls) auto
qed

definition last_change :: "vchange list \<Rightarrow> vchange option" where
  "last_change cs = (if cs = [] then None else Some (last cs))"

lemma last_change_ok: "tree_order cs \<Longrightarrow> last_ok (last_change cs)"
  by (auto simp: last_ok_def last_change_def tree_order_def)

lemma may_follow_iff:
  assumes "tree_order cs"
  shows "may_follow (last_change cs) (vc_path c) \<longleftrightarrow> tree_order (cs @ [c])"
proof (cases cs rule: rev_cases)
  case Nil
  show ?thesis
    using Nil base_nonempty
    by (auto simp: last_change_def may_follow_def state_names_def tree_order_def)
next
  case (snoc cs0 l)
  let ?p = "vc_path c" and ?ls = "split_slash (vc_path l)" and ?ps = "split_slash (vc_path c)"
  let ?ns = "?ls @ (if opens_dir l then [[]] else [])"
  have lc: "last_change cs = Some l" "state_names (Some l) = ?ns" and lin: "l \<in> set cs"
    using snoc by (auto simp: last_change_def state_names_def)
  have l_last: "path_le (vc_path c') (vc_path l)" if "c' \<in> set cs" for c'
    using assms that snoc by (auto simp: tree_order_def sorted_wrt_append intro: path_ord.less_imp_le)
  have names: "names_ok ?ns" using state_names_ok[OF last_change_ok[OF assms]] lc by simp
  show ?thesis
  proof
    assume "may_follow (last_change cs) ?p"
    then obtain k where p: "local_path ?p" and k: "k < length ?ns"
      "parent_of ?p = join_slash (take k ?ns)" "?ns ! k < base ?p"
      unfolding lc may_follow_def by auto
    have b: "butlast ?ps = take k ?ns" by (rule join_butlast_inj[OF names k(1) p k(2)])
    then have ps: "?ps = take k ?ns @ [base ?p]"
      using base_local[OF p] by (metis append_butlast_last_id split_slash_nonempty)
    have "?ls < ?ps"
    proof (cases "k < length ?ls")
      case True
      then have "?ls = take k ?ls @ ?ls ! k # drop (Suc k) ?ls" by (simp add: id_take_nth_drop)
      also have "\<dots> < take k ?ls @ [base ?p]" using True k(3) by (simp add: nth_append)
      finally show ?thesis using True ps by simp
    next
      case False
      then have "?ps = ?ls @ [base ?p]" using k(1) ps by (auto split: if_splits)
      then show ?thesis using list_less_append_iff[of ?ls "[]" "[base ?p]"] by simp
    qed
    then have less: "path_less (vc_path c') ?p" if "c' \<in> set cs" for c'
      using l_last[OF that] path_ord.le_less_trans by (auto simp: path_less_split_iff)
    have "parent_of ?p = [] \<or> (\<exists>c' \<in> set cs. vc_path c' = parent_of ?p \<and> opens_dir c')"
    proof (cases "k = 0 \<or> k \<ge> length ?ls")
      case True
      then show ?thesis using k(1,2) lin by (auto split: if_splits)
    next
      case False
      then show ?thesis using tree_order_closed[OF assms lin, of k] k(2) by auto
    qed
    then show "tree_order (cs @ [c])" using assms p less by (auto simp: tree_order_snoc)
  next
    assume ext: "tree_order (cs @ [c])"
    then have p: "local_path ?p" and less: "path_less (vc_path l) ?p"
      using lin by (auto simp: tree_order_snoc)
    have ps: "?ps = butlast ?ps @ [base ?p]" using base_local[OF p] by simp
    have ls_less: "?ls < butlast ?ps @ [base ?p]" using less ps by (simp add: path_less_split_iff)
    have b_ne: "base ?p \<noteq> []"
      using local_comps_nonempty[OF local_comps_split[OF p]] base_local[OF p] by simp
    have hit: "may_follow (Some l) ?p"
      if "k < length ?ns" "butlast ?ps = take k ?ns" "?ns ! k < base ?p" for k
      using that p lc(2) by (auto simp: may_follow_def parent_of_def)
    have "butlast ?ps \<le> ?ls \<and> (butlast ?ps = ?ls \<longrightarrow> opens_dir l)"
    proof (cases "butlast ?ps = []")
      case True
      moreover have "[] \<noteq> ?ls" using split_slash_nonempty by metis
      ultimately show ?thesis by simp
    next
      case False
      then have sp: "split_slash (parent_of ?p) = butlast ?ps"
        unfolding parent_of_def by (intro split_join_slash) (auto dest: split_slash_no_slash[OF in_set_butlastD])
      have "parent_of ?p \<noteq> []"
        using False local_comps_nonempty[OF local_comps_split[OF p]]
        by (auto simp: parent_of_def join_slash_eq_Nil dest!: arg_cong[of _ _ set] in_set_butlastD)
      then obtain c' where c': "c' \<in> set cs" "vc_path c' = parent_of ?p" "opens_dir c'"
        using ext by (auto simp: tree_order_snoc)
      have "path_le (parent_of ?p) (vc_path l)" using l_last[OF c'(1)] c'(2) by simp
      then have "butlast ?ps \<le> ?ls"
        using sp by (metis join_split_slash leD leI path_less_split_iff path_ord.not_less)
      moreover have "opens_dir l" if "butlast ?ps = ?ls"
      proof -
        have eq: "vc_path c' = vc_path l" using that sp c'(2) by (metis join_split_slash)
        have "c' = l"
        proof (rule ccontr)
          assume "c' \<noteq> l"
          then have "c' \<in> set cs0" using c'(1) snoc by simp
          then have "path_less (vc_path c') (vc_path l)" using assms snoc by (simp add: tree_order_snoc)
          then show False using eq by simp
        qed
        then show ?thesis using c'(3) by simp
      qed
      ultimately show ?thesis by blast
    qed
    then have le: "butlast ?ps \<le> ?ls" and op: "butlast ?ps = ?ls \<Longrightarrow> opens_dir l" by auto
    from list_between[OF le ls_less] have "may_follow (Some l) ?p"
    proof
      assume eq: "?ls = butlast ?ps"
      have names: "?ns = ?ls @ [[]]" using op[OF eq[symmetric]] by simp
      have "length ?ls < length ?ns" unfolding names by simp
      moreover have "butlast ?ps = take (length ?ls) ?ns" unfolding names eq[symmetric] by simp
      moreover have "?ns ! length ?ls < base ?p" unfolding names nth_append_length using b_ne by simp
      ultimately show ?thesis by (rule hit)
    next
      assume "\<exists>x t. ?ls = butlast ?ps @ x # t \<and> x < base ?p"
      then obtain x t where "?ls = butlast ?ps @ x # t" "x < base ?p" by blast
      moreover have "take (length d) (d @ x # t @ r) = d" "(d @ x # t @ r) ! length d = x"
        "length d < length (d @ x # t @ r)" for d x t and r :: "string list" by simp_all
      ultimately show ?thesis using hit[of "length (butlast ?ps)"] by (metis append.assoc append_Cons)
    qed
    then show "may_follow (last_change cs) ?p" using lc by simp
  qed
qed

lemma validator_run_tree_order:
  "(tree_order cs \<longrightarrow>
     (\<exists>v. validator_run cs new_validator = Inr v \<and> validator_matches (last_change cs) v)) \<and>
   (\<not> tree_order cs \<longrightarrow>
     (\<exists>e. validator_run cs new_validator = Inl e \<and> (\<forall>m. e \<noteq> Panic m)))"
proof (induction cs rule: rev_induct)
  case Nil
  then show ?case by (simp add: validator_run_def validator_matches_def last_change_def new_validator_def)
next
  case (snoc c cs)
  have run: "validator_run (cs @ [c]) new_validator =
      res_bind (validator_run cs new_validator)
        (\<lambda>v. res_bind (validator_handle_change (vc_kind c) (vc_path c) (StatInfo (vc_info c)) None v) Inr)"
    unfolding validator_run_def res_fold_append
    by (cases "res_fold (\<lambda>c. validator_handle_change (vc_kind c) (vc_path c) (StatInfo (vc_info c)) None)
        cs new_validator") auto
  show ?case
  proof (cases "tree_order cs")
    case False
    then have "\<not> tree_order (cs @ [c])" by (simp add: tree_order_snoc)
    then show ?thesis using False snoc run by auto
  next
    case True
    then obtain v where v: "validator_run cs new_validator = Inr v" "validator_matches (last_change cs) v"
      using snoc by blast
    note ok = last_change_ok[OF True]
    show ?thesis
    proof (cases "tree_order (cs @ [c])")
      case True
      then have "may_follow (last_change cs) (vc_path c)" using may_follow_iff \<open>tree_order cs\<close> by blast
      from validator_step_ok[OF ok v(2) this] show ?thesis
        using True run v(1) by (simp add: validator_matches_def last_change_def)
    next
      case False
      then have "\<not> may_follow (last_change cs) (vc_path c)" using may_follow_iff \<open>tree_order cs\<close> by blast
      from validator_step_error[OF ok v(2) this, of "vc_kind c" "vc_info c"]
      show ?thesis using False run v(1) by auto
    qed
  qed
qed

section \<open>Properties\<close>

text \<open>C15. A fresh validator accepts a stream of changes exactly when every path is clean, relative and
  does not escape, the paths strictly increase in the tree order, and each one is at the top or
  in a directory that an earlier change of the stream added or modified. Otherwise it returns an
  error, and it never panics on a slice index.\<close>

theorem validator_accepts_iff:
  "case validator_run cs new_validator of
     Inr v \<Rightarrow> tree_order cs
   | Inl e \<Rightarrow> \<not> tree_order cs \<and> (\<forall>m. e \<noteq> Panic m)"
  using validator_run_tree_order[of cs] by (cases "tree_order cs") auto

text \<open>The slice \<open>parentDirs\<close> is determined by the last accepted change alone: the chain of its
  ancestors, each with the name the path continues with, and the change's own directory when it
  opens one.\<close>

theorem validator_state_last:
  assumes "validator_run cs new_validator = Inr v"
  shows "validator_matches (last_change cs) v"
  using validator_run_tree_order[of cs] assms by (cases "tree_order cs") auto

definition sample_changes :: "vchange list" where
  "sample_changes =
     [\<lparr>vc_kind = ChangeKindAdd, vc_path = ''d'', vc_info = empty_stat\<lparr>st_mode := mode_dir\<rparr>\<rparr>,
      \<lparr>vc_kind = ChangeKindAdd, vc_path = ''d/f'', vc_info = empty_stat\<rparr>]"

lemma sample_changes_run: "\<exists>v. validator_run sample_changes new_validator = Inr v"
proof -
  have "good_path ''d''" "good_path ''d/f''"
    by (simp_all add: good_path_def good_comps_def good_comp_def)
  then have "tree_order sample_changes"
    by (auto simp: tree_order_def sample_changes_def local_path_iff opens_dir_def parent_of_def
        path_less_def less_Suc_eq empty_stat_def stat_is_dir_def mode_is_dir_def has_mode_def mode_bits)
  then show ?thesis using validator_run_tree_order by blast
qed

theorem validator_state_last_witness:
  "\<exists>v. validator_run sample_changes new_validator = Inr v \<and>
    validator_matches (last_change sample_changes) v"
  using sample_changes_run validator_state_last[of sample_changes] by blast

text \<open>C24. No accepted path leaves the root: it is \<open>.\<close> or a sequence of file names without \<open>.\<close>,
  \<open>..\<close>, empty names or a leading slash.\<close>

theorem validator_paths_local:
  assumes "validator_run cs new_validator = Inr v" "c \<in> set cs"
  shows "vc_path c = ''.'' \<or> good_path (vc_path c)"
  using validator_run_tree_order[of cs] assms by (cases "tree_order cs") (auto simp: tree_order_def local_path_iff)

theorem validator_paths_local_witness:
  "vc_path (sample_changes ! 1) = ''.'' \<or> good_path (vc_path (sample_changes ! 1))"
proof -
  obtain v where "validator_run sample_changes new_validator = Inr v" using sample_changes_run by blast
  then show ?thesis by (rule validator_paths_local) (simp add: sample_changes_def)
qed

text \<open>The path \<open>.\<close>, the root itself, passes the escape check and is accepted, also as a deletion.\<close>

theorem validator_accepts_dot:
  "validator_run [\<lparr>vc_kind = ChangeKindDelete, vc_path = ''.'', vc_info = empty_stat\<rparr>] new_validator =
   Inr \<lparr>parent_dirs = [\<lparr>pr_dir = [], pr_last = ''.''\<rparr>]\<rparr>"
proof -
  have "\<exists>v. validator_run [\<lparr>vc_kind = ChangeKindDelete, vc_path = ''.'', vc_info = empty_stat\<rparr>] new_validator = Inr v \<and>
      validator_matches (last_change [\<lparr>vc_kind = ChangeKindDelete, vc_path = ''.'', vc_info = empty_stat\<rparr>]) v"
    using validator_run_tree_order[of "[\<lparr>vc_kind = ChangeKindDelete, vc_path = ''.'', vc_info = empty_stat\<rparr>]"]
    by (simp add: tree_order_def local_path_iff parent_of_def)
  then show ?thesis
    by (auto simp: validator_matches_def last_change_def validator_state_def opens_dir_def chain_state_def chain_def)
qed

end
