(* ===== verification/Tree_Merge.thy ===== *)
theory Tree_Merge
  imports Fsutil_Prelude
begin

text \<open>
  The abstract specification of a tree diff. A tree is a map from paths to nodes; a walk of it
  is a list of entries sorted by a path order. \<open>merge_changes\<close> merges two walks into the list of
  changes that turns the first tree into the second, remembering the directory it removed last
  so that what is below it is not removed again. The locale \<open>walk_order\<close> states what the merge
  needs of the path order and of the test "is below a directory", and proves once that the
  changes are right. The program's order provides it in \<open>Double_Walk\<close>.
\<close>

datatype ('p, 'x) tree_change = TAdd 'p 'x | TMod 'p 'x | TDel 'p

fun change_path :: "('p, 'x) tree_change \<Rightarrow> 'p" where
  "change_path (TAdd p x) = p"
| "change_path (TMod p x) = p"
| "change_path (TDel p) = p"

type_synonym ('p, 'x) tree = "'p \<rightharpoonup> 'x"

definition prune :: "('p \<Rightarrow> 'p \<Rightarrow> bool) \<Rightarrow> 'p \<Rightarrow> ('p, 'x) tree \<Rightarrow> ('p, 'x) tree" where
  "prune below d m = (\<lambda>p. if below d p then None else m p)"

text \<open>
  The effect of a change. Removing a directory, or replacing it by something else, removes all
  that is below it.
\<close>

fun apply_change ::
  "('p \<Rightarrow> 'p \<Rightarrow> bool) \<Rightarrow> ('x \<Rightarrow> bool) \<Rightarrow> ('p, 'x) tree_change \<Rightarrow> ('p, 'x) tree \<Rightarrow> ('p, 'x) tree" where
  "apply_change below isdir (TAdd p x) m = m(p \<mapsto> x)"
| "apply_change below isdir (TMod p x) m = (if isdir x then m else prune below p m)(p \<mapsto> x)"
| "apply_change below isdir (TDel p) m = (prune below p m)(p := None)"

definition apply_changes ::
  "('p \<Rightarrow> 'p \<Rightarrow> bool) \<Rightarrow> ('x \<Rightarrow> bool) \<Rightarrow> ('p, 'x) tree_change list \<Rightarrow> ('p, 'x) tree \<Rightarrow> ('p, 'x) tree" where
  "apply_changes below isdir cs m = fold (apply_change below isdir) cs m"

lemma apply_changes_simps [simp]:
  "apply_changes below isdir [] m = m"
  "apply_changes below isdir (c # cs) m = apply_changes below isdir cs (apply_change below isdir c m)"
  by (simp_all add: apply_changes_def)

text \<open>The merge; \<open>rm\<close> is the directory removed last, if the current entry can be below it.\<close>

definition next_rm :: "'p option \<Rightarrow> bool \<Rightarrow> 'p \<Rightarrow> 'p option" where
  "next_rm rm isd p = (if rm = None \<and> isd then Some p else None)"

definition in_rm :: "('p \<Rightarrow> 'p \<Rightarrow> bool) \<Rightarrow> 'p option \<Rightarrow> 'p \<Rightarrow> bool" where
  "in_rm below rm p = (case rm of None \<Rightarrow> False | Some d \<Rightarrow> below d p)"

function (sequential) merge_changes ::
  "('p \<Rightarrow> 'p \<Rightarrow> int) \<Rightarrow> ('p \<Rightarrow> 'p \<Rightarrow> bool) \<Rightarrow> ('x \<Rightarrow> bool) \<Rightarrow> ('p \<Rightarrow> 'x \<Rightarrow> 'x \<Rightarrow> bool) \<Rightarrow>
   'p option \<Rightarrow> ('p \<times> 'x) list \<Rightarrow> ('p \<times> 'x) list \<Rightarrow> ('p, 'x) tree_change list" where
  "merge_changes cmp below isdir same rm [] [] = []"
| "merge_changes cmp below isdir same rm [] ((q, y) # us) =
     TAdd q y # merge_changes cmp below isdir same None [] us"
| "merge_changes cmp below isdir same rm ((p, x) # ls) [] =
     (if in_rm below rm p then merge_changes cmp below isdir same rm ls []
      else TDel p # merge_changes cmp below isdir same (next_rm rm (isdir x) p) ls [])"
| "merge_changes cmp below isdir same rm ((p, x) # ls) ((q, y) # us) =
     (if cmp p q < 0 then
        (if in_rm below rm p then merge_changes cmp below isdir same rm ls ((q, y) # us)
         else TDel p # merge_changes cmp below isdir same (next_rm rm (isdir x) p) ls ((q, y) # us))
      else if cmp p q > 0 then
        TAdd q y # merge_changes cmp below isdir same None ((p, x) # ls) us
      else
        (if same q x y then [] else [TMod q y]) @
          merge_changes cmp below isdir same (if isdir x \<and> \<not> isdir y then Some p else None) ls us)"
  by pat_completeness auto
termination
  by (relation "measure (\<lambda>(cmp, below, isdir, same, rm, ls, us). length ls + length us)") auto

lemma merge_changes_paths:
  "c \<in> set (merge_changes cmp below isdir same rm ls us) \<Longrightarrow> change_path c \<in> fst ` set ls \<union> fst ` set us"
  by (induction cmp below isdir same rm ls us rule: merge_changes.induct) (auto split: if_splits)

section \<open>Walks\<close>

definition sorted_walk :: "('p \<Rightarrow> 'p \<Rightarrow> int) \<Rightarrow> ('p \<times> 'x) list \<Rightarrow> bool" where
  "sorted_walk cmp es \<longleftrightarrow> sorted_wrt (\<lambda>p q. cmp p q < 0) (map fst es)"

text \<open>
  Every path below a directory stands on a directory of the walk, so a path that is missing
  from the walk, or is not a directory in it, has nothing below it there.
\<close>

definition closed_walk ::
  "('p \<Rightarrow> 'p \<Rightarrow> bool) \<Rightarrow> ('x \<Rightarrow> bool) \<Rightarrow> ('p \<times> 'x) list \<Rightarrow> bool" where
  "closed_walk below isdir es \<longleftrightarrow>
     (\<forall>(p, x) \<in> set es. \<forall>d. below d p \<longrightarrow> (\<exists>y. (d, y) \<in> set es \<and> isdir y))"

lemma sorted_walk_Nil [simp]: "sorted_walk cmp []"
  by (simp add: sorted_walk_def)

lemma sorted_walk_Cons [simp]:
  "sorted_walk cmp (e # es) \<longleftrightarrow> (\<forall>p \<in> fst ` set es. cmp (fst e) p < 0) \<and> sorted_walk cmp es"
  by (auto simp: sorted_walk_def)

text \<open>
  The state of the merge: \<open>m\<close> is the tree so far, \<open>ls\<close> and \<open>us\<close> are what is left of the two
  walks, \<open>whole\<close> is the whole second walk. An entry of the first walk is still in the tree,
  unless it was removed with a directory, and then the second walk does not have it.
\<close>

definition merge_state ::
  "('p \<Rightarrow> 'p \<Rightarrow> int) \<Rightarrow> ('p \<Rightarrow> 'p \<Rightarrow> bool) \<Rightarrow> ('x \<Rightarrow> bool) \<Rightarrow> ('p \<times> 'x) list \<Rightarrow>
   'p option \<Rightarrow> ('p \<times> 'x) list \<Rightarrow> ('p \<times> 'x) list \<Rightarrow> ('p, 'x) tree \<Rightarrow> bool" where
  "merge_state cmp below isdir whole rm ls us m \<longleftrightarrow>
     sorted_walk cmp ls \<and> sorted_walk cmp us \<and> closed_walk below isdir whole \<and>
     set us \<subseteq> set whole \<and>
     (\<forall>(q, y) \<in> set whole - set us. \<forall>p \<in> fst ` (set ls \<union> set us). cmp q p < 0) \<and>
     (\<forall>(p, x) \<in> set ls. m p = Some x \<or> m p = None \<and> p \<notin> fst ` set us) \<and>
     (\<forall>d. rm = Some d \<longrightarrow> (\<forall>p. below d p \<longrightarrow> m p = None))"

text \<open>
  What merging the rest does to the tree: paths before it are untouched, what the second walk
  has is there (or is the same in the first), what only the first has is gone, nothing else
  appears.
\<close>

definition merge_result ::
  "('p \<Rightarrow> 'p \<Rightarrow> int) \<Rightarrow> ('p \<Rightarrow> 'x \<Rightarrow> 'x \<Rightarrow> bool) \<Rightarrow>
   ('p \<times> 'x) list \<Rightarrow> ('p \<times> 'x) list \<Rightarrow> ('p, 'x) tree \<Rightarrow> ('p, 'x) tree \<Rightarrow> bool" where
  "merge_result cmp same ls us m m' \<longleftrightarrow>
     (\<forall>p. (\<forall>q \<in> fst ` (set ls \<union> set us). cmp p q < 0) \<longrightarrow> m' p = m p) \<and>
     (\<forall>(q, y) \<in> set us. m' q = Some y \<or> (\<exists>x. (q, x) \<in> set ls \<and> same q x y \<and> m' q = Some x)) \<and>
     (\<forall>(p, x) \<in> set ls. p \<notin> fst ` set us \<longrightarrow> m' p = None) \<and>
     (\<forall>p. p \<notin> fst ` (set ls \<union> set us) \<longrightarrow> m' p = m p \<or> m' p = None)"

section \<open>What the order has to provide\<close>

locale walk_order =
  fixes cmp :: "'p \<Rightarrow> 'p \<Rightarrow> int"
    and below :: "'p \<Rightarrow> 'p \<Rightarrow> bool"
  assumes cmp_zero: "cmp p q = 0 \<longleftrightarrow> p = q"
    and cmp_sym: "cmp p q > 0 \<longleftrightarrow> cmp q p < 0"
    and cmp_trans: "cmp p q < 0 \<Longrightarrow> cmp q r < 0 \<Longrightarrow> cmp p r < 0"
    and below_greater: "below d p \<Longrightarrow> cmp d p < 0"
begin

lemma cmp_irrefl [simp]: "\<not> cmp p p < 0"
  using cmp_zero[of p p] by simp

lemma cmp_asym: "cmp p q < 0 \<Longrightarrow> \<not> cmp q p < 0"
  using cmp_sym[of q p] by auto

lemma not_below_self [simp]: "\<not> below p p"
  using below_greater[of p p] cmp_irrefl by blast

lemma not_below_less: "cmp p d < 0 \<Longrightarrow> \<not> below d p"
  using below_greater[of d p] cmp_asym by blast

lemma merge_stateD:
  assumes "merge_state cmp below isdir whole rm ls us m"
  shows "sorted_walk cmp ls" "sorted_walk cmp us" "closed_walk below isdir whole" "set us \<subseteq> set whole"
    "\<forall>(q, y) \<in> set whole - set us. \<forall>p \<in> fst ` (set ls \<union> set us). cmp q p < 0"
    "\<forall>(p', x) \<in> set ls. m p' = Some x \<or> m p' = None \<and> p' \<notin> fst ` set us"
    "rm = Some d \<Longrightarrow> below d p \<Longrightarrow> m p = None"
  using assms unfolding merge_state_def by simp_all

lemma merge_state_beforeD:
  assumes "merge_state cmp below isdir whole rm ls us m"
    and "(q, y) \<in> set whole" "(q, y) \<notin> set us" "p \<in> fst ` (set ls \<union> set us)"
  shows "cmp q p < 0"
proof -
  have "(q, y) \<in> set whole - set us" using assms(2,3) by simp
  from bspec[OF merge_stateD(5)[OF assms(1)] this] show ?thesis using assms(4) by (simp only: prod.case)
qed

lemma merge_state_leftD:
  "merge_state cmp below isdir whole rm ls us m \<Longrightarrow> (p, x) \<in> set ls \<Longrightarrow>
   m p = Some x \<or> m p = None \<and> p \<notin> fst ` set us"
  by (drule merge_stateD(6)) (drule (1) bspec, simp only: prod.case)

lemma closed_walkD:
  assumes "closed_walk below isdir es" "(p, x) \<in> set es" "below d p"
  obtains y where "(d, y) \<in> set es" "isdir y"
  using bspec[OF assms(1)[unfolded closed_walk_def] assms(2)] assms(3) by auto

text \<open>Nothing of the second walk is below a path it does not have as a directory.\<close>

lemma merge_state_none_below:
  assumes st: "merge_state cmp below isdir whole rm ls us m" and u: "u \<in> set us"
    and no_dir: "\<And>y. (d, y) \<in> set us \<Longrightarrow> \<not> isdir y" and d: "d \<in> fst ` (set ls \<union> set us)"
  shows "\<not> below d (fst u)"
proof
  assume below: "below d (fst u)"
  have "(fst u, snd u) \<in> set whole" using merge_stateD(4)[OF st] u by (simp add: subsetD)
  then obtain y where y: "(d, y) \<in> set whole" "isdir y"
    by (rule closed_walkD[OF merge_stateD(3)[OF st] _ below])
  have "(d, y) \<notin> set us" using no_dir y(2) by blast
  from merge_state_beforeD[OF st y(1) this d] show False by simp
qed

lemma merge_stateI:
  assumes "merge_state cmp below isdir whole rm0 ls0 us0 m0"
    and "sorted_walk cmp ls" "sorted_walk cmp us" "set us \<subseteq> set us0" "set ls \<subseteq> set ls0"
    and "\<And>q y p. (q, y) \<in> set us0 \<Longrightarrow> (q, y) \<notin> set us \<Longrightarrow> p \<in> fst ` (set ls \<union> set us) \<Longrightarrow> cmp q p < 0"
    and "\<And>p x. (p, x) \<in> set ls \<Longrightarrow> m p = Some x \<or> m p = None \<and> p \<notin> fst ` set us"
    and "\<And>d p. rm = Some d \<Longrightarrow> below d p \<Longrightarrow> m p = None"
  shows "merge_state cmp below isdir whole rm ls us m"
  unfolding merge_state_def
proof (intro conjI)
  note D = merge_stateD(1-4)[OF assms(1)] merge_state_beforeD[OF assms(1)]
  show "sorted_walk cmp ls" "sorted_walk cmp us" "closed_walk below isdir whole" by (fact assms(2,3) D(3))+
  show "set us \<subseteq> set whole" using assms(4) D(4) by blast
  have "cmp q p < 0" if "(q, y) \<in> set whole" "(q, y) \<notin> set us" "p \<in> fst ` (set ls \<union> set us)" for q y p
  proof (cases "(q, y) \<in> set us0")
    case True
    then show ?thesis using assms(6) that by blast
  next
    case False
    have "p \<in> fst ` (set ls0 \<union> set us0)" using that(3) assms(4,5) by blast
    then show ?thesis using D(5) False that(1) by blast
  qed
  then show "\<forall>(q, y) \<in> set whole - set us. \<forall>p \<in> fst ` (set ls \<union> set us). cmp q p < 0" by blast
  show "\<forall>(p, x) \<in> set ls. m p = Some x \<or> m p = None \<and> p \<notin> fst ` set us" using assms(7) by blast
  show "\<forall>d. rm = Some d \<longrightarrow> (\<forall>p. below d p \<longrightarrow> m p = None)" using assms(8) by blast
qed

lemma merge_state_skip:
  assumes "merge_state cmp below isdir whole rm ((p, x) # ls) us m"
  shows "merge_state cmp below isdir whole rm ls us m"
  by (rule merge_stateI[OF assms])
    (use merge_stateD(1,2,7)[OF assms] merge_state_leftD[OF assms] in auto)

lemma merge_state_delete:
  assumes st: "merge_state cmp below isdir whole rm ((p, x) # ls) us m"
    and less: "\<forall>q \<in> fst ` set us. cmp p q < 0"
  shows "merge_state cmp below isdir whole (next_rm rm b p) ls us (apply_change below isdir (TDel p) m)"
proof (rule merge_stateI[OF st])
  note D = merge_stateD(1-4)[OF st] merge_state_beforeD[OF st] merge_state_leftD[OF st]
  show "sorted_walk cmp ls" "sorted_walk cmp us" "set us \<subseteq> set us" "set ls \<subseteq> set ((p, x) # ls)"
    using D(1,2) by auto
  fix p' x' assume in_ls: "(p', x') \<in> set ls"
  have "(d, y) \<in> set us \<Longrightarrow> d \<noteq> p" for d y using less cmp_irrefl by force
  then have no: "\<not> below p (fst u)" if "u \<in> set us" for u
    using merge_state_none_below[OF st that, of p] by auto
  have "cmp p p' < 0" using D(1) in_ls by force
  then have "p' \<noteq> p" by auto
  moreover have "m p' = Some x' \<or> m p' = None \<and> p' \<notin> fst ` set us" using D(6) in_ls by simp
  moreover have "below p p' \<Longrightarrow> p' \<notin> fst ` set us" using no by blast
  ultimately show "apply_change below isdir (TDel p) m p' = Some x' \<or>
      apply_change below isdir (TDel p) m p' = None \<and> p' \<notin> fst ` set us"
    by (simp add: prune_def)
next
  fix d p' assume "next_rm rm b p = Some d" "below d p'"
  then show "apply_change below isdir (TDel p) m p' = None"
    by (simp add: prune_def next_rm_def split: if_splits)
qed auto

lemma merge_state_add:
  assumes st: "merge_state cmp below isdir whole rm ls ((q, y) # us) m"
    and less: "\<forall>p \<in> fst ` set ls. cmp q p < 0"
  shows "merge_state cmp below isdir whole None ls us (m(q \<mapsto> y))"
proof (rule merge_stateI[OF st])
  note D = merge_stateD(1-4)[OF st] merge_state_beforeD[OF st] merge_state_leftD[OF st]
  show "sorted_walk cmp ls" "sorted_walk cmp us" "set us \<subseteq> set ((q, y) # us)" "set ls \<subseteq> set ls"
    using D(1,2) by auto
  show "cmp q' p < 0" if "(q', y') \<in> set ((q, y) # us)" "(q', y') \<notin> set us"
    "p \<in> fst ` (set ls \<union> set us)" for q' y' p
    using that less D(2) by auto
  fix p x assume in_ls: "(p, x) \<in> set ls"
  then have "cmp q p < 0" using less by force
  then have "p \<noteq> q" by auto
  then show "(m(q \<mapsto> y)) p = Some x \<or> (m(q \<mapsto> y)) p = None \<and> p \<notin> fst ` set us"
    using D(6)[OF in_ls] by auto
qed simp

lemma merge_state_modify:
  assumes st: "merge_state cmp below isdir whole rm ((q, x) # ls) ((q, y) # us) m"
    and m': "m' = (if same then m else (if isdir y then m else prune below q m)(q \<mapsto> y))"
    and same: "same \<Longrightarrow> isdir x = isdir y"
  shows "merge_state cmp below isdir whole (if isdir x \<and> \<not> isdir y then Some q else None) ls us m'"
proof (rule merge_stateI[OF st])
  note D = merge_stateD(1-4)[OF st] merge_state_beforeD[OF st] merge_state_leftD[OF st]
  show "sorted_walk cmp ls" "sorted_walk cmp us" "set us \<subseteq> set ((q, y) # us)" "set ls \<subseteq> set ((q, x) # ls)"
    using D(1,2) by auto
  show "cmp q' p < 0" if "(q', y') \<in> set ((q, y) # us)" "(q', y') \<notin> set us"
    "p \<in> fst ` (set ls \<union> set us)" for q' y' p
    using that D(1,2) by auto
  fix p x' assume in_ls: "(p, x') \<in> set ls"
  have "y' = y" if "(q, y') \<in> set ((q, y) # us)" for y' using that D(2) by force
  then have no: "\<not> below q (fst u)" if "u \<in> set us" "\<not> isdir y" for u
    using merge_state_none_below[OF st, of u q] that by auto
  have "cmp q p < 0" using D(1) in_ls by force
  then have "p \<noteq> q" by auto
  moreover have "m p = Some x' \<or> m p = None \<and> p \<notin> fst ` set us" using D(6)[of p x'] in_ls by auto
  moreover have "below q p \<Longrightarrow> \<not> isdir y \<Longrightarrow> p \<notin> fst ` set us" using no by blast
  ultimately show "m' p = Some x' \<or> m' p = None \<and> p \<notin> fst ` set us"
    unfolding m' by (simp add: prune_def)
next
  fix d p assume "(if isdir x \<and> \<not> isdir y then Some q else None) = Some d" "below d p"
  then show "m' p = None"
    using same not_below_self unfolding m' by (auto simp: prune_def split: if_splits)
qed

section \<open>The merge turns the first tree into the second\<close>

lemma merge_resultD:
  assumes "merge_result cmp same ls us m m'"
  shows "\<forall>q \<in> fst ` (set ls \<union> set us). cmp p q < 0 \<Longrightarrow> m' p = m p"
    "(q, y) \<in> set us \<Longrightarrow> m' q = Some y \<or> (\<exists>x. (q, x) \<in> set ls \<and> same q x y \<and> m' q = Some x)"
    "(p, x) \<in> set ls \<Longrightarrow> p \<notin> fst ` set us \<Longrightarrow> m' p = None"
    "p \<notin> fst ` (set ls \<union> set us) \<Longrightarrow> m' p = m p \<or> m' p = None"
  using assms unfolding merge_result_def by (simp, fastforce+)

lemma merge_resultI:
  assumes "\<And>p. \<forall>q \<in> fst ` (set ls \<union> set us). cmp p q < 0 \<Longrightarrow> m' p = m p"
    and "\<And>q y. (q, y) \<in> set us \<Longrightarrow>
      m' q = Some y \<or> (\<exists>x. (q, x) \<in> set ls \<and> same q x y \<and> m' q = Some x)"
    and "\<And>p x. (p, x) \<in> set ls \<Longrightarrow> p \<notin> fst ` set us \<Longrightarrow> m' p = None"
    and "\<And>p. p \<notin> fst ` (set ls \<union> set us) \<Longrightarrow> m' p = m p \<or> m' p = None"
  shows "merge_result cmp same ls us m m'"
  unfolding merge_result_def
proof (intro conjI)
  show "\<forall>p. (\<forall>q \<in> fst ` (set ls \<union> set us). cmp p q < 0) \<longrightarrow> m' p = m p" using assms(1) by blast
  show "\<forall>(q, y) \<in> set us. m' q = Some y \<or> (\<exists>x. (q, x) \<in> set ls \<and> same q x y \<and> m' q = Some x)"
    using assms(2) by (auto simp only: split_paired_all prod.case)
  show "\<forall>(p, x) \<in> set ls. p \<notin> fst ` set us \<longrightarrow> m' p = None" using assms(3) by auto
  show "\<forall>p. p \<notin> fst ` (set ls \<union> set us) \<longrightarrow> m' p = m p \<or> m' p = None" using assms(4) by blast
qed

lemma merge_result_lower:
  assumes R: "merge_result cmp same ls us m1 m'"
    and less: "\<forall>q \<in> fst ` (set ls \<union> set us). cmp p q < 0"
    and m1: "m1 p = None" "\<And>r. cmp r p < 0 \<Longrightarrow> m1 r = m r" "\<And>r. m1 r = m r \<or> m1 r = None"
  shows "merge_result cmp same ((p, x) # ls) us m m'"
proof (rule merge_resultI)
  have p: "m' p = None" using merge_resultD(1)[OF R less] m1(1) by simp
  show "m' r = m r" if "\<forall>q \<in> fst ` (set ((p, x) # ls) \<union> set us). cmp r q < 0" for r
    using merge_resultD(1)[OF R, of r] m1(2)[of r] that by simp
  show "m' q = Some y \<or> (\<exists>x'. (q, x') \<in> set ((p, x) # ls) \<and> same q x' y \<and> m' q = Some x')"
    if "(q, y) \<in> set us" for q y
    using merge_resultD(2)[OF R that] by auto
  show "m' r = None" if "(r, z) \<in> set ((p, x) # ls)" "r \<notin> fst ` set us" for r z
    using merge_resultD(3)[OF R, of r z] that p by auto
  show "m' r = m r \<or> m' r = None" if "r \<notin> fst ` (set ((p, x) # ls) \<union> set us)" for r
    using merge_resultD(4)[OF R, of r] m1(3)[of r] that by auto
qed

lemma merge_result_upper:
  assumes R: "merge_result cmp same ls us (m(q \<mapsto> y)) m'"
    and less: "\<forall>r \<in> fst ` (set ls \<union> set us). cmp q r < 0"
  shows "merge_result cmp same ls ((q, y) # us) m m'"
proof (rule merge_resultI)
  have q: "m' q = Some y" using merge_resultD(1)[OF R less] by simp
  show "m' r = m r" if "\<forall>q' \<in> fst ` (set ls \<union> set ((q, y) # us)). cmp r q' < 0" for r
  proof -
    have "cmp r q < 0" using that by simp
    then have "r \<noteq> q" by auto
    then show ?thesis using merge_resultD(1)[OF R, of r] that by simp
  qed
  show "m' q' = Some y' \<or> (\<exists>x'. (q', x') \<in> set ls \<and> same q' x' y' \<and> m' q' = Some x')"
    if "(q', y') \<in> set ((q, y) # us)" for q' y'
    using merge_resultD(2)[OF R, of q' y'] that q by auto
  show "m' r = None" if "(r, z) \<in> set ls" "r \<notin> fst ` set ((q, y) # us)" for r z
    using merge_resultD(3)[OF R, of r z] that by auto
  show "m' r = m r \<or> m' r = None" if "r \<notin> fst ` (set ls \<union> set ((q, y) # us))" for r
    using merge_resultD(4)[OF R, of r] that by auto
qed

lemma merge_result_both:
  assumes R: "merge_result cmp same ls us m1 m'"
    and less: "\<forall>r \<in> fst ` (set ls \<union> set us). cmp q r < 0"
    and m1: "m1 q = Some y \<or> same q x y \<and> m1 q = Some x"
      "\<And>r. cmp r q < 0 \<Longrightarrow> m1 r = m r" "\<And>r. r \<noteq> q \<Longrightarrow> m1 r = m r \<or> m1 r = None"
  shows "merge_result cmp same ((q, x) # ls) ((q, y) # us) m m'"
proof (rule merge_resultI)
  have q: "m' q = Some y \<or> same q x y \<and> m' q = Some x"
    using merge_resultD(1)[OF R less] m1(1) by simp
  show "m' r = m r" if "\<forall>p \<in> fst ` (set ((q, x) # ls) \<union> set ((q, y) # us)). cmp r p < 0" for r
    using merge_resultD(1)[OF R, of r] m1(2)[of r] that by simp
  show "m' q' = Some y' \<or> (\<exists>x'. (q', x') \<in> set ((q, x) # ls) \<and> same q' x' y' \<and> m' q' = Some x')"
    if "(q', y') \<in> set ((q, y) # us)" for q' y'
    using merge_resultD(2)[OF R, of q' y'] that q by auto
  show "m' r = None" if "(r, z) \<in> set ((q, x) # ls)" "r \<notin> fst ` set ((q, y) # us)" for r z
    using merge_resultD(3)[OF R, of r z] that by auto
  show "m' r = m r \<or> m' r = None" if "r \<notin> fst ` (set ((q, x) # ls) \<union> set ((q, y) # us))" for r
    using merge_resultD(4)[OF R, of r] m1(3)[of r] that by auto
qed

lemma merge_changes_result:
  assumes same: "\<And>q x y. same q x y \<Longrightarrow> isdir x = isdir y"
    and "merge_state cmp below isdir whole rm ls us m"
  shows "merge_result cmp same ls us m
    (apply_changes below isdir (merge_changes cmp below isdir same rm ls us) m)"
  using assms(2)
proof (induction "length ls + length us" arbitrary: rm ls us m rule: less_induct)
  case less
  note st = less.prems
  have lower: "merge_result cmp same ((p, x) # ls') us m (apply_changes below isdir
      (if in_rm below rm p then merge_changes cmp below isdir same rm ls' us
       else TDel p # merge_changes cmp below isdir same (next_rm rm (isdir x) p) ls' us) m)"
    if ls: "ls = (p, x) # ls'" and before: "\<forall>q \<in> fst ` set us. cmp p q < 0" for p x ls'
  proof -
    note st' = st[unfolded ls]
    have all: "\<forall>q \<in> fst ` (set ls' \<union> set us). cmp p q < 0"
      using merge_stateD(1)[OF st'] before by auto
    show ?thesis
    proof (cases "in_rm below rm p")
      case True
      then have "m p = None" using merge_stateD(7)[OF st'] by (auto simp: in_rm_def split: option.splits)
      then show ?thesis
        using True ls merge_result_lower[OF less.hyps[OF _ merge_state_skip[OF st']] all] by simp
    next
      case False
      note d = merge_state_delete[OF st' before, of "isdir x"]
      have "merge_result cmp same ((p, x) # ls') us m
          (apply_changes below isdir (merge_changes cmp below isdir same (next_rm rm (isdir x) p) ls' us)
            (apply_change below isdir (TDel p) m))"
        by (rule merge_result_lower[OF less.hyps[OF _ d] all])
          (use ls not_below_less in \<open>auto simp: prune_def\<close>)
      then show ?thesis using False by simp
    qed
  qed
  have upper: "merge_result cmp same ls ((q, y) # us') m (apply_changes below isdir
      (TAdd q y # merge_changes cmp below isdir same None ls us') m)"
    if us: "us = (q, y) # us'" and before: "\<forall>p \<in> fst ` set ls. cmp q p < 0" for q y us'
  proof -
    note st' = st[unfolded us]
    have all: "\<forall>r \<in> fst ` (set ls \<union> set us'). cmp q r < 0"
      using merge_stateD(2)[OF st'] before by auto
    show ?thesis
      using us merge_result_upper[OF less.hyps[OF _ merge_state_add[OF st' before]] all] by simp
  qed
  show ?case
  proof (cases ls; cases us)
    assume "ls = []" "us = []"
    then show ?thesis by (simp add: merge_result_def)
  next
    fix e ls' assume eqs: "ls = e # ls'" "us = []"
    obtain p x where "e = (p, x)" by (cases e) auto
    then show ?thesis using lower[of p x ls'] by (cases "in_rm below rm p") (simp_all add: eqs)
  next
    fix e us' assume eqs: "ls = []" "us = e # us'"
    obtain q y where "e = (q, y)" by (cases e) auto
    then show ?thesis using upper[of q y us'] by (simp add: eqs)
  next
    fix e ls' f us' assume eqs: "ls = e # ls'" "us = f # us'"
    obtain p x q y where e: "e = (p, x)" "f = (q, y)" by (cases e, cases f) auto
    have sorted: "sorted_walk cmp ((p, x) # ls')" "sorted_walk cmp ((q, y) # us')"
      using merge_stateD(1,2)[OF st] eqs e by auto
    consider "cmp p q < 0" | "cmp p q > 0" | "cmp p q = 0" by linarith
    then show ?thesis
    proof cases
      case 1
      then have "\<forall>r \<in> fst ` set us. cmp p r < 0" using sorted(2) eqs e cmp_trans by auto
      then show ?thesis using lower[of p x ls'] 1 eqs e by (cases "in_rm below rm p") simp_all
    next
      case 2
      then have "cmp q p < 0" using cmp_sym by blast
      then have "\<forall>r \<in> fst ` set ls. cmp q r < 0" using sorted(1) eqs e cmp_trans by auto
      then show ?thesis using upper[of q y us'] 2 eqs e by simp
    next
      case 3
      then have pq: "p = q" using cmp_zero by simp
      let ?m = "if same q x y then m else (if isdir y then m else prune below q m)(q \<mapsto> y)"
      note st' = st[unfolded eqs e pq]
      have "m q = Some x" using merge_state_leftD[OF st', of q x] by auto
      then have "merge_result cmp same ((q, x) # ls') ((q, y) # us') m (apply_changes below isdir
          (merge_changes cmp below isdir same (if isdir x \<and> \<not> isdir y then Some q else None) ls' us') ?m)"
        by (intro merge_result_both[OF less.hyps[OF _ merge_state_modify[OF st' refl same]]])
          (use eqs e pq sorted not_below_less in \<open>auto simp: prune_def\<close>)
      then show ?thesis using 3 eqs e pq by auto
    qed
  qed
qed

text \<open>
  From the start: the first tree holds exactly the first walk. The result has exactly the paths
  of the second walk, each with the second walk's entry or with an entry that is the same.
\<close>

lemma merge_changes_tree:
  assumes "\<forall>q x y. same q x y \<longrightarrow> isdir x = isdir y"
    and "sorted_walk cmp ls" "sorted_walk cmp us" "closed_walk below isdir us"
  defines "m' \<equiv> apply_changes below isdir (merge_changes cmp below isdir same None ls us) (map_of ls)"
  shows "dom m' = fst ` set us"
    and "(q, y) \<in> set us \<Longrightarrow> m' q = Some y \<or> (\<exists>x. map_of ls q = Some x \<and> same q x y \<and> m' q = Some x)"
proof -
  have distinct: "distinct (map fst ls)"
    using assms(2) by (induction ls) auto
  then have st: "merge_state cmp below isdir us None ls us (map_of ls)"
    using assms(2-4) by (auto simp: merge_state_def)
  have R: "merge_result cmp same ls us (map_of ls) m'"
    unfolding m'_def by (rule merge_changes_result[OF _ st]) (use assms(1) in blast)
  have none: "m' p = None" if "p \<notin> fst ` set us" for p
  proof (cases "p \<in> fst ` set ls")
    case True
    then obtain x where "(p, x) \<in> set ls" by auto
    then show ?thesis by (rule merge_resultD(3)[OF R _ that])
  next
    case False
    then have "map_of ls p = None" by (simp add: map_of_eq_None_iff)
    moreover have "p \<notin> fst ` (set ls \<union> set us)" using False that by (simp only: image_Un Un_iff simp_thms)
    ultimately show ?thesis using merge_resultD(4)[OF R, of p] by metis
  qed
  have sub: "dom m' \<subseteq> fst ` set us"
  proof
    fix p assume "p \<in> dom m'"
    then have "m' p \<noteq> None" by (simp only: domIff not_False_eq_True)
    then show "p \<in> fst ` set us" using none by metis
  qed
  have some: "m' (fst u) \<noteq> None" if "u \<in> set us" for u
  proof -
    have "(fst u, snd u) \<in> set us" using that by simp
    from merge_resultD(2)[OF R this] show ?thesis by (elim disjE exE conjE) simp_all
  qed
  have "fst ` set us \<subseteq> dom m'"
    by (rule image_subsetI) (simp only: domIff some not_False_eq_True)
  with sub show "dom m' = fst ` set us" by (rule equalityI)
  show "(q, y) \<in> set us \<Longrightarrow> m' q = Some y \<or> (\<exists>x. map_of ls q = Some x \<and> same q x y \<and> m' q = Some x)"
    using merge_resultD(2)[OF R, of q y] map_of_is_SomeI[OF distinct, of q] by metis
qed

text \<open>The changes come in the order of the paths, at most one for each.\<close>

lemma merge_changes_sorted:
  assumes "sorted_walk cmp ls" "sorted_walk cmp us"
  shows "sorted_wrt (\<lambda>p q. cmp p q < 0)
    (map change_path (merge_changes cmp below isdir same rm ls us))"
  using assms
proof (induction "length ls + length us" arbitrary: rm ls us rule: less_induct)
  case less
  let ?sorted = "\<lambda>cs. sorted_wrt (\<lambda>p q. cmp p q < 0) (map change_path cs)"
  have IH: "?sorted (merge_changes cmp below isdir same rm' ls' us')"
    if "length ls' + length us' < length ls + length us" "sorted_walk cmp ls'" "sorted_walk cmp us'" for rm' ls' us'
    using less.hyps[OF that(1) that(2,3)] .
  have cons: "?sorted (c # merge_changes cmp below isdir same rm' ls' us')"
    if "length ls' + length us' < length ls + length us" "sorted_walk cmp ls'" "sorted_walk cmp us'"
      "\<forall>p \<in> fst ` set ls' \<union> fst ` set us'. cmp (change_path c) p < 0" for c rm' ls' us'
    using IH[OF that(1-3), of rm'] merge_changes_paths[of _ cmp below isdir same rm' ls' us'] that(4) by auto
  show ?case
  proof (cases ls; cases us)
    assume "ls = []" "us = []"
    then show ?thesis by simp
  next
    fix e ls' assume eqs: "ls = e # ls'" "us = []"
    then show ?thesis
      using less.prems by (cases e) (auto intro!: IH cons simp del: sorted_wrt.simps list.map(2))
  next
    fix e us' assume eqs: "ls = []" "us = e # us'"
    then show ?thesis
      using less.prems by (cases e) (auto intro!: cons simp del: sorted_wrt.simps list.map(2))
  next
    fix e ls' f us' assume eqs: "ls = e # ls'" "us = f # us'"
    obtain p x q y where e: "e = (p, x)" "f = (q, y)" by (cases e, cases f) auto
    note so = less.prems[unfolded eqs e]
    consider "cmp p q < 0" | "cmp p q > 0" | "cmp p q = 0" by linarith
    then show ?thesis
    proof cases
      case 1
      then have "\<forall>r \<in> fst ` set ls' \<union> fst ` set us. cmp p r < 0" using so eqs e cmp_trans by auto
      then have "?sorted (TDel p # merge_changes cmp below isdir same (next_rm rm (isdir x) p) ls' us)"
        using less.prems so eqs by (intro cons) auto
      moreover have "?sorted (merge_changes cmp below isdir same rm ls' us)"
        using less.prems so eqs by (intro IH) auto
      ultimately show ?thesis using 1 eqs e by simp
    next
      case 2
      then have "cmp q p < 0" using cmp_sym by blast
      then have "\<forall>r \<in> fst ` set ls \<union> fst ` set us'. cmp q r < 0" using so eqs e cmp_trans by auto
      then have "?sorted (TAdd q y # merge_changes cmp below isdir same None ls us')"
        using less.prems so eqs by (intro cons) auto
      then show ?thesis using 2 eqs e by simp
    next
      case 3
      let ?rm = "if isdir x \<and> \<not> isdir y then Some p else None"
      have "p = q" using 3 cmp_zero by simp
      then have "\<forall>r \<in> fst ` set ls' \<union> fst ` set us'. cmp q r < 0" using so by auto
      then have "?sorted (TMod q y # merge_changes cmp below isdir same ?rm ls' us')"
        using so eqs by (intro cons) auto
      moreover have "?sorted (merge_changes cmp below isdir same ?rm ls' us')"
        using so eqs by (intro IH) auto
      ultimately show ?thesis using 3 eqs e by auto
    qed
  qed
qed

end

end
