(* ===== verification/Double_Walk.thy ===== *)
theory Double_Walk
  imports Validator Tree_Merge
begin

text \<open>
  \<open>diff_containerd.go\<close>: the two walks of a receiver, of the destination (\<open>a\<close>, lower) and of the
  stream from the sender (\<open>b\<close>, upper), merged into changes. The two channels are lists of what
  is still to be received before they are closed; the loop is one recursive function over the
  variables of the closure (\<open>diff_state\<close>), whose termination is proved. The theory ends with the
  refinement of the loop to \<^const>\<open>merge_changes\<close> of \<open>Tree_Merge\<close>.
\<close>

section \<open>Comparing two files\<close>

datatype diff_type = DiffMetadata | DiffNone | DiffContent

record current_path =
  cp_path :: string
  cp_stat :: stat

definition compare_stat :: "stat \<Rightarrow> stat \<Rightarrow> bool res" where
  "compare_stat ls1 ls2 =
     Inr (st_mode ls1 = st_mode ls2 \<and> st_uid ls1 = st_uid ls2 \<and> st_gid ls1 = st_gid ls2 \<and>
       st_devmajor ls1 = st_devmajor ls2 \<and> st_devminor ls1 = st_devminor ls2 \<and>
       st_linkname ls1 = st_linkname ls2)"

text \<open>
  An open file: the bytes still to be read and the error that the reads end with (the end of
  the file, or a failure). A read fills the buffer as far as there are bytes.
\<close>

type_synonym open_file = "string \<times> go_error"

definition file_read :: "nat \<Rightarrow> open_file \<Rightarrow> string \<times> go_error option \<times> open_file" where
  "file_read n f =
     (if fst f = [] then ([], Some (snd f), f)
      else (take n (fst f), None, (drop n (fst f), snd f)))"

definition compare_chunk_size :: nat where
  "compare_chunk_size = 32 * 1024"

definition read_failed :: "go_error option \<Rightarrow> bool" where
  "read_failed e \<longleftrightarrow> e \<noteq> None \<and> e \<noteq> Some Eof"

function compare_chunks :: "open_file \<Rightarrow> open_file \<Rightarrow> bool res" where
  "compare_chunks f1 f2 =
     (let (b1, err1, f1') = file_read compare_chunk_size f1 in
      if read_failed err1 then Inl (the err1)
      else
        let (b2, err2, f2') = file_read compare_chunk_size f2 in
        if read_failed err2 then Inl (the err2)
        else if b1 \<noteq> b2 then Inr False
        else if err1 = Some Eof \<and> err2 = Some Eof then Inr True
        else compare_chunks f1' f2')"
  by pat_completeness auto
termination
  by (relation "measure (\<lambda>(f1, f2). length (fst f1) + length (fst f2))")
    (auto simp: file_read_def compare_chunk_size_def read_failed_def split: if_splits,
     metis add_less_mono diff_less length_greater_0_conv zero_less_numeral)

declare compare_chunks.simps [simp del]

definition compare_file_content :: "(string \<Rightarrow> open_file res) \<Rightarrow> string \<Rightarrow> string \<Rightarrow> bool res" where
  "compare_file_content os_open p1 p2 =
     res_bind (os_open p1) (\<lambda>f1. res_bind (os_open p2) (\<lambda>f2. compare_chunks f1 f2))"

definition same_file ::
  "(string \<Rightarrow> open_file res) \<Rightarrow> current_path \<Rightarrow> current_path \<Rightarrow> diff_type \<Rightarrow> bool res" where
  "same_file os_open f1 f2 differ =
     (if differ = DiffNone then Inr False
      else if \<not> stat_is_dir (cp_stat f1) \<and> st_size (cp_stat f1) \<noteq> st_size (cp_stat f2) then Inr False
      else if \<not> stat_is_dir (cp_stat f1) \<and> st_modtime (cp_stat f1) \<noteq> st_modtime (cp_stat f2) then Inr False
      else res_bind (compare_stat (cp_stat f1) (cp_stat f2)) (\<lambda>same.
        if \<not> same \<or> differ = DiffMetadata then Inr same
        else compare_file_content os_open (cp_path f1) (cp_path f2)))"

text \<open>The chunks of two files are equal to the end exactly when the files are.\<close>

lemma compare_chunks_eof:
  "compare_chunks (c1, Eof) (c2, Eof) = Inr (c1 = c2)"
proof (induction "length c1" arbitrary: c1 c2 rule: less_induct)
  case less
  let ?n = compare_chunk_size
  have n: "0 < ?n" by (simp add: compare_chunk_size_def)
  show ?case
  proof (cases "c1 = [] \<or> c2 = []")
    case True
    then show ?thesis using n by (subst compare_chunks.simps) (auto simp: file_read_def read_failed_def)
  next
    case False
    then have step: "compare_chunks (c1, Eof) (c2, Eof) =
        (if take ?n c1 \<noteq> take ?n c2 then Inr False
         else compare_chunks (drop ?n c1, Eof) (drop ?n c2, Eof))"
      by (subst compare_chunks.simps) (simp add: file_read_def read_failed_def)
    have "length (drop ?n c1) < length c1" using False n by auto
    moreover have "c1 = c2 \<longleftrightarrow> take ?n c1 = take ?n c2 \<and> drop ?n c1 = drop ?n c2"
      by (metis append_take_drop_id)
    ultimately show ?thesis using less[of "drop ?n c1" "drop ?n c2"] step by simp
  qed
qed

section \<open>Which change comes next\<close>

definition path_change :: "current_path option \<Rightarrow> current_path option \<Rightarrow> (change_kind \<times> string) res" where
  "path_change lower upper =
     (case lower of
        None \<Rightarrow>
          (case upper of
             None \<Rightarrow> Inl (Panic ''cannot compare nil paths'')
           | Some u \<Rightarrow> Inr (ChangeKindAdd, cp_path u))
      | Some l \<Rightarrow>
          (case upper of
             None \<Rightarrow> Inr (ChangeKindDelete, cp_path l)
           | Some u \<Rightarrow>
               let i = compare_path (cp_path l) (cp_path u)
               in if i < 0 then Inr (ChangeKindDelete, cp_path l)
                  else if i > 0 then Inr (ChangeKindAdd, cp_path u)
                  else Inr (ChangeKindModify, cp_path u)))"

section \<open>The loop\<close>

text \<open>
  The variables of the loop: the two entries at hand, the two channels (\<open>None\<close> once set to nil)
  and \<open>rmdir\<close>. A channel is the list of what its walker still sends; \<open>walk_ctx\<close> is the number of
  receives after which the context is done, if it ever is.
\<close>

type_synonym filter_func = "string \<Rightarrow> stat \<Rightarrow> bool \<times> stat"

record diff_state =
  df_f1 :: "current_path option"
  df_f2 :: "current_path option"
  df_c1 :: "current_path list option"
  df_c2 :: "current_path list option"
  df_rmdir :: string
  df_ctx :: "nat option"

definition diff_init :: "nat option \<Rightarrow> current_path list \<Rightarrow> current_path list \<Rightarrow> diff_state" where
  "diff_init ctx a b =
     \<lparr>df_f1 = None, df_f2 = None, df_c1 = Some a, df_c2 = Some b, df_rmdir = [], df_ctx = ctx\<rparr>"

text \<open>\<open>nextPath\<close>: a receive from the channel, or the error of the context.\<close>

definition next_path ::
  "nat option \<Rightarrow> current_path list \<Rightarrow> (current_path option \<times> current_path list \<times> nat option) res" where
  "next_path ctx c =
     (case ctx of
        Some 0 \<Rightarrow> Inl CtxErr
      | _ \<Rightarrow>
        let ctx' = (case ctx of Some (Suc n) \<Rightarrow> Some n | _ \<Rightarrow> None)
        in (case c of [] \<Rightarrow> Inr (None, [], ctx') | p # ps \<Rightarrow> Inr (Some p, ps, ctx')))"

text \<open>
  One side of the loop's head, lines 84-92 for the first walk and 94-102 for the second: when
  there is no entry at hand and the channel is not nil, receive; nil the channel when it is
  closed.
\<close>

definition diff_fetch ::
  "current_path option \<Rightarrow> current_path list option \<Rightarrow> nat option \<Rightarrow>
   (current_path option \<times> current_path list option \<times> nat option) res" where
  "diff_fetch f c ctx =
     (case (f, c) of
        (None, Some ps) \<Rightarrow>
          res_bind (next_path ctx ps) (\<lambda>(f', ps', ctx').
            Inr (f', if f' = None then None else Some ps', ctx'))
      | _ \<Rightarrow> Inr (f, c, ctx))"

definition diff_fetch_both :: "diff_state \<Rightarrow> diff_state res" where
  "diff_fetch_both s =
     res_bind (diff_fetch (df_f1 s) (df_c1 s) (df_ctx s)) (\<lambda>(f1, c1, ctx1).
     res_bind (diff_fetch (df_f2 s) (df_c2 s) ctx1) (\<lambda>(f2, c2, ctx2).
       Inr (s\<lparr>df_f1 := f1, df_c1 := c1, df_f2 := f2, df_c2 := c2, df_ctx := ctx2\<rparr>)))"

text \<open>The copy of the upper entry that the filter may change.\<close>

definition filtered_copy :: "filter_func option \<Rightarrow> current_path \<Rightarrow> current_path" where
  "filtered_copy filt f2 =
     (let stat_copy = the (clone_vt (Some (cp_stat f2)))
      in \<lparr>cp_path = cp_path f2,
          cp_stat = (case filt of None \<Rightarrow> stat_copy | Some f \<Rightarrow> snd (f (cp_path f2) stat_copy))\<rparr>)"

text \<open>What follows the two receives: the new variables and the change to report, if any.\<close>

type_synonym diff_change = "change_kind \<times> string \<times> file_info"

definition diff_add :: "diff_state \<Rightarrow> current_path \<Rightarrow> string \<Rightarrow> diff_state \<times> diff_change option" where
  "diff_add s f2 p =
     (s\<lparr>df_rmdir := [], df_f2 := None\<rparr>, Some (ChangeKindAdd, p, StatInfo (cp_stat f2)))"

definition diff_delete :: "diff_state \<Rightarrow> current_path \<Rightarrow> string \<Rightarrow> diff_state \<times> diff_change option" where
  "diff_delete s f1 p =
     (if df_rmdir s \<noteq> [] \<and> has_prefix (cp_path f1) (df_rmdir s) then (s\<lparr>df_f1 := None\<rparr>, None)
      else
        let rmdir =
          (if df_rmdir s = [] \<and> stat_is_dir (cp_stat f1) then cp_path f1 @ [slash]
           else if df_rmdir s \<noteq> [] then [] else df_rmdir s)
        in (s\<lparr>df_rmdir := rmdir, df_f1 := None\<rparr>, Some (ChangeKindDelete, p, NilInfo)))"

definition diff_modify ::
  "(string \<Rightarrow> open_file res) \<Rightarrow> diff_type \<Rightarrow> diff_state \<Rightarrow> current_path \<Rightarrow> current_path \<Rightarrow> current_path \<Rightarrow>
   string \<Rightarrow> (diff_state \<times> diff_change option) res" where
  "diff_modify os_open differ s f1 f2 f2copy p =
     res_bind (same_file os_open f1 f2copy differ) (\<lambda>same.
       let rmdir =
         (if stat_is_dir (cp_stat f1) \<and> \<not> stat_is_dir (cp_stat f2copy) then cp_path f1 @ [slash]
          else if df_rmdir s \<noteq> [] then [] else df_rmdir s);
         s' = s\<lparr>df_rmdir := rmdir, df_f1 := None, df_f2 := None\<rparr>
       in Inr (s', if same then None else Some (ChangeKindModify, p, StatInfo (cp_stat f2))))"

definition diff_body ::
  "filter_func option \<Rightarrow> diff_type \<Rightarrow> (string \<Rightarrow> open_file res) \<Rightarrow> diff_state \<Rightarrow>
   (diff_state \<times> diff_change option) res" where
  "diff_body filt differ os_open s =
     (if df_f1 s = None \<and> df_f2 s = None then Inr (s, None)
      else
        let f2copy = map_option (filtered_copy filt) (df_f2 s)
        in res_bind (path_change (df_f1 s) f2copy) (\<lambda>(k, p).
             case k of
               ChangeKindAdd \<Rightarrow> Inr (diff_add s (the (df_f2 s)) p)
             | ChangeKindDelete \<Rightarrow> Inr (diff_delete s (the (df_f1 s)) p)
             | ChangeKindModify \<Rightarrow>
                 diff_modify os_open differ s (the (df_f1 s)) (the (df_f2 s)) (the f2copy) p))"

definition diff_step ::
  "filter_func option \<Rightarrow> diff_type \<Rightarrow> (string \<Rightarrow> open_file res) \<Rightarrow> diff_state \<Rightarrow>
   (diff_state \<times> diff_change option) res" where
  "diff_step filt differ os_open s = res_bind (diff_fetch_both s) (diff_body filt differ os_open)"

text \<open>What is left of one walk, and of both.\<close>

definition side_size :: "current_path option \<Rightarrow> current_path list option \<Rightarrow> nat" where
  "side_size f c =
     (case c of None \<Rightarrow> 0 | Some ps \<Rightarrow> 2 * length ps + 1) + (if f = None then 0 else 1)"

definition diff_size :: "diff_state \<Rightarrow> nat" where
  "diff_size s = side_size (df_f1 s) (df_c1 s) + side_size (df_f2 s) (df_c2 s)"

lemma diff_fetch_size:
  assumes "diff_fetch f c ctx = Inr (f', c', ctx')"
  shows "side_size f' c' \<le> side_size f c" "f' = None \<Longrightarrow> c' = None"
    "f' = None \<Longrightarrow> c \<noteq> None \<Longrightarrow> side_size f' c' < side_size f c"
  using assms
  by (cases f; cases c; simp add: diff_fetch_def side_size_def next_path_def res_bind_Inr_iff Let_def
      split: option.splits nat.splits list.splits; fastforce)+

lemma side_size_used: "side_size None c < side_size (Some f) c"
  by (simp add: side_size_def)

lemma diff_fetch_both_size:
  assumes "diff_fetch_both s = Inr s'"
  shows "diff_size s' \<le> diff_size s"
    "df_f1 s' = None \<Longrightarrow> df_f2 s' = None \<Longrightarrow> df_c1 s \<noteq> None \<or> df_c2 s \<noteq> None \<Longrightarrow> diff_size s' < diff_size s"
proof -
  obtain f1 c1 ctx1 f2 c2 ctx2 where
    1: "diff_fetch (df_f1 s) (df_c1 s) (df_ctx s) = Inr (f1, c1, ctx1)" and
    2: "diff_fetch (df_f2 s) (df_c2 s) ctx1 = Inr (f2, c2, ctx2)" and
    s': "s' = s\<lparr>df_f1 := f1, df_c1 := c1, df_f2 := f2, df_c2 := c2, df_ctx := ctx2\<rparr>"
    using assms by (auto simp: diff_fetch_both_def res_bind_Inr_iff)
  note le = diff_fetch_size[OF 1] diff_fetch_size[OF 2]
  show "diff_size s' \<le> diff_size s" using le(1,4) s' by (simp add: diff_size_def)
  show "df_f1 s' = None \<Longrightarrow> df_f2 s' = None \<Longrightarrow> df_c1 s \<noteq> None \<or> df_c2 s \<noteq> None \<Longrightarrow> diff_size s' < diff_size s"
    using le(1,3,4,6) s' by (auto simp: diff_size_def)
qed

lemma diff_delete_size: "df_f1 s = Some f1 \<Longrightarrow> diff_size (fst (diff_delete s f1 p)) < diff_size s"
  by (simp add: diff_delete_def diff_size_def side_size_def Let_def)

lemma diff_add_size: "df_f2 s = Some f2 \<Longrightarrow> diff_size (fst (diff_add s f2 p)) < diff_size s"
  by (simp add: diff_add_def diff_size_def side_size_def)

lemma diff_modify_size:
  "df_f1 s = Some f1 \<Longrightarrow> df_f2 s = Some f2 \<Longrightarrow> diff_modify os_open differ s f1 f2 g p = Inr (s', out) \<Longrightarrow>
   diff_size s' < diff_size s"
  by (auto simp: diff_modify_def diff_size_def side_size_def res_bind_Inr_iff Let_def)

lemma path_change_kind:
  assumes "path_change lower upper = Inr (k, p)"
  shows "k = ChangeKindAdd \<Longrightarrow> upper \<noteq> None" "k = ChangeKindDelete \<Longrightarrow> lower \<noteq> None"
    "k = ChangeKindModify \<Longrightarrow> lower \<noteq> None \<and> upper \<noteq> None"
  using assms by (auto simp: path_change_def Let_def split: option.splits if_splits)

lemma diff_step_size:
  assumes "diff_step filt differ os_open s = Inr (s', out)" and "df_c1 s \<noteq> None \<or> df_c2 s \<noteq> None"
  shows "diff_size s' < diff_size s"
proof -
  obtain s2 where f: "diff_fetch_both s = Inr s2"
    using assms(1) by (auto simp: diff_step_def res_bind_Inr_iff)
  note le = diff_fetch_both_size[OF f]
  show ?thesis
  proof (cases "df_f1 s2 = None \<and> df_f2 s2 = None")
    case True
    then have "s' = s2" using assms(1) f by (simp add: diff_step_def diff_body_def)
    then show ?thesis using True assms(2) le(2) by simp
  next
    case False
    then obtain k p where pc: "path_change (df_f1 s2) (map_option (filtered_copy filt) (df_f2 s2)) = Inr (k, p)"
      using assms(1) f by (auto simp: diff_step_def diff_body_def res_bind_Inr_iff Let_def)
    note kind = path_change_kind[OF pc]
    have "diff_size s' < diff_size s2"
    proof (cases k)
      case ChangeKindAdd
      then have "s' = fst (diff_add s2 (the (df_f2 s2)) p)"
        using assms(1) f False pc by (auto simp: diff_step_def diff_body_def)
      then show ?thesis using kind(1)[OF ChangeKindAdd] diff_add_size[of s2 "the (df_f2 s2)" p] by auto
    next
      case ChangeKindModify
      then have "diff_modify os_open differ s2 (the (df_f1 s2)) (the (df_f2 s2))
          (the (map_option (filtered_copy filt) (df_f2 s2))) p = Inr (s', out)"
        using assms(1) f False pc by (auto simp: diff_step_def diff_body_def)
      then show ?thesis
        using kind(3)[OF ChangeKindModify] diff_modify_size[of s2 "the (df_f1 s2)" "the (df_f2 s2)"] by auto
    next
      case ChangeKindDelete
      then have "s' = fst (diff_delete s2 (the (df_f1 s2)) p)"
        using assms(1) f False pc by (auto simp: diff_step_def diff_body_def)
      then show ?thesis using kind(2)[OF ChangeKindDelete] diff_delete_size[of s2 "the (df_f1 s2)" p] by auto
    qed
    then show ?thesis using le(1) by simp
  qed
qed

text \<open>
  The loop of \<open>doubleWalkDiff\<close>. The handler threads its own state; an error of the context, of a
  comparison or of the handler ends the loop.
\<close>

function diff_loop ::
  "(change_kind \<Rightarrow> string \<Rightarrow> file_info \<Rightarrow> go_error option \<Rightarrow> 's \<Rightarrow> 's res) \<Rightarrow> filter_func option \<Rightarrow>
   diff_type \<Rightarrow> (string \<Rightarrow> open_file res) \<Rightarrow> diff_state \<Rightarrow> 's \<Rightarrow> 's res" where
  "diff_loop change_fn filt differ os_open s st =
     (if df_c1 s = None \<and> df_c2 s = None then Inr st
      else
        (case diff_step filt differ os_open s of
           Inl e \<Rightarrow> Inl e
         | Inr (s', None) \<Rightarrow> diff_loop change_fn filt differ os_open s' st
         | Inr (s', Some (k, p, fi)) \<Rightarrow>
             (case change_fn k p fi None st of
                Inl e \<Rightarrow> Inl e
              | Inr st' \<Rightarrow> diff_loop change_fn filt differ os_open s' st')))"
  by pat_completeness auto
termination
  by (relation "measure (\<lambda>(change_fn, filt, differ, os_open, s, st). diff_size s)")
    (auto dest: diff_step_size)

declare diff_loop.simps [simp del]

definition double_walk_diff ::
  "(change_kind \<Rightarrow> string \<Rightarrow> file_info \<Rightarrow> go_error option \<Rightarrow> 's \<Rightarrow> 's res) \<Rightarrow> filter_func option \<Rightarrow>
   diff_type \<Rightarrow> (string \<Rightarrow> open_file res) \<Rightarrow> nat option \<Rightarrow> current_path list \<Rightarrow> current_path list \<Rightarrow>
   's \<Rightarrow> 's res" where
  "double_walk_diff change_fn filt differ os_open ctx a b st =
     diff_loop change_fn filt differ os_open (diff_init ctx a b) st"

section \<open>Refinement of the merge\<close>

interpretation path_walk: walk_order compare_path below
proof unfold_locales
  fix p q r d :: string
  show "compare_path p q = 0 \<longleftrightarrow> p = q" by (simp add: compare_path_key)
  show "0 < compare_path p q \<longleftrightarrow> compare_path q p < 0"
    by (simp add: compare_path_antisym path_less_def)
  show "compare_path p q < 0 \<Longrightarrow> compare_path q r < 0 \<Longrightarrow> compare_path p r < 0"
    using path_ord.less_trans[of p q r] by (simp add: path_less_def)
  show "below d p \<Longrightarrow> compare_path d p < 0"
    using below_less[of d p] by (simp add: path_less_def)
qed

text \<open>The program's variables read as the merge's.\<close>

fun diff_event :: "(string, stat) tree_change \<Rightarrow> diff_change" where
  "diff_event (TAdd p x) = (ChangeKindAdd, p, StatInfo x)"
| "diff_event (TMod p x) = (ChangeKindModify, p, StatInfo x)"
| "diff_event (TDel p) = (ChangeKindDelete, p, NilInfo)"

definition walk_entry :: "current_path \<Rightarrow> string \<times> stat" where
  "walk_entry c = (cp_path c, cp_stat c)"

definition rmdir_of :: "string option \<Rightarrow> string" where
  "rmdir_of rm = (case rm of None \<Rightarrow> [] | Some d \<Rightarrow> d @ [slash])"

definition side_rest :: "current_path option \<Rightarrow> current_path list option \<Rightarrow> current_path list" where
  "side_rest f c = (case f of None \<Rightarrow> [] | Some x \<Rightarrow> [x]) @ (case c of None \<Rightarrow> [] | Some ps \<Rightarrow> ps)"

definition same_entry ::
  "filter_func option \<Rightarrow> diff_type \<Rightarrow> (string \<Rightarrow> open_file res) \<Rightarrow> string \<Rightarrow> stat \<Rightarrow> stat \<Rightarrow> bool" where
  "same_entry filt differ os_open p x y \<longleftrightarrow>
     same_file os_open \<lparr>cp_path = p, cp_stat = x\<rparr> (filtered_copy filt \<lparr>cp_path = p, cp_stat = y\<rparr>) differ = Inr True"

definition comparable ::
  "filter_func option \<Rightarrow> diff_type \<Rightarrow> (string \<Rightarrow> open_file res) \<Rightarrow> current_path list \<Rightarrow> current_path list \<Rightarrow> bool" where
  "comparable filt differ os_open a b \<longleftrightarrow>
     (\<forall>f1 \<in> set a. \<forall>f2 \<in> set b. cp_path f1 = cp_path f2 \<longrightarrow>
        \<not> isl (same_file os_open f1 (filtered_copy filt f2) differ))"

text \<open>A filter may change the owner or the permissions of an entry, but not make it a directory.\<close>

definition filter_keeps_dir :: "filter_func option \<Rightarrow> bool" where
  "filter_keeps_dir filt \<longleftrightarrow>
     (\<forall>f. filt = Some f \<longrightarrow> (\<forall>p s. stat_is_dir (snd (f p s)) = stat_is_dir s))"

lemma filtered_copy_path [simp]: "cp_path (filtered_copy filt f) = cp_path f"
  by (simp add: filtered_copy_def Let_def)

lemma filtered_copy_is_dir:
  "filter_keeps_dir filt \<Longrightarrow> stat_is_dir (cp_stat (filtered_copy filt f)) = stat_is_dir (cp_stat f)"
  by (auto simp: filtered_copy_def Let_def filter_keeps_dir_def simp del: clone_vt.simps split: option.splits)

lemma same_entry_is_dir:
  assumes "filter_keeps_dir filt" "same_entry filt differ os_open p x y"
  shows "stat_is_dir x = stat_is_dir y"
proof -
  let ?c = "filtered_copy filt \<lparr>cp_path = p, cp_stat = y\<rparr>"
  have "st_mode x = st_mode (cp_stat ?c)"
    using assms(2) by (auto simp: same_entry_def same_file_def compare_stat_def split: if_splits)
  then have "stat_is_dir x = stat_is_dir (cp_stat ?c)" by (simp add: stat_is_dir_def)
  then show ?thesis using filtered_copy_is_dir[OF assms(1), of "\<lparr>cp_path = p, cp_stat = y\<rparr>"] by simp
qed

lemma diff_fetch_rest:
  assumes "f \<noteq> None \<longrightarrow> c \<noteq> None"
  obtains f' c' where "diff_fetch f c None = Inr (f', c', None)" "side_rest f' c' = side_rest f c"
    "f' \<noteq> None \<longleftrightarrow> c' \<noteq> None" "f' = None \<longleftrightarrow> side_rest f c = []"
proof -
  consider x ps where "f = Some x" "c = Some ps" | "f = None" "c = None" | "f = None" "c = Some []"
    | p ps where "f = None" "c = Some (p # ps)"
    using assms by (metis list.exhaust option.exhaust_sel)
  then show ?thesis
  proof cases
    case 1
    then show ?thesis using that[of f c] by (simp add: diff_fetch_def side_rest_def)
  next
    case 2
    then show ?thesis using that[of f c] by (simp add: diff_fetch_def side_rest_def)
  next
    case 3
    then show ?thesis using that[of None None] by (simp add: diff_fetch_def next_path_def side_rest_def)
  next
    case (4 p ps)
    then show ?thesis
      using that[of "Some p" "Some ps"] by (simp add: diff_fetch_def next_path_def side_rest_def)
  qed
qed

text \<open>The state of the loop over what is left of the walks, and the loop after the receives.\<close>

definition diff_rest :: "diff_state \<Rightarrow> current_path list \<Rightarrow> current_path list \<Rightarrow> bool" where
  "diff_rest s a b \<longleftrightarrow>
     df_ctx s = None \<and> side_rest (df_f1 s) (df_c1 s) = a \<and> side_rest (df_f2 s) (df_c2 s) = b \<and>
     (df_f1 s \<noteq> None \<longrightarrow> df_c1 s \<noteq> None) \<and> (df_f2 s \<noteq> None \<longrightarrow> df_c2 s \<noteq> None)"

lemma diff_rest_fetch:
  assumes "diff_rest s a b"
  obtains s' where "diff_fetch_both s = Inr s'" "diff_rest s' a b" "df_rmdir s' = df_rmdir s"
    "df_f1 s' = (if a = [] then None else Some (hd a))" "df_f2 s' = (if b = [] then None else Some (hd b))"
    "a = [] \<longrightarrow> df_c1 s' = None" "b = [] \<longrightarrow> df_c2 s' = None"
proof -
  obtain f1 c1 where 1: "diff_fetch (df_f1 s) (df_c1 s) None = Inr (f1, c1, None)" "side_rest f1 c1 = a"
    "f1 \<noteq> None \<longleftrightarrow> c1 \<noteq> None" "f1 = None \<longleftrightarrow> a = []"
    using assms diff_fetch_rest[of "df_f1 s" "df_c1 s"] unfolding diff_rest_def by metis
  obtain f2 c2 where 2: "diff_fetch (df_f2 s) (df_c2 s) None = Inr (f2, c2, None)" "side_rest f2 c2 = b"
    "f2 \<noteq> None \<longleftrightarrow> c2 \<noteq> None" "f2 = None \<longleftrightarrow> b = []"
    using assms diff_fetch_rest[of "df_f2 s" "df_c2 s"] unfolding diff_rest_def by metis
  have hds: "f1 = (if a = [] then None else Some (hd a))" "f2 = (if b = [] then None else Some (hd b))"
    using 1(2,4) 2(2,4) by (auto simp: side_rest_def)
  let ?s = "s\<lparr>df_f1 := f1, df_c1 := c1, df_f2 := f2, df_c2 := c2, df_ctx := None\<rparr>"
  have fetch: "diff_fetch_both s = Inr ?s" "diff_rest ?s a b"
    using 1 2 assms by (simp_all add: diff_fetch_both_def diff_rest_def)
  have nones: "a = [] \<longrightarrow> c1 = None" "b = [] \<longrightarrow> c2 = None" using 1(3,4) 2(3,4) by blast+
  show ?thesis
    by (rule that[OF fetch]) (use hds nones in simp_all)
qed

lemma rmdir_of_simps [simp]:
  "rmdir_of None = []" "rmdir_of (Some d) = d @ [slash]" "rmdir_of rm = [] \<longleftrightarrow> rm = None"
  by (auto simp: rmdir_of_def split: option.splits)

lemma in_rm_rmdir: "in_rm below rm p \<longleftrightarrow> rmdir_of rm \<noteq> [] \<and> has_prefix p (rmdir_of rm)"
  by (auto simp: in_rm_def below_def split: option.splits)

lemma next_rm_rmdir:
  "rmdir_of (next_rm rm isd p) =
     (if rmdir_of rm = [] \<and> isd then p @ [slash] else if rmdir_of rm \<noteq> [] then [] else rmdir_of rm)"
  by (auto simp: next_rm_def)

text \<open>What the body of the loop does, by the change that comes next.\<close>

lemma diff_rest_drop:
  "diff_rest s (f # a) b \<Longrightarrow> df_f1 s = Some f \<Longrightarrow> diff_rest (s\<lparr>df_f1 := None\<rparr>) a b"
  "diff_rest s a (f # b) \<Longrightarrow> df_f2 s = Some f \<Longrightarrow> diff_rest (s\<lparr>df_f2 := None\<rparr>) a b"
  "diff_rest (s\<lparr>df_rmdir := r\<rparr>) a b = diff_rest s a b"
  by (auto simp: diff_rest_def side_rest_def)

lemma diff_loop_step:
  assumes "diff_rest s a b" "diff_fetch_both s = Inr s'" "a \<noteq> [] \<or> b \<noteq> []"
  shows "diff_loop h filt differ os_open s st =
     (case diff_body filt differ os_open s' of
        Inl e \<Rightarrow> Inl e
      | Inr (s'', None) \<Rightarrow> diff_loop h filt differ os_open s'' st
      | Inr (s'', Some (k, p, fi)) \<Rightarrow>
          res_bind (h k p fi None st) (diff_loop h filt differ os_open s''))"
proof -
  have "df_c1 s \<noteq> None \<or> df_c2 s \<noteq> None"
    using assms(1,3) by (auto simp: diff_rest_def side_rest_def split: option.splits)
  then show ?thesis
    using assms(2) by (subst diff_loop.simps) (auto simp: diff_step_def res_bind_def split: sum.splits option.splits)
qed

text \<open>
  With a live context the loop calls the handler on exactly the changes of the merge, in order,
  whatever the handler does.
\<close>

abbreviation merge_events ::
  "filter_func option \<Rightarrow> diff_type \<Rightarrow> (string \<Rightarrow> open_file res) \<Rightarrow> string option \<Rightarrow>
   current_path list \<Rightarrow> current_path list \<Rightarrow> (string, stat) tree_change list" where
  "merge_events filt differ os_open rm a b \<equiv>
     merge_changes compare_path below stat_is_dir (same_entry filt differ os_open) rm
       (map walk_entry a) (map walk_entry b)"

abbreviation run_events ::
  "(change_kind \<Rightarrow> string \<Rightarrow> file_info \<Rightarrow> go_error option \<Rightarrow> 's \<Rightarrow> 's res) \<Rightarrow>
   (string, stat) tree_change list \<Rightarrow> 's \<Rightarrow> 's res" where
  "run_events h cs \<equiv> res_fold (\<lambda>(k, p, fi). h k p fi None) (map diff_event cs)"

lemma comparable_tl:
  "comparable filt differ os_open (f # a) b \<Longrightarrow> comparable filt differ os_open a b"
  "comparable filt differ os_open a (f # b) \<Longrightarrow> comparable filt differ os_open a b"
  by (simp_all add: comparable_def)

lemma comparable_hd:
  assumes "comparable filt differ os_open (f1 # a) (f2 # b)" "cp_path f1 = cp_path f2"
  shows "same_file os_open f1 (filtered_copy filt f2) differ =
    Inr (same_entry filt differ os_open (cp_path f2) (cp_stat f1) (cp_stat f2))"
proof -
  have eqs: "\<lparr>cp_path = cp_path f2, cp_stat = cp_stat f1\<rparr> = f1" "\<lparr>cp_path = cp_path f2, cp_stat = cp_stat f2\<rparr> = f2"
    using assms(2) by simp_all
  have "\<not> isl (same_file os_open f1 (filtered_copy filt f2) differ)"
    using assms by (simp add: comparable_def)
  then show ?thesis
    unfolding same_entry_def eqs by (cases "same_file os_open f1 (filtered_copy filt f2) differ") auto
qed

lemma diff_loop_refines:
  assumes "diff_rest s a b" "df_rmdir s = rmdir_of rm"
    and "comparable filt differ os_open a b" "filter_keeps_dir filt"
  shows "diff_loop h filt differ os_open s st =
    run_events h (merge_events filt differ os_open rm a b) st"
  using assms(1-3)
proof (induction "length a + length b" arbitrary: s a b rm st rule: less_induct)
  case less
  obtain s' where f: "diff_fetch_both s = Inr s'" "diff_rest s' a b" "df_rmdir s' = df_rmdir s"
    "df_f1 s' = (if a = [] then None else Some (hd a))" "df_f2 s' = (if b = [] then None else Some (hd b))"
    "a = [] \<longrightarrow> df_c1 s' = None" "b = [] \<longrightarrow> df_c2 s' = None"
    by (rule diff_rest_fetch[OF less.prems(1)])
  note rm = f(3) less.prems(2)
  have add: "diff_loop h filt differ os_open s st =
      run_events h (TAdd (cp_path u) (cp_stat u) # merge_events filt differ os_open None a us) st"
    if b: "b = u # us" and k: "path_change (df_f1 s') (Some (filtered_copy filt u)) = Inr (ChangeKindAdd, cp_path u)"
    for u us
  proof -
    let ?s = "s'\<lparr>df_rmdir := [], df_f2 := None\<rparr>"
    have f2: "df_f2 s' = Some u" using f(5) b by simp
    have "diff_rest (s'\<lparr>df_f2 := None\<rparr>) a us"
      using f(2) f2 unfolding b by (intro diff_rest_drop(2))
    then have "diff_rest ?s a us" unfolding diff_rest_def by simp
    then have IH: "diff_loop h filt differ os_open ?s = run_events h (merge_events filt differ os_open None a us)"
      using less.hyps[of a us ?s None] comparable_tl(2)[OF less.prems(3)[unfolded b]] b by (intro ext) simp
    have "diff_body filt differ os_open s' = Inr (diff_add s' u (cp_path u))"
      using k b f(5) by (simp add: diff_body_def)
    then show ?thesis
      using diff_loop_step[OF less.prems(1) f(1), of h filt differ os_open st] b IH
      by (simp add: diff_add_def)
  qed
  have delete: "diff_loop h filt differ os_open s st =
      run_events h (if in_rm below rm (cp_path l) then merge_events filt differ os_open rm ls b
        else TDel (cp_path l) #
          merge_events filt differ os_open (next_rm rm (stat_is_dir (cp_stat l)) (cp_path l)) ls b) st"
    if a: "a = l # ls" and k: "path_change (Some l) (map_option (filtered_copy filt) (df_f2 s')) =
        Inr (ChangeKindDelete, cp_path l)"
    for l ls
  proof -
    let ?rm = "next_rm rm (stat_is_dir (cp_stat l)) (cp_path l)"
    have f1: "df_f1 s' = Some l" using f(4) a by simp
    have rest: "diff_rest (s'\<lparr>df_f1 := None\<rparr>) ls b"
      using f(2) f1 unfolding a by (intro diff_rest_drop(1))
    have IH: "diff_loop h filt differ os_open s2 = run_events h (merge_events filt differ os_open rm2 ls b)"
      if "diff_rest s2 ls b" "df_rmdir s2 = rmdir_of rm2" for s2 rm2
      using less.hyps[of ls b s2 rm2] comparable_tl(1)[OF less.prems(3)[unfolded a]] that a by (intro ext) simp
    let ?s = "s'\<lparr>df_rmdir := rmdir_of ?rm, df_f1 := None\<rparr>"
    have rest': "diff_rest ?s ls b" using rest by (simp add: diff_rest_def)
    have body: "diff_body filt differ os_open s' = Inr (diff_delete s' l (cp_path l))"
      using k a f(4) by (simp add: diff_body_def)
    have del: "diff_delete s' l (cp_path l) =
        (if in_rm below rm (cp_path l) then (s'\<lparr>df_f1 := None\<rparr>, None)
         else (?s, Some (ChangeKindDelete, cp_path l, NilInfo)))"
      using rm by (simp add: diff_delete_def in_rm_rmdir next_rm_rmdir Let_def)
    show ?thesis
      using diff_loop_step[OF less.prems(1) f(1), of h filt differ os_open st] a body del IH[OF rest] IH[OF rest'] rm
      by simp
  qed
  show ?case
  proof (cases a; cases b)
    assume ab: "a = []" "b = []"
    show ?thesis
    proof (cases "df_c1 s = None \<and> df_c2 s = None")
      case True
      then show ?thesis using ab by (subst diff_loop.simps) simp
    next
      case False
      have "diff_loop h filt differ os_open s' st = Inr st"
        using f(6,7) ab by (subst diff_loop.simps) simp
      then show ?thesis
        using ab False f(1,4,5) by (subst diff_loop.simps) (auto simp: diff_step_def diff_body_def)
    qed
  next
    fix l ls assume "a = l # ls" "b = []"
    then show ?thesis using delete[of l ls] f(5)
      by (cases "in_rm below rm (cp_path l)") (simp_all add: walk_entry_def path_change_def)
  next
    fix u us assume "a = []" "b = u # us"
    then show ?thesis using add[of u us] f(4) by (simp add: walk_entry_def path_change_def)
  next
    fix l ls u us assume ab: "a = l # ls" "b = u # us"
    let ?i = "compare_path (cp_path l) (cp_path u)"
    consider "?i < 0" | "?i > 0" | "?i = 0" by linarith
    then show ?thesis
    proof cases
      case 1
      then show ?thesis using delete[of l ls] ab f(5)
        by (cases "in_rm below rm (cp_path l)") (simp_all add: walk_entry_def path_change_def)
    next
      case 2
      then show ?thesis using add[of u us] ab f(4) by (simp add: walk_entry_def path_change_def)
    next
      case 3
      then have eq: "cp_path l = cp_path u" by (simp add: compare_path_key)
      let ?y = "stat_is_dir (cp_stat u)"
      let ?rm = "if stat_is_dir (cp_stat l) \<and> \<not> ?y then Some (cp_path l) else None"
      let ?s = "s'\<lparr>df_rmdir := rmdir_of ?rm, df_f1 := None, df_f2 := None\<rparr>"
      let ?same = "same_entry filt differ os_open (cp_path u) (cp_stat l) (cp_stat u)"
      have "diff_rest ?s ls us"
        using f(2,4,5) ab by (auto simp: diff_rest_def side_rest_def)
      then have IH: "diff_loop h filt differ os_open ?s = run_events h (merge_events filt differ os_open ?rm ls us)"
        using less.hyps[of ls us ?s ?rm] less.prems(3) ab by (intro ext) (simp add: comparable_def)
      have "diff_modify os_open differ s' l u (filtered_copy filt u) (cp_path u) =
          Inr (?s, if ?same then None else Some (ChangeKindModify, cp_path u, StatInfo (cp_stat u)))"
        using comparable_hd[of filt differ os_open l ls u us] less.prems(3) ab eq rm
          filtered_copy_is_dir[OF assms(4), of u]
        by (simp add: diff_modify_def Let_def)
      then have "diff_body filt differ os_open s' =
          Inr (?s, if ?same then None else Some (ChangeKindModify, cp_path u, StatInfo (cp_stat u)))"
        using ab f(4,5) 3 by (simp add: diff_body_def path_change_def)
      then show ?thesis
        using diff_loop_step[OF less.prems(1) f(1), of h filt differ os_open st] ab 3 IH eq
        by (cases ?same) (simp_all add: walk_entry_def)
    qed
  qed
qed

lemma double_walk_diff_refines:
  assumes "comparable filt differ os_open a b" "filter_keeps_dir filt"
  shows "double_walk_diff h filt differ os_open None a b st =
    run_events h (merge_events filt differ os_open None a b) st"
  unfolding double_walk_diff_def
  by (rule diff_loop_refines) (simp_all add: diff_init_def diff_rest_def side_rest_def assms)

section \<open>The whole diff\<close>

text \<open>A handler that records the changes, and what a change does to a tree.\<close>

definition record_change ::
  "change_kind \<Rightarrow> string \<Rightarrow> file_info \<Rightarrow> go_error option \<Rightarrow> diff_change list \<Rightarrow> diff_change list res" where
  "record_change k p fi err cs = Inr (cs @ [(k, p, fi)])"

fun apply_event :: "diff_change \<Rightarrow> (string, stat) tree \<Rightarrow> (string, stat) tree" where
  "apply_event (ChangeKindAdd, p, StatInfo x) m = m(p \<mapsto> x)"
| "apply_event (ChangeKindModify, p, StatInfo x) m =
     (if stat_is_dir x then m else prune below p m)(p \<mapsto> x)"
| "apply_event (ChangeKindDelete, p, fi) m = (prune below p m)(p := None)"
| "apply_event (k, p, fi) m = m"

definition tree_of :: "current_path list \<Rightarrow> (string, stat) tree" where
  "tree_of cs = map_of (map walk_entry cs)"

definition add_change :: "current_path \<Rightarrow> vchange" where
  "add_change c = \<lparr>vc_kind = ChangeKindAdd, vc_path = cp_path c, vc_info = cp_stat c\<rparr>"

lemma apply_event_change: "apply_event (diff_event c) m = apply_change below stat_is_dir c m"
  by (cases c) simp_all

lemma fold_events: "fold apply_event (map diff_event cs) m = apply_changes below stat_is_dir cs m"
  by (induction cs arbitrary: m) (simp_all add: apply_event_change)

lemma run_record: "run_events record_change cs ds = Inr (ds @ map diff_event cs)"
proof (induction cs arbitrary: ds)
  case (Cons c cs)
  then show ?case by (cases "diff_event c") (simp add: record_change_def)
qed simp

lemma sorted_walk_entries: "sorted_walk compare_path (map walk_entry cs) = sorted_wrt path_less (map cp_path cs)"
  by (simp add: sorted_walk_def walk_entry_def comp_def path_less_def[abs_def])

lemma tree_order_walk:
  assumes "tree_order (map add_change cs)"
  shows "sorted_wrt path_less (map cp_path cs)" "closed_walk below stat_is_dir (map walk_entry cs)"
proof -
  show "sorted_wrt path_less (map cp_path cs)"
    using assms by (simp add: tree_order_def add_change_def comp_def)
  have "\<exists>f \<in> set cs. cp_path f = d \<and> stat_is_dir (cp_stat f)" if c: "c \<in> set cs" and b: "below d (cp_path c)" for c d
  proof -
    obtain r where r: "cp_path c = d @ slash # r" using b by (rule belowE)
    let ?k = "length (split_slash d)"
    have "add_change c \<in> set (map add_change cs)" using c by simp
    moreover have "0 < ?k" "?k < length (split_slash (vc_path (add_change c)))"
      by (simp_all add: add_change_def r split_slash_append)
    ultimately obtain c' where c': "c' \<in> set (map add_change cs)" "opens_dir c'"
      "vc_path c' = join_slash (take ?k (split_slash (vc_path (add_change c))))"
      using tree_order_closed[OF assms] by blast
    have "vc_path c' = d" using c'(3) by (simp add: add_change_def r split_slash_append)
    then show ?thesis using c'(1,2) by (auto simp: add_change_def opens_dir_def)
  qed
  then show "closed_walk below stat_is_dir (map walk_entry cs)"
    unfolding closed_walk_def by (fastforce simp: walk_entry_def)
qed

lemma map_walk_entry_set: "(p, x) \<in> set (map walk_entry cs) \<longleftrightarrow> (\<exists>f \<in> set cs. p = cp_path f \<and> x = cp_stat f)"
  by (auto simp: walk_entry_def)

lemma double_walk_record:
  assumes "comparable filt differ os_open a b" "filter_keeps_dir filt"
  shows "double_walk_diff record_change filt differ os_open None a b [] =
    Inr (map diff_event (merge_events filt differ os_open None a b))"
  by (simp only: double_walk_diff_refines[OF assms] run_record append_Nil)

lemma diff_event_path: "(\<lambda>(k, p, fi). p) (diff_event c) = change_path c"
  by (cases c) simp_all

lemma diff_paths: "map (\<lambda>(k, p, fi). p) (map diff_event cs) = map change_path cs"
  by (simp only: map_map comp_def diff_event_path)

text \<open>Without content comparison no file is opened, so any two walks can be compared.\<close>

lemma comparable_metadata: "differ \<noteq> DiffContent \<Longrightarrow> comparable filt differ os_open a b"
  by (cases differ) (auto simp: comparable_def same_file_def compare_stat_def)

section \<open>Properties\<close>

text \<open>C17. With a live context the loop of \<open>doubleWalkDiff\<close> calls its handler, whatever the handler
  does, on exactly the changes of the abstract merge of the two walks, in order, and stops at the
  first error of the handler.\<close>

theorem double_walk_diff_merge:
  assumes "comparable filt differ os_open a b" "filter_keeps_dir filt"
  shows "double_walk_diff h filt differ os_open None a b st =
    res_fold (\<lambda>(k, p, fi). h k p fi None)
      (map diff_event (merge_changes compare_path below stat_is_dir (same_entry filt differ os_open)
        None (map walk_entry a) (map walk_entry b))) st"
  by (rule double_walk_diff_refines[OF assms])

definition sample_dir :: "string \<Rightarrow> current_path" where
  "sample_dir p = \<lparr>cp_path = p, cp_stat = empty_stat\<lparr>st_path := p, st_mode := mode_dir\<rparr>\<rparr>"

definition sample_reg :: "string \<Rightarrow> nat \<Rightarrow> current_path" where
  "sample_reg p n = \<lparr>cp_path = p, cp_stat = empty_stat\<lparr>st_path := p, st_size := of_nat n\<rparr>\<rparr>"

lemmas sample_simps = sample_dir_def sample_reg_def empty_stat_def stat_is_dir_def mode_is_dir_def
  has_mode_def mode_bits

theorem double_walk_diff_merge_witness:
  "double_walk_diff record_change None DiffMetadata (\<lambda>p. Inl (Errno ENOENT)) None
     [sample_reg ''a'' 1] [sample_reg ''a'' 2] [] =
   res_fold (\<lambda>(k, p, fi). record_change k p fi None)
      (map diff_event (merge_changes compare_path below stat_is_dir
        (same_entry None DiffMetadata (\<lambda>p. Inl (Errno ENOENT)))
        None (map walk_entry [sample_reg ''a'' 1]) (map walk_entry [sample_reg ''a'' 2]))) []"
  by (rule double_walk_diff_merge) (simp_all add: comparable_metadata filter_keeps_dir_def)

text \<open>C16. When the destination is walked in path order and the stream from the sender is one the
  validator accepts, applying the recorded changes to the destination's tree gives exactly the
  paths of the sender's tree, each with the sender's entry or with an entry of the destination
  that \<open>sameFile\<close> takes for the same.\<close>

theorem double_walk_diff_correct:
  assumes "comparable filt differ os_open a b" "filter_keeps_dir filt"
    and "sorted_wrt path_less (map cp_path a)" "tree_order (map add_change b)"
  shows "\<exists>cs. double_walk_diff record_change filt differ os_open None a b [] = Inr cs \<and>
    dom (fold apply_event cs (tree_of a)) = cp_path ` set b \<and>
    (\<forall>f \<in> set b. fold apply_event cs (tree_of a) (cp_path f) = Some (cp_stat f) \<or>
      (\<exists>x. tree_of a (cp_path f) = Some x \<and> same_entry filt differ os_open (cp_path f) x (cp_stat f) \<and>
         fold apply_event cs (tree_of a) (cp_path f) = Some x))"
proof -
  let ?m = "apply_changes below stat_is_dir (merge_events filt differ os_open None a b) (tree_of a)"
  have sorted: "sorted_walk compare_path (map walk_entry a)" "sorted_walk compare_path (map walk_entry b)"
    using assms(3) tree_order_walk(1)[OF assms(4)] by (simp_all add: sorted_walk_entries)
  have dirs: "\<forall>q x y. same_entry filt differ os_open q x y \<longrightarrow> stat_is_dir x = stat_is_dir y"
    using same_entry_is_dir[OF assms(2)] by blast
  note T = path_walk.merge_changes_tree[OF dirs sorted tree_order_walk(2)[OF assms(4)],
      folded tree_of_def]
  have "dom ?m = cp_path ` set b" using T(1) by (simp add: image_image walk_entry_def)
  moreover have "?m (cp_path f) = Some (cp_stat f) \<or>
      (\<exists>x. tree_of a (cp_path f) = Some x \<and> same_entry filt differ os_open (cp_path f) x (cp_stat f) \<and>
        ?m (cp_path f) = Some x)" if "f \<in> set b" for f
    by (rule T(2)) (simp only: map_walk_entry_set, use that in blast)
  ultimately show ?thesis
    using double_walk_record[OF assms(1,2)] by (simp add: fold_events)
qed

lemma sample_tree_order: "tree_order (map add_change [sample_dir ''d'', sample_reg ''d/f'' 1])"
proof -
  have "good_path ''d''" "good_path ''d/f''"
    by (simp_all add: good_path_def good_comps_def good_comp_def)
  then show ?thesis
    by (auto simp: tree_order_def add_change_def local_path_iff sample_simps opens_dir_def parent_of_def
        path_less_def compare_path_def less_Suc_eq)
qed

theorem double_walk_diff_correct_witness:
  "\<exists>cs. double_walk_diff record_change None DiffMetadata (\<lambda>p. Inl (Errno ENOENT)) None
       [sample_reg ''d'' 1] [sample_dir ''d'', sample_reg ''d/f'' 1] [] = Inr cs \<and>
    dom (fold apply_event cs (tree_of [sample_reg ''d'' 1])) = cp_path ` set [sample_dir ''d'', sample_reg ''d/f'' 1] \<and>
    (\<forall>f \<in> set [sample_dir ''d'', sample_reg ''d/f'' 1].
      fold apply_event cs (tree_of [sample_reg ''d'' 1]) (cp_path f) = Some (cp_stat f) \<or>
      (\<exists>x. tree_of [sample_reg ''d'' 1] (cp_path f) = Some x \<and>
         same_entry None DiffMetadata (\<lambda>p. Inl (Errno ENOENT)) (cp_path f) x (cp_stat f) \<and>
         fold apply_event cs (tree_of [sample_reg ''d'' 1]) (cp_path f) = Some x))"
  by (rule double_walk_diff_correct)
    (use sample_tree_order in \<open>simp_all add: comparable_metadata filter_keeps_dir_def sample_reg_def\<close>)

text \<open>C25. The changes are reported in strictly increasing path order, so at most one for a path,
  and every one is about a path of one of the walks.\<close>

theorem double_walk_diff_ordered:
  assumes "comparable filt differ os_open a b" "filter_keeps_dir filt"
    and "sorted_wrt path_less (map cp_path a)" "sorted_wrt path_less (map cp_path b)"
    and "double_walk_diff record_change filt differ os_open None a b [] = Inr cs"
  shows "sorted_wrt path_less (map (\<lambda>(k, p, fi). p) cs) \<and>
    (\<lambda>(k, p, fi). p) ` set cs \<subseteq> cp_path ` set a \<union> cp_path ` set b"
proof -
  let ?cs = "merge_events filt differ os_open None a b"
  have paths: "map (\<lambda>(k, p, fi). p) cs = map change_path ?cs"
    using double_walk_record[OF assms(1,2)] assms(5) diff_paths[of ?cs] by simp
  then have sets: "(\<lambda>(k, p, fi). p) ` set cs = change_path ` set ?cs"
    by (metis list.set_map)
  have "sorted_walk compare_path (map walk_entry a)" "sorted_walk compare_path (map walk_entry b)"
    using assms(3,4) by (simp_all add: sorted_walk_entries)
  from path_walk.merge_changes_sorted[OF this] have "sorted_wrt path_less (map change_path ?cs)"
    by (simp add: path_less_def[abs_def])
  moreover have "change_path ` set ?cs \<subseteq> cp_path ` set a \<union> cp_path ` set b"
    using merge_changes_paths[of _ compare_path below stat_is_dir "same_entry filt differ os_open" None
      "map walk_entry a" "map walk_entry b"]
    by (auto simp: image_image walk_entry_def)
  ultimately show ?thesis using paths sets by simp
qed

theorem double_walk_diff_ordered_witness:
  "\<exists>cs. double_walk_diff record_change None DiffNone (\<lambda>p. Inl (Errno ENOENT)) None
     [sample_reg ''a'' 1] [sample_reg ''b'' 2] [] = Inr cs \<and>
   sorted_wrt path_less (map (\<lambda>(k, p, fi). p) cs) \<and>
    (\<lambda>(k, p, fi). p) ` set cs \<subseteq> cp_path ` set [sample_reg ''a'' 1] \<union> cp_path ` set [sample_reg ''b'' 2]"
proof -
  let ?o = "\<lambda>p :: string. Inl (Errno ENOENT) :: open_file res"
  have c: "comparable None DiffNone ?o [sample_reg ''a'' 1] [sample_reg ''b'' 2]" "filter_keeps_dir None"
    by (simp_all add: comparable_metadata filter_keeps_dir_def)
  have run: "double_walk_diff record_change None DiffNone ?o None [sample_reg ''a'' 1] [sample_reg ''b'' 2] [] =
      Inr (map diff_event (merge_events None DiffNone ?o None [sample_reg ''a'' 1] [sample_reg ''b'' 2]))"
    by (rule double_walk_record[OF c])
  show ?thesis
    using double_walk_diff_ordered[OF c _ _ run] run by (auto simp: sample_reg_def)
qed

text \<open>\<open>DiffContent\<close> on the two sides of a modification.\<close>

lemma compare_chunks_self: "compare_chunks (c, e) (c, e) = (if e = Eof then Inr True else Inl e)"
proof (induction "length c" arbitrary: c rule: less_induct)
  case less
  show ?case
  proof (cases "c = []")
    case True
    then show ?thesis by (subst compare_chunks.simps) (simp add: file_read_def read_failed_def)
  next
    case False
    have "compare_chunks (c, e) (c, e) = compare_chunks (drop compare_chunk_size c, e) (drop compare_chunk_size c, e)"
      using False by (subst compare_chunks.simps) (simp add: file_read_def read_failed_def)
    then show ?thesis using less[of "drop compare_chunk_size c"] False by (simp add: compare_chunk_size_def)
  qed
qed

text \<open>A file that cannot be read to its end, and its error.\<close>

definition unreadable :: "(string \<Rightarrow> open_file res) \<Rightarrow> string \<Rightarrow> go_error \<Rightarrow> bool" where
  "unreadable os_open p e \<longleftrightarrow> os_open p = Inl e \<or> (\<exists>c. os_open p = Inr (c, e) \<and> e \<noteq> Eof)"

lemma same_file_content:
  assumes "cp_path f2 = cp_path f1"
  shows "same_file os_open f1 f2 DiffContent = same_file os_open f1 f2 DiffMetadata \<or>
    (\<exists>p e. unreadable os_open p e \<and> same_file os_open f1 f2 DiffContent = Inl e)"
proof -
  have "compare_file_content os_open (cp_path f1) (cp_path f2) = Inr True \<or>
      (\<exists>e. unreadable os_open (cp_path f1) e \<and> compare_file_content os_open (cp_path f1) (cp_path f2) = Inl e)"
    using assms by (cases "os_open (cp_path f1)") (auto simp: compare_file_content_def unreadable_def compare_chunks_self split: if_splits)
  then show ?thesis by (auto simp: same_file_def compare_stat_def)
qed

lemma diff_step_content:
  "diff_step filt DiffContent os_open s = diff_step filt DiffMetadata os_open s \<or>
   (\<exists>p e. unreadable os_open p e \<and> diff_step filt DiffContent os_open s = Inl e)"
proof (cases "diff_fetch_both s")
  case (Inl e)
  then show ?thesis by (simp add: diff_step_def)
next
  case (Inr s2)
  have body: "diff_step filt d os_open s = diff_body filt d os_open s2" for d using Inr by (simp add: diff_step_def)
  show ?thesis
  proof (cases "\<exists>f1 f2. df_f1 s2 = Some f1 \<and> df_f2 s2 = Some f2 \<and> cp_path f2 = cp_path f1")
    case True
    then obtain f1 f2 where f: "df_f1 s2 = Some f1" "df_f2 s2 = Some f2" "cp_path f2 = cp_path f1" by blast
    have "diff_body filt d os_open s2 = diff_modify os_open d s2 f1 f2 (filtered_copy filt f2) (cp_path f1)" for d
      using f compare_path_key[of "cp_path f1" "cp_path f1"] by (simp add: diff_body_def path_change_def Let_def)
    then show ?thesis
      using same_file_content[of "filtered_copy filt f2" f1 os_open] f(3) unfolding body by (auto simp: diff_modify_def)
  next
    case False
    have "compare_path (cp_path f1) (cp_path f2) \<noteq> 0" if "df_f1 s2 = Some f1" "df_f2 s2 = Some f2" for f1 f2
      using False that by (auto simp: compare_path_key)
    then have "diff_body filt DiffContent os_open s2 = diff_body filt DiffMetadata os_open s2"
      by (cases "df_f1 s2"; cases "df_f2 s2") (auto simp: diff_body_def path_change_def Let_def)
    then show ?thesis using body by simp
  qed
qed

lemma diff_loop_content:
  "diff_loop change_fn filt DiffContent os_open s st = diff_loop change_fn filt DiffMetadata os_open s st \<or>
     (\<exists>p e. unreadable os_open p e \<and> diff_loop change_fn filt DiffContent os_open s st = Inl e)"
proof (induction change_fn filt DiffMetadata os_open s st rule: diff_loop.induct)
  case (1 change_fn filt os_open s st)
  show ?case
  proof (cases "df_c1 s = None \<and> df_c2 s = None")
    case True
    then show ?thesis by (simp add: diff_loop.simps)
  next
    case False
    have loop: "diff_loop change_fn filt d os_open s st =
        (case diff_step filt d os_open s of
           Inl e \<Rightarrow> Inl e
         | Inr (s', None) \<Rightarrow> diff_loop change_fn filt d os_open s' st
         | Inr (s', Some (k, p, fi)) \<Rightarrow>
             (case change_fn k p fi None st of Inl e \<Rightarrow> Inl e | Inr st' \<Rightarrow> diff_loop change_fn filt d os_open s' st'))" for d
      by (subst diff_loop.simps) (use False in auto)
    consider (err) p e where "unreadable os_open p e" "diff_step filt DiffContent os_open s = Inl e"
      | (same) "diff_step filt DiffContent os_open s = diff_step filt DiffMetadata os_open s"
      using diff_step_content[of filt os_open s] by blast
    then show ?thesis
    proof cases
      case err
      then have "diff_loop change_fn filt DiffContent os_open s st = Inl e" by (simp add: loop)
      then show ?thesis using err(1) by blast
    next
      case same
      show ?thesis
      proof (cases "diff_step filt DiffMetadata os_open s")
        case (Inl e)
        then show ?thesis using same by (simp add: loop)
      next
        case (Inr r)
        obtain s' out where r: "r = (s', out)" by (cases r)
        show ?thesis
        proof (cases out)
          case None
          then show ?thesis using 1(1)[OF False Inr r[symmetric] None] same Inr r False by (simp add: loop)
        next
          case (Some c)
          obtain k p fi where c: "c = (k, p, fi)" by (cases c)
          show ?thesis
          proof (cases "change_fn k p fi None st")
            case (Inl e)
            then show ?thesis using same Inr r Some c by (simp add: loop)
          next
            case st': (Inr st')
            show ?thesis using 1(2)[OF False Inr r[symmetric] Some c[symmetric] refl st'] same Inr r Some c st' by (simp add: loop)
          qed
        qed
      qed
    qed
  qed
qed

text \<open>C27. \<open>compareFileContent\<close> tells whether two files that can be read have the same content, but the two sides of a
  modification have the same path, and the loop opens that path for both, so with
  \<open>DiffContent\<close> it compares a file with itself: whatever files there are and whatever the filter does, the diff is
  the one of \<open>DiffMetadata\<close>, handler calls and result, unless it fails because a file could not be read. The content of the
  sender is never consulted.\<close>

theorem diff_content_is_metadata:
  "(\<forall>p1 p2 c1 c2. os_open p1 = Inr (c1, Eof) \<longrightarrow> os_open p2 = Inr (c2, Eof) \<longrightarrow> compare_file_content os_open p1 p2 = Inr (c1 = c2)) \<and>
   (double_walk_diff change_fn filt DiffContent os_open ctx a b st = double_walk_diff change_fn filt DiffMetadata os_open ctx a b st \<or>
    (\<exists>p e. unreadable os_open p e \<and> double_walk_diff change_fn filt DiffContent os_open ctx a b st = Inl e))"
proof
  show "\<forall>p1 p2 c1 c2. os_open p1 = Inr (c1, Eof) \<longrightarrow> os_open p2 = Inr (c2, Eof) \<longrightarrow> compare_file_content os_open p1 p2 = Inr (c1 = c2)"
    by (simp add: compare_file_content_def compare_chunks_eof)
  show "double_walk_diff change_fn filt DiffContent os_open ctx a b st = double_walk_diff change_fn filt DiffMetadata os_open ctx a b st \<or>
    (\<exists>p e. unreadable os_open p e \<and> double_walk_diff change_fn filt DiffContent os_open ctx a b st = Inl e)"
    unfolding double_walk_diff_def by (rule diff_loop_content)
qed

theorem diff_content_is_metadata_witness:
  "compare_file_content (\<lambda>p. Inr (p, Eof)) ''x'' ''y'' = Inr False \<and>
   double_walk_diff record_change None DiffContent (\<lambda>p. Inr (p, Eof)) None [sample_reg ''x'' 1] [sample_reg ''x'' 1] [] =
   double_walk_diff record_change None DiffMetadata (\<lambda>p. Inr (p, Eof)) None [sample_reg ''x'' 1] [sample_reg ''x'' 1] []"
proof -
  let ?o = "\<lambda>p. Inr (p, Eof) :: open_file res"
  have "\<not> unreadable ?o p e" for p e by (simp add: unreadable_def)
  then show ?thesis
    using diff_content_is_metadata[of ?o record_change None None "[sample_reg ''x'' 1]" "[sample_reg ''x'' 1]" "[]"] by auto
qed

end
