(* ===== verification/Hardlinks.thy ===== *)
theory Hardlinks
  imports Path_Order
begin

text \<open>
  \<open>hardlinks.go\<close>: the receiver's check that every hard link points at a path sent before
  (\<open>Hardlinks.HandleChange\<close>) and the sender's repair of links whose source was filtered out
  (\<open>WithHardlinkReset\<close>). The lemmas show that whatever the repair emits passes the check, and
  that it keeps files in the group of links they were in.
\<close>

section \<open>Directory entries\<close>

text \<open>
  An \<open>io/fs.DirEntry\<close>: whether it is a directory, its type bits, and the result of \<open>Info()\<close>.
\<close>

record dir_entry =
  de_is_dir :: bool
  de_type :: "32 word"
  de_info :: "file_info res"

text \<open>A \<open>DirEntryInfo\<close> around a \<open>Stat\<close> (\<open>fs.go\<close>); \<open>Info()\<close> returns a clone of it.\<close>

definition entry_of_stat :: "stat \<Rightarrow> dir_entry" where
  "entry_of_stat st =
     \<lparr>de_is_dir = stat_is_dir st, de_type = st_mode st, de_info = Inr (StatInfo st)\<rparr>"

section \<open>Hardlinks.HandleChange\<close>

text \<open>The state is the key set of \<open>seenFiles\<close>; a nil map has no keys.\<close>

definition hardlinks_handle_change ::
  "change_kind \<Rightarrow> string \<Rightarrow> file_info \<Rightarrow> go_error option \<Rightarrow> string set \<Rightarrow> string set res" where
  "hardlinks_handle_change kind p fi err seen =
     (case err of Some e \<Rightarrow> Inl e
      | None \<Rightarrow>
        if kind = ChangeKindDelete then Inr seen
        else (case fi of
            NilInfo \<Rightarrow> Inl (Panic ''nil FileInfo'')
          | OtherInfo m \<Rightarrow> Inl (PathError ''change without stat info'' p EBADMSG)
          | StatInfo st \<Rightarrow>
              if stat_is_dir st \<or> has_mode (st_mode st) mode_symlink then Inr seen
              else if length (st_linkname st) > 0 then
                (if st_linkname st \<notin> seen then
                   Inl (Errorf ''invalid link %s to unknown path: %q'' [p, st_linkname st])
                 else Inr seen)
              else Inr (insert p seen)))"

section \<open>WithHardlinkReset\<close>

text \<open>\<open>dirEntryWithStat\<close>: the same entry, whose \<open>Info()\<close> is now a \<open>StatInfo\<close> of \<open>st\<close>.\<close>

definition dir_entry_with_stat :: "dir_entry \<Rightarrow> stat \<Rightarrow> dir_entry" where
  "dir_entry_with_stat e st = e\<lparr>de_info := Inr (StatInfo st)\<rparr>"

text \<open>
  The body of the callback of \<open>hardlinkFilter.Walk\<close>, up to the call of \<open>fn\<close>: the entry to pass
  on and the new \<open>seenFiles\<close>.
\<close>

definition hardlink_filter_entry ::
  "string \<Rightarrow> dir_entry \<Rightarrow> go_error option \<Rightarrow> (string \<rightharpoonup> string) \<Rightarrow> (dir_entry \<times> (string \<rightharpoonup> string)) res" where
  "hardlink_filter_entry path entry err seen =
     (case err of Some e \<Rightarrow> Inl e
      | None \<Rightarrow> res_bind (de_info entry) (\<lambda>fi.
          res_bind (fi_mode fi) (\<lambda>m.
            if mode_is_dir m \<or> has_mode m mode_symlink then Inr (entry, seen)
            else (case fi of
                StatInfo st \<Rightarrow>
                  let (entry', seen') =
                    (if st_linkname st \<noteq> [] then
                       (case seen (st_linkname st) of
                          None \<Rightarrow>
                            (dir_entry_with_stat entry (st\<lparr>st_linkname := []\<rparr>),
                             seen(st_linkname st \<mapsto> st_path st))
                        | Some v \<Rightarrow>
                            if v \<noteq> st_path st then
                              (dir_entry_with_stat entry (st\<lparr>st_linkname := v\<rparr>), seen)
                            else (entry, seen))
                     else (entry, seen))
                  in Inr (entry', seen'(path \<mapsto> st_path st))
              | _ \<Rightarrow> Inl (PathError ''fileinfo without stat info'' path EBADMSG)))))"

text \<open>
  The stream a walk produces: the entries in order, each passed through the filter, until one
  fails. The consumer is given the entries afterwards; for the sender it never skips a
  directory.
\<close>

fun hardlink_filter_walk ::
  "(string \<times> dir_entry) list \<Rightarrow> (string \<rightharpoonup> string) \<Rightarrow> ((string \<times> dir_entry) list) res" where
  "hardlink_filter_walk [] seen = Inr []"
| "hardlink_filter_walk ((p, e) # es) seen =
     res_bind (hardlink_filter_entry p e None seen) (\<lambda>(e', seen').
       res_bind (hardlink_filter_walk es seen') (\<lambda>rest. Inr ((p, e') # rest)))"

section \<open>The repaired stream passes the check\<close>

text \<open>
  Streams of stats, as a walk over a \<open>FS\<close> whose entries know their stat produces them: each
  entry is called with its stat's path.
\<close>

definition stat_stream :: "stat list \<Rightarrow> (string \<times> dir_entry) list" where
  "stat_stream sts = map (\<lambda>st. (st_path st, entry_of_stat st)) sts"

text \<open>Entries that take part in hard linking: neither directories nor symlinks.\<close>

definition is_file :: "stat \<Rightarrow> bool" where
  "is_file st \<longleftrightarrow> \<not> stat_is_dir st \<and> \<not> has_mode (st_mode st) mode_symlink"

definition is_link :: "stat \<Rightarrow> bool" where
  "is_link st \<longleftrightarrow> is_file st \<and> st_linkname st \<noteq> []"

text \<open>
  The group of links a file belongs to is named by its source: its own path, or the path it
  links to.
\<close>

definition link_group :: "stat \<Rightarrow> string" where
  "link_group st = (if st_linkname st \<noteq> [] then st_linkname st else st_path st)"

text \<open>No link of the stream points at another link of the stream.\<close>

definition canonical_links :: "stat list \<Rightarrow> bool" where
  "canonical_links sts \<longleftrightarrow>
     (\<forall>a \<in> set sts. \<forall>b \<in> set sts. is_link a \<and> is_link b \<longrightarrow> st_linkname a \<noteq> st_path b)"

text \<open>The stats the filter emits, as a function on streams of stats.\<close>

definition reset_stat :: "stat \<Rightarrow> (string \<rightharpoonup> string) \<Rightarrow> stat \<times> (string \<rightharpoonup> string)" where
  "reset_stat st seen =
     (if \<not> is_file st then (st, seen)
      else if st_linkname st = [] then (st, seen(st_path st \<mapsto> st_path st))
      else (case seen (st_linkname st) of
          None \<Rightarrow> (st\<lparr>st_linkname := []\<rparr>, seen(st_linkname st \<mapsto> st_path st, st_path st \<mapsto> st_path st))
        | Some v \<Rightarrow>
            ((if v \<noteq> st_path st then st\<lparr>st_linkname := v\<rparr> else st), seen(st_path st \<mapsto> st_path st))))"

fun reset_stats :: "stat list \<Rightarrow> (string \<rightharpoonup> string) \<Rightarrow> stat list" where
  "reset_stats [] seen = []"
| "reset_stats (st # sts) seen =
     (let (st', seen') = reset_stat st seen in st' # reset_stats sts seen')"

lemma reset_stat_fields:
  assumes "reset_stat st seen = (st', seen')"
  shows "st_path st' = st_path st" "st_mode st' = st_mode st" "is_file st' = is_file st"
  using assms by (auto simp: reset_stat_def is_file_def stat_is_dir_def split: if_splits option.splits)

lemma filter_entry_reset:
  "\<exists>e'. hardlink_filter_entry (st_path st) (entry_of_stat st) None seen =
      Inr (e', snd (reset_stat st seen)) \<and>
    de_info e' = Inr (StatInfo (fst (reset_stat st seen)))"
  by (auto simp: hardlink_filter_entry_def reset_stat_def entry_of_stat_def is_file_def stat_is_dir_def
      dir_entry_with_stat_def Let_def split: option.splits)

lemma filter_walk_reset:
  "\<exists>out. hardlink_filter_walk (stat_stream sts) seen = Inr out \<and>
     map (\<lambda>(p, e). (p, de_info e)) out =
     map (\<lambda>st. (st_path st, Inr (StatInfo st))) (reset_stats sts seen)"
proof (induction sts arbitrary: seen)
  case Nil
  then show ?case by (simp add: stat_stream_def)
next
  case (Cons st sts)
  obtain st' seen' where r: "reset_stat st seen = (st', seen')" by fastforce
  obtain e' where e': "hardlink_filter_entry (st_path st) (entry_of_stat st) None seen = Inr (e', seen')"
    "de_info e' = Inr (StatInfo st')"
    using filter_entry_reset[of st seen] r by auto
  obtain out where out: "hardlink_filter_walk (stat_stream sts) seen' = Inr out"
     "map (\<lambda>(p, e). (p, de_info e)) out = map (\<lambda>st. (st_path st, Inr (StatInfo st))) (reset_stats sts seen')"
    using Cons.IH by blast
  then show ?case
    using e' r reset_stat_fields(1)[OF r] by (simp add: stat_stream_def)
qed

text \<open>The check over a stream of stats, all of them additions.\<close>

definition hardlinks_run :: "stat list \<Rightarrow> string set \<Rightarrow> string set res" where
  "hardlinks_run sts seen =
     res_fold (\<lambda>st. hardlinks_handle_change ChangeKindAdd (st_path st) (StatInfo st) None) sts seen"

lemma hardlinks_step:
  "hardlinks_handle_change ChangeKindAdd p (StatInfo st) None seen =
     (if \<not> is_file st then Inr seen
      else if st_linkname st \<noteq> [] then
        (if st_linkname st \<in> seen then Inr seen
         else Inl (Errorf ''invalid link %s to unknown path: %q'' [p, st_linkname st]))
      else Inr (insert p seen))"
  by (simp add: hardlinks_handle_change_def is_file_def)

text \<open>
  The invariant between the pairs (original, emitted) so far, the filter's map and the paths
  the check has seen. An entry of the map names a source that was emitted as such, of the group
  the key names, unless the key is the path of a link.
\<close>

definition source_in :: "(stat \<times> stat) set \<Rightarrow> string \<Rightarrow> string \<Rightarrow> bool" where
  "source_in D v l \<longleftrightarrow>
     (\<exists>(a, a') \<in> D. is_file a \<and> st_path a = v \<and> st_linkname a' = [] \<and> link_group a = l)"

definition reset_inv :: "(stat \<times> stat) set \<Rightarrow> (string \<rightharpoonup> string) \<Rightarrow> string set \<Rightarrow> bool" where
  "reset_inv D seen vs \<longleftrightarrow>
     (\<forall>l v. seen l = Some v \<longrightarrow>
        source_in D v l \<or> (\<exists>(a, a') \<in> D. is_link a \<and> st_path a = l)) \<and>
     (\<forall>v l. source_in D v l \<longrightarrow> v \<in> vs)"

lemma source_in_insert:
  "source_in (insert (a, a') D) v l \<longleftrightarrow>
     is_file a \<and> st_path a = v \<and> st_linkname a' = [] \<and> link_group a = l \<or> source_in D v l"
  by (auto simp: source_in_def)

lemma source_in_path: "source_in D v l \<Longrightarrow> v \<in> (\<lambda>(a, a'). st_path a) ` D"
  by (force simp: source_in_def)

lemma reset_step_ok:
  assumes inv: "reset_inv D seen vs" and new: "\<forall>(a, a') \<in> D. st_path a \<noteq> st_path st"
    and can: "\<forall>(a, a') \<in> D. is_link st \<and> is_link a \<longrightarrow> st_linkname st \<noteq> st_path a"
    and r: "reset_stat st seen = (st', seen')"
  shows "\<exists>vs'. hardlinks_handle_change ChangeKindAdd (st_path st') (StatInfo st') None vs = Inr vs' \<and>
    reset_inv (insert (st, st') D) seen' vs' \<and>
    (is_link st' \<longrightarrow> source_in D (st_linkname st') (link_group st))"
proof -
  note f = reset_stat_fields[OF r]
  consider "\<not> is_file st" | "is_file st" "st_linkname st = []"
    | "is_link st" "seen (st_linkname st) = None"
    | v where "is_link st" "seen (st_linkname st) = Some v"
    by (cases "seen (st_linkname st)") (auto simp: is_link_def)
  then show ?thesis
  proof cases
    case 1
    then have "st' = st" "seen' = seen" using r by (auto simp: reset_stat_def)
    then show ?thesis
      using 1 inv by (auto simp: hardlinks_step reset_inv_def source_in_insert is_link_def)
  next
    case 2
    then have "st' = st" "seen' = seen(st_path st \<mapsto> st_path st)" using r by (auto simp: reset_stat_def)
    then show ?thesis
      using 2 inv by (auto simp: hardlinks_step reset_inv_def source_in_insert is_link_def link_group_def)
  next
    case 3
    then have "st' = st\<lparr>st_linkname := []\<rparr>"
      "seen' = seen(st_linkname st \<mapsto> st_path st, st_path st \<mapsto> st_path st)"
      using r by (auto simp: reset_stat_def is_link_def)
    then show ?thesis
      using 3 inv f by (auto simp: hardlinks_step reset_inv_def source_in_insert is_link_def link_group_def)
  next
    case (4 v)
    then have "source_in D v (st_linkname st) \<or>
        (\<exists>(a, a') \<in> D. is_link a \<and> st_path a = st_linkname st)"
      using inv by (simp add: reset_inv_def)
    then have src: "source_in D v (st_linkname st)" using can 4(1) by fastforce
    then have "v \<noteq> st_path st" and vs: "v \<in> vs"
      using new source_in_path[OF src] inv by (auto simp: reset_inv_def)
    then have st': "st' = st\<lparr>st_linkname := v\<rparr>" "seen' = seen(st_path st \<mapsto> st_path st)"
      using r 4 by (auto simp: reset_stat_def is_link_def)
    then show ?thesis
      using 4 inv f src vs
      by (auto simp: hardlinks_step reset_inv_def source_in_insert is_link_def link_group_def)
  qed
qed

text \<open>
  What the repair guarantees: every link it emits points at a path emitted before, as a plain
  file, and both were in the same group of links.
\<close>

definition links_resolved :: "stat list \<Rightarrow> stat list \<Rightarrow> bool" where
  "links_resolved sts out \<longleftrightarrow>
     length out = length sts \<and> map st_path out = map st_path sts \<and>
     (\<forall>i < length out. is_link (out ! i) \<longrightarrow>
        source_in (set (take i (zip sts out))) (st_linkname (out ! i)) (link_group (sts ! i)))"

lemma reset_run:
  assumes "distinct (map st_path (map fst ps @ sts))" "canonical_links (map fst ps @ sts)"
    and "reset_inv (set ps) seen vs"
  shows "(\<exists>vs'. hardlinks_run (reset_stats sts seen) vs = Inr vs') \<and>
    length (reset_stats sts seen) = length sts \<and>
    map st_path (reset_stats sts seen) = map st_path sts \<and>
    (\<forall>i < length sts. is_link (reset_stats sts seen ! i) \<longrightarrow>
       source_in (set ps \<union> set (take i (zip sts (reset_stats sts seen))))
         (st_linkname (reset_stats sts seen ! i)) (link_group (sts ! i)))"
  using assms
proof (induction sts arbitrary: ps seen vs)
  case Nil
  then show ?case by (simp add: hardlinks_run_def)
next
  case (Cons st sts)
  obtain st' seen' where r: "reset_stat st seen = (st', seen')" by fastforce
  have new: "\<forall>(a, a') \<in> set ps. st_path a \<noteq> st_path st"
    using Cons.prems(1) by (auto simp: image_iff)
  have can: "\<forall>(a, a') \<in> set ps. is_link st \<and> is_link a \<longrightarrow> st_linkname st \<noteq> st_path a"
  proof (intro ballI, clarify)
    fix a a' assume "(a, a') \<in> set ps" "is_link st" "is_link a" "st_linkname st = st_path a"
    moreover have "a \<in> set (map fst ps @ st # sts)" using calculation(1) by force
    moreover have "st \<in> set (map fst ps @ st # sts)" by simp
    ultimately show False using Cons.prems(2) unfolding canonical_links_def by blast
  qed
  obtain vs' where vs': "hardlinks_handle_change ChangeKindAdd (st_path st') (StatInfo st') None vs = Inr vs'"
    "reset_inv (insert (st, st') (set ps)) seen' vs'"
    "is_link st' \<Longrightarrow> source_in (set ps) (st_linkname st') (link_group st)"
    using reset_step_ok[OF Cons.prems(3) new can r] by blast
  have "distinct (map st_path (map fst (ps @ [(st, st')]) @ sts))"
    "canonical_links (map fst (ps @ [(st, st')]) @ sts)"
    "reset_inv (set (ps @ [(st, st')])) seen' vs'"
    using Cons.prems vs'(2) by simp_all
  from Cons.IH[OF this] show ?case
    using vs'(1,3) r reset_stat_fields(1)[OF r]
    by (auto simp: hardlinks_run_def less_Suc_eq_0_disj)
qed

lemma reset_run_initial:
  assumes "distinct (map st_path sts)" "canonical_links sts"
  shows "\<exists>vs. hardlinks_run (reset_stats sts Map.empty) {} = Inr vs"
    and "links_resolved sts (reset_stats sts Map.empty)"
  using reset_run[of "[]" sts Map.empty "{}"] assms
  by (auto simp: reset_inv_def source_in_def links_resolved_def)

section \<open>Properties\<close>

text \<open>C21. For a stream of entries with distinct paths whose hard links point at files (never at
  other links), the walk of \<open>WithHardlinkReset\<close> succeeds and the stats it emits, with the same
  paths in the same order, are accepted by \<open>Hardlinks.HandleChange\<close>.\<close>

theorem hardlink_reset_accepted:
  assumes "distinct (map st_path sts)" "canonical_links sts"
  shows "\<exists>out vs. hardlink_filter_walk (stat_stream sts) Map.empty = Inr out \<and>
    map fst out = map st_path sts \<and>
    res_fold (\<lambda>(p, e) seen. res_bind (de_info e) (\<lambda>fi.
      hardlinks_handle_change ChangeKindAdd p fi None seen)) out {} = Inr vs"
proof -
  obtain out where out: "hardlink_filter_walk (stat_stream sts) Map.empty = Inr out"
    and map_out: "map (\<lambda>(p, e). (p, de_info e)) out =
      map (\<lambda>st. (st_path st, Inr (StatInfo st))) (reset_stats sts Map.empty)"
    using filter_walk_reset by blast
  have run: "res_fold (\<lambda>(p, e) seen. res_bind (de_info e) (\<lambda>fi.
      hardlinks_handle_change ChangeKindAdd p fi None seen)) out vs =
    hardlinks_run ss vs"
    if "map (\<lambda>(p, e). (p, de_info e)) out = map (\<lambda>st. (st_path st, Inr (StatInfo st))) ss" for ss vs
    using that
  proof (induction ss arbitrary: out vs)
    case Nil
    then show ?case by (simp add: hardlinks_run_def)
  next
    case (Cons s ss)
    then obtain e es where "out = (st_path s, e) # es" "de_info e = Inr (StatInfo s)"
      "map (\<lambda>(p, e). (p, de_info e)) es = map (\<lambda>st. (st_path st, Inr (StatInfo st))) ss"
      by (auto simp: map_eq_Cons_conv)
    moreover have "res_fold (\<lambda>(p, e) seen. res_bind (de_info e) (\<lambda>fi.
        hardlinks_handle_change ChangeKindAdd p fi None seen)) es = hardlinks_run ss"
      using Cons.IH[OF calculation(3)] by (intro ext)
    moreover have "hardlinks_run ss =
        res_fold (\<lambda>st. hardlinks_handle_change ChangeKindAdd (st_path st) (StatInfo st) None) ss"
      by (rule ext) (simp add: hardlinks_run_def)
    ultimately show ?case by (simp add: hardlinks_run_def)
  qed
  have "map fst out = map st_path sts"
  proof -
    have "map fst out = map fst (map (\<lambda>(p, e). (p, de_info e)) out)"
      by (simp add: case_prod_unfold comp_def)
    also have "\<dots> = map st_path (reset_stats sts Map.empty)" unfolding map_out by (simp add: comp_def)
    finally show ?thesis using reset_run_initial(2)[OF assms] by (simp add: links_resolved_def)
  qed
  then show ?thesis using out run[OF map_out] reset_run_initial(1)[OF assms] by simp
qed

definition sample_file :: "string \<Rightarrow> string \<Rightarrow> stat" where
  "sample_file p l = empty_stat\<lparr>st_path := p, st_linkname := l\<rparr>"

lemmas sample_file_simps = sample_file_def empty_stat_def is_link_def is_file_def stat_is_dir_def
  mode_is_dir_def has_mode_def mode_bits

theorem hardlink_reset_accepted_witness:
  "\<exists>out vs. hardlink_filter_walk (stat_stream [sample_file ''b'' ''a'', sample_file ''c'' ''a'']) Map.empty = Inr out \<and>
    map fst out = map st_path [sample_file ''b'' ''a'', sample_file ''c'' ''a''] \<and>
    res_fold (\<lambda>(p, e) seen. res_bind (de_info e) (\<lambda>fi.
      hardlinks_handle_change ChangeKindAdd p fi None seen)) out {} = Inr vs"
  by (rule hardlink_reset_accepted) (simp_all add: canonical_links_def sample_file_simps)

text \<open>The same streams keep their groups of hard links: each link the filter emits points at
  a file emitted earlier without a link, and that file belongs to the same group (it is the
  group's source or was a link to it).\<close>

theorem hardlink_reset_groups:
  assumes "distinct (map st_path sts)" "canonical_links sts"
  shows "links_resolved sts (reset_stats sts Map.empty)"
  by (rule reset_run_initial(2)[OF assms])

theorem hardlink_reset_groups_witness:
  "links_resolved [sample_file ''b'' ''a'', sample_file ''c'' ''a'']
     (reset_stats [sample_file ''b'' ''a'', sample_file ''c'' ''a''] Map.empty) \<and>
   map st_linkname (reset_stats [sample_file ''b'' ''a'', sample_file ''c'' ''a''] Map.empty) = [[], ''b'']"
  using hardlink_reset_groups[of "[sample_file ''b'' ''a'', sample_file ''c'' ''a'']"]
  by (simp add: canonical_links_def sample_file_simps reset_stat_def)

end
