(* ===== verification/Stat_Unix.thy ===== *)
theory Stat_Unix
  imports Hardlinks "HOL-Library.AList"
begin

text \<open>
  \<open>stat.go\<close>, \<open>stat_unix.go\<close> and \<open>mkrootstat\<close> of \<open>diff.go\<close>: how the entries of a walked file
  system become \<open>Stat\<close> messages, on a Unix host. The map from inodes to paths that a walk shares
  over its entries is threaded through; \<^const>\<open>None\<close> is the nil map of \<open>Stat\<close>. Reading links and
  extended attributes are system calls and are functions of the path.

  The lemmas show that the hard links a walk reports point at entries reported before, which are
  not links themselves, so that \<open>Hardlinks\<close> accepts them, and that a device number of 32 bits
  is determined by the two fields it is split into.
\<close>

section \<open>The system's view of a file\<close>

text \<open>What \<open>os.FileInfo\<close> and its \<open>syscall.Stat_t\<close> tell, as far as the code reads it.\<close>

record os_info =
  oi_mode :: "32 word"
  oi_modtime :: "64 word"
  oi_size :: "64 word"
  oi_uid :: "32 word"
  oi_gid :: "32 word"
  oi_sys_mode :: "32 word"
  oi_rdev :: "64 word"
  oi_ino :: "64 word"
  oi_nlink :: "64 word"

text \<open>The system calls: \<open>os.Readlink\<close>, \<open>sysx.LListxattr\<close> and \<open>sysx.LGetxattr\<close>.\<close>

record stat_calls =
  sc_readlink :: "string \<Rightarrow> string res"
  sc_llistxattr :: "string \<Rightarrow> (string list) res"
  sc_lgetxattr :: "string \<Rightarrow> string \<Rightarrow> string res"

type_synonym inode_map = "(64 word \<rightharpoonup> string) option"

definition oi_is_dir :: "os_info \<Rightarrow> bool" where
  "oi_is_dir fi = mode_is_dir (oi_mode fi)"

section \<open>stat\_unix.go\<close>

definition major :: "64 word \<Rightarrow> 64 word" where
  "major device = drop_bit 8 device AND 0xfff"

definition minor :: "64 word \<Rightarrow> 64 word" where
  "minor device = (device AND 0xff) OR (drop_bit 12 device AND 0xfff00)"

definition S_IFBLK :: "32 word" where "S_IFBLK = 0x6000"
definition S_IFCHR :: "32 word" where "S_IFCHR = 0x2000"

definition set_unix_opt :: "os_info \<Rightarrow> stat \<Rightarrow> string \<Rightarrow> inode_map \<Rightarrow> stat \<times> inode_map" where
  "set_unix_opt fi st path seen_files =
     (let st = st\<lparr>st_uid := oi_uid fi, st_gid := oi_gid fi\<rparr> in
      if oi_is_dir fi then (st, seen_files)
      else
        let st =
          (if oi_sys_mode fi AND S_IFBLK \<noteq> 0 \<or> oi_sys_mode fi AND S_IFCHR \<noteq> 0 then
             st\<lparr>st_devmajor := major (oi_rdev fi), st_devminor := minor (oi_rdev fi)\<rparr>
           else st);
          ino = oi_ino fi
        in (case seen_files of
              None \<Rightarrow> (st, None)
            | Some seen \<Rightarrow>
                (case (if oi_nlink fi > 1 then seen ino else None) of
                   Some oldpath \<Rightarrow> (st\<lparr>st_linkname := oldpath, st_size := 0\<rparr>, Some seen)
                 | None \<Rightarrow> (st, Some (seen(ino \<mapsto> path))))))"

definition skip_xattr :: "string \<Rightarrow> bool" where
  "skip_xattr key \<longleftrightarrow> has_prefix key ''com.apple.''"

definition load_xattr :: "stat_calls \<Rightarrow> string \<Rightarrow> stat \<Rightarrow> stat res" where
  "load_xattr sc origpath st =
     (case sc_llistxattr sc origpath of
        Inl e \<Rightarrow>
          if errno_of e = Some ENOTSUP then Inr st
          else Inl (Wrap (''failed to xattr '' @ origpath) e)
      | Inr xattrs \<Rightarrow>
          let m = fold (\<lambda>key m.
                if skip_xattr key then m
                else (case sc_lgetxattr sc origpath key of
                    Inr v \<Rightarrow> AList.update key v m
                  | Inl e \<Rightarrow> m)) xattrs []
          in Inr (if length m > 0 then st\<lparr>st_xattrs := m\<rparr> else st))"

section \<open>stat.go\<close>

text \<open>
  The result and the inode map afterwards, which the walk keeps also when the call fails. The
  branch for Windows is left out.
\<close>

definition mkstat ::
  "stat_calls \<Rightarrow> string \<Rightarrow> string \<Rightarrow> os_info \<Rightarrow> inode_map \<Rightarrow> stat res \<times> inode_map" where
  "mkstat sc path relpath fi inodemap =
     (let st = empty_stat\<lparr>st_path := relpath, st_mode := oi_mode fi, st_modtime := oi_modtime fi\<rparr>;
          (st, inodemap) = set_unix_opt fi st relpath inodemap;
          r = (if oi_is_dir fi then Inr st
               else
                 let st = st\<lparr>st_size := oi_size fi\<rparr> in
                 if has_mode (oi_mode fi) mode_symlink then
                   res_bind (sc_readlink sc path) (\<lambda>link. Inr (st\<lparr>st_linkname := link\<rparr>))
                 else Inr st);
          r = res_bind r (load_xattr sc path)
      in (res_bind r (\<lambda>st. Inr (st\<lparr>st_mode := st_mode st AND NOT mode_socket\<rparr>)), inodemap))"

text \<open>\<open>Stat(path)\<close>, given the result of \<open>os.Lstat\<close>.\<close>

definition stat_of_path :: "stat_calls \<Rightarrow> (string \<Rightarrow> os_info res) \<Rightarrow> string \<Rightarrow> stat res" where
  "stat_of_path sc lstat path = res_bind (lstat path) (\<lambda>fi. fst (mkstat sc path (base path) fi None))"

text \<open>
  \<open>mkrootstat\<close> of \<open>diff.go\<close>: the same through a root handle; the extended attributes are loaded
  for directories and regular files only, by \<open>load\<close>, which is \<open>loadRootXattr\<close>.
\<close>

definition mkrootstat ::
  "(string \<Rightarrow> string res) \<Rightarrow> (string \<Rightarrow> stat \<Rightarrow> stat res) \<Rightarrow> string \<Rightarrow> os_info \<Rightarrow> inode_map \<Rightarrow>
   stat res \<times> inode_map" where
  "mkrootstat root_readlink load relpath fi inodemap =
     (let st = empty_stat\<lparr>st_path := relpath, st_mode := oi_mode fi, st_modtime := oi_modtime fi\<rparr>;
          (st, inodemap) = set_unix_opt fi st relpath inodemap;
          r = (if oi_is_dir fi then Inr st
               else
                 let st = st\<lparr>st_size := oi_size fi\<rparr> in
                 if has_mode (oi_mode fi) mode_symlink then
                   res_bind (root_readlink relpath) (\<lambda>link. Inr (st\<lparr>st_linkname := link\<rparr>))
                 else Inr st);
          r = res_bind r (\<lambda>st.
            if oi_is_dir fi \<or> mode_is_regular (oi_mode fi) then load relpath st else Inr st)
      in (res_bind r (\<lambda>st. Inr (st\<lparr>st_mode := st_mode st AND NOT mode_socket\<rparr>)), inodemap))"

section \<open>What mkstat fills in\<close>

definition oi_is_symlink :: "os_info \<Rightarrow> bool" where
  "oi_is_symlink fi = has_mode (oi_mode fi) mode_symlink"

definition linked_to :: "os_info \<Rightarrow> (64 word \<rightharpoonup> string) \<Rightarrow> string option" where
  "linked_to fi seen = (if \<not> oi_is_dir fi \<and> oi_nlink fi > 1 then seen (oi_ino fi) else None)"

lemma load_xattr_fields:
  assumes "load_xattr sc p st = Inr st'"
  shows "st_path st' = st_path st" "st_mode st' = st_mode st" "st_linkname st' = st_linkname st"
    "st_size st' = st_size st" "st_devmajor st' = st_devmajor st" "st_devminor st' = st_devminor st"
  using assms by (auto simp: load_xattr_def Let_def split: sum.splits if_splits)

lemma set_unix_opt_fields:
  assumes "set_unix_opt fi st p (Some seen) = (st', m)"
  shows "st_path st' = st_path st" "st_mode st' = st_mode st"
    "st_linkname st' = (case linked_to fi seen of None \<Rightarrow> st_linkname st | Some q \<Rightarrow> q)"
    "m = Some (if oi_is_dir fi \<or> linked_to fi seen \<noteq> None then seen else seen(oi_ino fi \<mapsto> p))"
  using assms by (auto simp: set_unix_opt_def linked_to_def Let_def split: if_splits option.splits)

lemma mkstat_fields:
  assumes "mkstat sc path p fi (Some seen) = (Inr st, m)"
  shows "st_path st = p" "st_mode st = oi_mode fi AND NOT mode_socket"
    "\<not> oi_is_symlink fi \<Longrightarrow> st_linkname st = (case linked_to fi seen of None \<Rightarrow> [] | Some q \<Rightarrow> q)"
    "m = Some (if oi_is_dir fi \<or> linked_to fi seen \<noteq> None then seen else seen(oi_ino fi \<mapsto> p))"
    "\<not> oi_is_dir fi \<Longrightarrow> st_size st = oi_size fi"
proof -
  let ?st0 = "empty_stat\<lparr>st_path := p, st_mode := oi_mode fi, st_modtime := oi_modtime fi\<rparr>"
  obtain st1 m1 where opt: "set_unix_opt fi ?st0 p (Some seen) = (st1, m1)" by fastforce
  note f1 = set_unix_opt_fields[OF opt]
  obtain st2 st3 where
    st2: "(if oi_is_dir fi then Inr st1
       else if oi_is_symlink fi then
         res_bind (sc_readlink sc path) (\<lambda>link. Inr (st1\<lparr>st_size := oi_size fi, st_linkname := link\<rparr>))
       else Inr (st1\<lparr>st_size := oi_size fi\<rparr>)) = Inr st2" and
    st3: "load_xattr sc path st2 = Inr st3" and st: "st = st3\<lparr>st_mode := st_mode st3 AND NOT mode_socket\<rparr>"
    and m: "m = m1"
    using assms opt unfolding mkstat_def Let_def oi_is_symlink_def by (auto simp: res_bind_Inr_iff)
  note f3 = load_xattr_fields[OF st3]
  show "st_path st = p" using st2 st f1(1) f3(1) by (auto simp: res_bind_Inr_iff split: if_splits)
  show "st_mode st = oi_mode fi AND NOT mode_socket"
    using st2 st f1(2) f3(2) by (auto simp: res_bind_Inr_iff split: if_splits)
  show "\<not> oi_is_symlink fi \<Longrightarrow> st_linkname st = (case linked_to fi seen of None \<Rightarrow> [] | Some q \<Rightarrow> q)"
    using st2 st f1(3) f3(3) by (auto simp: empty_stat_def split: if_splits option.splits)
  show "m = Some (if oi_is_dir fi \<or> linked_to fi seen \<noteq> None then seen else seen(oi_ino fi \<mapsto> p))"
    using m f1(4) by simp
  show "\<not> oi_is_dir fi \<Longrightarrow> st_size st = oi_size fi"
    using st2 st f3(4) by (auto simp: res_bind_Inr_iff split: if_splits)
qed

text \<open>Clearing the socket bit changes neither of the types that matter to hard links.\<close>

lemma and_not_disjoint: "(b :: 'a::len word) AND c = 0 \<Longrightarrow> (m AND NOT c) AND b = m AND b"
  by (simp add: bit_eq_iff bit_and_iff bit_not_iff) blast

lemma has_mode_no_socket:
  "has_mode (m AND NOT mode_socket) mode_dir = has_mode m mode_dir"
  "has_mode (m AND NOT mode_socket) mode_symlink = has_mode m mode_symlink"
proof -
  have "mode_dir AND mode_socket = 0" "mode_symlink AND mode_socket = 0" by (simp_all add: mode_bits)
  then show "has_mode (m AND NOT mode_socket) mode_dir = has_mode m mode_dir"
    "has_mode (m AND NOT mode_socket) mode_symlink = has_mode m mode_symlink"
    by (simp_all add: has_mode_def and_not_disjoint)
qed

lemma mkstat_is_file:
  assumes "mkstat sc path p fi (Some seen) = (Inr st, m)"
  shows "is_file st \<longleftrightarrow> \<not> oi_is_dir fi \<and> \<not> oi_is_symlink fi"
  using mkstat_fields(2)[OF assms]
  by (simp add: is_file_def stat_is_dir_def mode_is_dir_def has_mode_no_socket oi_is_dir_def oi_is_symlink_def)

section \<open>Hard links of a whole walk\<close>

text \<open>
  The entries of a walk of the file system at \<open>root\<close> (\<open>fs.Walk\<close>), each turned into a \<open>Stat\<close> in
  turn, as \<open>DirEntryInfo.Info\<close> does for a consumer that asks for every entry.
\<close>

fun walk_stats ::
  "stat_calls \<Rightarrow> string \<Rightarrow> (string \<times> os_info) list \<Rightarrow> inode_map \<Rightarrow> (stat list) res" where
  "walk_stats sc root [] m = Inr []"
| "walk_stats sc root ((p, fi) # es) m =
     (let (r, m') = mkstat sc (join2 root p) p fi m
      in res_bind r (\<lambda>st. res_bind (walk_stats sc root es m') (\<lambda>sts. Inr (st # sts))))"

text \<open>Entries with the same inode are of the same kind.\<close>

definition inodes_consistent :: "(string \<times> os_info) list \<Rightarrow> bool" where
  "inodes_consistent es \<longleftrightarrow>
     (\<forall>(p, fi) \<in> set es. \<forall>(q, fj) \<in> set es.
        \<not> oi_is_dir fi \<and> \<not> oi_is_dir fj \<and> oi_ino fi = oi_ino fj \<longrightarrow> oi_is_symlink fi = oi_is_symlink fj)"

definition inode_inv :: "(string \<times> os_info) set \<Rightarrow> string set \<Rightarrow> (64 word \<rightharpoonup> string) \<Rightarrow> bool" where
  "inode_inv D vs seen \<longleftrightarrow>
     (\<forall>i q. seen i = Some q \<longrightarrow>
        (\<exists>fi. (q, fi) \<in> D \<and> \<not> oi_is_dir fi \<and> oi_ino fi = i \<and> (\<not> oi_is_symlink fi \<longrightarrow> q \<in> vs)))"

lemma inode_inv_mono: "inode_inv D vs seen \<Longrightarrow> D \<subseteq> D' \<Longrightarrow> vs \<subseteq> vs' \<Longrightarrow> inode_inv D' vs' seen"
  unfolding inode_inv_def by blast

lemma walk_stats_accepted:
  assumes "walk_stats sc root es (Some seen) = Inr sts" "inode_inv D vs seen"
    and "\<forall>(p, fi) \<in> set es \<union> D. \<forall>(q, fj) \<in> set es \<union> D.
      \<not> oi_is_dir fi \<and> \<not> oi_is_dir fj \<and> oi_ino fi = oi_ino fj \<longrightarrow> oi_is_symlink fi = oi_is_symlink fj"
    and "\<forall>(p, fi) \<in> set es \<union> D. p \<noteq> []"
  shows "(\<exists>vs'. hardlinks_run sts vs = Inr vs') \<and> map st_path sts = map fst es"
  using assms
proof (induction es arbitrary: seen sts D vs)
  case Nil
  then show ?case by (simp add: hardlinks_run_def)
next
  case (Cons e es)
  obtain p fi where e: "e = (p, fi)" by fastforce
  obtain st m sts' where mk: "mkstat sc (join2 root p) p fi (Some seen) = (Inr st, m)"
    and rest: "walk_stats sc root es m = Inr sts'" and sts: "sts = st # sts'"
    using Cons.prems(1) e by (auto simp: res_bind_Inr_iff split: prod.splits)
  note f = mkstat_fields[OF mk] mkstat_is_file[OF mk]
  let ?seen = "if oi_is_dir fi \<or> linked_to fi seen \<noteq> None then seen else seen(oi_ino fi \<mapsto> p)"
  let ?D = "insert (p, fi) D"
  have link_in: "q \<in> vs \<and> q \<noteq> []" if "is_file st" "linked_to fi seen = Some q" for q
  proof -
    have "seen (oi_ino fi) = Some q" "\<not> oi_is_dir fi" using that(2) by (auto simp: linked_to_def split: if_splits)
    then obtain fj where fj: "(q, fj) \<in> D" "\<not> oi_is_dir fj" "oi_ino fj = oi_ino fi" "\<not> oi_is_symlink fj \<longrightarrow> q \<in> vs"
      using Cons.prems(2) unfolding inode_inv_def by blast
    have "oi_is_symlink fj = oi_is_symlink fi"
      using Cons.prems(3) fj \<open>\<not> oi_is_dir fi\<close> e by fastforce
    then show ?thesis using fj(1,4) that(1) f(6) Cons.prems(4) by auto
  qed
  let ?vs = "if is_file st \<and> linked_to fi seen = None then insert p vs else vs"
  have step: "hardlinks_handle_change ChangeKindAdd (st_path st) (StatInfo st) None vs = Inr ?vs"
  proof (cases "is_file st")
    case False
    then show ?thesis by (simp add: hardlinks_step)
  next
    case True
    then have name: "st_linkname st = (case linked_to fi seen of None \<Rightarrow> [] | Some q \<Rightarrow> q)" using f(3,6) by simp
    show ?thesis
    proof (cases "linked_to fi seen")
      case None
      then show ?thesis using True name f(1) by (simp add: hardlinks_step)
    next
      case (Some q)
      then show ?thesis using link_in[OF True Some] True name by (simp add: hardlinks_step)
    qed
  qed
  have inv: "inode_inv ?D ?vs ?seen"
  proof -
    have "inode_inv ?D ?vs seen" by (rule inode_inv_mono[OF Cons.prems(2)]) auto
    then show ?thesis using f(6) unfolding inode_inv_def by auto
  qed
  have cons: "\<forall>(p, fi) \<in> set es \<union> ?D. \<forall>(q, fj) \<in> set es \<union> ?D.
      \<not> oi_is_dir fi \<and> \<not> oi_is_dir fj \<and> oi_ino fi = oi_ino fj \<longrightarrow> oi_is_symlink fi = oi_is_symlink fj"
    using Cons.prems(3) e by simp
  have ne: "\<forall>(p, fi) \<in> set es \<union> ?D. p \<noteq> []" using Cons.prems(4) e by auto
  from Cons.IH[OF _ inv cons ne] show ?case
    using rest f(1,4) step sts e Cons.prems(4) by (simp add: hardlinks_run_def)
qed

lemma walk_stats_checked:
  assumes "walk_stats sc root es (Some Map.empty) = Inr sts" "inodes_consistent es" "[] \<notin> set (map fst es)"
  shows "\<exists>vs. hardlinks_run sts {} = Inr vs" "map st_path sts = map fst es"
proof -
  have "\<forall>(p, fi) \<in> set es \<union> {}. \<forall>(q, fj) \<in> set es \<union> {}.
      \<not> oi_is_dir fi \<and> \<not> oi_is_dir fj \<and> oi_ino fi = oi_ino fj \<longrightarrow> oi_is_symlink fi = oi_is_symlink fj"
    using assms(2) by (simp add: inodes_consistent_def)
  moreover have "\<forall>(p, fi) \<in> set es \<union> {}. p \<noteq> []" using assms(3) by force
  moreover have "inode_inv {} {} Map.empty" by (simp add: inode_inv_def)
  ultimately show "\<exists>vs. hardlinks_run sts {} = Inr vs" "map st_path sts = map fst es"
    using walk_stats_accepted[OF assms(1)] by blast+
qed

text \<open>A stream that passes the check has no links to links, and neither has any part of it.\<close>

lemma hardlinks_run_links:
  assumes "hardlinks_run sts vs = Inr vs'"
  shows "vs' = vs \<union> {st_path st |st. st \<in> set sts \<and> is_file st \<and> st_linkname st = []}"
    "\<forall>st \<in> set sts. is_link st \<longrightarrow> st_linkname st \<in> vs'"
proof -
  have "vs' = vs \<union> {st_path st |st. st \<in> set sts \<and> is_file st \<and> st_linkname st = []} \<and>
    (\<forall>st \<in> set sts. is_link st \<longrightarrow> st_linkname st \<in> vs')"
    using assms
  proof (induction sts arbitrary: vs)
    case Nil
    then show ?case by (simp add: hardlinks_run_def)
  next
    case (Cons st sts)
    obtain vs1 where vs1: "hardlinks_handle_change ChangeKindAdd (st_path st) (StatInfo st) None vs = Inr vs1"
      "hardlinks_run sts vs1 = Inr vs'"
      using Cons.prems by (auto simp: hardlinks_run_def res_bind_Inr_iff)
    note IH = Cons.IH[OF vs1(2)]
    consider "\<not> is_file st" | "is_file st" "st_linkname st \<noteq> []" | "is_file st" "st_linkname st = []" by blast
    then show ?case
    proof cases
      case 1
      then show ?thesis using vs1(1) IH by (auto simp: hardlinks_step is_link_def)
    next
      case 2
      then have "vs1 = vs" "st_linkname st \<in> vs" using vs1(1) by (auto simp: hardlinks_step split: if_splits)
      then show ?thesis using 2 IH by auto
    next
      case 3
      then have "vs1 = insert (st_path st) vs" using vs1(1) by (auto simp: hardlinks_step)
      then show ?thesis using 3 IH by (auto simp: is_link_def)
    qed
  qed
  then show "vs' = vs \<union> {st_path st |st. st \<in> set sts \<and> is_file st \<and> st_linkname st = []}"
    "\<forall>st \<in> set sts. is_link st \<longrightarrow> st_linkname st \<in> vs'" by blast+
qed

lemma hardlinks_run_canonical:
  assumes "hardlinks_run sts {} = Inr vs" "distinct (map st_path sts)"
  shows "canonical_links sts"
  unfolding canonical_links_def
proof (intro ballI impI)
  fix a b assume ab: "a \<in> set sts" "b \<in> set sts" "is_link a \<and> is_link b"
  note L = hardlinks_run_links[OF assms(1)]
  obtain c where c: "c \<in> set sts" "st_path c = st_linkname a" "st_linkname c = []"
    using L ab(1,3) by auto
  show "st_linkname a \<noteq> st_path b"
  proof
    assume "st_linkname a = st_path b"
    then have "c = b" using c ab(2) assms(2) by (metis distinct_map inj_onD)
    then show False using c(3) ab(3) by (simp add: is_link_def)
  qed
qed

lemma canonical_links_subset:
  "canonical_links sts \<Longrightarrow> set ss \<subseteq> set sts \<Longrightarrow> canonical_links ss"
  unfolding canonical_links_def by blast

lemma subseq_distinct: "subseq xs ys \<Longrightarrow> distinct ys \<Longrightarrow> distinct xs"
proof (induction rule: list_emb.induct)
  case (list_emb_Cons2 x y xs ys)
  then show ?case by (auto dest: list_emb_set)
qed auto

section \<open>Device numbers\<close>

lemma device_split:
  assumes "drop_bit 32 device = 0"
  shows "device = (minor device AND 0xff) OR push_bit 8 (major device) OR push_bit 12 (minor device AND 0xfff00)"
proof (rule bit_word_eqI)
  fix n assume n: "n < LENGTH(64)"
  have masks: "0xff = (mask 8 :: 64 word)" "0xfff = (mask 12 :: 64 word)"
    "0xfff00 = (push_bit 8 (mask 12) :: 64 word)"
    by (simp_all add: mask_eq_exp_minus_1 push_bit_eq_mult)
  have high: "\<not> bit device (32 + k)" for k
  proof -
    have "\<not> bit (drop_bit 32 device) k" unfolding assms by simp
    then show ?thesis by (simp add: bit_drop_bit_eq)
  qed
  then have "bit device n \<Longrightarrow> n < 32" by (metis le_add_diff_inverse not_le)
  then show "bit device n = bit ((minor device AND 0xff) OR push_bit 8 (major device) OR
      push_bit 12 (minor device AND 0xfff00)) n"
    using n unfolding major_def minor_def masks
    by (cases "n < 8"; cases "n < 12") (auto simp: bit_simps)
qed

section \<open>Properties\<close>

text \<open>The hard links that a walk of a file system reports (\<open>mkstat\<close> over one inode map) pass the
  receiver's check, when all names of an inode are of the same kind: each points at an entry
  reported earlier that is a plain file. The stats carry the walk's paths, in order.\<close>

theorem walk_stats_links_accepted:
  assumes "walk_stats sc root es (Some Map.empty) = Inr sts" "inodes_consistent es" "[] \<notin> set (map fst es)"
  shows "(\<exists>vs. hardlinks_run sts {} = Inr vs) \<and> map st_path sts = map fst es"
  using walk_stats_checked[OF assms] by blast

definition sample_calls :: stat_calls where
  "sample_calls =
     \<lparr>sc_readlink = (\<lambda>p. Inr ''t''), sc_llistxattr = (\<lambda>p. Inl (Errno ENOTSUP)),
      sc_lgetxattr = (\<lambda>p k. Inr [])\<rparr>"

definition sample_info :: "nat \<Rightarrow> os_info" where
  "sample_info ino =
     \<lparr>oi_mode = 0, oi_modtime = 0, oi_size = 7, oi_uid = 0, oi_gid = 0, oi_sys_mode = 0x8000, oi_rdev = 0,
      oi_ino = of_nat ino, oi_nlink = 2\<rparr>"

definition sample_entries :: "(string \<times> os_info) list" where
  "sample_entries = [(''a'', sample_info 1), (''b'', sample_info 1)]"

lemma sample_entries_ok: "inodes_consistent sample_entries" "[] \<notin> set (map fst sample_entries)"
  by (simp_all add: sample_entries_def sample_info_def inodes_consistent_def oi_is_symlink_def)

lemma sample_walk:
  "walk_stats sample_calls ''r'' sample_entries (Some Map.empty) =
   Inr [empty_stat\<lparr>st_path := ''a'', st_size := 7\<rparr>,
        empty_stat\<lparr>st_path := ''b'', st_linkname := ''a'', st_size := 7\<rparr>]"
  by (simp add: sample_entries_def sample_info_def sample_calls_def mkstat_def set_unix_opt_def load_xattr_def
      oi_is_dir_def mode_is_dir_def has_mode_def mode_bits S_IFBLK_def S_IFCHR_def empty_stat_def)

theorem walk_stats_links_accepted_witness:
  "\<exists>sts. walk_stats sample_calls ''r'' sample_entries (Some Map.empty) = Inr sts \<and>
     (\<exists>vs. hardlinks_run sts {} = Inr vs) \<and> map st_path sts = map fst sample_entries"
  using walk_stats_links_accepted[OF sample_walk sample_entries_ok] sample_walk by blast

text \<open>C22. From the file system to the receiver's check: of a walk with distinct paths, whatever part a
  filter leaves, the walk of \<open>WithHardlinkReset\<close> over it repairs the links so that every link
  points at an earlier file of the same group and the check accepts all of it.\<close>

theorem filtered_walk_links_accepted:
  assumes "walk_stats sc root es (Some Map.empty) = Inr sts" "inodes_consistent es" "[] \<notin> set (map fst es)"
    and "distinct (map fst es)" "subseq ss sts"
  shows "(\<exists>vs. hardlinks_run (reset_stats ss Map.empty) {} = Inr vs) \<and>
    links_resolved ss (reset_stats ss Map.empty)"
proof -
  have ok: "\<exists>vs. hardlinks_run sts {} = Inr vs" "map st_path sts = map fst es"
    using walk_stats_checked[OF assms(1-3)] by auto
  then have d: "distinct (map st_path sts)" using assms(4) by simp
  then have can: "canonical_links sts" using ok(1) hardlinks_run_canonical by blast
  have "subseq (map st_path ss) (map st_path sts)" using assms(5) by (rule subseq_map)
  then have "distinct (map st_path ss)" using subseq_distinct d by blast
  moreover have "canonical_links ss"
    using canonical_links_subset[OF can] assms(5) by (auto dest: list_emb_set)
  ultimately show ?thesis using reset_run_initial[of ss] by blast
qed

theorem filtered_walk_links_accepted_witness:
  "(\<exists>vs. hardlinks_run (reset_stats [empty_stat\<lparr>st_path := ''b'', st_linkname := ''a'', st_size := 7\<rparr>] Map.empty) {} =
      Inr vs) \<and>
   links_resolved [empty_stat\<lparr>st_path := ''b'', st_linkname := ''a'', st_size := 7\<rparr>]
     (reset_stats [empty_stat\<lparr>st_path := ''b'', st_linkname := ''a'', st_size := 7\<rparr>] Map.empty)"
  by (rule filtered_walk_links_accepted[OF sample_walk sample_entries_ok]) (simp_all add: sample_entries_def)

text \<open>\<open>setUnixOpt\<close> clears the size of a hard link, and \<open>mkstat\<close> sets it again: the stat of every
  entry that is not a directory, a hard link or not, has the size the system reports.\<close>

theorem mkstat_size_of_link:
  assumes "mkstat sc path relpath fi (Some seen) = (Inr st, m)" "\<not> oi_is_dir fi"
  shows "st_size st = oi_size fi"
  by (rule mkstat_fields(5)[OF assms])

theorem mkstat_size_of_link_witness:
  "\<exists>st m. mkstat sample_calls ''r/b'' ''b'' (sample_info 1) (Some [1 \<mapsto> ''a'']) = (Inr st, m) \<and>
     st_linkname st = ''a'' \<and> st_size st = 7"
proof -
  let ?st = "empty_stat\<lparr>st_path := ''b'', st_linkname := ''a'', st_size := 7\<rparr>"
  have run: "mkstat sample_calls ''r/b'' ''b'' (sample_info 1) (Some [1 \<mapsto> ''a'']) = (Inr ?st, Some [1 \<mapsto> ''a''])"
    by (simp add: sample_info_def sample_calls_def mkstat_def set_unix_opt_def load_xattr_def
        oi_is_dir_def mode_is_dir_def has_mode_def mode_bits S_IFBLK_def S_IFCHR_def empty_stat_def)
  have "\<not> oi_is_dir (sample_info 1)" by (simp add: sample_info_def oi_is_dir_def mode_is_dir_def has_mode_def)
  from mkstat_size_of_link[OF run this] show ?thesis
    using run by (auto simp: sample_info_def empty_stat_def)
qed

text \<open>C26. The two fields \<open>Devmajor\<close> and \<open>Devminor\<close> of a device node determine its device number, when
  that fits in 32 bits.\<close>

theorem device_number_determined:
  assumes "drop_bit 32 d = 0" "drop_bit 32 e = 0" "major d = major e" "minor d = minor e"
  shows "d = e"
  using device_split[OF assms(1)] device_split[OF assms(2)] assms(3,4) by simp

theorem device_number_determined_witness:
  "(0x801 :: 64 word) = 0x801 \<and> major 0x801 = 8 \<and> minor 0x801 = 1"
  using device_number_determined[of "0x801" "0x801"] by (simp add: major_def minor_def)

end
