(* ===== verification/Root_Handle.thy ===== *)
theory Root_Handle
  imports Go_Path
begin

text \<open>
  \<open>root.go\<close> and the part of \<open>root_parent_unix.go\<close> that opens directories: the object \<open>root\<close>
  around an \<open>os.Root\<close>, with its closed flag and its lazily opened directory. Objects live in a
  world and are named by numbers (pointers); file descriptors are numbers too. The kernel's
  answers (whether a directory opens, whether a close fails) are parameters.

  The lemmas show that \<open>Close\<close> is idempotent and leaves no descriptor of the object open, that
  nothing is opened by a closed object, and that the name the parent lookup returns is a proper
  file name.
\<close>

section \<open>Descriptors and objects\<close>

text \<open>
  What the kernel answers: opening the directory with this path below the outermost root, and
  closing a descriptor.
\<close>

record root_env =
  re_open_dir :: "string \<Rightarrow> go_error option"
  re_close_err :: "nat \<Rightarrow> go_error option"

text \<open>The struct \<open>root\<close> with its \<open>rootDirState\<close>.\<close>

record root_obj =
  ro_os :: "nat option"
  ro_closed :: bool
  ro_once :: bool
  ro_dir :: "nat option"
  ro_dir_err :: "go_error option"

record root_world =
  rw_fds :: "nat set"
  rw_next :: nat
  rw_fd_path :: "nat \<Rightarrow> string"
  rw_roots :: "root_obj list"

text \<open>\<open>os.Root.OpenRoot\<close> and \<open>os.Root.OpenFile\<close> of a directory: a new descriptor below an open one; a name that is
  absolute or leads up is refused.\<close>

definition os_open_dir :: "root_env \<Rightarrow> nat \<Rightarrow> string \<Rightarrow> root_world \<Rightarrow> (nat \<times> root_world) res" where
  "os_open_dir env fd name w =
     (if fd \<notin> rw_fds w then Inl (PathError ''openat'' name EClosed)
      else if is_abs name \<or> goes_up (clean name) then Inl (PathError ''openat'' name EINVAL)
      else
        let p = join2 (rw_fd_path w fd) name
        in (case re_open_dir env p of
              Some e \<Rightarrow> Inl e
            | None \<Rightarrow>
                let n = rw_next w
                in Inr (n, w\<lparr>rw_fds := insert n (rw_fds w), rw_next := Suc n,
                             rw_fd_path := (rw_fd_path w)(n := p)\<rparr>)))"

definition os_close :: "root_env \<Rightarrow> nat \<Rightarrow> root_world \<Rightarrow> go_error option \<times> root_world" where
  "os_close env fd w =
     (if fd \<in> rw_fds w then (re_close_err env fd, w\<lparr>rw_fds := rw_fds w - {fd}\<rparr>)
      else (Some (Errno EClosed), w))"

section \<open>The object\<close>

definition new_root :: "nat \<Rightarrow> root_world \<Rightarrow> nat \<times> root_world" where
  "new_root osroot w =
     (length (rw_roots w),
      w\<lparr>rw_roots := rw_roots w @
        [\<lparr>ro_os = Some osroot, ro_closed = False, ro_once = False, ro_dir = None, ro_dir_err = None\<rparr>]\<rparr>)"

text \<open>
  \<open>root.OpenRoot(name)\<close>, the method of the embedded \<open>os.Root\<close> (a nil pointer once closed),
  followed by \<open>NewRoot\<close>, as both callers do.
\<close>

definition open_root :: "root_env \<Rightarrow> nat \<Rightarrow> string \<Rightarrow> root_world \<Rightarrow> (nat \<times> root_world) res" where
  "open_root env r name w =
     (case ro_os (rw_roots w ! r) of
        None \<Rightarrow> Inl (Panic ''nil os.Root'')
      | Some fd \<Rightarrow> res_bind (os_open_dir env fd name w) (\<lambda>(osroot, w'). Inr (new_root osroot w')))"

text \<open>\<open>root.Close\<close> on a non-nil pointer.\<close>

definition root_close :: "root_env \<Rightarrow> nat \<Rightarrow> root_world \<Rightarrow> go_error option \<times> root_world" where
  "root_close env r w =
     (let obj = rw_roots w ! r in
      if ro_closed obj then (None, w)
      else
        let w = w\<lparr>rw_roots := (rw_roots w)[r := obj\<lparr>ro_closed := True, ro_dir := None, ro_os := None\<rparr>]\<rparr>;
            (err, w) = (case ro_dir obj of None \<Rightarrow> (None, w) | Some d \<Rightarrow> os_close env d w)
        in (case ro_os obj of
              None \<Rightarrow> (err, w)
            | Some fd \<Rightarrow>
                let (err2, w) = os_close env fd w in (if err = None then err2 else err, w)))"

text \<open>\<open>root.rootDirFile\<close>: opens \<open>.\<close> at the first call and remembers the outcome.\<close>

definition root_dir_file :: "root_env \<Rightarrow> nat \<Rightarrow> root_world \<Rightarrow> nat res \<times> root_world" where
  "root_dir_file env r w =
     (let obj = rw_roots w ! r in
      if ro_closed obj then (Inl (Errno EClosed), w)
      else (case ro_os obj of
          None \<Rightarrow> (Inl (Errorf ''nil root'' []), w)
        | Some fd \<Rightarrow>
            let (obj, w) =
              (if ro_once obj then (obj, w)
               else (case os_open_dir env fd ''.'' w of
                   Inl e \<Rightarrow> (obj\<lparr>ro_once := True, ro_dir := None, ro_dir_err := Some e\<rparr>, w)
                 | Inr (d, w) \<Rightarrow> (obj\<lparr>ro_once := True, ro_dir := Some d, ro_dir_err := None\<rparr>, w)));
              w = w\<lparr>rw_roots := (rw_roots w)[r := obj]\<rparr>
            in (case ro_dir_err obj of
                  Some e \<Rightarrow> (Inl e, w)
                | None \<Rightarrow> (Inr (the (ro_dir obj)), w))))"

text \<open>
  \<open>root.openRootParent\<close>: the parent directory's descriptor, the name in it, and whether the
  caller has to close the descriptor.
\<close>

definition open_root_parent ::
  "root_env \<Rightarrow> nat \<Rightarrow> string \<Rightarrow> root_world \<Rightarrow> (nat \<times> string \<times> bool) res \<times> root_world" where
  "open_root_parent env r name w =
     (if slash \<notin> set name then
        (if name = [] \<or> name = ''.'' \<or> name = ''..'' then (Inl (PathError ''openat'' name EINVAL), w)
         else
           let (d, w) = root_dir_file env r w
           in (res_bind d (\<lambda>fd. Inr (fd, name, False)), w))
      else
        let cleaned = clean name; b = base cleaned in
        if b = ''.'' \<or> b = ''..'' then (Inl (PathError ''openat'' name EINVAL), w)
        else
          let d = dir cleaned in
          if d = ''.'' then
            (let (fd, w) = root_dir_file env r w in (res_bind fd (\<lambda>fd. Inr (fd, b, False)), w))
          else (case ro_os (rw_roots w ! r) of
              None \<Rightarrow> (Inl (Panic ''nil os.Root''), w)
            | Some os \<Rightarrow>
                (case os_open_dir env os d w of
                   Inl e \<Rightarrow> (Inl e, w)
                 | Inr (fd, w) \<Rightarrow> (Inr (fd, b, True), w))))"

section \<open>Well-formed worlds\<close>

text \<open>
  The descriptors an object owns; different objects own different descriptors, all of them open,
  and a closed object owns none.
\<close>

definition owned :: "root_obj \<Rightarrow> nat set" where
  "owned obj = set_option (ro_os obj) \<union> set_option (ro_dir obj)"

definition obj_ok :: "root_obj \<Rightarrow> bool" where
  "obj_ok obj \<longleftrightarrow> (ro_closed obj \<longleftrightarrow> ro_os obj = None) \<and> (ro_closed obj \<longrightarrow> ro_dir obj = None) \<and>
     (ro_dir obj \<noteq> None \<longrightarrow> ro_once obj) \<and>
     (\<not> ro_closed obj \<and> ro_once obj \<longrightarrow> ro_dir obj \<noteq> None \<or> ro_dir_err obj \<noteq> None) \<and>
     (ro_dir obj \<noteq> None \<longrightarrow> ro_dir obj \<noteq> ro_os obj)"

definition world_ok :: "root_world \<Rightarrow> bool" where
  "world_ok w \<longleftrightarrow>
     (\<forall>fd \<in> rw_fds w. fd < rw_next w) \<and>
     (\<forall>r < length (rw_roots w). obj_ok (rw_roots w ! r) \<and> owned (rw_roots w ! r) \<subseteq> rw_fds w) \<and>
     (\<forall>r < length (rw_roots w). \<forall>q < length (rw_roots w). r \<noteq> q \<longrightarrow>
        owned (rw_roots w ! r) \<inter> owned (rw_roots w ! q) = {})"

definition root_open :: "root_world \<Rightarrow> nat \<Rightarrow> bool" where
  "root_open w r \<longleftrightarrow> r < length (rw_roots w) \<and> \<not> ro_closed (rw_roots w ! r)"

definition root_path :: "root_world \<Rightarrow> nat \<Rightarrow> string" where
  "root_path w r = rw_fd_path w (the (ro_os (rw_roots w ! r)))"

lemma world_okD:
  assumes "world_ok w"
  shows "fd \<in> rw_fds w \<Longrightarrow> fd < rw_next w"
    "r < length (rw_roots w) \<Longrightarrow> obj_ok (rw_roots w ! r)"
    "r < length (rw_roots w) \<Longrightarrow> owned (rw_roots w ! r) \<subseteq> rw_fds w"
    "r < length (rw_roots w) \<Longrightarrow> q < length (rw_roots w) \<Longrightarrow> r \<noteq> q \<Longrightarrow>
      owned (rw_roots w ! r) \<inter> owned (rw_roots w ! q) = {}"
  using assms unfolding world_ok_def by blast+

lemma os_open_dir_result:
  assumes "os_open_dir env fd name w = Inr (n, w')"
  shows "n = rw_next w" "fd \<in> rw_fds w" "rw_fds w' = insert n (rw_fds w)" "rw_next w' = Suc n"
    "rw_fd_path w' = (rw_fd_path w)(n := join2 (rw_fd_path w fd) name)" "rw_roots w' = rw_roots w"
  using assms by (auto simp: os_open_dir_def Let_def split: if_splits option.splits)

lemma open_root_result:
  assumes "open_root env r name w = Inr (r', w')"
  obtains fd n where "ro_os (rw_roots w ! r) = Some fd" "fd \<in> rw_fds w" "n = rw_next w" "r' = length (rw_roots w)"
    "rw_fds w' = insert n (rw_fds w)" "rw_next w' = Suc n"
    "rw_fd_path w' = (rw_fd_path w)(n := join2 (rw_fd_path w fd) name)"
    "rw_roots w' = rw_roots w @
      [\<lparr>ro_os = Some n, ro_closed = False, ro_once = False, ro_dir = None, ro_dir_err = None\<rparr>]"
proof -
  obtain fd where fd: "ro_os (rw_roots w ! r) = Some fd" using assms by (auto simp: open_root_def split: option.splits)
  obtain n w1 where 1: "os_open_dir env fd name w = Inr (n, w1)" "(r', w') = new_root n w1"
    using assms fd by (auto simp: open_root_def res_bind_Inr_iff)
  note o = os_open_dir_result[OF 1(1)]
  show ?thesis
    by (rule that[OF fd o(2) o(1)]) (use 1(2) o in \<open>simp_all add: new_root_def\<close>)
qed

lemma open_root_ok:
  assumes "world_ok w" "open_root env r name w = Inr (r', w')" "root_open w r"
  shows "world_ok w'" "\<not> root_open w r'" "root_open w' k \<longleftrightarrow> k = r' \<or> root_open w k"
    "root_path w' r' = join2 (root_path w r) name"
    "root_open w k \<Longrightarrow> root_path w' k = root_path w k"
    "rw_fds w' = insert (the (ro_os (rw_roots w' ! r'))) (rw_fds w)"
proof -
  from assms(2) obtain fd n where o: "ro_os (rw_roots w ! r) = Some fd" "fd \<in> rw_fds w" "n = rw_next w"
    "r' = length (rw_roots w)" "rw_fds w' = insert n (rw_fds w)" "rw_next w' = Suc n"
    "rw_fd_path w' = (rw_fd_path w)(n := join2 (rw_fd_path w fd) name)"
    "rw_roots w' = rw_roots w @
      [\<lparr>ro_os = Some n, ro_closed = False, ro_once = False, ro_dir = None, ro_dir_err = None\<rparr>]"
    by (rule open_root_result)
  note W = world_okD[OF assms(1)]
  have fresh: "n \<notin> rw_fds w" using W(1) o(3) by blast
  have own: "owned (rw_roots w ! q) \<subseteq> rw_fds w" if "q < length (rw_roots w)" for q using W(3) that .
  have own_app: "owned (rw_roots w' ! q) = (if q < length (rw_roots w) then owned (rw_roots w ! q) else {n})"
    if "q < length (rw_roots w')" for q
    using that o(8) by (auto simp: nth_append owned_def less_Suc_eq)
  show "world_ok w'"
    unfolding world_ok_def
  proof (intro conjI ballI allI impI)
    show "fd' < rw_next w'" if "fd' \<in> rw_fds w'" for fd' using that W(1) o(3,5,6) by (auto simp: less_Suc_eq)
    show "obj_ok (rw_roots w' ! q)" if "q < length (rw_roots w')" for q
      using that W(2) o(8) by (auto simp: nth_append obj_ok_def)
    show "owned (rw_roots w' ! q) \<subseteq> rw_fds w'" if "q < length (rw_roots w')" for q
      using own_app[OF that] own[of q] o(5) by auto
    show "owned (rw_roots w' ! p) \<inter> owned (rw_roots w' ! q) = {}"
      if "p < length (rw_roots w')" "q < length (rw_roots w')" "p \<noteq> q" for p q
      using own_app[OF that(1)] own_app[OF that(2)] W(4)[of p q] own[of p] own[of q] fresh that o(8)
      by (cases "p < length (rw_roots w)"; cases "q < length (rw_roots w)") auto
  qed
  show "\<not> root_open w r'" "root_open w' k \<longleftrightarrow> k = r' \<or> root_open w k"
    using o(4,8) by (auto simp: root_open_def nth_append)
  show "root_path w' r' = join2 (root_path w r) name"
    using o by (simp add: root_path_def)
  show "root_path w' k = root_path w k" if "root_open w k"
  proof -
    have k: "k < length (rw_roots w)" "\<not> ro_closed (rw_roots w ! k)" using that by (auto simp: root_open_def)
    then obtain g where g: "ro_os (rw_roots w ! k) = Some g" using W(2) by (auto simp: obj_ok_def)
    then have "g \<noteq> n" using own[OF k(1)] fresh by (auto simp: owned_def)
    then show ?thesis using k g o(7,8) by (simp add: root_path_def nth_append)
  qed
  show "rw_fds w' = insert (the (ro_os (rw_roots w' ! r'))) (rw_fds w)" using o by simp
qed

lemma os_close_result:
  "os_close env fd w = (e, w') \<Longrightarrow>
   rw_fds w' = rw_fds w - {fd} \<and> rw_next w' = rw_next w \<and> rw_fd_path w' = rw_fd_path w \<and> rw_roots w' = rw_roots w"
  by (auto simp: os_close_def split: if_splits)

definition close_option :: "root_env \<Rightarrow> nat option \<Rightarrow> root_world \<Rightarrow> go_error option \<times> root_world" where
  "close_option env d w = (case d of None \<Rightarrow> (None, w) | Some fd \<Rightarrow> os_close env fd w)"

lemma close_option_result:
  "close_option env d w = (e, w') \<Longrightarrow>
   rw_fds w' = rw_fds w - set_option d \<and> rw_next w' = rw_next w \<and> rw_fd_path w' = rw_fd_path w \<and>
   rw_roots w' = rw_roots w"
  by (cases d) (auto simp: close_option_def dest: os_close_result)

lemma root_close_result:
  assumes "root_close env r w = (e, w')"
  shows "rw_fds w' = (if ro_closed (rw_roots w ! r) then rw_fds w else rw_fds w - owned (rw_roots w ! r))"
    "rw_next w' = rw_next w" "rw_fd_path w' = rw_fd_path w"
    "rw_roots w' = (if ro_closed (rw_roots w ! r) then rw_roots w
      else (rw_roots w)[r := (rw_roots w ! r)\<lparr>ro_closed := True, ro_dir := None, ro_os := None\<rparr>])"
proof -
  let ?obj = "rw_roots w ! r"
  have "rw_fds w' = (if ro_closed ?obj then rw_fds w else rw_fds w - owned ?obj) \<and>
    rw_next w' = rw_next w \<and> rw_fd_path w' = rw_fd_path w \<and>
    rw_roots w' = (if ro_closed ?obj then rw_roots w
      else (rw_roots w)[r := ?obj\<lparr>ro_closed := True, ro_dir := None, ro_os := None\<rparr>])"
  proof (cases "ro_closed ?obj")
    case True
    then show ?thesis using assms by (simp add: root_close_def)
  next
    case False
    let ?w = "w\<lparr>rw_roots := (rw_roots w)[r := ?obj\<lparr>ro_closed := True, ro_dir := None, ro_os := None\<rparr>]\<rparr>"
    obtain e1 w1 where 1: "close_option env (ro_dir ?obj) ?w = (e1, w1)" by fastforce
    obtain e2 w2 where 2: "close_option env (ro_os ?obj) w1 = (e2, w2)" by fastforce
    have "w' = w2"
      using assms False 1 2 by (auto simp: root_close_def close_option_def Let_def split: option.splits prod.splits)
    moreover have "rw_fds w - set_option (ro_dir ?obj) - set_option (ro_os ?obj) = rw_fds w - owned ?obj"
      by (auto simp: owned_def)
    ultimately show ?thesis
      using close_option_result[OF 1] close_option_result[OF 2] False by simp
  qed
  then show "rw_fds w' = (if ro_closed ?obj then rw_fds w else rw_fds w - owned ?obj)"
    "rw_next w' = rw_next w" "rw_fd_path w' = rw_fd_path w"
    "rw_roots w' = (if ro_closed ?obj then rw_roots w
      else (rw_roots w)[r := ?obj\<lparr>ro_closed := True, ro_dir := None, ro_os := None\<rparr>])"
    by blast+
qed

lemma root_close_ok:
  assumes "world_ok w" "root_close env r w = (e, w')" "r < length (rw_roots w)"
  shows "world_ok w'" "root_open w' k \<longleftrightarrow> root_open w k \<and> k \<noteq> r"
    "root_open w' k \<Longrightarrow> root_path w' k = root_path w k"
    "rw_fds w' = rw_fds w - owned (rw_roots w ! r)" "length (rw_roots w') = length (rw_roots w)"
proof -
  note W = world_okD[OF assms(1)] and c = root_close_result[OF assms(2)]
  let ?obj = "rw_roots w ! r"
  have closed_none: "owned ?obj = {}" if "ro_closed ?obj"
    using W(2)[OF assms(3)] that by (simp add: obj_ok_def owned_def)
  then show fds: "rw_fds w' = rw_fds w - owned ?obj" using c(1) by simp
  show len: "length (rw_roots w') = length (rw_roots w)" using c(4) by simp
  have same: "rw_roots w' ! q = rw_roots w ! q" if "q \<noteq> r" for q using c(4) that by simp
  have now: "ro_closed (rw_roots w' ! r)" "owned (rw_roots w' ! r) = {}" "obj_ok (rw_roots w' ! r)"
    using c(4) assms(3) closed_none W(2)[OF assms(3)] by (auto simp: owned_def obj_ok_def)
  show "world_ok w'"
    unfolding world_ok_def
  proof (intro conjI ballI allI impI)
    show "fd < rw_next w'" if "fd \<in> rw_fds w'" for fd using that W(1) fds c(2) by simp
    show "obj_ok (rw_roots w' ! q)" if "q < length (rw_roots w')" for q
      using that now(3) same W(2) len by (cases "q = r") auto
    show "owned (rw_roots w' ! q) \<subseteq> rw_fds w'" if "q < length (rw_roots w')" for q
    proof (cases "q = r")
      case False
      then have "owned (rw_roots w ! q) \<inter> owned ?obj = {}" using W(4) that len assms(3) by metis
      moreover have "owned (rw_roots w ! q) \<subseteq> rw_fds w" using W(3) that len by simp
      ultimately show ?thesis using same[OF False] fds by auto
    qed (use now in simp)
    show "owned (rw_roots w' ! p) \<inter> owned (rw_roots w' ! q) = {}"
      if "p < length (rw_roots w')" "q < length (rw_roots w')" "p \<noteq> q" for p q
      using that now(2) same W(4) len by (cases "p = r"; cases "q = r") auto
  qed
  show open_iff: "root_open w' k \<longleftrightarrow> root_open w k \<and> k \<noteq> r" for k
    using now(1) same len by (cases "k = r") (auto simp: root_open_def)
  show "root_path w' k = root_path w k" if "root_open w' k"
    using that open_iff same c(3) by (simp add: root_path_def)
qed

text \<open>Replacing one object, when what it owns is its own or nobody's.\<close>

lemma world_ok_update:
  assumes "world_ok w" "r < length (rw_roots w)" "obj_ok obj"
    and "owned obj \<subseteq> owned (rw_roots w ! r) \<union> (rw_fds w - \<Union> (owned ` set (rw_roots w)))"
  shows "world_ok (w\<lparr>rw_roots := (rw_roots w)[r := obj]\<rparr>)"
proof -
  note W = world_okD[OF assms(1)]
  let ?w = "w\<lparr>rw_roots := (rw_roots w)[r := obj]\<rparr>"
  have other: "owned obj \<inter> owned (rw_roots w ! q) = {}" if "q < length (rw_roots w)" "q \<noteq> r" for q
  proof -
    have "owned (rw_roots w ! q) \<subseteq> \<Union> (owned ` set (rw_roots w))" using that nth_mem by fast
    moreover have "owned (rw_roots w ! r) \<inter> owned (rw_roots w ! q) = {}" using W(4) that assms(2) by metis
    ultimately show ?thesis using assms(4) by blast
  qed
  show ?thesis
    unfolding world_ok_def
  proof (intro conjI ballI allI impI)
    show "fd < rw_next ?w" if "fd \<in> rw_fds ?w" for fd using that W(1) by simp
    show "obj_ok (rw_roots ?w ! q)" if "q < length (rw_roots ?w)" for q
      using that W(2) assms(2,3) by (simp add: nth_list_update)
    show "owned (rw_roots ?w ! q) \<subseteq> rw_fds ?w" if "q < length (rw_roots ?w)" for q
    proof (cases "q = r")
      case True
      have "owned obj \<subseteq> rw_fds w" using W(3)[OF assms(2)] assms(4) by blast
      then show ?thesis using True assms(2) by simp
    next
      case False
      then show ?thesis using that W(3)[of q] by simp
    qed
    show "owned (rw_roots ?w ! p) \<inter> owned (rw_roots ?w ! q) = {}"
      if "p < length (rw_roots ?w)" "q < length (rw_roots ?w)" "p \<noteq> q" for p q
      using that W(4)[of p q] other[of p] other[of q] assms(2)
      by (cases "p = r"; cases "q = r") (simp_all add: Int_commute)
  qed
qed

lemma os_open_dir_ok:
  assumes "world_ok w" "os_open_dir env fd name w = Inr (n, w')"
  shows "world_ok w'" "n \<notin> rw_fds w" "n \<in> rw_fds w'" "rw_roots w' = rw_roots w"
proof -
  note o = os_open_dir_result[OF assms(2)] and W = world_okD[OF assms(1)]
  show "n \<notin> rw_fds w" "n \<in> rw_fds w'" "rw_roots w' = rw_roots w" using W(1) o by auto
  show "world_ok w'"
    using assms(1) unfolding world_ok_def o(3,4,6) by (auto simp: o(1) less_Suc_eq)
qed

text \<open>The directory file is opened once, belongs to the object from then on, and is open.\<close>

lemma root_dir_file_ok:
  assumes "world_ok w" "r < length (rw_roots w)" "root_dir_file env r w = (d, w')"
  shows "world_ok w'" "d = Inr fd \<Longrightarrow> fd \<in> rw_fds w' \<and> ro_dir (rw_roots w' ! r) = Some fd \<and> root_open w' r"
    "root_open w' k = root_open w k"
proof -
  let ?obj = "rw_roots w ! r"
  note W = world_okD[OF assms(1)]
  have obj: "obj_ok ?obj" using W(2) assms(2) .
  have "world_ok w' \<and> (\<forall>fd. d = Inr fd \<longrightarrow> fd \<in> rw_fds w' \<and> ro_dir (rw_roots w' ! r) = Some fd \<and> root_open w' r) \<and>
    (\<forall>k. root_open w' k = root_open w k)"
  proof (cases "ro_closed ?obj")
    case True
    then show ?thesis using assms by (auto simp: root_dir_file_def)
  next
    case False
    then obtain fd where fd: "ro_os ?obj = Some fd" using obj by (auto simp: obj_ok_def)
    show ?thesis
    proof (cases "ro_once ?obj")
      case True
      then have "w' = w" "d = (case ro_dir_err ?obj of Some e \<Rightarrow> Inl e | None \<Rightarrow> Inr (the (ro_dir ?obj)))"
        using assms False fd by (auto simp: root_dir_file_def Let_def split: option.splits)
      moreover have "ro_dir ?obj = None \<Longrightarrow> ro_dir_err ?obj \<noteq> None"
        using obj True False by (simp add: obj_ok_def)
      ultimately show ?thesis
        using assms(1,2) False W(3)[OF assms(2)]
        by (cases "ro_dir ?obj") (auto simp: root_open_def owned_def split: option.splits)
    next
      case once: False
      show ?thesis
      proof (cases "os_open_dir env fd ''.'' w")
        case (Inl e)
        let ?o = "?obj\<lparr>ro_once := True, ro_dir := None, ro_dir_err := Some e\<rparr>"
        have w': "w' = w\<lparr>rw_roots := (rw_roots w)[r := ?o]\<rparr>" "d = Inl e"
          using assms False fd once Inl by (auto simp: root_dir_file_def Let_def)
        have "owned ?o \<subseteq> owned ?obj" "obj_ok ?o" using obj False fd by (auto simp: owned_def obj_ok_def)
        then have "world_ok w'"
          unfolding w' by (intro world_ok_update[OF assms(1,2)]) auto
        then show ?thesis using w' assms(2) False by (auto simp: root_open_def nth_list_update)
      next
        case (Inr nw)
        obtain n w1 where nw: "nw = (n, w1)" by fastforce
        note o = os_open_dir_ok[OF assms(1) Inr[unfolded nw]] os_open_dir_result[OF Inr[unfolded nw]]
        let ?o = "?obj\<lparr>ro_once := True, ro_dir := Some n, ro_dir_err := None\<rparr>"
        have w': "w' = w1\<lparr>rw_roots := (rw_roots w1)[r := ?o]\<rparr>" "d = Inr n"
          using assms False fd once Inr nw o(4) by (auto simp: root_dir_file_def Let_def)
        have "fd \<in> rw_fds w" using o(6) .
        then have ok: "owned ?o \<subseteq> insert n (owned ?obj)" "obj_ok ?o"
          using obj False fd o(2) by (auto simp: owned_def obj_ok_def)
        have "world_ok w'"
          unfolding w'
        proof (rule world_ok_update[OF o(1)])
          show "r < length (rw_roots w1)" using assms(2) o(4) by simp
          show "obj_ok ?o" by (rule ok(2))
          show "owned ?o \<subseteq> owned (rw_roots w1 ! r) \<union> (rw_fds w1 - \<Union> (owned ` set (rw_roots w1)))"
            using ok(1) o(2,3,4) W(3) by (fastforce simp: in_set_conv_nth)
        qed
        then show ?thesis using w' assms(2) False o(3,4) by (auto simp: root_open_def nth_list_update)
      qed
    qed
  qed
  then show "world_ok w'" "d = Inr fd \<Longrightarrow> fd \<in> rw_fds w' \<and> ro_dir (rw_roots w' ! r) = Some fd \<and> root_open w' r"
    "root_open w' k = root_open w k" by blast+
qed

lemma open_root_parent_name:
  assumes "open_root_parent env r name w = (Inr (fd, b, c), w')"
  shows "good_comp b"
proof (cases "slash \<in> set name")
  case False
  then show ?thesis
    using assms by (auto simp: open_root_parent_def good_comp_def res_bind_Inr_iff split: if_splits prod.splits)
next
  case True
  let ?b = "base (clean name)" and ?d = "dir (clean name)"
  have b: "?b \<noteq> ''.''" "?b \<noteq> ''..''"
    using assms True by (auto simp: open_root_parent_def Let_def split: if_splits)
  have "\<not> is_abs (clean name)"
  proof
    assume abs: "is_abs (clean name)"
    then have "split_dir (clean name) \<noteq> []" "is_abs (split_dir (clean name))" by (rule split_dir_abs)+
    then have d: "is_abs ?d" by (simp add: dir_def clean_abs)
    then have "?d \<noteq> ''.''" by (auto simp: is_abs_def)
    then show False
      using assms True b d by (auto simp: open_root_parent_def Let_def os_open_dir_def split: option.splits if_splits)
  qed
  then have "good_comp ?b" using base_clean[of name] b by blast
  moreover have "b = ?b"
    using assms True b
    by (auto simp: open_root_parent_def Let_def res_bind_Inr_iff split: option.splits if_splits prod.splits sum.splits)
  ultimately show ?thesis by simp
qed

section \<open>Properties\<close>

text \<open>\<open>root.Close\<close> leaves none of the object's descriptors open, touches no other object, and a
  second \<open>Close\<close> does nothing and reports no error.\<close>

theorem root_close_complete:
  assumes "world_ok w" "r < length (rw_roots w)" "root_close env r w = (e, w')"
  shows "rw_fds w' = rw_fds w - owned (rw_roots w ! r) \<and> owned (rw_roots w' ! r) = {} \<and>
    (\<forall>k. root_open w' k \<longleftrightarrow> root_open w k \<and> k \<noteq> r) \<and>
    root_close env r w' = (None, w')"
proof -
  note ok = root_close_ok[OF assms(1,3,2)]
  have "ro_closed (rw_roots w' ! r)" using ok(2)[of r] ok(5) assms(2) by (auto simp: root_open_def)
  moreover from this have "owned (rw_roots w' ! r) = {}"
    using world_okD(2)[OF ok(1), of r] ok(5) assms(2) by (simp add: obj_ok_def owned_def)
  ultimately show ?thesis using ok(2,4) by (simp add: root_close_def)
qed

definition sample_env :: root_env where
  "sample_env = \<lparr>re_open_dir = (\<lambda>p. if p = ''x'' then Some (PathError ''openat'' p ENOENT) else None),
     re_close_err = (\<lambda>fd. None)\<rparr>"

definition sample_world :: root_world where
  "sample_world =
     \<lparr>rw_fds = {0}, rw_next = 1, rw_fd_path = (\<lambda>fd. ''.''),
      rw_roots = [\<lparr>ro_os = Some 0, ro_closed = False, ro_once = False, ro_dir = None, ro_dir_err = None\<rparr>]\<rparr>"

lemma sample_world_ok: "world_ok sample_world" "root_open sample_world 0" "root_path sample_world 0 = ''.''"
  by (simp_all add: sample_world_def world_ok_def obj_ok_def owned_def root_open_def root_path_def)

theorem root_close_complete_witness:
  "root_close sample_env 0 sample_world = (None, snd (root_close sample_env 0 sample_world)) \<and>
   rw_fds (snd (root_close sample_env 0 sample_world)) = {}"
proof -
  have run: "root_close sample_env 0 sample_world = (None, snd (root_close sample_env 0 sample_world))"
    by (simp add: sample_env_def sample_world_def root_close_def os_close_def)
  from root_close_complete[OF sample_world_ok(1) _ run] show ?thesis
    using run by (simp add: sample_world_def owned_def)
qed

text \<open>Whatever name \<open>openRootParent\<close> is given, the name it returns for the system call is one
  proper file name: not empty, without a slash, neither \<open>.\<close> nor \<open>..\<close>.\<close>

theorem open_root_parent_safe:
  assumes "open_root_parent env r name w = (Inr (fd, b, c), w')"
  shows "b \<noteq> [] \<and> slash \<notin> set b \<and> b \<noteq> ''.'' \<and> b \<noteq> ''..''"
  using open_root_parent_name[OF assms] by (simp add: good_comp_def)

theorem open_root_parent_safe_witness:
  "\<exists>w'. open_root_parent sample_env 0 ''a/../b/c'' sample_world = (Inr (1, ''c'', True), w') \<and>
    slash \<notin> set ''c''"
proof -
  let ?w = "snd (open_root_parent sample_env 0 ''a/../b/c'' sample_world)"
  have run: "open_root_parent sample_env 0 ''a/../b/c'' sample_world = (Inr (1, ''c'', True), ?w)"
    by (simp add: open_root_parent_def sample_world_def sample_env_def os_open_dir_def clean_def is_abs_def
        base_def split_file_def dir_def split_dir_def goes_up_def join2_def)
  from open_root_parent_safe[OF run] run show ?thesis by blast
qed

end
