(* ===== verification/Root_Stack.thy ===== *)
theory Root_Stack
  imports Root_Handle Path_Order
begin

text \<open>
  \<open>rootstack.go\<close>: the stack of directory handles with which the writer follows a stream of paths
  in tree order. The operations take the two calls they make on a root as arguments; the locale
  \<open>root_provider\<close> states what these calls promise, and the objects of \<open>Root_Handle\<close> provide it.

  The lemmas show that the stack always holds open handles on a chain of directories starting at
  the destination, that \<open>get\<close> returns the handle of the path's directory, that every handle that
  leaves the stack is closed, and that \<open>Close\<close> leaves only the destination open.
\<close>

section \<open>rootStack\<close>

type_synonym 'h stack_item = "string \<times> 'h"

definition new_root_stack :: "'h \<Rightarrow> 'h stack_item list" where
  "new_root_stack r = [(''.'', r)]"

definition clean_root_path :: "string \<Rightarrow> string" where
  "clean_root_path p = (if p = [] then ''.'' else clean p)"

definition root_stack_rel :: "string \<Rightarrow> string \<Rightarrow> string option" where
  "root_stack_rel from target =
     (if from = ''.'' then (if target = ''.'' then None else Some target)
      else (case rel_path from target of
          Inl e \<Rightarrow> None
        | Inr rel \<Rightarrow>
            if rel = ''.'' \<or> rel = ''..'' \<or> has_prefix rel (''..'' @ [slash]) then None else Some rel))"

definition stack_pop ::
  "('h \<Rightarrow> 'w \<Rightarrow> go_error option \<times> 'w) \<Rightarrow> 'h stack_item list \<Rightarrow> 'w \<Rightarrow>
   go_error option \<times> 'h stack_item list \<times> 'w" where
  "stack_pop close items w =
     (let i = length items - 1; item = items ! i; items = take i items;
          (err, w) = close (snd item) w
      in (err, items, w))"

text \<open>The loop of \<open>get\<close>; an empty stack would be an index out of range.\<close>

function stack_loop ::
  "('h \<Rightarrow> string \<Rightarrow> 'w \<Rightarrow> ('h \<times> 'w) res) \<Rightarrow> ('h \<Rightarrow> 'w \<Rightarrow> go_error option \<times> 'w) \<Rightarrow> string \<Rightarrow> string \<Rightarrow>
   'h stack_item list \<Rightarrow> 'w \<Rightarrow> ('h \<times> string) res \<times> 'h stack_item list \<times> 'w" where
  "stack_loop opn close d b items w =
     (if items = [] then (Inl (Panic ''index out of range''), items, w)
      else
        let top = items ! (length items - 1) in
        if fst top = d then (Inr (snd top, b), items, w)
        else (case root_stack_rel (fst top) d of
            Some rel \<Rightarrow>
              (case opn (snd top) rel w of
                 Inl e \<Rightarrow> (Inl e, items, w)
               | Inr (h, w) \<Rightarrow> (Inr (h, b), items @ [(d, h)], w))
          | None \<Rightarrow>
              if length items = 1 then (Inl (PathError ''openroot'' d ENOENT), items, w)
              else
                (case stack_pop close items w of
                   (Some e, items, w) \<Rightarrow> (Inl e, items, w)
                 | (None, items, w) \<Rightarrow> stack_loop opn close d b items w)))"
  by pat_completeness auto
termination
  by (relation "measure (\<lambda>(opn, close, d, b, items, w). length items)")
    (auto simp: stack_pop_def Let_def split: prod.splits)

declare stack_loop.simps [simp del]

definition stack_get ::
  "('h \<Rightarrow> string \<Rightarrow> 'w \<Rightarrow> ('h \<times> 'w) res) \<Rightarrow> ('h \<Rightarrow> 'w \<Rightarrow> go_error option \<times> 'w) \<Rightarrow> string \<Rightarrow>
   'h stack_item list \<Rightarrow> 'w \<Rightarrow> ('h \<times> string) res \<times> 'h stack_item list \<times> 'w" where
  "stack_get opn close path items w =
     (let path = clean_root_path path in stack_loop opn close (dir path) (base path) items w)"

text \<open>\<open>Close\<close> pops all but the first item and keeps the first error.\<close>

function stack_close ::
  "('h \<Rightarrow> 'w \<Rightarrow> go_error option \<times> 'w) \<Rightarrow> go_error option \<Rightarrow> 'h stack_item list \<Rightarrow> 'w \<Rightarrow>
   go_error option \<times> 'h stack_item list \<times> 'w" where
  "stack_close close err items w =
     (if length items > 1 then
        (case stack_pop close items w of
           (err2, items, w) \<Rightarrow> stack_close close (if err = None then err2 else err) items w)
      else (err, items, w))"
  by pat_completeness auto
termination
  by (relation "measure (\<lambda>(close, err, items, w). length items)")
    (auto simp: stack_pop_def Let_def split: prod.splits)

declare stack_close.simps [simp del]

section \<open>Relative paths\<close>

lemma root_stack_rel_good:
  assumes "good_comps xs" "good_path d \<or> d = ''.''"
  shows "root_stack_rel (join_slash xs) d =
    (if \<exists>ys. ys \<noteq> [] \<and> split_slash d = xs @ ys then Some (join_slash (drop (length xs) (split_slash d))) else None)"
proof (cases "\<exists>ys. split_slash d = xs @ ys")
  case False
  then obtain r where "rel_path (join_slash xs) d = Inr r" "goes_up r"
    using rel_path_not_below[OF assms] by blast
  then show ?thesis
    using False good_not_dot[OF assms(1)] by (auto simp: root_stack_rel_def goes_up_def)
next
  case True
  then obtain ys where ys: "split_slash d = xs @ ys" by blast
  have "good_comps (split_slash d)"
  proof (cases "d = ''.''")
    case True
    then have "xs = [''.'']" using ys assms(1) by (cases xs) (auto simp: good_comps_def)
    then show ?thesis using assms(1) by (simp add: good_comp_def)
  next
    case False
    then show ?thesis using assms(2) by (simp add: good_path_def)
  qed
  then have g: "ys = [] \<or> good_comps ys" using ys by (auto simp: good_comps_def)
  have d: "d = join_slash (xs @ ys)" using join_split_slash[of d] ys by simp
  show ?thesis
  proof (cases "ys = []")
    case True
    then have "rel_path (join_slash xs) d = Inr ''.''" using d by (simp add: rel_path_def)
    then show ?thesis using True ys good_not_dot[OF assms(1)] by (auto simp: root_stack_rel_def)
  next
    case False
    then have ygood: "good_comps ys" using g by simp
    then have "local_path (join_slash ys)" "join_slash ys \<noteq> ''.''"
      by (simp_all add: good_path_local good_path_join good_not_dot)
    then show ?thesis
      using rel_path_below[OF assms(1) ygood] d ys False good_not_dot[OF assms(1)]
      by (auto simp: root_stack_rel_def local_path_def)
  qed
qed

section \<open>The interface of a root\<close>

text \<open>
  What the stack and the cache rely on: \<open>opn\<close> returns a new open handle on the directory below
  and changes no other; \<open>close\<close> closes its handle, also when it reports an error, and no other.
\<close>

locale root_provider =
  fixes ok :: "'w \<Rightarrow> bool"
    and is_open :: "'w \<Rightarrow> 'h \<Rightarrow> bool"
    and path_of :: "'w \<Rightarrow> 'h \<Rightarrow> string"
    and opn :: "'h \<Rightarrow> string \<Rightarrow> 'w \<Rightarrow> ('h \<times> 'w) res"
    and close :: "'h \<Rightarrow> 'w \<Rightarrow> go_error option \<times> 'w"
  assumes opn_ok: "ok w \<Longrightarrow> is_open w h \<Longrightarrow> opn h name w = Inr (h', w') \<Longrightarrow>
      ok w' \<and> \<not> is_open w h' \<and> path_of w' h' = join2 (path_of w h) name \<and>
      (\<forall>k. is_open w' k \<longleftrightarrow> k = h' \<or> is_open w k) \<and>
      (\<forall>k. is_open w k \<longrightarrow> path_of w' k = path_of w k)"
    and close_ok: "ok w \<Longrightarrow> is_open w h \<Longrightarrow> close h w = (e, w') \<Longrightarrow>
      ok w' \<and> (\<forall>k. is_open w' k \<longleftrightarrow> is_open w k \<and> k \<noteq> h) \<and>
      (\<forall>k. is_open w' k \<longrightarrow> path_of w' k = path_of w k)"
begin

text \<open>
  A stack in order: the first item is the destination, the others are its directories at proper
  paths, each below the one before; every handle is open, on the item's path, and on it once.
\<close>

definition stack_inv :: "'h stack_item list \<Rightarrow> 'w \<Rightarrow> bool" where
  "stack_inv items w \<longleftrightarrow> ok w \<and> items \<noteq> [] \<and> fst (hd items) = ''.'' \<and>
     (\<forall>it \<in> set (tl items). good_path (fst it)) \<and>
     (\<forall>it \<in> set items. is_open w (snd it) \<and> path_of w (snd it) = fst it) \<and>
     distinct (map snd items)"

definition handles :: "'h stack_item list \<Rightarrow> 'h set" where
  "handles items = snd ` set items"

lemma handles_simps [simp]:
  "handles [] = {}" "handles (xs @ ys) = handles xs \<union> handles ys" "handles [(p, h)] = {h}"
  by (auto simp: handles_def)

lemma stack_inv_snoc:
  assumes "xs \<noteq> []"
  shows "stack_inv (xs @ [(p, h)]) w \<longleftrightarrow>
    stack_inv xs w \<and> good_path p \<and> is_open w h \<and> path_of w h = p \<and> h \<notin> handles xs"
  using assms by (cases xs) (auto simp: stack_inv_def handles_def)

lemma stack_inv_change:
  assumes "stack_inv items w" "ok w'" "\<And>h. h \<in> handles items \<Longrightarrow> is_open w' h \<and> path_of w' h = path_of w h"
  shows "stack_inv items w'"
proof -
  have "is_open w' (snd it) \<and> path_of w' (snd it) = fst it" if "it \<in> set items" for it
    using assms(1) assms(3)[of "snd it"] that by (simp add: stack_inv_def handles_def)
  then show ?thesis using assms(1,2) by (simp add: stack_inv_def)
qed

lemma stack_pop_inv:
  assumes inv: "stack_inv items w" and len: "length items > 1" and pop: "stack_pop close items w = (e, items', w')"
  shows "stack_inv items' w'" "items' = butlast items"
    "is_open w' k \<longleftrightarrow> is_open w k \<and> k \<noteq> snd (last items)"
    "is_open w' k \<Longrightarrow> path_of w' k = path_of w k"
proof -
  obtain xs p h where items: "items = xs @ [(p, h)]" using len by (cases items rule: rev_cases) auto
  then have xs: "xs \<noteq> []" using len by auto
  have cl: "close h w = (e, w')" and items': "items' = xs"
    using pop items by (auto simp: stack_pop_def Let_def split: prod.splits)
  have st: "stack_inv xs w" "is_open w h" "h \<notin> handles xs" "ok w"
    using inv xs by (auto simp: items stack_inv_snoc) (simp add: stack_inv_def)
  from close_ok[OF st(4,2) cl] have c: "ok w'" "\<And>k. is_open w' k \<longleftrightarrow> is_open w k \<and> k \<noteq> h"
    "\<And>k. is_open w' k \<Longrightarrow> path_of w' k = path_of w k" by auto
  show "items' = butlast items" "is_open w' k \<longleftrightarrow> is_open w k \<and> k \<noteq> snd (last items)"
    "is_open w' k \<Longrightarrow> path_of w' k = path_of w k" using items items' c by auto
  show "stack_inv items' w'"
    unfolding items'
  proof (rule stack_inv_change[OF st(1) c(1)])
    fix k assume k: "k \<in> handles xs"
    then have "is_open w k" using st(1) by (auto simp: stack_inv_def handles_def)
    then show "is_open w' k \<and> path_of w' k = path_of w k" using k st(3) c(2,3) by metis
  qed
qed

lemma rel_path_reaches:
  assumes "root_stack_rel p d = Some rel" "good_path p \<or> p = ''.''" "good_path d \<or> d = ''.''"
  shows "good_path d" "join2 p rel = d"
proof -
  have "good_path d \<and> join2 p rel = d"
  proof (cases "p = ''.''")
    case True
    then have "d \<noteq> ''.''" "rel = d" using assms(1) by (auto simp: root_stack_rel_def split: if_splits)
    then show ?thesis using True assms(3) join2_dot by blast
  next
    case False
    then obtain xs where xs: "good_comps xs" "p = join_slash xs" using assms(2) by (auto elim: good_pathE)
    obtain ys where ys: "ys \<noteq> []" "split_slash d = xs @ ys" "rel = join_slash ys"
      using assms(1) unfolding xs(2) root_stack_rel_good[OF xs(1) assms(3)] by (auto split: if_splits)
    have "d \<noteq> ''.''" using ys(1,2) xs(1) by (cases xs) (auto simp: good_comps_def)
    then have g: "good_path d" using assms(3) by simp
    then have "good_comps ys" using ys(1,2) by (auto simp: good_path_def good_comps_def)
    moreover have "d = join_slash (xs @ ys)" using join_split_slash[of d] ys(2) by simp
    ultimately show ?thesis using join2_good_good[OF xs(1)] xs(2) ys(3) g by simp
  qed
  then show "good_path d" "join2 p rel = d" by simp_all
qed

lemma stack_loop_correct:
  assumes "stack_inv items w" "good_path d \<or> d = ''.''" "stack_loop opn close d b items w = (r, items', w')"
  shows "stack_inv items' w' \<and> hd items' = hd items \<and>
    (\<forall>h c. r = Inr (h, c) \<longrightarrow> c = b \<and> last items' = (d, h)) \<and>
    (\<forall>k \<in> handles items'. k \<in> handles items \<or> \<not> is_open w k) \<and>
    (\<forall>k. is_open w' k \<longleftrightarrow> is_open w k \<and> k \<notin> handles items \<or> k \<in> handles items')"
  using assms(1,3)
proof (induction "length items" arbitrary: items w rule: less_induct)
  case less
  note inv = less.prems(1) and run = less.prems(2)
  have ne: "items \<noteq> []" using inv by (simp add: stack_inv_def)
  then obtain xs p h where items: "items = xs @ [(p, h)]" by (cases items rule: rev_cases) auto
  have ok: "ok w" "is_open w h" "path_of w h = p" "good_path p \<or> p = ''.''"
    using inv items by (cases xs; auto simp: stack_inv_def)+
  have open_handles: "is_open w k" if "k \<in> handles items" for k
    using inv that by (auto simp: stack_inv_def handles_def)
  have same: "is_open w k \<longleftrightarrow> is_open w k \<and> k \<notin> handles items \<or> k \<in> handles items" for k
    using open_handles by blast
  have top: "items ! (length items - 1) = (p, h)" by (simp add: items)
  have step: "stack_loop opn close d b items w =
      (if p = d then (Inr (h, b), items, w)
       else (case root_stack_rel p d of
           Some rel \<Rightarrow>
             (case opn h rel w of
                Inl e \<Rightarrow> (Inl e, items, w)
              | Inr (h, w) \<Rightarrow> (Inr (h, b), items @ [(d, h)], w))
         | None \<Rightarrow>
             if length items = 1 then (Inl (PathError ''openroot'' d ENOENT), items, w)
             else
               (case stack_pop close items w of
                  (Some e, items, w) \<Rightarrow> (Inl e, items, w)
                | (None, items, w) \<Rightarrow> stack_loop opn close d b items w)))"
    unfolding stack_loop.simps[of opn close d b items w] Let_def top fst_conv snd_conv
    using ne by (rule if_not_P)
  have "length items = 1 \<or> length items > 1" using ne by (cases items) auto
  then consider "p = d" | rel where "p \<noteq> d" "root_stack_rel p d = Some rel"
    | "p \<noteq> d" "root_stack_rel p d = None" "length items = 1"
    | "p \<noteq> d" "root_stack_rel p d = None" "length items > 1"
    by (cases "root_stack_rel p d") auto
  then show ?case
  proof cases
    case 1
    then have "r = Inr (h, b)" "items' = items" "w' = w"
      using run step 1 by simp_all
    then show ?thesis using inv items 1 same by auto
  next
    case (2 rel)
    show ?thesis
    proof (cases "opn h rel w")
      case (Inl e)
      then have "r = Inl e" "items' = items" "w' = w"
        using run step 2 Inl by simp_all
      then show ?thesis using inv same by auto
    next
      case (Inr hw)
      obtain h' w1 where hw: "hw = (h', w1)" by fastforce
      then have res: "r = Inr (h', b)" "items' = items @ [(d, h')]" "w' = w1"
        using run step 2 Inr hw by simp_all
      note reach = rel_path_reaches[OF 2(2) ok(4) assms(2)]
      from opn_ok[OF ok(1,2) Inr[unfolded hw]] have o: "ok w1" "\<not> is_open w h'" "path_of w1 h' = d"
        "\<And>k. is_open w1 k \<longleftrightarrow> k = h' \<or> is_open w k" "\<And>k. is_open w k \<Longrightarrow> path_of w1 k = path_of w k"
        using reach(2) ok(3) by auto
      have "stack_inv items w1"
        by (rule stack_inv_change[OF inv o(1)]) (use open_handles o(4,5) in auto)
      moreover have "h' \<notin> handles items" using open_handles o(2) by blast
      ultimately have "stack_inv items' w'"
        unfolding res using ne reach(1) o(3,4) by (simp add: stack_inv_snoc)
      moreover have "is_open w' k \<longleftrightarrow> is_open w k \<and> k \<notin> handles items \<or> k \<in> handles items'" for k
        using o(4) same[of k] unfolding res by auto
      ultimately show ?thesis using res ne o(2) by auto
    qed
  next
    case 3
    then have "r = Inl (PathError ''openroot'' d ENOENT)" "items' = items" "w' = w"
      using run step 3 by simp_all
    then show ?thesis using inv same by auto
  next
    case 4
    obtain e items1 w1 where pop: "stack_pop close items w = (e, items1, w1)" by (metis prod_cases3)
    note P = stack_pop_inv[OF inv 4(3) pop]
    have xs: "items1 = xs" "xs \<noteq> []" "hd items1 = hd items" using P(2) items 4(3) by (auto split: if_splits)
    have o1: "is_open w1 k \<longleftrightarrow> is_open w k \<and> k \<noteq> h" for k using P(3) items by simp
    have h: "h \<notin> handles xs" using inv items xs(2) by (simp add: stack_inv_snoc)
    show ?thesis
    proof (cases e)
      case (Some err)
      then have "r = Inl err" "items' = items1" "w' = w1"
        using run step 4 pop Some by simp_all
      moreover have "is_open w1 k \<longleftrightarrow> is_open w k \<and> k \<notin> handles items \<or> k \<in> handles items1" for k
        using o1[of k] same[of k] h items xs(1) by auto
      ultimately show ?thesis using P(1) xs(1,3) items by auto
    next
      case None
      then have run1: "stack_loop opn close d b items1 w1 = (r, items', w')"
        using run step 4 pop None by simp
      have "length items1 < length items" using items xs(1) by simp
      from less.hyps[OF this P(1) run1] show ?thesis
        using o1 h items xs(1,3) by auto
    qed
  qed
qed

lemma stack_get_correct:
  assumes "stack_inv items w" "local_path p" "stack_get opn close p items w = (r, items', w')"
  shows "stack_inv items' w' \<and> hd items' = hd items \<and>
    (\<forall>h c. r = Inr (h, c) \<longrightarrow> c = base p \<and> is_open w' h \<and> path_of w' h = dir p) \<and>
    (\<forall>k \<in> handles items'. k \<in> handles items \<or> \<not> is_open w k) \<and>
    (\<forall>k. is_open w' k \<longleftrightarrow> is_open w k \<and> k \<notin> handles items \<or> k \<in> handles items')"
proof -
  have p: "clean_root_path p = p" "p \<noteq> []" using assms(2) by (auto simp: clean_root_path_def local_path_def clean_def)
  have d: "good_path (dir p) \<or> dir p = ''.''" by (rule dir_local_good[OF assms(2)])
  have L: "stack_loop opn close (dir p) (base p) items w = (r, items', w')"
    using assms(3) p(1) by (simp add: stack_get_def)
  note C = stack_loop_correct[OF assms(1) d L]
  have "is_open w' h \<and> path_of w' h = dir p" if "r = Inr (h, c)" for h c
  proof -
    have "last items' = (dir p, h)" "items' \<noteq> []" using C that by (auto simp: stack_inv_def)
    then have "(dir p, h) \<in> set items'" by (metis last_in_set)
    then show ?thesis using C unfolding stack_inv_def by force
  qed
  then show ?thesis using C by blast
qed

lemma stack_close_correct:
  assumes "stack_inv items w" "stack_close close e items w = (e', items', w')"
  shows "items' = [hd items] \<and> stack_inv items' w' \<and>
    (\<forall>k. is_open w' k \<longleftrightarrow> is_open w k \<and> k \<notin> handles (tl items))"
  using assms
proof (induction "length items" arbitrary: items w e rule: less_induct)
  case less
  note inv = less.prems(1) and run = less.prems(2)
  have ne: "items \<noteq> []" using inv by (simp add: stack_inv_def)
  show ?case
  proof (cases "length items > 1")
    case False
    then have "items = [hd items]" "tl items = []" using ne by (cases items; cases "tl items"; simp)+
    then show ?thesis using run inv False by (simp add: stack_close.simps[of close e items w])
  next
    case True
    obtain e1 items1 w1 where pop: "stack_pop close items w = (e1, items1, w1)" by (metis prod_cases3)
    note P = stack_pop_inv[OF inv True pop]
    obtain x xs p h where items: "items = x # xs @ [(p, h)]"
      using True by (cases items; cases "tl items" rule: rev_cases) auto
    have h: "h \<notin> handles (x # xs)" using inv stack_inv_snoc[of "x # xs"] items by simp
    have xs: "items1 = x # xs" using P(2) items by simp
    have run1: "stack_close close (if e = None then e1 else e) items1 w1 = (e', items', w')"
      using run True pop by (simp add: stack_close.simps[of close e items w])
    have "length items1 < length items" using items xs by simp
    from less.hyps[OF this P(1) run1] show ?thesis
      using P(3) items xs by (auto simp: handles_def)
  qed
qed

end

text \<open>The destination's object and the objects opened from it are such roots.\<close>

interpretation os_root: root_provider world_ok root_open root_path "open_root env" "root_close env" for env
proof unfold_locales
  fix w h name h' w'
  assume a: "world_ok w" "root_open w h" "open_root env h name w = Inr (h', w')"
  note o = open_root_ok[OF a(1,3,2)]
  show "world_ok w' \<and> \<not> root_open w h' \<and> root_path w' h' = join2 (root_path w h) name \<and>
      (\<forall>k. root_open w' k \<longleftrightarrow> k = h' \<or> root_open w k) \<and>
      (\<forall>k. root_open w k \<longrightarrow> root_path w' k = root_path w k)"
    using o by blast
next
  fix w h e w'
  assume a: "world_ok w" "root_open w h" "root_close env h w = (e, w')"
  then have "h < length (rw_roots w)" by (simp add: root_open_def)
  note c = root_close_ok[OF a(1,3) this]
  show "world_ok w' \<and> (\<forall>k. root_open w' k \<longleftrightarrow> root_open w k \<and> k \<noteq> h) \<and>
      (\<forall>k. root_open w' k \<longrightarrow> root_path w' k = root_path w k)"
    using c by blast
qed

section \<open>Properties\<close>

text \<open>A writer's use of the stack: one \<open>get\<close> for each path, whatever it returns.\<close>

fun stack_run ::
  "('h \<Rightarrow> string \<Rightarrow> 'w \<Rightarrow> ('h \<times> 'w) res) \<Rightarrow> ('h \<Rightarrow> 'w \<Rightarrow> go_error option \<times> 'w) \<Rightarrow> string list \<Rightarrow>
   'h stack_item list \<Rightarrow> 'w \<Rightarrow> 'h stack_item list \<times> 'w" where
  "stack_run opn close [] items w = (items, w)"
| "stack_run opn close (p # ps) items w =
     (case stack_get opn close p items w of (r, items, w) \<Rightarrow> stack_run opn close ps items w)"

lemma new_root_stack_inv:
  assumes "world_ok w" "root_open w r" "root_path w r = ''.''"
  shows "os_root.stack_inv (new_root_stack r) w"
  using assms by (simp add: os_root.stack_inv_def new_root_stack_def)

lemma stack_run_inv:
  assumes "os_root.stack_inv items w" "\<forall>p \<in> set ps. local_path p"
    and "stack_run (open_root env) (root_close env) ps items w = (items', w')"
  shows "os_root.stack_inv items' w' \<and> hd items' = hd items \<and>
    (\<forall>k \<in> os_root.handles items'. k \<in> os_root.handles items \<or> \<not> root_open w k) \<and>
    (\<forall>k. root_open w' k \<longleftrightarrow> root_open w k \<and> k \<notin> os_root.handles items \<or> k \<in> os_root.handles items')"
  using assms
proof (induction ps arbitrary: items w)
  case Nil
  then show ?case by (auto simp: os_root.stack_inv_def os_root.handles_def)
next
  case (Cons p ps)
  obtain r items1 w1 where g: "stack_get (open_root env) (root_close env) p items w = (r, items1, w1)"
    by (metis prod_cases3)
  note G = os_root.stack_get_correct[OF Cons.prems(1) _ g]
  have run: "stack_run (open_root env) (root_close env) ps items1 w1 = (items', w')"
    using Cons.prems(3) g by simp
  have "local_path p" using Cons.prems(2) by simp
  then have G: "os_root.stack_inv items1 w1" "hd items1 = hd items"
    "\<forall>k \<in> os_root.handles items1. k \<in> os_root.handles items \<or> \<not> root_open w k"
    "\<forall>k. root_open w1 k \<longleftrightarrow> root_open w k \<and> k \<notin> os_root.handles items \<or> k \<in> os_root.handles items1"
    using G by blast+
  have "\<forall>p \<in> set ps. local_path p" using Cons.prems(2) by simp
  from Cons.IH[OF G(1) this run] show ?case using G(2-4) by metis
qed

text \<open>C31. \<open>rootStack.get\<close> of a path below the destination, when it succeeds, returns an open handle of
  the path's directory and the path's last name, and keeps the stack in order.\<close>

theorem root_stack_get_correct:
  assumes "os_root.stack_inv items w" "local_path p"
    and "stack_get (open_root env) (root_close env) p items w = (Inr (h, b), items', w')"
  shows "root_open w' h \<and> root_path w' h = dir p \<and> b = base p \<and> os_root.stack_inv items' w'"
  using os_root.stack_get_correct[OF assms] by blast

lemma sample_local: "local_path ''a/b/c''" "local_path ''a/d''"
  by (simp_all add: local_path_iff good_path_def good_comps_def good_comp_def)

theorem root_stack_get_correct_witness:
  "\<exists>items' w'. stack_get (open_root sample_env) (root_close sample_env) ''a/b/c'' (new_root_stack 0) sample_world =
      (Inr (1, ''c''), items', w') \<and> root_open w' 1 \<and> root_path w' 1 = dir ''a/b/c''"
proof -
  let ?r = "stack_get (open_root sample_env) (root_close sample_env) ''a/b/c'' (new_root_stack 0) sample_world"
  have run: "?r = (Inr (1, ''c''), fst (snd ?r), snd (snd ?r))"
    by (simp add: stack_get_def clean_root_path_def clean_def is_abs_def dir_def split_dir_def base_def split_file_def
        new_root_stack_def stack_loop.simps root_stack_rel_def open_root_def sample_world_def sample_env_def
        os_open_dir_def new_root_def goes_up_def join2_def)
  from root_stack_get_correct[OF new_root_stack_inv[OF sample_world_ok] sample_local(1) run] run
  show ?thesis by blast
qed

text \<open>C32. The stack leaks no handle: after any calls of \<open>get\<close>, successful or not, and a \<open>Close\<close>, the
  objects that are open are those that were open before, the destination among them.\<close>

theorem root_stack_no_leak:
  assumes "world_ok w" "root_open w r" "root_path w r = ''.''" "\<forall>p \<in> set ps. local_path p"
    and "stack_run (open_root env) (root_close env) ps (new_root_stack r) w = (items, w1)"
    and "stack_close (root_close env) None items w1 = (e, items', w')"
  shows "items' = new_root_stack r \<and> (\<forall>k. root_open w' k \<longleftrightarrow> root_open w k)"
proof -
  note R = stack_run_inv[OF new_root_stack_inv[OF assms(1-3)] assms(4,5)]
  then have inv: "os_root.stack_inv items w1" by blast
  note C = os_root.stack_close_correct[OF inv assms(6)]
  have hd: "hd items = (''.'', r)" using R by (simp add: new_root_stack_def)
  then obtain xs where xs: "items = (''.'', r) # xs" using inv by (cases items) (auto simp: os_root.stack_inv_def)
  have "r \<notin> os_root.handles xs" using inv xs by (auto simp: os_root.stack_inv_def os_root.handles_def)
  moreover have "os_root.handles items = insert r (os_root.handles xs)" using xs by (simp add: os_root.handles_def)
  moreover have "os_root.handles (new_root_stack r) = {r}" by (simp add: new_root_stack_def)
  ultimately have H: "os_root.handles items = insert r (os_root.handles xs)" "r \<notin> os_root.handles xs"
    "os_root.handles (new_root_stack r) = {r}" by simp_all
  have "root_open w1 k \<longleftrightarrow> root_open w k \<or> k \<in> os_root.handles xs" for k
    using R assms(2) unfolding H by auto
  moreover have "\<not> root_open w k" if "k \<in> os_root.handles xs" for k
    using R H(2) that unfolding H(1,3) by auto
  moreover have "root_open w' k \<longleftrightarrow> root_open w1 k \<and> k \<notin> os_root.handles xs" for k
    using C xs by auto
  ultimately have "root_open w' k \<longleftrightarrow> root_open w k" for k by blast
  then show ?thesis using C hd by (simp add: new_root_stack_def)
qed

theorem root_stack_no_leak_witness:
  "\<exists>items w1 e items' w'.
     stack_run (open_root sample_env) (root_close sample_env) [''a/b/c'', ''a/d''] (new_root_stack 0) sample_world = (items, w1) \<and>
     stack_close (root_close sample_env) None items w1 = (e, items', w') \<and>
     items' = new_root_stack 0 \<and> (\<forall>k. root_open w' k \<longleftrightarrow> root_open sample_world k)"
proof -
  obtain items w1 where run: "stack_run (open_root sample_env) (root_close sample_env) [''a/b/c'', ''a/d'']
      (new_root_stack 0) sample_world = (items, w1)" by fastforce
  obtain e items' w' where cl: "stack_close (root_close sample_env) None items w1 = (e, items', w')"
    by (metis prod_cases3)
  have "\<forall>p \<in> set [''a/b/c'', ''a/d'']. local_path p" using sample_local by simp
  from root_stack_no_leak[OF sample_world_ok this run cl] run cl show ?thesis by blast
qed

end
