(* ===== verification/Root_Cache.thy ===== *)
theory Root_Cache
  imports Root_Stack "HOL-Library.AList"
begin

text \<open>
  \<open>rootcache.go\<close>: the cache of directory handles that asynchronous file writers share. Entries
  are objects, named by their index in \<open>rc_heap\<close>: an evicted entry lives on while leases refer to
  it. The LRU list holds entries, the most recently used first. Every operation holds the
  cache's mutex throughout, so an operation is one step. The order in which \<open>Close\<close> visits the
  map is an argument.

  The lemmas show, for any interleaving of operations, that a handle is open exactly while its
  entry is cached or leased, that it is closed when the last of both ends, that the map and the
  LRU list agree, and that the cache keeps within its size.
\<close>

section \<open>State\<close>

definition root_cache_default_size :: int where
  "root_cache_default_size = 128"

record 'h cache_entry =
  ce_path :: string
  ce_root :: 'h
  ce_refs :: int
  ce_evicted :: bool
  ce_elem :: bool
  ce_close_err :: "go_error option"

record 'h root_cache =
  rc_max :: int
  rc_entries :: "(string \<times> nat) list"
  rc_lru :: "nat list"
  rc_closed :: bool
  rc_heap :: "'h cache_entry list"

record 'h root_lease =
  rl_root :: 'h
  rl_base :: string
  rl_entry :: nat
  rl_released :: bool

definition new_entry :: "string \<Rightarrow> 'h \<Rightarrow> 'h cache_entry" where
  "new_entry p r = \<lparr>ce_path = p, ce_root = r, ce_refs = 0, ce_evicted = False, ce_elem = False, ce_close_err = None\<rparr>"

definition new_root_cache :: "'h \<Rightarrow> int \<Rightarrow> 'h root_cache" where
  "new_root_cache r max_size =
     \<lparr>rc_max = (if max_size \<le> 0 then root_cache_default_size else max_size),
      rc_entries = [(''.'', 0)], rc_lru = [], rc_closed = False, rc_heap = [new_entry ''.'' r]\<rparr>"

definition set_entry :: "nat \<Rightarrow> 'h cache_entry \<Rightarrow> 'h root_cache \<Rightarrow> 'h root_cache" where
  "set_entry e x c = c\<lparr>rc_heap := (rc_heap c)[e := x]\<rparr>"

section \<open>Operations\<close>

definition close_cache_entry ::
  "('h \<Rightarrow> 'w \<Rightarrow> go_error option \<times> 'w) \<Rightarrow> nat \<Rightarrow> 'h root_cache \<Rightarrow> 'w \<Rightarrow> go_error option \<times> 'h root_cache \<times> 'w" where
  "close_cache_entry close e c w =
     (let x = rc_heap c ! e in
      if ce_close_err x \<noteq> None then (ce_close_err x, c, w)
      else
        (case close (ce_root x) w of
           (None, w) \<Rightarrow> (None, c, w)
         | (Some err, w) \<Rightarrow> (Some err, set_entry e (x\<lparr>ce_close_err := Some err\<rparr>) c, w)))"

text \<open>\<open>touchLocked\<close> and \<open>lru.PushFront\<close>.\<close>

definition cache_touch :: "nat \<Rightarrow> 'h root_cache \<Rightarrow> 'h root_cache" where
  "cache_touch e c =
     (if ce_elem (rc_heap c ! e) then c\<lparr>rc_lru := e # filter (\<lambda>x. x \<noteq> e) (rc_lru c)\<rparr> else c)"

definition cache_push :: "string \<Rightarrow> 'h \<Rightarrow> 'h root_cache \<Rightarrow> nat \<times> 'h root_cache" where
  "cache_push p r c =
     (let e = length (rc_heap c)
      in (e, c\<lparr>rc_heap := rc_heap c @ [(new_entry p r)\<lparr>ce_elem := True\<rparr>], rc_lru := e # rc_lru c,
               rc_entries := AList.update p e (rc_entries c)\<rparr>))"

text \<open>Taking one entry out of the list and the map, as \<open>evictLocked\<close> and \<open>Close\<close> do.\<close>

definition cache_drop :: "nat \<Rightarrow> string \<Rightarrow> 'h root_cache \<Rightarrow> 'h root_cache" where
  "cache_drop e p c =
     (set_entry e ((rc_heap c ! e)\<lparr>ce_elem := False, ce_evicted := True\<rparr>) c)
       \<lparr>rc_lru := filter (\<lambda>x. x \<noteq> e) (rc_lru c), rc_entries := AList.delete p (rc_entries c)\<rparr>"

lemma close_cache_entry_maps:
  assumes "close_cache_entry close e c w = (err, c', w')"
  shows "rc_entries c' = rc_entries c" "rc_lru c' = rc_lru c" "rc_max c' = rc_max c" "rc_closed c' = rc_closed c"
  using assms
  by (auto simp: close_cache_entry_def set_entry_def Let_def split: if_splits option.splits prod.splits)

lemma last_filter_less: "xs \<noteq> [] \<Longrightarrow> length (filter (\<lambda>x. x \<noteq> last xs) xs) < length xs"
  by (intro length_filter_less[of "last xs"]) auto

function cache_evict ::
  "('h \<Rightarrow> 'w \<Rightarrow> go_error option \<times> 'w) \<Rightarrow> 'h root_cache \<Rightarrow> 'w \<Rightarrow> 'h root_cache \<times> 'w" where
  "cache_evict close c w =
     (if int (length (rc_entries c)) - 1 > rc_max c \<and> rc_lru c \<noteq> [] then
        let e = last (rc_lru c);
            c = cache_drop e (ce_path (rc_heap c ! e)) c
        in if ce_refs (rc_heap c ! e) = 0 then
             (case close_cache_entry close e c w of
                (err, c, w) \<Rightarrow> cache_evict close (set_entry e ((rc_heap c ! e)\<lparr>ce_close_err := err\<rparr>) c) w)
           else cache_evict close c w
      else (c, w))"
  by pat_completeness auto
termination
proof (relation "measure (\<lambda>(close, c, w). length (rc_lru c))", goal_cases)
  case 1
  show ?case by simp
next
  case 2
  then show ?case
    by (auto simp: cache_drop_def set_entry_def last_filter_less dest!: close_cache_entry_maps(2)[OF sym])
next
  case 3
  then show ?case by (auto simp: cache_drop_def set_entry_def last_filter_less)
qed

declare cache_evict.simps [simp del]

text \<open>The loop of \<open>getDirLocked\<close> over the components.\<close>

fun cache_walk ::
  "('h \<Rightarrow> string \<Rightarrow> 'w \<Rightarrow> ('h \<times> 'w) res) \<Rightarrow> ('h \<Rightarrow> 'w \<Rightarrow> go_error option \<times> 'w) \<Rightarrow> string list \<Rightarrow>
   nat \<Rightarrow> string \<Rightarrow> 'h root_cache \<Rightarrow> 'w \<Rightarrow> nat res \<times> 'h root_cache \<times> 'w" where
  "cache_walk opn close [] e p c w = (Inr e, c, w)"
| "cache_walk opn close (x # xs) e p c w =
     (let next = (if p \<noteq> ''.'' then join2 p x else x) in
      case (case map_of (rc_entries c) next of
              Some e' \<Rightarrow> if \<not> ce_evicted (rc_heap c ! e') then Some e' else None
            | None \<Rightarrow> None) of
        Some e' \<Rightarrow> cache_walk opn close xs e' next (cache_touch e' c) w
      | None \<Rightarrow>
          (case opn (ce_root (rc_heap c ! e)) x w of
             Inl err \<Rightarrow> (Inl err, c, w)
           | Inr (r, w) \<Rightarrow>
               (case cache_push next r c of
                  (e', c) \<Rightarrow>
                    (case cache_evict close c w of
                       (c, w) \<Rightarrow> cache_walk opn close xs e' next c w))))"

definition root_cache_components :: "string \<Rightarrow> string list" where
  "root_cache_components d = (if d = ''.'' then [] else split_slash d)"

definition cache_get_dir ::
  "('h \<Rightarrow> string \<Rightarrow> 'w \<Rightarrow> ('h \<times> 'w) res) \<Rightarrow> ('h \<Rightarrow> 'w \<Rightarrow> go_error option \<times> 'w) \<Rightarrow> string \<Rightarrow>
   'h root_cache \<Rightarrow> 'w \<Rightarrow> nat res \<times> 'h root_cache \<times> 'w" where
  "cache_get_dir opn close d c w =
     (case map_of (rc_entries c) ''.'' of
        None \<Rightarrow> (Inl (Panic ''nil entry''), c, w)
      | Some e \<Rightarrow>
          if d = ''.'' then (Inr e, c, w)
          else cache_walk opn close (root_cache_components d) e ''.'' c w)"

definition cache_get ::
  "('h \<Rightarrow> string \<Rightarrow> 'w \<Rightarrow> ('h \<times> 'w) res) \<Rightarrow> ('h \<Rightarrow> 'w \<Rightarrow> go_error option \<times> 'w) \<Rightarrow> string \<Rightarrow>
   'h root_cache \<Rightarrow> 'w \<Rightarrow> 'h root_lease res \<times> 'h root_cache \<times> 'w" where
  "cache_get opn close path c w =
     (let path = clean_root_path path; d = dir path; b = base path in
      if rc_closed c then (Inl (Errno EClosed), c, w)
      else
        (case cache_get_dir opn close d c w of
           (Inl err, c, w) \<Rightarrow> (Inl err, c, w)
         | (Inr e, c, w) \<Rightarrow>
             let x = rc_heap c ! e in
             (Inr \<lparr>rl_root = ce_root x, rl_base = b, rl_entry = e, rl_released = False\<rparr>,
              set_entry e (x\<lparr>ce_refs := ce_refs x + 1\<rparr>) c, w)))"

text \<open>The loop of \<open>Close\<close> over the map, in the order of the paths \<open>ps\<close>, with the error so far.\<close>

fun cache_close_loop ::
  "('h \<Rightarrow> 'w \<Rightarrow> go_error option \<times> 'w) \<Rightarrow> string list \<Rightarrow> go_error option \<Rightarrow> 'h root_cache \<Rightarrow> 'w \<Rightarrow>
   go_error option \<times> 'h root_cache \<times> 'w" where
  "cache_close_loop close [] err c w = (err, c, w)"
| "cache_close_loop close (p # ps) err c w =
     (if p = ''.'' then cache_close_loop close ps err c w
      else (case map_of (rc_entries c) p of
          None \<Rightarrow> cache_close_loop close ps err c w
        | Some e \<Rightarrow>
            let c = cache_drop e p c in
            if ce_refs (rc_heap c ! e) = 0 then
              (case close_cache_entry close e c w of
                 (err2, c, w) \<Rightarrow> cache_close_loop close ps (if err = None then err2 else err) c w)
            else cache_close_loop close ps err c w))"

definition cache_close ::
  "('h \<Rightarrow> 'w \<Rightarrow> go_error option \<times> 'w) \<Rightarrow> string list \<Rightarrow> 'h root_cache \<Rightarrow> 'w \<Rightarrow>
   go_error option \<times> 'h root_cache \<times> 'w" where
  "cache_close close ps c w = cache_close_loop close ps None (c\<lparr>rc_closed := True\<rparr>) w"

text \<open>\<open>Release\<close>, at most once for a lease.\<close>

definition lease_release ::
  "('h \<Rightarrow> 'w \<Rightarrow> go_error option \<times> 'w) \<Rightarrow> 'h root_lease \<Rightarrow> 'h root_cache \<Rightarrow> 'w \<Rightarrow>
   go_error option \<times> 'h root_lease \<times> 'h root_cache \<times> 'w" where
  "lease_release close l c w =
     (if rl_released l then (None, l, c, w)
      else
        let e = rl_entry l; x = rc_heap c ! e;
            c = set_entry e (x\<lparr>ce_refs := ce_refs x - 1\<rparr>) c; l = l\<lparr>rl_released := True\<rparr>
        in if ce_refs (rc_heap c ! e) = 0 \<and> ce_evicted (rc_heap c ! e) then
             (case close_cache_entry close e c w of (err, c, w) \<Rightarrow> (err, l, c, w))
           else (None, l, c, w))"

section \<open>The map and the list agree\<close>

definition live :: "'h root_cache \<Rightarrow> nat \<Rightarrow> bool" where
  "live c e \<longleftrightarrow> e < length (rc_heap c) \<and> \<not> ce_evicted (rc_heap c ! e)"

definition map_inv :: "'h root_cache \<Rightarrow> bool" where
  "map_inv c \<longleftrightarrow>
     live c 0 \<and> ce_path (rc_heap c ! 0) = ''.'' \<and> 0 < rc_max c \<and>
     distinct (map fst (rc_entries c)) \<and>
     (\<forall>p e. map_of (rc_entries c) p = Some e \<longleftrightarrow> live c e \<and> ce_path (rc_heap c ! e) = p) \<and>
     distinct (rc_lru c) \<and> (\<forall>e. e \<in> set (rc_lru c) \<longleftrightarrow> live c e \<and> e \<noteq> 0) \<and>
     (\<forall>e < length (rc_heap c). (ce_elem (rc_heap c ! e) \<longleftrightarrow> live c e \<and> e \<noteq> 0) \<and> 0 \<le> ce_refs (rc_heap c ! e))"

lemma map_invD:
  assumes "map_inv c"
  shows "live c 0" "ce_path (rc_heap c ! 0) = ''.''" "0 < rc_max c" "distinct (map fst (rc_entries c))"
    "map_of (rc_entries c) p = Some e \<longleftrightarrow> live c e \<and> ce_path (rc_heap c ! e) = p"
    "distinct (rc_lru c)" "e \<in> set (rc_lru c) \<longleftrightarrow> live c e \<and> e \<noteq> 0"
    "e < length (rc_heap c) \<Longrightarrow> ce_elem (rc_heap c ! e) \<longleftrightarrow> live c e \<and> e \<noteq> 0"
    "e < length (rc_heap c) \<Longrightarrow> 0 \<le> ce_refs (rc_heap c ! e)"
  using assms unfolding map_inv_def by blast+

text \<open>There is one entry in the list for each in the map but the first, so the list bounds the map.\<close>

lemma map_inv_length:
  assumes "map_inv c"
  shows "length (rc_entries c) = Suc (length (rc_lru c))"
proof -
  note M = map_invD[OF assms]
  have ent: "(p, e) \<in> set (rc_entries c) \<longleftrightarrow> live c e \<and> ce_path (rc_heap c ! e) = p" for p e
    using M(4) M(5)[of p e] by (simp add: map_of_eq_Some_iff)
  have inj: "inj_on snd (set (rc_entries c))"
    by (rule inj_onI) (metis ent prod.collapse)
  have "snd ` set (rc_entries c) = {e. live c e}"
  proof (intro equalityI subsetI)
    fix e assume "e \<in> snd ` set (rc_entries c)"
    then obtain p where "(p, e) \<in> set (rc_entries c)" by force
    then show "e \<in> {e. live c e}" using ent by simp
  next
    fix e assume "e \<in> {e. live c e}"
    then have "(ce_path (rc_heap c ! e), e) \<in> set (rc_entries c)" using ent by simp
    then show "e \<in> snd ` set (rc_entries c)" by force
  qed
  moreover have "{e. live c e} = insert 0 (set (rc_lru c))"
  proof (intro equalityI subsetI)
    fix e assume "e \<in> {e. live c e}"
    then show "e \<in> insert 0 (set (rc_lru c))" using M(7)[of e] by auto
  next
    fix e assume "e \<in> insert 0 (set (rc_lru c))"
    then show "e \<in> {e. live c e}" using M(1) M(7)[of e] by auto
  qed
  ultimately have img: "snd ` set (rc_entries c) = insert 0 (set (rc_lru c))" by simp
  have "distinct (rc_entries c)" using M(4) by (simp add: distinct_map)
  then have "length (rc_entries c) = card (set (rc_entries c))" by (simp add: distinct_card)
  also have "\<dots> = card (snd ` set (rc_entries c))" using inj by (simp add: card_image)
  also have "\<dots> = Suc (length (rc_lru c))"
    unfolding img using M(6) M(7)[of 0] by (simp add: distinct_card)
  finally show ?thesis .
qed

lemma live_closed [simp]: "live (c\<lparr>rc_closed := b\<rparr>) = live c"
  by (simp add: live_def fun_eq_iff)

lemma map_inv_closed: "map_inv (c\<lparr>rc_closed := b\<rparr>) = map_inv c"
  unfolding map_inv_def live_closed by simp

lemma map_inv_touch:
  assumes "map_inv c" "live c e"
  shows "map_inv (cache_touch e c)" "live (cache_touch e c) = live c" "rc_heap (cache_touch e c) = rc_heap c"
    "rc_max (cache_touch e c) = rc_max c" "rc_closed (cache_touch e c) = rc_closed c"
    "length (rc_lru (cache_touch e c)) = length (rc_lru c)"
    "e \<noteq> 0 \<Longrightarrow> rc_lru (cache_touch e c) \<noteq> [] \<and> hd (rc_lru (cache_touch e c)) = e"
proof -
  note M = map_invD[OF assms(1)]
  have e: "e < length (rc_heap c)" using assms(2) by (simp add: live_def)
  have T: "live (cache_touch e c) = live c" "rc_heap (cache_touch e c) = rc_heap c"
    "rc_max (cache_touch e c) = rc_max c" "rc_closed (cache_touch e c) = rc_closed c"
    "rc_entries (cache_touch e c) = rc_entries c"
    by (auto simp: cache_touch_def live_def fun_eq_iff)
  then show "live (cache_touch e c) = live c" "rc_heap (cache_touch e c) = rc_heap c"
    "rc_max (cache_touch e c) = rc_max c" "rc_closed (cache_touch e c) = rc_closed c" by blast+
  have lru: "rc_lru (cache_touch e c) = (if e \<noteq> 0 then e # filter (\<lambda>x. x \<noteq> e) (rc_lru c) else rc_lru c)"
    using M(8)[OF e] assms(2) by (simp add: cache_touch_def)
  then show "e \<noteq> 0 \<Longrightarrow> rc_lru (cache_touch e c) \<noteq> [] \<and> hd (rc_lru (cache_touch e c)) = e" by simp
  have mem: "set (rc_lru (cache_touch e c)) = set (rc_lru c)" using lru M(7)[of e] assms(2) by auto
  have dist: "distinct (rc_lru (cache_touch e c))" using lru M(6) by simp
  from mem show "length (rc_lru (cache_touch e c)) = length (rc_lru c)"
    using dist M(6) by (metis distinct_card)
  show "map_inv (cache_touch e c)"
    using assms(1) dist unfolding map_inv_def T mem by blast
qed

lemma map_inv_push:
  assumes "map_inv c" "\<nexists>e. live c e \<and> ce_path (rc_heap c ! e) = p" "cache_push p r c = (e, c')"
  shows "map_inv c'" "e = length (rc_heap c)" "e \<noteq> 0" "rc_heap c' = rc_heap c @ [(new_entry p r)\<lparr>ce_elem := True\<rparr>]"
    "live c' k \<longleftrightarrow> live c k \<or> k = e" "rc_max c' = rc_max c" "rc_closed c' = rc_closed c"
    "rc_lru c' = e # rc_lru c"
proof -
  note M = map_invD[OF assms(1)]
  have c': "e = length (rc_heap c)" "rc_heap c' = rc_heap c @ [(new_entry p r)\<lparr>ce_elem := True\<rparr>]"
    "rc_lru c' = e # rc_lru c" "rc_entries c' = AList.update p e (rc_entries c)" "rc_max c' = rc_max c"
    "rc_closed c' = rc_closed c"
    using assms(3) by (auto simp: cache_push_def Let_def)
  show "e = length (rc_heap c)" "rc_heap c' = rc_heap c @ [(new_entry p r)\<lparr>ce_elem := True\<rparr>]"
    "rc_lru c' = e # rc_lru c" "rc_max c' = rc_max c" "rc_closed c' = rc_closed c" by (rule c')+
  show e0: "e \<noteq> 0" using M(1) c'(1) by (auto simp: live_def)
  have live: "live c' k \<longleftrightarrow> live c k \<or> k = e" for k
    using c' by (auto simp: live_def nth_append new_entry_def)
  then show "live c' k \<longleftrightarrow> live c k \<or> k = e" .
  have path: "ce_path (rc_heap c' ! k) = (if k = e then p else ce_path (rc_heap c ! k))" if "live c' k" for k
    using that live c' by (auto simp: nth_append live_def new_entry_def)
  show "map_inv c'"
    unfolding map_inv_def
  proof (intro conjI allI impI)
    show "live c' 0" using M(1) live by blast
    show "ce_path (rc_heap c' ! 0) = ''.''" using M(1,2) path live e0 by auto
    show "0 < rc_max c'" using M(3) c' by simp
    show "distinct (map fst (rc_entries c'))" using M(4) c'(4) by (simp add: distinct_update)
    show "map_of (rc_entries c') q = Some k \<longleftrightarrow> live c' k \<and> ce_path (rc_heap c' ! k) = q" for q k
      using M(5)[of q k] assms(2) path[of k] live[of k] c'(1) unfolding c'(4) update_conv
      by (auto simp: live_def)
    show "distinct (rc_lru c')" using M(6) M(7)[of e] c' by (auto simp: live_def)
    show "k \<in> set (rc_lru c') \<longleftrightarrow> live c' k \<and> k \<noteq> 0" for k using M(7)[of k] c'(3) live e0 by auto
    show "ce_elem (rc_heap c' ! k) \<longleftrightarrow> live c' k \<and> k \<noteq> 0" if "k < length (rc_heap c')" for k
      using that M(8)[of k] live[of k] c'(1,2) e0 by (cases "k = e") (auto simp: nth_append)
    show "0 \<le> ce_refs (rc_heap c' ! k)" if "k < length (rc_heap c')" for k
      using that M(9)[of k] c'(1,2) by (auto simp: nth_append new_entry_def)
  qed
qed

lemma map_inv_drop:
  assumes "map_inv c" "live c e" "e \<noteq> 0"
  defines "c' \<equiv> cache_drop e (ce_path (rc_heap c ! e)) c"
  shows "map_inv c'" "live c' k \<longleftrightarrow> live c k \<and> k \<noteq> e" "rc_lru c' = filter (\<lambda>x. x \<noteq> e) (rc_lru c)"
    "rc_heap c' = (rc_heap c)[e := (rc_heap c ! e)\<lparr>ce_elem := False, ce_evicted := True\<rparr>]"
    "rc_max c' = rc_max c" "rc_closed c' = rc_closed c"
proof -
  note M = map_invD[OF assms(1)]
  let ?p = "ce_path (rc_heap c ! e)"
  have e: "e < length (rc_heap c)" using assms(2) by (simp add: live_def)
  show c': "rc_lru c' = filter (\<lambda>x. x \<noteq> e) (rc_lru c)"
    "rc_heap c' = (rc_heap c)[e := (rc_heap c ! e)\<lparr>ce_elem := False, ce_evicted := True\<rparr>]"
    "rc_max c' = rc_max c" "rc_closed c' = rc_closed c"
    by (simp_all add: c'_def cache_drop_def set_entry_def)
  have ents: "rc_entries c' = AList.delete ?p (rc_entries c)" by (simp add: c'_def cache_drop_def)
  show live: "live c' k \<longleftrightarrow> live c k \<and> k \<noteq> e" for k
    using c'(2) e by (auto simp: live_def nth_list_update)
  have path: "ce_path (rc_heap c' ! k) = ce_path (rc_heap c ! k)" "ce_refs (rc_heap c' ! k) = ce_refs (rc_heap c ! k)" for k
    using c'(2) e by (auto simp: nth_list_update)
  show "map_inv c'"
    unfolding map_inv_def
  proof (intro conjI allI impI)
    show "live c' 0" "ce_path (rc_heap c' ! 0) = ''.''" "0 < rc_max c'" using M(1,2,3) assms(3) path live c' by auto
    show "distinct (map fst (rc_entries c'))" unfolding ents using M(4) by (rule distinct_delete)
    show "map_of (rc_entries c') q = Some k \<longleftrightarrow> live c' k \<and> ce_path (rc_heap c' ! k) = q" for q k
    proof (cases "q = ?p")
      case True
      then have "\<not> (live c k \<and> k \<noteq> e \<and> ce_path (rc_heap c ! k) = q)"
        using M(5)[of q k] M(5)[of q e] assms(2) by auto
      then show ?thesis using True unfolding ents delete_conv' live path by simp
    next
      case False
      then have "k \<noteq> e" if "ce_path (rc_heap c ! k) = q" using that by auto
      then show ?thesis using False M(5)[of q k] unfolding ents delete_conv' live path by auto
    qed
    show "distinct (rc_lru c')" using M(6) c' by simp
    show "k \<in> set (rc_lru c') \<longleftrightarrow> live c' k \<and> k \<noteq> 0" for k using M(7)[of k] c'(1) live by auto
    show "ce_elem (rc_heap c' ! k) \<longleftrightarrow> live c' k \<and> k \<noteq> 0" if "k < length (rc_heap c')" for k
      using that M(8)[of k] live[of k] c'(2) e by (auto simp: nth_list_update)
    show "0 \<le> ce_refs (rc_heap c' ! k)" if "k < length (rc_heap c')" for k
      using that M(9)[of k] path(2)[of k] c'(2) by simp
  qed
qed

section \<open>Cached or leased handles are the open ones\<close>

text \<open>An entry holds its handle while it is in the map or leased.\<close>

definition holds :: "'h root_cache \<Rightarrow> nat \<Rightarrow> bool" where
  "holds c e \<longleftrightarrow> e < length (rc_heap c) \<and> (\<not> ce_evicted (rc_heap c ! e) \<or> ce_refs (rc_heap c ! e) > 0)"

lemma live_holds: "live c e \<Longrightarrow> holds c e"
  by (simp add: live_def holds_def)

abbreviation handle_of :: "'h root_cache \<Rightarrow> nat \<Rightarrow> 'h" where
  "handle_of c e \<equiv> ce_root (rc_heap c ! e)"

text \<open>What a step leaves as it is in an entry.\<close>

definition same_entry :: "'h root_cache \<Rightarrow> 'h root_cache \<Rightarrow> nat \<Rightarrow> bool" where
  "same_entry c c' e \<longleftrightarrow> handle_of c' e = handle_of c e \<and> ce_path (rc_heap c' ! e) = ce_path (rc_heap c ! e) \<and>
     ce_refs (rc_heap c' ! e) = ce_refs (rc_heap c ! e)"

lemma same_entry_refl [simp]: "same_entry c c e"
  by (simp add: same_entry_def)

lemma same_entry_trans: "same_entry a b e \<Longrightarrow> same_entry b c e \<Longrightarrow> same_entry a c e"
  by (simp add: same_entry_def)

context root_provider
begin

text \<open>
  The open handles are those of \<open>B\<close>, which others own and the first entry's handle is among, and the
  handles that entries hold, each held by one entry.
\<close>

definition handle_inv :: "'h set \<Rightarrow> 'h root_cache \<Rightarrow> 'w \<Rightarrow> bool" where
  "handle_inv B c w \<longleftrightarrow> ok w \<and> handle_of c 0 \<in> B \<and>
     (\<forall>e. holds c e \<longrightarrow> ce_close_err (rc_heap c ! e) = None \<and> is_open w (handle_of c e) \<and>
        path_of w (handle_of c e) = ce_path (rc_heap c ! e) \<and> (e \<noteq> 0 \<longrightarrow> handle_of c e \<notin> B)) \<and>
     (\<forall>e f. holds c e \<longrightarrow> holds c f \<longrightarrow> handle_of c e = handle_of c f \<longrightarrow> e = f) \<and>
     (\<forall>k. is_open w k \<longleftrightarrow> k \<in> B \<or> (\<exists>e. holds c e \<and> handle_of c e = k))"

lemma handle_invD:
  assumes "handle_inv B c w"
  shows "ok w" "handle_of c 0 \<in> B"
    "holds c e \<Longrightarrow> ce_close_err (rc_heap c ! e) = None" "holds c e \<Longrightarrow> is_open w (handle_of c e)"
    "holds c e \<Longrightarrow> path_of w (handle_of c e) = ce_path (rc_heap c ! e)"
    "holds c e \<Longrightarrow> e \<noteq> 0 \<Longrightarrow> handle_of c e \<notin> B"
    "holds c e \<Longrightarrow> holds c f \<Longrightarrow> handle_of c e = handle_of c f \<Longrightarrow> e = f"
    "is_open w k \<longleftrightarrow> k \<in> B \<or> (\<exists>e. holds c e \<and> handle_of c e = k)"
  using assms unfolding handle_inv_def by blast+

lemma handle_inv_closed: "handle_inv B (c\<lparr>rc_closed := b\<rparr>) w = handle_inv B c w"
proof -
  have "holds (c\<lparr>rc_closed := b\<rparr>) = holds c" by (simp add: holds_def fun_eq_iff)
  then show ?thesis unfolding handle_inv_def by simp
qed

lemma handle_inv_same:
  assumes "handle_inv B c w" "\<And>e. holds c' e \<longleftrightarrow> holds c e" "handle_of c' 0 = handle_of c 0"
    and "\<And>e. holds c e \<Longrightarrow> handle_of c' e = handle_of c e \<and> ce_path (rc_heap c' ! e) = ce_path (rc_heap c ! e) \<and>
      ce_close_err (rc_heap c' ! e) = ce_close_err (rc_heap c ! e)"
  shows "handle_inv B c' w"
proof -
  note H = handle_invD[OF assms(1)]
  have "is_open w k \<longleftrightarrow> k \<in> B \<or> (\<exists>e. holds c' e \<and> handle_of c' e = k)" for k
    using H(8)[of k] assms(2,4) by metis
  moreover have "e = f" if "holds c' e" "holds c' f" "handle_of c' e = handle_of c' f" for e f
    using H(7)[of e f] that assms(2,4) by metis
  ultimately show ?thesis
    unfolding handle_inv_def using H(1-6) assms(2-4) by simp
qed

text \<open>An entry stops holding its handle, which is closed.\<close>

lemma handle_inv_close:
  assumes "handle_inv B c w" "holds c e" "e \<noteq> 0" "close (handle_of c e) w = (err, w')"
    and "\<And>k. holds c' k \<longleftrightarrow> holds c k \<and> k \<noteq> e" "handle_of c' 0 = handle_of c 0"
    and "\<And>k. holds c' k \<Longrightarrow> handle_of c' k = handle_of c k \<and> ce_path (rc_heap c' ! k) = ce_path (rc_heap c ! k) \<and>
      ce_close_err (rc_heap c' ! k) = ce_close_err (rc_heap c ! k)"
  shows "handle_inv B c' w'"
proof -
  note H = handle_invD[OF assms(1)]
  from close_ok[OF H(1) H(4)[OF assms(2)] assms(4)] have C: "ok w'" "\<And>k. is_open w' k \<longleftrightarrow> is_open w k \<and> k \<noteq> handle_of c e"
    "\<And>k. is_open w' k \<Longrightarrow> path_of w' k = path_of w k" by blast+
  have other: "handle_of c k \<noteq> handle_of c e" if "holds c' k" for k
    using that assms(2,5) H(7)[of k e] by blast
  show ?thesis
    unfolding handle_inv_def
  proof (intro conjI allI impI)
    show "ok w'" by (rule C)
    show "handle_of c' 0 \<in> B" using H(2) assms(6) by simp
    fix k assume k: "holds c' k"
    then have k': "holds c k" "handle_of c' k = handle_of c k" "ce_path (rc_heap c' ! k) = ce_path (rc_heap c ! k)"
      "ce_close_err (rc_heap c' ! k) = ce_close_err (rc_heap c ! k)" using assms(5,7) by auto
    show "ce_close_err (rc_heap c' ! k) = None" using k' H(3) by simp
    show o: "is_open w' (handle_of c' k)" using k' H(4) C(2) other[OF k] by simp
    show "path_of w' (handle_of c' k) = ce_path (rc_heap c' ! k)" using C(3)[OF o] H(5)[OF k'(1)] k' by simp
    show "handle_of c' k \<notin> B" if "k \<noteq> 0" using H(6)[OF k'(1) that] k' by simp
  next
    fix k l assume "holds c' k" "holds c' l" "handle_of c' k = handle_of c' l"
    then show "k = l" using H(7)[of k l] assms(5,7) by metis
  next
    fix k
    have "handle_of c e \<notin> B" using H(6)[OF assms(2,3)] .
    moreover have "(\<exists>l. holds c' l \<and> handle_of c' l = k) \<longleftrightarrow> (\<exists>l. holds c l \<and> l \<noteq> e \<and> handle_of c l = k)"
      using assms(5,7) by metis
    ultimately show "is_open w' k \<longleftrightarrow> k \<in> B \<or> (\<exists>l. holds c' l \<and> handle_of c' l = k)"
      using C(2)[of k] H(8)[of k] other assms(5,2) H(7) by metis
  qed
qed

text \<open>A new entry for a handle just opened.\<close>

lemma handle_inv_push:
  assumes "handle_inv B c w" "opn (handle_of c f) name w = Inr (r, w')" "holds c f"
    and "path_of w' r = p" "cache_push p r c = (e, c')" "rc_heap c \<noteq> []"
  shows "handle_inv B c' w'" "holds c' e" "handle_of c' e = r"
proof -
  note H = handle_invD[OF assms(1)]
  from opn_ok[OF H(1) H(4)[OF assms(3)] assms(2)] have O: "ok w'" "\<not> is_open w r"
    "\<And>k. is_open w' k \<longleftrightarrow> k = r \<or> is_open w k" "\<And>k. is_open w k \<Longrightarrow> path_of w' k = path_of w k" by blast+
  have c': "e = length (rc_heap c)" "rc_heap c' = rc_heap c @ [(new_entry p r)\<lparr>ce_elem := True\<rparr>]"
    using assms(5) by (auto simp: cache_push_def Let_def)
  have holds: "holds c' k \<longleftrightarrow> holds c k \<or> k = e" for k
    using c' by (auto simp: holds_def nth_append new_entry_def)
  have old: "rc_heap c' ! k = rc_heap c ! k" if "holds c k" for k
    using that c' by (auto simp: holds_def nth_append)
  have new: "rc_heap c' ! e = (new_entry p r)\<lparr>ce_elem := True\<rparr>" using c' by simp
  show "holds c' e" using holds by simp
  show "handle_of c' e = r" using new by (simp add: new_entry_def)
  have ne: "k \<noteq> e" if "holds c k" for k using that c' by (auto simp: holds_def)
  have e0: "e \<noteq> 0" "handle_of c' 0 = handle_of c 0" using assms(6) c' by (simp_all add: nth_append)
  have rB: "r \<notin> B" using O(2) H(8) by blast
  show "handle_inv B c' w'"
    unfolding handle_inv_def
  proof (intro conjI allI impI)
    show "ok w'" by (rule O)
    show "handle_of c' 0 \<in> B" using H(2) e0 by simp
    fix k assume k: "holds c' k"
    show "ce_close_err (rc_heap c' ! k) = None"
      using k holds old[of k] new H(3)[of k] by (cases "k = e") (auto simp: new_entry_def)
    show "is_open w' (handle_of c' k)"
      using k holds old[of k] new H(4)[of k] O(3) by (cases "k = e") (auto simp: new_entry_def)
    show "path_of w' (handle_of c' k) = ce_path (rc_heap c' ! k)"
      using k holds old[of k] new H(4,5)[of k] O(4)[of "handle_of c k"] assms(4)
      by (cases "k = e") (auto simp: new_entry_def)
    show "handle_of c' k \<notin> B" if "k \<noteq> 0"
      using k that holds old[of k] new H(6)[of k] rB by (cases "k = e") (auto simp: new_entry_def)
  next
    fix k l assume kl: "holds c' k" "holds c' l" "handle_of c' k = handle_of c' l"
    have new_other: "handle_of c k \<noteq> r" if "holds c k" for k using H(4)[OF that] O(2) by auto
    have re: "handle_of c' e = r" using new by (simp add: new_entry_def)
    show "k = l"
      using kl holds old new_other re H(7)[of k l] ne by metis
  next
    fix k
    have re: "handle_of c' e = r" using new by (simp add: new_entry_def)
    have "(\<exists>l. holds c' l \<and> handle_of c' l = k) \<longleftrightarrow> k = r \<or> (\<exists>l. holds c l \<and> handle_of c l = k)"
      using holds old re by metis
    then show "is_open w' k \<longleftrightarrow> k \<in> B \<or> (\<exists>l. holds c' l \<and> handle_of c' l = k)"
      using O(3)[of k] H(8)[of k] by blast
  qed
qed

end

text \<open>What all steps but lease counting keep: the entries that exist, with their handles and counts.\<close>

definition cache_frame :: "'h root_cache \<Rightarrow> 'h root_cache \<Rightarrow> bool" where
  "cache_frame c c' \<longleftrightarrow> rc_max c' = rc_max c \<and> rc_closed c' = rc_closed c \<and>
     length (rc_heap c) \<le> length (rc_heap c') \<and> (\<forall>e < length (rc_heap c). same_entry c c' e) \<and>
     (\<forall>e. length (rc_heap c) \<le> e \<longrightarrow> e < length (rc_heap c') \<longrightarrow> ce_refs (rc_heap c' ! e) = 0)"

lemma cache_frame_refl [simp]: "cache_frame c c"
  by (simp add: cache_frame_def)

lemma cache_frame_trans:
  assumes "cache_frame a b" "cache_frame b c"
  shows "cache_frame a c"
proof -
  have "ce_refs (rc_heap c ! e) = 0" if "length (rc_heap a) \<le> e" "e < length (rc_heap c)" for e
    using assms that unfolding cache_frame_def same_entry_def
    by (cases "e < length (rc_heap b)") auto
  then show ?thesis
    using assms unfolding cache_frame_def by (auto intro: same_entry_trans)
qed

lemma close_cache_entry_result:
  assumes "close_cache_entry close e c w = (err, c', w')" "ce_close_err (rc_heap c ! e) = None" "e < length (rc_heap c)"
  shows "close (handle_of c e) w = (err, w')"
    "rc_heap c' = (rc_heap c)[e := (rc_heap c ! e)\<lparr>ce_close_err := err\<rparr>]"
proof -
  obtain err' w1 where cl: "close (handle_of c e) w = (err', w1)" by fastforce
  have run: "(case err' of None \<Rightarrow> (None, c, w1)
      | Some er \<Rightarrow> (Some er, set_entry e ((rc_heap c ! e)\<lparr>ce_close_err := Some er\<rparr>) c, w1)) = (err, c', w')"
    using assms(1,2) cl by (cases err'; auto simp: close_cache_entry_def Let_def)
  have "(rc_heap c)[e := (rc_heap c ! e)\<lparr>ce_close_err := None\<rparr>] = rc_heap c"
    using assms(2) by (intro list_update_same_conv[OF assms(3), THEN iffD2]) (cases "rc_heap c ! e", simp)
  then show "close (handle_of c e) w = (err, w')"
    "rc_heap c' = (rc_heap c)[e := (rc_heap c ! e)\<lparr>ce_close_err := err\<rparr>]"
    using run cl by (cases err'; auto simp: set_entry_def)+
qed

lemma map_inv_set:
  assumes "map_inv c" "rc_heap c' = (rc_heap c)[e := x]" "e < length (rc_heap c)"
    and "rc_entries c' = rc_entries c" "rc_lru c' = rc_lru c" "rc_max c' = rc_max c"
    and "ce_path x = ce_path (rc_heap c ! e)" "ce_evicted x = ce_evicted (rc_heap c ! e)"
    and "ce_elem x = ce_elem (rc_heap c ! e)" "0 \<le> ce_refs x"
  shows "map_inv c'" "live c' = live c"
proof -
  have len: "length (rc_heap c') = length (rc_heap c)" using assms(2) by simp
  have F: "ce_path (rc_heap c' ! k) = ce_path (rc_heap c ! k)" "ce_evicted (rc_heap c' ! k) = ce_evicted (rc_heap c ! k)"
    "ce_elem (rc_heap c' ! k) = ce_elem (rc_heap c ! k)" for k
    using assms(2,3,7-9) by (cases "k = e"; simp)+
  show live: "live c' = live c" using len F by (simp add: live_def fun_eq_iff)
  have "0 \<le> ce_refs (rc_heap c' ! k)" if "k < length (rc_heap c)" for k
    using map_invD(9)[OF assms(1) that] assms(2,3,10) by (cases "k = e") simp_all
  then show "map_inv c'"
    using assms(1) unfolding map_inv_def live assms(4-6) F len by blast
qed

definition path_str :: "string list \<Rightarrow> string" where
  "path_str cs = (if cs = [] then ''.'' else join_slash cs)"

lemma path_str_snoc:
  assumes "list_all good_comp cs" "good_comp x"
  shows "(if path_str cs \<noteq> ''.'' then join2 (path_str cs) x else x) = path_str (cs @ [x])"
    "join2 (path_str cs) x = path_str (cs @ [x])"
proof -
  have "join2 (path_str cs) x = path_str (cs @ [x]) \<and>
      (if path_str cs \<noteq> ''.'' then join2 (path_str cs) x else x) = path_str (cs @ [x])"
  proof (cases "cs = []")
    case True
    have "good_path x" using good_path_join[of "[x]"] assms(2) by simp
    then show ?thesis using True join2_dot by (simp add: path_str_def)
  next
    case False
    then have "good_comps cs" using assms(1) by (simp add: good_comps_def)
    then show ?thesis
      using False join2_good_good[of cs "[x]"] assms(2) good_not_dot by (simp add: path_str_def)
  qed
  then show "(if path_str cs \<noteq> ''.'' then join2 (path_str cs) x else x) = path_str (cs @ [x])"
    "join2 (path_str cs) x = path_str (cs @ [x])" by blast+
qed

definition lru_bound :: "'h root_cache \<Rightarrow> bool" where
  "lru_bound c \<longleftrightarrow> int (length (rc_lru c)) \<le> rc_max c"

lemma take_butlast_last:
  assumes "distinct xs" "xs \<noteq> []"
  shows "filter (\<lambda>x. x \<noteq> last xs) xs = butlast xs"
proof -
  have xs: "xs = butlast xs @ [last xs]" using assms(2) by simp
  then have "last xs \<notin> set (butlast xs)" using assms(1) by (metis distinct_append distinct.simps(2) not_distinct_conv_prefix)
  then have "filter (\<lambda>x. x \<noteq> last xs) (butlast xs) = butlast xs" by (intro filter_True) auto
  then have "filter (\<lambda>x. x \<noteq> last xs) (butlast xs @ [last xs]) = butlast xs" by simp
  then show ?thesis using xs by simp
qed

text \<open>Taking an entry out of the cache, and closing it if nobody leases it.\<close>

definition cache_discard ::
  "('h \<Rightarrow> 'w \<Rightarrow> go_error option \<times> 'w) \<Rightarrow> nat \<Rightarrow> 'h root_cache \<Rightarrow> 'w \<Rightarrow> go_error option \<times> 'h root_cache \<times> 'w" where
  "cache_discard close e c w =
     (let c1 = cache_drop e (ce_path (rc_heap c ! e)) c in
      if ce_refs (rc_heap c1 ! e) = 0 then close_cache_entry close e c1 w else (None, c1, w))"

context root_provider
begin

lemma cache_discard_inv:
  assumes "map_inv c" "handle_inv B c w" "live c e" "e \<noteq> 0" "cache_discard close e c w = (err, c', w')"
  shows "map_inv c'" "handle_inv B c' w'" "cache_frame c c'" "live c' k \<longleftrightarrow> live c k \<and> k \<noteq> e"
    "rc_lru c' = filter (\<lambda>x. x \<noteq> e) (rc_lru c)" "length (rc_heap c') = length (rc_heap c)"
    "ce_refs (rc_heap c ! e) = 0 \<Longrightarrow> ce_close_err (rc_heap c' ! e) = err"
proof -
  define c1 where "c1 = cache_drop e (ce_path (rc_heap c ! e)) c"
  let ?x = "(rc_heap c ! e)\<lparr>ce_elem := False, ce_evicted := True\<rparr>"
  note M = map_invD[OF assms(1)] and H = handle_invD[OF assms(2)]
  note D = map_inv_drop[OF assms(1,3,4), folded c1_def]
  have e: "e < length (rc_heap c)" using assms(3) by (simp add: live_def)
  have h: "holds c e" using assms(3) by (rule live_holds)
  have x: "rc_heap c1 ! e = ?x" using D(4) e by simp
  have old: "rc_heap c1 ! k = rc_heap c ! k" if "k \<noteq> e" for k using D(4) that by simp
  have run: "(if ce_refs (rc_heap c ! e) = 0 then close_cache_entry close e c1 w else (None, c1, w)) = (err, c', w')"
    using assms(5) unfolding cache_discard_def Let_def c1_def[symmetric] x by simp
  have "same_entry c c1 k" for k using old[of k] x by (cases "k = e") (simp_all add: same_entry_def)
  then have frame1: "cache_frame c c1" using D(4-6) by (simp add: cache_frame_def)
  have "map_inv c' \<and> handle_inv B c' w' \<and> cache_frame c c' \<and> (\<forall>k. live c' k \<longleftrightarrow> live c k \<and> k \<noteq> e) \<and>
    rc_lru c' = filter (\<lambda>x. x \<noteq> e) (rc_lru c) \<and> length (rc_heap c') = length (rc_heap c) \<and>
    (ce_refs (rc_heap c ! e) = 0 \<longrightarrow> ce_close_err (rc_heap c' ! e) = err)"
  proof (cases "ce_refs (rc_heap c ! e) = 0")
    case False
    then have c': "c' = c1" "w' = w" "0 < ce_refs (rc_heap c ! e)" using run M(9)[OF e] by simp_all
    have "holds c1 k \<longleftrightarrow> holds c k" for k
      using old[of k] x D(4) e c'(3) by (cases "k = e") (simp_all add: holds_def)
    then have "handle_inv B c1 w"
    proof (rule handle_inv_same[OF assms(2)])
      show "handle_of c1 0 = handle_of c 0" using old[of 0] assms(4) by simp
      show "handle_of c1 k = handle_of c k \<and> ce_path (rc_heap c1 ! k) = ce_path (rc_heap c ! k) \<and>
          ce_close_err (rc_heap c1 ! k) = ce_close_err (rc_heap c ! k)" for k
        using old[of k] x by (cases "k = e") simp_all
    qed
    then show ?thesis using D frame1 c' False by simp
  next
    case True
    have cl: "close_cache_entry close e c1 w = (err, c', w')" using run True by simp
    have "ce_close_err (rc_heap c1 ! e) = None" "e < length (rc_heap c1)" using x H(3)[OF h] D(4) e by simp_all
    note R = close_cache_entry_result[OF cl this] and P = close_cache_entry_maps[OF cl]
    have x': "rc_heap c' ! e = ?x\<lparr>ce_close_err := err\<rparr>" using R(2) x D(4) e by simp
    have old': "rc_heap c' ! k = rc_heap c ! k" if "k \<noteq> e" for k using R(2) old[OF that] that by simp
    have len: "length (rc_heap c') = length (rc_heap c)" using R(2) D(4) by simp
    have "map_inv c'" "live c' = live c1"
      by (rule map_inv_set[OF D(1) R(2) _ P(1-3)]; use D(4) e M(9)[OF e] x in simp)+
    moreover have "close (handle_of c e) w = (err, w')" using R(1) x by simp
    then have "handle_inv B c' w'"
    proof (rule handle_inv_close[OF assms(2) h assms(4)])
      show "holds c' k \<longleftrightarrow> holds c k \<and> k \<noteq> e" for k
        using old'[of k] x' len True by (cases "k = e") (simp_all add: holds_def)
      show "handle_of c' 0 = handle_of c 0" using old'[of 0] assms(4) by simp
      show "handle_of c' k = handle_of c k \<and> ce_path (rc_heap c' ! k) = ce_path (rc_heap c ! k) \<and>
          ce_close_err (rc_heap c' ! k) = ce_close_err (rc_heap c ! k)" if "holds c' k" for k
        using that old'[of k] x' True by (cases "k = e") (simp_all add: holds_def)
    qed
    moreover have "same_entry c c' k" for k using old'[of k] x' by (cases "k = e") (simp_all add: same_entry_def)
    then have "cache_frame c c'" using P D len by (simp add: cache_frame_def)
    ultimately show ?thesis using D P len x' by simp
  qed
  then show "map_inv c'" "handle_inv B c' w'" "cache_frame c c'" "live c' k \<longleftrightarrow> live c k \<and> k \<noteq> e"
    "rc_lru c' = filter (\<lambda>x. x \<noteq> e) (rc_lru c)" "length (rc_heap c') = length (rc_heap c)"
    "ce_refs (rc_heap c ! e) = 0 \<Longrightarrow> ce_close_err (rc_heap c' ! e) = err"
    by blast+
qed

lemma cache_evict_discard:
  assumes "map_inv c" "handle_inv B c w" "int (length (rc_entries c)) - 1 > rc_max c" "rc_lru c \<noteq> []"
    and "cache_discard close (last (rc_lru c)) c w = (err, c1, w1)"
  shows "cache_evict close c w = cache_evict close c1 w1"
proof -
  define e where "e = last (rc_lru c)"
  have "e \<in> set (rc_lru c)" using assms(4) e_def by simp
  then have e: "live c e" "e \<noteq> 0" using map_invD(7)[OF assms(1)] by blast+
  note D = cache_discard_inv[OF assms(1,2) e assms(5)[folded e_def]]
  have len: "e < length (rc_heap c)" using e(1) by (simp add: live_def)
  define c0 where "c0 = cache_drop e (ce_path (rc_heap c ! e)) c"
  have c0: "ce_refs (rc_heap c0 ! e) = ce_refs (rc_heap c ! e)"
    using len by (simp add: c0_def cache_drop_def set_entry_def)
  have cond: "rc_max c < int (length (rc_entries c)) - 1 \<and> rc_lru c \<noteq> []" using assms(3,4) by simp
  have step: "cache_evict close c w =
      (if ce_refs (rc_heap c0 ! e) = 0 then
         (case close_cache_entry close e c0 w of
            (err, c, w) \<Rightarrow> cache_evict close (set_entry e ((rc_heap c ! e)\<lparr>ce_close_err := err\<rparr>) c) w)
       else cache_evict close c0 w)"
    unfolding cache_evict.simps[of close c w] Let_def e_def[symmetric] c0_def[symmetric] using cond by (rule if_P)
  have d: "(if ce_refs (rc_heap c0 ! e) = 0 then close_cache_entry close e c0 w else (None, c0, w)) = (err, c1, w1)"
    using assms(5) unfolding cache_discard_def Let_def e_def[symmetric] c0_def[symmetric] .
  show ?thesis
  proof (cases "ce_refs (rc_heap c0 ! e) = 0")
    case True
    have "ce_close_err (rc_heap c1 ! e) = err" using D(7) True c0 by simp
    then have "(rc_heap c1 ! e)\<lparr>ce_close_err := err\<rparr> = rc_heap c1 ! e" by (cases "rc_heap c1 ! e") simp
    then have "set_entry e ((rc_heap c1 ! e)\<lparr>ce_close_err := err\<rparr>) c1 = c1" by (simp add: set_entry_def)
    then show ?thesis using step d True by simp
  next
    case False
    then show ?thesis using step d by simp
  qed
qed

lemma cache_evict_inv:
  assumes "map_inv c" "handle_inv B c w" "cache_evict close c w = (c', w')"
  shows "map_inv c' \<and> handle_inv B c' w' \<and> cache_frame c c' \<and> rc_lru c' = take (nat (rc_max c)) (rc_lru c) \<and>
    length (rc_heap c') = length (rc_heap c)"
  using assms
proof (induction "length (rc_lru c)" arbitrary: c w rule: less_induct)
  case less
  note M = map_invD[OF less.prems(1)] and L = map_inv_length[OF less.prems(1)]
  show ?case
  proof (cases "int (length (rc_entries c)) - 1 > rc_max c \<and> rc_lru c \<noteq> []")
    case False
    then have "c' = c" "w' = w" using less.prems(3) by (auto simp: cache_evict.simps[of close c w])
    moreover have "rc_lru c = take (nat (rc_max c)) (rc_lru c)" using False L M(3) by auto
    ultimately show ?thesis using less.prems by simp
  next
    case True
    define e where "e = last (rc_lru c)"
    obtain err c1 w1 where d: "cache_discard close e c w = (err, c1, w1)" by (metis prod_cases3)
    have "e \<in> set (rc_lru c)" using True e_def by simp
    then have e: "live c e" "e \<noteq> 0" using M(7) by blast+
    note D = cache_discard_inv[OF less.prems(1,2) e d]
    have lru: "rc_lru c1 = butlast (rc_lru c)"
      using D(5) take_butlast_last[OF M(6)] True unfolding e_def by simp
    have run: "cache_evict close c1 w1 = (c', w')"
      using cache_evict_discard[OF less.prems(1,2) _ _ d[unfolded e_def]] True less.prems(3) by simp
    have "length (rc_lru c1) < length (rc_lru c)" using lru True by (cases "rc_lru c") auto
    from less.hyps[OF this D(1,2) run] have R: "map_inv c'" "handle_inv B c' w'" "cache_frame c1 c'"
      "rc_lru c' = take (nat (rc_max c1)) (rc_lru c1)" "length (rc_heap c') = length (rc_heap c1)" by blast+
    have "rc_max c1 = rc_max c" using D(3) by (simp add: cache_frame_def)
    moreover have "nat (rc_max c) \<le> length (rc_lru c) - 1" using True L by linarith
    ultimately have "rc_lru c' = take (nat (rc_max c)) (rc_lru c)"
      using R(4) lru by (simp add: butlast_conv_take min_def)
    then show ?thesis using R D(6) cache_frame_trans[OF D(3) R(3)] by simp
  qed
qed

lemma cache_walk_inv:
  assumes "map_inv c" "handle_inv B c w" "lru_bound c" "live c e" "ce_path (rc_heap c ! e) = path_str cs"
    and "list_all good_comp cs" "list_all good_comp xs" "cache_walk opn close xs e (path_str cs) c w = (r, c', w')"
  shows "map_inv c' \<and> handle_inv B c' w' \<and> lru_bound c' \<and> cache_frame c c' \<and>
    (\<forall>e'. r = Inr e' \<longrightarrow> live c' e' \<and> ce_path (rc_heap c' ! e') = path_str (cs @ xs))"
  using assms
proof (induction xs arbitrary: cs e c w)
  case Nil
  then show ?case by auto
next
  case (Cons x xs)
  note M = map_invD[OF Cons.prems(1)]
  have x: "good_comp x" "list_all good_comp xs" "list_all good_comp (cs @ [x])" using Cons.prems(6,7) by simp_all
  define nxt where "nxt = path_str (cs @ [x])"
  note nx = path_str_snoc[OF Cons.prems(6) x(1), folded nxt_def]
  define hit where "hit = (case map_of (rc_entries c) nxt of
      Some e' \<Rightarrow> if \<not> ce_evicted (rc_heap c ! e') then Some e' else None | None \<Rightarrow> None)"
  have run: "(case hit of
        Some e' \<Rightarrow> cache_walk opn close xs e' nxt (cache_touch e' c) w
      | None \<Rightarrow>
          (case opn (ce_root (rc_heap c ! e)) x w of
             Inl err \<Rightarrow> (Inl err, c, w)
           | Inr (r, w) \<Rightarrow>
               (case cache_push nxt r c of
                  (e', c) \<Rightarrow>
                    (case cache_evict close c w of
                       (c, w) \<Rightarrow> cache_walk opn close xs e' nxt c w)))) = (r, c', w')"
    using Cons.prems(8) unfolding cache_walk.simps Let_def nx(1) hit_def .
  show ?case
  proof (cases hit)
    case (Some e')
    then have "map_of (rc_entries c) nxt = Some e'" by (auto simp: hit_def split: option.splits if_splits)
    then have e': "live c e'" "ce_path (rc_heap c ! e') = nxt" using M(5) by blast+
    note T = map_inv_touch[OF Cons.prems(1) e'(1)]
    let ?c = "cache_touch e' c"
    have "holds ?c k \<longleftrightarrow> holds c k" for k using T(3) by (simp add: holds_def)
    then have "handle_inv B ?c w" by (rule handle_inv_same[OF Cons.prems(2)]) (simp_all add: T(3))
    moreover have "lru_bound ?c" using Cons.prems(3) T(4,6) by (simp add: lru_bound_def)
    moreover have "live ?c e'" "ce_path (rc_heap ?c ! e') = path_str (cs @ [x])" using e' T(2,3) nxt_def by simp_all
    moreover have "cache_walk opn close xs e' (path_str (cs @ [x])) ?c w = (r, c', w')"
      using run Some nxt_def by simp
    ultimately have R: "map_inv c' \<and> handle_inv B c' w' \<and> lru_bound c' \<and> cache_frame ?c c' \<and>
        (\<forall>e'. r = Inr e' \<longrightarrow> live c' e' \<and> ce_path (rc_heap c' ! e') = path_str ((cs @ [x]) @ xs))"
      using T(1) x(2,3) by (intro Cons.IH)
    have "cache_frame c ?c" using T(3-5) by (simp add: cache_frame_def same_entry_def)
    then show ?thesis using R cache_frame_trans by auto
  next
    case None
    have no: "\<nexists>e'. live c e' \<and> ce_path (rc_heap c ! e') = nxt"
    proof
      assume "\<exists>e'. live c e' \<and> ce_path (rc_heap c ! e') = nxt"
      then obtain e' where e': "live c e'" "ce_path (rc_heap c ! e') = nxt" by blast
      then have "map_of (rc_entries c) nxt = Some e'" using M(5) by blast
      then show False using None e'(1) by (simp add: hit_def live_def)
    qed
    show ?thesis
    proof (cases "opn (handle_of c e) x w")
      case (Inl err)
      then have "r = Inl err" "c' = c" "w' = w" using run None by simp_all
      then show ?thesis using Cons.prems by simp
    next
      case (Inr hw)
      obtain h w1 where hw: "hw = (h, w1)" by fastforce
      obtain e1 c1 where p: "cache_push nxt h c = (e1, c1)" by fastforce
      obtain c2 w2 where ev: "cache_evict close c1 w1 = (c2, w2)" by fastforce
      have run2: "cache_walk opn close xs e1 nxt c2 w2 = (r, c', w')"
        using run None Inr hw p ev by simp
      have he: "holds c e" using Cons.prems(4) by (rule live_holds)
      note H = handle_invD[OF Cons.prems(2)]
      have "path_of w1 h = join2 (path_of w (handle_of c e)) x"
        using opn_ok[OF H(1) H(4)[OF he] Inr[unfolded hw]] by blast
      then have pth: "path_of w1 h = nxt" using H(5)[OF he] Cons.prems(5) nx(2) by simp
      note P = map_inv_push[OF Cons.prems(1) no p]
      have "rc_heap c \<noteq> []" using M(1) by (auto simp: live_def)
      note HP = handle_inv_push[OF Cons.prems(2) Inr[unfolded hw] he pth p this]
      note E = cache_evict_inv[OF P(1) HP(1) ev]
      have "same_entry c c1 k" if "k < length (rc_heap c)" for k
        using P(4) that by (simp add: same_entry_def nth_append)
      then have "cache_frame c c1"
        using P(2,4,6,7) by (auto simp: cache_frame_def nth_append new_entry_def)
      then have frame: "cache_frame c c2" using E cache_frame_trans by blast
      have max: "rc_max c1 = rc_max c" "0 < rc_max c" "rc_max c2 = rc_max c" using P(6) M(3) E by (auto simp: cache_frame_def)
      then have "e1 \<in> set (rc_lru c2)" using E P(8) by (cases "nat (rc_max c)") auto
      then have l: "live c2 e1" using map_invD(7)[of c2 e1] E by blast
      have b: "lru_bound c2" using E P(8) max by (simp add: lru_bound_def)
      have "e1 < length (rc_heap c1)" using P(2,4) by simp
      then have "ce_path (rc_heap c2 ! e1) = path_str (cs @ [x])"
        using E P(2,4) nxt_def by (simp add: cache_frame_def same_entry_def new_entry_def)
      then have R: "map_inv c' \<and> handle_inv B c' w' \<and> lru_bound c' \<and> cache_frame c2 c' \<and>
        (\<forall>e'. r = Inr e' \<longrightarrow> live c' e' \<and> ce_path (rc_heap c' ! e') = path_str ((cs @ [x]) @ xs))"
        using E b l x(2,3) run2 nxt_def by (intro Cons.IH) auto
      then show ?thesis using frame cache_frame_trans by auto
    qed
  qed
qed

text \<open>A successful \<open>get\<close>: the lease is for the directory of the path, and one more is counted.\<close>

lemma cache_get_inv:
  assumes "map_inv c" "handle_inv B c w" "lru_bound c" "local_path p" "cache_get opn close p c w = (r, c', w')"
  shows "map_inv c' \<and> handle_inv B c' w' \<and> lru_bound c' \<and>
    (case r of
       Inl err \<Rightarrow> cache_frame c c'
     | Inr l \<Rightarrow> \<not> rc_closed c \<and> rl_base l = base p \<and> \<not> rl_released l \<and> rl_root l = handle_of c' (rl_entry l) \<and>
         live c' (rl_entry l) \<and> ce_path (rc_heap c' ! rl_entry l) = dir p \<and>
         (\<exists>c1. cache_frame c c1 \<and>
            c' = set_entry (rl_entry l) ((rc_heap c1 ! rl_entry l)\<lparr>ce_refs := ce_refs (rc_heap c1 ! rl_entry l) + 1\<rparr>) c1))"
proof (cases "rc_closed c")
  case True
  then show ?thesis using assms by (auto simp: cache_get_def Let_def)
next
  case False
  have p: "clean_root_path p = p" using assms(4) by (auto simp: clean_root_path_def local_path_def clean_def)
  obtain re c1 w1 where g: "cache_get_dir opn close (dir p) c w = (re, c1, w1)" by (metis prod_cases3)
  note M = map_invD[OF assms(1)]
  have root: "map_of (rc_entries c) ''.'' = Some 0" using M(1,2,5) by blast
  have W: "map_inv c1 \<and> handle_inv B c1 w1 \<and> lru_bound c1 \<and> cache_frame c c1 \<and>
    (\<forall>e. re = Inr e \<longrightarrow> live c1 e \<and> ce_path (rc_heap c1 ! e) = dir p)"
  proof (cases "dir p = ''.''")
    case True
    then show ?thesis using g assms(1-3) root M(1,2) by (auto simp: cache_get_dir_def)
  next
    case dp: False
    then obtain ds where ds: "good_comps ds" "dir p = join_slash ds"
      using dir_local_good[OF assms(4)] by (auto elim: good_pathE)
    have "cache_walk opn close ds 0 (path_str []) c w = (re, c1, w1)"
      using g root dp ds split_join_good by (simp add: cache_get_dir_def root_cache_components_def path_str_def)
    from cache_walk_inv[OF assms(1-3) M(1) _ _ _ this] show ?thesis
      using M(2) ds by (simp add: path_str_def good_comps_def)
  qed
  show ?thesis
  proof (cases re)
    case (Inl err)
    then have "r = Inl err" "c' = c1" "w' = w1" using assms(5) p False g by (simp_all add: cache_get_def Let_def)
    then show ?thesis using W by simp
  next
    case (Inr e)
    let ?x = "(rc_heap c1 ! e)\<lparr>ce_refs := ce_refs (rc_heap c1 ! e) + 1\<rparr>"
    have r: "r = Inr \<lparr>rl_root = handle_of c1 e, rl_base = base p, rl_entry = e, rl_released = False\<rparr>"
      "c' = set_entry e ?x c1" "w' = w1"
      using assms(5) p False g Inr by (simp_all add: cache_get_def Let_def)
    have e: "live c1 e" "ce_path (rc_heap c1 ! e) = dir p" "e < length (rc_heap c1)" using W Inr by (auto simp: live_def)
    have heap: "rc_heap c' = (rc_heap c1)[e := ?x]" "rc_entries c' = rc_entries c1" "rc_lru c' = rc_lru c1" "rc_max c' = rc_max c1"
      using r(2) by (simp_all add: set_entry_def)
    have I: "map_inv c'" "live c' = live c1"
      using W map_invD(9)[of c1 e] e by (intro map_inv_set[OF _ heap(1) _ heap(2-4)]; simp)+
    have old: "rc_heap c' ! k = rc_heap c1 ! k" if "k \<noteq> e" for k using heap that by simp
    have new: "rc_heap c' ! e = ?x" using heap e by simp
    have "handle_inv B c' w1"
    proof (rule handle_inv_same)
      show "handle_inv B c1 w1" using W by blast
      show "holds c' k \<longleftrightarrow> holds c1 k" for k
        using old[of k] new e heap(1) by (cases "k = e") (auto simp: holds_def live_def)
      show "handle_of c' 0 = handle_of c1 0" using old[of 0] new by (cases "e = 0") simp_all
      show "handle_of c' k = handle_of c1 k \<and> ce_path (rc_heap c' ! k) = ce_path (rc_heap c1 ! k) \<and>
          ce_close_err (rc_heap c' ! k) = ce_close_err (rc_heap c1 ! k)" for k
        using old[of k] new by (cases "k = e") simp_all
    qed
    moreover have "lru_bound c'" using W heap by (simp add: lru_bound_def)
    ultimately show ?thesis using I W e new r False by auto
  qed
qed

lemma cache_close_loop_discard:
  assumes "map_inv c" "p \<noteq> ''.''" "map_of (rc_entries c) p = Some e"
  shows "cache_close_loop close (p # ps) err c w =
    (case cache_discard close e c w of
       (err2, c, w) \<Rightarrow> cache_close_loop close ps (if err = None then err2 else err) c w)"
proof -
  have "ce_path (rc_heap c ! e) = p" using map_invD(5)[OF assms(1)] assms(3) by blast
  then show ?thesis
    using assms(2,3) by (cases err) (simp_all add: cache_discard_def Let_def)
qed

lemma cache_close_loop_inv:
  assumes "map_inv c" "handle_inv B c w" "lru_bound c" "cache_close_loop close ps err c w = (err', c', w')"
  shows "map_inv c' \<and> handle_inv B c' w' \<and> lru_bound c' \<and> cache_frame c c' \<and> length (rc_heap c') = length (rc_heap c) \<and>
    (\<forall>e. live c' e \<longrightarrow> live c e \<and> (e = 0 \<or> ce_path (rc_heap c ! e) \<notin> set ps))"
  using assms
proof (induction ps arbitrary: err c w)
  case Nil
  then show ?case by auto
next
  case (Cons p ps)
  note M = map_invD[OF Cons.prems(1)]
  have dot: "e = 0" if "live c e" "ce_path (rc_heap c ! e) = ''.''" for e
    using that M(1,2) M(5)[of "''.''" e] M(5)[of "''.''" 0] by auto
  show ?case
  proof (cases "p = ''.'' \<or> map_of (rc_entries c) p = None")
    case True
    then have run: "cache_close_loop close ps err c w = (err', c', w')"
      using Cons.prems(4) by (cases "p = ''.''") simp_all
    have "e = 0" if "live c e" "ce_path (rc_heap c ! e) = p" for e
      using True that dot M(5)[of p e] by auto
    then show ?thesis using Cons.IH[OF Cons.prems(1-3) run] by auto
  next
    case False
    then obtain e where p: "p \<noteq> ''.''" "map_of (rc_entries c) p = Some e" by auto
    then have e: "live c e" "ce_path (rc_heap c ! e) = p" using M(5) by blast+
    then have e0: "e \<noteq> 0" using p(1) M(2) by (cases "e = 0") auto
    obtain err2 c1 w1 where d: "cache_discard close e c w = (err2, c1, w1)" by (metis prod_cases3)
    note D = cache_discard_inv[OF Cons.prems(1,2) e(1) e0 d]
    have run: "cache_close_loop close ps (if err = None then err2 else err) c1 w1 = (err', c', w')"
      using Cons.prems(4) unfolding cache_close_loop_discard[OF Cons.prems(1) p] d by simp
    have "length (filter (\<lambda>x. x \<noteq> e) (rc_lru c)) \<le> length (rc_lru c)" by (rule length_filter_le)
    moreover have "rc_max c1 = rc_max c" using D(3) by (simp add: cache_frame_def)
    ultimately have "lru_bound c1" using Cons.prems(3) unfolding lru_bound_def D(5) by linarith
    note R = Cons.IH[OF D(1,2) this run]
    have "live c k \<and> (k = 0 \<or> ce_path (rc_heap c ! k) \<notin> set (p # ps))" if "live c' k" for k
    proof -
      have k: "live c1 k" "k = 0 \<or> ce_path (rc_heap c1 ! k) \<notin> set ps" using R that by blast+
      then have lk: "live c k" "k \<noteq> e" using D(4) by blast+
      then have "ce_path (rc_heap c1 ! k) = ce_path (rc_heap c ! k)"
        using D(3) by (simp add: cache_frame_def same_entry_def live_def)
      moreover have "ce_path (rc_heap c ! k) \<noteq> p" using lk e M(5)[of p k] p(2) by auto
      ultimately show ?thesis using k lk by simp
    qed
    then show ?thesis using R D(6) cache_frame_trans[OF D(3)] by auto
  qed
qed

text \<open>The first \<open>Release\<close> of a lease counts it off; the last one of an evicted entry closes its handle.\<close>

lemma lease_release_inv:
  assumes "map_inv c" "handle_inv B c w" "lru_bound c" "\<not> rl_released l" "rl_entry l < length (rc_heap c)"
    and "0 < ce_refs (rc_heap c ! rl_entry l)" "lease_release close l c w = (err, l', c', w')"
  shows "map_inv c' \<and> handle_inv B c' w' \<and> lru_bound c' \<and> l' = l\<lparr>rl_released := True\<rparr> \<and>
    rc_closed c' = rc_closed c \<and> rc_max c' = rc_max c \<and> length (rc_heap c') = length (rc_heap c) \<and> live c' = live c \<and>
    (\<forall>k. handle_of c' k = handle_of c k \<and> ce_path (rc_heap c' ! k) = ce_path (rc_heap c ! k)) \<and>
    (\<forall>k. ce_refs (rc_heap c' ! k) = ce_refs (rc_heap c ! k) - (if k = rl_entry l then 1 else 0))"
proof -
  define e where "e = rl_entry l"
  define x where "x = (rc_heap c ! e)\<lparr>ce_refs := ce_refs (rc_heap c ! e) - 1\<rparr>"
  define c1 where "c1 = set_entry e x c"
  have e: "e < length (rc_heap c)" "0 < ce_refs (rc_heap c ! e)" using assms(5,6) by (simp_all add: e_def)
  note M = map_invD[OF assms(1)] and H = handle_invD[OF assms(2)]
  have heap1: "rc_heap c1 = (rc_heap c)[e := x]" "rc_entries c1 = rc_entries c" "rc_lru c1 = rc_lru c"
    "rc_max c1 = rc_max c" "rc_closed c1 = rc_closed c"
    by (simp_all add: c1_def set_entry_def)
  have old: "rc_heap c1 ! k = rc_heap c ! k" if "k \<noteq> e" for k using that heap1(1) by simp
  have new: "rc_heap c1 ! e = x" using heap1(1) e(1) by simp
  have I1: "map_inv c1" "live c1 = live c"
    using e by (intro map_inv_set[OF assms(1) heap1(1) e(1) heap1(2-4)]; simp add: x_def)+
  have he: "holds c e" using e by (simp add: holds_def)
  have run: "(if ce_refs x = 0 \<and> ce_evicted x then
      (case close_cache_entry close e c1 w of (err, c, w) \<Rightarrow> (err, l\<lparr>rl_released := True\<rparr>, c, w))
    else (None, l\<lparr>rl_released := True\<rparr>, c1, w)) = (err, l', c', w')"
    using assms(7) assms(4) new
    unfolding lease_release_def Let_def e_def[symmetric] x_def[symmetric] c1_def[symmetric] by simp
  show ?thesis
  proof (cases "ce_refs x = 0 \<and> ce_evicted x")
    case False
    then have c': "c' = c1" "w' = w" "l' = l\<lparr>rl_released := True\<rparr>" using run by auto
    have "handle_inv B c1 w"
    proof (rule handle_inv_same[OF assms(2)])
      have "ce_evicted x = ce_evicted (rc_heap c ! e)" by (simp add: x_def)
      moreover have "0 \<le> ce_refs x" using e by (simp add: x_def)
      ultimately show "holds c1 k \<longleftrightarrow> holds c k" for k
        using old[of k] new heap1(1) False he by (cases "k = e") (auto simp: holds_def)
      show "handle_of c1 0 = handle_of c 0" using old[of 0] new by (cases "e = 0") (simp_all add: x_def)
      show "handle_of c1 k = handle_of c k \<and> ce_path (rc_heap c1 ! k) = ce_path (rc_heap c ! k) \<and>
          ce_close_err (rc_heap c1 ! k) = ce_close_err (rc_heap c ! k)" for k
        using old[of k] new by (cases "k = e") (simp_all add: x_def)
    qed
    moreover have "handle_of c1 k = handle_of c k \<and> ce_path (rc_heap c1 ! k) = ce_path (rc_heap c ! k) \<and>
        ce_refs (rc_heap c1 ! k) = ce_refs (rc_heap c ! k) - (if k = e then 1 else 0)" for k
      using old[of k] new by (cases "k = e") (simp_all add: x_def)
    ultimately show ?thesis
      using I1 assms(3) heap1 c' by (simp add: lru_bound_def e_def[symmetric])
  next
    case True
    obtain er c2 w2 where cl: "close_cache_entry close e c1 w = (er, c2, w2)" by (metis prod_cases3)
    have c': "c' = c2" "w' = w2" "l' = l\<lparr>rl_released := True\<rparr>" using run True cl by simp_all
    have "ce_close_err (rc_heap c1 ! e) = None" "e < length (rc_heap c1)"
      using new H(3)[OF he] heap1(1) e by (simp_all add: x_def)
    note R = close_cache_entry_result[OF cl this] and P = close_cache_entry_maps[OF cl]
    have len: "length (rc_heap c2) = length (rc_heap c)" using R(2) heap1(1) by simp
    have old2: "rc_heap c2 ! k = rc_heap c ! k" if "k \<noteq> e" for k using R(2) old[OF that] that by simp
    have new2: "rc_heap c2 ! e = x\<lparr>ce_close_err := er\<rparr>" using R(2) heap1(1) new e by simp
    have I2: "map_inv c2" "live c2 = live c1"
      using True new e heap1(1) by (intro map_inv_set[OF I1(1) R(2) _ P(1-3)]; simp)+
    have e0: "e \<noteq> 0" using True M(1) by (cases "e = 0") (auto simp: x_def live_def)
    have "close (handle_of c e) w = (er, w2)" using R(1) new by (simp add: x_def)
    then have "handle_inv B c2 w2"
    proof (rule handle_inv_close[OF assms(2) he e0])
      show "holds c2 k \<longleftrightarrow> holds c k \<and> k \<noteq> e" for k
        using old2[of k] new2 len True by (cases "k = e") (simp_all add: holds_def)
      show "handle_of c2 0 = handle_of c 0" using old2[of 0] e0 by simp
      show "handle_of c2 k = handle_of c k \<and> ce_path (rc_heap c2 ! k) = ce_path (rc_heap c ! k) \<and>
          ce_close_err (rc_heap c2 ! k) = ce_close_err (rc_heap c ! k)" if "holds c2 k" for k
        using that old2[of k] new2 True by (cases "k = e") (simp_all add: holds_def)
    qed
    moreover have "handle_of c2 k = handle_of c k \<and> ce_path (rc_heap c2 ! k) = ce_path (rc_heap c ! k) \<and>
        ce_refs (rc_heap c2 ! k) = ce_refs (rc_heap c ! k) - (if k = e then 1 else 0)" for k
      using old2[of k] new2 by (cases "k = e") (simp_all add: x_def)
    ultimately show ?thesis
      using I1 I2 assms(3) heap1 P len c' by (simp add: lru_bound_def e_def[symmetric])
  qed
qed

end

section \<open>Any sequence of operations\<close>

text \<open>
  The file writers' use of one cache: the leases handed out so far, the cache, and the operations in
  the order in which they take the mutex.
\<close>

datatype cache_op = GetOp string | ReleaseOp nat | CloseOp "string list"

fun cache_step ::
  "('h \<Rightarrow> string \<Rightarrow> 'w \<Rightarrow> ('h \<times> 'w) res) \<Rightarrow> ('h \<Rightarrow> 'w \<Rightarrow> go_error option \<times> 'w) \<Rightarrow> cache_op \<Rightarrow>
   'h root_lease list \<times> 'h root_cache \<times> 'w \<Rightarrow> 'h root_lease list \<times> 'h root_cache \<times> 'w" where
  "cache_step opn close (GetOp p) (ls, c, w) =
     (case cache_get opn close p c w of
        (Inl err, c, w) \<Rightarrow> (ls, c, w)
      | (Inr l, c, w) \<Rightarrow> (ls @ [l], c, w))"
| "cache_step opn close (ReleaseOp i) (ls, c, w) =
     (if i < length ls then
        (case lease_release close (ls ! i) c w of (err, l, c, w) \<Rightarrow> (ls[i := l], c, w))
      else (ls, c, w))"
| "cache_step opn close (CloseOp ps) (ls, c, w) =
     (case cache_close close ps c w of (err, c, w) \<Rightarrow> (ls, c, w))"

definition cache_run ::
  "('h \<Rightarrow> string \<Rightarrow> 'w \<Rightarrow> ('h \<times> 'w) res) \<Rightarrow> ('h \<Rightarrow> 'w \<Rightarrow> go_error option \<times> 'w) \<Rightarrow> cache_op list \<Rightarrow>
   'h root_lease list \<times> 'h root_cache \<times> 'w \<Rightarrow> 'h root_lease list \<times> 'h root_cache \<times> 'w" where
  "cache_run opn close ops s = fold (cache_step opn close) ops s"

fun op_local :: "cache_op \<Rightarrow> bool" where
  "op_local (GetOp p) \<longleftrightarrow> local_path p"
| "op_local _ \<longleftrightarrow> True"

definition lease_count :: "'h root_lease list \<Rightarrow> nat \<Rightarrow> int" where
  "lease_count ls e = int (length (filter (\<lambda>l. rl_entry l = e \<and> \<not> rl_released l) ls))"

definition lease_inv :: "'h root_lease list \<Rightarrow> 'h root_cache \<Rightarrow> bool" where
  "lease_inv ls c \<longleftrightarrow>
     (\<forall>l \<in> set ls. rl_entry l < length (rc_heap c) \<and> rl_root l = handle_of c (rl_entry l)) \<and>
     (\<forall>e < length (rc_heap c). ce_refs (rc_heap c ! e) = lease_count ls e)"

lemma lease_inv_frame:
  assumes "lease_inv ls c" "cache_frame c c'"
  shows "lease_inv ls c'"
proof -
  have "lease_count ls e = 0" if "length (rc_heap c) \<le> e" for e
    using assms(1) that by (fastforce simp: lease_count_def lease_inv_def filter_empty_conv)
  then have "ce_refs (rc_heap c' ! e) = lease_count ls e" if "e < length (rc_heap c')" for e
    using assms that unfolding lease_inv_def cache_frame_def same_entry_def
    by (cases "e < length (rc_heap c)") auto
  moreover have "rl_entry l < length (rc_heap c') \<and> rl_root l = handle_of c' (rl_entry l)" if "l \<in> set ls" for l
    using assms that by (auto simp: lease_inv_def cache_frame_def same_entry_def)
  ultimately show ?thesis by (simp add: lease_inv_def)
qed

lemma lease_count_update:
  assumes "i < length ls" "\<not> rl_released (ls ! i)"
  shows "lease_count (ls[i := (ls ! i)\<lparr>rl_released := True\<rparr>]) e =
    lease_count ls e - (if e = rl_entry (ls ! i) then 1 else 0)"
proof -
  let ?P = "\<lambda>l. rl_entry l = e \<and> \<not> rl_released l"
  have "ls = take i ls @ ls ! i # drop (Suc i) ls" using assms(1) by (rule id_take_nth_drop)
  then have "filter ?P ls = filter ?P (take i ls) @ filter ?P [ls ! i] @ filter ?P (drop (Suc i) ls)"
    by (metis append_Cons append_Nil filter_append)
  moreover have "filter ?P (ls[i := (ls ! i)\<lparr>rl_released := True\<rparr>]) =
      filter ?P (take i ls) @ filter ?P (drop (Suc i) ls)"
    using assms(1) by (simp add: upd_conv_take_nth_drop)
  ultimately show ?thesis using assms(2) by (simp add: lease_count_def)
qed

context root_provider
begin

text \<open>The state of the cache between operations.\<close>

definition cache_inv :: "'h set \<Rightarrow> 'h root_lease list \<times> 'h root_cache \<times> 'w \<Rightarrow> bool" where
  "cache_inv B s \<longleftrightarrow> (case s of (ls, c, w) \<Rightarrow> map_inv c \<and> handle_inv B c w \<and> lru_bound c \<and> lease_inv ls c)"

lemma cache_inv_new:
  assumes "ok w" "is_open w r" "path_of w r = ''.''" "\<forall>k. is_open w k \<longleftrightarrow> k \<in> B"
  shows "cache_inv B ([], new_root_cache r n, w)"
proof -
  have "map_inv (new_root_cache r n)"
    by (auto simp: map_inv_def new_root_cache_def new_entry_def live_def root_cache_default_size_def)
  moreover have "handle_inv B (new_root_cache r n) w"
    using assms by (auto simp: handle_inv_def new_root_cache_def new_entry_def holds_def)
  moreover have "lru_bound (new_root_cache r n)"
    by (simp add: lru_bound_def new_root_cache_def root_cache_default_size_def)
  ultimately show ?thesis
    by (simp add: cache_inv_def lease_inv_def lease_count_def new_root_cache_def new_entry_def)
qed

lemma cache_step_inv:
  assumes "cache_inv B (ls, c, w)" "op_local op" "cache_step opn close op (ls, c, w) = (ls', c', w')"
  shows "cache_inv B (ls', c', w')" "length ls \<le> length ls'"
    "i < length ls \<Longrightarrow> rl_root (ls' ! i) = rl_root (ls ! i) \<and> rl_entry (ls' ! i) = rl_entry (ls ! i) \<and>
      (rl_released (ls ! i) \<longrightarrow> rl_released (ls' ! i))"
    "e < length (rc_heap c) \<Longrightarrow> e < length (rc_heap c') \<and> ce_path (rc_heap c' ! e) = ce_path (rc_heap c ! e)"
    "rc_closed c \<Longrightarrow> rc_closed c' \<and> (live c' e \<longrightarrow> live c e)" "rc_max c' = rc_max c"
proof -
  have inv: "map_inv c" "handle_inv B c w" "lru_bound c" "lease_inv ls c" using assms(1) by (simp_all add: cache_inv_def)
  have "cache_inv B (ls', c', w') \<and> length ls \<le> length ls' \<and>
    (\<forall>i < length ls. rl_root (ls' ! i) = rl_root (ls ! i) \<and> rl_entry (ls' ! i) = rl_entry (ls ! i) \<and>
      (rl_released (ls ! i) \<longrightarrow> rl_released (ls' ! i))) \<and>
    (\<forall>e < length (rc_heap c). e < length (rc_heap c') \<and> ce_path (rc_heap c' ! e) = ce_path (rc_heap c ! e)) \<and>
    (rc_closed c \<longrightarrow> rc_closed c' \<and> (\<forall>e. live c' e \<longrightarrow> live c e)) \<and> rc_max c' = rc_max c"
  proof (cases op)
    case (GetOp p)
    obtain r c1 w1 where g: "cache_get opn close p c w = (r, c1, w1)" by (metis prod_cases3)
    have p: "local_path p" using assms(2) GetOp by simp
    note G = cache_get_inv[OF inv(1-3) p g]
    have closed: "c1 = c" if "rc_closed c" using g that by (simp add: cache_get_def Let_def)
    show ?thesis
    proof (cases r)
      case (Inl err)
      then have "ls' = ls" "c' = c1" "w' = w1" using assms(3) GetOp g by simp_all
      moreover have "cache_frame c c1" using G Inl by simp
      ultimately show ?thesis
        using G lease_inv_frame[OF inv(4), of c1] closed
        by (auto simp: cache_inv_def cache_frame_def same_entry_def)
    next
      case (Inr l)
      then have s': "ls' = ls @ [l]" "c' = c1" "w' = w1" using assms(3) GetOp g by simp_all
      obtain c0 where c0: "cache_frame c c0"
        "c1 = set_entry (rl_entry l) ((rc_heap c0 ! rl_entry l)\<lparr>ce_refs := ce_refs (rc_heap c0 ! rl_entry l) + 1\<rparr>) c0"
        using G Inr by auto
      have L0: "lease_inv ls c0" by (rule lease_inv_frame[OF inv(4) c0(1)])
      have heap: "rc_heap c1 = (rc_heap c0)[rl_entry l := (rc_heap c0 ! rl_entry l)\<lparr>ce_refs := ce_refs (rc_heap c0 ! rl_entry l) + 1\<rparr>]"
        using c0(2) by (simp add: set_entry_def)
      have l: "rl_entry l < length (rc_heap c1)" "\<not> rl_released l" "rl_root l = handle_of c1 (rl_entry l)"
        using G Inr by (auto simp: live_def)
      have root: "handle_of c1 k = handle_of c0 k" for k
        using heap l(1) by (cases "k = rl_entry l") simp_all
      have "ce_refs (rc_heap c1 ! k) = lease_count (ls @ [l]) k" if "k < length (rc_heap c1)" for k
        using L0 heap l that by (cases "k = rl_entry l") (simp_all add: lease_inv_def lease_count_def)
      then have "lease_inv (ls @ [l]) c1"
        using L0 l root heap by (auto simp: lease_inv_def)
      moreover have "e < length (rc_heap c1) \<and> ce_path (rc_heap c1 ! e) = ce_path (rc_heap c ! e)"
        if "e < length (rc_heap c)" for e
        using c0(1) heap that by (cases "e = rl_entry l") (auto simp: cache_frame_def same_entry_def)
      moreover have "rc_max c1 = rc_max c" using c0 by (simp add: cache_frame_def set_entry_def)
      ultimately show ?thesis using G s' closed by (auto simp: cache_inv_def nth_append)
    qed
  next
    case (ReleaseOp j)
    show ?thesis
    proof (cases "j < length ls \<and> \<not> rl_released (ls ! j)")
      case False
      then have "ls' = ls \<and> c' = c \<and> w' = w"
        using assms(3) ReleaseOp by (cases "j < length ls") (auto simp: lease_release_def)
      then show ?thesis using assms(1) by simp
    next
      case True
      obtain er l' c1 w1 where rel: "lease_release close (ls ! j) c w = (er, l', c1, w1)" by (metis prod_cases4)
      then have s': "ls' = ls[j := l']" "c' = c1" "w' = w1" using assms(3) ReleaseOp True by simp_all
      let ?e = "rl_entry (ls ! j)"
      have mem: "ls ! j \<in> set ls" using True by simp
      then have e: "?e < length (rc_heap c)" using inv(4) by (simp add: lease_inv_def)
      have "ls ! j \<in> set (filter (\<lambda>l. rl_entry l = ?e \<and> \<not> rl_released l) ls)" using mem True by simp
      then have "0 < lease_count ls ?e" unfolding lease_count_def by (metis length_pos_if_in_set of_nat_0_less_iff)
      then have "0 < ce_refs (rc_heap c ! ?e)" using inv(4) e by (simp add: lease_inv_def)
      note R = lease_release_inv[OF inv(1-3) conjunct2[OF True] e this rel]
      have l': "l' = (ls ! j)\<lparr>rl_released := True\<rparr>" using R by blast
      have entry: "rl_entry (ls' ! k) = rl_entry (ls ! k)" "rl_root (ls' ! k) = rl_root (ls ! k)"
        "rl_released (ls ! k) \<longrightarrow> rl_released (ls' ! k)" for k
        using s'(1) l' True by (cases "k = j"; simp)+
      have "ce_refs (rc_heap c1 ! k) = lease_count ls' k" if "k < length (rc_heap c1)" for k
        using R inv(4) that lease_count_update[of j ls k] True l' s'(1) by (simp add: lease_inv_def)
      moreover have "rl_entry l < length (rc_heap c1) \<and> rl_root l = handle_of c1 (rl_entry l)" if lmem: "l \<in> set ls'" for l
      proof -
        have "length ls' = length ls" using s'(1) by simp
        moreover obtain k where "k < length ls'" "ls' ! k = l" using lmem unfolding in_set_conv_nth by blast
        ultimately have k: "k < length ls" "l = ls' ! k" by simp_all
        then have "ls ! k \<in> set ls" by simp
        then have "rl_entry (ls ! k) < length (rc_heap c) \<and> rl_root (ls ! k) = handle_of c (rl_entry (ls ! k))"
          using inv(4) unfolding lease_inv_def by blast
        moreover have "length (rc_heap c1) = length (rc_heap c)" "\<And>e. handle_of c1 e = handle_of c e" using R by blast+
        ultimately show ?thesis unfolding k(2) entry by simp
      qed
      ultimately have "lease_inv ls' c1" by (simp add: lease_inv_def)
      then show ?thesis using R s' entry by (simp add: cache_inv_def)
    qed
  next
    case (CloseOp ps)
    obtain er c1 w1 where cl: "cache_close_loop close ps None (c\<lparr>rc_closed := True\<rparr>) w = (er, c1, w1)" by (metis prod_cases3)
    then have s': "ls' = ls" "c' = c1" "w' = w1" using assms(3) CloseOp by (simp_all add: cache_close_def)
    have "map_inv (c\<lparr>rc_closed := True\<rparr>)" "handle_inv B (c\<lparr>rc_closed := True\<rparr>) w"
      "lru_bound (c\<lparr>rc_closed := True\<rparr>)" "lease_inv ls (c\<lparr>rc_closed := True\<rparr>)"
      using inv by (simp_all add: map_inv_closed handle_inv_closed lru_bound_def lease_inv_def)
    note K = cache_close_loop_inv[OF this(1-3) cl]
    then have "lease_inv ls c1" using lease_inv_frame[OF \<open>lease_inv ls (c\<lparr>rc_closed := True\<rparr>)\<close>] by blast
    then show ?thesis
      using K s' by (auto simp: cache_inv_def cache_frame_def same_entry_def live_def)
  qed
  then show "cache_inv B (ls', c', w')" "length ls \<le> length ls'"
    "i < length ls \<Longrightarrow> rl_root (ls' ! i) = rl_root (ls ! i) \<and> rl_entry (ls' ! i) = rl_entry (ls ! i) \<and>
      (rl_released (ls ! i) \<longrightarrow> rl_released (ls' ! i))"
    "e < length (rc_heap c) \<Longrightarrow> e < length (rc_heap c') \<and> ce_path (rc_heap c' ! e) = ce_path (rc_heap c ! e)"
    "rc_closed c \<Longrightarrow> rc_closed c' \<and> (live c' e \<longrightarrow> live c e)" "rc_max c' = rc_max c"
    by blast+
qed

lemma cache_run_inv:
  assumes "cache_inv B (ls, c, w)" "\<forall>op \<in> set ops. op_local op" "cache_run opn close ops (ls, c, w) = (ls', c', w')"
  shows "cache_inv B (ls', c', w') \<and> length ls \<le> length ls' \<and>
    (\<forall>i < length ls. rl_root (ls' ! i) = rl_root (ls ! i) \<and> rl_entry (ls' ! i) = rl_entry (ls ! i)) \<and>
    (\<forall>e < length (rc_heap c). e < length (rc_heap c') \<and> ce_path (rc_heap c' ! e) = ce_path (rc_heap c ! e)) \<and>
    (rc_closed c \<longrightarrow> rc_closed c' \<and> (\<forall>e. live c' e \<longrightarrow> live c e)) \<and> rc_max c' = rc_max c"
  using assms
proof (induction ops arbitrary: ls c w)
  case Nil
  then show ?case by (simp add: cache_run_def)
next
  case (Cons op ops)
  obtain ls1 c1 w1 where st: "cache_step opn close op (ls, c, w) = (ls1, c1, w1)" by (metis prod_cases3)
  have op: "op_local op" "\<forall>op \<in> set ops. op_local op" using Cons.prems(2) by simp_all
  note S = cache_step_inv[OF Cons.prems(1) op(1) st]
  have "cache_run opn close ops (ls1, c1, w1) = (ls', c', w')" using Cons.prems(3) st by (simp add: cache_run_def)
  note R = Cons.IH[OF S(1) op(2) this]
  have "length ls \<le> length ls'" using S(2) R by linarith
  moreover have "rl_root (ls' ! i) = rl_root (ls ! i) \<and> rl_entry (ls' ! i) = rl_entry (ls ! i)" if "i < length ls" for i
    using S(2) S(3)[OF that] R that by auto
  ultimately show ?case using R S(4,5,6) by auto
qed

text \<open>What the invariant says of handles: a lease not released holds an open one.\<close>

lemma cache_inv_leases:
  assumes "cache_inv B (ls, c, w)" "l \<in> set ls" "\<not> rl_released l"
  shows "is_open w (rl_root l)" "path_of w (rl_root l) = ce_path (rc_heap c ! rl_entry l)"
proof -
  have inv: "handle_inv B c w" "lease_inv ls c" using assms(1) by (simp_all add: cache_inv_def)
  have "l \<in> set (filter (\<lambda>x. rl_entry x = rl_entry l \<and> \<not> rl_released x) ls)" using assms(2,3) by simp
  then have "0 < lease_count ls (rl_entry l)" unfolding lease_count_def by (metis length_pos_if_in_set of_nat_0_less_iff)
  then have "holds c (rl_entry l)" "rl_root l = handle_of c (rl_entry l)"
    using inv(2) assms(2) by (auto simp: lease_inv_def holds_def)
  then show "is_open w (rl_root l)" "path_of w (rl_root l) = ce_path (rc_heap c ! rl_entry l)"
    using handle_invD(4,5)[OF inv(1)] by simp_all
qed

lemma cache_inv_bound:
  assumes "cache_inv B (ls, c, w)"
  shows "int (length (rc_entries c)) \<le> rc_max c + 1"
  using assms map_inv_length[of c] by (simp add: cache_inv_def lru_bound_def)

text \<open>After \<open>Close\<close> with every lease released nothing is held but the first entry.\<close>

lemma cache_inv_released:
  assumes "cache_inv B (ls, c, w)" "\<forall>l \<in> set ls. rl_released l" "\<forall>e. live c e \<longrightarrow> e = 0"
  shows "is_open w k \<longleftrightarrow> k \<in> B"
proof -
  have inv: "handle_inv B c w" "lease_inv ls c" using assms(1) by (simp_all add: cache_inv_def)
  have "lease_count ls e = 0" for e using assms(2) by (simp add: lease_count_def filter_empty_conv)
  then have "holds c e \<Longrightarrow> e = 0" for e using inv(2) assms(3) by (auto simp: holds_def live_def lease_inv_def)
  then show ?thesis using handle_invD(2,8)[OF inv(1)] by metis
qed

end

section \<open>Properties\<close>

lemma sample_dir: "dir ''a/b/c'' = ''a/b''" "base ''a/b/c'' = ''c''" "clean_root_path ''a/b/c'' = ''a/b/c''"
  by (simp_all add: dir_def split_dir_def clean_def is_abs_def base_def split_file_def clean_root_path_def)

definition sample_lease :: "nat root_lease" where
  "sample_lease = \<lparr>rl_root = 2, rl_base = ''c'', rl_entry = 2, rl_released = False\<rparr>"

lemma sample_get:
  "\<exists>c w. cache_get (open_root sample_env) (root_close sample_env) ''a/b/c'' (new_root_cache 0 1) sample_world =
     (Inr sample_lease, c, w)"
  by (simp add: cache_get_def sample_dir sample_lease_def cache_get_dir_def new_root_cache_def new_entry_def
      root_cache_components_def open_root_def sample_world_def sample_env_def os_open_dir_def new_root_def goes_up_def
      is_abs_def clean_def join2_def cache_push_def cache_evict.simps cache_drop_def set_entry_def close_cache_entry_def
      root_close_def os_close_def Let_def)


lemma new_cache_inv:
  assumes "world_ok w" "root_open w r" "root_path w r = ''.''"
  shows "os_root.cache_inv {k. root_open w k} ([], new_root_cache r n, w)"
  by (rule os_root.cache_inv_new[OF assms]) simp

text \<open>C28. A lease that \<open>rootCache.get\<close> hands out for a path has the path's last name and a handle on
  its directory, and however many gets, releases of other leases, evictions and even closes of the cache
  follow, the handle stays open on that directory until the lease is released.\<close>

theorem root_cache_lease_valid:
  assumes "world_ok w0" "root_open w0 r" "root_path w0 r = ''.''"
    and "\<forall>op \<in> set ops1 \<union> set ops2. op_local op" "local_path p"
    and "cache_run (open_root env) (root_close env) ops1 ([], new_root_cache r n, w0) = (ls1, c1, w1)"
    and "cache_get (open_root env) (root_close env) p c1 w1 = (Inr l, c2, w2)"
    and "cache_run (open_root env) (root_close env) ops2 (ls1 @ [l], c2, w2) = (ls3, c3, w3)"
    and "\<not> rl_released (ls3 ! length ls1)"
  shows "rl_base l = base p \<and> root_open w3 (rl_root l) \<and> root_path w3 (rl_root l) = dir p"
proof -
  have loc: "\<forall>op \<in> set ops1. op_local op" "\<forall>op \<in> set ops2. op_local op" using assms(4) by auto
  have I1: "os_root.cache_inv {k. root_open w0 k} (ls1, c1, w1)"
    using os_root.cache_run_inv[OF new_cache_inv[OF assms(1-3)] loc(1) assms(6)] by blast
  have st: "cache_step (open_root env) (root_close env) (GetOp p) (ls1, c1, w1) = (ls1 @ [l], c2, w2)"
    using assms(7) by simp
  note I2 = os_root.cache_step_inv(1)[OF I1 _ st, simplified, OF assms(5)]
  note R = os_root.cache_run_inv[OF I2 loc(2) assms(8)]
  have "map_inv c1" "os_root.handle_inv {k. root_open w0 k} c1 w1" "lru_bound c1"
    using I1 by (simp_all add: os_root.cache_inv_def)
  from os_root.cache_get_inv[OF this assms(5,7)]
  have G: "rl_base l = base p" "live c2 (rl_entry l)" "ce_path (rc_heap c2 ! rl_entry l) = dir p" by simp_all
  let ?l = "ls3 ! length ls1"
  have l: "rl_root ?l = rl_root l" "rl_entry ?l = rl_entry l" "length ls1 < length ls3"
    using R by (auto dest: spec[of _ "length ls1"])
  have "ce_path (rc_heap c3 ! rl_entry l) = dir p" using R G by (simp add: live_def)
  moreover have "?l \<in> set ls3" using l(3) by simp
  ultimately show ?thesis
    using os_root.cache_inv_leases[OF conjunct1[OF R] _ assms(9)] G(1) l by simp
qed

theorem root_cache_lease_valid_witness:
  "\<exists>l c2 w2 c3 w3.
     cache_get (open_root sample_env) (root_close sample_env) ''a/b/c'' (new_root_cache 0 1) sample_world = (Inr l, c2, w2) \<and>
     cache_run (open_root sample_env) (root_close sample_env) [CloseOp [''a/b'']] ([l], c2, w2) = ([l], c3, w3) \<and>
     rl_base l = ''c'' \<and> root_open w3 (rl_root l) \<and> root_path w3 (rl_root l) = ''a/b''"
proof -
  have run0: "cache_run (open_root sample_env) (root_close sample_env) [] ([], new_root_cache 0 1, sample_world) =
      ([], new_root_cache 0 1, sample_world)" by (simp add: cache_run_def)
  obtain c2 w2 where run1: "cache_get (open_root sample_env) (root_close sample_env) ''a/b/c'' (new_root_cache 0 1) sample_world =
      (Inr sample_lease, c2, w2)" using sample_get by blast
  obtain er c3 w3 where cl: "cache_close (root_close sample_env) [''a/b''] c2 w2 = (er, c3, w3)"
    by (metis prod_cases3)
  have run2: "cache_run (open_root sample_env) (root_close sample_env) [CloseOp [''a/b'']] ([] @ [sample_lease], c2, w2) =
      ([sample_lease], c3, w3)"
    using cl by (simp add: cache_run_def)
  have loc: "\<forall>op \<in> set [] \<union> set [CloseOp [''a/b'']]. op_local op" by simp
  have "\<not> rl_released ([sample_lease] ! length ([] :: nat root_lease list))" by (simp add: sample_lease_def)
  from root_cache_lease_valid[OF sample_world_ok loc sample_local(1) run0 run1 run2 this] run1 run2
  show ?thesis by (metis append_Nil sample_dir)
qed

text \<open>C30. The cache keeps at most its size of directories besides the destination, whatever operations
  were run; a size that is not positive means 128.\<close>

theorem root_cache_bounded:
  assumes "world_ok w0" "root_open w0 r" "root_path w0 r = ''.''" "\<forall>op \<in> set ops. op_local op"
    and "cache_run (open_root env) (root_close env) ops ([], new_root_cache r n, w0) = (ls, c, w)"
  shows "int (length (rc_entries c)) \<le> (if n \<le> 0 then 128 else n) + 1"
proof -
  note R = os_root.cache_run_inv[OF new_cache_inv[OF assms(1-3)] assms(4,5)]
  have "rc_max c = rc_max (new_root_cache r n)" using R by blast
  also have "\<dots> = (if n \<le> 0 then 128 else n)" by (simp add: new_root_cache_def root_cache_default_size_def)
  finally show ?thesis using os_root.cache_inv_bound[OF conjunct1[OF R]] by simp
qed

theorem root_cache_bounded_witness:
  "\<exists>ls c w. cache_run (open_root sample_env) (root_close sample_env) [GetOp ''a/b/c'', GetOp ''a/d'']
     ([], new_root_cache 0 1, sample_world) = (ls, c, w) \<and> length (rc_entries c) \<le> 2"
proof -
  obtain ls c w where run: "cache_run (open_root sample_env) (root_close sample_env) [GetOp ''a/b/c'', GetOp ''a/d'']
     ([], new_root_cache 0 1, sample_world) = (ls, c, w)" by (metis prod_cases3)
  have "\<forall>op \<in> set [GetOp ''a/b/c'', GetOp ''a/d'']. op_local op" using sample_local by simp
  from root_cache_bounded[OF sample_world_ok this run] run show ?thesis by auto
qed

text \<open>C29. Nothing leaks: once the cache was closed, whatever operations come after, as soon as every
  lease is released the open handles are those that were open before the cache existed. The order in
  which \<open>Close\<close> visits the entries does not matter.\<close>

theorem root_cache_no_leak:
  assumes "world_ok w0" "root_open w0 r" "root_path w0 r = ''.''"
    and "\<forall>op \<in> set ops1 \<union> set ops2. op_local op"
    and "cache_run (open_root env) (root_close env) ops1 ([], new_root_cache r n, w0) = (ls1, c1, w1)"
    and "fst ` set (rc_entries c1) \<subseteq> set ps"
    and "cache_run (open_root env) (root_close env) (CloseOp ps # ops2) (ls1, c1, w1) = (ls, c, w)"
    and "\<forall>l \<in> set ls. rl_released l"
  shows "root_open w k \<longleftrightarrow> root_open w0 k"
proof -
  have loc: "\<forall>op \<in> set ops1. op_local op" "\<forall>op \<in> set ops2. op_local op" using assms(4) by auto
  note I1 = conjunct1[OF os_root.cache_run_inv[OF new_cache_inv[OF assms(1-3)] loc(1) assms(5)]]
  obtain ls2 c2 w2 where st: "cache_step (open_root env) (root_close env) (CloseOp ps) (ls1, c1, w1) = (ls2, c2, w2)"
    by (metis prod_cases3)
  note I2 = os_root.cache_step_inv(1)[OF I1 _ st, simplified]
  have run: "cache_run (open_root env) (root_close env) ops2 (ls2, c2, w2) = (ls, c, w)"
    using assms(7) st by (simp add: cache_run_def)
  note R = os_root.cache_run_inv[OF I2 loc(2) run]
  obtain er where cl: "cache_close_loop (root_close env) ps None (c1\<lparr>rc_closed := True\<rparr>) w1 = (er, c2, w2)"
    using st by (auto simp: cache_close_def split: prod.splits)
  have inv: "map_inv c1" "os_root.handle_inv {k. root_open w0 k} c1 w1" "lru_bound c1"
    using I1 by (simp_all add: os_root.cache_inv_def)
  then have "map_inv (c1\<lparr>rc_closed := True\<rparr>)" "os_root.handle_inv {k. root_open w0 k} (c1\<lparr>rc_closed := True\<rparr>) w1"
    "lru_bound (c1\<lparr>rc_closed := True\<rparr>)"
    by (simp_all add: map_inv_closed os_root.handle_inv_closed lru_bound_def)
  note K = os_root.cache_close_loop_inv[OF this cl]
  have "e = 0" if "live c2 e" for e
  proof (rule ccontr)
    assume "e \<noteq> 0"
    then have "live c1 e" "ce_path (rc_heap c1 ! e) \<notin> set ps" using K that by (auto simp: live_def)
    then have "map_of (rc_entries c1) (ce_path (rc_heap c1 ! e)) = Some e" using map_invD(5)[OF inv(1)] by blast
    then have "ce_path (rc_heap c1 ! e) \<in> set ps" using assms(6) by (force dest: map_of_SomeD)
    then show False using \<open>ce_path (rc_heap c1 ! e) \<notin> set ps\<close> by contradiction
  qed
  moreover have "rc_closed c2" using K by (simp add: cache_frame_def)
  ultimately have "\<forall>e. live c e \<longrightarrow> e = 0" using R by blast
  from os_root.cache_inv_released[OF conjunct1[OF R] assms(8) this] show ?thesis by simp
qed

theorem root_cache_no_leak_witness:
  "\<exists>ls1 c1 w1 ls c w.
     cache_run (open_root sample_env) (root_close sample_env) [GetOp ''a/b/c''] ([], new_root_cache 0 1, sample_world) =
       (ls1, c1, w1) \<and>
     cache_run (open_root sample_env) (root_close sample_env) [CloseOp (map fst (rc_entries c1)), ReleaseOp 0]
       (ls1, c1, w1) = (ls, c, w) \<and>
     (\<forall>k. root_open w k \<longleftrightarrow> root_open sample_world k)"
proof -
  obtain c1 w1 where "cache_get (open_root sample_env) (root_close sample_env) ''a/b/c'' (new_root_cache 0 1) sample_world =
      (Inr sample_lease, c1, w1)" using sample_get by blast
  then have run1: "cache_run (open_root sample_env) (root_close sample_env) [GetOp ''a/b/c'']
       ([], new_root_cache 0 1, sample_world) = ([sample_lease], c1, w1)"
    by (simp add: cache_run_def)
  let ?ps = "map fst (rc_entries c1)"
  obtain er c2 w2 where cl: "cache_close (root_close sample_env) ?ps c1 w1 = (er, c2, w2)" by (metis prod_cases3)
  obtain er2 l c3 w3 where rel: "lease_release (root_close sample_env) sample_lease c2 w2 = (er2, l, c3, w3)"
    by (metis prod_cases4)
  have run2: "cache_run (open_root sample_env) (root_close sample_env) [CloseOp ?ps, ReleaseOp 0] ([sample_lease], c1, w1) =
      ([l], c3, w3)"
    using cl rel by (simp add: cache_run_def)
  have "rl_released l"
    using rel by (auto simp: lease_release_def sample_lease_def Let_def split: if_splits prod.splits)
  then have "\<forall>l' \<in> set [l]. rl_released l'" by simp
  moreover have "\<forall>op \<in> set [GetOp ''a/b/c''] \<union> set [ReleaseOp 0]. op_local op" using sample_local by simp
  moreover have "fst ` set (rc_entries c1) \<subseteq> set ?ps" by simp
  ultimately have "root_open w3 k \<longleftrightarrow> root_open sample_world k" for k
    using root_cache_no_leak[OF sample_world_ok _ run1 _ run2] by blast
  then show ?thesis using run1 run2 by blast
qed

end
