(* ===== verification/Sender.thy ===== *)
theory Sender
  imports Hardlinks
begin

text \<open>
  \<open>send.go\<close>: the sending side of a transfer. The sender walks its file system and sends one STAT
  packet for each entry, remembers the regular files by the number of their packet, queues the
  numbers the receiver requests, and sends the contents of queued files in DATA packets. The
  state is what the goroutines share under the sender's mutexes; each operation is what one of
  them does between two blocking points. \<open>sd_out\<close> holds the packets sent so far in the order in
  which \<open>syncStream.SendMsg\<close> lets them through.

  The connection is a parameter: whether sending a packet fails may depend on all packets sent
  before. So are the size of an encoded packet and the text of an error.

  The lemmas show which packets a walk sends and which numbers it records, that a request takes
  its number out of the table, and that the DATA packets of a file carry exactly its content in
  pieces that fit the copy buffer, ended by an empty one.
\<close>

section \<open>State\<close>

record send_handle =
  sh_id :: "32 word"
  sh_path :: string

record sender =
  sd_files :: "32 word \<Rightarrow> string option"
  sd_pipeline :: "send_handle list"
  sd_next :: "32 word"
  sd_progress :: int
  sd_reports :: "(int \<times> bool) list"
  sd_out :: "packet list"

definition new_sender :: sender where
  "new_sender =
     \<lparr>sd_files = Map.empty, sd_pipeline = [], sd_next = 0, sd_progress = 0, sd_reports = [], sd_out = []\<rparr>"

text \<open>The capacity of \<open>sendpipeline\<close> and the size of a copy buffer of \<open>bufPool\<close>.\<close>

definition pipeline_cap :: nat where
  "pipeline_cap = 128"

definition copy_size :: nat where
  "copy_size = 32 * 1024"

record transfer_env =
  te_send :: "packet list \<Rightarrow> packet \<Rightarrow> go_error option"
  te_size :: "packet \<Rightarrow> nat"
  te_text :: "go_error \<Rightarrow> string"
  te_progress :: bool

section \<open>Operations\<close>

text \<open>\<open>syncStream.SendMsg\<close>: under the lock, so sends never overlap.\<close>

definition sync_send :: "transfer_env \<Rightarrow> packet \<Rightarrow> sender \<Rightarrow> go_error option \<times> sender" where
  "sync_send env p s =
     (case te_send env (sd_out s) p of
        Some e \<Rightarrow> (Some e, s)
      | None \<Rightarrow> (None, s\<lparr>sd_out := sd_out s @ [p]\<rparr>))"

definition update_progress :: "transfer_env \<Rightarrow> int \<Rightarrow> bool \<Rightarrow> sender \<Rightarrow> sender" where
  "update_progress env sz is_last s =
     (if te_progress env then
        s\<lparr>sd_progress := sd_progress s + sz, sd_reports := sd_reports s @ [(sd_progress s + sz, is_last)]\<rparr>
      else s)"

definition wrap_error :: "string \<Rightarrow> go_error option \<Rightarrow> go_error option" where
  "wrap_error msg e = map_option (Wrap msg) e"

text \<open>\<open>filepath.ToSlash\<close> and \<open>filepath.FromSlash\<close>, where the separator is the slash.\<close>

definition to_slash :: "string \<Rightarrow> string" where
  "to_slash p = p"

definition from_slash :: "string \<Rightarrow> string" where
  "from_slash p = p"

text \<open>The walk's callback.\<close>

type_synonym walk_call = "string \<times> dir_entry \<times> go_error option"

definition sender_walk_entry :: "transfer_env \<Rightarrow> walk_call \<Rightarrow> sender \<Rightarrow> go_error option \<times> sender" where
  "sender_walk_entry env call s =
     (case call of (path, entry, err) \<Rightarrow>
        (case err of Some e \<Rightarrow> (Some e, s)
         | None \<Rightarrow>
           (case de_info entry of
              Inl e \<Rightarrow> (Some e, s)
            | Inr NilInfo \<Rightarrow> (Some (Panic ''nil FileInfo''), s)
            | Inr (OtherInfo m) \<Rightarrow> (Some (PathError ''fileinfo without stat info'' path EBADMSG), s)
            | Inr (StatInfo stat) \<Rightarrow>
                let stat = stat\<lparr>st_path := to_slash (st_path stat), st_linkname := to_slash (st_linkname stat)\<rparr>;
                    p = empty_packet\<lparr>pk_type := PACKET_STAT, pk_stat := Some stat\<rparr>;
                    s = (if file_can_request_data (st_mode stat)
                         then s\<lparr>sd_files := (sd_files s)(sd_next s \<mapsto> st_path stat)\<rparr> else s);
                    s = s\<lparr>sd_next := sd_next s + 1\<rparr>;
                    s = update_progress env (int (te_size env p)) False s;
                    (err, s) = sync_send env p s
                in (wrap_error (''failed to send stat '' @ path) err, s))))"

text \<open>
  \<open>walk\<close>: the file system calls the callback for each of its entries until it fails; \<open>walk_err\<close> is
  what its \<open>Walk\<close> returns after the last one. The empty STAT packet ends the walk.
\<close>

fun sender_walk_loop :: "transfer_env \<Rightarrow> walk_call list \<Rightarrow> sender \<Rightarrow> go_error option \<times> sender" where
  "sender_walk_loop env [] s = (None, s)"
| "sender_walk_loop env (call # calls) s =
     (case sender_walk_entry env call s of
        (Some e, s) \<Rightarrow> (Some e, s)
      | (None, s) \<Rightarrow> sender_walk_loop env calls s)"

definition sender_walk :: "transfer_env \<Rightarrow> walk_call list \<Rightarrow> go_error option \<Rightarrow> sender \<Rightarrow> go_error option \<times> sender" where
  "sender_walk env calls walk_err s =
     (case sender_walk_loop env calls s of
        (Some e, s) \<Rightarrow> (Some e, s)
      | (None, s) \<Rightarrow>
          (case walk_err of Some e \<Rightarrow> (Some e, s)
           | None \<Rightarrow>
               let (err, s) = sync_send env (empty_packet\<lparr>pk_type := PACKET_STAT\<rparr>) s
               in (wrap_error ''failed to send last stat'' err, s)))"

text \<open>The goroutine around it reports its error to the receiver.\<close>

definition sender_walk_routine ::
  "transfer_env \<Rightarrow> walk_call list \<Rightarrow> go_error option \<Rightarrow> sender \<Rightarrow> go_error option \<times> sender" where
  "sender_walk_routine env calls walk_err s =
     (case sender_walk env calls walk_err s of
        (None, s) \<Rightarrow> (None, s)
      | (Some e, s) \<Rightarrow>
          (Some e, snd (sync_send env (empty_packet\<lparr>pk_type := PACKET_ERR, pk_data := te_text env e\<rparr>) s)))"

text \<open>\<open>queue\<close>; its send on the channel waits while the channel is full.\<close>

definition sender_queue :: "32 word \<Rightarrow> sender \<Rightarrow> go_error option \<times> sender" where
  "sender_queue fid s =
     (case sd_files s fid of
        None \<Rightarrow> (Some (Errorf ''invalid file fid'' []), s)
      | Some p \<Rightarrow>
          (None, s\<lparr>sd_files := (sd_files s)(fid := None), sd_pipeline := sd_pipeline s @ [\<lparr>sh_id = fid, sh_path = p\<rparr>]\<rparr>))"

definition can_queue :: "sender \<Rightarrow> bool" where
  "can_queue s \<longleftrightarrow> length (sd_pipeline s) < pipeline_cap"

text \<open>What the receive loop does with a packet: read on, or return.\<close>

datatype loop_next = Continue | Return "go_error option"

definition sender_recv :: "transfer_env \<Rightarrow> packet \<Rightarrow> sender \<Rightarrow> loop_next \<times> sender" where
  "sender_recv env p s =
     (if pk_type p = PACKET_ERR then (Return (Some (Errorf ''error from receiver: %s'' [pk_data p])), s)
      else if pk_type p = PACKET_REQ then
        (case sender_queue (pk_id p) s of
           (Some e, s) \<Rightarrow> (Return (Some e), s)
         | (None, s) \<Rightarrow> (Continue, s))
      else if pk_type p = PACKET_FIN then
        (case sync_send env (empty_packet\<lparr>pk_type := PACKET_FIN\<rparr>) s of (err, s) \<Rightarrow> (Return err, s))
      else (Continue, s))"

text \<open>\<open>fileSender.Write\<close>.\<close>

definition file_sender_write :: "transfer_env \<Rightarrow> 32 word \<Rightarrow> string \<Rightarrow> sender \<Rightarrow> (nat \<times> go_error option) \<times> sender" where
  "file_sender_write env fid dt s =
     (if length dt = 0 then ((0, None), s)
      else
        let p = empty_packet\<lparr>pk_type := PACKET_DATA, pk_id := fid, pk_data := dt\<rparr> in
        (case sync_send env p s of
           (Some e, s) \<Rightarrow> ((0, Some e), s)
         | (None, s) \<Rightarrow> ((length dt, None), update_progress env (int (te_size env p)) False s)))"

text \<open>
  An open file is the list of what its \<open>Read\<close>s into a copy buffer return: bytes and perhaps an error. After
  the last one \<open>Read\<close> reports the end. \<open>io.CopyBuffer\<close> writes what was read before it looks at
  the error.
\<close>

type_synonym reads = "(string \<times> go_error option) list"

fun copy_buffer :: "transfer_env \<Rightarrow> 32 word \<Rightarrow> reads \<Rightarrow> sender \<Rightarrow> go_error option \<times> sender" where
  "copy_buffer env fid [] s = (None, s)"
| "copy_buffer env fid ((bs, err) # rs) s =
     (case (if bs \<noteq> [] then file_sender_write env fid bs s else ((0, None), s)) of
        ((n, Some e), s) \<Rightarrow> (Some e, s)
      | ((n, None), s) \<Rightarrow>
          if n \<noteq> length bs then (Some (Errorf ''short write'' []), s)
          else (case err of
              None \<Rightarrow> copy_buffer env fid rs s
            | Some Eof \<Rightarrow> (None, s)
            | Some e \<Rightarrow> (Some e, s)))"

definition send_file :: "transfer_env \<Rightarrow> (string \<Rightarrow> reads res) \<Rightarrow> send_handle \<Rightarrow> sender \<Rightarrow> go_error option \<times> sender" where
  "send_file env open_path h s =
     (let eof = empty_packet\<lparr>pk_id := sh_id h, pk_type := PACKET_DATA\<rparr> in
      case open_path (sh_path h) of
        Inr f \<Rightarrow>
          (case copy_buffer env (sh_id h) f s of
             (Some e, s) \<Rightarrow> (Some e, s)
           | (None, s) \<Rightarrow> sync_send env eof s)
      | Inl e \<Rightarrow> sync_send env eof s)"

section \<open>What is sent\<close>

lemma sync_send_frame:
  assumes "sync_send env p s = (e, s')"
  shows "sd_files s' = sd_files s" "sd_pipeline s' = sd_pipeline s" "sd_next s' = sd_next s"
    "sd_out s' = (if e = None then sd_out s @ [p] else sd_out s)"
  using assms by (cases "te_send env (sd_out s) p"; auto simp: sync_send_def)+

lemma update_progress_frame [simp]:
  "sd_files (update_progress env n l s) = sd_files s" "sd_pipeline (update_progress env n l s) = sd_pipeline s"
  "sd_next (update_progress env n l s) = sd_next s" "sd_out (update_progress env n l s) = sd_out s"
  by (simp_all add: update_progress_def)

text \<open>The \<open>Stat\<close> of an entry the sender accepts, and the packet for it.\<close>

definition call_stat :: "walk_call \<Rightarrow> stat option" where
  "call_stat call =
     (case call of (path, entry, err) \<Rightarrow>
        if err = None then (case de_info entry of Inr (StatInfo st) \<Rightarrow> Some st | _ \<Rightarrow> None) else None)"

definition stat_packet :: "stat \<Rightarrow> packet" where
  "stat_packet st = empty_packet\<lparr>pk_type := PACKET_STAT, pk_stat := Some st\<rparr>"

definition data_packet :: "32 word \<Rightarrow> string \<Rightarrow> packet" where
  "data_packet fid bs = empty_packet\<lparr>pk_type := PACKET_DATA, pk_id := fid, pk_data := bs\<rparr>"

lemma stat_slash_id: "stat\<lparr>st_path := to_slash (st_path stat), st_linkname := to_slash (st_linkname stat)\<rparr> = stat"
  by (simp add: to_slash_def)

lemma sender_walk_entry_result:
  assumes "sender_walk_entry env call s = (None, s')"
  obtains st where "call_stat call = Some st" "sd_out s' = sd_out s @ [stat_packet st]" "sd_next s' = sd_next s + 1"
    "sd_files s' = (if file_can_request_data (st_mode st) then (sd_files s)(sd_next s \<mapsto> st_path st) else sd_files s)"
    "sd_pipeline s' = sd_pipeline s"
proof -
  obtain path entry err where call: "call = (path, entry, err)" by (metis prod_cases3)
  from assms obtain st where st: "err = None" "de_info entry = Inr (StatInfo st)"
    by (auto simp: call sender_walk_entry_def split: option.splits sum.splits file_info.splits)
  let ?s1 = "(if file_can_request_data (st_mode st) then s\<lparr>sd_files := (sd_files s)(sd_next s \<mapsto> st_path st)\<rparr> else s)"
  let ?s2 = "update_progress env (int (te_size env (stat_packet st))) False (?s1\<lparr>sd_next := sd_next ?s1 + 1\<rparr>)"
  obtain e s3 where send: "sync_send env (stat_packet st) ?s2 = (e, s3)" by fastforce
  have "(None, s') = (wrap_error (''failed to send stat '' @ path) e, s3)"
    using assms send st
    by (simp add: call sender_walk_entry_def Let_def stat_slash_id stat_packet_def to_slash_def split: prod.splits)
  then have "e = None" "s' = s3" by (auto simp: wrap_error_def)
  then show ?thesis
    using that[of st] sync_send_frame[OF send] st by (auto simp: call call_stat_def)
qed

text \<open>The numbers the walk records: those of the packets for files whose data can be requested.\<close>

fun file_table :: "nat \<Rightarrow> stat list \<Rightarrow> (32 word \<Rightarrow> string option) \<Rightarrow> (32 word \<Rightarrow> string option)" where
  "file_table n [] m = m"
| "file_table n (st # sts) m =
     file_table (Suc n) sts (if file_can_request_data (st_mode st) then m(of_nat n \<mapsto> st_path st) else m)"

lemma sender_walk_loop_result:
  assumes "sender_walk_loop env calls s = (None, s')" "sd_next s = of_nat n"
  shows "\<exists>sts. map call_stat calls = map Some sts \<and> sd_out s' = sd_out s @ map stat_packet sts \<and>
    sd_next s' = of_nat (n + length sts) \<and> sd_files s' = file_table n sts (sd_files s) \<and> sd_pipeline s' = sd_pipeline s"
  using assms
proof (induction calls arbitrary: s n)
  case Nil
  then show ?case by simp
next
  case (Cons call calls)
  then obtain s1 where s1: "sender_walk_entry env call s = (None, s1)" "sender_walk_loop env calls s1 = (None, s')"
    by (auto split: prod.splits option.splits)
  from s1(1) obtain st where st: "call_stat call = Some st" "sd_out s1 = sd_out s @ [stat_packet st]" "sd_next s1 = sd_next s + 1"
    "sd_files s1 = (if file_can_request_data (st_mode st) then (sd_files s)(sd_next s \<mapsto> st_path st) else sd_files s)"
    "sd_pipeline s1 = sd_pipeline s"
    by (rule sender_walk_entry_result)
  have "sd_next s1 = of_nat (Suc n)" using st(3) Cons.prems(2) by simp
  from Cons.IH[OF s1(2) this] obtain sts where "map call_stat calls = map Some sts"
    "sd_out s' = sd_out s1 @ map stat_packet sts" "sd_next s' = of_nat (Suc n + length sts)"
    "sd_files s' = file_table (Suc n) sts (sd_files s1)" "sd_pipeline s' = sd_pipeline s1" by blast
  then show ?case
    using st Cons.prems(2) by (intro exI[of _ "st # sts"]) (simp add: add.commute add.left_commute)
qed

lemma file_table_miss:
  assumes "fid \<notin> of_nat ` {n..<n + length sts}"
  shows "file_table n sts m fid = m fid"
  using assms
proof (induction sts arbitrary: n m)
  case Nil
  then show ?case by simp
next
  case (Cons st sts)
  have "fid \<noteq> of_nat n" using Cons.prems by (auto intro!: image_eqI[of _ _ n])
  moreover have "fid \<notin> of_nat ` {Suc n..<Suc n + length sts}" using Cons.prems by force
  ultimately show ?case using Cons.IH[of "Suc n"] by simp
qed

lemma of_nat_word_inj: "k < 2 ^ 32 \<Longrightarrow> l < 2 ^ 32 \<Longrightarrow> (of_nat k :: 32 word) = of_nat l \<Longrightarrow> k = l"
proof -
  assume a: "k < 2 ^ 32" "l < 2 ^ 32" "(of_nat k :: 32 word) = of_nat l"
  have "unat (of_nat k :: 32 word) = k" using a(1) by (simp add: unat_of_nat)
  moreover have "unat (of_nat l :: 32 word) = l" using a(2) by (simp add: unat_of_nat)
  ultimately show "k = l" using a(3) by metis
qed

lemma file_table_hit:
  assumes "n + length sts \<le> 2 ^ 32" "k < length sts"
  shows "file_table n sts m (of_nat (n + k)) =
    (if file_can_request_data (st_mode (sts ! k)) then Some (st_path (sts ! k)) else m (of_nat (n + k)))"
  using assms
proof (induction sts arbitrary: n m k)
  case Nil
  then show ?case by simp
next
  case (Cons st sts)
  show ?case
  proof (cases k)
    case 0
    have "(of_nat n :: 32 word) \<notin> of_nat ` {Suc n..<Suc n + length sts}"
    proof
      assume "(of_nat n :: 32 word) \<in> of_nat ` {Suc n..<Suc n + length sts}"
      then obtain l where l: "Suc n \<le> l" "l < Suc n + length sts" "(of_nat n :: 32 word) = of_nat l" by auto
      then have "n = l" using Cons.prems(1) by (intro of_nat_word_inj) auto
      then show False using l(1) by simp
    qed
    then show ?thesis using 0 file_table_miss by simp
  next
    case (Suc j)
    have "(of_nat (n + k) :: 32 word) \<noteq> of_nat n"
      using Cons.prems of_nat_word_inj[of "n + k" n] Suc by auto
    then show ?thesis using Cons.IH[of "Suc n" j] Cons.prems Suc by simp
  qed
qed

text \<open>The pieces of a file that \<open>copy_buffer\<close> sends, and how it ends.\<close>

fun reads_data :: "reads \<Rightarrow> string list" where
  "reads_data [] = []"
| "reads_data ((bs, err) # rs) = (if bs \<noteq> [] then [bs] else []) @ (if err = None then reads_data rs else [])"

fun reads_error :: "reads \<Rightarrow> go_error option" where
  "reads_error [] = None"
| "reads_error ((bs, err) # rs) =
     (case err of None \<Rightarrow> reads_error rs | Some Eof \<Rightarrow> None | Some e \<Rightarrow> Some e)"

lemma copy_buffer_result:
  assumes "copy_buffer env fid rs s = (e, s')"
  shows "(e = None \<longrightarrow> reads_error rs = None \<and> sd_out s' = sd_out s @ map (data_packet fid) (reads_data rs)) \<and>
    (\<exists>ds. prefix ds (reads_data rs) \<and> sd_out s' = sd_out s @ map (data_packet fid) ds) \<and>
    sd_files s' = sd_files s \<and> sd_pipeline s' = sd_pipeline s"
  using assms
proof (induction rs arbitrary: s)
  case Nil
  then show ?case by simp
next
  case (Cons r rs)
  obtain bs err where r: "r = (bs, err)" by fastforce
  obtain n e1 s1 where w: "(if bs \<noteq> [] then file_sender_write env fid bs s else ((0, None), s)) = ((n, e1), s1)"
    by (metis prod.collapse)
  have f: "sd_files s1 = sd_files s \<and> sd_pipeline s1 = sd_pipeline s \<and>
      sd_out s1 = (if bs \<noteq> [] \<and> e1 = None then sd_out s @ [data_packet fid bs] else sd_out s) \<and> (e1 = None \<longrightarrow> n = length bs)"
    using w sync_send_frame[of env "data_packet fid bs" s]
    by (auto simp: file_sender_write_def data_packet_def Let_def split: if_splits prod.splits option.splits)
  show ?case
  proof (cases e1)
    case (Some e')
    then have "e = Some e'" "s' = s1" using Cons.prems w r by simp_all
    then show ?thesis using f Some by auto
  next
    case None
    then have run: "(case err of None \<Rightarrow> copy_buffer env fid rs s1 | Some Eof \<Rightarrow> (None, s1) | Some e \<Rightarrow> (Some e, s1)) = (e, s')"
      using Cons.prems w r f by simp
    show ?thesis
    proof (cases err)
      case e0: None
      then have "copy_buffer env fid rs s1 = (e, s')" using run by simp
      note IH = Cons.IH[OF this]
      then obtain ds where ds: "prefix ds (reads_data rs)" "sd_out s' = sd_out s1 @ map (data_packet fid) ds" by blast
      show ?thesis
        using IH f r e0 None ds
        by (auto intro!: exI[of _ "(if bs \<noteq> [] then [bs] else []) @ ds"])
    next
      case (Some e2)
      then have "s' = s1" "e = (if e2 = Eof then None else Some e2)" using run by (cases e2; simp)+
      then show ?thesis
        using f r Some None by (cases e2) (auto intro!: exI[of _ "if bs \<noteq> [] then [bs] else []"])
    qed
  qed
qed

lemma send_file_result:
  assumes "send_file env open_path h s = (None, s')"
  shows "sd_out s' = sd_out s @ map (data_packet (sh_id h))
      ((case open_path (sh_path h) of Inl e \<Rightarrow> [] | Inr f \<Rightarrow> reads_data f) @ [[]])"
    "open_path (sh_path h) = Inr f \<Longrightarrow> reads_error f = None"
proof -
  have eof: "empty_packet\<lparr>pk_id := sh_id h, pk_type := PACKET_DATA\<rparr> = data_packet (sh_id h) []"
    by (simp add: data_packet_def empty_packet_def)
  have "sd_out s' = sd_out s @ map (data_packet (sh_id h))
      ((case open_path (sh_path h) of Inl e \<Rightarrow> [] | Inr f \<Rightarrow> reads_data f) @ [[]]) \<and>
    (\<forall>f. open_path (sh_path h) = Inr f \<longrightarrow> reads_error f = None)"
  proof (cases "open_path (sh_path h)")
    case (Inl e)
    then have "sync_send env (data_packet (sh_id h) []) s = (None, s')" using assms by (simp add: send_file_def eof)
    then show ?thesis using sync_send_frame(4) Inl by fastforce
  next
    case (Inr f)
    obtain e1 s1 where c: "copy_buffer env (sh_id h) f s = (e1, s1)" by fastforce
    then have e: "e1 = None" "sync_send env (data_packet (sh_id h) []) s1 = (None, s')"
      using assms Inr by (auto simp: send_file_def eof Let_def split: option.splits)
    from copy_buffer_result[OF c] e(1) have "reads_error f = None"
      "sd_out s1 = sd_out s @ map (data_packet (sh_id h)) (reads_data f)" by simp_all
    moreover have "sd_out s' = sd_out s1 @ [data_packet (sh_id h) []]" using sync_send_frame(4)[OF e(2)] by simp
    ultimately show ?thesis using Inr by simp
  qed
  then show "sd_out s' = sd_out s @ map (data_packet (sh_id h))
      ((case open_path (sh_path h) of Inl e \<Rightarrow> [] | Inr f \<Rightarrow> reads_data f) @ [[]])"
    "open_path (sh_path h) = Inr f \<Longrightarrow> reads_error f = None" by blast+
qed

section \<open>Properties\<close>

text \<open>C34. A walk that succeeds sends one STAT packet for each entry, in order, then the empty one, and its
  table has exactly the regular files' paths under their positions (for up to 2^32 entries).\<close>

theorem sender_walk_numbers:
  assumes "sender_walk env calls None new_sender = (None, s')" "length calls \<le> 2 ^ 32"
  shows "\<exists>sts. map call_stat calls = map Some sts \<and>
    sd_out s' = map stat_packet sts @ [empty_packet\<lparr>pk_type := PACKET_STAT\<rparr>] \<and>
    (\<forall>k < length sts. sd_files s' (of_nat k) =
      (if file_can_request_data (st_mode (sts ! k)) then Some (st_path (sts ! k)) else None)) \<and>
    (\<forall>fid. fid \<notin> of_nat ` {..<length sts} \<longrightarrow> sd_files s' fid = None)"
proof -
  obtain s1 where s1: "sender_walk_loop env calls new_sender = (None, s1)"
    using assms(1) by (auto simp: sender_walk_def split: prod.splits option.splits)
  obtain e s2 where s2: "sync_send env (empty_packet\<lparr>pk_type := PACKET_STAT\<rparr>) s1 = (e, s2)" by fastforce
  have "e = None" "s' = s2" using assms(1) s1 s2 by (auto simp: sender_walk_def wrap_error_def)
  note f = sync_send_frame[OF s2]
  have "sd_next new_sender = of_nat 0" by (simp add: new_sender_def)
  from sender_walk_loop_result[OF s1 this] obtain sts where sts: "map call_stat calls = map Some sts"
    "sd_out s1 = map stat_packet sts" "sd_files s1 = file_table 0 sts Map.empty"
    by (auto simp: new_sender_def)
  have "length sts = length calls" using sts(1) by (metis length_map)
  then have "file_table 0 sts Map.empty (of_nat (0 + k)) =
      (if file_can_request_data (st_mode (sts ! k)) then Some (st_path (sts ! k)) else None)" if "k < length sts" for k
    using assms(2) that file_table_hit[of 0 sts k Map.empty] by simp
  moreover have "file_table 0 sts Map.empty fid = None" if "fid \<notin> of_nat ` {..<length sts}" for fid
    using file_table_miss[of fid 0 sts] that by (simp add: atLeast0LessThan)
  ultimately show ?thesis
    using sts f \<open>e = None\<close> \<open>s' = s2\<close> by (intro exI[of _ sts]) simp
qed

definition quiet_env :: transfer_env where
  "quiet_env = \<lparr>te_send = (\<lambda>ps p. None), te_size = (\<lambda>p. 0), te_text = (\<lambda>e. ''error''), te_progress = False\<rparr>"

definition sample_dir_stat :: stat where
  "sample_dir_stat = empty_stat\<lparr>st_path := ''d'', st_mode := mode_dir\<rparr>"

definition sample_file_stat :: stat where
  "sample_file_stat = empty_stat\<lparr>st_path := ''d/f'', st_mode := 0x1A4\<rparr>"

lemmas sample_stats = sample_dir_stat_def sample_file_stat_def empty_stat_def

theorem sender_walk_numbers_witness:
  "\<exists>s'. sender_walk quiet_env [(''d'', entry_of_stat sample_dir_stat, None), (''d/f'', entry_of_stat sample_file_stat, None)]
      None new_sender = (None, s') \<and> sd_files s' 0 = None \<and> sd_files s' 1 = Some ''d/f''"
proof -
  let ?w = "sender_walk quiet_env [(''d'', entry_of_stat sample_dir_stat, None), (''d/f'', entry_of_stat sample_file_stat, None)]
      None new_sender"
  have run: "?w = (None, snd ?w)"
    by (simp add: sender_walk_def sender_walk_entry_def entry_of_stat_def quiet_env_def sync_send_def
        update_progress_def wrap_error_def Let_def split: prod.splits)
  have len: "length [(''d'', entry_of_stat sample_dir_stat, None :: go_error option), (''d/f'', entry_of_stat sample_file_stat, None)] \<le> 2 ^ 32"
    by simp
  obtain sts where sts: "map call_stat [(''d'', entry_of_stat sample_dir_stat, None), (''d/f'', entry_of_stat sample_file_stat, None)] = map Some sts"
    "\<forall>k < length sts. sd_files (snd ?w) (of_nat k) =
      (if file_can_request_data (st_mode (sts ! k)) then Some (st_path (sts ! k)) else None)"
    using sender_walk_numbers[OF run len] by blast
  have "sts = [sample_dir_stat, sample_file_stat]" using sts(1) by (auto simp: call_stat_def entry_of_stat_def)
  then have "sd_files (snd ?w) 0 = None" "sd_files (snd ?w) 1 = Some ''d/f''"
    using sts(2)[rule_format, of 0] sts(2)[rule_format, of 1]
    by (simp_all add: sample_stats file_can_request_data_def mode_type_eq mode_dir_eq)
  then show ?thesis using run by metis
qed

text \<open>C35. When \<open>sendFile\<close> succeeds, the DATA packets it sent are for the requested number and carry the
  bytes read from the file, in order, in nonempty pieces of at most 32 KiB, and an empty one at the
  end; a file that cannot be opened is sent as an empty one.\<close>

theorem send_file_content:
  assumes "send_file env open_path h s = (None, s')"
    and "\<forall>f. open_path (sh_path h) = Inr f \<longrightarrow> (\<forall>r \<in> set f. length (fst r) \<le> copy_size)"
  shows "\<exists>ds. sd_out s' = sd_out s @ map (data_packet (sh_id h)) (ds @ [[]]) \<and>
    concat ds = (case open_path (sh_path h) of Inl e \<Rightarrow> [] | Inr f \<Rightarrow> concat (reads_data f)) \<and>
    (\<forall>d \<in> set ds. d \<noteq> [] \<and> length d \<le> copy_size)"
proof -
  have ne: "d \<noteq> [] \<and> length d \<le> copy_size" if "d \<in> set (reads_data f)" "\<forall>r \<in> set f. length (fst r) \<le> copy_size" for d f
    using that by (induction f rule: reads_data.induct) (auto split: if_splits)
  show ?thesis
  proof (cases "open_path (sh_path h)")
    case (Inl e)
    then show ?thesis using send_file_result(1)[OF assms(1)] by (intro exI[of _ "[]"]) simp
  next
    case (Inr f)
    then show ?thesis using send_file_result(1)[OF assms(1)] assms(2) ne by (intro exI[of _ "reads_data f"]) auto
  qed
qed

theorem send_file_content_witness:
  "\<exists>ds s'. send_file quiet_env (\<lambda>p. Inr [(''ab'', None), (''c'', Some Eof)]) \<lparr>sh_id = 3, sh_path = ''f''\<rparr> new_sender = (None, s') \<and>
    sd_out s' = map (data_packet 3) (ds @ [[]]) \<and> concat ds = ''abc''"
proof -
  let ?r = "send_file quiet_env (\<lambda>p. Inr [(''ab'', None), (''c'', Some Eof)]) \<lparr>sh_id = 3, sh_path = ''f''\<rparr> new_sender"
  have run: "?r = (None, snd ?r)"
    by (simp add: send_file_def quiet_env_def file_sender_write_def sync_send_def update_progress_def Let_def)
  from send_file_content[OF run] show ?thesis
    using run by (auto simp: copy_size_def new_sender_def)
qed

end
