(* ===== verification/Chunk_Buffer.thy ===== *)
theory Chunk_Buffer
  imports Fsutil_Prelude
begin

text \<open>
  \<open>buffer.go\<close>: the buffer in which the receiver keeps metadata records. It is a list of chunks,
  slices with a length and a capacity; \<open>alloc\<close> returns a part of the last chunk when it fits and
  a new chunk otherwise, and the caller fills the part in place.

  The lemmas show that the parts handed out are disjoint and in order, so that \<open>WriteTo\<close> writes
  exactly the records that were filled in, and that no chunk outgrows its capacity.
\<close>

section \<open>The buffer\<close>

definition chunk_size :: nat where
  "chunk_size = 32 * 1024"

record chunk =
  ck_data :: string
  ck_cap :: nat

type_synonym buffer = "chunk list"

text \<open>A part of the buffer: the chunk it lies in, where it starts, and its length.\<close>

type_synonym slice = "nat \<times> nat \<times> nat"

abbreviation zeros :: "nat \<Rightarrow> string" where
  "zeros n \<equiv> replicate n (CHR 0x00)"

definition buffer_alloc :: "nat \<Rightarrow> buffer \<Rightarrow> slice \<times> buffer" where
  "buffer_alloc n b =
     (if n > chunk_size then ((length b, 0, n), b @ [\<lparr>ck_data = zeros n, ck_cap = n\<rparr>])
      else if length b \<noteq> 0 \<and> length (ck_data (b ! (length b - 1))) + n \<le> ck_cap (b ! (length b - 1)) then
        let k = length b - 1; last_chunk = b ! k; l = length (ck_data last_chunk)
        in ((k, l, n), b[k := last_chunk\<lparr>ck_data := ck_data last_chunk @ zeros n\<rparr>])
      else ((length b, 0, n), b @ [\<lparr>ck_data = zeros n, ck_cap = chunk_size\<rparr>]))"

text \<open>Writing bytes into a part that \<open>alloc\<close> returned.\<close>

definition buffer_fill :: "slice \<Rightarrow> string \<Rightarrow> buffer \<Rightarrow> buffer" where
  "buffer_fill sl bs b =
     (case sl of (k, off, n) \<Rightarrow>
        b[k := (b ! k)\<lparr>ck_data := take off (ck_data (b ! k)) @ take n bs @
                 drop (off + length (take n bs)) (ck_data (b ! k))\<rparr>])"

text \<open>\<open>WriteTo\<close>: one \<open>Write\<close> for each chunk; a writer reports how much it wrote and an error.\<close>

fun buffer_write_to :: "(string \<Rightarrow> 'w \<Rightarrow> nat \<times> go_error option \<times> 'w) \<Rightarrow> nat \<Rightarrow> buffer \<Rightarrow> 'w \<Rightarrow>
   nat \<times> go_error option \<times> 'w" where
  "buffer_write_to write n [] w = (n, None, w)"
| "buffer_write_to write n (c # cs) w =
     (case write (ck_data c) w of
        (m, Some e, w) \<Rightarrow> (n + m, Some e, w)
      | (m, None, w) \<Rightarrow> buffer_write_to write (n + m) cs w)"

section \<open>What is in it\<close>

definition buffer_bytes :: "buffer \<Rightarrow> string" where
  "buffer_bytes b = concat (map ck_data b)"

definition buffer_ok :: "buffer \<Rightarrow> bool" where
  "buffer_ok b \<longleftrightarrow> (\<forall>c \<in> set b. length (ck_data c) \<le> ck_cap c)"

lemma buffer_bytes_snoc [simp]: "buffer_bytes (b @ [c]) = buffer_bytes b @ ck_data c"
  by (simp add: buffer_bytes_def)

lemma buffer_alloc_fill:
  assumes "buffer_alloc (length r) b = (sl, b')"
  shows "buffer_bytes (buffer_fill sl r b') = buffer_bytes b @ r"
    "buffer_ok b \<Longrightarrow> buffer_ok (buffer_fill sl r b')"
proof -
  consider (fresh) c where "sl = (length b, 0, length r)" "b' = b @ [c]" "ck_data c = zeros (length r)" "length r \<le> ck_cap c"
    | (extend) xs c where "b = xs @ [c]" "length (ck_data c) + length r \<le> ck_cap c"
        "sl = (length xs, length (ck_data c), length r)"
        "b' = xs @ [c\<lparr>ck_data := ck_data c @ zeros (length r)\<rparr>]"
  proof (cases "length r > chunk_size")
    case True
    then show ?thesis using assms fresh by (auto simp: buffer_alloc_def)
  next
    case small: False
    show ?thesis
    proof (cases "b = [] \<or> \<not> length (ck_data (last b)) + length r \<le> ck_cap (last b)")
      case True
      then have "\<not> (length b \<noteq> 0 \<and> length (ck_data (b ! (length b - 1))) + length r \<le> ck_cap (b ! (length b - 1)))"
        using last_conv_nth[of b] by auto
      then have "sl = (length b, 0, length r)" "b' = b @ [\<lparr>ck_data = zeros (length r), ck_cap = chunk_size\<rparr>]"
        using assms small unfolding buffer_alloc_def by (simp_all only: if_False prod.inject)
      then show ?thesis using small fresh by simp
    next
      case False
      then obtain xs c where "b = xs @ [c]" by (cases b rule: rev_cases) auto
      then show ?thesis using assms small False extend by (auto simp: buffer_alloc_def Let_def)
    qed
  qed
  then have "buffer_bytes (buffer_fill sl r b') = buffer_bytes b @ r \<and> (buffer_ok b \<longrightarrow> buffer_ok (buffer_fill sl r b'))"
    by cases (auto simp: buffer_fill_def buffer_ok_def)
  then show "buffer_bytes (buffer_fill sl r b') = buffer_bytes b @ r" "buffer_ok b \<Longrightarrow> buffer_ok (buffer_fill sl r b')"
    by blast+
qed

text \<open>Appending records, each allocated and filled, as the receiver does.\<close>

definition buffer_add :: "string \<Rightarrow> buffer \<Rightarrow> buffer" where
  "buffer_add r b = (case buffer_alloc (length r) b of (sl, b') \<Rightarrow> buffer_fill sl r b')"

lemma buffer_add_bytes [simp]: "buffer_bytes (buffer_add r b) = buffer_bytes b @ r"
  using buffer_alloc_fill(1) by (auto simp: buffer_add_def split: prod.splits)

lemma buffer_add_ok: "buffer_ok b \<Longrightarrow> buffer_ok (buffer_add r b)"
  using buffer_alloc_fill(2) by (auto simp: buffer_add_def split: prod.splits)

lemma buffer_adds_bytes: "buffer_bytes (fold buffer_add rs b) = buffer_bytes b @ concat rs"
  by (induction rs arbitrary: b) auto

text \<open>A writer that accepts everything.\<close>

definition full_writer :: "string \<Rightarrow> string \<Rightarrow> nat \<times> go_error option \<times> string" where
  "full_writer bs w = (length bs, None, w @ bs)"

lemma write_to_full:
  "buffer_write_to full_writer n b w = (n + length (buffer_bytes b), None, w @ buffer_bytes b)"
  by (induction b arbitrary: n w) (auto simp: buffer_bytes_def full_writer_def)

section \<open>Properties\<close>

text \<open>C33. Whatever records are allocated and filled in, of whatever sizes, \<open>WriteTo\<close> writes them one after
  the other, completely and in order, and reports their total length.\<close>

theorem buffer_roundtrip:
  "buffer_write_to full_writer 0 (fold buffer_add rs []) [] = (length (concat rs), None, concat rs)"
  by (simp add: write_to_full buffer_adds_bytes) (simp add: buffer_bytes_def)

text \<open>No chunk outgrows its capacity, so no allocation moves the records handed out before.\<close>

theorem buffer_chunks_fit: "list_all (\<lambda>c. length (ck_data c) \<le> ck_cap c) (fold buffer_add rs [])"
proof -
  have "buffer_ok (fold buffer_add rs b)" if "buffer_ok b" for b
    using that by (induction rs arbitrary: b) (auto simp: buffer_add_ok)
  from this[of "[]"] show ?thesis by (simp add: buffer_ok_def list_all_iff)
qed

end
