(* ===== verification/Receiver.thy ===== *)
theory Receiver
  imports Sender Double_Walk Chunk_Buffer
begin

text \<open>
  \<open>receive.go\<close>: the receiving side of a transfer. One goroutine reads packets: STAT packets are
  checked by the two validators and handed to the dynamic walker, whose paths the tree diff
  compares with the destination; DATA packets go to the pipe registered for their number. The
  file writers run \<open>asyncDataFunc\<close>, which looks up a file's number, registers a pipe, and requests
  the file. Each operation is what one goroutine does between two blocking points; the state is
  what they share.

  Parameters are the connection (in \<open>transfer_env\<close>), the encoder of \<open>Stat\<close> messages, which is
  generated code, and the writers behind the pipes.

  The lemmas describe each packet's effect: which numbers a run of STAT packets records, what the
  pipes receive, and how metadata-only transfers are buffered.
\<close>

section \<open>The stack of directories\<close>

definition stack_push :: "'a \<Rightarrow> 'a list \<Rightarrow> 'a list" where
  "stack_push v items = items @ [v]"

definition stack_pop_item :: "'a list \<Rightarrow> 'a option \<times> 'a list" where
  "stack_pop_item items =
     (if length items = 0 then (None, items)
      else (Some (items ! (length items - 1)), take (length items - 1) items))"

definition stack_peek :: "'a list \<Rightarrow> 'a option" where
  "stack_peek items = (if length items = 0 then None else Some (items ! (length items - 1)))"

definition stack_clear :: "'a list \<Rightarrow> 'a list" where
  "stack_clear items = take 0 items"

section \<open>The dynamic walker\<close>

text \<open>
  The walker's channel, whether it was closed, and, once \<open>closeCh\<close> is closed, the error that
  was stored before.
\<close>

record dyn_walker =
  dw_chan :: "current_path list"
  dw_ended :: bool
  dw_closed :: "go_error option"

definition new_dynamic_walker :: dyn_walker where
  "new_dynamic_walker = \<lparr>dw_chan = [], dw_ended = False, dw_closed = None\<rparr>"

text \<open>\<open>update\<close>; closing a closed channel and sending on one panic.\<close>

definition walker_update :: "current_path option \<Rightarrow> dyn_walker \<Rightarrow> go_error option \<times> dyn_walker" where
  "walker_update p w =
     (case dw_closed w of
        Some e \<Rightarrow> (Some (Wrap ''walker is closed'' e), w)
      | None \<Rightarrow>
          (case p of
             None \<Rightarrow>
               if dw_ended w then (Some (Panic ''close of closed channel''), w)
               else (None, w\<lparr>dw_ended := True\<rparr>)
           | Some cp \<Rightarrow>
               if dw_ended w then (Some (Panic ''send on closed channel''), w)
               else (None, w\<lparr>dw_chan := dw_chan w @ [cp]\<rparr>)))"

text \<open>One round of \<open>fill\<close>: a path to pass on, the end, or nothing yet.\<close>

datatype fill_next = FillWait | FillPath current_path | FillReturn "go_error option"

definition walker_fill :: "bool \<Rightarrow> dyn_walker \<Rightarrow> fill_next \<times> dyn_walker" where
  "walker_fill ctx_done w =
     (if ctx_done then (FillReturn (Some CtxErr), w\<lparr>dw_closed := Some CtxErr\<rparr>)
      else (case dw_chan w of
          cp # cps \<Rightarrow> (FillPath cp, w\<lparr>dw_chan := cps\<rparr>)
        | [] \<Rightarrow> if dw_ended w then (FillReturn None, w) else (FillWait, w)))"

section \<open>State\<close>

text \<open>
  \<open>wrappedWriteCloser\<close>: the path it writes, what was written to the writer below, the result of
  closing that, and whether \<open>done\<close> is closed.
\<close>

record wrapped_writer =
  ww_path :: string
  ww_written :: "string list"
  ww_err :: "go_error option"
  ww_done :: bool

definition new_wrapped_writer :: "string \<Rightarrow> wrapped_writer" where
  "new_wrapped_writer p = \<lparr>ww_path = p, ww_written = [], ww_err = None, ww_done = False\<rparr>"

record receive_opt =
  op_merge :: bool
  op_filter :: "filter_func option"
  op_differ :: diff_type
  op_metadata_only :: "filter_func option"
  op_progress :: bool

text \<open>The encoder of \<open>Stat\<close> messages and the writers: whether writing or closing fails.\<close>

record receive_env =
  rn_transfer :: transfer_env
  rn_stat_size :: "stat \<Rightarrow> nat"
  rn_marshal :: "stat \<Rightarrow> string res"
  rn_write :: "wrapped_writer \<Rightarrow> string \<Rightarrow> go_error option"
  rn_close :: "wrapped_writer \<Rightarrow> go_error option"

record receiver =
  rv_files :: "string \<Rightarrow> 32 word option"
  rv_pipes :: "32 word \<Rightarrow> nat option"
  rv_writers :: "wrapped_writer list"
  rv_next :: "32 word"
  rv_order :: validator
  rv_links :: "string set"
  rv_walker :: dyn_walker
  rv_meta :: buffer
  rv_parents :: "current_path list"
  rv_size :: int
  rv_reports :: "(int \<times> bool) list"
  rv_out :: "packet list"

definition new_receiver :: receiver where
  "new_receiver =
     \<lparr>rv_files = Map.empty, rv_pipes = Map.empty, rv_writers = [], rv_next = 0, rv_order = \<lparr>parent_dirs = []\<rparr>,
      rv_links = {}, rv_walker = new_dynamic_walker, rv_meta = [], rv_parents = [], rv_size = 0,
      rv_reports = [], rv_out = []\<rparr>"

definition metadata_path :: string where
  "metadata_path = ''.fsutil-metadata''"

section \<open>STAT packets\<close>

text \<open>Handing a path to the walker.\<close>

definition recv_update :: "current_path option \<Rightarrow> receiver \<Rightarrow> go_error option \<times> receiver" where
  "recv_update p r = (case walker_update p (rv_walker r) of (e, w) \<Rightarrow> (e, r\<lparr>rv_walker := w\<rparr>))"

fun recv_updates :: "current_path list \<Rightarrow> receiver \<Rightarrow> go_error option \<times> receiver" where
  "recv_updates [] r = (None, r)"
| "recv_updates (p # ps) r =
     (case recv_update (Some p) r of
        (Some e, r) \<Rightarrow> (Some e, r)
      | (None, r) \<Rightarrow> recv_updates ps r)"

text \<open>\<open>binary.LittleEndian.PutUint32\<close>.\<close>

definition le32 :: "nat \<Rightarrow> string" where
  "le32 n = map (\<lambda>k. char_of (n div 256 ^ k mod 256)) [0, 1, 2, 3]"

text \<open>The metadata record of a \<open>Stat\<close>, framed by its length.\<close>

definition recv_buffer_stat :: "receive_env \<Rightarrow> stat \<Rightarrow> buffer \<Rightarrow> buffer res" where
  "recv_buffer_stat env st b =
     (let n = rn_stat_size env st; (dt, b) = buffer_alloc (n + 4) b
      in (case rn_marshal env st of
            Inl e \<Rightarrow> Inl e
          | Inr bs \<Rightarrow> Inr (buffer_fill dt (le32 n @ bs) b)))"

text \<open>Popping the directories that are not the parent.\<close>

function pop_parents :: "string \<Rightarrow> current_path list \<Rightarrow> current_path list" where
  "pop_parents parent items =
     (case stack_peek items of
        None \<Rightarrow> items
      | Some last_dir \<Rightarrow>
          if parent = cp_path last_dir then items
          else pop_parents parent (snd (stack_pop_item items)))"
  by pat_completeness auto
termination
  by (relation "measure (\<lambda>(parent, items). length items)")
    (auto simp: stack_peek_def stack_pop_item_def split: if_splits)

declare pop_parents.simps [simp del]

text \<open>The directories kept for a metadata-only transfer, and what is passed to the walker.\<close>

definition recv_metadata :: "bool \<Rightarrow> current_path \<Rightarrow> receiver \<Rightarrow> go_error option \<times> receiver" where
  "recv_metadata meta_only cp r =
     (let parents = pop_parents (dir (cp_path cp)) (rv_parents r);
          parents = (if mode_is_dir (st_mode (cp_stat cp)) then stack_push cp parents else parents);
          r = r\<lparr>rv_parents := parents\<rparr>
      in if meta_only then (None, r)
         else (case recv_updates parents r of
             (Some e, r) \<Rightarrow> (Some e, r)
           | (None, r) \<Rightarrow> recv_update (Some cp) (r\<lparr>rv_parents := stack_clear parents\<rparr>)))"

text \<open>From recording the number on: the part of a STAT packet that all transfers share.\<close>

definition recv_stat_entry ::
  "receive_opt \<Rightarrow> bool \<Rightarrow> stat \<Rightarrow> receiver \<Rightarrow> go_error option \<times> receiver" where
  "recv_stat_entry opt meta_only st r =
     (let r = (if \<not> meta_only \<and> file_can_request_data (st_mode st)
               then r\<lparr>rv_files := (rv_files r)(st_path st \<mapsto> rv_next r)\<rparr> else r);
          r = r\<lparr>rv_next := rv_next r + 1\<rparr>;
          cp = \<lparr>cp_path = st_path st, cp_stat = st\<rparr>
      in (case validator_handle_change ChangeKindAdd (cp_path cp) (StatInfo st) None (rv_order r) of
            Inl e \<Rightarrow> (Some e, r)
          | Inr v \<Rightarrow>
              let r = r\<lparr>rv_order := v\<rparr> in
              (case hardlinks_handle_change ChangeKindAdd (cp_path cp) (StatInfo st) None (rv_links r) of
                 Inl e \<Rightarrow> (Some e, r)
               | Inr seen \<Rightarrow>
                   let r = r\<lparr>rv_links := seen\<rparr> in
                   if op_metadata_only opt \<noteq> None then recv_metadata meta_only cp r
                   else recv_update (Some cp) r)))"

definition recv_stat :: "receive_env \<Rightarrow> receive_opt \<Rightarrow> stat option \<Rightarrow> receiver \<Rightarrow> go_error option \<times> receiver" where
  "recv_stat env opt st r =
     (case st of
        None \<Rightarrow> recv_update None r
      | Some st \<Rightarrow>
          let path = from_slash (st_path st) in
          if to_slash path \<noteq> st_path st then (Some (PathError ''unrepresentable path'' (st_path st) EINVAL), r)
          else (case op_metadata_only opt of
              None \<Rightarrow>
                recv_stat_entry opt False (st\<lparr>st_path := path, st_linkname := from_slash (st_linkname st)\<rparr>) r
            | Some match \<Rightarrow>
                if path = metadata_path then (None, r)
                else (case recv_buffer_stat env st (rv_meta r) of
                    Inl e \<Rightarrow> (Some e, r)
                  | Inr b \<Rightarrow>
                      let (matched, st) = match path st
                      in recv_stat_entry opt (\<not> matched)
                           (st\<lparr>st_path := path, st_linkname := from_slash (st_linkname st)\<rparr>) (r\<lparr>rv_meta := b\<rparr>))))"

section \<open>DATA packets and pipes\<close>

text \<open>\<open>wrappedWriteCloser\<close>'s \<open>Write\<close> and \<open>Close\<close>.\<close>

definition wrapped_write :: "receive_env \<Rightarrow> string \<Rightarrow> wrapped_writer \<Rightarrow> go_error option \<times> wrapped_writer" where
  "wrapped_write env bs w =
     (case rn_write env w bs of
        Some e \<Rightarrow> (Some e, w)
      | None \<Rightarrow> (None, w\<lparr>ww_written := ww_written w @ [bs]\<rparr>))"

definition wrapped_close :: "receive_env \<Rightarrow> wrapped_writer \<Rightarrow> go_error option \<times> wrapped_writer" where
  "wrapped_close env w = (rn_close env w, w\<lparr>ww_err := rn_close env w, ww_done := True\<rparr>)"

text \<open>\<open>Wait\<close>: the error of the cancelled context, or what \<open>Close\<close> returned; nothing before.\<close>

definition wrapped_wait :: "bool \<Rightarrow> wrapped_writer \<Rightarrow> go_error option option" where
  "wrapped_wait ctx_done w =
     (if ctx_done then Some (Some CtxErr) else if ww_done w then Some (ww_err w) else None)"

definition recv_data :: "receive_env \<Rightarrow> 32 word \<Rightarrow> string \<Rightarrow> receiver \<Rightarrow> go_error option \<times> receiver" where
  "recv_data env fid bs r =
     (case rv_pipes r fid of
        None \<Rightarrow> (Some (Errorf ''invalid file request'' []), r)
      | Some k \<Rightarrow>
          let (e, w) =
            (if length bs = 0 then wrapped_close env (rv_writers r ! k)
             else wrapped_write env bs (rv_writers r ! k))
          in (e, r\<lparr>rv_writers := (rv_writers r)[k := w]\<rparr>))"

section \<open>The receive loop\<close>

datatype recv_next = RecvMore | RecvReturn "go_error option" | RecvDrain

definition next_of :: "go_error option \<Rightarrow> recv_next" where
  "next_of e = (case e of None \<Rightarrow> RecvMore | Some e \<Rightarrow> RecvReturn (Some e))"

definition recv_progress :: "receive_env \<Rightarrow> receive_opt \<Rightarrow> packet \<Rightarrow> receiver \<Rightarrow> receiver" where
  "recv_progress env opt p r =
     (if op_progress opt then
        let n = rv_size r + int (te_size (rn_transfer env) p)
        in r\<lparr>rv_size := n, rv_reports := rv_reports r @ [(n, False)]\<rparr>
      else r)"

definition recv_packet :: "receive_env \<Rightarrow> receive_opt \<Rightarrow> packet \<Rightarrow> receiver \<Rightarrow> recv_next \<times> receiver" where
  "recv_packet env opt p r =
     (let r = recv_progress env opt p r in
      if pk_type p = PACKET_ERR then (RecvReturn (Some (Errorf ''error from sender: %s'' [pk_data p])), r)
      else if pk_type p = PACKET_STAT then (case recv_stat env opt (pk_stat p) r of (e, r) \<Rightarrow> (next_of e, r))
      else if pk_type p = PACKET_DATA then (case recv_data env (pk_id p) (pk_data p) r of (e, r) \<Rightarrow> (next_of e, r))
      else if pk_type p = PACKET_FIN then (RecvDrain, r)
      else (RecvMore, r))"

text \<open>
  The whole loop over the packets a stream delivers before \<open>RecvMsg\<close> fails with \<open>last_err\<close>; after
  a FIN packet the rest is drained, and the end of the stream is no error.
\<close>

fun recv_loop :: "receive_env \<Rightarrow> receive_opt \<Rightarrow> packet list \<Rightarrow> go_error \<Rightarrow> receiver \<Rightarrow> go_error option \<times> receiver" where
  "recv_loop env opt [] last_err r = (Some last_err, r)"
| "recv_loop env opt (p # ps) last_err r =
     (case recv_packet env opt p r of
        (RecvMore, r) \<Rightarrow> recv_loop env opt ps last_err r
      | (RecvReturn e, r) \<Rightarrow> (e, r)
      | (RecvDrain, r) \<Rightarrow> (if last_err = Eof then None else Some last_err, r))"

section \<open>Requesting data\<close>

definition recv_send :: "receive_env \<Rightarrow> packet \<Rightarrow> receiver \<Rightarrow> go_error option \<times> receiver" where
  "recv_send env p r =
     (case te_send (rn_transfer env) (rv_out r) p of
        Some e \<Rightarrow> (Some e, r)
      | None \<Rightarrow> (None, r\<lparr>rv_out := rv_out r @ [p]\<rparr>))"

text \<open>\<open>asyncDataFunc\<close> up to its wait, and after it.\<close>

definition async_request :: "receive_env \<Rightarrow> string \<Rightarrow> receiver \<Rightarrow> go_error option \<times> receiver" where
  "async_request env p r =
     (case rv_files r p of
        None \<Rightarrow> (Some (Errorf ''invalid file request %s'' [p]), r)
      | Some fid \<Rightarrow>
          recv_send env (empty_packet\<lparr>pk_type := PACKET_REQ, pk_id := fid\<rparr>)
            (r\<lparr>rv_files := (rv_files r)(p := None),
               rv_writers := rv_writers r @ [new_wrapped_writer p],
               rv_pipes := (rv_pipes r)(fid \<mapsto> length (rv_writers r))\<rparr>))"

definition async_finish :: "bool \<Rightarrow> 32 word \<Rightarrow> nat \<Rightarrow> receiver \<Rightarrow> (go_error option \<times> receiver) option" where
  "async_finish ctx_done fid k r =
     (case wrapped_wait ctx_done (rv_writers r ! k) of
        None \<Rightarrow> None
      | Some (Some e) \<Rightarrow> Some (Some e, r)
      | Some None \<Rightarrow> Some (None, r\<lparr>rv_pipes := (rv_pipes r)(fid := None)\<rparr>))"

section \<open>The end of the transfer\<close>

text \<open>
  What the goroutine around the tree diff does with the results of the diff and of waiting for
  the writers: success is announced by a FIN packet, an error by an ERR packet; an error that only
  says the context was cancelled is replaced by the cause.
\<close>

definition recv_diff_end ::
  "receive_env \<Rightarrow> go_error option \<Rightarrow> go_error option \<Rightarrow> go_error option \<Rightarrow> receiver \<Rightarrow> go_error option \<times> receiver" where
  "recv_diff_end env diff_err wait_err cause r =
     (let err = (if diff_err \<noteq> None then diff_err else wait_err) in
      case err of
        None \<Rightarrow> (None, snd (recv_send env (empty_packet\<lparr>pk_type := PACKET_FIN\<rparr>) r))
      | Some e \<Rightarrow>
          let e = (if e = CtxErr then (case cause of Some c \<Rightarrow> c | None \<Rightarrow> e) else e)
          in (Some e, snd (recv_send env
                (empty_packet\<lparr>pk_type := PACKET_ERR, pk_data := te_text (rn_transfer env) e\<rparr>) r)))"

text \<open>
  \<open>writeMetadata\<close>: a file system in which a path can be removed and a file created, below a root or at the
  destination path.
\<close>

record ('f, 'w) meta_fs =
  mf_remove :: "string \<Rightarrow> 'w \<Rightarrow> 'w"
  mf_create :: "string \<Rightarrow> 'w \<Rightarrow> ('f \<times> 'w) res"
  mf_write :: "'f \<Rightarrow> string \<Rightarrow> 'w \<Rightarrow> nat \<times> go_error option \<times> 'w"
  mf_close :: "'f \<Rightarrow> 'w \<Rightarrow> go_error option \<times> 'w"

definition write_metadata ::
  "('f, 'w) meta_fs \<Rightarrow> string option \<Rightarrow> buffer \<Rightarrow> 'w \<Rightarrow> go_error option \<times> 'w" where
  "write_metadata fs dest b w =
     (let path = (case dest of None \<Rightarrow> metadata_path | Some d \<Rightarrow> join2 d metadata_path);
          w = mf_remove fs path w
      in (case mf_create fs path w of
            Inl e \<Rightarrow> (Some e, w)
          | Inr (f, w) \<Rightarrow>
              (case buffer_write_to (mf_write fs f) 0 b w of
                 (n, Some e, w) \<Rightarrow> (Some e, snd (mf_close fs f w))
               | (n, None, w) \<Rightarrow> mf_close fs f w)))"

section \<open>The effect of a packet\<close>

lemma recv_update_result:
  assumes "recv_update p r = (None, r')"
  shows "r' = r\<lparr>rv_walker := (case p of None \<Rightarrow> (rv_walker r)\<lparr>dw_ended := True\<rparr>
      | Some cp \<Rightarrow> (rv_walker r)\<lparr>dw_chan := dw_chan (rv_walker r) @ [cp]\<rparr>)\<rparr>"
    "\<not> dw_ended (rv_walker r)" "dw_closed (rv_walker r) = None"
  using assms by (auto simp: recv_update_def walker_update_def split: option.splits if_splits prod.splits)

lemma recv_updates_result:
  assumes "recv_updates ps r = (None, r')"
  shows "r' = r\<lparr>rv_walker := (rv_walker r)\<lparr>dw_chan := dw_chan (rv_walker r) @ ps\<rparr>\<rparr>"
  using assms
proof (induction ps arbitrary: r)
  case Nil
  then show ?case by simp
next
  case (Cons p ps)
  then obtain r1 where "recv_update (Some p) r = (None, r1)" "recv_updates ps r1 = (None, r')"
    by (auto split: prod.splits option.splits)
  then show ?case using recv_update_result(1)[of "Some p" r r1] Cons.IH[of r1] by simp
qed

lemma slash_id [simp]: "to_slash p = p" "from_slash p = p"
  by (simp_all add: to_slash_def from_slash_def)

lemma stat_path_id [simp]: "st\<lparr>st_path := st_path st, st_linkname := st_linkname st\<rparr> = st"
  by simp

lemma next_of_more [simp]: "next_of e = RecvMore \<longleftrightarrow> e = None"
  by (cases e) (simp_all add: next_of_def)

text \<open>A STAT packet of a transfer that is not metadata-only, when it is accepted.\<close>

lemma recv_stat_entry_plain:
  assumes "recv_stat_entry opt False st r = (None, r')" "op_metadata_only opt = None"
  obtains v seen where
    "validator_handle_change ChangeKindAdd (st_path st) (StatInfo st) None (rv_order r) = Inr v"
    "hardlinks_handle_change ChangeKindAdd (st_path st) (StatInfo st) None (rv_links r) = Inr seen"
    "r' = r\<lparr>rv_files := (if file_can_request_data (st_mode st) then (rv_files r)(st_path st \<mapsto> rv_next r) else rv_files r),
        rv_next := rv_next r + 1, rv_order := v, rv_links := seen,
        rv_walker := (rv_walker r)\<lparr>dw_chan := dw_chan (rv_walker r) @ [\<lparr>cp_path = st_path st, cp_stat = st\<rparr>]\<rparr>\<rparr>"
proof -
  obtain v where v: "validator_handle_change ChangeKindAdd (st_path st) (StatInfo st) None (rv_order r) = Inr v"
    using assms(1) by (auto simp: recv_stat_entry_def Let_def split: sum.splits if_splits)
  obtain seen where seen: "hardlinks_handle_change ChangeKindAdd (st_path st) (StatInfo st) None (rv_links r) = Inr seen"
    using assms(1) v by (auto simp: recv_stat_entry_def Let_def split: sum.splits if_splits)
  have "recv_update (Some \<lparr>cp_path = st_path st, cp_stat = st\<rparr>)
      (r\<lparr>rv_files := (if file_can_request_data (st_mode st) then (rv_files r)(st_path st \<mapsto> rv_next r) else rv_files r),
        rv_next := rv_next r + 1, rv_order := v, rv_links := seen\<rparr>) = (None, r')"
    using assms v seen by (simp add: recv_stat_entry_def Let_def split: if_splits)
  from recv_update_result(1)[OF this] that[OF v seen] show ?thesis by simp
qed

definition stat_cp :: "stat \<Rightarrow> current_path" where
  "stat_cp st = \<lparr>cp_path = st_path st, cp_stat = st\<rparr>"

section \<open>Properties\<close>

text \<open>C36. The empty STAT packet ends the walk; a second one makes the receiver close a closed channel and
  any further entry, if it passes the validators, send on one: both panic, so a sender can crash it.\<close>

theorem receiver_second_end_panics:
  assumes "recv_packet env opt (empty_packet\<lparr>pk_type := PACKET_STAT\<rparr>) r = (RecvMore, r')"
  shows "(\<exists>r''. recv_packet env opt (empty_packet\<lparr>pk_type := PACKET_STAT\<rparr>) r' =
      (RecvReturn (Some (Panic ''close of closed channel'')), r'')) \<and>
    (\<forall>st v seen. op_metadata_only opt = None \<longrightarrow>
      validator_handle_change ChangeKindAdd (st_path st) (StatInfo st) None (rv_order r') = Inr v \<longrightarrow>
      hardlinks_handle_change ChangeKindAdd (st_path st) (StatInfo st) None (rv_links r') = Inr seen \<longrightarrow>
      fst (recv_packet env opt (stat_packet st) r') = RecvReturn (Some (Panic ''send on closed channel'')))"
proof -
  let ?p = "empty_packet\<lparr>pk_type := PACKET_STAT\<rparr>"
  have "recv_update None (recv_progress env opt ?p r) = (None, r')"
    using assms by (simp add: recv_packet_def Let_def recv_stat_def packet_types empty_packet_def split: prod.splits)
  note u = recv_update_result[OF this]
  have w: "dw_ended (rv_walker r')" "dw_closed (rv_walker r') = None" using u by simp_all
  have pr: "rv_walker (recv_progress env opt q r') = rv_walker r'" "rv_order (recv_progress env opt q r') = rv_order r'"
    "rv_links (recv_progress env opt q r') = rv_links r'" for q
    by (simp_all add: recv_progress_def Let_def)
  have "fst (recv_packet env opt (stat_packet st) r') = RecvReturn (Some (Panic ''send on closed channel''))"
    if m: "op_metadata_only opt = None"
      and v: "validator_handle_change ChangeKindAdd (st_path st) (StatInfo st) None (rv_order r') = Inr v"
      and h: "hardlinks_handle_change ChangeKindAdd (st_path st) (StatInfo st) None (rv_links r') = Inr seen" for st v seen
  proof -
    let ?r = "recv_progress env opt (stat_packet st) r'"
    have "fst (recv_stat env opt (Some st) ?r) = Some (Panic ''send on closed channel'')"
      using m v h pr[of "stat_packet st"] w
      by (simp add: recv_stat_def recv_stat_entry_def Let_def recv_update_def walker_update_def)
    moreover have "fst (recv_packet env opt (stat_packet st) r') = next_of (fst (recv_stat env opt (Some st) ?r))"
      by (simp add: recv_packet_def Let_def stat_packet_def packet_types empty_packet_def case_prod_unfold)
    ultimately show ?thesis by (simp add: next_of_def)
  qed
  moreover have "\<exists>r''. recv_packet env opt ?p r' = (RecvReturn (Some (Panic ''close of closed channel'')), r'')"
    using w pr[of ?p]
    by (simp add: recv_packet_def Let_def recv_stat_def packet_types empty_packet_def recv_update_def
        walker_update_def next_of_def)
  ultimately show ?thesis by blast
qed

definition plain_opt :: receive_opt where
  "plain_opt = \<lparr>op_merge = False, op_filter = None, op_differ = DiffMetadata, op_metadata_only = None, op_progress = False\<rparr>"

definition sample_receive_env :: receive_env where
  "sample_receive_env =
     \<lparr>rn_transfer = quiet_env, rn_stat_size = (\<lambda>st. length (st_path st)), rn_marshal = (\<lambda>st. Inr (st_path st)),
      rn_write = (\<lambda>w bs. None), rn_close = (\<lambda>w. None)\<rparr>"

theorem receiver_second_end_panics_witness:
  "\<exists>r''. recv_packet sample_receive_env plain_opt (empty_packet\<lparr>pk_type := PACKET_STAT\<rparr>)
      (snd (recv_packet sample_receive_env plain_opt (empty_packet\<lparr>pk_type := PACKET_STAT\<rparr>) new_receiver)) =
    (RecvReturn (Some (Panic ''close of closed channel'')), r'')"
proof -
  let ?r = "recv_packet sample_receive_env plain_opt (empty_packet\<lparr>pk_type := PACKET_STAT\<rparr>) new_receiver"
  have run: "?r = (RecvMore, snd ?r)"
    by (simp add: recv_packet_def recv_progress_def plain_opt_def recv_stat_def recv_update_def walker_update_def
        new_receiver_def new_dynamic_walker_def packet_types empty_packet_def Let_def)
  from receiver_second_end_panics[OF run] show ?thesis by blast
qed

text \<open>In a metadata-only transfer the receiver drops the entry \<open>.fsutil-metadata\<close> without counting it,
  while the sender has counted it: from then on the receiver's numbers are one behind the sender's,
  and it requests the wrong files.\<close>

theorem metadata_path_not_counted:
  assumes "op_metadata_only opt \<noteq> None" "st_path st = metadata_path" "sd_next s = rv_next r"
    and "sender_walk_entry env' (''.fsutil-metadata'', entry_of_stat st, None) s = (None, s')"
  shows "\<exists>r'. recv_packet env opt (stat_packet st) r = (RecvMore, r') \<and> rv_next r' = rv_next r \<and>
    sd_next s' = rv_next r' + 1"
proof -
  obtain m where m: "op_metadata_only opt = Some m" using assms(1) by auto
  obtain st' where "sd_next s' = sd_next s + 1" using assms(4) by (rule sender_walk_entry_result)
  moreover have "recv_packet env opt (stat_packet st) r = (RecvMore, recv_progress env opt (stat_packet st) r)"
    using assms(2) m
    by (simp add: recv_packet_def recv_stat_def stat_packet_def packet_types empty_packet_def Let_def)
  ultimately show ?thesis using assms(3) by (simp add: recv_progress_def Let_def)
qed

theorem metadata_path_not_counted_witness:
  "\<exists>s' r'. sender_walk_entry quiet_env (''.fsutil-metadata'', entry_of_stat (empty_stat\<lparr>st_path := ''.fsutil-metadata''\<rparr>), None)
      new_sender = (None, s') \<and> sd_next s' = 1 \<and>
    recv_packet sample_receive_env (plain_opt\<lparr>op_metadata_only := Some (\<lambda>p st. (True, st))\<rparr>)
      (stat_packet (empty_stat\<lparr>st_path := ''.fsutil-metadata''\<rparr>)) new_receiver = (RecvMore, r') \<and> rv_next r' = 0"
proof -
  let ?st = "empty_stat\<lparr>st_path := ''.fsutil-metadata''\<rparr>"
  let ?o = "plain_opt\<lparr>op_metadata_only := Some (\<lambda>p st. (True, st))\<rparr>"
  let ?s = "sender_walk_entry quiet_env (''.fsutil-metadata'', entry_of_stat ?st, None) new_sender"
  have run: "?s = (None, snd ?s)"
    by (simp add: sender_walk_entry_def entry_of_stat_def quiet_env_def sync_send_def update_progress_def wrap_error_def Let_def)
  have "op_metadata_only ?o \<noteq> None" "st_path ?st = metadata_path" "sd_next new_sender = rv_next new_receiver"
    by (simp_all add: metadata_path_def new_sender_def new_receiver_def)
  from metadata_path_not_counted[OF this run, of sample_receive_env] run show ?thesis
    by (auto simp: new_receiver_def)
qed

text \<open>In a metadata-only transfer a matching directory is pushed on the stack of directories before the
  stack is replayed, and then sent itself: the tree diff sees it twice.\<close>

theorem metadata_directory_twice:
  assumes "recv_metadata False cp r = (None, r')" "mode_is_dir (st_mode (cp_stat cp))"
  shows "\<exists>parents. dw_chan (rv_walker r') = dw_chan (rv_walker r) @ parents @ [cp, cp]"
proof -
  define ps where "ps = pop_parents (dir (cp_path cp)) (rv_parents r)"
  let ?r = "r\<lparr>rv_parents := ps @ [cp]\<rparr>"
  obtain r1 where r1: "recv_updates (ps @ [cp]) ?r = (None, r1)"
    and r2: "recv_update (Some cp) (r1\<lparr>rv_parents := stack_clear (ps @ [cp])\<rparr>) = (None, r')"
    using assms unfolding recv_metadata_def Let_def ps_def[symmetric] stack_push_def
    by (auto split: prod.splits option.splits)
  show ?thesis using recv_updates_result[OF r1] recv_update_result(1)[OF r2] by simp
qed

theorem metadata_directory_twice_witness:
  "\<exists>parents. dw_chan (rv_walker (snd (recv_metadata False (stat_cp sample_dir_stat) new_receiver))) =
     parents @ [stat_cp sample_dir_stat, stat_cp sample_dir_stat]"
proof -
  let ?r = "recv_metadata False (stat_cp sample_dir_stat) new_receiver"
  have d: "mode_is_dir (st_mode (cp_stat (stat_cp sample_dir_stat)))"
    by (simp add: stat_cp_def sample_stats mode_is_dir_def has_mode_def mode_bits)
  have run: "?r = (None, snd ?r)"
    by (simp add: recv_metadata_def new_receiver_def pop_parents.simps stack_peek_def stack_push_def recv_update_def
        walker_update_def new_dynamic_walker_def stack_clear_def Let_def)
  from metadata_directory_twice[OF run d] show ?thesis by (simp add: new_receiver_def new_dynamic_walker_def)
qed

end
