(* ===== verification/Transfer_Session.thy ===== *)
theory Transfer_Session
  imports Receiver "HOL-Library.Multiset"
begin

text \<open>
  A transfer: a sender and a receiver joined by two streams, each of them several goroutines. The
  state is both sides' state; a step is one operation of one goroutine, so every interleaving is
  a run of \<open>session_step\<close>. The streams deliver in order and lose nothing: what is on its way is
  the part of \<open>sd_out\<close> (or \<open>rv_out\<close>) that the other side has not handled yet.

  The file writers of the receiver may request any file whose STAT packet was accepted, at any
  time. The steps are those of an undisturbed transfer: an operation that reports an error ends its
  goroutine and is not a step here.

  The lemmas show by one invariant that the two sides agree on the files' numbers, that no
  request and no DATA packet is ever refused, and that a file that is closed has received
  exactly the content of the sender's file of that path, however the transfers were interleaved.
\<close>

section \<open>Steps\<close>

text \<open>A file being sent: its handle and what is still to be read.\<close>

type_synonym worker = "(send_handle \<times> reads) option"

record session =
  se_calls :: "walk_call list"
  se_ended :: bool
  se_sender :: sender
  se_workers :: "worker list"
  se_got :: nat
  se_receiver :: receiver
  se_seen :: nat

definition opened :: "(string \<Rightarrow> reads res) \<Rightarrow> string \<Rightarrow> reads" where
  "opened open_path p = (case open_path p of Inl e \<Rightarrow> [] | Inr f \<Rightarrow> f)"

text \<open>What is left to read after a \<open>Read\<close> with this error.\<close>

definition rest_reads :: "go_error option \<Rightarrow> reads \<Rightarrow> reads" where
  "rest_reads err rs = (if err = None then rs else [])"

text \<open>Handing an entry to the dynamic walker waits while \<open>walkChan\<close> is full.\<close>

definition walk_chan_cap :: nat where
  "walk_chan_cap = 128"

definition can_receive :: "packet \<Rightarrow> dyn_walker \<Rightarrow> bool" where
  "can_receive p w \<longleftrightarrow> pk_type p \<noteq> PACKET_STAT \<or> pk_stat p = None \<or> length (dw_chan w) < walk_chan_cap"

inductive session_step :: "receive_env \<Rightarrow> receive_opt \<Rightarrow> (string \<Rightarrow> reads res) \<Rightarrow> session \<Rightarrow> session \<Rightarrow> bool"
  for env opt open_path where
  step_walk: "se_calls s = c # cs \<Longrightarrow> sender_walk_entry (rn_transfer env) c (se_sender s) = (None, sd) \<Longrightarrow>
    session_step env opt open_path s (s\<lparr>se_calls := cs, se_sender := sd\<rparr>)"
| step_walk_end: "se_calls s = [] \<Longrightarrow> \<not> se_ended s \<Longrightarrow>
    sync_send (rn_transfer env) (empty_packet\<lparr>pk_type := PACKET_STAT\<rparr>) (se_sender s) = (None, sd) \<Longrightarrow>
    session_step env opt open_path s (s\<lparr>se_ended := True, se_sender := sd\<rparr>)"
| step_queue: "se_seen s < length (rv_out (se_receiver s)) \<Longrightarrow> can_queue (se_sender s) \<Longrightarrow>
    sender_recv (rn_transfer env) (rv_out (se_receiver s) ! se_seen s) (se_sender s) = (Continue, sd) \<Longrightarrow>
    session_step env opt open_path s (s\<lparr>se_seen := Suc (se_seen s), se_sender := sd\<rparr>)"
| step_open: "k < length (se_workers s) \<Longrightarrow> se_workers s ! k = None \<Longrightarrow> sd_pipeline (se_sender s) = h # hs \<Longrightarrow>
    session_step env opt open_path s
      (s\<lparr>se_workers := (se_workers s)[k := Some (h, opened open_path (sh_path h))],
         se_sender := (se_sender s)\<lparr>sd_pipeline := hs\<rparr>\<rparr>)"
| step_data: "k < length (se_workers s) \<Longrightarrow> se_workers s ! k = Some (h, (bs, err) # rs) \<Longrightarrow>
    copy_buffer (rn_transfer env) (sh_id h) [(bs, err)] (se_sender s) = (None, sd) \<Longrightarrow>
    session_step env opt open_path s
      (s\<lparr>se_workers := (se_workers s)[k := Some (h, rest_reads err rs)], se_sender := sd\<rparr>)"
| step_eof: "k < length (se_workers s) \<Longrightarrow> se_workers s ! k = Some (h, []) \<Longrightarrow>
    sync_send (rn_transfer env) (data_packet (sh_id h) []) (se_sender s) = (None, sd) \<Longrightarrow>
    session_step env opt open_path s (s\<lparr>se_workers := (se_workers s)[k := None], se_sender := sd\<rparr>)"
| step_recv: "se_got s < length (sd_out (se_sender s)) \<Longrightarrow>
    can_receive (sd_out (se_sender s) ! se_got s) (rv_walker (se_receiver s)) \<Longrightarrow>
    recv_packet env opt (sd_out (se_sender s) ! se_got s) (se_receiver s) = (RecvMore, rv) \<Longrightarrow>
    session_step env opt open_path s (s\<lparr>se_got := Suc (se_got s), se_receiver := rv\<rparr>)"
| step_request: "async_request env p (se_receiver s) = (None, rv) \<Longrightarrow>
    session_step env opt open_path s (s\<lparr>se_receiver := rv\<rparr>)"
| step_finish: "rv_pipes (se_receiver s) fid = Some k \<Longrightarrow>
    async_finish False fid k (se_receiver s) = Some (None, rv) \<Longrightarrow>
    session_step env opt open_path s (s\<lparr>se_receiver := rv\<rparr>)"
| step_fill: "walker_fill False (rv_walker (se_receiver s)) = (FillPath cp, w) \<Longrightarrow>
    session_step env opt open_path s (s\<lparr>se_receiver := (se_receiver s)\<lparr>rv_walker := w\<rparr>\<rparr>)"

definition initial_session :: "walk_call list \<Rightarrow> session" where
  "initial_session calls =
     \<lparr>se_calls = calls, se_ended = False, se_sender = new_sender, se_workers = replicate 4 None, se_got = 0,
      se_receiver = new_receiver, se_seen = 0\<rparr>"

inductive session_reachable ::
  "receive_env \<Rightarrow> receive_opt \<Rightarrow> (string \<Rightarrow> reads res) \<Rightarrow> walk_call list \<Rightarrow> session \<Rightarrow> bool"
  for env opt open_path calls where
  reach_start: "session_reachable env opt open_path calls (initial_session calls)"
| reach_step: "session_reachable env opt open_path calls s \<Longrightarrow> session_step env opt open_path s s' \<Longrightarrow>
    session_reachable env opt open_path calls s'"

section \<open>What a stream carries\<close>

definition stats_of :: "packet list \<Rightarrow> stat list" where
  "stats_of ps = map (\<lambda>p. the (pk_stat p)) (filter (\<lambda>p. pk_type p = PACKET_STAT \<and> pk_stat p \<noteq> None) ps)"

definition chunks_for :: "32 word \<Rightarrow> packet list \<Rightarrow> string list" where
  "chunks_for fid ps = map pk_data (filter (\<lambda>p. pk_type p = PACKET_DATA \<and> pk_id p = fid) ps)"

definition file_chunks :: "(string \<Rightarrow> reads res) \<Rightarrow> string \<Rightarrow> string list" where
  "file_chunks open_path p = reads_data (opened open_path p) @ [[]]"

lemma stats_of_append [simp]: "stats_of (ps @ qs) = stats_of ps @ stats_of qs"
  by (simp add: stats_of_def)

lemma chunks_for_append [simp]: "chunks_for fid (ps @ qs) = chunks_for fid ps @ chunks_for fid qs"
  by (simp add: chunks_for_def)

lemma stream_packets [simp]:
  "stats_of [] = []" "chunks_for fid [] = []"
  "stats_of [stat_packet st] = [st]" "chunks_for fid [stat_packet st] = []"
  "stats_of [empty_packet\<lparr>pk_type := PACKET_STAT\<rparr>] = []" "chunks_for fid [empty_packet\<lparr>pk_type := PACKET_STAT\<rparr>] = []"
  "stats_of [data_packet gid bs] = []" "chunks_for fid [data_packet gid bs] = (if gid = fid then [bs] else [])"
  by (simp_all add: stats_of_def chunks_for_def stat_packet_def data_packet_def empty_packet_def packet_types)

lemma reads_data_nonempty: "[] \<notin> set (reads_data rs)"
  by (induction rs rule: reads_data.induct) auto

lemma reads_data_step: "reads_data ((bs, err) # rs) = (if bs \<noteq> [] then [bs] else []) @ reads_data (rest_reads err rs)"
  by (simp add: rest_reads_def)

section \<open>The invariant\<close>

text \<open>The sender's numbers; \<open>taken\<close> are the numbers whose request it has handled.\<close>

definition number_inv :: "nat \<Rightarrow> packet list \<Rightarrow> 32 word \<Rightarrow> (32 word \<Rightarrow> string option) \<Rightarrow> 32 word set \<Rightarrow> bool" where
  "number_inv left out nxt files taken \<longleftrightarrow>
     length (stats_of out) + left \<le> 2 ^ 32 \<and> nxt = of_nat (length (stats_of out)) \<and>
     (\<forall>k < length (stats_of out). file_can_request_data (st_mode (stats_of out ! k)) \<longrightarrow> of_nat k \<notin> taken \<longrightarrow>
        files (of_nat k) = Some (st_path (stats_of out ! k)))"

text \<open>A number stands for a file: the position of a STAT packet with the path.\<close>

definition numbered :: "packet list \<Rightarrow> 32 word \<Rightarrow> string \<Rightarrow> bool" where
  "numbered ps fid p \<longleftrightarrow> (\<exists>k < length (stats_of ps). fid = of_nat k \<and>
     file_can_request_data (st_mode (stats_of ps ! k)) \<and> st_path (stats_of ps ! k) = p)"

definition ids :: "packet list \<Rightarrow> 32 word list" where
  "ids ps = map pk_id ps"

definition request_inv ::
  "packet list \<Rightarrow> 32 word \<Rightarrow> (string \<Rightarrow> 32 word option) \<Rightarrow> packet list \<Rightarrow> wrapped_writer list \<Rightarrow> (32 word \<Rightarrow> nat option) \<Rightarrow> bool" where
  "request_inv got nxt files reqs ws pipes \<longleftrightarrow>
     nxt = of_nat (length (stats_of got)) \<and>
     (\<forall>p fid. files p = Some fid \<longrightarrow> numbered got fid p \<and> fid \<notin> set (ids reqs)) \<and>
     length ws = length reqs \<and> distinct (ids reqs) \<and> (\<forall>q \<in> set reqs. pk_type q = PACKET_REQ) \<and>
     (\<forall>j < length reqs. numbered got (pk_id (reqs ! j)) (ww_path (ws ! j))) \<and>
     (\<forall>fid j. pipes fid = Some j \<longrightarrow> j < length reqs \<and> pk_id (reqs ! j) = fid) \<and>
     (\<forall>j < length reqs. pipes (pk_id (reqs ! j)) = None \<longrightarrow> ww_done (ws ! j)) \<and>
     (\<forall>j < length reqs. ww_written (ws ! j) = filter (\<lambda>d. d \<noteq> []) (chunks_for (pk_id (reqs ! j)) got) \<and>
        (ww_done (ws ! j) \<longleftrightarrow> [] \<in> set (chunks_for (pk_id (reqs ! j)) got)))"

text \<open>The files in work, with the pieces still to be sent.\<close>

definition worker_entry :: "worker \<Rightarrow> (32 word \<times> string list) list" where
  "worker_entry w = (case w of None \<Rightarrow> [] | Some (h, rs) \<Rightarrow> [(sh_id h, reads_data rs @ [[]])])"

definition worker_entries :: "worker list \<Rightarrow> (32 word \<times> string list) list" where
  "worker_entries ws = concat (map worker_entry ws)"

definition active :: "(string \<Rightarrow> reads res) \<Rightarrow> send_handle list \<Rightarrow> worker list \<Rightarrow> (32 word \<times> string list) list" where
  "active open_path pipe ws = map (\<lambda>h. (sh_id h, file_chunks open_path (sh_path h))) pipe @ worker_entries ws"

definition work_inv ::
  "(string \<Rightarrow> reads res) \<Rightarrow> packet list \<Rightarrow> packet list \<Rightarrow> string list \<Rightarrow> nat \<Rightarrow> (32 word \<times> string list) list \<Rightarrow> bool" where
  "work_inv open_path out reqs paths seen act \<longleftrightarrow>
     distinct (map fst act) \<and> fst ` set act \<subseteq> set (ids (take seen reqs)) \<and>
     (\<forall>j < length reqs. j < seen \<longrightarrow>
        (\<forall>rem. (pk_id (reqs ! j), rem) \<in> set act \<longrightarrow>
           chunks_for (pk_id (reqs ! j)) out @ rem = file_chunks open_path (paths ! j)) \<and>
        (pk_id (reqs ! j) \<notin> fst ` set act \<longrightarrow> chunks_for (pk_id (reqs ! j)) out = file_chunks open_path (paths ! j))) \<and>
     (\<forall>fid. fid \<notin> set (ids (take seen reqs)) \<longrightarrow> chunks_for fid out = [])"

definition session_inv :: "(string \<Rightarrow> reads res) \<Rightarrow> session \<Rightarrow> bool" where
  "session_inv open_path s \<longleftrightarrow>
     (let sd = se_sender s; rv = se_receiver s; got = take (se_got s) (sd_out sd) in
      se_got s \<le> length (sd_out sd) \<and> se_seen s \<le> length (rv_out rv) \<and>
      number_inv (length (se_calls s)) (sd_out sd) (sd_next sd) (sd_files sd) (set (ids (take (se_seen s) (rv_out rv)))) \<and>
      request_inv got (rv_next rv) (rv_files rv) (rv_out rv) (rv_writers rv) (rv_pipes rv) \<and>
      work_inv open_path (sd_out sd) (rv_out rv) (map ww_path (rv_writers rv)) (se_seen s)
        (active open_path (sd_pipeline sd) (se_workers s)) \<and>
      length (se_workers s) = 4 \<and>
      (\<forall>h rs. Some (h, rs) \<in> set (se_workers s) \<longrightarrow> set rs \<subseteq> set (opened open_path (sh_path h))))"

section \<open>Preservation, part by part\<close>

lemma numbered_mono: "numbered ps fid p \<Longrightarrow> numbered (ps @ qs) fid p"
  by (auto simp: numbered_def nth_append)

lemma numbered_inj:
  assumes "numbered ps fid p" "numbered ps fid q" "length (stats_of ps) \<le> 2 ^ 32"
  shows "p = q"
proof -
  obtain k l where k: "k < length (stats_of ps)" "fid = of_nat k" "st_path (stats_of ps ! k) = p"
    and l: "l < length (stats_of ps)" "fid = of_nat l" "st_path (stats_of ps ! l) = q"
    using assms(1,2) by (auto simp: numbered_def)
  have "k = l" by (rule of_nat_word_inj) (use k l assms(3) in auto)
  then show ?thesis using k l by simp
qed

lemma number_inv_walk:
  assumes "number_inv (Suc n) out nxt files taken"
  shows "number_inv n (out @ [stat_packet st]) (nxt + 1)
    (if file_can_request_data (st_mode st) then files(nxt \<mapsto> st_path st) else files) taken"
  unfolding number_inv_def
proof (intro conjI allI impI)
  let ?m = "length (stats_of out)"
  note N = assms(1)[unfolded number_inv_def]
  show "length (stats_of (out @ [stat_packet st])) + n \<le> 2 ^ 32" using N by simp
  show "nxt + 1 = of_nat (length (stats_of (out @ [stat_packet st])))" using N by simp
  fix k assume k: "k < length (stats_of (out @ [stat_packet st]))"
    "file_can_request_data (st_mode (stats_of (out @ [stat_packet st]) ! k))" "of_nat k \<notin> taken"
  show "(if file_can_request_data (st_mode st) then files(nxt \<mapsto> st_path st) else files) (of_nat k) =
      Some (st_path (stats_of (out @ [stat_packet st]) ! k))"
  proof (cases "k = ?m")
    case True
    then show ?thesis using N k by (simp add: nth_append)
  next
    case False
    then have "k < ?m" using k(1) by simp
    moreover have "of_nat k \<noteq> nxt" using of_nat_word_inj[of k ?m] N \<open>k < ?m\<close> by auto
    ultimately show ?thesis using N k by (simp add: nth_append)
  qed
qed

lemma number_inv_same_stats:
  assumes "number_inv n out nxt files taken" "stats_of out' = stats_of out"
  shows "number_inv n out' nxt files taken"
  using assms by (simp add: number_inv_def)

lemma number_inv_take:
  assumes "number_inv n out nxt files taken"
  shows "number_inv n out nxt (files(fid := None)) (insert fid taken)"
  using assms by (auto simp: number_inv_def)

lemma number_inv_file:
  assumes "number_inv n out nxt files taken" "numbered out fid p" "fid \<notin> taken"
  shows "files fid = Some p"
  using assms by (auto simp: number_inv_def numbered_def)

lemma request_inv_stat:
  assumes "request_inv got nxt files reqs ws pipes" "length (stats_of got) < 2 ^ 32"
    and q: "stats_of [q] = [st]" "\<And>fid. chunks_for fid [q] = []"
  shows "request_inv (got @ [q]) (nxt + 1)
    (if file_can_request_data (st_mode st) then files(st_path st \<mapsto> nxt) else files) reqs ws pipes"
proof -
  note R = assms(1)[unfolded request_inv_def]
  let ?m = "length (stats_of got)"
  have fresh: "nxt \<notin> set (ids reqs)"
  proof
    assume "nxt \<in> set (ids reqs)"
    then obtain j where j: "j < length reqs" "pk_id (reqs ! j) = nxt" by (auto simp: ids_def in_set_conv_nth)
    then obtain k where "k < ?m" "nxt = of_nat k" using R by (auto simp: numbered_def)
    moreover have "nxt = of_nat ?m" using R by blast
    ultimately show False using of_nat_word_inj[of k ?m] assms(2) by simp
  qed
  have new: "numbered (got @ [q]) nxt (st_path st)" if "file_can_request_data (st_mode st)"
    using R that q by (auto simp: numbered_def intro!: exI[of _ ?m])
  have "numbered (got @ [q]) fid p \<and> fid \<notin> set (ids reqs)"
    if "(if file_can_request_data (st_mode st) then files(st_path st \<mapsto> nxt) else files) p = Some fid" for p fid
    using that R new fresh numbered_mono by (cases "p = st_path st \<and> file_can_request_data (st_mode st)") (auto split: if_splits)
  then show ?thesis
    using R numbered_mono[of got _ _ "[q]"] q unfolding request_inv_def by simp
qed

lemma request_inv_other:
  assumes "request_inv got nxt files reqs ws pipes" "stats_of [q] = []" "\<And>fid. chunks_for fid [q] = []"
  shows "request_inv (got @ [q]) nxt files reqs ws pipes"
  using assms(1) numbered_mono[of got _ _ "[q]"] assms(2,3) unfolding request_inv_def by simp

lemma request_inv_data:
  assumes "request_inv got nxt files reqs ws pipes" "pipes fid = Some j"
    and q: "stats_of [q] = []" "\<And>f. chunks_for f [q] = (if fid = f then [bs] else [])"
    and path_eq: "ww_path w = ww_path (ws ! j)"
    and wr: "if bs = [] then ww_written w = ww_written (ws ! j) \<and> ww_done w
      else ww_written w = ww_written (ws ! j) @ [bs] \<and> ww_done w = ww_done (ws ! j)"
  shows "request_inv (got @ [q]) nxt files reqs (ws[j := w]) pipes"
proof -
  note R = assms(1)[unfolded request_inv_def]
  have j: "j < length reqs" "pk_id (reqs ! j) = fid" "j < length ws" using R assms(2) by auto
  have other: "pk_id (reqs ! k) \<noteq> fid" if "k < length reqs" "k \<noteq> j" for k
    using R j that by (auto simp: ids_def distinct_conv_nth)
  have path: "ww_path (ws[j := w] ! k) = ww_path (ws ! k)" for k
    using path_eq j by (cases "k = j") simp_all
  have "ww_done (ws[j := w] ! k)" if "k < length reqs" "pipes (pk_id (reqs ! k)) = None" for k
    using R j that assms(2) by (cases "k = j") auto
  moreover have "ww_written (ws[j := w] ! k) = filter (\<lambda>d. d \<noteq> []) (chunks_for (pk_id (reqs ! k)) (got @ [q])) \<and>
      (ww_done (ws[j := w] ! k) \<longleftrightarrow> [] \<in> set (chunks_for (pk_id (reqs ! k)) (got @ [q])))"
    if "k < length reqs" for k
  proof (cases "k = j")
    case True
    then show ?thesis using R j wr q by (cases "bs = []") auto
  next
    case False
    then show ?thesis using R j that other[OF that False] q by auto
  qed
  ultimately show ?thesis
    using R numbered_mono[of got _ _ "[q]"] path q unfolding request_inv_def by simp
qed

lemma request_inv_request:
  assumes "request_inv got nxt files reqs ws pipes" "files p = Some fid" "length (stats_of got) \<le> 2 ^ 32"
    and "chunks_for fid got = []"
  shows "request_inv got nxt (files(p := None)) (reqs @ [empty_packet\<lparr>pk_type := PACKET_REQ, pk_id := fid\<rparr>])
    (ws @ [new_wrapped_writer p]) (pipes(fid \<mapsto> length ws))"
proof -
  note R = assms(1)[unfolded request_inv_def]
  let ?q = "empty_packet\<lparr>pk_type := PACKET_REQ, pk_id := fid\<rparr>"
  have fid: "numbered got fid p" "fid \<notin> set (ids reqs)" using R assms(2) by auto
  have q: "pk_id ?q = fid" "pk_type ?q = PACKET_REQ" by simp_all
  have len: "length ws = length reqs" using R by blast
  have nth: "(reqs @ [?q]) ! j = (if j < length reqs then reqs ! j else ?q)"
    "(ws @ [new_wrapped_writer p]) ! j = (if j < length reqs then ws ! j else new_wrapped_writer p)"
    if "j < length (reqs @ [?q])" for j
    using that len by (auto simp: nth_append)
  have neq: "pk_id (reqs ! j) \<noteq> fid" if "j < length reqs" for j
    using fid(2) that by (auto simp: ids_def)
  show ?thesis
    unfolding request_inv_def
  proof (intro conjI allI impI ballI)
    show "nxt = of_nat (length (stats_of got))" using R by blast
    show "numbered got f r" if "(files(p := None)) r = Some f" for r f
      using that R by (auto split: if_splits)
    show "f \<notin> set (ids (reqs @ [?q]))" if "(files(p := None)) r = Some f" for r f
    proof -
      have r: "r \<noteq> p" "files r = Some f" using that by (auto split: if_splits)
      then have "numbered got f r" "f \<notin> set (ids reqs)" using R by auto
      moreover have "f \<noteq> fid" using numbered_inj[OF _ fid(1) assms(3)] calculation r by auto
      ultimately show ?thesis by (simp add: ids_def)
    qed
    show "length (ws @ [new_wrapped_writer p]) = length (reqs @ [?q])" using len by simp
    show "distinct (ids (reqs @ [?q]))" using R fid(2) by (simp add: ids_def)
    show "pk_type x = PACKET_REQ" if "x \<in> set (reqs @ [?q])" for x using that R by auto
    fix j assume j: "j < length (reqs @ [?q])"
    show "numbered got (pk_id ((reqs @ [?q]) ! j)) (ww_path ((ws @ [new_wrapped_writer p]) ! j))"
      using R fid(1) unfolding nth[OF j] by (simp add: new_wrapped_writer_def)
    show "ww_done ((ws @ [new_wrapped_writer p]) ! j)" if "(pipes(fid \<mapsto> length ws)) (pk_id ((reqs @ [?q]) ! j)) = None"
      using R that neq unfolding nth[OF j] by (auto split: if_splits)
    show "ww_written ((ws @ [new_wrapped_writer p]) ! j) = filter (\<lambda>d. d \<noteq> []) (chunks_for (pk_id ((reqs @ [?q]) ! j)) got)"
      "ww_done ((ws @ [new_wrapped_writer p]) ! j) \<longleftrightarrow> [] \<in> set (chunks_for (pk_id ((reqs @ [?q]) ! j)) got)"
      using R assms(4) unfolding nth[OF j] by (auto simp: new_wrapped_writer_def)
  next
    show "j < length (reqs @ [?q])" "pk_id ((reqs @ [?q]) ! j) = f" if "(pipes(fid \<mapsto> length ws)) f = Some j" for f j
    proof -
      have "j < length (reqs @ [?q]) \<and> pk_id ((reqs @ [?q]) ! j) = f"
      proof (cases "f = fid")
        case True
        then show ?thesis using that len by (auto simp: nth_append)
      next
        case False
        then have "pipes f = Some j" using that by simp
        then have "j < length reqs \<and> pk_id (reqs ! j) = f" using R by blast
        then show ?thesis by (simp add: nth_append)
      qed
      then show "j < length (reqs @ [?q])" "pk_id ((reqs @ [?q]) ! j) = f" by simp_all
    qed
  qed
qed

lemma request_inv_finish:
  assumes "request_inv got nxt files reqs ws pipes" "pipes fid = Some j" "ww_done (ws ! j)"
  shows "request_inv got nxt files reqs ws (pipes(fid := None))"
proof -
  note R = assms(1)[unfolded request_inv_def]
  have j: "j < length reqs" "pk_id (reqs ! j) = fid" using R assms(2) by auto
  have "ww_done (ws ! k)" if "k < length reqs" "(pipes(fid := None)) (pk_id (reqs ! k)) = None" for k
  proof (cases "pk_id (reqs ! k) = fid")
    case True
    then have "k = j" using R j that(1) by (auto simp: ids_def distinct_conv_nth)
    then show ?thesis using assms(3) by simp
  next
    case False
    then show ?thesis using R that by auto
  qed
  then show ?thesis using R unfolding request_inv_def by auto
qed

text \<open>The files in work, seen as a multiset.\<close>

lemma worker_entries_split:
  assumes "k < length ws"
  shows "mset (worker_entries ws) = mset (worker_entry (ws ! k) @ worker_entries (take k ws @ drop (Suc k) ws))"
    "mset (worker_entries (ws[k := w])) = mset (worker_entry w @ worker_entries (take k ws @ drop (Suc k) ws))"
proof -
  have "ws = take k ws @ ws ! k # drop (Suc k) ws" by (rule id_take_nth_drop[OF assms])
  then have "mset (worker_entries ws) = mset (worker_entries (take k ws @ ws ! k # drop (Suc k) ws))" by simp
  then show "mset (worker_entries ws) = mset (worker_entry (ws ! k) @ worker_entries (take k ws @ drop (Suc k) ws))"
    by (simp add: worker_entries_def)
  show "mset (worker_entries (ws[k := w])) = mset (worker_entry w @ worker_entries (take k ws @ drop (Suc k) ws))"
    by (simp add: worker_entries_def upd_conv_take_nth_drop[OF assms])
qed

lemma work_inv_perm:
  assumes "work_inv open_path out reqs paths seen act" "mset act = mset act'"
  shows "work_inv open_path out reqs paths seen act'"
proof -
  have "mset (map fst act) = mset (map fst act')" using assms(2) by simp
  then have "distinct (map fst act) = distinct (map fst act')" by (rule mset_eq_imp_distinct_iff)
  moreover have "set act = set act'" using assms(2) by (rule mset_eq_setD)
  ultimately show ?thesis using assms(1) by (simp add: work_inv_def)
qed

lemma work_inv_same_chunks:
  assumes "work_inv open_path out reqs paths seen act" "\<And>fid. chunks_for fid out' = chunks_for fid out"
  shows "work_inv open_path out' reqs paths seen act"
  using assms by (simp add: work_inv_def)

lemma work_inv_request:
  assumes "work_inv open_path out reqs paths seen act" "length paths = length reqs" "seen \<le> length reqs"
  shows "work_inv open_path out (reqs @ [q]) (paths @ [p]) seen act"
proof -
  have "take seen (reqs @ [q]) = take seen reqs" using assms(3) by simp
  moreover have "(reqs @ [q]) ! j = reqs ! j" "(paths @ [p]) ! j = paths ! j" if "j < seen" for j
    using that assms(2,3) by (auto simp: nth_append)
  ultimately show ?thesis using assms unfolding work_inv_def by auto
qed

lemma work_inv_queue:
  assumes "work_inv open_path out reqs paths seen act" "seen < length reqs" "distinct (ids reqs)"
  shows "work_inv open_path out reqs paths (Suc seen) ((pk_id (reqs ! seen), file_chunks open_path (paths ! seen)) # act)"
proof -
  note W = assms(1)[unfolded work_inv_def]
  let ?fid = "pk_id (reqs ! seen)"
  have take: "ids (take (Suc seen) reqs) = ids (take seen reqs) @ [?fid]"
    using assms(2) by (simp add: take_Suc_conv_app_nth ids_def)
  have neq: "pk_id (reqs ! j) \<noteq> ?fid" if "j < seen" for j
    using that assms(2,3) by (auto simp: ids_def distinct_conv_nth)
  have fresh: "?fid \<notin> set (ids (take seen reqs))"
  proof
    assume "?fid \<in> set (ids (take seen reqs))"
    then obtain i where "i < seen" "pk_id (reqs ! i) = ?fid" using assms(2) by (auto simp: ids_def in_set_conv_nth)
    with neq show False by blast
  qed
  then have none: "?fid \<notin> fst ` set act" "chunks_for ?fid out = []" using W by auto
  show ?thesis
    unfolding work_inv_def
  proof (intro conjI allI impI)
    show "distinct (map fst ((?fid, file_chunks open_path (paths ! seen)) # act))" using W none by simp
    show "fst ` set ((?fid, file_chunks open_path (paths ! seen)) # act) \<subseteq> set (ids (take (Suc seen) reqs))"
      using W take by auto
    show "chunks_for fid out = []" if "fid \<notin> set (ids (take (Suc seen) reqs))" for fid
      using that W take by simp
    fix j assume j: "j < length reqs" "j < Suc seen"
    show "chunks_for (pk_id (reqs ! j)) out @ rem = file_chunks open_path (paths ! j)"
      if "(pk_id (reqs ! j), rem) \<in> set ((?fid, file_chunks open_path (paths ! seen)) # act)" for rem
    proof (cases "j = seen")
      case True
      then show ?thesis using that none by (auto simp: image_iff)
    next
      case False
      then show ?thesis using that j W neq[of j] by auto
    qed
    show "chunks_for (pk_id (reqs ! j)) out = file_chunks open_path (paths ! j)"
      if "pk_id (reqs ! j) \<notin> fst ` set ((?fid, file_chunks open_path (paths ! seen)) # act)"
      using that j W by (cases "j = seen") auto
  qed
qed

lemma work_inv_data:
  assumes "work_inv open_path out reqs paths seen ((fid, cs @ rem) # act)"
    and "\<And>f. chunks_for f out' = chunks_for f out @ (if f = fid then cs else [])"
  shows "work_inv open_path out' reqs paths seen ((fid, rem) # act)"
proof -
  note W = assms(1)[unfolded work_inv_def]
  have fid: "fid \<in> set (ids (take seen reqs))" "fid \<notin> fst ` set act" using W by auto
  have "chunks_for (pk_id (reqs ! j)) out' @ r = file_chunks open_path (paths ! j)"
    if "j < length reqs" "j < seen" "(pk_id (reqs ! j), r) \<in> set ((fid, rem) # act)" for j r
  proof (cases "pk_id (reqs ! j) = fid")
    case True
    then have "r = rem" using that(3) fid(2) by (auto simp: image_iff)
    moreover have "chunks_for fid out @ cs @ rem = file_chunks open_path (paths ! j)" using W that(1,2) True by simp
    ultimately show ?thesis using assms(2)[of fid] True by simp
  next
    case False
    then show ?thesis using W that assms(2) by auto
  qed
  moreover have "chunks_for f out' = []" if "f \<notin> set (ids (take seen reqs))" for f
    using W that fid assms(2) by auto
  moreover have "chunks_for (pk_id (reqs ! j)) out' = file_chunks open_path (paths ! j)"
    if "j < length reqs" "j < seen" "pk_id (reqs ! j) \<notin> fst ` set ((fid, rem) # act)" for j
    using W that assms(2) by auto
  ultimately show ?thesis using W unfolding work_inv_def by simp
qed

lemma work_inv_eof:
  assumes "work_inv open_path out reqs paths seen ((fid, [[]]) # act)"
    and "\<And>f. chunks_for f out' = chunks_for f out @ (if f = fid then [[]] else [])"
  shows "work_inv open_path out' reqs paths seen act"
proof -
  note W = work_inv_data[of open_path out reqs paths seen fid "[[]]" "[]" act out', simplified, OF assms, unfolded work_inv_def]
  have fid: "fid \<notin> fst ` set act" using W by simp
  have "chunks_for (pk_id (reqs ! j)) out' @ rem = file_chunks open_path (paths ! j)"
    if "j < length reqs" "j < seen" "(pk_id (reqs ! j), rem) \<in> set act" for j rem
    using W that by auto
  moreover have "chunks_for (pk_id (reqs ! j)) out' = file_chunks open_path (paths ! j)"
    if "j < length reqs" "j < seen" "pk_id (reqs ! j) \<notin> fst ` set act" for j
  proof (cases "pk_id (reqs ! j) = fid")
    case True
    then have "(pk_id (reqs ! j), []) \<in> set ((fid, []) # act)" by simp
    then have "chunks_for (pk_id (reqs ! j)) out' @ [] = file_chunks open_path (paths ! j)" using W that(1,2) by blast
    then show ?thesis by simp
  next
    case False
    then show ?thesis using W that by simp
  qed
  ultimately show ?thesis using W unfolding work_inv_def by simp
qed

section \<open>Preservation, step by step\<close>

lemma session_inv_initial:
  assumes "length calls \<le> 2 ^ 32"
  shows "session_inv open_path (initial_session calls)"
  using assms
  by (auto simp: session_inv_def initial_session_def new_sender_def new_receiver_def number_inv_def request_inv_def
      work_inv_def active_def worker_entries_def worker_entry_def ids_def Let_def in_set_conv_nth)

lemma session_inv_walk:
  assumes "session_inv open_path s" "se_calls s = c # cs" "sender_walk_entry env c (se_sender s) = (None, sd)"
  shows "session_inv open_path (s\<lparr>se_calls := cs, se_sender := sd\<rparr>)"
proof -
  note I = assms(1)[unfolded session_inv_def Let_def]
  obtain st where st: "sd_out sd = sd_out (se_sender s) @ [stat_packet st]" "sd_next sd = sd_next (se_sender s) + 1"
    "sd_files sd = (if file_can_request_data (st_mode st) then (sd_files (se_sender s))(sd_next (se_sender s) \<mapsto> st_path st)
      else sd_files (se_sender s))" "sd_pipeline sd = sd_pipeline (se_sender s)"
    using assms(3) by (rule sender_walk_entry_result)
  have "number_inv (Suc (length cs)) (sd_out (se_sender s)) (sd_next (se_sender s)) (sd_files (se_sender s))
      (set (ids (take (se_seen s) (rv_out (se_receiver s)))))"
    using I assms(2) by simp
  note n = number_inv_walk[OF this, of st]
  have w: "work_inv open_path (sd_out (se_sender s) @ [stat_packet st]) (rv_out (se_receiver s))
      (map ww_path (rv_writers (se_receiver s))) (se_seen s) (active open_path (sd_pipeline (se_sender s)) (se_workers s))"
    by (rule work_inv_same_chunks) (use I in auto)
  show ?thesis using I n w st by (simp add: session_inv_def Let_def)
qed

text \<open>The two steps of the sender that send something else.\<close>

lemma session_inv_sent:
  assumes "session_inv open_path s" "stats_of [q] = []" "sd_out sd = sd_out (se_sender s) @ [q]"
    "sd_next sd = sd_next (se_sender s)" "sd_files sd = sd_files (se_sender s)" "sd_pipeline sd = sd_pipeline (se_sender s)"
    and "work_inv open_path (sd_out (se_sender s) @ [q]) (rv_out (se_receiver s)) (map ww_path (rv_writers (se_receiver s)))
      (se_seen s) (active open_path (sd_pipeline (se_sender s)) ws)"
    and "length ws = 4" "\<forall>h rs. Some (h, rs) \<in> set ws \<longrightarrow> set rs \<subseteq> set (opened open_path (sh_path h))"
  shows "session_inv open_path (s\<lparr>se_workers := ws, se_sender := sd\<rparr>)"
proof -
  note I = assms(1)[unfolded session_inv_def Let_def]
  have "number_inv (length (se_calls s)) (sd_out (se_sender s) @ [q]) (sd_next (se_sender s)) (sd_files (se_sender s))
      (set (ids (take (se_seen s) (rv_out (se_receiver s)))))"
    by (rule number_inv_same_stats) (use I assms(2) in auto)
  then show ?thesis using I assms(3-9) by (simp add: session_inv_def Let_def)
qed

lemma session_inv_walk_end:
  assumes "session_inv open_path s"
    and "sync_send env (empty_packet\<lparr>pk_type := PACKET_STAT\<rparr>) (se_sender s) = (None, sd)"
  shows "session_inv open_path (s\<lparr>se_ended := True, se_sender := sd\<rparr>)"
proof -
  note I = assms(1)[unfolded session_inv_def Let_def] and f = sync_send_frame[OF assms(2)]
  have "session_inv open_path (s\<lparr>se_workers := se_workers s, se_sender := sd\<rparr>)"
  proof (rule session_inv_sent[OF assms(1)])
    show "work_inv open_path (sd_out (se_sender s) @ [empty_packet\<lparr>pk_type := PACKET_STAT\<rparr>]) (rv_out (se_receiver s))
        (map ww_path (rv_writers (se_receiver s))) (se_seen s) (active open_path (sd_pipeline (se_sender s)) (se_workers s))"
      by (rule work_inv_same_chunks) (use I in auto)
  qed (use f I in auto)
  then show ?thesis by (simp add: session_inv_def Let_def)
qed

lemma active_split:
  assumes "k < length ws"
  shows "mset (active open_path pipe ws) =
      mset (worker_entry (ws ! k) @ active open_path pipe (take k ws @ drop (Suc k) ws))"
    "mset (active open_path pipe (ws[k := w])) = mset (worker_entry w @ active open_path pipe (take k ws @ drop (Suc k) ws))"
  using worker_entries_split[OF assms] by (simp_all add: active_def)

lemma work_inv_worker:
  assumes "work_inv open_path out reqs paths seen (active open_path pipe ws)" "k < length ws"
    and "\<And>act. work_inv open_path out reqs paths seen (worker_entry (ws ! k) @ act) \<Longrightarrow>
      work_inv open_path out' reqs paths seen (worker_entry w @ act)"
  shows "work_inv open_path out' reqs paths seen (active open_path pipe (ws[k := w]))"
proof -
  let ?act = "active open_path pipe (take k ws @ drop (Suc k) ws)"
  have "work_inv open_path out reqs paths seen (worker_entry (ws ! k) @ ?act)"
    by (rule work_inv_perm[OF assms(1) active_split(1)[OF assms(2)]])
  then have "work_inv open_path out' reqs paths seen (worker_entry w @ ?act)" by (rule assms(3))
  then show ?thesis by (rule work_inv_perm) (rule active_split(2)[OF assms(2), symmetric])
qed

lemma copy_one_result:
  assumes "copy_buffer env fid [(bs, err)] s = (None, sd)"
  shows "sd_out sd = sd_out s @ (if bs = [] then [] else [data_packet fid bs])" "sd_next sd = sd_next s"
    "sd_files sd = sd_files s" "sd_pipeline sd = sd_pipeline s"
proof -
  have "sd_next sd = sd_next s"
    using assms sync_send_frame(3)[of env "data_packet fid bs" s]
    by (auto simp: file_sender_write_def data_packet_def Let_def split: if_splits prod.splits option.splits go_error.splits)
  then show "sd_out sd = sd_out s @ (if bs = [] then [] else [data_packet fid bs])" "sd_next sd = sd_next s"
    "sd_files sd = sd_files s" "sd_pipeline sd = sd_pipeline s"
    using copy_buffer_result[OF assms] by auto
qed

lemma session_inv_data:
  assumes "session_inv open_path s" "k < length (se_workers s)" "se_workers s ! k = Some (h, (bs, err) # rs)"
    and "copy_buffer env (sh_id h) [(bs, err)] (se_sender s) = (None, sd)"
  shows "session_inv open_path (s\<lparr>se_workers := (se_workers s)[k := Some (h, rest_reads err rs)], se_sender := sd\<rparr>)"
proof -
  note I = assms(1)[unfolded session_inv_def Let_def] and c = copy_one_result[OF assms(4)]
  let ?ps = "if bs = [] then [] else [data_packet (sh_id h) bs]"
  let ?ws = "(se_workers s)[k := Some (h, rest_reads err rs)]"
  have "Some (h, (bs, err) # rs) \<in> set (se_workers s)" using assms(2,3) by (metis nth_mem)
  then have "set ((bs, err) # rs) \<subseteq> set (opened open_path (sh_path h))" using I by blast
  then have ws: "\<forall>h' rs'. Some (h', rs') \<in> set ?ws \<longrightarrow> set rs' \<subseteq> set (opened open_path (sh_path h'))"
    using I set_update_subset_insert[of "se_workers s" k] by (fastforce simp: rest_reads_def)
  have n: "number_inv (length (se_calls s)) (sd_out (se_sender s) @ ?ps) (sd_next (se_sender s)) (sd_files (se_sender s))
      (set (ids (take (se_seen s) (rv_out (se_receiver s)))))"
    by (rule number_inv_same_stats) (use I in auto)
  have "work_inv open_path (sd_out (se_sender s) @ ?ps) (rv_out (se_receiver s))
      (map ww_path (rv_writers (se_receiver s))) (se_seen s) (active open_path (sd_pipeline (se_sender s)) ?ws)"
  proof (rule work_inv_worker[OF _ assms(2)])
    fix act assume "work_inv open_path (sd_out (se_sender s)) (rv_out (se_receiver s))
      (map ww_path (rv_writers (se_receiver s))) (se_seen s) (worker_entry (se_workers s ! k) @ act)"
    then have "work_inv open_path (sd_out (se_sender s)) (rv_out (se_receiver s)) (map ww_path (rv_writers (se_receiver s)))
        (se_seen s) ((sh_id h, (if bs = [] then [] else [bs]) @ reads_data (rest_reads err rs) @ [[]]) # act)"
      using assms(3) by (cases err; cases "bs = []") (simp_all add: worker_entry_def rest_reads_def)
    then have "work_inv open_path (sd_out (se_sender s) @ ?ps) (rv_out (se_receiver s))
        (map ww_path (rv_writers (se_receiver s))) (se_seen s) ((sh_id h, reads_data (rest_reads err rs) @ [[]]) # act)"
      by (rule work_inv_data) simp
    then show "work_inv open_path (sd_out (se_sender s) @ ?ps) (rv_out (se_receiver s))
        (map ww_path (rv_writers (se_receiver s))) (se_seen s) (worker_entry (Some (h, rest_reads err rs)) @ act)"
      by (simp add: worker_entry_def)
  qed (use I in auto)
  then show ?thesis using I c n ws by (simp add: session_inv_def Let_def)
qed

lemma session_inv_eof:
  assumes "session_inv open_path s" "k < length (se_workers s)" "se_workers s ! k = Some (h, [])"
    and "sync_send env (data_packet (sh_id h) []) (se_sender s) = (None, sd)"
  shows "session_inv open_path (s\<lparr>se_workers := (se_workers s)[k := None], se_sender := sd\<rparr>)"
proof (rule session_inv_sent[OF assms(1)])
  note I = assms(1)[unfolded session_inv_def Let_def]
  show "work_inv open_path (sd_out (se_sender s) @ [data_packet (sh_id h) []]) (rv_out (se_receiver s))
      (map ww_path (rv_writers (se_receiver s))) (se_seen s)
      (active open_path (sd_pipeline (se_sender s)) ((se_workers s)[k := None]))"
  proof (rule work_inv_worker[OF _ assms(2)])
    fix act assume "work_inv open_path (sd_out (se_sender s)) (rv_out (se_receiver s))
      (map ww_path (rv_writers (se_receiver s))) (se_seen s) (worker_entry (se_workers s ! k) @ act)"
    then have "work_inv open_path (sd_out (se_sender s)) (rv_out (se_receiver s))
        (map ww_path (rv_writers (se_receiver s))) (se_seen s) ((sh_id h, [[]]) # act)"
      using assms(3) by (simp add: worker_entry_def)
    then have "work_inv open_path (sd_out (se_sender s) @ [data_packet (sh_id h) []]) (rv_out (se_receiver s))
        (map ww_path (rv_writers (se_receiver s))) (se_seen s) act"
      by (rule work_inv_eof) simp
    then show "work_inv open_path (sd_out (se_sender s) @ [data_packet (sh_id h) []]) (rv_out (se_receiver s))
        (map ww_path (rv_writers (se_receiver s))) (se_seen s) (worker_entry None @ act)"
      by (simp add: worker_entry_def)
  qed (use I in auto)
  show "\<forall>h' rs'. Some (h', rs') \<in> set ((se_workers s)[k := None]) \<longrightarrow> set rs' \<subseteq> set (opened open_path (sh_path h'))"
    using I set_update_subset_insert[of "se_workers s" k] by fastforce
qed (use assms(1)[unfolded session_inv_def Let_def] sync_send_frame[OF assms(4)] in auto)

lemma session_inv_open:
  assumes "session_inv open_path s" "k < length (se_workers s)" "se_workers s ! k = None" "sd_pipeline (se_sender s) = h # hs"
  shows "session_inv open_path (s\<lparr>se_workers := (se_workers s)[k := Some (h, opened open_path (sh_path h))],
    se_sender := (se_sender s)\<lparr>sd_pipeline := hs\<rparr>\<rparr>)"
proof -
  note I = assms(1)[unfolded session_inv_def Let_def]
  let ?ws = "(se_workers s)[k := Some (h, opened open_path (sh_path h))]"
  have "mset (active open_path (h # hs) (se_workers s)) = mset (active open_path hs ?ws)"
    unfolding active_split[OF assms(2)] using assms(3)
    by (simp add: active_def worker_entry_def file_chunks_def)
  then have "work_inv open_path (sd_out (se_sender s)) (rv_out (se_receiver s)) (map ww_path (rv_writers (se_receiver s)))
      (se_seen s) (active open_path hs ?ws)"
    by (rule work_inv_perm[rotated]) (use I assms(4) in simp)
  moreover have "\<forall>h' rs'. Some (h', rs') \<in> set ?ws \<longrightarrow> set rs' \<subseteq> set (opened open_path (sh_path h'))"
    using I set_update_subset_insert[of "se_workers s" k] by fastforce
  ultimately show ?thesis using I by (simp add: session_inv_def Let_def)
qed

lemma sender_recv_request:
  assumes "sender_recv env p s = (Continue, s')" "pk_type p = PACKET_REQ"
  obtains path where "sd_files s (pk_id p) = Some path"
    "s' = s\<lparr>sd_files := (sd_files s)(pk_id p := None), sd_pipeline := sd_pipeline s @ [\<lparr>sh_id = pk_id p, sh_path = path\<rparr>]\<rparr>"
  using assms by (auto simp: sender_recv_def sender_queue_def packet_types split: prod.splits option.splits)

text \<open>The request the sender handles next is for a file it still has in its table.\<close>

lemma queue_path:
  assumes "session_inv open_path s" "se_seen s < length (rv_out (se_receiver s))"
  shows "sd_files (se_sender s) (pk_id (rv_out (se_receiver s) ! se_seen s)) = Some (ww_path (rv_writers (se_receiver s) ! se_seen s))"
    "pk_type (rv_out (se_receiver s) ! se_seen s) = PACKET_REQ"
    "length (rv_writers (se_receiver s)) = length (rv_out (se_receiver s))" "distinct (ids (rv_out (se_receiver s)))"
proof -
  note I = assms(1)[unfolded session_inv_def Let_def]
  let ?reqs = "rv_out (se_receiver s)" and ?ws = "rv_writers (se_receiver s)" and ?n = "se_seen s"
  let ?out = "sd_out (se_sender s)"
  have R: "request_inv (take (se_got s) ?out) (rv_next (se_receiver s)) (rv_files (se_receiver s)) ?reqs ?ws
      (rv_pipes (se_receiver s))" using I by blast
  have N: "number_inv (length (se_calls s)) ?out (sd_next (se_sender s)) (sd_files (se_sender s)) (set (ids (take ?n ?reqs)))"
    using I by blast
  show "pk_type (?reqs ! ?n) = PACKET_REQ" using R assms(2) by (auto simp: request_inv_def)
  show dist: "distinct (ids ?reqs)" and "length ?ws = length ?reqs" using R by (simp_all add: request_inv_def)
  have "distinct (take (Suc ?n) (ids ?reqs))" using dist by (rule distinct_take)
  then have fresh: "pk_id (?reqs ! ?n) \<notin> set (ids (take ?n ?reqs))"
    using assms(2) by (simp add: ids_def take_map take_Suc_conv_app_nth)
  have "numbered (take (se_got s) ?out) (pk_id (?reqs ! ?n)) (ww_path (?ws ! ?n))"
    using R assms(2) by (simp add: request_inv_def)
  then have "numbered ?out (pk_id (?reqs ! ?n)) (ww_path (?ws ! ?n))"
    using numbered_mono[of "take (se_got s) ?out" _ _ "drop (se_got s) ?out"] by simp
  from number_inv_file[OF N this fresh] show "sd_files (se_sender s) (pk_id (?reqs ! ?n)) = Some (ww_path (?ws ! ?n))" .
qed

lemma session_inv_queue:
  assumes "session_inv open_path s" "se_seen s < length (rv_out (se_receiver s))"
    and "sender_recv env (rv_out (se_receiver s) ! se_seen s) (se_sender s) = (Continue, sd)"
  shows "session_inv open_path (s\<lparr>se_seen := Suc (se_seen s), se_sender := sd\<rparr>)"
proof -
  note I = assms(1)[unfolded session_inv_def Let_def] and q = queue_path[OF assms(1,2)]
  let ?reqs = "rv_out (se_receiver s)" and ?ws = "rv_writers (se_receiver s)" and ?n = "se_seen s"
  let ?out = "sd_out (se_sender s)"
  from assms(3) q(2) obtain path where path: "sd_files (se_sender s) (pk_id (?reqs ! ?n)) = Some path"
    "sd = (se_sender s)\<lparr>sd_files := (sd_files (se_sender s))(pk_id (?reqs ! ?n) := None),
      sd_pipeline := sd_pipeline (se_sender s) @ [\<lparr>sh_id = pk_id (?reqs ! ?n), sh_path = path\<rparr>]\<rparr>"
    by (rule sender_recv_request)
  have ids: "ids (take (Suc ?n) ?reqs) = ids (take ?n ?reqs) @ [pk_id (?reqs ! ?n)]"
    using assms(2) by (simp add: take_Suc_conv_app_nth ids_def)
  have "work_inv open_path ?out ?reqs (map ww_path ?ws) ?n (active open_path (sd_pipeline (se_sender s)) (se_workers s))"
    using I by blast
  from work_inv_queue[OF this assms(2) q(4)]
  have "work_inv open_path ?out ?reqs (map ww_path ?ws) (Suc ?n) (active open_path (sd_pipeline sd) (se_workers s))"
    by (rule work_inv_perm) (use assms(2) q(1,3) path in \<open>simp add: active_def\<close>)
  moreover have "number_inv (length (se_calls s)) ?out (sd_next (se_sender s))
      ((sd_files (se_sender s))(pk_id (?reqs ! ?n) := None)) (insert (pk_id (?reqs ! ?n)) (set (ids (take ?n ?reqs))))"
    by (rule number_inv_take) (use I in blast)
  ultimately show ?thesis using I assms(2) path(2) ids by (simp add: session_inv_def Let_def)
qed

text \<open>A packet the receiver accepts, by what it carries.\<close>

lemma recv_progress_frame [simp]:
  "rv_files (recv_progress env opt p r) = rv_files r" "rv_pipes (recv_progress env opt p r) = rv_pipes r"
  "rv_writers (recv_progress env opt p r) = rv_writers r" "rv_next (recv_progress env opt p r) = rv_next r"
  "rv_out (recv_progress env opt p r) = rv_out r"
  by (simp_all add: recv_progress_def Let_def)

lemma recv_packet_more:
  assumes "recv_packet env opt q r = (RecvMore, r')" "op_metadata_only opt = None"
  obtains (stat) st where "stats_of [q] = [st]" "\<And>fid. chunks_for fid [q] = []" "rv_next r' = rv_next r + 1"
      "rv_files r' = (if file_can_request_data (st_mode st) then (rv_files r)(st_path st \<mapsto> rv_next r) else rv_files r)"
      "rv_writers r' = rv_writers r" "rv_pipes r' = rv_pipes r" "rv_out r' = rv_out r"
  | (data) bs j w where "stats_of [q] = []" "\<And>f. chunks_for f [q] = (if pk_id q = f then [bs] else [])"
      "rv_pipes r (pk_id q) = Some j" "ww_path w = ww_path (rv_writers r ! j)"
      "if bs = [] then ww_written w = ww_written (rv_writers r ! j) \<and> ww_done w
       else ww_written w = ww_written (rv_writers r ! j) @ [bs] \<and> ww_done w = ww_done (rv_writers r ! j)"
      "rv_writers r' = (rv_writers r)[j := w]" "rv_next r' = rv_next r" "rv_files r' = rv_files r"
      "rv_pipes r' = rv_pipes r" "rv_out r' = rv_out r"
  | (other) "stats_of [q] = []" "\<And>fid. chunks_for fid [q] = []" "rv_next r' = rv_next r" "rv_files r' = rv_files r"
      "rv_writers r' = rv_writers r" "rv_pipes r' = rv_pipes r" "rv_out r' = rv_out r"
proof -
  let ?r = "recv_progress env opt q r"
  consider (end_stat) "pk_type q = PACKET_STAT" "pk_stat q = None" | (entry) st where "pk_type q = PACKET_STAT" "pk_stat q = Some st"
    | (chunk) "pk_type q = PACKET_DATA" | (rest) "pk_type q \<noteq> PACKET_STAT" "pk_type q \<noteq> PACKET_DATA"
    by (cases "pk_stat q") blast+
  then show ?thesis
  proof cases
    case end_stat
    then have "recv_update None ?r = (None, r')"
      using assms(1) by (auto simp: recv_packet_def recv_stat_def Let_def packet_types split: prod.splits)
    from recv_update_result(1)[OF this] show ?thesis
      using end_stat by (intro other) (simp_all add: stats_of_def chunks_for_def packet_types)
  next
    case entry
    then have "recv_stat_entry opt False st ?r = (None, r')"
      using assms by (auto simp: recv_packet_def recv_stat_def Let_def packet_types split: prod.splits)
    then obtain v seen where "r' = ?r\<lparr>rv_files := (if file_can_request_data (st_mode st)
          then (rv_files ?r)(st_path st \<mapsto> rv_next ?r) else rv_files ?r),
        rv_next := rv_next ?r + 1, rv_order := v, rv_links := seen,
        rv_walker := (rv_walker ?r)\<lparr>dw_chan := dw_chan (rv_walker ?r) @ [\<lparr>cp_path = st_path st, cp_stat = st\<rparr>]\<rparr>\<rparr>"
      using assms(2) by (rule recv_stat_entry_plain)
    then show ?thesis using entry by (intro stat[of st]) (simp_all add: stats_of_def chunks_for_def packet_types)
  next
    case chunk
    then have d: "recv_data env (pk_id q) (pk_data q) ?r = (None, r')"
      using assms(1) by (auto simp: recv_packet_def Let_def packet_types split: prod.splits)
    then obtain j where j: "rv_pipes r (pk_id q) = Some j" by (auto simp: recv_data_def split: option.splits)
    obtain e w where w: "(if length (pk_data q) = 0 then wrapped_close env (rv_writers r ! j)
        else wrapped_write env (pk_data q) (rv_writers r ! j)) = (e, w)" by fastforce
    have r': "e = None" "r' = ?r\<lparr>rv_writers := (rv_writers r)[j := w]\<rparr>"
      using d j w by (cases "pk_data q = []"; simp add: recv_data_def)+
    have "ww_path w = ww_path (rv_writers r ! j)" "if pk_data q = [] then ww_written w = ww_written (rv_writers r ! j) \<and> ww_done w
       else ww_written w = ww_written (rv_writers r ! j) @ [pk_data q] \<and> ww_done w = ww_done (rv_writers r ! j)"
      using w r'(1) by (auto simp: wrapped_close_def wrapped_write_def split: if_splits option.splits)
    moreover have "stats_of [q] = []" "chunks_for f [q] = (if pk_id q = f then [pk_data q] else [])" for f
      using chunk by (simp_all add: stats_of_def chunks_for_def packet_types)
    ultimately show ?thesis using j r'(2) by (intro data[of "pk_data q" j w]) simp_all
  next
    case rest
    then have "r' = ?r" using assms(1) by (auto simp: recv_packet_def Let_def split: if_splits)
    then show ?thesis using rest by (intro other) (simp_all add: stats_of_def chunks_for_def)
  qed
qed

lemma session_inv_recv:
  assumes "session_inv open_path s" "se_got s < length (sd_out (se_sender s))" "op_metadata_only opt = None"
    and "recv_packet env opt (sd_out (se_sender s) ! se_got s) (se_receiver s) = (RecvMore, rv)"
  shows "session_inv open_path (s\<lparr>se_got := Suc (se_got s), se_receiver := rv\<rparr>)"
proof -
  note I = assms(1)[unfolded session_inv_def Let_def]
  let ?out = "sd_out (se_sender s)" and ?r = "se_receiver s"
  let ?q = "?out ! se_got s" and ?got = "take (se_got s) ?out"
  have got: "take (Suc (se_got s)) ?out = ?got @ [?q]" using assms(2) by (rule take_Suc_conv_app_nth)
  have R: "request_inv ?got (rv_next ?r) (rv_files ?r) (rv_out ?r) (rv_writers ?r) (rv_pipes ?r)" using I by blast
  from assms(4,3) show ?thesis
  proof (cases rule: recv_packet_more)
    case (stat st)
    have "stats_of ?out = stats_of (take (Suc (se_got s)) ?out) @ stats_of (drop (Suc (se_got s)) ?out)"
      by (simp flip: stats_of_append)
    then have "length (stats_of (?got @ [?q])) \<le> length (stats_of ?out)" unfolding got by simp
    moreover have "length (stats_of ?out) \<le> 2 ^ 32" using I by (simp add: number_inv_def)
    ultimately have "length (stats_of ?got) < 2 ^ 32" using stat(1) by simp
    from request_inv_stat[OF R this stat(1,2)] show ?thesis
      using I stat(3-) got assms(2) by (simp add: session_inv_def Let_def)
  next
    case (data bs j w)
    have "map ww_path (rv_writers rv) = map ww_path (rv_writers ?r)"
      unfolding data(6) using data(4) by (metis list_update_id map_update)
    moreover from request_inv_data[OF R data(3) data(1,2) data(4,5)]
    have "request_inv (?got @ [?q]) (rv_next ?r) (rv_files ?r) (rv_out ?r) ((rv_writers ?r)[j := w]) (rv_pipes ?r)" .
    ultimately show ?thesis using I data(6-) got assms(2) by (simp add: session_inv_def Let_def)
  next
    case other
    from request_inv_other[OF R other(1,2)] show ?thesis
      using I other(3-) got assms(2) by (simp add: session_inv_def Let_def)
  qed
qed

lemma session_inv_request:
  assumes "session_inv open_path s" "async_request env p (se_receiver s) = (None, rv)"
  shows "session_inv open_path (s\<lparr>se_receiver := rv\<rparr>)"
proof -
  note I = assms(1)[unfolded session_inv_def Let_def]
  let ?out = "sd_out (se_sender s)" and ?r = "se_receiver s"
  let ?got = "take (se_got s) ?out"
  have R: "request_inv ?got (rv_next ?r) (rv_files ?r) (rv_out ?r) (rv_writers ?r) (rv_pipes ?r)" using I by blast
  obtain fid where fid: "rv_files ?r p = Some fid" using assms(2) by (auto simp: async_request_def split: option.splits)
  let ?q = "empty_packet\<lparr>pk_type := PACKET_REQ, pk_id := fid\<rparr>"
  have rv: "rv = ?r\<lparr>rv_files := (rv_files ?r)(p := None), rv_writers := rv_writers ?r @ [new_wrapped_writer p],
      rv_pipes := (rv_pipes ?r)(fid \<mapsto> length (rv_writers ?r)), rv_out := rv_out ?r @ [?q]\<rparr>"
    using assms(2) fid by (auto simp: async_request_def recv_send_def split: option.splits)
  have split: "stats_of ?out = stats_of ?got @ stats_of (drop (se_got s) ?out)"
    "chunks_for fid ?out = chunks_for fid ?got @ chunks_for fid (drop (se_got s) ?out)"
    by (simp_all flip: stats_of_append chunks_for_append)
  have len: "length (stats_of ?got) \<le> 2 ^ 32" using I split(1) by (simp add: number_inv_def)
  have "fid \<notin> set (ids (rv_out ?r))" using R fid by (simp add: request_inv_def)
  then have "fid \<notin> set (ids (take (se_seen s) (rv_out ?r)))" by (auto simp: ids_def dest: in_set_takeD)
  then have "chunks_for fid ?out = []" using I by (simp add: work_inv_def)
  then have "chunks_for fid ?got = []" using split(2) by simp
  note r' = request_inv_request[OF R fid len this]
  have "work_inv open_path ?out (rv_out ?r @ [?q]) (map ww_path (rv_writers ?r) @ [p]) (se_seen s)
      (active open_path (sd_pipeline (se_sender s)) (se_workers s))"
    by (rule work_inv_request) (use I R in \<open>auto simp: request_inv_def\<close>)
  then show ?thesis using I r' rv by (simp add: session_inv_def Let_def new_wrapped_writer_def)
qed

lemma session_inv_finish:
  assumes "session_inv open_path s" "rv_pipes (se_receiver s) fid = Some k"
    and "async_finish False fid k (se_receiver s) = Some (None, rv)"
  shows "session_inv open_path (s\<lparr>se_receiver := rv\<rparr>)"
proof -
  note I = assms(1)[unfolded session_inv_def Let_def]
  have "ww_done (rv_writers (se_receiver s) ! k)"
    "rv = (se_receiver s)\<lparr>rv_pipes := (rv_pipes (se_receiver s))(fid := None)\<rparr>"
    using assms(3) by (auto simp: async_finish_def wrapped_wait_def split: if_splits option.splits)
  then show ?thesis
    using I request_inv_finish[of "take (se_got s) (sd_out (se_sender s))" _ _ _ _ _ fid k] assms(2)
    by (simp add: session_inv_def Let_def)
qed

lemma session_inv_step:
  assumes "session_step env opt open_path s s'" "session_inv open_path s" "op_metadata_only opt = None"
  shows "session_inv open_path s'"
  using assms(1)
proof (cases rule: session_step.cases)
  case (step_walk c cs sd)
  then show ?thesis using session_inv_walk[OF assms(2)] by simp
next
  case (step_walk_end sd)
  then show ?thesis using session_inv_walk_end[OF assms(2)] by simp
next
  case (step_queue sd)
  then show ?thesis using session_inv_queue[OF assms(2)] by simp
next
  case (step_open k h hs)
  then show ?thesis using session_inv_open[OF assms(2)] by simp
next
  case (step_data k h bs err rs sd)
  show ?thesis unfolding step_data(1) by (rule session_inv_data[OF assms(2) step_data(2-4)])
next
  case (step_eof k h sd)
  then show ?thesis using session_inv_eof[OF assms(2)] by simp
next
  case (step_recv rv)
  then show ?thesis using session_inv_recv[OF assms(2) _ assms(3)] by simp
next
  case (step_request p rv)
  then show ?thesis using session_inv_request[OF assms(2)] by simp
next
  case (step_finish fid k rv)
  then show ?thesis using session_inv_finish[OF assms(2)] by simp
next
  case (step_fill cp w)
  then show ?thesis using assms(2) by (simp add: session_inv_def Let_def)
qed

lemma session_reachable_inv:
  assumes "session_reachable env opt open_path calls s" "length calls \<le> 2 ^ 32" "op_metadata_only opt = None"
  shows "session_inv open_path s"
  using assms(1)
proof (induction rule: session_reachable.induct)
  case reach_start
  show ?case by (rule session_inv_initial[OF assms(2)])
next
  case (reach_step s s')
  then show ?case using session_inv_step assms(3) by blast
qed

section \<open>What the invariant says of one file\<close>

lemma in_ids_take: "fid \<in> set (ids (take n reqs)) \<longleftrightarrow> (\<exists>i < n. i < length reqs \<and> pk_id (reqs ! i) = fid)"
proof -
  have "fid \<in> set (ids (take n reqs)) \<longleftrightarrow> (\<exists>i < length (take n reqs). pk_id (take n reqs ! i) = fid)"
    unfolding ids_def in_set_conv_nth by (metis length_map nth_map)
  then show ?thesis by auto
qed

text \<open>The chunks that were handled are the first ones of the file, and the empty one comes last.\<close>

lemma ended_prefix:
  assumes "xs @ ys = ds @ [[]]" "[] \<notin> set ds" "[] \<in> set xs"
  shows "xs = ds @ [[]] \<and> ys = []"
proof (cases ys rule: rev_cases)
  case Nil
  then show ?thesis using assms(1) by simp
next
  case (snoc zs z)
  then have "xs @ zs = ds" using assms(1) by simp
  then show ?thesis using assms(2,3) by auto
qed

lemma chunks_prefix:
  assumes "session_inv open_path s" "j < length (rv_writers (se_receiver s))"
  obtains rest where "chunks_for (pk_id (rv_out (se_receiver s) ! j)) (take (se_got s) (sd_out (se_sender s))) @ rest =
      file_chunks open_path (ww_path (rv_writers (se_receiver s) ! j))"
    "chunks_for (pk_id (rv_out (se_receiver s) ! j)) (sd_out (se_sender s)) =
      chunks_for (pk_id (rv_out (se_receiver s) ! j)) (take (se_got s) (sd_out (se_sender s))) @
      chunks_for (pk_id (rv_out (se_receiver s) ! j)) (drop (se_got s) (sd_out (se_sender s)))"
    "prefix (chunks_for (pk_id (rv_out (se_receiver s) ! j)) (drop (se_got s) (sd_out (se_sender s)))) rest"
proof -
  note I = assms(1)[unfolded session_inv_def Let_def]
  let ?reqs = "rv_out (se_receiver s)" and ?ws = "rv_writers (se_receiver s)" and ?n = "se_seen s"
  let ?out = "sd_out (se_sender s)" and ?act = "active open_path (sd_pipeline (se_sender s)) (se_workers s)"
  let ?fid = "pk_id (?reqs ! j)"
  have W: "work_inv open_path ?out ?reqs (map ww_path ?ws) ?n ?act" using I by blast
  have len: "length ?ws = length ?reqs" "distinct (ids ?reqs)" using I by (simp_all add: request_inv_def)
  have split: "chunks_for ?fid ?out = chunks_for ?fid (take (se_got s) ?out) @ chunks_for ?fid (drop (se_got s) ?out)"
    by (simp flip: chunks_for_append)
  have "\<exists>rem. chunks_for ?fid ?out @ rem = file_chunks open_path (ww_path (?ws ! j))"
  proof (cases "j < ?n")
    case True
    then show ?thesis using W assms(2) len unfolding work_inv_def by (cases "?fid \<in> fst ` set ?act") auto
  next
    case False
    have "pk_id (?reqs ! i) \<noteq> ?fid" if "i < ?n" for i
      using that False assms(2) len by (auto simp: ids_def distinct_conv_nth)
    then have "?fid \<notin> set (ids (take ?n ?reqs))" by (metis in_ids_take)
    then show ?thesis using W unfolding work_inv_def by simp
  qed
  then obtain rem where "chunks_for ?fid ?out @ rem = file_chunks open_path (ww_path (?ws ! j))" by blast
  then show ?thesis using split by (intro that[of "chunks_for ?fid (drop (se_got s) ?out) @ rem"]) simp_all
qed

lemma writer_content:
  assumes "session_inv open_path s" "j < length (rv_writers (se_receiver s))"
  shows "prefix (ww_written (rv_writers (se_receiver s) ! j)) (reads_data (opened open_path (ww_path (rv_writers (se_receiver s) ! j))))"
    "ww_done (rv_writers (se_receiver s) ! j) \<Longrightarrow>
      ww_written (rv_writers (se_receiver s) ! j) = reads_data (opened open_path (ww_path (rv_writers (se_receiver s) ! j)))"
    "ww_done (rv_writers (se_receiver s) ! j) \<Longrightarrow>
      chunks_for (pk_id (rv_out (se_receiver s) ! j)) (drop (se_got s) (sd_out (se_sender s))) = []"
proof -
  note I = assms(1)[unfolded session_inv_def Let_def]
  let ?w = "rv_writers (se_receiver s) ! j" and ?fid = "pk_id (rv_out (se_receiver s) ! j)"
  let ?ds = "reads_data (opened open_path (ww_path ?w))"
  obtain rest where c: "chunks_for ?fid (take (se_got s) (sd_out (se_sender s))) @ rest = ?ds @ [[]]"
    "prefix (chunks_for ?fid (drop (se_got s) (sd_out (se_sender s)))) rest"
    using chunks_prefix[OF assms] by (auto simp: file_chunks_def)
  let ?got = "chunks_for ?fid (take (se_got s) (sd_out (se_sender s)))"
  have w: "ww_written ?w = filter (\<lambda>d. d \<noteq> []) ?got" "ww_done ?w \<longleftrightarrow> [] \<in> set ?got"
    using I assms(2) by (auto simp: request_inv_def)
  have ne: "filter (\<lambda>d. d \<noteq> []) ?ds = ?ds" using reads_data_nonempty[of "opened open_path (ww_path ?w)"]
    by (auto simp: filter_id_conv)
  have "ww_written ?w @ filter (\<lambda>d. d \<noteq> []) rest = filter (\<lambda>d. d \<noteq> []) (?got @ rest)" using w by simp
  also have "\<dots> = ?ds" using c(1) ne by simp
  finally show "prefix (ww_written ?w) ?ds" by (metis prefixI)
  show "ww_written ?w = ?ds" "chunks_for ?fid (drop (se_got s) (sd_out (se_sender s))) = []" if "ww_done ?w"
  proof -
    have "?got = ?ds @ [[]] \<and> rest = []"
      by (rule ended_prefix[OF c(1) reads_data_nonempty]) (use w that in simp)
    then show "ww_written ?w = ?ds" "chunks_for ?fid (drop (se_got s) (sd_out (se_sender s))) = []"
      using w(1) ne c(2) by simp_all
  qed
qed

section \<open>Progress\<close>

text \<open>
  What is still to be done for the files requested so far, counted so that every step towards
  their end makes it smaller.
\<close>

definition file_cost :: "(string \<Rightarrow> reads res) \<Rightarrow> string \<Rightarrow> nat" where
  "file_cost open_path p = 2 * length (opened open_path p) + 4"

definition worker_cost :: "worker \<Rightarrow> nat" where
  "worker_cost w = (case w of None \<Rightarrow> 0 | Some (h, rs) \<Rightarrow> 2 * length rs + 3)"

definition backlog :: "(string \<Rightarrow> reads res) \<Rightarrow> session \<Rightarrow> nat" where
  "backlog open_path s =
     sum_list (map (\<lambda>w. file_cost open_path (ww_path w) + 1) (drop (se_seen s) (rv_writers (se_receiver s)))) +
     sum_list (map (\<lambda>h. file_cost open_path (sh_path h)) (sd_pipeline (se_sender s))) +
     sum_list (map worker_cost (se_workers s)) + (length (sd_out (se_sender s)) - se_got s)"

text \<open>Only DATA packets are on their way: the receiver has handled every STAT packet sent so far.\<close>

definition draining :: "session \<Rightarrow> bool" where
  "draining s \<longleftrightarrow> (\<forall>p \<in> set (drop (se_got s) (sd_out (se_sender s))). pk_type p = PACKET_DATA)"

text \<open>A connection, files and writers without errors.\<close>

definition undisturbed :: "receive_env \<Rightarrow> (string \<Rightarrow> reads res) \<Rightarrow> bool" where
  "undisturbed env open_path \<longleftrightarrow>
     (\<forall>ps p. te_send (rn_transfer env) ps p = None) \<and> (\<forall>w bs. rn_write env w bs = None) \<and> (\<forall>w. rn_close env w = None) \<and>
     (\<forall>p f. open_path p = Inr f \<longrightarrow> (\<forall>r \<in> set f. snd r = None \<or> snd r = Some Eof))"

definition advances :: "receive_env \<Rightarrow> receive_opt \<Rightarrow> (string \<Rightarrow> reads res) \<Rightarrow> session \<Rightarrow> session \<Rightarrow> bool" where
  "advances env opt open_path s s' \<longleftrightarrow>
     session_step env opt open_path s s' \<and> draining s' \<and> backlog open_path s' < backlog open_path s \<and>
     map ww_path (rv_writers (se_receiver s')) = map ww_path (rv_writers (se_receiver s))"

lemma worker_cost_update:
  assumes "k < length ws"
  shows "sum_list (map worker_cost (ws[k := w])) + worker_cost (ws ! k) = sum_list (map worker_cost ws) + worker_cost w"
proof -
  have "worker_cost (ws ! k) \<le> sum_list (map worker_cost ws)"
    using elem_le_sum_list[of k "map worker_cost ws"] assms by simp
  then show ?thesis using sum_list_update[of k "map worker_cost ws" "worker_cost w"] assms by (simp add: map_update)
qed

lemma quiet_send:
  assumes "undisturbed env open_path"
  shows "sync_send (rn_transfer env) p s = (None, s\<lparr>sd_out := sd_out s @ [p]\<rparr>)"
  using assms by (simp add: undisturbed_def sync_send_def)

lemma session_inv_got: "session_inv open_path s \<Longrightarrow> se_got s \<le> length (sd_out (se_sender s))"
  by (simp add: session_inv_def Let_def)

lemma advance_busy:
  assumes "session_inv open_path s" "undisturbed env open_path" "draining s"
    and "k < length (se_workers s)" "se_workers s ! k = Some (h, rs)"
  shows "\<exists>s'. advances env opt open_path s s'"
proof (cases rs)
  case Nil
  let ?s' = "s\<lparr>se_workers := (se_workers s)[k := None],
    se_sender := (se_sender s)\<lparr>sd_out := sd_out (se_sender s) @ [data_packet (sh_id h) []]\<rparr>\<rparr>"
  have "session_step env opt open_path s ?s'"
    by (rule step_eof) (use assms(4,5) Nil quiet_send[OF assms(2)] in auto)
  moreover have "draining ?s'" using assms(3) by (auto simp: draining_def data_packet_def dest: in_set_dropD)
  moreover have "backlog open_path ?s' < backlog open_path s"
    using worker_cost_update[OF assms(4), of None] session_inv_got[OF assms(1)] assms(5) Nil
    by (simp add: backlog_def worker_cost_def)
  ultimately show ?thesis unfolding advances_def by (intro exI[of _ ?s']) simp
next
  case (Cons r rs')
  obtain bs err where r: "r = (bs, err)" by fastforce
  have "Some (h, rs) \<in> set (se_workers s)" using assms(4,5) by (metis nth_mem)
  then have "set rs \<subseteq> set (opened open_path (sh_path h))" using assms(1) unfolding session_inv_def Let_def by blast
  then have "(bs, err) \<in> set (opened open_path (sh_path h))" using Cons r by auto
  then obtain f where f: "open_path (sh_path h) = Inr f" "(bs, err) \<in> set f"
    by (cases "open_path (sh_path h)") (auto simp: opened_def)
  then have "snd (bs, err) = None \<or> snd (bs, err) = Some Eof" using assms(2) unfolding undisturbed_def by blast
  then have err: "err = None \<or> err = Some Eof" by simp
  obtain e sd where c: "copy_buffer (rn_transfer env) (sh_id h) [(bs, err)] (se_sender s) = (e, sd)" by fastforce
  have e: "e = None"
    using c err quiet_send[OF assms(2)] by (auto simp: file_sender_write_def Let_def split: if_splits)
  let ?s' = "s\<lparr>se_workers := (se_workers s)[k := Some (h, rest_reads err rs')], se_sender := sd\<rparr>"
  note f = copy_one_result[OF c[unfolded e]]
  have "session_step env opt open_path s ?s'"
    by (rule step_data) (use assms(4,5) Cons r c e in auto)
  moreover have "draining ?s'" using assms(3) f(1) by (auto simp: draining_def data_packet_def dest: in_set_dropD)
  moreover have "backlog open_path ?s' < backlog open_path s"
  proof -
    have "worker_cost (Some (h, rest_reads err rs')) + 1 < worker_cost (Some (h, rs))"
      using Cons by (simp add: worker_cost_def rest_reads_def)
    moreover have "length (sd_out sd) - se_got s \<le> length (sd_out (se_sender s)) - se_got s + 1"
      using f(1) by (cases "bs = []") simp_all
    ultimately show ?thesis
      using worker_cost_update[OF assms(4), of "Some (h, rest_reads err rs')"] assms(5) f(4)
      by (simp add: backlog_def)
  qed
  ultimately show ?thesis unfolding advances_def by (intro exI[of _ ?s']) simp
qed

lemma advance_pipeline:
  assumes "session_inv open_path s" "undisturbed env open_path" "draining s" "sd_pipeline (se_sender s) = h # hs"
  shows "\<exists>s'. advances env opt open_path s s'"
proof -
  have k: "0 < length (se_workers s)" using assms(1) by (simp add: session_inv_def Let_def)
  show ?thesis
  proof (cases "se_workers s ! 0")
    case (Some w)
    then obtain h rs where "se_workers s ! 0 = Some (h, rs)" by fastforce
    then show ?thesis using advance_busy[OF assms(1-3) k] by blast
  next
    case None
    let ?s' = "s\<lparr>se_workers := (se_workers s)[0 := Some (h, opened open_path (sh_path h))],
      se_sender := (se_sender s)\<lparr>sd_pipeline := hs\<rparr>\<rparr>"
    have "session_step env opt open_path s ?s'" by (rule step_open) (use k None assms(4) in auto)
    moreover have "draining ?s'" using assms(3) by (simp add: draining_def)
    moreover have "backlog open_path ?s' < backlog open_path s"
      using worker_cost_update[OF k, of "Some (h, opened open_path (sh_path h))"] None assms(4)
      by (simp add: backlog_def worker_cost_def file_cost_def)
    ultimately show ?thesis unfolding advances_def by (intro exI[of _ ?s']) simp
  qed
qed

lemma advance_queue:
  assumes "session_inv open_path s" "undisturbed env open_path" "draining s" "se_seen s < length (rv_out (se_receiver s))"
  shows "\<exists>s'. advances env opt open_path s s'"
proof (cases "can_queue (se_sender s)")
  case False
  then obtain h hs where "sd_pipeline (se_sender s) = h # hs"
    by (cases "sd_pipeline (se_sender s)") (auto simp: can_queue_def pipeline_cap_def)
  then show ?thesis by (rule advance_pipeline[OF assms(1-3)])
next
  case True
  note q = queue_path[OF assms(1,4)]
  let ?q = "rv_out (se_receiver s) ! se_seen s"
  let ?sd = "(se_sender s)\<lparr>sd_files := (sd_files (se_sender s))(pk_id ?q := None), sd_pipeline := sd_pipeline (se_sender s) @
    [\<lparr>sh_id = pk_id ?q, sh_path = ww_path (rv_writers (se_receiver s) ! se_seen s)\<rparr>]\<rparr>"
  let ?s' = "s\<lparr>se_seen := Suc (se_seen s), se_sender := ?sd\<rparr>"
  have "session_step env opt open_path s ?s'"
    by (rule step_queue) (use assms(4) True q in \<open>auto simp: sender_recv_def sender_queue_def packet_types\<close>)
  moreover have "draining ?s'" using assms(3) by (simp add: draining_def)
  moreover have "backlog open_path ?s' < backlog open_path s"
    using assms(4) q(3) Cons_nth_drop_Suc[of "se_seen s" "rv_writers (se_receiver s)", symmetric] by (simp add: backlog_def)
  ultimately show ?thesis unfolding advances_def by (intro exI[of _ ?s']) simp
qed

text \<open>A DATA packet on its way has its pipe.\<close>

lemma data_has_pipe:
  assumes "session_inv open_path s" "se_got s < length (sd_out (se_sender s))"
    and "pk_type (sd_out (se_sender s) ! se_got s) = PACKET_DATA"
  shows "\<exists>j. rv_pipes (se_receiver s) (pk_id (sd_out (se_sender s) ! se_got s)) = Some j"
proof (rule ccontr)
  note I = assms(1)[unfolded session_inv_def Let_def]
  let ?out = "sd_out (se_sender s)" and ?reqs = "rv_out (se_receiver s)"
  let ?fid = "pk_id (?out ! se_got s)"
  assume "\<nexists>j. rv_pipes (se_receiver s) ?fid = Some j"
  then have none: "rv_pipes (se_receiver s) ?fid = None" by simp
  have "drop (se_got s) ?out = ?out ! se_got s # drop (Suc (se_got s)) ?out" using assms(2) by (simp add: Cons_nth_drop_Suc)
  then have dropped: "chunks_for ?fid (drop (se_got s) ?out) \<noteq> []" using assms(3) by (simp add: chunks_for_def)
  have "chunks_for ?fid ?out = chunks_for ?fid (take (se_got s) ?out) @ chunks_for ?fid (drop (se_got s) ?out)"
    by (simp flip: chunks_for_append)
  then have "chunks_for ?fid ?out \<noteq> []" using dropped by simp
  then have "?fid \<in> set (ids (take (se_seen s) ?reqs))" using I unfolding work_inv_def by blast
  then obtain j where j: "j < length ?reqs" "pk_id (?reqs ! j) = ?fid" unfolding in_ids_take by blast
  have len: "length (rv_writers (se_receiver s)) = length ?reqs" using I by (simp add: request_inv_def)
  then have "ww_done (rv_writers (se_receiver s) ! j)" using I j none unfolding request_inv_def by auto
  then show False using writer_content(3)[OF assms(1), of j] j len dropped by simp
qed

lemma advance_recv:
  assumes "session_inv open_path s" "undisturbed env open_path" "draining s" "se_got s < length (sd_out (se_sender s))"
  shows "\<exists>s'. advances env opt open_path s s'"
proof -
  let ?q = "sd_out (se_sender s) ! se_got s" and ?r = "se_receiver s"
  have d: "drop (se_got s) (sd_out (se_sender s)) = ?q # drop (Suc (se_got s)) (sd_out (se_sender s))"
    using assms(4) by (simp add: Cons_nth_drop_Suc)
  then have t: "pk_type ?q = PACKET_DATA" using assms(3) by (simp add: draining_def)
  obtain j where j: "rv_pipes ?r (pk_id ?q) = Some j" using data_has_pipe[OF assms(1,4) t] by blast
  obtain e w where w: "(if length (pk_data ?q) = 0 then wrapped_close env (rv_writers ?r ! j)
      else wrapped_write env (pk_data ?q) (rv_writers ?r ! j)) = (e, w)" by fastforce
  have e: "e = None" "ww_path w = ww_path (rv_writers ?r ! j)"
    using w assms(2) by (auto simp: undisturbed_def wrapped_close_def wrapped_write_def split: if_splits)
  let ?rv = "(recv_progress env opt ?q ?r)\<lparr>rv_writers := (rv_writers ?r)[j := w]\<rparr>"
  have "recv_data env (pk_id ?q) (pk_data ?q) (recv_progress env opt ?q ?r) = (None, ?rv)"
    using j w e by (cases "pk_data ?q = []") (simp_all add: recv_data_def)
  then have "recv_packet env opt ?q ?r = (RecvMore, ?rv)"
    using t by (simp add: recv_packet_def packet_types Let_def)
  then have step: "session_step env opt open_path s (s\<lparr>se_got := Suc (se_got s), se_receiver := ?rv\<rparr>)"
    by (intro step_recv) (use t assms(4) in \<open>auto simp: can_receive_def packet_types\<close>)
  have paths: "map ww_path ((rv_writers ?r)[j := w]) = map ww_path (rv_writers ?r)"
    using e by (metis list_update_id map_update)
  have "map (\<lambda>w. file_cost open_path (ww_path w) + 1) ((rv_writers ?r)[j := w]) =
      map (\<lambda>w. file_cost open_path (ww_path w) + 1) (rv_writers ?r)"
    using arg_cong[OF paths, of "map (\<lambda>p. file_cost open_path p + 1)"] by (simp add: comp_def)
  then have "backlog open_path (s\<lparr>se_got := Suc (se_got s), se_receiver := ?rv\<rparr>) < backlog open_path s"
    using assms(4) by (simp add: backlog_def flip: drop_map)
  moreover have "draining (s\<lparr>se_got := Suc (se_got s), se_receiver := ?rv\<rparr>)" using assms(3) d by (simp add: draining_def)
  ultimately show ?thesis using step paths unfolding advances_def
    by (intro exI[of _ "s\<lparr>se_got := Suc (se_got s), se_receiver := ?rv\<rparr>"]) simp
qed

text \<open>As long as a requested file is not complete, one of the two sides can go on with it.\<close>

lemma not_stuck:
  assumes "session_inv open_path s" "undisturbed env open_path" "draining s"
    and "w \<in> set (rv_writers (se_receiver s))" "\<not> ww_done w"
  shows "\<exists>s'. advances env opt open_path s s'"
proof -
  note I = assms(1)[unfolded session_inv_def Let_def]
  let ?reqs = "rv_out (se_receiver s)" and ?out = "sd_out (se_sender s)"
  let ?act = "active open_path (sd_pipeline (se_sender s)) (se_workers s)"
  consider "se_got s < length ?out" | "se_seen s < length ?reqs" | "se_got s = length ?out" "se_seen s = length ?reqs"
    using I by linarith
  then show ?thesis
  proof cases
    case 1
    then show ?thesis by (rule advance_recv[OF assms(1-3)])
  next
    case 2
    then show ?thesis by (rule advance_queue[OF assms(1-3)])
  next
    case 3
    obtain j where j: "j < length (rv_writers (se_receiver s))" "rv_writers (se_receiver s) ! j = w"
      using assms(4) by (metis in_set_conv_nth)
    have len: "length (rv_writers (se_receiver s)) = length ?reqs" using I by (simp add: request_inv_def)
    have "[] \<notin> set (chunks_for (pk_id (?reqs ! j)) ?out)"
      using I j len assms(5) 3 by (auto simp: request_inv_def)
    then have "chunks_for (pk_id (?reqs ! j)) ?out \<noteq> file_chunks open_path (map ww_path (rv_writers (se_receiver s)) ! j)"
      by (auto simp: file_chunks_def)
    then have "pk_id (?reqs ! j) \<in> fst ` set ?act" using I j len 3 unfolding work_inv_def by auto
    then consider h where "h \<in> set (sd_pipeline (se_sender s))" | w' where "w' \<in> set (se_workers s)" "w' \<noteq> None"
      by (auto simp: active_def worker_entries_def worker_entry_def split: option.splits)
    then show ?thesis
    proof cases
      case (1 h)
      then obtain h' hs where "sd_pipeline (se_sender s) = h' # hs" by (cases "sd_pipeline (se_sender s)") auto
      then show ?thesis by (rule advance_pipeline[OF assms(1-3)])
    next
      case (2 w')
      then obtain k h rs where "k < length (se_workers s)" "se_workers s ! k = Some (h, rs)"
        by (metis in_set_conv_nth option.exhaust prod.exhaust)
      then show ?thesis by (rule advance_busy[OF assms(1-3)])
    qed
  qed
qed

lemma session_completes:
  assumes "session_inv open_path s" "undisturbed env open_path" "draining s" "op_metadata_only opt = None"
  shows "\<exists>s'. (session_step env opt open_path)\<^sup>*\<^sup>* s s' \<and> session_inv open_path s' \<and>
    map ww_path (rv_writers (se_receiver s')) = map ww_path (rv_writers (se_receiver s)) \<and>
    (\<forall>w \<in> set (rv_writers (se_receiver s')). ww_done w)"
  using assms(1,3)
proof (induction "backlog open_path s" arbitrary: s rule: less_induct)
  case less
  show ?case
  proof (cases "\<forall>w \<in> set (rv_writers (se_receiver s)). ww_done w")
    case True
    then show ?thesis using less.prems(1) by (intro exI[of _ s]) simp
  next
    case False
    then obtain t where t: "session_step env opt open_path s t" "draining t" "backlog open_path t < backlog open_path s"
      "map ww_path (rv_writers (se_receiver t)) = map ww_path (rv_writers (se_receiver s))"
      using not_stuck[OF less.prems(1) assms(2) less.prems(2)] unfolding advances_def by blast
    have "session_inv open_path t" by (rule session_inv_step[OF t(1) less.prems(1) assms(4)])
    from less.hyps[OF t(3) this t(2)] obtain s' where s': "(session_step env opt open_path)\<^sup>*\<^sup>* t s'" "session_inv open_path s'"
      "map ww_path (rv_writers (se_receiver s')) = map ww_path (rv_writers (se_receiver t))"
      "\<forall>w \<in> set (rv_writers (se_receiver s')). ww_done w" by blast
    have "(session_step env opt open_path)\<^sup>*\<^sup>* s s'" using t(1) s'(1) by (rule converse_rtranclp_into_rtranclp)
    then show ?thesis using s'(2-4) t(4) by (intro exI[of _ s']) simp
  qed
qed

section \<open>A transfer of one file\<close>

definition sample_stat :: stat where
  "sample_stat = empty_stat\<lparr>st_path := ''f'', st_mode := 0x1A4\<rparr>"

definition sample_calls :: "walk_call list" where
  "sample_calls = [(''f'', entry_of_stat sample_stat, None)]"

definition sample_reads :: "string \<Rightarrow> reads res" where
  "sample_reads p = Inr [(''ab'', None), (''c'', Some Eof)]"

lemma sample_undisturbed: "undisturbed sample_receive_env sample_reads"
  by (simp add: undisturbed_def sample_receive_env_def quiet_env_def sample_reads_def)

lemma sample_accepted:
  "\<exists>v seen. validator_handle_change ChangeKindAdd ''f'' (StatInfo sample_stat) None \<lparr>parent_dirs = []\<rparr> = Inr v \<and>
     hardlinks_handle_change ChangeKindAdd ''f'' (StatInfo sample_stat) None {} = Inr seen"
proof -
  have "tree_order [\<lparr>vc_kind = ChangeKindAdd, vc_path = ''f'', vc_info = sample_stat\<rparr>]"
    by (simp add: tree_order_def local_path_iff parent_of_def good_path_def good_comps_def good_comp_def)
  then obtain v where "validator_run [\<lparr>vc_kind = ChangeKindAdd, vc_path = ''f'', vc_info = sample_stat\<rparr>] new_validator = Inr v"
    using validator_run_tree_order by blast
  then have "validator_handle_change ChangeKindAdd ''f'' (StatInfo sample_stat) None \<lparr>parent_dirs = []\<rparr> = Inr v"
    by (cases "validator_handle_change ChangeKindAdd ''f'' (StatInfo sample_stat) None \<lparr>parent_dirs = []\<rparr>")
      (simp_all add: validator_run_def new_validator_def)
  moreover have "hardlinks_handle_change ChangeKindAdd ''f'' (StatInfo sample_stat) None {} = Inr {''f''}"
    by (simp add: hardlinks_step is_file_def sample_stat_def empty_stat_def stat_is_dir_def mode_is_dir_def has_mode_def mode_bits)
  ultimately show ?thesis by blast
qed

text \<open>After the walk, the first STAT packet and a request for its file.\<close>

lemma sample_session:
  obtains s where "session_reachable sample_receive_env plain_opt sample_reads sample_calls s" "draining s"
    "map ww_path (rv_writers (se_receiver s)) = [''f'']"
proof -
  let ?step = "session_step sample_receive_env plain_opt sample_reads"
  obtain v seen where ok: "validator_handle_change ChangeKindAdd ''f'' (StatInfo sample_stat) None \<lparr>parent_dirs = []\<rparr> = Inr v"
    "hardlinks_handle_change ChangeKindAdd ''f'' (StatInfo sample_stat) None {} = Inr seen" using sample_accepted by blast
  let ?s0 = "initial_session sample_calls"
  let ?sd = "new_sender\<lparr>sd_files := [0 \<mapsto> ''f''], sd_next := 1, sd_out := [stat_packet sample_stat]\<rparr>"
  let ?s1 = "?s0\<lparr>se_calls := [], se_sender := ?sd\<rparr>"
  let ?rv = "new_receiver\<lparr>rv_files := [''f'' \<mapsto> 0], rv_next := 1, rv_order := v, rv_links := seen,
    rv_walker := new_dynamic_walker\<lparr>dw_chan := [\<lparr>cp_path = ''f'', cp_stat = sample_stat\<rparr>]\<rparr>\<rparr>"
  let ?s2 = "?s1\<lparr>se_got := 1, se_receiver := ?rv\<rparr>"
  let ?rv3 = "?rv\<lparr>rv_files := Map.empty, rv_writers := [new_wrapped_writer ''f''], rv_pipes := [0 \<mapsto> 0],
    rv_out := [empty_packet\<lparr>pk_type := PACKET_REQ, pk_id := 0\<rparr>]\<rparr>"
  let ?s3 = "?s2\<lparr>se_receiver := ?rv3\<rparr>"
  have entry: "file_can_request_data (st_mode sample_stat)" "st_path sample_stat = ''f''" "st_linkname sample_stat = []"
    by (simp_all add: sample_stat_def empty_stat_def file_can_request_data_def mode_type_eq)
  have "?step ?s0 ?s1"
  proof (rule step_walk)
    show "se_calls ?s0 = (''f'', entry_of_stat sample_stat, None) # []" by (simp add: initial_session_def sample_calls_def)
    show "sender_walk_entry (rn_transfer sample_receive_env) (''f'', entry_of_stat sample_stat, None) (se_sender ?s0) = (None, ?sd)"
      using entry by (simp add: sender_walk_entry_def entry_of_stat_def sample_receive_env_def quiet_env_def sync_send_def
          update_progress_def wrap_error_def initial_session_def new_sender_def stat_packet_def Let_def)
  qed
  moreover have "?step ?s1 ?s2"
  proof -
    have "recv_stat_entry plain_opt False sample_stat new_receiver = (None, ?rv)"
      using entry ok by (simp add: plain_opt_def recv_stat_entry_def recv_update_def walker_update_def
          new_receiver_def new_dynamic_walker_def Let_def)
    then have "recv_packet sample_receive_env plain_opt (stat_packet sample_stat) new_receiver = (RecvMore, ?rv)"
      by (simp add: recv_packet_def recv_progress_def plain_opt_def recv_stat_def stat_packet_def packet_types
          empty_packet_def next_of_def Let_def)
    then have "?step ?s1 (?s1\<lparr>se_got := Suc (se_got ?s1), se_receiver := ?rv\<rparr>)"
      by (intro step_recv)
        (simp_all add: initial_session_def can_receive_def walk_chan_cap_def new_receiver_def new_dynamic_walker_def)
    then show ?thesis by (simp add: initial_session_def)
  qed
  moreover have "?step ?s2 ?s3"
    by (rule step_request[of _ "''f''"])
      (simp add: async_request_def recv_send_def sample_receive_env_def quiet_env_def new_receiver_def)
  ultimately have "session_reachable sample_receive_env plain_opt sample_reads sample_calls ?s3"
    by (meson reach_start reach_step)
  moreover have "draining ?s3" "map ww_path (rv_writers (se_receiver ?s3)) = [''f'']"
    by (simp_all add: draining_def new_wrapped_writer_def)
  ultimately show ?thesis by (rule that)
qed

lemma session_reachable_steps:
  assumes "(session_step env opt open_path)\<^sup>*\<^sup>* s s'" "session_reachable env opt open_path calls s"
  shows "session_reachable env opt open_path calls s'"
  using assms by (induction rule: rtranclp_induct) (auto intro: reach_step)

section \<open>Properties\<close>

text \<open>C12. In a transfer with \<open>MetadataOnly\<close> off, however the goroutines of the two sides interleave and whichever accepted files are requested, what a
  file writer has received is a beginning of the content of the sender's file of the same path, and all of it
  once its pipe is closed.\<close>

theorem transfer_delivers_files:
  assumes "session_reachable env opt open_path calls s" "length calls \<le> 2 ^ 32" "op_metadata_only opt = None"
    and "w \<in> set (rv_writers (se_receiver s))"
  shows "prefix (ww_written w) (reads_data (opened open_path (ww_path w))) \<and>
    (ww_done w \<longrightarrow> ww_written w = reads_data (opened open_path (ww_path w)))"
proof -
  have "session_inv open_path s" by (rule session_reachable_inv[OF assms(1-3)])
  moreover obtain j where "j < length (rv_writers (se_receiver s))" "rv_writers (se_receiver s) ! j = w"
    using assms(4) by (metis in_set_conv_nth)
  ultimately show ?thesis using writer_content[of open_path s j] by blast
qed

theorem transfer_delivers_files_witness:
  "\<exists>s w. session_reachable sample_receive_env plain_opt sample_reads sample_calls s \<and>
     w \<in> set (rv_writers (se_receiver s)) \<and> ww_path w = ''f'' \<and> ww_written w = [''ab'', ''c'']"
proof -
  obtain s where s: "session_reachable sample_receive_env plain_opt sample_reads sample_calls s" "draining s"
    "map ww_path (rv_writers (se_receiver s)) = [''f'']" by (rule sample_session)
  have pre: "length sample_calls \<le> 2 ^ 32" "op_metadata_only plain_opt = None"
    by (simp_all add: sample_calls_def plain_opt_def)
  obtain s' where s': "(session_step sample_receive_env plain_opt sample_reads)\<^sup>*\<^sup>* s s'"
    "map ww_path (rv_writers (se_receiver s')) = map ww_path (rv_writers (se_receiver s))" "\<forall>w \<in> set (rv_writers (se_receiver s')). ww_done w"
    using session_completes[OF session_reachable_inv[OF s(1) pre] sample_undisturbed s(2) pre(2)] by blast
  then obtain w where w: "w \<in> set (rv_writers (se_receiver s'))" "ww_path w = ''f''" "ww_done w"
    using s(3) by auto
  have r: "session_reachable sample_receive_env plain_opt sample_reads sample_calls s'"
    by (rule session_reachable_steps[OF s'(1) s(1)])
  then have "ww_written w = reads_data (opened sample_reads ''f'')"
    using transfer_delivers_files[OF r pre w(1)] w by simp
  then show ?thesis using r w by (auto simp: opened_def sample_reads_def)
qed

text \<open>C14. In a transfer with \<open>MetadataOnly\<close> off the numbers of the two sides never get out of step: no DATA packet arrives for a number without a
  pipe, and the sender knows the file of every request.\<close>

theorem transfer_never_refused:
  assumes "session_reachable env opt open_path calls s" "length calls \<le> 2 ^ 32" "op_metadata_only opt = None"
  shows "(se_got s < length (sd_out (se_sender s)) \<and> pk_type (sd_out (se_sender s) ! se_got s) = PACKET_DATA \<longrightarrow>
      rv_pipes (se_receiver s) (pk_id (sd_out (se_sender s) ! se_got s)) \<noteq> None) \<and>
    (se_seen s < length (rv_out (se_receiver s)) \<longrightarrow>
      (\<exists>sd. sender_recv (rn_transfer env) (rv_out (se_receiver s) ! se_seen s) (se_sender s) = (Continue, sd) \<and>
        sd_pipeline sd = sd_pipeline (se_sender s) @
          [\<lparr>sh_id = pk_id (rv_out (se_receiver s) ! se_seen s), sh_path = ww_path (rv_writers (se_receiver s) ! se_seen s)\<rparr>]))"
proof -
  have inv: "session_inv open_path s" by (rule session_reachable_inv[OF assms])
  show ?thesis
    using data_has_pipe[OF inv] queue_path[OF inv] by (auto simp: sender_recv_def sender_queue_def packet_types)
qed

theorem transfer_never_refused_witness:
  "\<exists>s sd. session_reachable sample_receive_env plain_opt sample_reads sample_calls s \<and>
     (se_seen s < length (rv_out (se_receiver s)) \<longrightarrow>
       sender_recv quiet_env (rv_out (se_receiver s) ! se_seen s) (se_sender s) = (Continue, sd))"
proof -
  obtain s where s: "session_reachable sample_receive_env plain_opt sample_reads sample_calls s" by (rule sample_session)
  have pre: "length sample_calls \<le> 2 ^ 32" "op_metadata_only plain_opt = None"
    by (simp_all add: sample_calls_def plain_opt_def)
  from transfer_never_refused[OF s pre] s show ?thesis by (auto simp: sample_receive_env_def)
qed

text \<open>C13. Over a connection without errors a transfer with \<open>MetadataOnly\<close> off cannot get stuck: from every state in which the receiver has
  handled the STAT packets sent so far, the two sides can go on until every requested file is complete, although
  only 128 files fit the queue and four are sent at a time.\<close>

theorem transfer_completes:
  assumes "session_reachable env opt open_path calls s" "length calls \<le> 2 ^ 32" "op_metadata_only opt = None"
    and "undisturbed env open_path" "draining s"
  shows "\<exists>s'. (session_step env opt open_path)\<^sup>*\<^sup>* s s' \<and>
    map ww_path (rv_writers (se_receiver s')) = map ww_path (rv_writers (se_receiver s)) \<and>
    (\<forall>w \<in> set (rv_writers (se_receiver s')). ww_done w \<and> ww_written w = reads_data (opened open_path (ww_path w)))"
proof -
  obtain s' where s': "(session_step env opt open_path)\<^sup>*\<^sup>* s s'" "session_inv open_path s'"
    "map ww_path (rv_writers (se_receiver s')) = map ww_path (rv_writers (se_receiver s))"
    "\<forall>w \<in> set (rv_writers (se_receiver s')). ww_done w"
    using session_completes[OF session_reachable_inv[OF assms(1-3)] assms(4,5,3)] by blast
  moreover have "ww_written w = reads_data (opened open_path (ww_path w))" if "w \<in> set (rv_writers (se_receiver s'))" for w
    using writer_content(2)[OF s'(2)] that s'(4) by (metis in_set_conv_nth)
  ultimately show ?thesis by blast
qed

theorem transfer_completes_witness:
  "\<exists>s s'. session_reachable sample_receive_env plain_opt sample_reads sample_calls s \<and>
     (session_step sample_receive_env plain_opt sample_reads)\<^sup>*\<^sup>* s s' \<and>
     map ww_written (rv_writers (se_receiver s')) = [[''ab'', ''c'']]"
proof -
  obtain s where s: "session_reachable sample_receive_env plain_opt sample_reads sample_calls s" "draining s"
    "map ww_path (rv_writers (se_receiver s)) = [''f'']" by (rule sample_session)
  have pre: "length sample_calls \<le> 2 ^ 32" "op_metadata_only plain_opt = None"
    by (simp_all add: sample_calls_def plain_opt_def)
  obtain s' where s': "(session_step sample_receive_env plain_opt sample_reads)\<^sup>*\<^sup>* s s'"
    "map ww_path (rv_writers (se_receiver s')) = map ww_path (rv_writers (se_receiver s))"
    "\<forall>w \<in> set (rv_writers (se_receiver s')). ww_written w = reads_data (opened sample_reads (ww_path w))"
    using transfer_completes[OF s(1) pre sample_undisturbed s(2)] by blast
  then have "map ww_written (rv_writers (se_receiver s')) = [[''ab'', ''c'']]"
    using s(3) by (auto simp: opened_def sample_reads_def)
  then show ?thesis using s(1) s'(1) by (intro exI[of _ s] exI[of _ s'] conjI)
qed

end
