(* ===== verification/Follow_Links.thy ===== *)
theory Follow_Links
  imports Filter_Fs
begin

text \<open>
  \<open>followlinks.go\<close>: resolving the symbolic links on given paths of an \<open>FS\<close> into include patterns.
  The file system is given by its walk for the two states the functions use, and
  \<open>filepath.Match\<close> is a parameter.

  The resolver follows a path component by component. It may call itself on a link's targets; it
  remembers the links it met, which is what ends it on cycles. \<open>link_append\<close> has fuel for this
  recursion, and the lemmas show how much is enough.
\<close>

section \<open>Reading the file system\<close>

fun contains_wildcards :: "string \<Rightarrow> bool" where
  "contains_wildcards [] = False"
| "contains_wildcards (ch # cs) =
     (if ch = CHR 0x5C then (case cs of [] \<Rightarrow> False | c # cs' \<Rightarrow> contains_wildcards cs')
      else if ch = CHR ''*'' \<or> ch = CHR ''?'' \<or> ch = CHR ''['' then True
      else contains_wildcards cs)"

definition is_not_found :: "go_error \<Rightarrow> bool" where
  "is_not_found e \<longleftrightarrow> errno_of e = Some ENOENT"

text \<open>\<open>statFile\<close>: the entry at a path, none for the root.\<close>

definition stat_file_callback :: "string \<Rightarrow> (dir_entry option) walk_fn" where
  "stat_file_callback root p entry err res =
     (case err of Some e \<Rightarrow> (Some e, False, res)
      | None \<Rightarrow>
          if p \<noteq> root then (Some (Errorf ''expected single entry %q but got %q'' [root, p]), False, res)
          else (case entry of
              None \<Rightarrow> (Some (Panic ''nil DirEntry''), False, entry)
            | Some d \<Rightarrow> (if de_is_dir d then Some SkipDir else None, False, Some d)))"

definition stat_file :: "(dir_entry option) fs_walk \<Rightarrow> string \<Rightarrow> (dir_entry option) res" where
  "stat_file walk path =
     (let root = clean path in
      if root = [slash] \<or> root = ''.'' then Inr None
      else (case walk root (stat_file_callback root) None of
          (Some e, res) \<Rightarrow> Inl e
        | (None, None) \<Rightarrow> Inl (Wrap (''readFile '' @ root) (Errno ENOENT))
        | (None, Some d) \<Rightarrow> Inr (Some d)))"

text \<open>\<open>readDir\<close>: the entries of a directory with their names; \<^const>\<open>None\<close> is the nil slice.\<close>

type_synonym dir_list = "(string \<times> dir_entry) list option"

definition read_dir_callback :: "string \<Rightarrow> dir_list walk_fn" where
  "read_dir_callback root p entry err res =
     (case err of Some e \<Rightarrow> (Some e, False, res)
      | None \<Rightarrow>
          (case entry of
             None \<Rightarrow>
               if p \<noteq> root \<and> res = None then
                 (Some (Errorf ''expected to read parent entry %q before child %q'' [root, p]), False, res)
               else (Some (Panic ''nil DirEntry''), False, res)
           | Some d \<Rightarrow>
               if p = root then
                 (if \<not> de_is_dir d then (Some (PathError ''walk'' root ENOTDIR), False, res)
                  else (None, False, Some []))
               else (case res of
                   None \<Rightarrow> (Some (Errorf ''expected to read parent entry %q before child %q'' [root, p]), False, res)
                 | Some ds \<Rightarrow> (if de_is_dir d then Some SkipDir else None, False, Some (ds @ [(base p, d)])))))"

definition read_dir :: "dir_list fs_walk \<Rightarrow> string \<Rightarrow> dir_list res" where
  "read_dir walk path =
     (let root = clean path;
          is_root = (root = [slash] \<or> root = ''.'');
          root = (if is_root then ''.'' else root)
      in (case walk root (read_dir_callback root) (if is_root then Some [] else None) of
            (Some e, res) \<Rightarrow> Inl e
          | (None, res) \<Rightarrow>
              if res = None \<and> root \<noteq> ''.'' then Inl (Wrap (''readDir '' @ root) (Errno ENOENT)) else Inr res))"

text \<open>What the resolver uses: the two reads and \<open>filepath.Match\<close>.\<close>

record link_fs =
  lf_stat :: "string \<Rightarrow> (dir_entry option) res"
  lf_read_dir :: "string \<Rightarrow> dir_list res"
  lf_match :: "string \<Rightarrow> string \<Rightarrow> bool"

section \<open>readSymlink\<close>

text \<open>Without wildcards: the cleaned target of a link, absolute below the file system's root.\<close>

definition read_link :: "link_fs \<Rightarrow> string \<Rightarrow> (string list option) res" where
  "read_link lf p =
     (case lf_stat lf p of
        Inl e \<Rightarrow> if is_not_found e then Inr None else Inl e
      | Inr None \<Rightarrow> Inr None
      | Inr (Some entry) \<Rightarrow>
          if \<not> has_mode (de_type entry) mode_symlink then Inr None
          else
            res_bind (info_stat p entry) (\<lambda>st.
              let link = clean (st_linkname st) in
              if is_abs link then Inr (Some [link])
              else Inr (Some [join2 [slash] (join2 (dir p) link)])))"

text \<open>Appending to a slice that may be nil.\<close>

definition append_targets :: "string list option \<Rightarrow> string list option \<Rightarrow> string list option" where
  "append_targets out res =
     (case res of None \<Rightarrow> out | Some ts \<Rightarrow> if ts = [] then out else Some ((case out of None \<Rightarrow> [] | Some os \<Rightarrow> os) @ ts))"

fun read_links :: "link_fs \<Rightarrow> string \<Rightarrow> string \<Rightarrow> string list \<Rightarrow> string list option \<Rightarrow> (string list option) res" where
  "read_links lf d pat [] out = Inr out"
| "read_links lf d pat (name # names) out =
     (if lf_match lf pat name then
        res_bind (read_link lf (join2 d name)) (\<lambda>res. read_links lf d pat names (append_targets out res))
      else read_links lf d pat names out)"

definition read_symlink :: "link_fs \<Rightarrow> string \<Rightarrow> bool \<Rightarrow> (string list option) res" where
  "read_symlink lf p allow_wildcard =
     (let b = base p in
      if allow_wildcard \<and> contains_wildcards b then
        (case lf_read_dir lf (dir p) of
           Inl e \<Rightarrow> if is_not_found e then Inr None else Inl (Wrap ''readdir'' e)
         | Inr fis \<Rightarrow> read_links lf (dir p) b (map fst (case fis of None \<Rightarrow> [] | Some ds \<Rightarrow> ds)) None)
      else read_link lf p)"

section \<open>append\<close>

text \<open>
  One round of the loop on the rest \<open>p\<close> of the path, at \<open>current\<close>: the new position, the new rest
  (empty at the end), and the link targets found there.
\<close>

definition link_round :: "link_fs \<Rightarrow> string \<Rightarrow> string \<Rightarrow> (string \<times> string \<times> string list option) res" where
  "link_round lf current p =
     (let parts = split_n2 p; current = join2 current (parts ! 0) in
      res_bind (read_symlink lf current True) (\<lambda>targets.
        Inr (current, (if length parts = 2 then parts ! 1 else []), targets)))"

text \<open>
  The loop up to its return, or up to the recursive calls: the position is known, it is the end
  of the path, or it is a link with targets to which the rest of the path is appended.
\<close>

datatype link_outcome = LinkKnown | LinkEnd string | LinkTargets string "string list" string

lemma length_dropWhile_drop: "slash \<in> set p \<Longrightarrow> length (drop 1 (dropWhile (\<lambda>c. c \<noteq> slash) p)) < length p"
  by (induction p) (auto simp: less_Suc_eq_le intro: length_dropWhile_le)

lemma split_n2_rest: "length (split_n2 p) = 2 \<Longrightarrow> length (split_n2 p ! 1) < length p"
  using length_dropWhile_drop[of p] by (auto simp: split_n2_def cut_slash_def split: if_splits)

function link_loop :: "link_fs \<Rightarrow> string list \<Rightarrow> string \<Rightarrow> string \<Rightarrow> link_outcome res" where
  "link_loop lf resolved current p =
     (case link_round lf current p of
        Inl e \<Rightarrow> Inl e
      | Inr (current, rest, targets) \<Rightarrow>
          if (rest = [] \<or> targets \<noteq> None) \<and> current \<in> set resolved then Inr LinkKnown
          else (case targets of
              Some ts \<Rightarrow> Inr (LinkTargets current ts rest)
            | None \<Rightarrow> if rest = [] then Inr (LinkEnd current) else link_loop lf resolved current rest))"
  by pat_completeness auto
termination
  by (relation "measure (\<lambda>(lf, resolved, current, p). length p)")
    (auto simp: link_round_def Let_def res_bind_Inr_iff dest: sym[of _ "res_bind _ _"] split_n2_rest split: if_splits)

declare link_loop.simps [simp del]

text \<open>The recursion, with fuel: \<^const>\<open>None\<close> is running out of it.\<close>

function (sequential) link_append :: "nat \<Rightarrow> link_fs \<Rightarrow> string \<Rightarrow> string list \<Rightarrow> (string list) res option"
  and link_append_all :: "nat \<Rightarrow> link_fs \<Rightarrow> string list \<Rightarrow> string list \<Rightarrow> (string list) res option" where
  "link_append 0 lf p resolved = None"
| "link_append (Suc n) lf p resolved =
     (case link_loop lf resolved ''.'' (join2 ''.'' p) of
        Inl e \<Rightarrow> Some (Inl e)
      | Inr LinkKnown \<Rightarrow> Some (Inr resolved)
      | Inr (LinkEnd current) \<Rightarrow> Some (Inr (resolved @ [current]))
      | Inr (LinkTargets current ts rest) \<Rightarrow>
          link_append_all n lf (map (\<lambda>t. join2 t rest) ts) (resolved @ [current]))"
| "link_append_all n lf [] resolved = Some (Inr resolved)"
| "link_append_all n lf (t # ts) resolved =
     (case link_append n lf t resolved of
        None \<Rightarrow> None
      | Some (Inl e) \<Rightarrow> Some (Inl e)
      | Some (Inr resolved) \<Rightarrow> link_append_all n lf ts resolved)"
  by pat_completeness auto
termination
  by (relation "measures [\<lambda>x. case x of Inl (n, lf, p, r) \<Rightarrow> n | Inr (n, lf, ts, r) \<Rightarrow> n,
      \<lambda>x. case x of Inl (n, lf, p, r) \<Rightarrow> 0 | Inr (n, lf, ts, r) \<Rightarrow> Suc (length ts)]") auto

text \<open>\<open>FollowLinks\<close>; the resolved paths are sorted and deduplicated.\<close>

definition follow_links :: "nat \<Rightarrow> link_fs \<Rightarrow> string list \<Rightarrow> (string list option) res option" where
  "follow_links fuel lf paths =
     (case link_append_all fuel lf paths [] of
        None \<Rightarrow> None
      | Some (Inl e) \<Rightarrow> Some (Inl e)
      | Some (Inr resolved) \<Rightarrow> Some (Inr (dedupe_paths (sort resolved))))"

section \<open>The positions a resolution can reach\<close>

text \<open>The components of a path, and how \<open>Clean\<close> and \<open>Join\<close> keep them.\<close>

definition path_comps :: "string \<Rightarrow> string set" where
  "path_comps p = insert [] (insert ''.'' (set (split_slash p)))"

lemma clean_comps_subset: "set (clean_comps rooted acc cs) \<subseteq> set acc \<union> set cs"
proof (induction rooted acc cs rule: clean_comps.induct)
  case (1 rooted acc)
  then show ?case by simp
next
  case (2 rooted acc c cs)
  have tl: "set (tl acc) \<subseteq> set acc" by (cases acc) auto
  consider "c = [] \<or> c = ''.''" | "c = ''..''" "acc \<noteq> [] \<and> hd acc \<noteq> ''..''" | "c = ''..''" "\<not> (acc \<noteq> [] \<and> hd acc \<noteq> ''..'')" "rooted"
    | "c = ''..''" "\<not> (acc \<noteq> [] \<and> hd acc \<noteq> ''..'')" "\<not> rooted" | "c \<noteq> []" "c \<noteq> ''.''" "c \<noteq> ''..''" by blast
  then show ?case
  proof cases
    case 2
    then have "set (clean_comps rooted (tl acc) cs) \<subseteq> set (tl acc) \<union> set cs" by (intro "2.IH"(2)) auto
    then show ?thesis using 2 tl by auto
  qed (use "2.IH" in auto)
qed

lemma split_join_subset:
  assumes "\<forall>x \<in> set xs. slash \<notin> set x"
  shows "set (split_slash (join_slash xs)) \<subseteq> insert [] (set xs)"
  using split_join_slash[OF _ assms] by (cases "xs = []") auto

lemma path_comps_clean: "path_comps (clean p) \<subseteq> path_comps p"
proof (cases "p = []")
  case True
  then show ?thesis by (simp add: clean_def path_comps_def)
next
  case False
  define cs where "cs = clean_comps (is_abs p) [] (split_slash p)"
  have sub: "set cs \<subseteq> set (split_slash p)" using clean_comps_subset[of "is_abs p" "[]" "split_slash p"] by (simp add: cs_def)
  then have "set (split_slash (join_slash cs)) \<subseteq> insert [] (set cs)"
    by (intro split_join_subset) (use split_slash_no_slash in blast)
  moreover have "split_slash (slash # join_slash cs) = [] # split_slash (join_slash cs)"
    using split_slash_append_slash[of "[]"] by simp
  moreover have "clean p = (if is_abs p then slash # join_slash cs else if join_slash cs = [] then ''.'' else join_slash cs)"
    using False by (cases "is_abs p") (simp_all add: clean_def cs_def Let_def)
  ultimately show ?thesis using sub by (auto simp: path_comps_def)
qed

lemma path_comps_join2: "path_comps (join2 a b) \<subseteq> path_comps a \<union> path_comps b"
proof -
  consider "a \<noteq> []" | "a = []" "b \<noteq> []" | "a = []" "b = []" by blast
  then show ?thesis
  proof cases
    case 1
    then have "join2 a b = clean (a @ slash # b)" by (simp add: join2_def)
    moreover have "path_comps (a @ slash # b) = path_comps a \<union> path_comps b"
      by (auto simp: path_comps_def split_slash_append)
    ultimately show ?thesis using path_comps_clean[of "a @ slash # b"] by simp
  next
    case 2
    then show ?thesis using path_comps_clean[of b] by (auto simp: join2_def)
  next
    case 3
    then show ?thesis by (simp add: join2_def path_comps_def)
  qed
qed

text \<open>Clean absolute paths, which the targets of links are.\<close>

definition rooted_clean :: "string \<Rightarrow> bool" where
  "rooted_clean t \<longleftrightarrow> (\<exists>u. is_abs u \<and> t = clean u)"

lemma clean_comps_rooted:
  assumes "list_all good_comp acc" "\<forall>c \<in> set cs. slash \<notin> set c"
  shows "list_all good_comp (clean_comps True acc cs)"
  using assms
proof (induction cs arbitrary: acc)
  case Nil
  then show ?case by (simp add: list_all_iff)
next
  case (Cons c cs)
  have tl: "list_all good_comp (tl acc)" using Cons.prems by (cases acc) auto
  have cs: "\<forall>c \<in> set cs. slash \<notin> set c" using Cons.prems by simp
  have "good_comp c" if "c \<noteq> []" "c \<noteq> ''.''" "c \<noteq> ''..''"
    using that Cons.prems(2) by (simp add: good_comp_def)
  then have "list_all good_comp (c # acc)" if "c \<noteq> []" "c \<noteq> ''.''" "c \<noteq> ''..''"
    using that Cons.prems(1) by simp
  then show ?case using Cons.IH[OF tl cs] Cons.IH[OF Cons.prems(1) cs] Cons.IH[OF _ cs, of "c # acc"] by simp
qed

lemma rooted_cleanE:
  assumes "rooted_clean t"
  obtains gs where "list_all good_comp gs" "t = slash # join_slash gs"
proof -
  obtain u where u: "is_abs u" "t = clean u" using assms by (auto simp: rooted_clean_def)
  have "list_all good_comp (clean_comps True [] (split_slash u))"
    by (rule clean_comps_rooted) (auto dest: split_slash_no_slash)
  moreover have "t = slash # join_slash (clean_comps True [] (split_slash u))"
    using u by (auto simp: clean_def Let_def is_abs_def)
  ultimately show ?thesis by (rule that)
qed

text \<open>Below the root they are \<open>.\<close> or proper relative paths.\<close>

lemma rooted_local:
  assumes "rooted_clean t"
  shows "join2 ''.'' t = ''.'' \<or> good_path (join2 ''.'' t)"
proof -
  obtain gs where gs: "list_all good_comp gs" "t = slash # join_slash gs" using assms by (rule rooted_cleanE)
  have "split_slash (''.'' @ slash # slash # join_slash gs) = ''.'' # [] # split_slash (join_slash gs)"
    using split_slash_append_slash[of "''.''" "slash # join_slash gs"] split_slash_append_slash[of "[]" "join_slash gs"] by simp
  moreover have "split_slash (join_slash gs) = (if gs = [] then [[]] else gs)"
    using gs(1) by (auto simp: good_comps_def intro: split_join_good)
  ultimately have "clean_comps False [] (split_slash (''.'' @ slash # t)) = gs"
    using clean_comps_good[of gs False "[]"] gs by simp
  moreover have "\<not> is_abs (''.'' @ slash # t)" by (simp add: is_abs_def)
  ultimately have "join2 ''.'' t = (if join_slash gs = [] then ''.'' else join_slash gs)"
    by (simp add: join2_def clean_def Let_def)
  moreover have "good_path (join_slash gs)" if "gs \<noteq> []" using that gs(1) by (intro good_path_join) (simp add: good_comps_def)
  ultimately show ?thesis by (cases "gs = []") auto
qed

lemma rooted_join2: "is_abs t \<Longrightarrow> rooted_clean (join2 t rest)"
  by (auto simp: rooted_clean_def join2_def is_abs_def intro!: exI[of _ "t @ slash # rest"])

lemma rooted_abs: "rooted_clean t \<Longrightarrow> is_abs t"
  by (auto simp: rooted_clean_def)

lemma read_link_rooted:
  assumes "read_link lf p = Inr (Some ts)" "t \<in> set ts"
  shows "rooted_clean t"
proof -
  have "(\<exists>v. ts = [clean v] \<and> is_abs v) \<or> (\<exists>v. ts = [join2 [slash] v])"
    using assms(1) by (auto simp: read_link_def res_bind_Inr_iff Let_def split: sum.splits option.splits if_splits)
  moreover have "rooted_clean (clean v)" if "is_abs v" for v using that by (auto simp: rooted_clean_def)
  moreover have "rooted_clean (join2 [slash] u)" for u by (rule rooted_join2) (simp add: is_abs_def)
  ultimately show ?thesis using assms(2) by auto
qed

text \<open>The links and the components their targets can bring in.\<close>

definition link_positions :: "link_fs \<Rightarrow> string set" where
  "link_positions lf = {q. \<exists>ts. read_link lf q = Inr (Some ts)}"

definition link_comps :: "link_fs \<Rightarrow> string set" where
  "link_comps lf = (\<Union>q \<in> link_positions lf. case read_link lf q of Inr (Some ts) \<Rightarrow> \<Union> (path_comps ` set ts) | _ \<Rightarrow> {})"

lemma finite_link_comps: "finite (link_positions lf) \<Longrightarrow> finite (link_comps lf)"
  unfolding link_comps_def by (auto simp: path_comps_def split: sum.splits option.splits)

lemma read_links_targets:
  assumes "read_links lf d pat names out = Inr (Some ts)" "t \<in> set ts"
  shows "(\<exists>os. out = Some os \<and> t \<in> set os) \<or>
    (\<exists>name \<in> set names. \<exists>us. read_link lf (join2 d name) = Inr (Some us) \<and> t \<in> set us)"
  using assms
proof (induction names arbitrary: out)
  case Nil
  then show ?case by simp
next
  case (Cons name names)
  show ?case
  proof (cases "lf_match lf pat name")
    case False
    then show ?thesis using Cons by fastforce
  next
    case True
    then obtain res where res: "read_link lf (join2 d name) = Inr res"
      "read_links lf d pat names (append_targets out res) = Inr (Some ts)"
      using Cons.prems(1) by (auto simp: res_bind_Inr_iff)
    from Cons.IH[OF res(2) Cons.prems(2)] show ?thesis
    proof
      assume "\<exists>os. append_targets out res = Some os \<and> t \<in> set os"
      then show ?thesis using res(1)
        by (auto simp: append_targets_def split: option.splits if_splits)
    next
      assume "\<exists>name \<in> set names. \<exists>us. read_link lf (join2 d name) = Inr (Some us) \<and> t \<in> set us"
      then show ?thesis by auto
    qed
  qed
qed

text \<open>Where there are targets there is a link with them: the position itself, or one in its directory.\<close>

lemma read_links_some:
  assumes "read_links lf d pat names None = Inr (Some ts)"
  shows "\<exists>name \<in> set names. join2 d name \<in> link_positions lf"
proof -
  have "(\<exists>name \<in> set names. join2 d name \<in> link_positions lf) \<or> out \<noteq> None"
    if "read_links lf d pat names out = Inr (Some ts)" for out
    using that
  proof (induction names arbitrary: out)
    case Nil
    then show ?case by simp
  next
    case (Cons name names)
    then show ?case
      by (fastforce simp: res_bind_Inr_iff append_targets_def link_positions_def split: if_splits option.splits)
  qed
  from this[OF assms] show ?thesis by simp
qed

section \<open>Termination\<close>

lemma split_n2_good:
  assumes "good_path p"
  shows "good_comp (split_n2 p ! 0)" "length (split_n2 p) = 2 \<Longrightarrow> good_path (split_n2 p ! 1)"
    "path_comps p = path_comps (split_n2 p ! 0) \<union> (if length (split_n2 p) = 2 then path_comps (split_n2 p ! 1) else {})"
    "length (split_n2 p) = 1 \<or> length (split_n2 p) = 2"
proof -
  obtain cs where cs: "good_comps cs" "p = join_slash cs" using assms by (rule good_pathE)
  obtain c ds where c: "cs = c # ds" using cs(1) by (cases cs) (auto simp: good_comps_def)
  have gc: "good_comp c" using cs(1) c by (simp add: good_comps_def)
  have split: "split_n2 p = (if ds = [] then [c] else [c, join_slash ds])"
  proof (cases "ds = []")
    case True
    then show ?thesis using cs c gc by (simp add: split_n2_def good_comp_def)
  next
    case False
    have "slash \<notin> set c" using gc by (simp add: good_comp_def)
    then have "takeWhile (\<lambda>x. x \<noteq> slash) (c @ slash # join_slash ds) = c"
      "dropWhile (\<lambda>x. x \<noteq> slash) (c @ slash # join_slash ds) = slash # join_slash ds"
      by (induction c) auto
    then show ?thesis using False cs c by (simp add: split_n2_def cut_slash_def join_slash_Cons)
  qed
  have ds: "good_comps ds" if "ds \<noteq> []" using that cs(1) c by (simp add: good_comps_def)
  have comps: "path_comps p = insert [] (insert ''.'' (insert c (set ds)))"
    using split_join_good[OF cs(1)] cs c by (simp add: path_comps_def)
  show "good_comp (split_n2 p ! 0)" "length (split_n2 p) = 2 \<Longrightarrow> good_path (split_n2 p ! 1)"
    "length (split_n2 p) = 1 \<or> length (split_n2 p) = 2"
    using split gc good_path_join[OF ds] by (auto split: if_splits)
  show "path_comps p = path_comps (split_n2 p ! 0) \<union> (if length (split_n2 p) = 2 then path_comps (split_n2 p ! 1) else {})"
    using split comps gc ds split_join_good[OF ds] split_slash_no_slash_id[of c]
    by (auto simp: path_comps_def good_comp_def split: if_splits)
qed

lemma join2_local:
  assumes "current = ''.'' \<or> good_path current" "good_comp x"
  shows "good_path (join2 current x)"
  using assms(1)
proof
  assume "current = ''.''"
  moreover have "good_path x" using good_path_join[of "[x]"] assms(2) by simp
  ultimately show ?thesis using join2_dot by simp
next
  assume "good_path current"
  then obtain cs where "good_comps cs" "current = join_slash cs" by (rule good_pathE)
  then show ?thesis using join2_good assms(2) good_path_join[of "cs @ [x]"] by (simp add: good_comps_snoc)
qed

text \<open>A position with targets is new, has links, and lies on the path; the rest of the path is left.\<close>

lemma link_loop_new:
  assumes "link_loop lf resolved current p = Inr (LinkTargets q ts rest)"
  shows "q \<notin> set resolved \<and> read_symlink lf q True = Inr (Some ts)"
  using assms
proof (induction lf resolved current p rule: link_loop.induct)
  case (1 lf resolved current p)
  then obtain c r t where round: "link_round lf current p = Inr (c, r, t)"
    by (auto simp: link_loop.simps[of lf resolved current p] split: sum.splits)
  then have "read_symlink lf c True = Inr t" by (auto simp: link_round_def Let_def res_bind_Inr_iff)
  then show ?case
    using 1(1)[OF round refl refl] 1(2) round
    by (auto simp: link_loop.simps[of lf resolved current p] split: if_splits option.splits)
qed

lemma link_loop_rest:
  assumes "link_loop lf resolved current p = Inr (LinkTargets q ts rest)"
  shows "path_comps rest \<subseteq> path_comps p"
  using assms
proof (induction lf resolved current p rule: link_loop.induct)
  case (1 lf resolved current p)
  then obtain c r t where round: "link_round lf current p = Inr (c, r, t)"
    by (auto simp: link_loop.simps[of lf resolved current p] split: sum.splits)
  have r: "r = (if length (split_n2 p) = 2 then split_n2 p ! 1 else [])"
    using round by (auto simp: link_round_def Let_def res_bind_Inr_iff)
  have "p = takeWhile (\<lambda>x. x \<noteq> slash) p @ slash # drop 1 (dropWhile (\<lambda>x. x \<noteq> slash) p)" if "slash \<in> set p"
    using that by (induction p) auto
  then have "path_comps r \<subseteq> path_comps p"
    unfolding r using split_slash_append[of "takeWhile (\<lambda>x. x \<noteq> slash) p" "drop 1 (dropWhile (\<lambda>x. x \<noteq> slash) p)"]
    by (auto simp: split_n2_def cut_slash_def path_comps_def)
  then show ?case
    using "1.IH"[OF round refl refl] "1.prems" round
    by (auto simp: link_loop.simps[of lf resolved current p] split: if_splits option.splits)
qed

lemma link_loop_within:
  assumes "link_loop lf resolved current p = Inr (LinkTargets q ts rest)"
    and "p = ''.'' \<and> current = ''.'' \<or> good_path p \<and> (current = ''.'' \<or> good_path current)"
  shows "(q = ''.'' \<or> good_path q) \<and> path_comps q \<subseteq> path_comps current \<union> path_comps p"
  using assms
proof (induction lf resolved current p rule: link_loop.induct)
  case (1 lf resolved current p)
  then obtain c r t where round: "link_round lf current p = Inr (c, r, t)"
    by (auto simp: link_loop.simps[of lf resolved current p] split: sum.splits)
  have c: "c = join2 current (split_n2 p ! 0)" "r = (if length (split_n2 p) = 2 then split_n2 p ! 1 else [])"
    using round by (auto simp: link_round_def Let_def res_bind_Inr_iff)
  have "(c = ''.'' \<or> good_path c) \<and> path_comps c \<subseteq> path_comps current \<union> path_comps p \<and>
      path_comps r \<subseteq> path_comps p \<and> (r = [] \<or> good_path r \<and> good_path c)"
    using "1.prems"(2)
  proof
    assume "p = ''.'' \<and> current = ''.''"
    moreover have "split_n2 ''.'' = [''.'']" "join2 ''.'' ''.'' = ''.''"
      by (simp_all add: split_n2_def join2_def clean_def is_abs_def)
    ultimately show ?thesis using c by (simp add: path_comps_def)
  next
    assume p: "good_path p \<and> (current = ''.'' \<or> good_path current)"
    note s = split_n2_good[OF conjunct1[OF p]]
    have "good_path c" using join2_local[of current] p s(1) c by simp
    moreover have "path_comps c \<subseteq> path_comps current \<union> path_comps p"
      using path_comps_join2[of current "split_n2 p ! 0"] s(3) c by blast
    moreover have "path_comps r \<subseteq> path_comps p \<and> (r = [] \<or> good_path r)"
    proof (cases "length (split_n2 p) = 2")
      case True
      then have "path_comps r \<subseteq> path_comps p" using s(3) c(2) by simp
      then show ?thesis using True s(2) c(2) by simp
    next
      case False
      then show ?thesis using c(2) by (simp add: path_comps_def)
    qed
    ultimately show ?thesis by blast
  qed
  note this' = this
  show ?case
  proof (cases "q = c \<and> rest = r")
    case True
    then show ?thesis using this' by simp
  next
    case False
    then have "t = None" "r \<noteq> []" "link_loop lf resolved c r = Inr (LinkTargets q ts rest)"
      using "1.prems"(1) round by (auto simp: link_loop.simps[of lf resolved current p] split: if_splits option.splits)
    moreover from this have "(q = ''.'' \<or> good_path q) \<and> path_comps q \<subseteq> path_comps c \<union> path_comps r"
      using this' by (intro "1.IH"[OF round refl refl]) auto
    ultimately show ?thesis using this' by blast
  qed
qed

text \<open>The positions below the root that can have targets, for components from a given set: finitely many.\<close>

definition target_positions :: "link_fs \<Rightarrow> string set \<Rightarrow> string set" where
  "target_positions lf C = {q. (q = ''.'' \<or> good_path q) \<and> path_comps q \<subseteq> C \<and> (\<exists>ts. read_symlink lf q True = Inr (Some ts))}"

lemma finite_target_positions:
  assumes "finite (link_positions lf)" "finite C"
    and names: "\<forall>d ds. lf_read_dir lf d = Inr (Some ds) \<longrightarrow> list_all (\<lambda>(name, entry). good_comp name) ds"
  shows "finite (target_positions lf C)"
proof (rule finite_subset)
  let ?f = "\<lambda>(d, b). join2 (if d = ''.'' then [] else d) b"
  show "finite (link_positions lf \<union> ?f ` (dir ` link_positions lf \<times> C))" using assms(1,2) by simp
  show "target_positions lf C \<subseteq> link_positions lf \<union> ?f ` (dir ` link_positions lf \<times> C)"
  proof
    fix q assume "q \<in> target_positions lf C"
    then obtain ts where q: "q = ''.'' \<or> good_path q" "path_comps q \<subseteq> C" "read_symlink lf q True = Inr (Some ts)"
      by (auto simp: target_positions_def)
    show "q \<in> link_positions lf \<union> ?f ` (dir ` link_positions lf \<times> C)"
    proof (cases "contains_wildcards (base q)")
      case False
      then show ?thesis using q(3) by (simp add: read_symlink_def link_positions_def)
    next
      case True
      obtain fis where fis: "lf_read_dir lf (dir q) = Inr fis"
        "read_links lf (dir q) (base q) (map fst (case fis of None \<Rightarrow> [] | Some ds \<Rightarrow> ds)) None = Inr (Some ts)"
        using q(3) True by (auto simp: read_symlink_def Let_def split: sum.splits if_splits)
      obtain name where name: "name \<in> set (map fst (case fis of None \<Rightarrow> [] | Some ds \<Rightarrow> ds))"
        "join2 (dir q) name \<in> link_positions lf" using read_links_some[OF fis(2)] by blast
      have good: "good_comp name"
        using names fis(1) name(1) by (cases fis) (fastforce simp: list_all_iff)+
      have loc: "local_path q" using q(1) by (simp add: local_path_iff)
      have "dir (join2 (dir q) name) = dir q"
        using dir_local_good[OF loc]
      proof
        assume "dir q = ''.''"
        moreover have "good_path name" using good good_path_join[of "[name]"] by simp
        ultimately show ?thesis using join2_dot dir_single[OF good] by simp
      next
        assume "good_path (dir q)"
        then obtain cs where "good_comps cs" "dir q = join_slash cs" by (rule good_pathE)
        then show ?thesis using join2_good dir_snoc good by simp
      qed
      then have d: "dir q \<in> dir ` link_positions lf" using name(2) by (metis imageI)
      have "base q \<in> path_comps q" using base_local[OF loc] by (simp add: path_comps_def)
      then have b: "base q \<in> C" using q(2) by blast
      have "q = ?f (dir q, base q)" using dir_local[OF loc] join_parent_base[OF loc] by simp
      then show ?thesis using d b by blast
    qed
  qed
qed

text \<open>More fuel changes nothing, and what is resolved stays so.\<close>

lemma link_append_mono:
  "link_append n lf p resolved = Some r \<Longrightarrow> link_append (Suc n) lf p resolved = Some r"
  "link_append_all n lf ts resolved = Some r \<Longrightarrow> link_append_all (Suc n) lf ts resolved = Some r"
proof (induction n lf p resolved and n lf ts resolved arbitrary: r and r rule: link_append_link_append_all.induct)
  case (2 n lf p resolved)
  then show ?case by (simp split: sum.splits link_outcome.splits)
next
  case (4 n lf t ts resolved)
  then show ?case by (auto split: option.splits sum.splits simp del: link_append.simps)
qed simp_all

lemma link_append_grows:
  "link_append n lf p resolved = Some (Inr resolved') \<Longrightarrow> set resolved \<subseteq> set resolved'"
  "link_append_all n lf ts resolved = Some (Inr resolved') \<Longrightarrow> set resolved \<subseteq> set resolved'"
proof (induction n lf p resolved and n lf ts resolved arbitrary: resolved' and resolved' rule: link_append_link_append_all.induct)
  case (2 n lf p resolved)
  then show ?case by (fastforce split: sum.splits link_outcome.splits)
next
  case (4 n lf t ts resolved)
  then show ?case by (fastforce split: option.splits sum.splits simp del: link_append.simps)
qed simp_all

definition start_ok :: "string set \<Rightarrow> string \<Rightarrow> bool" where
  "start_ok C p \<longleftrightarrow> (join2 ''.'' p = ''.'' \<or> good_path (join2 ''.'' p)) \<and> path_comps (join2 ''.'' p) \<subseteq> C"

lemma read_symlink_target:
  assumes "read_symlink lf q w = Inr (Some ts)" "t \<in> set ts"
  shows "\<exists>q' us. read_link lf q' = Inr (Some us) \<and> t \<in> set us"
  using assms read_links_targets[OF _ assms(2)]
  by (fastforce simp: read_symlink_def Let_def split: sum.splits if_splits)

lemma next_start_ok:
  assumes "read_symlink lf q w = Inr (Some ts)" "t \<in> set ts" "path_comps rest \<subseteq> C" "link_comps lf \<subseteq> C"
  shows "start_ok C (join2 t rest)"
proof -
  obtain q' us where u: "read_link lf q' = Inr (Some us)" "t \<in> set us" using read_symlink_target[OF assms(1,2)] by blast
  then have "q' \<in> link_positions lf" by (auto simp: link_positions_def)
  then have "path_comps t \<subseteq> link_comps lf" using u by (force simp: link_comps_def)
  moreover have "path_comps (join2 ''.'' (join2 t rest)) \<subseteq> path_comps ''.'' \<union> (path_comps t \<union> path_comps rest)"
    using path_comps_join2[of "''.''" "join2 t rest"] path_comps_join2[of t rest] by blast
  moreover have "path_comps ''.'' \<subseteq> path_comps rest" by (auto simp: path_comps_def)
  moreover have "rooted_clean (join2 t rest)"
    using rooted_join2 rooted_abs read_link_rooted[OF u] by blast
  ultimately show ?thesis using rooted_local[of "join2 t rest"] assms(3,4) unfolding start_ok_def by blast
qed

lemma link_append_ends:
  assumes "finite (target_positions lf C)" "link_comps lf \<subseteq> C"
  shows "(\<forall>p resolved. start_ok C p \<longrightarrow> card (target_positions lf C - set resolved) < n \<longrightarrow> link_append n lf p resolved \<noteq> None) \<and>
    (\<forall>ts resolved. list_all (start_ok C) ts \<longrightarrow> card (target_positions lf C - set resolved) < n \<longrightarrow>
      link_append_all n lf ts resolved \<noteq> None)"
proof (induction n)
  case 0
  then show ?case by simp
next
  case (Suc n)
  let ?T = "target_positions lf C"
  have one: "link_append (Suc n) lf p resolved \<noteq> None" if ok: "start_ok C p" and fuel: "card (?T - set resolved) < Suc n" for p resolved
  proof (cases "link_loop lf resolved ''.'' (join2 ''.'' p)")
    case (Inr out)
    show ?thesis
    proof (cases out)
      case (LinkTargets q ts rest)
      then have l: "link_loop lf resolved ''.'' (join2 ''.'' p) = Inr (LinkTargets q ts rest)" using Inr by simp
      have q: "q \<notin> set resolved" "read_symlink lf q True = Inr (Some ts)" using link_loop_new[OF l] by blast+
      have C: "path_comps (join2 ''.'' p) \<subseteq> C" "path_comps ''.'' \<subseteq> C" "path_comps rest \<subseteq> C"
        using ok link_loop_rest[OF l] by (auto simp: start_ok_def path_comps_def)
      have "q \<in> ?T"
        using link_loop_within[OF l] ok q C by (auto simp: start_ok_def target_positions_def)
      then have "?T - set (resolved @ [q]) \<subset> ?T - set resolved" using q(1) by auto
      then have "card (?T - set (resolved @ [q])) < card (?T - set resolved)" using assms(1) by (simp add: psubset_card_mono)
      then have "card (?T - set (resolved @ [q])) < n" using fuel by simp
      moreover have "list_all (start_ok C) (map (\<lambda>t. join2 t rest) ts)"
        using next_start_ok[OF q(2) _ C(3) assms(2)] by (simp add: list_all_iff)
      ultimately have "link_append_all n lf (map (\<lambda>t. join2 t rest) ts) (resolved @ [q]) \<noteq> None" using Suc by blast
      then show ?thesis using l by simp
    qed (use Inr in simp_all)
  qed simp
  have "link_append_all (Suc n) lf ts resolved \<noteq> None"
    if "list_all (start_ok C) ts" "card (?T - set resolved) < Suc n" for ts resolved
    using that
  proof (induction ts arbitrary: resolved)
    case Nil
    then show ?case by simp
  next
    case (Cons t ts)
    have "link_append (Suc n) lf t resolved \<noteq> None" using one Cons.prems by simp
    then consider e where "link_append (Suc n) lf t resolved = Some (Inl e)"
      | r where "link_append (Suc n) lf t resolved = Some (Inr r)" by (metis not_None_eq sum.exhaust)
    then show ?case
    proof cases
      case 1
      then show ?thesis by simp
    next
      case (2 r)
      then have "?T - set r \<subseteq> ?T - set resolved" using link_append_grows(1) by fastforce
      then have "card (?T - set r) < Suc n" using Cons.prems(2) assms(1) by (meson card_mono finite_Diff le_less_trans)
      then show ?thesis using Cons 2 by simp
    qed
  qed
  with one show ?case by blast
qed

text \<open>The first round starts anywhere, also above the root; what it finds leads below it.\<close>

lemma link_append_first:
  assumes "finite (target_positions lf C)" "link_comps lf \<subseteq> C" "path_comps (join2 ''.'' p) \<subseteq> C"
    and "card (target_positions lf C) < n"
  shows "link_append (Suc n) lf p resolved \<noteq> None"
proof (cases "link_loop lf resolved ''.'' (join2 ''.'' p)")
  case (Inr out)
  show ?thesis
  proof (cases out)
    case (LinkTargets q ts rest)
    then have l: "link_loop lf resolved ''.'' (join2 ''.'' p) = Inr (LinkTargets q ts rest)" using Inr by simp
    have q: "read_symlink lf q True = Inr (Some ts)" using link_loop_new[OF l] by blast
    have rest: "path_comps rest \<subseteq> C" using link_loop_rest[OF l] assms(3) by blast
    have "list_all (start_ok C) (map (\<lambda>t. join2 t rest) ts)"
      using next_start_ok[OF q _ rest assms(2)] by (simp add: list_all_iff)
    moreover have "card (target_positions lf C - set (resolved @ [q])) < n"
      using card_Diff_subset_Int assms(1,4) by (meson Diff_subset card_mono le_less_trans)
    ultimately have "link_append_all n lf (map (\<lambda>t. join2 t rest) ts) (resolved @ [q]) \<noteq> None"
      using link_append_ends[OF assms(1,2)] by blast
    then show ?thesis using l by simp
  qed (use Inr in simp_all)
qed simp

lemma follow_links_mono:
  assumes "follow_links n lf paths = Some r" "n \<le> m"
  shows "follow_links m lf paths = Some r"
  using assms(2)
proof (induction m rule: dec_induct)
  case base
  then show ?case using assms(1) by simp
next
  case (step m)
  then show ?case by (auto simp: follow_links_def split: option.splits dest: link_append_mono(2))
qed

section \<open>Properties\<close>

text \<open>C20. On a file system with finitely many links \<open>FollowLinks\<close> returns, whatever cycles the links form and
  whatever wildcards the paths and the targets have: some fuel is enough, and more gives the same result.\<close>

theorem follow_links_terminates:
  assumes "finite (link_positions lf)"
    and "\<forall>d ds. lf_read_dir lf d = Inr (Some ds) \<longrightarrow> list_all (\<lambda>(name, entry). good_comp name) ds"
  shows "\<exists>n r. \<forall>m \<ge> n. follow_links m lf paths = Some r"
proof -
  define C where "C = link_comps lf \<union> (\<Union>p \<in> set paths. path_comps (join2 ''.'' p))"
  have fin: "finite (target_positions lf C)"
    by (rule finite_target_positions[OF assms(1) _ assms(2)])
      (use finite_link_comps[OF assms(1)] in \<open>simp add: C_def path_comps_def\<close>)
  define n where "n = Suc (Suc (card (target_positions lf C)))"
  have "link_append_all n lf ps resolved \<noteq> None" if "set ps \<subseteq> set paths" for ps resolved
    using that
  proof (induction ps arbitrary: resolved)
    case Nil
    then show ?case by (simp add: n_def)
  next
    case (Cons p ps)
    have "path_comps (join2 ''.'' p) \<subseteq> C" using Cons.prems by (auto simp: C_def)
    then have "link_append n lf p resolved \<noteq> None"
      unfolding n_def by (intro link_append_first[OF fin]) (auto simp: C_def)
    then consider e where "link_append n lf p resolved = Some (Inl e)"
      | r where "link_append n lf p resolved = Some (Inr r)" by (metis not_None_eq sum.exhaust)
    then show ?case
    proof cases
      case (1 e)
      then show ?thesis by (simp add: n_def)
    next
      case (2 r)
      then show ?thesis using Cons by (simp add: n_def)
    qed
  qed
  from this[OF subset_refl] obtain x where "link_append_all n lf paths [] = Some x" by blast
  then obtain r where "follow_links n lf paths = Some r" by (cases x) (auto simp: follow_links_def)
  then show ?thesis using follow_links_mono by blast
qed

text \<open>A link that points to itself, in the only directory.\<close>

definition sample_link_entry :: dir_entry where
  "sample_link_entry = entry_of_stat (empty_stat\<lparr>st_path := ''a'', st_mode := mode_symlink, st_linkname := ''a''\<rparr>)"

definition sample_links :: link_fs where
  "sample_links =
     \<lparr>lf_stat = (\<lambda>p. if p = ''a'' then Inr (Some sample_link_entry) else Inl (Errno ENOENT)),
      lf_read_dir = (\<lambda>d. if d = ''.'' then Inr (Some [(''a'', sample_link_entry)]) else Inl (Errno ENOENT)),
      lf_match = (\<lambda>pat name. pat = ''*'' \<or> pat = name)\<rparr>"

theorem follow_links_terminates_witness: "\<exists>n r. follow_links n sample_links [''a/b'', ''*''] = Some r"
proof -
  have "link_positions sample_links \<subseteq> {''a''}"
    by (auto simp: link_positions_def read_link_def sample_links_def is_not_found_def split: if_splits)
  then have "finite (link_positions sample_links)" by (rule finite_subset) simp
  moreover have "\<forall>d ds. lf_read_dir sample_links d = Inr (Some ds) \<longrightarrow> list_all (\<lambda>(name, entry). good_comp name) ds"
    by (auto simp: sample_links_def good_comp_def split: if_splits)
  ultimately show ?thesis using follow_links_terminates[of sample_links "[''a/b'', ''*'']"] by blast
qed

end
