(* ===== verification/Walk_Order.thy ===== *)
theory Walk_Order
  imports Follow_Links Validator
begin

text \<open>
  The order in which walks report entries. A cursor says what a walk has reported last and whether
  it may still go below that; \<open>may_visit\<close> tells which path can come next in the tree order. A walk is
  well ordered when every property of its consumer's state that each call keeps, as long as the
  calls follow the cursor, still holds at its end.

  The lemmas show that walking a tree of directory entries is well ordered, and so are \<open>fs\<close>, \<open>rootFS\<close>
  and, over any such walk and for all patterns, the filter; and that what any consumer of a
  well-ordered walk is shown is a stream that the receiver's \<open>Validator\<close> accepts.
\<close>

section \<open>Cursors\<close>

type_synonym cursor = "(string list \<times> bool) option"

definition may_visit :: "cursor \<Rightarrow> string list \<Rightarrow> bool" where
  "may_visit cur cs \<longleftrightarrow>
     (case cur of None \<Rightarrow> False
      | Some (ls, deeper) \<Rightarrow> good_comps cs \<and> ls < cs \<and> prefix (butlast cs) ls \<and> (butlast cs = ls \<longrightarrow> deeper))"

text \<open>The start, and what a call on a path with its answer leads to.\<close>

definition start_cursor :: cursor where
  "start_cursor = Some ([], True)"

definition next_cursor :: "string list \<Rightarrow> bool \<Rightarrow> go_error option \<Rightarrow> cursor" where
  "next_cursor cs isdir r =
     (case r of None \<Rightarrow> Some (cs, isdir) | Some e \<Rightarrow> if e = SkipDir then Some (cs, False) else None)"

lemma may_visit_None [simp]: "\<not> may_visit None cs"
  by (simp add: may_visit_def)

lemma may_visit_good: "may_visit cur cs \<Longrightarrow> good_comps cs"
  by (auto simp: may_visit_def split: option.splits)

lemma less_append: "xs < xs @ z # (zs :: string list)"
  by (induction xs) auto

lemma prefix_less: "strict_prefix xs ys \<Longrightarrow> xs < (ys :: string list)"
  by (auto elim!: strict_prefixE' intro: less_append)

lemma append_less: "x < y \<Longrightarrow> xs @ x # as < xs @ y # (bs :: string list)"
  by (induction xs) auto

text \<open>A path that can follow a skipped one could come in its place.\<close>

lemma may_visit_skip:
  assumes "may_visit cur cs" "may_visit (Some (cs, False)) xs"
  shows "may_visit cur xs"
proof -
  obtain ls deeper where cur: "cur = Some (ls, deeper)" using assms(1) by (cases cur) auto
  have c: "good_comps cs" "ls < cs" "prefix (butlast cs) ls" "butlast cs = ls \<longrightarrow> deeper"
    using assms(1) by (simp_all add: may_visit_def cur)
  have x: "good_comps xs" "cs < xs" "prefix (butlast xs) cs" "butlast xs \<noteq> cs"
    using assms(2) by (simp_all add: may_visit_def)
  have "cs \<noteq> []" using c(1) by (simp add: good_comps_def)
  then have "prefix (butlast xs) (butlast cs)"
    using x(3,4) prefix_snoc[of "butlast xs" "butlast cs" "last cs"] by simp
  moreover from this have "prefix (butlast xs) ls" using c(3) by (rule prefix_order.trans)
  moreover have "deeper" if "butlast xs = ls"
    using that c(3,4) calculation(1) by (metis prefix_order.antisym)
  ultimately show ?thesis using c(2) x(1,2) by (auto simp: may_visit_def cur)
qed

lemma may_visit_closed: "may_visit (Some (cs, False)) xs \<Longrightarrow> may_visit (Some (cs, b)) xs"
  by (simp add: may_visit_def)

text \<open>Above a path that is visited one can visit again.\<close>

lemma may_visit_above:
  assumes "may_visit cur cs" "may_visit (Some (cs, b)) xs" "prefix (butlast xs) ls" "strict_prefix ls cs"
    "butlast xs = ls \<longrightarrow> deeper"
  shows "may_visit (Some (ls, deeper)) xs"
  using assms less_trans[OF prefix_less[OF assms(4)]] by (auto simp: may_visit_def)

section \<open>Well-ordered walks\<close>

text \<open>An entry that agrees with its own \<open>Stat\<close>.\<close>

definition entry_ok :: "string \<Rightarrow> dir_entry \<Rightarrow> bool" where
  "entry_ok p d \<longleftrightarrow> (\<forall>st. de_info d = Inr (StatInfo st) \<longrightarrow> st_path st = p \<and> stat_is_dir st = de_is_dir d)"

text \<open>A consumer whose calls keep \<open>J\<close>; it does not report a missing file for an entry it could read.\<close>

definition visits_keep :: "'s walk_fn \<Rightarrow> (cursor \<Rightarrow> 's \<Rightarrow> bool) \<Rightarrow> bool" where
  "visits_keep fn J \<longleftrightarrow>
     (\<forall>cur cs d s r called s'. J cur s \<longrightarrow> may_visit cur cs \<longrightarrow> entry_ok (join_slash cs) d \<longrightarrow>
        fn (join_slash cs) (Some d) None s = (r, called, s') \<longrightarrow>
        J (next_cursor cs (de_is_dir d) (skip_missing r)) s' \<and>
        ((\<exists>st. de_info d = Inr (StatInfo st)) \<longrightarrow> skip_missing r = r)) \<and>
     (\<forall>cs d e s r called s'. J (Some (cs, True)) s \<longrightarrow> good_comps cs \<longrightarrow> entry_ok (join_slash cs) d \<longrightarrow>
        fn (join_slash cs) (Some d) (Some e) s = (r, called, s') \<longrightarrow>
        J (next_cursor cs False (skip_missing r)) s')"

definition tree_walk :: "'s fs_walk \<Rightarrow> string \<Rightarrow> bool" where
  "tree_walk walk target \<longleftrightarrow>
     (\<forall>fn J s r s'. visits_keep fn J \<longrightarrow> J start_cursor s \<longrightarrow> walk target fn s = (r, s') \<longrightarrow> (\<exists>cur. J cur s'))"

lemma visits_keep_call:
  assumes "visits_keep fn J" "J cur s" "may_visit cur cs" "entry_ok (join_slash cs) d"
    and "fn (join_slash cs) (Some d) None s = (r, called, s')"
  shows "J (next_cursor cs (de_is_dir d) (skip_missing r)) s'"
    "\<exists>st. de_info d = Inr (StatInfo st) \<Longrightarrow> skip_missing r = r"
  using assms unfolding visits_keep_def by blast+

lemma visits_keep_error:
  assumes "visits_keep fn J" "J (Some (cs, True)) s" "good_comps cs" "entry_ok (join_slash cs) d"
    and "fn (join_slash cs) (Some d) (Some e) s = (r, called, s')"
  shows "J (next_cursor cs False (skip_missing r)) s'"
  using assms unfolding visits_keep_def by blast

section \<open>Walking a tree of directory entries\<close>

text \<open>
  Trees as a file system gives them: the names in a directory are proper and strictly sorted,
  only directories have entries, and a directory that could not be read has none. \<open>Q\<close> is what is
  known of each entry.
\<close>

fun wf_node :: "(string list \<Rightarrow> os_dir_entry \<Rightarrow> bool) \<Rightarrow> string list \<Rightarrow> os_tree \<Rightarrow> bool" where
  "wf_node Q cs (OsNode name d read_err ts) \<longleftrightarrow>
     Q cs d \<and> (od_is_dir d \<or> ts = []) \<and> (read_err \<noteq> None \<longrightarrow> ts = []) \<and>
     sorted_wrt (<) (map ot_name ts) \<and> list_all (\<lambda>t. good_comp (ot_name t) \<and> wf_node Q (cs @ [ot_name t]) t) ts"

definition wf_nodes :: "(string list \<Rightarrow> os_dir_entry \<Rightarrow> bool) \<Rightarrow> string list \<Rightarrow> os_tree list \<Rightarrow> bool" where
  "wf_nodes Q cs ts \<longleftrightarrow>
     sorted_wrt (<) (map ot_name ts) \<and> list_all (\<lambda>t. good_comp (ot_name t) \<and> wf_node Q (cs @ [ot_name t]) t) ts"

lemma wf_nodes_Cons:
  "wf_nodes Q cs (t # ts) \<longleftrightarrow>
     good_comp (ot_name t) \<and> wf_node Q (cs @ [ot_name t]) t \<and> (\<forall>u \<in> set ts. ot_name t < ot_name u) \<and> wf_nodes Q cs ts"
  by (auto simp: wf_nodes_def)

text \<open>The same for the callback of \<open>WalkDir\<close>; \<open>at\<close> gives the path of an entry.\<close>

definition os_keep ::
  "(string list \<Rightarrow> string) \<Rightarrow> (string list \<Rightarrow> os_dir_entry \<Rightarrow> bool) \<Rightarrow> 's os_walk_fn \<Rightarrow> (cursor \<Rightarrow> 's \<Rightarrow> bool) \<Rightarrow> bool" where
  "os_keep at Q fn J \<longleftrightarrow>
     (\<forall>cur cs d s r s'. J cur s \<longrightarrow> may_visit cur cs \<longrightarrow> Q cs d \<longrightarrow> fn (at cs) (Some d) None s = (r, s') \<longrightarrow>
        J (next_cursor cs (od_is_dir d) r) s') \<and>
     (\<forall>cs d e s r s'. J (Some (cs, True)) s \<longrightarrow> good_comps cs \<longrightarrow> Q cs d \<longrightarrow> fn (at cs) (Some d) (Some e) s = (r, s') \<longrightarrow>
        J (next_cursor cs False r) s')"

definition joins :: "(string list \<Rightarrow> string) \<Rightarrow> bool" where
  "joins at \<longleftrightarrow> (\<forall>cs x. list_all good_comp cs \<longrightarrow> good_comp x \<longrightarrow> join2 (at cs) x = at (cs @ [x]))"

lemma walk_keeps:
  assumes "joins at"
  shows "walk_node fn path t s = (r, s') \<Longrightarrow> path = at cs \<Longrightarrow> wf_node Q cs t \<Longrightarrow> J cur s \<Longrightarrow> may_visit cur cs \<Longrightarrow>
      os_keep at Q fn J \<Longrightarrow> \<exists>cur'. J cur' s' \<and> (r = None \<or> r = Some SkipDir \<longrightarrow> (\<exists>ls deeper. cur' = Some (ls, deeper) \<and> prefix cs ls))"
    and "walk_nodes fn path ts s = (r, s') \<Longrightarrow> path = at cs \<Longrightarrow> list_all good_comp cs \<Longrightarrow> wf_nodes Q cs ts \<Longrightarrow>
      J (Some (ls, deeper)) s \<Longrightarrow> prefix cs ls \<Longrightarrow> (cs = ls \<longrightarrow> deeper) \<Longrightarrow> (\<forall>t \<in> set ts. ls < cs @ [ot_name t]) \<Longrightarrow>
      os_keep at Q fn J \<Longrightarrow> \<exists>cur'. J cur' s' \<and> r \<noteq> Some SkipDir \<and> (r = None \<longrightarrow> (\<exists>ls deeper. cur' = Some (ls, deeper) \<and> prefix cs ls))"
proof (induction fn path t s and fn path ts s arbitrary: cs cur r s' and cs ls deeper r s' rule: walk_node_walk_nodes.induct)
  case (1 fn path name d read_err ts s)
  note path = "1.prems"(2) and wf = "1.prems"(3)
  obtain err s1 where call: "fn path (Some d) None s = (err, s1)" by fastforce
  have q: "Q cs d" using wf by simp
  have J1: "J (next_cursor cs (od_is_dir d) err) s1"
    using "1.prems"(4-6) q call path unfolding os_keep_def by blast
  have good: "good_comps cs" using "1.prems"(5) by (rule may_visit_good)
  have stop: "\<exists>cur'. J cur' s2 \<and> (skipped d e = None \<or> skipped d e = Some SkipDir \<longrightarrow>
      (\<exists>ls deeper. cur' = Some (ls, deeper) \<and> prefix cs ls))" if "J (next_cursor cs isdir e) s2" for isdir e s2
    using that by (intro exI[of _ "next_cursor cs isdir e"]) (auto simp: next_cursor_def skipped_def split: option.splits)
  show ?case
  proof (cases "err \<noteq> None \<or> \<not> od_is_dir d")
    case True
    then have "(r, s') = (skipped d err, s1)" using "1.prems"(1) call by simp
    then show ?thesis using stop[OF J1] by simp
  next
    case False
    then have d: "err = None" "od_is_dir d" by simp_all
    then have J2: "J (Some (cs, True)) s1" using J1 by (simp add: next_cursor_def)
    show ?thesis
    proof (cases read_err)
      case None
      then have w: "walk_nodes fn path ts s1 = (r, s')" using "1.prems"(1) call d by simp
      have "\<exists>cur'. J cur' s' \<and> r \<noteq> Some SkipDir \<and> (r = None \<longrightarrow> (\<exists>ls deeper. cur' = Some (ls, deeper) \<and> prefix cs ls))"
      proof (rule "1.IH"(1)[OF call[symmetric] _ None w path])
        show "\<not> (err \<noteq> None \<or> \<not> od_is_dir d)" using d by simp
        show "list_all good_comp cs" using good by (simp add: good_comps_def)
        show "wf_nodes Q cs ts" using wf by (simp add: wf_nodes_def)
        show "\<forall>t \<in> set ts. cs < cs @ [ot_name t]" by (simp add: less_append)
        show "os_keep at Q fn J" by (rule "1.prems"(6))
      qed (use J2 in simp_all)
      then show ?thesis by blast
    next
      case (Some e)
      obtain err2 s2 where call2: "fn path (Some d) (Some e) s1 = (err2, s2)" by fastforce
      have J3: "J (next_cursor cs False err2) s2"
        using "1.prems"(6) J2 good q call2 path unfolding os_keep_def by blast
      have "(r, s') = (skipped d err2, s2)"
        using "1.prems"(1) call call2 d Some wf by (cases err2) (simp_all add: skipped_def)
      then show ?thesis using stop[OF J3] by simp
    qed
  qed
next
  case (2 fn path s)
  then show ?case by auto
next
  case (3 fn path t ts s)
  obtain err s1 where call: "walk_node fn (join2 path (ot_name t)) t s = (err, s1)" by fastforce
  have t: "good_comp (ot_name t)" "wf_node Q (cs @ [ot_name t]) t" "\<forall>u \<in> set ts. ot_name t < ot_name u" "wf_nodes Q cs ts"
    using "3.prems"(4) by (auto simp: wf_nodes_Cons)
  have at: "join2 path (ot_name t) = at (cs @ [ot_name t])"
    using assms "3.prems"(2,3) t(1) unfolding joins_def by blast
  have "may_visit (Some (ls, deeper)) (cs @ [ot_name t])"
    using "3.prems"(3,6-8) t(1) by (simp add: may_visit_def good_comps_def)
  from "3.IH"(1)[OF call at t(2) "3.prems"(5) this "3.prems"(9)] obtain cur' where cur': "J cur' s1"
    "err = None \<or> err = Some SkipDir \<longrightarrow> (\<exists>ls deeper. cur' = Some (ls, deeper) \<and> prefix (cs @ [ot_name t]) ls)" by blast
  show ?case
  proof (cases err)
    case (Some e)
    then have "(r, s') = ((if e = SkipDir then None else Some e), s1)" using "3.prems"(1) call by simp
    then show ?thesis using cur' Some append_prefixD by (intro exI[of _ cur']) auto
  next
    case None
    then obtain ls' deeper' where ls': "cur' = Some (ls', deeper')" "prefix (cs @ [ot_name t]) ls'" using cur' by blast
    then obtain rest where rest: "ls' = cs @ ot_name t # rest" by (auto simp: prefix_def)
    have w: "walk_nodes fn path ts s1 = (r, s')" using "3.prems"(1) call None by simp
    show ?thesis
    proof (rule "3.IH"(2)[OF call[symmetric] None w "3.prems"(2,3) t(4)])
      show "J (Some (ls', deeper')) s1" using cur'(1) ls'(1) by simp
      show "\<forall>u \<in> set ts. ls' < cs @ [ot_name u]" using t(3) rest by (auto intro: append_less)
      show "os_keep at Q fn J" by (rule "3.prems"(9))
    qed (use rest in auto)
  qed
qed

section \<open>From a callback of WalkDir to the consumer\<close>

text \<open>
  The walks of \<open>fs\<close> and \<open>rootFS\<close> leave out entries they cannot describe. So the consumer's cursor may
  lag behind, but what comes next can still follow it.
\<close>

definition lift_inv :: "(cursor \<Rightarrow> 's \<Rightarrow> bool) \<Rightarrow> cursor \<Rightarrow> 'm \<times> 's \<Rightarrow> bool" where
  "lift_inv J cur ms \<longleftrightarrow>
     (\<exists>cur0. J cur0 (snd ms) \<and> (\<forall>x. may_visit cur x \<longrightarrow> may_visit cur0 x) \<and>
        (\<forall>cs. cur = Some (cs, True) \<longrightarrow> cur0 = cur))"

lemma lift_inv_exact: "J cur s \<Longrightarrow> lift_inv J cur (m, s)"
  by (auto simp: lift_inv_def)

lemma lift_inv_left_out:
  assumes "lift_inv J cur (m, s)" "may_visit cur cs"
  shows "lift_inv J (next_cursor cs isdir (Some e)) (m', s)"
proof -
  obtain cur0 where cur0: "J cur0 s" "\<forall>x. may_visit cur x \<longrightarrow> may_visit cur0 x"
    using assms(1) by (auto simp: lift_inv_def)
  then have "may_visit cur0 x" if "may_visit (Some (cs, False)) x" for x
    using may_visit_skip[OF assms(2) that] by blast
  then show ?thesis using cur0(1) by (auto simp: lift_inv_def next_cursor_def)
qed

lemma lift_inv_called:
  assumes "visits_keep fn J" "lift_inv J cur (m, s)" "may_visit cur cs" "entry_ok (join_slash cs) d"
    and "fn (join_slash cs) (Some d) None s = (r, called, s')"
  shows "lift_inv J (next_cursor cs (de_is_dir d) (skip_missing r)) (m', s')"
proof -
  obtain cur0 where "J cur0 s" "may_visit cur0 cs" using assms(2,3) by (auto simp: lift_inv_def)
  then show ?thesis using visits_keep_call(1)[OF assms(1) _ _ assms(4,5)] by (intro lift_inv_exact) blast
qed

lemma lift_inv_error:
  assumes "visits_keep fn J" "lift_inv J (Some (cs, True)) (m, s)" "good_comps cs" "entry_ok (join_slash cs) d"
    and "fn (join_slash cs) (Some d) (Some e) s = (r, called, s')"
  shows "lift_inv J (next_cursor cs False (skip_missing r)) (m', s')"
  using visits_keep_error[OF assms(1) _ assms(3-5)] assms(2) by (auto simp: lift_inv_def)

lemma lift_inv_error_left_out:
  assumes "lift_inv J (Some (cs, True)) (m, s)"
  shows "lift_inv J (next_cursor cs False (Some e)) (m', s)"
  using assms may_visit_closed[of cs _ True] by (auto simp: lift_inv_def next_cursor_def)

lemma next_cursor_nondir: "r \<noteq> None \<Longrightarrow> next_cursor cs isdir r = next_cursor cs False r"
  by (cases r) (auto simp: next_cursor_def)

lemma skip_missing_simps [simp]:
  "skip_missing None = None" "skip_missing (Some e) \<noteq> None" "skip_missing r = None \<longleftrightarrow> r = None"
  "skip_missing (Some CtxErr) = Some CtxErr" "skip_missing (Some SkipDir) = Some SkipDir"
  by (auto simp: skip_missing_def is_not_exist_def split: option.splits)

lemma skip_missing_Some: "\<exists>e'. skip_missing (Some e) = Some e'"
  by (simp add: skip_missing_def)

section \<open>The walks of fs and rootFS\<close>

lemma mkstat_path_mode:
  assumes "mkstat sc path p fi m = (Inr st, m')"
  shows "st_path st = p" "stat_is_dir st = oi_is_dir fi"
proof -
  obtain st1 m1 where opt: "set_unix_opt fi (empty_stat\<lparr>st_path := p, st_mode := oi_mode fi, st_modtime := oi_modtime fi\<rparr>) p m = (st1, m1)"
    by fastforce
  have f1: "st_path st1 = p" "st_mode st1 = oi_mode fi"
    using opt by (auto simp: set_unix_opt_def Let_def split: if_splits option.splits)
  obtain st2 st3 where st3: "load_xattr sc path st2 = Inr st3" "st = st3\<lparr>st_mode := st_mode st3 AND NOT mode_socket\<rparr>"
    "st_path st2 = st_path st1" "st_mode st2 = st_mode st1"
    using assms opt unfolding mkstat_def Let_def by (auto simp: res_bind_Inr_iff split: if_splits)
  have "st_path st = p" "st_mode st = oi_mode fi AND NOT mode_socket"
    using st3 f1 load_xattr_fields[OF st3(1)] by simp_all
  then show "st_path st = p" "stat_is_dir st = oi_is_dir fi"
    by (simp_all add: stat_is_dir_def mode_is_dir_def has_mode_no_socket oi_is_dir_def)
qed

lemma mkrootstat_path_mode:
  assumes "mkrootstat rl load p fi m = (Inr st, m')"
    and "\<And>q st st'. load q st = Inr st' \<Longrightarrow> st_path st' = st_path st \<and> st_mode st' = st_mode st"
  shows "st_path st = p" "stat_is_dir st = oi_is_dir fi"
proof -
  obtain st1 m1 where opt: "set_unix_opt fi (empty_stat\<lparr>st_path := p, st_mode := oi_mode fi, st_modtime := oi_modtime fi\<rparr>) p m = (st1, m1)"
    by fastforce
  have f1: "st_path st1 = p" "st_mode st1 = oi_mode fi"
    using opt by (auto simp: set_unix_opt_def Let_def split: if_splits option.splits)
  obtain st2 st3 where st2: "(if oi_is_dir fi then Inr st1
       else if has_mode (oi_mode fi) mode_symlink then
         res_bind (rl p) (\<lambda>link. Inr (st1\<lparr>st_size := oi_size fi, st_linkname := link\<rparr>))
       else Inr (st1\<lparr>st_size := oi_size fi\<rparr>)) = Inr st2"
    and st3: "(if oi_is_dir fi \<or> mode_is_regular (oi_mode fi) then load p st2 else Inr st2) = Inr st3"
    "st = st3\<lparr>st_mode := st_mode st3 AND NOT mode_socket\<rparr>"
    using assms(1) opt unfolding mkrootstat_def Let_def by (auto simp: res_bind_Inr_iff)
  have "st_path st2 = st_path st1" "st_mode st2 = st_mode st1" using st2 by (auto simp: res_bind_Inr_iff split: if_splits)
  moreover have "st_path st3 = st_path st2" "st_mode st3 = st_mode st2"
    using st3(1) assms(2)[of p st2 st3] by (auto split: if_splits)
  ultimately have "st_path st = p" "st_mode st = oi_mode fi AND NOT mode_socket" using st3(2) f1 by simp_all
  then show "st_path st = p" "stat_is_dir st = oi_is_dir fi"
    by (simp_all add: stat_is_dir_def mode_is_dir_def has_mode_no_socket oi_is_dir_def)
qed

definition rel_at :: "string list \<Rightarrow> string" where
  "rel_at cs = (if cs = [] then ''.'' else join_slash cs)"

lemma joins_rel_at: "joins rel_at"
proof -
  have "join2 (rel_at cs) x = rel_at (cs @ [x])" if "list_all good_comp cs" "good_comp x" for cs x
    using that join2_dot[of x] good_path_join[of "[x]"] join2_good[of cs x] by (simp add: rel_at_def good_comps_def)
  then show ?thesis by (simp add: joins_def)
qed

text \<open>What is known of an entry below a root: \<open>Lstat\<close> agrees with the directory listing on directories.\<close>

definition lstat_agrees :: "root_calls \<Rightarrow> string list \<Rightarrow> os_dir_entry \<Rightarrow> bool" where
  "lstat_agrees rc cs d \<longleftrightarrow> (\<forall>fi. rc_lstat rc (join_slash cs) = Inr fi \<longrightarrow> oi_is_dir fi = od_is_dir d)"

definition xattr_only :: "root_calls \<Rightarrow> bool" where
  "xattr_only rc \<longleftrightarrow>
     (\<forall>p st st'. rc_load_xattr rc p st = Inr st' \<longrightarrow> st_path st' = st_path st \<and> st_mode st' = st_mode st)"

lemma root_fs_callback_cases:
  assumes "root_fs_callback rc ctx fn (join_slash cs) (Some d) e (m, s) = (r, (m', s'))"
    and "good_comps cs" "lstat_agrees rc cs d" "xattr_only rc"
  obtains (left) e' where "r = Some e'" "s' = s"
  | (called) entry err called where "entry_ok (join_slash cs) entry" "de_is_dir entry = od_is_dir d"
      "fn (join_slash cs) (Some entry) e s = (err, called, s')" "r = skip_missing err"
proof -
  have np: "join_slash cs \<noteq> ''.''" using good_not_dot[OF assms(2)] .
  show ?thesis
  proof (cases "rc_lstat rc (join_slash cs)")
    case (Inl e')
    then have "r = skip_missing (Some e')" "s' = s" using assms(1) np by (simp_all add: root_fs_callback_def)
    then show ?thesis using left skip_missing_Some by blast
  next
    case (Inr fi)
    obtain x m1 where mk: "mkrootstat (rc_readlink rc) (rc_load_xattr rc) (join_slash cs) fi m = (x, m1)" by fastforce
    show ?thesis
    proof (cases x)
      case (Inl e')
      then have "r = skip_missing (Some e')" "s' = s" using assms(1) np Inr mk by (simp_all add: root_fs_callback_def)
      then show ?thesis using left skip_missing_Some by blast
    next
      case x: (Inr st)
      have st: "st_path st = join_slash cs" "stat_is_dir st = od_is_dir d"
        using mkrootstat_path_mode[OF mk[unfolded x]] assms(3,4) Inr by (auto simp: xattr_only_def lstat_agrees_def)
      show ?thesis
      proof (cases "ctx s")
        case True
        then have "r = Some CtxErr" "s' = s" using assms(1) np Inr mk x by (simp_all add: root_fs_callback_def)
        then show ?thesis by (rule left)
      next
        case False
        obtain err called s1 where "fn (join_slash cs) (Some (entry_of_stat st)) e s = (err, called, s1)"
          by (metis prod_cases3)
        moreover from this have "r = skip_missing err" "s' = s1"
          using assms(1) np Inr mk x False by (simp_all add: root_fs_callback_def)
        ultimately show ?thesis
          using st by (intro called[of "entry_of_stat st" err called]) (simp_all add: entry_ok_def entry_of_stat_def)
      qed
    qed
  qed
qed

lemma root_fs_callback_keeps:
  assumes "visits_keep fn J" "xattr_only rc"
  shows "os_keep rel_at (lstat_agrees rc) (root_fs_callback rc ctx fn) (lift_inv J)"
  unfolding os_keep_def
proof (intro conjI allI impI)
  fix cur cs d ms r ms'
  assume a: "lift_inv J cur ms" "may_visit cur cs" "lstat_agrees rc cs d"
    "root_fs_callback rc ctx fn (rel_at cs) (Some d) None ms = (r, ms')"
  obtain m s m' s' where ms: "ms = (m, s)" "ms' = (m', s')" by fastforce
  have g: "good_comps cs" using a(2) by (rule may_visit_good)
  then have "root_fs_callback rc ctx fn (join_slash cs) (Some d) None (m, s) = (r, (m', s'))"
    using a(4) ms by (simp add: rel_at_def good_comps_def)
  then show "lift_inv J (next_cursor cs (od_is_dir d) r) ms'"
    using g a(3) assms(2)
  proof (cases rule: root_fs_callback_cases)
    case (left e')
    then show ?thesis using lift_inv_left_out[of J cur m s cs "od_is_dir d" e' m'] a(1,2) ms by simp
  next
    case (called entry err called)
    then show ?thesis using lift_inv_called[OF assms(1), of cur m s cs entry err called s' m'] a(1,2) ms by simp
  qed
next
  fix cs d e ms r ms'
  assume a: "lift_inv J (Some (cs, True)) ms" "good_comps cs" "lstat_agrees rc cs d"
    "root_fs_callback rc ctx fn (rel_at cs) (Some d) (Some e) ms = (r, ms')"
  obtain m s m' s' where ms: "ms = (m, s)" "ms' = (m', s')" by fastforce
  have "root_fs_callback rc ctx fn (join_slash cs) (Some d) (Some e) (m, s) = (r, (m', s'))"
    using a(2,4) ms by (simp add: rel_at_def good_comps_def)
  then show "lift_inv J (next_cursor cs False r) ms'"
    using a(2,3) assms(2)
  proof (cases rule: root_fs_callback_cases)
    case (left e')
    then show ?thesis using lift_inv_error_left_out[of J cs m s e' m'] a(1) ms by simp
  next
    case (called entry err called)
    then show ?thesis using lift_inv_error[OF assms(1), of cs m s entry e err called s' m'] a(1,2) ms by simp
  qed
qed

text \<open>The root of the walk itself is not reported.\<close>

lemma walk_dir_keeps:
  assumes "os_keep at Q fn J" "joins at" "lookup root = Inr (OsNode name d read_err ts)" "root = at []"
    and "wf_nodes Q [] ts" "\<And>err s. fn root (Some d) err s = (None, s)" "J start_cursor s"
    and "walk_dir lookup root fn s = (r, s')"
  shows "\<exists>cur. J cur s'"
proof (cases "od_is_dir d")
  case False
  then have "s' = s" using assms(3,6,8) by (simp add: walk_dir_def skipped_def)
  then show ?thesis using assms(7) by blast
next
  case True
  obtain r1 s1 where w: "walk_nodes fn root ts s = (r1, s1)" by fastforce
  then have "s' = s1" using assms(3,6,8) True by (cases read_err) (simp_all add: walk_dir_def)
  moreover have "\<exists>cur. J cur s1 \<and> r1 \<noteq> Some SkipDir \<and> (r1 = None \<longrightarrow> (\<exists>ls deeper. cur = Some (ls, deeper) \<and> prefix [] ls))"
    by (rule walk_keeps(2)[OF assms(2) w assms(4) _ assms(5), of J "[]" True])
      (use assms(1,7) in \<open>simp_all add: start_cursor_def\<close>)
  ultimately show ?thesis by blast
qed

lemma root_fs_tree_walk:
  assumes "clean_root_fs_target target = ''.''" "lookup ''.'' = Inr (OsNode name d read_err ts)"
    and "wf_nodes (lstat_agrees rc) [] ts" "xattr_only rc"
  shows "tree_walk (root_fs_walk rc lookup ctx) target"
  unfolding tree_walk_def
proof (intro allI impI)
  fix fn J s r s'
  assume a: "visits_keep fn J" "J start_cursor s" "root_fs_walk rc lookup ctx target fn s = (r, s')"
  obtain m where w: "walk_dir lookup ''.'' (root_fs_callback rc ctx fn) (Some Map.empty, s) = (r, (m, s'))"
    using a(3) assms(1) by (auto simp: root_fs_walk_def split: prod.splits)
  have "\<exists>cur. lift_inv J cur (m, s')"
    by (rule walk_dir_keeps[OF root_fs_callback_keeps[OF a(1) assms(4)] joins_rel_at assms(2) _ assms(3) _ _ w])
      (use a(2) in \<open>auto simp: rel_at_def root_fs_callback_def lift_inv_exact\<close>)
  then show "\<exists>cur. J cur s'" by (auto simp: lift_inv_def)
qed

section \<open>The walk of a directory by its path\<close>

lemma clean_abs_good:
  assumes "list_all good_comp cs"
  shows "clean (slash # join_slash cs) = slash # join_slash cs"
proof -
  have "split_slash (slash # join_slash cs) = [] # (if cs = [] then [[]] else cs)"
    using split_slash_append_slash[of "[]" "join_slash cs"] split_join_good[of cs] assms by (simp add: good_comps_def)
  then show ?thesis using assms by (simp add: clean_def is_abs_def clean_comps_good)
qed

definition abs_at :: "string list \<Rightarrow> string list \<Rightarrow> string" where
  "abs_at gs cs = slash # join_slash (gs @ cs)"

lemma joins_abs_at:
  assumes "list_all good_comp gs"
  shows "joins (abs_at gs)"
  unfolding joins_def
proof (intro allI impI)
  fix cs x assume c: "list_all good_comp cs" "good_comp x"
  have x: "slash \<notin> set x" using c(2) by (simp add: good_comp_def)
  have "split_slash (abs_at gs cs @ slash # x) = [] # (if gs @ cs = [] then [[]] else gs @ cs) @ [x]"
    using split_slash_append_slash[of "[]" "join_slash (gs @ cs)"] split_join_good[of "gs @ cs"] assms c
      split_slash_append[of "slash # join_slash (gs @ cs)" x] split_slash_no_slash_id[OF x]
    by (auto simp: abs_at_def good_comps_def)
  then have "clean (abs_at gs cs @ slash # x) = abs_at gs (cs @ [x])"
    using clean_comps_good[of "gs @ cs @ [x]" True "[]"] assms c by (auto simp: clean_def is_abs_def abs_at_def)
  then show "join2 (abs_at gs cs) x = abs_at gs (cs @ [x])" by (simp add: join2_def abs_at_def)
qed

lemma rel_path_abs:
  assumes "list_all good_comp gs" "good_comps cs"
  shows "rel_path (abs_at gs []) (abs_at gs cs) = Inr (join_slash cs)" "rel_path (abs_at gs []) (abs_at gs []) = Inr ''.''"
proof -
  have g: "good_comps (gs @ cs)" "list_all good_comp (gs @ cs)" using assms by (auto simp: good_comps_def)
  have c: "clean (abs_at gs []) = abs_at gs []" "clean (abs_at gs cs) = abs_at gs cs"
    using clean_abs_good assms g by (simp_all add: abs_at_def)
  have ne: "abs_at gs cs \<noteq> abs_at gs []"
  proof
    assume "abs_at gs cs = abs_at gs []"
    then have "split_slash (join_slash (gs @ cs)) = split_slash (join_slash gs)" by (simp add: abs_at_def)
    then show False using split_join_good[OF g(1)] split_join_good[of gs] assms by (cases "gs = []") (auto simp: good_comps_def good_comp_def)
  qed
  have rc: "rel_comps (abs_at gs cs) = gs @ cs" "rel_comps (abs_at gs []) = gs"
    using split_join_good[OF g(1)] split_join_good[of gs] join_slash_hd(1)[OF g(1)] join_slash_hd(1)[of gs] assms
    by (cases "gs = []"; simp add: rel_comps_def abs_at_def is_abs_def good_comps_def)+
  have "is_abs (abs_at gs cs)" "is_abs (abs_at gs [])" "abs_at gs [] \<noteq> ''.''" by (simp_all add: abs_at_def is_abs_def)
  then show "rel_path (abs_at gs []) (abs_at gs cs) = Inr (join_slash cs)" using c ne rc by (simp add: rel_path_def Let_def)
  show "rel_path (abs_at gs []) (abs_at gs []) = Inr ''.''" by (simp add: rel_path_def Let_def)
qed

text \<open>An entry's \<open>Info\<close> agrees with the directory listing on directories.\<close>

definition info_agrees :: "string list \<Rightarrow> os_dir_entry \<Rightarrow> bool" where
  "info_agrees cs d \<longleftrightarrow> (\<forall>fi. od_info d = Inr fi \<longrightarrow> oi_is_dir fi = od_is_dir d)"

lemma fs_callback_cases:
  assumes "fs_callback sc (abs_at gs []) ctx fn (abs_at gs cs) (Some d) e (m, s) = (r, (m', s'))"
    and "list_all good_comp gs" "good_comps cs" "info_agrees cs d"
  obtains (left) e' where "r = Some e'" "s' = s"
  | (called) entry err called where "entry_ok (join_slash cs) entry" "de_is_dir entry = od_is_dir d"
      "fn (join_slash cs) (Some entry) e s = (err, called, s')" "r = skip_missing err"
proof -
  obtain info m1 where info: "entry_info sc (abs_at gs cs) (join_slash cs) d m = (info, m1)" by fastforce
  let ?entry = "\<lparr>de_is_dir = od_is_dir d, de_type = od_type d, de_info = info\<rparr>"
  have np: "join_slash cs \<noteq> ''.''" using good_not_dot[OF assms(3)] .
  have ok: "entry_ok (join_slash cs) ?entry"
    using info assms(4) mkstat_path_mode by (fastforce simp: entry_ok_def entry_info_def info_agrees_def split: sum.splits prod.splits)
  show ?thesis
  proof (cases "ctx s")
    case True
    then have "r = Some CtxErr" "s' = s"
      using assms(1) np info rel_path_abs(1)[OF assms(2,3)] by (simp_all add: fs_callback_def)
    then show ?thesis by (rule left)
  next
    case False
    obtain err called s1 where "fn (join_slash cs) (Some ?entry) e s = (err, called, s1)" by (metis prod_cases3)
    moreover from this have "r = skip_missing err" "s' = s1"
      using assms(1) np info rel_path_abs(1)[OF assms(2,3)] False by (simp_all add: fs_callback_def)
    ultimately show ?thesis using ok by (intro called[of ?entry err called]) simp_all
  qed
qed

lemma fs_callback_keeps:
  assumes "visits_keep fn J" "list_all good_comp gs"
  shows "os_keep (abs_at gs) info_agrees (fs_callback sc (abs_at gs []) ctx fn) (lift_inv J)"
  unfolding os_keep_def
proof (intro conjI allI impI)
  fix cur cs d ms r ms'
  assume a: "lift_inv J cur ms" "may_visit cur cs" "info_agrees cs d"
    "fs_callback sc (abs_at gs []) ctx fn (abs_at gs cs) (Some d) None ms = (r, ms')"
  obtain m s m' s' where ms: "ms = (m, s)" "ms' = (m', s')" by fastforce
  from a(4)[unfolded ms] assms(2) may_visit_good[OF a(2)] a(3)
  show "lift_inv J (next_cursor cs (od_is_dir d) r) ms'"
  proof (cases rule: fs_callback_cases)
    case (left e')
    then show ?thesis using lift_inv_left_out[of J cur m s cs "od_is_dir d" e' m'] a(1,2) ms by simp
  next
    case (called entry err called)
    then show ?thesis using lift_inv_called[OF assms(1), of cur m s cs entry err called s' m'] a(1,2) ms by simp
  qed
next
  fix cs d e ms r ms'
  assume a: "lift_inv J (Some (cs, True)) ms" "good_comps cs" "info_agrees cs d"
    "fs_callback sc (abs_at gs []) ctx fn (abs_at gs cs) (Some d) (Some e) ms = (r, ms')"
  obtain m s m' s' where ms: "ms = (m, s)" "ms' = (m', s')" by fastforce
  from a(4)[unfolded ms] assms(2) a(2,3) show "lift_inv J (next_cursor cs False r) ms'"
  proof (cases rule: fs_callback_cases)
    case (left e')
    then show ?thesis using lift_inv_error_left_out[of J cs m s e' m'] a(1) ms by simp
  next
    case (called entry err called)
    then show ?thesis using lift_inv_error[OF assms(1), of cs m s entry e err called s' m'] a(1,2) ms by simp
  qed
qed

lemma fs_tree_walk:
  assumes "list_all good_comp gs" "join2 (abs_at gs []) target = abs_at gs []"
    and "lookup (abs_at gs []) = Inr (OsNode name d read_err ts)" "wf_nodes info_agrees [] ts"
  shows "tree_walk (fs_walk sc lookup (abs_at gs []) ctx) target"
  unfolding tree_walk_def
proof (intro allI impI)
  fix fn J s r s'
  assume a: "visits_keep fn J" "J start_cursor s" "fs_walk sc lookup (abs_at gs []) ctx target fn s = (r, s')"
  obtain m where w: "walk_dir lookup (abs_at gs []) (fs_callback sc (abs_at gs []) ctx fn) (Some Map.empty, s) = (r, (m, s'))"
    using a(3) assms(2) by (auto simp: fs_walk_def split: prod.splits)
  have rel: "rel_path (abs_at gs []) (abs_at gs []) = Inr ''.''" by (simp add: rel_path_def Let_def)
  have "\<exists>cur. lift_inv J cur (m, s')"
    by (rule walk_dir_keeps[OF fs_callback_keeps[OF a(1) assms(1)] joins_abs_at[OF assms(1)] assms(3) refl assms(4) _ _ w])
      (use a(2) rel in \<open>auto simp: fs_callback_def lift_inv_exact\<close>)
  then show "\<exists>cur. J cur s'" by (auto simp: lift_inv_def)
qed

section \<open>The walk of a filter\<close>

text \<open>The directories above a path, as the filter's callback keeps them.\<close>

definition dir_chain :: "string list \<Rightarrow> 'mi visited_dir list \<Rightarrow> bool" where
  "dir_chain cs ds \<longleftrightarrow>
     list_all good_comp cs \<and> length ds = length cs \<and>
     (\<forall>i < length cs. vd_path_with_sep (ds ! i) = join_slash (take (Suc i) cs) @ [slash] \<and>
        entry_ok (join_slash (take (Suc i) cs)) (vd_entry (ds ! i)) \<and> de_is_dir (vd_entry (ds ! i)))"

text \<open>Those the consumer was shown and entered, and those it was not shown.\<close>

definition settled :: "'mi visited_dir \<Rightarrow> bool" where
  "settled d \<longleftrightarrow> vd_called_fn d \<and> \<not> vd_skip_fn d"

definition fresh :: "'mi visited_dir \<Rightarrow> bool" where
  "fresh d \<longleftrightarrow> \<not> vd_called_fn d \<and> \<not> vd_skip_fn d"

text \<open>
  The consumer's cursor is ready for the path \<open>p\<close> below the directories \<open>ds\<close>: it can be shown the
  first of them it has not seen, or \<open>p\<close> if it knows them all, or it skips one of them.
\<close>

definition ready :: "cursor \<Rightarrow> 'mi visited_dir list \<Rightarrow> string list \<Rightarrow> bool" where
  "ready cur0 ds p \<longleftrightarrow>
     (case dropWhile settled ds of
        [] \<Rightarrow> may_visit cur0 p
      | d # rest \<Rightarrow>
          list_all fresh rest \<and>
          (let q = take (length ds - length rest) p in
           if vd_skip_fn d then cur0 = Some (q, False) else may_visit cur0 q))"

lemma ready_Nil [simp]: "ready cur0 [] p = may_visit cur0 p"
  by (simp add: ready_def)

lemma ready_settled: "list_all settled ds \<Longrightarrow> ready cur0 ds p = may_visit cur0 p"
proof -
  assume "list_all settled ds"
  then have "dropWhile settled ds = []" by (simp add: list_all_iff dropWhile_eq_Nil_conv)
  then show ?thesis unfolding ready_def by (simp del: dropWhile_eq_Nil_conv)
qed

lemma ready_split:
  assumes "list_all settled xs" "\<not> settled d"
  shows "ready cur0 (xs @ d # rest) p \<longleftrightarrow> list_all fresh rest \<and>
    (let q = take (Suc (length xs)) p in if vd_skip_fn d then cur0 = Some (q, False) else may_visit cur0 q)"
proof -
  have "dropWhile settled (xs @ d # rest) = d # rest" using assms by (simp add: list_all_iff dropWhile_append2)
  then show ?thesis by (simp add: ready_def)
qed

lemma settled_split:
  obtains "list_all settled ds" | xs d rest where "ds = xs @ d # rest" "list_all settled xs" "\<not> settled d"
proof (cases "dropWhile settled ds")
  case Nil
  then show ?thesis using that(1) by (simp add: dropWhile_eq_Nil_conv list_all_iff)
next
  case (Cons d rest)
  have "ds = takeWhile settled ds @ d # rest" using Cons by (metis takeWhile_dropWhile_id)
  moreover have "list_all settled (takeWhile settled ds)" by (auto simp: list_all_iff dest: set_takeWhileD)
  moreover have "\<not> settled d" using Cons by (metis hd_dropWhile list.distinct(1) list.sel(1))
  ultimately show ?thesis by (rule that(2))
qed

lemma butlast_prefix:
  assumes "may_visit (Some (p, False)) q" "p \<noteq> []"
  shows "prefix (butlast q) (butlast p)" "length q - 1 \<le> length p - 1"
proof -
  have "prefix (butlast q) p" "butlast q \<noteq> p" using assms(1) by (simp_all add: may_visit_def)
  then show "prefix (butlast q) (butlast p)"
    using prefix_snoc[of "butlast q" "butlast p" "last p"] assms(2) by simp
  then show "length q - 1 \<le> length p - 1" using prefix_length_le by fastforce
qed

text \<open>After \<open>p\<close> is done, the cursor is ready for whatever follows outside of it.\<close>

lemma may_visit_take:
  assumes "may_visit (Some (p, False)) q" "p \<noteq> []" "length q - 1 \<le> i" "Suc i \<le> length p"
  shows "may_visit (Some (take (Suc i) p, b)) q"
proof -
  have q: "good_comps q" "p < q" using assms(1) by (simp_all add: may_visit_def)
  have "prefix (butlast q) p" using assms(1) by (simp add: may_visit_def)
  then have eq: "butlast q = take (length q - 1) p" by (metis append_eq_conv_conj length_butlast prefixE)
  then have "butlast q = take (length q - 1) (take (Suc i) p)" using assms(3) by (simp add: min_def)
  then have "prefix (butlast q) (take (Suc i) p)" by (metis take_is_prefix)
  moreover have "length (butlast q) < length (take (Suc i) p)" using assms(3,4) by simp
  then have "butlast q \<noteq> take (Suc i) p" by (metis less_irrefl)
  moreover have "take (Suc i) p < q"
  proof (cases "take (Suc i) p = p")
    case False
    then have "strict_prefix (take (Suc i) p) p" by (simp add: strict_prefix_def take_is_prefix)
    then show ?thesis using q(2) prefix_less less_trans by blast
  qed (use q in simp)
  ultimately show ?thesis using q(1) by (auto simp: may_visit_def)
qed

lemma take_same:
  assumes "prefix (butlast q) (butlast p)" "i < length q"
  shows "take i q = take i p"
proof -
  have q: "take i q = take i (butlast q)" using assms(2) by (simp add: take_butlast)
  obtain r where r: "butlast p = butlast q @ r" using assms(1) by (auto simp: prefix_def)
  show ?thesis
  proof (cases "p = []")
    case True
    then show ?thesis using r assms(2) by (cases q) (auto split: if_splits)
  next
    case False
    have "length (butlast q) \<le> length (butlast p)" using r by (metis le_add1 length_append)
    moreover have "0 < length p" using False by simp
    ultimately have "i < length p" using assms(2) unfolding length_butlast by linarith
    then have "take i p = take i (butlast q @ r)" using r by (simp add: take_butlast flip: r)
    then show ?thesis using q assms(2) by simp
  qed
qed

lemma ready_later:
  assumes "ready cur0 ds p" "length ds = length p - 1 \<or> ds = []" "p \<noteq> []" "may_visit (Some (p, False)) q"
  shows "ready cur0 (take (length q - 1) ds) q"
proof (cases ds rule: settled_split)
  case 1
  then have "may_visit cur0 p" using assms(1) ready_settled by blast
  then have "may_visit cur0 q" using may_visit_skip assms(4) by blast
  moreover have "list_all settled (take (length q - 1) ds)" using 1 by (auto simp: list_all_iff dest: in_set_takeD)
  ultimately show ?thesis using ready_settled by blast
next
  case (2 xs d rest)
  let ?i = "length xs"
  have len: "length ds = length p - 1" using assms(2) 2(1) by auto
  have i: "Suc ?i \<le> length p" using len 2(1) by simp
  have r: "list_all fresh rest" "if vd_skip_fn d then cur0 = Some (take (Suc ?i) p, False) else may_visit cur0 (take (Suc ?i) p)"
    using assms(1) unfolding 2(1) ready_split[OF 2(2,3)] by (simp_all add: Let_def)
  show ?thesis
  proof (cases "length q - 1 \<le> ?i")
    case True
    have v: "may_visit (Some (take (Suc ?i) p, False)) q" by (rule may_visit_take[OF assms(4,3) True i])
    then have "may_visit cur0 q" using r(2) may_visit_skip by (cases "vd_skip_fn d") auto
    moreover have "list_all settled (take (length q - 1) ds)" using True 2(1,2) by (auto simp: list_all_iff dest: in_set_takeD)
    ultimately show ?thesis using ready_settled by blast
  next
    case False
    have "take (length q - 1) ds = xs @ d # take (length q - 1 - Suc ?i) rest"
    proof -
      obtain n where "length q - 1 = Suc ?i + n" using False by (metis not_le Suc_leI le_Suc_ex)
      then show ?thesis using 2(1) by simp
    qed
    moreover have "take (Suc ?i) q = take (Suc ?i) p"
      by (rule take_same[OF butlast_prefix(1)[OF assms(4,3)]]) (use False in simp)
    moreover have "list_all fresh (take (length q - 1 - Suc ?i) rest)" using r(1) by (auto simp: list_all_iff dest: in_set_takeD)
    ultimately show ?thesis using r(2) ready_split[OF 2(2,3)] by (simp add: Let_def)
  qed
qed

lemma has_prefix_join:
  assumes "good_comps cs" "good_comps p"
  shows "has_prefix (join_slash p) (join_slash cs @ [slash]) \<longleftrightarrow> strict_prefix cs p"
proof
  assume "has_prefix (join_slash p) (join_slash cs @ [slash])"
  then obtain r where "join_slash p = join_slash cs @ slash # r" by (auto simp: prefix_def)
  then have "split_slash (join_slash p) = split_slash (join_slash cs) @ split_slash r" by (simp add: split_slash_append)
  then have "p = cs @ split_slash r" using split_join_good assms by simp
  then show "strict_prefix cs p" by (simp add: strict_prefix_def)
next
  assume "strict_prefix cs p"
  then obtain x xs where "p = cs @ x # xs" by (elim strict_prefixE')
  then have "join_slash p = join_slash cs @ slash # join_slash (x # xs)"
    using join_slash_append[of cs "x # xs"] assms(1) by (simp add: good_comps_def)
  then show "has_prefix (join_slash p) (join_slash cs @ [slash])" by (simp add: prefix_def)
qed

lemma dir_chain_take: "dir_chain cs ds \<Longrightarrow> dir_chain (take n cs) (take n ds)"
  by (auto simp: dir_chain_def min_def list_all_iff dest: in_set_takeD)

lemma pop_visited_chain:
  assumes "dir_chain cs ds" "prefix (butlast p) cs" "good_comps p"
  shows "pop_visited (join_slash p) ds = take (length p - 1) ds"
  using assms
proof (induction "join_slash p" ds arbitrary: cs rule: pop_visited.induct)
  case (1 ds)
  have len: "length ds = length cs" using "1.prems"(1) by (simp add: dir_chain_def)
  have le: "length p - 1 \<le> length cs" using prefix_length_le[OF "1.prems"(2)] by simp
  show ?case
  proof (cases "cs = []")
    case True
    then show ?thesis using len by (simp add: pop_visited.simps)
  next
    case False
    have last: "vd_path_with_sep (ds ! (length ds - 1)) = join_slash cs @ [slash]"
      using "1.prems"(1) False len by (simp add: dir_chain_def)
    have "good_comps cs" using "1.prems"(1) False by (simp add: dir_chain_def good_comps_def)
    note hp = has_prefix_join[OF this "1.prems"(3)]
    show ?thesis
    proof (cases "length p - 1 = length cs")
      case True
      then have "cs = butlast p" using "1.prems"(2) by (auto simp: prefix_def)
      then have "strict_prefix cs p" using "1.prems"(3) by (cases p rule: rev_cases) (auto simp: good_comps_def strict_prefix_def)
      then show ?thesis using last hp len True by (simp add: pop_visited.simps[of _ ds])
    next
      case pn: False
      then have lt: "length p - 1 < length cs" using le by simp
      then have "\<not> strict_prefix cs p" using prefix_length_less[of cs p] by linarith
      then have cond: "length ds \<noteq> 0 \<and> \<not> has_prefix (join_slash p) (vd_path_with_sep (ds ! (length ds - 1)))"
        using last hp len False by simp
      obtain zs where zs: "cs = butlast p @ zs" using "1.prems"(2) by (auto simp: prefix_def)
      then have "length ds - 1 = length (butlast p) + (length zs - 1)"
        using lt len by (cases zs) simp_all
      then have "take (length ds - 1) cs = butlast p @ take (length zs - 1) zs" using zs by simp
      then have "prefix (butlast p) (take (length ds - 1) cs)" by simp
      from "1.hyps"[OF cond dir_chain_take[OF "1.prems"(1)] this "1.prems"(3)]
      have "pop_visited (join_slash p) (take (length ds - 1) ds) = take (length p - 1) (take (length ds - 1) ds)" .
      then show ?thesis using cond lt len by (simp add: pop_visited.simps[of _ ds])
    qed
  qed
qed

text \<open>Announcing the directories above \<open>p\<close>: all are settled in the end, or what follows \<open>p\<close> is ready.\<close>

definition later_ready :: "cursor \<Rightarrow> 'mi visited_dir list \<Rightarrow> string list \<Rightarrow> bool" where
  "later_ready cur0 ds p \<longleftrightarrow> (\<forall>q. may_visit (Some (p, False)) q \<longrightarrow> ready cur0 (take (length q - 1) ds) q)"

lemma dir_chain_update:
  assumes "dir_chain cs (xs @ d # ys)" "vd_path_with_sep d' = vd_path_with_sep d" "vd_entry d' = vd_entry d"
  shows "dir_chain cs (xs @ d' # ys)"
  using assms by (auto simp: dir_chain_def nth_append nth_Cons split: nat.splits if_splits)

lemma announce_keeps:
  assumes "visits_keep fn J" "good_comps p"
  shows "announce_parents ctx None fn path xs ds s = (err, parents, s') \<Longrightarrow> dir_chain (butlast p) (xs @ ds) \<Longrightarrow>
    list_all settled xs \<Longrightarrow> J cur0 s \<Longrightarrow> ready cur0 (xs @ ds) p \<Longrightarrow>
    \<exists>cur0'. J cur0' s' \<and> dir_chain (butlast p) parents \<and>
      (err = None \<longrightarrow> list_all settled parents \<and> may_visit cur0' p) \<and>
      (skip_missing err = Some SkipDir \<longrightarrow> later_ready cur0' parents p)"
proof (induction ds arbitrary: xs s cur0)
  case Nil
  then show ?case using ready_settled by (intro exI[of _ cur0]) auto
next
  case (Cons d ds)
  have p: "p \<noteq> []" using assms(2) by (simp add: good_comps_def)
  have len: "length (xs @ d # ds) = length p - 1" using Cons.prems(2) by (simp add: dir_chain_def)
  have now: "later_ready cur0 (xs @ d # ds) p"
    unfolding later_ready_def using ready_later[OF Cons.prems(5)] len p by blast
  let ?q = "take (Suc (length xs)) p"
  have lp: "Suc (length xs) < length p" using len by simp
  consider (skip) "vd_skip_fn d" | (old) "settled d" | (fresh) "\<not> vd_skip_fn d" "\<not> vd_called_fn d"
    by (auto simp: settled_def)
  then show ?case
  proof cases
    case skip
    then have "err = Some SkipDir" "parents = xs @ d # ds" "s' = s" using Cons.prems(1) by auto
    then show ?thesis using now Cons.prems(2,4) by (intro exI[of _ cur0]) simp
  next
    case old
    then have "announce_parents ctx None fn path (xs @ [d]) ds s = (err, parents, s')"
      using Cons.prems(1) by (simp add: settled_def)
    then show ?thesis by (rule Cons.IH) (use Cons.prems old in auto)
  next
    case fresh
    show ?thesis
    proof (cases "info_stat path (vd_entry d)")
      case (Inl e)
      then have "parents = xs @ d # ds" "s' = s" "err \<noteq> None" using Cons.prems(1) fresh by auto
      then show ?thesis using now Cons.prems(2,4) by (intro exI[of _ cur0]) auto
    next
      case (Inr st)
      show ?thesis
      proof (cases "ctx s")
        case True
        then have "parents = xs @ d # ds" "s' = s" "err \<noteq> None" using Cons.prems(1) fresh Inr by auto
        then show ?thesis using now Cons.prems(2,4) by (intro exI[of _ cur0]) auto
      next
        case False
        have "vd_path_with_sep ((xs @ d # ds) ! length xs) = join_slash (take (Suc (length xs)) (butlast p)) @ [slash] \<and>
            entry_ok (join_slash (take (Suc (length xs)) (butlast p))) (vd_entry ((xs @ d # ds) ! length xs)) \<and>
            de_is_dir (vd_entry ((xs @ d # ds) ! length xs))"
          using Cons.prems(2) unfolding dir_chain_def by (metis (no_types, lifting) length_append less_add_same_cancel1 length_greater_0_conv list.distinct(1))
        then have d: "entry_ok (join_slash ?q) (vd_entry d)" "de_is_dir (vd_entry d)" using lp by (simp_all add: take_butlast)
        have "de_info (vd_entry d) = Inr (StatInfo st)" using Inr by (auto simp: info_stat_def split: sum.splits file_info.splits)
        then have st: "st_path st = join_slash ?q" "stat_is_dir st" using d by (simp_all add: entry_ok_def)
        obtain r called s1 where call: "fn (st_path st) (Some (entry_of_stat st)) None s = (r, called, s1)" by (metis prod_cases3)
        have rs: "list_all fresh ds" "may_visit cur0 ?q"
          using Cons.prems(5) ready_split[OF Cons.prems(3), where d = d and rest = ds and ?cur0.0 = cur0 and p = p] fresh by (auto simp: settled_def Let_def)
        have ok: "entry_ok (join_slash ?q) (entry_of_stat st)" using st by (simp add: entry_ok_def entry_of_stat_def)
        have J1: "J (next_cursor ?q True (skip_missing r)) s1" "skip_missing r = r"
          using visits_keep_call[OF assms(1) Cons.prems(4) rs(2) ok call[unfolded st(1)]] st
          by (auto simp: entry_of_stat_def)
        let ?d = "d\<lparr>vd_called_fn := True\<rparr>"
        show ?thesis
        proof (cases r)
          case None
          then have "announce_parents ctx None fn path (xs @ [?d]) ds s1 = (err, parents, s')"
            using Cons.prems(1) fresh Inr False call by (simp add: apply_map_def Let_def)
          then show ?thesis
          proof (rule Cons.IH)
            show "dir_chain (butlast p) ((xs @ [?d]) @ ds)" using dir_chain_update[OF Cons.prems(2), of ?d] by simp
            have "settled ?d" using fresh by (simp add: settled_def)
            then show xd: "list_all settled (xs @ [?d])" using Cons.prems(3) by simp
            show "J (Some (?q, True)) s1" using J1 None by (simp add: next_cursor_def)
            show "ready (Some (?q, True)) ((xs @ [?d]) @ ds) p"
            proof (cases ds)
              case Nil
              have "?q = butlast p" using len Nil by (simp add: butlast_conv_take)
              then have "may_visit (Some (?q, True)) p"
                using assms(2) p by (cases p rule: rev_cases) (auto simp: may_visit_def less_append)
              then show ?thesis using Nil ready_settled[OF xd] by simp
            next
              case (Cons d2 rest)
              have s: "\<not> settled d2" "list_all fresh rest" "\<not> vd_skip_fn d2" using rs(1) Cons by (simp_all add: fresh_def settled_def)
              let ?q2 = "take (Suc (Suc (length xs))) p"
              have "?q2 = ?q @ [p ! Suc (length xs)]" using lp by (simp add: take_Suc_conv_app_nth)
              moreover have "good_comps ?q2" using assms(2) p by (auto simp: good_comps_def list_all_iff dest: in_set_takeD)
              ultimately have "may_visit (Some (?q, True)) ?q2" by (simp add: may_visit_def less_append)
              then show ?thesis
                using ready_split[where xs = "xs @ [?d]" and d = d2 and rest = rest and ?cur0.0 = "Some (?q, True)" and p = p, OF xd s(1)] s Cons
                by (simp add: Let_def)
            qed
          qed
        next
          case (Some e)
          show ?thesis
          proof (cases "e = SkipDir")
            case True
            let ?d2 = "?d\<lparr>vd_skip_fn := True\<rparr>"
            have e: "err = Some SkipDir" "parents = xs @ ?d2 # ds" "s' = s1"
              using Cons.prems(1) fresh Inr False call Some True by (auto simp: apply_map_def Let_def)
            have J2: "J (Some (?q, False)) s'" using J1 Some True e by (simp add: next_cursor_def)
            have "ready (Some (?q, False)) (xs @ ?d2 # ds) p"
              using ready_split[OF Cons.prems(3), where d = ?d2 and rest = ds and ?cur0.0 = "Some (?q, False)" and p = p] rs(1) by (simp add: settled_def Let_def)
            then have "later_ready (Some (?q, False)) (xs @ ?d2 # ds) p"
              unfolding later_ready_def using ready_later len p by fastforce
            then show ?thesis using e J2 dir_chain_update[OF Cons.prems(2), of ?d2] by (intro exI[of _ "Some (?q, False)"]) simp
          next
            case nskip: False
            then have e: "err = Some e" "parents = xs @ ?d # ds" "s' = s1"
              using Cons.prems(1) fresh Inr False call Some by (auto simp: apply_map_def Let_def)
            have "skip_missing err = Some e" using J1(2) Some e by simp
            then show ?thesis
              using e J1(1) nskip dir_chain_update[OF Cons.prems(2), of ?d]
              by (intro exI[of _ "next_cursor ?q True (skip_missing r)"]) simp
          qed
        qed
      qed
    qed
  qed
qed

text \<open>The invariant of the filter's callback, for a consumer with invariant \<open>J\<close>.\<close>

definition filtering :: "'mi filter_fs \<Rightarrow> bool" where
  "filtering ff \<longleftrightarrow> ff_include ff \<noteq> None \<or> ff_exclude ff \<noteq> None"

definition filter_inv ::
  "'mi filter_fs \<Rightarrow> (cursor \<Rightarrow> 's \<Rightarrow> bool) \<Rightarrow> cursor \<Rightarrow> 'mi visited_dir list \<times> 's \<Rightarrow> bool" where
  "filter_inv ff J cur ps \<longleftrightarrow>
     (\<exists>cur0 cs. J cur0 (snd ps) \<and> (if filtering ff then dir_chain cs (fst ps) else fst ps = []) \<and>
        (\<forall>q. may_visit cur q \<longrightarrow> (filtering ff \<longrightarrow> prefix (butlast q) cs) \<and> ready cur0 (take (length q - 1) (fst ps)) q))"

lemma filter_inv_start: "J start_cursor s \<Longrightarrow> filter_inv ff J start_cursor ([], s)"
  by (auto simp: filter_inv_def dir_chain_def may_visit_def start_cursor_def intro!: exI[of _ "Some ([], True)"])

text \<open>The directories above \<open>p\<close> once the others are dropped.\<close>

lemma filter_inv_enter:
  assumes "filter_inv ff J cur (ds, s)" "may_visit cur p \<or> cur = Some (p, True) \<and> good_comps p"
    and "parents = (if filtering ff then pop_visited (join_slash p) ds else ds)"
  obtains cur0 where "J cur0 s" "if filtering ff then dir_chain (butlast p) parents else parents = []"
    "may_visit cur p \<Longrightarrow> ready cur0 parents p" "cur = Some (p, True) \<Longrightarrow> later_ready cur0 parents p"
proof -
  obtain cur0 cs where J: "J cur0 s" and ch: "if filtering ff then dir_chain cs ds else ds = []"
    and q: "\<And>q. may_visit cur q \<Longrightarrow> (filtering ff \<longrightarrow> prefix (butlast q) cs) \<and> ready cur0 (take (length q - 1) ds) q"
    using assms(1) unfolding filter_inv_def fst_conv snd_conv by blast
  have good: "good_comps p" using assms(2) may_visit_good by blast
  have par: "parents = take (length p - 1) ds \<and> (filtering ff \<longrightarrow> dir_chain (butlast p) parents)"
  proof (cases "filtering ff")
    case False
    then show ?thesis using assms(3) ch by simp
  next
    case True
    have pre: "prefix (butlast p) cs"
      using assms(2)
    proof
      assume "may_visit cur p"
      then show ?thesis using q True by blast
    next
      assume c: "cur = Some (p, True) \<and> good_comps p"
      then have "may_visit cur (p @ [''a''])" by (simp add: may_visit_def good_comps_snoc good_comp_def less_append)
      then show ?thesis using q[of "p @ [''a'']"] True by (metis append_butlast_last_id append_prefixD butlast_snoc butlast.simps(1))
    qed
    then obtain zs where "cs = butlast p @ zs" by (auto simp: prefix_def)
    then have "take (length p - 1) cs = butlast p" by simp
    then have "dir_chain (butlast p) (take (length p - 1) ds)" using dir_chain_take[of cs ds "length p - 1"] ch True by simp
    moreover have "parents = take (length p - 1) ds" using pop_visited_chain[OF _ pre good, of ds] ch assms(3) True by simp
    ultimately show ?thesis by simp
  qed
  have "later_ready cur0 parents p" if c: "cur = Some (p, True)"
  proof -
    have "ready cur0 (take (length r - 1) parents) r" if r: "may_visit (Some (p, False)) r" for r
    proof -
      have "length r - 1 \<le> length p - 1" using butlast_prefix(2)[OF r] good by (simp add: good_comps_def)
      then have "take (length r - 1) parents = take (length r - 1) ds" using par by (simp add: min_def)
      then show ?thesis using q[of r] may_visit_closed[OF r, of True] c by simp
    qed
    then show ?thesis by (simp add: later_ready_def)
  qed
  then show ?thesis using that[OF J] par q[of p] ch assms(3) by (cases "filtering ff") auto
qed


text \<open>Leaving \<open>p\<close>: what follows is below it, in a directory that was entered, or elsewhere.\<close>

lemma filter_inv_leave:
  assumes "J cur0 s" "if filtering ff then dir_chain (butlast p) parents else parents = []" "good_comps p"
    and "cur' = None \<or> (\<exists>b. cur' = Some (p, b))"
    and outside: "cur' \<noteq> None \<Longrightarrow> later_ready cur0 parents p"
    and inside: "\<And>q. cur' = Some (p, True) \<Longrightarrow> may_visit cur' q \<Longrightarrow> butlast q = p \<Longrightarrow>
      (filtering ff \<longrightarrow> pushed \<noteq> []) \<and> ready cur0 (parents @ pushed) q"
    and pushed: "pushed = [] \<or> (filtering ff \<and> (\<exists>d. pushed = [d] \<and> vd_path_with_sep d = join_slash p @ [slash] \<and>
      entry_ok (join_slash p) (vd_entry d) \<and> de_is_dir (vd_entry d)))"
  shows "filter_inv ff J cur' (parents @ pushed, s)"
proof -
  define cs where "cs = (if pushed = [] then butlast p else p)"
  have p: "p \<noteq> []" "list_all good_comp p" using assms(3) by (simp_all add: good_comps_def)
  have chain: "if filtering ff then dir_chain cs (parents @ pushed) else parents @ pushed = []"
  proof (cases "pushed = []")
    case True
    then show ?thesis using assms(2) by (simp add: cs_def)
  next
    case False
    then obtain d where d: "filtering ff" "pushed = [d]" "vd_path_with_sep d = join_slash p @ [slash]"
      "entry_ok (join_slash p) (vd_entry d)" "de_is_dir (vd_entry d)" using pushed by blast
    have ch: "dir_chain (butlast p) parents" using assms(2) d(1) by simp
    then have len: "length parents = length p - 1" by (simp add: dir_chain_def)
    have "vd_path_with_sep ((parents @ [d]) ! i) = join_slash (take (Suc i) p) @ [slash] \<and>
        entry_ok (join_slash (take (Suc i) p)) (vd_entry ((parents @ [d]) ! i)) \<and> de_is_dir (vd_entry ((parents @ [d]) ! i))"
      if "i < length p" for i
    proof (cases "i < length parents")
      case True
      then show ?thesis using ch len by (auto simp: dir_chain_def nth_append take_butlast)
    next
      case False
      then have "i = length parents" "Suc i = length p" using that len by auto
      then show ?thesis using d by (simp add: nth_append)
    qed
    then have "dir_chain p (parents @ pushed)" using p len d(2) by (cases p) (auto simp: dir_chain_def)
    then show ?thesis using False d(1) by (simp add: cs_def)
  qed
  have "(filtering ff \<longrightarrow> prefix (butlast q) cs) \<and> ready cur0 (take (length q - 1) (parents @ pushed)) q"
    if q: "may_visit cur' q" for q
  proof -
    obtain b where b: "cur' = Some (p, b)" using assms(4) q by (cases cur') auto
    have len: "filtering ff \<Longrightarrow> length parents = length p - 1" using assms(2) by (simp add: dir_chain_def)
    show ?thesis
    proof (cases "butlast q = p")
      case True
      then have "b" using q b by (simp add: may_visit_def)
      then have i: "(filtering ff \<longrightarrow> pushed \<noteq> []) \<and> ready cur0 (parents @ pushed) q" using inside[OF _ q True] b by simp
      have "length q - 1 = length p" using True by (metis length_butlast)
      moreover have "length (parents @ pushed) \<le> length p"
        using assms(2) pushed len p by (cases "filtering ff") (cases p; auto)+
      ultimately show ?thesis using i True by (simp add: cs_def)
    next
      case False
      then have v: "may_visit (Some (p, False)) q" using q b by (simp add: may_visit_def)
      note bp = butlast_prefix[OF v p(1)]
      have "take (length q - 1) (parents @ pushed) = take (length q - 1) parents"
        using bp(2) assms(2) pushed len by (cases "filtering ff") auto
      moreover have "ready cur0 (take (length q - 1) parents) q" using outside v b by (simp add: later_ready_def)
      moreover have "prefix (butlast q) cs" using bp(1) prefixeq_butlast[of p] prefix_order.trans by (auto simp: cs_def)
      ultimately show ?thesis by (simp only: simp_thms)
    qed
  qed
  then show ?thesis unfolding filter_inv_def fst_conv snd_conv using assms(1) chain by blast
qed

lemma skip_missing_idem [simp]: "skip_missing (skip_missing r) = skip_missing r"
  by (cases r) (auto simp: skip_missing_def is_not_exist_def)

text \<open>The callback by cases: it returns before or after the filters, passes the entry over, or passes it on.\<close>

lemma filter_callback_cases:
  fixes ff :: "'mi filter_fs"
  assumes "filter_callback ff zero ctx fn path (Some d) werr (ds, s) = (r, called, (ds', s'))"
    and "parents = (if filtering ff then pop_visited path ds else ds)"
  obtains (stop) e where "r = skip_missing (Some e)" "ds' = parents" "s' = s"
  | (denied) "werr \<noteq> None" "r = None" "ds' = parents" "s' = s"
  | (skipped) info1 info2 where "werr = None" "filtering ff" "r = None" "s' = s"
      "ds' = parents @ (if de_is_dir d then [\<lparr>vd_entry = d, vd_path_with_sep = path @ [slash], vd_include_info = info1,
        vd_exclude_info = info2, vd_called_fn = False, vd_skip_fn = False\<rparr>] else [])"
  | (passed) info1 info2 err parents' where "werr = None" "filter_pass ctx (ff_map ff) fn path d parents s = (err, parents', s')"
      "r = skip_missing err"
      "ds' = parents' @ (if filtering ff \<and> de_is_dir d then [\<lparr>vd_entry = d, vd_path_with_sep = path @ [slash],
        vd_include_info = info1, vd_exclude_info = info2, vd_called_fn = True, vd_skip_fn = False\<rparr>] else [])"
proof -
  define v1 where "v1 = (case ff_include ff of None \<Rightarrow> FilterPass False zero
    | Some im \<Rightarrow> include_verdict ff im parents (de_is_dir d) path)"
  define v2 where "v2 = (case ff_exclude ff of None \<Rightarrow> FilterPass False zero
    | Some em \<Rightarrow> exclude_verdict ff em parents (de_is_dir d) path)"
  define add where "add = (\<lambda>(info1 :: 'mi) info2 called ps. if filtering ff \<and> de_is_dir d then
      ps @ [\<lparr>vd_entry = d, vd_path_with_sep = path @ [slash], vd_include_info = info1, vd_exclude_info = info2,
        vd_called_fn = called, vd_skip_fn = False\<rparr>] else ps)"
  have run: "(case v1 of FilterReturn e \<Rightarrow> (skip_missing (Some e), False, (parents, s))
      | FilterPass skip1 info1 \<Rightarrow>
          (case v2 of FilterReturn e \<Rightarrow> (skip_missing (Some e), False, (parents, s))
           | FilterPass skip2 info2 \<Rightarrow>
               (case werr of
                  Some e \<Rightarrow>
                    if (skip1 \<or> skip2) \<and> errno_of e \<in> {Some EACCES, Some EPERM} then (None, False, (parents, s))
                    else (skip_missing (Some e), False, (parents, s))
                | None \<Rightarrow>
                    if skip1 \<or> skip2 then (None, False, (add info1 info2 False parents, s))
                    else (case filter_pass ctx (ff_map ff) fn path d parents s of
                        (err, parents, s) \<Rightarrow> (skip_missing err, True, (add info1 info2 True parents, s)))))) = (r, called, (ds', s'))"
    using assms(1)
    by (simp only: filter_callback_def Let_def prod.case option.case option.sel v1_def v2_def add_def assms(2) filtering_def)
  show ?thesis
  proof (cases v1)
    case (FilterReturn e)
    then show ?thesis using run stop[of e] by auto
  next
    case v1: (FilterPass skip1 info1)
    show ?thesis
    proof (cases v2)
      case (FilterReturn e)
      then show ?thesis using run stop[of e] v1 by auto
    next
      case v2: (FilterPass skip2 info2)
      show ?thesis
      proof (cases werr)
        case (Some e)
        then show ?thesis using run v1 v2 stop[of e] denied by (auto split: if_splits)
      next
        case None
        show ?thesis
        proof (cases "skip1 \<or> skip2")
          case True
          then have "filtering ff" using v1 v2 by (auto simp: v1_def v2_def filtering_def split: option.splits)
          then show ?thesis using run v1 v2 None True skipped[of info1 info2] by (auto simp: add_def)
        next
          case False
          obtain err ps s1 where fp: "filter_pass ctx (ff_map ff) fn path d parents s = (err, ps, s1)" by (metis prod_cases3)
          then show ?thesis using run v1 v2 None False passed[of err ps info1 info2] by (auto simp: add_def)
        qed
      qed
    qed
  qed
qed

text \<open>What the consumer is shown of an entry that passed the filters.\<close>

lemma filter_pass_keeps:
  assumes "visits_keep fn J" "good_comps p" "entry_ok (join_slash p) d"
    and "filter_pass ctx None fn (join_slash p) d parents s = (err, parents', s')"
    and "J cur0 s" "dir_chain (butlast p) parents \<or> parents = []" "ready cur0 parents p"
  obtains cur1 where "J cur1 s'" "dir_chain (butlast p) parents \<Longrightarrow> dir_chain (butlast p) parents'" "parents = [] \<Longrightarrow> parents' = []"
    "skip_missing err = Some SkipDir \<Longrightarrow> later_ready cur1 parents' p"
    "err = None \<Longrightarrow> cur1 = Some (p, de_is_dir d) \<and> list_all settled parents'"
proof -
  have p: "p \<noteq> []" using assms(2) by (simp add: good_comps_def)
  have len: "length parents = length p - 1 \<or> parents = []" using assms(6) by (auto simp: dir_chain_def)
  have now: "later_ready cur0 parents p"
    unfolding later_ready_def using ready_later[OF assms(7) len p] by blast
  show ?thesis
  proof (cases "info_stat (join_slash p) d")
    case (Inl e)
    then have "parents' = parents" "s' = s" "err \<noteq> None" using assms(4) by (auto simp: filter_pass_def)
    then show ?thesis using that[of cur0] assms(5) now by auto
  next
    case (Inr st)
    show ?thesis
    proof (cases "ctx s")
      case True
      then have "parents' = parents" "s' = s" "err \<noteq> None" using assms(4) Inr by (auto simp: filter_pass_def)
      then show ?thesis using that[of cur0] assms(5) now by auto
    next
      case False
      have "de_info d = Inr (StatInfo st)" using Inr by (auto simp: info_stat_def split: sum.splits file_info.splits)
      then have st: "st_path st = join_slash p" "stat_is_dir st = de_is_dir d" using assms(3) by (simp_all add: entry_ok_def)
      obtain err1 ps s1 where an: "announce_parents ctx None fn (join_slash p) [] parents s = (err1, ps, s1)" by (metis prod_cases3)
      obtain cur1 where c1: "J cur1 s1" "dir_chain (butlast p) parents \<Longrightarrow> dir_chain (butlast p) ps" "parents = [] \<Longrightarrow> ps = []"
        "err1 = None \<Longrightarrow> list_all settled ps \<and> may_visit cur1 p"
        "skip_missing err1 = Some SkipDir \<Longrightarrow> later_ready cur1 ps p"
      proof (cases "parents = []")
        case True
        then have "err1 = None" "ps = []" "s1 = s" using an by simp_all
        then show ?thesis using that[OF _ _ _ _ _, of cur0] assms(5,7) True by auto
      next
        case ne: False
        then have ch: "dir_chain (butlast p) ([] @ parents)" using assms(6) by simp
        from announce_keeps[OF assms(1,2) an ch _ assms(5)] assms(7) obtain cur0' where "J cur0' s1" "dir_chain (butlast p) ps"
          "err1 = None \<longrightarrow> list_all settled ps \<and> may_visit cur0' p" "skip_missing err1 = Some SkipDir \<longrightarrow> later_ready cur0' ps p" by auto
        then show ?thesis using that[of cur0'] ne by blast
      qed
      show ?thesis
      proof (cases err1)
        case (Some e)
        then have "err = Some e" "parents' = ps" "s' = s1" using assms(4) Inr False an by (simp_all add: filter_pass_def apply_map_def)
        then show ?thesis using that[of cur1] c1 Some by auto
      next
        case None
        obtain r called s2 where call: "fn (st_path st) (Some (entry_of_stat st)) None s1 = (r, called, s2)" by (metis prod_cases3)
        have e: "err = r" "parents' = ps" "s' = s2"
          using assms(4) Inr False an None call by (simp_all add: filter_pass_def apply_map_def)
        have v: "may_visit cur1 p" "list_all settled ps" using c1(4) None by simp_all
        have ok: "entry_ok (join_slash p) (entry_of_stat st)" using st by (simp add: entry_ok_def entry_of_stat_def)
        have J2: "J (next_cursor p (de_is_dir d) (skip_missing r)) s2" "skip_missing r = r"
          using visits_keep_call[OF assms(1) c1(1) v(1) ok call[unfolded st(1)]] st by (auto simp: entry_of_stat_def)
        show ?thesis
        proof (rule that[OF J2(1)[folded e(3)]])
          show "later_ready (next_cursor p (de_is_dir d) (skip_missing r)) parents' p" if "skip_missing err = Some SkipDir"
          proof -
            have "next_cursor p (de_is_dir d) (skip_missing r) = Some (p, False)" using that e(1) by (simp add: next_cursor_def)
            moreover have "list_all settled (take n ps)" for n using v(2) by (auto simp: list_all_iff dest: in_set_takeD)
            ultimately show ?thesis using e(2) ready_settled unfolding later_ready_def by metis
          qed
          show "next_cursor p (de_is_dir d) (skip_missing r) = Some (p, de_is_dir d) \<and> list_all settled parents'" if "err = None"
            using that e v(2) by (simp add: next_cursor_def)
        qed (use c1 e in auto)
      qed
    qed
  qed
qed

lemma filter_callback_keeps:
  fixes ff :: "'mi filter_fs"
  assumes "visits_keep fn J" "ff_map ff = None"
  shows "visits_keep (filter_callback ff zero ctx fn) (filter_inv ff J)"
  unfolding visits_keep_def
proof (intro conjI allI impI)
  fix cur p d dss r called dss'
  assume a: "filter_inv ff J cur dss" "may_visit cur p" "entry_ok (join_slash p) d"
    "filter_callback ff zero ctx fn (join_slash p) (Some d) None dss = (r, called, dss')"
  obtain ds s ds' s' where dss: "dss = (ds, s)" "dss' = (ds', s')" by fastforce
  define parents where "parents = (if filtering ff then pop_visited (join_slash p) ds else ds)"
  have good: "good_comps p" using a(2) by (rule may_visit_good)
  obtain cur0 where c: "J cur0 s" "if filtering ff then dir_chain (butlast p) parents else parents = []" "ready cur0 parents p"
    using filter_inv_enter[OF a(1)[unfolded dss] _ parents_def] a(2) by blast
  have len: "length parents = length p - 1 \<or> parents = []" using c(2) by (auto simp: dir_chain_def split: if_splits)
  have p: "p \<noteq> []" using good by (simp add: good_comps_def)
  have now: "later_ready cur0 parents p" unfolding later_ready_def using ready_later[OF c(3) len p] by blast
  have cur': "next_cursor p b (skip_missing r) = None \<or> (\<exists>b'. next_cursor p b (skip_missing r) = Some (p, b'))" for b
    by (auto simp: next_cursor_def split: option.splits)
  from a(4)[unfolded dss] parents_def
  show "filter_inv ff J (next_cursor p (de_is_dir d) (skip_missing r)) dss'"
  proof (cases rule: filter_callback_cases)
    case (stop e)
    have "filter_inv ff J (next_cursor p (de_is_dir d) (skip_missing r)) (parents @ [], s)"
      by (rule filter_inv_leave[where J = J, OF c(1,2) good cur'])
        (use now stop(1) in \<open>auto simp: next_cursor_def split: option.splits if_splits\<close>)
    then show ?thesis using stop dss by simp
  next
    case denied
    then show ?thesis by simp
  next
    case (skipped info1 info2)
    let ?d = "\<lparr>vd_entry = d, vd_path_with_sep = join_slash p @ [slash], vd_include_info = info1,
        vd_exclude_info = info2, vd_called_fn = False, vd_skip_fn = False\<rparr>"
    have "filter_inv ff J (next_cursor p (de_is_dir d) (skip_missing r)) (parents @ (if de_is_dir d then [?d] else []), s)"
    proof (rule filter_inv_leave[where J = J, OF c(1,2) good cur'])
      fix q assume q: "next_cursor p (de_is_dir d) (skip_missing r) = Some (p, True)" "butlast q = p"
        "may_visit (next_cursor p (de_is_dir d) (skip_missing r)) q"
      have d: "de_is_dir d" using q(1) skipped(3) by (simp add: next_cursor_def)
      have tq: "take i q = take i p" if "i \<le> length p" for i using q(2) that by (metis take_butlast butlast_conv_take length_butlast take_take min.absorb1)
      have lp: "length parents = length p - 1" using c(2) skipped(2) by (simp add: dir_chain_def)
      have "ready cur0 (parents @ [?d]) q"
      proof (cases parents rule: settled_split)
        case 1
        have "take (Suc (length parents)) q = p" using tq[of "length p"] lp p by simp
        then show ?thesis
          using ready_split[OF 1, where d = ?d and rest = "[]" and ?cur0.0 = cur0 and p = q] c(3) ready_settled[OF 1]
          by (simp add: settled_def)
      next
        case (2 xs d' rest)
        have "Suc (length xs) \<le> length p" using lp 2(1) by simp
        then have "take (Suc (length xs)) q = take (Suc (length xs)) p" by (rule tq)
        moreover have "fresh ?d" by (simp add: fresh_def)
        ultimately show ?thesis
          using c(3) unfolding 2(1) append_assoc append_Cons ready_split[OF 2(2,3)] by (simp add: Let_def)
      qed
      then show "(filtering ff \<longrightarrow> (if de_is_dir d then [?d] else []) \<noteq> []) \<and>
          ready cur0 (parents @ (if de_is_dir d then [?d] else [])) q" using d by simp
    qed (use now skipped(2) a(3) in auto)
    then show ?thesis using skipped dss by simp
  next
    case (passed info1 info2 err parents')
    let ?d = "\<lparr>vd_entry = d, vd_path_with_sep = join_slash p @ [slash], vd_include_info = info1,
        vd_exclude_info = info2, vd_called_fn = True, vd_skip_fn = False\<rparr>"
    have ch: "dir_chain (butlast p) parents \<or> parents = []" using c(2) by (auto split: if_splits)
    obtain cur1 where c1: "J cur1 s'" "dir_chain (butlast p) parents \<Longrightarrow> dir_chain (butlast p) parents'"
      "parents = [] \<Longrightarrow> parents' = []" "skip_missing err = Some SkipDir \<Longrightarrow> later_ready cur1 parents' p"
      "err = None \<Longrightarrow> cur1 = Some (p, de_is_dir d) \<and> list_all settled parents'"
      using filter_pass_keeps[OF assms(1) good a(3) passed(2)[unfolded assms(2)] c(1) ch c(3)] by blast
    have c2: "if filtering ff then dir_chain (butlast p) parents' else parents' = []" using c(2) c1(2,3) by (auto split: if_splits)
    have settled: "ready (Some (p, de_is_dir d)) (take n (parents' @ xs)) q = may_visit (Some (p, de_is_dir d)) q"
      if "err = None" "list_all settled xs" for n q xs
      by (rule ready_settled) (use c1(5) that in \<open>auto simp: list_all_iff dest: in_set_takeD\<close>)
    have "filter_inv ff J (next_cursor p (de_is_dir d) (skip_missing r)) (parents' @ (if filtering ff \<and> de_is_dir d then [?d] else []), s')"
    proof (rule filter_inv_leave[where J = J, OF c1(1) c2 good cur'])
      show "later_ready cur1 parents' p" if "next_cursor p (de_is_dir d) (skip_missing r) \<noteq> None"
      proof (cases err)
        case None
        then show ?thesis
          using settled[OF None, of "[]"] c1(5) may_visit_closed by (auto simp: later_ready_def)
      next
        case (Some e)
        then have "skip_missing err = Some SkipDir" using that passed(3)
          by (cases "skip_missing err") (auto simp: next_cursor_def split: if_splits)
        then show ?thesis by (rule c1(4))
      qed
      fix q assume q: "next_cursor p (de_is_dir d) (skip_missing r) = Some (p, True)" "butlast q = p"
        "may_visit (next_cursor p (de_is_dir d) (skip_missing r)) q"
      then have n: "err = None" "de_is_dir d" using passed(3) by (auto simp: next_cursor_def split: option.splits if_splits)
      define X where "X = (if filtering ff \<and> de_is_dir d then [?d] else [])"
      have X: "list_all settled X" by (simp add: X_def settled_def)
      have "ready cur1 (parents' @ X) q"
        using settled[OF n(1) X, of "length (parents' @ X)" q] c1(5)[OF n(1)] n(2) q by simp
      moreover have "filtering ff \<longrightarrow> X \<noteq> []" using n(2) by (simp add: X_def)
      ultimately show "(filtering ff \<longrightarrow> (if filtering ff \<and> de_is_dir d then [?d] else []) \<noteq> []) \<and>
          ready cur1 (parents' @ (if filtering ff \<and> de_is_dir d then [?d] else [])) q" by (simp only: X_def simp_thms)
    qed (use a(3) in auto)
    then show ?thesis using passed dss by simp
  qed
  show "skip_missing r = r" if "\<exists>st. de_info d = Inr (StatInfo st)"
    using a(4)[unfolded dss] parents_def by (cases rule: filter_callback_cases) auto
next
  fix p d e dss r called dss'
  assume a: "filter_inv ff J (Some (p, True)) dss" "good_comps p" "entry_ok (join_slash p) d"
    "filter_callback ff zero ctx fn (join_slash p) (Some d) (Some e) dss = (r, called, dss')"
  obtain ds s ds' s' where dss: "dss = (ds, s)" "dss' = (ds', s')" by fastforce
  define parents where "parents = (if filtering ff then pop_visited (join_slash p) ds else ds)"
  obtain cur0 where c: "J cur0 s" "if filtering ff then dir_chain (butlast p) parents else parents = []" "later_ready cur0 parents p"
    using filter_inv_enter[OF a(1)[unfolded dss] _ parents_def] a(2) by blast
  have same: "ds' = parents \<and> s' = s"
    using a(4)[unfolded dss] parents_def by (cases rule: filter_callback_cases) auto
  have "filter_inv ff J (next_cursor p False (skip_missing r)) (parents @ [], s)"
    by (rule filter_inv_leave[where J = J, OF c(1,2) a(2)])
      (use c(3) in \<open>auto simp: next_cursor_def split: option.splits if_splits\<close>)
  then show "filter_inv ff J (next_cursor p False (skip_missing r)) dss'" using same dss by simp
qed

lemma filter_tree_walk:
  assumes "tree_walk walk target" "ff_map ff = None"
  shows "tree_walk (filter_walk ff zero ctx walk) target"
  unfolding tree_walk_def
proof (intro allI impI)
  fix fn J s r s'
  assume a: "visits_keep fn J" "J start_cursor s" "filter_walk ff zero ctx walk target fn s = (r, s')"
  obtain ds where w: "walk target (filter_callback ff zero ctx fn) ([], s) = (r, (ds, s'))"
    using a(3) by (auto simp: filter_walk_def split: prod.splits)
  have "\<exists>cur. filter_inv ff J cur (ds, s')"
    using assms(1) filter_callback_keeps[OF a(1) assms(2)] filter_inv_start[where J = J, OF a(2)] w unfolding tree_walk_def by blast
  then show "\<exists>cur. J cur s'" by (auto simp: filter_inv_def)
qed

section \<open>What a consumer sees\<close>

text \<open>
  A consumer as the walkers of this program are: it stops at an error, asks the entry for its \<open>Stat\<close>
  and records it, and then answers whatever it likes but a missing file; \<open>answer\<close> may look at all it
  has recorded.
\<close>

definition record_stream :: "(vchange list \<Rightarrow> go_error option) \<Rightarrow> vchange list walk_fn" where
  "record_stream answer path entry err sent =
     (case err of Some e \<Rightarrow> (Some e, False, sent)
      | None \<Rightarrow>
          (case entry of
             None \<Rightarrow> (Some (Panic ''nil DirEntry''), False, sent)
           | Some entry \<Rightarrow>
               (case de_info entry of
                  Inr (StatInfo st) \<Rightarrow>
                    (let sent = sent @ [\<lparr>vc_kind = ChangeKindAdd, vc_path = path, vc_info = st\<rparr>] in (answer sent, True, sent))
                | Inr other \<Rightarrow> (Some (Errorf ''fileinfo without stat info'' []), True, sent)
                | Inl e \<Rightarrow> (Some e, True, sent))))"

definition answers :: "(vchange list \<Rightarrow> go_error option) \<Rightarrow> bool" where
  "answers answer \<longleftrightarrow> (\<forall>sent e. answer sent = Some e \<longrightarrow> \<not> is_not_exist e)"

text \<open>Its invariant: the stream is in tree order, and so is every path that can follow.\<close>

definition fits :: "vchange list \<Rightarrow> string list \<Rightarrow> bool" where
  "fits sent q \<longleftrightarrow>
     (\<forall>c \<in> set sent. path_less (vc_path c) (join_slash q)) \<and>
     (parent_of (join_slash q) = [] \<or> (\<exists>c \<in> set sent. vc_path c = parent_of (join_slash q) \<and> opens_dir c))"

definition stream_inv :: "cursor \<Rightarrow> vchange list \<Rightarrow> bool" where
  "stream_inv cur sent \<longleftrightarrow>
     tree_order sent \<and> list_all (\<lambda>c. st_path (vc_info c) = vc_path c) sent \<and> (\<forall>q. may_visit cur q \<longrightarrow> fits sent q)"

lemma parent_of_join: "good_comps q \<Longrightarrow> parent_of (join_slash q) = join_slash (butlast q)"
  by (simp add: parent_of_def split_join_good)

lemma stream_inv_start: "stream_inv start_cursor []"
proof -
  have "parent_of (join_slash q) = []" if "may_visit start_cursor q" for q
  proof -
    have "good_comps q" "butlast q = []" using that by (simp_all add: may_visit_def start_cursor_def)
    then show ?thesis by (simp add: parent_of_join)
  qed
  then show ?thesis by (simp add: stream_inv_def fits_def)
qed

lemma stream_inv_none: "stream_inv cur sent \<Longrightarrow> stream_inv None sent"
  by (simp add: stream_inv_def)

lemma stream_inv_skip: "stream_inv cur sent \<Longrightarrow> may_visit cur p \<Longrightarrow> stream_inv (Some (p, False)) sent"
  using may_visit_skip by (auto simp: stream_inv_def)

lemma stream_inv_snoc:
  assumes "stream_inv cur sent" "may_visit cur p" "stat_is_dir st = isdir" "st_path st = join_slash p"
  shows "stream_inv (Some (p, isdir)) (sent @ [\<lparr>vc_kind = ChangeKindAdd, vc_path = join_slash p, vc_info = st\<rparr>])"
proof -
  let ?c = "\<lparr>vc_kind = ChangeKindAdd, vc_path = join_slash p, vc_info = st\<rparr>"
  have p: "good_comps p" "fits sent p" using assms(1,2) may_visit_good by (auto simp: stream_inv_def)
  have "fits (sent @ [?c]) q" if q: "may_visit (Some (p, isdir)) q" for q
  proof -
    have g: "good_comps q" "p < q" "prefix (butlast q) p" "butlast q = p \<longrightarrow> isdir" using q by (simp_all add: may_visit_def)
    have less: "path_less (join_slash p) (join_slash q)"
      using path_less_join[OF good_comps_no_slash[OF p(1)] good_comps_no_slash[OF g(1)]] p(1) g(1,2) by (simp add: good_comps_def)
    then have "\<forall>c \<in> set (sent @ [?c]). path_less (vc_path c) (join_slash q)"
      using p(2) path_ord.less_trans by (auto simp: fits_def)
    moreover have "parent_of (join_slash q) = [] \<or> (\<exists>c \<in> set (sent @ [?c]). vc_path c = parent_of (join_slash q) \<and> opens_dir c)"
    proof (cases "butlast q = p")
      case True
      then show ?thesis using g assms(3) by (simp add: parent_of_join opens_dir_def)
    next
      case False
      then have "may_visit (Some (p, False)) q" using q by (simp add: may_visit_def)
      then have "fits sent q" using may_visit_skip[OF assms(2)] assms(1) by (simp add: stream_inv_def)
      then show ?thesis by (auto simp: fits_def)
    qed
    ultimately show ?thesis by (simp add: fits_def)
  qed
  moreover have "tree_order (sent @ [?c])"
    using assms(1) p by (auto simp: stream_inv_def fits_def tree_order_snoc local_path_iff good_path_join)
  ultimately show ?thesis using assms(1,4) by (simp add: stream_inv_def)
qed

lemma record_stream_keeps:
  assumes "answers answer"
  shows "visits_keep (record_stream answer) stream_inv"
  unfolding visits_keep_def
proof (intro conjI allI impI)
  fix cur p d s r called s'
  assume a: "stream_inv cur s" "may_visit cur p" "entry_ok (join_slash p) d" "record_stream answer (join_slash p) (Some d) None s = (r, called, s')"
  note skip = stream_inv_skip[OF a(1,2)] and none = stream_inv_none[OF a(1)]
  have stopped: "stream_inv (next_cursor p (de_is_dir d) (skip_missing (Some e))) s" for e
    using skip none skip_missing_Some[of e] by (auto simp: next_cursor_def)
  have same: "skip_missing (answer x) = answer x" for x
    using assms by (auto simp: answers_def skip_missing_def split: option.splits)
  show "stream_inv (next_cursor p (de_is_dir d) (skip_missing r)) s'"
  proof (cases "\<exists>st. de_info d = Inr (StatInfo st)")
    case False
    then show ?thesis using a(4) stopped
      by (auto simp: record_stream_def split: sum.splits file_info.splits)
  next
    case True
    then obtain st where st: "de_info d = Inr (StatInfo st)" by blast
    then have eq: "r = answer s'" "s' = s @ [\<lparr>vc_kind = ChangeKindAdd, vc_path = join_slash p, vc_info = st\<rparr>]"
      using a(4) by (auto simp: record_stream_def Let_def)
    have ok: "st_path st = join_slash p" "stat_is_dir st = de_is_dir d" using a(3) st by (simp_all add: entry_ok_def)
    have J: "stream_inv (Some (p, de_is_dir d)) s'" unfolding eq(2) by (rule stream_inv_snoc[OF a(1,2) ok(2,1)])
    then have "stream_inv (Some (p, False)) s'" using may_visit_closed by (auto simp: stream_inv_def)
    then show ?thesis using J stream_inv_none[OF J] same[of s'] unfolding eq(1)
      by (auto simp: next_cursor_def split: option.splits)
  qed
  show "skip_missing r = r" if "\<exists>st. de_info d = Inr (StatInfo st)"
    using that a(4) same by (auto simp: record_stream_def Let_def)
next
  fix p d e s r called s'
  assume a: "stream_inv (Some (p, True)) s" "good_comps p" "record_stream answer (join_slash p) (Some d) (Some e) s = (r, called, s')"
  have "stream_inv (Some (p, False)) s" using a(1) may_visit_closed[of p _ True] by (auto simp: stream_inv_def)
  moreover from this have "stream_inv None s" by (rule stream_inv_none)
  moreover have "r = Some e" "s' = s" using a(3) by (simp_all add: record_stream_def)
  ultimately show "stream_inv (next_cursor p False (skip_missing r)) s'"
    using skip_missing_Some[of e] by (auto simp: next_cursor_def)
qed

lemma walk_stream:
  assumes "tree_walk walk target" "answers answer" "walk target (record_stream answer) [] = (r, sent)"
  shows "tree_order sent \<and> list_all (\<lambda>c. st_path (vc_info c) = vc_path c) sent"
proof -
  obtain cur where "stream_inv cur sent"
    using assms(1,3) record_stream_keeps[OF assms(2)] stream_inv_start unfolding tree_walk_def by blast
  then show ?thesis by (simp add: stream_inv_def)
qed

section \<open>Properties\<close>

text \<open>C19. Walking a directory through an \<open>os.Root\<close> reports proper relative paths, strictly increasing in
  the tree order, each at the top or in a directory reported before, and the \<open>Stat\<close> of an entry
  carries the path it is reported under; whatever the consumer answers on the way, skipping
  directories and stopping included, as long as it does not report a missing file.\<close>

theorem root_walk_stream_ordered:
  assumes "clean_root_fs_target target = ''.''" "lookup ''.'' = Inr (OsNode name d read_err ts)"
    and "wf_nodes (lstat_agrees rc) [] ts" "xattr_only rc" "answers answer"
    and "root_fs_walk rc lookup ctx target (record_stream answer) [] = (r, sent)"
  shows "tree_order sent \<and> list_all (\<lambda>c. st_path (vc_info c) = vc_path c) sent"
  by (rule walk_stream[OF root_fs_tree_walk[where lookup = lookup, OF assms(1-4)] assms(5,6)])

text \<open>C18. The receiver's \<open>Validator\<close> accepts what a filtered walk of a directory reports, for all include
  and exclude patterns, any pattern matcher and any answers of the consumer: the directories that
  the filter announces late come in their place, before anything below them and once each.\<close>

theorem filtered_walk_accepted:
  assumes "list_all good_comp gs" "join2 (abs_at gs []) target = abs_at gs []"
    and "lookup (abs_at gs []) = Inr (OsNode name d read_err ts)" "wf_nodes info_agrees [] ts"
    and "ff_map ff = None" "answers answer"
    and "filter_walk ff zero ctx (fs_walk sc lookup (abs_at gs []) ctx') target (record_stream answer) [] = (r, sent)"
  shows "\<exists>v. validator_run sent new_validator = Inr v"
proof -
  have "tree_order sent"
    using walk_stream[OF filter_tree_walk[OF fs_tree_walk[where lookup = lookup, OF assms(1-4)] assms(5)] assms(6,7)] by simp
  then show ?thesis using validator_run_tree_order by blast
qed

text \<open>A directory with a file, and a file after it.\<close>

definition sample_os_entry :: "bool \<Rightarrow> os_dir_entry" where
  "sample_os_entry isdir = \<lparr>od_is_dir = isdir, od_type = (if isdir then mode_dir else 0),
     od_info = Inr (if isdir then (sample_info 1)\<lparr>oi_mode := mode_dir\<rparr> else sample_info 2)\<rparr>"

definition sample_nodes :: "os_tree list" where
  "sample_nodes =
     [OsNode ''d'' (sample_os_entry True) None [OsNode ''f'' (sample_os_entry False) None []],
      OsNode ''e'' (sample_os_entry False) None []]"

definition sample_lookup :: "string \<Rightarrow> os_tree res" where
  "sample_lookup p = Inr (OsNode p (sample_os_entry True) None sample_nodes)"

definition sample_root :: root_calls where
  "sample_root =
     \<lparr>rc_lstat = (\<lambda>p. Inr (if p = ''d'' then (sample_info 1)\<lparr>oi_mode := mode_dir\<rparr> else sample_info 2)),
      rc_readlink = (\<lambda>p. Inr []), rc_load_xattr = (\<lambda>p. Inr)\<rparr>"

definition sample_matcher :: "unit matcher" where
  "sample_matcher =
     \<lparr>pm_patterns = [(''d/f'', False)], pm_exclusions = False, pm_zero = (), pm_match = (\<lambda>p i. Inr (p = ''d/f'', ())),
      pm_match_or_parent = (\<lambda>p. Inr (p = ''d/f''))\<rparr>"

definition sample_filter :: "unit filter_fs" where
  "sample_filter =
     \<lparr>ff_include = Some sample_matcher, ff_exclude = None, ff_only_prefix_includes = True,
      ff_only_prefix_exclude_exceptions = True, ff_map = None\<rparr>"

lemma sample_nodes_wf: "wf_nodes info_agrees [] sample_nodes" "wf_nodes (lstat_agrees sample_root) [] sample_nodes"
  by (simp_all add: wf_nodes_def sample_nodes_def info_agrees_def lstat_agrees_def sample_root_def sample_os_entry_def good_comp_def
      sample_info_def oi_is_dir_def mode_is_dir_def has_mode_def mode_bits)

theorem root_walk_stream_ordered_witness:
  "\<exists>r sent. root_fs_walk sample_root sample_lookup (\<lambda>_. False) ''/'' (record_stream (\<lambda>_. None)) [] = (r, sent) \<and>
     map vc_path sent = [''d'', ''d/f'', ''e''] \<and> tree_order sent"
proof -
  obtain r sent where w: "root_fs_walk sample_root sample_lookup (\<lambda>_. False) ''/'' (record_stream (\<lambda>_. None)) [] = (r, sent)"
    by fastforce
  have "clean_root_fs_target ''/'' = ''.''" by code_simp
  moreover have "xattr_only sample_root" by (simp add: xattr_only_def sample_root_def)
  moreover have "answers (\<lambda>_. None)" by (simp add: answers_def)
  ultimately have "tree_order sent"
    using root_walk_stream_ordered[where lookup = sample_lookup, OF _ sample_lookup_def sample_nodes_wf(2) _ _ w] by simp
  moreover have "map vc_path (snd (root_fs_walk sample_root sample_lookup (\<lambda>_. False) ''/'' (record_stream (\<lambda>_. None)) [])) =
      [''d'', ''d/f'', ''e'']"
    by code_simp
  ultimately show ?thesis using w by (intro exI conjI) simp_all
qed

theorem filtered_walk_accepted_witness:
  "\<exists>r sent. filter_walk sample_filter () (\<lambda>_. False) (fs_walk sample_calls sample_lookup ''/'' (\<lambda>_. False)) ''/''
      (record_stream (\<lambda>_. None)) [] = (r, sent) \<and>
     map vc_path sent = [''d'', ''d/f''] \<and> (\<exists>v. validator_run sent new_validator = Inr v)"
proof -
  have "map vc_path (snd (filter_walk sample_filter () (\<lambda>_. False) (fs_walk sample_calls sample_lookup ''/'' (\<lambda>_. False)) ''/''
      (record_stream (\<lambda>_. None)) [])) = [''d'', ''d/f'']"
    by code_simp
  moreover obtain r sent where w: "filter_walk sample_filter () (\<lambda>_. False) (fs_walk sample_calls sample_lookup ''/'' (\<lambda>_. False)) ''/''
      (record_stream (\<lambda>_. None)) [] = (r, sent)"
    by fastforce
  moreover have "\<exists>v. validator_run sent new_validator = Inr v"
  proof (rule filtered_walk_accepted[where lookup = sample_lookup and gs = "[]" and ts = sample_nodes])
    show "join2 (abs_at [] []) ''/'' = abs_at [] []" by code_simp
    show "sample_lookup (abs_at [] []) = Inr (OsNode (abs_at [] []) (sample_os_entry True) None sample_nodes)"
      by (simp add: sample_lookup_def)
    show "filter_walk sample_filter () (\<lambda>_. False) (fs_walk sample_calls sample_lookup (abs_at [] []) (\<lambda>_. False)) ''/''
        (record_stream (\<lambda>_. None)) [] = (r, sent)"
      using w by (simp add: abs_at_def)
  qed (simp_all add: sample_nodes_wf(1) sample_filter_def answers_def)
  ultimately show ?thesis by (intro exI[of _ r] exI[of _ sent] conjI) simp_all
qed

end
