(* ===== verification/Disk_World.thy ===== *)
theory Disk_World
  imports Types_Stat
begin

text \<open>
  The file system the writers work on, as the standard library's \<open>os\<close> and the system calls below it show
  it: directory entries that name inodes, inodes with their metadata and data, open descriptors,
  and the calls \<open>diskwriter.go\<close>, \<open>rootdiskwriter.go\<close> and their helpers make. It carries no entry of
  the source map. Hard links are two entries that name one inode; symbolic links are followed where the
  calls follow them; changing a directory sets its modification time to the clock; each call can
  fail for a reason of the environment.

  The lemmas show that the calls keep a disk well formed and what each does to the entries: \<open>entries\<close>
  is the disk as seen through its paths, without the modification times of directories.
\<close>

section \<open>Disks\<close>

type_synonym vpath = "string list"

record inode =
  in_mode :: "32 word"
  in_uid :: "32 word"
  in_gid :: "32 word"
  in_mtime :: "64 word"
  in_target :: string
  in_rdev :: "64 word"
  in_xattrs :: "string \<rightharpoonup> string"
  in_data :: string

text \<open>
  Entries are named by their path from the root, without symbolic links; a descriptor is an inode
  and an offset.
\<close>

record disk =
  dk_tree :: "vpath \<rightharpoonup> nat"
  dk_inodes :: "nat \<Rightarrow> inode"
  dk_next :: nat
  dk_fds :: "nat \<rightharpoonup> nat \<times> nat"
  dk_next_fd :: nat
  dk_clock :: "64 word"

text \<open>
  What the environment decides: why a call on a path fails, if it does, the working directory, mask and owner
  of the process, and which entries a failing \<open>RemoveAll\<close> leaves.
\<close>

record disk_env =
  de_fail :: "string \<Rightarrow> string \<Rightarrow> disk \<Rightarrow> errno option"
  de_cwd :: vpath
  de_umask :: "32 word"
  de_uid :: "32 word"
  de_gid :: "32 word"
  de_kept :: "disk \<Rightarrow> vpath \<Rightarrow> bool"

definition node :: "disk \<Rightarrow> vpath \<Rightarrow> inode option" where
  "node dk v = map_option (dk_inodes dk) (dk_tree dk v)"

definition is_dir_at :: "disk \<Rightarrow> vpath \<Rightarrow> bool" where
  "is_dir_at dk v \<longleftrightarrow> (case node dk v of None \<Rightarrow> False | Some i \<Rightarrow> mode_is_dir (in_mode i))"

definition is_symlink_node :: "inode \<Rightarrow> bool" where
  "is_symlink_node i \<longleftrightarrow> \<not> mode_is_dir (in_mode i) \<and> has_mode (in_mode i) mode_symlink"

section \<open>Finding files\<close>

text \<open>
  The directory that a list of names leads to from \<open>cur\<close>, with the number of symbolic links that may
  still be followed.
\<close>

function resolve_dirs :: "nat \<Rightarrow> disk \<Rightarrow> vpath \<Rightarrow> string list \<Rightarrow> errno + (nat \<times> vpath)" where
  "resolve_dirs n dk cur [] = Inr (n, cur)"
| "resolve_dirs n dk cur (c # cs) =
     (if c = [] \<or> c = ''.'' then resolve_dirs n dk cur cs
      else if c = ''..'' then resolve_dirs n dk (butlast cur) cs
      else
        (case node dk (cur @ [c]) of
           None \<Rightarrow> Inl ENOENT
         | Some i \<Rightarrow>
             if is_symlink_node i then
               (if in_target i = [] then Inl ENOENT
                else if n = 0 then Inl ELOOP
                else resolve_dirs (n - 1) dk (if is_abs (in_target i) then [] else cur) (split_slash (in_target i) @ cs))
             else if mode_is_dir (in_mode i) then resolve_dirs n dk (cur @ [c]) cs
             else Inl ENOTDIR))"
  by pat_completeness auto
termination
  by (relation "measures [\<lambda>(n, dk, cur, cs). n, \<lambda>(n, dk, cur, cs). length cs]") auto

declare resolve_dirs.simps [simp del]

text \<open>The entry a path names from \<open>start\<close>; the last name is not followed.\<close>

definition locate_from :: "nat \<Rightarrow> disk \<Rightarrow> vpath \<Rightarrow> string \<Rightarrow> errno + (nat \<times> vpath)" where
  "locate_from n dk start p =
     (let cs = split_slash p; start = (if is_abs p then [] else start)
      in if p = [] then Inl ENOENT
         else if good_comp (last cs) then
           (case resolve_dirs n dk start (butlast cs) of
              Inl e \<Rightarrow> Inl e
            | Inr (n, d) \<Rightarrow> Inr (n, d @ [last cs]))
         else resolve_dirs n dk start cs)"

definition max_links :: nat where
  "max_links = 40"

definition locate :: "disk_env \<Rightarrow> disk \<Rightarrow> string \<Rightarrow> errno + vpath" where
  "locate env dk p = map_sum id snd (locate_from max_links dk (de_cwd env) p)"

text \<open>The same for a call that follows the last name too.\<close>

function follow_last :: "disk \<Rightarrow> nat \<Rightarrow> vpath \<Rightarrow> errno + vpath" where
  "follow_last dk n v =
     (case node dk v of
        None \<Rightarrow> Inr v
      | Some i \<Rightarrow>
          if is_symlink_node i then
            (if n = 0 then Inl ELOOP
             else (case locate_from (n - 1) dk (butlast v) (in_target i) of
                 Inl e \<Rightarrow> Inl e
               | Inr (n', v) \<Rightarrow> follow_last dk (min n' (n - 1)) v))
          else Inr v)"
  by pat_completeness auto
termination
  by (relation "measure (\<lambda>(dk, n, v). n)") auto

declare follow_last.simps [simp del]

definition locate_follow :: "disk_env \<Rightarrow> disk \<Rightarrow> string \<Rightarrow> errno + vpath" where
  "locate_follow env dk p =
     (case locate_from max_links dk (de_cwd env) p of
        Inl e \<Rightarrow> Inl e
      | Inr (n, v) \<Rightarrow> follow_last dk n v)"

section \<open>What the kernel does\<close>

type_synonym 'a kernel_op = "disk \<Rightarrow> errno + ('a \<times> disk)"

definition set_inode :: "nat \<Rightarrow> (inode \<Rightarrow> inode) \<Rightarrow> disk \<Rightarrow> disk" where
  "set_inode i f dk = dk\<lparr>dk_inodes := (dk_inodes dk)(i := f (dk_inodes dk i))\<rparr>"

text \<open>Changing what is in a directory sets its modification time.\<close>

definition touch_parent :: "vpath \<Rightarrow> disk \<Rightarrow> disk" where
  "touch_parent v dk =
     (case dk_tree dk (butlast v) of
        None \<Rightarrow> dk
      | Some i \<Rightarrow> set_inode i (\<lambda>d. d\<lparr>in_mtime := dk_clock dk\<rparr>) dk)"

definition k_lstat :: "vpath \<Rightarrow> inode kernel_op" where
  "k_lstat v dk = (case node dk v of None \<Rightarrow> Inl ENOENT | Some i \<Rightarrow> Inr (i, dk))"

definition k_create :: "vpath \<Rightarrow> inode \<Rightarrow> nat kernel_op" where
  "k_create v i dk =
     (if dk_tree dk v \<noteq> None then Inl EEXIST
      else Inr (dk_next dk,
        touch_parent v (dk\<lparr>dk_tree := (dk_tree dk)(v \<mapsto> dk_next dk), dk_inodes := (dk_inodes dk)(dk_next dk := i),
          dk_next := Suc (dk_next dk)\<rparr>)))"

definition k_link :: "vpath \<Rightarrow> vpath \<Rightarrow> unit kernel_op" where
  "k_link old new dk =
     (case dk_tree dk old of
        None \<Rightarrow> Inl ENOENT
      | Some i \<Rightarrow>
          if mode_is_dir (in_mode (dk_inodes dk i)) then Inl EPERM
          else if dk_tree dk new \<noteq> None then Inl EEXIST
          else Inr ((), touch_parent new (dk\<lparr>dk_tree := (dk_tree dk)(new \<mapsto> i)\<rparr>)))"

definition k_update :: "vpath \<Rightarrow> (inode \<Rightarrow> inode) \<Rightarrow> unit kernel_op" where
  "k_update v f dk =
     (case dk_tree dk v of None \<Rightarrow> Inl ENOENT | Some i \<Rightarrow> Inr ((), set_inode i f dk))"

definition new_fd :: "nat \<Rightarrow> disk \<Rightarrow> nat \<times> disk" where
  "new_fd i dk =
     (dk_next_fd dk, dk\<lparr>dk_fds := (dk_fds dk)(dk_next_fd dk \<mapsto> (i, 0)), dk_next_fd := Suc (dk_next_fd dk)\<rparr>)"

definition k_open :: "vpath \<Rightarrow> nat kernel_op" where
  "k_open v dk =
     (case dk_tree dk v of
        None \<Rightarrow> Inl ENOENT
      | Some i \<Rightarrow> if mode_is_dir (in_mode (dk_inodes dk i)) then Inl EISDIR else Inr (new_fd i dk))"

definition k_open_create :: "vpath \<Rightarrow> inode \<Rightarrow> nat kernel_op" where
  "k_open_create v i dk =
     (if dk_tree dk v \<noteq> None then k_open v dk
      else (case k_create v i dk of Inl e \<Rightarrow> Inl e | Inr (n, dk) \<Rightarrow> Inr (new_fd n dk)))"

definition remove_below :: "vpath \<Rightarrow> (vpath \<Rightarrow> bool) \<Rightarrow> disk \<Rightarrow> disk" where
  "remove_below v kept dk = dk\<lparr>dk_tree := (\<lambda>q. if prefix v q \<and> \<not> kept q then None else dk_tree dk q)\<rparr>"

definition k_rename :: "vpath \<Rightarrow> vpath \<Rightarrow> unit kernel_op" where
  "k_rename old new dk =
     (case dk_tree dk old of
        None \<Rightarrow> Inl ENOENT
      | Some i \<Rightarrow>
          if is_dir_at dk new \<and> old \<noteq> new then Inl EEXIST
          else if dk_tree dk new = Some i then Inr ((), dk)
          else if strict_prefix old new then Inl EINVAL
          else if dk_tree dk new \<noteq> None \<and> mode_is_dir (in_mode (dk_inodes dk i)) then Inl ENOTDIR
          else Inr ((), touch_parent new (touch_parent old
            (dk\<lparr>dk_tree := (\<lambda>q. if prefix new q then dk_tree dk (old @ drop (length new) q)
              else if prefix old q then None else dk_tree dk q)\<rparr>))))"

text \<open>Writing at an offset; a hole is filled with zero bytes.\<close>

definition write_at :: "nat \<Rightarrow> string \<Rightarrow> string \<Rightarrow> string" where
  "write_at off bs data =
     take off (data @ replicate (off - length data) (CHR 0x00)) @ bs @ drop (off + length bs) data"

section \<open>Calls on paths\<close>

text \<open>
  A call of \<open>os\<close>: it fails for a reason of the environment, because of the path, or as the kernel
  says, with an error that names the call and the path.
\<close>

definition os_call :: "disk_env \<Rightarrow> string \<Rightarrow> string \<Rightarrow> (disk \<Rightarrow> errno + vpath) \<Rightarrow> (vpath \<Rightarrow> 'a kernel_op) \<Rightarrow> disk \<Rightarrow> 'a res \<times> disk" where
  "os_call env op p loc act dk =
     (case de_fail env op p dk of
        Some e \<Rightarrow> (Inl (PathError op p e), dk)
      | None \<Rightarrow>
          (case loc dk of
             Inl e \<Rightarrow> (Inl (PathError op p e), dk)
           | Inr v \<Rightarrow> (case act v dk of Inl e \<Rightarrow> (Inl (PathError op p e), dk) | Inr (x, dk) \<Rightarrow> (Inr x, dk))))"

definition fresh_inode :: "disk_env \<Rightarrow> 32 word \<Rightarrow> inode" where
  "fresh_inode env mode =
     \<lparr>in_mode = mode, in_uid = de_uid env, in_gid = de_gid env, in_mtime = 0, in_target = [], in_rdev = 0, in_xattrs = Map.empty, in_data = []\<rparr>"

definition created :: "disk_env \<Rightarrow> 32 word \<Rightarrow> 32 word \<Rightarrow> disk \<Rightarrow> inode" where
  "created env kind mode dk = (fresh_inode env (kind OR (mode AND mode_perm AND NOT (de_umask env))))\<lparr>in_mtime := dk_clock dk\<rparr>"

definition os_lstat :: "disk_env \<Rightarrow> string \<Rightarrow> disk \<Rightarrow> inode res \<times> disk" where
  "os_lstat env p dk = os_call env ''lstat'' p (\<lambda>dk. locate env dk p) k_lstat dk"

definition os_stat :: "disk_env \<Rightarrow> string \<Rightarrow> disk \<Rightarrow> inode res \<times> disk" where
  "os_stat env p dk = os_call env ''stat'' p (\<lambda>dk. locate_follow env dk p) k_lstat dk"

definition os_mkdir :: "disk_env \<Rightarrow> string \<Rightarrow> 32 word \<Rightarrow> disk \<Rightarrow> nat res \<times> disk" where
  "os_mkdir env p mode dk =
     os_call env ''mkdir'' p (\<lambda>dk. locate env dk p) (\<lambda>v dk. k_create v (created env mode_dir mode dk) dk) dk"

definition os_symlink :: "disk_env \<Rightarrow> string \<Rightarrow> string \<Rightarrow> disk \<Rightarrow> nat res \<times> disk" where
  "os_symlink env target p dk =
     os_call env ''symlink'' p (\<lambda>dk. locate env dk p)
       (\<lambda>v dk. k_create v ((fresh_inode env (mode_symlink OR mode_perm))\<lparr>in_target := target, in_mtime := dk_clock dk\<rparr>) dk) dk"

definition os_mknod :: "disk_env \<Rightarrow> string \<Rightarrow> 32 word \<Rightarrow> 32 word \<Rightarrow> 64 word \<Rightarrow> disk \<Rightarrow> nat res \<times> disk" where
  "os_mknod env p kind mode dev dk =
     os_call env ''mknod'' p (\<lambda>dk. locate env dk p)
       (\<lambda>v dk. k_create v ((created env kind mode dk)\<lparr>in_rdev := dev\<rparr>) dk) dk"

definition os_link :: "disk_env \<Rightarrow> string \<Rightarrow> string \<Rightarrow> disk \<Rightarrow> unit res \<times> disk" where
  "os_link env old new dk =
     os_call env ''link'' new (\<lambda>dk. locate env dk new)
       (\<lambda>v dk. case locate env dk old of Inl e \<Rightarrow> Inl e | Inr vo \<Rightarrow> k_link vo v dk) dk"

text \<open>\<open>os.OpenFile\<close> with \<open>O_WRONLY\<close>, and with \<open>O_CREATE|O_WRONLY\<close>.\<close>

definition os_open_write :: "disk_env \<Rightarrow> string \<Rightarrow> disk \<Rightarrow> nat res \<times> disk" where
  "os_open_write env p dk = os_call env ''open'' p (\<lambda>dk. locate_follow env dk p) k_open dk"

definition os_create :: "disk_env \<Rightarrow> string \<Rightarrow> 32 word \<Rightarrow> disk \<Rightarrow> nat res \<times> disk" where
  "os_create env p mode dk =
     os_call env ''open'' p (\<lambda>dk. locate_follow env dk p) (\<lambda>v dk. k_open_create v (created env 0 mode dk) dk) dk"

text \<open>The bits \<open>os.Chmod\<close> sets; the type of the file stays.\<close>

definition chmod_bits :: "32 word" where
  "chmod_bits = mode_perm OR mode_setuid OR mode_setgid OR mode_sticky"

definition os_chmod :: "disk_env \<Rightarrow> string \<Rightarrow> 32 word \<Rightarrow> disk \<Rightarrow> unit res \<times> disk" where
  "os_chmod env p mode dk =
     os_call env ''chmod'' p (\<lambda>dk. locate_follow env dk p)
       (\<lambda>v. k_update v (\<lambda>i. i\<lparr>in_mode := (in_mode i AND NOT chmod_bits) OR (mode AND chmod_bits)\<rparr>)) dk"

text \<open>An identifier of all ones, -1, is left as it is.\<close>

definition owner_or :: "32 word \<Rightarrow> 32 word \<Rightarrow> 32 word" where
  "owner_or new old = (if new = - 1 then old else new)"

definition os_lchown :: "disk_env \<Rightarrow> string \<Rightarrow> 32 word \<Rightarrow> 32 word \<Rightarrow> disk \<Rightarrow> unit res \<times> disk" where
  "os_lchown env p uid gid dk =
     os_call env ''lchown'' p (\<lambda>dk. locate env dk p)
       (\<lambda>v. k_update v (\<lambda>i. i\<lparr>in_uid := owner_or uid (in_uid i), in_gid := owner_or gid (in_gid i)\<rparr>)) dk"

definition os_utimes :: "disk_env \<Rightarrow> string \<Rightarrow> 64 word \<Rightarrow> disk \<Rightarrow> unit res \<times> disk" where
  "os_utimes env p t dk =
     os_call env ''utimensat'' p (\<lambda>dk. locate env dk p) (\<lambda>v. k_update v (\<lambda>i. i\<lparr>in_mtime := t\<rparr>)) dk"

text \<open>\<open>setxattr\<close> follows a symbolic link.\<close>

definition os_setxattr :: "disk_env \<Rightarrow> string \<Rightarrow> string \<Rightarrow> string \<Rightarrow> disk \<Rightarrow> unit res \<times> disk" where
  "os_setxattr env p key val dk =
     os_call env ''setxattr'' p (\<lambda>dk. locate_follow env dk p)
       (\<lambda>v. k_update v (\<lambda>i. i\<lparr>in_xattrs := (in_xattrs i)(key \<mapsto> val)\<rparr>)) dk"

definition os_rename :: "disk_env \<Rightarrow> string \<Rightarrow> string \<Rightarrow> disk \<Rightarrow> unit res \<times> disk" where
  "os_rename env old new dk =
     os_call env ''rename'' new (\<lambda>dk. locate env dk new)
       (\<lambda>v dk. case locate env dk old of Inl e \<Rightarrow> Inl e | Inr vo \<Rightarrow> k_rename vo v dk) dk"

text \<open>\<open>os.RemoveAll\<close>: nothing to remove is no error, and a failure can leave some of the entries.\<close>

definition os_remove_all :: "disk_env \<Rightarrow> string \<Rightarrow> disk \<Rightarrow> unit res \<times> disk" where
  "os_remove_all env p dk =
     (case locate env dk p of
        Inl e \<Rightarrow> (if e = ENOENT then Inr () else Inl (PathError ''unlinkat'' p e), dk)
      | Inr v \<Rightarrow>
          if dk_tree dk v = None then (Inr (), dk)
          else (case de_fail env ''unlinkat'' p dk of
              Some e \<Rightarrow> (Inl (PathError ''unlinkat'' p e), touch_parent v (remove_below v (de_kept env dk) dk))
            | None \<Rightarrow> (Inr (), touch_parent v (remove_below v (\<lambda>q. False) dk))))"

text \<open>Calls on an open file.\<close>

definition file_write :: "disk_env \<Rightarrow> nat \<Rightarrow> string \<Rightarrow> disk \<Rightarrow> unit res \<times> disk" where
  "file_write env fd bs dk =
     (case dk_fds dk fd of
        None \<Rightarrow> (Inl (Errno EClosed), dk)
      | Some (i, off) \<Rightarrow>
          (case de_fail env ''write'' [] dk of
             Some e \<Rightarrow> (Inl (Errno e), dk)
           | None \<Rightarrow> (Inr (), set_inode i (\<lambda>n. n\<lparr>in_data := write_at off bs (in_data n), in_mtime := dk_clock dk\<rparr>)
               (dk\<lparr>dk_fds := (dk_fds dk)(fd \<mapsto> (i, off + length bs))\<rparr>))))"

definition file_close :: "disk_env \<Rightarrow> nat \<Rightarrow> disk \<Rightarrow> unit res \<times> disk" where
  "file_close env fd dk =
     (case dk_fds dk fd of
        None \<Rightarrow> (Inl (Errno EClosed), dk)
      | Some _ \<Rightarrow> (case de_fail env ''close'' [] dk of Some e \<Rightarrow> Inl (Errno e) | None \<Rightarrow> Inr (), dk\<lparr>dk_fds := (dk_fds dk)(fd := None)\<rparr>))"

section \<open>Well-formed disks\<close>

text \<open>
  The root is a directory, every entry is in a directory under a proper name, a directory has one
  entry only, and inode numbers from \<open>dk_next\<close> on are unused.
\<close>

definition wf_disk :: "disk \<Rightarrow> bool" where
  "wf_disk dk \<longleftrightarrow>
     is_dir_at dk [] \<and>
     (\<forall>v i. dk_tree dk v = Some i \<longrightarrow> i < dk_next dk \<and> (v \<noteq> [] \<longrightarrow> is_dir_at dk (butlast v) \<and> good_comp (last v))) \<and>
     (\<forall>v w i. dk_tree dk v = Some i \<longrightarrow> dk_tree dk w = Some i \<longrightarrow> mode_is_dir (in_mode (dk_inodes dk i)) \<longrightarrow> v = w)"

lemma wf_diskD:
  assumes "wf_disk dk"
  shows "is_dir_at dk []"
    "dk_tree dk v = Some i \<Longrightarrow> i < dk_next dk"
    "dk_tree dk v = Some i \<Longrightarrow> v \<noteq> [] \<Longrightarrow> is_dir_at dk (butlast v)"
    "dk_tree dk v = Some i \<Longrightarrow> v \<noteq> [] \<Longrightarrow> good_comp (last v)"
    "dk_tree dk v = Some i \<Longrightarrow> dk_tree dk w = Some i \<Longrightarrow> mode_is_dir (in_mode (dk_inodes dk i)) \<Longrightarrow> v = w"
  using assms unfolding wf_disk_def by blast+

lemma is_dir_at_iff: "is_dir_at dk v \<longleftrightarrow> (\<exists>i. dk_tree dk v = Some i \<and> mode_is_dir (in_mode (dk_inodes dk i)))"
  by (auto simp: is_dir_at_def node_def split: option.splits)

lemma node_None_iff [simp]: "node dk v = None \<longleftrightarrow> dk_tree dk v = None"
  by (simp add: node_def)

lemma is_dir_at_prefix:
  assumes "wf_disk dk" "dk_tree dk v \<noteq> None" "strict_prefix w v"
  shows "is_dir_at dk w"
  using assms(2,3)
proof (induction v rule: rev_induct)
  case (snoc x v)
  then have d: "is_dir_at dk v" using wf_diskD(3)[OF assms(1), of "v @ [x]"] by auto
  show ?case
  proof (cases "w = v")
    case False
    then have "strict_prefix w v" using snoc.prems(2) by (auto simp: strict_prefix_def)
    then show ?thesis using snoc.IH d by (auto simp: is_dir_at_iff)
  qed (use d in simp)
qed simp

lemma tree_good_comps:
  assumes "wf_disk dk" "dk_tree dk v \<noteq> None"
  shows "list_all good_comp v"
  using assms(2)
proof (induction v rule: rev_induct)
  case (snoc x v)
  have "is_dir_at dk v" "good_comp x"
    using wf_diskD(3,4)[OF assms(1), of "v @ [x]"] snoc.prems by auto
  then show ?case using snoc.IH by (auto simp: is_dir_at_iff)
qed simp

text \<open>Real directories lead where they say.\<close>

lemma resolve_real:
  assumes "wf_disk dk" "is_dir_at dk (cur @ cs)"
  shows "resolve_dirs n dk cur cs = Inr (n, cur @ cs)"
  using assms(2)
proof (induction cs arbitrary: cur)
  case Nil
  then show ?case by (simp add: resolve_dirs.simps)
next
  case (Cons c cs)
  have "is_dir_at dk (cur @ [c])"
  proof (cases "cs = []")
    case True
    then show ?thesis using Cons.prems by simp
  next
    case False
    then have "strict_prefix (cur @ [c]) (cur @ c # cs)" by (auto simp: strict_prefix_def)
    moreover have "dk_tree dk (cur @ c # cs) \<noteq> None" using Cons.prems by (auto simp: is_dir_at_iff)
    ultimately show ?thesis using is_dir_at_prefix[OF assms(1)] by blast
  qed
  then obtain i where i: "node dk (cur @ [c]) = Some i" "mode_is_dir (in_mode i)"
    by (auto simp: is_dir_at_def split: option.splits)
  then have "good_comp c" using tree_good_comps[OF assms(1), of "cur @ [c]"] by (auto simp: node_def)
  then show ?case using Cons.IH[of "cur @ [c]"] Cons.prems i
    by (simp add: resolve_dirs.simps(2) good_comp_def is_symlink_node_def)
qed

text \<open>A path in a real directory, as the writers build it.\<close>

lemma locate_real:
  assumes "wf_disk dk" "is_dir_at dk d" "good_comp c"
  shows "locate env dk (slash # join_slash (d @ [c])) = Inr (d @ [c])"
    "locate_from n dk start (slash # join_slash (d @ [c])) = Inr (n, d @ [c])"
proof -
  have "list_all good_comp d" using tree_good_comps[OF assms(1)] assms(2) by (auto simp: is_dir_at_iff)
  then have "split_slash (join_slash (d @ [c])) = d @ [c]" using split_join_good[of "d @ [c]"] assms(3) by (simp add: good_comps_def)
  then have s: "split_slash (slash # join_slash (d @ [c])) = [] # d @ [c]"
    using split_slash_append_slash[of "[]" "join_slash (d @ [c])"] by simp
  have "resolve_dirs m dk [] ([] # d) = Inr (m, d)" for m
    using resolve_real[OF assms(1), of "[]" d m] assms(2) by (simp add: resolve_dirs.simps(2))
  then show "locate_from n dk start (slash # join_slash (d @ [c])) = Inr (n, d @ [c])" for n start
    using s assms(3) by (simp add: locate_from_def is_abs_def Let_def butlast_append)
  then show "locate env dk (slash # join_slash (d @ [c])) = Inr (d @ [c])" by (simp add: locate_def)
qed

lemma follow_real:
  assumes "wf_disk dk" "is_dir_at dk d" "good_comp c" "\<And>i. node dk (d @ [c]) = Some i \<Longrightarrow> \<not> is_symlink_node i"
  shows "locate_follow env dk (slash # join_slash (d @ [c])) = Inr (d @ [c])"
  using locate_real(2)[OF assms(1-3)] assms(4)
  by (simp add: locate_follow_def follow_last.simps[of dk _ "d @ [c]"] split: option.splits)

section \<open>What the calls do to the entries\<close>

text \<open>The disk through its paths; the times of directories change all the time and are left out.\<close>

definition seen :: "inode \<Rightarrow> inode" where
  "seen i = (if mode_is_dir (in_mode i) then i\<lparr>in_mtime := 0\<rparr> else i)"

definition entries :: "disk \<Rightarrow> vpath \<Rightarrow> inode option" where
  "entries dk v = map_option seen (node dk v)"

lemma seen_dir [simp]: "mode_is_dir (in_mode (seen i)) = mode_is_dir (in_mode i)"
  by (simp add: seen_def)

lemma entries_None [simp]:
  "entries dk v = None \<longleftrightarrow> dk_tree dk v = None" "None = entries dk v \<longleftrightarrow> dk_tree dk v = None"
  by (auto simp: entries_def eq_commute[of None])

lemma entries_tree: "dk_tree dk v = Some i \<Longrightarrow> entries dk v = Some (seen (dk_inodes dk i))"
  by (simp add: entries_def node_def)

lemma is_dir_at_entries: "is_dir_at dk v \<longleftrightarrow> (\<exists>i. entries dk v = Some i \<and> mode_is_dir (in_mode i))"
  by (auto simp: is_dir_at_iff entries_def node_def)

lemma no_entry_below:
  assumes "wf_disk dk" "\<not> is_dir_at dk v" "prefix v q" "q \<noteq> v"
  shows "dk_tree dk q = None"
  using is_dir_at_prefix[OF assms(1), of q v] assms(2-4) by (cases "dk_tree dk q") (auto simp: strict_prefix_def)

text \<open>Two disks with the same entries of the same kinds are equally well formed.\<close>

definition same_shape :: "disk \<Rightarrow> disk \<Rightarrow> bool" where
  "same_shape dk dk' \<longleftrightarrow> dk_tree dk' = dk_tree dk \<and> dk_next dk' = dk_next dk \<and>
     (\<forall>i. mode_is_dir (in_mode (dk_inodes dk' i)) = mode_is_dir (in_mode (dk_inodes dk i)))"

lemma same_shape_wf: "same_shape dk dk' \<Longrightarrow> wf_disk dk' = wf_disk dk"
  by (simp add: same_shape_def wf_disk_def is_dir_at_iff)

lemma same_shape_refl [simp]: "same_shape dk dk"
  by (simp add: same_shape_def)

lemma same_shape_trans: "same_shape dk dk' \<Longrightarrow> same_shape dk' dk'' \<Longrightarrow> same_shape dk dk''"
  by (simp add: same_shape_def)

text \<open>A call that changes descriptors only.\<close>

lemma same_entries:
  assumes "dk_tree dk' = dk_tree dk" "dk_inodes dk' = dk_inodes dk" "dk_next dk' = dk_next dk"
  shows "wf_disk dk' = wf_disk dk" "entries dk' = entries dk"
proof -
  have "same_shape dk dk'" using assms by (simp add: same_shape_def)
  then show "wf_disk dk' = wf_disk dk" by (rule same_shape_wf)
  show "entries dk' = entries dk" by (rule ext) (simp add: entries_def node_def assms)
qed

lemma same_shape_dir: "same_shape dk dk' \<Longrightarrow> is_dir_at dk' v = is_dir_at dk v"
  by (simp add: same_shape_def is_dir_at_iff)

lemma set_inode_simps [simp]:
  "dk_tree (set_inode j f dk) = dk_tree dk" "dk_next (set_inode j f dk) = dk_next dk" "dk_fds (set_inode j f dk) = dk_fds dk"
  "dk_inodes (set_inode j f dk) = (dk_inodes dk)(j := f (dk_inodes dk j))"
  by (simp_all add: set_inode_def)

lemma touch_parent_same [simp]:
  "same_shape dk (touch_parent v dk)" "entries (touch_parent v dk) q = entries dk q"
  "dk_tree (touch_parent v dk) = dk_tree dk" "dk_next (touch_parent v dk) = dk_next dk"
  "dk_fds (touch_parent v dk) = dk_fds dk" "dk_next_fd (touch_parent v dk) = dk_next_fd dk"
  if "wf_disk dk" "dk_tree dk v \<noteq> None \<or> is_dir_at dk (butlast v)"
proof -
  have d: "mode_is_dir (in_mode (dk_inodes dk i))" if "dk_tree dk (butlast v) = Some i" for i
  proof -
    have "is_dir_at dk (butlast v)" using wf_diskD(1,3)[OF \<open>wf_disk dk\<close>] \<open>dk_tree dk v \<noteq> None \<or> is_dir_at dk (butlast v)\<close>
      by (cases "v = []") auto
    then show ?thesis using that by (simp add: is_dir_at_iff)
  qed
  show "same_shape dk (touch_parent v dk)" "dk_tree (touch_parent v dk) = dk_tree dk" "dk_next (touch_parent v dk) = dk_next dk"
    "dk_fds (touch_parent v dk) = dk_fds dk" "dk_next_fd (touch_parent v dk) = dk_next_fd dk"
    by (auto simp: touch_parent_def set_inode_def same_shape_def split: option.splits)
  show "entries (touch_parent v dk) q = entries dk q"
    using d by (cases "dk_tree dk q") (auto simp: touch_parent_def set_inode_def entries_def node_def seen_def split: option.splits)
qed

lemma k_create_result:
  assumes "k_create v i dk = Inr (n, dk')" "wf_disk dk" "is_dir_at dk (butlast v)" "v \<noteq> []" "good_comp (last v)"
  shows "wf_disk dk'" "entries dk' = (entries dk)(v \<mapsto> seen i)" "dk_tree dk' = (dk_tree dk)(v \<mapsto> dk_next dk)"
    "dk_tree dk v = None" "n = dk_next dk" "dk_next dk' = Suc (dk_next dk)" "dk_fds dk' = dk_fds dk" "dk_next_fd dk' = dk_next_fd dk"
    "dk_inodes dk' (dk_next dk) = i"
proof -
  let ?d = "dk\<lparr>dk_tree := (dk_tree dk)(v \<mapsto> dk_next dk), dk_inodes := (dk_inodes dk)(dk_next dk := i), dk_next := Suc (dk_next dk)\<rparr>"
  have new: "dk_tree dk v = None" "n = dk_next dk" "dk' = touch_parent v ?d" using assms(1) by (auto simp: k_create_def split: if_splits)
  have old: "j < dk_next dk" if "dk_tree dk q = Some j" for q j using wf_diskD(2)[OF assms(2) that] .
  have dirs: "is_dir_at ?d q \<longleftrightarrow> is_dir_at dk q \<or> q = v \<and> mode_is_dir (in_mode i)" for q
    using old[of q] new(1) by (cases "dk_tree dk q") (auto simp: is_dir_at_iff)
  have "wf_disk ?d"
    unfolding wf_disk_def
  proof (intro conjI allI impI)
    show "is_dir_at ?d []" using wf_diskD(1)[OF assms(2)] dirs by simp
    fix q j assume q: "dk_tree ?d q = Some j"
    show "j < dk_next ?d" using q old[of q j] by (auto split: if_splits)
    show "is_dir_at ?d (butlast q)" if "q \<noteq> []" using q wf_diskD(3)[OF assms(2), of q j] that assms(3) dirs by (auto split: if_splits)
    show "good_comp (last q)" if "q \<noteq> []" using q wf_diskD(4)[OF assms(2), of q j] that assms(5) by (auto split: if_splits)
    fix w assume w: "dk_tree ?d w = Some j" "mode_is_dir (in_mode (dk_inodes ?d j))"
    show "q = w" using q w wf_diskD(5)[OF assms(2), of q j w] old[of q j] old[of w j] by (auto split: if_splits)
  qed
  moreover have "dk_tree ?d v \<noteq> None \<or> is_dir_at ?d (butlast v)" by simp
  ultimately have t: "same_shape ?d dk'" "\<And>q. entries dk' q = entries ?d q" "wf_disk ?d"
    "dk_fds dk' = dk_fds ?d" "dk_next_fd dk' = dk_next_fd ?d"
    unfolding new(3) using touch_parent_same[of ?d v] by blast+
  then show "wf_disk dk'" using same_shape_wf by blast
  show "dk_tree dk' = (dk_tree dk)(v \<mapsto> dk_next dk)" "dk_next dk' = Suc (dk_next dk)" using t(1) by (simp_all add: same_shape_def)
  show "entries dk' = (entries dk)(v \<mapsto> seen i)"
  proof (rule ext)
    fix q
    show "entries dk' q = ((entries dk)(v \<mapsto> seen i)) q"
      using t(2)[of q] old[of q] by (cases "dk_tree dk q") (auto simp: entries_def node_def)
  qed
  show "dk_tree dk v = None" "n = dk_next dk" "dk_fds dk' = dk_fds dk" "dk_next_fd dk' = dk_next_fd dk" using new t by simp_all
  have "butlast v \<noteq> v" using assms(4) by (metis append_butlast_last_id append_self_conv not_Cons_self2)
  then have "dk_tree ?d (butlast v) \<noteq> Some (dk_next dk)" using old[of "butlast v" "dk_next dk"] by auto
  then show "dk_inodes dk' (dk_next dk) = i"
    unfolding new(3) touch_parent_def by (cases "dk_tree ?d (butlast v)") simp_all
qed

lemma k_link_result:
  assumes "k_link old v dk = Inr (u, dk')" "wf_disk dk" "is_dir_at dk (butlast v)" "v \<noteq> []" "good_comp (last v)"
  shows "wf_disk dk'" "entries dk' = (entries dk)(v := entries dk old)" "dk_tree dk' = (dk_tree dk)(v := dk_tree dk old)"
    "dk_tree dk v = None" "dk_tree dk old \<noteq> None" "\<not> is_dir_at dk old" "dk_next dk' = dk_next dk" "dk_fds dk' = dk_fds dk"
proof -
  obtain i where i: "dk_tree dk old = Some i" "\<not> mode_is_dir (in_mode (dk_inodes dk i))" "dk_tree dk v = None"
    and dk': "dk' = touch_parent v (dk\<lparr>dk_tree := (dk_tree dk)(v \<mapsto> i)\<rparr>)"
    using assms(1) by (auto simp: k_link_def split: option.splits if_splits)
  let ?d = "dk\<lparr>dk_tree := (dk_tree dk)(v \<mapsto> i)\<rparr>"
  have dirs: "is_dir_at ?d q \<longleftrightarrow> is_dir_at dk q" for q
    using i by (auto simp: is_dir_at_iff)
  have "wf_disk ?d"
    unfolding wf_disk_def
  proof (intro conjI allI impI)
    show "is_dir_at ?d []" using wf_diskD(1)[OF assms(2)] dirs by simp
    fix q j assume q: "dk_tree ?d q = Some j"
    show "j < dk_next ?d" using q wf_diskD(2)[OF assms(2), of q j] wf_diskD(2)[OF assms(2) i(1)] by (auto split: if_splits)
    show "is_dir_at ?d (butlast q)" if "q \<noteq> []" using q wf_diskD(3)[OF assms(2), of q j] that assms(3) dirs by (auto split: if_splits)
    show "good_comp (last q)" if "q \<noteq> []" using q wf_diskD(4)[OF assms(2), of q j] that assms(5) by (auto split: if_splits)
    fix w assume w: "dk_tree ?d w = Some j" "mode_is_dir (in_mode (dk_inodes ?d j))"
    show "q = w" using q w i wf_diskD(5)[OF assms(2), of q j w] by (auto split: if_splits)
  qed
  moreover have "dk_tree ?d v \<noteq> None \<or> is_dir_at ?d (butlast v)" by simp
  ultimately have t: "same_shape ?d dk'" "\<And>q. entries dk' q = entries ?d q" "wf_disk ?d" "dk_fds dk' = dk_fds ?d"
    unfolding dk' using touch_parent_same[of ?d v] by blast+
  then show "wf_disk dk'" using same_shape_wf by blast
  show "dk_tree dk' = (dk_tree dk)(v := dk_tree dk old)" "dk_next dk' = dk_next dk" using t(1) i(1) by (simp_all add: same_shape_def)
  show "entries dk' = (entries dk)(v := entries dk old)"
  proof (rule ext)
    fix q
    show "entries dk' q = ((entries dk)(v := entries dk old)) q" using t(2)[of q] i(1) by (auto simp: entries_def node_def)
  qed
  show "dk_tree dk v = None" "dk_tree dk old \<noteq> None" "\<not> is_dir_at dk old" "dk_fds dk' = dk_fds dk"
    using i t by (auto simp: is_dir_at_iff)
qed

lemma set_inode_result:
  assumes "\<And>n. mode_is_dir (in_mode (f n)) = mode_is_dir (in_mode n)"
  shows "same_shape dk (set_inode i f dk)"
    "entries (set_inode i f dk) q = (if dk_tree dk q = Some i then Some (seen (f (dk_inodes dk i))) else entries dk q)"
  using assms by (simp_all add: set_inode_def same_shape_def)
    (cases "dk_tree dk q"; auto simp: entries_def node_def)

lemma remove_below_result:
  assumes "wf_disk dk" "v \<noteq> []" "dk' = remove_below v (\<lambda>q. False) dk"
  shows "wf_disk dk'" "entries dk' q = (if prefix v q then None else entries dk q)" "dk_next dk' = dk_next dk"
    "dk_tree dk' q = (if prefix v q then None else dk_tree dk q)" "dk_fds dk' = dk_fds dk"
proof -
  have dirs: "is_dir_at dk' q \<longleftrightarrow> is_dir_at dk q \<and> \<not> prefix v q" for q
    by (auto simp: assms(3) remove_below_def is_dir_at_iff)
  show "wf_disk dk'"
    unfolding wf_disk_def
  proof (intro conjI allI impI)
    show "is_dir_at dk' []" using wf_diskD(1)[OF assms(1)] dirs assms(2) by simp
    fix q j assume "dk_tree dk' q = Some j"
    then have q: "dk_tree dk q = Some j" "\<not> prefix v q" by (auto simp: assms(3) remove_below_def split: if_splits)
    show "j < dk_next dk'" using wf_diskD(2)[OF assms(1) q(1)] by (simp add: assms(3) remove_below_def)
    show "is_dir_at dk' (butlast q)" if "q \<noteq> []"
    proof -
      have "\<not> prefix v (butlast q)" using q(2) prefixeq_butlast[of q] prefix_order.trans by blast
      then show ?thesis using wf_diskD(3)[OF assms(1) q(1) that] dirs by simp
    qed
    show "good_comp (last q)" if "q \<noteq> []" using wf_diskD(4)[OF assms(1) q(1) that] .
    fix w assume "dk_tree dk' w = Some j" "mode_is_dir (in_mode (dk_inodes dk' j))"
    then show "q = w" using q(1) wf_diskD(5)[OF assms(1), of q j w] by (auto simp: assms(3) remove_below_def split: if_splits)
  qed
  show "entries dk' q = (if prefix v q then None else entries dk q)" "dk_next dk' = dk_next dk"
    "dk_tree dk' q = (if prefix v q then None else dk_tree dk q)" "dk_fds dk' = dk_fds dk"
    by (auto simp: assms(3) remove_below_def entries_def node_def)
qed

lemma not_prefix_butlast [simp]: "v \<noteq> [] \<Longrightarrow> \<not> prefix v (butlast v)"
  by (cases v rule: rev_cases) (auto dest: prefix_length_le)

lemma k_rename_result:
  assumes "k_rename old new dk = Inr (u, dk')" "wf_disk dk" "old \<noteq> []" "new \<noteq> []" "is_dir_at dk (butlast new)"
    "good_comp (last new)" "dk_tree dk new \<noteq> dk_tree dk old"
  shows "wf_disk dk'" "dk_next dk' = dk_next dk" "dk_fds dk' = dk_fds dk"
    "\<And>q. entries dk' q = (if prefix new q then entries dk (old @ drop (length new) q) else if prefix old q then None else entries dk q)"
    "\<And>q. dk_tree dk' q = (if prefix new q then dk_tree dk (old @ drop (length new) q) else if prefix old q then None else dk_tree dk q)"
    "\<not> is_dir_at dk new"
proof -
  define src where "src = (\<lambda>q. old @ drop (length new) q)"
  let ?d = "dk\<lparr>dk_tree := (\<lambda>q. if prefix new q then dk_tree dk (src q) else if prefix old q then None else dk_tree dk q)\<rparr>"
  obtain i where i: "dk_tree dk old = Some i" "\<not> is_dir_at dk new" "\<not> strict_prefix old new"
    and dk': "dk' = touch_parent new (touch_parent old ?d)"
    using assms(1,7) unfolding src_def k_rename_def by (auto simp: is_dir_at_iff split: option.splits if_splits)
  have ne: "old \<noteq> new" using assms(7) by auto
  have new_free: "\<not> prefix new q" if "dk_tree dk q \<noteq> None" "q \<noteq> new" for q
    using no_entry_below[OF assms(2) i(2) _ that(2)] that(1) by blast
  have inj: "src q = src w \<longleftrightarrow> q = w" if "prefix new q" "prefix new w" for q w
    using that by (auto simp: src_def prefix_def)
  have below: "prefix old (src q)" for q by (simp add: src_def)
  have dirs: "is_dir_at ?d q \<longleftrightarrow> (if prefix new q then is_dir_at dk (src q) else \<not> prefix old q \<and> is_dir_at dk q)" for q
    by (simp add: is_dir_at_iff)
  have pold: "\<not> prefix old (butlast new)" using i(3) assms(4) ne
    by (metis prefix_order.le_less_trans prefix_order.less_le strict_prefix_def prefixeq_butlast)
  have "wf_disk ?d"
    unfolding wf_disk_def
  proof (intro conjI allI impI)
    show "is_dir_at ?d []" using wf_diskD(1)[OF assms(2)] dirs assms(3,4) by simp
    fix q j assume j: "dk_tree ?d q = Some j"
    show "j < dk_next ?d" using j wf_diskD(2)[OF assms(2), of q j] wf_diskD(2)[OF assms(2), of "src q" j] by (auto split: if_splits)
    show "is_dir_at ?d (butlast q)" if q: "q \<noteq> []"
    proof (cases "prefix new q")
      case True
      then obtain zs where zs: "q = new @ zs" by (auto simp: prefix_def)
      show ?thesis
      proof (cases "zs = []")
        case True
        then have "\<not> prefix new (butlast q)" using zs assms(4) by simp
        then show ?thesis using dirs pold assms(5) zs True by simp
      next
        case False
        then have "prefix new (butlast q)" "src (butlast q) = butlast (src q)" using zs by (simp_all add: src_def butlast_append)
        moreover have "is_dir_at dk (butlast (src q))"
          using wf_diskD(3)[OF assms(2), of "src q" j] j True assms(3) by (simp add: src_def)
        ultimately show ?thesis using dirs by simp
      qed
    next
      case False
      then have d: "is_dir_at dk (butlast q)" "\<not> prefix old q" using wf_diskD(3)[OF assms(2), of q j] j q by (auto split: if_splits)
      moreover have "\<not> prefix old (butlast q)" using d(2) prefixeq_butlast[of q] prefix_order.trans by blast
      moreover have "\<not> prefix new (butlast q)" using False prefixeq_butlast[of q] prefix_order.trans by blast
      ultimately show ?thesis using dirs by simp
    qed
    show "good_comp (last q)" if q: "q \<noteq> []"
    proof (cases "prefix new q")
      case True
      then obtain zs where zs: "q = new @ zs" by (auto simp: prefix_def)
      then show ?thesis using wf_diskD(4)[OF assms(2), of "src q" j] j True assms(3,6) by (cases "zs = []") (auto simp: src_def)
    next
      case False
      then show ?thesis using wf_diskD(4)[OF assms(2), of q j] j q by (auto split: if_splits)
    qed
    fix w assume w: "dk_tree ?d w = Some j" "mode_is_dir (in_mode (dk_inodes ?d j))"
    show "q = w"
      using j w wf_diskD(5)[OF assms(2), of "src q" j "src w"] wf_diskD(5)[OF assms(2), of "src q" j w]
        wf_diskD(5)[OF assms(2), of q j "src w"] wf_diskD(5)[OF assms(2), of q j w] inj below[of q] below[of w]
      by (auto split: if_splits)
  qed
  moreover have "is_dir_at ?d (butlast old)"
  proof -
    have d: "is_dir_at dk (butlast old)" using wf_diskD(3)[OF assms(2) i(1) assms(3)] .
    then have "\<not> prefix new (butlast old)" using new_free[of "butlast old"] i(2) by (auto simp: is_dir_at_iff)
    moreover have "\<not> prefix old (butlast old)" using assms(3) by simp
    ultimately show ?thesis using d dirs by simp
  qed
  ultimately have 1: "same_shape ?d (touch_parent old ?d)" "\<And>q. entries (touch_parent old ?d) q = entries ?d q" "wf_disk ?d"
    "dk_fds (touch_parent old ?d) = dk_fds dk"
    using touch_parent_same[of ?d old] by (simp_all del: touch_parent_same)
  have wf1: "wf_disk (touch_parent old ?d)" using 1(1,3) same_shape_wf by blast
  have "dk_tree (touch_parent old ?d) new \<noteq> None" using 1(1) i(1) by (simp add: same_shape_def src_def)
  then have 2: "same_shape (touch_parent old ?d) dk'" "\<And>q. entries dk' q = entries (touch_parent old ?d) q" "dk_fds dk' = dk_fds dk"
    unfolding dk' using touch_parent_same[OF wf1, of new] 1(4) by (simp_all del: touch_parent_same)
  then have sh: "same_shape ?d dk'" using 1(1) same_shape_trans by blast
  show "wf_disk dk'" using same_shape_wf[OF sh] 1(3) by simp
  show "dk_next dk' = dk_next dk" "dk_fds dk' = dk_fds dk" using sh 2(3) by (simp_all add: same_shape_def)
  show "dk_tree dk' q = (if prefix new q then dk_tree dk (old @ drop (length new) q) else if prefix old q then None else dk_tree dk q)" for q
    using sh by (simp add: same_shape_def src_def)
  show "entries dk' q = (if prefix new q then entries dk (old @ drop (length new) q) else if prefix old q then None else entries dk q)" for q
    using 1(2)[of q] 2(2)[of q] by (auto simp: entries_def node_def src_def)
  show "\<not> is_dir_at dk new" by (rule i(2))
qed

end
