(* ===== verification/Disk_Writer.thy ===== *)
theory Disk_Writer
  imports Disk_World Fs_Walk
begin

text \<open>
  \<open>diskwriter.go\<close> with its helpers on Linux (\<open>diskwriter_unix.go\<close>, \<open>diskwriter_unixnobsd.go\<close>,
  \<open>chtimes_linux.go\<close>): applying a stream of changes to a directory. The calls of \<open>os\<close> are those of
  \<open>Disk_World\<close>; the hash, the device encoding of \<open>x/sys/unix\<close>, the random seed and the callbacks are
  parameters.

  A data callback is known by what it does to the writer it is given: a list of writes and closes,
  which it leaves at the first error, and the error it ends with.
\<close>

section \<open>Options and state\<close>

datatype wr_op = WrWrite string | WrClose

type_synonym write_to_func = "string \<Rightarrow> wr_op list \<times> go_error option"

type_synonym filter_func = "string \<Rightarrow> stat \<Rightarrow> bool \<times> stat"

type_synonym notify_func = "change_kind \<Rightarrow> string \<Rightarrow> (stat \<times> string) option \<Rightarrow> go_error option"

text \<open>
  A hash is known by what has been written to it: \<open>ContentHasher\<close> gives what it starts with. A
  notification carries the \<open>Stat\<close> and the digest of a hashed writer, or no information for a deletion.
\<close>

record disk_writer_opt =
  dwo_async_data_cb :: "write_to_func option"
  dwo_sync_data_cb :: "write_to_func option"
  dwo_notify_cb :: "notify_func option"
  dwo_content_hasher :: "stat \<Rightarrow> string res"
  dwo_filter :: "filter_func option"

record notification =
  nt_kind :: change_kind
  nt_path :: string
  nt_info :: "(stat \<times> string) option"

text \<open>A file whose data was requested: path, destination, the received \<open>Stat\<close> and the filtered copy.\<close>

record data_task =
  dt_path :: string
  dt_dest :: string
  dt_fi :: stat
  dt_stat :: stat

text \<open>
  The writer with what it works on: the disk, the random state of the package, the notifications
  sent and the data requested; \<open>dw_done\<close> tells whether its context is done.
\<close>

record disk_writer =
  dw_opt :: disk_writer_opt
  dw_dest :: string
  dw_done :: bool
  dw_dir_mod_times :: "string \<rightharpoonup> 64 word"
  dw_disk :: disk
  dw_rand :: "32 word"
  dw_notes :: "notification list"
  dw_tasks :: "data_task list"

record writer_env =
  we_disk :: disk_env
  we_digest :: "string \<Rightarrow> string"
  we_mkdev :: "32 word \<Rightarrow> 32 word \<Rightarrow> 64 word"
  we_seed :: "32 word"

definition new_disk_writer :: "bool \<Rightarrow> string \<Rightarrow> disk_writer_opt \<Rightarrow> disk \<Rightarrow> 32 word \<Rightarrow> disk_writer res" where
  "new_disk_writer ctx_done dest opt dk rand =
     (if dwo_sync_data_cb opt = None \<and> dwo_async_data_cb opt = None then Inl (Errorf ''no data callback specified'' [])
      else if dwo_sync_data_cb opt \<noteq> None \<and> dwo_async_data_cb opt \<noteq> None then
        Inl (Errorf ''can't specify both sync and async data callbacks'' [])
      else Inr \<lparr>dw_opt = opt, dw_dest = dest, dw_done = ctx_done, dw_dir_mod_times = Map.empty, dw_disk = dk,
        dw_rand = rand, dw_notes = [], dw_tasks = []\<rparr>)"

text \<open>A call on the disk.\<close>

definition on_disk :: "(disk \<Rightarrow> 'a res \<times> disk) \<Rightarrow> disk_writer \<Rightarrow> 'a res \<times> disk_writer" where
  "on_disk f dw = (case f (dw_disk dw) of (r, dk) \<Rightarrow> (r, dw\<lparr>dw_disk := dk\<rparr>))"

text \<open>Going on after a call that did not fail.\<close>

definition try_bind :: "'a res \<times> 's \<Rightarrow> ('a \<Rightarrow> 's \<Rightarrow> 'b res \<times> 's) \<Rightarrow> 'b res \<times> 's" where
  "try_bind m f = (case m of (Inl e, s) \<Rightarrow> (Inl e, s) | (Inr x, s) \<Rightarrow> f x s)"

definition wrap_err :: "string \<Rightarrow> 'a res \<times> 's \<Rightarrow> 'a res \<times> 's" where
  "wrap_err msg m = (case m of (Inl e, s) \<Rightarrow> (Inl (Wrap msg e), s) | (Inr x, s) \<Rightarrow> (Inr x, s))"

section \<open>Temporary names\<close>

fun decimal :: "nat \<Rightarrow> string" where
  "decimal n = (if n < 10 then [char_of (48 + n)] else decimal (n div 10) @ [char_of (48 + n mod 10)])"

declare decimal.simps [simp del]

text \<open>\<open>nextSuffix\<close>: the suffix and the new random state.\<close>

definition next_suffix :: "32 word \<Rightarrow> 32 word \<Rightarrow> string \<times> 32 word" where
  "next_suffix seed rand =
     (let r = (if rand = 0 then seed else rand); r = r * 1664525 + 1013904223
      in (tl (decimal (unat (1000000000 + r mod 1000000000))), r))"

section \<open>Metadata and special files\<close>

definition chtimes :: "disk_env \<Rightarrow> string \<Rightarrow> 64 word \<Rightarrow> disk \<Rightarrow> unit res \<times> disk" where
  "chtimes env p t dk = wrap_err ''failed call to UtimesNanoAt'' (os_utimes env p t dk)"

fun set_xattrs :: "disk_env \<Rightarrow> string \<Rightarrow> (string \<times> string) list \<Rightarrow> disk \<Rightarrow> disk" where
  "set_xattrs env p [] dk = dk"
| "set_xattrs env p ((key, val) # xs) dk = set_xattrs env p xs (snd (os_setxattr env p key val dk))"

definition rewrite_metadata :: "disk_env \<Rightarrow> string \<Rightarrow> stat \<Rightarrow> disk \<Rightarrow> unit res \<times> disk" where
  "rewrite_metadata env p st dk =
     try_bind (os_lchown env p (st_uid st) (st_gid st) (set_xattrs env p (st_xattrs st) dk)) (\<lambda>_ dk.
       try_bind (if \<not> has_mode (st_mode st) mode_symlink then os_chmod env p (st_mode st) dk else (Inr (), dk)) (\<lambda>_ dk.
         chtimes env p (st_modtime st) dk))"

text \<open>\<open>handleTarTypeBlockCharFifo\<close> and \<open>createSpecialFile\<close>; \<open>mkdev\<close> converts its arguments to 32 bits.\<close>

definition special_kind :: "32 word \<Rightarrow> 32 word" where
  "special_kind m =
     (if has_mode m mode_char_device then mode_device OR mode_char_device
      else if has_mode m mode_named_pipe then mode_named_pipe
      else mode_device)"

definition handle_special :: "writer_env \<Rightarrow> string \<Rightarrow> stat \<Rightarrow> disk \<Rightarrow> nat res \<times> disk" where
  "handle_special env p st dk =
     os_mknod (we_disk env) p (special_kind (st_mode st)) (st_mode st AND 0xFFF)
       (we_mkdev env (ucast (st_devmajor st)) (ucast (st_devminor st))) dk"

definition rename_file :: "disk_env \<Rightarrow> string \<Rightarrow> string \<Rightarrow> disk \<Rightarrow> unit res \<times> disk" where
  "rename_file env src dst dk = wrap_err (''failed to rename '' @ src @ '' to '' @ dst) (os_rename env src dst dk)"

section \<open>Writers\<close>

text \<open>An \<open>io.WriteCloser\<close> over a state: its \<open>Write\<close> and its \<open>Close\<close>.\<close>

type_synonym 'w wr_ops = "(string \<Rightarrow> 'w \<Rightarrow> unit res \<times> 'w) \<times> ('w \<Rightarrow> unit res \<times> 'w)"

text \<open>What a data callback does to its writer.\<close>

fun run_ops :: "'w wr_ops \<Rightarrow> wr_op list \<Rightarrow> 'w \<Rightarrow> unit res \<times> 'w" where
  "run_ops ops [] w = (Inr (), w)"
| "run_ops ops (WrWrite bs # xs) w = try_bind (fst ops bs w) (\<lambda>_ w. run_ops ops xs w)"
| "run_ops ops (WrClose # xs) w = try_bind (snd ops w) (\<lambda>_ w. run_ops ops xs w)"

definition run_callback :: "wr_op list \<times> go_error option \<Rightarrow> 'w wr_ops \<Rightarrow> 'w \<Rightarrow> unit res \<times> 'w" where
  "run_callback prog ops w =
     try_bind (run_ops ops (fst prog) w) (\<lambda>_ w. (case snd prog of None \<Rightarrow> Inr () | Some e \<Rightarrow> Inl e, w))"

text \<open>
  \<open>hashedWriter\<close> around a writer, if there is one: the state of the writer, the hash and the
  digest. Its \<open>Write\<close> is that of \<open>io.MultiWriter\<close>: first the writer, then the hash.
\<close>

definition hashed_write :: "'w wr_ops option \<Rightarrow> string \<Rightarrow> 'w \<times> string \<times> string \<Rightarrow> unit res \<times> 'w \<times> string \<times> string" where
  "hashed_write wo bs whd =
     (case whd of (w, h, d) \<Rightarrow>
        (case wo of
           None \<Rightarrow> (Inl (Panic ''nil io.Writer''), (w, h, d))
         | Some ops \<Rightarrow>
             (case fst ops bs w of
                (Inl e, w) \<Rightarrow> (Inl e, (w, h, d))
              | (Inr _, w) \<Rightarrow> (Inr (), (w, h @ bs, d)))))"

definition hashed_close :: "(string \<Rightarrow> string) \<Rightarrow> 'w wr_ops option \<Rightarrow> 'w \<times> string \<times> string \<Rightarrow> unit res \<times> 'w \<times> string \<times> string" where
  "hashed_close digest wo whd =
     (case whd of (w, h, d) \<Rightarrow>
        (case wo of
           None \<Rightarrow> (Inr (), (w, h, digest h))
         | Some ops \<Rightarrow> (case snd ops w of (r, w) \<Rightarrow> (r, (w, h, digest h)))))"

definition new_hash_writer :: "disk_writer_opt \<Rightarrow> file_info \<Rightarrow> (stat \<times> string) res" where
  "new_hash_writer opt fi =
     (case fi of
        NilInfo \<Rightarrow> Inl (Panic ''nil FileInfo'')
      | OtherInfo m \<Rightarrow> Inl (Errorf ''invalid change without stat information'' [])
      | StatInfo st \<Rightarrow> res_bind (dwo_content_hasher opt st) (\<lambda>h. Inr (st, h)))"

definition data_cb :: "disk_writer_opt \<Rightarrow> string \<Rightarrow> wr_op list \<times> go_error option" where
  "data_cb opt p =
     (case dwo_sync_data_cb opt of
        Some fn \<Rightarrow> fn p
      | None \<Rightarrow> (case dwo_async_data_cb opt of Some fn \<Rightarrow> fn p | None \<Rightarrow> ([], Some (Panic ''nil func''))))"

definition process_change ::
  "writer_env \<Rightarrow> disk_writer_opt \<Rightarrow> change_kind \<Rightarrow> string \<Rightarrow> file_info \<Rightarrow> 'w wr_ops option \<Rightarrow>
   notification list \<times> 'w \<Rightarrow> unit res \<times> notification list \<times> 'w" where
  "process_change env opt kind p fi wo nw =
     (case nw of (notes, w) \<Rightarrow>
        (case dwo_notify_cb opt of
           None \<Rightarrow>
             (case wo of
                None \<Rightarrow> (Inr (), (notes, w))
              | Some ops \<Rightarrow> (case run_callback (data_cb opt p) ops w of (r, w) \<Rightarrow> (r, (notes, w))))
         | Some notify \<Rightarrow>
             (case new_hash_writer opt fi of
                Inl e \<Rightarrow> (Inl e, (notes, w))
              | Inr (st, h) \<Rightarrow>
                  (case (case wo of
                       None \<Rightarrow> (Inr (), snd (hashed_close (we_digest env) wo (w, h, [])))
                     | Some ops \<Rightarrow>
                         run_callback (data_cb opt p) (hashed_write wo, hashed_close (we_digest env) wo) (w, h, [])) of
                     (Inl e, (w, h, d)) \<Rightarrow> (Inl e, (notes, w))
                   | (Inr _, (w, h, d)) \<Rightarrow>
                       (case notify kind p (Some (st, d)) of None \<Rightarrow> Inr () | Some e \<Rightarrow> Inl e,
                        (notes @ [\<lparr>nt_kind = kind, nt_path = p, nt_info = Some (st, d)\<rparr>], w))))))"

text \<open>\<open>lazyFileWriter\<close>.\<close>

record lazy_writer =
  lw_dest :: string
  lw_fd :: "nat option"
  lw_mode :: "32 word option"

definition is_permission :: "go_error \<Rightarrow> bool" where
  "is_permission e \<longleftrightarrow> errno_of e = Some EACCES \<or> errno_of e = Some EPERM"

definition lazy_open :: "disk_env \<Rightarrow> lazy_writer \<times> disk \<Rightarrow> nat res \<times> lazy_writer \<times> disk" where
  "lazy_open env lwd =
     (case lwd of (lw, dk) \<Rightarrow>
        (case os_open_write env (lw_dest lw) dk of
           (Inr fd, dk) \<Rightarrow> (Inr fd, (lw, dk))
         | (Inl e, dk) \<Rightarrow>
             if is_permission e then
               (case os_stat env (lw_dest lw) dk of
                  (Inl er, dk) \<Rightarrow> (Inl e, (lw, dk))
                | (Inr i, dk) \<Rightarrow>
                    (case os_chmod env (lw_dest lw) (in_mode i OR 0x92) dk of
                       (Inl er, dk) \<Rightarrow> (Inl e, (lw\<lparr>lw_mode := Some (in_mode i)\<rparr>, dk))
                     | (Inr _, dk) \<Rightarrow>
                         (case os_open_write env (lw_dest lw) dk of
                            (r, dk) \<Rightarrow> (r, (lw\<lparr>lw_mode := Some (in_mode i)\<rparr>, dk)))))
             else (Inl e, (lw, dk))))"

definition lazy_write :: "disk_env \<Rightarrow> string \<Rightarrow> lazy_writer \<times> disk \<Rightarrow> unit res \<times> lazy_writer \<times> disk" where
  "lazy_write env bs lwd =
     (case (case lw_fd (fst lwd) of
          Some fd \<Rightarrow> (Inr fd, lwd)
        | None \<Rightarrow> wrap_err (''failed to open '' @ lw_dest (fst lwd)) (lazy_open env lwd)) of
        (Inl e, lwd) \<Rightarrow> (Inl e, lwd)
      | (Inr fd, (lw, dk)) \<Rightarrow>
          (case file_write env fd bs dk of (r, dk) \<Rightarrow> (r, (lw\<lparr>lw_fd := Some fd\<rparr>, dk))))"

definition lazy_close :: "disk_env \<Rightarrow> lazy_writer \<times> disk \<Rightarrow> unit res \<times> lazy_writer \<times> disk" where
  "lazy_close env lwd =
     (case lwd of (lw, dk) \<Rightarrow>
        (case (case lw_fd lw of None \<Rightarrow> (Inr (), dk) | Some fd \<Rightarrow> file_close env fd dk) of
           (Inl e, dk) \<Rightarrow> (Inl e, (lw, dk))
         | (Inr _, dk) \<Rightarrow>
             (case lw_mode lw of
                None \<Rightarrow> (Inr (), (lw, dk))
              | Some m \<Rightarrow> (case os_chmod env (lw_dest lw) m dk of (r, dk) \<Rightarrow> (r, (lw, dk))))))"

section \<open>HandleChange\<close>

text \<open>The filter, if there is one, and the copy it may have changed.\<close>

definition apply_filter :: "disk_writer \<Rightarrow> string \<Rightarrow> stat \<Rightarrow> bool \<times> stat" where
  "apply_filter dw p st = (case dwo_filter (dw_opt dw) of None \<Rightarrow> (True, st) | Some f \<Rightarrow> f p st)"

definition handle_delete :: "writer_env \<Rightarrow> string \<Rightarrow> string \<Rightarrow> disk_writer \<Rightarrow> unit res \<times> disk_writer" where
  "handle_delete env p dest_path dw =
     (if \<not> fst (apply_filter dw p empty_stat) then (Inr (), dw)
      else
        try_bind (wrap_err (''failed to remove: '' @ dest_path) (on_disk (os_remove_all (we_disk env) dest_path) dw)) (\<lambda>_ dw.
          (case dwo_notify_cb (dw_opt dw) of
             None \<Rightarrow> (Inr (), dw)
           | Some notify \<Rightarrow>
               (case notify ChangeKindDelete p None of None \<Rightarrow> Inr () | Some e \<Rightarrow> Inl e,
                dw\<lparr>dw_notes := dw_notes dw @ [\<lparr>nt_kind = ChangeKindDelete, nt_path = p, nt_info = None\<rparr>]\<rparr>))))"

text \<open>
  The regular file: it is created and closed, and with a synchronous callback its data is written
  in between. \<open>fd_ops\<close> is the open file as a writer.
\<close>

definition fd_ops :: "disk_env \<Rightarrow> nat \<Rightarrow> disk wr_ops" where
  "fd_ops env fd = (file_write env fd, file_close env fd)"

definition make_regular :: "writer_env \<Rightarrow> string \<Rightarrow> stat \<Rightarrow> string \<Rightarrow> disk_writer \<Rightarrow> unit res \<times> disk_writer" where
  "make_regular env p st new_path dw =
     try_bind (wrap_err (''failed to create '' @ new_path) (on_disk (os_create (we_disk env) new_path (st_mode st)) dw)) (\<lambda>fd dw.
       try_bind
         (if dwo_sync_data_cb (dw_opt dw) \<noteq> None then
            (case process_change env (dw_opt dw) ChangeKindAdd p (StatInfo st) (Some (fd_ops (we_disk env) fd))
                (dw_notes dw, dw_disk dw) of
               (Inl e, (notes, dk)) \<Rightarrow> (Inl e, dw\<lparr>dw_notes := notes, dw_disk := snd (file_close (we_disk env) fd dk)\<rparr>)
             | (Inr _, (notes, dk)) \<Rightarrow> (Inr (), dw\<lparr>dw_notes := notes, dw_disk := dk\<rparr>))
          else (Inr (), dw)) (\<lambda>_ dw.
         wrap_err (''failed to close '' @ new_path) (on_disk (file_close (we_disk env) fd) dw)))"

text \<open>The error of \<open>Mkdir\<close> on which \<open>HandleChange\<close> starts again.\<close>

datatype make_result = MakeAgain | MakeErr go_error | MakeOk bool

definition make_of :: "bool \<Rightarrow> 'a res \<times> disk_writer \<Rightarrow> make_result \<times> disk_writer" where
  "make_of regular m = (case m of (Inl e, dw) \<Rightarrow> (MakeErr e, dw) | (Inr _, dw) \<Rightarrow> (MakeOk regular, dw))"

definition make_node :: "writer_env \<Rightarrow> string \<Rightarrow> string \<Rightarrow> stat \<Rightarrow> stat \<Rightarrow> string \<Rightarrow> disk_writer \<Rightarrow> make_result \<times> disk_writer" where
  "make_node env p dest_path st copy new_path dw =
     (if stat_is_dir st then
        (case on_disk (os_mkdir (we_disk env) new_path (st_mode st)) dw of
           (Inl e, dw) \<Rightarrow> (if errno_of e = Some EEXIST then MakeAgain else MakeErr (Wrap (''failed to create dir '' @ new_path) e), dw)
         | (Inr _, dw) \<Rightarrow> (MakeOk False, dw\<lparr>dw_dir_mod_times := (dw_dir_mod_times dw)(dest_path \<mapsto> st_modtime copy)\<rparr>))
      else if has_mode (st_mode st) mode_device \<or> has_mode (st_mode st) mode_named_pipe then
        make_of False (wrap_err (''failed to create device '' @ new_path) (on_disk (handle_special env new_path copy) dw))
      else if has_mode (st_mode st) mode_symlink then
        make_of False (wrap_err (''failed to symlink '' @ new_path) (on_disk (os_symlink (we_disk env) (st_linkname copy) new_path) dw))
      else if st_linkname copy \<noteq> [] then
        make_of False (wrap_err (''failed to link '' @ new_path @ '' to '' @ st_linkname copy)
          (on_disk (os_link (we_disk env) (join2 (dw_dest dw) (st_linkname copy)) new_path) dw))
      else make_of True (make_regular env p st new_path dw))"

text \<open>Moving the new file to its place; \<open>old\<close> is what was there.\<close>

definition move_into_place :: "disk_env \<Rightarrow> string \<Rightarrow> string \<Rightarrow> stat \<Rightarrow> inode option \<Rightarrow> disk \<Rightarrow> unit res \<times> disk" where
  "move_into_place env new_path dest_path st old dk =
     (case old of
        None \<Rightarrow> (Inr (), dk)
      | Some i \<Rightarrow>
          try_bind
            (if mode_is_dir (in_mode i) \<noteq> stat_is_dir st then
               wrap_err (''failed to remove '' @ dest_path) (os_remove_all env dest_path dk)
             else (Inr (), dk))
            (\<lambda>_ dk. wrap_err (''failed to rename '' @ new_path @ '' to '' @ dest_path) (rename_file env new_path dest_path dk)))"

text \<open>Then the data of a regular file is requested, and any other file is reported.\<close>

definition report_change ::
  "writer_env \<Rightarrow> change_kind \<Rightarrow> string \<Rightarrow> string \<Rightarrow> stat \<Rightarrow> stat \<Rightarrow> bool \<Rightarrow> disk_writer \<Rightarrow> unit res \<times> disk_writer" where
  "report_change env kind p dest_path st copy regular dw =
     (if regular then
        (Inr (), if dwo_async_data_cb (dw_opt dw) \<noteq> None then
           dw\<lparr>dw_tasks := dw_tasks dw @ [\<lparr>dt_path = p, dt_dest = dest_path, dt_fi = st, dt_stat = copy\<rparr>]\<rparr> else dw)
      else
        (case process_change env (dw_opt dw) kind p (StatInfo st) None (dw_notes dw, dw_disk dw) of
           (r, (notes, dk)) \<Rightarrow> (r, dw\<lparr>dw_notes := notes, dw_disk := dk\<rparr>)))"

definition finish_change ::
  "writer_env \<Rightarrow> change_kind \<Rightarrow> string \<Rightarrow> string \<Rightarrow> stat \<Rightarrow> stat \<Rightarrow> string \<Rightarrow> inode option \<Rightarrow> bool \<Rightarrow> disk_writer \<Rightarrow> unit res \<times> disk_writer" where
  "finish_change env kind p dest_path st copy new_path old regular dw =
     try_bind (wrap_err (''error setting metadata for '' @ new_path) (on_disk (rewrite_metadata (we_disk env) new_path copy) dw)) (\<lambda>_ dw.
       try_bind (on_disk (move_into_place (we_disk env) new_path dest_path st old) dw) (\<lambda>_ dw.
         report_change env kind p dest_path st copy regular dw))"

text \<open>
  Making the new file and putting it in its place; no result means starting again. The file is made
  under a temporary name when there is an old one.
\<close>

definition make_change ::
  "writer_env \<Rightarrow> change_kind \<Rightarrow> string \<Rightarrow> string \<Rightarrow> stat \<Rightarrow> stat \<Rightarrow> inode option \<Rightarrow> string \<Rightarrow> disk_writer \<Rightarrow> (unit res) option \<times> disk_writer" where
  "make_change env kind p dest_path st copy old new_path dw =
     (case make_node env p dest_path st copy new_path dw of
        (MakeAgain, dw) \<Rightarrow> (None, dw)
      | (MakeErr e, dw) \<Rightarrow> (Some (Inl e), dw)
      | (MakeOk regular, dw) \<Rightarrow>
          (case finish_change env kind p dest_path st copy new_path old regular dw of (r, dw) \<Rightarrow> (Some r, dw)))"

definition place_change ::
  "writer_env \<Rightarrow> change_kind \<Rightarrow> string \<Rightarrow> string \<Rightarrow> stat \<Rightarrow> stat \<Rightarrow> inode option \<Rightarrow> disk_writer \<Rightarrow> (unit res) option \<times> disk_writer" where
  "place_change env kind p dest_path st copy old dw =
     (if old = None then make_change env kind p dest_path st copy old dest_path dw
      else
        (case next_suffix (we_seed env) (dw_rand dw) of
           (sfx, rand) \<Rightarrow>
             make_change env kind p dest_path st copy old (join2 (dir dest_path) (''.tmp.'' @ sfx)) (dw\<lparr>dw_rand := rand\<rparr>)))"

text \<open>The look at the destination, and the rest of the change.\<close>

definition look_at :: "disk_env \<Rightarrow> change_kind \<Rightarrow> string \<Rightarrow> disk_writer \<Rightarrow> inode option res \<times> disk_writer" where
  "look_at env kind dest_path dw =
     (case on_disk (os_lstat env dest_path) dw of
        (Inr i, dw) \<Rightarrow> (Inr (Some i), dw)
      | (Inl e, dw) \<Rightarrow>
          (if errno_of e = Some ENOENT then (if kind \<noteq> ChangeKindAdd then Inl (Wrap ''modify/rm'' e) else Inr None)
           else Inl e, dw))"

definition apply_stat ::
  "writer_env \<Rightarrow> change_kind \<Rightarrow> string \<Rightarrow> string \<Rightarrow> stat \<Rightarrow> stat \<Rightarrow> disk_writer \<Rightarrow> (unit res) option \<times> disk_writer" where
  "apply_stat env kind p dest_path st copy dw =
     (case look_at (we_disk env) kind dest_path dw of
        (Inl e, dw) \<Rightarrow> (Some (Inl e), dw)
      | (Inr old, dw) \<Rightarrow>
          if (case old of None \<Rightarrow> False | Some i \<Rightarrow> stat_is_dir st \<and> mode_is_dir (in_mode i)) then
            (case wrap_err (''error setting dir metadata for '' @ dest_path)
                (on_disk (rewrite_metadata (we_disk env) dest_path copy) dw) of (r, dw) \<Rightarrow> (Some r, dw))
          else place_change env kind p dest_path st copy old dw)"

definition change_body :: "writer_env \<Rightarrow> change_kind \<Rightarrow> string \<Rightarrow> file_info \<Rightarrow> disk_writer \<Rightarrow> (unit res) option \<times> disk_writer" where
  "change_body env kind p fi dw =
     (let dest_path = join2 (dw_dest dw) p in
      if kind = ChangeKindDelete then (case handle_delete env p dest_path dw of (r, dw) \<Rightarrow> (Some r, dw))
      else
        (case fi of
           NilInfo \<Rightarrow> (Some (Inl (Panic ''nil FileInfo'')), dw)
         | OtherInfo m \<Rightarrow> (Some (Inl (PathError ''change without stat info'' p EBADMSG)), dw)
         | StatInfo st \<Rightarrow>
             (case apply_filter dw p (the (clone_vt (Some st))) of
                (ok, copy) \<Rightarrow> if \<not> ok then (Some (Inr ()), dw) else apply_stat env kind p dest_path st copy dw)))"

definition cancel_on :: "unit res \<times> disk_writer \<Rightarrow> unit res \<times> disk_writer" where
  "cancel_on m = (case m of (Inl e, dw) \<Rightarrow> (Inl e, dw\<lparr>dw_done := True\<rparr>) | (Inr x, dw) \<Rightarrow> (Inr x, dw))"

text \<open>\<open>HandleChange\<close>; the fuel bounds how often it starts again after a race to create a directory.\<close>

fun handle_change ::
  "nat \<Rightarrow> writer_env \<Rightarrow> change_kind \<Rightarrow> string \<Rightarrow> file_info \<Rightarrow> go_error option \<Rightarrow> disk_writer \<Rightarrow> (unit res \<times> disk_writer) option" where
  "handle_change 0 env kind p fi err dw = None"
| "handle_change (Suc n) env kind p fi err dw =
     (case err of
        Some e \<Rightarrow> Some (Inl e, dw)
      | None \<Rightarrow>
          if dw_done dw then Some (Inl CtxErr, dw)
          else (case change_body env kind p fi dw of
              (Some r, dw) \<Rightarrow> Some (cancel_on (r, dw))
            | (None, dw) \<Rightarrow> map_option cancel_on (handle_change n env kind p fi None dw)))"

section \<open>Data and Wait\<close>

text \<open>The goroutine of a requested file.\<close>

definition run_task :: "writer_env \<Rightarrow> data_task \<Rightarrow> disk_writer \<Rightarrow> unit res \<times> disk_writer" where
  "run_task env t dw =
     (case process_change env (dw_opt dw) ChangeKindAdd (dt_path t) (StatInfo (dt_fi t))
         (Some (lazy_write (we_disk env), lazy_close (we_disk env)))
         (dw_notes dw, (\<lparr>lw_dest = dt_dest t, lw_fd = None, lw_mode = None\<rparr>, dw_disk dw)) of
        (Inl e, (notes, (lw, dk))) \<Rightarrow> (Inl e, dw\<lparr>dw_notes := notes, dw_disk := dk\<rparr>)
      | (Inr _, (notes, (lw, dk))) \<Rightarrow>
          on_disk (chtimes (we_disk env) (dt_dest t) (st_modtime (dt_stat t))) (dw\<lparr>dw_notes := notes, dw_disk := dk\<rparr>))"

text \<open>\<open>Wait\<close>, once the goroutines have ended with their first error.\<close>

definition wait_callback :: "writer_env \<Rightarrow> disk_writer os_walk_fn" where
  "wait_callback env path d prev_err dw =
     (case prev_err of
        Some e \<Rightarrow> (Some e, dw)
      | None \<Rightarrow>
          (case d of
             None \<Rightarrow> (Some (Panic ''nil DirEntry''), dw)
           | Some d \<Rightarrow>
               if \<not> od_is_dir d then (None, dw)
               else (case dw_dir_mod_times dw path of
                   None \<Rightarrow> (None, dw)
                 | Some t \<Rightarrow>
                     (case on_disk (chtimes (we_disk env) path t) dw of
                        (Inl e, dw) \<Rightarrow> (Some e, dw)
                      | (Inr _, dw) \<Rightarrow> (None, dw)))))"

definition disk_wait :: "writer_env \<Rightarrow> (string \<Rightarrow> os_tree res) \<Rightarrow> go_error option \<Rightarrow> disk_writer \<Rightarrow> go_error option \<times> disk_writer" where
  "disk_wait env lookup eg_err dw =
     (case eg_err of
        Some e \<Rightarrow> (Some e, dw)
      | None \<Rightarrow> walk_dir lookup (dw_dest dw) (wait_callback env) dw)"

end
