(* ===== verification/Disk_Apply.thy ===== *)
theory Disk_Apply
  imports Disk_Writer
begin

text \<open>
  What one change does to a disk when it succeeds. The steps of \<open>HandleChange\<close> are followed from the calls
  of the operating system upwards: the metadata (\<open>rewrite_metadata_result\<close>), the new file
  (\<open>make_node_result\<close>), moving it into place (\<open>move_result\<close>), and the whole change, for an entry that is put
  (\<open>handle_change_put\<close>) and one that is removed (\<open>handle_change_remove\<close>). The disk is described by its
  entries and its tree, so the lemmas say which inode is at every path afterwards, and which paths share it.
\<close>

section \<open>Calls that succeed\<close>

lemma try_bind_Inr: "try_bind m f = (Inr y, t) \<longleftrightarrow> (\<exists>x s. m = (Inr x, s) \<and> f x s = (Inr y, t))"
  by (auto simp: try_bind_def split: prod.splits sum.splits)

lemma wrap_err_Inr: "wrap_err msg m = (Inr x, s) \<longleftrightarrow> m = (Inr x, s)"
  by (auto simp: wrap_err_def split: prod.splits sum.splits)

lemma on_disk_eq: "on_disk f dw = (r, dw') \<longleftrightarrow> (\<exists>dk. f (dw_disk dw) = (r, dk) \<and> dw' = dw\<lparr>dw_disk := dk\<rparr>)"
  by (auto simp: on_disk_def split: prod.splits)

lemma os_call_Inr:
  "os_call env op p loc act dk = (Inr x, dk') \<longleftrightarrow> de_fail env op p dk = None \<and> (\<exists>v. loc dk = Inr v \<and> act v dk = Inr (x, dk'))"
  by (auto simp: os_call_def split: option.splits sum.splits prod.splits)

lemma os_call_Inl: "os_call env op p loc act dk = (Inl e, dk') \<Longrightarrow> dk' = dk"
  by (auto simp: os_call_def split: option.splits sum.splits prod.splits)

lemmas succeeds = try_bind_Inr wrap_err_Inr on_disk_eq os_call_Inr

lemma k_update_Inr: "k_update v f dk = Inr (u, dk') \<longleftrightarrow> (\<exists>i. dk_tree dk v = Some i \<and> dk' = set_inode i f dk)"
  by (auto simp: k_update_def split: option.splits)

section \<open>Paths\<close>

definition abs_path :: "vpath \<Rightarrow> string" where
  "abs_path v = slash # join_slash v"

lemma split_abs_path:
  "list_all good_comp v \<Longrightarrow> split_slash (abs_path v) = [] # (if v = [] then [[]] else v)"
  using split_slash_append_slash[of "[]" "join_slash v"] split_join_good[of v] by (simp add: abs_path_def good_comps_def)

lemma join2_abs_path:
  assumes "list_all good_comp gs" "good_comps cs"
  shows "join2 (abs_path gs) (join_slash cs) = abs_path (gs @ cs)"
proof -
  have cs: "cs \<noteq> []" "list_all good_comp cs" using assms(2) by (simp_all add: good_comps_def)
  have "split_slash (abs_path gs @ slash # join_slash cs) = [] # (if gs = [] then [[]] else gs) @ cs"
    using split_abs_path[OF assms(1)] split_slash_append[of "abs_path gs" "join_slash cs"] split_join_good[OF assms(2)] by simp
  then have "clean (abs_path gs @ slash # join_slash cs) = abs_path (gs @ cs)"
    using clean_comps_good[of "gs @ cs" True "[]"] assms cs by (auto simp: clean_def is_abs_def abs_path_def)
  then show ?thesis using join_slash_hd(1)[OF assms(2)] by (simp add: join2_def abs_path_def)
qed

lemma dir_abs_path:
  assumes "list_all good_comp (d @ [c])"
  shows "dir (abs_path (d @ [c])) = abs_path d"
proof -
  have c: "slash \<notin> set c" "c \<noteq> []" using assms by (auto simp: good_comp_def)
  have last: "split_dir (p @ slash # c) = p @ [slash]" for p
    using c by (simp add: split_dir_def dropWhile_not_slash)
  have sp: "split_dir (abs_path (d @ [c])) = abs_path d @ (if d = [] then [] else [slash])"
  proof (cases "d = []")
    case True
    then show ?thesis using last[of "[]"] by (simp add: abs_path_def)
  next
    case False
    then have "abs_path (d @ [c]) = abs_path d @ slash # c" by (simp add: abs_path_def join_slash_append)
    then show ?thesis using last[of "abs_path d"] False by simp
  qed
  have "clean_comps True acc (d @ [[]]) = rev acc @ d" for acc
    using assms by (induction d arbitrary: acc) (auto simp: good_comp_def)
  moreover have "split_slash (abs_path d @ (if d = [] then [] else [slash])) = [] # (if d = [] then [[]] else d @ [[]])"
    using split_abs_path[of d] assms split_slash_append[of "abs_path d" "[]"] by auto
  ultimately have "clean (split_dir (abs_path (d @ [c]))) = abs_path d"
    unfolding sp by (auto simp: clean_def is_abs_def abs_path_def)
  then show ?thesis by (simp add: dir_def)
qed

section \<open>Temporary names\<close>

lemma decimal_digits: "ch \<in> set (decimal n) \<Longrightarrow> \<exists>k < (10 :: nat). ch = char_of (48 + k)"
proof (induction n rule: decimal.induct)
  case (1 n)
  show ?case
  proof (cases "n < 10")
    case True
    then show ?thesis using 1(2) by (auto simp: decimal.simps[of n])
  next
    case False
    then have "ch = char_of (48 + n mod 10) \<or> ch \<in> set (decimal (n div 10))" using 1(2) by (auto simp: decimal.simps[of n])
    then show ?thesis using 1(1)[OF False] by (metis mod_less_divisor zero_less_numeral)
  qed
qed

lemma digit_not_slash: "k < (10 :: nat) \<Longrightarrow> char_of (48 + k) \<noteq> slash"
proof
  assume k: "k < 10" and eq: "char_of (48 + k) = slash"
  then have "(of_char (char_of (48 + k) :: char) :: nat) = of_char slash" by simp
  then show False using k by simp
qed

definition temp_name :: "string \<Rightarrow> bool" where
  "temp_name x \<longleftrightarrow> prefix ''.tmp.'' x"

lemma next_suffix_temp: "good_comp (''.tmp.'' @ fst (next_suffix seed r))" "temp_name (''.tmp.'' @ fst (next_suffix seed r))"
proof -
  have "slash \<notin> set (tl (decimal n))" for n
  proof
    assume "slash \<in> set (tl (decimal n))"
    then have "slash \<in> set (decimal n)" by (cases "decimal n") auto
    then obtain k where "k < (10 :: nat)" "slash = char_of (48 + k)" using decimal_digits by blast
    then show False using digit_not_slash[of k] by simp
  qed
  then have "slash \<notin> set (fst (next_suffix seed r))" by (simp add: next_suffix_def Let_def)
  then show "good_comp (''.tmp.'' @ fst (next_suffix seed r))" by (auto simp: good_comp_def)
  show "temp_name (''.tmp.'' @ fst (next_suffix seed r))" by (simp add: temp_name_def)
qed

section \<open>Metadata\<close>

text \<open>What \<open>rewriteMetadata\<close> leaves of an inode.\<close>

definition meta_of :: "stat \<Rightarrow> inode \<Rightarrow> inode" where
  "meta_of st i =
     i\<lparr>in_xattrs := in_xattrs i ++ map_of (rev (st_xattrs st)),
       in_uid := owner_or (st_uid st) (in_uid i), in_gid := owner_or (st_gid st) (in_gid i),
       in_mode := (if has_mode (st_mode st) mode_symlink then in_mode i
         else (in_mode i AND NOT chmod_bits) OR (st_mode st AND chmod_bits)),
       in_mtime := st_modtime st\<rparr>"

lemma chmod_bits_eq: "chmod_bits = 0xD001FF"
  by (simp add: chmod_bits_def mode_bits)

lemma chmod_keeps_bit:
  assumes "b AND chmod_bits = 0"
  shows "has_mode ((m AND NOT chmod_bits) OR (x AND chmod_bits)) b = has_mode m b"
proof -
  have "((m AND NOT chmod_bits) OR (x AND chmod_bits)) AND b = m AND b"
  proof (rule bit_eqI)
    fix n assume n: "possible_bit TYPE(32 word) n"
    have "\<not> (bit b n \<and> bit chmod_bits n)" using assms by (metis bit_0_eq bit_and_iff bot_apply bot_bool_def)
    then show "bit (((m AND NOT chmod_bits) OR (x AND chmod_bits)) AND b) n = bit (m AND b) n"
      using n by (auto simp: bit_simps)
  qed
  then show ?thesis by (simp add: has_mode_def)
qed

lemma chmod_keeps_type [simp]:
  "mode_is_dir ((m AND NOT chmod_bits) OR (x AND chmod_bits)) = mode_is_dir m"
  "has_mode ((m AND NOT chmod_bits) OR (x AND chmod_bits)) mode_symlink = has_mode m mode_symlink"
proof -
  have "mode_dir AND chmod_bits = 0" "mode_symlink AND chmod_bits = 0" by (simp_all add: chmod_bits_eq mode_bits)
  then show "mode_is_dir ((m AND NOT chmod_bits) OR (x AND chmod_bits)) = mode_is_dir m"
    "has_mode ((m AND NOT chmod_bits) OR (x AND chmod_bits)) mode_symlink = has_mode m mode_symlink"
    by (simp_all only: mode_is_dir_def chmod_keeps_bit)
qed

lemma meta_of_type [simp]: "mode_is_dir (in_mode (meta_of st i)) = mode_is_dir (in_mode i)" "is_symlink_node (meta_of st i) = is_symlink_node i"
  by (simp_all add: meta_of_def is_symlink_node_def)

lemma set_inode_twice [simp]: "set_inode j g (set_inode j f dk) = set_inode j (\<lambda>i. g (f i)) dk"
  by (simp add: set_inode_def)

text \<open>The calls that update the inode of an entry.\<close>

lemma os_lchown_result:
  "os_lchown env p uid gid dk = (Inr u, dk') \<Longrightarrow> locate env dk p = Inr v \<Longrightarrow> dk_tree dk v = Some j \<Longrightarrow>
   dk' = set_inode j (\<lambda>i. i\<lparr>in_uid := owner_or uid (in_uid i), in_gid := owner_or gid (in_gid i)\<rparr>) dk"
  by (simp add: os_lchown_def succeeds k_update_Inr)

lemma os_chmod_result:
  "os_chmod env p m dk = (Inr u, dk') \<Longrightarrow> locate_follow env dk p = Inr v \<Longrightarrow> dk_tree dk v = Some j \<Longrightarrow>
   dk' = set_inode j (\<lambda>i. i\<lparr>in_mode := (in_mode i AND NOT chmod_bits) OR (m AND chmod_bits)\<rparr>) dk"
  by (simp add: os_chmod_def succeeds k_update_Inr)

lemma os_utimes_result:
  "os_utimes env p t dk = (Inr u, dk') \<Longrightarrow> locate env dk p = Inr v \<Longrightarrow> dk_tree dk v = Some j \<Longrightarrow>
   dk' = set_inode j (\<lambda>i. i\<lparr>in_mtime := t\<rparr>) dk"
  by (simp add: os_utimes_def succeeds k_update_Inr)

text \<open>An entry at its own path, and the calls that name it; \<open>same_file_as\<close> are the disks it is found on.\<close>

definition entry_at :: "disk \<Rightarrow> vpath \<Rightarrow> nat \<Rightarrow> bool" where
  "entry_at dk v j \<longleftrightarrow> wf_disk dk \<and> v \<noteq> [] \<and> dk_tree dk v = Some j"

lemma entry_at_locate:
  assumes "entry_at dk v j"
  shows "locate env dk (abs_path v) = Inr v" "\<not> is_symlink_node (dk_inodes dk j) \<Longrightarrow> locate_follow env dk (abs_path v) = Inr v"
proof -
  have wf: "wf_disk dk" "v \<noteq> []" "dk_tree dk v = Some j" using assms by (simp_all add: entry_at_def)
  have d: "is_dir_at dk (butlast v)" "good_comp (last v)" using wf_diskD(3,4)[OF wf(1,3,2)] .
  show "locate env dk (abs_path v) = Inr v"
    using locate_real(1)[OF wf(1) d] wf(2) by (simp add: abs_path_def)
  show "locate_follow env dk (abs_path v) = Inr v" if "\<not> is_symlink_node (dk_inodes dk j)"
    using follow_real[OF wf(1) d] wf(2,3) that by (simp add: abs_path_def node_def)
qed

lemma entry_at_set:
  assumes "entry_at dk v j" "\<And>n. mode_is_dir (in_mode (f n)) = mode_is_dir (in_mode n)"
  shows "entry_at (set_inode i f dk) v j"
  using assms same_shape_wf[OF set_inode_result(1)] by (simp add: entry_at_def)

lemma set_xattrs_result:
  assumes "entry_at dk v j" "\<not> is_symlink_node (dk_inodes dk j)" "\<And>p d. de_fail env ''setxattr'' p d = None"
  shows "set_xattrs env (abs_path v) xs dk = set_inode j (\<lambda>i. i\<lparr>in_xattrs := in_xattrs i ++ map_of (rev xs)\<rparr>) dk"
  using assms(1,2)
proof (induction xs arbitrary: dk)
  case Nil
  then show ?case by (simp add: set_inode_def)
next
  case (Cons x xs)
  obtain k val where x: "x = (k, val)" by (cases x)
  let ?f = "\<lambda>i. i\<lparr>in_xattrs := (in_xattrs i)(k \<mapsto> val)\<rparr>"
  have "os_setxattr env (abs_path v) k val dk = (Inr (), set_inode j ?f dk)"
    using entry_at_locate(2)[OF Cons.prems, of env] assms(3) Cons.prems(1)
    by (simp add: os_setxattr_def os_call_def k_update_def entry_at_def)
  moreover have "entry_at (set_inode j ?f dk) v j" by (rule entry_at_set[OF Cons.prems(1)]) simp
  moreover have "\<not> is_symlink_node (dk_inodes (set_inode j ?f dk) j)" using Cons.prems(2) by (simp add: is_symlink_node_def)
  ultimately show ?case using Cons.IH[of "set_inode j ?f dk"] by (simp add: x map_add_assoc)
qed

lemma rewrite_metadata_result:
  assumes "rewrite_metadata env (abs_path v) st dk = (Inr u, dk')" "entry_at dk v j"
    and "is_symlink_node (dk_inodes dk j) = has_mode (st_mode st) mode_symlink" "is_symlink_node (dk_inodes dk j) \<Longrightarrow> st_xattrs st = []"
    and "\<And>p d. de_fail env ''setxattr'' p d = None"
  shows "dk' = set_inode j (meta_of st) dk"
proof -
  let ?x = "\<lambda>i. i\<lparr>in_xattrs := in_xattrs i ++ map_of (rev (st_xattrs st))\<rparr>"
  have x: "set_xattrs env (abs_path v) (st_xattrs st) dk = set_inode j ?x dk"
    using set_xattrs_result[OF assms(2) _ assms(5)] assms(4) by (cases "is_symlink_node (dk_inodes dk j)") (auto simp: set_inode_def)
  let ?o = "\<lambda>i. (?x i)\<lparr>in_uid := owner_or (st_uid st) (in_uid i), in_gid := owner_or (st_gid st) (in_gid i)\<rparr>"
  let ?c = "\<lambda>i. (?o i)\<lparr>in_mode := (in_mode i AND NOT chmod_bits) OR (st_mode st AND chmod_bits)\<rparr>"
  have e1: "entry_at (set_inode j ?x dk) v j" by (rule entry_at_set[OF assms(2)]) simp
  have e2: "entry_at (set_inode j ?o dk) v j" by (rule entry_at_set[OF assms(2)]) simp
  obtain dk1 dk2 u1 u2 where c: "os_lchown env (abs_path v) (st_uid st) (st_gid st) (set_inode j ?x dk) = (Inr u1, dk1)"
    "(if \<not> has_mode (st_mode st) mode_symlink then os_chmod env (abs_path v) (st_mode st) dk1 else (Inr (), dk1)) = (Inr u2, dk2)"
    "os_utimes env (abs_path v) (st_modtime st) dk2 = (Inr u, dk')"
    using assms(1) x by (auto simp: rewrite_metadata_def chtimes_def succeeds)
  have d1: "dk1 = set_inode j ?o dk"
    using os_lchown_result[OF c(1) entry_at_locate(1)[OF e1], of j] assms(2) by (simp add: entry_at_def)
  show ?thesis
  proof (cases "has_mode (st_mode st) mode_symlink")
    case True
    then have "dk2 = set_inode j ?o dk" using c(2) d1 by simp
    then have "dk' = set_inode j (\<lambda>i. (?o i)\<lparr>in_mtime := st_modtime st\<rparr>) dk"
      using os_utimes_result[OF c(3) _, of v j] entry_at_locate(1)[OF e2] assms(2) by (simp add: entry_at_def)
    then show ?thesis using True by (simp add: set_inode_def meta_of_def)
  next
    case False
    then have "\<not> is_symlink_node (dk_inodes (set_inode j ?o dk) j)" using assms(3) by (simp add: is_symlink_node_def)
    then have d2: "dk2 = set_inode j ?c dk"
      using os_chmod_result[OF _ entry_at_locate(2)[OF e2], of env "st_mode st"] c(2) False d1 assms(2) by (simp add: entry_at_def)
    have e3: "entry_at (set_inode j ?c dk) v j" by (rule entry_at_set[OF assms(2)]) simp
    have "dk' = set_inode j (\<lambda>i. (?c i)\<lparr>in_mtime := st_modtime st\<rparr>) dk"
      using os_utimes_result[OF c(3) _, of v j] entry_at_locate(1)[OF e3] assms(2) d2 by (simp add: entry_at_def)
    then show ?thesis using False by (simp add: set_inode_def meta_of_def)
  qed
qed

section \<open>The new file\<close>

text \<open>The inode a change leads to when nothing but its own path is involved.\<close>

definition is_special :: "stat \<Rightarrow> bool" where
  "is_special st \<longleftrightarrow> has_mode (st_mode st) mode_device \<or> has_mode (st_mode st) mode_named_pipe"

definition blank_node :: "writer_env \<Rightarrow> stat \<Rightarrow> stat \<Rightarrow> inode" where
  "blank_node env st copy =
     (if stat_is_dir st then fresh_inode (we_disk env) mode_dir
      else if is_special st then
        (fresh_inode (we_disk env) (special_kind (st_mode copy)))\<lparr>in_rdev := we_mkdev env (ucast (st_devmajor copy)) (ucast (st_devminor copy))\<rparr>
      else if has_mode (st_mode st) mode_symlink then
        (fresh_inode (we_disk env) (mode_symlink OR mode_perm))\<lparr>in_target := st_linkname copy\<rparr>
      else fresh_inode (we_disk env) 0)"

definition makes_link :: "stat \<Rightarrow> stat \<Rightarrow> bool" where
  "makes_link st copy \<longleftrightarrow>
     \<not> stat_is_dir st \<and> \<not> is_special st \<and> \<not> has_mode (st_mode st) mode_symlink \<and> st_linkname copy \<noteq> []"

text \<open>The filter keeps the type of the file.\<close>

definition same_type :: "stat \<Rightarrow> stat \<Rightarrow> bool" where
  "same_type st copy \<longleftrightarrow> st_mode copy AND mode_type = st_mode st AND mode_type"

lemma created_mode: "(kind OR (m AND mode_perm AND u)) AND NOT chmod_bits = kind AND NOT chmod_bits"
  by (rule bit_eqI) (auto simp: bit_simps chmod_bits_def)

lemma same_type_bit:
  assumes "same_type st copy" "b AND mode_type = b"
  shows "has_mode (st_mode copy) b = has_mode (st_mode st) b"
proof -
  have b: "mode_type AND b = b" using assms(2) by (simp add: and.commute)
  have "st_mode copy AND b = (st_mode copy AND mode_type) AND b" by (simp add: and.assoc b)
  also have "\<dots> = (st_mode st AND mode_type) AND b" using assms(1) by (simp add: same_type_def)
  also have "\<dots> = st_mode st AND b" by (simp add: and.assoc b)
  finally show ?thesis by (simp add: has_mode_def)
qed

lemma same_type_bits:
  assumes "same_type st copy"
  shows "mode_is_dir (st_mode copy) = mode_is_dir (st_mode st)" "has_mode (st_mode copy) mode_symlink = has_mode (st_mode st) mode_symlink"
    "has_mode (st_mode copy) mode_device = has_mode (st_mode st) mode_device"
    "has_mode (st_mode copy) mode_named_pipe = has_mode (st_mode st) mode_named_pipe"
    "has_mode (st_mode copy) mode_char_device = has_mode (st_mode st) mode_char_device"
  unfolding mode_is_dir_def by (rule same_type_bit[OF assms], simp add: mode_type_eq mode_bits)+

text \<open>A stat with one type at most, as \<open>io/fs\<close> has them.\<close>

definition one_type :: "stat \<Rightarrow> bool" where
  "one_type st \<longleftrightarrow> (has_mode (st_mode st) mode_symlink \<longrightarrow> \<not> stat_is_dir st \<and> \<not> is_special st)"

lemma type_bits:
  "mode_is_dir mode_dir" "\<not> mode_is_dir 0" "\<not> has_mode 0 mode_symlink" "\<not> mode_is_dir (special_kind m)"
  "\<not> has_mode (special_kind m) mode_symlink" "\<not> mode_is_dir (mode_symlink OR mode_perm)" "has_mode (mode_symlink OR mode_perm) mode_symlink"
  by (simp_all add: mode_is_dir_def has_mode_def special_kind_def mode_bits)

lemma created_type:
  "mode_is_dir (kind OR (m AND mode_perm AND u)) = mode_is_dir kind"
  "has_mode (kind OR (m AND mode_perm AND u)) mode_symlink = has_mode kind mode_symlink"
proof -
  have "(kind OR (m AND mode_perm AND u)) AND b = kind AND b" if "b AND chmod_bits = 0" for b
  proof -
    have b: "b AND NOT chmod_bits = b"
    proof (rule bit_eqI)
      fix n assume n: "possible_bit TYPE(32 word) n"
      have "\<not> (bit b n \<and> bit chmod_bits n)" using that by (metis bit_0_eq bit_and_iff bot_apply bot_bool_def)
      then show "bit (b AND NOT chmod_bits) n = bit b n" using n by (auto simp: bit_simps)
    qed
    have b': "NOT chmod_bits AND b = b" using b by (simp add: and.commute)
    have "(kind OR (m AND mode_perm AND u)) AND b = ((kind OR (m AND mode_perm AND u)) AND NOT chmod_bits) AND b"
      by (simp only: and.assoc b')
    also have "\<dots> = (kind AND NOT chmod_bits) AND b" by (simp only: created_mode)
    also have "\<dots> = kind AND b" by (simp only: and.assoc b')
    finally show ?thesis .
  qed
  moreover have "mode_dir AND chmod_bits = 0" "mode_symlink AND chmod_bits = 0" by (simp_all add: chmod_bits_eq mode_bits)
  ultimately show "mode_is_dir (kind OR (m AND mode_perm AND u)) = mode_is_dir kind"
    "has_mode (kind OR (m AND mode_perm AND u)) mode_symlink = has_mode kind mode_symlink"
    by (simp_all only: mode_is_dir_def has_mode_def)
qed

text \<open>A new entry of the disk, where there was none: for the inode with a given number, or for a fresh one.\<close>

definition entry_added :: "disk \<Rightarrow> vpath \<Rightarrow> nat \<Rightarrow> inode \<Rightarrow> disk \<Rightarrow> bool" where
  "entry_added dk v j i dk' \<longleftrightarrow>
     wf_disk dk' \<and> entries dk' = (entries dk)(v \<mapsto> seen i) \<and> dk_tree dk' = (dk_tree dk)(v \<mapsto> j) \<and>
     dk_inodes dk' j = i \<and> dk_next dk \<le> dk_next dk'"

abbreviation new_entry :: "disk \<Rightarrow> vpath \<Rightarrow> inode \<Rightarrow> disk \<Rightarrow> bool" where
  "new_entry dk v i dk' \<equiv> entry_added dk v (dk_next dk) i dk'"

definition free_place :: "disk \<Rightarrow> vpath \<Rightarrow> bool" where
  "free_place dk v \<longleftrightarrow> wf_disk dk \<and> v \<noteq> [] \<and> is_dir_at dk (butlast v) \<and> good_comp (last v) \<and> dk_tree dk v = None"

lemma free_place_locate:
  assumes "free_place dk v"
  shows "locate env dk (abs_path v) = Inr v" "locate_follow env dk (abs_path v) = Inr v"
proof -
  have v: "v = butlast v @ [last v]" and wf: "wf_disk dk" and d: "is_dir_at dk (butlast v)" "good_comp (last v)" "dk_tree dk v = None"
    using assms by (simp_all add: free_place_def)
  show "locate env dk (abs_path v) = Inr v"
    using locate_real(1)[OF wf d(1,2)] v by (simp add: abs_path_def)
  show "locate_follow env dk (abs_path v) = Inr v"
    using follow_real[OF wf d(1,2)] v d(3) by (simp add: abs_path_def node_def)
qed

lemma new_entry_create:
  assumes "k_create v i dk = Inr (n, dk')" "free_place dk v"
  shows "new_entry dk v i dk'"
  using k_create_result[OF assms(1)] assms(2) by (auto simp: free_place_def entry_added_def)

lemma new_entry_open:
  assumes "k_open_create v i dk = Inr (fd, dk')" "free_place dk v"
  shows "new_entry dk v i dk'"
proof -
  obtain n dk1 where 1: "k_create v i dk = Inr (n, dk1)" "new_fd n dk1 = (fd, dk')"
    using assms by (auto simp: k_open_create_def free_place_def split: sum.splits prod.splits)
  have s: "dk_tree dk' = dk_tree dk1" "dk_inodes dk' = dk_inodes dk1" "dk_next dk' = dk_next dk1" using 1(2) by (auto simp: new_fd_def)
  then show ?thesis
    using new_entry_create[OF 1(1) assms(2)] same_entries[OF s] by (simp add: entry_added_def)
qed

lemma new_entry_close:
  assumes "new_entry dk v i dk'" "file_close env fd dk' = (r, dk'')"
  shows "new_entry dk v i dk''"
proof -
  have s: "dk_tree dk'' = dk_tree dk'" "dk_inodes dk'' = dk_inodes dk'" "dk_next dk'' = dk_next dk'"
    using assms(2) by (auto simp: file_close_def split: option.splits)
  then show ?thesis using assms(1) same_entries[OF s] by (simp add: entry_added_def)
qed

lemma entry_added_link:
  assumes "k_link old v dk = Inr (u, dk')" "free_place dk v" "dk_tree dk old = Some j"
  shows "entry_added dk v j (dk_inodes dk j) dk'" "\<not> mode_is_dir (in_mode (dk_inodes dk j))"
proof -
  have f: "wf_disk dk" "is_dir_at dk (butlast v)" "v \<noteq> []" "good_comp (last v)" using assms(2) by (simp_all add: free_place_def)
  note r = k_link_result[OF assms(1) f]
  have nd: "\<not> mode_is_dir (in_mode (dk_inodes dk j))" using r(6) assms(3) by (simp add: is_dir_at_iff)
  then show "\<not> mode_is_dir (in_mode (dk_inodes dk j))" .
  have dk': "dk' = touch_parent v (dk\<lparr>dk_tree := (dk_tree dk)(v \<mapsto> j)\<rparr>)"
    using assms(1,3) by (auto simp: k_link_def split: if_splits)
  have "butlast v \<noteq> v" using f(3) by (metis append_butlast_last_id append_self_conv not_Cons_self2)
  moreover have "dk_tree dk (butlast v) \<noteq> Some j" using f(2) nd by (auto simp: is_dir_at_iff)
  ultimately have "dk_inodes dk' j = dk_inodes dk j"
    unfolding dk' touch_parent_def by (cases "dk_tree dk (butlast v)") auto
  moreover have "entries dk old = Some (seen (dk_inodes dk j))" using assms(3) by (rule entries_tree)
  ultimately show "entry_added dk v j (dk_inodes dk j) dk'" using r(1-3,7) assms(3) by (simp add: entry_added_def)
qed

lemma meta_of_created:
  "\<not> has_mode (st_mode copy) mode_symlink \<Longrightarrow> meta_of copy (created env kind m dk) = meta_of copy (fresh_inode env kind)"
  "\<not> has_mode (st_mode copy) mode_symlink \<Longrightarrow>
    meta_of copy ((created env kind m dk)\<lparr>in_rdev := r\<rparr>) = meta_of copy ((fresh_inode env kind)\<lparr>in_rdev := r\<rparr>)"
  by (simp_all add: meta_of_def created_def fresh_inode_def created_mode)

lemma created_kind:
  "mode_is_dir (in_mode (created env kind m dk)) = mode_is_dir kind"
  "is_symlink_node (created env kind m dk) = (\<not> mode_is_dir kind \<and> has_mode kind mode_symlink)"
  "is_symlink_node ((created env kind m dk)\<lparr>in_rdev := r\<rparr>) = (\<not> mode_is_dir kind \<and> has_mode kind mode_symlink)"
  by (simp_all add: created_def fresh_inode_def is_symlink_node_def created_type)

text \<open>The state of the writer beside the disk that a change can touch.\<close>

definition same_writer :: "disk_writer \<Rightarrow> disk_writer \<Rightarrow> bool" where
  "same_writer dw dw' \<longleftrightarrow> dw_opt dw' = dw_opt dw \<and> dw_dest dw' = dw_dest dw \<and> dw_done dw' = dw_done dw"

lemma same_writer_simps [simp]:
  "same_writer dw dw" "same_writer dw (dw'\<lparr>dw_disk := dk\<rparr>) = same_writer dw dw'" "same_writer dw (dw'\<lparr>dw_rand := r\<rparr>) = same_writer dw dw'"
  "same_writer dw (dw'\<lparr>dw_dir_mod_times := t\<rparr>) = same_writer dw dw'" "same_writer dw (dw'\<lparr>dw_notes := ns\<rparr>) = same_writer dw dw'"
  "same_writer dw (dw'\<lparr>dw_tasks := ts\<rparr>) = same_writer dw dw'"
  "same_writer (dw\<lparr>dw_rand := r\<rparr>) dw' = same_writer dw dw'" "same_writer (dw\<lparr>dw_disk := dk\<rparr>) dw' = same_writer dw dw'"
  by (simp_all add: same_writer_def)

lemma make_regular_async:
  assumes "make_regular env p st new_path dw = (Inr u, dw')" "dwo_sync_data_cb (dw_opt dw) = None"
  obtains fd dk1 u' dk' where "os_create (we_disk env) new_path (st_mode st) (dw_disk dw) = (Inr fd, dk1)"
    "file_close (we_disk env) fd dk1 = (Inr u', dk')" "dw' = dw\<lparr>dw_disk := dk'\<rparr>"
proof -
  obtain r dk1 where c: "os_create (we_disk env) new_path (st_mode st) (dw_disk dw) = (r, dk1)" by fastforce
  show ?thesis
  proof (cases r)
    case (Inl e)
    then show ?thesis using assms(1) c by (simp add: make_regular_def on_disk_def wrap_err_def try_bind_def)
  next
    case (Inr fd)
    obtain q dk' where f: "file_close (we_disk env) fd dk1 = (q, dk')" by fastforce
    have "make_regular env p st new_path dw = wrap_err (''failed to close '' @ new_path) (q, dw\<lparr>dw_disk := dk'\<rparr>)"
      using c f Inr assms(2) by (simp add: make_regular_def on_disk_def wrap_err_def try_bind_def)
    then show ?thesis using assms(1) that[OF _ , of fd dk1 _ dk'] c f Inr by (cases q) (simp_all add: wrap_err_def)
  qed
qed

lemma make_node_result:
  assumes "make_node env p dest st copy (abs_path v) dw = (MakeOk regular, dw')" "free_place (dw_disk dw) v"
    and "dwo_sync_data_cb (dw_opt dw) = None" "\<not> makes_link st copy" "same_type st copy" "one_type st"
  obtains i where "new_entry (dw_disk dw) v i (dw_disk dw')" "meta_of copy i = meta_of copy (blank_node env st copy)"
    "is_symlink_node i = has_mode (st_mode copy) mode_symlink" "mode_is_dir (in_mode i) = stat_is_dir st" "same_writer dw dw'"
proof -
  note loc = free_place_locate[OF assms(2), of "we_disk env"]
  note ty = same_type_bits[OF assms(5)]
  show ?thesis
  proof (cases "stat_is_dir st")
    case True
    obtain n dk' where c: "k_create v (created (we_disk env) mode_dir (st_mode st) (dw_disk dw)) (dw_disk dw) = Inr (n, dk')"
      "dw_disk dw' = dk'" "same_writer dw dw'"
      using assms(1) True loc(1)
      by (auto simp: make_node_def os_mkdir_def succeeds split: prod.splits sum.splits if_splits)
    have sym: "\<not> has_mode (st_mode copy) mode_symlink" using assms(6) True ty by (auto simp: one_type_def)
    show ?thesis
    proof (rule that[of "created (we_disk env) mode_dir (st_mode st) (dw_disk dw)"])
      show "new_entry (dw_disk dw) v (created (we_disk env) mode_dir (st_mode st) (dw_disk dw)) (dw_disk dw')"
        using new_entry_create[OF c(1) assms(2)] c(2) by simp
    qed (use True sym c(3) in \<open>simp_all add: meta_of_created blank_node_def created_kind type_bits\<close>)
  next
    case dir: False
    show ?thesis
    proof (cases "is_special st")
      case True
      let ?i = "(created (we_disk env) (special_kind (st_mode copy)) (st_mode copy AND 0xFFF) (dw_disk dw))
          \<lparr>in_rdev := we_mkdev env (ucast (st_devmajor copy)) (ucast (st_devminor copy))\<rparr>"
      obtain n dk' where c: "k_create v ?i (dw_disk dw) = Inr (n, dk')" "dw_disk dw' = dk'" "same_writer dw dw'"
        using assms(1) dir True loc(1)
        by (auto simp: make_node_def make_of_def is_special_def handle_special_def os_mknod_def succeeds split: prod.splits sum.splits if_splits)
      have sym: "\<not> has_mode (st_mode copy) mode_symlink" using assms(6) True ty by (auto simp: one_type_def)
      show ?thesis
      proof (rule that[of ?i])
        show "new_entry (dw_disk dw) v ?i (dw_disk dw')" using new_entry_create[OF c(1) assms(2)] c(2) by simp
      qed (use True dir sym c(3) in \<open>simp_all add: meta_of_created blank_node_def created_kind type_bits\<close>)
    next
      case special: False
      show ?thesis
      proof (cases "has_mode (st_mode st) mode_symlink")
        case True
        let ?i = "(fresh_inode (we_disk env) (mode_symlink OR mode_perm))\<lparr>in_target := st_linkname copy, in_mtime := dk_clock (dw_disk dw)\<rparr>"
        obtain n dk' where c: "k_create v ?i (dw_disk dw) = Inr (n, dk')" "dw_disk dw' = dk'" "same_writer dw dw'"
          using assms(1) dir special True loc(1)
          by (auto simp: make_node_def make_of_def is_special_def os_symlink_def succeeds split: prod.splits sum.splits if_splits)
        show ?thesis
        proof (rule that[of ?i])
          show "new_entry (dw_disk dw) v ?i (dw_disk dw')" using new_entry_create[OF c(1) assms(2)] c(2) by simp
        qed (use True dir special ty c(3) in \<open>simp_all add: blank_node_def is_symlink_node_def fresh_inode_def type_bits meta_of_def\<close>)
      next
        case sym: False
        have nolink: "st_linkname copy = []" using assms(4) dir special sym by (simp add: makes_link_def)
        let ?i = "created (we_disk env) 0 (st_mode st) (dw_disk dw)"
        have "make_of True (make_regular env p st (abs_path v) dw) = (MakeOk regular, dw')"
          using assms(1) dir special sym nolink by (simp add: make_node_def is_special_def)
        then obtain u where "make_regular env p st (abs_path v) dw = (Inr u, dw')"
          by (auto simp: make_of_def split: prod.splits sum.splits)
        then obtain fd dk1 u' dk' where m: "os_create (we_disk env) (abs_path v) (st_mode st) (dw_disk dw) = (Inr fd, dk1)"
          "file_close (we_disk env) fd dk1 = (Inr u', dk')" "dw' = dw\<lparr>dw_disk := dk'\<rparr>"
          using make_regular_async[OF _ assms(3)] by metis
        then have c: "k_open_create v ?i (dw_disk dw) = Inr (fd, dk1)" "file_close (we_disk env) fd dk1 = (Inr u', dk')"
          "dw_disk dw' = dk'" "same_writer dw dw'"
          using loc(2) by (simp_all add: os_create_def succeeds)
        have sym': "\<not> has_mode (st_mode copy) mode_symlink" using sym ty by simp
        show ?thesis
        proof (rule that[of ?i])
          show "new_entry (dw_disk dw) v ?i (dw_disk dw')"
            using new_entry_close[OF new_entry_open[OF c(1) assms(2)] c(2)] c(3) by simp
        qed (use dir special sym sym' c(4) in \<open>simp_all add: meta_of_created blank_node_def created_kind type_bits\<close>)
      qed
    qed
  qed
qed

text \<open>
  A hard link: the change names an entry of the disk that is no symbolic link. Then the node that is
  made is the inode of that entry, and otherwise a fresh one.
\<close>

definition link_source :: "disk_writer \<Rightarrow> stat \<Rightarrow> vpath \<Rightarrow> bool" where
  "link_source dw copy l \<longleftrightarrow>
     join2 (dw_dest dw) (st_linkname copy) = abs_path l \<and>
     (\<exists>j. entry_at (dw_disk dw) l j \<and> \<not> is_symlink_node (dk_inodes (dw_disk dw) j))"

definition made_inode :: "writer_env \<Rightarrow> stat \<Rightarrow> stat \<Rightarrow> disk \<Rightarrow> vpath \<Rightarrow> nat \<times> inode" where
  "made_inode env st copy dk l =
     (if makes_link st copy then (the (dk_tree dk l), dk_inodes dk (the (dk_tree dk l)))
      else (dk_next dk, blank_node env st copy))"

lemma make_node_link:
  assumes "make_node env p dest st copy (abs_path v) dw = (MakeOk regular, dw')" "free_place (dw_disk dw) v" "makes_link st copy"
    and "link_source dw copy l" "dk_tree (dw_disk dw) l = Some j"
  shows "entry_added (dw_disk dw) v j (dk_inodes (dw_disk dw) j) (dw_disk dw')" "same_writer dw dw'"
    "\<not> mode_is_dir (in_mode (dk_inodes (dw_disk dw) j))" "\<not> regular"
proof -
  have l: "join2 (dw_dest dw) (st_linkname copy) = abs_path l" "entry_at (dw_disk dw) l j"
    using assms(4,5) by (auto simp: link_source_def entry_at_def)
  have ty: "\<not> stat_is_dir st" "\<not> has_mode (st_mode st) mode_device" "\<not> has_mode (st_mode st) mode_named_pipe"
    "\<not> has_mode (st_mode st) mode_symlink" "st_linkname copy \<noteq> []" using assms(3) by (simp_all add: makes_link_def is_special_def)
  have m: "make_of False (wrap_err (''failed to link '' @ abs_path v @ '' to '' @ st_linkname copy)
      (on_disk (os_link (we_disk env) (join2 (dw_dest dw) (st_linkname copy)) (abs_path v)) dw)) = (MakeOk regular, dw')"
    using assms(1) ty by (simp add: make_node_def)
  then obtain u where u: "on_disk (os_link (we_disk env) (join2 (dw_dest dw) (st_linkname copy)) (abs_path v)) dw = (Inr u, dw')" "\<not> regular"
    by (auto simp: make_of_def wrap_err_def split: prod.splits sum.splits)
  then have "k_link l v (dw_disk dw) = Inr (u, dw_disk dw')" "same_writer dw dw'"
    using l free_place_locate(1)[OF assms(2), of "we_disk env"] entry_at_locate(1)[OF l(2), of "we_disk env"]
    by (auto simp: os_link_def succeeds)
  then show "entry_added (dw_disk dw) v j (dk_inodes (dw_disk dw) j) (dw_disk dw')" "same_writer dw dw'"
    "\<not> mode_is_dir (in_mode (dk_inodes (dw_disk dw) j))" "\<not> regular"
    using entry_added_link[OF _ assms(2,5)] u(2) by blast+
qed

lemma make_node_made:
  assumes "make_node env p dest st copy (abs_path v) dw = (MakeOk regular, dw')" "free_place (dw_disk dw) v"
    and "dwo_sync_data_cb (dw_opt dw) = None" "makes_link st copy \<Longrightarrow> link_source dw copy l" "same_type st copy" "one_type st"
  obtains k i where "entry_added (dw_disk dw) v k i (dw_disk dw')" "(k, meta_of copy i) = map_prod id (meta_of copy) (made_inode env st copy (dw_disk dw) l)"
    "\<And>q. dk_tree (dw_disk dw) q = Some k \<Longrightarrow> dk_inodes (dw_disk dw) k = i"
    "is_symlink_node i = has_mode (st_mode copy) mode_symlink" "mode_is_dir (in_mode i) = stat_is_dir st" "same_writer dw dw'"
proof (cases "makes_link st copy")
  case True
  obtain j where j: "dk_tree (dw_disk dw) l = Some j" "\<not> is_symlink_node (dk_inodes (dw_disk dw) j)"
    using assms(4)[OF True] by (auto simp: link_source_def entry_at_def)
  note L = make_node_link[OF assms(1,2) True assms(4)[OF True] j(1)]
  have "\<not> stat_is_dir st" "\<not> has_mode (st_mode copy) mode_symlink"
    using True same_type_bits(2)[OF assms(5)] by (simp_all add: makes_link_def)
  then show ?thesis using that[of j "dk_inodes (dw_disk dw) j"] L j True by (simp add: made_inode_def)
next
  case False
  obtain i where i: "new_entry (dw_disk dw) v i (dw_disk dw')" "meta_of copy i = meta_of copy (blank_node env st copy)"
    "is_symlink_node i = has_mode (st_mode copy) mode_symlink" "mode_is_dir (in_mode i) = stat_is_dir st" "same_writer dw dw'"
    by (rule make_node_result[OF assms(1-3) False assms(5,6)], rule that)
  have "wf_disk (dw_disk dw)" using assms(2) by (simp add: free_place_def)
  then have "dk_tree (dw_disk dw) q \<noteq> Some (dk_next (dw_disk dw))" for q using wf_diskD(2) by blast
  then show ?thesis using that[OF i(1) _ _ i(3-5)] i(2) False by (simp add: made_inode_def)
qed

section \<open>Moving it into place\<close>

lemma entry_added_meta:
  assumes "entry_added dk v j i dk1" "\<And>q. dk_tree dk q = Some j \<Longrightarrow> dk_inodes dk j = i"
    and "\<And>n. mode_is_dir (in_mode (f n)) = mode_is_dir (in_mode n)"
  shows "entry_added (set_inode j f dk) v j (f i) (set_inode j f dk1)"
proof -
  have n: "wf_disk dk1" "entries dk1 = (entries dk)(v \<mapsto> seen i)" "dk_tree dk1 = (dk_tree dk)(v \<mapsto> j)"
    "dk_inodes dk1 j = i" "dk_next dk \<le> dk_next dk1" using assms(1) by (simp_all add: entry_added_def)
  note r1 = set_inode_result[where f = f and dk = dk1 and i = j, OF assms(3)]
  note r = set_inode_result[where f = f and dk = dk and i = j, OF assms(3)]
  have "entries (set_inode j f dk1) q = ((entries (set_inode j f dk))(v \<mapsto> seen (f i))) q" for q
    using r1(2)[of q] r(2)[of q] n(2-4) assms(2)[of q] by auto
  then show ?thesis using r1(1) same_shape_wf n by (auto simp: entry_added_def)
qed

lemma set_inode_unused:
  assumes "wf_disk dk" "dk_next dk \<le> j" "\<And>n. mode_is_dir (in_mode (f n)) = mode_is_dir (in_mode n)"
  shows "entries (set_inode j f dk) = entries dk"
proof
  fix q
  have "dk_tree dk q \<noteq> Some j" using wf_diskD(2)[OF assms(1), of q j] assms(2) by auto
  then show "entries (set_inode j f dk) q = entries dk q" using set_inode_result(2)[where f = f and dk = dk and i = j and q = q, OF assms(3)] by simp
qed

lemma new_entry_meta:
  assumes "new_entry dk v i dk1" "wf_disk dk" "\<And>n. mode_is_dir (in_mode (f n)) = mode_is_dir (in_mode n)"
  shows "new_entry dk v (f i) (set_inode (dk_next dk) f dk1)"
proof -
  have "dk_tree dk q \<noteq> Some (dk_next dk)" for q using wf_diskD(2)[OF assms(2)] by blast
  then have "entry_added (set_inode (dk_next dk) f dk) v (dk_next dk) (f i) (set_inode (dk_next dk) f dk1)"
    using entry_added_meta[OF assms(1) _ assms(3)] by blast
  then show ?thesis using set_inode_unused[OF assms(2) order.refl assms(3)] by (simp add: entry_added_def)
qed

lemma new_entry_at: "entry_added dk v j i dk1 \<Longrightarrow> v \<noteq> [] \<Longrightarrow> entry_at dk1 v j"
  by (simp add: entry_added_def entry_at_def)

text \<open>Putting an inode at a path: what was below a file that is no directory is gone.\<close>

definition put_entry :: "vpath \<Rightarrow> inode \<Rightarrow> (vpath \<Rightarrow> inode option) \<Rightarrow> vpath \<Rightarrow> inode option" where
  "put_entry v i m q = (if q = v then Some i else if prefix v q \<and> \<not> mode_is_dir (in_mode i) then None else m q)"

text \<open>The same on the tree of inode numbers.\<close>

definition put_at :: "vpath \<Rightarrow> 'x \<Rightarrow> bool \<Rightarrow> (vpath \<Rightarrow> 'x option) \<Rightarrow> vpath \<Rightarrow> 'x option" where
  "put_at v x d m q = (if q = v then Some x else if prefix v q \<and> \<not> d then None else m q)"

lemma put_entry_at: "put_entry v i m = put_at v i (mode_is_dir (in_mode i)) m"
  by (rule ext) (simp add: put_entry_def put_at_def)

lemma put_at_new: "(\<And>q. prefix v q \<Longrightarrow> m q = None) \<Longrightarrow> put_at v x d m = m(v \<mapsto> x)"
  by (rule ext) (auto simp: put_at_def)

lemma process_change_none:
  "process_change env opt kind p fi (None :: 'w wr_ops option) (notes, w) = (r, (notes', w')) \<Longrightarrow> w' = w"
  by (auto simp: process_change_def hashed_close_def split: option.splits sum.splits prod.splits)

lemma remove_all_result:
  assumes "os_remove_all env (abs_path v) dk = (Inr u, dk')" "entry_at dk v j"
  shows "wf_disk dk'" "entries dk' q = (if prefix v q then None else entries dk q)"
    "dk_tree dk' q = (if prefix v q then None else dk_tree dk q)" "dk_inodes dk' i = dk_inodes dk i \<or> mode_is_dir (in_mode (dk_inodes dk i))"
    "dk_next dk' = dk_next dk"
proof -
  have wf: "wf_disk dk" "v \<noteq> []" "dk_tree dk v = Some j" using assms(2) by (simp_all add: entry_at_def)
  let ?d = "remove_below v (\<lambda>q. False) dk"
  have dk': "dk' = touch_parent v ?d"
    using assms(1) entry_at_locate(1)[OF assms(2), of env] wf(3) by (auto simp: os_remove_all_def split: option.splits)
  note r = remove_below_result[OF wf(1,2) refl]
  have p: "is_dir_at dk (butlast v)" using wf_diskD(3)[OF wf(1,3,2)] .
  then have p': "is_dir_at ?d (butlast v)" using wf(2) by (auto simp: is_dir_at_entries r(2))
  note t = touch_parent_same[OF r(1), of v]
  show "wf_disk dk'" using t(1) same_shape_wf r(1) p' dk' by blast
  show "entries dk' q = (if prefix v q then None else entries dk q)" using t(2)[of q] r(2)[of q] p' dk' by simp
  show "dk_tree dk' q = (if prefix v q then None else dk_tree dk q)" using t(3) r(4)[of q] p' dk' by simp
  show "dk_next dk' = dk_next dk" using t(4) r(3) p' dk' by simp
  show "dk_inodes dk' i = dk_inodes dk i \<or> mode_is_dir (in_mode (dk_inodes dk i))"
    using p' by (auto simp: dk' touch_parent_def is_dir_at_iff remove_below_def split: option.splits)
qed

lemma rename_result:
  assumes "rename_file env (abs_path old) (abs_path new) dk = (Inr u, dk')" "entry_at dk old j"
    and "new \<noteq> []" "is_dir_at dk (butlast new)" "good_comp (last new)" "dk_tree dk new \<noteq> Some j"
  shows "wf_disk dk'"
    "entries dk' q = (if prefix new q then entries dk (old @ drop (length new) q) else if prefix old q then None else entries dk q)"
    "dk_tree dk' q = (if prefix new q then dk_tree dk (old @ drop (length new) q) else if prefix old q then None else dk_tree dk q)"
    "dk_next dk' = dk_next dk"
proof -
  have wf: "wf_disk dk" "old \<noteq> []" "dk_tree dk old = Some j" using assms(2) by (simp_all add: entry_at_def)
  have "locate env dk (abs_path new) = Inr new"
    using locate_real(1)[OF wf(1) assms(4,5)] assms(3) by (simp add: abs_path_def)
  then have "k_rename old new dk = Inr (u, dk')"
    using assms(1) entry_at_locate(1)[OF assms(2), of env] by (simp add: rename_file_def os_rename_def succeeds)
  note r = k_rename_result[OF this wf(1,2) assms(3-5)]
  show "wf_disk dk'" "entries dk' q = (if prefix new q then entries dk (old @ drop (length new) q) else if prefix old q then None else entries dk q)"
    "dk_tree dk' q = (if prefix new q then dk_tree dk (old @ drop (length new) q) else if prefix old q then None else dk_tree dk q)"
    "dk_next dk' = dk_next dk"
    using r assms(6) wf(3) by simp_all
qed

text \<open>The temporary file \<open>tmp\<close> takes the place of the old file at \<open>v\<close>.\<close>

lemma move_map:
  assumes moved: "\<And>q. F' q = (if prefix v q then G (tmp @ drop (length v) q) else if prefix tmp q then None else G q)"
    and cleared: "\<And>q. G q = (if rm \<and> prefix v q then None else (F(tmp \<mapsto> x)) q)"
    and free: "\<And>zs. F (tmp @ zs) = None" and apart: "\<not> prefix v tmp" "\<not> prefix tmp v"
    and none: "rm \<and> \<not> d \<or> (\<forall>q. prefix v q \<and> q \<noteq> v \<longrightarrow> F q = None)"
  shows "F' = put_at v x d F"
proof
  fix q
  show "F' q = put_at v x d F q"
  proof (cases "prefix v q")
    case True
    then obtain zs where q: "q = v @ zs" by (auto simp: prefix_def)
    have "\<not> prefix v (tmp @ zs)" using apart by (metis prefix_same_cases prefix_def)
    then have "F' q = (F(tmp \<mapsto> x)) (tmp @ zs)" using moved[of q] cleared[of "tmp @ zs"] q by simp
    then show ?thesis using free[of zs] none q by (cases "zs = []") (auto simp: put_at_def)
  next
    case False
    moreover have "F q = None" if "prefix tmp q" using that free by (auto simp: prefix_def)
    moreover have "q = tmp \<Longrightarrow> prefix tmp q" by simp
    ultimately show ?thesis using moved[of q] cleared[of q] by (auto simp: put_at_def)
  qed
qed

lemma move_result:
  assumes "move_into_place env (abs_path tmp) (abs_path v) st (Some old) dk2 = (Inr u, dk')"
    and "entry_added dk tmp k i dk2" "free_place dk tmp" "entry_at dk v j" "old = dk_inodes dk j" "butlast tmp = butlast v"
    and "\<not> (stat_is_dir st \<and> mode_is_dir (in_mode old))" "mode_is_dir (in_mode i) = stat_is_dir st" "k \<noteq> j"
  shows "wf_disk dk'" "entries dk' = put_entry v (seen i) (entries dk)" "dk_tree dk' = put_at v k (stat_is_dir st) (dk_tree dk)"
    "dk_next dk \<le> dk_next dk'"
proof -
  have wf: "wf_disk dk" "v \<noteq> []" "dk_tree dk v = Some j" using assms(4) by (simp_all add: entry_at_def)
  have tmp: "tmp \<noteq> []" "dk_tree dk tmp = None" using assms(3) by (simp_all add: free_place_def)
  then have ne: "tmp \<noteq> v" using wf(3) by auto
  have apart: "\<not> prefix v tmp" "\<not> prefix tmp v"
  proof -
    have "length tmp = length v" using assms(6) tmp(1) wf(2) by (metis append_butlast_last_id length_append_singleton)
    then show "\<not> prefix v tmp" "\<not> prefix tmp v" using ne by (auto simp: prefix_def)
  qed
  have below_tmp: "dk_tree dk (tmp @ zs) = None" for zs
  proof (cases "zs = []")
    case False
    have "\<not> is_dir_at dk tmp" using tmp(2) by (simp add: is_dir_at_iff)
    then show ?thesis using no_entry_below[OF wf(1), of tmp "tmp @ zs"] False by simp
  qed (use tmp in simp)
  have below_tmp': "entries dk (tmp @ zs) = None" for zs using below_tmp by simp
  have n: "wf_disk dk2" "entries dk2 = (entries dk)(tmp \<mapsto> seen i)" "dk_tree dk2 = (dk_tree dk)(tmp \<mapsto> k)" "dk_next dk \<le> dk_next dk2"
    using assms(2) by (simp_all add: entry_added_def)
  have at2: "entry_at dk2 v j" "entry_at dk2 tmp k" using n wf ne tmp by (simp_all add: entry_at_def)
  have par: "is_dir_at dk2 (butlast v)" "good_comp (last v)" using wf_diskD(3,4)[OF n(1), of v j] wf(2) at2 by (simp_all add: entry_at_def)
  have bare: "dk_tree dk q = None" if "\<not> mode_is_dir (in_mode old)" "prefix v q" "q \<noteq> v" for q
  proof -
    have "\<not> is_dir_at dk v" using wf(3) that(1) assms(5) by (simp add: is_dir_at_iff)
    then show ?thesis using no_entry_below[OF wf(1) _ that(2,3)] by blast
  qed
  have put: "put_entry v (seen i) m = put_at v (seen i) (stat_is_dir st) m" for m using assms(8) by (simp add: put_entry_at)
  have "wf_disk dk' \<and> entries dk' = put_at v (seen i) (stat_is_dir st) (entries dk) \<and> dk_tree dk' = put_at v k (stat_is_dir st) (dk_tree dk) \<and>
      dk_next dk \<le> dk_next dk'"
  proof (cases "mode_is_dir (in_mode old) = stat_is_dir st")
    case True
    then have nd: "\<not> mode_is_dir (in_mode old)" using assms(7) by auto
    have m: "rename_file env (abs_path tmp) (abs_path v) dk2 = (Inr u, dk')"
      using assms(1) True by (simp add: move_into_place_def succeeds)
    have "dk_tree dk2 v \<noteq> Some k" using at2(1) assms(9) by (simp add: entry_at_def)
    note r = rename_result[OF m at2(2) wf(2) par this]
    have none: "\<forall>q. prefix v q \<and> q \<noteq> v \<longrightarrow> dk_tree dk q = None" 
      by (intro allI impI, elim conjE, rule bare[OF nd])
    then have none': "\<forall>q. prefix v q \<and> q \<noteq> v \<longrightarrow> entries dk q = None" by simp
    have "entries dk' = put_at v (seen i) (stat_is_dir st) (entries dk)"
      by (rule move_map[where rm = False and F' = "entries dk'" and G = "entries dk2" and F = "entries dk", OF r(2) _ below_tmp' apart]) (use n(2) none' in simp_all)
    moreover have "dk_tree dk' = put_at v k (stat_is_dir st) (dk_tree dk)"
      by (rule move_map[where rm = False and F' = "dk_tree dk'" and G = "dk_tree dk2" and F = "dk_tree dk", OF r(3) _ below_tmp apart]) (use n(3) none in simp_all)
    ultimately show ?thesis using r(1,4) n(4) by simp
  next
    case False
    obtain u3 dk3 where c: "os_remove_all env (abs_path v) dk2 = (Inr u3, dk3)" "rename_file env (abs_path tmp) (abs_path v) dk3 = (Inr u, dk')"
      using assms(1) False by (auto simp: move_into_place_def succeeds)
    note d = remove_all_result[OF c(1) at2(1)]
    have at3: "entry_at dk3 tmp k" using d(1,3) n(3) apart tmp by (simp add: entry_at_def)
    have par3: "is_dir_at dk3 (butlast v)" using par(1) wf(2) d(2) by (simp add: is_dir_at_entries)
    have "dk_tree dk3 v \<noteq> Some k" using d(3) by simp
    note r = rename_result[OF c(2) at3 wf(2) par3 par(2) this]
    have none: "\<not> stat_is_dir st \<or> (\<forall>q. prefix v q \<and> q \<noteq> v \<longrightarrow> dk_tree dk q = None)"
    proof (cases "stat_is_dir st")
      case True
      then have "\<not> mode_is_dir (in_mode old)" using assms(7) by blast
      then show ?thesis by (intro disjI2 allI impI, elim conjE, rule bare)
    qed simp
    then have none': "\<not> stat_is_dir st \<or> (\<forall>q. prefix v q \<and> q \<noteq> v \<longrightarrow> entries dk q = None)" by simp
    have "entries dk' = put_at v (seen i) (stat_is_dir st) (entries dk)"
      by (rule move_map[where rm = True and F' = "entries dk'" and G = "entries dk3" and F = "entries dk", OF r(2) _ below_tmp' apart]) (use d(2) n(2) none' in \<open>simp_all\<close>)
    moreover have "dk_tree dk' = put_at v k (stat_is_dir st) (dk_tree dk)"
      by (rule move_map[where rm = True and F' = "dk_tree dk'" and G = "dk_tree dk3" and F = "dk_tree dk", OF r(3) _ below_tmp apart]) (use d(3) n(3) none in \<open>simp_all\<close>)
    ultimately show ?thesis using r(1,4) d(5) n(4) by simp
  qed
  then show "wf_disk dk'" "entries dk' = put_entry v (seen i) (entries dk)" "dk_tree dk' = put_at v k (stat_is_dir st) (dk_tree dk)"
    "dk_next dk \<le> dk_next dk'" unfolding put by blast+
qed

section \<open>One change\<close>

text \<open>
  The place of a change: a real directory below the destination, without temporary files. A change
  that is done: the disk afterwards.
\<close>

definition change_place :: "disk \<Rightarrow> vpath \<Rightarrow> bool" where
  "change_place dk v \<longleftrightarrow>
     wf_disk dk \<and> v \<noteq> [] \<and> is_dir_at dk (butlast v) \<and> good_comp (last v) \<and>
     (\<forall>x. temp_name x \<longrightarrow> dk_tree dk (butlast v @ [x]) = None)"

definition base_node :: "writer_env \<Rightarrow> stat \<Rightarrow> stat \<Rightarrow> inode option \<Rightarrow> inode" where
  "base_node env st copy old =
     (case old of
        Some o1 \<Rightarrow> if stat_is_dir st \<and> mode_is_dir (in_mode o1) then o1 else blank_node env st copy
      | None \<Rightarrow> blank_node env st copy)"

text \<open>
  The filter keeps the type; a symbolic link has no extended attributes (they would go to the file it leads to),
  and setting them does not fail (the code goes on when it does). A hard link is ready when the entry it
  names is there, is no symbolic link, and is not yet the entry that is to become the link.
\<close>

definition plain_meta :: "writer_env \<Rightarrow> stat \<Rightarrow> stat \<Rightarrow> bool" where
  "plain_meta env st copy \<longleftrightarrow>
     same_type st copy \<and> one_type st \<and> (has_mode (st_mode copy) mode_symlink \<longrightarrow> st_xattrs copy = []) \<and>
     (\<forall>p d. de_fail (we_disk env) ''setxattr'' p d = None)"

definition link_ready :: "disk_writer \<Rightarrow> stat \<Rightarrow> stat \<Rightarrow> vpath \<Rightarrow> vpath \<Rightarrow> bool" where
  "link_ready dw st copy v l \<longleftrightarrow>
     (makes_link st copy \<longrightarrow> link_source dw copy l \<and> dk_tree (dw_disk dw) v \<noteq> dk_tree (dw_disk dw) l)"

definition plain_change :: "writer_env \<Rightarrow> stat \<Rightarrow> stat \<Rightarrow> bool" where
  "plain_change env st copy \<longleftrightarrow> \<not> makes_link st copy \<and> plain_meta env st copy"

lemma plain_change_ready: "plain_change env st copy \<Longrightarrow> plain_meta env st copy \<and> link_ready dw st copy v l"
  by (simp add: plain_change_def link_ready_def)

lemma link_ready_same:
  "link_ready dw st copy v l \<Longrightarrow> same_writer dw dw' \<Longrightarrow> dw_disk dw' = dw_disk dw \<Longrightarrow> link_ready dw' st copy v l"
  by (simp add: link_ready_def link_source_def same_writer_def)

text \<open>The inode a change leaves at its path: that of a directory that is there, or the one that is made.\<close>

definition base_inode :: "writer_env \<Rightarrow> stat \<Rightarrow> stat \<Rightarrow> disk \<Rightarrow> vpath \<Rightarrow> vpath \<Rightarrow> nat \<times> inode" where
  "base_inode env st copy dk v l =
     (case dk_tree dk v of
        Some j \<Rightarrow> if stat_is_dir st \<and> mode_is_dir (in_mode (dk_inodes dk j)) then (j, dk_inodes dk j) else made_inode env st copy dk l
      | None \<Rightarrow> made_inode env st copy dk l)"

lemma base_inode_node: "\<not> makes_link st copy \<Longrightarrow> snd (base_inode env st copy dk v l) = base_node env st copy (node dk v)"
  by (simp add: base_inode_def base_node_def made_inode_def node_def split: option.splits)

text \<open>
  The disk after a change: the inode \<open>j\<close> has the new metadata under every name it has, it is at the path, and
  what was below a file that is no directory is gone.
\<close>

definition changed_disk :: "stat \<Rightarrow> stat \<Rightarrow> vpath \<Rightarrow> nat \<times> inode \<Rightarrow> disk \<Rightarrow> disk \<Rightarrow> bool" where
  "changed_disk st copy v ji dk dk' \<longleftrightarrow>
     wf_disk dk' \<and> dk_tree dk' = put_at v (fst ji) (stat_is_dir st) (dk_tree dk) \<and>
     entries dk' = put_at v (seen (meta_of copy (snd ji))) (stat_is_dir st) (entries (set_inode (fst ji) (meta_of copy) dk)) \<and>
     dk_next dk \<le> dk_next dk'"

lemma os_lstat_result:
  assumes "change_place dk v" "os_lstat env (abs_path v) dk = (r, dk')"
  shows "dk' = dk" "r = Inr i \<Longrightarrow> node dk v = Some i" "r = Inl e \<Longrightarrow> errno_of e = Some ENOENT \<Longrightarrow> de_fail env ''lstat'' (abs_path v) dk \<noteq> Some ENOENT \<Longrightarrow> node dk v = None"
proof -
  have "v = butlast v @ [last v]" "wf_disk dk" "is_dir_at dk (butlast v)" "good_comp (last v)" using assms(1) by (simp_all add: change_place_def)
  then have l: "locate env dk (abs_path v) = Inr v" using locate_real(1)[of dk "butlast v" "last v" env] by (simp add: abs_path_def)
  show "dk' = dk" using assms(2) l by (auto simp: os_lstat_def os_call_def k_lstat_def split: option.splits)
  show "r = Inr i \<Longrightarrow> node dk v = Some i"
    using assms(2) l by (auto simp: os_lstat_def os_call_def k_lstat_def split: option.splits)
  show "node dk v = None" if "r = Inl e" "errno_of e = Some ENOENT" "de_fail env ''lstat'' (abs_path v) dk \<noteq> Some ENOENT"
    using assms(2) l that by (auto simp: os_lstat_def os_call_def k_lstat_def split: option.splits)
qed

lemma report_change_result:
  assumes "report_change env kind p dest st copy regular dw = (r, dw')"
  shows "dw_disk dw' = dw_disk dw" "same_writer dw dw'"
proof -
  obtain q ns dk where pc: "process_change env (dw_opt dw) kind p (StatInfo st) (None :: disk wr_ops option) (dw_notes dw, dw_disk dw) = (q, (ns, dk))"
    by (metis prod_cases3)
  then have "dk = dw_disk dw" by (rule process_change_none)
  then show "dw_disk dw' = dw_disk dw" "same_writer dw dw'"
    using assms pc by (auto simp: report_change_def split: if_splits)
qed

lemma same_shape_free: "same_shape dk dk' \<Longrightarrow> free_place dk' t = free_place dk t"
  using same_shape_wf[of dk dk'] same_shape_dir[of dk dk'] by (auto simp: free_place_def same_shape_def)

lemma finish_moved:
  assumes "rewrite_metadata (we_disk env) (abs_path t) copy dk1 = (Inr u1, dk2)"
    and "move_into_place (we_disk env) (abs_path t) (abs_path v) st old dk2 = (Inr u2, dk3)"
    and "entry_added dk t k i dk1" "free_place dk t" "plain_meta env st copy"
    and "is_symlink_node i = has_mode (st_mode copy) mode_symlink" "mode_is_dir (in_mode i) = stat_is_dir st"
    and "\<And>q. dk_tree dk q = Some k \<Longrightarrow> dk_inodes dk k = i"
    and "case old of None \<Rightarrow> t = v
      | Some o1 \<Rightarrow> node dk v = Some o1 \<and> butlast t = butlast v \<and> v \<noteq> [] \<and> \<not> (stat_is_dir st \<and> mode_is_dir (in_mode o1)) \<and> dk_tree dk v \<noteq> Some k"
  shows "changed_disk st copy v (k, i) dk dk3"
proof -
  have t: "t \<noteq> []" "wf_disk dk" using assms(4) by (simp_all add: free_place_def)
  note at = new_entry_at[OF assms(3) t(1)]
  let ?d = "set_inode k (meta_of copy) dk"
  have i: "dk_inodes dk1 k = i" using assms(3) by (simp add: entry_added_def)
  have "dk2 = set_inode k (meta_of copy) dk1"
    by (rule rewrite_metadata_result[OF assms(1) at]) (use assms(5,6) i in \<open>auto simp: plain_meta_def\<close>)
  then have n2: "entry_added ?d t k (meta_of copy i) dk2" using entry_added_meta[OF assms(3,8)] by simp
  have sh: "same_shape dk ?d" by (rule set_inode_result(1)) simp
  then have free: "free_place ?d t" using assms(4) same_shape_free by blast
  have "wf_disk dk3 \<and> entries dk3 = put_at v (seen (meta_of copy i)) (stat_is_dir st) (entries ?d) \<and>
      dk_tree dk3 = put_at v k (stat_is_dir st) (dk_tree dk) \<and> dk_next dk \<le> dk_next dk3"
  proof (cases old)
    case None
    then have e: "dk3 = dk2" "t = v" using assms(2,9) by (simp_all add: move_into_place_def)
    have none: "dk_tree dk q = None" if "prefix v q" for q
    proof (cases "q = v")
      case True
      then show ?thesis using assms(4) e(2) by (simp add: free_place_def)
    next
      case False
      have "\<not> is_dir_at dk v" using assms(4) e(2) by (simp add: free_place_def is_dir_at_iff)
      then show ?thesis using no_entry_below[OF t(2) _ that False] by simp
    qed
    then have "put_at v k (stat_is_dir st) (dk_tree dk) = (dk_tree dk)(v \<mapsto> k)"
      "put_at v (seen (meta_of copy i)) (stat_is_dir st) (entries ?d) = (entries ?d)(v \<mapsto> seen (meta_of copy i))"
      by (simp_all add: put_at_new)
    then show ?thesis using n2 e by (simp add: entry_added_def)
  next
    case (Some o1)
    then obtain j where j: "dk_tree dk v = Some j" "o1 = dk_inodes dk j" "j \<noteq> k" and v: "v \<noteq> []" "butlast t = butlast v"
      "\<not> (stat_is_dir st \<and> mode_is_dir (in_mode o1))" using assms(9) by (auto simp: node_def)
    have "entry_at ?d v j" using j(1) v(1) t(2) same_shape_wf[OF sh] by (simp add: entry_at_def)
    moreover have "o1 = dk_inodes ?d j" using j(2,3) by simp
    moreover have "mode_is_dir (in_mode (meta_of copy i)) = stat_is_dir st" using assms(7) by simp
    ultimately show ?thesis using move_result[OF assms(2)[unfolded Some] n2 free, of j] v(2,3) j(3) by (simp add: put_entry_at)
  qed
  then show ?thesis by (simp add: changed_disk_def)
qed

lemma finish_result:
  assumes "finish_change env kind p (abs_path v) st copy (abs_path t) old regular dw = (Inr u, dw')"
    and "entry_added dk t k i (dw_disk dw)" "free_place dk t" "plain_meta env st copy"
    and "is_symlink_node i = has_mode (st_mode copy) mode_symlink" "mode_is_dir (in_mode i) = stat_is_dir st"
    and "\<And>q. dk_tree dk q = Some k \<Longrightarrow> dk_inodes dk k = i"
    and "case old of None \<Rightarrow> t = v
      | Some o1 \<Rightarrow> node dk v = Some o1 \<and> butlast t = butlast v \<and> v \<noteq> [] \<and> \<not> (stat_is_dir st \<and> mode_is_dir (in_mode o1)) \<and> dk_tree dk v \<noteq> Some k"
  shows "changed_disk st copy v (k, i) dk (dw_disk dw')" "same_writer dw dw'"
proof -
  obtain dk2 dk3 u1 u2 where c: "rewrite_metadata (we_disk env) (abs_path t) copy (dw_disk dw) = (Inr u1, dk2)"
    "move_into_place (we_disk env) (abs_path t) (abs_path v) st old dk2 = (Inr u2, dk3)"
    and rep: "report_change env kind p (abs_path v) st copy regular (dw\<lparr>dw_disk := dk3\<rparr>) = (Inr u, dw')"
    using assms(1) by (auto simp: finish_change_def succeeds)
  have d: "dw_disk dw' = dk3" "same_writer dw dw'" using report_change_result[OF rep] by simp_all
  show "changed_disk st copy v (k, i) dk (dw_disk dw')" using finish_moved[OF c assms(2-8)] d(1) by simp
  show "same_writer dw dw'" by (rule d(2))
qed

lemma make_again:
  assumes "make_node env p dest st copy new_path dw = (MakeAgain, dw')"
  shows "dw_disk dw' = dw_disk dw" "same_writer dw dw'"
  using assms by (auto simp: make_node_def make_of_def on_disk_def os_mkdir_def split: if_splits prod.splits sum.splits dest: os_call_Inl)

lemma look_at_result:
  assumes "look_at env kind (abs_path v) dw = (r, dw')" "change_place (dw_disk dw) v" "\<And>p d. de_fail env ''lstat'' p d \<noteq> Some ENOENT"
  shows "dw' = dw" "r = Inr old \<Longrightarrow> node (dw_disk dw) v = old"
proof -
  obtain lst dk1 where l: "os_lstat env (abs_path v) (dw_disk dw) = (lst, dk1)" by fastforce
  note L = os_lstat_result[OF assms(2) l]
  have on: "on_disk (os_lstat env (abs_path v)) dw = (lst, dw)" using l L(1) by (simp add: on_disk_def)
  show "dw' = dw" using assms(1) on by (auto simp: look_at_def split: sum.splits)
  show "node (dw_disk dw) v = old" if "r = Inr old"
  proof (cases lst)
    case (Inl e)
    then have "errno_of e = Some ENOENT" "old = None" using assms(1) on that by (auto simp: look_at_def split: if_splits)
    then show ?thesis using L(3)[OF Inl] assms(3) by simp
  next
    case (Inr i)
    then show ?thesis using assms(1) on that L(2) by (auto simp: look_at_def)
  qed
qed

text \<open>The path the new file is made at.\<close>

lemma place_change_run:
  assumes "change_place (dw_disk dw) v" "node (dw_disk dw) v = old"
  obtains t dw1 where "free_place (dw_disk dw) t" "if old = None then t = v else butlast t = butlast v \<and> temp_name (last t)"
    "dw_disk dw1 = dw_disk dw" "same_writer dw dw1"
    "place_change env kind p (abs_path v) st copy old dw =
      make_change env kind p (abs_path v) st copy old (abs_path t) dw1"
proof -
  have v: "v = butlast v @ [last v]" "v \<noteq> []" "wf_disk (dw_disk dw)" "is_dir_at (dw_disk dw) (butlast v)" "good_comp (last v)"
    using assms(1) by (simp_all add: change_place_def)
  let ?dk = "dw_disk dw"
  obtain sfx rand where sfx: "next_suffix (we_seed env) (dw_rand dw) = (sfx, rand)" by fastforce
  define t where "t = (if old = None then v else butlast v @ [''.tmp.'' @ sfx])"
  define dw1 where "dw1 = (if old = None then dw else dw\<lparr>dw_rand := rand\<rparr>)"
  have tmp: "good_comp (''.tmp.'' @ sfx)" "temp_name (''.tmp.'' @ sfx)"
    using next_suffix_temp[of "we_seed env" "dw_rand dw"] sfx by simp_all
  have gv: "list_all good_comp (butlast v)" using tree_good_comps[OF v(3)] v(4) by (auto simp: is_dir_at_iff)
  have "list_all good_comp (butlast v @ [last v])" using gv v(5) by simp
  then have "dir (abs_path v) = abs_path (butlast v)" using dir_abs_path[of "butlast v" "last v"] v(2) by simp
  moreover have "join2 (abs_path (butlast v)) (join_slash [''.tmp.'' @ sfx]) = abs_path (butlast v @ [''.tmp.'' @ sfx])"
    by (rule join2_abs_path[OF gv]) (use tmp in simp)
  ultimately have tpath: "join2 (dir (abs_path v)) (''.tmp.'' @ sfx) = abs_path (butlast v @ [''.tmp.'' @ sfx])"
    by simp
  have "dk_tree ?dk t = None" using assms tmp(2) by (auto simp: t_def change_place_def)
  then have free: "free_place ?dk t" using v tmp(1) by (auto simp: free_place_def t_def)
  show ?thesis
  proof (rule that[of t dw1])
    show "free_place ?dk t" by (rule free)
    show "place_change env kind p (abs_path v) st copy old dw = make_change env kind p (abs_path v) st copy old (abs_path t) dw1"
      using sfx tpath by (cases old) (simp_all add: place_change_def dw1_def t_def)
  qed (use tmp(2) in \<open>simp_all add: t_def dw1_def\<close>)
qed

lemma changed_disk_base:
  assumes "changed_disk st copy v (k, i) dk dk'" "(k, meta_of copy i) = map_prod id (meta_of copy) ji"
  shows "changed_disk st copy v ji dk dk'"
  using assms by (cases ji) (simp add: changed_disk_def)

lemma made_inode_other:
  assumes "wf_disk (dw_disk dw)" "link_ready dw st copy v l" "(k, x) = map_prod id f (made_inode env st copy (dw_disk dw) l)"
  shows "dk_tree (dw_disk dw) v \<noteq> Some k"
proof (cases "makes_link st copy")
  case True
  then have "k = the (dk_tree (dw_disk dw) l)" "dk_tree (dw_disk dw) l \<noteq> None" "dk_tree (dw_disk dw) v \<noteq> dk_tree (dw_disk dw) l"
    using assms(2,3) by (auto simp: made_inode_def link_ready_def link_source_def entry_at_def)
  then show ?thesis by auto
next
  case False
  then have "k = dk_next (dw_disk dw)" using assms(3) by (simp add: made_inode_def)
  then show ?thesis using wf_diskD(2)[OF assms(1), of v k] by auto
qed

lemma place_change_result:
  assumes "place_change env kind p (abs_path v) st copy old dw = (r, dw')" "change_place (dw_disk dw) v"
    and "plain_meta env st copy" "link_ready dw st copy v l" "dwo_sync_data_cb (dw_opt dw) = None" "node (dw_disk dw) v = old"
    and "\<not> (case old of None \<Rightarrow> False | Some i \<Rightarrow> stat_is_dir st \<and> mode_is_dir (in_mode i))"
  shows "r = None \<Longrightarrow> dw_disk dw' = dw_disk dw \<and> same_writer dw dw'"
    "r = Some (Inr ()) \<Longrightarrow> same_writer dw dw' \<and> changed_disk st copy v (made_inode env st copy (dw_disk dw) l) (dw_disk dw) (dw_disk dw')"
proof -
  let ?dk = "dw_disk dw"
  have v: "v \<noteq> []" "wf_disk ?dk" using assms(2) by (simp_all add: change_place_def)
  obtain t dw1 where free: "free_place ?dk t" and t: "if old = None then t = v else butlast t = butlast v \<and> temp_name (last t)"
    and same1: "dw_disk dw1 = ?dk" "same_writer dw dw1"
    and pc: "place_change env kind p (abs_path v) st copy old dw = make_change env kind p (abs_path v) st copy old (abs_path t) dw1"
    by (rule place_change_run[OF assms(2,6), where env = env and kind = kind and p = p and st = st and copy = copy], rule that)
  obtain mr dw2 where mk: "make_node env p (abs_path v) st copy (abs_path t) dw1 = (mr, dw2)" by fastforce
  have run: "(r, dw') = (case mr of MakeAgain \<Rightarrow> (None, dw2) | MakeErr e \<Rightarrow> (Some (Inl e), dw2)
      | MakeOk regular \<Rightarrow> (case finish_change env kind p (abs_path v) st copy (abs_path t) old regular dw2 of (r, dw) \<Rightarrow> (Some r, dw)))"
    using assms(1) mk pc by (simp add: make_change_def split: make_result.splits)
  show "dw_disk dw' = dw_disk dw \<and> same_writer dw dw'" if "r = None"
  proof -
    have "mr = MakeAgain" "dw' = dw2" using run that by (auto split: make_result.splits prod.splits)
    then show ?thesis using make_again[of env p "abs_path v" st copy "abs_path t" dw1 dw2] mk same1 by (simp add: same_writer_def)
  qed
  show "same_writer dw dw' \<and> changed_disk st copy v (made_inode env st copy (dw_disk dw) l) (dw_disk dw) (dw_disk dw')"
    if ok1: "r = Some (Inr ())"
  proof -
    obtain regular where ok: "mr = MakeOk regular"
      and fin: "finish_change env kind p (abs_path v) st copy (abs_path t) old regular dw2 = (Inr (), dw')"
      using run ok1 by (auto split: make_result.splits prod.splits)
    have pc: "same_type st copy" "one_type st" using assms(3) by (simp_all add: plain_meta_def)
    have ready: "link_ready dw1 st copy v l" by (rule link_ready_same[OF assms(4) same1(2,1)])
    have free1: "free_place (dw_disk dw1) t" and sync1: "dwo_sync_data_cb (dw_opt dw1) = None"
      using free same1 assms(5) by (simp_all add: same_writer_def)
    obtain k i where i: "entry_added ?dk t k i (dw_disk dw2)" "(k, meta_of copy i) = map_prod id (meta_of copy) (made_inode env st copy ?dk l)"
      "\<And>q. dk_tree ?dk q = Some k \<Longrightarrow> dk_inodes ?dk k = i"
      "is_symlink_node i = has_mode (st_mode copy) mode_symlink" "mode_is_dir (in_mode i) = stat_is_dir st" "same_writer dw1 dw2"
      using make_node_made[OF mk[unfolded ok] free1 sync1 _ pc, of l] ready same1(1) unfolding link_ready_def by metis
    have "dk_tree ?dk v \<noteq> Some k" by (rule made_inode_other[OF v(2) assms(4) i(2)])
    then have "case old of None \<Rightarrow> t = v
      | Some o1 \<Rightarrow> node ?dk v = Some o1 \<and> butlast t = butlast v \<and> v \<noteq> [] \<and> \<not> (stat_is_dir st \<and> mode_is_dir (in_mode o1)) \<and> dk_tree ?dk v \<noteq> Some k"
      using assms(6,7) v t by (cases old) simp_all
    note F = finish_result[OF fin i(1) free assms(3) i(4,5,3) this]
    show ?thesis using changed_disk_base[OF F(1) i(2)] F(2) i(6) same1(2) by (simp add: same_writer_def)
  qed
qed

lemma update_dir_result:
  assumes "rewrite_metadata (we_disk env) (abs_path v) copy dk = (Inr u, dk2)" "change_place dk v" "plain_meta env st copy"
    and "dk_tree dk v = Some j" "stat_is_dir st" "mode_is_dir (in_mode (dk_inodes dk j))"
  shows "changed_disk st copy v (j, dk_inodes dk j) dk dk2"
proof -
  have v: "v \<noteq> []" "wf_disk dk" using assms(2) by (simp_all add: change_place_def)
  have at: "entry_at dk v j" using assms(4) v by (simp add: entry_at_def)
  have ns: "\<not> is_symlink_node (dk_inodes dk j)" "\<not> has_mode (st_mode copy) mode_symlink"
    using assms(3,5,6) same_type_bits(2)[of st copy] by (auto simp: is_symlink_node_def plain_meta_def one_type_def)
  have dk2: "dk2 = set_inode j (meta_of copy) dk"
    by (rule rewrite_metadata_result[OF assms(1) at]) (use ns assms(3) in \<open>auto simp: plain_meta_def\<close>)
  have sh: "same_shape dk (set_inode j (meta_of copy) dk)" by (rule set_inode_result) simp
  have "entries dk2 v = Some (seen (meta_of copy (dk_inodes dk j)))" unfolding dk2 using assms(4) by (simp add: entries_def node_def)
  then have "entries dk2 = put_at v (seen (meta_of copy (dk_inodes dk j))) True (entries dk2)" by (auto simp: put_at_def fun_eq_iff)
  moreover have "dk_tree dk2 = put_at v j True (dk_tree dk)" using dk2 assms(4) by (auto simp: put_at_def fun_eq_iff)
  ultimately show ?thesis using same_shape_wf[OF sh] v(2) dk2 assms(5) by (simp add: changed_disk_def)
qed

lemma apply_stat_result:
  assumes "apply_stat env kind p (abs_path v) st copy dw = (r, dw')" "change_place (dw_disk dw) v"
    and "plain_meta env st copy" "link_ready dw st copy v l" "dwo_sync_data_cb (dw_opt dw) = None"
    and "\<And>p d. de_fail (we_disk env) ''lstat'' p d \<noteq> Some ENOENT"
  shows "r = None \<Longrightarrow> dw_disk dw' = dw_disk dw \<and> same_writer dw dw'"
    "r = Some (Inr ()) \<Longrightarrow> same_writer dw dw' \<and> changed_disk st copy v (base_inode env st copy (dw_disk dw) v l) (dw_disk dw) (dw_disk dw')"
proof -
  let ?ji = "base_inode env st copy (dw_disk dw) v l"
  obtain lst dw0 where l: "look_at (we_disk env) kind (abs_path v) dw = (lst, dw0)" by fastforce
  have dw0: "dw0 = dw" by (rule look_at_result(1)[OF l assms(2,6)])
  have goal: "(r = None \<longrightarrow> dw_disk dw' = dw_disk dw \<and> same_writer dw dw') \<and>
    (r = Some (Inr ()) \<longrightarrow> same_writer dw dw' \<and> changed_disk st copy v ?ji (dw_disk dw) (dw_disk dw'))"
  proof (cases lst)
    case (Inl e)
    then show ?thesis using assms(1) l by (auto simp: apply_stat_def)
  next
    case (Inr old)
    have node: "node (dw_disk dw) v = old" by (rule look_at_result(2)[OF l assms(2,6) Inr])
    show ?thesis
    proof (cases "case old of None \<Rightarrow> False | Some i \<Rightarrow> stat_is_dir st \<and> mode_is_dir (in_mode i)")
      case True
      then obtain o1 where o1: "old = Some o1" "stat_is_dir st" "mode_is_dir (in_mode o1)" by (auto split: option.splits)
      obtain j where j: "dk_tree (dw_disk dw) v = Some j" "dk_inodes (dw_disk dw) j = o1" using node o1(1) by (auto simp: node_def)
      obtain q dk2 where rm: "rewrite_metadata (we_disk env) (abs_path v) copy (dw_disk dw) = (q, dk2)" by fastforce
      have res: "r = Some (case q of Inl e \<Rightarrow> Inl (Wrap (''error setting dir metadata for '' @ abs_path v) e) | Inr x \<Rightarrow> Inr x)"
        "dw' = dw\<lparr>dw_disk := dk2\<rparr>"
        using assms(1) l dw0 Inr o1 rm by (auto simp: apply_stat_def wrap_err_def on_disk_def split: sum.splits)
      show ?thesis
      proof (cases q)
        case (Inl e)
        then show ?thesis using res(1) by simp
      next
        case (Inr u)
        have "?ji = (j, o1)" using j o1 by (simp add: base_inode_def)
        then show ?thesis using update_dir_result[OF rm[unfolded Inr] assms(2,3) j(1) o1(2)] j(2) o1(3) res Inr by simp
      qed
    next
      case False
      have run: "place_change env kind p (abs_path v) st copy old dw = (r, dw')"
        using assms(1) l dw0 Inr False by (simp add: apply_stat_def)
      have "?ji = made_inode env st copy (dw_disk dw) l" using False node by (auto simp: base_inode_def node_def split: option.splits)
      then show ?thesis using place_change_result[OF run assms(2-5) node False] by simp
    qed
  qed
  then show "r = None \<Longrightarrow> dw_disk dw' = dw_disk dw \<and> same_writer dw dw'"
    "r = Some (Inr ()) \<Longrightarrow> same_writer dw dw' \<and> changed_disk st copy v ?ji (dw_disk dw) (dw_disk dw')"
    by blast+
qed

text \<open>A change whose file the filter lets through.\<close>

lemma handle_change_put:
  assumes "handle_change n env kind p (StatInfo st) None dw = Some (Inr (), dw')" "kind \<noteq> ChangeKindDelete"
    and "join2 (dw_dest dw) p = abs_path v" "change_place (dw_disk dw) v" "apply_filter dw p st = (True, copy)"
    and "plain_meta env st copy" "link_ready dw st copy v l" "dwo_sync_data_cb (dw_opt dw) = None"
    and "\<And>p d. de_fail (we_disk env) ''lstat'' p d \<noteq> Some ENOENT"
  shows "same_writer dw dw'" "changed_disk st copy v (base_inode env st copy (dw_disk dw) v l) (dw_disk dw) (dw_disk dw')"
proof -
  have "same_writer dw dw' \<and> changed_disk st copy v (base_inode env st copy (dw_disk dw) v l) (dw_disk dw) (dw_disk dw')"
    using assms(1,3-5,7,8)
  proof (induction n arbitrary: dw)
    case (Suc n)
    note prems = Suc.prems(1-6)
    have live: "\<not> dw_done dw" using prems(1) by (auto split: if_splits)
    obtain r dw1 where body: "apply_stat env kind p (abs_path v) st copy dw = (r, dw1)" by fastforce
    have cb: "change_body env kind p (StatInfo st) dw = (r, dw1)"
      using body prems(2,4) assms(2) by (simp add: change_body_def)
    note A = apply_stat_result[OF body prems(3) assms(6) prems(5,6) assms(9)]
    show ?case
    proof (cases r)
      case None
      have d: "dw_disk dw1 = dw_disk dw" "same_writer dw dw1" using A(1)[OF None] by simp_all
      have "map_option cancel_on (handle_change n env kind p (StatInfo st) None dw1) = Some (Inr (), dw')"
        using prems(1) live cb None by simp
      then obtain q dw2 where h: "handle_change n env kind p (StatInfo st) None dw1 = Some (q, dw2)" "cancel_on (q, dw2) = (Inr (), dw')"
        by auto
      then have "q = Inr ()" "dw2 = dw'" by (auto simp: cancel_on_def split: sum.splits)
      moreover have "apply_filter dw1 p st = (True, copy)" using prems(4) d(2) by (simp add: apply_filter_def same_writer_def)
      moreover have "link_ready dw1 st copy v l" by (rule link_ready_same[OF prems(5) d(2,1)])
      ultimately show ?thesis using Suc.IH[of dw1] h(1) prems(2,3,6) d by (simp add: same_writer_def)
    next
      case (Some q)
      have "cancel_on (q, dw1) = (Inr (), dw')" using prems(1) live cb Some by simp
      then have "q = Inr ()" "dw1 = dw'" by (auto simp: cancel_on_def split: sum.splits)
      then show ?thesis using A(2) Some by simp
    qed
  qed simp
  then show "same_writer dw dw'" "changed_disk st copy v (base_inode env st copy (dw_disk dw) v l) (dw_disk dw) (dw_disk dw')"
    by blast+
qed

text \<open>Without a link the entries are put in place one by one.\<close>

lemma changed_disk_entries:
  assumes "changed_disk st copy v (base_inode env st copy dk v l) dk dk'" "\<not> makes_link st copy" "wf_disk dk"
  shows "entries dk' = put_entry v (seen (meta_of copy (base_node env st copy (node dk v)))) (entries dk)"
proof -
  obtain j i where ji: "base_inode env st copy dk v l = (j, i)" by (cases "base_inode env st copy dk v l")
  have i: "i = base_node env st copy (node dk v)" using base_inode_node[OF assms(2), of env dk v l] ji by simp
  have dir: "mode_is_dir (in_mode (base_node env st copy old)) = stat_is_dir st" for old
    by (auto simp: base_node_def blank_node_def fresh_inode_def type_bits split: option.splits)
  have only: "entries (set_inode j (meta_of copy) dk) q = entries dk q" if "q \<noteq> v" for q
  proof -
    have "dk_tree dk q \<noteq> Some j"
    proof (cases "j = dk_next dk")
      case True
      then show ?thesis using wf_diskD(2)[OF assms(3), of q j] by auto
    next
      case False
      then have "dk_tree dk v = Some j" "mode_is_dir (in_mode (dk_inodes dk j))"
        using ji assms(2) by (auto simp: base_inode_def made_inode_def split: option.splits if_splits)
      then show ?thesis using wf_diskD(5)[OF assms(3), of v j q] that by auto
    qed
    then show ?thesis using set_inode_result(2)[where f = "meta_of copy" and dk = dk and i = j and q = q] by simp
  qed
  have "entries dk' = put_at v (seen (meta_of copy i)) (stat_is_dir st) (entries (set_inode j (meta_of copy) dk))"
    using assms(1) ji by (simp add: changed_disk_def)
  also have "\<dots> = put_entry v (seen (meta_of copy i)) (entries dk)"
    using only dir by (auto simp: put_entry_at put_at_def i fun_eq_iff)
  finally show ?thesis using i by simp
qed

text \<open>A deletion: the directories above are real, as far as they exist.\<close>

definition remove_entry :: "vpath \<Rightarrow> (vpath \<Rightarrow> 'x option) \<Rightarrow> vpath \<Rightarrow> 'x option" where
  "remove_entry v m q = (if prefix v q then None else m q)"

lemma resolve_missing:
  assumes "wf_disk dk" "is_dir_at dk cur" "list_all good_comp cs" "\<not> is_dir_at dk (cur @ cs)"
    and "\<And>u. prefix u (cur @ cs) \<Longrightarrow> dk_tree dk u \<noteq> None \<Longrightarrow> is_dir_at dk u"
  shows "resolve_dirs n dk cur cs = Inl ENOENT"
  using assms(2-5)
proof (induction cs arbitrary: cur)
  case (Cons c cs)
  have c: "c \<noteq> []" "c \<noteq> ''.''" "c \<noteq> ''..''" using Cons.prems(2) by (auto simp: good_comp_def)
  show ?case
  proof (cases "node dk (cur @ [c])")
    case None
    then show ?thesis using c by (simp add: resolve_dirs.simps del: node_None_iff)
  next
    case (Some i)
    then have "dk_tree dk (cur @ [c]) \<noteq> None" by (auto simp: node_def)
    then have d: "is_dir_at dk (cur @ [c])" by (rule Cons.prems(4)[rotated]) simp
    then have "mode_is_dir (in_mode i)" "\<not> is_symlink_node i" using Some by (simp_all add: is_dir_at_def is_symlink_node_def)
    moreover have "resolve_dirs n dk (cur @ [c]) cs = Inl ENOENT"
      by (rule Cons.IH[OF d]) (use Cons.prems(2-4) in \<open>simp_all\<close>)
    ultimately show ?thesis using c Some by (simp add: resolve_dirs.simps(2))
  qed
qed simp

lemma remove_path_locate:
  assumes "wf_disk dk" "v \<noteq> []" "list_all good_comp v"
    and "\<And>w. strict_prefix w v \<Longrightarrow> dk_tree dk w \<noteq> None \<Longrightarrow> is_dir_at dk w"
  shows "locate env dk (abs_path v) = Inr v \<or> locate env dk (abs_path v) = Inl ENOENT \<and> dk_tree dk v = None"
proof (cases "is_dir_at dk (butlast v)")
  case True
  have "good_comp (last v)" using assms(2,3) by (cases v rule: rev_cases) simp_all
  from locate_real(1)[OF assms(1) True this, of env] show ?thesis using assms(2) by (simp add: abs_path_def)
next
  case False
  have b: "butlast v \<noteq> []" using False wf_diskD(1)[OF assms(1)] by auto
  have "resolve_dirs n dk [] (butlast v) = Inl ENOENT" for n
  proof (rule resolve_missing[OF assms(1) wf_diskD(1)[OF assms(1)]])
    show "list_all good_comp (butlast v)" using assms(3) by (auto simp: list_all_iff dest: in_set_butlastD)
    show "is_dir_at dk u" if u: "prefix u ([] @ butlast v)" "dk_tree dk u \<noteq> None" for u
    proof (rule assms(4)[OF _ u(2)])
      have "strict_prefix (butlast v) v" using assms(2) prefixeq_butlast[of v] by (metis not_prefix_butlast prefix_order.le_less prefix_order.order_refl)
      then show "strict_prefix u v" using u(1) by (simp add: prefix_order.le_less_trans)
    qed
  qed (use False in simp)
  then have "locate env dk (abs_path v) = Inl ENOENT"
    using split_abs_path[OF assms(3)] assms(2,3) b
    by (cases v rule: rev_cases) (simp_all add: locate_def locate_from_def Let_def abs_path_def is_abs_def resolve_dirs.simps(2))
  moreover have "dk_tree dk v = None" using False wf_diskD(3)[OF assms(1) _ assms(2)] by (metis option.exhaust)
  ultimately show ?thesis by simp
qed

lemma remove_all_path:
  assumes "os_remove_all env (abs_path v) dk = (Inr u, dk')" "wf_disk dk" "v \<noteq> []" "list_all good_comp v"
    and "\<And>w. strict_prefix w v \<Longrightarrow> dk_tree dk w \<noteq> None \<Longrightarrow> is_dir_at dk w"
  shows "wf_disk dk'" "entries dk' = remove_entry v (entries dk)" "dk_tree dk' = remove_entry v (dk_tree dk)" "dk_next dk' = dk_next dk"
proof -
  have "wf_disk dk' \<and> entries dk' = remove_entry v (entries dk) \<and> dk_tree dk' = remove_entry v (dk_tree dk) \<and> dk_next dk' = dk_next dk"
  proof (cases "dk_tree dk v")
    case (Some j)
    have "entry_at dk v j" using Some assms(2,3) by (simp add: entry_at_def)
    from remove_all_result[OF assms(1) this] show ?thesis by (auto simp: remove_entry_def fun_eq_iff)
  next
    case None
    have none: "dk_tree dk q = None" if "prefix v q" for q
      using no_entry_below[OF assms(2) _ that] None by (cases "q = v") (auto simp: is_dir_at_iff)
    have "dk' = dk" using remove_path_locate[OF assms(2-5), of env] assms(1) None by (auto simp: os_remove_all_def)
    then show ?thesis using assms(2) none by (auto simp: remove_entry_def fun_eq_iff)
  qed
  then show "wf_disk dk'" "entries dk' = remove_entry v (entries dk)" "dk_tree dk' = remove_entry v (dk_tree dk)" "dk_next dk' = dk_next dk"
    by simp_all
qed

lemma handle_change_remove:
  assumes "handle_change n env ChangeKindDelete p fi None dw = Some (Inr (), dw')"
    and "join2 (dw_dest dw) p = abs_path v" "fst (apply_filter dw p empty_stat)" "wf_disk (dw_disk dw)" "v \<noteq> []" "list_all good_comp v"
    and "\<And>w. strict_prefix w v \<Longrightarrow> dk_tree (dw_disk dw) w \<noteq> None \<Longrightarrow> is_dir_at (dw_disk dw) w"
  shows "wf_disk (dw_disk dw')" "same_writer dw dw'" "entries (dw_disk dw') = remove_entry v (entries (dw_disk dw))"
    "dk_tree (dw_disk dw') = remove_entry v (dk_tree (dw_disk dw))" "dk_next (dw_disk dw') = dk_next (dw_disk dw)"
proof -
  obtain m where n: "n = Suc m" using assms(1) by (cases n) auto
  have live: "\<not> dw_done dw" using assms(1) n by (auto split: if_splits)
  obtain r dw1 where h: "handle_delete env p (abs_path v) dw = (r, dw1)" by fastforce
  have "cancel_on (r, dw1) = (Inr (), dw')" using assms(1,2) n live h by (simp add: change_body_def)
  then have r: "r = Inr ()" "dw1 = dw'" by (auto simp: cancel_on_def split: sum.splits)
  then obtain dk u where d: "os_remove_all (we_disk env) (abs_path v) (dw_disk dw) = (Inr u, dk)" "dw_disk dw' = dk" "same_writer dw dw'"
    using h assms(3) by (auto simp: handle_delete_def succeeds split: option.splits)
  from remove_all_path[OF d(1) assms(4-7)] d(2,3)
  show "wf_disk (dw_disk dw')" "same_writer dw dw'" "entries (dw_disk dw') = remove_entry v (entries (dw_disk dw))"
    "dk_tree (dw_disk dw') = remove_entry v (dk_tree (dw_disk dw))" "dk_next (dw_disk dw') = dk_next (dw_disk dw)" by simp_all
qed

end
