(* ===== verification/Disk_Progress.thy ===== *)
theory Disk_Progress
  imports Disk_Apply
begin

text \<open>
  A change is applied when the environment does not fail: no call of the writer fails for what it finds
  on the disk, and one attempt is enough.
\<close>

definition faultless :: "disk_env \<Rightarrow> bool" where
  "faultless env \<longleftrightarrow> (\<forall>op p dk. de_fail env op p dk = None)"

lemma faultlessD [simp]: "faultless env \<Longrightarrow> de_fail env op p dk = None"
  by (simp add: faultless_def)

text \<open>Metadata.\<close>

lemma rewrite_metadata_ok:
  assumes "faultless env" "entry_at dk v j" "is_symlink_node (dk_inodes dk j) = has_mode (st_mode st) mode_symlink"
    and "is_symlink_node (dk_inodes dk j) \<Longrightarrow> st_xattrs st = []"
  shows "rewrite_metadata env (abs_path v) st dk = (Inr (), set_inode j (meta_of st) dk)"
proof -
  let ?x = "\<lambda>i. i\<lparr>in_xattrs := in_xattrs i ++ map_of (rev (st_xattrs st))\<rparr>"
  have x: "set_xattrs env (abs_path v) (st_xattrs st) dk = set_inode j ?x dk"
    using set_xattrs_result[OF assms(2)] assms(1,4) by (cases "is_symlink_node (dk_inodes dk j)") (auto simp: set_inode_def)
  let ?o = "\<lambda>i. (?x i)\<lparr>in_uid := owner_or (st_uid st) (in_uid i), in_gid := owner_or (st_gid st) (in_gid i)\<rparr>"
  let ?c = "\<lambda>i. (?o i)\<lparr>in_mode := (in_mode i AND NOT chmod_bits) OR (st_mode st AND chmod_bits)\<rparr>"
  have tree: "dk_tree (set_inode j f dk) v = Some j" for f using assms(2) by (simp add: entry_at_def)
  have e1: "entry_at (set_inode j ?x dk) v j" by (rule entry_at_set[OF assms(2)]) simp
  have e2: "entry_at (set_inode j ?o dk) v j" by (rule entry_at_set[OF assms(2)]) simp
  have e3: "entry_at (set_inode j ?c dk) v j" by (rule entry_at_set[OF assms(2)]) simp
  have own: "os_lchown env (abs_path v) (st_uid st) (st_gid st) (set_inode j ?x dk) = (Inr (), set_inode j ?o dk)"
    using entry_at_locate(1)[OF e1, of env] assms(1) tree by (simp add: os_lchown_def os_call_def k_update_def)
  show ?thesis
  proof (cases "has_mode (st_mode st) mode_symlink")
    case True
    have "os_utimes env (abs_path v) (st_modtime st) (set_inode j ?o dk) = (Inr (), set_inode j (\<lambda>i. (?o i)\<lparr>in_mtime := st_modtime st\<rparr>) dk)"
      using entry_at_locate(1)[OF e2, of env] assms(1) tree by (simp add: os_utimes_def os_call_def k_update_def)
    then show ?thesis using True own x
      by (simp add: rewrite_metadata_def chtimes_def try_bind_def wrap_err_def meta_of_def set_inode_def)
  next
    case False
    then have "\<not> is_symlink_node (dk_inodes (set_inode j ?o dk) j)" using assms(3) by (simp add: is_symlink_node_def)
    then have "os_chmod env (abs_path v) (st_mode st) (set_inode j ?o dk) = (Inr (), set_inode j ?c dk)"
      using entry_at_locate(2)[OF e2, of env] assms(1) tree by (simp add: os_chmod_def os_call_def k_update_def)
    moreover have "os_utimes env (abs_path v) (st_modtime st) (set_inode j ?c dk) = (Inr (), set_inode j (\<lambda>i. (?c i)\<lparr>in_mtime := st_modtime st\<rparr>) dk)"
      using entry_at_locate(1)[OF e3, of env] assms(1) tree by (simp add: os_utimes_def os_call_def k_update_def)
    ultimately show ?thesis using False own x
      by (simp add: rewrite_metadata_def chtimes_def try_bind_def wrap_err_def meta_of_def set_inode_def)
  qed
qed

text \<open>Making the new file.\<close>

lemma k_create_ok: "dk_tree dk v = None \<Longrightarrow> \<exists>n dk'. k_create v i dk = Inr (n, dk')"
  by (simp add: k_create_def)

lemma make_regular_ok:
  assumes "faultless (we_disk env)" "free_place (dw_disk dw) v" "dwo_sync_data_cb (dw_opt dw) = None"
  shows "\<exists>dw'. make_regular env p st (abs_path v) dw = (Inr (), dw')"
proof -
  have none: "dk_tree (dw_disk dw) v = None" using assms(2) by (simp add: free_place_def)
  let ?i = "created (we_disk env) 0 (st_mode st) (dw_disk dw)"
  obtain n dk1 where 1: "k_create v ?i (dw_disk dw) = Inr (n, dk1)" using k_create_ok[OF none] by blast
  obtain fd dk2 where 2: "new_fd n dk1 = (fd, dk2)" by fastforce
  then have fd: "dk_fds dk2 fd \<noteq> None" by (auto simp: new_fd_def)
  have "os_create (we_disk env) (abs_path v) (st_mode st) (dw_disk dw) = (Inr fd, dk2)"
    using free_place_locate(2)[OF assms(2), of "we_disk env"] assms(1) 1 2 none
    by (simp add: os_create_def os_call_def k_open_create_def)
  moreover obtain dk3 where "file_close (we_disk env) fd dk2 = (Inr (), dk3)"
    using fd assms(1) by (auto simp: file_close_def)
  ultimately show ?thesis using assms(3) by (simp add: make_regular_def on_disk_def wrap_err_def try_bind_def)
qed

lemma make_node_ok:
  assumes "faultless (we_disk env)" "free_place (dw_disk dw) v" "dwo_sync_data_cb (dw_opt dw) = None"
    and "makes_link st copy \<Longrightarrow> link_source dw copy l \<and> \<not> is_dir_at (dw_disk dw) l"
  shows "\<exists>regular dw'. make_node env p dest st copy (abs_path v) dw = (MakeOk regular, dw')"
proof -
  note loc = free_place_locate(1)[OF assms(2), of "we_disk env"]
  have none: "dk_tree (dw_disk dw) v = None" using assms(2) by (simp add: free_place_def)
  have mk: "\<exists>n dk. os_call (we_disk env) op (abs_path v) (\<lambda>dk. locate (we_disk env) dk (abs_path v))
      (\<lambda>v dk. k_create v (f dk) dk) (dw_disk dw) = (Inr n, dk)" for op f
    using loc assms(1) none by (simp add: os_call_def k_create_def)
  show ?thesis
  proof (cases "stat_is_dir st")
    case True
    obtain n dk where "os_mkdir (we_disk env) (abs_path v) (st_mode st) (dw_disk dw) = (Inr n, dk)"
      using mk unfolding os_mkdir_def by blast
    then show ?thesis using True by (auto simp: make_node_def on_disk_def)
  next
    case dir: False
    show ?thesis
    proof (cases "is_special st")
      case True
      obtain n dk where "handle_special env (abs_path v) copy (dw_disk dw) = (Inr n, dk)"
        using mk[of "''mknod''" "\<lambda>dk. (created (we_disk env) (special_kind (st_mode copy)) (st_mode copy AND 0xFFF) dk)
          \<lparr>in_rdev := we_mkdev env (ucast (st_devmajor copy)) (ucast (st_devminor copy))\<rparr>"]
        by (auto simp: handle_special_def os_mknod_def)
      then show ?thesis using True dir by (auto simp: make_node_def is_special_def on_disk_def make_of_def wrap_err_def)
    next
      case special: False
      show ?thesis
      proof (cases "has_mode (st_mode st) mode_symlink")
        case True
        obtain n dk where "os_symlink (we_disk env) (st_linkname copy) (abs_path v) (dw_disk dw) = (Inr n, dk)"
          using mk[of "''symlink''" "\<lambda>dk. (fresh_inode (we_disk env) (mode_symlink OR mode_perm))
            \<lparr>in_target := st_linkname copy, in_mtime := dk_clock dk\<rparr>"] by (auto simp: os_symlink_def)
        then show ?thesis using True dir special by (auto simp: make_node_def is_special_def on_disk_def make_of_def wrap_err_def)
      next
        case False
        show ?thesis
        proof (cases "makes_link st copy")
          case True
          then obtain j where j: "join2 (dw_dest dw) (st_linkname copy) = abs_path l" "entry_at (dw_disk dw) l j"
            "\<not> mode_is_dir (in_mode (dk_inodes (dw_disk dw) j))" "st_linkname copy \<noteq> []"
            using assms(4) by (auto simp: link_source_def makes_link_def entry_at_def is_dir_at_iff)
          then obtain dk where "os_link (we_disk env) (abs_path l) (abs_path v) (dw_disk dw) = (Inr (), dk)"
            using loc assms(1) none entry_at_locate(1)[OF j(2), of "we_disk env"] by (auto simp: os_link_def os_call_def k_link_def entry_at_def)
          then show ?thesis using False dir special j by (auto simp: make_node_def is_special_def on_disk_def make_of_def wrap_err_def)
        next
          case nolink: False
        from nolink have "st_linkname copy = []" using False dir special by (simp add: makes_link_def)
        moreover obtain dw' where "make_regular env p st (abs_path v) dw = (Inr (), dw')" using make_regular_ok[OF assms(1-3)] by blast
        ultimately show ?thesis using False dir special by (auto simp: make_node_def is_special_def make_of_def)
        qed
      qed
    qed
  qed
qed

text \<open>Moving it to its place.\<close>

lemma rename_ok:
  assumes "faultless env" "entry_at dk old j" "new \<noteq> []" "is_dir_at dk (butlast new)" "good_comp (last new)"
    and "\<not> is_dir_at dk new" "\<not> strict_prefix old new" "dk_tree dk new = None \<or> \<not> mode_is_dir (in_mode (dk_inodes dk j))"
  shows "\<exists>dk'. rename_file env (abs_path old) (abs_path new) dk = (Inr (), dk')"
proof -
  have wf: "wf_disk dk" "dk_tree dk old = Some j" using assms(2) by (simp_all add: entry_at_def)
  have l: "locate env dk (abs_path new) = Inr new"
    using locate_real(1)[OF wf(1) assms(4,5)] assms(3) by (simp add: abs_path_def)
  have "\<exists>dk'. k_rename old new dk = Inr ((), dk')"
    using wf(2) assms(6-8) by (auto simp: k_rename_def)
  then show ?thesis
    using l entry_at_locate(1)[OF assms(2), of env] assms(1) by (auto simp: rename_file_def os_rename_def os_call_def wrap_err_def)
qed

lemma move_ok:
  assumes "faultless env" "entry_added dk tmp k i dk2" "free_place dk tmp" "entry_at dk v j" "old = dk_inodes dk j" "butlast tmp = butlast v"
    and "\<not> (stat_is_dir st \<and> mode_is_dir (in_mode old))" "mode_is_dir (in_mode i) = stat_is_dir st"
  shows "\<exists>dk'. move_into_place env (abs_path tmp) (abs_path v) st (Some old) dk2 = (Inr (), dk')"
proof -
  have wf: "wf_disk dk" "v \<noteq> []" "dk_tree dk v = Some j" using assms(4) by (simp_all add: entry_at_def)
  have tmp: "tmp \<noteq> []" "dk_tree dk tmp = None" using assms(3) by (simp_all add: free_place_def)
  then have ne: "tmp \<noteq> v" using wf(3) by auto
  have len: "length tmp = length v" using assms(6) tmp(1) wf(2) by (metis append_butlast_last_id length_append_singleton)
  then have apart: "\<not> prefix v tmp" "\<not> strict_prefix tmp v" using ne by (auto simp: prefix_def strict_prefix_def)
  have n: "wf_disk dk2" "dk_tree dk2 = (dk_tree dk)(tmp \<mapsto> k)" "dk_inodes dk2 (k) = i"
    "entries dk2 = (entries dk)(tmp \<mapsto> seen i)" using assms(2) by (simp_all add: entry_added_def)
  have at2: "entry_at dk2 v j" "entry_at dk2 tmp (k)" using n wf ne tmp by (simp_all add: entry_at_def)
  have par: "is_dir_at dk2 (butlast v)" "good_comp (last v)" using wf_diskD(3,4)[OF n(1), of v j] wf(2) at2 by (simp_all add: entry_at_def)
  show ?thesis
  proof (cases "mode_is_dir (in_mode old) = stat_is_dir st")
    case True
    then have nd: "\<not> mode_is_dir (in_mode old)" "\<not> mode_is_dir (in_mode i)" using assms(7,8) by auto
    have "\<not> is_dir_at dk v" using wf(3) nd(1) assms(5) by (simp add: is_dir_at_iff)
    then have "\<not> is_dir_at dk2 v" using n(4) ne by (simp add: is_dir_at_entries)
    then have "\<exists>dk'. rename_file env (abs_path tmp) (abs_path v) dk2 = (Inr (), dk')"
      using rename_ok[OF assms(1) at2(2) wf(2) par _ apart(2)] nd(2) n(3) by simp
    then show ?thesis using True by (auto simp: move_into_place_def try_bind_def wrap_err_def)
  next
    case False
    obtain dk3 where rm: "os_remove_all env (abs_path v) dk2 = (Inr (), dk3)"
      using entry_at_locate(1)[OF at2(1), of env] at2(1) assms(1) by (simp add: os_remove_all_def entry_at_def)
    note d = remove_all_result[OF rm at2(1)]
    have at3: "entry_at dk3 tmp (k)" using d(1,3) n(2) apart tmp by (simp add: entry_at_def)
    have par3: "is_dir_at dk3 (butlast v)" using par(1) wf(2) d(2) by (simp add: is_dir_at_entries)
    have free: "dk_tree dk3 v = None" using d(3) by simp
    then have "\<not> is_dir_at dk3 v" by (simp add: is_dir_at_iff)
    then have "\<exists>dk'. rename_file env (abs_path tmp) (abs_path v) dk3 = (Inr (), dk')"
      using rename_ok[OF assms(1) at3 wf(2) par3 par(2) _ apart(2)] free by simp
    then show ?thesis using False rm by (auto simp: move_into_place_def try_bind_def wrap_err_def)
  qed
qed

text \<open>The end of a change, when there is nobody to notify.\<close>

lemma report_ok: "dwo_notify_cb (dw_opt dw) = None \<Longrightarrow> \<exists>dw'. report_change env kind p dest st copy regular dw = (Inr (), dw')"
  by (simp add: report_change_def process_change_def)

lemma finish_ok:
  assumes "faultless (we_disk env)" "entry_added dk t k i (dw_disk dw)" "free_place dk t" "plain_meta env st copy"
    and "is_symlink_node i = has_mode (st_mode copy) mode_symlink" "mode_is_dir (in_mode i) = stat_is_dir st"
    and "\<And>q. dk_tree dk q = Some k \<Longrightarrow> dk_inodes dk k = i"
    and "case old of None \<Rightarrow> t = v
      | Some o1 \<Rightarrow> node dk v = Some o1 \<and> butlast t = butlast v \<and> v \<noteq> [] \<and> \<not> (stat_is_dir st \<and> mode_is_dir (in_mode o1)) \<and> dk_tree dk v \<noteq> Some k"
    and "dwo_notify_cb (dw_opt dw) = None"
  shows "\<exists>dw'. finish_change env kind p (abs_path v) st copy (abs_path t) old regular dw = (Inr (), dw')"
proof -
  have t: "t \<noteq> []" "wf_disk dk" using assms(3) by (simp_all add: free_place_def)
  have at: "entry_at (dw_disk dw) t k" by (rule new_entry_at[OF assms(2) t(1)])
  have i: "dk_inodes (dw_disk dw) k = i" using assms(2) by (simp add: entry_added_def)
  let ?dk2 = "set_inode k (meta_of copy) (dw_disk dw)" and ?d = "set_inode k (meta_of copy) dk"
  have meta: "rewrite_metadata (we_disk env) (abs_path t) copy (dw_disk dw) = (Inr (), ?dk2)"
    using rewrite_metadata_ok[OF assms(1) at] i assms(4,5) by (simp add: plain_meta_def)
  have n2: "entry_added ?d t k (meta_of copy i) ?dk2" using entry_added_meta[OF assms(2,7)] by simp
  have sh: "same_shape dk ?d" by (rule set_inode_result(1)) simp
  then have free: "free_place ?d t" using assms(3) same_shape_free by blast
  obtain dk3 where mv: "move_into_place (we_disk env) (abs_path t) (abs_path v) st old ?dk2 = (Inr (), dk3)"
  proof (cases old)
    case None
    then show ?thesis using that by (simp add: move_into_place_def)
  next
    case (Some o1)
    then have o1: "node dk v = Some o1" "butlast t = butlast v" "v \<noteq> []" "\<not> (stat_is_dir st \<and> mode_is_dir (in_mode o1))" "dk_tree dk v \<noteq> Some k"
      using assms(8) by simp_all
    then obtain j where j: "dk_tree dk v = Some j" "o1 = dk_inodes dk j" "j \<noteq> k" by (auto simp: node_def)
    then have "entry_at ?d v j" "o1 = dk_inodes ?d j" using o1(3) t(2) same_shape_wf[OF sh] by (simp_all add: entry_at_def)
    from move_ok[OF assms(1) n2 free this o1(2,4)] show ?thesis using assms(6) Some that by auto
  qed
  then show ?thesis
    using meta report_ok[of "dw\<lparr>dw_disk := dk3\<rparr>"] assms(9) by (simp add: finish_change_def on_disk_def try_bind_def wrap_err_def)
qed

text \<open>What a link names is no directory.\<close>

definition link_file :: "disk_writer \<Rightarrow> stat \<Rightarrow> stat \<Rightarrow> vpath \<Rightarrow> bool" where
  "link_file dw st copy l \<longleftrightarrow> (makes_link st copy \<longrightarrow> \<not> is_dir_at (dw_disk dw) l)"

lemma place_change_ok:
  assumes "faultless (we_disk env)" "change_place (dw_disk dw) v" "plain_meta env st copy" "link_ready dw st copy v l" "link_file dw st copy l"
    and "dwo_sync_data_cb (dw_opt dw) = None" "dwo_notify_cb (dw_opt dw) = None" "node (dw_disk dw) v = old"
    and "\<not> (case old of None \<Rightarrow> False | Some i \<Rightarrow> stat_is_dir st \<and> mode_is_dir (in_mode i))"
  shows "\<exists>dw'. place_change env kind p (abs_path v) st copy old dw = (Some (Inr ()), dw')"
proof -
  let ?dk = "dw_disk dw"
  have v: "v \<noteq> []" "wf_disk ?dk" using assms(2) by (simp_all add: change_place_def)
  obtain t dw1 where free: "free_place ?dk t" and t: "if old = None then t = v else butlast t = butlast v \<and> temp_name (last t)"
    and same1: "dw_disk dw1 = ?dk" "same_writer dw dw1"
    and pc: "place_change env kind p (abs_path v) st copy old dw = make_change env kind p (abs_path v) st copy old (abs_path t) dw1"
    by (rule place_change_run[OF assms(2,8), where env = env and kind = kind and p = p and st = st and copy = copy], rule that)
  have opt: "dw_opt dw1 = dw_opt dw" using same1(2) by (simp add: same_writer_def)
  have plain: "same_type st copy" "one_type st" using assms(3) by (simp_all add: plain_meta_def)
  have ready: "link_ready dw1 st copy v l" by (rule link_ready_same[OF assms(4) same1(2,1)])
  then have src: "makes_link st copy \<Longrightarrow> link_source dw1 copy l" "makes_link st copy \<Longrightarrow> link_source dw1 copy l \<and> \<not> is_dir_at (dw_disk dw1) l"
    using assms(5) same1(1) by (simp_all add: link_ready_def link_file_def)
  have free1: "free_place (dw_disk dw1) t" and sync1: "dwo_sync_data_cb (dw_opt dw1) = None" using free same1(1) opt assms(6) by simp_all
  obtain regular dw2 where mk: "make_node env p (abs_path v) st copy (abs_path t) dw1 = (MakeOk regular, dw2)"
    using make_node_ok[OF assms(1) free1 sync1 src(2)] by blast
  obtain k i where i: "entry_added ?dk t k i (dw_disk dw2)" "(k, meta_of copy i) = map_prod id (meta_of copy) (made_inode env st copy ?dk l)"
    "\<And>q. dk_tree ?dk q = Some k \<Longrightarrow> dk_inodes ?dk k = i"
    "is_symlink_node i = has_mode (st_mode copy) mode_symlink" "mode_is_dir (in_mode i) = stat_is_dir st" "same_writer dw1 dw2"
    using make_node_made[OF mk free1 sync1 src(1) plain] same1(1) by metis
  have "dk_tree ?dk v \<noteq> Some k" by (rule made_inode_other[OF v(2) assms(4) i(2)])
  then have cs: "case old of None \<Rightarrow> t = v
      | Some o1 \<Rightarrow> node ?dk v = Some o1 \<and> butlast t = butlast v \<and> v \<noteq> [] \<and> \<not> (stat_is_dir st \<and> mode_is_dir (in_mode o1)) \<and> dk_tree ?dk v \<noteq> Some k"
    using assms(8,9) v t by (cases old) simp_all
  have nt: "dwo_notify_cb (dw_opt dw2) = None" using i(6) opt assms(7) by (simp add: same_writer_def)
  have "\<exists>dw3. finish_change env kind p (abs_path v) st copy (abs_path t) old regular dw2 = (Inr (), dw3)"
    by (rule finish_ok[OF assms(1) i(1) free assms(3) i(4,5) _ cs nt]) (rule i(3))
  then obtain dw3 where "finish_change env kind p (abs_path v) st copy (abs_path t) old regular dw2 = (Inr (), dw3)" ..
  then show ?thesis using pc mk by (simp add: make_change_def)
qed

lemma look_at_ok:
  assumes "faultless env" "change_place (dw_disk dw) v" "kind = ChangeKindAdd \<or> node (dw_disk dw) v \<noteq> None"
  shows "look_at env kind (abs_path v) dw = (Inr (node (dw_disk dw) v), dw)"
proof -
  have "v = butlast v @ [last v]" "wf_disk (dw_disk dw)" "is_dir_at (dw_disk dw) (butlast v)" "good_comp (last v)"
    using assms(2) by (simp_all add: change_place_def)
  then have l: "locate env (dw_disk dw) (abs_path v) = Inr v"
    using locate_real(1)[of "dw_disk dw" "butlast v" "last v" env] by (simp add: abs_path_def)
  show ?thesis
    using l assms(1,3) by (cases "node (dw_disk dw) v") (auto simp: look_at_def on_disk_def os_lstat_def os_call_def k_lstat_def simp del: node_None_iff)
qed

lemma handle_change_put_ok:
  assumes "faultless (we_disk env)" "kind \<noteq> ChangeKindDelete" "join2 (dw_dest dw) p = abs_path v" "change_place (dw_disk dw) v"
    and "apply_filter dw p st = (True, copy)" "plain_meta env st copy" "link_ready dw st copy v l" "link_file dw st copy l"
    and "dwo_sync_data_cb (dw_opt dw) = None" "dwo_notify_cb (dw_opt dw) = None" "\<not> dw_done dw"
    and "kind = ChangeKindAdd \<or> node (dw_disk dw) v \<noteq> None"
  shows "\<exists>dw'. handle_change (Suc n) env kind p (StatInfo st) None dw = Some (Inr (), dw')"
proof -
  note look = look_at_ok[OF assms(1,4,12)]
  have "\<exists>dw'. apply_stat env kind p (abs_path v) st copy dw = (Some (Inr ()), dw')"
  proof (cases "case node (dw_disk dw) v of None \<Rightarrow> False | Some i \<Rightarrow> stat_is_dir st \<and> mode_is_dir (in_mode i)")
    case True
    then obtain i where i: "node (dw_disk dw) v = Some i" "stat_is_dir st" "mode_is_dir (in_mode i)" by (auto split: option.splits)
    then obtain j where j: "entry_at (dw_disk dw) v j" "i = dk_inodes (dw_disk dw) j"
      using assms(4) by (auto simp: change_place_def entry_at_def node_def)
    have "\<not> is_symlink_node i" "\<not> has_mode (st_mode copy) mode_symlink"
      using assms(6) i(2,3) same_type_bits(2)[of st copy] by (auto simp: is_symlink_node_def plain_meta_def one_type_def)
    then have "rewrite_metadata (we_disk env) (abs_path v) copy (dw_disk dw) = (Inr (), set_inode j (meta_of copy) (dw_disk dw))"
      using rewrite_metadata_ok[OF assms(1) j(1)] j(2) by simp
    then show ?thesis using look True by (simp add: apply_stat_def on_disk_def wrap_err_def)
  next
    case False
    obtain dw' where "place_change env kind p (abs_path v) st copy (node (dw_disk dw) v) dw = (Some (Inr ()), dw')"
      using place_change_ok[OF assms(1,4,6-10) refl False] by blast
    then show ?thesis using look False by (simp add: apply_stat_def)
  qed
  then obtain dw' where "apply_stat env kind p (abs_path v) st copy dw = (Some (Inr ()), dw')" by blast
  then show ?thesis using assms(2,3,5,11) by (simp add: change_body_def cancel_on_def)
qed

text \<open>Removing: nothing in the way is a file that is no directory, so nothing fails.\<close>

lemma remove_all_ok:
  assumes "faultless env" "wf_disk dk" "v \<noteq> []" "list_all good_comp v"
    and "\<And>w. strict_prefix w v \<Longrightarrow> dk_tree dk w \<noteq> None \<Longrightarrow> is_dir_at dk w"
  shows "\<exists>dk'. os_remove_all env (abs_path v) dk = (Inr (), dk')"
  using remove_path_locate[OF assms(2-5), of env] assms(1) by (auto simp: os_remove_all_def)

lemma handle_change_remove_ok:
  assumes "faultless (we_disk env)" "join2 (dw_dest dw) p = abs_path v" "fst (apply_filter dw p empty_stat)"
    and "wf_disk (dw_disk dw)" "v \<noteq> []" "list_all good_comp v"
    and "\<And>w. strict_prefix w v \<Longrightarrow> dk_tree (dw_disk dw) w \<noteq> None \<Longrightarrow> is_dir_at (dw_disk dw) w"
    and "dwo_notify_cb (dw_opt dw) = None" "\<not> dw_done dw"
  shows "\<exists>dw'. handle_change (Suc n) env ChangeKindDelete p fi None dw = Some (Inr (), dw')"
proof -
  obtain dk' where "os_remove_all (we_disk env) (abs_path v) (dw_disk dw) = (Inr (), dk')"
    using remove_all_ok[OF assms(1,4-7)] by blast
  then show ?thesis
    using assms(2,3,8,9) by (simp add: change_body_def handle_delete_def on_disk_def wrap_err_def try_bind_def cancel_on_def)
qed

end
