(* ===== verification/Tree_Ground.thy ===== *)
theory Tree_Ground
  imports Tree_Merge
begin

text \<open>
  The changes of a merge can be applied one by one to a real tree: when an entry is added or modified
  the directories above it are there, what is added was not there before, what is modified was, and what is removed has
  only directories above it, as far as they still exist. So a handler that works on a file system
  never has to look a path up through something that is not a directory.
\<close>

fun grounded :: "('p \<Rightarrow> 'p \<Rightarrow> bool) \<Rightarrow> ('x \<Rightarrow> bool) \<Rightarrow> ('p, 'x) tree \<Rightarrow> ('p, 'x) tree_change list \<Rightarrow> bool" where
  "grounded below isdir m [] = True"
| "grounded below isdir m (c # cs) =
     ((case c of
         TAdd q y \<Rightarrow> m q = None \<and> (\<forall>d. below d q \<longrightarrow> (\<exists>x. m d = Some x \<and> isdir x))
       | TMod q y \<Rightarrow> m q \<noteq> None \<and> (\<forall>d. below d q \<longrightarrow> (\<exists>x. m d = Some x \<and> isdir x))
       | TDel p \<Rightarrow> (\<forall>d x. below d p \<longrightarrow> m d = Some x \<longrightarrow> isdir x)) \<and>
      grounded below isdir (apply_change below isdir c m) cs)"

text \<open>What is added or modified is an entry of the second walk.\<close>

lemma merge_changes_stats:
  assumes "c \<in> set (merge_changes cmp below isdir same rm ls us)"
  shows "c = TAdd q y \<or> c = TMod q y \<Longrightarrow> (q, y) \<in> set us"
  using assms
  by (induction cmp below isdir same rm ls us rule: merge_changes.induct) (auto split: if_splits)

text \<open>
  The invariant: beside \<open>merge_state\<close>, the entries of the second walk that are behind are in the tree,
  nothing else is but what is left of the first walk, and what is left of the first walk below an
  entry that is no directory any more is known to be removed.
\<close>

definition ground_state ::
  "('p \<Rightarrow> 'p \<Rightarrow> int) \<Rightarrow> ('p \<Rightarrow> 'p \<Rightarrow> bool) \<Rightarrow> ('x \<Rightarrow> bool) \<Rightarrow> ('p \<times> 'x) list \<Rightarrow> ('p \<times> 'x) list \<Rightarrow>
   'p option \<Rightarrow> ('p \<times> 'x) list \<Rightarrow> ('p \<times> 'x) list \<Rightarrow> ('p, 'x) tree \<Rightarrow> bool" where
  "ground_state cmp below isdir wl wu rm ls us m \<longleftrightarrow>
     merge_state cmp below isdir wu rm ls us m \<and> closed_walk below isdir wl \<and> sorted_walk cmp wl \<and> sorted_walk cmp wu \<and>
     set ls \<subseteq> set wl \<and>
     (\<forall>q y. (q, y) \<in> set wu \<longrightarrow> (q, y) \<notin> set us \<longrightarrow> (\<exists>x. m q = Some x \<and> isdir x = isdir y)) \<and>
     (\<forall>p. m p \<noteq> None \<longrightarrow> p \<in> fst ` set ls \<or> (\<exists>y. (p, y) \<in> set wu \<and> (p, y) \<notin> set us)) \<and>
     (\<forall>p x q. (p, x) \<in> set wl \<longrightarrow> (p, x) \<notin> set ls \<longrightarrow> q \<in> fst ` (set ls \<union> set us) \<longrightarrow> cmp p q < 0) \<and>
     (\<forall>d y p. (d, y) \<in> set wu \<longrightarrow> (d, y) \<notin> set us \<longrightarrow> \<not> isdir y \<longrightarrow> p \<in> fst ` set ls \<longrightarrow> below d p \<longrightarrow> rm = Some d)"

locale walk_order_convex = walk_order cmp below for cmp :: "'p \<Rightarrow> 'p \<Rightarrow> int" and below +
  assumes below_between: "below d r \<Longrightarrow> cmp d q < 0 \<Longrightarrow> cmp q r < 0 \<Longrightarrow> below d q"
begin

lemma ground_stateD:
  assumes "ground_state cmp below isdir wl wu rm ls us m"
  shows "merge_state cmp below isdir wu rm ls us m" "closed_walk below isdir wl" "sorted_walk cmp wl" "sorted_walk cmp wu" "set ls \<subseteq> set wl"
    "\<And>q y. (q, y) \<in> set wu \<Longrightarrow> (q, y) \<notin> set us \<Longrightarrow> \<exists>x. m q = Some x \<and> isdir x = isdir y"
    "\<And>p. m p \<noteq> None \<Longrightarrow> p \<in> fst ` set ls \<or> (\<exists>y. (p, y) \<in> set wu \<and> (p, y) \<notin> set us)"
    "\<And>p x q. (p, x) \<in> set wl \<Longrightarrow> (p, x) \<notin> set ls \<Longrightarrow> q \<in> fst ` (set ls \<union> set us) \<Longrightarrow> cmp p q < 0"
    "\<And>d y p. (d, y) \<in> set wu \<Longrightarrow> (d, y) \<notin> set us \<Longrightarrow> \<not> isdir y \<Longrightarrow> p \<in> fst ` set ls \<Longrightarrow> below d p \<Longrightarrow> rm = Some d"
proof -
  note h = assms[unfolded ground_state_def]
  show "merge_state cmp below isdir wu rm ls us m" by (rule h[THEN conjunct1])
  show "closed_walk below isdir wl" by (rule h[THEN conjunct2, THEN conjunct1])
  show "sorted_walk cmp wl" by (rule h[THEN conjunct2, THEN conjunct2, THEN conjunct1])
  show "sorted_walk cmp wu" by (rule h[THEN conjunct2, THEN conjunct2, THEN conjunct2, THEN conjunct1])
  show "set ls \<subseteq> set wl" by (rule h[THEN conjunct2, THEN conjunct2, THEN conjunct2, THEN conjunct2, THEN conjunct1])
  show "\<And>q y. (q, y) \<in> set wu \<Longrightarrow> (q, y) \<notin> set us \<Longrightarrow> \<exists>x. m q = Some x \<and> isdir x = isdir y"
    using h[THEN conjunct2, THEN conjunct2, THEN conjunct2, THEN conjunct2, THEN conjunct2, THEN conjunct1] by (simp only: simp_thms)
  show "\<And>p. m p \<noteq> None \<Longrightarrow> p \<in> fst ` set ls \<or> (\<exists>y. (p, y) \<in> set wu \<and> (p, y) \<notin> set us)"
    using h[THEN conjunct2, THEN conjunct2, THEN conjunct2, THEN conjunct2, THEN conjunct2, THEN conjunct2, THEN conjunct1] by (simp only: simp_thms)
  show "\<And>p x q. (p, x) \<in> set wl \<Longrightarrow> (p, x) \<notin> set ls \<Longrightarrow> q \<in> fst ` (set ls \<union> set us) \<Longrightarrow> cmp p q < 0"
    using h[THEN conjunct2, THEN conjunct2, THEN conjunct2, THEN conjunct2, THEN conjunct2, THEN conjunct2, THEN conjunct2, THEN conjunct1] by (simp only: simp_thms)
  show "\<And>d y p. (d, y) \<in> set wu \<Longrightarrow> (d, y) \<notin> set us \<Longrightarrow> \<not> isdir y \<Longrightarrow> p \<in> fst ` set ls \<Longrightarrow> below d p \<Longrightarrow> rm = Some d"
    using h[THEN conjunct2, THEN conjunct2, THEN conjunct2, THEN conjunct2, THEN conjunct2, THEN conjunct2, THEN conjunct2, THEN conjunct2] by (simp only: simp_thms)
qed

lemma sorted_walk_unique: "sorted_walk cmp es \<Longrightarrow> (q, x) \<in> set es \<Longrightarrow> (q, y) \<in> set es \<Longrightarrow> x = y"
proof (induction es)
  case (Cons e es)
  have "(q, z) \<in> set es \<Longrightarrow> fst e \<noteq> q" for z using Cons.prems(1) by force
  then show ?case using Cons by auto
qed simp

text \<open>What is above the next entry of the second walk is there.\<close>

lemma above_next:
  assumes g: "ground_state cmp below isdir wl wu rm ls ((q, y) # us) m" and b: "below d q"
  shows "\<exists>x. m d = Some x \<and> isdir x"
proof -
  note D = ground_stateD[OF g] and M = merge_stateD(1-4)[OF ground_stateD(1)[OF g]]
  have "(q, y) \<in> set wu" using M(4) by auto
  then obtain z where z: "(d, z) \<in> set wu" "isdir z" by (rule closed_walkD[OF M(3) _ b])
  have "cmp d q < 0" by (rule below_greater[OF b])
  then have "(d, z) \<notin> set ((q, y) # us)" using M(2) cmp_asym by force
  from D(6)[OF z(1) this] z(2) show ?thesis by auto
qed

lemma next_new:
  assumes g: "ground_state cmp below isdir wl wu rm ls ((q, y) # us) m" and less: "\<forall>p \<in> fst ` set ls. cmp q p < 0"
  shows "m q = None"
proof (rule ccontr)
  assume "m q \<noteq> None"
  from ground_stateD(7)[OF g this] show False
  proof
    assume "q \<in> fst ` set ls"
    then show False using less cmp_irrefl by blast
  next
    assume "\<exists>z. (q, z) \<in> set wu \<and> (q, z) \<notin> set ((q, y) # us)"
    then show False using merge_state_beforeD[OF ground_stateD(1)[OF g]] cmp_irrefl by fastforce
  qed
qed

text \<open>Nothing that is no directory is above the next entry of the first walk, unless it is known to be removed.\<close>

lemma above_left:
  assumes g: "ground_state cmp below isdir wl wu rm ((p, x) # ls) us m" and "\<not> in_rm below rm p" "below d p" "m d = Some z"
  shows "isdir z"
proof -
  note D = ground_stateD[OF g] and M = merge_stateD(1-4)[OF ground_stateD(1)[OF g]]
  have less: "cmp d p < 0" by (rule below_greater[OF assms(3)])
  have "m d \<noteq> None" using assms(4) by simp
  then have "d \<in> fst ` set ((p, x) # ls) \<or> (\<exists>y. (d, y) \<in> set wu \<and> (d, y) \<notin> set us)" by (rule D(7))
  moreover have "d \<notin> fst ` set ((p, x) # ls)" using M(1) less cmp_asym by force
  ultimately obtain y where y: "(d, y) \<in> set wu" "(d, y) \<notin> set us" by blast
  obtain z' where z': "m d = Some z'" "isdir z' = isdir y" using D(6)[OF y] by blast
  have "isdir y"
  proof (rule ccontr)
    assume "\<not> isdir y"
    then have "rm = Some d" using D(9)[OF y _ _ assms(3)] by simp
    then show False using assms(2,3) by (simp add: in_rm_def)
  qed
  then show ?thesis using z' assms(4) by simp
qed

text \<open>An entry that is no directory has nothing of the second walk below it, also not between it and something of the first.\<close>

lemma not_between:
  assumes g: "ground_state cmp below isdir wl wu rm ls us m"
    and d: "(d, y) \<in> set wu" "(d, y) \<notin> set us" "\<not> isdir y" and q: "(q, z) \<in> set us" and p: "cmp q p < 0" "below d p"
  shows False
proof -
  note M = merge_stateD(1-4)[OF ground_stateD(1)[OF g]]
  have "cmp d q < 0" by (rule merge_state_beforeD[OF ground_stateD(1)[OF g] d(1,2)]) (use q in force)
  then have "below d q" using below_between p by blast
  moreover have "(q, z) \<in> set wu" using M(4) q by blast
  ultimately obtain y' where "(d, y') \<in> set wu" "isdir y'" using closed_walkD[OF M(3)] by blast
  then show False using sorted_walk_unique[OF ground_stateD(4)[OF g] d(1)] d(3) by blast
qed

lemma ground_stateI:
  assumes "merge_state cmp below isdir wu rm ls us m" "closed_walk below isdir wl" "sorted_walk cmp wl" "sorted_walk cmp wu" "set ls \<subseteq> set wl"
    and "\<And>q y. (q, y) \<in> set wu \<Longrightarrow> (q, y) \<notin> set us \<Longrightarrow> \<exists>x. m q = Some x \<and> isdir x = isdir y"
    and "\<And>p. m p \<noteq> None \<Longrightarrow> p \<in> fst ` set ls \<or> (\<exists>y. (p, y) \<in> set wu \<and> (p, y) \<notin> set us)"
    and "\<And>p x q. (p, x) \<in> set wl \<Longrightarrow> (p, x) \<notin> set ls \<Longrightarrow> q \<in> fst ` (set ls \<union> set us) \<Longrightarrow> cmp p q < 0"
    and "\<And>d y p. (d, y) \<in> set wu \<Longrightarrow> (d, y) \<notin> set us \<Longrightarrow> \<not> isdir y \<Longrightarrow> p \<in> fst ` set ls \<Longrightarrow> below d p \<Longrightarrow> rm = Some d"
  shows "ground_state cmp below isdir wl wu rm ls us m"
  unfolding ground_state_def using assms(1-5) by (intro conjI allI impI assms(6-9)) assumption+

lemma head_less:
  assumes "sorted_walk cmp ((p, x) # ls)" "(r, z) \<in> set ls"
  shows "cmp p r < 0"
  using assms by force

text \<open>What dropping the first entry of the first walk changes.\<close>

lemma ground_drop:
  assumes g: "ground_state cmp below isdir wl wu rm ((p, x) # ls) us m" and less: "\<forall>q \<in> fst ` set us. cmp p q < 0"
    and st: "merge_state cmp below isdir wu rm' ls us m'"
    and same: "\<And>q. cmp q p < 0 \<Longrightarrow> m' q = m q" and fewer: "\<And>q. m' q \<noteq> None \<Longrightarrow> m q \<noteq> None \<and> q \<noteq> p"
    and gone: "\<And>d y r. (d, y) \<in> set wu \<Longrightarrow> (d, y) \<notin> set us \<Longrightarrow> \<not> isdir y \<Longrightarrow> r \<in> fst ` set ls \<Longrightarrow> below d r \<Longrightarrow> rm' = Some d"
  shows "ground_state cmp below isdir wl wu rm' ls us m'"
proof (rule ground_stateI[OF st])
  note D = ground_stateD[OF g] and M = merge_stateD(1-4)[OF ground_stateD(1)[OF g]]
  show "closed_walk below isdir wl" "sorted_walk cmp wl" "sorted_walk cmp wu" by (fact D(2-4))+
  show "set ls \<subseteq> set wl" using D(5) by auto
  show "\<exists>z. m' q = Some z \<and> isdir z = isdir y" if "(q, y) \<in> set wu" "(q, y) \<notin> set us" for q y
  proof -
    have "cmp q p < 0" by (rule merge_state_beforeD[OF D(1) that]) simp
    then show ?thesis using D(6)[OF that] same by simp
  qed
  show "q \<in> fst ` set ls \<or> (\<exists>y. (q, y) \<in> set wu \<and> (q, y) \<notin> set us)" if "m' q \<noteq> None" for q
    using D(7)[of q] fewer[OF that] by auto
  show "cmp r q < 0" if "(r, z) \<in> set wl" "(r, z) \<notin> set ls" "q \<in> fst ` (set ls \<union> set us)" for r z q
  proof (cases "(r, z) = (p, x)")
    case True
    then show ?thesis using that(3) less head_less[OF M(1)] by auto
  next
    case False
    then show ?thesis using D(8)[OF that(1), of q] that(2,3) by auto
  qed
qed (rule gone)

lemma ground_skip:
  assumes "ground_state cmp below isdir wl wu rm ((p, x) # ls) us m" "\<forall>q \<in> fst ` set us. cmp p q < 0" "in_rm below rm p"
  shows "ground_state cmp below isdir wl wu rm ls us m"
proof (rule ground_drop[OF assms(1,2) merge_state_skip[OF ground_stateD(1)[OF assms(1)]]])
  have "m p = None" using merge_stateD(7)[OF ground_stateD(1)[OF assms(1)]] assms(3) by (auto simp: in_rm_def split: option.splits)
  then show "m q \<noteq> None \<Longrightarrow> m q \<noteq> None \<and> q \<noteq> p" for q by auto
  show "rm = Some d" if "(d, y) \<in> set wu" "(d, y) \<notin> set us" "\<not> isdir y" "r \<in> fst ` set ls" "below d r" for d y r
    by (rule ground_stateD(9)[OF assms(1) that(1-3) _ that(5)]) (use that(4) in simp)
qed simp

lemma ground_delete:
  assumes "ground_state cmp below isdir wl wu rm ((p, x) # ls) us m" "\<forall>q \<in> fst ` set us. cmp p q < 0" "\<not> in_rm below rm p"
  shows "ground_state cmp below isdir wl wu (next_rm rm (isdir x) p) ls us (apply_change below isdir (TDel p) m)"
proof (rule ground_drop[OF assms(1,2) merge_state_delete[OF ground_stateD(1)[OF assms(1)] assms(2)]])
  show "apply_change below isdir (TDel p) m q = m q" if "cmp q p < 0" for q
    using that not_below_less[OF that] by (auto simp: prune_def)
  show "m q \<noteq> None \<and> q \<noteq> p" if "apply_change below isdir (TDel p) m q \<noteq> None" for q
    using that by (auto simp: prune_def split: if_splits)
  fix d y r assume a: "(d, y) \<in> set wu" "(d, y) \<notin> set us" "\<not> isdir y" "r \<in> fst ` set ls" "below d r"
  note M = merge_stateD(1)[OF ground_stateD(1)[OF assms(1)]]
  have "rm = Some d" by (rule ground_stateD(9)[OF assms(1) a(1-3) _ a(5)]) (use a(4) in simp)
  moreover have "cmp d p < 0" by (rule merge_state_beforeD[OF ground_stateD(1)[OF assms(1)] a(1,2)]) simp
  moreover have "cmp p r < 0" using head_less[OF M] a(4) by auto
  ultimately have "in_rm below rm p" using below_between[OF a(5)] by (simp add: in_rm_def)
  then show "next_rm rm (isdir x) p = Some d" using assms(3) by simp
qed

text \<open>The same for the second walk.\<close>

lemma ground_take:
  assumes g: "ground_state cmp below isdir wl wu rm ls0 ((q, y) # us) m"
    and st: "merge_state cmp below isdir wu rm' ls us m'" and ls: "set ls \<subseteq> set ls0" "\<And>p x. (p, x) \<in> set ls0 \<Longrightarrow> (p, x) \<notin> set ls \<Longrightarrow> p = q"
    and after: "\<forall>p \<in> fst ` (set ls \<union> set us). cmp q p < 0"
    and same: "\<And>p. cmp p q < 0 \<Longrightarrow> m' p = m p" and now: "\<exists>x. m' q = Some x \<and> isdir x = isdir y"
    and fewer: "\<And>p. m' p \<noteq> None \<Longrightarrow> m p \<noteq> None \<or> p = q"
    and gone: "\<And>r. \<not> isdir y \<Longrightarrow> r \<in> fst ` set ls \<Longrightarrow> below q r \<Longrightarrow> rm' = Some q"
  shows "ground_state cmp below isdir wl wu rm' ls us m'"
proof (rule ground_stateI[OF st])
  note D = ground_stateD[OF g] and M = merge_stateD(1-4)[OF ground_stateD(1)[OF g]]
  have qu: "(q, y) \<in> set wu" "(q, y) \<notin> set us" using M(2,4) by auto
  have old: "(p, z) = (q, y) \<or> (p, z) \<notin> set ((q, y) # us)" if "(p, z) \<notin> set us" for p z using that by auto
  show "closed_walk below isdir wl" "sorted_walk cmp wl" "sorted_walk cmp wu" by (fact D(2-4))+
  show "set ls \<subseteq> set wl" using D(5) ls(1) by auto
  show "\<exists>x. m' p = Some x \<and> isdir x = isdir z" if "(p, z) \<in> set wu" "(p, z) \<notin> set us" for p z
  proof (cases "(p, z) = (q, y)")
    case False
    then have z: "(p, z) \<notin> set ((q, y) # us)" using that(2) by auto
    have "cmp p q < 0" by (rule merge_state_beforeD[OF D(1) that(1) z]) simp
    then show ?thesis using D(6)[OF that(1) z] same by simp
  qed (use now in simp)
  show "p \<in> fst ` set ls \<or> (\<exists>z. (p, z) \<in> set wu \<and> (p, z) \<notin> set us)" if "m' p \<noteq> None" for p
  proof (cases "p = q")
    case True
    then show ?thesis using qu by blast
  next
    case False
    then have "m p \<noteq> None" using fewer[OF that] by blast
    from D(7)[OF this] show ?thesis
    proof
      assume "p \<in> fst ` set ls0"
      then show ?thesis using ls(2) False by force
    qed auto
  qed
  show "cmp r p < 0" if "(r, z) \<in> set wl" "(r, z) \<notin> set ls" "p \<in> fst ` (set ls \<union> set us)" for r z p
  proof (cases "(r, z) \<in> set ls0")
    case True
    then show ?thesis using ls(2) that(2,3) after by blast
  next
    case False
    then show ?thesis using D(8)[OF that(1) False, of p] that(3) ls(1) by auto
  qed
  show "rm' = Some d" if d: "(d, z) \<in> set wu" "(d, z) \<notin> set us" "\<not> isdir z" "r \<in> fst ` set ls" "below d r" for d z r
  proof (cases "(d, z) = (q, y)")
    case True
    then show ?thesis using gone d by simp
  next
    case False
    then have z: "(d, z) \<notin> set ((q, y) # us)" using d(2) by auto
    have "cmp q r < 0" using after d(4) by auto
    from not_between[OF g d(1) z d(3) list.set_intros(1) this d(5)] show ?thesis by simp
  qed
qed

lemma merge_grounded:
  assumes same: "\<And>q x y. same q x y \<Longrightarrow> isdir x = isdir y"
    and "ground_state cmp below isdir wl wu rm ls us m"
  shows "grounded below isdir m (merge_changes cmp below isdir same rm ls us)"
  using assms(2)
proof (induction "length ls + length us" arbitrary: rm ls us m rule: less_induct)
  case less
  note g = less.prems
  have lower: "grounded below isdir m (if in_rm below rm p then merge_changes cmp below isdir same rm ls' us
       else TDel p # merge_changes cmp below isdir same (next_rm rm (isdir x) p) ls' us)"
    if ls: "ls = (p, x) # ls'" and before: "\<forall>q \<in> fst ` set us. cmp p q < 0" for p x ls'
  proof (cases "in_rm below rm p")
    case True
    then show ?thesis using less.hyps[OF _ ground_skip[OF g[unfolded ls] before True]] ls by simp
  next
    case False
    then show ?thesis
      using less.hyps[OF _ ground_delete[OF g[unfolded ls] before False]] ls above_left[OF g[unfolded ls] False] by simp
  qed
  have upper: "grounded below isdir m (TAdd q y # merge_changes cmp below isdir same None ls us')"
    if us: "us = (q, y) # us'" and before: "\<forall>p \<in> fst ` set ls. cmp q p < 0" for q y us'
  proof -
    note g' = g[unfolded us]
    note st = merge_state_add[OF ground_stateD(1)[OF g'] before]
    have after: "\<forall>p \<in> fst ` (set ls \<union> set us'). cmp q p < 0"
      using before merge_stateD(2)[OF ground_stateD(1)[OF g']] by auto
    have "ground_state cmp below isdir wl wu None ls us' (m(q \<mapsto> y))"
    proof (rule ground_take[OF g' st subset_refl _ after])
      fix r assume r: "\<not> isdir y" "r \<in> fst ` set ls" "below q r"
      then obtain z where "(r, z) \<in> set ls" by auto
      then have "(r, z) \<in> set wl" using ground_stateD(5)[OF g'] by blast
      then obtain x where x: "(q, x) \<in> set wl" using closed_walkD[OF ground_stateD(2)[OF g'] _ r(3)] by metis
      have "(q, x) \<notin> set ls" using before cmp_irrefl by force
      from ground_stateD(8)[OF g' x this, of q] show "None = Some q" by simp
    qed (use cmp_irrefl in auto)
    then show ?thesis using less.hyps[of ls us'] us above_next[OF g'] next_new[OF g' before] by simp
  qed
  show ?case
  proof (cases ls; cases us)
    assume "ls = []" "us = []"
    then show ?thesis by simp
  next
    fix e ls' assume eqs: "ls = e # ls'" "us = []"
    obtain p x where "e = (p, x)" by (cases e) auto
    then show ?thesis using lower[of p x ls'] by (cases "in_rm below rm p") (simp_all add: eqs)
  next
    fix e us' assume eqs: "ls = []" "us = e # us'"
    obtain q y where "e = (q, y)" by (cases e) auto
    then show ?thesis using upper[of q y us'] by (simp add: eqs)
  next
    fix e ls' f us' assume eqs: "ls = e # ls'" "us = f # us'"
    obtain p x q y where e: "e = (p, x)" "f = (q, y)" by (cases e, cases f) auto
    note M = merge_stateD(1,2)[OF ground_stateD(1)[OF g]]
    have sorted: "sorted_walk cmp ((p, x) # ls')" "sorted_walk cmp ((q, y) # us')" using M eqs e by auto
    consider "cmp p q < 0" | "cmp p q > 0" | "cmp p q = 0" by linarith
    then show ?thesis
    proof cases
      case 1
      then have "\<forall>r \<in> fst ` set us. cmp p r < 0" using sorted(2) eqs e cmp_trans by auto
      then show ?thesis using lower[of p x ls'] 1 eqs e by (cases "in_rm below rm p") simp_all
    next
      case 2
      then have "cmp q p < 0" using cmp_sym by blast
      then have "\<forall>r \<in> fst ` set ls. cmp q r < 0" using sorted(1) eqs e cmp_trans by auto
      then show ?thesis using upper[of q y us'] 2 eqs e by simp
    next
      case 3
      then have pq: "p = q" using cmp_zero by simp
      note g' = g[unfolded eqs e pq]
      let ?m = "if same q x y then m else (if isdir y then m else prune below q m)(q \<mapsto> y)"
      let ?rm = "if isdir x \<and> \<not> isdir y then Some q else None"
      have st: "merge_state cmp below isdir wu ?rm ls' us' ?m"
        by (rule merge_state_modify[OF ground_stateD(1)[OF g'] refl same])
      have mq: "m q = Some x" using merge_state_leftD[OF ground_stateD(1)[OF g'], of q x] by auto
      have after: "\<forall>r \<in> fst ` (set ls' \<union> set us'). cmp q r < 0" using sorted pq by auto
      have next_state: "ground_state cmp below isdir wl wu ?rm ls' us' ?m"
      proof (rule ground_take[OF g' st _ _ after])
        show "?m r = m r" if "cmp r q < 0" for r using that not_below_less[OF that] by (auto simp: prune_def)
        show "\<exists>z. ?m q = Some z \<and> isdir z = isdir y" using mq same[of q x y] by auto
        show "m r \<noteq> None \<or> r = q" if "?m r \<noteq> None" for r using that by (auto simp: prune_def split: if_splits)
        fix r assume r: "\<not> isdir y" "r \<in> fst ` set ls'" "below q r"
        then obtain z where "(r, z) \<in> set wl" using ground_stateD(5)[OF g'] by auto
        then obtain x' where x': "(q, x') \<in> set wl" "isdir x'" using closed_walkD[OF ground_stateD(2)[OF g'] _ r(3)] by metis
        have "(q, x) \<in> set wl" using ground_stateD(5)[OF g'] by simp
        then have "x' = x" using sorted_walk_unique[OF ground_stateD(3)[OF g'] x'(1)] by blast
        then show "?rm = Some q" using r(1) x'(2) by simp
      qed auto
      have rest: "grounded below isdir ?m (merge_changes cmp below isdir same ?rm ls' us')"
        by (rule less.hyps[OF _ next_state]) (simp add: eqs)
      show ?thesis
      proof (cases "same q x y")
        case True
        then show ?thesis using rest 3 eqs e pq by simp
      next
        case False
        then show ?thesis using rest 3 eqs e pq mq above_next[OF g'] by simp
      qed
    qed
  qed
qed

text \<open>From the start.\<close>

lemma merge_changes_grounded:
  assumes "\<forall>q x y. same q x y \<longrightarrow> isdir x = isdir y" "sorted_walk cmp ls" "sorted_walk cmp us"
    and "closed_walk below isdir ls" "closed_walk below isdir us"
  shows "grounded below isdir (map_of ls) (merge_changes cmp below isdir same None ls us)"
proof (rule merge_grounded)
  have distinct: "distinct (map fst ls)"
    using assms(2) by (induction ls) auto
  have "merge_state cmp below isdir us None ls us (map_of ls)"
    using assms(2,3,5) distinct by (auto simp: merge_state_def)
  then show "ground_state cmp below isdir ls us None ls us (map_of ls)"
    by (rule ground_stateI) (use assms in \<open>auto simp: map_of_eq_None_iff\<close>)
  show "\<And>q x y. same q x y \<Longrightarrow> isdir x = isdir y" using assms(1) by blast
qed

end

end
