(* ===== verification/Tree_Links.thy ===== *)
theory Tree_Links
  imports Tree_Ground
begin

text \<open>
  Which entries of two walks a merge reports, and what a tree holds in the middle of the changes: an entry before
  the current path has already what the whole diff leaves there. With it a handler can rely on earlier
  entries, as a hard link relies on the file it names.
\<close>

text \<open>What a change puts at its path.\<close>

fun put_stat :: "('p, 'x) tree_change \<Rightarrow> 'x option" where
  "put_stat (TAdd p x) = Some x"
| "put_stat (TMod p x) = Some x"
| "put_stat (TDel p) = None"

lemma put_stat_cases: "put_stat c = Some y \<longleftrightarrow> c = TAdd (change_path c) y \<or> c = TMod (change_path c) y"
  by (cases c) auto

lemma apply_changes_append:
  "apply_changes below isdir (cs @ ds) m = apply_changes below isdir ds (apply_changes below isdir cs m)"
  by (simp add: apply_changes_def)

text \<open>An entry is modified when the two sides differ, and reported unless it is the same.\<close>

lemma merge_modified:
  assumes "TMod q y \<in> set (merge_changes cmp below isdir same rm ls us)" "\<forall>p q. cmp p q = 0 \<longrightarrow> p = q"
  shows "\<exists>x. (q, x) \<in> set ls \<and> \<not> same q x y"
  using assms
proof (induction cmp below isdir same rm ls us rule: merge_changes.induct)
  case (4 cmp below isdir same rm p x ls q' y' us)
  consider "cmp p q' < 0" | "cmp p q' > 0" | "cmp p q' = 0" by linarith
  then show ?case
  proof cases
    case 3
    then have "p = q'" using 4(6) by blast
    then show ?thesis using 4(4) 4(5,6) 3 by (auto split: if_splits)
  qed (use 4 in \<open>auto split: if_splits\<close>)
qed (auto split: if_splits)

lemma merge_reported:
  assumes "(q, y) \<in> set us" "q \<notin> change_path ` set (merge_changes cmp below isdir same rm ls us)" "\<forall>p q. cmp p q = 0 \<longrightarrow> p = q"
  shows "\<exists>x. (q, x) \<in> set ls \<and> same q x y"
  using assms
proof (induction cmp below isdir same rm ls us rule: merge_changes.induct)
  case (4 cmp below isdir same rm p x ls q' y' us)
  consider "cmp p q' < 0" | "cmp p q' > 0" | "cmp p q' = 0" by linarith
  then show ?case
  proof cases
    case 3
    then have "p = q'" using 4(7) by blast
    then show ?thesis using 4(4) 4(5,6,7) 3 by (auto split: if_splits)
  qed (use 4 in \<open>auto split: if_splits\<close>)
qed (auto split: if_splits)

context walk_order_convex
begin

lemma apply_change_before:
  assumes "cmp p (change_path c) < 0"
  shows "apply_change below isdir c m p = m p"
proof -
  have "p \<noteq> change_path c" "\<not> below (change_path c) p" using assms not_below_less[of p "change_path c"] by auto
  then show ?thesis by (cases c) (auto simp: prune_def)
qed

lemma apply_changes_before:
  "\<forall>c \<in> set cs. cmp p (change_path c) < 0 \<Longrightarrow> apply_changes below isdir cs m p = m p"
  by (induction cs arbitrary: m) (simp_all add: apply_change_before)

text \<open>A change of a merge, with those before it.\<close>

lemma merge_split:
  assumes "sorted_walk cmp ls" "sorted_walk cmp us" "merge_changes cmp below isdir same None ls us = cs @ c # ds"
  shows "cmp p (change_path c) < 0 \<Longrightarrow>
      apply_changes below isdir cs m p = apply_changes below isdir (merge_changes cmp below isdir same None ls us) m p"
    "\<forall>d \<in> set cs. cmp (change_path d) (change_path c) < 0"
proof -
  note so = merge_changes_sorted[OF assms(1,2), where isdir = isdir and same = same and rm = None, unfolded assms(3)]
  then show "\<forall>d \<in> set cs. cmp (change_path d) (change_path c) < 0" by (simp add: sorted_wrt_append)
  assume p: "cmp p (change_path c) < 0"
  then have "\<forall>d \<in> set (c # ds). cmp p (change_path d) < 0" using so cmp_trans by (auto simp: sorted_wrt_append)
  from apply_changes_before[OF this] show "apply_changes below isdir cs m p =
      apply_changes below isdir (merge_changes cmp below isdir same None ls us) m p"
    unfolding assms(3) apply_changes_append by metis
qed

text \<open>What only the first walk has is never put, and what the second walk has is never removed.\<close>

lemma merge_removed:
  assumes "\<forall>q x y. same q x y \<longrightarrow> isdir x = isdir y" "sorted_walk cmp ls" "sorted_walk cmp us" "closed_walk below isdir us"
    and "TDel q \<in> set (merge_changes cmp below isdir same None ls us)"
  shows "q \<notin> fst ` set us"
proof -
  obtain cs ds where split: "merge_changes cmp below isdir same None ls us = cs @ TDel q # ds"
    using split_list[OF assms(5)] by blast
  have "sorted_wrt (\<lambda>p q. cmp p q < 0) (map change_path (cs @ TDel q # ds))"
    using merge_changes_sorted[OF assms(2,3), where isdir = isdir and same = same and rm = None] split by simp
  then have "\<forall>d \<in> set ds. cmp q (change_path d) < 0" by (simp add: sorted_wrt_append)
  from apply_changes_before[OF this]
  have "apply_changes below isdir (merge_changes cmp below isdir same None ls us) (map_of ls) q = None"
    unfolding split by (simp add: apply_changes_append)
  then show ?thesis using merge_changes_tree(1)[OF assms(1-4)] by blast
qed

end

end
