(* ===== verification/Disk_Transfer.thy ===== *)
theory Disk_Transfer
  imports Disk_Progress Double_Walk Tree_Links
begin

text \<open>
  The disk writer as the handler of a diff: applied to the changes between what the destination holds
  and what a sender offers, it leaves the destination as the sender's tree, and everything outside
  the destination as it was. A hard link names an earlier entry of the sender, which is in place by then and
  shows the same metadata, so that linking it and rewriting its metadata changes no other name of the file.
\<close>

section \<open>A disk that shows a tree\<close>

definition node_type :: "stat \<Rightarrow> 32 word" where
  "node_type st =
     (if stat_is_dir st then mode_dir
      else if is_special st then special_kind (st_mode st)
      else if has_mode (st_mode st) mode_symlink then mode_symlink
      else 0)"

text \<open>
  An inode shows a \<open>Stat\<close>: the type, the permissions (a symbolic link has none of its own), the owner, the
  modification time (that of a directory is set when the transfer ends), and what its type adds.
\<close>

definition inode_shows :: "writer_env \<Rightarrow> stat \<Rightarrow> inode \<Rightarrow> bool" where
  "inode_shows env st i \<longleftrightarrow>
     in_mode i AND mode_type = node_type st \<and>
     (\<not> has_mode (st_mode st) mode_symlink \<longrightarrow> in_mode i AND chmod_bits = st_mode st AND chmod_bits) \<and>
     in_uid i = st_uid st \<and> in_gid i = st_gid st \<and>
     (\<not> stat_is_dir st \<longrightarrow> in_mtime i = st_modtime st) \<and>
     (has_mode (st_mode st) mode_symlink \<longrightarrow> in_target i = st_linkname st) \<and>
     (\<not> stat_is_dir st \<and> is_special st \<longrightarrow> in_rdev i = we_mkdev env (ucast (st_devmajor st)) (ucast (st_devminor st))) \<and>
     (\<forall>k val. map_of (rev (st_xattrs st)) k = Some val \<longrightarrow> in_xattrs i k = Some val)"

text \<open>The entries of the directory \<open>gs\<close> are those of the tree.\<close>

definition disk_shows :: "writer_env \<Rightarrow> vpath \<Rightarrow> string set \<Rightarrow> (string, stat) tree \<Rightarrow> disk \<Rightarrow> bool" where
  "disk_shows env gs P m dk \<longleftrightarrow>
     wf_disk dk \<and> is_dir_at dk gs \<and> dom m \<subseteq> P \<and>
     (\<forall>cs. good_comps cs \<longrightarrow> rel_option (inode_shows env) (m (join_slash cs)) (entries dk (gs @ cs)))"

text \<open>The paths of the two trees: local paths, none with the name of a temporary file.\<close>

definition plain_paths :: "string set \<Rightarrow> bool" where
  "plain_paths P \<longleftrightarrow> (\<forall>p \<in> P. good_path p \<and> \<not> temp_name (last (split_slash p)))"

text \<open>The \<open>Stat\<close>s: a known owner, no extended attributes of symbolic links (they would be set on the file it leads to).\<close>

definition plain_stat :: "stat \<Rightarrow> bool" where
  "plain_stat st \<longleftrightarrow>
     one_type st \<and> (has_mode (st_mode st) mode_symlink \<longrightarrow> st_xattrs st = []) \<and>
     st_uid st \<noteq> - 1 \<and> st_gid st \<noteq> - 1"

lemma disk_showsD:
  assumes "disk_shows env gs P m dk"
  shows "wf_disk dk" "is_dir_at dk gs" "dom m \<subseteq> P"
    "good_comps cs \<Longrightarrow> rel_option (inode_shows env) (m (join_slash cs)) (entries dk (gs @ cs))"
  using assms by (simp_all add: disk_shows_def)

lemma shows_dir:
  assumes "inode_shows env st i"
  shows "mode_is_dir (in_mode i) = stat_is_dir st"
proof -
  have "mode_type AND mode_dir = mode_dir" by (simp add: mode_type_eq mode_bits)
  then have "in_mode i AND mode_dir = (in_mode i AND mode_type) AND mode_dir" by (simp add: and.assoc)
  also have "\<dots> = node_type st AND mode_dir" using assms by (simp add: inode_shows_def)
  finally have e: "in_mode i AND mode_dir = node_type st AND mode_dir" .
  have "mode_is_dir (in_mode i) \<longleftrightarrow> in_mode i AND mode_dir \<noteq> 0" by (simp add: mode_is_dir_def has_mode_def)
  also have "\<dots> \<longleftrightarrow> stat_is_dir st" unfolding e by (simp add: node_type_def special_kind_def mode_bits)
  finally show ?thesis .
qed

lemma below_join:
  assumes "good_comps cs" "good_comps es"
  shows "below (join_slash cs) (join_slash es) \<longleftrightarrow> strict_prefix cs es"
proof
  assume "below (join_slash cs) (join_slash es)"
  then obtain r where "join_slash es = join_slash cs @ slash # r" by (rule belowE)
  then have "split_slash (join_slash es) = split_slash (join_slash cs) @ split_slash r" by (simp add: split_slash_append)
  then have "es = cs @ split_slash r" using split_join_good[OF assms(1)] split_join_good[OF assms(2)] by simp
  then show "strict_prefix cs es" by (simp add: strict_prefix_def)
next
  assume "strict_prefix cs es"
  then obtain r where "es = cs @ r" "r \<noteq> []" by (auto simp: strict_prefix_def prefix_def)
  then show "below (join_slash cs) (join_slash es)" using assms(1) by (simp add: join_slash_append good_comps_def)
qed

section \<open>The inode of a change\<close>

lemma mode_after_chmod:
  "((m AND NOT chmod_bits) OR (x AND chmod_bits)) AND mode_type = m AND mode_type"
  "((m AND NOT chmod_bits) OR (x AND chmod_bits)) AND chmod_bits = x AND chmod_bits"
proof -
  have disj: "\<not> (bit mode_type n \<and> bit chmod_bits n)" for n
  proof -
    have "mode_type AND chmod_bits = 0" by (simp add: mode_type_eq chmod_bits_eq)
    then show ?thesis by (metis bit_0_eq bit_and_iff bot_apply bot_bool_def)
  qed
  show "((m AND NOT chmod_bits) OR (x AND chmod_bits)) AND mode_type = m AND mode_type"
    by (rule bit_eqI) (use disj in \<open>auto simp: bit_simps\<close>)
  show "((m AND NOT chmod_bits) OR (x AND chmod_bits)) AND chmod_bits = x AND chmod_bits"
    by (rule bit_eqI) (auto simp: bit_simps)
qed

lemma meta_of_shows:
  assumes "plain_stat st" "in_mode i AND mode_type = node_type st"
    and "has_mode (st_mode st) mode_symlink \<Longrightarrow> in_target i = st_linkname st"
    and "\<not> stat_is_dir st \<Longrightarrow> is_special st \<Longrightarrow> in_rdev i = we_mkdev env (ucast (st_devmajor st)) (ucast (st_devminor st))"
  shows "inode_shows env st (seen (meta_of st i))"
proof -
  have "inode_shows env st (meta_of st i)"
    using assms by (auto simp: inode_shows_def meta_of_def plain_stat_def owner_or_def mode_after_chmod map_add_Some_iff)
  moreover have "mode_is_dir (in_mode (meta_of st i)) \<longrightarrow> stat_is_dir st" using calculation shows_dir by blast
  ultimately show ?thesis by (auto simp: seen_def inode_shows_def)
qed

lemma blank_shows:
  assumes "plain_stat st"
  shows "inode_shows env st (seen (meta_of st (blank_node env st st)))"
proof (rule meta_of_shows[OF assms])
  have one: "has_mode (st_mode st) mode_symlink \<Longrightarrow> \<not> stat_is_dir st \<and> \<not> is_special st"
    using assms by (simp add: plain_stat_def one_type_def)
  show "in_mode (blank_node env st st) AND mode_type = node_type st"
    by (simp add: blank_node_def node_type_def fresh_inode_def special_kind_def mode_type_eq mode_bits)
  show "in_target (blank_node env st st) = st_linkname st" if "has_mode (st_mode st) mode_symlink"
    using one[OF that] that by (simp add: blank_node_def)
  show "in_rdev (blank_node env st st) = we_mkdev env (ucast (st_devmajor st)) (ucast (st_devminor st))"
    if "\<not> stat_is_dir st" "is_special st" using that by (simp add: blank_node_def)
qed

lemma base_shows:
  assumes "plain_stat st" "rel_option (inode_shows env) mx (map_option seen old)"
  shows "inode_shows env st (seen (meta_of st (base_node env st st old)))"
proof (cases "\<exists>i. old = Some i \<and> stat_is_dir st \<and> mode_is_dir (in_mode i)")
  case True
  then obtain i where i: "old = Some i" "stat_is_dir st" "mode_is_dir (in_mode i)" by blast
  then obtain x where x: "inode_shows env x (seen i)" using assms(2) by (auto simp: option_rel_Some2)
  then have "stat_is_dir x" using shows_dir i(3) by fastforce
  then have "in_mode i AND mode_type = mode_dir" using x i(3) by (simp add: inode_shows_def seen_def node_type_def)
  moreover have "\<not> has_mode (st_mode st) mode_symlink" using assms(1) i(2) by (auto simp: plain_stat_def one_type_def)
  ultimately have "inode_shows env st (seen (meta_of st i))"
    by (intro meta_of_shows[OF assms(1)]) (use i in \<open>simp_all add: node_type_def\<close>)
  then show ?thesis using i by (simp add: base_node_def)
next
  case False
  then have "base_node env st st old = blank_node env st st" by (auto simp: base_node_def split: option.splits)
  then show ?thesis using blank_shows[OF assms(1)] by simp
qed

text \<open>Rewriting the metadata an inode already shows changes nothing.\<close>

lemma meta_of_shown:
  assumes "plain_stat y" "inode_shows env y i" "\<not> stat_is_dir y" "\<not> has_mode (st_mode y) mode_symlink"
  shows "meta_of y i = i"
proof -
  have s: "in_mode i AND chmod_bits = st_mode y AND chmod_bits" "in_uid i = st_uid y" "in_gid i = st_gid y" "in_mtime i = st_modtime y"
    "map_of (rev (st_xattrs y)) \<subseteq>\<^sub>m in_xattrs i"
    using assms(2-4) by (auto simp: inode_shows_def map_le_def dom_def)
  have "in_mode i = (in_mode i AND NOT chmod_bits) OR (in_mode i AND chmod_bits)" by (rule bit_eqI) (auto simp: bit_simps)
  then have "(in_mode i AND NOT chmod_bits) OR (st_mode y AND chmod_bits) = in_mode i" using s(1) by simp
  moreover have "in_xattrs i ++ map_of (rev (st_xattrs y)) = in_xattrs i"
    using s(5) by (auto simp: map_add_def map_le_def fun_eq_iff dom_def split: option.splits)
  moreover have "owner_or (st_uid y) (in_uid i) = in_uid i" "owner_or (st_gid y) (in_gid i) = in_gid i"
    using s(2,3) by (simp_all add: owner_or_def)
  ultimately show ?thesis using s(4) assms(4) by (simp add: meta_of_def)
qed

text \<open>Two \<open>Stat\<close>s of one file, as a sender gives them for a file and a hard link to it.\<close>

definition same_meta :: "stat \<Rightarrow> stat \<Rightarrow> bool" where
  "same_meta x y \<longleftrightarrow>
     st_mode x = st_mode y \<and> st_uid x = st_uid y \<and> st_gid x = st_gid y \<and> st_modtime x = st_modtime y \<and>
     map_of (rev (st_xattrs y)) \<subseteq>\<^sub>m map_of (rev (st_xattrs x))"

definition hard_link :: "stat \<Rightarrow> bool" where
  "hard_link y \<longleftrightarrow> makes_link y y"

lemma hard_linkD:
  assumes "hard_link y"
  shows "\<not> stat_is_dir y" "\<not> is_special y" "\<not> has_mode (st_mode y) mode_symlink" "st_linkname y \<noteq> []" "node_type y = 0"
  using assms by (simp_all add: hard_link_def makes_link_def node_type_def)

lemma same_meta_shows:
  assumes "same_meta x y" "inode_shows env x i" "hard_link y"
  shows "inode_shows env y i"
proof -
  have t: "stat_is_dir x = stat_is_dir y" "is_special x = is_special y" using assms(1) by (simp_all add: same_meta_def stat_is_dir_def is_special_def)
  have "node_type x = node_type y" using assms(1) t by (simp add: node_type_def same_meta_def)
  moreover have "in_xattrs i k = Some val" if "map_of (rev (st_xattrs y)) k = Some val" for k val
  proof -
    have "map_of (rev (st_xattrs x)) k = Some val" using assms(1) that by (auto simp: same_meta_def map_le_def dom_def)
    then show ?thesis using assms(2) by (simp add: inode_shows_def)
  qed
  ultimately show ?thesis using assms t hard_linkD[OF assms(3)] by (simp add: inode_shows_def same_meta_def)
qed

section \<open>One change on the disk\<close>

lemma disk_parent:
  assumes "disk_shows env gs P m dk" "good_comps cs"
    and "\<forall>d. below d (join_slash cs) \<longrightarrow> (\<exists>x. m d = Some x \<and> stat_is_dir x)"
  shows "is_dir_at dk (gs @ butlast cs)"
proof (cases "butlast cs = []")
  case True
  then show ?thesis using disk_showsD(2)[OF assms(1)] by simp
next
  case False
  have cs: "cs \<noteq> []" "list_all good_comp cs" using assms(2) by (simp_all add: good_comps_def)
  then have b: "good_comps (butlast cs)" using False by (auto simp: good_comps_def list_all_iff dest: in_set_butlastD)
  have "strict_prefix (butlast cs) cs" using cs(1) by (metis append_butlast_last_id strict_prefix_def prefixI snoc_eq_iff_butlast butlast_snoc not_Cons_self2 append_self_conv)
  then have "below (join_slash (butlast cs)) (join_slash cs)" using below_join[OF b assms(2)] by simp
  then obtain x where x: "m (join_slash (butlast cs)) = Some x" "stat_is_dir x" using assms(3) by blast
  then obtain i where "entries dk (gs @ butlast cs) = Some i" "inode_shows env x i"
    using disk_showsD(4)[OF assms(1) b] by (auto simp: option_rel_Some1)
  then show ?thesis using shows_dir x(2) by (auto simp: is_dir_at_entries)
qed

lemma disk_no_temp:
  assumes "disk_shows env gs P m dk" "plain_paths P" "list_all good_comp ds" "temp_name x"
  shows "dk_tree dk (gs @ ds @ [x]) = None"
proof (rule ccontr)
  assume n: "dk_tree dk (gs @ ds @ [x]) \<noteq> None"
  then have "good_comp (last (gs @ ds @ [x]))" using wf_diskD(4)[OF disk_showsD(1)[OF assms(1)]] by blast
  then have g: "good_comps (ds @ [x])" using assms(3) by (simp add: good_comps_def)
  from n obtain i where "entries dk (gs @ ds @ [x]) = Some i" by (auto simp: entries_def node_def)
  then have "m (join_slash (ds @ [x])) \<noteq> None" using disk_showsD(4)[OF assms(1) g] by (auto simp: option_rel_Some2)
  then have "join_slash (ds @ [x]) \<in> P" using disk_showsD(3)[OF assms(1)] by auto
  then have "\<not> temp_name (last (split_slash (join_slash (ds @ [x]))))" using assms(2) by (simp add: plain_paths_def)
  then show False using assms(4) split_join_good[OF g] by simp
qed

lemma disk_change_place:
  assumes "disk_shows env gs P m dk" "plain_paths P" "good_comps cs"
    and "\<forall>d. below d (join_slash cs) \<longrightarrow> (\<exists>x. m d = Some x \<and> stat_is_dir x)"
  shows "change_place dk (gs @ cs)"
proof -
  have cs: "cs \<noteq> []" "list_all good_comp cs" using assms(3) by (simp_all add: good_comps_def)
  have b: "butlast (gs @ cs) = gs @ butlast cs" "last (gs @ cs) = last cs" using cs(1) by (simp_all add: butlast_append)
  have "list_all good_comp (butlast cs)" using cs(2) by (auto simp: list_all_iff dest: in_set_butlastD)
  then have "dk_tree dk ((gs @ butlast cs) @ [x]) = None" if "temp_name x" for x
    using disk_no_temp[OF assms(1,2) _ that] by simp
  moreover have "good_comp (last cs)" using cs by (simp add: list_all_iff)
  ultimately show ?thesis
    using disk_showsD(1)[OF assms(1)] disk_parent[OF assms(1,3,4)] cs(1) b by (simp add: change_place_def)
qed

text \<open>Putting an entry and removing one, on the disk and in the tree.\<close>

lemma disk_put:
  assumes "disk_shows env gs P m dk" "good_comps cs" "wf_disk dk'" "entries dk' = put_entry (gs @ cs) i (entries dk)"
    and "inode_shows env y i" "join_slash cs \<in> P" "is_dir_at dk (gs @ butlast cs)"
    and "m' = (if stat_is_dir y then m else prune below (join_slash cs) m)(join_slash cs \<mapsto> y)"
  shows "disk_shows env gs P m' dk'"
  unfolding disk_shows_def
proof (intro conjI allI impI)
  have cs: "cs \<noteq> []" using assms(2) by (simp add: good_comps_def)
  have d: "mode_is_dir (in_mode i) = stat_is_dir y" by (rule shows_dir[OF assms(5)])
  show "wf_disk dk'" by (rule assms(3))
  have "entries dk' gs = entries dk gs" using assms(4) cs by (auto simp: put_entry_def prefix_def)
  then show "is_dir_at dk' gs" using disk_showsD(2)[OF assms(1)] by (simp add: is_dir_at_entries)
  show "dom m' \<subseteq> P" using disk_showsD(3)[OF assms(1)] assms(6,8) by (auto simp: prune_def split: if_splits)
  fix es assume es: "good_comps es"
  note old = disk_showsD(4)[OF assms(1) es]
  have eq: "join_slash es = join_slash cs \<longleftrightarrow> es = cs" using split_join_good[OF es] split_join_good[OF assms(2)] by metis
  show "rel_option (inode_shows env) (m' (join_slash es)) (entries dk' (gs @ es))"
  proof (cases "es = cs")
    case True
    then show ?thesis using assms(4,5,8) by (simp add: put_entry_def)
  next
    case False
    then have "prefix (gs @ cs) (gs @ es) \<longleftrightarrow> below (join_slash cs) (join_slash es)"
      using below_join[OF assms(2) es] by (auto simp: strict_prefix_def)
    then show ?thesis using old False eq assms(4,8) d by (simp add: put_entry_def prune_def)
  qed
qed

lemma disk_remove:
  assumes "disk_shows env gs P m dk" "good_comps cs" "wf_disk dk'" "entries dk' = remove_entry (gs @ cs) (entries dk)"
  shows "disk_shows env gs P ((prune below (join_slash cs) m)(join_slash cs := None)) dk'"
  unfolding disk_shows_def
proof (intro conjI allI impI)
  have cs: "cs \<noteq> []" using assms(2) by (simp add: good_comps_def)
  show "wf_disk dk'" by (rule assms(3))
  have "entries dk' gs = entries dk gs" using assms(4) cs by (auto simp: remove_entry_def prefix_def)
  then show "is_dir_at dk' gs" using disk_showsD(2)[OF assms(1)] by (simp add: is_dir_at_entries)
  show "dom ((prune below (join_slash cs) m)(join_slash cs := None)) \<subseteq> P"
    using disk_showsD(3)[OF assms(1)] by (auto simp: prune_def dom_def split: if_splits)
  fix es assume es: "good_comps es"
  note old = disk_showsD(4)[OF assms(1) es]
  have eq: "join_slash es = join_slash cs \<longleftrightarrow> es = cs" using split_join_good[OF es] split_join_good[OF assms(2)] by metis
  have "prefix (gs @ cs) (gs @ es) \<longleftrightarrow> es = cs \<or> below (join_slash cs) (join_slash es)"
    using below_join[OF assms(2) es] by (auto simp: strict_prefix_def)
  then show "rel_option (inode_shows env) (((prune below (join_slash cs) m)(join_slash cs := None)) (join_slash es)) (entries dk' (gs @ es))"
    using old eq assms(4) by (auto simp: remove_entry_def prune_def)
qed

text \<open>Outside the destination nothing changes.\<close>

definition same_outside :: "vpath \<Rightarrow> disk \<Rightarrow> disk \<Rightarrow> bool" where
  "same_outside gs dk dk' \<longleftrightarrow> (\<forall>w. \<not> strict_prefix gs w \<longrightarrow> entries dk' w = entries dk w)"

lemma same_outside_refl [simp]: "same_outside gs dk dk"
  by (simp add: same_outside_def)

lemma same_outside_trans: "same_outside gs dk dk' \<Longrightarrow> same_outside gs dk' dk'' \<Longrightarrow> same_outside gs dk dk''"
  by (simp add: same_outside_def)

lemma same_outside_put: "cs \<noteq> [] \<Longrightarrow> entries dk' = put_entry (gs @ cs) i (entries dk) \<Longrightarrow> same_outside gs dk dk'"
  by (auto simp: same_outside_def put_entry_def strict_prefix_def prefix_def)

lemma same_outside_remove: "cs \<noteq> [] \<Longrightarrow> entries dk' = remove_entry (gs @ cs) (entries dk) \<Longrightarrow> same_outside gs dk dk'"
  by (auto simp: same_outside_def remove_entry_def strict_prefix_def prefix_def)

section \<open>The handler of a diff\<close>

definition writer_handler ::
  "nat \<Rightarrow> writer_env \<Rightarrow> change_kind \<Rightarrow> string \<Rightarrow> file_info \<Rightarrow> go_error option \<Rightarrow> disk_writer \<Rightarrow> disk_writer res" where
  "writer_handler n env kind p fi err dw =
     (case handle_change n env kind p fi err dw of
        None \<Rightarrow> Inl (Errorf ''endless race'' [])
      | Some (Inl e, dw') \<Rightarrow> Inl e
      | Some (Inr _, dw') \<Rightarrow> Inr dw')"

lemma writer_handler_Inr:
  "writer_handler n env kind p fi err dw = Inr dw' \<longleftrightarrow> handle_change n env kind p fi err dw = Some (Inr (), dw')"
  by (auto simp: writer_handler_def split: option.splits prod.splits sum.splits)

text \<open>The writer of a directory, without a filter, that takes the data of files later.\<close>

definition plain_writer :: "vpath \<Rightarrow> disk_writer \<Rightarrow> bool" where
  "plain_writer gs dw \<longleftrightarrow>
     list_all good_comp gs \<and> dw_dest dw = abs_path gs \<and> dwo_filter (dw_opt dw) = None \<and> dwo_sync_data_cb (dw_opt dw) = None"

definition plain_env :: "writer_env \<Rightarrow> bool" where
  "plain_env env \<longleftrightarrow> (\<forall>p d. de_fail (we_disk env) ''lstat'' p d \<noteq> Some ENOENT) \<and> (\<forall>p d. de_fail (we_disk env) ''setxattr'' p d = None)"

lemma plain_writer_same: "plain_writer gs dw \<Longrightarrow> same_writer dw dw' \<Longrightarrow> plain_writer gs dw'"
  by (simp add: plain_writer_def same_writer_def)

lemma plain_writer_filter: "plain_writer gs dw \<Longrightarrow> apply_filter dw p st = (True, st)"
  by (simp add: plain_writer_def apply_filter_def)

lemma plain_writer_path:
  assumes "plain_writer gs dw" "good_comps cs"
  shows "join2 (dw_dest dw) (join_slash cs) = abs_path (gs @ cs)"
  using assms join2_abs_path by (simp add: plain_writer_def)

lemma plain_stat_meta: "plain_stat st \<Longrightarrow> plain_env env \<Longrightarrow> plain_meta env st st"
  by (simp add: plain_stat_def plain_env_def plain_meta_def same_type_def)

lemma plain_stat_change: "plain_stat st \<Longrightarrow> \<not> hard_link st \<Longrightarrow> plain_env env \<Longrightarrow> plain_change env st st"
  by (simp add: plain_stat_meta plain_change_def hard_link_def)

text \<open>The state of a transfer: the disk shows the tree so far, and outside the destination it is as it was.\<close>

definition transfer_inv ::
  "writer_env \<Rightarrow> vpath \<Rightarrow> string set \<Rightarrow> disk \<Rightarrow> (string, stat) tree \<Rightarrow> disk_writer \<Rightarrow> bool" where
  "transfer_inv env gs P dk0 m dw \<longleftrightarrow> plain_writer gs dw \<and> disk_shows env gs P m (dw_disk dw) \<and> same_outside gs dk0 (dw_disk dw)"

lemma good_pathI: "good_path p \<Longrightarrow> good_comps (split_slash p) \<and> join_slash (split_slash p) = p"
  using good_pathE split_join_good by (metis good_path_def)

text \<open>Where a change of the destination is made.\<close>

lemma transfer_place:
  assumes "transfer_inv env gs P dk0 m dw" "plain_paths P" "p \<in> P" "\<forall>d. below d p \<longrightarrow> (\<exists>x. m d = Some x \<and> stat_is_dir x)"
  obtains cs where "good_comps cs" "p = join_slash cs" "join2 (dw_dest dw) p = abs_path (gs @ cs)" "change_place (dw_disk dw) (gs @ cs)"
proof -
  have inv: "plain_writer gs dw" "disk_shows env gs P m (dw_disk dw)" using assms(1) by (simp_all add: transfer_inv_def)
  obtain cs where cs: "good_comps cs" "p = join_slash cs" using assms(2,3) good_pathI[of p] by (metis plain_paths_def)
  show ?thesis
    by (rule that[OF cs plain_writer_path[OF inv(1) cs(1), folded cs(2)] disk_change_place[OF inv(2) assms(2) cs(1) assms(4)[unfolded cs(2)]]])
qed

lemma transfer_above:
  assumes "transfer_inv env gs P dk0 m dw" "plain_paths P" "p \<in> P" "\<forall>d x. below d p \<longrightarrow> m d = Some x \<longrightarrow> stat_is_dir x"
  obtains cs where "good_comps cs" "p = join_slash cs" "join2 (dw_dest dw) p = abs_path (gs @ cs)"
    "list_all good_comp (gs @ cs)" "gs @ cs \<noteq> []"
    "\<And>w. strict_prefix w (gs @ cs) \<Longrightarrow> dk_tree (dw_disk dw) w \<noteq> None \<Longrightarrow> is_dir_at (dw_disk dw) w"
proof -
  have inv: "plain_writer gs dw" "disk_shows env gs P m (dw_disk dw)" using assms(1) by (simp_all add: transfer_inv_def)
  obtain cs where cs: "good_comps cs" "p = join_slash cs" using assms(2,3) good_pathI[of p] by (metis plain_paths_def)
  have ne: "cs \<noteq> []" "list_all good_comp cs" using cs(1) by (simp_all add: good_comps_def)
  have gs: "list_all good_comp (gs @ cs)" "gs @ cs \<noteq> []" using inv(1) ne by (simp_all add: plain_writer_def)
  have above: "is_dir_at (dw_disk dw) w" if w: "strict_prefix w (gs @ cs)" "dk_tree (dw_disk dw) w \<noteq> None" for w
  proof (cases "prefix w gs")
    case True
    then show ?thesis
      using is_dir_at_prefix[OF disk_showsD(1)[OF inv(2)], of gs w] disk_showsD(2)[OF inv(2)]
      by (cases "w = gs") (auto simp: is_dir_at_iff strict_prefix_def)
  next
    case False
    have "prefix w (gs @ cs)" "w \<noteq> gs @ cs" using w(1) by (simp_all add: strict_prefix_def)
    then obtain ds where ds: "w = gs @ ds" "prefix ds cs" using False by (auto simp: prefix_append)
    then have ds: "w = gs @ ds" "ds \<noteq> []" "strict_prefix ds cs"
      using False \<open>w \<noteq> gs @ cs\<close> by (auto simp: strict_prefix_def)
    then have g: "good_comps ds" using cs(1) by (auto simp: good_comps_def strict_prefix_def prefix_def)
    then have "below (join_slash ds) p" using below_join[OF g cs(1)] ds(3) cs(2) by simp
    moreover obtain i where i: "entries (dw_disk dw) w = Some i" using w(2) by (auto simp: entries_def node_def)
    then obtain x where "m (join_slash ds) = Some x" "inode_shows env x i"
      using disk_showsD(4)[OF inv(2) g] ds(1) by (auto simp: option_rel_Some2)
    ultimately show ?thesis using assms(4) shows_dir i by (auto simp: is_dir_at_entries)
  qed
  show ?thesis by (rule that[OF cs plain_writer_path[OF inv(1) cs(1), folded cs(2)] gs above])
qed

text \<open>
  A hard link can be made when the tree shows the file it names with its metadata, and the entry that becomes the link
  is not a name of that file already.
\<close>

definition linkable :: "vpath \<Rightarrow> (string, stat) tree \<Rightarrow> disk \<Rightarrow> string \<Rightarrow> stat \<Rightarrow> bool" where
  "linkable gs m dk p y \<longleftrightarrow>
     (hard_link y \<longrightarrow>
        good_path (st_linkname y) \<and> (\<exists>x. m (st_linkname y) = Some x \<and> same_meta x y) \<and>
        dk_tree dk (gs @ split_slash p) \<noteq> dk_tree dk (gs @ split_slash (st_linkname y)))"

definition link_path :: "vpath \<Rightarrow> stat \<Rightarrow> vpath" where
  "link_path gs y = gs @ split_slash (st_linkname y)"

lemma linkable_entry:
  assumes "plain_writer gs dw" "disk_shows env gs P m (dw_disk dw)" "linkable gs m (dw_disk dw) p y" "hard_link y"
  obtains j where "dk_tree (dw_disk dw) (link_path gs y) = Some j" "inode_shows env y (dk_inodes (dw_disk dw) j)"
    "\<not> mode_is_dir (in_mode (dk_inodes (dw_disk dw) j))" "link_source dw y (link_path gs y)"
proof -
  let ?ls = "split_slash (st_linkname y)" and ?dk = "dw_disk dw"
  obtain x where x: "good_path (st_linkname y)" "m (st_linkname y) = Some x" "same_meta x y" using assms(3,4) by (auto simp: linkable_def)
  have g: "good_comps ?ls" "join_slash ?ls = st_linkname y" using x(1) good_pathI by simp_all
  obtain i where i: "entries ?dk (gs @ ?ls) = Some i" "inode_shows env x i"
    using disk_showsD(4)[OF assms(2) g(1)] x(2) g(2) by (auto simp: option_rel_Some1)
  then obtain j where j: "dk_tree ?dk (gs @ ?ls) = Some j" "i = seen (dk_inodes ?dk j)" by (auto simp: entries_def node_def)
  have sh: "inode_shows env y i" by (rule same_meta_shows[OF x(3) i(2) assms(4)])
  then have nd: "\<not> mode_is_dir (in_mode i)" using shows_dir hard_linkD(1)[OF assms(4)] by blast
  then have ij: "i = dk_inodes ?dk j" "\<not> mode_is_dir (in_mode (dk_inodes ?dk j))" using j(2) by (auto simp: seen_def split: if_splits)
  have "in_mode i AND mode_type = 0" using sh hard_linkD(5)[OF assms(4)] by (simp add: inode_shows_def)
  then have "\<not> has_mode (in_mode i) mode_symlink" by (simp add: has_mode_def mode_type_def and_or_eq_0)
  then have ns: "\<not> is_symlink_node (dk_inodes ?dk j)" using ij(1) by (simp add: is_symlink_node_def)
  have "join2 (dw_dest dw) (st_linkname y) = abs_path (gs @ ?ls)" using plain_writer_path[OF assms(1) g(1)] g(2) by simp
  moreover have "entry_at ?dk (gs @ ?ls) j" using j(1) g(1) disk_showsD(1)[OF assms(2)] by (simp add: entry_at_def good_comps_def)
  ultimately have "link_source dw y (link_path gs y)" using ns by (auto simp: link_source_def link_path_def)
  then show ?thesis using that[of j] j(1) sh ij by (simp add: link_path_def)
qed

lemma linkable_ready:
  assumes "plain_writer gs dw" "disk_shows env gs P m (dw_disk dw)" "linkable gs m (dw_disk dw) p y" "p = join_slash cs" "good_comps cs"
  shows "link_ready dw y y (gs @ cs) (link_path gs y)" "link_file dw y y (link_path gs y)"
proof -
  have cs: "split_slash p = cs" using split_join_good[OF assms(5)] assms(4) by simp
  have "link_ready dw y y (gs @ cs) (link_path gs y) \<and> link_file dw y y (link_path gs y)"
  proof (cases "hard_link y")
    case True
    then obtain j where j: "dk_tree (dw_disk dw) (link_path gs y) = Some j" "\<not> mode_is_dir (in_mode (dk_inodes (dw_disk dw) j))"
      "link_source dw y (link_path gs y)" using linkable_entry[OF assms(1-3)] by metis
    moreover have "dk_tree (dw_disk dw) (gs @ cs) \<noteq> dk_tree (dw_disk dw) (link_path gs y)"
      using assms(3) True cs by (simp add: linkable_def link_path_def)
    ultimately show ?thesis by (simp add: link_ready_def link_file_def is_dir_at_iff)
  next
    case False
    then show ?thesis by (simp add: link_ready_def link_file_def hard_link_def)
  qed
  then show "link_ready dw y y (gs @ cs) (link_path gs y)" "link_file dw y y (link_path gs y)" by blast+
qed

lemma changed_disk_link:
  assumes "changed_disk y y v (base_inode env y y dk v l) dk dk'" "hard_link y" "plain_stat y" "dk_tree dk l = Some j"
    and "inode_shows env' y (dk_inodes dk j)"
  shows "entries dk' = put_entry v (dk_inodes dk j) (entries dk)" "fst (base_inode env y y dk v l) = j"
proof -
  note h = hard_linkD[OF assms(2)]
  have b: "base_inode env y y dk v l = (j, dk_inodes dk j)"
    using h(1) assms(2,4) by (simp add: base_inode_def made_inode_def hard_link_def split: option.splits)
  then show "fst (base_inode env y y dk v l) = j" by simp
  have meta: "meta_of y (dk_inodes dk j) = dk_inodes dk j" by (rule meta_of_shown[OF assms(3,5) h(1,3)])
  then have "set_inode j (meta_of y) dk = dk" by (simp add: set_inode_def)
  moreover have "\<not> mode_is_dir (in_mode (dk_inodes dk j))" using shows_dir[OF assms(5)] h(1) by simp
  ultimately show "entries dk' = put_entry v (dk_inodes dk j) (entries dk)"
    using assms(1) b meta h(1) by (simp add: changed_disk_def put_entry_at seen_def)
qed

lemma transfer_put:
  assumes "transfer_inv env gs P dk0 m dw" "plain_paths P" "plain_env env" "plain_stat y" "p \<in> P" "kind \<noteq> ChangeKindDelete"
    and "\<forall>d. below d p \<longrightarrow> (\<exists>x. m d = Some x \<and> stat_is_dir x)" "linkable gs m (dw_disk dw) p y"
    and "handle_change n env kind p (StatInfo y) None dw = Some (Inr (), dw')"
  shows "transfer_inv env gs P dk0 ((if stat_is_dir y then m else prune below p m)(p \<mapsto> y)) dw'" "same_writer dw dw'"
    "\<exists>j. dk_tree (dw_disk dw') = put_at (gs @ split_slash p) j (stat_is_dir y) (dk_tree (dw_disk dw)) \<and>
       (\<not> stat_is_dir y \<longrightarrow> (if hard_link y then dk_tree (dw_disk dw) (link_path gs y) = Some j else j = dk_next (dw_disk dw)))"
    "dk_next (dw_disk dw) \<le> dk_next (dw_disk dw')"
proof -
  let ?dk = "dw_disk dw"
  have inv: "plain_writer gs dw" "disk_shows env gs P m ?dk" "same_outside gs dk0 ?dk"
    using assms(1) by (simp_all add: transfer_inv_def)
  obtain cs where cs: "good_comps cs" "p = join_slash cs" "join2 (dw_dest dw) p = abs_path (gs @ cs)"
    and place: "change_place ?dk (gs @ cs)" by (rule transfer_place[OF assms(1,2,5,7)])
  have ne: "cs \<noteq> []" using cs(1) by (simp add: good_comps_def)
  have env: "\<And>p d. de_fail (we_disk env) ''lstat'' p d \<noteq> Some ENOENT" "dwo_sync_data_cb (dw_opt dw) = None"
    using assms(3) inv(1) by (simp_all add: plain_env_def plain_writer_def)
  note ready = linkable_ready[OF inv(1,2) assms(8) cs(2,1)]
  let ?ji = "base_inode env y y ?dk (gs @ cs) (link_path gs y)"
  note H = handle_change_put[OF assms(9,6) cs(3) place plain_writer_filter[OF inv(1)] plain_stat_meta[OF assms(4,3)] ready(1) env(2,1)]
  have wf: "wf_disk (dw_disk dw')" using H(2) by (simp add: changed_disk_def)
  obtain i where i: "entries (dw_disk dw') = put_entry (gs @ cs) i (entries ?dk)" "inode_shows env y i"
    and num: "\<not> stat_is_dir y \<longrightarrow> (if hard_link y then dk_tree ?dk (link_path gs y) = Some (fst ?ji) else fst ?ji = dk_next ?dk)"
  proof (cases "hard_link y")
    case True
    obtain j where j: "dk_tree ?dk (link_path gs y) = Some j" "inode_shows env y (dk_inodes ?dk j)"
      using linkable_entry[OF inv(1,2) assms(8) True] by metis
    note L = changed_disk_link[OF H(2) True assms(4) j]
    show ?thesis by (rule that[OF L(1) j(2)]) (use True j(1) L(2) in simp)
  next
    case False
    then have nl: "\<not> makes_link y y" by (simp add: hard_link_def)
    have "rel_option (inode_shows env) (m p) (map_option seen (node ?dk (gs @ cs)))"
      using disk_showsD(4)[OF inv(2) cs(1)] cs(2) by (simp add: entries_def)
    from base_shows[OF assms(4) this]
    have sh: "inode_shows env y (seen (meta_of y (base_node env y y (node ?dk (gs @ cs)))))" .
    have "entries (dw_disk dw') = put_entry (gs @ cs) (seen (meta_of y (base_node env y y (node ?dk (gs @ cs))))) (entries ?dk)"
      by (rule changed_disk_entries[OF H(2) nl disk_showsD(1)[OF inv(2)]])
    then show ?thesis
      by (rule that[OF _ sh]) (use False nl in \<open>auto simp: base_inode_def made_inode_def split: option.splits\<close>)
  qed
  have "is_dir_at ?dk (gs @ butlast cs)" using place ne by (simp add: change_place_def butlast_append)
  then have "disk_shows env gs P ((if stat_is_dir y then m else prune below p m)(p \<mapsto> y)) (dw_disk dw')"
    using disk_put[OF inv(2) cs(1) wf i(1,2) _ _ refl, folded cs(2)] assms(5) by (simp split del: if_split)
  then show "transfer_inv env gs P dk0 ((if stat_is_dir y then m else prune below p m)(p \<mapsto> y)) dw'"
    using plain_writer_same[OF inv(1) H(1)] same_outside_trans[OF inv(3) same_outside_put[OF ne i(1)]] by (simp add: transfer_inv_def)
  show "same_writer dw dw'" by (rule H(1))
  have sp: "split_slash p = cs" using split_join_good[OF cs(1)] cs(2) by simp
  show "\<exists>j. dk_tree (dw_disk dw') = put_at (gs @ split_slash p) j (stat_is_dir y) (dk_tree ?dk) \<and>
       (\<not> stat_is_dir y \<longrightarrow> (if hard_link y then dk_tree ?dk (link_path gs y) = Some j else j = dk_next ?dk))"
    using H(2) num sp by (intro exI[of _ "fst ?ji"]) (simp add: changed_disk_def)
  show "dk_next ?dk \<le> dk_next (dw_disk dw')" using H(2) by (simp add: changed_disk_def)
qed

lemma transfer_remove:
  assumes "transfer_inv env gs P dk0 m dw" "plain_paths P" "p \<in> P"
    and "\<forall>d x. below d p \<longrightarrow> m d = Some x \<longrightarrow> stat_is_dir x"
    and "handle_change n env ChangeKindDelete p fi None dw = Some (Inr (), dw')"
  shows "transfer_inv env gs P dk0 ((prune below p m)(p := None)) dw'" "same_writer dw dw'"
    "dk_tree (dw_disk dw') = remove_entry (gs @ split_slash p) (dk_tree (dw_disk dw))" "dk_next (dw_disk dw') = dk_next (dw_disk dw)"
proof -
  have inv: "plain_writer gs dw" "disk_shows env gs P m (dw_disk dw)" "same_outside gs dk0 (dw_disk dw)"
    using assms(1) by (simp_all add: transfer_inv_def)
  obtain cs where cs: "good_comps cs" "p = join_slash cs" "join2 (dw_dest dw) p = abs_path (gs @ cs)"
    "list_all good_comp (gs @ cs)" "gs @ cs \<noteq> []"
    and above: "\<And>w. strict_prefix w (gs @ cs) \<Longrightarrow> dk_tree (dw_disk dw) w \<noteq> None \<Longrightarrow> is_dir_at (dw_disk dw) w"
    using transfer_above[OF assms(1-4)] by metis
  have ne: "cs \<noteq> []" using cs(1) by (simp add: good_comps_def)
  have "fst (apply_filter dw p empty_stat)" using plain_writer_filter[OF inv(1)] by simp
  note H = handle_change_remove[OF assms(5) cs(3) this disk_showsD(1)[OF inv(2)] cs(5,4) above]
  have "disk_shows env gs P ((prune below p m)(p := None)) (dw_disk dw')"
    using disk_remove[OF inv(2) cs(1) H(1,3)] cs(2) by simp
  then show "transfer_inv env gs P dk0 ((prune below p m)(p := None)) dw'"
    using plain_writer_same[OF inv(1) H(2)] same_outside_trans[OF inv(3) same_outside_remove[OF ne H(3)]] by (simp add: transfer_inv_def)
  show "same_writer dw dw'" by (rule H(2))
  have "split_slash p = cs" using split_join_good[OF cs(1)] cs(2) by simp
  then show "dk_tree (dw_disk dw') = remove_entry (gs @ split_slash p) (dk_tree (dw_disk dw))" "dk_next (dw_disk dw') = dk_next (dw_disk dw)"
    using H(4,5) by simp_all
qed

section \<open>All changes\<close>

lemma disk_none_below:
  assumes "disk_shows env gs P m dk" "plain_paths P" "m p = None" "p \<in> P"
  shows "prune below p m = m"
proof (rule ext)
  fix q
  have "m q = None" if b: "below p q"
  proof (rule ccontr)
    assume n: "m q \<noteq> None"
    then have "q \<in> P" using disk_showsD(3)[OF assms(1)] by auto
    then obtain cs es where cs: "good_comps cs" "p = join_slash cs" and es: "good_comps es" "q = join_slash es"
      using assms(2,4) good_pathI by (metis plain_paths_def)
    have sub: "strict_prefix (gs @ cs) (gs @ es)" using b below_join[OF cs(1) es(1)] cs(2) es(2) by (simp add: strict_prefix_def)
    have "dk_tree dk (gs @ cs) = None" using disk_showsD(4)[OF assms(1) cs(1)] assms(3) cs(2) by simp
    moreover have "dk_tree dk (gs @ es) \<noteq> None" using disk_showsD(4)[OF assms(1) es(1)] n es(2) by (auto simp: option_rel_Some1 entries_def node_def)
    then have "is_dir_at dk (gs @ cs)" using is_dir_at_prefix[OF disk_showsD(1)[OF assms(1)] _ sub] by blast
    ultimately show False by (simp add: is_dir_at_iff)
  qed
  then show "prune below p m q = m q" by (simp add: prune_def)
qed

definition plain_event :: "string set \<Rightarrow> (string, stat) tree_change \<Rightarrow> bool" where
  "plain_event P c \<longleftrightarrow> change_path c \<in> P \<and> (case c of TAdd q y \<Rightarrow> plain_stat y | TMod q y \<Rightarrow> plain_stat y | TDel q \<Rightarrow> True)"

text \<open>
  Following the inodes: what has been changed so far (\<open>ds\<close>) and how the numbers are since the start. Other paths
  have the number they had, a new file has a fresh one, and a hard link has that of the file it names.
\<close>

definition tracked :: "vpath \<Rightarrow> disk \<Rightarrow> (string, stat) tree_change list \<Rightarrow> disk \<Rightarrow> bool" where
  "tracked gs dk0 ds dk \<longleftrightarrow>
     dk_next dk0 \<le> dk_next dk \<and>
     (\<forall>cs. good_comps cs \<longrightarrow>
        dk_tree dk (gs @ cs) = None \<or> dk_tree dk (gs @ cs) = dk_tree dk0 (gs @ cs) \<or> join_slash cs \<in> change_path ` set ds) \<and>
     (\<forall>c \<in> set ds. \<forall>y. put_stat c = Some y \<longrightarrow> \<not> stat_is_dir y \<longrightarrow>
        (\<exists>j. dk_tree dk (gs @ split_slash (change_path c)) = Some j \<and>
           (if hard_link y then dk_tree dk (link_path gs y) = Some j else dk_next dk0 \<le> j)))"

text \<open>The paths of the changes: in order, and each hard link after the file it names.\<close>

definition ordered_links :: "string set \<Rightarrow> (string, stat) tree_change list \<Rightarrow> bool" where
  "ordered_links P ds \<longleftrightarrow>
     sorted_wrt path_less (map change_path ds) \<and> (\<forall>c \<in> set ds. good_path (change_path c)) \<and>
     (\<forall>c \<in> set ds. \<forall>y. put_stat c = Some y \<longrightarrow> hard_link y \<longrightarrow> good_path (st_linkname y) \<and> path_less (st_linkname y) (change_path c))"

lemma before_not_below:
  assumes "good_path p" "good_path r" "path_less p r"
  shows "\<not> prefix (gs @ split_slash r) (gs @ split_slash p)"
proof
  assume "prefix (gs @ split_slash r) (gs @ split_slash p)"
  then have "prefix (split_slash r) (split_slash p)" by simp
  then have "split_slash r = split_slash p \<or> strict_prefix (split_slash r) (split_slash p)" by (auto simp: strict_prefix_def)
  then have "r = p \<or> below r p"
    using below_join[of "split_slash r" "split_slash p"] good_pathI[OF assms(1)] good_pathI[OF assms(2)] by metis
  then show False using assms(3) below_less[of r p] path_ord.less_asym[of r p] by auto
qed

lemma put_at_other: "\<not> prefix v w \<Longrightarrow> put_at v x d m w = m w"
  by (auto simp: put_at_def)

lemma remove_entry_other: "\<not> prefix v w \<Longrightarrow> remove_entry v m w = m w"
  by (simp add: remove_entry_def)

lemma tracked_step:
  assumes "tracked gs dk0 ds dk" "ordered_links P (ds @ [c])" "dk_next dk \<le> dk_next dk'"
    and "\<And>w. \<not> prefix (gs @ split_slash (change_path c)) w \<Longrightarrow> dk_tree dk' w = dk_tree dk w"
    and "\<And>w. w \<noteq> gs @ split_slash (change_path c) \<Longrightarrow> dk_tree dk' w = dk_tree dk w \<or> dk_tree dk' w = None"
    and "\<And>y. put_stat c = Some y \<Longrightarrow> \<not> stat_is_dir y \<Longrightarrow>
      \<exists>j. dk_tree dk' (gs @ split_slash (change_path c)) = Some j \<and>
        (if hard_link y then dk_tree dk (link_path gs y) = Some j else dk_next dk0 \<le> j)"
  shows "tracked gs dk0 (ds @ [c]) dk'"
  unfolding tracked_def
proof (intro conjI allI impI ballI)
  have gc: "good_path (change_path c)" using assms(2) by (simp add: ordered_links_def)
  have keep: "dk_tree dk' (gs @ split_slash q) = dk_tree dk (gs @ split_slash q)" if "good_path q" "path_less q (change_path c)" for q
    by (rule assms(4)[OF before_not_below[OF that(1) gc that(2)]])
  have less: "path_less (change_path d) (change_path c)" "good_path (change_path d)" if "d \<in> set ds" for d
    using assms(2) that by (auto simp: ordered_links_def sorted_wrt_append)
  have link: "good_path (st_linkname y) \<and> path_less (st_linkname y) (change_path d)" if "d \<in> set (ds @ [c])" "put_stat d = Some y" "hard_link y" for d y
    using assms(2) that unfolding ordered_links_def by blast
  show "dk_next dk0 \<le> dk_next dk'" using assms(1,3) by (simp add: tracked_def)
  show "dk_tree dk' (gs @ cs) = None \<or> dk_tree dk' (gs @ cs) = dk_tree dk0 (gs @ cs) \<or> join_slash cs \<in> change_path ` set (ds @ [c])"
    if "good_comps cs" for cs
  proof (cases "gs @ cs = gs @ split_slash (change_path c)")
    case True
    then have "join_slash cs = change_path c" using good_pathI[OF gc] by simp
    then show ?thesis by simp
  next
    case False
    then show ?thesis using assms(5)[OF False] assms(1) that by (auto simp: tracked_def)
  qed
  fix d y assume d: "d \<in> set (ds @ [c])" "put_stat d = Some y" "\<not> stat_is_dir y"
  show "\<exists>j. dk_tree dk' (gs @ split_slash (change_path d)) = Some j \<and>
      (if hard_link y then dk_tree dk' (link_path gs y) = Some j else dk_next dk0 \<le> j)"
  proof (cases "d = c")
    case True
    have "dk_tree dk' (link_path gs y) = dk_tree dk (link_path gs y)" if "hard_link y"
      using keep[of "st_linkname y"] link[OF d(1,2) that] True by (simp add: link_path_def)
    then show ?thesis using assms(6)[of y] d True by (auto split: if_splits)
  next
    case False
    then have in_ds: "d \<in> set ds" using d(1) by simp
    obtain j where j: "dk_tree dk (gs @ split_slash (change_path d)) = Some j"
      "if hard_link y then dk_tree dk (link_path gs y) = Some j else dk_next dk0 \<le> j"
      using assms(1) in_ds d(2,3) unfolding tracked_def by blast
    have "dk_tree dk' (gs @ split_slash (change_path d)) = Some j" using keep less[OF in_ds] j(1) by simp
    moreover have "dk_tree dk' (link_path gs y) = dk_tree dk (link_path gs y)" if h: "hard_link y"
    proof -
      have "path_less (st_linkname y) (change_path c)"
        using link[OF d(1,2) h] less(1)[OF in_ds] path_ord.less_trans by blast
      then show ?thesis using keep link[OF d(1,2) h] by (simp add: link_path_def)
    qed
    ultimately show ?thesis using j(2) by (auto split: if_splits)
  qed
qed

text \<open>What a hard link needs when its turn comes.\<close>

definition link_event ::
  "vpath \<Rightarrow> disk \<Rightarrow> (string, stat) tree_change list \<Rightarrow> (string, stat) tree \<Rightarrow> (string, stat) tree_change \<Rightarrow> bool" where
  "link_event gs dk0 ds m c \<longleftrightarrow>
     (\<forall>y. put_stat c = Some y \<longrightarrow> hard_link y \<longrightarrow>
        (\<exists>x. m (st_linkname y) = Some x \<and> same_meta x y) \<and>
        (\<forall>d \<in> set ds. change_path d = st_linkname y \<longrightarrow> (\<exists>z. put_stat d = Some z \<and> \<not> stat_is_dir z \<and> \<not> hard_link z)) \<and>
        (st_linkname y \<notin> change_path ` set ds \<longrightarrow> m (change_path c) = None \<or>
           dk_tree dk0 (gs @ split_slash (change_path c)) \<noteq> dk_tree dk0 (link_path gs y)))"

lemma link_event_linkable:
  assumes "transfer_inv env gs P dk0 m dw" "tracked gs dk0 ds (dw_disk dw)" "wf_disk dk0" "ordered_links P (ds @ [c])"
    and "link_event gs dk0 ds m c" "put_stat c = Some y"
  shows "linkable gs m (dw_disk dw) (change_path c) y"
  unfolding linkable_def
proof (intro impI conjI)
  let ?dk = "dw_disk dw" and ?q = "gs @ split_slash (change_path c)" and ?l = "link_path gs y"
  assume h: "hard_link y"
  have L: "good_path (st_linkname y)" "path_less (st_linkname y) (change_path c)"
    using assms(4,6) h by (auto simp: ordered_links_def)
  show "good_path (st_linkname y)" by (rule L(1))
  show "\<exists>x. m (st_linkname y) = Some x \<and> same_meta x y" using assms(5,6) h by (simp add: link_event_def)
  then obtain x where x: "m (st_linkname y) = Some x" by blast
  have inv: "disk_shows env gs P m ?dk" using assms(1) by (simp add: transfer_inv_def)
  have gq: "good_comps (split_slash (change_path c))" "join_slash (split_slash (change_path c)) = change_path c"
    using assms(4) good_pathI by (auto simp: ordered_links_def)
  have gl: "good_comps (split_slash (st_linkname y))" "join_slash (split_slash (st_linkname y)) = st_linkname y"
    using L(1) good_pathI by simp_all
  have some: "dk_tree ?dk ?l \<noteq> None"
    using disk_showsD(4)[OF inv gl(1)] gl(2) x by (auto simp: link_path_def option_rel_Some1 entries_def node_def)
  have new: "change_path c \<notin> change_path ` set ds"
  proof
    assume "change_path c \<in> change_path ` set ds"
    then obtain d where "d \<in> set ds" "change_path d = change_path c" by auto
    then have "path_less (change_path c) (change_path c)" using assms(4) by (auto simp: ordered_links_def sorted_wrt_append)
    then show False by simp
  qed
  have old: "dk_tree ?dk ?q = None \<or> dk_tree ?dk ?q = dk_tree dk0 ?q"
    using assms(2) gq new unfolding tracked_def by metis
  have "dk_tree ?dk ?q \<noteq> dk_tree ?dk ?l"
  proof (cases "st_linkname y \<in> change_path ` set ds")
    case True
    then obtain d where d: "d \<in> set ds" "change_path d = st_linkname y" by auto
    then obtain z where z: "put_stat d = Some z" "\<not> stat_is_dir z" "\<not> hard_link z"
      using assms(5,6) h by (auto simp: link_event_def)
    then obtain j where j: "dk_tree ?dk ?l = Some j" "dk_next dk0 \<le> j"
      using assms(2) d unfolding tracked_def link_path_def by metis
    then show ?thesis using old wf_diskD(2)[OF assms(3), of ?q j] some by auto
  next
    case False
    then have l0: "dk_tree ?dk ?l = dk_tree dk0 ?l" using assms(2) gl some unfolding tracked_def link_path_def by metis
    consider "m (change_path c) = None" | "dk_tree dk0 ?q \<noteq> dk_tree dk0 ?l" using assms(5,6) h False by (auto simp: link_event_def)
    then show ?thesis
    proof cases
      case 1
      then have "dk_tree ?dk ?q = None" using disk_showsD(4)[OF inv gq(1)] gq(2) by simp
      then show ?thesis using some by auto
    next
      case 2
      then show ?thesis using old l0 some by auto
    qed
  qed
  then show "dk_tree ?dk (gs @ split_slash (change_path c)) \<noteq> dk_tree ?dk (gs @ split_slash (st_linkname y))" by (simp add: link_path_def)
qed

text \<open>The state of a transfer with what it has changed.\<close>

definition transfer_at ::
  "writer_env \<Rightarrow> vpath \<Rightarrow> string set \<Rightarrow> disk \<Rightarrow> (string, stat) tree_change list \<Rightarrow> (string, stat) tree \<Rightarrow> disk_writer \<Rightarrow> bool" where
  "transfer_at env gs P dk0 ds m dw \<longleftrightarrow> transfer_inv env gs P dk0 m dw \<and> tracked gs dk0 ds (dw_disk dw)"

text \<open>One change of the list, applied to the tree.\<close>

lemma transfer_event:
  assumes at: "transfer_at env gs P dk0 ds m dw" and P: "plain_paths P" and env: "plain_env env" and plain: "plain_event P c"
    and ground: "grounded below stat_is_dir m (c # cs)"
    and event: "diff_event c = (k, p, fi)" and run: "handle_change n env k p fi None dw = Some (Inr (), dw')"
    and wf0: "wf_disk dk0" and ord: "ordered_links P (ds @ [c])" and link: "link_event gs dk0 ds m c"
  shows "transfer_at env gs P dk0 (ds @ [c]) (apply_change below stat_is_dir c m) dw'" "same_writer dw dw'"
proof -
  have inv: "transfer_inv env gs P dk0 m dw" "tracked gs dk0 ds (dw_disk dw)" using at by (simp_all add: transfer_at_def)
  have shows_m: "disk_shows env gs P m (dw_disk dw)" using inv(1) by (simp add: transfer_inv_def)
  have put: "transfer_inv env gs P dk0 ((if stat_is_dir y then m else prune below q m)(q \<mapsto> y)) dw' \<and> same_writer dw dw' \<and>
      tracked gs dk0 (ds @ [c]) (dw_disk dw')"
    if c: "put_stat c = Some y" "change_path c = q" and q: "\<forall>d. below d q \<longrightarrow> (\<exists>x. m d = Some x \<and> stat_is_dir x)" "plain_stat y" "q \<in> P"
      and h: "k \<noteq> ChangeKindDelete" "handle_change n env k q (StatInfo y) None dw = Some (Inr (), dw')" for q y
  proof -
    have lk: "linkable gs m (dw_disk dw) q y" using link_event_linkable[OF inv wf0 ord link c(1)] c(2) by simp
    note T = transfer_put[OF inv(1) P env q(2,3) h(1) q(1) lk h(2)]
    obtain j where j: "dk_tree (dw_disk dw') = put_at (gs @ split_slash q) j (stat_is_dir y) (dk_tree (dw_disk dw))"
      "\<not> stat_is_dir y \<longrightarrow> (if hard_link y then dk_tree (dw_disk dw) (link_path gs y) = Some j else j = dk_next (dw_disk dw))"
      using T(3) by blast
    have n0: "dk_next dk0 \<le> dk_next (dw_disk dw)" using inv(2) by (simp add: tracked_def)
    have "tracked gs dk0 (ds @ [c]) (dw_disk dw')"
    proof (rule tracked_step[OF inv(2) ord T(4)])
      show "dk_tree (dw_disk dw') w = dk_tree (dw_disk dw) w" if "\<not> prefix (gs @ split_slash (change_path c)) w" for w
        using that c(2) by (simp add: j(1) put_at_other)
      show "dk_tree (dw_disk dw') w = dk_tree (dw_disk dw) w \<or> dk_tree (dw_disk dw') w = None"
        if "w \<noteq> gs @ split_slash (change_path c)" for w using that c(2) by (auto simp: j(1) put_at_def)
      show "\<exists>j. dk_tree (dw_disk dw') (gs @ split_slash (change_path c)) = Some j \<and>
          (if hard_link y' then dk_tree (dw_disk dw) (link_path gs y') = Some j else dk_next dk0 \<le> j)"
        if "put_stat c = Some y'" "\<not> stat_is_dir y'" for y'
        using that c n0 j(2) by (auto simp: j(1) put_at_def)
    qed
    then show ?thesis using T(1,2) by blast
  qed
  have "transfer_inv env gs P dk0 (apply_change below stat_is_dir c m) dw' \<and> same_writer dw dw' \<and> tracked gs dk0 (ds @ [c]) (dw_disk dw')"
  proof (cases c)
    case (TAdd q y)
    then have q: "m q = None" "\<forall>d. below d q \<longrightarrow> (\<exists>x. m d = Some x \<and> stat_is_dir x)" "plain_stat y" "q \<in> P"
      using plain ground by (simp_all add: plain_event_def)
    have k: "k \<noteq> ChangeKindDelete" "handle_change n env k q (StatInfo y) None dw = Some (Inr (), dw')" using event run TAdd by auto
    have "prune below q m = m" by (rule disk_none_below[OF shows_m P q(1,4)])
    then have "(if stat_is_dir y then m else prune below q m)(q \<mapsto> y) = apply_change below stat_is_dir c m" using TAdd by simp
    with put[OF _ _ q(2-4) k] TAdd show ?thesis by simp
  next
    case (TMod q y)
    then have q: "\<forall>d. below d q \<longrightarrow> (\<exists>x. m d = Some x \<and> stat_is_dir x)" "plain_stat y" "q \<in> P"
      using plain ground by (simp_all add: plain_event_def)
    have k: "k \<noteq> ChangeKindDelete" "handle_change n env k q (StatInfo y) None dw = Some (Inr (), dw')" using event run TMod by auto
    from put[OF _ _ q k] TMod show ?thesis by simp
  next
    case (TDel q)
    then have q: "\<forall>d x. below d q \<longrightarrow> m d = Some x \<longrightarrow> stat_is_dir x" "q \<in> P"
      using plain ground by (simp_all add: plain_event_def)
    have k: "handle_change n env ChangeKindDelete q fi None dw = Some (Inr (), dw')" using event run TDel by auto
    note T = transfer_remove[OF inv(1) P q(2,1) k]
    have "tracked gs dk0 (ds @ [c]) (dw_disk dw')"
      by (rule tracked_step[OF inv(2) ord]) (use T(3,4) TDel in \<open>auto simp: remove_entry_def\<close>)
    then show ?thesis using T(1,2) TDel by simp
  qed
  then show "transfer_at env gs P dk0 (ds @ [c]) (apply_change below stat_is_dir c m) dw'" "same_writer dw dw'"
    by (simp_all add: transfer_at_def)
qed

text \<open>The conditions on the whole list, as they are needed at each change.\<close>

definition link_events :: "vpath \<Rightarrow> disk \<Rightarrow> (string, stat) tree \<Rightarrow> (string, stat) tree_change list \<Rightarrow> bool" where
  "link_events gs dk0 m cs \<longleftrightarrow>
     (\<forall>ds c es. cs = ds @ c # es \<longrightarrow> link_event gs dk0 ds (apply_changes below stat_is_dir ds m) c)"

lemma ordered_links_prefix: "ordered_links P (ds @ es) \<Longrightarrow> ordered_links P ds"
  by (auto simp: ordered_links_def sorted_wrt_append)

lemma transfer_events:
  assumes "transfer_at env gs P dk0 ds (apply_changes below stat_is_dir ds m) dw" "plain_paths P" "plain_env env" "list_all (plain_event P) cs"
    and "grounded below stat_is_dir (apply_changes below stat_is_dir ds m) cs" "run_events (writer_handler n env) cs dw = Inr dw'"
    and "wf_disk dk0" "ordered_links P (ds @ cs)" "link_events gs dk0 m (ds @ cs)"
  shows "transfer_at env gs P dk0 (ds @ cs) (apply_changes below stat_is_dir (ds @ cs) m) dw'"
  using assms(1,4-6,8,9)
proof (induction cs arbitrary: ds dw)
  case (Cons c cs)
  obtain k p fi where c: "diff_event c = (k, p, fi)" by (cases "diff_event c")
  obtain dw1 where step: "handle_change n env k p fi None dw = Some (Inr (), dw1)" "run_events (writer_handler n env) cs dw1 = Inr dw'"
    using Cons.prems(4) c by (auto simp: writer_handler_Inr res_bind_def split: sum.splits)
  have pc: "plain_event P c" using Cons.prems(2) by simp
  have ord: "ordered_links P (ds @ [c])" using ordered_links_prefix[of P "ds @ [c]" cs] Cons.prems(5) by simp
  have lk: "link_event gs dk0 ds (apply_changes below stat_is_dir ds m) c" using Cons.prems(6) by (auto simp: link_events_def)
  note E = transfer_event(1)[OF Cons.prems(1) assms(2,3) pc Cons.prems(3) c step(1) assms(7) ord lk]
  have "transfer_at env gs P dk0 ((ds @ [c]) @ cs) (apply_changes below stat_is_dir ((ds @ [c]) @ cs) m) dw'"
    by (rule Cons.IH[OF _ _ _ step(2)]) (use E Cons.prems in \<open>simp_all add: apply_changes_append\<close>)
  then show ?case by simp
qed simp

text \<open>Without failures of the environment every change is applied.\<close>

definition live_writer :: "disk_writer \<Rightarrow> bool" where
  "live_writer dw \<longleftrightarrow> dwo_notify_cb (dw_opt dw) = None \<and> \<not> dw_done dw"

lemma faultless_plain: "faultless (we_disk env) \<Longrightarrow> plain_env env"
  by (simp add: plain_env_def)

lemma transfer_event_ok:
  assumes "transfer_at env gs P dk0 ds m dw" "plain_paths P" "faultless (we_disk env)" "plain_event P c" "grounded below stat_is_dir m (c # cs)"
    and "diff_event c = (k, p, fi)" "live_writer dw" "wf_disk dk0" "ordered_links P (ds @ [c])" "link_event gs dk0 ds m c"
  shows "\<exists>dw'. handle_change (Suc n) env k p fi None dw = Some (Inr (), dw')"
proof -
  have at: "transfer_inv env gs P dk0 m dw" "tracked gs dk0 ds (dw_disk dw)" using assms(1) by (simp_all add: transfer_at_def)
  have inv: "plain_writer gs dw" "disk_shows env gs P m (dw_disk dw)" using at(1) by (simp_all add: transfer_inv_def)
  have sync: "dwo_sync_data_cb (dw_opt dw) = None" using inv(1) by (simp add: plain_writer_def)
  have live: "dwo_notify_cb (dw_opt dw) = None" "\<not> dw_done dw" using assms(7) by (simp_all add: live_writer_def)
  have put: ?thesis if y: "fi = StatInfo y" "plain_stat y" "put_stat c = Some y" "change_path c = p"
    and q: "p \<in> P" "\<forall>d. below d p \<longrightarrow> (\<exists>x. m d = Some x \<and> stat_is_dir x)"
    and k: "k \<noteq> ChangeKindDelete" "k = ChangeKindAdd \<or> m p \<noteq> None" for y
  proof -
    obtain cs where cs: "good_comps cs" "p = join_slash cs" "join2 (dw_dest dw) p = abs_path (gs @ cs)"
      and place: "change_place (dw_disk dw) (gs @ cs)" by (rule transfer_place[OF at(1) assms(2) q])
    have lk: "linkable gs m (dw_disk dw) p y" using link_event_linkable[OF at assms(8-10) y(3)] y(4) by simp
    note ready = linkable_ready[OF inv lk cs(2,1)]
    have "rel_option (inode_shows env) (m p) (entries (dw_disk dw) (gs @ cs))" using disk_showsD(4)[OF inv(2) cs(1)] cs(2) by simp
    then have "k = ChangeKindAdd \<or> node (dw_disk dw) (gs @ cs) \<noteq> None" using k(2) by (auto simp: entries_def option_rel_Some1 simp del: node_None_iff)
    from handle_change_put_ok[OF assms(3) k(1) cs(3) place plain_writer_filter[OF inv(1)]
        plain_stat_meta[OF y(2) faultless_plain[OF assms(3)]] ready sync live this]
    show ?thesis using y(1) by (simp del: handle_change.simps)
  qed
  show ?thesis
  proof (cases c)
    case (TAdd q y)
    then show ?thesis using put[of y] assms(4-6) by (simp add: plain_event_def del: handle_change.simps)
  next
    case (TMod q y)
    then show ?thesis using put[of y] assms(4-6) by (simp add: plain_event_def del: handle_change.simps)
  next
    case (TDel q)
    then have q: "p \<in> P" "\<forall>d x. below d p \<longrightarrow> m d = Some x \<longrightarrow> stat_is_dir x" "k = ChangeKindDelete"
      using assms(4-6) by (simp_all add: plain_event_def)
    obtain cs where cs: "join2 (dw_dest dw) p = abs_path (gs @ cs)" "list_all good_comp (gs @ cs)" "gs @ cs \<noteq> []"
      and above: "\<And>w. strict_prefix w (gs @ cs) \<Longrightarrow> dk_tree (dw_disk dw) w \<noteq> None \<Longrightarrow> is_dir_at (dw_disk dw) w"
      using transfer_above[OF at(1) assms(2) q(1,2)] by metis
    have "fst (apply_filter dw p empty_stat)" using plain_writer_filter[OF inv(1)] by simp
    from handle_change_remove_ok[OF assms(3) cs(1) this disk_showsD(1)[OF inv(2)] cs(3,2) above live] q(3)
    show ?thesis by (simp del: handle_change.simps)
  qed
qed

lemma transfer_events_ok:
  assumes "transfer_at env gs P dk0 ds (apply_changes below stat_is_dir ds m) dw" "plain_paths P" "faultless (we_disk env)" "list_all (plain_event P) cs"
    and "grounded below stat_is_dir (apply_changes below stat_is_dir ds m) cs" "live_writer dw"
    and "wf_disk dk0" "ordered_links P (ds @ cs)" "link_events gs dk0 m (ds @ cs)"
  shows "\<exists>dw'. run_events (writer_handler (Suc n) env) cs dw = Inr dw'"
  using assms(1,4-6,8,9)
proof (induction cs arbitrary: ds dw)
  case (Cons c cs)
  obtain k p fi where c: "diff_event c = (k, p, fi)" by (cases "diff_event c")
  have pc: "plain_event P c" using Cons.prems(2) by simp
  have ord: "ordered_links P (ds @ [c])" using ordered_links_prefix[of P "ds @ [c]" cs] Cons.prems(5) by simp
  have lk: "link_event gs dk0 ds (apply_changes below stat_is_dir ds m) c" using Cons.prems(6) by (auto simp: link_events_def)
  obtain dw1 where step: "handle_change (Suc n) env k p fi None dw = Some (Inr (), dw1)"
    using transfer_event_ok[OF Cons.prems(1) assms(2,3) pc Cons.prems(3) c Cons.prems(4) assms(7) ord lk] by blast
  note E = transfer_event[OF Cons.prems(1) assms(2) faultless_plain[OF assms(3)] pc Cons.prems(3) c step assms(7) ord lk]
  have "live_writer dw1" using E(2) Cons.prems(4) by (simp add: live_writer_def same_writer_def)
  then obtain dw' where "run_events (writer_handler (Suc n) env) cs dw1 = Inr dw'"
    using Cons.IH[of "ds @ [c]" dw1] E(1) Cons.prems(2,3,5,6) by (auto simp: apply_changes_append)
  moreover have "writer_handler (Suc n) env k p fi None dw = Inr dw1" using step by (simp add: writer_handler_Inr)
  ultimately show ?case using c by simp
qed simp


end
