(* ===== verification/Disk_Mirror.thy ===== *)
theory Disk_Mirror
  imports Disk_Transfer
begin

text \<open>
  The whole transfer: the diff of what the destination holds and what a sender offers, with the disk writer as
  its handler. The changes of the diff meet what each of them needs of the disk, the hard links of the sender included,
  so that the destination mirrors the sender's tree and every hard link is a name of the file it was a link to.
\<close>

section \<open>Lists of changes\<close>

lemma grounded_split: "grounded below isdir m (ds @ cs) \<Longrightarrow> grounded below isdir (apply_changes below isdir ds m) cs"
  by (induction ds arbitrary: m) (simp_all add: apply_changes_def)

lemma apply_changes_absent:
  "m q = None \<Longrightarrow> q \<notin> change_path ` set cs \<Longrightarrow> apply_changes below isdir cs m q = None"
proof (induction cs arbitrary: m)
  case (Cons c cs)
  then have "apply_change below isdir c m q = None" by (cases c) (auto simp: prune_def)
  with Cons show ?case by (simp add: apply_changes_def)
qed (simp add: apply_changes_def)

interpretation path_walk: walk_order_convex compare_path below
proof unfold_locales
  fix d r q :: string
  assume "below d r" "compare_path d q < 0" "compare_path q r < 0"
  then show "below d q" using below_convex[of d q r] by (simp add: path_less_def)
qed

lemma compare_path_eq: "\<forall>p q. compare_path p q = 0 \<longrightarrow> p = q"
  using path_walk.cmp_zero by blast

section \<open>Two walks\<close>

text \<open>Two walks that a diff can transfer, and the disk it starts from.\<close>

definition transferable :: "diff_type \<Rightarrow> (string \<Rightarrow> open_file res) \<Rightarrow> current_path list \<Rightarrow> current_path list \<Rightarrow> bool" where
  "transferable differ os_open a b \<longleftrightarrow>
     comparable None differ os_open a b \<and> tree_order (map add_change a) \<and> tree_order (map add_change b) \<and>
     plain_paths (cp_path ` (set a \<union> set b)) \<and> list_all (\<lambda>f. plain_stat (cp_stat f)) b"

definition transfer_start :: "writer_env \<Rightarrow> vpath \<Rightarrow> current_path list \<Rightarrow> disk_writer \<Rightarrow> bool" where
  "transfer_start env gs a dw \<longleftrightarrow> plain_writer gs dw \<and> disk_shows env gs (cp_path ` set a) (tree_of a) (dw_disk dw)"

text \<open>
  The hard links of the sender: each follows an entry of its walk that is no hard link itself, is the one it names and
  has the same metadata. When the destination keeps an entry of its own for that file, it has the attributes too,
  and what stands at the path of the link is another file, or is kept as well.
\<close>

definition sender_links ::
  "diff_type \<Rightarrow> (string \<Rightarrow> open_file res) \<Rightarrow> vpath \<Rightarrow> current_path list \<Rightarrow> current_path list \<Rightarrow> disk \<Rightarrow> bool" where
  "sender_links differ os_open gs a b dk \<longleftrightarrow>
     (\<forall>f \<in> set b. hard_link (cp_stat f) \<longrightarrow>
        (\<exists>g \<in> set b. cp_path g = st_linkname (cp_stat f) \<and> path_less (cp_path g) (cp_path f) \<and>
           \<not> hard_link (cp_stat g) \<and> same_meta (cp_stat g) (cp_stat f) \<and>
           (\<forall>x. tree_of a (cp_path g) = Some x \<and> same_entry None differ os_open (cp_path g) x (cp_stat g) \<longrightarrow>
              map_of (rev (st_xattrs (cp_stat f))) \<subseteq>\<^sub>m map_of (rev (st_xattrs x)) \<and>
              (dk_tree dk (gs @ split_slash (cp_path f)) = dk_tree dk (gs @ split_slash (cp_path g)) \<longrightarrow>
                 (\<forall>z. tree_of a (cp_path f) = Some z \<longrightarrow> same_entry None differ os_open (cp_path f) z (cp_stat f))))))"

lemma same_entry_meta:
  assumes "same_entry None differ os_open p x y" "\<not> stat_is_dir y"
  shows "st_mode x = st_mode y" "st_uid x = st_uid y" "st_gid x = st_gid y" "st_modtime x = st_modtime y"
proof -
  have e: "same_file os_open \<lparr>cp_path = p, cp_stat = x\<rparr> \<lparr>cp_path = p, cp_stat = y\<rparr> differ = Inr True"
    using assms(1) by (simp add: same_entry_def filtered_copy_def)
  have d: "stat_is_dir x = stat_is_dir y" by (rule same_entry_is_dir[OF _ assms(1)]) (simp add: filter_keeps_dir_def)
  show "st_mode x = st_mode y" "st_uid x = st_uid y" "st_gid x = st_gid y" "st_modtime x = st_modtime y"
    using e d assms(2) by (auto simp: same_file_def compare_stat_def split: if_splits)
qed

text \<open>What holds of the changes of such a diff.\<close>

lemma transfer_walks:
  assumes "transferable differ os_open a b"
  shows "sorted_walk compare_path (map walk_entry a)" "sorted_walk compare_path (map walk_entry b)"
    "closed_walk below stat_is_dir (map walk_entry a)" "closed_walk below stat_is_dir (map walk_entry b)"
    "\<forall>q x y. same_entry None differ os_open q x y \<longrightarrow> stat_is_dir x = stat_is_dir y"
proof -
  have t: "tree_order (map add_change a)" "tree_order (map add_change b)" using assms by (simp_all add: transferable_def)
  show "sorted_walk compare_path (map walk_entry a)" "sorted_walk compare_path (map walk_entry b)"
    using tree_order_walk(1)[OF t(1)] tree_order_walk(1)[OF t(2)] by (simp_all add: sorted_walk_entries)
  show "closed_walk below stat_is_dir (map walk_entry a)" "closed_walk below stat_is_dir (map walk_entry b)"
    by (rule tree_order_walk(2)[OF t(1)], rule tree_order_walk(2)[OF t(2)])
  show "\<forall>q x y. same_entry None differ os_open q x y \<longrightarrow> stat_is_dir x = stat_is_dir y"
    using same_entry_is_dir[of None] by (simp add: filter_keeps_dir_def)
qed

lemma put_entry_of:
  assumes "transferable differ os_open a b" "c \<in> set (merge_events None differ os_open None a b)" "put_stat c = Some y"
  shows "\<exists>f \<in> set b. cp_path f = change_path c \<and> cp_stat f = y"
proof -
  have "(change_path c, y) \<in> set (map walk_entry b)"
    using merge_changes_stats[OF assms(2)] assms(3) put_stat_cases by metis
  then show ?thesis by (auto simp: walk_entry_def)
qed

lemma sender_unique:
  assumes "transferable differ os_open a b" "f \<in> set b" "g \<in> set b" "cp_path f = cp_path g"
  shows "cp_stat f = cp_stat g"
proof -
  have "(cp_path f, cp_stat f) \<in> set (map walk_entry b)" "(cp_path f, cp_stat g) \<in> set (map walk_entry b)"
    using assms(2-4) map_walk_entry_set by metis+
  then show ?thesis using path_walk.sorted_walk_unique[OF transfer_walks(2)[OF assms(1)]] by blast
qed

lemma tree_of_entry:
  assumes "transferable differ os_open a b" "(q, z) \<in> set (map walk_entry a)"
  shows "tree_of a q = Some z"
proof -
  obtain x where x: "map_of (map walk_entry a) q = Some x" using weak_map_of_SomeI[OF assms(2)] by blast
  then have "x = z" using path_walk.sorted_walk_unique[OF transfer_walks(1)[OF assms(1)] map_of_SomeD[OF x] assms(2)] by simp
  then show ?thesis using x by (simp add: tree_of_def)
qed

text \<open>An entry of the sender without a change is one that the destination has.\<close>

lemma unreported:
  assumes "transferable differ os_open a b" "f \<in> set b" "cp_path f \<notin> change_path ` set (merge_events None differ os_open None a b)"
  shows "\<exists>x. tree_of a (cp_path f) = Some x \<and> same_entry None differ os_open (cp_path f) x (cp_stat f)"
proof -
  have "(cp_path f, cp_stat f) \<in> set (map walk_entry b)" using assms(2) map_walk_entry_set by blast
  from merge_reported[OF this assms(3) compare_path_eq]
  obtain x where x: "(cp_path f, x) \<in> set (map walk_entry a)" "same_entry None differ os_open (cp_path f) x (cp_stat f)" by blast
  then show ?thesis using tree_of_entry[OF assms(1)] by blast
qed

text \<open>Each hard link, when its turn comes.\<close>

lemma transfer_link_event:
  assumes t: "transferable differ os_open a b" and l: "sender_links differ os_open gs a b dk0"
    and split: "merge_events None differ os_open None a b = ds @ c # es"
  shows "link_event gs dk0 ds (apply_changes below stat_is_dir ds (tree_of a)) c"
  unfolding link_event_def
proof (intro allI impI)
  fix y assume y: "put_stat c = Some y" "hard_link y"
  let ?cs = "merge_events None differ os_open None a b" and ?m = "apply_changes below stat_is_dir ds (tree_of a)"
  note W = transfer_walks[OF t]
  obtain f where f: "f \<in> set b" "cp_path f = change_path c" "cp_stat f = y" using put_entry_of[OF t _ y(1)] split by auto
  obtain g where g: "g \<in> set b" "cp_path g = st_linkname y" "path_less (cp_path g) (cp_path f)" "\<not> hard_link (cp_stat g)"
      "same_meta (cp_stat g) y"
    and kept: "\<And>x. tree_of a (cp_path g) = Some x \<Longrightarrow> same_entry None differ os_open (cp_path g) x (cp_stat g) \<Longrightarrow>
      map_of (rev (st_xattrs y)) \<subseteq>\<^sub>m map_of (rev (st_xattrs x)) \<and>
      (dk_tree dk0 (gs @ split_slash (cp_path f)) = dk_tree dk0 (gs @ split_slash (cp_path g)) \<longrightarrow>
         (\<forall>z. tree_of a (cp_path f) = Some z \<longrightarrow> same_entry None differ os_open (cp_path f) z y))"
    using l f(1,3) y(2) unfolding sender_links_def by metis
  have gd: "\<not> stat_is_dir (cp_stat g)" using g(5) hard_linkD(1)[OF y(2)] by (simp add: same_meta_def stat_is_dir_def)
  have less: "compare_path (cp_path g) (change_path c) < 0" using g(3) f(2) by (simp add: path_less_def)
  have ord: "\<forall>d \<in> set ds. compare_path (change_path d) (change_path c) < 0"
    by (rule path_walk.merge_split(2)[OF W(1,2) split])
  show "(\<exists>x. ?m (st_linkname y) = Some x \<and> same_meta x y) \<and>
      (\<forall>d \<in> set ds. change_path d = st_linkname y \<longrightarrow> (\<exists>z. put_stat d = Some z \<and> \<not> stat_is_dir z \<and> \<not> hard_link z)) \<and>
      (st_linkname y \<notin> change_path ` set ds \<longrightarrow>
         ?m (change_path c) = None \<or> dk_tree dk0 (gs @ split_slash (change_path c)) \<noteq> dk_tree dk0 (link_path gs y))"
  proof (intro conjI ballI impI)
    note T = path_walk.merge_changes_tree(2)[OF W(5,1,2,4), folded tree_of_def]
    have "?m (cp_path g) = apply_changes below stat_is_dir ?cs (tree_of a) (cp_path g)"
      by (rule path_walk.merge_split(1)[OF W(1,2) split less])
    moreover have "(cp_path g, cp_stat g) \<in> set (map walk_entry b)" using g(1) map_walk_entry_set by blast
    from T[OF this] have "apply_changes below stat_is_dir ?cs (tree_of a) (cp_path g) = Some (cp_stat g) \<or>
        (\<exists>x. tree_of a (cp_path g) = Some x \<and> same_entry None differ os_open (cp_path g) x (cp_stat g) \<and>
          apply_changes below stat_is_dir ?cs (tree_of a) (cp_path g) = Some x)" .
    moreover have "same_meta x y" if "tree_of a (cp_path g) = Some x" "same_entry None differ os_open (cp_path g) x (cp_stat g)" for x
      using same_entry_meta[OF that(2) gd] kept[OF that] g(5) by (simp add: same_meta_def)
    ultimately show "\<exists>x. ?m (st_linkname y) = Some x \<and> same_meta x y" using g(2,5) by auto
  next
    fix d assume d: "d \<in> set ds" "change_path d = st_linkname y"
    have dc: "d \<in> set ?cs" using d(1) split by simp
    have "d \<noteq> TDel (cp_path g)"
      using path_walk.merge_removed[OF W(5,1,2,4), of "cp_path g"] dc g(1) by (auto simp: walk_entry_def image_image)
    then obtain z where z: "put_stat d = Some z" using d(2) g(2) by (cases d) auto
    obtain g' where "g' \<in> set b" "cp_path g' = change_path d" "cp_stat g' = z" using put_entry_of[OF t dc z] by blast
    then have "z = cp_stat g" using sender_unique[OF t _ g(1), of g'] d(2) g(2) by simp
    then show "\<exists>z. put_stat d = Some z \<and> \<not> stat_is_dir z \<and> \<not> hard_link z" using z gd g(4) by blast
  next
    assume new: "st_linkname y \<notin> change_path ` set ds"
    have "sorted_wrt (\<lambda>p q. compare_path p q < 0) (map change_path ?cs)"
      by (rule path_walk.merge_changes_sorted[OF W(1,2)])
    then have "\<forall>e \<in> set (c # es). compare_path (cp_path g) (change_path e) < 0"
      using less path_walk.cmp_trans unfolding split by (auto simp: sorted_wrt_append)
    then have "cp_path g \<notin> change_path ` set ?cs" using new g(2) split by (auto simp: path_less_def)
    then obtain x where x: "tree_of a (cp_path g) = Some x" "same_entry None differ os_open (cp_path g) x (cp_stat g)"
      using unreported[OF t g(1)] by blast
    have nin: "change_path c \<notin> change_path ` set ds" using ord by fastforce
    show "?m (change_path c) = None \<or> dk_tree dk0 (gs @ split_slash (change_path c)) \<noteq> dk_tree dk0 (link_path gs y)"
    proof (cases "c = TAdd (change_path c) y")
      case True
      have "grounded below stat_is_dir (tree_of a) ?cs"
        unfolding tree_of_def by (rule path_walk.merge_changes_grounded[OF W(5,1,2,3,4)])
      then have "grounded below stat_is_dir ?m (c # es)" unfolding split by (rule grounded_split)
      then show ?thesis using True by (cases c) simp_all
    next
      case False
      then have "c = TMod (change_path c) y" using y(1) put_stat_cases by metis
      then have "TMod (change_path c) y \<in> set ?cs" using split by simp
      from merge_modified[OF this compare_path_eq]
      obtain z where z: "(change_path c, z) \<in> set (map walk_entry a)" "\<not> same_entry None differ os_open (change_path c) z y" by blast
      then have "tree_of a (change_path c) = Some z" by (simp only: tree_of_entry[OF t])
      then show ?thesis using kept[OF x] z(2) f(2) g(2) by (auto simp: link_path_def)
    qed
  qed
qed

lemma transfer_ordered:
  assumes "transferable differ os_open a b" "sender_links differ os_open gs a b dk0"
  shows "ordered_links (cp_path ` (set a \<union> set b)) (merge_events None differ os_open None a b)"
  unfolding ordered_links_def
proof (intro conjI ballI allI impI)
  let ?cs = "merge_events None differ os_open None a b"
  note W = transfer_walks[OF assms(1)]
  have good: "\<forall>f \<in> set a \<union> set b. good_path (cp_path f)" using assms(1) by (simp add: transferable_def plain_paths_def)
  show "sorted_wrt path_less (map change_path ?cs)"
    using path_walk.merge_changes_sorted[OF W(1,2)] by (simp add: path_less_def[abs_def])
  fix c assume c: "c \<in> set ?cs"
  show "good_path (change_path c)" using merge_changes_paths[OF c] good by (auto simp: walk_entry_def)
  fix y assume y: "put_stat c = Some y" "hard_link y"
  obtain f where f: "f \<in> set b" "cp_path f = change_path c" "cp_stat f = y" using put_entry_of[OF assms(1) c y(1)] by blast
  then obtain g where "g \<in> set b" "cp_path g = st_linkname y" "path_less (cp_path g) (cp_path f)"
    using assms(2) y(2) unfolding sender_links_def by metis
  then show "good_path (st_linkname y)" "path_less (st_linkname y) (change_path c)" using good f(2) by (metis UnI2)+
qed

lemma transfer_setup:
  assumes "transferable differ os_open a b" "transfer_start env gs a dw" "sender_links differ os_open gs a b (dw_disk dw)"
  defines "P \<equiv> cp_path ` (set a \<union> set b)"
    and "cs \<equiv> merge_events None differ os_open None a b"
  shows "transfer_at env gs P (dw_disk dw) [] (apply_changes below stat_is_dir [] (tree_of a)) dw" "plain_paths P" "list_all (plain_event P) cs"
    "grounded below stat_is_dir (apply_changes below stat_is_dir [] (tree_of a)) cs" "wf_disk (dw_disk dw)"
    "ordered_links P ([] @ cs)" "link_events gs (dw_disk dw) (tree_of a) ([] @ cs)"
    "double_walk_diff h None differ os_open None a b st = run_events h cs st"
proof -
  have t: "comparable None differ os_open a b" "plain_paths P" "list_all (\<lambda>f. plain_stat (cp_stat f)) b"
    using assms(1) by (simp_all add: transferable_def P_def)
  note W = transfer_walks[OF assms(1)]
  have d: "plain_writer gs dw" "disk_shows env gs (cp_path ` set a) (tree_of a) (dw_disk dw)"
    using assms(2) by (simp_all add: transfer_start_def)
  then have sh: "disk_shows env gs P (tree_of a) (dw_disk dw)" by (auto simp: disk_shows_def P_def)
  then show "transfer_at env gs P (dw_disk dw) [] (apply_changes below stat_is_dir [] (tree_of a)) dw"
    using d(1) by (simp add: transfer_at_def transfer_inv_def tracked_def apply_changes_def)
  show "plain_paths P" by (rule t(2))
  show "wf_disk (dw_disk dw)" by (rule disk_showsD(1)[OF sh])
  show "double_walk_diff h None differ os_open None a b st = run_events h cs st"
    unfolding cs_def by (rule double_walk_diff_refines[OF t(1)]) (simp add: filter_keeps_dir_def)
  show "grounded below stat_is_dir (apply_changes below stat_is_dir [] (tree_of a)) cs"
    using path_walk.merge_changes_grounded[OF W(5,1,2,3,4)] by (simp add: tree_of_def cs_def apply_changes_def)
  show "ordered_links P ([] @ cs)" using transfer_ordered[OF assms(1,3)] by (simp add: P_def cs_def)
  show "link_events gs (dw_disk dw) (tree_of a) ([] @ cs)"
    unfolding link_events_def cs_def append_Nil using transfer_link_event[OF assms(1,3)] by blast
  show "list_all (plain_event P) cs"
    unfolding list_all_iff
  proof
    fix c assume c: "c \<in> set cs"
    have "change_path c \<in> P"
      using merge_changes_paths[OF c[unfolded cs_def]] by (auto simp: P_def image_image walk_entry_def)
    moreover have "plain_stat y" if "put_stat c = Some y" for y
      using put_entry_of[OF assms(1) c[unfolded cs_def] that] t(3) by (auto simp: list_all_iff)
    ultimately show "plain_event P c" by (cases c) (auto simp: plain_event_def)
  qed
qed

section \<open>The result\<close>

text \<open>
  What the destination shows when the diff is done. A hard link that the diff reports is another name of the file
  that the entry it names has become.
\<close>

definition mirrored ::
  "writer_env \<Rightarrow> diff_type \<Rightarrow> (string \<Rightarrow> open_file res) \<Rightarrow> vpath \<Rightarrow> current_path list \<Rightarrow> current_path list \<Rightarrow> disk \<Rightarrow> bool" where
  "mirrored env differ os_open gs a b dk \<longleftrightarrow>
     (\<forall>cs. good_comps cs \<longrightarrow> entries dk (gs @ cs) \<noteq> None \<longrightarrow> join_slash cs \<in> cp_path ` set b) \<and>
     (\<forall>f \<in> set b. \<exists>i. entries dk (gs @ split_slash (cp_path f)) = Some i \<and>
        (inode_shows env (cp_stat f) i \<or>
         (\<exists>x. tree_of a (cp_path f) = Some x \<and> same_entry None differ os_open (cp_path f) x (cp_stat f) \<and> inode_shows env x i))) \<and>
     (\<forall>f \<in> set b. hard_link (cp_stat f) \<longrightarrow>
        dk_tree dk (gs @ split_slash (cp_path f)) = dk_tree dk (gs @ split_slash (st_linkname (cp_stat f))) \<or>
        (\<exists>x. tree_of a (cp_path f) = Some x \<and> same_entry None differ os_open (cp_path f) x (cp_stat f)))"

lemma tracked_links:
  assumes "transferable differ os_open a b" "tracked gs dk0 (merge_events None differ os_open None a b) dk"
    and "f \<in> set b" "hard_link (cp_stat f)"
  shows "dk_tree dk (gs @ split_slash (cp_path f)) = dk_tree dk (gs @ split_slash (st_linkname (cp_stat f))) \<or>
    (\<exists>x. tree_of a (cp_path f) = Some x \<and> same_entry None differ os_open (cp_path f) x (cp_stat f))"
proof (cases "cp_path f \<in> change_path ` set (merge_events None differ os_open None a b)")
  case True
  let ?cs = "merge_events None differ os_open None a b"
  note W = transfer_walks[OF assms(1)]
  obtain c where c: "c \<in> set ?cs" "change_path c = cp_path f" using True by auto
  have "c \<noteq> TDel (cp_path f)"
    using path_walk.merge_removed[OF W(5,1,2,4), of "cp_path f"] c(1) assms(3) by (auto simp: walk_entry_def image_image)
  then obtain z where z: "put_stat c = Some z" using c(2) by (cases c) auto
  obtain f' where "f' \<in> set b" "cp_path f' = change_path c" "cp_stat f' = z" using put_entry_of[OF assms(1) c(1) z] by blast
  then have z: "put_stat c = Some (cp_stat f)" using sender_unique[OF assms(1) _ assms(3), of f'] c(2) z by simp
  then show ?thesis using assms(2) c assms(4) hard_linkD(1)[OF assms(4)] unfolding tracked_def link_path_def by metis
next
  case False
  then show ?thesis using unreported[OF assms(1,3)] by blast
qed

lemma transfer_mirrors:
  assumes "transferable differ os_open a b" "sender_links differ os_open gs a b (dw_disk dw)" "plain_env env" "transfer_start env gs a dw"
    and "double_walk_diff (writer_handler n env) None differ os_open None a b dw = Inr dw'"
  shows "mirrored env differ os_open gs a b (dw_disk dw')" "same_outside gs (dw_disk dw) (dw_disk dw')"
proof -
  let ?P = "cp_path ` (set a \<union> set b)" and ?cs = "merge_events None differ os_open None a b"
  let ?m = "apply_changes below stat_is_dir ?cs (tree_of a)"
  note S = transfer_setup[OF assms(1,4,2)]
  have "run_events (writer_handler n env) ?cs dw = Inr dw'"
    using assms(5) S(8)[where h = "writer_handler n env" and st = dw] by (rule trans[OF sym, rotated])
  from transfer_events[OF S(1,2) assms(3) S(3,4) this S(5-7)]
  have inv: "disk_shows env gs ?P ?m (dw_disk dw')" "same_outside gs (dw_disk dw) (dw_disk dw')"
    and tr: "tracked gs (dw_disk dw) ?cs (dw_disk dw')"
    by (simp_all add: transfer_at_def transfer_inv_def)
  show "same_outside gs (dw_disk dw) (dw_disk dw')" by (rule inv(2))
  note W = transfer_walks[OF assms(1)]
  note T = path_walk.merge_changes_tree[OF W(5,1,2,4), folded tree_of_def]
  have dom: "dom ?m = cp_path ` set b" using T(1) by (simp add: image_image walk_entry_def)
  show "mirrored env differ os_open gs a b (dw_disk dw')"
    unfolding mirrored_def
  proof (intro conjI allI impI ballI)
    fix cs assume cs: "good_comps cs" "entries (dw_disk dw') (gs @ cs) \<noteq> None"
    then have "?m (join_slash cs) \<noteq> None" using disk_showsD(4)[OF inv(1) cs(1)] by (auto simp: option_rel_Some2 simp del: entries_None)
    then show "join_slash cs \<in> cp_path ` set b" using dom by blast
  next
    fix f assume f: "f \<in> set b"
    then have "good_path (cp_path f)" using S(2) by (simp add: plain_paths_def)
    then have g: "good_comps (split_slash (cp_path f))" "join_slash (split_slash (cp_path f)) = cp_path f" using good_pathI by simp_all
    have "?m (cp_path f) = Some (cp_stat f) \<or>
      (\<exists>x. tree_of a (cp_path f) = Some x \<and> same_entry None differ os_open (cp_path f) x (cp_stat f) \<and> ?m (cp_path f) = Some x)"
      by (rule T(2)) (simp only: map_walk_entry_set, use f in blast)
    then show "\<exists>i. entries (dw_disk dw') (gs @ split_slash (cp_path f)) = Some i \<and>
        (inode_shows env (cp_stat f) i \<or>
         (\<exists>x. tree_of a (cp_path f) = Some x \<and> same_entry None differ os_open (cp_path f) x (cp_stat f) \<and> inode_shows env x i))"
      using disk_showsD(4)[OF inv(1) g(1), unfolded g(2)] by (auto simp: option_rel_Some1)
    assume "hard_link (cp_stat f)"
    then show "dk_tree (dw_disk dw') (gs @ split_slash (cp_path f)) = dk_tree (dw_disk dw') (gs @ split_slash (st_linkname (cp_stat f))) \<or>
        (\<exists>x. tree_of a (cp_path f) = Some x \<and> same_entry None differ os_open (cp_path f) x (cp_stat f))"
      by (rule tracked_links[OF assms(1) tr f])
  qed
qed

lemma transfer_runs:
  assumes "transferable differ os_open a b" "sender_links differ os_open gs a b (dw_disk dw)" "faultless (we_disk env)"
    and "transfer_start env gs a dw" "live_writer dw"
  shows "\<exists>dw'. double_walk_diff (writer_handler (Suc n) env) None differ os_open None a b dw = Inr dw'"
proof -
  note S = transfer_setup[OF assms(1,4,2)]
  show ?thesis unfolding S(8) by (rule transfer_events_ok[OF S(1,2) assms(3) S(3,4) assms(5) S(5-7)])
qed

end
