(* ===== verification/Disk_Failure.thy ===== *)
theory Disk_Failure
  imports Disk_Apply
begin

text \<open>
  What a change that fails leaves behind: replacing a file by another goes through a temporary name, so
  until the rename the old file is there as it was, and after it only the notification can fail.
\<close>

text \<open>Calls on one inode, whether they fail or not.\<close>

definition inode_call :: "nat \<Rightarrow> disk \<Rightarrow> disk \<Rightarrow> bool" where
  "inode_call j dk dk' \<longleftrightarrow>
     (\<exists>f. dk' = set_inode j f dk \<and> (\<forall>n. mode_is_dir (in_mode (f n)) = mode_is_dir (in_mode n) \<and> is_symlink_node (f n) = is_symlink_node n))"

lemma inode_call_refl [simp]: "inode_call j dk dk"
proof -
  have "dk = set_inode j (\<lambda>i. i) dk" by (simp add: set_inode_def)
  then show ?thesis unfolding inode_call_def by blast
qed

lemma inode_call_trans:
  assumes "inode_call j dk dk1" "inode_call j dk1 dk2"
  shows "inode_call j dk dk2"
proof -
  obtain f where f: "dk1 = set_inode j f dk" "\<And>n. mode_is_dir (in_mode (f n)) = mode_is_dir (in_mode n) \<and> is_symlink_node (f n) = is_symlink_node n"
    using assms(1) by (auto simp: inode_call_def)
  obtain g where g: "dk2 = set_inode j g dk1" "\<And>n. mode_is_dir (in_mode (g n)) = mode_is_dir (in_mode n) \<and> is_symlink_node (g n) = is_symlink_node n"
    using assms(2) by (auto simp: inode_call_def)
  have "dk2 = set_inode j (\<lambda>i. g (f i)) dk" using f(1) g(1) by simp
  then show ?thesis using f(2) g(2) unfolding inode_call_def by (intro exI[of _ "\<lambda>i. g (f i)"]) simp
qed

lemma inode_callI:
  "dk' = dk \<or> dk' = set_inode j f dk \<Longrightarrow>
   (\<And>n. mode_is_dir (in_mode (f n)) = mode_is_dir (in_mode n) \<and> is_symlink_node (f n) = is_symlink_node n) \<Longrightarrow> inode_call j dk dk'"
  using inode_call_refl unfolding inode_call_def by blast

lemma inode_call_at:
  assumes "inode_call j dk dk'" "entry_at dk v j"
  shows "entry_at dk' v j" "is_symlink_node (dk_inodes dk' j) = is_symlink_node (dk_inodes dk j)"
proof -
  obtain f where f: "dk' = set_inode j f dk" "\<And>n. mode_is_dir (in_mode (f n)) = mode_is_dir (in_mode n) \<and> is_symlink_node (f n) = is_symlink_node n"
    using assms(1) by (auto simp: inode_call_def)
  show "entry_at dk' v j" unfolding f(1) by (rule entry_at_set[OF assms(2)]) (use f(2) in simp)
  show "is_symlink_node (dk_inodes dk' j) = is_symlink_node (dk_inodes dk j)" using f by simp
qed

lemma update_call:
  assumes "os_call env op p loc (\<lambda>v. k_update v f) dk = (r, dk')" "loc dk = Inr v" "dk_tree dk v = Some j"
    and "\<And>n. mode_is_dir (in_mode (f n)) = mode_is_dir (in_mode n) \<and> is_symlink_node (f n) = is_symlink_node n"
  shows "inode_call j dk dk'"
proof (rule inode_callI[OF _ assms(4)])
  show "dk' = dk \<or> dk' = set_inode j f dk"
    using assms(1-3) by (auto simp: os_call_def k_update_def split: option.splits)
qed

lemma rewrite_metadata_call:
  assumes "rewrite_metadata env (abs_path v) st dk = (r, dk')" "entry_at dk v j"
    and "is_symlink_node (dk_inodes dk j) = has_mode (st_mode st) mode_symlink" "is_symlink_node (dk_inodes dk j) \<Longrightarrow> st_xattrs st = []"
  shows "inode_call j dk dk'"
proof -
  have tree: "dk_tree d v = Some j" if "entry_at d v j" for d using that by (simp add: entry_at_def)
  have xs: "inode_call j d (set_xattrs env (abs_path v) ys d)" if "entry_at d v j" "\<not> is_symlink_node (dk_inodes d j)" for ys d
    using that
  proof (induction ys arbitrary: d)
    case (Cons x ys)
    obtain k val where x: "x = (k, val)" by (cases x)
    obtain q d1 where c: "os_setxattr env (abs_path v) k val d = (q, d1)" by fastforce
    have "inode_call j d d1"
      by (rule update_call[OF c[unfolded os_setxattr_def] entry_at_locate(2)[OF Cons.prems] tree[OF Cons.prems(1)]]) (simp add: is_symlink_node_def)
    moreover have "inode_call j d1 (set_xattrs env (abs_path v) ys d1)"
      using inode_call_at[OF calculation Cons.prems(1)] Cons.prems(2) by (intro Cons.IH) simp_all
    ultimately show ?case using c x inode_call_trans by simp
  qed simp
  let ?d1 = "set_xattrs env (abs_path v) (st_xattrs st) dk"
  have 1: "inode_call j dk ?d1" using xs[OF assms(2)] assms(4) by (cases "is_symlink_node (dk_inodes dk j)") auto
  note at1 = inode_call_at[OF 1 assms(2)]
  obtain r2 d2 where o: "os_lchown env (abs_path v) (st_uid st) (st_gid st) ?d1 = (r2, d2)" by fastforce
  have s2: "inode_call j ?d1 d2"
    by (rule update_call[OF o[unfolded os_lchown_def] entry_at_locate(1)[OF at1(1)] tree[OF at1(1)]]) (simp add: is_symlink_node_def)
  note 2 = inode_call_trans[OF 1 s2] and at2 = inode_call_at[OF s2 at1(1)]
  obtain r3 d3 where ch: "(if \<not> has_mode (st_mode st) mode_symlink then os_chmod env (abs_path v) (st_mode st) d2 else (Inr (), d2)) = (r3, d3)" by fastforce
  have s3: "inode_call j d2 d3"
  proof (cases "has_mode (st_mode st) mode_symlink")
    case True
    then show ?thesis using ch by simp
  next
    case False
    then have c: "os_chmod env (abs_path v) (st_mode st) d2 = (r3, d3)" using ch by simp
    have "\<not> is_symlink_node (dk_inodes d2 j)" using False assms(3) at1(2) at2(2) by simp
    from update_call[OF c[unfolded os_chmod_def] entry_at_locate(2)[OF at2(1) this] tree[OF at2(1)]]
    show ?thesis by (simp add: is_symlink_node_def)
  qed
  note 3 = inode_call_trans[OF 2 s3] and at3 = inode_call_at[OF s3 at2(1)]
  obtain r4 d4 where u: "os_utimes env (abs_path v) (st_modtime st) d3 = (r4, d4)" by fastforce
  have s4: "inode_call j d3 d4"
    by (rule update_call[OF u[unfolded os_utimes_def] entry_at_locate(1)[OF at3(1)] tree[OF at3(1)]]) (simp add: is_symlink_node_def)
  note 4 = inode_call_trans[OF 3 s4]
  have "dk' = d2 \<or> dk' = d3 \<or> dk' = d4"
    using assms(1) o ch u by (auto simp: rewrite_metadata_def chtimes_def try_bind_def wrap_err_def split: sum.splits)
  then show ?thesis using 2 3 4 by blast
qed

text \<open>Making the new file, when it fails.\<close>

lemma on_disk_Inl: "on_disk (os_call env op p loc act) dw = (Inl e, dw') \<Longrightarrow> dw' = dw"
  by (auto simp: on_disk_def split: prod.splits dest: os_call_Inl)

lemma make_regular_failed:
  assumes "make_regular env p st (abs_path v) dw = (Inl e, dw')" "dwo_sync_data_cb (dw_opt dw) = None" "free_place (dw_disk dw) v"
  shows "same_writer dw dw' \<and> (dw_disk dw' = dw_disk dw \<or> (\<exists>i. new_entry (dw_disk dw) v i (dw_disk dw')))"
proof -
  obtain r dk1 where c: "os_create (we_disk env) (abs_path v) (st_mode st) (dw_disk dw) = (r, dk1)" by fastforce
  show ?thesis
  proof (cases r)
    case (Inl e')
    then have "dk1 = dw_disk dw" using c by (auto simp: os_create_def dest: os_call_Inl)
    then show ?thesis using assms(1) c Inl by (auto simp: make_regular_def on_disk_def wrap_err_def try_bind_def)
  next
    case (Inr fd)
    obtain q dk' where f: "file_close (we_disk env) fd dk1 = (q, dk')" by fastforce
    have "k_open_create v (created (we_disk env) 0 (st_mode st) (dw_disk dw)) (dw_disk dw) = Inr (fd, dk1)"
      using c Inr free_place_locate(2)[OF assms(3), of "we_disk env"] by (simp add: os_create_def succeeds)
    from new_entry_close[OF new_entry_open[OF this assms(3)] f]
    have "\<exists>i. new_entry (dw_disk dw) v i dk'" by blast
    moreover have "make_regular env p st (abs_path v) dw = wrap_err (''failed to close '' @ abs_path v) (q, dw\<lparr>dw_disk := dk'\<rparr>)"
      using c f Inr assms(2) by (simp add: make_regular_def on_disk_def wrap_err_def try_bind_def)
    ultimately show ?thesis using assms(1) by (cases q) (auto simp: wrap_err_def)
  qed
qed

lemma make_node_failed:
  assumes "make_node env p dest st copy (abs_path v) dw = (MakeErr e, dw')" "free_place (dw_disk dw) v"
    and "dwo_sync_data_cb (dw_opt dw) = None" "\<not> makes_link st copy" "\<not> stat_is_dir st"
  shows "same_writer dw dw' \<and> (dw_disk dw' = dw_disk dw \<or> (\<exists>i. new_entry (dw_disk dw) v i (dw_disk dw')))"
proof -
  have step: ?thesis if "make_of False (wrap_err msg (on_disk (os_call env' op q loc act) dw)) = (MakeErr e, dw')"
    for msg env' op q loc and act :: "vpath \<Rightarrow> 'a kernel_op"
  proof -
    obtain r dw1 where r: "on_disk (os_call env' op q loc act) dw = (r, dw1)" by fastforce
    then have "r = Inl x \<Longrightarrow> dw1 = dw" for x using on_disk_Inl by blast
    then have "dw' = dw" using that r by (auto simp: make_of_def wrap_err_def split: sum.splits)
    then show ?thesis by simp
  qed
  consider "is_special st" | "\<not> is_special st" "has_mode (st_mode st) mode_symlink"
    | "\<not> is_special st" "\<not> has_mode (st_mode st) mode_symlink" by blast
  then show ?thesis
  proof cases
    case 1
    have "make_of False (wrap_err (''failed to create device '' @ abs_path v) (on_disk (handle_special env (abs_path v) copy) dw)) = (MakeErr e, dw')"
      using assms(1,5) 1 by (simp add: make_node_def is_special_def)
    then show ?thesis unfolding handle_special_def os_mknod_def[abs_def] by (rule step)
  next
    case 2
    have "make_of False (wrap_err (''failed to symlink '' @ abs_path v) (on_disk (os_symlink (we_disk env) (st_linkname copy) (abs_path v)) dw)) = (MakeErr e, dw')"
      using assms(1,5) 2 by (simp add: make_node_def is_special_def)
    then show ?thesis unfolding os_symlink_def[abs_def] by (rule step)
  next
    case 3
    then have "st_linkname copy = []" using assms(4,5) by (simp add: makes_link_def)
    then have "make_of True (make_regular env p st (abs_path v) dw) = (MakeErr e, dw')"
      using assms(1,5) 3 by (simp add: make_node_def is_special_def)
    then have "make_regular env p st (abs_path v) dw = (Inl e, dw')" by (auto simp: make_of_def split: prod.splits sum.splits)
    then show ?thesis by (rule make_regular_failed[OF _ assms(3,2)])
  qed
qed

text \<open>Everything but the path of the temporary file is as it was.\<close>

definition only_at :: "vpath \<Rightarrow> disk \<Rightarrow> disk \<Rightarrow> bool" where
  "only_at t dk dk' \<longleftrightarrow> (\<forall>w. w \<noteq> t \<longrightarrow> entries dk' w = entries dk w)"

lemma only_at_refl [simp]: "only_at t dk dk"
  by (simp add: only_at_def)

lemma only_at_new: "new_entry dk t i dk' \<Longrightarrow> only_at t dk dk'"
  by (simp add: only_at_def entry_added_def)

lemma only_at_meta:
  assumes "new_entry dk t i dk1" "wf_disk dk" "inode_call (dk_next dk) dk1 dk2"
  shows "only_at t dk dk2"
proof -
  obtain f where f: "dk2 = set_inode (dk_next dk) f dk1" "\<And>n. mode_is_dir (in_mode (f n)) = mode_is_dir (in_mode n) \<and> is_symlink_node (f n) = is_symlink_node n"
    using assms(3) by (auto simp: inode_call_def)
  have "new_entry dk t (f i) dk2" using new_entry_meta[OF assms(1,2), of f] f by simp
  then show ?thesis by (rule only_at_new)
qed

text \<open>
  A change that failed: nothing but the temporary file is new, or the change is complete, and it is an entry that is
  reported to a callback.
\<close>

definition reported :: "stat \<Rightarrow> bool" where
  "reported st \<longleftrightarrow> is_special st \<or> has_mode (st_mode st) mode_symlink"

definition all_or_nothing :: "disk_writer \<Rightarrow> stat \<Rightarrow> stat \<Rightarrow> vpath \<Rightarrow> vpath \<Rightarrow> nat \<times> inode \<Rightarrow> disk \<Rightarrow> disk \<Rightarrow> bool" where
  "all_or_nothing dw st copy v t ji dk dk' \<longleftrightarrow>
     only_at t dk dk' \<or> dwo_notify_cb (dw_opt dw) \<noteq> None \<and> reported st \<and> changed_disk st copy v ji dk dk'"

lemma finish_failed:
  assumes "finish_change env kind p (abs_path v) st copy (abs_path t) (Some o1) regular dw = (Inl e, dw')"
    and "new_entry dk t i (dw_disk dw)" "free_place dk t" "plain_meta env st copy"
    and "is_symlink_node i = has_mode (st_mode copy) mode_symlink" "mode_is_dir (in_mode i) = stat_is_dir st"
    and "\<not> stat_is_dir st" "\<not> mode_is_dir (in_mode o1)" "node dk v = Some o1" "butlast t = butlast v" "v \<noteq> []" "\<not> regular \<Longrightarrow> reported st"
  shows "all_or_nothing dw st copy v t (dk_next dk, i) dk (dw_disk dw')"
proof -
  have t: "t \<noteq> []" "wf_disk dk" using assms(3) by (simp_all add: free_place_def)
  have at: "entry_at (dw_disk dw) t (dk_next dk)" by (rule new_entry_at[OF assms(2) t(1)])
  have i: "dk_inodes (dw_disk dw) (dk_next dk) = i" using assms(2) by (simp add: entry_added_def)
  have unused: "dk_tree dk q \<noteq> Some (dk_next dk)" for q using wf_diskD(2)[OF t(2)] by blast
  obtain r2 dk2 where m: "rewrite_metadata (we_disk env) (abs_path t) copy (dw_disk dw) = (r2, dk2)" by fastforce
  have "inode_call (dk_next dk) (dw_disk dw) dk2"
    by (rule rewrite_metadata_call[OF m at]) (use assms(4,5) i in \<open>simp_all add: plain_meta_def\<close>)
  then have meta: "only_at t dk dk2" by (rule only_at_meta[OF assms(2) t(2)])
  obtain r3 dk3 where r: "os_rename (we_disk env) (abs_path t) (abs_path v) dk2 = (r3, dk3)" by fastforce
  have same: "dk3 = dk2" if "r3 = Inl x" for x using r that by (auto simp: os_rename_def dest: os_call_Inl)
  show ?thesis
  proof (cases "(\<exists>u. r2 = Inr u) \<and> (\<exists>u. r3 = Inr u)")
    case True
    then obtain u2 u3 where ok: "r2 = Inr u2" "r3 = Inr u3" by blast
    have mv: "move_into_place (we_disk env) (abs_path t) (abs_path v) st (Some o1) dk2 = (Inr u3, dk3)"
      using r ok assms(7,8) by (simp add: move_into_place_def rename_file_def try_bind_def wrap_err_def)
    have rep: "report_change env kind p (abs_path v) st copy regular (dw\<lparr>dw_disk := dk3\<rparr>) = (Inl e, dw')"
      using assms(1) m mv ok by (simp add: finish_change_def on_disk_def try_bind_def wrap_err_def)
    have "dw_disk dw' = dk3" using report_change_result(1)[OF rep] by simp
    moreover have "changed_disk st copy v (dk_next dk, i) dk dk3"
      by (rule finish_moved[OF m[unfolded ok(1)] mv assms(2-6)]) (use assms(7-11) unused in auto)
    moreover have "dwo_notify_cb (dw_opt dw) \<noteq> None \<and> \<not> regular"
      using rep by (auto simp: report_change_def process_change_def split: if_splits option.splits)
    ultimately show ?thesis using assms(12) by (simp add: all_or_nothing_def)
  next
    case False
    then have "dw_disk dw' = dk2"
      using assms(1,7,8) m r same
      by (auto simp: finish_change_def move_into_place_def rename_file_def on_disk_def try_bind_def wrap_err_def split: sum.splits)
    then show ?thesis using meta by (simp add: all_or_nothing_def)
  qed
qed

lemma changed_disk_meta:
  "changed_disk st copy v (k, i) dk dk' \<Longrightarrow> meta_of copy i = meta_of copy i' \<Longrightarrow> changed_disk st copy v (k, i') dk dk'"
  by (simp add: changed_disk_def)

lemma make_node_regular:
  "make_node env p dest st copy new_path dw = (MakeOk regular, dw') \<Longrightarrow> \<not> stat_is_dir st \<Longrightarrow> \<not> makes_link st copy \<Longrightarrow>
   \<not> regular \<Longrightarrow> reported st"
  by (auto simp: make_node_def make_of_def makes_link_def reported_def is_special_def split: if_splits prod.splits sum.splits)

lemma make_change_failed:
  assumes "make_change env kind p (abs_path v) st copy (Some o1) (abs_path t) dw = (Some (Inl e), dw')"
    and "free_place (dw_disk dw) t" "plain_change env st copy" "dwo_sync_data_cb (dw_opt dw) = None"
    and "\<not> stat_is_dir st" "\<not> mode_is_dir (in_mode o1)" "node (dw_disk dw) v = Some o1" "butlast t = butlast v" "v \<noteq> []"
  shows "all_or_nothing dw st copy v t (dk_next (dw_disk dw), blank_node env st copy) (dw_disk dw) (dw_disk dw')"
proof -
  have plain: "\<not> makes_link st copy" "same_type st copy" "one_type st" "plain_meta env st copy"
    using assms(3) by (simp_all add: plain_change_def plain_meta_def)
  obtain mr dw2 where mk: "make_node env p (abs_path v) st copy (abs_path t) dw = (mr, dw2)" by fastforce
  show ?thesis
  proof (cases mr)
    case MakeAgain
    then show ?thesis using assms(1) mk by (simp add: make_change_def)
  next
    case (MakeErr e')
    then have "dw' = dw2" using assms(1) mk by (simp add: make_change_def)
    then show ?thesis using make_node_failed[OF mk[unfolded MakeErr] assms(2,4) plain(1) assms(5)] only_at_new
      by (auto simp: all_or_nothing_def)
  next
    case (MakeOk regular)
    obtain i where i: "new_entry (dw_disk dw) t i (dw_disk dw2)" "is_symlink_node i = has_mode (st_mode copy) mode_symlink"
      "mode_is_dir (in_mode i) = stat_is_dir st" "same_writer dw dw2" "meta_of copy i = meta_of copy (blank_node env st copy)"
      using make_node_result[OF mk[unfolded MakeOk] assms(2,4) plain(1-3)] by metis
    have fin: "finish_change env kind p (abs_path v) st copy (abs_path t) (Some o1) regular dw2 = (Inl e, dw')"
      using assms(1) mk MakeOk by (simp add: make_change_def split: prod.splits)
    have "\<not> regular \<Longrightarrow> reported st" by (rule make_node_regular[OF mk[unfolded MakeOk] assms(5) plain(1)])
    from finish_failed[OF fin i(1) assms(2) plain(4) i(2,3) assms(5-9) this]
    show ?thesis using changed_disk_meta[OF _ i(5)] i(4) by (auto simp: all_or_nothing_def same_writer_def)
  qed
qed

lemma make_node_again: "make_node env p dest st copy new_path dw = (MakeAgain, dw') \<Longrightarrow> stat_is_dir st"
  by (auto simp: make_node_def make_of_def split: if_splits sum.splits prod.splits)

text \<open>The whole change.\<close>

lemma handle_change_failed:
  assumes "handle_change n env kind p (StatInfo st) None dw = Some (Inl e, dw')" "kind \<noteq> ChangeKindDelete"
    and "join2 (dw_dest dw) p = abs_path v" "change_place (dw_disk dw) v" "apply_filter dw p st = (True, copy)"
    and "plain_change env st copy" "dwo_sync_data_cb (dw_opt dw) = None"
    and "node (dw_disk dw) v = Some o1" "\<not> stat_is_dir st" "\<not> mode_is_dir (in_mode o1)"
    and "\<And>p d. de_fail (we_disk env) ''lstat'' p d \<noteq> Some ENOENT"
  shows "\<exists>x. temp_name x \<and> all_or_nothing dw st copy v (butlast v @ [x]) (dk_next (dw_disk dw), blank_node env st copy) (dw_disk dw) (dw_disk dw')"
proof -
  obtain m where n: "n = Suc m" using assms(1) by (cases n) auto
  have tmp: "temp_name ''.tmp.''" by (simp add: temp_name_def)
  show ?thesis
  proof (cases "dw_done dw")
    case True
    then have "dw' = dw" using assms(1) n by simp
    then show ?thesis using tmp by (auto simp: all_or_nothing_def)
  next
    case live: False
    obtain r dw1 where body: "apply_stat env kind p (abs_path v) st copy dw = (r, dw1)" by fastforce
    have cb: "change_body env kind p (StatInfo st) dw = (r, dw1)"
      using body assms(2,3,5) by (simp add: change_body_def)
    obtain lst dw0 where l: "look_at (we_disk env) kind (abs_path v) dw = (lst, dw0)" by fastforce
    note L = look_at_result[OF l assms(4,11)]
    show ?thesis
    proof (cases lst)
      case (Inl le)
      then have "dw1 = dw" "r = Some (Inl le)" using body l L(1) by (simp_all add: apply_stat_def)
      then have "dw_disk dw' = dw_disk dw" using assms(1) n live cb by (auto simp: cancel_on_def)
      then show ?thesis using tmp by (auto simp: all_or_nothing_def)
    next
      case (Inr old)
      then have look: "look_at (we_disk env) kind (abs_path v) dw = (Inr (Some o1), dw)" using l L assms(8) by simp
      have pl: "place_change env kind p (abs_path v) st copy (Some o1) dw = (r, dw1)"
        using body look assms(9) by (simp add: apply_stat_def)
      obtain t dw2 where free: "free_place (dw_disk dw) t" and t: "if Some o1 = None then t = v else butlast t = butlast v \<and> temp_name (last t)"
        and same1: "dw_disk dw2 = dw_disk dw" "same_writer dw dw2"
        and pc: "place_change env kind p (abs_path v) st copy (Some o1) dw = make_change env kind p (abs_path v) st copy (Some o1) (abs_path t) dw2"
        by (rule place_change_run[OF assms(4,8), where env = env and kind = kind and p = p and st = st and copy = copy], rule that)
      have run: "make_change env kind p (abs_path v) st copy (Some o1) (abs_path t) dw2 = (r, dw1)" using pl pc by simp
      have "r \<noteq> None"
        using run make_node_again[of env p "abs_path v" st copy "abs_path t" dw2] assms(9)
        by (auto simp: make_change_def split: make_result.splits prod.splits)
      then obtain q where q: "r = Some q" by blast
      then have "cancel_on (q, dw1) = (Inl e, dw')" using assms(1) n live cb by simp
      then have qe: "q = Inl e" "dw_disk dw' = dw_disk dw1" by (auto simp: cancel_on_def split: sum.splits)
      have ok: "free_place (dw_disk dw2) t" "dwo_sync_data_cb (dw_opt dw2) = None" "node (dw_disk dw2) v = Some o1" "butlast t = butlast v" "v \<noteq> []"
        using assms(4,7,8) free same1 t by (simp_all add: same_writer_def change_place_def)
      have "all_or_nothing dw2 st copy v t (dk_next (dw_disk dw2), blank_node env st copy) (dw_disk dw2) (dw_disk dw1)"
        by (rule make_change_failed[OF run[unfolded q qe(1)] ok(1) assms(6) ok(2) assms(9,10) ok(3-5)])
      then have "all_or_nothing dw st copy v t (dk_next (dw_disk dw), blank_node env st copy) (dw_disk dw) (dw_disk dw')"
        using same1 qe(2) by (simp add: all_or_nothing_def same_writer_def)
      moreover have "t = butlast v @ [last t]" using t free by (metis append_butlast_last_id free_place_def option.distinct(1))
      ultimately show ?thesis using t by (metis option.distinct(1))
    qed
  qed
qed

section \<open>Two calls that do not do what the writer takes them for\<close>

text \<open>
  Renaming onto another name of the same file does nothing, and reports no error. So when the
  destination already is the hard link that a change asks for, the temporary name stays.
\<close>

lemma rename_same_file:
  assumes "\<And>op p d. de_fail env op p d = None" "entry_at dk tmp j" "entry_at dk v j" "\<not> mode_is_dir (in_mode (dk_inodes dk j))"
  shows "rename_file env (abs_path tmp) (abs_path v) dk = (Inr (), dk)"
  using assms entry_at_locate(1)[OF assms(2), of env] entry_at_locate(1)[OF assms(3), of env]
  by (simp add: rename_file_def os_rename_def os_call_def wrap_err_def k_rename_def is_dir_at_iff entry_at_def)

text \<open>
  \<open>setxattr\<close> follows the symbolic link that \<open>rewriteMetadata\<close> has just made, so the extended attributes
  received for the link are set on the file it leads to, wherever that is.
\<close>

lemma xattrs_follow_link:
  assumes "\<And>op p d. de_fail env op p d = None" "locate_follow env dk (abs_path v) = Inr w" "dk_tree dk w = Some j"
  shows "set_xattrs env (abs_path v) [(key, val)] dk = set_inode j (\<lambda>i. i\<lparr>in_xattrs := (in_xattrs i)(key \<mapsto> val)\<rparr>) dk"
  using assms by (simp add: os_setxattr_def os_call_def k_update_def)

end
