(* ===== verification/Disk_Data.thy ===== *)
theory Disk_Data
  imports Disk_Progress
begin

text \<open>
  The data of a requested file: what its callback writes is what the file holds afterwards, with the
  modification time of the sender.
\<close>

lemma write_at_end: "write_at (length w) bs w = w @ bs"
  by (simp add: write_at_def)

text \<open>
  The lazy writer of the file \<open>j\<close> at \<open>v\<close> after \<open>w\<close> has been written: the descriptor is at its end, and
  nothing but the file has changed.
\<close>

definition writing :: "disk \<Rightarrow> vpath \<Rightarrow> nat \<Rightarrow> string \<Rightarrow> lazy_writer \<times> disk \<Rightarrow> bool" where
  "writing dk0 v j w lwd \<longleftrightarrow>
     lw_dest (fst lwd) = abs_path v \<and> lw_mode (fst lwd) = None \<and>
     dk_tree (snd lwd) = dk_tree dk0 \<and> dk_next (snd lwd) = dk_next dk0 \<and>
     (\<exists>t. dk_inodes (snd lwd) = (dk_inodes dk0)(j := (dk_inodes dk0 j)\<lparr>in_data := w, in_mtime := t\<rparr>)) \<and>
     (case lw_fd (fst lwd) of None \<Rightarrow> w = [] | Some fd \<Rightarrow> dk_fds (snd lwd) fd = Some (j, length w))"

lemma writing_entry:
  assumes "writing dk0 v j w (lw, dk)" "entry_at dk0 v j"
  shows "entry_at dk v j"
proof -
  obtain t where t: "dk_inodes dk = (dk_inodes dk0)(j := (dk_inodes dk0 j)\<lparr>in_data := w, in_mtime := t\<rparr>)"
    and s: "dk_tree dk = dk_tree dk0" "dk_next dk = dk_next dk0" using assms(1) by (auto simp: writing_def)
  have "same_shape dk0 dk" using t s by (simp add: same_shape_def)
  then show ?thesis using assms(2) same_shape_wf s by (auto simp: entry_at_def)
qed

lemma lazy_write_step:
  assumes "writing dk0 v j w (lw, dk)" "entry_at dk0 v j" "faultless env"
    and "\<not> is_symlink_node (dk_inodes dk0 j)" "\<not> mode_is_dir (in_mode (dk_inodes dk0 j))"
  obtains lw' dk' where "lazy_write env bs (lw, dk) = (Inr (), (lw', dk'))" "writing dk0 v j (w @ bs) (lw', dk')"
proof -
  obtain t where t: "dk_inodes dk = (dk_inodes dk0)(j := (dk_inodes dk0 j)\<lparr>in_data := w, in_mtime := t\<rparr>)"
    and s: "dk_tree dk = dk_tree dk0" "dk_next dk = dk_next dk0" "lw_dest lw = abs_path v" "lw_mode lw = None"
    using assms(1) by (auto simp: writing_def)
  have at: "entry_at dk v j" by (rule writing_entry[OF assms(1,2)])
  have kind: "\<not> is_symlink_node (dk_inodes dk j)" "\<not> mode_is_dir (in_mode (dk_inodes dk j))" using assms(4,5) t by (simp_all add: is_symlink_node_def)
  have wr: "\<exists>dk2. file_write env fd bs dk1 = (Inr (), dk2) \<and> writing dk0 v j (w @ bs) (lw\<lparr>lw_fd := Some fd\<rparr>, dk2)"
    if d: "dk_tree dk1 = dk_tree dk" "dk_next dk1 = dk_next dk" "dk_inodes dk1 = dk_inodes dk" "dk_fds dk1 fd = Some (j, length w)" for dk1 fd
    using d t s assms(3) by (auto simp: file_write_def writing_def set_inode_def write_at_end)
  show ?thesis
  proof (cases "lw_fd lw")
    case None
    obtain fd dk1 where n: "new_fd j dk = (fd, dk1)" by fastforce
    have d: "dk_tree dk1 = dk_tree dk" "dk_next dk1 = dk_next dk" "dk_inodes dk1 = dk_inodes dk" "dk_fds dk1 fd = Some (j, length w)"
      using n None assms(1) by (auto simp: new_fd_def writing_def)
    have "os_open_write env (abs_path v) dk = (Inr fd, dk1)"
      using entry_at_locate(2)[OF at kind(1), of env] at kind(2) assms(3) n by (simp add: os_open_write_def os_call_def k_open_def entry_at_def)
    then have "lazy_open env (lw, dk) = (Inr fd, (lw, dk1))" using s(3) by (simp add: lazy_open_def)
    then show ?thesis using wr[OF d] None that by (auto simp: lazy_write_def wrap_err_def)
  next
    case (Some fd)
    then have "dk_fds dk fd = Some (j, length w)" using assms(1) by (simp add: writing_def)
    from wr[OF refl refl refl this] show ?thesis using Some that by (auto simp: lazy_write_def)
  qed
qed

lemma lazy_writes:
  assumes "writing dk0 v j w lwd" "entry_at dk0 v j" "faultless env"
    and "\<not> is_symlink_node (dk_inodes dk0 j)" "\<not> mode_is_dir (in_mode (dk_inodes dk0 j))"
  obtains lwd' where "run_ops (lazy_write env, lazy_close env) (map WrWrite chunks @ rest) lwd = run_ops (lazy_write env, lazy_close env) rest lwd'"
    "writing dk0 v j (w @ concat chunks) lwd'"
  using assms(1)
proof (induction chunks arbitrary: w lwd thesis)
  case Nil
  then show ?case by simp
next
  case (Cons c cs)
  obtain lw dk where lwd: "lwd = (lw, dk)" by (cases lwd)
  obtain lw1 dk1 where 1: "lazy_write env c (lw, dk) = (Inr (), (lw1, dk1))" "writing dk0 v j (w @ c) (lw1, dk1)"
    using lazy_write_step[OF Cons.prems(2)[unfolded lwd] assms(2-5)] .
  obtain lwd' where "run_ops (lazy_write env, lazy_close env) (map WrWrite cs @ rest) (lw1, dk1) = run_ops (lazy_write env, lazy_close env) rest lwd'"
    "writing dk0 v j ((w @ c) @ concat cs) lwd'" using Cons.IH[OF _ 1(2)] .
  then show ?case using Cons.prems(1) 1(1) lwd by (simp add: try_bind_def)
qed

lemma lazy_close_step:
  assumes "writing dk0 v j w (lw, dk)" "faultless env"
  obtains dk' t where "lazy_close env (lw, dk) = (Inr (), (lw, dk'))" "dk_tree dk' = dk_tree dk0" "dk_next dk' = dk_next dk0"
    "dk_inodes dk' = (dk_inodes dk0)(j := (dk_inodes dk0 j)\<lparr>in_data := w, in_mtime := t\<rparr>)"
  using assms that by (cases "lw_fd lw") (auto simp: writing_def lazy_close_def file_close_def)

text \<open>The file after its task.\<close>

definition with_data :: "nat \<Rightarrow> string \<Rightarrow> 64 word \<Rightarrow> disk \<Rightarrow> vpath \<Rightarrow> inode option" where
  "with_data j content t dk w =
     (if dk_tree dk w = Some j then Some ((dk_inodes dk j)\<lparr>in_data := content, in_mtime := t\<rparr>) else node dk w)"

lemma run_task_data:
  assumes "entry_at (dw_disk dw) v j" "dt_dest t = abs_path v" "faultless (we_disk env)"
    and "\<not> is_symlink_node (dk_inodes (dw_disk dw) j)" "\<not> mode_is_dir (in_mode (dk_inodes (dw_disk dw) j))" "in_data (dk_inodes (dw_disk dw) j) = []"
    and "dwo_sync_data_cb (dw_opt dw) = None" "dwo_async_data_cb (dw_opt dw) = Some f" "dwo_notify_cb (dw_opt dw) = None"
    and "f (dt_path t) = (map WrWrite chunks @ [WrClose], None)"
  obtains dw' where "run_task env t dw = (Inr (), dw')" "node (dw_disk dw') = with_data j (concat chunks) (st_modtime (dt_stat t)) (dw_disk dw)"
    "wf_disk (dw_disk dw')"
proof -
  let ?env = "we_disk env" and ?dk = "dw_disk dw" and ?lw = "\<lparr>lw_dest = dt_dest t, lw_fd = None, lw_mode = None\<rparr>"
  let ?ops = "(lazy_write ?env, lazy_close ?env)"
  have "dk_inodes ?dk j = (dk_inodes ?dk j)\<lparr>in_data := [], in_mtime := in_mtime (dk_inodes ?dk j)\<rparr>" using assms(6) by simp
  then have "dk_inodes ?dk = (dk_inodes ?dk)(j := (dk_inodes ?dk j)\<lparr>in_data := [], in_mtime := in_mtime (dk_inodes ?dk j)\<rparr>)" by simp
  then have "writing ?dk v j [] (?lw, ?dk)" using assms(2) unfolding writing_def by (intro conjI exI[of _ "in_mtime (dk_inodes ?dk j)"]) simp_all
  then obtain lw1 dk1 where 1: "run_ops ?ops (map WrWrite chunks @ [WrClose]) (?lw, ?dk) = run_ops ?ops [WrClose] (lw1, dk1)"
    "writing ?dk v j ([] @ concat chunks) (lw1, dk1)"
    using lazy_writes[OF _ assms(1,3-5), where chunks = chunks and rest = "[WrClose]"] by (metis surj_pair)
  obtain dk2 mt where 2: "lazy_close ?env (lw1, dk1) = (Inr (), (lw1, dk2))" "dk_tree dk2 = dk_tree ?dk" "dk_next dk2 = dk_next ?dk"
    "dk_inodes dk2 = (dk_inodes ?dk)(j := (dk_inodes ?dk j)\<lparr>in_data := [] @ concat chunks, in_mtime := mt\<rparr>)"
    using lazy_close_step[OF 1(2) assms(3)] .
  have run: "run_callback (f (dt_path t)) ?ops (?lw, ?dk) = (Inr (), (lw1, dk2))"
    using 1(1) 2(1) assms(10) by (simp add: run_callback_def try_bind_def)
  have "same_shape ?dk dk2" using 2 by (simp add: same_shape_def)
  then have at: "entry_at dk2 v j" using assms(1) same_shape_wf 2(2) by (auto simp: entry_at_def)
  let ?dk3 = "set_inode j (\<lambda>i. i\<lparr>in_mtime := st_modtime (dt_stat t)\<rparr>) dk2"
  have "chtimes ?env (abs_path v) (st_modtime (dt_stat t)) dk2 = (Inr (), ?dk3)"
    using entry_at_locate(1)[OF at, of ?env] at assms(3) by (simp add: chtimes_def wrap_err_def os_utimes_def os_call_def k_update_def entry_at_def)
  then have "run_task env t dw = (Inr (), dw\<lparr>dw_disk := ?dk3\<rparr>)"
    using run assms(2,7-9) by (simp add: run_task_def process_change_def data_cb_def on_disk_def)
  moreover have "node ?dk3 w = with_data j (concat chunks) (st_modtime (dt_stat t)) ?dk w" for w
    using 2 by (cases "dk_tree ?dk w") (auto simp: node_def with_data_def set_inode_def)
  moreover have "wf_disk ?dk3" using at entry_at_set[OF at, of "\<lambda>i. i\<lparr>in_mtime := st_modtime (dt_stat t)\<rparr>"] by (simp add: entry_at_def)
  ultimately show ?thesis using that[of "dw\<lparr>dw_disk := ?dk3\<rparr>"] by auto
qed

end
