(* ===== verification/Disk_Facts.thy ===== *)
theory Disk_Facts
  imports Disk_Mirror Disk_Failure Disk_Data
begin

text \<open>
  The properties of the disk writer: one change, a whole diff, a change that fails, and the data of a file,
  each with an example on a disk with one directory \<open>/w\<close>.
\<close>

section \<open>An example\<close>

definition sample_disk_env :: disk_env where
  "sample_disk_env =
     \<lparr>de_fail = (\<lambda>op p dk. None), de_cwd = [], de_umask = 0, de_uid = 0, de_gid = 0, de_kept = (\<lambda>dk v. False)\<rparr>"

definition sample_writer_env :: writer_env where
  "sample_writer_env = \<lparr>we_disk = sample_disk_env, we_digest = (\<lambda>s. s), we_mkdev = (\<lambda>a b. 0), we_seed = 1\<rparr>"

definition dir_node :: inode where
  "dir_node = fresh_inode sample_disk_env (mode_dir OR 0x1ED)"

definition file_node :: inode where
  "file_node = fresh_inode sample_disk_env 0x1A4"

definition sample_disk :: disk where
  "sample_disk =
     \<lparr>dk_tree = [[] \<mapsto> 0, [''w''] \<mapsto> 1, [''w'', ''f''] \<mapsto> 2], dk_inodes = (\<lambda>i. if i < 2 then dir_node else file_node), dk_next = 3,
      dk_fds = Map.empty, dk_next_fd = 0, dk_clock = 9\<rparr>"

definition sample_opt :: "write_to_func \<Rightarrow> disk_writer_opt" where
  "sample_opt cb = \<lparr>dwo_async_data_cb = Some cb, dwo_sync_data_cb = None, dwo_notify_cb = None, dwo_content_hasher = (\<lambda>st. Inr []), dwo_filter = None\<rparr>"

definition sample_writer :: disk_writer where
  "sample_writer =
     \<lparr>dw_opt = sample_opt (\<lambda>p. ([WrWrite ''hello'', WrWrite '' world'', WrClose], None)), dw_dest = ''/w'', dw_done = False,
      dw_dir_mod_times = Map.empty, dw_disk = sample_disk, dw_rand = 0, dw_notes = [], dw_tasks = []\<rparr>"

lemmas sample_disk_simps = sample_disk_env_def sample_writer_env_def dir_node_def file_node_def sample_disk_def sample_opt_def sample_writer_def
  fresh_inode_def

lemma sample_faultless [simp]: "faultless (we_disk sample_writer_env)"
  by (simp add: faultless_def sample_disk_simps)

lemma node_kinds [simp]:
  "mode_is_dir (in_mode dir_node)" "\<not> mode_is_dir (in_mode file_node)" "\<not> is_symlink_node file_node"
  by (simp_all add: sample_disk_simps is_symlink_node_def mode_is_dir_def has_mode_def mode_bits)

lemma sample_tree: "dk_tree sample_disk v = Some i \<longleftrightarrow> v = [] \<and> i = 0 \<or> v = [''w''] \<and> i = 1 \<or> v = [''w'', ''f''] \<and> i = 2"
  by (auto simp: sample_disk_def)

lemma sample_dir_at: "is_dir_at sample_disk v \<longleftrightarrow> v = [] \<or> v = [''w'']"
  by (auto simp: is_dir_at_iff sample_tree) (simp_all add: sample_disk_def)

lemma sample_wf: "wf_disk sample_disk"
  unfolding wf_disk_def
proof (intro conjI allI impI)
  show "is_dir_at sample_disk []" by (simp add: sample_dir_at)
  fix v i assume t: "dk_tree sample_disk v = Some i"
  show "i < dk_next sample_disk" using t by (auto simp: sample_tree) (simp_all add: sample_disk_def)
  show "is_dir_at sample_disk (butlast v)" using t by (auto simp: sample_tree sample_dir_at)
  show "good_comp (last v)" if "v \<noteq> []" using t that by (auto simp: sample_tree good_comp_def)
  show "v = w" if "dk_tree sample_disk w = Some i" for w using t that by (auto simp: sample_tree)
qed

lemma sample_plain: "plain_writer [''w''] sample_writer" "live_writer sample_writer"
  by (simp_all add: plain_writer_def live_writer_def sample_writer_def sample_opt_def abs_path_def good_comp_def)

text \<open>The destination holds a file; the sender has a directory with another one, and a hard link to it.\<close>

definition sample_held :: "current_path list" where
  "sample_held = [\<lparr>cp_path = ''f'', cp_stat = empty_stat\<lparr>st_path := ''f'', st_mode := 0x1A4\<rparr>\<rparr>]"

definition sample_link :: "string \<Rightarrow> string \<Rightarrow> current_path" where
  "sample_link p l = \<lparr>cp_path = p, cp_stat = empty_stat\<lparr>st_path := p, st_linkname := l\<rparr>\<rparr>"

lemma sample_hard_link [simp]: "hard_link (cp_stat (sample_dir p)) = False" "hard_link (cp_stat (sample_reg p n)) = False"
  "hard_link (cp_stat (sample_link p l)) \<longleftrightarrow> l \<noteq> []"
  by (simp_all add: sample_link_def sample_simps hard_link_def makes_link_def is_special_def)

definition sample_sent :: "current_path list" where
  "sample_sent = [sample_dir ''d'', sample_reg ''d/g'' 5, sample_link ''d/h'' ''d/g'']"

lemma sample_paths: "good_path ''d''" "good_path ''d/g''" "good_path ''d/h''" "good_path ''f''"
  by (simp_all add: good_path_def good_comps_def good_comp_def)

lemma sample_orders: "tree_order (map add_change sample_held)" "tree_order (map add_change sample_sent)"
  using sample_paths
  by (auto simp: tree_order_def add_change_def local_path_iff sample_held_def sample_sent_def sample_link_def sample_simps opens_dir_def parent_of_def
      path_less_def compare_path_def less_Suc_eq)

lemma sample_transferable: "transferable DiffMetadata (\<lambda>p. Inl (Errno ENOENT)) sample_held sample_sent"
  unfolding transferable_def
proof (intro conjI)
  show "comparable None DiffMetadata (\<lambda>p. Inl (Errno ENOENT)) sample_held sample_sent" by (rule comparable_metadata) simp
  show "tree_order (map add_change sample_held)" "tree_order (map add_change sample_sent)" by (rule sample_orders)+
  show "plain_paths (cp_path ` (set sample_held \<union> set sample_sent))"
    using sample_paths by (simp add: plain_paths_def sample_held_def sample_sent_def sample_dir_def sample_reg_def sample_link_def temp_name_def)
  show "list_all (\<lambda>f. plain_stat (cp_stat f)) sample_sent"
    by (simp add: sample_sent_def sample_link_def sample_simps plain_stat_def one_type_def is_special_def)
qed

lemma sample_links: "sender_links DiffMetadata (\<lambda>p. Inl (Errno ENOENT)) [''w''] sample_held sample_sent (dw_disk sample_writer)"
proof -
  have paths: "cp_path (sample_reg p n) = p" "cp_path (sample_link p l) = p" "cp_stat (sample_link p l) = empty_stat\<lparr>st_path := p, st_linkname := l\<rparr>" for p n l
    by (simp_all add: sample_reg_def sample_link_def)
  have absent: "tree_of sample_held ''d/g'' = None" by (simp add: tree_of_def sample_held_def walk_entry_def)
  have "path_less ''d/g'' ''d/h''" by (simp add: path_less_def compare_path_def less_Suc_eq)
  moreover have "same_meta (cp_stat (sample_reg ''d/g'' 5)) (cp_stat (sample_link ''d/h'' ''d/g''))"
    by (simp add: same_meta_def sample_reg_def sample_link_def)
  ultimately show ?thesis
    unfolding sender_links_def sample_sent_def using absent paths by (auto simp: paths)
qed

lemma sample_start: "transfer_start sample_writer_env [''w''] sample_held sample_writer"
  unfolding transfer_start_def disk_shows_def
proof (intro conjI allI impI)
  show "plain_writer [''w''] sample_writer" by (rule sample_plain)
  have dk: "dw_disk sample_writer = sample_disk" by (simp add: sample_writer_def)
  show "wf_disk (dw_disk sample_writer)" "is_dir_at (dw_disk sample_writer) [''w'']" using sample_wf sample_dir_at dk by simp_all
  show "dom (tree_of sample_held) \<subseteq> cp_path ` set sample_held" by (auto simp: tree_of_def sample_held_def walk_entry_def split: if_splits)
  fix cs assume cs: "good_comps cs"
  show "rel_option (inode_shows sample_writer_env) (tree_of sample_held (join_slash cs)) (entries (dw_disk sample_writer) ([''w''] @ cs))"
  proof (cases "cs = [''f'']")
    case True
    have "entries sample_disk [''w'', ''f''] = Some (seen file_node)" by (simp add: entries_def node_def sample_disk_def)
    moreover have "inode_shows sample_writer_env (empty_stat\<lparr>st_path := ''f'', st_mode := 0x1A4\<rparr>) (seen file_node)"
      by (simp add: inode_shows_def seen_def file_node_def fresh_inode_def sample_disk_env_def empty_stat_def node_type_def
          is_special_def stat_is_dir_def mode_is_dir_def has_mode_def mode_bits mode_type_eq chmod_bits_eq)
    ultimately show ?thesis using True dk by (simp add: tree_of_def sample_held_def walk_entry_def)
  next
    case False
    then have "join_slash cs \<noteq> ''f''" using split_join_good[OF cs] by auto
    moreover have "entries sample_disk (''w'' # cs) = None"
      using False cs by (auto simp: entries_def node_def sample_disk_def good_comps_def)
    ultimately show ?thesis using dk by (simp add: tree_of_def sample_held_def walk_entry_def)
  qed
qed

lemma sample_change_place: "change_place sample_disk [''w'', ''h'']" "change_place sample_disk [''w'', ''f'']"
proof -
  have "dk_tree sample_disk [''w'', x] = None" if "temp_name x" for x
    using that by (auto simp: sample_disk_def temp_name_def)
  then show "change_place sample_disk [''w'', ''h'']" "change_place sample_disk [''w'', ''f'']"
    by (simp_all add: change_place_def sample_wf sample_dir_at good_comp_def)
qed

lemma sample_join: "join2 ''/w'' ''h'' = abs_path [''w'', ''h'']" "join2 ''/w'' ''f'' = abs_path [''w'', ''f'']"
  using join2_abs_path[of "[''w'']" "[''h'']"] join2_abs_path[of "[''w'']" "[''f'']"]
  by (simp_all add: good_comp_def good_comps_def abs_path_def)

definition sample_file :: stat where
  "sample_file = empty_stat\<lparr>st_mode := 0x180, st_uid := 3, st_gid := 4, st_modtime := 7\<rparr>"

lemma sample_file_plain: "plain_stat sample_file" "\<not> stat_is_dir sample_file" "\<not> hard_link sample_file"
  by (simp_all add: sample_file_def plain_stat_def one_type_def hard_link_def makes_link_def is_special_def stat_is_dir_def mode_is_dir_def
      has_mode_def mode_bits empty_stat_def)

section \<open>Properties\<close>

text \<open>C1. The diff of what the destination holds and what the sender offers, with the disk writer as its
  handler, mirrors the sender's tree: when it succeeds, every path of the sender is on disk and
  shows the sender's entry or one that \<open>sameFile\<close> took for the same, every hard link that the diff reports is
  another name of the very file that stands at the path it names, nothing else is left in the
  destination, and every entry outside the destination is what it was. The sender's symbolic links have no
  extended attributes (\<open>LSetxattr\<close> in \<open>rewriteMetadata\<close> goes through the link, see \<open>xattrs_follow_link\<close>), setting attributes
  does not fail, owners are known, and its hard links follow the file they name with its metadata (\<open>sender_links\<close>).\<close>

theorem transfer_to_disk:
  assumes "transferable differ os_open a b" "sender_links differ os_open gs a b (dw_disk dw)" "plain_env env" "transfer_start env gs a dw"
    and "double_walk_diff (writer_handler n env) None differ os_open None a b dw = Inr dw'"
  shows "mirrored env differ os_open gs a b (dw_disk dw') \<and> same_outside gs (dw_disk dw) (dw_disk dw')"
  using transfer_mirrors[OF assms] by blast

theorem transfer_to_disk_witness:
  "\<exists>dw'. double_walk_diff (writer_handler 1 sample_writer_env) None DiffMetadata (\<lambda>p. Inl (Errno ENOENT)) None
       sample_held sample_sent sample_writer = Inr dw' \<and>
     mirrored sample_writer_env DiffMetadata (\<lambda>p. Inl (Errno ENOENT)) [''w''] sample_held sample_sent (dw_disk dw') \<and>
     same_outside [''w''] (dw_disk sample_writer) (dw_disk dw')"
proof -
  obtain dw' where run: "double_walk_diff (writer_handler (Suc 0) sample_writer_env) None DiffMetadata (\<lambda>p. Inl (Errno ENOENT)) None
       sample_held sample_sent sample_writer = Inr dw'"
    using transfer_runs[OF sample_transferable sample_links sample_faultless sample_start sample_plain(2)] by blast
  from transfer_to_disk[OF sample_transferable sample_links faultless_plain[OF sample_faultless] sample_start run] run
  show ?thesis by (intro exI[of _ dw']) simp
qed

text \<open>C2. When no call of the operating system fails for a reason of its own, that diff does succeed, hard links
  included: no change finds the disk in a state it cannot deal with, and none has to be started again.\<close>

theorem transfer_to_disk_completes:
  assumes "transferable differ os_open a b" "sender_links differ os_open gs a b (dw_disk dw)" "faultless (we_disk env)"
    and "transfer_start env gs a dw" "live_writer dw"
  shows "\<exists>dw'. double_walk_diff (writer_handler (Suc n) env) None differ os_open None a b dw = Inr dw'"
  by (rule transfer_runs[OF assms])

theorem transfer_to_disk_completes_witness:
  "\<exists>dw'. double_walk_diff (writer_handler (Suc 0) sample_writer_env) None DiffMetadata (\<lambda>p. Inl (Errno ENOENT)) None
       sample_held sample_sent sample_writer = Inr dw'"
  by (rule transfer_to_disk_completes[OF sample_transferable sample_links sample_faultless sample_start sample_plain(2)])

text \<open>C3. One change that succeeds leaves at its path the inode it is about: a directory that is there already,
  the file a hard link names, or a new one. That inode has the filtered metadata, under every name it has; a directory keeps what
  is in it, what was below a directory that is replaced is gone, and no other path changes its inode. When it is no hard link,
  the path is the only one that changes. Symbolic links have no extended attributes, setting attributes does not
  fail, and a hard link names an entry that is no symbolic link and is not yet the entry at the path.\<close>

theorem handle_change_puts:
  assumes "handle_change n env kind p (StatInfo st) None dw = Some (Inr (), dw')" "kind \<noteq> ChangeKindDelete"
    and "join2 (dw_dest dw) p = abs_path v" "change_place (dw_disk dw) v" "apply_filter dw p st = (True, copy)"
    and "plain_meta env st copy" "link_ready dw st copy v l" "dwo_sync_data_cb (dw_opt dw) = None"
    and "\<And>p d. de_fail (we_disk env) ''lstat'' p d \<noteq> Some ENOENT"
  shows "changed_disk st copy v (base_inode env st copy (dw_disk dw) v l) (dw_disk dw) (dw_disk dw') \<and>
    (\<not> makes_link st copy \<longrightarrow>
       entries (dw_disk dw') = put_entry v (seen (meta_of copy (base_node env st copy (node (dw_disk dw) v)))) (entries (dw_disk dw)))"
proof -
  have "wf_disk (dw_disk dw)" using assms(4) by (simp add: change_place_def)
  then show ?thesis using handle_change_put(2)[OF assms] changed_disk_entries by blast
qed

text \<open>The example: a second name for the file of the destination.\<close>

definition sample_name :: stat where
  "sample_name = sample_file\<lparr>st_linkname := ''f''\<rparr>"

lemma sample_name_plain: "makes_link sample_name sample_name" "plain_meta sample_writer_env sample_name sample_name"
  using sample_file_plain faultless_plain[OF sample_faultless]
  by (auto simp: sample_name_def plain_meta_def plain_env_def plain_stat_def makes_link_def one_type_def same_type_def is_special_def stat_is_dir_def
      sample_file_def mode_is_dir_def has_mode_def mode_bits empty_stat_def)

lemma sample_name_ready:
  "link_ready sample_writer sample_name sample_name [''w'', ''h''] [''w'', ''f'']" "link_file sample_writer sample_name sample_name [''w'', ''f'']"
proof -
  have dk: "dw_disk sample_writer = sample_disk" "dw_dest sample_writer = ''/w''" by (simp_all add: sample_writer_def)
  have at: "entry_at sample_disk [''w'', ''f''] 2" by (simp add: entry_at_def sample_wf sample_tree)
  have i: "dk_inodes sample_disk 2 = file_node" by (simp add: sample_disk_def)
  have "link_source sample_writer sample_name [''w'', ''f'']"
    unfolding link_source_def using at i dk sample_join by (auto simp: sample_name_def)
  moreover have "dk_tree sample_disk [''w'', ''h''] \<noteq> dk_tree sample_disk [''w'', ''f'']" by (simp add: sample_disk_def)
  ultimately show "link_ready sample_writer sample_name sample_name [''w'', ''h''] [''w'', ''f'']" using dk by (simp add: link_ready_def)
  show "link_file sample_writer sample_name sample_name [''w'', ''f'']" using dk sample_dir_at by (simp add: link_file_def)
qed

theorem handle_change_puts_witness:
  "\<exists>dw'. handle_change 1 sample_writer_env ChangeKindAdd ''h'' (StatInfo sample_name) None sample_writer = Some (Inr (), dw') \<and>
    dk_tree (dw_disk dw') [''w'', ''h''] = Some 2 \<and> dk_tree (dw_disk dw') [''w'', ''f''] = Some 2 \<and>
    entries (dw_disk dw') [''w'', ''h''] = Some (seen (meta_of sample_name file_node)) \<and>
    entries (dw_disk dw') [''w'', ''f''] = Some (seen (meta_of sample_name file_node))"
proof -
  have dk: "dw_disk sample_writer = sample_disk" "dw_dest sample_writer = ''/w''" by (simp_all add: sample_writer_def)
  have place: "change_place (dw_disk sample_writer) [''w'', ''h'']" using sample_change_place dk by simp
  have path: "join2 (dw_dest sample_writer) ''h'' = abs_path [''w'', ''h'']" using sample_join dk by simp
  have cb: "dwo_sync_data_cb (dw_opt sample_writer) = None" "dwo_notify_cb (dw_opt sample_writer) = None" "\<not> dw_done sample_writer"
    using sample_plain by (simp_all add: plain_writer_def live_writer_def)
  note filt = plain_writer_filter[OF sample_plain(1)]
  have ne: "ChangeKindAdd \<noteq> ChangeKindDelete" by simp
  obtain dw' where run: "handle_change (Suc 0) sample_writer_env ChangeKindAdd ''h'' (StatInfo sample_name) None sample_writer = Some (Inr (), dw')"
    using handle_change_put_ok[OF sample_faultless ne path place filt sample_name_plain(2) sample_name_ready cb] by auto
  have "\<And>p d. de_fail (we_disk sample_writer_env) ''lstat'' p d \<noteq> Some ENOENT" by simp
  note P = handle_change_puts[OF run ne path place filt sample_name_plain(2) sample_name_ready(1) cb(1) this]
  have base: "base_inode sample_writer_env sample_name sample_name sample_disk [''w'', ''h''] [''w'', ''f''] = (2, file_node)"
    using sample_name_plain(1) by (simp add: base_inode_def made_inode_def sample_disk_def)
  have kind: "\<not> stat_is_dir sample_name" using sample_name_plain(1) by (simp add: makes_link_def)
  have "entries (set_inode 2 (meta_of sample_name) sample_disk) [''w'', ''f''] = Some (seen (meta_of sample_name file_node))"
    by (simp add: entries_def node_def set_inode_def sample_disk_def)
  then have "dk_tree (dw_disk dw') [''w'', ''h''] = Some 2 \<and> dk_tree (dw_disk dw') [''w'', ''f''] = Some 2 \<and>
      entries (dw_disk dw') [''w'', ''h''] = Some (seen (meta_of sample_name file_node)) \<and>
      entries (dw_disk dw') [''w'', ''f''] = Some (seen (meta_of sample_name file_node))"
    using P[THEN conjunct1] base dk kind by (simp add: changed_disk_def put_at_def sample_tree)
  then show ?thesis using run by (intro exI[of _ dw']) simp
qed

text \<open>C4. Replacing a file that is no directory by another, no hard link, is all or nothing: if the change fails,
  every entry is what it was, the old file among them, but for a temporary file that may be left beside it; or the
  change is made in full and only the report of it to \<open>NotifyCb\<close> has failed, which comes after the rename for an
  entry that is no regular file. Any call may fail but \<open>setxattr\<close>, whose errors the code ignores, and a spurious
  \<open>ENOENT\<close> of \<open>lstat\<close>; symbolic links have no extended attributes and the data of files comes later (\<open>AsyncDataCb\<close>).\<close>

theorem failed_change_keeps_old:
  assumes "handle_change n env kind p (StatInfo st) None dw = Some (Inl e, dw')" "kind \<noteq> ChangeKindDelete"
    and "join2 (dw_dest dw) p = abs_path v" "change_place (dw_disk dw) v" "apply_filter dw p st = (True, copy)"
    and "plain_change env st copy" "dwo_sync_data_cb (dw_opt dw) = None"
    and "node (dw_disk dw) v = Some old" "\<not> stat_is_dir st" "\<not> mode_is_dir (in_mode old)"
    and "\<And>p d. de_fail (we_disk env) ''lstat'' p d \<noteq> Some ENOENT"
  shows "entries (dw_disk dw') v = entries (dw_disk dw) v \<and>
      (\<exists>x. temp_name x \<and> (\<forall>w. entries (dw_disk dw') w = entries (dw_disk dw) w \<or> w = butlast v @ [x])) \<or>
    dwo_notify_cb (dw_opt dw) \<noteq> None \<and> reported st \<and>
      changed_disk st copy v (dk_next (dw_disk dw), blank_node env st copy) (dw_disk dw) (dw_disk dw')"
proof -
  obtain x where x: "temp_name x" and all: "all_or_nothing dw st copy v (butlast v @ [x]) (dk_next (dw_disk dw), blank_node env st copy)
      (dw_disk dw) (dw_disk dw')"
    using handle_change_failed[OF assms] by blast
  have "dk_tree (dw_disk dw) (butlast v @ [x]) = None" using assms(4) x by (simp add: change_place_def)
  then have "v \<noteq> butlast v @ [x]" using assms(8) by (auto simp: node_def)
  then show ?thesis using x all by (auto simp: all_or_nothing_def only_at_def)
qed

text \<open>The example where creating files is not permitted.\<close>

definition denied_env :: writer_env where
  "denied_env = sample_writer_env\<lparr>we_disk := sample_disk_env\<lparr>de_fail := (\<lambda>op p dk. if op = ''open'' then Some EACCES else None)\<rparr>\<rparr>"

lemma denied_plain: "plain_env denied_env" "\<And>p d. de_fail (we_disk denied_env) ''lstat'' p d = None"
  "\<And>p d. de_fail (we_disk denied_env) ''open'' p d = Some EACCES"
  by (simp_all add: plain_env_def denied_env_def)

lemma denied_run:
  "\<exists>e dw'. handle_change 1 denied_env ChangeKindModify ''f'' (StatInfo sample_file) None sample_writer = Some (Inl e, dw')"
proof -
  have dk: "dw_disk sample_writer = sample_disk" "dw_dest sample_writer = ''/w''" by (simp_all add: sample_writer_def)
  have path: "join2 (dw_dest sample_writer) ''f'' = abs_path [''w'', ''f'']" using sample_join dk by simp
  have old: "node sample_disk [''w'', ''f''] = Some file_node" by (simp add: node_def sample_disk_def)
  have "entry_at sample_disk [''w'', ''f''] 2" by (simp add: entry_at_def sample_wf sample_tree)
  from entry_at_locate(1)[OF this, of "we_disk denied_env"]
  have look: "look_at (we_disk denied_env) ChangeKindModify (abs_path [''w'', ''f'']) sample_writer = (Inr (Some file_node), sample_writer)"
    using old dk denied_plain(2) by (simp add: look_at_def on_disk_def os_lstat_def os_call_def k_lstat_def)
  have kinds: "\<not> stat_is_dir sample_file" "\<not> has_mode (st_mode sample_file) mode_device" "\<not> has_mode (st_mode sample_file) mode_named_pipe"
    "\<not> has_mode (st_mode sample_file) mode_symlink" "st_linkname sample_file = []"
    using sample_file_plain(2) by (simp_all add: sample_file_def empty_stat_def has_mode_def mode_bits)
  have mk: "make_regular denied_env p sample_file np dw = (Inl (Wrap (''failed to create '' @ np) (PathError ''open'' np EACCES)), dw)" for p np dw
    using denied_plain(3) by (simp add: make_regular_def on_disk_def os_create_def os_call_def wrap_err_def try_bind_def)
  have "\<exists>e dw'. place_change denied_env ChangeKindModify ''f'' (abs_path [''w'', ''f'']) sample_file sample_file (Some file_node) sample_writer =
      (Some (Inl e), dw')"
    using kinds mk by (auto simp: place_change_def make_change_def make_node_def make_of_def split: prod.splits)
  then have "\<exists>e dw'. apply_stat denied_env ChangeKindModify ''f'' (abs_path [''w'', ''f'']) sample_file sample_file sample_writer = (Some (Inl e), dw')"
    using look kinds by (simp add: apply_stat_def)
  moreover have "apply_filter sample_writer ''f'' sample_file = (True, sample_file)" by (rule plain_writer_filter[OF sample_plain(1)])
  moreover have "\<not> dw_done sample_writer" using sample_plain by (simp add: live_writer_def)
  ultimately show ?thesis using path by (auto simp: change_body_def cancel_on_def numeral_eq_Suc)
qed

theorem failed_change_keeps_old_witness:
  "\<exists>e dw'. handle_change 1 denied_env ChangeKindModify ''f'' (StatInfo sample_file) None sample_writer = Some (Inl e, dw') \<and>
    entries (dw_disk dw') [''w'', ''f''] = entries (dw_disk sample_writer) [''w'', ''f''] \<and>
    (\<exists>x. temp_name x \<and> (\<forall>w. entries (dw_disk dw') w = entries (dw_disk sample_writer) w \<or> w = butlast [''w'', ''f''] @ [x]))"
proof -
  have lstat: "\<And>p d. de_fail (we_disk denied_env) ''lstat'' p d \<noteq> Some ENOENT" using denied_plain(2) by simp
  have dk: "dw_disk sample_writer = sample_disk" "dw_dest sample_writer = ''/w''" by (simp_all add: sample_writer_def)
  have place: "change_place (dw_disk sample_writer) [''w'', ''f'']" using sample_change_place dk by simp
  have path: "join2 (dw_dest sample_writer) ''f'' = abs_path [''w'', ''f'']" using sample_join dk by simp
  have plain: "plain_change denied_env sample_file sample_file" by (rule plain_stat_change[OF sample_file_plain(1,3) denied_plain(1)])
  have cb: "dwo_sync_data_cb (dw_opt sample_writer) = None" "dwo_notify_cb (dw_opt sample_writer) = None"
    using sample_plain by (simp_all add: plain_writer_def live_writer_def)
  have old: "node (dw_disk sample_writer) [''w'', ''f''] = Some file_node" by (simp add: node_def dk sample_disk_def)
  have ne: "ChangeKindModify \<noteq> ChangeKindDelete" by simp
  obtain e dw' where run: "handle_change 1 denied_env ChangeKindModify ''f'' (StatInfo sample_file) None sample_writer = Some (Inl e, dw')"
    using denied_run by blast
  from failed_change_keeps_old[OF run ne path place plain_writer_filter[OF sample_plain(1)] plain cb(1) old sample_file_plain(2) node_kinds(2) lstat]
  show ?thesis using run cb(2) by blast
qed

text \<open>C5. The task of a requested file writes to the new file all that its callback is given, in order,
  closes it and sets the modification time of the sender; no other file changes.\<close>

theorem requested_data_written:
  assumes "entry_at (dw_disk dw) v j" "dt_dest t = abs_path v" "faultless (we_disk env)"
    and "\<not> is_symlink_node (dk_inodes (dw_disk dw) j)" "\<not> mode_is_dir (in_mode (dk_inodes (dw_disk dw) j))" "in_data (dk_inodes (dw_disk dw) j) = []"
    and "dwo_sync_data_cb (dw_opt dw) = None" "dwo_async_data_cb (dw_opt dw) = Some f" "dwo_notify_cb (dw_opt dw) = None"
    and "f (dt_path t) = (map WrWrite chunks @ [WrClose], None)"
  shows "\<exists>dw'. run_task env t dw = (Inr (), dw') \<and>
    node (dw_disk dw') = with_data j (concat chunks) (st_modtime (dt_stat t)) (dw_disk dw)"
  using run_task_data[OF assms] by metis

definition sample_task :: data_task where
  "sample_task = \<lparr>dt_path = ''f'', dt_dest = ''/w/f'', dt_fi = sample_file, dt_stat = sample_file\<rparr>"

theorem requested_data_written_witness:
  "\<exists>dw'. run_task sample_writer_env sample_task sample_writer = (Inr (), dw') \<and>
    node (dw_disk dw') = with_data 2 ''hello world'' 7 sample_disk"
proof -
  have at: "entry_at (dw_disk sample_writer) [''w'', ''f''] 2" by (simp add: entry_at_def sample_wf sample_tree sample_writer_def)
  have "dt_dest sample_task = abs_path [''w'', ''f'']" by (simp add: sample_task_def abs_path_def)
  moreover have "dk_inodes (dw_disk sample_writer) 2 = file_node" by (simp add: sample_writer_def sample_disk_def)
  moreover have "in_data file_node = []" by (simp add: file_node_def fresh_inode_def)
  moreover have "dwo_sync_data_cb (dw_opt sample_writer) = None" "dwo_notify_cb (dw_opt sample_writer) = None"
    using sample_plain by (simp_all add: plain_writer_def live_writer_def)
  moreover have "dwo_async_data_cb (dw_opt sample_writer) = Some (\<lambda>p. ([WrWrite ''hello'', WrWrite '' world'', WrClose], None))"
    by (simp add: sample_writer_def sample_opt_def)
  ultimately have "\<exists>dw'. run_task sample_writer_env sample_task sample_writer = (Inr (), dw') \<and>
      node (dw_disk dw') = with_data 2 (concat [''hello'', '' world'']) (st_modtime (dt_stat sample_task)) (dw_disk sample_writer)"
    by (intro requested_data_written[OF at _ sample_faultless]) simp_all
  moreover have "st_modtime (dt_stat sample_task) = 7" by (simp add: sample_task_def sample_file_def)
  moreover have "dw_disk sample_writer = sample_disk" by (simp add: sample_writer_def)
  ultimately show ?thesis by simp
qed

end
