(* ===== verification/Proto_Stream.thy ===== *)
theory Proto_Stream
  imports Sender
begin

unbundle bit_operations_syntax

text \<open>
  \<open>util/protostream.go\<close>: packets over a byte stream, each after its length in four bytes. The encoder and
  decoder of a message are parameters, and so is how the stream cuts the bytes into reads.
\<close>

section \<open>Bytes\<close>

text \<open>\<open>binary.BigEndian\<close>.\<close>

definition byte_of :: "32 word \<Rightarrow> char" where
  "byte_of w = char_of (unat (take_bit 8 w))"

definition word_of_byte :: "char \<Rightarrow> 32 word" where
  "word_of_byte c = of_nat (of_char c)"

definition put_uint32 :: "32 word \<Rightarrow> string" where
  "put_uint32 w = [byte_of (drop_bit 24 w), byte_of (drop_bit 16 w), byte_of (drop_bit 8 w), byte_of w]"

definition uint32_of :: "string \<Rightarrow> 32 word" where
  "uint32_of b =
     word_of_byte (b ! 3) OR push_bit 8 (word_of_byte (b ! 2)) OR push_bit 16 (word_of_byte (b ! 1)) OR push_bit 24 (word_of_byte (b ! 0))"

lemma word_of_byte_of: "word_of_byte (byte_of w) = take_bit 8 w"
proof -
  have "unat (take_bit 8 w) < 256"
    using take_bit_nat_less_exp[of 8 "unat w"] by (simp add: unsigned_take_bit_eq)
  then show ?thesis by (simp add: word_of_byte_def byte_of_def)
qed

lemma put_uint32_length [simp]: "length (put_uint32 w) = 4"
  by (simp add: put_uint32_def)

lemma uint32_of_put [simp]: "uint32_of (put_uint32 w) = w"
  unfolding uint32_of_def put_uint32_def
proof (rule bit_eqI)
  fix n assume n: "possible_bit TYPE(32 word) n"
  consider "n < 8" | "8 \<le> n" "n < 16" | "16 \<le> n" "n < 24" | "24 \<le> n" by linarith
  then show "bit (word_of_byte ([byte_of (drop_bit 24 w), byte_of (drop_bit 16 w), byte_of (drop_bit 8 w), byte_of w] ! 3) OR
      push_bit 8 (word_of_byte ([byte_of (drop_bit 24 w), byte_of (drop_bit 16 w), byte_of (drop_bit 8 w), byte_of w] ! 2)) OR
      push_bit 16 (word_of_byte ([byte_of (drop_bit 24 w), byte_of (drop_bit 16 w), byte_of (drop_bit 8 w), byte_of w] ! 1)) OR
      push_bit 24 (word_of_byte ([byte_of (drop_bit 24 w), byte_of (drop_bit 16 w), byte_of (drop_bit 8 w), byte_of w] ! 0))) n = bit w n"
    using n by cases (auto simp: word_of_byte_of bit_simps)
qed

section \<open>Reading\<close>

text \<open>
  \<open>io.ReadFull\<close> on a stream that delivers the given reads: what has been read so far, and the end of
  the stream when there are no more. An error that comes with the last byte wanted is dropped.
\<close>

fun read_full :: "nat \<Rightarrow> string \<Rightarrow> reads \<Rightarrow> string res \<times> reads" where
  "read_full n acc [] = (if n = 0 then (Inr acc, []) else (Inl (if acc = [] then Eof else UnexpectedEof), []))"
| "read_full n acc ((bs, err) # rs) =
     (if n = 0 then (Inr acc, (bs, err) # rs)
      else if n < length bs then (Inr (acc @ take n bs), (drop n bs, err) # rs)
      else if n = length bs then (Inr (acc @ bs), rs)
      else (case err of
          None \<Rightarrow> read_full (n - length bs) (acc @ bs) rs
        | Some e \<Rightarrow> (Inl (if e = Eof \<and> acc @ bs \<noteq> [] then UnexpectedEof else e), rs)))"

text \<open>What the generated code of a message type provides: \<open>MarshalTo\<close> into \<open>Size\<close> bytes, and \<open>Unmarshal\<close> into a message.\<close>

record 'm codec =
  cd_marshal :: "'m \<Rightarrow> string res"
  cd_unmarshal :: "string \<Rightarrow> 'm \<Rightarrow> 'm res"

definition recv_msg :: "'m codec \<Rightarrow> 'm \<Rightarrow> reads \<Rightarrow> 'm res \<times> reads" where
  "recv_msg cd m rs =
     (case read_full 4 [] rs of
        (Inl e, rs) \<Rightarrow> (Inl e, rs)
      | (Inr h, rs) \<Rightarrow>
          let len = uint32_of h in
          if len = 0 then (Inr m, rs)
          else (case read_full (unat len) [] rs of
              (Inl e, rs) \<Rightarrow> (Inl e, rs)
            | (Inr buf, rs) \<Rightarrow> (cd_unmarshal cd buf m, rs)))"

text \<open>The bytes of a message: the length is cut to 32 bits.\<close>

definition send_msg :: "'m codec \<Rightarrow> (string \<Rightarrow> 'w \<Rightarrow> go_error option \<times> 'w) \<Rightarrow> 'm \<Rightarrow> 'w \<Rightarrow> go_error option \<times> 'w" where
  "send_msg cd write m w =
     (case cd_marshal cd m of
        Inl e \<Rightarrow> (Some e, w)
      | Inr bs \<Rightarrow> write (put_uint32 (of_nat (length bs)) @ bs) w)"

section \<open>The round trip\<close>

text \<open>The bytes still to come, when no read fails before the end.\<close>

fun stream_bytes :: "reads \<Rightarrow> string" where
  "stream_bytes [] = []"
| "stream_bytes ((bs, err) # rs) = bs @ stream_bytes rs"

definition clean_reads :: "reads \<Rightarrow> bool" where
  "clean_reads rs \<longleftrightarrow> (\<forall>r \<in> set rs. snd r = None)"

lemma read_full_bytes:
  assumes "clean_reads rs" "n \<le> length (stream_bytes rs)"
  shows "\<exists>rs'. read_full n acc rs = (Inr (acc @ take n (stream_bytes rs)), rs') \<and> clean_reads rs' \<and>
    stream_bytes rs' = drop n (stream_bytes rs)"
  using assms
proof (induction n acc rs rule: read_full.induct)
  case (2 n acc bs err rs)
  have err: "err = None" "clean_reads rs" using 2(2) by (simp_all add: clean_reads_def)
  consider "n = 0" | "n \<noteq> 0" "n < length bs" | "n \<noteq> 0" "n = length bs" | "n > length bs" by linarith
  then show ?case
  proof cases
    case 4
    have "n - length bs \<le> length (stream_bytes rs)" using 2(3) by simp
    then show ?thesis using 2(1) 4 err by auto
  qed (use 2(2) err in \<open>auto simp: clean_reads_def\<close>)
qed simp

definition message_bytes :: "'m codec \<Rightarrow> 'm \<Rightarrow> string" where
  "message_bytes cd m = (case cd_marshal cd m of Inl e \<Rightarrow> [] | Inr bs \<Rightarrow> put_uint32 (of_nat (length bs)) @ bs)"

text \<open>A message that the codec reads back into an empty one, and that fits the length field.\<close>

definition decodable :: "'m codec \<Rightarrow> 'm \<Rightarrow> 'm \<Rightarrow> bool" where
  "decodable cd zero m \<longleftrightarrow>
     (\<exists>bs. cd_marshal cd m = Inr bs \<and> length bs < 2 ^ 32 \<and> (if bs = [] then m = zero else cd_unmarshal cd bs zero = Inr m))"

lemma recv_msg_bytes:
  assumes "clean_reads rs" "decodable cd zero m" "stream_bytes rs = message_bytes cd m @ rest"
  shows "\<exists>rs'. recv_msg cd zero rs = (Inr m, rs') \<and> clean_reads rs' \<and> stream_bytes rs' = rest"
proof -
  obtain bs where bs: "cd_marshal cd m = Inr bs" "length bs < 2 ^ 32" "if bs = [] then m = zero else cd_unmarshal cd bs zero = Inr m"
    using assms(2) by (auto simp: decodable_def)
  let ?len = "of_nat (length bs) :: 32 word"
  have len: "unat ?len = length bs" using bs(2) by (simp add: unat_of_nat)
  then have zero: "?len = 0 \<longleftrightarrow> bs = []" by (metis length_0_conv unat_eq_zero)
  have s: "stream_bytes rs = put_uint32 ?len @ bs @ rest" using assms(3) bs(1) by (simp add: message_bytes_def)
  obtain rs1 where 1: "read_full 4 [] rs = (Inr (put_uint32 ?len), rs1)" "clean_reads rs1" "stream_bytes rs1 = bs @ rest"
    using read_full_bytes[OF assms(1), of 4 "[]"] s by auto
  obtain rs2 where 2: "read_full (length bs) [] rs1 = (Inr bs, rs2)" "clean_reads rs2" "stream_bytes rs2 = rest"
    using read_full_bytes[OF 1(2), of "length bs" "[]"] 1(3) by auto
  show ?thesis
  proof (cases "bs = []")
    case True
    then show ?thesis using 1 bs(3) zero by (simp add: recv_msg_def Let_def)
  next
    case False
    then show ?thesis using 1 2 bs(3) zero len by (simp add: recv_msg_def Let_def)
  qed
qed

text \<open>Receiving messages one after the other, each into an empty one, until one fails.\<close>

fun recv_all :: "'m codec \<Rightarrow> 'm \<Rightarrow> nat \<Rightarrow> reads \<Rightarrow> 'm list \<times> go_error option" where
  "recv_all cd zero 0 rs = ([], None)"
| "recv_all cd zero (Suc n) rs =
     (case recv_msg cd zero rs of
        (Inl e, rs) \<Rightarrow> ([], Some e)
      | (Inr m, rs) \<Rightarrow> (case recv_all cd zero n rs of (ms, err) \<Rightarrow> (m # ms, err)))"

lemma read_full_end:
  "clean_reads rs \<Longrightarrow> stream_bytes rs = [] \<Longrightarrow> 0 < n \<Longrightarrow> \<exists>rs'. read_full n [] rs = (Inl Eof, rs')"
  by (induction n "[] :: string" rs rule: read_full.induct) (auto simp: clean_reads_def)

lemma recv_all_bytes:
  assumes "clean_reads rs" "\<forall>m \<in> set ms. decodable cd zero m" "stream_bytes rs = concat (map (message_bytes cd) ms)"
  shows "recv_all cd zero (Suc (length ms)) rs = (ms, Some Eof)"
  using assms
proof (induction ms arbitrary: rs)
  case Nil
  then show ?case using read_full_end[of rs 4] by (auto simp: recv_msg_def)
next
  case (Cons m ms)
  obtain rs' where 1: "recv_msg cd zero rs = (Inr m, rs')" "clean_reads rs'" "stream_bytes rs' = concat (map (message_bytes cd) ms)"
    using recv_msg_bytes[OF Cons.prems(1), of cd zero m "concat (map (message_bytes cd) ms)"] Cons.prems(2,3) by auto
  show ?case using Cons.IH[OF 1(2) _ 1(3)] Cons.prems(2) 1(1) by simp
qed

text \<open>A stream as a byte string, to which every \<open>Write\<close> is appended.\<close>

definition append_write :: "string \<Rightarrow> string \<Rightarrow> go_error option \<times> string" where
  "append_write bs w = (None, w @ bs)"

fun send_all :: "'m codec \<Rightarrow> 'm list \<Rightarrow> string \<Rightarrow> go_error option \<times> string" where
  "send_all cd [] w = (None, w)"
| "send_all cd (m # ms) w =
     (case send_msg cd append_write m w of (Some e, w) \<Rightarrow> (Some e, w) | (None, w) \<Rightarrow> send_all cd ms w)"

lemma send_all_bytes:
  assumes "\<forall>m \<in> set ms. decodable cd zero m"
  shows "send_all cd ms w = (None, w @ concat (map (message_bytes cd) ms))"
  using assms by (induction ms arbitrary: w) (auto simp: send_msg_def append_write_def message_bytes_def decodable_def)

section \<open>Properties\<close>

text \<open>C37. What \<open>SendMsg\<close> writes for a list of messages, \<open>RecvMsg\<close> reads back, in order and then the end
  of the stream, however the connection cuts the bytes into reads, as long as each message is
  shorter than 4 GiB and is received into an empty one.\<close>

theorem proto_stream_roundtrip:
  assumes "\<forall>m \<in> set ms. decodable cd zero m" "clean_reads rs" "send_all cd ms [] = (None, stream_bytes rs)"
  shows "recv_all cd zero (Suc (length ms)) rs = (ms, Some Eof)"
  using recv_all_bytes[OF assms(2,1)] assms(3) send_all_bytes[OF assms(1)] by simp

text \<open>An example: messages that are their own encoding.\<close>

definition string_codec :: "string codec" where
  "string_codec = \<lparr>cd_marshal = Inr, cd_unmarshal = (\<lambda>bs m. Inr bs)\<rparr>"

definition sample_stream :: string where
  "sample_stream = put_uint32 3 @ ''abc'' @ put_uint32 0 @ put_uint32 1 @ ''z''"

theorem proto_stream_roundtrip_witness:
  "recv_all string_codec [] 4 [(take 2 sample_stream, None), ([], None), (drop 2 sample_stream, None)] =
   ([''abc'', [], ''z''], Some Eof)"
proof -
  let ?rs = "[(take 2 sample_stream, None), ([], None), (drop 2 sample_stream, None)] :: reads" and ?ms = "[''abc'', [], ''z'']"
  have "\<forall>m \<in> set ?ms. decodable string_codec [] m" by (simp add: decodable_def string_codec_def)
  moreover have "clean_reads ?rs" by (simp add: clean_reads_def)
  moreover have "send_all string_codec ?ms [] = (None, stream_bytes ?rs)"
    by (simp add: send_msg_def append_write_def string_codec_def sample_stream_def)
  ultimately have "recv_all string_codec [] (Suc (length ?ms)) ?rs = (?ms, Some Eof)" by (rule proto_stream_roundtrip)
  then show ?thesis by (simp add: eval_nat_numeral)
qed

text \<open>A message of 4 GiB gets a length that is too small: the receiver takes what follows for another message.\<close>

lemma proto_length_wraps:
  assumes "cd_marshal cd m = Inr bs" "length bs = 2 ^ 32"
  shows "message_bytes cd m = put_uint32 0 @ bs"
proof -
  have "(of_nat (length bs) :: 32 word) = 0" unfolding assms(2) of_nat_power of_nat_numeral by simp
  then show ?thesis using assms(1) by (simp add: message_bytes_def)
qed

end
