(* ===== verification/Root_Xattr.thy ===== *)
theory Root_Xattr
  imports Stat_Unix
begin

text \<open>
  Extended attributes through an open file: \<open>root_xattr_read.go\<close>, \<open>root_xattr_read_null.go\<close> and
  \<open>root_xattr.go\<close>. The kernel is asked for an attribute with a buffer, and for its cap when the buffer
  was too small, until the attribute fits; meanwhile the attribute can change, so the loops are on
  fuel, and the lemmas show when they end and what they return.
\<close>

section \<open>The loops\<close>

text \<open>
  A system call with a buffer of the given cap on the state of the kernel: an error, or the number it
  returns and the bytes that are in the buffer. Without a buffer it tells the cap only.
\<close>

type_synonym 'k sized_call = "nat \<Rightarrow> 'k \<Rightarrow> (errno + nat \<times> string) \<times> 'k"

definition root_xattr_buffer_size :: nat where
  "root_xattr_buffer_size = 128"

text \<open>\<open>buf[:n]\<close> of a buffer of the given size.\<close>

definition slice_to :: "nat \<Rightarrow> nat \<times> string \<Rightarrow> string res" where
  "slice_to cap r = (if fst r > cap then Inl (Panic ''slice bounds out of range'') else Inr (take (fst r) (snd r)))"

text \<open>\<open>for err == unix.ERANGE\<close>, after a call with a buffer of the given size.\<close>

fun erange_loop :: "nat \<Rightarrow> 'k sized_call \<Rightarrow> nat \<Rightarrow> (errno + nat \<times> string) \<Rightarrow> 'k \<Rightarrow> (string res \<times> 'k) option" where
  "erange_loop fuel call cap (Inr r) k = Some (slice_to cap r, k)"
| "erange_loop fuel call cap (Inl e) k =
     (if e \<noteq> ERANGE then Some (Inl (Errno e), k)
      else (case fuel of
          0 \<Rightarrow> None
        | Suc fuel \<Rightarrow>
            (case call 0 k of
               (Inl e, k) \<Rightarrow> Some (Inl (Errno e), k)
             | (Inr (n, bs), k) \<Rightarrow> (case call n k of (r, k) \<Rightarrow> erange_loop fuel call n r k))))"

definition root_getxattr :: "nat \<Rightarrow> (string \<Rightarrow> 'k sized_call) \<Rightarrow> string \<Rightarrow> 'k \<Rightarrow> (string res \<times> 'k) option" where
  "root_getxattr fuel fgetxattr key k =
     (case fgetxattr key root_xattr_buffer_size k of
        (r, k) \<Rightarrow> erange_loop fuel (fgetxattr key) root_xattr_buffer_size r k)"

definition root_listxattr_with ::
  "nat \<Rightarrow> 'k sized_call \<Rightarrow> (string \<Rightarrow> string list) \<Rightarrow> 'k \<Rightarrow> ((string list) res \<times> 'k) option" where
  "root_listxattr_with fuel list_call parse k =
     (case list_call root_xattr_buffer_size k of
        (r, k) \<Rightarrow>
          map_option (\<lambda>(b, k). (res_bind b (\<lambda>b. Inr (parse b)), k)) (erange_loop fuel list_call root_xattr_buffer_size r k))"

text \<open>\<open>rootParseListxattr\<close>: names that end with a zero byte.\<close>

fun split_byte :: "char \<Rightarrow> string \<Rightarrow> string list" where
  "split_byte c [] = [[]]"
| "split_byte c (x # xs) = (if x = c then [] # split_byte c xs else (x # hd (split_byte c xs)) # tl (split_byte c xs))"

definition root_parse_listxattr :: "string \<Rightarrow> string list" where
  "root_parse_listxattr buf = filter (\<lambda>part. length part > 0) (split_byte (CHR 0x00) (trim_suffix buf [CHR 0x00]))"

section \<open>loadRootXattr and LSetxattr\<close>

text \<open>The calls: opening the file and closing it, and the calls on it.\<close>

record 'k xattr_calls =
  xc_open :: "string \<Rightarrow> 'k \<Rightarrow> go_error option \<times> 'k"
  xc_close :: "'k \<Rightarrow> 'k"
  xc_flistxattr :: "'k sized_call"
  xc_fgetxattr :: "string \<Rightarrow> 'k sized_call"
  xc_fsetxattr :: "string \<Rightarrow> string \<Rightarrow> 'k \<Rightarrow> errno option \<times> 'k"

definition ignore_root_xattr_open_error :: "go_error \<Rightarrow> bool" where
  "ignore_root_xattr_open_error e \<longleftrightarrow> errno_of e \<in> {Some ELOOP, Some EACCES, Some EPERM, Some ENXIO}"

definition root_listxattr :: "nat \<Rightarrow> 'k xattr_calls \<Rightarrow> 'k \<Rightarrow> ((string list) res \<times> 'k) option" where
  "root_listxattr fuel xc k = root_listxattr_with fuel (xc_flistxattr xc) root_parse_listxattr k"

fun load_root_keys ::
  "nat \<Rightarrow> 'k xattr_calls \<Rightarrow> string list \<Rightarrow> (string \<times> string) list \<Rightarrow> 'k \<Rightarrow> ((string \<times> string) list res \<times> 'k) option" where
  "load_root_keys fuel xc [] m k = Some (Inr m, k)"
| "load_root_keys fuel xc (key # keys) m k =
     (if skip_xattr key then load_root_keys fuel xc keys m k
      else (case root_getxattr fuel (xc_fgetxattr xc) key k of
          None \<Rightarrow> None
        | Some (Inr v, k) \<Rightarrow> load_root_keys fuel xc keys (AList.update key v m) k
        | Some (Inl (Panic msg), k) \<Rightarrow> Some (Inl (Panic msg), k)
        | Some (Inl e, k) \<Rightarrow> load_root_keys fuel xc keys m k))"

definition load_root_xattr :: "nat \<Rightarrow> 'k xattr_calls \<Rightarrow> string \<Rightarrow> stat \<Rightarrow> 'k \<Rightarrow> (stat res \<times> 'k) option" where
  "load_root_xattr fuel xc path st k =
     (case xc_open xc path k of
        (Some e, k) \<Rightarrow> Some (if ignore_root_xattr_open_error e then Inr st else Inl e, k)
      | (None, k) \<Rightarrow>
          map_option (\<lambda>(r, k). (r, xc_close xc k))
            (case root_listxattr fuel xc k of
               None \<Rightarrow> None
             | Some (Inl (Panic msg), k) \<Rightarrow> Some (Inl (Panic msg), k)
             | Some (Inl e, k) \<Rightarrow>
                 Some (if errno_of e = Some ENOTSUP \<or> errno_of e = Some ENOSYS then Inr st else Inl (Wrap (''failed to xattr '' @ path) e), k)
             | Some (Inr xattrs, k) \<Rightarrow>
                 if length xattrs = 0 then Some (Inr st, k)
                 else map_option (\<lambda>(r, k). (res_bind r (\<lambda>m. Inr (if length m > 0 then st\<lparr>st_xattrs := m\<rparr> else st)), k))
                   (load_root_keys fuel xc xattrs [] k)))"

definition root_lsetxattr :: "'k xattr_calls \<Rightarrow> string \<Rightarrow> string \<Rightarrow> string \<Rightarrow> 'k \<Rightarrow> go_error option \<times> 'k" where
  "root_lsetxattr xc path key val k =
     (case xc_open xc path k of
        (Some e, k) \<Rightarrow> (Some e, k)
      | (None, k) \<Rightarrow>
          (case xc_fsetxattr xc key val k of
             (err, k) \<Rightarrow> (map_option (PathError ''fsetxattr'' path) err, xc_close xc k)))"

section \<open>Names\<close>

lemma split_byte_ne [simp]: "split_byte c xs \<noteq> []"
  by (induction xs) auto

lemma split_byte_append: "c \<notin> set p \<Longrightarrow> split_byte c (p @ c # xs) = p # split_byte c xs"
  by (induction p) auto

lemma split_byte_single: "c \<notin> set p \<Longrightarrow> split_byte c p = [p]"
  by (induction p) auto

definition xattr_name :: "string \<Rightarrow> bool" where
  "xattr_name key \<longleftrightarrow> key \<noteq> [] \<and> CHR 0x00 \<notin> set key"

definition name_list :: "string list \<Rightarrow> string" where
  "name_list keys = concat (map (\<lambda>key. key @ [CHR 0x00]) keys)"

lemma split_name_list:
  "list_all xattr_name keys \<Longrightarrow> keys \<noteq> [] \<Longrightarrow> split_byte (CHR 0x00) (butlast (name_list keys)) = keys"
proof (induction keys)
  case (Cons key keys)
  show ?case
  proof (cases keys)
    case Nil
    then show ?thesis using Cons.prems by (simp add: name_list_def xattr_name_def split_byte_single)
  next
    case (Cons k ks)
    then have "name_list keys \<noteq> []" by (simp add: name_list_def)
    then have "butlast (name_list (key # keys)) = key @ CHR 0x00 # butlast (name_list keys)"
      by (simp add: name_list_def butlast_append)
    then show ?thesis using Cons.IH Cons.prems Cons by (simp add: xattr_name_def split_byte_append)
  qed
qed simp

section \<open>A kernel whose attributes change\<close>

text \<open>
  One attribute (or the list of the names) over time: what it holds when it is asked for at each time, \<^const>\<open>None\<close>
  when there is none. Asking takes one unit of time; a buffer of cap 0 is no buffer.
\<close>

definition timed_call :: "(nat \<Rightarrow> string option) \<Rightarrow> nat sized_call" where
  "timed_call val cap t =
     (case val t of
        None \<Rightarrow> Inl (EOther 61)
      | Some s \<Rightarrow> if cap = 0 then Inr (length s, []) else if length s \<le> cap then Inr (length s, s) else Inl ERANGE, Suc t)"

text \<open>What is returned was there.\<close>

lemma erange_loop_value:
  assumes "erange_loop fuel (timed_call val) cap r t = Some (Inr s, t')"
    and "\<And>n bs. r = Inr (n, bs) \<Longrightarrow> n \<le> cap \<Longrightarrow> \<exists>u < t. val u = Some (take n bs)"
  shows "\<exists>u < t'. val u = Some s"
  using assms
proof (induction fuel "timed_call val" cap r t rule: erange_loop.induct)
  case (1 fuel cap r t)
  then show ?case by (cases r) (auto simp: slice_to_def split: if_splits)
next
  case (2 fuel cap e t)
  then obtain f where f: "fuel = Suc f" "e = ERANGE" by (auto split: if_splits nat.splits)
  obtain n bs where q: "timed_call val 0 t = (Inr (n, bs), Suc t)"
    using 2(2) f by (auto simp: timed_call_def split: option.splits)
  obtain r' where c: "timed_call val n (Suc t) = (r', Suc (Suc t))" by (simp add: timed_call_def)
  have run: "erange_loop f (timed_call val) n r' (Suc (Suc t)) = Some (Inr s, t')"
    using 2(2) f q c by simp
  have "\<exists>u < Suc (Suc t). val u = Some (take m bs')" if "r' = Inr (m, bs')" "m \<le> n" for m bs'
  proof (cases "val (Suc t)")
    case None
    then show ?thesis using c that by (simp add: timed_call_def)
  next
    case (Some s')
    then have "val (Suc t) = Some (take m bs')"
      using c that by (auto simp: timed_call_def split: if_splits)
    then show ?thesis by blast
  qed
  then show ?case using 2(1)[OF _ f(1) q[symmetric] refl refl c[symmetric]] run f by simp
qed

text \<open>A round asks for the size at one time and reads at the next; it is in vain when the attribute grew in between.\<close>

definition grew :: "(nat \<Rightarrow> string option) \<Rightarrow> nat \<Rightarrow> bool" where
  "grew val t \<longleftrightarrow> (\<exists>s s'. val t = Some s \<and> val (Suc t) = Some s' \<and> s \<noteq> [] \<and> length s < length s')"

lemma erange_loop_None:
  "erange_loop fuel (timed_call val) cap r t = None \<longleftrightarrow> r = Inl ERANGE \<and> (\<forall>m < fuel. grew val (t + 2 * m))"
proof (induction fuel arbitrary: cap r t)
  case 0
  then show ?case by (cases r) auto
next
  case (Suc fuel)
  have round: "erange_loop (Suc fuel) (timed_call val) cap (Inl ERANGE) t = None \<longleftrightarrow>
      grew val t \<and> (\<forall>m < fuel. grew val (Suc (Suc t) + 2 * m))"
  proof (cases "val t")
    case None
    then show ?thesis by (simp add: timed_call_def grew_def)
  next
    case (Some s)
    obtain r' where c: "timed_call val (length s) (Suc t) = (r', Suc (Suc t))" by (simp add: timed_call_def)
    have "r' = Inl ERANGE \<longleftrightarrow> grew val t"
      using c Some by (auto simp: timed_call_def grew_def split: option.splits if_splits)
    moreover have "timed_call val 0 t = (Inr (length s, []), Suc t)" using Some by (simp add: timed_call_def)
    ultimately show ?thesis using Suc.IH[of "length s" r' "Suc (Suc t)"] c by simp
  qed
  have all: "(\<forall>m < Suc fuel. grew val (t + 2 * m)) \<longleftrightarrow> grew val t \<and> (\<forall>m < fuel. grew val (Suc (Suc t) + 2 * m))"
    by (simp add: All_less_Suc2)
  show ?case
  proof (cases "r = Inl ERANGE")
    case True
    then show ?thesis using round all by simp
  next
    case False
    then show ?thesis by (cases r) auto
  qed
qed

lemma timed_call_some: "timed_call val cap t = (r, t') \<Longrightarrow> t' = Suc t"
  by (auto simp: timed_call_def)

section \<open>Properties\<close>

text \<open>C40. Reading an attribute fails to return within some number of rounds exactly when the attribute did not fit
  the first buffer and in each of these rounds it grew between the call that asks for its size and the call that reads
  it: the first round in which it does not grow ends the loop.\<close>

theorem root_getxattr_returns:
  "root_getxattr fuel (\<lambda>key. timed_call val) key 0 = None \<longleftrightarrow>
     (\<exists>s. val 0 = Some s \<and> length s > root_xattr_buffer_size) \<and> (\<forall>m < fuel. grew val (2 * m + 1))"
proof -
  obtain r where r: "timed_call val root_xattr_buffer_size 0 = (r, Suc 0)" by (simp add: timed_call_def)
  have "r = Inl ERANGE \<longleftrightarrow> (\<exists>s. val 0 = Some s \<and> length s > root_xattr_buffer_size)"
    using r by (auto simp: timed_call_def root_xattr_buffer_size_def split: option.splits if_splits)
  then show ?thesis using erange_loop_None[of fuel val root_xattr_buffer_size r "Suc 0"] r by (simp add: root_getxattr_def)
qed

definition grows_once :: "nat \<Rightarrow> string option" where
  "grows_once t = Some (if t < 2 then replicate 200 CHR ''a'' else replicate 300 CHR ''b'')"

lemma grows_once_rounds: "grew grows_once 1" "\<not> grew grows_once 3"
  by (simp_all add: grew_def grows_once_def)

theorem root_getxattr_returns_witness:
  "root_getxattr 1 (\<lambda>key. timed_call grows_once) ''user.x'' 0 = None \<and>
   root_getxattr 2 (\<lambda>key. timed_call grows_once) ''user.x'' 0 \<noteq> None"
proof -
  have "\<exists>s. grows_once 0 = Some s \<and> length s > root_xattr_buffer_size"
    by (simp add: grows_once_def root_xattr_buffer_size_def)
  moreover have "\<not> (\<forall>m < 2. grew grows_once (2 * m + 1))"
    using grows_once_rounds(2) by (auto intro!: exI[of _ 1])
  ultimately show ?thesis using grows_once_rounds(1)
    unfolding root_getxattr_returns by simp
qed

text \<open>Whatever happens to the attribute meanwhile, a value that is returned is one the attribute had at
  some moment of the call, not a mixture of two.\<close>

theorem root_getxattr_value:
  assumes "root_getxattr fuel (\<lambda>key. timed_call val) key 0 = Some (Inr s, t)"
  shows "\<exists>u < t. val u = Some s"
proof -
  obtain r where r: "timed_call val root_xattr_buffer_size 0 = (r, Suc 0)" by (simp add: timed_call_def)
  have "erange_loop fuel (timed_call val) root_xattr_buffer_size r (Suc 0) = Some (Inr s, t)"
    using assms r by (simp add: root_getxattr_def)
  moreover have "\<exists>u < Suc 0. val u = Some (take n bs)" if "r = Inr (n, bs)" for n bs
    using r that by (auto simp: timed_call_def root_xattr_buffer_size_def split: option.splits if_splits)
  ultimately show ?thesis using erange_loop_value by blast
qed

theorem root_getxattr_value_witness:
  "root_getxattr 3 (\<lambda>key. timed_call grows_once) ''user.x'' 0 = Some (Inr (replicate 300 CHR ''b''), 5) \<and>
   (\<exists>u < 5. grows_once u = Some (replicate 300 CHR ''b''))"
proof -
  have run: "root_getxattr 3 (\<lambda>key. timed_call grows_once) ''user.x'' 0 = Some (Inr (replicate 300 CHR ''b''), 5)"
    by (simp add: root_getxattr_def root_xattr_buffer_size_def timed_call_def grows_once_def slice_to_def numeral_3_eq_3)
  from root_getxattr_value[OF run] run show ?thesis by blast
qed

text \<open>\<open>rootParseListxattr\<close> recovers the names from the list of the kernel.\<close>

theorem root_parse_listxattr_names:
  assumes "list_all xattr_name keys"
  shows "root_parse_listxattr (name_list keys) = keys"
proof (cases "keys = []")
  case True
  then show ?thesis by (simp add: root_parse_listxattr_def name_list_def trim_suffix_def)
next
  case False
  then have "suffix [CHR 0x00] (name_list keys)"
    by (cases keys rule: rev_cases) (auto simp: name_list_def suffix_def)
  then have "trim_suffix (name_list keys) [CHR 0x00] = butlast (name_list keys)"
    by (simp add: trim_suffix_def butlast_conv_take)
  moreover have "filter (\<lambda>part. length part > 0) keys = keys"
    using assms by (intro filter_True) (auto simp: list_all_iff xattr_name_def)
  ultimately show ?thesis using split_name_list[OF assms False] by (simp add: root_parse_listxattr_def)
qed

theorem root_parse_listxattr_names_witness:
  "root_parse_listxattr (name_list [''user.a'', ''security.b'']) = [''user.a'', ''security.b'']"
  by (rule root_parse_listxattr_names) (simp add: xattr_name_def)

section \<open>Two races\<close>

text \<open>An attribute that grows with every call is never read.\<close>

lemma growing_attribute_never_read:
  "root_getxattr fuel (\<lambda>key. timed_call (\<lambda>t. Some (replicate (129 + t) CHR ''a''))) key 0 = None"
proof -
  have "erange_loop fuel (timed_call (\<lambda>t. Some (replicate (129 + t) CHR ''a''))) cap (Inl ERANGE) t = None" for cap t
    by (induction fuel arbitrary: cap t) (auto simp: timed_call_def)
  then show ?thesis by (simp add: root_getxattr_def timed_call_def root_xattr_buffer_size_def)
qed

text \<open>
  An attribute that is emptied when its size is asked for and set again before the next call: the buffer of
  size 0 makes that call one more query, and slicing the buffer to the size panics.
\<close>

lemma emptied_attribute_panics:
  "root_getxattr 1 (\<lambda>key. timed_call (\<lambda>t. Some (if t = 0 then replicate 129 CHR ''a'' else if t = 1 then [] else ''b''))) key 0 =
   Some (Inl (Panic ''slice bounds out of range''), 3)"
  by (simp add: root_getxattr_def timed_call_def root_xattr_buffer_size_def slice_to_def numeral_2_eq_2 numeral_3_eq_3)

end
