(* ===== verification/Tar_Writer.thy ===== *)
theory Tar_Writer
  imports Sender Fs_Walk
begin

text \<open>
  \<open>tarwriter.go\<close>: a walk of a file system written as a tar archive. The walk is that of any \<open>FS\<close>; of
  \<open>archive/tar\<close> the header made from a file's information is modelled as it is documented, and the writer
  is a parameter, for which the properties take one that keeps its entries and insists on their sizes.
\<close>

section \<open>Headers\<close>

datatype tar_flag = TarReg | TarDir | TarSymlink | TarLink | TarChar | TarBlock | TarFifo

record tar_header =
  hd_name :: string
  hd_flag :: tar_flag
  hd_mode :: "32 word"
  hd_size :: "64 word"
  hd_modtime :: "64 word"
  hd_uid :: "32 word"
  hd_gid :: "32 word"
  hd_devmajor :: "64 word"
  hd_devminor :: "64 word"
  hd_linkname :: string
  hd_pax :: "(string \<times> string) list"

text \<open>\<open>tar.FileInfoHeader\<close> for the information of a \<open>Stat\<close>.\<close>

definition tar_perm :: "32 word \<Rightarrow> 32 word" where
  "tar_perm m =
     (m AND mode_perm) OR (if has_mode m mode_setuid then 0x800 else 0) OR (if has_mode m mode_setgid then 0x400 else 0) OR
     (if has_mode m mode_sticky then 0x200 else 0)"

definition file_info_header :: "stat \<Rightarrow> string \<Rightarrow> tar_header res" where
  "file_info_header st link =
     (let m = st_mode st;
          h = \<lparr>hd_name = base (st_path st), hd_flag = TarReg, hd_mode = tar_perm m, hd_size = 0, hd_modtime = st_modtime st, hd_uid = 0,
            hd_gid = 0, hd_devmajor = 0, hd_devminor = 0, hd_linkname = [], hd_pax = []\<rparr>
      in if mode_is_regular m then Inr (h\<lparr>hd_size := st_size st\<rparr>)
         else if mode_is_dir m then Inr (h\<lparr>hd_flag := TarDir, hd_name := hd_name h @ [slash]\<rparr>)
         else if has_mode m mode_symlink then Inr (h\<lparr>hd_flag := TarSymlink, hd_linkname := link\<rparr>)
         else if has_mode m mode_device then Inr (h\<lparr>hd_flag := (if has_mode m mode_char_device then TarChar else TarBlock)\<rparr>)
         else if has_mode m mode_named_pipe then Inr (h\<lparr>hd_flag := TarFifo\<rparr>)
         else Inl (Errorf ''archive/tar: unknown file mode'' []))"

section \<open>WriteTar\<close>

record 'w tar_ops =
  tw_header :: "tar_header \<Rightarrow> 'w \<Rightarrow> go_error option \<times> 'w"
  tw_write :: "string \<Rightarrow> 'w \<Rightarrow> go_error option \<times> 'w"
  tw_close :: "'w \<Rightarrow> go_error option \<times> 'w"

text \<open>\<open>io.Copy\<close> from a file that delivers the given reads.\<close>

fun io_copy :: "(string \<Rightarrow> 'w \<Rightarrow> go_error option \<times> 'w) \<Rightarrow> reads \<Rightarrow> 'w \<Rightarrow> go_error option \<times> 'w" where
  "io_copy write [] w = (None, w)"
| "io_copy write ((bs, err) # rs) w =
     (case (if bs = [] then (None, w) else write bs w) of
        (Some e, w) \<Rightarrow> (Some e, w)
      | (None, w) \<Rightarrow>
          (case err of
             None \<Rightarrow> io_copy write rs w
           | Some e \<Rightarrow> (if e = Eof then None else Some e, w)))"

text \<open>The header of an entry.\<close>

definition tar_entry_name :: "string \<Rightarrow> stat \<Rightarrow> string" where
  "tar_entry_name path st =
     (let name = to_slash path in if stat_is_dir st \<and> \<not> suffix [slash] name then name @ [slash] else name)"

definition tar_entry_header :: "string \<Rightarrow> stat \<Rightarrow> tar_header res" where
  "tar_entry_header path st =
     res_bind (file_info_header st (st_linkname st)) (\<lambda>h.
       let h = h\<lparr>hd_name := tar_entry_name path st, hd_uid := st_uid st, hd_gid := st_gid st, hd_devmajor := st_devmajor st,
             hd_devminor := st_devminor st, hd_linkname := st_linkname st\<rparr>;
           h = (if hd_linkname h \<noteq> [] then h\<lparr>hd_size := 0, hd_flag := (if has_mode (st_mode st) mode_symlink then TarSymlink else TarLink)\<rparr>
                else h)
       in Inr (h\<lparr>hd_pax := map (\<lambda>(k, v). (''SCHILY.xattr.'' @ k, v)) (st_xattrs st)\<rparr>))"

text \<open>A file opens with its reads and the error of its \<open>Close\<close>.\<close>

type_synonym tar_open = "string \<Rightarrow> (reads \<times> go_error option) res"

definition tar_body :: "'w tar_ops \<Rightarrow> tar_open \<Rightarrow> string \<Rightarrow> tar_header \<Rightarrow> 'w \<Rightarrow> go_error option \<times> 'w" where
  "tar_body ops opn path h w =
     (if hd_flag h = TarReg \<and> 0 <s hd_size h \<and> hd_linkname h = [] then
        (case opn path of
           Inl e \<Rightarrow> (Some e, w)
         | Inr (rs, close_err) \<Rightarrow>
             (case io_copy (tw_write ops) rs w of (Some e, w) \<Rightarrow> (Some e, w) | (None, w) \<Rightarrow> (close_err, w)))
      else (None, w))"

definition tar_entry :: "'w tar_ops \<Rightarrow> tar_open \<Rightarrow> string \<Rightarrow> dir_entry \<Rightarrow> 'w \<Rightarrow> go_error option \<times> 'w" where
  "tar_entry ops opn path d w =
     (case de_info d of
        Inl e \<Rightarrow> (Some e, w)
      | Inr NilInfo \<Rightarrow> (Some (Panic ''nil FileInfo''), w)
      | Inr (OtherInfo m) \<Rightarrow> (Some (PathError ''fileinfo without stat info'' path EBADMSG), w)
      | Inr (StatInfo st) \<Rightarrow>
          (case tar_entry_header path st of
             Inl e \<Rightarrow> (Some e, w)
           | Inr h \<Rightarrow>
               (case tw_header ops h w of
                  (Some e, w) \<Rightarrow> (Some (Wrap (''failed to write file header '' @ hd_name h) e), w)
                | (None, w) \<Rightarrow> tar_body ops opn path h w)))"

definition tar_callback :: "'w tar_ops \<Rightarrow> tar_open \<Rightarrow> 'w walk_fn" where
  "tar_callback ops opn path entry err w =
     (if (case err of None \<Rightarrow> False | Some e \<Rightarrow> errno_of e \<noteq> Some ENOENT) then (err, False, w)
      else (case entry of
          None \<Rightarrow> (Some (Panic ''nil DirEntry''), False, w)
        | Some d \<Rightarrow> (case tar_entry ops opn path d w of (e, w) \<Rightarrow> (e, True, w))))"

definition write_tar :: "'w tar_ops \<Rightarrow> tar_open \<Rightarrow> 'w fs_walk \<Rightarrow> 'w \<Rightarrow> go_error option \<times> 'w" where
  "write_tar ops opn walk w =
     (case walk [slash] (tar_callback ops opn) w of
        (Some e, w) \<Rightarrow> (Some e, w)
      | (None, w) \<Rightarrow> tw_close ops w)"

section \<open>A writer that keeps the archive\<close>

text \<open>
  The entries written so far with their data, and how much of the last one is still to come; as the
  writer of \<open>archive/tar\<close>, it refuses a header while data is missing, and data beyond the size.
\<close>

record archive =
  ar_entries :: "(tar_header \<times> string) list"
  ar_left :: nat

definition archive_header :: "tar_header \<Rightarrow> archive \<Rightarrow> go_error option \<times> archive" where
  "archive_header h a =
     (if ar_left a \<noteq> 0 then (Some (Errorf ''archive/tar: missed writing'' []), a)
      else if hd_flag h = TarReg \<and> hd_size h <s 0 then (Some (Errorf ''archive/tar: negative size'' []), a)
      else (None, a\<lparr>ar_entries := ar_entries a @ [(h, [])], ar_left := (if hd_flag h = TarReg then unat (hd_size h) else 0)\<rparr>))"

definition archive_write :: "string \<Rightarrow> archive \<Rightarrow> go_error option \<times> archive" where
  "archive_write bs a =
     (if ar_left a = 0 then (if bs = [] then None else Some (Errorf ''archive/tar: write too long'' []), a) else
      let bs' = take (ar_left a) bs;
          a' = a\<lparr>ar_entries := butlast (ar_entries a) @ [(fst (last (ar_entries a)), snd (last (ar_entries a)) @ bs')],
               ar_left := ar_left a - length bs'\<rparr>
      in (if length bs > ar_left a then Some (Errorf ''archive/tar: write too long'' []) else None, a'))"

definition archive_close :: "archive \<Rightarrow> go_error option \<times> archive" where
  "archive_close a = (if ar_left a \<noteq> 0 then Some (Errorf ''archive/tar: missed writing'' []) else None, a)"

definition archive_ops :: "archive tar_ops" where
  "archive_ops = \<lparr>tw_header = archive_header, tw_write = archive_write, tw_close = archive_close\<rparr>"

definition empty_archive :: archive where
  "empty_archive = \<lparr>ar_entries = [], ar_left = 0\<rparr>"

text \<open>Copying a file into the archive: what it holds is appended if it fits, and fails if it does not.\<close>

lemma io_copy_archive:
  assumes "io_copy archive_write rs \<lparr>ar_entries = es @ [(h, bs)], ar_left = n\<rparr> = (None, a)"
  shows "reads_error rs = None \<and> length (concat (reads_data rs)) \<le> n \<and>
    a = \<lparr>ar_entries = es @ [(h, bs @ concat (reads_data rs))], ar_left = n - length (concat (reads_data rs))\<rparr>"
  using assms
proof (induction rs arbitrary: bs n)
  case (Cons r rs)
  obtain cs err where r: "r = (cs, err)" by (cases r)
  have w: "(if cs = [] then (None, \<lparr>ar_entries = es @ [(h, bs)], ar_left = n\<rparr>) else archive_write cs \<lparr>ar_entries = es @ [(h, bs)], ar_left = n\<rparr>) =
    (if length cs > n then Some (Errorf ''archive/tar: write too long'' []) else None,
     \<lparr>ar_entries = es @ [(h, bs @ take n cs)], ar_left = n - length (take n cs)\<rparr>)"
    by (auto simp: archive_write_def Let_def)
  have fits: "length cs \<le> n" using Cons.prems w r by (auto split: if_splits)
  show ?case
  proof (cases err)
    case None
    then have "io_copy archive_write rs \<lparr>ar_entries = es @ [(h, bs @ cs)], ar_left = n - length cs\<rparr> = (None, a)"
      using Cons.prems w r fits by simp
    from Cons.IH[OF this] show ?thesis using r None fits by auto
  next
    case (Some e)
    then show ?thesis using Cons.prems w r fits by (cases e) (auto split: if_splits)
  qed
qed simp

lemma io_copy_archive_ok:
  assumes "reads_error rs = None" "length (concat (reads_data rs)) \<le> n"
  shows "io_copy archive_write rs \<lparr>ar_entries = es @ [(h, bs)], ar_left = n\<rparr> =
    (None, \<lparr>ar_entries = es @ [(h, bs @ concat (reads_data rs))], ar_left = n - length (concat (reads_data rs))\<rparr>)"
  using assms
proof (induction rs arbitrary: bs n)
  case (Cons r rs)
  obtain cs err where r: "r = (cs, err)" by (cases r)
  have fits: "length cs \<le> n" using Cons.prems(2) r by (cases "cs = []") auto
  have w: "(if cs = [] then (None, \<lparr>ar_entries = es @ [(h, bs)], ar_left = n\<rparr>) else archive_write cs \<lparr>ar_entries = es @ [(h, bs)], ar_left = n\<rparr>) =
    (None, \<lparr>ar_entries = es @ [(h, bs @ cs)], ar_left = n - length cs\<rparr>)"
    using fits by (auto simp: archive_write_def Let_def)
  show ?case
  proof (cases err)
    case None
    then show ?thesis using Cons.IH[of "n - length cs" "bs @ cs"] Cons.prems r w by auto
  next
    case (Some e)
    then show ?thesis using Cons.prems r w by (cases e) auto
  qed
qed simp

text \<open>The walk of a list of entries, as the file systems make it.\<close>

fun list_walk :: "(string \<times> stat) list \<Rightarrow> 's walk_fn \<Rightarrow> 's \<Rightarrow> go_error option \<times> 's" where
  "list_walk [] fn s = (None, s)"
| "list_walk ((p, st) # es) fn s =
     (case fn p (Some (entry_of_stat st)) None s of
        (Some e, called, s) \<Rightarrow> (Some e, s)
      | (None, called, s) \<Rightarrow> list_walk es fn s)"

text \<open>
  What an entry is in the archive, said of its \<open>Stat\<close> alone: the type flag, which a link name decides first,
  each field of the header, and the data.
\<close>

definition entry_flag :: "stat \<Rightarrow> tar_flag" where
  "entry_flag st =
     (let m = st_mode st in
      if st_linkname st \<noteq> [] then (if has_mode m mode_symlink then TarSymlink else TarLink)
      else if mode_is_regular m then TarReg
      else if mode_is_dir m then TarDir
      else if has_mode m mode_symlink then TarSymlink
      else if has_mode m mode_device then (if has_mode m mode_char_device then TarChar else TarBlock)
      else TarFifo)"

definition file_content :: "tar_open \<Rightarrow> string \<Rightarrow> string" where
  "file_content opn p = (case opn p of Inl e \<Rightarrow> [] | Inr (rs, ce) \<Rightarrow> concat (reads_data rs))"

definition archived :: "tar_open \<Rightarrow> string \<times> stat \<Rightarrow> tar_header \<times> string \<Rightarrow> bool" where
  "archived opn e a \<longleftrightarrow>
     (case e of (p, st) \<Rightarrow> case a of (h, bs) \<Rightarrow>
        hd_name h = (if mode_is_dir (st_mode st) \<and> \<not> suffix [slash] p then p @ [slash] else p) \<and>
        hd_flag h = entry_flag st \<and>
        hd_size h = (if entry_flag st = TarReg then st_size st else 0) \<and>
        hd_mode h AND NOT 0xE00 = st_mode st AND 0x1FF \<and>
        bit (hd_mode h) 11 = has_mode (st_mode st) mode_setuid \<and>
        bit (hd_mode h) 10 = has_mode (st_mode st) mode_setgid \<and>
        bit (hd_mode h) 9 = has_mode (st_mode st) mode_sticky \<and>
        hd_modtime h = st_modtime st \<and> hd_uid h = st_uid st \<and> hd_gid h = st_gid st \<and>
        hd_devmajor h = st_devmajor st \<and> hd_devminor h = st_devminor st \<and> hd_linkname h = st_linkname st \<and>
        (\<forall>k val. (k, val) \<in> set (hd_pax h) \<longleftrightarrow> (\<exists>x. k = ''SCHILY.xattr.'' @ x \<and> (x, val) \<in> set (st_xattrs st))) \<and>
        bs = (if entry_flag st = TarReg \<and> st_size st \<noteq> 0 then file_content opn p else []))"

text \<open>
  What can be archived: no socket and no irregular file, no negative size, and a regular file that is
  not empty opens, can be read to its end, closes, and is as long as its \<open>Stat\<close> says.
\<close>

definition tar_type :: "stat \<Rightarrow> bool" where
  "tar_type st \<longleftrightarrow>
     (let m = st_mode st in
      mode_is_regular m \<or> mode_is_dir m \<or> has_mode m mode_symlink \<or> has_mode m mode_device \<or> has_mode m mode_named_pipe)"

definition archivable :: "tar_open \<Rightarrow> string \<times> stat \<Rightarrow> bool" where
  "archivable opn e \<longleftrightarrow>
     (case e of (p, st) \<Rightarrow>
        tar_type st \<and>
        (entry_flag st = TarReg \<longrightarrow>
           0 \<le>s st_size st \<and>
           (st_size st \<noteq> 0 \<longrightarrow>
              (\<exists>rs. opn p = Inr (rs, None) \<and> reads_error rs = None \<and> length (concat (reads_data rs)) = unat (st_size st)))))"

text \<open>The header that is written.\<close>

lemma tar_perm_bits:
  "tar_perm m AND NOT 0xE00 = m AND 0x1FF" "bit (tar_perm m) 11 = has_mode m mode_setuid"
  "bit (tar_perm m) 10 = has_mode m mode_setgid" "bit (tar_perm m) 9 = has_mode m mode_sticky"
proof -
  have c: "(0x800 :: 32 word) = 2 ^ 11" "(0x400 :: 32 word) = 2 ^ 10" "(0x200 :: 32 word) = 2 ^ 9" "mode_perm = (mask 9 :: 32 word)"
    "(0xE00 :: 32 word) = 2 ^ 11 OR 2 ^ 10 OR 2 ^ 9" "(0x1FF :: 32 word) = mask 9"
    by (simp, simp, simp, unfold mode_perm_def mask_eq_exp_minus_1, simp, simp, simp)
  have p: "bit (tar_perm m) n \<longleftrightarrow> bit m n \<and> n < 9 \<or> n = 11 \<and> has_mode m mode_setuid \<or> n = 10 \<and> has_mode m mode_setgid \<or>
      n = 9 \<and> has_mode m mode_sticky" if n: "n < 32" for n
  proof -
    have "bit (tar_perm m) n \<longleftrightarrow> bit m n \<and> bit (mask 9 :: 32 word) n \<or> has_mode m mode_setuid \<and> bit (2 ^ 11 :: 32 word) n \<or>
        has_mode m mode_setgid \<and> bit (2 ^ 10 :: 32 word) n \<or> has_mode m mode_sticky \<and> bit (2 ^ 9 :: 32 word) n"
      unfolding tar_perm_def c by (auto simp: bit_or_iff bit_and_iff)
    moreover have "bit (2 ^ k :: 32 word) n \<longleftrightarrow> n = k" "bit (mask 9 :: 32 word) n \<longleftrightarrow> n < 9" for k
      using n by (simp only: bit_exp_iff) (auto simp: bit_mask_iff)
    ultimately show ?thesis by blast
  qed
  show "bit (tar_perm m) 11 = has_mode m mode_setuid" "bit (tar_perm m) 10 = has_mode m mode_setgid"
    "bit (tar_perm m) 9 = has_mode m mode_sticky"
    using p[of 11] p[of 10] p[of 9] by simp_all
  show "tar_perm m AND NOT 0xE00 = m AND 0x1FF"
    unfolding c
  proof (rule bit_word_eqI)
    fix n assume n: "n < LENGTH(32)"
    have "bit (tar_perm m AND NOT (2 ^ 11 OR 2 ^ 10 OR 2 ^ 9)) n \<longleftrightarrow> bit (tar_perm m) n \<and> n \<noteq> 11 \<and> n \<noteq> 10 \<and> n \<noteq> 9"
      using n by (simp only: bit_and_iff bit_or_iff bit_not_iff bit_exp_iff) auto
    then show "bit (tar_perm m AND NOT (2 ^ 11 OR 2 ^ 10 OR 2 ^ 9)) n = bit (m AND mask 9) n"
      using p[of n] n by (simp only: bit_and_iff bit_mask_iff) auto
  qed
qed

lemma tar_entry_header_archived:
  assumes "tar_entry_header p st = Inr h" "bs = (if entry_flag st = TarReg \<and> st_size st \<noteq> 0 then file_content opn p else [])"
  shows "archived opn (p, st) (h, bs)" "tar_type st"
proof -
  obtain h0 where h0: "file_info_header st (st_linkname st) = Inr h0" using assms(1) by (auto simp: tar_entry_header_def res_bind_Inr_iff)
  have fields: "hd_mode h = tar_perm (st_mode st)" "hd_modtime h = st_modtime st"
    using assms(1) by (auto simp: tar_entry_header_def res_bind_Inr_iff file_info_header_def Let_def split: if_splits)
  have "hd_flag h = entry_flag st \<and> hd_size h = (if entry_flag st = TarReg then st_size st else 0)"
    using assms(1) by (auto simp: tar_entry_header_def res_bind_Inr_iff file_info_header_def entry_flag_def Let_def split: if_splits)
  moreover have "hd_name h = (if mode_is_dir (st_mode st) \<and> \<not> suffix [slash] p then p @ [slash] else p)"
    "hd_uid h = st_uid st" "hd_gid h = st_gid st" "hd_devmajor h = st_devmajor st" "hd_devminor h = st_devminor st"
    "hd_linkname h = st_linkname st" "hd_pax h = map (\<lambda>(k, val). (''SCHILY.xattr.'' @ k, val)) (st_xattrs st)"
    using assms(1) by (auto simp: tar_entry_header_def res_bind_Inr_iff tar_entry_name_def to_slash_def stat_is_dir_def Let_def)
  ultimately show "archived opn (p, st) (h, bs)"
    unfolding archived_def using assms(2) fields tar_perm_bits by (simp add: image_iff) (auto intro: rev_bexI split: if_splits)
  show "tar_type st" using h0 by (auto simp: file_info_header_def tar_type_def Let_def split: if_splits)
qed

lemma tar_entry_header_ok:
  assumes "tar_type st"
  shows "\<exists>h. tar_entry_header p st = Inr h"
proof -
  have "\<exists>h. file_info_header st (st_linkname st) = Inr h"
    using assms unfolding file_info_header_def tar_type_def Let_def by (cases "mode_is_regular (st_mode st)") auto
  then show ?thesis by (auto simp: tar_entry_header_def Let_def)
qed

lemma header_of_archived:
  assumes "archived opn (p, st) (h, bs)"
  shows "hd_flag h = entry_flag st" "hd_size h = (if entry_flag st = TarReg then st_size st else 0)" "hd_linkname h = st_linkname st"
  using assms by (simp_all add: archived_def)

lemma entry_flag_reg: "entry_flag st = TarReg \<Longrightarrow> st_linkname st = []"
  by (auto simp: entry_flag_def Let_def split: if_splits)

text \<open>One entry, when the archive is complete before: it is written as it should be, or it fails, or data is missing.\<close>

lemma archive_header_result:
  "archive_header h \<lparr>ar_entries = es, ar_left = 0\<rparr> =
     (if hd_flag h = TarReg \<and> hd_size h <s 0 then (Some (Errorf ''archive/tar: negative size'' []), \<lparr>ar_entries = es, ar_left = 0\<rparr>)
      else (None, \<lparr>ar_entries = es @ [(h, [])], ar_left = (if hd_flag h = TarReg then unat (hd_size h) else 0)\<rparr>))"
  by (simp add: archive_header_def)

lemma signed_cases: "(\<not> x <s 0) = (0 \<le>s x)" "0 <s x \<longleftrightarrow> 0 \<le>s x \<and> x \<noteq> 0" for x :: "64 word"
  by (auto simp: signed.not_less signed.less_le)

lemma tar_entry_ok:
  assumes "archivable opn (p, st)"
  shows "\<exists>h bs. archived opn (p, st) (h, bs) \<and>
    tar_entry archive_ops opn p (entry_of_stat st) \<lparr>ar_entries = es, ar_left = 0\<rparr> = (None, \<lparr>ar_entries = es @ [(h, bs)], ar_left = 0\<rparr>)"
proof -
  obtain h where h: "tar_entry_header p st = Inr h" using assms tar_entry_header_ok[of st p] by (auto simp: archivable_def)
  let ?bs = "if entry_flag st = TarReg \<and> st_size st \<noteq> 0 then file_content opn p else []"
  have ar: "archived opn (p, st) (h, ?bs)" by (rule tar_entry_header_archived(1)[OF h refl])
  note hd = header_of_archived[OF ar]
  have nn: "\<not> (hd_flag h = TarReg \<and> hd_size h <s 0)" using assms hd by (auto simp: archivable_def signed_cases)
  show ?thesis
  proof (cases "entry_flag st = TarReg \<and> st_size st \<noteq> 0")
    case True
    obtain rs where rs: "opn p = Inr (rs, None)" "reads_error rs = None" "length (concat (reads_data rs)) = unat (st_size st)"
      using True assms by (auto simp: archivable_def)
    have pos: "0 <s hd_size h" "hd_size h = st_size st" using True assms hd by (auto simp: archivable_def signed_cases)
    have "io_copy archive_write rs \<lparr>ar_entries = es @ [(h, [])], ar_left = unat (hd_size h)\<rparr> =
        (None, \<lparr>ar_entries = es @ [(h, concat (reads_data rs))], ar_left = 0\<rparr>)"
      using io_copy_archive_ok[OF rs(2), of "unat (hd_size h)" es h "[]"] rs(3) pos(2) by simp
    then have "tar_entry archive_ops opn p (entry_of_stat st) \<lparr>ar_entries = es, ar_left = 0\<rparr> =
        (None, \<lparr>ar_entries = es @ [(h, concat (reads_data rs))], ar_left = 0\<rparr>)"
      using True pos nn hd entry_flag_reg[of st] h rs(1)
      by (simp add: tar_entry_def entry_of_stat_def tar_body_def archive_ops_def archive_header_result)
    moreover have "?bs = concat (reads_data rs)" using True rs(1) by (simp add: file_content_def)
    ultimately show ?thesis using ar by auto
  next
    case False
    then have "hd_flag h = TarReg \<Longrightarrow> hd_size h = 0" using hd by auto
    then have "tar_entry archive_ops opn p (entry_of_stat st) \<lparr>ar_entries = es, ar_left = 0\<rparr> = (None, \<lparr>ar_entries = es @ [(h, [])], ar_left = 0\<rparr>)"
      using h nn by (auto simp: tar_entry_def entry_of_stat_def tar_body_def archive_ops_def archive_header_result)
    then show ?thesis using ar False by auto
  qed
qed

lemma tar_entry_only:
  assumes "tar_entry archive_ops opn p (entry_of_stat st) \<lparr>ar_entries = es, ar_left = 0\<rparr> = (None, a)" "ar_left a = 0"
  shows "archivable opn (p, st)"
proof -
  obtain h where h: "tar_entry_header p st = Inr h" using assms(1) by (auto simp: tar_entry_def entry_of_stat_def split: sum.splits)
  obtain bs where "bs = (if entry_flag st = TarReg \<and> st_size st \<noteq> 0 then file_content opn p else [])" by blast
  note ar = tar_entry_header_archived[OF h this]
  note hd = header_of_archived[OF ar(1)]
  have nn: "\<not> (hd_flag h = TarReg \<and> hd_size h <s 0)"
    using assms(1) h by (auto simp: tar_entry_def entry_of_stat_def archive_ops_def archive_header_result)
  have "\<exists>rs. opn p = Inr (rs, None) \<and> reads_error rs = None \<and> length (concat (reads_data rs)) = unat (st_size st)"
    if reg: "entry_flag st = TarReg" "st_size st \<noteq> 0"
  proof -
    have sz: "hd_flag h = TarReg" "0 <s hd_size h" "hd_linkname h = []" "hd_size h = st_size st" "unat (st_size st) > 0"
      using reg nn hd entry_flag_reg[of st] by (auto simp: signed_cases unat_gt_0)
    have body: "tar_body archive_ops opn p h \<lparr>ar_entries = es @ [(h, [])], ar_left = unat (st_size st)\<rparr> = (None, a)"
      using assms(1) h nn sz by (auto simp: tar_entry_def entry_of_stat_def archive_ops_def archive_header_result)
    obtain rs ce where o: "opn p = Inr (rs, ce)" using body sz by (auto simp: tar_body_def split: sum.splits)
    obtain e1 a1 where c: "io_copy archive_write rs \<lparr>ar_entries = es @ [(h, [])], ar_left = unat (st_size st)\<rparr> = (e1, a1)" by fastforce
    have "e1 = None" "ce = None" "a = a1" using body sz o c by (auto simp: tar_body_def archive_ops_def split: option.splits)
    then show ?thesis using io_copy_archive[OF c[unfolded \<open>e1 = None\<close>]] assms(2) o by auto
  qed
  then show ?thesis using ar(2) nn hd by (auto simp: archivable_def signed_cases)
qed

section \<open>Properties\<close>

lemma tar_callback_entry:
  "tar_callback ops opn p (Some d) None w = (case tar_entry ops opn p d w of (e, w) \<Rightarrow> (e, True, w))"
  by (simp add: tar_callback_def)

lemma tar_walk_ok:
  assumes "\<forall>e \<in> set es. archivable opn e"
  shows "\<exists>ar. list_walk es (tar_callback archive_ops opn) \<lparr>ar_entries = done_es, ar_left = 0\<rparr> =
      (None, \<lparr>ar_entries = done_es @ ar, ar_left = 0\<rparr>) \<and> list_all2 (archived opn) es ar"
  using assms
proof (induction es arbitrary: done_es)
  case (Cons e es)
  obtain p st where e: "e = (p, st)" by (cases e)
  obtain h bs where h: "archived opn (p, st) (h, bs)"
    "tar_entry archive_ops opn p (entry_of_stat st) \<lparr>ar_entries = done_es, ar_left = 0\<rparr> = (None, \<lparr>ar_entries = done_es @ [(h, bs)], ar_left = 0\<rparr>)"
    using tar_entry_ok[of opn p st done_es] Cons.prems e by auto
  obtain ar where "list_walk es (tar_callback archive_ops opn) \<lparr>ar_entries = done_es @ [(h, bs)], ar_left = 0\<rparr> =
      (None, \<lparr>ar_entries = (done_es @ [(h, bs)]) @ ar, ar_left = 0\<rparr>)" "list_all2 (archived opn) es ar"
    using Cons.IH[of "done_es @ [(h, bs)]"] Cons.prems by auto
  then show ?case using h e by (intro exI[of _ "(h, bs) # ar"]) (simp add: tar_callback_entry)
qed simp

lemma tar_walk_only:
  assumes "list_walk es (tar_callback archive_ops opn) \<lparr>ar_entries = done_es, ar_left = 0\<rparr> = (None, a)" "ar_left a = 0"
  shows "\<forall>e \<in> set es. archivable opn e"
  using assms(1)
proof (induction es arbitrary: done_es)
  case (Cons e es)
  obtain p st where e: "e = (p, st)" by (cases e)
  obtain e1 a1 where t: "tar_entry archive_ops opn p (entry_of_stat st) \<lparr>ar_entries = done_es, ar_left = 0\<rparr> = (e1, a1)" by fastforce
  have w: "e1 = None" "list_walk es (tar_callback archive_ops opn) a1 = (None, a)"
    using Cons.prems t e by (auto simp: tar_callback_entry split: option.splits)
  have stuck: "ar_left a1 = 0"
  proof (cases es)
    case Nil
    then show ?thesis using w(2) assms(2) by simp
  next
    case (Cons e2 es2)
    obtain p2 st2 where e2: "e2 = (p2, st2)" by (cases e2)
    show ?thesis
    proof (rule ccontr)
      assume "ar_left a1 \<noteq> 0"
      then have "\<exists>x. tar_entry archive_ops opn p2 (entry_of_stat st2) a1 = (Some x, a1)"
        by (cases "tar_entry_header p2 st2") (simp_all add: tar_entry_def entry_of_stat_def archive_ops_def archive_header_def)
      then show False using w(2) Cons e2 by (auto simp: tar_callback_entry)
    qed
  qed
  have "archivable opn (p, st)" using tar_entry_only[OF t[unfolded w(1)] stuck] .
  moreover have "\<forall>e \<in> set es. archivable opn e" using Cons.IH[of "ar_entries a1"] w(2) stuck by (cases a1) simp
  ultimately show ?case using e by simp
qed simp

text \<open>C38. \<open>WriteTar\<close> writes the archive of the walk: one entry for each entry of the walk, in its order,
  with the path as its name (a directory's ends in a slash), the type, the permission and set-id bits, the owner, the
  time, the device numbers and the link name of its \<open>Stat\<close>, a \<open>SCHILY.xattr.\<close> record for each of its extended
  attributes, and the size and content of the file for exactly the regular files that are no hard links.\<close>

theorem write_tar_archive:
  assumes "\<forall>e \<in> set es. archivable opn e"
  shows "\<exists>ar. write_tar archive_ops opn (\<lambda>target. list_walk es) empty_archive = (None, \<lparr>ar_entries = ar, ar_left = 0\<rparr>) \<and>
    list_all2 (archived opn) es ar"
  using tar_walk_ok[OF assms, of "[]"] by (auto simp: write_tar_def empty_archive_def archive_ops_def archive_close_def)

text \<open>An example: a directory, a file in it and a link to the file.\<close>

definition sample_tar :: "(string \<times> stat) list" where
  "sample_tar =
     [(''d'', empty_stat\<lparr>st_path := ''d'', st_mode := mode_dir OR 0x1ED\<rparr>),
      (''d/f'', empty_stat\<lparr>st_path := ''d/f'', st_mode := 0x1A4, st_size := 5\<rparr>),
      (''d/l'', empty_stat\<lparr>st_path := ''d/l'', st_mode := 0x1A4, st_size := 5, st_linkname := ''d/f''\<rparr>)]"

definition sample_tar_open :: tar_open where
  "sample_tar_open p = (if p = ''d/f'' then Inr ([(''he'', None), (''llo'', Some Eof)], None) else Inl (Errno ENOENT))"

lemmas tar_simps = tar_type_def entry_flag_def empty_stat_def mode_is_regular_def mode_is_dir_def has_mode_def mode_bits mode_type_eq Let_def

lemma sample_archivable: "\<forall>e \<in> set sample_tar. archivable sample_tar_open e"
  by (simp add: sample_tar_def archivable_def tar_simps sample_tar_open_def word_sle_eq)

theorem write_tar_archive_witness:
  "\<exists>ar. write_tar archive_ops sample_tar_open (\<lambda>target. list_walk sample_tar) empty_archive = (None, \<lparr>ar_entries = ar, ar_left = 0\<rparr>) \<and>
    list_all2 (archived sample_tar_open) sample_tar ar"
  by (rule write_tar_archive[OF sample_archivable])

text \<open>C39. \<open>WriteTar\<close> succeeds exactly when everything can be archived: no entry is a socket or an irregular
  file or has a negative size, and each regular file that is not empty and no hard link can be opened, read
  to its end and closed, and has exactly the length of its \<open>Stat\<close>. A file that cannot be read, or that changed its size, is
  an error and never a damaged archive.\<close>

theorem write_tar_succeeds_iff:
  "(\<exists>a. write_tar archive_ops opn (\<lambda>target. list_walk es) empty_archive = (None, a)) \<longleftrightarrow> (\<forall>e \<in> set es. archivable opn e)"
proof
  assume "\<forall>e \<in> set es. archivable opn e"
  from tar_walk_ok[OF this, of "[]"] show "\<exists>a. write_tar archive_ops opn (\<lambda>target. list_walk es) empty_archive = (None, a)"
    by (auto simp: write_tar_def empty_archive_def archive_ops_def archive_close_def)
next
  assume "\<exists>a. write_tar archive_ops opn (\<lambda>target. list_walk es) empty_archive = (None, a)"
  then obtain a where "list_walk es (tar_callback archive_ops opn) \<lparr>ar_entries = [], ar_left = 0\<rparr> = (None, a)" "ar_left a = 0"
    by (auto simp: write_tar_def empty_archive_def archive_ops_def archive_close_def split: option.splits prod.splits if_splits)
  then show "\<forall>e \<in> set es. archivable opn e" by (rule tar_walk_only)
qed

text \<open>The example is archived; when its file was cut to two bytes, it is not.\<close>

definition cut_tar_open :: tar_open where
  "cut_tar_open p = Inr ([(''he'', Some Eof)], None)"

lemma cut_not_archivable: "\<not> (\<forall>e \<in> set sample_tar. archivable cut_tar_open e)"
  by (simp add: sample_tar_def archivable_def tar_simps cut_tar_open_def word_sle_eq)

theorem write_tar_succeeds_iff_witness:
  "(\<exists>a. write_tar archive_ops sample_tar_open (\<lambda>target. list_walk sample_tar) empty_archive = (None, a)) \<and>
   (\<nexists>a. write_tar archive_ops cut_tar_open (\<lambda>target. list_walk sample_tar) empty_archive = (None, a))"
  unfolding write_tar_succeeds_iff using sample_archivable cut_not_archivable by blast

end
