(* ===== verification/Root_Disk.thy ===== *)
theory Root_Disk
  imports Root_Stack Root_Xattr Disk_World
begin

text \<open>
  Roots on a disk: the calls of \<open>os.Root\<close> that \<open>rootdiskwriter.go\<close> makes, over the disks of \<open>Disk_World\<close>
  and the objects of \<open>Root_Handle\<close>, with the methods \<open>Mknod\<close>, \<open>LChtimes\<close> and \<open>LSetxattr\<close> the repository
  adds. As documented, a name given to a root is looked up below its directory, symbolic links are
  followed, and a name or link that is absolute or leads above the directory is an error.

  A descriptor of a directory is the path it was opened at with the inode found there; a directory that is no
  longer at its path counts as removed.
\<close>

section \<open>Looking up names\<close>

definition path_escapes :: go_error where
  "path_escapes = Errorf ''path escapes from parent'' []"

text \<open>
  The entry the names lead to from the directory \<open>cur\<close> of the root \<open>r\<close>; \<open>follow\<close> tells whether a link at the
  end is followed.
\<close>

function root_walk :: "bool \<Rightarrow> nat \<Rightarrow> disk \<Rightarrow> vpath \<Rightarrow> vpath \<Rightarrow> string list \<Rightarrow> vpath res" where
  "root_walk follow n dk r cur [] = Inr (r @ cur)"
| "root_walk follow n dk r cur (c # cs) =
     (if c = [] \<or> c = ''.'' then root_walk follow n dk r cur cs
      else if c = ''..'' then (if cur = [] then Inl path_escapes else root_walk follow n dk r (butlast cur) cs)
      else if cs = [] \<and> \<not> follow then Inr (r @ cur @ [c])
      else
        (case node dk (r @ cur @ [c]) of
           None \<Rightarrow> if cs = [] then Inr (r @ cur @ [c]) else Inl (Errno ENOENT)
         | Some i \<Rightarrow>
             if is_symlink_node i then
               (if in_target i = [] then Inl (Errno ENOENT)
                else if n = 0 then Inl (Errno ELOOP)
                else if is_abs (in_target i) then Inl path_escapes
                else root_walk follow (n - 1) dk r cur (split_slash (in_target i) @ cs))
             else if cs = [] then Inr (r @ cur @ [c])
             else if mode_is_dir (in_mode i) then root_walk follow n dk r (cur @ [c]) cs
             else Inl (Errno ENOTDIR)))"
  by pat_completeness auto
termination
  by (relation "measures [\<lambda>(follow, n, dk, r, cur, cs). n, \<lambda>(follow, n, dk, r, cur, cs). length cs]") auto

declare root_walk.simps [simp del]

definition root_max_links :: nat where
  "root_max_links = 8"

type_synonym dir_loc = "vpath \<times> nat"

definition dir_valid :: "disk \<Rightarrow> dir_loc \<Rightarrow> bool" where
  "dir_valid dk l \<longleftrightarrow> dk_tree dk (fst l) = Some (snd l) \<and> mode_is_dir (in_mode (dk_inodes dk (snd l)))"

definition root_find :: "bool \<Rightarrow> disk \<Rightarrow> dir_loc \<Rightarrow> string \<Rightarrow> vpath res" where
  "root_find follow dk l name =
     (if \<not> dir_valid dk l then Inl (Errno ENOENT)
      else if name = [] then Inl (Errorf ''empty path'' [])
      else if is_abs name then Inl path_escapes
      else root_walk follow root_max_links dk (fst l) [] (split_slash name))"

definition path_error :: "string \<Rightarrow> string \<Rightarrow> go_error \<Rightarrow> go_error" where
  "path_error op name e = (case e of Errno n \<Rightarrow> PathError op name n | _ \<Rightarrow> Wrap (op @ '' '' @ name) e)"

section \<open>Directories\<close>

record root_fs =
  rf_disk :: disk
  rf_world :: root_world
  rf_loc :: "nat \<Rightarrow> dir_loc"

definition root_fd :: "root_fs \<Rightarrow> nat \<Rightarrow> nat option" where
  "root_fd w h = ro_os (rw_roots (rf_world w) ! h)"

definition dir_find :: "disk_env \<Rightarrow> disk \<Rightarrow> dir_loc \<Rightarrow> string \<Rightarrow> dir_loc res" where
  "dir_find env dk l name =
     (case de_fail env ''openat'' name dk of
        Some e \<Rightarrow> Inl (PathError ''openat'' name e)
      | None \<Rightarrow>
          (case root_find True dk l name of
             Inl e \<Rightarrow> Inl (path_error ''openat'' name e)
           | Inr v \<Rightarrow>
               (case dk_tree dk v of
                  None \<Rightarrow> Inl (PathError ''openat'' name ENOENT)
                | Some i \<Rightarrow> if mode_is_dir (in_mode (dk_inodes dk i)) then Inr (v, i) else Inl (PathError ''openat'' name ENOTDIR))))"

text \<open>The kernel's answers to \<open>Root_Handle\<close> for the directory that is opened next.\<close>

definition root_env_of :: "disk_env \<Rightarrow> disk \<Rightarrow> dir_loc res \<Rightarrow> root_env" where
  "root_env_of env dk found =
     \<lparr>re_open_dir = (\<lambda>p. case found of Inl e \<Rightarrow> Some e | Inr l \<Rightarrow> None),
      re_close_err = (\<lambda>fd. map_option Errno (de_fail env ''close'' [] dk))\<rparr>"

text \<open>The state after a call that may have opened the directory \<open>found\<close>.\<close>

definition note_dir :: "dir_loc res \<Rightarrow> root_world \<Rightarrow> root_fs \<Rightarrow> root_fs" where
  "note_dir found rw w =
     w\<lparr>rf_world := rw,
       rf_loc := (case found of
          Inl e \<Rightarrow> rf_loc w
        | Inr l \<Rightarrow> if rw_next rw = rw_next (rf_world w) then rf_loc w else (rf_loc w)(rw_next (rf_world w) := l))\<rparr>"

definition dir_found :: "disk_env \<Rightarrow> nat \<Rightarrow> string \<Rightarrow> root_fs \<Rightarrow> dir_loc res" where
  "dir_found env h name w =
     (case root_fd w h of None \<Rightarrow> Inl (Panic ''nil os.Root'') | Some fd \<Rightarrow> dir_find env (rf_disk w) (rf_loc w fd) name)"

text \<open>\<open>OpenRoot\<close> with \<open>NewRoot\<close>, and \<open>Close\<close>.\<close>

definition dir_open :: "disk_env \<Rightarrow> nat \<Rightarrow> string \<Rightarrow> root_fs \<Rightarrow> (nat \<times> root_fs) res" where
  "dir_open env h name w =
     (let found = dir_found env h name w in
      case open_root (root_env_of env (rf_disk w) found) h name (rf_world w) of
        Inl e \<Rightarrow> Inl e
      | Inr (h', rw) \<Rightarrow> Inr (h', note_dir found rw w))"

definition dir_close :: "disk_env \<Rightarrow> nat \<Rightarrow> root_fs \<Rightarrow> go_error option \<times> root_fs" where
  "dir_close env h w =
     (case root_close (root_env_of env (rf_disk w) (Inl Eof)) h (rf_world w) of (e, rw) \<Rightarrow> (e, w\<lparr>rf_world := rw\<rparr>))"

section \<open>Calls on a root\<close>

definition root_call ::
  "disk_env \<Rightarrow> string \<Rightarrow> bool \<Rightarrow> nat \<Rightarrow> string \<Rightarrow> (vpath \<Rightarrow> 'a kernel_op) \<Rightarrow> root_fs \<Rightarrow> 'a res \<times> root_fs" where
  "root_call env op follow h name act w =
     (case root_fd w h of
        None \<Rightarrow> (Inl (Panic ''nil os.Root''), w)
      | Some fd \<Rightarrow>
          (case de_fail env op name (rf_disk w) of
             Some e \<Rightarrow> (Inl (PathError op name e), w)
           | None \<Rightarrow>
               (case root_find follow (rf_disk w) (rf_loc w fd) name of
                  Inl e \<Rightarrow> (Inl (path_error op name e), w)
                | Inr v \<Rightarrow>
                    (case act v (rf_disk w) of
                       Inl e \<Rightarrow> (Inl (PathError op name e), w)
                     | Inr (x, dk) \<Rightarrow> (Inr x, w\<lparr>rf_disk := dk\<rparr>)))))"

definition root_lstat :: "disk_env \<Rightarrow> nat \<Rightarrow> string \<Rightarrow> root_fs \<Rightarrow> inode res \<times> root_fs" where
  "root_lstat env h name w = root_call env ''lstatat'' False h name k_lstat w"

definition root_stat :: "disk_env \<Rightarrow> nat \<Rightarrow> string \<Rightarrow> root_fs \<Rightarrow> inode res \<times> root_fs" where
  "root_stat env h name w = root_call env ''statat'' True h name k_lstat w"

definition root_mkdir :: "disk_env \<Rightarrow> nat \<Rightarrow> string \<Rightarrow> 32 word \<Rightarrow> root_fs \<Rightarrow> nat res \<times> root_fs" where
  "root_mkdir env h name mode w =
     root_call env ''mkdirat'' False h name (\<lambda>v dk. k_create v (created env mode_dir mode dk) dk) w"

definition root_symlink :: "disk_env \<Rightarrow> nat \<Rightarrow> string \<Rightarrow> string \<Rightarrow> root_fs \<Rightarrow> nat res \<times> root_fs" where
  "root_symlink env h target name w =
     root_call env ''symlinkat'' False h name
       (\<lambda>v dk. k_create v ((fresh_inode env (mode_symlink OR mode_perm))\<lparr>in_target := target, in_mtime := dk_clock dk\<rparr>) dk) w"

text \<open>\<open>OpenFile\<close> with \<open>O_WRONLY\<close>, and with \<open>O_CREATE|O_WRONLY\<close>.\<close>

definition root_open_write :: "disk_env \<Rightarrow> nat \<Rightarrow> string \<Rightarrow> root_fs \<Rightarrow> nat res \<times> root_fs" where
  "root_open_write env h name w = root_call env ''openat'' True h name k_open w"

definition root_create :: "disk_env \<Rightarrow> nat \<Rightarrow> string \<Rightarrow> 32 word \<Rightarrow> root_fs \<Rightarrow> nat res \<times> root_fs" where
  "root_create env h name mode w =
     root_call env ''openat'' True h name (\<lambda>v dk. k_open_create v (created env 0 mode dk) dk) w"

definition root_chmod :: "disk_env \<Rightarrow> nat \<Rightarrow> string \<Rightarrow> 32 word \<Rightarrow> root_fs \<Rightarrow> unit res \<times> root_fs" where
  "root_chmod env h name mode w =
     root_call env ''chmodat'' True h name
       (\<lambda>v. k_update v (\<lambda>i. i\<lparr>in_mode := (in_mode i AND NOT chmod_bits) OR (mode AND chmod_bits)\<rparr>)) w"

definition root_set_times :: "disk_env \<Rightarrow> nat \<Rightarrow> string \<Rightarrow> 64 word \<Rightarrow> root_fs \<Rightarrow> unit res \<times> root_fs" where
  "root_set_times env h name t w =
     root_call env ''chtimesat'' True h name (\<lambda>v. k_update v (\<lambda>i. i\<lparr>in_mtime := t\<rparr>)) w"

definition root_lchown :: "disk_env \<Rightarrow> nat \<Rightarrow> string \<Rightarrow> 32 word \<Rightarrow> 32 word \<Rightarrow> root_fs \<Rightarrow> unit res \<times> root_fs" where
  "root_lchown env h name uid gid w =
     root_call env ''lchownat'' False h name
       (\<lambda>v. k_update v (\<lambda>i. i\<lparr>in_uid := owner_or uid (in_uid i), in_gid := owner_or gid (in_gid i)\<rparr>)) w"

text \<open>Calls with two names: the old one is looked up first, and not followed.\<close>

definition root_call2 ::
  "disk_env \<Rightarrow> string \<Rightarrow> nat \<Rightarrow> string \<Rightarrow> string \<Rightarrow> (vpath \<Rightarrow> vpath \<Rightarrow> unit kernel_op) \<Rightarrow> root_fs \<Rightarrow> unit res \<times> root_fs" where
  "root_call2 env op h old new act w =
     (case root_fd w h of
        None \<Rightarrow> (Inl (Panic ''nil os.Root''), w)
      | Some fd \<Rightarrow>
          (case root_find False (rf_disk w) (rf_loc w fd) old of
             Inl e \<Rightarrow> (Inl (path_error op old e), w)
           | Inr vo \<Rightarrow> root_call env op False h new (act vo) w))"

definition root_link :: "disk_env \<Rightarrow> nat \<Rightarrow> string \<Rightarrow> string \<Rightarrow> root_fs \<Rightarrow> unit res \<times> root_fs" where
  "root_link env h old new w = root_call2 env ''linkat'' h old new k_link w"

definition root_rename :: "disk_env \<Rightarrow> nat \<Rightarrow> string \<Rightarrow> string \<Rightarrow> root_fs \<Rightarrow> unit res \<times> root_fs" where
  "root_rename env h old new w = root_call2 env ''renameat'' h old new k_rename w"

definition root_remove_all :: "disk_env \<Rightarrow> nat \<Rightarrow> string \<Rightarrow> root_fs \<Rightarrow> unit res \<times> root_fs" where
  "root_remove_all env h name w =
     (case root_fd w h of
        None \<Rightarrow> (Inl (Panic ''nil os.Root''), w)
      | Some fd \<Rightarrow>
          (case root_find False (rf_disk w) (rf_loc w fd) name of
             Inl e \<Rightarrow> (if errno_of e = Some ENOENT then Inr () else Inl (path_error ''RemoveAll'' name e), w)
           | Inr v \<Rightarrow>
               if v = fst (rf_loc w fd) then (Inl (PathError ''RemoveAll'' name EINVAL), w)
               else if dk_tree (rf_disk w) v = None then (Inr (), w)
               else (case de_fail env ''unlinkat'' name (rf_disk w) of
                   Some e \<Rightarrow> (Inl (PathError ''unlinkat'' name e),
                     w\<lparr>rf_disk := touch_parent v (remove_below v (de_kept env (rf_disk w)) (rf_disk w))\<rparr>)
                 | None \<Rightarrow> (Inr (), w\<lparr>rf_disk := touch_parent v (remove_below v (\<lambda>q. False) (rf_disk w))\<rparr>))))"

section \<open>Mknod, LChtimes and LSetxattr\<close>

text \<open>The name of the directory \<open>openRootParent\<close> opens.\<close>

definition parent_name :: "string \<Rightarrow> string" where
  "parent_name name = (if slash \<notin> set name then ''.'' else dir (clean name))"

text \<open>
  A call on one name in the directory of a descriptor. The kernel takes \<open>.\<close> and \<open>..\<close> as the directory and its parent,
  which for the directory of a root can be outside of it.
\<close>

definition at_entry :: "vpath \<Rightarrow> string \<Rightarrow> vpath" where
  "at_entry v b = (if b = ''.'' then v else if b = ''..'' then butlast v else v @ [b])"

definition fd_call ::
  "disk_env \<Rightarrow> string \<Rightarrow> nat \<Rightarrow> string \<Rightarrow> string \<Rightarrow> (vpath \<Rightarrow> 'a kernel_op) \<Rightarrow> root_fs \<Rightarrow> 'a res \<times> root_fs" where
  "fd_call env op fd b name act w =
     (case de_fail env op name (rf_disk w) of
        Some e \<Rightarrow> (Inl (PathError op name e), w)
      | None \<Rightarrow>
          if \<not> dir_valid (rf_disk w) (rf_loc w fd) then (Inl (PathError op name ENOENT), w)
          else (case act (at_entry (fst (rf_loc w fd)) b) (rf_disk w) of
              Inl e \<Rightarrow> (Inl (PathError op name e), w)
            | Inr (x, dk) \<Rightarrow> (Inr x, w\<lparr>rf_disk := dk\<rparr>)))"

definition parent_call ::
  "disk_env \<Rightarrow> string \<Rightarrow> nat \<Rightarrow> string \<Rightarrow> (vpath \<Rightarrow> 'a kernel_op) \<Rightarrow> root_fs \<Rightarrow> 'a res \<times> root_fs" where
  "parent_call env op h name act w =
     (let found = dir_found env h (parent_name name) w; renv = root_env_of env (rf_disk w) found in
      case open_root_parent renv h name (rf_world w) of
        (Inl e, rw) \<Rightarrow> (Inl e, note_dir found rw w)
      | (Inr (fd, b, close_parent), rw) \<Rightarrow>
          (case fd_call env op fd b name act (note_dir found rw w) of
             (r, w) \<Rightarrow> (r, if close_parent then w\<lparr>rf_world := snd (os_close renv fd (rf_world w))\<rparr> else w)))"

definition root_mknod :: "disk_env \<Rightarrow> nat \<Rightarrow> string \<Rightarrow> 32 word \<Rightarrow> 32 word \<Rightarrow> 64 word \<Rightarrow> root_fs \<Rightarrow> nat res \<times> root_fs" where
  "root_mknod env h name kind mode dev w =
     parent_call env ''mknodat'' h name (\<lambda>v dk. k_create v ((created env kind mode dk)\<lparr>in_rdev := dev\<rparr>) dk) w"

definition root_lchtimes :: "disk_env \<Rightarrow> nat \<Rightarrow> string \<Rightarrow> 64 word \<Rightarrow> root_fs \<Rightarrow> unit res \<times> root_fs" where
  "root_lchtimes env h name t w =
     parent_call env ''utimensat'' h name (\<lambda>v. k_update v (\<lambda>i. i\<lparr>in_mtime := t\<rparr>)) w"

text \<open>
  The calls \<open>LSetxattr\<close> of \<open>Root_Xattr\<close> makes; with the disk it carries the inode that was opened. A
  symbolic link is not opened.
\<close>

definition open_nofollow :: "vpath \<Rightarrow> nat kernel_op" where
  "open_nofollow v dk =
     (case dk_tree dk v of
        None \<Rightarrow> Inl ENOENT
      | Some i \<Rightarrow> if is_symlink_node (dk_inodes dk i) then Inl ELOOP else Inr (i, dk))"

definition root_xattr_calls :: "disk_env \<Rightarrow> nat \<Rightarrow> string \<Rightarrow> (root_fs \<times> nat) xattr_calls" where
  "root_xattr_calls env h name =
     \<lparr>xc_open = (\<lambda>p (w, i). case root_call env ''openat'' False h p open_nofollow w of
          (Inl e, w) \<Rightarrow> (Some e, (w, i))
        | (Inr i, w) \<Rightarrow> (None, (w, i))),
      xc_close = (\<lambda>k. k),
      xc_flistxattr = (\<lambda>n k. (Inl ENOSYS, k)),
      xc_fgetxattr = (\<lambda>key n k. (Inl ENOSYS, k)),
      xc_fsetxattr = (\<lambda>key val (w, i). case de_fail env ''fsetxattr'' name (rf_disk w) of
          Some e \<Rightarrow> (Some e, (w, i))
        | None \<Rightarrow> (None, (w\<lparr>rf_disk := set_inode i (\<lambda>n. n\<lparr>in_xattrs := (in_xattrs n)(key \<mapsto> val)\<rparr>) (rf_disk w)\<rparr>, i)))\<rparr>"

definition root_set_xattr :: "disk_env \<Rightarrow> nat \<Rightarrow> string \<Rightarrow> string \<Rightarrow> string \<Rightarrow> root_fs \<Rightarrow> go_error option \<times> root_fs" where
  "root_set_xattr env h name key val w =
     (case root_lsetxattr (root_xattr_calls env h name) name key val (w, 0) of (e, (w, i)) \<Rightarrow> (e, w))"

section \<open>Roots as the stack and the cache use them\<close>

lemma note_dir_simps [simp]:
  "rf_world (note_dir found rw w) = rw" "rf_disk (note_dir found rw w) = rf_disk w"
  by (simp_all add: note_dir_def)

interpretation disk_root: root_provider "\<lambda>w. world_ok (rf_world w)" "\<lambda>w. root_open (rf_world w)" "\<lambda>w. root_path (rf_world w)"
  "dir_open env" "dir_close env" for env
proof
  fix w h name h' w'
  assume a: "world_ok (rf_world w)" "root_open (rf_world w) h" "dir_open env h name w = Inr (h', w')"
  obtain rw where o: "open_root (root_env_of env (rf_disk w) (dir_found env h name w)) h name (rf_world w) = Inr (h', rw)" "rf_world w' = rw"
    using a(3) by (auto simp: dir_open_def Let_def split: sum.splits)
  show "world_ok (rf_world w') \<and> \<not> root_open (rf_world w) h' \<and> root_path (rf_world w') h' = join2 (root_path (rf_world w) h) name \<and>
      (\<forall>k. root_open (rf_world w') k \<longleftrightarrow> k = h' \<or> root_open (rf_world w) k) \<and>
      (\<forall>k. root_open (rf_world w) k \<longrightarrow> root_path (rf_world w') k = root_path (rf_world w) k)"
    unfolding o(2) by (rule os_root.opn_ok[OF a(1,2) o(1)])
next
  fix w h e w'
  assume a: "world_ok (rf_world w)" "root_open (rf_world w) h" "dir_close env h w = (e, w')"
  then have c: "root_close (root_env_of env (rf_disk w) (Inl Eof)) h (rf_world w) = (e, rf_world w')"
    by (auto simp: dir_close_def split: prod.splits)
  show "world_ok (rf_world w') \<and> (\<forall>k. root_open (rf_world w') k \<longleftrightarrow> root_open (rf_world w) k \<and> k \<noteq> h) \<and>
      (\<forall>k. root_open (rf_world w') k \<longrightarrow> root_path (rf_world w') k = root_path (rf_world w) k)"
    by (rule os_root.close_ok[OF a(1,2) c])
qed

end
