(* ===== verification/Root_Writer.thy ===== *)
theory Root_Writer
  imports Root_Disk Root_Cache Disk_Writer Sender
begin

text \<open>
  \<open>rootdiskwriter.go\<close> with \<open>rootdiskwriter_unix.go\<close> and \<open>root_special_unix.go\<close>: the writer that reaches its destination
  through directory handles only. It finds the directory of a change with the stack of \<open>Root_Stack\<close> and that of a requested
  file with the cache of \<open>Root_Cache\<close>; the options, callbacks and the processing of a change are those of
  \<open>Disk_Writer\<close>.
\<close>

section \<open>State\<close>

record root_writer =
  rt_opt :: disk_writer_opt
  rt_dest :: nat
  rt_stack :: "nat stack_item list"
  rt_cache :: "nat root_cache"
  rt_done :: bool
  rt_dir_mod_times :: "string \<rightharpoonup> 64 word"
  rt_fs :: root_fs
  rt_rand :: "32 word"
  rt_notes :: "notification list"
  rt_tasks :: "data_task list"

definition new_root_disk_writer :: "bool \<Rightarrow> nat \<Rightarrow> disk_writer_opt \<Rightarrow> root_fs \<Rightarrow> 32 word \<Rightarrow> root_writer res" where
  "new_root_disk_writer ctx_done dest opt fs rand =
     (if dwo_sync_data_cb opt = None \<and> dwo_async_data_cb opt = None then Inl (Errorf ''no data callback specified'' [])
      else if dwo_sync_data_cb opt \<noteq> None \<and> dwo_async_data_cb opt \<noteq> None then
        Inl (Errorf ''can't specify both sync and async data callbacks'' [])
      else Inr \<lparr>rt_opt = opt, rt_dest = dest, rt_stack = new_root_stack dest, rt_cache = new_root_cache dest root_cache_default_size,
        rt_done = ctx_done, rt_dir_mod_times = Map.empty, rt_fs = fs, rt_rand = rand, rt_notes = [], rt_tasks = []\<rparr>)"

text \<open>A call on the file system of the writer, and a call on an open file.\<close>

definition on_fs :: "(root_fs \<Rightarrow> 'a res \<times> root_fs) \<Rightarrow> root_writer \<Rightarrow> 'a res \<times> root_writer" where
  "on_fs f rt = (case f (rt_fs rt) of (r, fs) \<Rightarrow> (r, rt\<lparr>rt_fs := fs\<rparr>))"

definition on_file :: "(disk \<Rightarrow> 'a res \<times> disk) \<Rightarrow> root_fs \<Rightarrow> 'a res \<times> root_fs" where
  "on_file f fs = (case f (rf_disk fs) of (r, dk) \<Rightarrow> (r, fs\<lparr>rf_disk := dk\<rparr>))"

section \<open>Metadata and special files\<close>

definition root_chtimes :: "disk_env \<Rightarrow> nat \<Rightarrow> string \<Rightarrow> 64 word \<Rightarrow> root_fs \<Rightarrow> unit res \<times> root_fs" where
  "root_chtimes env h p t fs = root_set_times env h p t fs"

fun set_root_xattrs :: "disk_env \<Rightarrow> nat \<Rightarrow> string \<Rightarrow> (string \<times> string) list \<Rightarrow> root_fs \<Rightarrow> root_fs" where
  "set_root_xattrs env h p [] fs = fs"
| "set_root_xattrs env h p ((key, val) # xs) fs = set_root_xattrs env h p xs (snd (root_set_xattr env h p key val fs))"

definition rewrite_root_metadata :: "disk_env \<Rightarrow> nat \<Rightarrow> string \<Rightarrow> stat \<Rightarrow> root_fs \<Rightarrow> unit res \<times> root_fs" where
  "rewrite_root_metadata env h p st fs =
     try_bind (root_lchown env h p (st_uid st) (st_gid st) (set_root_xattrs env h p (st_xattrs st) fs)) (\<lambda>_ fs.
       if has_mode (st_mode st) mode_symlink then root_lchtimes env h p (st_modtime st) fs
       else try_bind (root_chmod env h p (st_mode st) fs) (\<lambda>_ fs. root_chtimes env h p (st_modtime st) fs))"

definition handle_root_special :: "writer_env \<Rightarrow> nat \<Rightarrow> string \<Rightarrow> stat \<Rightarrow> root_fs \<Rightarrow> nat res \<times> root_fs" where
  "handle_root_special env h p st fs =
     root_mknod (we_disk env) h p (special_kind (st_mode st)) (st_mode st AND 0xFFF)
       (we_mkdev env (ucast (st_devmajor st)) (ucast (st_devminor st))) fs"

section \<open>Writers\<close>

definition root_process_change ::
  "writer_env \<Rightarrow> disk_writer_opt \<Rightarrow> change_kind \<Rightarrow> string \<Rightarrow> file_info \<Rightarrow> 'w wr_ops option \<Rightarrow>
   notification list \<times> 'w \<Rightarrow> unit res \<times> notification list \<times> 'w" where
  "root_process_change = process_change"

definition root_file_ops :: "disk_env \<Rightarrow> nat \<Rightarrow> root_fs wr_ops" where
  "root_file_ops env fd = (\<lambda>bs. on_file (file_write env fd bs), on_file (file_close env fd))"

text \<open>\<open>rootLazyFileWriter\<close>.\<close>

record root_lazy_writer =
  rz_lease :: "nat root_lease"
  rz_fd :: "nat option"
  rz_mode :: "32 word option"
  rz_closed :: bool

definition root_lazy_open :: "disk_env \<Rightarrow> root_lazy_writer \<times> root_fs \<Rightarrow> nat res \<times> root_lazy_writer \<times> root_fs" where
  "root_lazy_open env lwf =
     (case lwf of (lw, fs) \<Rightarrow>
        let h = rl_root (rz_lease lw); b = rl_base (rz_lease lw) in
        (case root_open_write env h b fs of
           (Inr fd, fs) \<Rightarrow> (Inr fd, (lw, fs))
         | (Inl e, fs) \<Rightarrow>
             if is_permission e then
               (case root_stat env h b fs of
                  (Inl er, fs) \<Rightarrow> (Inl e, (lw, fs))
                | (Inr i, fs) \<Rightarrow>
                    (case root_chmod env h b (in_mode i OR 0x92) fs of
                       (Inl er, fs) \<Rightarrow> (Inl e, (lw\<lparr>rz_mode := Some (in_mode i)\<rparr>, fs))
                     | (Inr _, fs) \<Rightarrow>
                         (case root_open_write env h b fs of (r, fs) \<Rightarrow> (r, (lw\<lparr>rz_mode := Some (in_mode i)\<rparr>, fs)))))
             else (Inl e, (lw, fs))))"

definition root_lazy_write :: "disk_env \<Rightarrow> string \<Rightarrow> root_lazy_writer \<times> root_fs \<Rightarrow> unit res \<times> root_lazy_writer \<times> root_fs" where
  "root_lazy_write env bs lwf =
     (case (case rz_fd (fst lwf) of
          Some fd \<Rightarrow> (Inr fd, lwf)
        | None \<Rightarrow> wrap_err (''failed to open '' @ rl_base (rz_lease (fst lwf))) (root_lazy_open env lwf)) of
        (Inl e, lwf) \<Rightarrow> (Inl e, lwf)
      | (Inr fd, (lw, fs)) \<Rightarrow>
          (case on_file (file_write env fd bs) fs of (r, fs) \<Rightarrow> (r, (lw\<lparr>rz_fd := Some fd\<rparr>, fs))))"

definition root_lazy_close :: "disk_env \<Rightarrow> root_lazy_writer \<times> root_fs \<Rightarrow> unit res \<times> root_lazy_writer \<times> root_fs" where
  "root_lazy_close env lwf =
     (case lwf of (lw, fs) \<Rightarrow>
        if rz_closed lw then (Inr (), (lw, fs))
        else
          let lw = lw\<lparr>rz_closed := True\<rparr> in
          (case (case rz_fd lw of None \<Rightarrow> (Inr (), fs) | Some fd \<Rightarrow> on_file (file_close env fd) fs) of
             (Inl e, fs) \<Rightarrow> (Inl e, (lw, fs))
           | (Inr _, fs) \<Rightarrow>
               (case rz_mode lw of
                  None \<Rightarrow> (Inr (), (lw, fs))
                | Some m \<Rightarrow> (case root_chmod env (rl_root (rz_lease lw)) (rl_base (rz_lease lw)) m fs of (r, fs) \<Rightarrow> (r, (lw, fs))))))"

section \<open>HandleChange\<close>

definition root_filter :: "root_writer \<Rightarrow> string \<Rightarrow> stat \<Rightarrow> bool \<times> stat" where
  "root_filter rt p st = (case dwo_filter (rt_opt rt) of None \<Rightarrow> (True, st) | Some f \<Rightarrow> f p st)"

definition root_delete :: "writer_env \<Rightarrow> string \<Rightarrow> string \<Rightarrow> nat \<Rightarrow> string \<Rightarrow> root_writer \<Rightarrow> unit res \<times> root_writer" where
  "root_delete env p dest_path h b rt =
     (if \<not> fst (root_filter rt p empty_stat) then (Inr (), rt)
      else
        try_bind (wrap_err (''failed to remove: '' @ dest_path) (on_fs (root_remove_all (we_disk env) h b) rt)) (\<lambda>_ rt.
          (case dwo_notify_cb (rt_opt rt) of
             None \<Rightarrow> (Inr (), rt)
           | Some notify \<Rightarrow>
               (case notify ChangeKindDelete p None of None \<Rightarrow> Inr () | Some e \<Rightarrow> Inl e,
                rt\<lparr>rt_notes := rt_notes rt @ [\<lparr>nt_kind = ChangeKindDelete, nt_path = p, nt_info = None\<rparr>]\<rparr>))))"

definition root_make_regular :: "writer_env \<Rightarrow> string \<Rightarrow> stat \<Rightarrow> nat \<Rightarrow> string \<Rightarrow> root_writer \<Rightarrow> unit res \<times> root_writer" where
  "root_make_regular env p st h new_path rt =
     try_bind
       (wrap_err (''failed to create '' @ new_path) (on_fs (root_create (we_disk env) h new_path (st_mode st AND mode_perm)) rt)) (\<lambda>fd rt.
       try_bind
         (if dwo_sync_data_cb (rt_opt rt) \<noteq> None then
            (case root_process_change env (rt_opt rt) ChangeKindAdd p (StatInfo st) (Some (root_file_ops (we_disk env) fd))
                (rt_notes rt, rt_fs rt) of
               (Inl e, (notes, fs)) \<Rightarrow> (Inl e, rt\<lparr>rt_notes := notes, rt_fs := snd (on_file (file_close (we_disk env) fd) fs)\<rparr>)
             | (Inr _, (notes, fs)) \<Rightarrow> (Inr (), rt\<lparr>rt_notes := notes, rt_fs := fs\<rparr>))
          else (Inr (), rt)) (\<lambda>_ rt.
         wrap_err (''failed to close '' @ new_path) (on_fs (on_file (file_close (we_disk env) fd)) rt)))"

definition root_make_of :: "bool \<Rightarrow> 'a res \<times> root_writer \<Rightarrow> make_result \<times> root_writer" where
  "root_make_of regular m = (case m of (Inl e, rt) \<Rightarrow> (MakeErr e, rt) | (Inr _, rt) \<Rightarrow> (MakeOk regular, rt))"

definition root_make_node ::
  "writer_env \<Rightarrow> string \<Rightarrow> string \<Rightarrow> stat \<Rightarrow> stat \<Rightarrow> nat \<Rightarrow> bool \<Rightarrow> string \<Rightarrow> root_writer \<Rightarrow> make_result \<times> root_writer" where
  "root_make_node env p dest_path st copy h rename new_path rt =
     (if stat_is_dir st then
        (case on_fs (root_mkdir (we_disk env) h new_path (st_mode st AND mode_perm)) rt of
           (Inl e, rt) \<Rightarrow> (if errno_of e = Some EEXIST then MakeAgain else MakeErr (Wrap (''failed to create dir '' @ new_path) e), rt)
         | (Inr _, rt) \<Rightarrow> (MakeOk False, rt\<lparr>rt_dir_mod_times := (rt_dir_mod_times rt)(to_slash dest_path \<mapsto> st_modtime copy)\<rparr>))
      else if has_mode (st_mode st) mode_device \<or> has_mode (st_mode st) mode_named_pipe then
        root_make_of False (wrap_err (''failed to create device '' @ new_path) (on_fs (handle_root_special env h new_path copy) rt))
      else if has_mode (st_mode st) mode_symlink then
        root_make_of False (wrap_err (''failed to symlink '' @ new_path) (on_fs (root_symlink (we_disk env) h (st_linkname copy) new_path) rt))
      else if st_linkname copy \<noteq> [] then
        root_make_of False (wrap_err (''failed to link '' @ new_path @ '' to '' @ st_linkname copy)
          (on_fs (root_link (we_disk env) (rt_dest rt) (st_linkname copy)
            (if rename then join2 (dir dest_path) new_path else dest_path)) rt))
      else root_make_of True (root_make_regular env p st h new_path rt))"

definition root_move :: "disk_env \<Rightarrow> nat \<Rightarrow> string \<Rightarrow> string \<Rightarrow> string \<Rightarrow> stat \<Rightarrow> inode option \<Rightarrow> root_fs \<Rightarrow> unit res \<times> root_fs" where
  "root_move env h new_path b dest_path st old fs =
     (case old of
        None \<Rightarrow> (Inr (), fs)
      | Some i \<Rightarrow>
          try_bind
            (if mode_is_dir (in_mode i) \<noteq> stat_is_dir st then
               wrap_err (''failed to remove '' @ dest_path) (root_remove_all env h b fs)
             else (Inr (), fs))
            (\<lambda>_ fs. wrap_err (''failed to rename '' @ new_path @ '' to '' @ dest_path) (root_rename env h new_path b fs)))"

definition root_report ::
  "writer_env \<Rightarrow> change_kind \<Rightarrow> string \<Rightarrow> string \<Rightarrow> stat \<Rightarrow> stat \<Rightarrow> bool \<Rightarrow> root_writer \<Rightarrow> unit res \<times> root_writer" where
  "root_report env kind p dest_path st copy regular rt =
     (if regular then
        (Inr (), if dwo_async_data_cb (rt_opt rt) \<noteq> None then
           rt\<lparr>rt_tasks := rt_tasks rt @ [\<lparr>dt_path = p, dt_dest = dest_path, dt_fi = st, dt_stat = copy\<rparr>]\<rparr> else rt)
      else
        (case root_process_change env (rt_opt rt) kind p (StatInfo st) None (rt_notes rt, rt_fs rt) of
           (r, (notes, fs)) \<Rightarrow> (r, rt\<lparr>rt_notes := notes, rt_fs := fs\<rparr>)))"

definition root_finish ::
  "writer_env \<Rightarrow> change_kind \<Rightarrow> string \<Rightarrow> string \<Rightarrow> stat \<Rightarrow> stat \<Rightarrow> nat \<Rightarrow> string \<Rightarrow> string \<Rightarrow> inode option \<Rightarrow> bool \<Rightarrow>
   root_writer \<Rightarrow> unit res \<times> root_writer" where
  "root_finish env kind p dest_path st copy h new_path b old regular rt =
     try_bind (wrap_err (''error setting metadata for '' @ new_path) (on_fs (rewrite_root_metadata (we_disk env) h new_path copy) rt))
       (\<lambda>_ rt. try_bind (on_fs (root_move (we_disk env) h new_path b dest_path st old) rt)
         (\<lambda>_ rt. root_report env kind p dest_path st copy regular rt))"

definition root_make_change ::
  "writer_env \<Rightarrow> change_kind \<Rightarrow> string \<Rightarrow> string \<Rightarrow> stat \<Rightarrow> stat \<Rightarrow> nat \<Rightarrow> inode option \<Rightarrow> string \<Rightarrow> string \<Rightarrow>
   root_writer \<Rightarrow> (unit res) option \<times> root_writer" where
  "root_make_change env kind p dest_path st copy h old b new_path rt =
     (case root_make_node env p dest_path st copy h (old \<noteq> None) new_path rt of
        (MakeAgain, rt) \<Rightarrow> (None, rt)
      | (MakeErr e, rt) \<Rightarrow> (Some (Inl e), rt)
      | (MakeOk regular, rt) \<Rightarrow>
          (case root_finish env kind p dest_path st copy h new_path b old regular rt of (r, rt) \<Rightarrow> (Some r, rt)))"

definition root_place_change ::
  "writer_env \<Rightarrow> change_kind \<Rightarrow> string \<Rightarrow> string \<Rightarrow> stat \<Rightarrow> stat \<Rightarrow> nat \<Rightarrow> string \<Rightarrow> inode option \<Rightarrow>
   root_writer \<Rightarrow> (unit res) option \<times> root_writer" where
  "root_place_change env kind p dest_path st copy h b old rt =
     (if old = None then root_make_change env kind p dest_path st copy h old b b rt
      else
        (case next_suffix (we_seed env) (rt_rand rt) of
           (sfx, rand) \<Rightarrow> root_make_change env kind p dest_path st copy h old b (''.tmp.'' @ sfx) (rt\<lparr>rt_rand := rand\<rparr>)))"

definition root_look_at :: "disk_env \<Rightarrow> change_kind \<Rightarrow> nat \<Rightarrow> string \<Rightarrow> root_writer \<Rightarrow> inode option res \<times> root_writer" where
  "root_look_at env kind h b rt =
     (case on_fs (root_lstat env h b) rt of
        (Inr i, rt) \<Rightarrow> (Inr (Some i), rt)
      | (Inl e, rt) \<Rightarrow>
          (if errno_of e = Some ENOENT then (if kind \<noteq> ChangeKindAdd then Inl (Wrap ''modify/rm'' e) else Inr None)
           else Inl e, rt))"

definition root_apply_stat ::
  "writer_env \<Rightarrow> change_kind \<Rightarrow> string \<Rightarrow> string \<Rightarrow> stat \<Rightarrow> stat \<Rightarrow> nat \<Rightarrow> string \<Rightarrow> root_writer \<Rightarrow> (unit res) option \<times> root_writer" where
  "root_apply_stat env kind p dest_path st copy h b rt =
     (case root_look_at (we_disk env) kind h b rt of
        (Inl e, rt) \<Rightarrow> (Some (Inl e), rt)
      | (Inr old, rt) \<Rightarrow>
          if (case old of None \<Rightarrow> False | Some i \<Rightarrow> stat_is_dir st \<and> mode_is_dir (in_mode i)) then
            (case wrap_err (''error setting dir metadata for '' @ dest_path)
                (on_fs (rewrite_root_metadata (we_disk env) h b copy) rt) of (r, rt) \<Rightarrow> (Some r, rt))
          else root_place_change env kind p dest_path st copy h b old rt)"

definition root_change_body :: "writer_env \<Rightarrow> change_kind \<Rightarrow> string \<Rightarrow> file_info \<Rightarrow> root_writer \<Rightarrow> (unit res) option \<times> root_writer" where
  "root_change_body env kind p fi rt =
     (let dest_path = clean_root_path p in
      case stack_get (dir_open (we_disk env)) (dir_close (we_disk env)) dest_path (rt_stack rt) (rt_fs rt) of
        (got, items, fs) \<Rightarrow>
          let rt = rt\<lparr>rt_stack := items, rt_fs := fs\<rparr> in
          (case got of
             Inl e \<Rightarrow> (Some (Inl e), rt)
           | Inr (h, b) \<Rightarrow>
               if kind = ChangeKindDelete then (case root_delete env p dest_path h b rt of (r, rt) \<Rightarrow> (Some r, rt))
               else
                 (case fi of
                    NilInfo \<Rightarrow> (Some (Inl (Panic ''nil FileInfo'')), rt)
                  | OtherInfo m \<Rightarrow> (Some (Inl (PathError ''change without stat info'' p EBADMSG)), rt)
                  | StatInfo st \<Rightarrow>
                      (case root_filter rt p (the (clone_vt (Some st))) of
                         (ok, copy) \<Rightarrow> if \<not> ok then (Some (Inr ()), rt) else root_apply_stat env kind p dest_path st copy h b rt))))"

definition root_cancel_on :: "unit res \<times> root_writer \<Rightarrow> unit res \<times> root_writer" where
  "root_cancel_on m = (case m of (Inl e, rt) \<Rightarrow> (Inl e, rt\<lparr>rt_done := True\<rparr>) | (Inr x, rt) \<Rightarrow> (Inr x, rt))"

fun root_handle_change ::
  "nat \<Rightarrow> writer_env \<Rightarrow> change_kind \<Rightarrow> string \<Rightarrow> file_info \<Rightarrow> go_error option \<Rightarrow> root_writer \<Rightarrow> (unit res \<times> root_writer) option" where
  "root_handle_change 0 env kind p fi err rt = None"
| "root_handle_change (Suc n) env kind p fi err rt =
     (case err of
        Some e \<Rightarrow> Some (Inl e, rt)
      | None \<Rightarrow>
          if rt_done rt then Some (Inl CtxErr, rt)
          else (case root_change_body env kind p fi rt of
              (Some r, rt) \<Rightarrow> Some (root_cancel_on (r, rt))
            | (None, rt) \<Rightarrow> map_option root_cancel_on (root_handle_change n env kind p fi None rt)))"

section \<open>Data and Wait\<close>

text \<open>The goroutine of a requested file; the error of \<open>Release\<close> is not looked at.\<close>

definition root_task_data :: "writer_env \<Rightarrow> data_task \<Rightarrow> nat root_lease \<Rightarrow> root_writer \<Rightarrow> unit res \<times> root_writer" where
  "root_task_data env t lease rt =
     (case root_process_change env (rt_opt rt) ChangeKindAdd (dt_path t) (StatInfo (dt_fi t))
         (Some (root_lazy_write (we_disk env), root_lazy_close (we_disk env)))
         (rt_notes rt, (\<lparr>rz_lease = lease, rz_fd = None, rz_mode = None, rz_closed = False\<rparr>, rt_fs rt)) of
        (Inl e, (notes, (lw, fs))) \<Rightarrow>
          (Inl e, rt\<lparr>rt_notes := notes, rt_fs := snd (snd (root_lazy_close (we_disk env) (lw, fs)))\<rparr>)
      | (Inr _, (notes, (lw, fs))) \<Rightarrow>
          on_fs (root_chtimes (we_disk env) (rl_root lease) (rl_base lease) (st_modtime (dt_stat t))) (rt\<lparr>rt_notes := notes, rt_fs := fs\<rparr>))"

definition run_root_task :: "writer_env \<Rightarrow> data_task \<Rightarrow> root_writer \<Rightarrow> unit res \<times> root_writer" where
  "run_root_task env t rt =
     (case cache_get (dir_open (we_disk env)) (dir_close (we_disk env)) (dt_dest t) (rt_cache rt) (rt_fs rt) of
        (Inl e, c, fs) \<Rightarrow> (Inl e, rt\<lparr>rt_cache := c, rt_fs := fs\<rparr>)
      | (Inr lease, c, fs) \<Rightarrow>
          (case root_task_data env t lease (rt\<lparr>rt_cache := c, rt_fs := fs\<rparr>) of
             (r, rt) \<Rightarrow>
               (case lease_release (dir_close (we_disk env)) lease (rt_cache rt) (rt_fs rt) of
                  (err, l, c, fs) \<Rightarrow> (r, rt\<lparr>rt_cache := c, rt_fs := fs\<rparr>))))"

text \<open>\<open>Wait\<close>, once the goroutines have ended with their first error; \<open>ps\<close> is the order in which the map of the cache is visited.\<close>

definition root_wait_callback :: "writer_env \<Rightarrow> root_writer os_walk_fn" where
  "root_wait_callback env path d prev_err rt =
     (case prev_err of
        Some e \<Rightarrow> (Some e, rt)
      | None \<Rightarrow>
          (case d of
             None \<Rightarrow> (Some (Panic ''nil DirEntry''), rt)
           | Some d \<Rightarrow>
               if \<not> od_is_dir d then (None, rt)
               else (case rt_dir_mod_times rt path of
                   None \<Rightarrow> (None, rt)
                 | Some t \<Rightarrow>
                     (case on_fs (root_chtimes (we_disk env) (rt_dest rt) path t) rt of
                        (Inl e, rt) \<Rightarrow> (Some e, rt)
                      | (Inr _, rt) \<Rightarrow> (None, rt)))))"

definition root_wait ::
  "writer_env \<Rightarrow> string list \<Rightarrow> (string \<Rightarrow> os_tree res) \<Rightarrow> go_error option \<Rightarrow> root_writer \<Rightarrow> go_error option \<times> root_writer" where
  "root_wait env ps lookup eg_err rt =
     (case cache_close (dir_close (we_disk env)) ps (rt_cache rt) (rt_fs rt) of
        (cache_err, c, fs) \<Rightarrow>
          let err = (if eg_err = None then cache_err else eg_err) in
          (case stack_close (dir_close (we_disk env)) None (rt_stack rt) fs of
             (stack_err, items, fs) \<Rightarrow>
               let err = (if err = None then stack_err else err); rt = rt\<lparr>rt_cache := c, rt_stack := items, rt_fs := fs\<rparr>
               in (case err of
                     Some e \<Rightarrow> (Some e, rt)
                   | None \<Rightarrow> walk_dir lookup ''.'' (root_wait_callback env) rt)))"

end
