(* ===== verification/Root_Confined.thy ===== *)
theory Root_Confined
  imports Root_Writer Disk_Apply
begin

text \<open>
  The root writer stays below its destination. \<open>confined gs dk0 dk\<close> says that \<open>dk\<close> differs from \<open>dk0\<close> only below
  the directory \<open>gs\<close>: the entries outside and the files they name are the same, and no entry below and no open
  descriptor names such a file. Each call on a root keeps it, whatever it returns, and so do the stack, the cache and
  all operations of the writer.
\<close>

section \<open>Confined disks\<close>

definition outer :: "vpath \<Rightarrow> disk \<Rightarrow> nat set" where
  "outer gs dk = {i. \<exists>q. \<not> prefix gs q \<and> dk_tree dk q = Some i}"

definition confined :: "vpath \<Rightarrow> disk \<Rightarrow> disk \<Rightarrow> bool" where
  "confined gs dk0 dk \<longleftrightarrow>
     (\<forall>q. \<not> prefix gs q \<longrightarrow> dk_tree dk q = dk_tree dk0 q) \<and>
     (\<forall>i \<in> outer gs dk0. dk_inodes dk i = dk_inodes dk0 i \<and> i < dk_next dk) \<and>
     (\<forall>v i. prefix gs v \<longrightarrow> dk_tree dk v = Some i \<longrightarrow> i \<notin> outer gs dk0) \<and>
     (\<forall>fd i off. dk_fds dk fd = Some (i, off) \<longrightarrow> i \<notin> outer gs dk0)"

lemma confinedD:
  assumes "confined gs dk0 dk"
  shows "\<not> prefix gs q \<Longrightarrow> dk_tree dk q = dk_tree dk0 q" "i \<in> outer gs dk0 \<Longrightarrow> dk_inodes dk i = dk_inodes dk0 i"
    "i \<in> outer gs dk0 \<Longrightarrow> i < dk_next dk" "prefix gs v \<Longrightarrow> dk_tree dk v = Some i \<Longrightarrow> i \<notin> outer gs dk0"
    "dk_fds dk fd = Some (i, off) \<Longrightarrow> i \<notin> outer gs dk0"
  using assms unfolding confined_def by blast+

lemma confined_node:
  assumes "confined gs dk0 dk" "\<not> prefix gs q"
  shows "node dk q = node dk0 q"
proof (cases "dk_tree dk0 q")
  case None
  then show ?thesis using confinedD(1)[OF assms] by (simp add: node_def)
next
  case (Some i)
  then have "i \<in> outer gs dk0" using assms(2) by (auto simp: outer_def)
  then show ?thesis using confinedD(1)[OF assms] confinedD(2)[OF assms(1)] Some by (simp add: node_def)
qed

lemma confined_tree:
  assumes "confined gs dk0 dk" "\<And>q. \<not> prefix gs q \<Longrightarrow> t q = dk_tree dk q"
    and "\<And>v i. prefix gs v \<Longrightarrow> t v = Some i \<Longrightarrow> \<exists>v'. prefix gs v' \<and> dk_tree dk v' = Some i"
  shows "confined gs dk0 (dk\<lparr>dk_tree := t\<rparr>)"
  using assms unfolding confined_def by simp blast

lemma confined_inode: "confined gs dk0 dk \<Longrightarrow> i \<notin> outer gs dk0 \<Longrightarrow> confined gs dk0 (set_inode i f dk)"
  by (auto simp: confined_def set_inode_def)

lemma confined_touch:
  assumes "confined gs dk0 dk" "prefix gs (butlast v)"
  shows "confined gs dk0 (touch_parent v dk)"
  using confined_inode[OF assms(1)] confinedD(4)[OF assms] by (auto simp: touch_parent_def assms(1) split: option.splits)

text \<open>A path a root hands to the kernel: below the directory, which exists when it is the path itself.\<close>

definition in_root :: "vpath \<Rightarrow> disk \<Rightarrow> vpath \<Rightarrow> bool" where
  "in_root gs dk v \<longleftrightarrow> prefix gs v \<and> (v = gs \<longrightarrow> is_dir_at dk gs)"

lemma prefix_butlast_strict: "prefix gs v \<Longrightarrow> v \<noteq> gs \<Longrightarrow> prefix gs (butlast v)"
  by (cases v rule: rev_cases) auto

lemma create_confined:
  assumes "k_create v i dk = Inr (n, dk')" "confined gs dk0 dk" "in_root gs dk v"
  shows "confined gs dk0 dk'" "n \<notin> outer gs dk0"
proof -
  have v: "dk_tree dk v = None" "n = dk_next dk" using assms(1) by (auto simp: k_create_def split: if_splits)
  then have "v \<noteq> gs" "prefix gs v" using assms(3) by (auto simp: in_root_def is_dir_at_iff)
  then have p: "prefix gs (butlast v)" by (rule prefix_butlast_strict[rotated])
  have n: "dk_next dk \<notin> outer gs dk0" using confinedD(3)[OF assms(2)] by blast
  have "confined gs dk0 (dk\<lparr>dk_tree := (dk_tree dk)(v \<mapsto> dk_next dk), dk_inodes := (dk_inodes dk)(dk_next dk := i), dk_next := Suc (dk_next dk)\<rparr>)"
    using assms(2) n \<open>prefix gs v\<close> unfolding confined_def by (auto simp: less_Suc_eq)
  from confined_touch[OF this p] show "confined gs dk0 dk'" using assms(1) v by (simp add: k_create_def)
  show "n \<notin> outer gs dk0" using n v by simp
qed

lemma link_confined:
  assumes "k_link old v dk = Inr (u, dk')" "confined gs dk0 dk" "in_root gs dk old" "in_root gs dk v"
  shows "confined gs dk0 dk'"
proof -
  obtain i where i: "dk_tree dk old = Some i" "dk_tree dk v = None" "dk' = touch_parent v (dk\<lparr>dk_tree := (dk_tree dk)(v \<mapsto> i)\<rparr>)"
    using assms(1) by (auto simp: k_link_def split: option.splits if_splits)
  then have "v \<noteq> gs" "prefix gs v" "prefix gs old" using assms(3,4) by (auto simp: in_root_def is_dir_at_iff)
  then have p: "prefix gs (butlast v)" by (simp add: prefix_butlast_strict)
  have "confined gs dk0 (dk\<lparr>dk_tree := (dk_tree dk)(v \<mapsto> i)\<rparr>)"
    by (rule confined_tree[OF assms(2)]) (use i(1) \<open>prefix gs v\<close> \<open>prefix gs old\<close> in \<open>auto split: if_splits\<close>)
  from confined_touch[OF this p] show ?thesis using i(3) by simp
qed

lemma update_confined:
  assumes "k_update v f dk = Inr (u, dk')" "confined gs dk0 dk" "in_root gs dk v"
  shows "confined gs dk0 dk'"
  using assms(1,3) confined_inode[OF assms(2)] confinedD(4)[OF assms(2)] by (auto simp: k_update_def in_root_def split: option.splits)

lemma new_fd_confined:
  assumes "new_fd i dk = (fd, dk')" "confined gs dk0 dk" "i \<notin> outer gs dk0"
  shows "confined gs dk0 dk'"
  using assms by (auto simp: new_fd_def confined_def split: if_splits) blast

lemma open_confined:
  assumes "k_open v dk = Inr (fd, dk')" "confined gs dk0 dk" "in_root gs dk v"
  shows "confined gs dk0 dk'"
proof -
  obtain i where i: "dk_tree dk v = Some i" "new_fd i dk = (fd, dk')" using assms(1) by (auto simp: k_open_def split: option.splits if_splits)
  show ?thesis by (rule new_fd_confined[OF i(2) assms(2)]) (use assms(3) confinedD(4)[OF assms(2) _ i(1)] in \<open>simp add: in_root_def\<close>)
qed

lemma open_create_confined:
  assumes "k_open_create v i dk = Inr (fd, dk')" "confined gs dk0 dk" "in_root gs dk v"
  shows "confined gs dk0 dk'"
proof (cases "dk_tree dk v")
  case (Some j)
  then show ?thesis using open_confined[OF _ assms(2,3)] assms(1) by (simp add: k_open_create_def)
next
  case None
  then obtain n dk1 where c: "k_create v i dk = Inr (n, dk1)" "new_fd n dk1 = (fd, dk')"
    using assms(1) by (auto simp: k_open_create_def split: sum.splits)
  show ?thesis by (rule new_fd_confined[OF c(2) create_confined[OF c(1) assms(2,3)]])
qed

lemma rename_confined:
  assumes "k_rename old new dk = Inr (u, dk')" "confined gs dk0 dk" "in_root gs dk old" "in_root gs dk new"
  shows "confined gs dk0 dk'"
proof -
  obtain i where i: "dk_tree dk old = Some i" "\<not> (is_dir_at dk new \<and> old \<noteq> new)" using assms(1)
    by (auto simp: k_rename_def split: option.splits if_splits)
  show ?thesis
  proof (cases "dk_tree dk new = Some i")
    case True
    then show ?thesis using assms(1,2) i by (simp add: k_rename_def split: if_splits)
  next
    case False
    let ?t = "\<lambda>q. if prefix new q then dk_tree dk (old @ drop (length new) q) else if prefix old q then None else dk_tree dk q"
    have m: "\<not> strict_prefix old new" "dk' = touch_parent new (touch_parent old (dk\<lparr>dk_tree := ?t\<rparr>))"
      using assms(1) i False by (auto simp: k_rename_def split: if_splits)
    have p: "prefix gs old" "prefix gs new" using assms(3,4) by (simp_all add: in_root_def)
    have ne: "old \<noteq> new" using i False by auto
    have "new \<noteq> gs" using assms(4) i(2) ne by (auto simp: in_root_def)
    moreover have "old \<noteq> gs" using m(1) p ne by (auto simp: strict_prefix_def)
    ultimately have b: "prefix gs (butlast new)" "prefix gs (butlast old)" using p by (simp_all add: prefix_butlast_strict)
    have "confined gs dk0 (dk\<lparr>dk_tree := ?t\<rparr>)"
    proof (rule confined_tree[OF assms(2)])
      show "?t q = dk_tree dk q" if "\<not> prefix gs q" for q using that p by (meson prefix_order.trans)
      show "\<exists>v'. prefix gs v' \<and> dk_tree dk v' = Some j" if "prefix gs v" "?t v = Some j" for v j
      proof (cases "prefix new v")
        case True
        then have "dk_tree dk (old @ drop (length new) v) = Some j" using that(2) by simp
        moreover have "prefix gs (old @ drop (length new) v)" using p(1) by simp
        ultimately show ?thesis by blast
      next
        case False
        then show ?thesis using that by (auto split: if_splits)
      qed
    qed
    from confined_touch[OF confined_touch[OF this b(2)] b(1)] show ?thesis using m(2) by simp
  qed
qed

lemma remove_confined:
  assumes "confined gs dk0 dk" "prefix gs v" "v \<noteq> gs"
  shows "confined gs dk0 (touch_parent v (remove_below v kept dk))"
proof -
  have "confined gs dk0 (remove_below v kept dk)"
    unfolding remove_below_def
  proof (rule confined_tree[OF assms(1)])
    show "(if prefix v q \<and> \<not> kept q then None else dk_tree dk q) = dk_tree dk q" if "\<not> prefix gs q" for q
      using that assms(2) by (meson prefix_order.trans)
  qed (auto split: if_splits)
  then show ?thesis by (rule confined_touch) (rule prefix_butlast_strict[OF assms(2,3)])
qed

section \<open>Calls on a root\<close>

lemma root_walk_below: "root_walk follow n dk r cur cs = Inr v \<Longrightarrow> prefix r v"
proof (induction follow n dk r cur cs rule: root_walk.induct)
  case (1 follow n dk r cur)
  then show ?case by (auto simp: root_walk.simps)
next
  case (2 follow n dk r cur c cs)
  show ?case using 2(5) by (subst (asm) root_walk.simps) (auto split: if_splits option.splits intro: 2(1-4))
qed

lemma root_find_in:
  assumes "root_find follow dk l name = Inr v" "prefix gs (fst l)"
  shows "in_root gs dk v" "prefix (fst l) v"
proof -
  have l: "dir_valid dk l" "root_walk follow root_max_links dk (fst l) [] (split_slash name) = Inr v"
    using assms(1) by (auto simp: root_find_def split: if_splits)
  show v: "prefix (fst l) v" by (rule root_walk_below[OF l(2)])
  have "v = gs \<Longrightarrow> fst l = gs" using v assms(2) by (simp add: prefix_order.antisym)
  then show "in_root gs dk v" using v assms(2) l(1) prefix_order.trans by (auto simp: in_root_def dir_valid_def is_dir_at_iff)
qed

text \<open>What every operation keeps: the disk is confined and the directories of all descriptors are below.\<close>

definition confined_fs :: "vpath \<Rightarrow> disk \<Rightarrow> root_fs \<Rightarrow> bool" where
  "confined_fs gs dk0 w \<longleftrightarrow> confined gs dk0 (rf_disk w) \<and> (\<forall>fd. prefix gs (fst (rf_loc w fd)))"

definition keeps :: "('w \<Rightarrow> bool) \<Rightarrow> ('w \<Rightarrow> 'a \<times> 'w) \<Rightarrow> bool" where
  "keeps P f \<longleftrightarrow> (\<forall>w. P w \<longrightarrow> P (snd (f w)))"

lemma keepsD: "keeps P f \<Longrightarrow> f w = (r, w') \<Longrightarrow> P w \<Longrightarrow> P w'"
  by (metis keeps_def snd_conv)

lemma keepsI: "(\<And>w r w'. f w = (r, w') \<Longrightarrow> P w \<Longrightarrow> P w') \<Longrightarrow> keeps P f"
  by (metis keeps_def prod.collapse)

definition act_confined :: "vpath \<Rightarrow> disk \<Rightarrow> (vpath \<Rightarrow> 'a kernel_op) \<Rightarrow> bool" where
  "act_confined gs dk0 act \<longleftrightarrow>
     (\<forall>v dk x dk'. act v dk = Inr (x, dk') \<longrightarrow> confined gs dk0 dk \<longrightarrow> in_root gs dk v \<longrightarrow> confined gs dk0 dk')"

lemma acts_confined [simp]:
  "act_confined gs dk0 k_lstat" "act_confined gs dk0 k_open" "act_confined gs dk0 (\<lambda>v. k_update v f)"
  "act_confined gs dk0 (\<lambda>v dk. k_create v (mk dk) dk)" "act_confined gs dk0 (\<lambda>v dk. k_open_create v (mk dk) dk)"
  "act_confined gs dk0 open_nofollow"
  unfolding act_confined_def
  by (auto simp: k_lstat_def open_nofollow_def intro: open_confined update_confined create_confined(1) open_create_confined
      split: option.splits if_splits)

lemma root_call_keeps:
  assumes "act_confined gs dk0 act"
  shows "keeps (confined_fs gs dk0) (root_call env op follow h name act)"
proof (rule keepsI)
  fix w r w' assume c: "root_call env op follow h name act w = (r, w')" and w: "confined_fs gs dk0 w"
  show "confined_fs gs dk0 w'"
  proof (cases "w' = w")
    case False
    then obtain fd v x dk where f: "root_find follow (rf_disk w) (rf_loc w fd) name = Inr v" "act v (rf_disk w) = Inr (x, dk)"
      "w' = w\<lparr>rf_disk := dk\<rparr>"
      using c by (auto simp: root_call_def split: option.splits sum.splits)
    have "in_root gs (rf_disk w) v" by (rule root_find_in(1)[OF f(1)]) (use w in \<open>simp add: confined_fs_def\<close>)
    then show ?thesis using assms f(2,3) w by (auto simp: act_confined_def confined_fs_def)
  qed (use w in simp)
qed

lemma root_call2_keeps:
  assumes "\<And>vo v dk u dk'. act vo v dk = Inr (u, dk') \<Longrightarrow> confined gs dk0 dk \<Longrightarrow> in_root gs dk vo \<Longrightarrow> in_root gs dk v \<Longrightarrow> confined gs dk0 dk'"
  shows "keeps (confined_fs gs dk0) (root_call2 env op h old new act)"
proof (rule keepsI)
  fix w r w' assume c: "root_call2 env op h old new act w = (r, w')" and w: "confined_fs gs dk0 w"
  show "confined_fs gs dk0 w'"
  proof (cases "w' = w")
    case False
    then obtain fd fd' v vo x dk where f: "root_find False (rf_disk w) (rf_loc w fd) old = Inr vo"
      "root_find False (rf_disk w) (rf_loc w fd') new = Inr v" "act vo v (rf_disk w) = Inr (x, dk)" "w' = w\<lparr>rf_disk := dk\<rparr>"
      using c by (auto simp: root_call2_def root_call_def split: option.splits sum.splits)
    have "in_root gs (rf_disk w) vo" "in_root gs (rf_disk w) v"
      by (rule root_find_in(1)[OF f(1)], use w in \<open>simp add: confined_fs_def\<close>)
        (rule root_find_in(1)[OF f(2)], use w in \<open>simp add: confined_fs_def\<close>)
    then show ?thesis using assms f(3,4) w by (auto simp: confined_fs_def)
  qed (use w in simp)
qed

lemma root_remove_all_keeps: "keeps (confined_fs gs dk0) (root_remove_all env h name)"
proof (rule keepsI)
  fix w r w' assume c: "root_remove_all env h name w = (r, w')" and w: "confined_fs gs dk0 w"
  show "confined_fs gs dk0 w'"
  proof (cases "w' = w")
    case False
    then obtain fd v kept where f: "root_find False (rf_disk w) (rf_loc w fd) name = Inr v" "v \<noteq> fst (rf_loc w fd)"
      "w' = w\<lparr>rf_disk := touch_parent v (remove_below v kept (rf_disk w))\<rparr>"
      using c by (auto simp: root_remove_all_def split: option.splits sum.splits if_splits)
    have l: "prefix gs (fst (rf_loc w fd))" using w by (simp add: confined_fs_def)
    have v: "prefix gs v" "v \<noteq> gs" using root_find_in[OF f(1) l] f(2) l by (auto simp: in_root_def prefix_order.antisym)
    then show ?thesis using remove_confined w f(3) by (auto simp: confined_fs_def)
  qed (use w in simp)
qed

lemma dir_found_below:
  assumes "dir_found env h name w = Inr l" "confined_fs gs dk0 w"
  shows "prefix gs (fst l)"
proof -
  obtain fd v where f: "root_find True (rf_disk w) (rf_loc w fd) name = Inr v" "fst l = v"
    using assms(1) by (auto simp: dir_found_def dir_find_def split: option.splits sum.splits if_splits)
  show ?thesis using root_find_in(1)[OF f(1)] assms(2) f(2) by (auto simp: confined_fs_def in_root_def)
qed

lemma note_dir_confined:
  assumes "confined_fs gs dk0 w"
  shows "confined_fs gs dk0 (note_dir (dir_found env h name w) rw w)"
  using assms dir_found_below[OF _ assms] by (auto simp: note_dir_def confined_fs_def split: sum.splits)

lemma dir_open_confined: "dir_open env h name w = Inr (h', w') \<Longrightarrow> confined_fs gs dk0 w \<Longrightarrow> confined_fs gs dk0 w'"
  using note_dir_confined by (auto simp: dir_open_def Let_def split: sum.splits)

lemma dir_close_keeps: "keeps (confined_fs gs dk0) (dir_close env h)"
  by (rule keepsI) (auto simp: dir_close_def confined_fs_def split: prod.splits)

text \<open>The name has to be a proper one, which is what \<open>openRootParent\<close> checks.\<close>

lemma fd_call_keeps:
  assumes "act_confined gs dk0 act" "good_comp b"
  shows "keeps (confined_fs gs dk0) (fd_call env op fd b name act)"
proof (rule keepsI)
  fix w r w' assume c: "fd_call env op fd b name act w = (r, w')" and w: "confined_fs gs dk0 w"
  show "confined_fs gs dk0 w'"
  proof (cases "w' = w")
    case False
    have "at_entry (fst (rf_loc w fd)) b = fst (rf_loc w fd) @ [b]" using assms(2) by (auto simp: at_entry_def good_comp_def)
    then obtain x dk where f: "act (fst (rf_loc w fd) @ [b]) (rf_disk w) = Inr (x, dk)" "w' = w\<lparr>rf_disk := dk\<rparr>"
      using c False by (auto simp: fd_call_def split: option.splits sum.splits if_splits)
    have l: "prefix gs (fst (rf_loc w fd))" using w by (simp add: confined_fs_def)
    have "in_root gs (rf_disk w) (fst (rf_loc w fd) @ [b])"
      using l by (auto simp: in_root_def dest: prefix_length_le)
    then show ?thesis using assms(1) f w by (auto simp: act_confined_def confined_fs_def)
  qed (use w in simp)
qed

lemma parent_call_keeps:
  assumes "act_confined gs dk0 act"
  shows "keeps (confined_fs gs dk0) (parent_call env op h name act)"
proof (rule keepsI)
  fix w r w' assume c: "parent_call env op h name act w = (r, w')" and w: "confined_fs gs dk0 w"
  have n: "confined_fs gs dk0 (note_dir (dir_found env h (parent_name name) w) rw w)" for rw by (rule note_dir_confined[OF w])
  show "confined_fs gs dk0 w'"
  proof (cases "open_root_parent (root_env_of env (rf_disk w) (dir_found env h (parent_name name) w)) h name (rf_world w)")
    case (Pair res rw)
    show ?thesis
    proof (cases res)
      case (Inl e)
      then show ?thesis using c n Pair by (auto simp: parent_call_def Let_def)
    next
      case (Inr fbc)
      obtain fd' b cl where fbc: "fbc = (fd', b, cl)" by (cases fbc)
      obtain q w2 where q: "fd_call env op fd' b name act (note_dir (dir_found env h (parent_name name) w) rw w) = (q, w2)" by fastforce
      have "good_comp b" using open_root_parent_name Pair Inr fbc by blast
      then have "confined_fs gs dk0 w2" by (intro keepsD[OF fd_call_keeps[OF assms] q n])
      moreover have "rf_disk w' = rf_disk w2" "rf_loc w' = rf_loc w2"
        using c q Pair Inr fbc by (auto simp: parent_call_def Let_def split: if_splits)
      ultimately show ?thesis by (simp add: confined_fs_def)
    qed
  qed
qed

lemma root_set_xattr_keeps: "keeps (confined_fs gs dk0) (root_set_xattr env h name key val)"
proof (rule keepsI)
  fix w r w' assume c: "root_set_xattr env h name key val w = (r, w')" and w: "confined_fs gs dk0 w"
  obtain q w1 where o: "root_call env ''openat'' False h name open_nofollow w = (q, w1)" by fastforce
  have w1: "confined_fs gs dk0 w1" by (rule keepsD[OF root_call_keeps o w]) simp
  show "confined_fs gs dk0 w'"
  proof (cases q)
    case (Inl e)
    then show ?thesis using c o w1 by (simp add: root_set_xattr_def root_lsetxattr_def root_xattr_calls_def)
  next
    case (Inr i)
    then obtain fd v where f: "root_find False (rf_disk w) (rf_loc w fd) name = Inr v" "dk_tree (rf_disk w) v = Some i"
      using o by (auto simp: root_call_def open_nofollow_def split: option.splits sum.splits if_splits)
    have "in_root gs (rf_disk w) v" by (rule root_find_in(1)[OF f(1)]) (use w in \<open>simp add: confined_fs_def\<close>)
    then have i: "i \<notin> outer gs dk0" using f(2) w by (auto simp: in_root_def confined_fs_def confinedD(4))
    have "w' = w1 \<or> w' = w1\<lparr>rf_disk := set_inode i (\<lambda>n. n\<lparr>in_xattrs := (in_xattrs n)(key \<mapsto> val)\<rparr>) (rf_disk w1)\<rparr>"
      using c o Inr by (auto simp: root_set_xattr_def root_lsetxattr_def root_xattr_calls_def split: option.splits)
    then show ?thesis using w1 confined_inode[OF _ i] by (auto simp: confined_fs_def)
  qed
qed

lemmas root_calls_def = root_lstat_def root_stat_def root_mkdir_def root_symlink_def root_open_write_def root_create_def root_chmod_def
  root_set_times_def root_lchown_def root_chtimes_def

lemma calls_keep:
  "keeps (confined_fs gs dk0) (root_lstat env h name)" "keeps (confined_fs gs dk0) (root_stat env h name)"
  "keeps (confined_fs gs dk0) (root_mkdir env h name m)" "keeps (confined_fs gs dk0) (root_symlink env h target name)"
  "keeps (confined_fs gs dk0) (root_open_write env h name)" "keeps (confined_fs gs dk0) (root_create env h name m)"
  "keeps (confined_fs gs dk0) (root_chmod env h name m)" "keeps (confined_fs gs dk0) (root_chtimes env h name t)"
  "keeps (confined_fs gs dk0) (root_lchown env h name uid gid)"
  unfolding root_calls_def[abs_def] by (rule root_call_keeps, simp)+

lemma more_calls_keep:
  "keeps (confined_fs gs dk0) (root_link env h old name)" "keeps (confined_fs gs dk0) (root_rename env h old name)"
  "keeps (confined_fs gs dk0) (root_mknod env h name kind m dev)" "keeps (confined_fs gs dk0) (root_lchtimes env h name t)"
  unfolding root_link_def[abs_def] root_rename_def[abs_def] root_mknod_def[abs_def] root_lchtimes_def[abs_def]
  by (rule root_call2_keeps, erule (3) link_confined, rule root_call2_keeps, erule (3) rename_confined)
    (rule parent_call_keeps, simp)+

section \<open>The operations of the writer\<close>

lemma wrap_err_snd [simp]: "snd (wrap_err msg m) = snd m"
  by (auto simp: wrap_err_def split: prod.splits sum.splits)

lemma keeps_snd: "keeps P f \<Longrightarrow> P w \<Longrightarrow> P (snd (f w))"
  by (simp add: keeps_def)

lemma try_bind_keeps: "P (snd m) \<Longrightarrow> (\<And>x s. P s \<Longrightarrow> P (snd (f x s))) \<Longrightarrow> P (snd (try_bind m f))"
  by (auto simp: try_bind_def split: prod.splits sum.splits)

definition ops_keep :: "('w \<Rightarrow> bool) \<Rightarrow> 'w wr_ops \<Rightarrow> bool" where
  "ops_keep P ops \<longleftrightarrow> (\<forall>bs. keeps P (fst ops bs)) \<and> keeps P (snd ops)"

lemma run_ops_keeps:
  assumes "ops_keep P ops" "P w"
  shows "P (snd (run_ops ops xs w))"
  using assms(2)
proof (induction xs arbitrary: w)
  case (Cons x xs)
  have w: "P (snd (fst ops bs w))" "P (snd (snd ops w))" for bs using assms(1) Cons.prems by (auto simp: ops_keep_def keeps_def)
  show ?case
  proof (cases x)
    case (WrWrite bs)
    show ?thesis unfolding WrWrite run_ops.simps by (rule try_bind_keeps[where P = P, OF w(1)]) (rule Cons.IH)
  next
    case WrClose
    show ?thesis unfolding WrClose run_ops.simps by (rule try_bind_keeps[where P = P, OF w(2)]) (rule Cons.IH)
  qed
qed simp

lemma run_callback_keeps: "ops_keep P ops \<Longrightarrow> P w \<Longrightarrow> P (snd (run_callback prog ops w))"
  unfolding run_callback_def by (rule try_bind_keeps[where P = P]) (simp_all add: run_ops_keeps)

lemma hashed_ops_keep:
  assumes "ops_keep P ops"
  shows "ops_keep (\<lambda>whd. P (fst whd)) (hashed_write (Some ops), hashed_close digest (Some ops))"
  unfolding ops_keep_def fst_conv snd_conv
proof (intro conjI allI)
  have w: "P (snd (fst ops bs w))" "P (snd (snd ops w))" if "P w" for bs w using assms that by (auto simp: ops_keep_def keeps_def)
  show "keeps (\<lambda>whd. P (fst whd)) (hashed_write (Some ops) bs)" for bs
  proof (rule keepsI)
    fix whd r whd' assume h: "hashed_write (Some ops) bs whd = (r, whd')" and "P (fst whd)"
    then show "P (fst whd')" using w(1)[of "fst whd" bs]
      by (cases whd; cases "fst ops bs (fst whd)") (auto simp: hashed_write_def split: sum.splits)
  qed
  show "keeps (\<lambda>whd. P (fst whd)) (hashed_close digest (Some ops))"
  proof (rule keepsI)
    fix whd r whd' assume h: "hashed_close digest (Some ops) whd = (r, whd')" and "P (fst whd)"
    then show "P (fst whd')" using w(2)[of "fst whd"]
      by (cases whd; cases "snd ops (fst whd)") (auto simp: hashed_close_def)
  qed
qed

lemma process_change_keeps:
  assumes "process_change env opt kind p fi (Some ops) (notes, w) = (r, (notes', w'))" "ops_keep P ops" "P w"
  shows "P w'"
proof (cases "dwo_notify_cb opt")
  case None
  then show ?thesis using assms(1) run_callback_keeps[OF assms(2,3), of "data_cb opt p"]
    by (auto simp: process_change_def split: prod.splits)
next
  case (Some notify)
  show ?thesis
  proof (cases "new_hash_writer opt fi")
    case (Inl e)
    then show ?thesis using assms(1,3) Some by (simp add: process_change_def)
  next
    case (Inr sh)
    obtain st h where sh: "sh = (st, h)" by fastforce
    obtain q w1 h1 d1 where c: "run_callback (data_cb opt p) (hashed_write (Some ops), hashed_close (we_digest env) (Some ops)) (w, h, []) = (q, (w1, h1, d1))"
      by (metis prod_cases4)
    have "P w1" using run_callback_keeps[OF hashed_ops_keep[OF assms(2)], of "(w, h, [])" "data_cb opt p" "we_digest env"] assms(3) c by simp
    then show ?thesis using assms(1) Some Inr sh c by (auto simp: process_change_def split: sum.splits)
  qed
qed

definition confined_writer :: "vpath \<Rightarrow> disk \<Rightarrow> root_writer \<Rightarrow> bool" where
  "confined_writer gs dk0 rt \<longleftrightarrow> confined_fs gs dk0 (rt_fs rt)"

lemma confined_writer_simps [simp]:
  "confined_writer gs dk0 (rt\<lparr>rt_notes := ns\<rparr>) = confined_writer gs dk0 rt" "confined_writer gs dk0 (rt\<lparr>rt_done := b\<rparr>) = confined_writer gs dk0 rt"
  "confined_writer gs dk0 (rt\<lparr>rt_dir_mod_times := t\<rparr>) = confined_writer gs dk0 rt" "confined_writer gs dk0 (rt\<lparr>rt_rand := x\<rparr>) = confined_writer gs dk0 rt"
  "confined_writer gs dk0 (rt\<lparr>rt_tasks := ts\<rparr>) = confined_writer gs dk0 rt" "confined_writer gs dk0 (rt\<lparr>rt_stack := xs\<rparr>) = confined_writer gs dk0 rt"
  "confined_writer gs dk0 (rt\<lparr>rt_cache := c\<rparr>) = confined_writer gs dk0 rt" "confined_writer gs dk0 (rt\<lparr>rt_fs := fs\<rparr>) = confined_fs gs dk0 fs"
  by (simp_all add: confined_writer_def)

lemma on_fs_keeps:
  assumes "keeps (confined_fs gs dk0) f" "confined_writer gs dk0 rt"
  shows "confined_writer gs dk0 (snd (on_fs f rt))"
proof (cases "f (rt_fs rt)")
  case (Pair r fs)
  have "confined_fs gs dk0 fs" using keepsD[OF assms(1) Pair] assms(2) by (simp add: confined_writer_def)
  then show ?thesis using Pair by (simp add: on_fs_def)
qed

lemma file_write_confined: "file_write env fd bs dk = (r, dk') \<Longrightarrow> confined gs dk0 dk \<Longrightarrow> confined gs dk0 dk'"
proof -
  assume f: "file_write env fd bs dk = (r, dk')" and c: "confined gs dk0 dk"
  show ?thesis
  proof (cases "dk' = dk")
    case False
    then obtain i off where i: "dk_fds dk fd = Some (i, off)"
      "dk' = set_inode i (\<lambda>n. n\<lparr>in_data := write_at off bs (in_data n), in_mtime := dk_clock dk\<rparr>) (dk\<lparr>dk_fds := (dk_fds dk)(fd \<mapsto> (i, off + length bs))\<rparr>)"
      using f by (auto simp: file_write_def split: option.splits)
    have out: "i \<notin> outer gs dk0" by (rule confinedD(5)[OF c i(1)])
    have "confined gs dk0 (dk\<lparr>dk_fds := (dk_fds dk)(fd \<mapsto> (i, off + length bs))\<rparr>)"
      using c out unfolding confined_def by (auto split: if_splits)
    then show ?thesis using confined_inode[OF _ out] i(2) by simp
  qed (use c in simp)
qed

lemma file_close_confined:
  assumes "file_close env fd dk = (r, dk')" "confined gs dk0 dk"
  shows "confined gs dk0 dk'"
proof (cases "dk' = dk")
  case False
  then have "dk' = dk\<lparr>dk_fds := (dk_fds dk)(fd := None)\<rparr>" using assms(1) by (auto simp: file_close_def split: option.splits)
  then show ?thesis using assms(2) unfolding confined_def by (auto split: if_splits)
qed (use assms in simp)

lemma on_file_keeps:
  "keeps (confined_fs gs dk0) (on_file (file_write env fd bs))" "keeps (confined_fs gs dk0) (on_file (file_close env fd))"
  by (rule keepsI; auto simp: on_file_def confined_fs_def split: prod.splits dest: file_write_confined file_close_confined)+

lemma set_root_xattrs_confined: "confined_fs gs dk0 fs \<Longrightarrow> confined_fs gs dk0 (set_root_xattrs env h p xs fs)"
proof (induction xs arbitrary: fs)
  case (Cons x xs)
  obtain key val where x: "x = (key, val)" by (cases x)
  have "confined_fs gs dk0 (snd (root_set_xattr env h p key val fs))"
    using root_set_xattr_keeps Cons.prems by (auto simp: keeps_def)
  then show ?case using Cons.IH x by simp
qed simp

lemma rewrite_root_metadata_keeps: "keeps (confined_fs gs dk0) (rewrite_root_metadata env h p st)"
  unfolding keeps_def
proof (intro allI impI)
  fix fs assume fs: "confined_fs gs dk0 fs"
  have o: "confined_fs gs dk0 (snd (root_lchown env h p (st_uid st) (st_gid st) (set_root_xattrs env h p (st_xattrs st) fs)))"
    by (rule keeps_snd[OF calls_keep(9) set_root_xattrs_confined[OF fs]])
  show "confined_fs gs dk0 (snd (rewrite_root_metadata env h p st fs))"
    unfolding rewrite_root_metadata_def
  proof (rule try_bind_keeps[where P = "confined_fs gs dk0", OF o])
    fix x :: unit and fs assume fs: "confined_fs gs dk0 fs"
    have "confined_fs gs dk0 (snd (try_bind (root_chmod env h p (st_mode st) fs) (\<lambda>_ fs. root_chtimes env h p (st_modtime st) fs)))"
      by (rule try_bind_keeps[where P = "confined_fs gs dk0", OF keeps_snd[OF calls_keep(7) fs]]) (rule keeps_snd[OF calls_keep(8)])
    moreover have "confined_fs gs dk0 (snd (root_lchtimes env h p (st_modtime st) fs))" by (rule keeps_snd[OF more_calls_keep(4) fs])
    ultimately show "confined_fs gs dk0 (snd (if has_mode (st_mode st) mode_symlink then root_lchtimes env h p (st_modtime st) fs
        else try_bind (root_chmod env h p (st_mode st) fs) (\<lambda>_ fs. root_chtimes env h p (st_modtime st) fs)))"
      by simp
  qed
qed

lemma root_special_keeps: "keeps (confined_fs gs dk0) (handle_root_special env h p st)"
  unfolding handle_root_special_def[abs_def] by (rule more_calls_keep)

lemma root_move_keeps: "keeps (confined_fs gs dk0) (root_move env h new_path b dest st old)"
  unfolding keeps_def
proof (intro allI impI)
  fix fs assume fs: "confined_fs gs dk0 fs"
  show "confined_fs gs dk0 (snd (root_move env h new_path b dest st old fs))"
  proof (cases old)
    case None
    then show ?thesis using fs by (simp add: root_move_def)
  next
    case (Some i)
    have "confined_fs gs dk0 (snd (if mode_is_dir (in_mode i) \<noteq> stat_is_dir st then
        wrap_err (''failed to remove '' @ dest) (root_remove_all env h b fs) else (Inr (), fs)))"
      using keeps_snd[OF root_remove_all_keeps fs] fs by simp
    then show ?thesis
      unfolding root_move_def Some option.case
      by (rule try_bind_keeps[where P = "confined_fs gs dk0"]) (simp add: keeps_snd[OF more_calls_keep(2)])
  qed
qed

lemma root_lazy_open_confined:
  assumes "root_lazy_open env (lw, fs) = (r, (lw', fs'))" "confined_fs gs dk0 fs"
  shows "confined_fs gs dk0 fs'"
proof -
  define h b where "h = rl_root (rz_lease lw)" and "b = rl_base (rz_lease lw)"
  obtain r1 fs1 where 1: "root_open_write env h b fs = (r1, fs1)" by fastforce
  have c1: "confined_fs gs dk0 fs1" by (rule keepsD[OF calls_keep(5) 1 assms(2)])
  obtain r2 fs2 where 2: "root_stat env h b fs1 = (r2, fs2)" by fastforce
  have c2: "confined_fs gs dk0 fs2" by (rule keepsD[OF calls_keep(2) 2 c1])
  note lo = root_lazy_open_def prod.case Let_def h_def[symmetric] b_def[symmetric]
  show ?thesis
  proof (cases "\<exists>e i. r1 = Inl e \<and> is_permission e \<and> r2 = Inr i")
    case True
    then obtain e i where r: "r1 = Inl e" "is_permission e" "r2 = Inr i" by blast
    obtain r3 fs3 where 3: "root_chmod env h b (in_mode i OR 0x92) fs2 = (r3, fs3)" by fastforce
    have c3: "confined_fs gs dk0 fs3" by (rule keepsD[OF calls_keep(7) 3 c2])
    obtain r4 fs4 where 4: "root_open_write env h b fs3 = (r4, fs4)" by fastforce
    have c4: "confined_fs gs dk0 fs4" by (rule keepsD[OF calls_keep(5) 4 c3])
    have "fs' = fs3 \<or> fs' = fs4" using assms(1) 1 2 3 4 r unfolding lo by (cases r3) auto
    then show ?thesis using c3 c4 by blast
  next
    case False
    then have "fs' = fs1 \<or> fs' = fs2" using assms(1) 1 2 unfolding lo by (cases r1; cases r2) (auto split: if_splits)
    then show ?thesis using c1 c2 by blast
  qed
qed

lemma root_lazy_write_keeps: "keeps (\<lambda>lwf. confined_fs gs dk0 (snd lwf)) (root_lazy_write env bs)"
proof (rule keepsI)
  fix lwf r lwf' assume h: "root_lazy_write env bs lwf = (r, lwf')" and c: "confined_fs gs dk0 (snd lwf)"
  define got where "got = (case rz_fd (fst lwf) of Some fd \<Rightarrow> (Inr fd, lwf)
    | None \<Rightarrow> wrap_err (''failed to open '' @ rl_base (rz_lease (fst lwf))) (root_lazy_open env lwf))"
  obtain q lw1 fs1 where g: "got = (q, (lw1, fs1))" by (metis prod_cases3)
  have c1: "confined_fs gs dk0 fs1"
  proof (cases "rz_fd (fst lwf)")
    case None
    then have "snd (root_lazy_open env (fst lwf, snd lwf)) = (lw1, fs1)" using g by (simp add: got_def) (metis snd_conv wrap_err_snd)
    then show ?thesis using root_lazy_open_confined[OF _ c] by (metis prod.collapse)
  next
    case (Some fd)
    then show ?thesis using g c by (auto simp: got_def)
  qed
  have h': "root_lazy_write env bs lwf = (case got of (Inl e, lwf) \<Rightarrow> (Inl e, lwf)
      | (Inr fd, (lw, fs)) \<Rightarrow> (case on_file (file_write env fd bs) fs of (r, fs) \<Rightarrow> (r, (lw\<lparr>rz_fd := Some fd\<rparr>, fs))))"
    by (simp add: root_lazy_write_def got_def)
  show "confined_fs gs dk0 (snd lwf')"
  proof (cases q)
    case (Inl e)
    then show ?thesis using h h' g c1 by auto
  next
    case (Inr fd)
    obtain r2 fs2 where f: "on_file (file_write env fd bs) fs1 = (r2, fs2)" by fastforce
    have "confined_fs gs dk0 fs2" by (rule keepsD[OF on_file_keeps(1) f c1])
    then show ?thesis using h h' g Inr f by auto
  qed
qed

lemma root_lazy_close_keeps: "keeps (\<lambda>lwf. confined_fs gs dk0 (snd lwf)) (root_lazy_close env)"
proof (rule keepsI)
  fix lwf r lwf' assume h: "root_lazy_close env lwf = (r, lwf')" and c: "confined_fs gs dk0 (snd lwf)"
  obtain lw fs where l: "lwf = (lw, fs)" by (cases lwf)
  define cl where "cl = (case rz_fd lw of None \<Rightarrow> (Inr (), fs) | Some fd \<Rightarrow> on_file (file_close env fd) fs)"
  have c1: "confined_fs gs dk0 (snd cl)" using c l keeps_snd[OF on_file_keeps(2)] by (simp add: cl_def split: option.splits)
  have c2: "confined_fs gs dk0 (snd (root_chmod env hd b m (snd cl)))" for hd b m by (rule keeps_snd[OF calls_keep(7) c1])
  have "snd lwf' = fs \<or> snd lwf' = snd cl \<or> (\<exists>hd b m. snd lwf' = snd (root_chmod env hd b m (snd cl)))"
  proof (cases "rz_closed lw")
    case True
    then show ?thesis using h l by (auto simp: root_lazy_close_def)
  next
    case False
    obtain q fs1 where q: "cl = (q, fs1)" by fastforce
    show ?thesis
    proof (cases q)
      case (Inl e)
      then show ?thesis using h l False q by (auto simp: root_lazy_close_def cl_def)
    next
      case (Inr u)
      show ?thesis
      proof (cases "rz_mode lw")
        case None
        then show ?thesis using h l False q Inr by (auto simp: root_lazy_close_def cl_def)
      next
        case (Some m)
        then have "snd lwf' = snd (root_chmod env (rl_root (rz_lease lw)) (rl_base (rz_lease lw)) m (snd cl))"
          using h l False q Inr by (auto simp: root_lazy_close_def cl_def split: prod.splits)
        then show ?thesis by blast
      qed
    qed
  qed
  then show "confined_fs gs dk0 (snd lwf')" using c l c1 c2 by auto
qed

lemma root_lazy_keeps: "ops_keep (\<lambda>lwf. confined_fs gs dk0 (snd lwf)) (root_lazy_write env, root_lazy_close env)"
  by (simp add: ops_keep_def root_lazy_write_keeps root_lazy_close_keeps)

end
