(* ===== verification/Root_Safety.thy ===== *)
theory Root_Safety
  imports Root_Confined
begin

text \<open>
  The operations of the root writer keep the disk confined: the steps of \<open>HandleChange\<close>, the stack and the cache, the data of
  a requested file and \<open>Wait\<close>; and so does any sequence of them.
\<close>

section \<open>One change\<close>

abbreviation cw :: "vpath \<Rightarrow> disk \<Rightarrow> root_writer \<Rightarrow> bool" where
  "cw \<equiv> confined_writer"

lemma try_bind_cw: "cw gs dk0 (snd m) \<Longrightarrow> (\<And>x s. cw gs dk0 s \<Longrightarrow> cw gs dk0 (snd (f x s))) \<Longrightarrow> cw gs dk0 (snd (try_bind m f))"
  by (rule try_bind_keeps)

lemma root_file_ops_keep: "ops_keep (confined_fs gs dk0) (root_file_ops env fd)"
  by (simp add: ops_keep_def root_file_ops_def on_file_keeps)

lemma root_delete_cw:
  assumes "cw gs dk0 rt"
  shows "cw gs dk0 (snd (root_delete env p dest h b rt))"
proof (cases "fst (root_filter rt p empty_stat)")
  case True
  show ?thesis unfolding root_delete_def if_not_P[OF iffD2[OF not_not True]]
    by (rule try_bind_cw) (simp_all add: on_fs_keeps[OF root_remove_all_keeps assms] split: option.split)
qed (use assms in \<open>simp add: root_delete_def\<close>)

lemma root_make_regular_cw:
  assumes "cw gs dk0 rt"
  shows "cw gs dk0 (snd (root_make_regular env p st h new_path rt))"
  unfolding root_make_regular_def
proof (rule try_bind_cw)
  show "cw gs dk0 (snd (wrap_err (''failed to create '' @ new_path) (on_fs (root_create (we_disk env) h new_path (st_mode st AND mode_perm)) rt)))"
    by (simp add: on_fs_keeps[OF calls_keep(6) assms])
  fix fd rt assume rt: "cw gs dk0 rt"
  have c: "confined_fs gs dk0 (rt_fs rt)" using rt by (simp add: confined_writer_def)
  show "cw gs dk0 (snd (try_bind
      (if dwo_sync_data_cb (rt_opt rt) \<noteq> None then
         (case root_process_change env (rt_opt rt) ChangeKindAdd p (StatInfo st) (Some (root_file_ops (we_disk env) fd)) (rt_notes rt, rt_fs rt) of
            (Inl e, (notes, fs)) \<Rightarrow> (Inl e, rt\<lparr>rt_notes := notes, rt_fs := snd (on_file (file_close (we_disk env) fd) fs)\<rparr>)
          | (Inr _, (notes, fs)) \<Rightarrow> (Inr (), rt\<lparr>rt_notes := notes, rt_fs := fs\<rparr>))
       else (Inr (), rt))
      (\<lambda>_ rt. wrap_err (''failed to close '' @ new_path) (on_fs (on_file (file_close (we_disk env) fd)) rt))))"
  proof (rule try_bind_cw)
    obtain r ns fs where pc: "process_change env (rt_opt rt) ChangeKindAdd p (StatInfo st) (Some (root_file_ops (we_disk env) fd)) (rt_notes rt, rt_fs rt)
      = (r, (ns, fs))" by (metis prod_cases3)
    have fs: "confined_fs gs dk0 fs" by (rule process_change_keeps[OF pc root_file_ops_keep c])
    show "cw gs dk0 (snd (if dwo_sync_data_cb (rt_opt rt) \<noteq> None then
         (case root_process_change env (rt_opt rt) ChangeKindAdd p (StatInfo st) (Some (root_file_ops (we_disk env) fd)) (rt_notes rt, rt_fs rt) of
            (Inl e, (notes, fs)) \<Rightarrow> (Inl e, rt\<lparr>rt_notes := notes, rt_fs := snd (on_file (file_close (we_disk env) fd) fs)\<rparr>)
          | (Inr _, (notes, fs)) \<Rightarrow> (Inr (), rt\<lparr>rt_notes := notes, rt_fs := fs\<rparr>))
       else (Inr (), rt)))"
      using pc fs rt keeps_snd[OF on_file_keeps(2) fs] by (simp add: root_process_change_def split: sum.split)
  qed (simp add: on_fs_keeps[OF on_file_keeps(2)])
qed

lemma root_make_of_cw: "snd (root_make_of regular m) = snd m"
  by (auto simp: root_make_of_def split: prod.splits sum.splits)

lemma root_make_node_cw:
  assumes "cw gs dk0 rt"
  shows "cw gs dk0 (snd (root_make_node env p dest st copy h rename new_path rt))"
proof (cases "stat_is_dir st")
  case True
  obtain r rt' where m: "on_fs (root_mkdir (we_disk env) h new_path (st_mode st AND mode_perm)) rt = (r, rt')" by fastforce
  have "cw gs dk0 rt'" using on_fs_keeps[OF calls_keep(3) assms, of "we_disk env" h new_path "st_mode st AND mode_perm"] m by simp
  then show ?thesis using True m by (cases r) (simp_all add: root_make_node_def)
next
  case False
  then show ?thesis
    using assms on_fs_keeps[OF root_special_keeps] on_fs_keeps[OF calls_keep(4)] on_fs_keeps[OF more_calls_keep(1)] root_make_regular_cw
    by (simp add: root_make_node_def root_make_of_cw)
qed

lemma root_report_cw:
  assumes "cw gs dk0 rt"
  shows "cw gs dk0 (snd (root_report env kind p dest st copy regular rt))"
proof -
  obtain q ns fs where pc: "process_change env (rt_opt rt) kind p (StatInfo st) (None :: root_fs wr_ops option) (rt_notes rt, rt_fs rt) = (q, (ns, fs))"
    by (metis prod_cases3)
  then have "fs = rt_fs rt" by (rule process_change_none)
  then show ?thesis using assms pc by (simp add: root_report_def root_process_change_def confined_writer_def)
qed

lemma root_finish_cw:
  assumes "cw gs dk0 rt"
  shows "cw gs dk0 (snd (root_finish env kind p dest st copy h new_path b old regular rt))"
  unfolding root_finish_def
proof (rule try_bind_cw)
  show "cw gs dk0 (snd (wrap_err (''error setting metadata for '' @ new_path) (on_fs (rewrite_root_metadata (we_disk env) h new_path copy) rt)))"
    by (simp add: on_fs_keeps[OF rewrite_root_metadata_keeps assms])
  fix u rt assume rt: "cw gs dk0 rt"
  show "cw gs dk0 (snd (try_bind (on_fs (root_move (we_disk env) h new_path b dest st old) rt) (\<lambda>_ rt. root_report env kind p dest st copy regular rt)))"
    by (rule try_bind_cw[OF on_fs_keeps[OF root_move_keeps rt]]) (rule root_report_cw)
qed

lemma root_make_change_cw:
  assumes "cw gs dk0 rt"
  shows "cw gs dk0 (snd (root_make_change env kind p dest st copy h old b new_path rt))"
proof -
  obtain m rt' where m: "root_make_node env p dest st copy h (old \<noteq> None) new_path rt = (m, rt')" by fastforce
  have rt': "cw gs dk0 rt'" using root_make_node_cw[OF assms] m by (metis snd_conv)
  show ?thesis
  proof (cases m)
    case (MakeOk regular)
    have "snd (root_make_change env kind p dest st copy h old b new_path rt) = snd (root_finish env kind p dest st copy h new_path b old regular rt')"
      using m MakeOk by (simp add: root_make_change_def split: prod.split)
    then show ?thesis using root_finish_cw[OF rt'] by simp
  qed (use m rt' in \<open>simp_all add: root_make_change_def\<close>)
qed

lemma root_apply_stat_cw:
  assumes "cw gs dk0 rt"
  shows "cw gs dk0 (snd (root_apply_stat env kind p dest st copy h b rt))"
proof -
  obtain q rt1 where l: "root_look_at (we_disk env) kind h b rt = (q, rt1)" by fastforce
  have 1: "cw gs dk0 rt1"
  proof -
    obtain r rt' where o: "on_fs (root_lstat (we_disk env) h b) rt = (r, rt')" by fastforce
    have "cw gs dk0 rt'" using on_fs_keeps[OF calls_keep(1) assms, of "we_disk env" h b] o by simp
    moreover have "rt1 = rt'" using l o by (cases r) (auto simp: root_look_at_def)
    ultimately show ?thesis by simp
  qed
  have m: "cw gs dk0 (snd (wrap_err msg (on_fs (rewrite_root_metadata (we_disk env) h b copy) rt1)))" for msg
    by (simp add: on_fs_keeps[OF rewrite_root_metadata_keeps 1])
  have pl: "cw gs dk0 (snd (root_place_change env kind p dest st copy h b old rt1))" for old
    using 1 by (simp add: root_place_change_def root_make_change_cw split: prod.split)
  show ?thesis
  proof (cases q)
    case (Inl e)
    then show ?thesis using l 1 by (simp add: root_apply_stat_def)
  next
    case (Inr old)
    show ?thesis
    proof (cases "case old of None \<Rightarrow> False | Some i \<Rightarrow> stat_is_dir st \<and> mode_is_dir (in_mode i)")
      case True
      obtain r rt2 where w: "wrap_err (''error setting dir metadata for '' @ dest) (on_fs (rewrite_root_metadata (we_disk env) h b copy) rt1) = (r, rt2)"
        by fastforce
      then show ?thesis using l Inr True m[of "''error setting dir metadata for '' @ dest"] by (simp add: root_apply_stat_def)
    next
      case False
      then show ?thesis using l Inr pl by (simp add: root_apply_stat_def)
    qed
  qed
qed

section \<open>The stack and the cache\<close>

lemma stack_loop_keeps:
  assumes "stack_loop opn close d b items w = (r, items', w')" "P w"
    and "\<And>h name w h' w'. opn h name w = Inr (h', w') \<Longrightarrow> P w \<Longrightarrow> P w'" "\<And>h. keeps P (close h)"
  shows "P w'"
  using assms(1,2)
proof (induction opn\<equiv>opn close\<equiv>close d b items w arbitrary: r items' w' rule: stack_loop.induct)
  case (1 d b items w)
  have pop: "P w1" if "stack_pop close items w = (e, items1, w1)" for e items1 w1
  proof -
    have "P (snd (close (snd (items ! (length items - 1))) w))" by (rule keeps_snd[OF assms(4) 1(3)])
    then show ?thesis using that by (auto simp: stack_pop_def Let_def split: prod.splits)
  qed
  show ?case using 1(2,3) by (subst (asm) stack_loop.simps)
      (auto simp: Let_def split: if_splits option.splits sum.splits prod.splits dest: pop intro: 1(1) assms(3)[OF _ 1(3)])
qed

lemma stack_get_keeps:
  assumes "stack_get (dir_open env) (dir_close env) p items w = (r, items', w')" "confined_fs gs dk0 w"
  shows "confined_fs gs dk0 w'"
  using assms(1) unfolding stack_get_def Let_def
  by (rule stack_loop_keeps[where P = "confined_fs gs dk0"]) (use assms(2) dir_open_confined dir_close_keeps in blast)+

lemma stack_close_keeps:
  assumes "stack_close close err items w = (e, items', w')" "P w" "\<And>h. keeps P (close h)"
  shows "P w'"
  using assms(1,2)
proof (induction close\<equiv>close err items w arbitrary: e items' w' rule: stack_close.induct)
  case (1 err items w)
  have pop: "P w1" if "stack_pop close items w = (e, items1, w1)" for e items1 w1
  proof -
    have "P (snd (close (snd (items ! (length items - 1))) w))" by (rule keeps_snd[OF assms(3) 1(3)])
    then show ?thesis using that by (auto simp: stack_pop_def Let_def split: prod.splits)
  qed
  show ?case using 1(2,3) by (subst (asm) stack_close.simps) (auto split: if_splits prod.splits dest: pop intro: 1(1))
qed

lemma close_cache_entry_keeps:
  assumes "close_cache_entry close e c w = (err, c', w')" "P w" "\<And>h. keeps P (close h)"
  shows "P w'"
  using assms(1) keeps_snd[OF assms(3,2), of "ce_root (rc_heap c ! e)"] assms(2)
  by (auto simp: close_cache_entry_def Let_def split: if_splits prod.splits option.splits)

lemma cache_evict_keeps:
  assumes "cache_evict close c w = (c', w')" "P w" "\<And>h. keeps P (close h)"
  shows "P w'"
  using assms(1,2)
proof (induction close\<equiv>close c w arbitrary: c' w' rule: cache_evict.induct)
  case (1 c w)
  show ?case
  proof (cases "int (length (rc_entries c)) - 1 > rc_max c \<and> rc_lru c \<noteq> []")
    case False
    have "cache_evict close c w = (c, w)" unfolding cache_evict.simps[of close c w] by (rule if_not_P[OF False])
    then show ?thesis using 1(3,4) by simp
  next
    case True
    define e where "e = last (rc_lru c)"
    define c1 where "c1 = cache_drop e (ce_path (rc_heap c ! e)) c"
    obtain err c2 w2 where cl: "close_cache_entry close e c1 w = (err, c2, w2)" by (metis prod_cases3)
    have w2: "P w2" by (rule close_cache_entry_keeps[OF cl 1(4) assms(3)])
    show ?thesis
    proof (cases "ce_refs (rc_heap c1 ! e) = 0")
      case zero: True
      then have "cache_evict close (set_entry e ((rc_heap c2 ! e)\<lparr>ce_close_err := err\<rparr>) c2) w2 = (c', w')"
        using 1(3) True cl by (simp add: cache_evict.simps[of close c w] Let_def e_def[symmetric] c1_def[symmetric])
      then show ?thesis using 1(1)[OF True e_def c1_def zero cl[symmetric] refl] w2 by blast
    next
      case False
      then have "cache_evict close c1 w = (c', w')"
        using 1(3) True by (simp add: cache_evict.simps[of close c w] Let_def e_def[symmetric] c1_def[symmetric])
      then show ?thesis using 1(2)[OF True e_def c1_def False] 1(4) by blast
    qed
  qed
qed

lemma cache_walk_keeps:
  assumes "cache_walk opn close xs e p c w = (r, c', w')" "P w"
    and "\<And>h name w h' w'. opn h name w = Inr (h', w') \<Longrightarrow> P w \<Longrightarrow> P w'" "\<And>h. keeps P (close h)"
  shows "P w'"
  using assms(1,2)
proof (induction xs arbitrary: e p c w)
  case (Cons x xs)
  note ev = cache_evict_keeps[OF _ _ assms(4)]
  show ?case using Cons.prems
    by (auto simp: Let_def split: option.splits if_splits sum.splits prod.splits intro: Cons.IH assms(3) dest: ev)
qed simp

lemma cache_get_keeps:
  assumes "cache_get (dir_open env) (dir_close env) p c w = (r, c', w')" "confined_fs gs dk0 w"
  shows "confined_fs gs dk0 w'"
proof -
  have wk: "confined_fs gs dk0 w1" if "cache_walk (dir_open env) (dir_close env) xs e q c w = (r1, c1, w1)" for xs e q r1 c1 w1
    by (rule cache_walk_keeps[where P = "confined_fs gs dk0", OF that assms(2)]) (use dir_open_confined dir_close_keeps in blast)+
  obtain r1 c1 w1 where g: "cache_get_dir (dir_open env) (dir_close env) (dir (clean_root_path p)) c w = (r1, c1, w1)" by (metis prod_cases3)
  have "confined_fs gs dk0 w1" using g assms(2) wk by (auto simp: cache_get_dir_def split: option.splits if_splits)
  then show ?thesis using assms g by (cases r1) (auto simp: cache_get_def Let_def split: if_splits)
qed

lemma cache_close_loop_keeps:
  assumes "cache_close_loop close ps err c w = (e, c', w')" "P w" "\<And>h. keeps P (close h)"
  shows "P w'"
  using assms(1,2)
proof (induction ps arbitrary: err c w)
  case (Cons p ps)
  note cl = close_cache_entry_keeps[OF _ _ assms(3)]
  show ?case using Cons.prems
    by (auto simp: Let_def split: option.splits if_splits prod.splits intro: Cons.IH dest: cl)
qed simp

lemma lease_release_keeps:
  assumes "lease_release close l c w = (e, l', c', w')" "P w" "\<And>h. keeps P (close h)"
  shows "P w'"
  using assms(1,2) close_cache_entry_keeps[OF _ _ assms(3)]
  by (auto simp: lease_release_def Let_def split: if_splits prod.splits)

section \<open>Whole operations\<close>

lemma root_change_body_cw:
  assumes "cw gs dk0 rt"
  shows "cw gs dk0 (snd (root_change_body env kind p fi rt))"
proof -
  obtain got items fs where g: "stack_get (dir_open (we_disk env)) (dir_close (we_disk env)) (clean_root_path p) (rt_stack rt) (rt_fs rt) = (got, items, fs)"
    by (metis prod_cases3)
  have fs: "confined_fs gs dk0 fs" by (rule stack_get_keeps[OF g]) (use assms in \<open>simp add: confined_writer_def\<close>)
  let ?rt = "rt\<lparr>rt_stack := items, rt_fs := fs\<rparr>"
  have rt: "cw gs dk0 ?rt" using fs by simp
  show ?thesis
  proof (cases got)
    case (Inl e)
    then show ?thesis using g rt by (simp add: root_change_body_def Let_def)
  next
    case (Inr hb)
    obtain h b where hb: "hb = (h, b)" by fastforce
    have d: "cw gs dk0 (snd (root_delete env p (clean_root_path p) h b ?rt))" by (rule root_delete_cw[OF rt])
    have a: "cw gs dk0 (snd (root_apply_stat env kind p (clean_root_path p) st copy h b ?rt))" for st copy by (rule root_apply_stat_cw[OF rt])
    obtain r1 rt1 where d1: "root_delete env p (clean_root_path p) h b ?rt = (r1, rt1)" by fastforce
    show ?thesis
    proof (cases "kind = ChangeKindDelete")
      case True
      then show ?thesis using g Inr hb d d1 by (simp add: root_change_body_def Let_def)
    next
      case False
      show ?thesis
      proof (cases fi)
        case (StatInfo st)
        obtain ok copy where f: "root_filter ?rt p (the (clone_vt (Some st))) = (ok, copy)" by fastforce
        then have "snd (root_change_body env kind p fi rt) = (if \<not> ok then ?rt else snd (root_apply_stat env kind p (clean_root_path p) st copy h b ?rt))"
          using g Inr hb False StatInfo by (simp add: root_change_body_def Let_def)
        then show ?thesis using rt a by simp
      qed (use g Inr hb False rt in \<open>simp_all add: root_change_body_def Let_def\<close>)
    qed
  qed
qed

lemma root_cancel_on_cw [simp]: "cw gs dk0 (snd (root_cancel_on m)) = cw gs dk0 (snd m)"
  by (auto simp: root_cancel_on_def split: prod.splits sum.splits)

lemma root_handle_change_cw:
  "root_handle_change n env kind p fi err rt = Some (r, rt') \<Longrightarrow> cw gs dk0 rt \<Longrightarrow> cw gs dk0 rt'"
proof (induction n arbitrary: err rt r rt')
  case (Suc n)
  show ?case
  proof (cases "err = None \<and> \<not> rt_done rt")
    case False
    then show ?thesis using Suc.prems by (auto split: option.splits if_splits)
  next
    case True
    obtain q rt1 where b: "root_change_body env kind p fi rt = (q, rt1)" by fastforce
    have rt1: "cw gs dk0 rt1" using root_change_body_cw[OF Suc.prems(2), of env kind p fi] b by simp
    have cancel: "cw gs dk0 rt'" if "root_cancel_on (r2, rt2) = (r, rt')" "cw gs dk0 rt2" for r2 rt2
      using root_cancel_on_cw[of gs dk0 "(r2, rt2)"] that by simp
    show ?thesis
    proof (cases q)
      case (Some r2)
      then have "root_cancel_on (r2, rt1) = (r, rt')" using Suc.prems(1) True b by simp
      then show ?thesis using cancel rt1 by blast
    next
      case None
      then obtain r2 rt2 where h: "root_handle_change n env kind p fi None rt1 = Some (r2, rt2)" "root_cancel_on (r2, rt2) = (r, rt')"
        using Suc.prems(1) True b by auto
      show ?thesis by (rule cancel[OF h(2) Suc.IH[OF h(1) rt1]])
    qed
  qed
qed simp

lemma root_task_data_cw:
  assumes "cw gs dk0 rt"
  shows "cw gs dk0 (snd (root_task_data env t lease rt))"
proof -
  obtain q ns lw fs where pc: "process_change env (rt_opt rt) ChangeKindAdd (dt_path t) (StatInfo (dt_fi t))
      (Some (root_lazy_write (we_disk env), root_lazy_close (we_disk env)))
      (rt_notes rt, (\<lparr>rz_lease = lease, rz_fd = None, rz_mode = None, rz_closed = False\<rparr>, rt_fs rt)) = (q, (ns, (lw, fs)))"
    by (metis prod_cases4)
  have fs: "confined_fs gs dk0 (snd (lw, fs))"
    by (rule process_change_keeps[OF pc root_lazy_keeps]) (use assms in \<open>simp add: confined_writer_def\<close>)
  show ?thesis
  proof (cases q)
    case (Inl e)
    then show ?thesis using pc keeps_snd[OF root_lazy_close_keeps fs] by (simp add: root_task_data_def root_process_change_def)
  next
    case (Inr u)
    have "cw gs dk0 (rt\<lparr>rt_notes := ns, rt_fs := fs\<rparr>)" using fs by simp
    from on_fs_keeps[OF calls_keep(8) this] show ?thesis using pc Inr by (simp add: root_task_data_def root_process_change_def)
  qed
qed

lemma run_root_task_cw:
  assumes "cw gs dk0 rt"
  shows "cw gs dk0 (snd (run_root_task env t rt))"
proof -
  obtain got c fs where g: "cache_get (dir_open (we_disk env)) (dir_close (we_disk env)) (dt_dest t) (rt_cache rt) (rt_fs rt) = (got, c, fs)"
    by (metis prod_cases3)
  have fs: "confined_fs gs dk0 fs" by (rule cache_get_keeps[OF g]) (use assms in \<open>simp add: confined_writer_def\<close>)
  show ?thesis
  proof (cases got)
    case (Inl e)
    then show ?thesis using g fs by (simp add: run_root_task_def)
  next
    case (Inr lease)
    obtain r rt1 where t: "root_task_data env t lease (rt\<lparr>rt_cache := c, rt_fs := fs\<rparr>) = (r, rt1)" by fastforce
    have rt1: "cw gs dk0 rt1" using root_task_data_cw[of gs dk0 "rt\<lparr>rt_cache := c, rt_fs := fs\<rparr>" env t lease] fs t by simp
    obtain e l c2 fs2 where l: "lease_release (dir_close (we_disk env)) lease (rt_cache rt1) (rt_fs rt1) = (e, l, c2, fs2)" by (metis prod_cases4)
    have "confined_fs gs dk0 fs2"
      by (rule lease_release_keeps[OF l]) (use rt1 dir_close_keeps in \<open>auto simp: confined_writer_def\<close>)
    then show ?thesis using g Inr t l by (simp add: run_root_task_def)
  qed
qed

lemma walk_node_keeps:
  fixes fn :: "'s os_walk_fn"
  assumes "\<And>path d err s. P s \<Longrightarrow> P (snd (fn path d err s))"
  shows "P s \<Longrightarrow> P (snd (walk_node fn path t s))" "P s \<Longrightarrow> P (snd (walk_nodes fn path ts s))"
proof (induction fn\<equiv>fn path t s and fn\<equiv>fn path ts s rule: walk_node_walk_nodes.induct)
  case (1 path name d read_err ts s)
  obtain err s1 where f: "fn path (Some d) None s = (err, s1)" by fastforce
  have s1: "P s1" using assms[OF 1(3), of path "Some d" None] f by simp
  show ?case
  proof (cases "err \<noteq> None \<or> \<not> od_is_dir d")
    case True
    then show ?thesis using f s1 by simp
  next
    case False
    show ?thesis
    proof (cases read_err)
      case None
      then show ?thesis using 1(1)[OF f[symmetric] False None s1] f False by simp
    next
      case (Some e)
      obtain err2 s2 where f2: "fn path (Some d) (Some e) s1 = (err2, s2)" by fastforce
      have s2: "P s2" using assms[OF s1, of path "Some d" "Some e"] f2 by simp
      show ?thesis
      proof (cases err2)
        case None
        then show ?thesis using 1(2)[OF f[symmetric] False Some f2[symmetric] None s2] f f2 False Some by simp
      qed (use f f2 False Some s2 in simp)
    qed
  qed
next
  case (2 path s)
  then show ?case by simp
next
  case (3 path t ts s)
  obtain err s1 where w: "walk_node fn (join2 path (ot_name t)) t s = (err, s1)" by fastforce
  have s1: "P s1" using 3(1)[OF 3(3)] w by simp
  show ?case
  proof (cases err)
    case None
    then show ?thesis using 3(2)[OF w[symmetric] None s1] w by simp
  qed (use w s1 in simp)
qed

lemma walk_dir_holds:
  assumes "\<And>path d err s. P s \<Longrightarrow> P (snd (fn path d err s))" "P s"
  shows "P (snd (walk_dir lookup root fn s))"
proof (cases "lookup root")
  case (Inl e)
  have "P (snd (fn root None (Some e) s))" by (rule assms(1)[OF assms(2)])
  then show ?thesis using Inl by (auto simp: walk_dir_def split: prod.split)
next
  case (Inr t)
  have "P (snd (walk_node fn root t s))" by (rule walk_node_keeps(1)[where P = P, OF _ assms(2)]) (rule assms(1))
  then show ?thesis using Inr by (auto simp: walk_dir_def split: prod.split)
qed

lemma root_wait_cw:
  assumes "cw gs dk0 rt"
  shows "cw gs dk0 (snd (root_wait env ps lookup eg_err rt))"
proof -
  obtain e1 c fs1 where c: "cache_close (dir_close (we_disk env)) ps (rt_cache rt) (rt_fs rt) = (e1, c, fs1)" by (metis prod_cases3)
  have fs1: "confined_fs gs dk0 fs1"
    by (rule cache_close_loop_keeps[OF c[unfolded cache_close_def]]) (use assms dir_close_keeps in \<open>auto simp: confined_writer_def\<close>)
  obtain e2 items fs2 where st: "stack_close (dir_close (we_disk env)) None (rt_stack rt) fs1 = (e2, items, fs2)" by (metis prod_cases3)
  have fs2: "confined_fs gs dk0 fs2" by (rule stack_close_keeps[OF st fs1 dir_close_keeps])
  let ?rt = "rt\<lparr>rt_cache := c, rt_stack := items, rt_fs := fs2\<rparr>"
  have w: "cw gs dk0 (snd (walk_dir lookup ''.'' (root_wait_callback env) ?rt))"
  proof (rule walk_dir_holds)
    show "cw gs dk0 ?rt" using fs2 by simp
    fix path d err rt assume rt: "cw gs dk0 rt"
    show "cw gs dk0 (snd (root_wait_callback env path d err rt))"
    proof (cases "\<exists>d1 t. err = None \<and> d = Some d1 \<and> od_is_dir d1 \<and> rt_dir_mod_times rt path = Some t")
      case True
      then obtain d1 t where d: "err = None" "d = Some d1" "od_is_dir d1" "rt_dir_mod_times rt path = Some t" by blast
      obtain r rt2 where o: "on_fs (root_chtimes (we_disk env) (rt_dest rt) path t) rt = (r, rt2)" by fastforce
      have "cw gs dk0 rt2" using on_fs_keeps[OF calls_keep(8) rt, of "we_disk env" "rt_dest rt" path t] o by simp
      then show ?thesis using d o by (cases r) (simp_all add: root_wait_callback_def)
    next
      case False
      then have "snd (root_wait_callback env path d err rt) = rt" by (auto simp: root_wait_callback_def split: option.splits)
      then show ?thesis using rt by simp
    qed
  qed
  show ?thesis using c st fs2 w by (auto simp: root_wait_def Let_def split: option.split)
qed

section \<open>Properties\<close>

text \<open>The use of a writer: changes, the data of files, and \<open>Wait\<close>, in any order and with any arguments.\<close>

datatype root_op =
    ChangeOp change_kind string file_info "go_error option"
  | DataOp data_task
  | WaitOp "string list" "string \<Rightarrow> os_tree res" "go_error option"

fun root_step :: "nat \<Rightarrow> writer_env \<Rightarrow> root_op \<Rightarrow> root_writer \<Rightarrow> root_writer option" where
  "root_step n env (ChangeOp kind p fi err) rt = map_option snd (root_handle_change n env kind p fi err rt)"
| "root_step n env (DataOp t) rt = Some (snd (run_root_task env t rt))"
| "root_step n env (WaitOp ps lookup err) rt = Some (snd (root_wait env ps lookup err rt))"

fun root_run :: "nat \<Rightarrow> writer_env \<Rightarrow> root_op list \<Rightarrow> root_writer \<Rightarrow> root_writer option" where
  "root_run n env [] rt = Some rt"
| "root_run n env (op # ops) rt = (case root_step n env op rt of None \<Rightarrow> None | Some rt \<Rightarrow> root_run n env ops rt)"

lemma root_step_cw: "root_step n env op rt = Some rt' \<Longrightarrow> cw gs dk0 rt \<Longrightarrow> cw gs dk0 rt'"
  by (cases op) (auto simp: run_root_task_cw root_wait_cw intro: root_handle_change_cw)

lemma root_run_cw: "root_run n env ops rt = Some rt' \<Longrightarrow> cw gs dk0 rt \<Longrightarrow> cw gs dk0 rt'"
proof (induction ops arbitrary: rt)
  case (Cons op ops)
  then obtain rt1 where s: "root_step n env op rt = Some rt1" "root_run n env ops rt1 = Some rt'" by (auto split: option.splits)
  show ?case by (rule Cons.IH[OF s(2) root_step_cw[OF s(1) Cons.prems(2)]])
qed simp

definition disk_of :: "root_writer \<Rightarrow> disk" where
  "disk_of rt = rf_disk (rt_fs rt)"

text \<open>
  Where a writer starts: its directories are below \<open>gs\<close>, and no file below is named outside, that is, there are no hard links
  over the border, nor is one open.
\<close>

definition separate :: "vpath \<Rightarrow> root_writer \<Rightarrow> bool" where
  "separate gs rt \<longleftrightarrow>
     (\<forall>fd. prefix gs (fst (rf_loc (rt_fs rt) fd))) \<and>
     (\<forall>i \<in> outer gs (disk_of rt). i < dk_next (disk_of rt) \<and> (\<forall>v. prefix gs v \<longrightarrow> dk_tree (disk_of rt) v \<noteq> Some i) \<and>
       (\<forall>fd off. dk_fds (disk_of rt) fd \<noteq> Some (i, off)))"

end
