(* ===== verification/Root_Facts.thy ===== *)
theory Root_Facts
  imports Root_Safety Disk_Facts
begin

text \<open>
  The properties of the root writer, each with an example: a destination \<open>/w\<close> with a symbolic link that leads out of it, and a
  destination with two directories that a transfer removes.
\<close>

section \<open>Confinement\<close>

definition link_node :: inode where
  "link_node = (fresh_inode sample_disk_env (mode_symlink OR mode_perm))\<lparr>in_target := ''../out''\<rparr>"

definition border_disk :: disk where
  "border_disk =
     \<lparr>dk_tree = [[] \<mapsto> 0, [''w''] \<mapsto> 1, [''out''] \<mapsto> 2, [''out'', ''f''] \<mapsto> 3, [''w'', ''l''] \<mapsto> 4],
      dk_inodes = (\<lambda>i. if i < 3 then dir_node else if i = 3 then file_node else link_node), dk_next = 5,
      dk_fds = Map.empty, dk_next_fd = 0, dk_clock = 9\<rparr>"

definition border_fs :: root_fs where
  "border_fs =
     \<lparr>rf_disk = border_disk,
      rf_world = \<lparr>rw_fds = {0}, rw_next = 1, rw_fd_path = (\<lambda>fd. ''.''), rw_roots =
        [\<lparr>ro_os = Some 0, ro_closed = False, ro_once = False, ro_dir = None, ro_dir_err = None\<rparr>]\<rparr>,
      rf_loc = (\<lambda>fd. ([''w''], 1))\<rparr>"

definition border_writer :: root_writer where
  "border_writer =
     \<lparr>rt_opt = sample_opt (\<lambda>p. ([], None)), rt_dest = 0, rt_stack = new_root_stack 0, rt_cache = new_root_cache 0 root_cache_default_size,
      rt_done = False, rt_dir_mod_times = Map.empty, rt_fs = border_fs, rt_rand = 0, rt_notes = [], rt_tasks = []\<rparr>"

definition border_ops :: "root_op list" where
  "border_ops =
     [ChangeOp ChangeKindAdd ''d'' (StatInfo (empty_stat\<lparr>st_path := ''d'', st_mode := mode_dir OR 0x1ED\<rparr>)) None,
      ChangeOp ChangeKindDelete ''l/f'' NilInfo None]"

lemma border_separate: "separate [''w''] border_writer"
  by (auto simp: separate_def outer_def disk_of_def border_writer_def border_fs_def border_disk_def split: if_splits)

lemmas border_defs = border_ops_def border_writer_def border_fs_def border_disk_def new_root_stack_def sample_opt_def


lemmas path_evals = dir_def split_dir_def clean_def is_abs_def base_def split_file_def goes_up_def join2_def


lemmas mode_evals = mode_is_dir_def has_mode_def mode_bits stat_is_dir_def empty_stat_def mode_perm_def

lemmas root_evals = root_change_body_def Let_def clean_root_path_def stack_get_def stack_loop.simps root_stack_rel_def root_filter_def
  root_apply_stat_def root_look_at_def on_fs_def root_lstat_def root_call_def root_fd_def root_find_def dir_valid_def root_walk.simps
  k_lstat_def node_def root_place_change_def root_make_change_def root_make_node_def root_mkdir_def k_create_def created_def touch_parent_def
  set_inode_def root_finish_def try_bind_def wrap_err_def rewrite_root_metadata_def root_lchown_def root_chmod_def root_chtimes_def root_set_times_def
  k_update_def owner_or_def chmod_bits_def root_move_def root_report_def root_process_change_def process_change_def root_cancel_on_def
  dir_open_def dir_found_def dir_find_def open_root_def os_open_dir_def root_env_of_def path_error_def is_symlink_node_def
  root_max_links_def link_node_def

lemma border_run:
  "\<exists>rt'. root_run 1 sample_writer_env border_ops border_writer = Some rt' \<and> is_dir_at (disk_of rt') [''w'', ''d''] \<and> rt_done rt'"
  by (simp add: root_evals mode_evals border_defs path_evals sample_disk_simps is_dir_at_def disk_of_def)

text \<open>C6. The root writer changes nothing outside its destination: whatever changes it is given, with any paths, links and
  metadata, whatever links are below the destination, and whether the calls succeed or fail, every entry outside names the
  same file with the same metadata and data as before.\<close>

theorem root_writer_confined:
  assumes "separate gs rt" "root_run n env ops rt = Some rt'" "\<not> prefix gs q"
  shows "node (disk_of rt') q = node (disk_of rt) q"
proof -
  have "cw gs (disk_of rt) rt"
    using assms(1) by (auto simp: separate_def confined_writer_def confined_fs_def confined_def disk_of_def)
  from root_run_cw[OF assms(2) this] have "confined gs (disk_of rt) (disk_of rt')"
    by (simp add: confined_writer_def confined_fs_def disk_of_def)
  then show ?thesis by (rule confined_node[OF _ assms(3)])
qed

theorem root_writer_confined_witness:
  "\<exists>rt'. root_run 1 sample_writer_env border_ops border_writer = Some rt' \<and> is_dir_at (disk_of rt') [''w'', ''d''] \<and> rt_done rt' \<and>
    node (disk_of rt') [''out'', ''f''] = node (disk_of border_writer) [''out'', ''f'']"
proof -
  obtain rt' where rt': "root_run 1 sample_writer_env border_ops border_writer = Some rt'" "is_dir_at (disk_of rt') [''w'', ''d'']" "rt_done rt'"
    using border_run by blast
  have "node (disk_of rt') [''out'', ''f''] = node (disk_of border_writer) [''out'', ''f'']"
    by (rule root_writer_confined[OF border_separate rt'(1)]) simp
  then show ?thesis using rt' by blast
qed

section \<open>A diff the root writer cannot apply\<close>

definition root_writer_handler ::
  "nat \<Rightarrow> writer_env \<Rightarrow> change_kind \<Rightarrow> string \<Rightarrow> file_info \<Rightarrow> go_error option \<Rightarrow> root_writer \<Rightarrow> root_writer res" where
  "root_writer_handler n env kind p fi err rt =
     (case root_handle_change n env kind p fi err rt of
        None \<Rightarrow> Inl (Errorf ''endless race'' [])
      | Some (Inl e, rt') \<Rightarrow> Inl e
      | Some (Inr _, rt') \<Rightarrow> Inr rt')"

lemma root_writer_handler_Inr:
  "root_writer_handler n env kind p fi err rt = Inr rt' \<longleftrightarrow> root_handle_change n env kind p fi err rt = Some (Inr (), rt')"
  by (auto simp: root_writer_handler_def split: option.splits prod.splits sum.splits)

text \<open>What the stack holds when it has returned a handle.\<close>

lemma stack_loop_last:
  assumes "stack_loop opn close d b items w = (Inr (h, c), items', w')"
  shows "c = b \<and> items' \<noteq> [] \<and> last items' = (d, h)"
  using assms
proof (induction "length items" arbitrary: items w rule: less_induct)
  case less
  note run = less.prems[unfolded stack_loop.simps[of opn close d b items w]]
  have ne: "items \<noteq> []" using run by auto
  let ?top = "items ! (length items - 1)"
  have top: "?top = last items" using ne by (simp add: last_conv_nth)
  show ?case
  proof (cases "fst ?top = d")
    case True
    then show ?thesis using run ne top by (auto simp: Let_def)
  next
    case other: False
    show ?thesis
    proof (cases "root_stack_rel (fst ?top) d")
      case (Some rel)
      then show ?thesis using run ne other by (auto simp: Let_def split: sum.splits)
    next
      case None
      then have len: "length items \<noteq> 1" using run ne other by (auto simp: Let_def)
      obtain e items1 w1 where pop: "stack_pop close items w = (e, items1, w1)" by (metis prod_cases3)
      then have "e = None" "stack_loop opn close d b items1 w1 = (Inr (h, c), items', w')"
        using run ne other None len by (auto simp: Let_def split: option.splits)
      moreover have "length items1 < length items" using pop ne by (auto simp: stack_pop_def Let_def split: prod.splits)
      ultimately show ?thesis using less.hyps by blast
    qed
  qed
qed

lemma clean_good_path: "good_path p \<Longrightarrow> clean_root_path p = p"
  using good_path_local[of p] by (auto simp: clean_root_path_def local_path_def clean_def)

lemma stack_get_last:
  assumes "good_path p" "stack_get opn close p items w = (Inr (h, c), items', w')"
  shows "c = base p" "items' \<noteq> []" "last items' = (dir p, h)"
  using stack_loop_last[of opn close "dir p" "base p" items w h c items' w'] assms(2)
  by (simp_all add: stack_get_def Let_def clean_good_path[OF assms(1)])

text \<open>The way from the directory of \<open>q\<close> to \<open>q\<close>.\<close>

lemma rel_to_base:
  assumes "good_path q"
  shows "root_stack_rel (dir q) q = Some (base q)" "dir q \<noteq> q" "good_comp (base q)"
proof -
  obtain cs where cs: "good_comps cs" "q = join_slash cs" using assms by (rule good_pathE)
  obtain ds x where snoc: "cs = ds @ [x]" using cs(1) by (cases cs rule: rev_cases) (auto simp: good_comps_def)
  have x: "good_comp x" using cs(1) snoc by (simp add: good_comps_def)
  show "root_stack_rel (dir q) q = Some (base q)" "dir q \<noteq> q" "good_comp (base q)"
  proof (atomize (full), cases "ds = []")
    case True
    then have q: "q = x" using cs(2) snoc by simp
    then have "dir q = ''.''" "base q = x" "q \<noteq> ''.''" using x by (auto simp: path_simps) (simp add: good_comp_def)
    then show "root_stack_rel (dir q) q = Some (base q) \<and> dir q \<noteq> q \<and> good_comp (base q)" using x q by (simp add: root_stack_rel_def)
  next
    case False
    then have ds: "good_comps ds" using cs(1) snoc by (simp add: good_comps_def)
    have d: "dir q = join_slash ds" "base q = x" using ds x cs(2) snoc by (simp_all add: path_simps)
    have sp: "split_slash q = ds @ [x]" using split_join_good[OF cs(1)] cs(2) snoc by simp
    have "root_stack_rel (join_slash ds) q = Some x" using root_stack_rel_good[OF ds, of q] assms sp by simp
    moreover have "split_slash (dir q) \<noteq> split_slash q" using split_join_good[OF ds] sp d(1) by simp
    ultimately show "root_stack_rel (dir q) q = Some (base q) \<and> dir q \<noteq> q \<and> good_comp (base q)" using d x by auto
  qed
qed

lemma dir_below:
  assumes "good_path q" "good_comp y"
  shows "good_path (q @ slash # y)" "dir (q @ slash # y) = q"
proof -
  obtain cs where cs: "good_comps cs" "q = join_slash cs" using assms(1) by (rule good_pathE)
  have "cs \<noteq> []" using cs(1) by (simp add: good_comps_def)
  then have e: "q @ slash # y = join_slash (cs @ [y])" using cs(2) by (simp add: join_slash_append)
  have "good_comps (cs @ [y])" using cs(1) assms(2) by (simp add: good_comps_def)
  then show "good_path (q @ slash # y)" unfolding e by (rule good_path_join)
  show "dir (q @ slash # y) = q" unfolding e using cs assms(2) by (simp add: path_simps)
qed

text \<open>What \<open>RemoveAll\<close> has removed cannot be opened as a directory.\<close>

lemma removed_not_opened:
  assumes "root_remove_all env h b fs = (Inr u, fs')" "good_comp b"
  shows "\<exists>e. dir_open env h b fs' = Inl e"
proof -
  obtain fd where fd: "root_fd fs h = Some fd" using assms(1) by (auto simp: root_remove_all_def split: option.splits)
  let ?l = "rf_loc fs fd"
  have b: "b \<noteq> []" "b \<noteq> ''.''" "b \<noteq> ''..''" "\<not> is_abs b" "split_slash b = [b]"
    using assms(2) split_join_good[of "[b]"] by (auto simp: good_comp_def good_comps_def is_abs_def) (cases b; simp)
  have find: "root_find fl dk ?l b = (if dir_valid dk ?l then root_walk fl root_max_links dk (fst ?l) [] [b] else Inl (Errno ENOENT))" for fl dk
    using b by (simp add: root_find_def)
  have nofollow: "root_walk False root_max_links dk (fst ?l) [] [b] = Inr (fst ?l @ [b])" for dk
    using b by (simp add: root_walk.simps)
  have res: "rf_world fs' = rf_world fs \<and> rf_loc fs' = rf_loc fs \<and> (dir_valid (rf_disk fs') ?l \<longrightarrow> dk_tree (rf_disk fs') (fst ?l @ [b]) = None)"
  proof (cases "dir_valid (rf_disk fs) ?l")
    case False
    then have "fs' = fs" using assms(1) fd find[of False] by (simp add: root_remove_all_def)
    then show ?thesis using False by simp
  next
    case True
    then show ?thesis using assms(1) fd find[of False] nofollow
      by (auto simp: root_remove_all_def remove_below_def touch_parent_def set_inode_def split: if_splits option.splits)
  qed
  have fd': "root_fd fs' h = Some fd" "rf_loc fs' fd = ?l" using res fd by (simp_all add: root_fd_def)
  have "\<exists>e. dir_find env (rf_disk fs') ?l b = Inl e"
  proof (cases "dir_valid (rf_disk fs') ?l")
    case False
    then show ?thesis using find[of True] by (auto simp: dir_find_def split: option.splits)
  next
    case True
    then have none: "dk_tree (rf_disk fs') (fst ?l @ [b]) = None" using res by simp
    then have "root_find True (rf_disk fs') ?l b = Inr (fst ?l @ [b])" using True find[of True] b by (simp add: root_walk.simps node_def)
    then show ?thesis using none by (auto simp: dir_find_def split: option.splits)
  qed
  then obtain e where "dir_found env h b fs' = Inl e" using fd' by (auto simp: dir_found_def)
  then show ?thesis
    using fd' by (auto simp: dir_open_def open_root_def os_open_dir_def root_env_of_def root_fd_def res_bind_def Let_def split: if_splits)
qed

text \<open>A delete that succeeds, and one below what it has removed.\<close>

lemma root_delete_done:
  assumes "root_handle_change n env ChangeKindDelete p fi None rt = Some (Inr (), rt')" "good_path p" "dwo_filter (rt_opt rt) = None"
  shows "rt_opt rt' = rt_opt rt"
    "\<exists>h fs. root_remove_all (we_disk env) h (base p) fs = (Inr (), rt_fs rt') \<and> rt_stack rt' \<noteq> [] \<and> last (rt_stack rt') = (dir p, h)"
proof -
  obtain m where n: "n = Suc m" using assms(1) by (cases n) auto
  obtain got items fs where g: "stack_get (dir_open (we_disk env)) (dir_close (we_disk env)) p (rt_stack rt) (rt_fs rt) = (got, items, fs)"
    by (metis prod_cases3)
  have cl: "clean_root_path p = p" by (rule clean_good_path[OF assms(2)])
  have cl2: "stack_get (dir_open (we_disk env)) (dir_close (we_disk env)) (clean_root_path p) = stack_get (dir_open (we_disk env)) (dir_close (we_disk env)) p"
    by (simp only: cl)
  obtain h b where hb: "got = Inr (h, b)"
    using assms(1) n g by (cases got) (auto simp: root_change_body_def Let_def cl2 cl root_cancel_on_def split: if_splits)
  have d: "root_delete env p p h b (rt\<lparr>rt_stack := items, rt_fs := fs\<rparr>) = (Inr (), rt')"
    using assms(1) n g hb
    by (auto simp: root_change_body_def Let_def cl root_cancel_on_def split: if_splits prod.splits sum.splits)
  obtain r fs1 where rm: "root_remove_all (we_disk env) h b fs = (r, fs1)" by fastforce
  then have "r = Inr () \<and> rt_opt rt' = rt_opt rt \<and> rt_fs rt' = fs1 \<and> rt_stack rt' = items"
    using d assms(3)
    by (cases r) (auto simp: root_delete_def root_filter_def on_fs_def wrap_err_def try_bind_def split: option.splits)
  moreover note stack_get_last[OF assms(2) g[unfolded hb]]
  ultimately show "rt_opt rt' = rt_opt rt"
    "\<exists>h fs. root_remove_all (we_disk env) h (base p) fs = (Inr (), rt_fs rt') \<and> rt_stack rt' \<noteq> [] \<and> last (rt_stack rt') = (dir p, h)"
    using rm by auto
qed

lemma root_delete_below_removed:
  assumes "root_handle_change n env ChangeKindDelete q fi None rt = Some (Inr (), rt1)" "good_path q" "good_comp y" "dwo_filter (rt_opt rt) = None"
  shows "root_handle_change m env ChangeKindDelete (q @ slash # y) fi' None rt1 \<noteq> Some (Inr (), rt2)"
proof
  assume run: "root_handle_change m env ChangeKindDelete (q @ slash # y) fi' None rt1 = Some (Inr (), rt2)"
  note D = root_delete_done[OF assms(1,2,4)]
  note p = dir_below[OF assms(2,3)]
  note q = rel_to_base[OF assms(2)]
  obtain h fs where h: "root_remove_all (we_disk env) h (base q) fs = (Inr (), rt_fs rt1)" "rt_stack rt1 \<noteq> []" "last (rt_stack rt1) = (dir q, h)"
    using D(2) by blast
  obtain e where e: "dir_open (we_disk env) h (base q) (rt_fs rt1) = Inl e" using removed_not_opened[OF h(1) q(3)] by blast
  have top: "rt_stack rt1 ! (length (rt_stack rt1) - 1) = (dir q, h)" using h(2,3) by (simp add: last_conv_nth)
  have "stack_get (dir_open (we_disk env)) (dir_close (we_disk env)) (q @ slash # y) (rt_stack rt1) (rt_fs rt1) = (Inl e, rt_stack rt1, rt_fs rt1)"
    unfolding stack_get_def Let_def clean_good_path[OF p(1)] p(2)
      stack_loop.simps[of "dir_open (we_disk env)" "dir_close (we_disk env)" q "base (q @ slash # y)" "rt_stack rt1" "rt_fs rt1"] top
    using h(2) q(1,2) e by simp
  moreover obtain m' where "m = Suc m'" using run by (cases m) auto
  ultimately show False
    using run by (auto simp: root_change_body_def Let_def clean_good_path[OF p(1)] root_cancel_on_def split: if_splits)
qed

text \<open>The diff, where it comes to the end of what it has removed.\<close>

lemma merge_lower:
  assumes "\<forall>u \<in> set us. cmp p (fst u) < 0"
  shows "merge_changes cmp below isdir same rm ((p, x) # ls) us =
    (if in_rm below rm p then merge_changes cmp below isdir same rm ls us
     else TDel p # merge_changes cmp below isdir same (next_rm rm (isdir x) p) ls us)"
  using assms by (cases us) (auto split: prod.splits)

lemma merge_skip:
  assumes "\<forall>e \<in> set es. below d (fst e)" "\<forall>e \<in> set es. \<forall>u \<in> set us. cmp (fst e) (fst u) < 0"
  shows "merge_changes cmp below isdir same (Some d) (es @ ls) us = merge_changes cmp below isdir same (Some d) ls us"
  using assms
proof (induction es)
  case (Cons e es)
  obtain p x where e: "e = (p, x)" by (cases e)
  have "\<forall>u \<in> set us. cmp p (fst u) < 0" using Cons.prems(2) e by simp
  from merge_lower[where cmp = cmp and p = p and us = us, OF this] show ?case using Cons e by (simp add: in_rm_def)
qed simp

lemma merge_two_removed:
  assumes "\<forall>e \<in> set es. below d (fst e)" "\<forall>e \<in> set ((d, xd) # es @ [(q, xq), (f, xf)]). \<forall>u \<in> set us. cmp (fst e) (fst u) < 0"
    and "isdir xd" "\<not> below d q"
  shows "\<exists>cs. merge_changes cmp below isdir same None ((d, xd) # es @ (q, xq) # (f, xf) # ls) us = TDel d # TDel q # TDel f # cs"
proof -
  have u: "\<forall>u \<in> set us. cmp d (fst u) < 0" "\<forall>e \<in> set es. \<forall>u \<in> set us. cmp (fst e) (fst u) < 0"
    "\<forall>u \<in> set us. cmp q (fst u) < 0" "\<forall>u \<in> set us. cmp f (fst u) < 0" using assms(2) by auto
  show ?thesis
    unfolding merge_lower[where cmp = cmp and p = d and us = us, OF u(1)] using assms(3,4)
    by (simp add: in_rm_def next_rm_def merge_skip[where cmp = cmp and es = es and us = us, OF assms(1) u(2)]
        merge_lower[where cmp = cmp and p = q and us = us, OF u(3)] merge_lower[where cmp = cmp and p = f and us = us, OF u(4)])
qed

text \<open>C7. A transfer that removes two neighbouring directories, the second one with a file, fails with the root writer, whatever its
  destination holds otherwise and whatever it has done before: the diff reports the file of the second directory after the directory
  (\<open>rmdir\<close> is cleared where the first directory ends and not set for the second), and the directory of that file cannot be opened any
  more. The writer of \<open>diskwriter.go\<close> removes both.\<close>

theorem root_redundant_delete_fails:
  assumes "comparable filt differ os_open a b" "filter_keeps_dir filt"
    and "a = d # inner @ q # f # rest" "sorted_wrt path_less (map cp_path a)" "\<forall>g \<in> set b. path_less (cp_path f) (cp_path g)"
    and "stat_is_dir (cp_stat d)" "\<forall>x \<in> set inner. below (cp_path d) (cp_path x)" "\<not> below (cp_path d) (cp_path q)"
    and "good_path (cp_path d)" "good_path (cp_path q)" "cp_path f = cp_path q @ slash # y" "good_comp y"
    and "dwo_filter (rt_opt rt) = None"
  shows "double_walk_diff (root_writer_handler n env) filt differ os_open None a b rt \<noteq> Inr rt'"
proof
  assume "double_walk_diff (root_writer_handler n env) filt differ os_open None a b rt = Inr rt'"
  then have run: "run_events (root_writer_handler n env) (merge_events filt differ os_open None a b) rt = Inr rt'"
    unfolding double_walk_diff_refines[OF assms(1,2)] .
  have less: "path_less (cp_path x) (cp_path g)" if "x \<in> set (d # inner @ [q, f])" "g \<in> set b" for x g
  proof -
    have "x = f \<or> path_less (cp_path x) (cp_path f)" using that(1) assms(4) unfolding assms(3) by (auto simp: sorted_wrt_append)
    then show ?thesis using assms(5) that(2) path_ord.less_trans by blast
  qed
  have "\<exists>cs. merge_events filt differ os_open None a b = TDel (cp_path d) # TDel (cp_path q) # TDel (cp_path f) # cs"
    using merge_two_removed[of "map walk_entry inner" "cp_path d" "cp_stat d" "cp_path q" "cp_stat q" "cp_path f" "cp_stat f"
      "map walk_entry b" compare_path stat_is_dir "same_entry filt differ os_open" "map walk_entry rest"] assms(6-8) less
    unfolding assms(3) by (simp add: walk_entry_def path_less_def)
  then obtain cs where cs: "merge_events filt differ os_open None a b = TDel (cp_path d) # TDel (cp_path q) # TDel (cp_path f) # cs" by blast
  let ?del = "\<lambda>p. root_writer_handler n env ChangeKindDelete p NilInfo None"
  obtain rt1 rt2 rt3 where steps: "?del (cp_path d) rt = Inr rt1" "?del (cp_path q) rt1 = Inr rt2" "?del (cp_path f) rt2 = Inr rt3"
    using run unfolding cs by (auto simp: res_bind_def split: sum.splits)
  then have H: "root_handle_change n env ChangeKindDelete (cp_path d) NilInfo None rt = Some (Inr (), rt1)"
    "root_handle_change n env ChangeKindDelete (cp_path q) NilInfo None rt1 = Some (Inr (), rt2)"
    "root_handle_change n env ChangeKindDelete (cp_path q @ slash # y) NilInfo None rt2 = Some (Inr (), rt3)"
    by (simp_all only: root_writer_handler_Inr assms(11))
  have "dwo_filter (rt_opt rt1) = None" using root_delete_done(1)[OF H(1) assms(9,13)] assms(13) by simp
  from root_delete_below_removed[OF H(2) assms(10,12) this] H(3) show False by blast
qed

text \<open>A destination with the directories \<open>a\<close> and \<open>b\<close>, each with a file, which the sender has no longer.\<close>

definition twin_disk :: disk where
  "twin_disk =
     \<lparr>dk_tree = [[] \<mapsto> 0, [''w''] \<mapsto> 1, [''w'', ''a''] \<mapsto> 2, [''w'', ''a'', ''x''] \<mapsto> 3, [''w'', ''b''] \<mapsto> 4, [''w'', ''b'', ''x''] \<mapsto> 5],
      dk_inodes = (\<lambda>i. if i = 3 \<or> i = 5 then file_node else dir_node), dk_next = 6, dk_fds = Map.empty, dk_next_fd = 0, dk_clock = 9\<rparr>"

definition twin_held :: "current_path list" where
  "twin_held = [sample_dir ''a'', sample_reg ''a/x'' 1, sample_dir ''b'', sample_reg ''b/x'' 1]"

definition twin_root :: root_writer where
  "twin_root = border_writer\<lparr>rt_fs := border_fs\<lparr>rf_disk := twin_disk\<rparr>\<rparr>"

theorem root_redundant_delete_fails_witness:
  "\<forall>rt'. double_walk_diff (root_writer_handler 1 sample_writer_env) None DiffMetadata (\<lambda>p. Inl (Errno ENOENT)) None twin_held [] twin_root \<noteq> Inr rt'"
proof (intro allI, rule root_redundant_delete_fails[where y = "''x''"])
  show "twin_held = sample_dir ''a'' # [sample_reg ''a/x'' 1] @ sample_dir ''b'' # sample_reg ''b/x'' 1 # []" by (simp add: twin_held_def)
  show "comparable None DiffMetadata (\<lambda>p. Inl (Errno ENOENT)) twin_held []" "filter_keeps_dir None"
    by (simp_all add: comparable_metadata filter_keeps_dir_def)
  show "sorted_wrt path_less (map cp_path twin_held)"
    by (simp add: twin_held_def sample_simps path_less_def compare_path_def less_Suc_eq)
  show "dwo_filter (rt_opt twin_root) = None" by (simp add: twin_root_def border_writer_def sample_opt_def)
qed (simp_all add: sample_simps below_def good_path_def good_comps_def good_comp_def)

end
