(* ===== verification/Copy_Disk.thy ===== *)
theory Copy_Disk
  imports Disk_Writer Filter_Fs Stat_Unix
begin

text \<open>
  The package \<open>copy\<close> below its recursion, on Linux: \<open>mkdir.go\<close>, \<open>mkdir_unix.go\<close>, \<open>hardlink.go\<close>, \<open>hardlink_unix.go\<close>,
  \<open>copy_linux.go\<close> and \<open>copy_nowindows.go\<close>. The calls of the operating system are those of \<open>Disk_World\<close>, with the
  further ones this package makes. What continuity, patternmatcher, dchapes-mode and \<open>filepath.Match\<close>
  compute is a parameter, and so are the numbers and orders a kernel chooses: link counts, the order of
  names, and how much one \<open>copy_file_range\<close> copies.
\<close>

section \<open>The environment\<close>

text \<open>What \<open>os.FileInfo\<close> and its \<open>syscall.Stat_t\<close> tell: inode number, link count, and the inode itself.\<close>

record stat_info =
  si_ino :: nat
  si_nlink :: nat
  si_node :: inode

abbreviation si_mode :: "stat_info \<Rightarrow> 32 word" where
  "si_mode fi \<equiv> in_mode (si_node fi)"

abbreviation si_is_dir :: "stat_info \<Rightarrow> bool" where
  "si_is_dir fi \<equiv> mode_is_dir (si_mode fi)"

record 'mi copy_env =
  cx_disk :: disk_env
  cx_nlink :: "disk \<Rightarrow> nat \<Rightarrow> nat"
  cx_children :: "disk \<Rightarrow> vpath \<Rightarrow> string list"
  cx_xattr_keys :: "(string \<rightharpoonup> string) \<Rightarrow> string list"
  cx_range :: "disk \<Rightarrow> nat"
  cx_root_path :: "disk \<Rightarrow> string \<Rightarrow> string \<Rightarrow> string res"
  cx_match :: "string \<Rightarrow> string \<Rightarrow> bool res"
  cx_parse_mode :: "string \<Rightarrow> (32 word \<Rightarrow> 32 word) res"
  cx_new_matcher :: "string list \<Rightarrow> 'mi matcher res"
  cx_zero :: 'mi
  cx_umask_zero :: bool
  cx_done :: "disk \<Rightarrow> bool"

text \<open>Error numbers of Linux that the prelude does not name.\<close>

abbreviation EIO :: errno where "EIO \<equiv> EOther 5"
abbreviation EBADF :: errno where "EBADF \<equiv> EOther 9"
abbreviation EXDEV :: errno where "EXDEV \<equiv> EOther 18"
abbreviation ENOTEMPTY :: errno where "ENOTEMPTY \<equiv> EOther 39"
abbreviation ENODATA :: errno where "ENODATA \<equiv> EOther 61"

text \<open>\<open>os.IsNotExist\<close> of an error of the package \<open>os\<close>.\<close>

definition os_is_not_exist :: "go_error \<Rightarrow> bool" where
  "os_is_not_exist e \<longleftrightarrow> errno_of e = Some ENOENT"

section \<open>Further calls of the operating system\<close>

definition k_info :: "'mi copy_env \<Rightarrow> vpath \<Rightarrow> stat_info kernel_op" where
  "k_info env v dk =
     (case dk_tree dk v of
        None \<Rightarrow> Inl ENOENT
      | Some i \<Rightarrow> Inr (\<lparr>si_ino = i, si_nlink = cx_nlink env dk i, si_node = dk_inodes dk i\<rparr>, dk))"

definition copy_lstat :: "'mi copy_env \<Rightarrow> string \<Rightarrow> disk \<Rightarrow> stat_info res \<times> disk" where
  "copy_lstat env p = os_call (cx_disk env) ''lstat'' p (\<lambda>dk. locate (cx_disk env) dk p) (k_info env)"

definition copy_stat :: "'mi copy_env \<Rightarrow> string \<Rightarrow> disk \<Rightarrow> stat_info res \<times> disk" where
  "copy_stat env p = os_call (cx_disk env) ''stat'' p (\<lambda>dk. locate_follow (cx_disk env) dk p) (k_info env)"

text \<open>\<open>os.Remove\<close>: a file or an empty directory.\<close>

definition k_remove :: "'mi copy_env \<Rightarrow> vpath \<Rightarrow> unit kernel_op" where
  "k_remove env v dk =
     (case dk_tree dk v of
        None \<Rightarrow> Inl ENOENT
      | Some i \<Rightarrow>
          if mode_is_dir (in_mode (dk_inodes dk i)) \<and> cx_children env dk v \<noteq> [] then Inl ENOTEMPTY
          else Inr ((), touch_parent v (dk\<lparr>dk_tree := (dk_tree dk)(v := None)\<rparr>)))"

definition os_remove :: "'mi copy_env \<Rightarrow> string \<Rightarrow> disk \<Rightarrow> unit res \<times> disk" where
  "os_remove env p = os_call (cx_disk env) ''remove'' p (\<lambda>dk. locate (cx_disk env) dk p) (k_remove env)"

definition k_readlink :: "vpath \<Rightarrow> string kernel_op" where
  "k_readlink v dk =
     (case node dk v of
        None \<Rightarrow> Inl ENOENT
      | Some i \<Rightarrow> if is_symlink_node i then Inr (in_target i, dk) else Inl EINVAL)"

definition os_readlink :: "'mi copy_env \<Rightarrow> string \<Rightarrow> disk \<Rightarrow> string res \<times> disk" where
  "os_readlink env p = os_call (cx_disk env) ''readlink'' p (\<lambda>dk. locate (cx_disk env) dk p) k_readlink"

text \<open>\<open>os.ReadDir\<close>: the names in a directory, sorted.\<close>

definition k_read_dir :: "'mi copy_env \<Rightarrow> vpath \<Rightarrow> string list kernel_op" where
  "k_read_dir env v dk =
     (case node dk v of
        None \<Rightarrow> Inl ENOENT
      | Some i \<Rightarrow> if mode_is_dir (in_mode i) then Inr (cx_children env dk v, dk) else Inl ENOTDIR)"

definition os_read_dir :: "'mi copy_env \<Rightarrow> string \<Rightarrow> disk \<Rightarrow> string list res \<times> disk" where
  "os_read_dir env p = os_call (cx_disk env) ''open'' p (\<lambda>dk. locate_follow (cx_disk env) dk p) (k_read_dir env)"

text \<open>\<open>os.Open\<close>, and \<open>os.Create\<close>, which empties a file that is there.\<close>

definition k_open_read :: "vpath \<Rightarrow> nat kernel_op" where
  "k_open_read v dk = (case dk_tree dk v of None \<Rightarrow> Inl ENOENT | Some i \<Rightarrow> Inr (new_fd i dk))"

definition os_open :: "'mi copy_env \<Rightarrow> string \<Rightarrow> disk \<Rightarrow> nat res \<times> disk" where
  "os_open env p = os_call (cx_disk env) ''open'' p (\<lambda>dk. locate_follow (cx_disk env) dk p) k_open_read"

definition k_create_trunc :: "vpath \<Rightarrow> inode \<Rightarrow> nat kernel_op" where
  "k_create_trunc v i dk =
     (case dk_tree dk v of
        None \<Rightarrow> k_open_create v i dk
      | Some j \<Rightarrow>
          if mode_is_dir (in_mode (dk_inodes dk j)) then Inl EISDIR
          else Inr (new_fd j (set_inode j (\<lambda>n. n\<lparr>in_data := [], in_mtime := dk_clock dk\<rparr>) dk)))"

definition os_create_trunc :: "'mi copy_env \<Rightarrow> string \<Rightarrow> disk \<Rightarrow> nat res \<times> disk" where
  "os_create_trunc env p =
     os_call (cx_disk env) ''open'' p (\<lambda>dk. locate_follow (cx_disk env) dk p)
       (\<lambda>v dk. k_create_trunc v (created (cx_disk env) 0 0x1B6 dk) dk)"

text \<open>Attributes of a file, without following a link: \<open>sysx.LListxattr\<close>, \<open>LGetxattr\<close> and \<open>LSetxattr\<close>.\<close>

definition k_list_xattr :: "'mi copy_env \<Rightarrow> vpath \<Rightarrow> string list kernel_op" where
  "k_list_xattr env v dk =
     (case node dk v of None \<Rightarrow> Inl ENOENT | Some i \<Rightarrow> Inr (cx_xattr_keys env (in_xattrs i), dk))"

definition k_get_xattr :: "string \<Rightarrow> vpath \<Rightarrow> string kernel_op" where
  "k_get_xattr key v dk =
     (case node dk v of
        None \<Rightarrow> Inl ENOENT
      | Some i \<Rightarrow> (case in_xattrs i key of None \<Rightarrow> Inl ENODATA | Some val \<Rightarrow> Inr (val, dk)))"

definition os_llistxattr :: "'mi copy_env \<Rightarrow> string \<Rightarrow> disk \<Rightarrow> string list res \<times> disk" where
  "os_llistxattr env p = os_call (cx_disk env) ''llistxattr'' p (\<lambda>dk. locate (cx_disk env) dk p) (k_list_xattr env)"

definition os_lgetxattr :: "'mi copy_env \<Rightarrow> string \<Rightarrow> string \<Rightarrow> disk \<Rightarrow> string res \<times> disk" where
  "os_lgetxattr env p key = os_call (cx_disk env) ''lgetxattr'' p (\<lambda>dk. locate (cx_disk env) dk p) (k_get_xattr key)"

definition os_lsetxattr :: "'mi copy_env \<Rightarrow> string \<Rightarrow> string \<Rightarrow> string \<Rightarrow> disk \<Rightarrow> unit res \<times> disk" where
  "os_lsetxattr env p key val =
     os_call (cx_disk env) ''lsetxattr'' p (\<lambda>dk. locate (cx_disk env) dk p)
       (\<lambda>v. k_update v (\<lambda>i. i\<lparr>in_xattrs := (in_xattrs i)(key \<mapsto> val)\<rparr>))"

text \<open>
  \<open>Stat_t.Mode\<close>: the type of a file in the bits of \<open>S_IFMT\<close> with the permissions, and the type \<open>mknod\<close> gives a
  file for such a number; a type of zero is a regular file.
\<close>

definition S_IFSOCK :: "32 word" where "S_IFSOCK = 0xC000"

definition sys_type :: "32 word \<Rightarrow> 32 word" where
  "sys_type m =
     (if mode_is_dir m then 0x4000
      else if has_mode m mode_symlink then 0xA000
      else if has_mode m mode_named_pipe then 0x1000
      else if has_mode m mode_socket then S_IFSOCK
      else if has_mode m mode_char_device then S_IFCHR
      else if has_mode m mode_device then S_IFBLK
      else 0x8000)"

definition sys_mode :: "32 word \<Rightarrow> 32 word" where
  "sys_mode m =
     sys_type m OR (m AND mode_perm)
       OR (if has_mode m mode_setuid then 0x800 else 0)
       OR (if has_mode m mode_setgid then 0x400 else 0)
       OR (if has_mode m mode_sticky then 0x200 else 0)"

definition mknod_kind :: "32 word \<Rightarrow> errno + 32 word" where
  "mknod_kind sm =
     (let t = sm AND 0xF000 in
      if t = 0 \<or> t = 0x8000 then Inr 0
      else if t = S_IFCHR then Inr (mode_device OR mode_char_device)
      else if t = S_IFBLK then Inr mode_device
      else if t = 0x1000 then Inr mode_named_pipe
      else if t = S_IFSOCK then Inr mode_socket
      else if t = 0x4000 then Inl EPERM
      else Inl EINVAL)"

definition go_special :: "32 word \<Rightarrow> 32 word" where
  "go_special sm =
     (if sm AND 0x800 \<noteq> 0 then mode_setuid else 0)
       OR (if sm AND 0x400 \<noteq> 0 then mode_setgid else 0)
       OR (if sm AND 0x200 \<noteq> 0 then mode_sticky else 0)"

definition sys_mknod :: "'mi copy_env \<Rightarrow> string \<Rightarrow> 32 word \<Rightarrow> 64 word \<Rightarrow> disk \<Rightarrow> nat res \<times> disk" where
  "sys_mknod env p sm dev =
     os_call (cx_disk env) ''mknod'' p (\<lambda>dk. locate (cx_disk env) dk p)
       (\<lambda>v dk. case mknod_kind sm of
          Inl e \<Rightarrow> Inl e
        | Inr kind \<Rightarrow> k_create v ((created (cx_disk env) (kind OR go_special sm) sm dk)\<lparr>in_rdev := dev\<rparr>) dk)"

text \<open>
  \<open>copy_file_range\<close> between two open files: it copies some of what is asked for, at least one byte
  unless the source is at its end; overlapping ranges of one file are refused.
\<close>

definition copy_file_range :: "'mi copy_env \<Rightarrow> nat \<Rightarrow> nat \<Rightarrow> nat \<Rightarrow> disk \<Rightarrow> nat res \<times> disk" where
  "copy_file_range env dst src desired dk =
     (case (dk_fds dk src, dk_fds dk dst) of
        (Some (i, a), Some (j, b)) \<Rightarrow>
          (case de_fail (cx_disk env) ''copy_file_range'' [] dk of
             Some e \<Rightarrow> (Inl (Errno e), dk)
           | None \<Rightarrow>
               if i = j \<and> a < b + desired \<and> b < a + desired then (Inl (Errno EINVAL), dk)
               else
                 let bs = take (min desired (Suc (cx_range env dk))) (drop a (in_data (dk_inodes dk i)));
                     dk = dk\<lparr>dk_fds := (dk_fds dk)(src \<mapsto> (i, a + length bs), dst \<mapsto> (j, b + length bs))\<rparr>
                 in (Inr (length bs),
                     if bs = [] then dk
                     else set_inode j (\<lambda>n. n\<lparr>in_data := write_at b bs (in_data n), in_mtime := dk_clock dk\<rparr>) dk))
      | _ \<Rightarrow> (Inl (Errno EBADF), dk))"

text \<open>\<open>io.CopyBuffer\<close> between two files: all that is left of the source.\<close>

definition io_copy :: "'mi copy_env \<Rightarrow> nat \<Rightarrow> nat \<Rightarrow> disk \<Rightarrow> unit res \<times> disk" where
  "io_copy env dst src dk =
     (case dk_fds dk src of
        None \<Rightarrow> (Inl (Errno EClosed), dk)
      | Some (i, a) \<Rightarrow>
          (case de_fail (cx_disk env) ''read'' [] dk of
             Some e \<Rightarrow> (Inl (Errno e), dk)
           | None \<Rightarrow>
               let bs = drop a (in_data (dk_inodes dk i)); dk = dk\<lparr>dk_fds := (dk_fds dk)(src \<mapsto> (i, a + length bs))\<rparr>
               in if bs = [] then (Inr (), dk) else file_write (cx_disk env) dst bs dk))"

end
