(* ===== verification/Copy_File.thy ===== *)
theory Copy_File
  imports Copy_Disk
begin

text \<open>
  One file of the package \<open>copy\<close> at a time: owners and times (\<open>mkdir_unix.go\<close>), \<open>MkdirAll\<close> (\<open>mkdir.go\<close>), hard
  links (\<open>hardlink.go\<close>), contents and metadata (\<open>copy_linux.go\<close>), attributes and devices
  (\<open>copy_nowindows.go\<close>), with the \<open>copier\<close> that carries the options and the state of one copy.
\<close>

section \<open>Options and state\<close>

text \<open>\<open>User\<close>, \<open>Chowner\<close> and \<open>XAttrErrorHandler\<close>.\<close>

record user =
  us_uid :: "32 word"
  us_gid :: "32 word"
  us_sid :: string

type_synonym chowner = "user option \<Rightarrow> user option res"

type_synonym xattr_error_handler = "string \<Rightarrow> string \<Rightarrow> string \<Rightarrow> go_error \<Rightarrow> go_error option"

record parent_dir =
  pt_src :: string
  pt_dst :: string
  pt_copied :: bool

text \<open>
  \<open>copier\<close>, with the disk it works on and the changes it has announced. \<open>changefn\<close> is always called with
  \<open>ChangeKindAdd\<close>; \<open>testHookLstat\<close> is left out.
\<close>

record 'mi copier =
  co_chown :: "chowner option"
  co_utime :: "64 word option"
  co_mode :: "64 word option"
  co_mode_set :: "(32 word \<Rightarrow> 32 word) option"
  co_inodes :: "nat \<rightharpoonup> string"
  co_xeh :: xattr_error_handler
  co_include :: "'mi matcher option"
  co_exclude :: "'mi matcher option"
  co_parents :: "parent_dir list"
  co_changefn :: "(string \<Rightarrow> stat_info \<Rightarrow> go_error option) option"
  co_root :: string
  co_always_replace :: bool
  co_disk :: disk
  co_notes :: "(string \<times> stat_info) list"

text \<open>A call on the disk, one that may run out of fuel, and going on after a call that did not fail.\<close>

definition co_call :: "(disk \<Rightarrow> 'a res \<times> disk) \<Rightarrow> 'mi copier \<Rightarrow> ('a res \<times> 'mi copier) option" where
  "co_call f c = (case f (co_disk c) of (r, dk) \<Rightarrow> Some (r, c\<lparr>co_disk := dk\<rparr>))"

definition co_run :: "(disk \<Rightarrow> ('a res \<times> disk) option) \<Rightarrow> 'mi copier \<Rightarrow> ('a res \<times> 'mi copier) option" where
  "co_run f c = map_option (\<lambda>(r, dk). (r, c\<lparr>co_disk := dk\<rparr>)) (f (co_disk c))"

definition co_bind :: "('a res \<times> 's) option \<Rightarrow> ('a \<Rightarrow> 's \<Rightarrow> ('b res \<times> 's) option) \<Rightarrow> ('b res \<times> 's) option" where
  "co_bind m f = (case m of None \<Rightarrow> None | Some (Inl e, s) \<Rightarrow> Some (Inl e, s) | Some (Inr x, s) \<Rightarrow> f x s)"

abbreviation co_wrap :: "string \<Rightarrow> ('a res \<times> 's) option \<Rightarrow> ('a res \<times> 's) option" where
  "co_wrap msg m \<equiv> map_option (wrap_err msg) m"

abbreviation co_ok :: "'a \<Rightarrow> 's \<Rightarrow> ('a res \<times> 's) option" where
  "co_ok x s \<equiv> Some (Inr x, s)"

section \<open>Owners and times\<close>

definition utimes :: "'mi copy_env \<Rightarrow> string \<Rightarrow> 64 word option \<Rightarrow> disk \<Rightarrow> unit res \<times> disk" where
  "utimes env p tm dk =
     (case tm of
        None \<Rightarrow> (Inr (), dk)
      | Some t \<Rightarrow> wrap_err ''failed to utime'' (os_utimes (cx_disk env) p t dk))"

definition chown :: "'mi copy_env \<Rightarrow> string \<Rightarrow> user option \<Rightarrow> chowner option \<Rightarrow> disk \<Rightarrow> unit res \<times> disk" where
  "chown env p old fn dk =
     (case fn of
        None \<Rightarrow> (Inr (), dk)
      | Some fn \<Rightarrow>
          (case fn old of
             Inl e \<Rightarrow> (Inl e, dk)
           | Inr None \<Rightarrow> (Inr (), dk)
           | Inr (Some u) \<Rightarrow> os_lchown (cx_disk env) p (us_uid u) (us_gid u) dk))"

section \<open>MkdirAll\<close>

text \<open>The parent of a path as \<open>MkdirAll\<close> cuts it off, if it has to make one.\<close>

definition mkdir_parent :: "string \<Rightarrow> string option" where
  "mkdir_parent path =
     (let j = length (dropWhile (\<lambda>c. c \<noteq> slash) (dropWhile (\<lambda>c. c = slash) (rev path)))
      in if j > 1 then Some (take (j - 1) path) else None)"

lemma mkdir_parent_shorter: "mkdir_parent path = Some q \<Longrightarrow> length q < length path"
proof -
  assume q: "mkdir_parent path = Some q"
  let ?j = "length (dropWhile (\<lambda>c. c \<noteq> slash) (dropWhile (\<lambda>c. c = slash) (rev path)))"
  have "?j \<le> length path" by (metis length_dropWhile_le le_trans length_rev)
  moreover have "?j > 1" "q = take (?j - 1) path" using q by (auto simp: mkdir_parent_def Let_def split: if_splits)
  ultimately show ?thesis by simp
qed

definition mkdir_make ::
  "'mi copy_env \<Rightarrow> string \<Rightarrow> 32 word \<Rightarrow> chowner option \<Rightarrow> 64 word option \<Rightarrow> string list \<Rightarrow> disk \<Rightarrow> string list res \<times> disk" where
  "mkdir_make env path perm user tm dirs dk =
     (case os_mkdir (cx_disk env) path perm dk of
        (Inl e, dk) \<Rightarrow>
          (case copy_lstat env path dk of
             (Inr fi, dk) \<Rightarrow> if si_is_dir fi then (Inr dirs, dk) else (Inl e, dk)
           | (Inl _, dk) \<Rightarrow> (Inl e, dk))
      | (Inr _, dk) \<Rightarrow>
          try_bind (if cx_umask_zero env then (Inr (), dk) else os_chmod (cx_disk env) path perm dk) (\<lambda>_ dk.
            try_bind (chown env path None user dk) (\<lambda>_ dk.
              try_bind (utimes env path tm dk) (\<lambda>_ dk. (Inr (dirs @ [path]), dk)))))"

text \<open>\<open>MkdirAll\<close>: the directories it made, outermost first.\<close>

function mkdir_all ::
  "'mi copy_env \<Rightarrow> string \<Rightarrow> 32 word \<Rightarrow> chowner option \<Rightarrow> 64 word option \<Rightarrow> disk \<Rightarrow> string list res \<times> disk" where
  "mkdir_all env path perm user tm dk =
     (case copy_stat env path dk of
        (Inr fi, dk) \<Rightarrow> if si_is_dir fi then (Inr [], dk) else (Inl (PathError ''mkdir'' path ENOTDIR), dk)
      | (Inl _, dk) \<Rightarrow>
          try_bind (case mkdir_parent path of None \<Rightarrow> (Inr [], dk) | Some q \<Rightarrow> mkdir_all env q perm user tm dk) (\<lambda>dirs dk.
            case copy_lstat env path dk of
              (Inr fi, dk) \<Rightarrow> if si_is_dir fi then (Inr dirs, dk) else mkdir_make env path perm user tm dirs dk
            | (Inl _, dk) \<Rightarrow> mkdir_make env path perm user tm dirs dk))"
  by pat_completeness auto
termination
  by (relation "measure (\<lambda>(env, path, perm, user, tm, dk). length path)") (auto simp: mkdir_parent_shorter)

declare mkdir_all.simps [simp del]

text \<open>\<open>fixCreatedParentDirs\<close>.\<close>

fun fix_dirs :: "'mi copy_env \<Rightarrow> 64 word \<Rightarrow> string list \<Rightarrow> disk \<Rightarrow> unit res \<times> disk" where
  "fix_dirs env t [] dk = (Inr (), dk)"
| "fix_dirs env t (d # ds) dk = try_bind (utimes env d (Some t) dk) (\<lambda>_ dk. fix_dirs env t ds dk)"

definition fix_created_parent_dirs :: "'mi copy_env \<Rightarrow> string list \<Rightarrow> 64 word option \<Rightarrow> disk \<Rightarrow> unit res \<times> disk" where
  "fix_created_parent_dirs env dirs tm dk =
     (case tm of None \<Rightarrow> (Inr (), dk) | Some t \<Rightarrow> fix_dirs env t (rev dirs) dk)"

section \<open>Hard links\<close>

definition get_link_info :: "stat_info \<Rightarrow> nat \<times> bool" where
  "get_link_info fi = (si_ino fi, \<not> si_is_dir fi \<and> si_nlink fi > 1)"

text \<open>\<open>getLinkSource\<close>: the path to link to, empty for none, and the new inode map.\<close>

definition get_link_source :: "string \<Rightarrow> stat_info \<Rightarrow> (nat \<rightharpoonup> string) \<Rightarrow> string \<times> (nat \<rightharpoonup> string)" where
  "get_link_source name fi inodes =
     (case get_link_info fi of (ino, is_hardlink) \<Rightarrow>
        if \<not> is_hardlink then ([], inodes)
        else (case inodes ino of
            Some path \<Rightarrow> (path, inodes)
          | None \<Rightarrow> ([], inodes(ino \<mapsto> name))))"

section \<open>Contents\<close>

definition max_int32 :: nat where
  "max_int32 = 2147483647"

text \<open>The errors for which the loop of \<open>copyFileContent\<close> falls back to copying in user space.\<close>

definition no_range_copy :: "go_error \<Rightarrow> bool" where
  "no_range_copy e \<longleftrightarrow> e \<in> Errno ` {ENOSYS, EXDEV, EPERM, EIO, ENOTSUP, EINVAL}"

text \<open>The loop, with fuel for its iterations.\<close>

fun copy_range_loop :: "nat \<Rightarrow> 'mi copy_env \<Rightarrow> nat \<Rightarrow> nat \<Rightarrow> nat \<Rightarrow> nat \<Rightarrow> bool \<Rightarrow> disk \<Rightarrow> (unit res \<times> disk) option" where
  "copy_range_loop n env dst src filesize written is_first dk =
     (if \<not> written < filesize then Some (Inr (), dk)
      else
        (case n of
           0 \<Rightarrow> None
         | Suc n \<Rightarrow>
             let desired = (if filesize - written > max_int32 then max_int32 else filesize - written)
             in (case copy_file_range env dst src desired dk of
                  (Inl e, dk) \<Rightarrow>
                    if \<not> no_range_copy e \<or> \<not> is_first then Some (Inl (Wrap ''copy file range failed'' e), dk)
                    else Some (wrap_err ''userspace copy failed'' (io_copy env dst src dk))
                | (Inr m, dk) \<Rightarrow> copy_range_loop n env dst src filesize (written + m) False dk)))"

declare copy_range_loop.simps [simp del]

definition copy_file_content :: "nat \<Rightarrow> 'mi copy_env \<Rightarrow> nat \<Rightarrow> nat \<Rightarrow> disk \<Rightarrow> (unit res \<times> disk) option" where
  "copy_file_content n env dst src dk =
     (case dk_fds dk src of
        None \<Rightarrow> Some (Inl (Wrap ''unable to stat source'' (Errno EClosed)), dk)
      | Some (i, _) \<Rightarrow>
          (case de_fail (cx_disk env) ''fstat'' [] dk of
             Some e \<Rightarrow> Some (Inl (Wrap ''unable to stat source'' (Errno e)), dk)
           | None \<Rightarrow> copy_range_loop n env dst src (length (in_data (dk_inodes dk i))) 0 True dk))"

text \<open>\<open>copyFile\<close>: the errors of the deferred calls of \<open>Close\<close> are dropped.\<close>

definition copy_file :: "nat \<Rightarrow> 'mi copy_env \<Rightarrow> string \<Rightarrow> string \<Rightarrow> disk \<Rightarrow> (unit res \<times> disk) option" where
  "copy_file n env source target dk =
     (case os_open env source dk of
        (Inl e, dk) \<Rightarrow> Some (Inl (Wrap ''failed to open source'' e), dk)
      | (Inr src, dk) \<Rightarrow>
          (case os_create_trunc env target dk of
             (Inl e, dk) \<Rightarrow> Some (Inl (Wrap ''failed to open target'' e), snd (file_close (cx_disk env) src dk))
           | (Inr tgt, dk) \<Rightarrow>
               map_option (\<lambda>(r, dk). (r, snd (file_close (cx_disk env) src (snd (file_close (cx_disk env) tgt dk)))))
                 (copy_file_content n env tgt src dk)))"

section \<open>Metadata\<close>

definition copy_file_timestamp :: "'mi copy_env \<Rightarrow> 'mi copier \<Rightarrow> stat_info \<Rightarrow> string \<Rightarrow> disk \<Rightarrow> unit res \<times> disk" where
  "copy_file_timestamp env c fi name dk =
     (case co_utime c of
        Some t \<Rightarrow> utimes env name (Some t) dk
      | None \<Rightarrow> wrap_err ''failed to utime'' (os_utimes (cx_disk env) name (in_mtime (si_node fi)) dk))"

text \<open>The mode \<open>copyFileInfo\<close> sets: that of the source, changed by a set of modes, or a given one.\<close>

definition copied_mode :: "'mi copier \<Rightarrow> 32 word \<Rightarrow> 32 word" where
  "copied_mode c m =
     (case co_mode_set c of
        Some apply_mode \<Rightarrow> apply_mode m
      | None \<Rightarrow>
          (case co_mode c of
             None \<Rightarrow> m
           | Some k \<Rightarrow>
               (ucast k AND mode_perm)
                 OR (if k AND 0x400 \<noteq> 0 then mode_setgid else 0)
                 OR (if k AND 0x800 \<noteq> 0 then mode_setuid else 0)
                 OR (if k AND 0x200 \<noteq> 0 then mode_sticky else 0)))"

definition copy_file_info :: "'mi copy_env \<Rightarrow> 'mi copier \<Rightarrow> stat_info \<Rightarrow> string \<Rightarrow> disk \<Rightarrow> unit res \<times> disk" where
  "copy_file_info env c fi name dk =
     (let fn = (case co_chown c of None \<Rightarrow> Inr | Some fn \<Rightarrow> fn);
          old = \<lparr>us_uid = in_uid (si_node fi), us_gid = in_gid (si_node fi), us_sid = []\<rparr>
      in try_bind (wrap_err ''failed to chown'' (chown env name (Some old) (Some fn) dk)) (\<lambda>_ dk.
           try_bind
             (if \<not> has_mode (si_mode fi) mode_symlink then
                wrap_err ''failed to chmod'' (os_chmod (cx_disk env) name (copied_mode c (si_mode fi)) dk)
              else (Inr (), dk)) (\<lambda>_ dk.
             copy_file_timestamp env c fi name dk)))"

text \<open>\<open>copyXAttrs\<close>: at the first error the handler decides, and nothing more is copied.\<close>

definition handled :: "go_error option \<Rightarrow> unit res" where
  "handled r = (case r of None \<Rightarrow> Inr () | Some e \<Rightarrow> Inl e)"

fun copy_xattr_loop :: "'mi copy_env \<Rightarrow> string \<Rightarrow> string \<Rightarrow> xattr_error_handler \<Rightarrow> string list \<Rightarrow> disk \<Rightarrow> unit res \<times> disk" where
  "copy_xattr_loop env dst src xeh [] dk = (Inr (), dk)"
| "copy_xattr_loop env dst src xeh (key # keys) dk =
     (case os_lgetxattr env src key dk of
        (Inl e, dk) \<Rightarrow> (handled (xeh dst src key (Wrap ''failed to get xattr'' e)), dk)
      | (Inr val, dk) \<Rightarrow>
          (case os_lsetxattr env dst key val dk of
             (Inl e, dk) \<Rightarrow> (handled (xeh dst src key (Wrap ''failed to set xattr'' e)), dk)
           | (Inr _, dk) \<Rightarrow> copy_xattr_loop env dst src xeh keys dk))"

definition copy_xattrs :: "'mi copy_env \<Rightarrow> string \<Rightarrow> string \<Rightarrow> xattr_error_handler \<Rightarrow> disk \<Rightarrow> unit res \<times> disk" where
  "copy_xattrs env dst src xeh dk =
     (case os_llistxattr env src dk of
        (Inl e, dk) \<Rightarrow> (handled (xeh dst src [] (Wrap ''failed to list xattrs'' e)), dk)
      | (Inr keys, dk) \<Rightarrow> copy_xattr_loop env dst src xeh keys dk)"

text \<open>\<open>copyDevice\<close> and \<open>mknod\<close>.\<close>

definition copy_mknod :: "'mi copy_env \<Rightarrow> string \<Rightarrow> 32 word \<Rightarrow> 64 word \<Rightarrow> disk \<Rightarrow> nat res \<times> disk" where
  "copy_mknod env dst mode rdev dk = sys_mknod env dst mode rdev dk"

definition copy_device :: "'mi copy_env \<Rightarrow> string \<Rightarrow> stat_info \<Rightarrow> disk \<Rightarrow> nat res \<times> disk" where
  "copy_device env dst fi dk =
     (let rdev = (if has_mode (si_mode fi) mode_device \<or> has_mode (si_mode fi) mode_char_device then in_rdev (si_node fi) else 0);
          mode = sys_mode (si_mode fi) AND NOT S_IFSOCK
      in copy_mknod env dst mode rdev dk)"

section \<open>Directories and old files\<close>

text \<open>\<open>copyDirectoryOnly\<close>: whether the directory was made.\<close>

definition copy_directory_only :: "'mi copy_env \<Rightarrow> string \<Rightarrow> stat_info \<Rightarrow> bool \<Rightarrow> disk \<Rightarrow> bool res \<times> disk" where
  "copy_directory_only env dst fi overwrite dk =
     (case copy_lstat env dst dk of
        (Inl e, dk) \<Rightarrow>
          if \<not> os_is_not_exist e then (Inl e, dk)
          else try_bind (wrap_err ''failed to mkdir'' (os_mkdir (cx_disk env) dst (si_mode fi) dk)) (\<lambda>_ dk. (Inr True, dk))
      | (Inr st, dk) \<Rightarrow>
          if \<not> si_is_dir st then (Inl (Errorf ''cannot copy to non-directory: %s'' [dst]), dk)
          else if overwrite then
            try_bind (wrap_err ''failed to chmod on'' (os_chmod (cx_disk env) dst (si_mode fi) dk)) (\<lambda>_ dk. (Inr False, dk))
          else (Inr False, dk))"

definition ensure_empty_file_target :: "'mi copy_env \<Rightarrow> string \<Rightarrow> disk \<Rightarrow> unit res \<times> disk" where
  "ensure_empty_file_target env dst dk =
     (case copy_lstat env dst dk of
        (Inl e, dk) \<Rightarrow> if os_is_not_exist e then (Inr (), dk) else (Inl (Wrap ''failed to lstat file target'' e), dk)
      | (Inr fi, dk) \<Rightarrow>
          if si_is_dir fi then (Inl (Errorf ''cannot replace to directory %s with file'' [dst]), dk)
          else os_remove env dst dk)"

end
