(* ===== verification/Copy_Tree.thy ===== *)
theory Copy_Tree
  imports Copy_File
begin

text \<open>
  \<open>copy.go\<close>: copying files and directories with include and exclude patterns, and the wildcards in their
  names. The recursion over directories has fuel, which also bounds the loop that copies a file; a
  result of \<^const>\<open>None\<close> means that it did not suffice. A panic does not occur.
\<close>

section \<open>The copier\<close>

record 'mi copy_info =
  ci_chown :: "chowner option"
  ci_utime :: "64 word option"
  ci_allow_wildcards :: bool
  ci_mode :: "64 word option"
  ci_mode_str :: string
  ci_xeh :: "xattr_error_handler option"
  ci_copy_dir_contents :: bool
  ci_follow_links :: bool
  ci_include :: "string list"
  ci_exclude :: "string list"
  ci_always_replace :: bool
  ci_changefn :: "(string \<Rightarrow> stat_info \<Rightarrow> go_error option) option"

definition default_directory_mode :: "64 word" where
  "default_directory_mode = 0x1ED"

definition empty_copy_info :: "'mi copy_info" where
  "empty_copy_info =
     \<lparr>ci_chown = None, ci_utime = None, ci_allow_wildcards = False, ci_mode = None, ci_mode_str = [], ci_xeh = None,
      ci_copy_dir_contents = False, ci_follow_links = False, ci_include = [], ci_exclude = [], ci_always_replace = False,
      ci_changefn = None\<rparr>"

text \<open>The options, each a change of a \<open>CopyInfo\<close>.\<close>

definition with_copy_info :: "'mi copy_info \<Rightarrow> 'mi copy_info \<Rightarrow> 'mi copy_info" where
  "with_copy_info ci c = ci"

definition with_chown :: "32 word \<Rightarrow> 32 word \<Rightarrow> 'mi copy_info \<Rightarrow> 'mi copy_info" where
  "with_chown uid gid ci = ci\<lparr>ci_chown := Some (\<lambda>_. Inr (Some \<lparr>us_uid = uid, us_gid = gid, us_sid = []\<rparr>))\<rparr>"

definition allow_wildcards :: "'mi copy_info \<Rightarrow> 'mi copy_info" where
  "allow_wildcards ci = ci\<lparr>ci_allow_wildcards := True\<rparr>"

definition with_xattr_error_handler :: "xattr_error_handler \<Rightarrow> 'mi copy_info \<Rightarrow> 'mi copy_info" where
  "with_xattr_error_handler h ci = ci\<lparr>ci_xeh := Some h\<rparr>"

definition allow_xattr_errors :: "'mi copy_info \<Rightarrow> 'mi copy_info" where
  "allow_xattr_errors = with_xattr_error_handler (\<lambda>dst src key e. None)"

definition with_include_pattern :: "string \<Rightarrow> 'mi copy_info \<Rightarrow> 'mi copy_info" where
  "with_include_pattern pat ci = ci\<lparr>ci_include := ci_include ci @ [pat]\<rparr>"

definition with_exclude_pattern :: "string \<Rightarrow> 'mi copy_info \<Rightarrow> 'mi copy_info" where
  "with_exclude_pattern pat ci = ci\<lparr>ci_exclude := ci_exclude ci @ [pat]\<rparr>"

definition with_change_notifier :: "(string \<Rightarrow> stat_info \<Rightarrow> go_error option) \<Rightarrow> 'mi copy_info \<Rightarrow> 'mi copy_info" where
  "with_change_notifier fn ci = ci\<lparr>ci_changefn := Some fn\<rparr>"

text \<open>\<open>newCopier\<close>, on a disk.\<close>

definition make_matcher :: "'mi copy_env \<Rightarrow> string \<Rightarrow> string list \<Rightarrow> 'mi matcher option res" where
  "make_matcher env msg pats =
     (if pats = [] then Inr None
      else (case cx_new_matcher env pats of Inl e \<Rightarrow> Inl (Wrap msg e) | Inr m \<Rightarrow> Inr (Some m)))"

definition new_copier :: "'mi copy_env \<Rightarrow> string \<Rightarrow> 'mi copy_info \<Rightarrow> (32 word \<Rightarrow> 32 word) option \<Rightarrow> disk \<Rightarrow> 'mi copier res" where
  "new_copier env root ci mode_set dk =
     res_bind (make_matcher env ''invalid includepatterns'' (ci_include ci)) (\<lambda>inc.
       res_bind (make_matcher env ''invalid excludepatterns'' (ci_exclude ci)) (\<lambda>exc.
         Inr \<lparr>co_chown = ci_chown ci, co_utime = ci_utime ci, co_mode = ci_mode ci, co_mode_set = mode_set,
           co_inodes = Map.empty,
           co_xeh = (case ci_xeh ci of None \<Rightarrow> (\<lambda>dst src key e. Some e) | Some h \<Rightarrow> h),
           co_include = inc, co_exclude = exc, co_parents = [], co_changefn = ci_changefn ci, co_root = root,
           co_always_replace = ci_always_replace ci, co_disk = dk, co_notes = []\<rparr>))"

section \<open>Patterns\<close>

definition copy_include :: "'mi copy_env \<Rightarrow> 'mi copier \<Rightarrow> string \<Rightarrow> 'mi \<Rightarrow> (bool \<times> 'mi) res" where
  "copy_include env c path parent_info =
     (case co_include c of
        None \<Rightarrow> Inr (True, cx_zero env)
      | Some m \<Rightarrow> (case pm_match m path parent_info of Inl e \<Rightarrow> Inl (Wrap ''failed to match includepatterns'' e) | Inr r \<Rightarrow> Inr r))"

definition copy_exclude :: "'mi copy_env \<Rightarrow> 'mi copier \<Rightarrow> string \<Rightarrow> 'mi \<Rightarrow> (bool \<times> 'mi) res" where
  "copy_exclude env c path parent_info =
     (case co_exclude c of
        None \<Rightarrow> Inr (False, cx_zero env)
      | Some m \<Rightarrow> (case pm_match m path parent_info of Inl e \<Rightarrow> Inl (Wrap ''failed to match excludepatterns'' e) | Inr r \<Rightarrow> Inr r))"

definition no_exceptions :: "'mi copier \<Rightarrow> bool" where
  "no_exceptions c \<longleftrightarrow> (case co_exclude c of None \<Rightarrow> True | Some m \<Rightarrow> \<not> pm_exclusions m)"

text \<open>
  Whether \<open>copy\<close> includes the path \<open>comps\<close> below the source, whether it is excluded, and the match
  information for its children. The source itself is included.
\<close>

definition copy_select :: "'mi copy_env \<Rightarrow> 'mi copier \<Rightarrow> string \<Rightarrow> 'mi \<Rightarrow> 'mi \<Rightarrow> (bool \<times> bool \<times> 'mi \<times> 'mi) res" where
  "copy_select env c comps inc_info exc_info =
     (if comps = [] then Inr (True, False, cx_zero env, cx_zero env)
      else
        res_bind (copy_include env c comps inc_info) (\<lambda>(inc, inc_info).
          res_bind (copy_exclude env c comps exc_info) (\<lambda>(exc, exc_info).
            Inr (inc \<and> \<not> exc, exc, inc_info, exc_info))))"

section \<open>Steps of a copy\<close>

definition notify_change :: "string \<Rightarrow> stat_info \<Rightarrow> 'mi copier \<Rightarrow> (unit res \<times> 'mi copier) option" where
  "notify_change target fi c =
     (case co_changefn c of
        None \<Rightarrow> co_ok () c
      | Some fn \<Rightarrow>
          let p = clean (trim_prefix target (co_root c)); c = c\<lparr>co_notes := co_notes c @ [(p, fi)]\<rparr>
          in (case fn p fi of
               None \<Rightarrow> co_ok () c
             | Some e \<Rightarrow> Some (Inl (Wrap ''failed to notify file change'' e), c)))"

definition remove_target_if_needed :: "'mi copy_env \<Rightarrow> string \<Rightarrow> stat_info \<Rightarrow> stat_info option \<Rightarrow> 'mi copier \<Rightarrow> (unit res \<times> 'mi copier) option" where
  "remove_target_if_needed env target src_fi target_fi c =
     (if \<not> co_always_replace c then co_ok () c
      else (case target_fi of
          None \<Rightarrow> co_ok () c
        | Some tf \<Rightarrow>
            if si_is_dir src_fi \<and> si_is_dir tf then co_ok () c
            else co_call (os_remove_all (cx_disk env) target) c))"

definition copy_info_and_xattrs :: "'mi copy_env \<Rightarrow> stat_info \<Rightarrow> string \<Rightarrow> string \<Rightarrow> 'mi copier \<Rightarrow> (unit res \<times> 'mi copier) option" where
  "copy_info_and_xattrs env fi src dst c =
     co_bind (co_wrap ''failed to copy file info'' (co_call (copy_file_info env c fi dst) c)) (\<lambda>_ c.
       co_wrap ''failed to copy xattrs'' (co_call (copy_xattrs env dst src (co_xeh c)) c))"

text \<open>\<open>createParentDirs\<close>, for the parent at position \<open>i\<close> and for all.\<close>

definition create_parent_dir :: "'mi copy_env \<Rightarrow> bool \<Rightarrow> nat \<Rightarrow> 'mi copier \<Rightarrow> (unit res \<times> 'mi copier) option" where
  "create_parent_dir env overwrite i c =
     (let pd = co_parents c ! i
      in if pt_copied pd then co_ok () c
         else
           co_bind (co_wrap ''failed to stat'' (co_call (copy_stat env (pt_src pd)) c)) (\<lambda>fi c.
             if \<not> si_is_dir fi then Some (Inl (Errorf ''%s is not a directory'' [pt_src pd]), c)
             else
               co_bind (co_call (copy_directory_only env (pt_dst pd) fi overwrite) c) (\<lambda>made c.
                 co_bind (if made then copy_info_and_xattrs env fi (pt_src pd) (pt_dst pd) c else co_ok () c) (\<lambda>_ c.
                   co_ok () (c\<lparr>co_parents := (co_parents c)[i := pd\<lparr>pt_copied := True\<rparr>]\<rparr>)))))"

fun create_parents :: "'mi copy_env \<Rightarrow> bool \<Rightarrow> nat list \<Rightarrow> 'mi copier \<Rightarrow> (unit res \<times> 'mi copier) option" where
  "create_parents env overwrite [] c = co_ok () c"
| "create_parents env overwrite (i # is) c = co_bind (create_parent_dir env overwrite i c) (\<lambda>_ c. create_parents env overwrite is c)"

definition create_parent_dirs :: "'mi copy_env \<Rightarrow> bool \<Rightarrow> 'mi copier \<Rightarrow> (unit res \<times> 'mi copier) option" where
  "create_parent_dirs env overwrite c = create_parents env overwrite [0..<length (co_parents c)] c"

section \<open>Copying\<close>

text \<open>\<open>copy\<close> as a function of source, components, target, whether to overwrite metadata, and match information.\<close>

type_synonym 'mi copy_fn =
  "string \<Rightarrow> string \<Rightarrow> string \<Rightarrow> bool \<Rightarrow> 'mi \<Rightarrow> 'mi \<Rightarrow> 'mi copier \<Rightarrow> (unit res \<times> 'mi copier) option"

fun copy_children :: "'mi copy_fn \<Rightarrow> string \<Rightarrow> string \<Rightarrow> string \<Rightarrow> 'mi \<Rightarrow> 'mi \<Rightarrow> string list \<Rightarrow> 'mi copier \<Rightarrow> (unit res \<times> 'mi copier) option" where
  "copy_children rec src comps dst inc_info exc_info [] c = co_ok () c"
| "copy_children rec src comps dst inc_info exc_info (nm # nms) c =
     co_bind (rec (join2 src nm) (join2 comps nm) (join2 dst nm) True inc_info exc_info c) (\<lambda>_ c.
       copy_children rec src comps dst inc_info exc_info nms c)"

definition push_parent :: "parent_dir \<Rightarrow> 'mi copier \<Rightarrow> 'mi copier" where
  "push_parent pd c = c\<lparr>co_parents := co_parents c @ [pd]\<rparr>"

definition pop_parent :: "'mi copier \<Rightarrow> 'mi copier" where
  "pop_parent c = c\<lparr>co_parents := butlast (co_parents c)\<rparr>"

definition copy_directory ::
  "'mi copy_fn \<Rightarrow> 'mi copy_env \<Rightarrow> string \<Rightarrow> string \<Rightarrow> string \<Rightarrow> stat_info \<Rightarrow> bool \<Rightarrow> bool \<Rightarrow> bool \<Rightarrow> 'mi \<Rightarrow> 'mi \<Rightarrow>
   'mi copier \<Rightarrow> (bool res \<times> 'mi copier) option" where
  "copy_directory rec env src comps dst fi overwrite inc exc inc_info exc_info c =
     (if \<not> si_is_dir fi then Some (Inl (Errorf ''source is not directory'' []), c)
      else
        co_bind
          (if inc then
             co_bind (co_call (copy_directory_only env dst fi overwrite) c) (\<lambda>made c.
               co_bind (if made \<or> overwrite then notify_change dst fi c else co_ok () c) (\<lambda>_ c. co_ok made c))
           else co_ok False c) (\<lambda>made c.
          map_option (apsnd pop_parent)
            (let c = push_parent \<lparr>pt_src = src, pt_dst = dst, pt_copied = inc\<rparr> c
             in if exc \<and> no_exceptions c then co_ok False c
                else
                  co_bind (co_wrap ''failed to read'' (co_call (os_read_dir env src) c)) (\<lambda>nms c.
                    co_bind (copy_children rec src comps dst inc_info exc_info nms c) (\<lambda>_ c. co_ok made c)))))"

text \<open>The cases of \<open>copy\<close> for what is not a directory.\<close>

definition copy_regular :: "nat \<Rightarrow> 'mi copy_env \<Rightarrow> string \<Rightarrow> string \<Rightarrow> stat_info \<Rightarrow> 'mi copier \<Rightarrow> (unit res \<times> 'mi copier) option" where
  "copy_regular n env src target fi c =
     (case get_link_source target fi (co_inodes c) of (link, inodes) \<Rightarrow>
        let c = c\<lparr>co_inodes := inodes\<rparr>
        in if link \<noteq> [] then co_wrap ''failed to create hard link'' (co_call (os_link (cx_disk env) link target) c)
           else co_wrap ''failed to copy files'' (co_run (copy_file n env src target) c))"

definition copy_symlink :: "'mi copy_env \<Rightarrow> string \<Rightarrow> string \<Rightarrow> 'mi copier \<Rightarrow> (unit res \<times> 'mi copier) option" where
  "copy_symlink env src target c =
     co_bind (co_wrap ''failed to read link'' (co_call (os_readlink env src) c)) (\<lambda>link c.
       co_bind (co_wrap ''failed to create symlink'' (co_call (os_symlink (cx_disk env) link target) c)) (\<lambda>_ c. co_ok () c))"

definition copy_special :: "'mi copy_env \<Rightarrow> string \<Rightarrow> stat_info \<Rightarrow> 'mi copier \<Rightarrow> (unit res \<times> 'mi copier) option" where
  "copy_special env target fi c =
     co_bind (co_wrap ''failed to create device'' (co_call (copy_device env target fi) c)) (\<lambda>_ c. co_ok () c)"

definition copy_other :: "nat \<Rightarrow> 'mi copy_env \<Rightarrow> string \<Rightarrow> string \<Rightarrow> stat_info \<Rightarrow> 'mi copier \<Rightarrow> (unit res \<times> 'mi copier) option" where
  "copy_other n env src target fi c =
     (let m = si_mode fi
      in if m AND mode_type = 0 then copy_regular n env src target fi c
         else if has_mode m mode_symlink then copy_symlink env src target c
         else if has_mode m mode_device \<or> has_mode m mode_named_pipe \<or> has_mode m mode_socket then copy_special env target fi c
         else co_ok () c)"

text \<open>The last part of \<open>copy\<close>: metadata or the old time, and the notification.\<close>

definition copy_finish ::
  "'mi copy_env \<Rightarrow> string \<Rightarrow> string \<Rightarrow> stat_info \<Rightarrow> stat_info option \<Rightarrow> bool \<Rightarrow> bool \<Rightarrow> bool \<Rightarrow> 'mi copier \<Rightarrow>
   (unit res \<times> 'mi copier) option" where
  "copy_finish env src target fi target_fi with_info restore notify c =
     co_bind
       (if with_info then copy_info_and_xattrs env fi src target c
        else if restore \<and> target_fi \<noteq> None then
          co_wrap ''failed to restore file timestamp'' (co_call (copy_file_timestamp env c fi target) c)
        else co_ok () c) (\<lambda>_ c.
       if notify then notify_change target fi c else co_ok () c)"

text \<open>\<open>copy\<close>, with the function \<open>rec\<close> for its recursive calls.\<close>

definition copy_included ::
  "nat \<Rightarrow> 'mi copy_env \<Rightarrow> 'mi copy_fn \<Rightarrow> string \<Rightarrow> string \<Rightarrow> string \<Rightarrow> bool \<Rightarrow> bool \<Rightarrow> bool \<Rightarrow> 'mi \<Rightarrow> 'mi \<Rightarrow>
   stat_info \<Rightarrow> stat_info option \<Rightarrow> 'mi copier \<Rightarrow> (unit res \<times> 'mi copier) option" where
  "copy_included n env rec src comps target overwrite inc exc inc_info exc_info fi target_fi c =
     co_bind
       (if inc then co_bind (remove_target_if_needed env target fi target_fi c) (\<lambda>_ c. create_parent_dirs env overwrite c)
        else co_ok () c) (\<lambda>_ c.
       if si_is_dir fi then
         co_bind (copy_directory rec env src comps target fi overwrite inc exc inc_info exc_info c) (\<lambda>made c.
           if overwrite then copy_finish env src target fi target_fi inc False False c
           else copy_finish env src target fi target_fi made (\<not> made) False c)
       else if \<not> inc then co_ok () c
       else
         co_bind (co_call (ensure_empty_file_target env target) c) (\<lambda>_ c.
           co_bind (copy_other n env src target fi c) (\<lambda>_ c.
             copy_finish env src target fi target_fi True False True c)))"

definition copy_body :: "nat \<Rightarrow> 'mi copy_env \<Rightarrow> 'mi copy_fn \<Rightarrow> 'mi copy_fn" where
  "copy_body n env rec src comps target overwrite inc_info exc_info c =
     (if cx_done env (co_disk c) then Some (Inl CtxErr, c)
      else
        (case copy_select env c comps inc_info exc_info of
           Inl e \<Rightarrow> Some (Inl e, c)
         | Inr (inc, exc, inc_info, exc_info) \<Rightarrow>
             if comps \<noteq> [] \<and> \<not> inc \<and> co_include c = None \<and> no_exceptions c then co_ok () c
             else
               co_bind (co_wrap ''failed to stat'' (co_call (copy_lstat env src) c)) (\<lambda>fi c.
                 if \<not> inc \<and> \<not> si_is_dir fi then co_ok () c
                 else
                   (case copy_lstat env target (co_disk c) of (r, dk) \<Rightarrow>
                      let c = c\<lparr>co_disk := dk\<rparr>
                      in (case r of
                           Inl e \<Rightarrow>
                             if \<not> os_is_not_exist e then Some (Inl (Wrap ''failed to stat'' e), c)
                             else copy_included n env rec src comps target overwrite inc exc inc_info exc_info fi None c
                         | Inr tf \<Rightarrow> copy_included n env rec src comps target overwrite inc exc inc_info exc_info fi (Some tf) c)))))"

fun copy_node :: "nat \<Rightarrow> 'mi copy_env \<Rightarrow> 'mi copy_fn" where
  "copy_node 0 env src comps target overwrite inc_info exc_info c = None"
| "copy_node (Suc n) env src comps target overwrite inc_info exc_info c =
     copy_body n env (copy_node n env) src comps target overwrite inc_info exc_info c"

section \<open>Wildcards\<close>

text \<open>\<open>containsWildcards\<close>.\<close>

fun has_wildcards :: "string \<Rightarrow> bool" where
  "has_wildcards [] = False"
| "has_wildcards (ch # cs) =
     (if ch = CHR 0x5C then (case cs of [] \<Rightarrow> False | c # cs' \<Rightarrow> has_wildcards cs')
      else if ch = CHR ''*'' \<or> ch = CHR ''?'' \<or> ch = CHR ''['' then True
      else has_wildcards cs)"

fun split_wildcards_loop :: "string list \<Rightarrow> bool \<Rightarrow> string list \<Rightarrow> string list \<Rightarrow> string list \<times> string list" where
  "split_wildcards_loop [] found p1 p2 = (p1, p2)"
| "split_wildcards_loop (p # ps) found p1 p2 =
     (let found = (found \<or> has_wildcards p); p = (if p = [] then [slash] else p)
      in if \<not> found then split_wildcards_loop ps found (p1 @ [p]) p2 else split_wildcards_loop ps found p1 (p2 @ [p]))"

definition split_wildcards :: "string \<Rightarrow> string \<times> string" where
  "split_wildcards p = (case split_wildcards_loop (split_slash (join_elems [p])) False [] [] of (p1, p2) \<Rightarrow> (join_elems p1, join_elems p2))"

text \<open>\<open>filepath.Walk\<close> of the standard library, with fuel for the depth of the tree.\<close>

type_synonym 's os_walk_fn = "string \<Rightarrow> stat_info option \<Rightarrow> go_error option \<Rightarrow> 's \<Rightarrow> go_error option \<times> 's"

fun os_walk_names ::
  "(string \<Rightarrow> stat_info \<Rightarrow> disk \<Rightarrow> 's \<Rightarrow> (go_error option \<times> disk \<times> 's) option) \<Rightarrow> 'mi copy_env \<Rightarrow> 's os_walk_fn \<Rightarrow> string \<Rightarrow>
   string list \<Rightarrow> disk \<Rightarrow> 's \<Rightarrow> (go_error option \<times> disk \<times> 's) option" where
  "os_walk_names rec env fn path [] dk s = Some (None, dk, s)"
| "os_walk_names rec env fn path (nm # nms) dk s =
     (case copy_lstat env (join2 path nm) dk of
        (Inl e, dk) \<Rightarrow>
          (case fn (join2 path nm) None (Some e) s of (r, s) \<Rightarrow>
             if r \<noteq> None \<and> r \<noteq> Some SkipDir then Some (r, dk, s) else os_walk_names rec env fn path nms dk s)
      | (Inr fi, dk) \<Rightarrow>
          (case rec (join2 path nm) fi dk s of
             None \<Rightarrow> None
           | Some (r, dk, s) \<Rightarrow>
               if r \<noteq> None \<and> (\<not> si_is_dir fi \<or> r \<noteq> Some SkipDir) then Some (r, dk, s)
               else os_walk_names rec env fn path nms dk s))"

fun os_walk_node ::
  "nat \<Rightarrow> 'mi copy_env \<Rightarrow> 's os_walk_fn \<Rightarrow> string \<Rightarrow> stat_info \<Rightarrow> disk \<Rightarrow> 's \<Rightarrow> (go_error option \<times> disk \<times> 's) option" where
  "os_walk_node 0 env fn path fi dk s = None"
| "os_walk_node (Suc n) env fn path fi dk s =
     (if \<not> si_is_dir fi then (case fn path (Some fi) None s of (r, s) \<Rightarrow> Some (r, dk, s))
      else
        (case os_read_dir env path dk of
           (Inl e, dk) \<Rightarrow> (case fn path (Some fi) (Some e) s of (r, s) \<Rightarrow> Some (r, dk, s))
         | (Inr nms, dk) \<Rightarrow>
             (case fn path (Some fi) None s of (r, s) \<Rightarrow>
                if r \<noteq> None then Some (r, dk, s) else os_walk_names (os_walk_node n env fn) env fn path nms dk s)))"

definition os_walk :: "nat \<Rightarrow> 'mi copy_env \<Rightarrow> 's os_walk_fn \<Rightarrow> string \<Rightarrow> disk \<Rightarrow> 's \<Rightarrow> (go_error option \<times> disk \<times> 's) option" where
  "os_walk n env fn root dk s =
     (case
        (case copy_lstat env root dk of
           (Inl e, dk) \<Rightarrow> (case fn root None (Some e) s of (r, s) \<Rightarrow> Some (r, dk, s))
         | (Inr fi, dk) \<Rightarrow> os_walk_node n env fn root fi dk s)
      of None \<Rightarrow> None | Some (r, dk, s) \<Rightarrow> Some (if r = Some SkipDir then None else r, dk, s))"

text \<open>\<open>rel\<close> and \<open>resolveWildcards\<close>.\<close>

definition copy_rel :: "string \<Rightarrow> string \<Rightarrow> string res" where
  "copy_rel basepath targpath = rel_path basepath targpath"

definition resolve_callback :: "'mi copy_env \<Rightarrow> string \<Rightarrow> string \<Rightarrow> string list os_walk_fn" where
  "resolve_callback env base_path pat path info err out =
     (case err of
        Some e \<Rightarrow> (Some e, out)
      | None \<Rightarrow>
          (case copy_rel base_path path of
             Inl e \<Rightarrow> (Some e, out)
           | Inr r \<Rightarrow>
               if r = ''.'' then (None, out)
               else if cx_match env pat r \<noteq> Inr True then (None, out)
               else (case info of
                   None \<Rightarrow> (Some (Panic ''nil FileInfo''), out @ [path])
                 | Some fi \<Rightarrow> (if si_is_dir fi then Some SkipDir else None, out @ [path]))))"

definition resolve_wildcards :: "nat \<Rightarrow> 'mi copy_env \<Rightarrow> string \<Rightarrow> string \<Rightarrow> disk \<Rightarrow> (string list res \<times> disk) option" where
  "resolve_wildcards n env base_path pat dk =
     map_option (\<lambda>(r, dk, out). (case r of None \<Rightarrow> Inr out | Some e \<Rightarrow> Inl e, dk))
       (os_walk n env (resolve_callback env base_path pat) base_path dk [])"

text \<open>\<open>rootPath\<close>: a path below a root, with its last name followed or not.\<close>

definition copy_root_path :: "'mi copy_env \<Rightarrow> string \<Rightarrow> string \<Rightarrow> bool \<Rightarrow> disk \<Rightarrow> string res" where
  "copy_root_path env root p follow_links dk =
     (let p = join2 [slash] p
      in if p = [slash] then Inr root
         else if follow_links then cx_root_path env dk root p
         else (case cx_root_path env dk root (split_dir p) of
             Inl e \<Rightarrow> Inl e
           | Inr ppath \<Rightarrow> Inr (join2 ppath (split_file p))))"

text \<open>\<open>ResolveWildcards\<close>.\<close>

fun rel_all :: "string \<Rightarrow> string list \<Rightarrow> string list res" where
  "rel_all root [] = Inr []"
| "rel_all root (m # ms) = res_bind (copy_rel root m) (\<lambda>p. res_bind (rel_all root ms) (\<lambda>ps. Inr (p # ps)))"

definition resolve_all :: "nat \<Rightarrow> 'mi copy_env \<Rightarrow> string \<Rightarrow> string \<Rightarrow> bool \<Rightarrow> disk \<Rightarrow> (string list res \<times> disk) option" where
  "resolve_all n env root src follow_links dk =
     (case split_wildcards src of (d1, d2) \<Rightarrow>
        if d2 \<noteq> [] then
          (case copy_root_path env root d1 follow_links dk of
             Inl e \<Rightarrow> Some (Inl e, dk)
           | Inr p \<Rightarrow> co_bind (resolve_wildcards n env p d2 dk) (\<lambda>ms dk. Some (rel_all root ms, dk)))
        else co_ok [d1] dk)"

section \<open>Copy\<close>

text \<open>\<open>prepareTargetDir\<close>: the path to copy to and the directories made.\<close>

definition target_of :: "string \<Rightarrow> string \<Rightarrow> bool \<Rightarrow> stat_info \<Rightarrow> stat_info option \<Rightarrow> string" where
  "target_of src dest copy_contents fi_src fi_dest =
     (if (\<not> copy_contents \<and> si_is_dir fi_src \<and> fi_dest \<noteq> None)
         \<or> (\<not> si_is_dir fi_src \<and> (case fi_dest of None \<Rightarrow> False | Some d \<Rightarrow> si_is_dir d))
      then join2 dest (base src) else dest)"

definition prepare_target_dir ::
  "'mi copy_env \<Rightarrow> string \<Rightarrow> string \<Rightarrow> string \<Rightarrow> bool \<Rightarrow> 'mi copier \<Rightarrow> ((string \<times> string list) res \<times> 'mi copier) option" where
  "prepare_target_dir env src_followed src dest copy_contents c =
     co_bind (co_call (copy_lstat env src_followed) c) (\<lambda>fi_src c.
       co_bind
         (case copy_stat env dest (co_disk c) of
            (Inl e, dk) \<Rightarrow>
              if \<not> os_is_not_exist e then Some (Inl (Wrap ''failed to lstat destination path'' e), c\<lparr>co_disk := dk\<rparr>)
              else co_ok None (c\<lparr>co_disk := dk\<rparr>)
          | (Inr d, dk) \<Rightarrow> co_ok (Some d) (c\<lparr>co_disk := dk\<rparr>)) (\<lambda>fi_dest c.
         let dest = target_of src dest copy_contents fi_src fi_dest;
             target = (if copy_contents \<and> si_is_dir fi_src \<and> fi_dest = None then dest else dir dest);
             mode = (case co_mode c of None \<Rightarrow> default_directory_mode | Some m \<Rightarrow> m)
         in co_bind (co_call (mkdir_all env target (ucast mode) (co_chown c) (co_utime c)) c) (\<lambda>dirs c.
              co_ok (dest, dirs) c)))"

text \<open>
  The parts of \<open>Copy\<close>: making the directory of the destination, the copier, the sources, and the loop
  over them. What is deferred is a list of lists of directories, in the order in which the
  calls of \<open>fixCreatedParentDirs\<close> are deferred.
\<close>

definition ensure_path :: "string \<Rightarrow> string" where
  "ensure_path dst = (if split_file dst \<noteq> [] \<and> split_file dst \<noteq> ''.'' then split_dir dst else dst)"

definition copy_ensure_dst :: "'mi copy_env \<Rightarrow> string \<Rightarrow> string \<Rightarrow> 'mi copy_info \<Rightarrow> disk \<Rightarrow> string list list res \<times> disk" where
  "copy_ensure_dst env dst_root dst ci dk =
     (if ensure_path dst = [] then (Inr [], dk)
      else (case cx_root_path env dk dst_root (ensure_path dst) of
          Inl e \<Rightarrow> (Inl e, dk)
        | Inr p \<Rightarrow>
            let perm = (case ci_mode ci of None \<Rightarrow> default_directory_mode | Some m \<Rightarrow> m)
            in try_bind (mkdir_all env p (ucast perm) (ci_chown ci) (ci_utime ci) dk) (\<lambda>dirs dk. (Inr [dirs], dk))))"

definition copy_setup :: "'mi copy_env \<Rightarrow> string \<Rightarrow> string \<Rightarrow> 'mi copy_info \<Rightarrow> disk \<Rightarrow> (string \<times> 'mi copier) res" where
  "copy_setup env dst_root dst ci dk =
     res_bind (if ci_mode_str ci = [] then Inr None
       else (case cx_parse_mode env (ci_mode_str ci) of Inl e \<Rightarrow> Inl e | Inr f \<Rightarrow> Inr (Some f))) (\<lambda>mode_set.
       res_bind (cx_root_path env dk dst_root (clean dst)) (\<lambda>dst.
         res_bind (new_copier env dst_root ci mode_set dk) (\<lambda>c. Inr (dst, c))))"

definition copy_expand :: "nat \<Rightarrow> 'mi copy_env \<Rightarrow> string \<Rightarrow> string \<Rightarrow> 'mi copy_info \<Rightarrow> 'mi copier \<Rightarrow> (string list res \<times> 'mi copier) option" where
  "copy_expand n env src_root src ci c =
     (if \<not> ci_allow_wildcards ci then co_ok [src] c
      else
        co_bind (co_run (resolve_all n env src_root src (ci_follow_links ci)) c) (\<lambda>ms c.
          if ms = [] then Some (Inl (Errorf ''no matches found: %s'' [src]), c) else co_ok ms c))"

fun copy_sources ::
  "nat \<Rightarrow> 'mi copy_env \<Rightarrow> string \<Rightarrow> string \<Rightarrow> 'mi copy_info \<Rightarrow> string list \<Rightarrow> string list list \<Rightarrow> 'mi copier \<Rightarrow>
   ((unit res \<times> 'mi copier) \<times> string list list) option" where
  "copy_sources n env src_root dst ci [] deferred c = Some ((Inr (), c), deferred)"
| "copy_sources n env src_root dst ci (src # srcs) deferred c =
     (case copy_root_path env src_root src (ci_follow_links ci) (co_disk c) of
        Inl e \<Rightarrow> Some ((Inl e, c), deferred)
      | Inr src_followed \<Rightarrow>
          (case prepare_target_dir env src_followed src dst (ci_copy_dir_contents ci) c of
             None \<Rightarrow> None
           | Some (Inl e, c) \<Rightarrow> Some ((Inl e, c), deferred)
           | Some (Inr (target, dirs), c) \<Rightarrow>
               (case copy_node n env src_followed [] target False (cx_zero env) (cx_zero env) c of
                  None \<Rightarrow> None
                | Some (Inl e, c) \<Rightarrow> Some ((Inl e, c), deferred @ [dirs])
                | Some (Inr _, c) \<Rightarrow> copy_sources n env src_root dst ci srcs (deferred @ [dirs]) c)))"

text \<open>The deferred calls, the last one first; their errors are dropped.\<close>

definition run_deferred :: "'mi copy_env \<Rightarrow> 64 word option \<Rightarrow> string list list \<Rightarrow> disk \<Rightarrow> disk" where
  "run_deferred env tm deferred dk = foldr (\<lambda>dirs dk. snd (fix_created_parent_dirs env dirs tm dk)) deferred dk"

text \<open>\<open>Copy\<close>: the error, the disk, and the changes announced.\<close>

definition copy_all ::
  "nat \<Rightarrow> 'mi copy_env \<Rightarrow> string \<Rightarrow> string \<Rightarrow> string \<Rightarrow> string \<Rightarrow> ('mi copy_info \<Rightarrow> 'mi copy_info) list \<Rightarrow> disk \<Rightarrow>
   (unit res \<times> disk \<times> (string \<times> stat_info) list) option" where
  "copy_all n env src_root src dst_root dst opts dk =
     (let ci = fold (\<lambda>opt ci. opt ci) opts empty_copy_info
      in case copy_ensure_dst env dst_root dst ci dk of
           (Inl e, dk) \<Rightarrow> Some (Inl e, dk, [])
         | (Inr deferred, dk) \<Rightarrow>
             let finish = run_deferred env (ci_utime ci)
             in (case copy_setup env dst_root dst ci dk of
                  Inl e \<Rightarrow> Some (Inl e, finish deferred dk, [])
                | Inr (dst, c) \<Rightarrow>
                    (case copy_expand n env src_root src ci c of
                       None \<Rightarrow> None
                     | Some (Inl e, c) \<Rightarrow> Some (Inl e, finish deferred (co_disk c), co_notes c)
                     | Some (Inr srcs, c) \<Rightarrow>
                         map_option (\<lambda>((r, c), deferred). (r, finish deferred (co_disk c), co_notes c))
                           (copy_sources n env src_root dst ci srcs deferred c))))"

end
