(* ===== verification/Copy_Content.thy ===== *)
theory Copy_Content
  imports Copy_Tree Disk_Progress
begin

text \<open>
  The content of a copied file: however much each \<open>copy_file_range\<close> copies, and whether or not calls
  fail, the loop of \<open>copyFileContent\<close> ends, and the target holds a part of the source, all of it when there is no error.
\<close>

text \<open>The disk with the first \<open>m\<close> bytes of \<open>data\<close> in the file \<open>j\<close>, written through \<open>dst\<close> and read from \<open>i\<close> through \<open>src\<close>.\<close>

definition filled :: "nat \<Rightarrow> nat \<Rightarrow> nat \<Rightarrow> nat \<Rightarrow> string \<Rightarrow> nat \<Rightarrow> disk \<Rightarrow> disk \<Rightarrow> bool" where
  "filled dst j src i data m dk dk' \<longleftrightarrow>
     dk_tree dk' = dk_tree dk \<and> dk_next dk' = dk_next dk \<and> dk_next_fd dk' = dk_next_fd dk
     \<and> (\<forall>k. k \<noteq> j \<longrightarrow> dk_inodes dk' k = dk_inodes dk k)
     \<and> (\<exists>t. dk_inodes dk' j = (dk_inodes dk j)\<lparr>in_data := take m data, in_mtime := t\<rparr>)
     \<and> (\<forall>fd. fd \<noteq> src \<longrightarrow> fd \<noteq> dst \<longrightarrow> dk_fds dk' fd = dk_fds dk fd)
     \<and> (\<exists>a b. dk_fds dk' src = Some (i, a) \<and> dk_fds dk' dst = Some (j, b))"

lemma filled_trans: "filled dst j src i data m dk dk1 \<Longrightarrow> filled dst j src i data m' dk1 dk2 \<Longrightarrow> filled dst j src i data m' dk dk2"
  unfolding filled_def by auto

lemma write_at_take:
  assumes "w \<le> length data"
  shows "write_at w (take k (drop w data)) (take w data) = take (w + k) data"
  using assms by (simp add: write_at_def take_add)

text \<open>One call, when something is left to copy.\<close>

lemma copy_file_range_some:
  assumes "dk_fds dk src = Some (i, w)" "dk_fds dk dst = Some (j, w)" "i \<noteq> j" "src \<noteq> dst"
    and "in_data (dk_inodes dk i) = data" "in_data (dk_inodes dk j) = take w data" "w < length data" "0 < desired"
  obtains e where "copy_file_range env dst src desired dk = (Inl e, dk)" "\<not> faultless (cx_disk env)"
  | m dk' where "copy_file_range env dst src desired dk = (Inr m, dk')" "0 < m" "w + m \<le> length data"
      "filled dst j src i data (w + m) dk dk'" "dk_fds dk' src = Some (i, w + m)" "dk_fds dk' dst = Some (j, w + m)"
proof (cases "de_fail (cx_disk env) ''copy_file_range'' [] dk")
  case (Some e)
  then have "\<not> faultless (cx_disk env)" by (auto simp: faultless_def)
  then show thesis using that(1)[of "Errno e"] assms Some by (simp add: copy_file_range_def)
next
  case None
  define k where "k = min desired (Suc (cx_range env dk))"
  define bs where "bs = take k (drop w data)"
  define d1 where "d1 = dk\<lparr>dk_fds := (dk_fds dk)(src \<mapsto> (i, w + length bs), dst \<mapsto> (j, w + length bs))\<rparr>"
  let ?f = "\<lambda>n. n\<lparr>in_data := write_at w bs (in_data n), in_mtime := dk_clock d1\<rparr>"
  have "0 < k" using assms(8) by (simp add: k_def)
  then have len: "0 < length bs" "w + length bs \<le> length data" using assms(7) by (auto simp: bs_def)
  then have r: "copy_file_range env dst src desired dk = (Inr (length bs), set_inode j ?f d1)"
    using assms(1-5) None by (simp add: copy_file_range_def Let_def k_def[symmetric] bs_def[symmetric] d1_def)
  have "write_at w bs (take w data) = take (w + k) data" using write_at_take[of w data k] assms(7) by (simp add: bs_def)
  moreover have "take (w + k) data = take (w + length bs) data" using assms(7) by (simp add: bs_def min_def)
  ultimately have "filled dst j src i data (w + length bs) dk (set_inode j ?f d1)"
    using assms(4,6) unfolding filled_def d1_def by (auto simp: set_inode_def)
  then show thesis using that(2)[OF r len] assms(4) by (simp add: d1_def set_inode_def)
qed

lemma io_copy_rest:
  assumes "dk_fds dk src = Some (i, w)" "dk_fds dk dst = Some (j, w)" "i \<noteq> j" "src \<noteq> dst"
    and "in_data (dk_inodes dk i) = data" "in_data (dk_inodes dk j) = take w data" "w < length data"
  obtains r dk' m where "io_copy env dst src dk = (r, dk')" "m \<le> length data" "filled dst j src i data m dk dk'" "r = Inr () \<longrightarrow> m = length data"
proof -
  define d1 where "d1 = dk\<lparr>dk_fds := (dk_fds dk)(src \<mapsto> (i, length data))\<rparr>"
  have keep: "filled dst j src i data w dk dk" "filled dst j src i data w dk d1"
    unfolding filled_def d1_def using assms by (auto intro: exI[of _ "in_mtime (dk_inodes dk j)"])
  have off: "a + length (drop a data) = length data" if "a \<le> length data" for a using that by simp
  show thesis
  proof (cases "de_fail (cx_disk env) ''read'' [] dk")
    case (Some e)
    then show thesis using that[of "Inl (Errno e)" dk w] keep assms by (simp add: io_copy_def)
  next
    case read: None
    have io: "io_copy env dst src dk = file_write (cx_disk env) dst (drop w data) d1"
      using read assms(1,5,7) by (simp add: io_copy_def d1_def)
    show thesis
    proof (cases "de_fail (cx_disk env) ''write'' [] d1")
      case (Some e)
      then have "io_copy env dst src dk = (Inl (Errno e), d1)" using io assms(2,4) by (simp add: file_write_def d1_def)
      then show thesis using that[of "Inl (Errno e)" d1 w] keep assms(7) by simp
    next
      case None
      let ?d2 = "set_inode j (\<lambda>n. n\<lparr>in_data := write_at w (drop w data) (in_data n), in_mtime := dk_clock d1\<rparr>)
        (d1\<lparr>dk_fds := (dk_fds d1)(dst \<mapsto> (j, w + length (drop w data)))\<rparr>)"
      have "file_write (cx_disk env) dst (drop w data) d1 = (Inr (), ?d2)"
        using None assms(2,4) by (simp add: file_write_def d1_def)
      moreover have "write_at w (drop w data) (take w data) = data"
        using write_at_take[of w data "length data"] assms(7) by simp
      then have "filled dst j src i data (length data) dk ?d2"
        unfolding filled_def d1_def using assms(1-6) by (auto simp: set_inode_def)
      ultimately show thesis using that[of "Inr ()" ?d2 "length data"] io by simp
    qed
  qed
qed

lemma copy_range_loop_ends:
  assumes "dk_fds dk src = Some (i, w)" "dk_fds dk dst = Some (j, w)" "i \<noteq> j" "src \<noteq> dst"
    and "in_data (dk_inodes dk i) = data" "in_data (dk_inodes dk j) = take w data" "w \<le> length data" "length data - w \<le> n"
  shows "\<exists>r dk' m. copy_range_loop n env dst src (length data) w fst_call dk = Some (r, dk') \<and> m \<le> length data
    \<and> filled dst j src i data m dk dk' \<and> (r = Inr () \<longrightarrow> m = length data) \<and> (faultless (cx_disk env) \<longrightarrow> r = Inr ())"
  using assms
proof (induction n arbitrary: w fst_call dk)
  case 0
  then have "filled dst j src i data w dk dk"
    unfolding filled_def by (auto intro: exI[of _ "in_mtime (dk_inodes dk j)"])
  then show ?case using 0 by (auto simp: copy_range_loop.simps intro!: exI[of _ "length data"])
next
  case (Suc n)
  have keep: "filled dst j src i data w dk dk"
    unfolding filled_def using Suc.prems by (auto intro: exI[of _ "in_mtime (dk_inodes dk j)"])
  show ?case
  proof (cases "w < length data")
    case False
    then show ?thesis using Suc.prems keep by (auto simp: copy_range_loop.simps intro!: exI[of _ "length data"])
  next
    case True
    define desired where "desired = (if length data - w > max_int32 then max_int32 else length data - w)"
    have "0 < desired" using True by (simp add: desired_def max_int32_def)
    note unf = copy_range_loop.simps[of "Suc n" env dst src "length data" w fst_call dk, folded desired_def] True
    from copy_file_range_some[OF Suc.prems(1-6) True \<open>0 < desired\<close>, of env] show ?thesis
    proof cases
      case (1 e)
      show ?thesis
      proof (cases "no_range_copy e \<and> fst_call")
        case True
        obtain r dk' m where "io_copy env dst src dk = (r, dk')" "m \<le> length data" "filled dst j src i data m dk dk'" "r = Inr () \<longrightarrow> m = length data"
          by (rule io_copy_rest[OF Suc.prems(1-6) \<open>w < length data\<close>])
        then show ?thesis using 1 True unf by (cases r) (auto simp: desired_def wrap_err_def Let_def simp del: faultlessD)
      next
        case False
        then show ?thesis using 1 unf keep Suc.prems(7) by (auto simp: desired_def Let_def intro!: exI[of _ w])
      qed
    next
      case (2 m dk1)
      have d: "in_data (dk_inodes dk1 i) = data" "in_data (dk_inodes dk1 j) = take (w + m) data"
        using 2(4) Suc.prems(3,5) by (auto simp: filled_def)
      have "length data - (w + m) \<le> n" using 2(2) Suc.prems(8) by simp
      from Suc.IH[OF 2(5,6) Suc.prems(3,4) d 2(3) this, of False] show ?thesis
        using 2(1) unf filled_trans[OF 2(4)] by (simp add: desired_def Let_def) blast
    qed
  qed
qed

end
