(* ===== verification/Copy_Apply.thy ===== *)
theory Copy_Apply
  imports Copy_Content
begin

text \<open>
  What the operations of a copy do to the disk when no call fails and no option changes what is copied: the metadata of
  one file, a new file of each type, and a further link. A disk is compared with an earlier one by
  \<open>changed\<close>: the paths that may differ, and the old inodes whose modification time may.
\<close>

section \<open>Ordinary copies\<close>

text \<open>
  An environment in which no call fails, names and attributes are listed completely and the number of links of a file with two
  names is more than one, and options that copy everything as it is.
\<close>

definition ordinary_env :: "'mi copy_env \<Rightarrow> bool" where
  "ordinary_env env \<longleftrightarrow>
     faultless (cx_disk env) \<and> (\<forall>dk. \<not> cx_done env dk)
     \<and> (\<forall>dk v. finite {x. dk_tree dk (v @ [x]) \<noteq> None} \<longrightarrow>
          distinct (cx_children env dk v) \<and> set (cx_children env dk v) = {x. dk_tree dk (v @ [x]) \<noteq> None})
     \<and> (\<forall>xs. finite (dom xs) \<longrightarrow> set (cx_xattr_keys env xs) = dom xs)
     \<and> (\<forall>dk k p q. dk_tree dk p = Some k \<longrightarrow> dk_tree dk q = Some k \<longrightarrow> p \<noteq> q \<longrightarrow> 1 < cx_nlink env dk k)"

lemma ordinary_children:
  assumes "ordinary_env env" "finite {x. dk_tree dk (v @ [x]) \<noteq> None}"
  shows "distinct (cx_children env dk v)" "set (cx_children env dk v) = {x. dk_tree dk (v @ [x]) \<noteq> None}"
  using assms by (simp_all add: ordinary_env_def)

lemma ordinary_nlink:
  assumes "ordinary_env env" "dk_tree dk p = Some k" "dk_tree dk q = Some k" "p \<noteq> q"
  shows "1 < cx_nlink env dk k"
  using assms unfolding ordinary_env_def by blast

definition ordinary_options :: "'mi copier \<Rightarrow> bool" where
  "ordinary_options c \<longleftrightarrow>
     co_chown c = None \<and> co_utime c = None \<and> co_mode c = None \<and> co_mode_set c = None
     \<and> co_include c = None \<and> co_exclude c = None
     \<and> (case co_changefn c of None \<Rightarrow> True | Some fn \<Rightarrow> \<forall>p fi. fn p fi = None)"

text \<open>
  The inodes that are copied as they are: what does not belong to the type of the file is empty, and neither owner is -1.
  Block devices and sockets are not among them.
\<close>

definition kind_of :: "inode \<Rightarrow> 32 word" where
  "kind_of i = in_mode i AND NOT chmod_bits"

definition copyable :: "inode \<Rightarrow> bool" where
  "copyable i \<longleftrightarrow>
     in_uid i \<noteq> - 1 \<and> in_gid i \<noteq> - 1 \<and> finite (dom (in_xattrs i))
     \<and> kind_of i \<in> {0, mode_dir, mode_symlink, mode_device OR mode_char_device, mode_named_pipe}
     \<and> (kind_of i = mode_symlink \<longrightarrow> in_mode i = mode_symlink OR mode_perm)
     \<and> (kind_of i \<noteq> mode_symlink \<longrightarrow> in_target i = [])
     \<and> (kind_of i \<noteq> mode_device OR mode_char_device \<longrightarrow> in_rdev i = 0)
     \<and> (kind_of i \<noteq> 0 \<longrightarrow> in_data i = [])"

section \<open>Comparing disks\<close>

definition changed :: "vpath set \<Rightarrow> nat set \<Rightarrow> disk \<Rightarrow> disk \<Rightarrow> bool" where
  "changed A D dk dk' \<longleftrightarrow>
     wf_disk dk' \<and> dk_next dk \<le> dk_next dk' \<and> (\<forall>q. q \<notin> A \<longrightarrow> dk_tree dk' q = dk_tree dk q)
     \<and> (\<forall>k < dk_next dk. (\<exists>t. dk_inodes dk' k = (dk_inodes dk k)\<lparr>in_mtime := t\<rparr>) \<and> (k \<notin> D \<longrightarrow> dk_inodes dk' k = dk_inodes dk k))"

lemma changedD:
  assumes "changed A D dk dk'"
  shows "wf_disk dk'" "dk_next dk \<le> dk_next dk'" "q \<notin> A \<Longrightarrow> dk_tree dk' q = dk_tree dk q"
    "k < dk_next dk \<Longrightarrow> k \<notin> D \<Longrightarrow> dk_inodes dk' k = dk_inodes dk k"
    "k < dk_next dk \<Longrightarrow> \<exists>t. dk_inodes dk' k = (dk_inodes dk k)\<lparr>in_mtime := t\<rparr>"
  using assms unfolding changed_def by blast+

lemma same_mtime [simp, intro!]: "\<exists>t. i = (i :: inode)\<lparr>in_mtime := t\<rparr>"
  by (rule exI[of _ "in_mtime i"]) simp

lemma changed_refl: "wf_disk dk \<Longrightarrow> changed {} {} dk dk"
  by (auto simp: changed_def)

lemma changed_mono:
  assumes "changed A D dk dk'" "A \<subseteq> B" "\<And>k. k \<in> D \<Longrightarrow> k < dk_next dk \<Longrightarrow> k \<in> E"
  shows "changed B E dk dk'"
  using assms unfolding changed_def by blast

lemma changed_trans:
  assumes "changed A D dk dk1" "changed B E dk1 dk2"
  shows "changed (A \<union> B) (D \<union> E) dk dk2"
  unfolding changed_def
proof (intro conjI allI impI)
  show "wf_disk dk2" "dk_next dk \<le> dk_next dk2" using changedD(1,2)[OF assms(2)] changedD(2)[OF assms(1)] by auto
  show "dk_tree dk2 q = dk_tree dk q" if "q \<notin> A \<union> B" for q
    using that changedD(3)[OF assms(2), of q] changedD(3)[OF assms(1), of q] by simp
  fix k assume k: "k < dk_next dk"
  then have k1: "k < dk_next dk1" using changedD(2)[OF assms(1)] by simp
  obtain t t' where t: "dk_inodes dk1 k = (dk_inodes dk k)\<lparr>in_mtime := t\<rparr>" "dk_inodes dk2 k = (dk_inodes dk1 k)\<lparr>in_mtime := t'\<rparr>"
    using changedD(5)[OF assms(1) k] changedD(5)[OF assms(2) k1] by blast
  then show "\<exists>t. dk_inodes dk2 k = (dk_inodes dk k)\<lparr>in_mtime := t\<rparr>" by (intro exI[of _ t']) simp
  show "dk_inodes dk2 k = dk_inodes dk k" if "k \<notin> D \<union> E"
    using that changedD(4)[OF assms(1) k] changedD(4)[OF assms(2) k1] by simp
qed

text \<open>A new inode may change in any way that keeps its type.\<close>

lemma changed_set_new:
  assumes "changed A D dk dk'" "dk_next dk \<le> j" "mode_is_dir (in_mode (f (dk_inodes dk' j))) = mode_is_dir (in_mode (dk_inodes dk' j))"
  shows "changed A D dk (set_inode j f dk')"
proof -
  have "same_shape dk' (set_inode j f dk')" using assms(3) by (simp add: same_shape_def set_inode_def)
  then have "wf_disk (set_inode j f dk')" using changedD(1)[OF assms(1)] same_shape_wf by blast
  then show ?thesis using assms(1,2) unfolding changed_def by (auto simp: set_inode_def)
qed

text \<open>What is at a path whose inode is not one of \<open>D\<close>.\<close>

lemma changed_node:
  assumes "changed A D dk dk'" "wf_disk dk" "q \<notin> A" "\<And>k. dk_tree dk q = Some k \<Longrightarrow> k \<notin> D"
  shows "node dk' q = node dk q"
proof (cases "dk_tree dk q")
  case None
  then show ?thesis using changedD(3)[OF assms(1,3)] by (simp add: node_def)
next
  case (Some k)
  then have "dk_inodes dk' k = dk_inodes dk k" using changedD(4)[OF assms(1)] wf_diskD(2)[OF assms(2) Some] assms(4) by blast
  then show ?thesis using changedD(3)[OF assms(1,3)] Some by (simp add: node_def)
qed

lemma changed_dir:
  assumes "changed A D dk dk'" "wf_disk dk" "q \<notin> A"
  shows "is_dir_at dk' q = is_dir_at dk q"
proof (cases "dk_tree dk q")
  case None
  then show ?thesis using changedD(3)[OF assms(1,3)] by (simp add: is_dir_at_iff)
next
  case (Some k)
  then obtain t where "dk_inodes dk' k = (dk_inodes dk k)\<lparr>in_mtime := t\<rparr>" using changedD(5)[OF assms(1)] wf_diskD(2)[OF assms(2) Some] by blast
  then show ?thesis using changedD(3)[OF assms(1,3)] Some by (simp add: is_dir_at_iff)
qed

text \<open>The directory a new entry is made in.\<close>

definition parent_ino :: "disk \<Rightarrow> vpath \<Rightarrow> nat set" where
  "parent_ino dk w = {k. dk_tree dk (butlast w) = Some k}"

text \<open>Making an entry.\<close>

lemma k_create_changed:
  assumes "free_place dk w"
  shows "\<exists>dk'. k_create w i dk = Inr (dk_next dk, dk') \<and> changed {w} (parent_ino dk w) dk dk' \<and> dk_tree dk' w = Some (dk_next dk)
    \<and> dk_inodes dk' (dk_next dk) = i \<and> dk_fds dk' = dk_fds dk \<and> dk_next_fd dk' = dk_next_fd dk"
proof -
  have p: "wf_disk dk" "w \<noteq> []" "is_dir_at dk (butlast w)" "good_comp (last w)" "dk_tree dk w = None"
    using assms by (simp_all add: free_place_def)
  obtain dk' where c: "k_create w i dk = Inr (dk_next dk, dk')" using p(5) by (simp add: k_create_def)
  note r = k_create_result[OF c p(1,3,2,4)]
  obtain pi where pi: "dk_tree dk (butlast w) = Some pi" using p(3) by (auto simp: is_dir_at_iff)
  have ne: "butlast w \<noteq> w" using pi p(5) by auto
  have "dk_inodes dk' k = (if k = pi then (dk_inodes dk k)\<lparr>in_mtime := dk_clock dk\<rparr> else dk_inodes dk k)" if "k < dk_next dk" for k
    using c pi p(5) that ne by (auto simp: k_create_def touch_parent_def set_inode_def)
  then have "changed {w} (parent_ino dk w) dk dk'"
    using r(1,3,6) pi unfolding changed_def parent_ino_def by auto
  then show ?thesis using c r by auto
qed


section \<open>Metadata\<close>

text \<open>An inode that differs from the source's in its metadata only, and has none of its own.\<close>

definition same_body :: "inode \<Rightarrow> inode \<Rightarrow> bool" where
  "same_body i x \<longleftrightarrow>
     in_mode x AND NOT chmod_bits = in_mode i AND NOT chmod_bits \<and> (has_mode (in_mode i) mode_symlink \<longrightarrow> in_mode x = in_mode i)
     \<and> in_target x = in_target i \<and> in_rdev x = in_rdev i \<and> in_data x = in_data i \<and> in_xattrs x \<subseteq>\<^sub>m in_xattrs i"

lemma same_body_refl [simp]: "same_body i i"
  by (simp add: same_body_def)

lemma chmod_bits_split: "(m AND NOT chmod_bits) OR (m AND chmod_bits) = (m :: 32 word)"
  by (rule bit_eqI) (auto simp: bit_simps)

lemma type_of_kind:
  assumes "m AND NOT chmod_bits = k AND NOT chmod_bits"
  shows "mode_is_dir m = mode_is_dir k" "has_mode m mode_symlink = has_mode k mode_symlink"
  using chmod_keeps_type[of m 0] chmod_keeps_type[of k 0] assms by simp_all

lemma has_xattrs:
  "in_xattrs x \<subseteq>\<^sub>m xs \<Longrightarrow> in_xattrs x ++ (xs |` dom xs) = xs"
  by (rule ext) (auto simp: map_add_def restrict_map_def map_le_def dom_def split: option.splits)

lemma copy_xattr_loop_ok:
  assumes "ordinary_env env" "entry_at dk w j" "entry_at dk s k" "j \<noteq> k" "set keys \<subseteq> dom (in_xattrs (dk_inodes dk k))"
  shows "copy_xattr_loop env (abs_path w) (abs_path s) xeh keys dk =
    (Inr (), set_inode j (\<lambda>n. n\<lparr>in_xattrs := in_xattrs n ++ (in_xattrs (dk_inodes dk k) |` set keys)\<rparr>) dk)"
  using assms(2-5)
proof (induction keys arbitrary: dk)
  case Nil
  then show ?case by (simp add: set_inode_def)
next
  case (Cons key keys)
  have faultless: "de_fail (cx_disk env) op p d = None" for op p d using assms(1) by (simp add: ordinary_env_def)
  obtain val where val: "in_xattrs (dk_inodes dk k) key = Some val" using Cons.prems(4) by auto
  let ?f = "\<lambda>n. n\<lparr>in_xattrs := (in_xattrs n)(key \<mapsto> val)\<rparr>"
  have tree: "dk_tree dk s = Some k" "dk_tree dk w = Some j" using Cons.prems by (simp_all add: entry_at_def)
  have g: "os_lgetxattr env (abs_path s) key dk = (Inr val, dk)"
    using entry_at_locate(1)[OF Cons.prems(2), of "cx_disk env"] tree val faultless
    by (simp add: os_lgetxattr_def os_call_def k_get_xattr_def node_def)
  have p: "os_lsetxattr env (abs_path w) key val dk = (Inr (), set_inode j ?f dk)"
    using entry_at_locate(1)[OF Cons.prems(1), of "cx_disk env"] tree faultless
    by (simp add: os_lsetxattr_def os_call_def k_update_def)
  have at: "entry_at (set_inode j ?f dk) w j" "entry_at (set_inode j ?f dk) s k"
    using Cons.prems(1,2) by (auto intro: entry_at_set)
  have src: "dk_inodes (set_inode j ?f dk) k = dk_inodes dk k" using Cons.prems(3) by simp
  have "(m(key \<mapsto> val)) ++ (in_xattrs (dk_inodes dk k) |` set keys) = m ++ (in_xattrs (dk_inodes dk k) |` set (key # keys))" for m
    by (rule ext) (auto simp: map_add_def restrict_map_def val split: option.splits)
  then show ?case using g p Cons.IH[OF at Cons.prems(3)] src Cons.prems(4)
    by (simp add: set_inode_def)
qed

text \<open>\<open>copyFileInfo\<close> and \<open>copyXAttrs\<close> make the new inode that of the source.\<close>

lemma copy_metadata_ok:
  assumes "ordinary_env env" "ordinary_options c" "entry_at (co_disk c) w j" "entry_at (co_disk c) s k" "j \<noteq> k"
    and "dk_inodes (co_disk c) k = si_node fi" "copyable (si_node fi)" "same_body (si_node fi) (dk_inodes (co_disk c) j)"
  shows "copy_info_and_xattrs env fi (abs_path s) (abs_path w) c = Some (Inr (), c\<lparr>co_disk := set_inode j (\<lambda>_. si_node fi) (co_disk c)\<rparr>)"
proof -
  define i where "i = si_node fi"
  define x where "x = dk_inodes (co_disk c) j"
  define e where "e = cx_disk env"
  note at = entry_at_locate[of _ w j e]
  have faultless [simp]: "de_fail e op p d = None" for op p d using assms(1) by (simp add: ordinary_env_def e_def)
  have ids: "in_uid i \<noteq> - 1" "in_gid i \<noteq> - 1" "finite (dom (in_xattrs i))" using assms(7) by (simp_all add: copyable_def i_def)
  have body: "in_mode x AND NOT chmod_bits = in_mode i AND NOT chmod_bits" "has_mode (in_mode i) mode_symlink \<Longrightarrow> in_mode x = in_mode i"
    "in_target x = in_target i" "in_rdev x = in_rdev i" "in_data x = in_data i" "in_xattrs x \<subseteq>\<^sub>m in_xattrs i"
    using assms(8) by (simp_all add: same_body_def i_def x_def)
  define f1 :: "inode \<Rightarrow> inode" where "f1 = (\<lambda>n. n\<lparr>in_uid := in_uid i, in_gid := in_gid i\<rparr>)"
  define f2 :: "inode \<Rightarrow> inode" where
    "f2 = (if has_mode (in_mode i) mode_symlink then f1
       else (\<lambda>n. (f1 n)\<lparr>in_mode := (in_mode n AND NOT chmod_bits) OR (in_mode i AND chmod_bits)\<rparr>))"
  define f3 :: "inode \<Rightarrow> inode" where "f3 = (\<lambda>n. (f2 n)\<lparr>in_mtime := in_mtime i\<rparr>)"
  let ?d = "co_disk c"
  have atf: "entry_at (set_inode j f ?d) w j" "entry_at (set_inode j f ?d) s k" "dk_inodes (set_inode j f ?d) k = i"
    if "\<And>n. mode_is_dir (in_mode (f n)) = mode_is_dir (in_mode n)" for f
    using entry_at_set[OF assms(3) that] entry_at_set[OF assms(4) that] assms(5,6) by (simp_all add: i_def)
  have dirs: "mode_is_dir (in_mode (f1 n)) = mode_is_dir (in_mode n)" "mode_is_dir (in_mode (f2 n)) = mode_is_dir (in_mode n)"
    "mode_is_dir (in_mode (f3 n)) = mode_is_dir (in_mode n)" for n by (simp_all add: f1_def f2_def f3_def)
  have tree [simp]: "dk_tree ?d w = Some j" using assms(3) by (simp add: entry_at_def)
  have own: "os_lchown e (abs_path w) (in_uid i) (in_gid i) ?d = (Inr (), set_inode j f1 ?d)"
    using at(1)[OF assms(3)] ids by (simp add: os_lchown_def os_call_def k_update_def owner_or_def f1_def)
  have ch: "\<not> has_mode (in_mode i) mode_symlink \<Longrightarrow>
      os_chmod e (abs_path w) (in_mode i) (set_inode j f1 ?d) = (Inr (), set_inode j f2 ?d)"
  proof -
    assume l: "\<not> has_mode (in_mode i) mode_symlink"
    then have "\<not> is_symlink_node (dk_inodes (set_inode j f1 ?d) j)"
      using type_of_kind(2)[OF body(1)] by (simp add: is_symlink_node_def f1_def x_def)
    then show ?thesis using at(2)[OF atf(1)[OF dirs(1)]] l
      by (simp add: os_chmod_def os_call_def k_update_def f2_def set_inode_def f1_def)
  qed
  have ut: "os_utimes e (abs_path w) (in_mtime i) (set_inode j f2 ?d) = (Inr (), set_inode j f3 ?d)"
    using at(1)[OF atf(1)[OF dirs(2)]] by (simp add: os_utimes_def os_call_def k_update_def f3_def set_inode_def)
  have opts: "co_chown c = None" "co_utime c = None" "co_mode c = None" "co_mode_set c = None"
    using assms(2) by (simp_all add: ordinary_options_def)
  have info: "copy_file_info env c fi (abs_path w) ?d = (Inr (), set_inode j f3 ?d)"
    unfolding copy_file_info_def Let_def copy_file_timestamp_def copied_mode_def
    by (cases "has_mode (in_mode i) mode_symlink")
      (use own ch ut opts in \<open>simp_all add: chown_def wrap_err_def try_bind_def i_def[symmetric] e_def[symmetric], simp add: f2_def\<close>)
  have src: "dk_inodes (set_inode j f3 ?d) k = i" using atf(3)[OF dirs(3)] .
  have keys: "set (cx_xattr_keys env (in_xattrs i)) = dom (in_xattrs i)" using assms(1) ids(3) by (simp add: ordinary_env_def)
  have ls: "os_llistxattr env (abs_path s) (set_inode j f3 ?d) = (Inr (cx_xattr_keys env (in_xattrs i)), set_inode j f3 ?d)"
    using entry_at_locate(1)[OF atf(2)[OF dirs(3)], of e] atf(2)[OF dirs(3)] src
    by (simp add: os_llistxattr_def os_call_def k_list_xattr_def node_def e_def[symmetric] entry_at_def del: set_inode_simps(4))
  have xs: "copy_xattrs env (abs_path w) (abs_path s) xeh (set_inode j f3 ?d) = (Inr (), set_inode j (\<lambda>_. i) ?d)" for xeh
  proof -
    have "i = (f3 x)\<lparr>in_xattrs := in_xattrs (f3 x) ++ (in_xattrs i |` dom (in_xattrs i))\<rparr>"
      using has_xattrs[OF body(6)] body chmod_bits_split[of "in_mode i"] by (simp add: f3_def f2_def f1_def)
    then show ?thesis
      using copy_xattr_loop_ok[OF assms(1) atf(1)[OF dirs(3)] atf(2)[OF dirs(3)] assms(5)] src keys ls
      by (simp add: copy_xattrs_def set_inode_def x_def del: set_inode_simps)
  qed
  show ?thesis using info xs
    by (simp add: copy_info_and_xattrs_def co_call_def co_bind_def wrap_err_def i_def)
qed


section \<open>New files\<close>

text \<open>A new entry at \<open>w\<close>, for a new inode or one that has the content of the source already.\<close>

definition made_entry :: "disk \<Rightarrow> vpath \<Rightarrow> inode \<Rightarrow> nat \<Rightarrow> disk \<Rightarrow> bool" where
  "made_entry dk w i j dk' \<longleftrightarrow>
     changed {w} (parent_ino dk w) dk dk' \<and> dk_tree dk' w = Some j \<and> same_body i (dk_inodes dk' j)
     \<and> (dk_next dk \<le> j \<or> dk_inodes dk' j = i)"

lemma changed_same_disk:
  assumes "changed A D dk dk1" "dk_tree dk2 = dk_tree dk1" "dk_inodes dk2 = dk_inodes dk1" "dk_next dk2 = dk_next dk1"
  shows "changed A D dk dk2"
  using assms same_entries(1)[OF assms(2-4)] unfolding changed_def by simp

lemma go_special_kind: "(kind OR go_special sm) AND NOT chmod_bits = kind AND NOT chmod_bits"
  by (rule bit_eqI) (auto simp: bit_simps chmod_bits_def go_special_def)

lemma created_kind_bits:
  "in_mode (created env kind m dk) AND NOT chmod_bits = kind AND NOT chmod_bits"
  "in_mode (created env (kind OR go_special sm) m dk) AND NOT chmod_bits = kind AND NOT chmod_bits"
  by (simp_all only: created_def fresh_inode_def inode.simps and.assoc[symmetric] created_mode go_special_kind)
    (simp_all add: created_mode go_special_kind and.assoc)

lemma created_fields [simp]:
  "in_target (created env kind m dk) = []" "in_rdev (created env kind m dk) = 0" "in_data (created env kind m dk) = []"
  "in_xattrs (created env kind m dk) = Map.empty"
  by (simp_all add: created_def fresh_inode_def)


lemma copy_file_ok:
  assumes "ordinary_env env" "free_place dk w" "entry_at dk s k" "\<not> mode_is_dir (in_mode (dk_inodes dk k))"
    and "\<not> has_mode (in_mode (dk_inodes dk k)) mode_symlink" "length (in_data (dk_inodes dk k)) \<le> n"
    and "copyable (dk_inodes dk k)" "kind_of (dk_inodes dk k) = 0"
  shows "\<exists>dk'. copy_file n env (abs_path s) (abs_path w) dk = Some (Inr (), dk') \<and> made_entry dk w (dk_inodes dk k) (dk_next dk) dk'"
proof -
  define e where "e = cx_disk env"
  have [simp]: "de_fail e op p d = None" "faultless e" for op p d using assms(1) by (simp_all add: ordinary_env_def e_def)
  define i where "i = dk_inodes dk k"
  have wf: "wf_disk dk" "dk_tree dk s = Some k" using assms(3) by (simp_all add: entry_at_def)
  have kn: "k < dk_next dk" using wf_diskD(2)[OF wf] .
  define fs where "fs = dk_next_fd dk"
  define d1 where "d1 = dk\<lparr>dk_fds := (dk_fds dk)(fs \<mapsto> (k, 0)), dk_next_fd := Suc fs\<rparr>"
  have open1: "os_open env (abs_path s) dk = (Inr fs, d1)"
    using entry_at_locate(2)[OF assms(3), of e] assms(5) wf(2)
    by (simp add: os_open_def os_call_def k_open_read_def new_fd_def is_symlink_node_def e_def[symmetric] fs_def d1_def)
  have free: "free_place d1 w" using assms(2) same_entries(1)[of d1 dk] by (simp add: free_place_def d1_def is_dir_at_iff)
  define x where "x = created e 0 0x1B6 d1"
  obtain d2 where c: "k_create w x d1 = Inr (dk_next d1, d2)" "changed {w} (parent_ino d1 w) d1 d2" "dk_tree d2 w = Some (dk_next d1)"
    "dk_inodes d2 (dk_next d1) = x" "dk_fds d2 = dk_fds d1" "dk_next_fd d2 = dk_next_fd d1" using k_create_changed[OF free] by blast
  define j where "j = dk_next dk"
  define ft where "ft = Suc fs"
  define d3 where "d3 = d2\<lparr>dk_fds := (dk_fds d2)(ft \<mapsto> (j, 0)), dk_next_fd := Suc ft\<rparr>"
  have none: "dk_tree d1 w = None" using free by (simp add: free_place_def)
  have open2: "os_create_trunc env (abs_path w) d1 = (Inr ft, d3)"
    using free_place_locate(2)[OF free, of e] none c(1,6)
    by (simp add: os_create_trunc_def os_call_def k_create_trunc_def k_open_create_def new_fd_def e_def[symmetric] x_def d3_def ft_def j_def d1_def)
  have ch: "changed {w} (parent_ino dk w) dk d3"
    using c(2) same_entries(1)[of d3 d2] by (auto simp: changed_def d1_def d3_def parent_ino_def)
  have dir: "is_dir_at dk (butlast w)" using assms(2) by (simp add: free_place_def)
  then have kp: "k \<notin> parent_ino dk w" using assms(4) by (auto simp: parent_ino_def is_dir_at_iff)
  have src: "dk_inodes d3 k = i" using changedD(4)[OF ch kn kp] by (simp add: i_def)
  have fds: "dk_fds d3 fs = Some (k, 0)" "dk_fds d3 ft = Some (j, 0)" using c(5) by (simp_all add: d3_def ft_def d1_def)
  have new: "dk_inodes d3 j = x" using c(4) by (simp add: d3_def j_def d1_def)
  have ne: "k \<noteq> j" "fs \<noteq> ft" using kn by (simp_all add: j_def ft_def)
  obtain r d4 m where l: "copy_range_loop n env ft fs (length (in_data i)) 0 True d3 = Some (r, d4)" "filled ft j fs k (in_data i) m d3 d4"
    "r = Inr () \<longrightarrow> m = length (in_data i)" "faultless (cx_disk env) \<longrightarrow> r = Inr ()"
    using copy_range_loop_ends[OF fds ne, of "in_data i" n env True] src new assms(6)
    by (simp only: i_def x_def take_0 created_fields le0 diff_zero) blast
  then have r: "r = Inr ()" "m = length (in_data i)" by (simp_all add: e_def[symmetric])
  have f4: "\<exists>b. dk_fds d4 ft = Some (j, b)" "\<exists>a. dk_fds d4 fs = Some (k, a)" using l(2) by (auto simp: filled_def)
  obtain d5 where d5: "snd (file_close e ft d4) = d5" "dk_tree d5 = dk_tree d4" "dk_inodes d5 = dk_inodes d4" "dk_next d5 = dk_next d4"
    using f4 by (auto simp: file_close_def)
  obtain d6 where d6: "snd (file_close e fs d5) = d6" "dk_tree d6 = dk_tree d5" "dk_inodes d6 = dk_inodes d5" "dk_next d6 = dk_next d5"
    by (auto simp: file_close_def split: option.splits)
  have res: "copy_file n env (abs_path s) (abs_path w) dk = Some (Inr (), d6)"
    using open1 open2 l(1) r(1) fds(1) src d5(1) d6(1) by (simp add: copy_file_def copy_file_content_def e_def[symmetric])
  obtain t where t: "dk_inodes d4 j = x\<lparr>in_data := in_data i, in_mtime := t\<rparr>" using l(2) new r(2) by (auto simp: filled_def)
  define y where "y = x\<lparr>in_data := in_data i, in_mtime := t\<rparr>"
  have keep: "dk_tree d4 = dk_tree d3" "dk_next d4 = dk_next d3" "dk_inodes d4 = (dk_inodes d3)(j := y)"
    using l(2) t by (auto simp: filled_def y_def)
  have "changed {w} (parent_ino dk w) dk (set_inode j (\<lambda>_. y) d3)"
    by (rule changed_set_new[OF ch]) (simp_all add: j_def[symmetric] y_def new)
  then have "changed {w} (parent_ino dk w) dk d4" by (rule changed_same_disk) (simp_all add: set_inode_def keep)
  then have "changed {w} (parent_ino dk w) dk d6" by (rule changed_same_disk) (simp_all add: d5 d6)
  moreover have "dk_tree d6 w = Some j" using keep(1) c(3) by (simp add: d5 d6 d3_def j_def d1_def)
  moreover have "same_body i (dk_inodes d6 j)"
    using assms(5,7,8) created_kind_bits(1)[of e 0 "0x1B6" d1]
    by (simp add: same_body_def d5 d6 t x_def i_def copyable_def mode_bits kind_of_def)
  ultimately have "made_entry dk w i j d6" by (auto simp: made_entry_def j_def)
  then show ?thesis using res by (auto simp: i_def j_def)
qed


text \<open>The type of a file decides the case of \<open>copy\<close> and the call that makes it.\<close>

lemma kind_bits:
  "in_mode i AND mode_type = kind_of i AND mode_type"
  "mode_is_dir (in_mode i) = mode_is_dir (kind_of i)"
  "b AND chmod_bits = 0 \<Longrightarrow> has_mode (in_mode i) b = has_mode (kind_of i) b"
proof -
  have "NOT chmod_bits AND mode_type = mode_type" by (simp add: chmod_bits_eq mode_type_def mode_bits)
  then show "in_mode i AND mode_type = kind_of i AND mode_type" by (simp add: kind_of_def and.assoc)
  show "mode_is_dir (in_mode i) = mode_is_dir (kind_of i)" using type_of_kind(1)[of "in_mode i" "kind_of i"] by (simp add: kind_of_def and.assoc)
  show "has_mode (in_mode i) b = has_mode (kind_of i) b" if "b AND chmod_bits = 0"
    using chmod_keeps_bit[OF that, of "in_mode i" 0] by (simp add: kind_of_def)
qed

lemma special_bits:
  "mode_symlink AND chmod_bits = 0" "mode_device AND chmod_bits = 0" "mode_named_pipe AND chmod_bits = 0" "mode_socket AND chmod_bits = 0"
  "mode_char_device AND chmod_bits = 0"
  by (simp_all add: chmod_bits_eq mode_bits)

lemma sys_mode_type: "(sys_mode m AND NOT S_IFSOCK) AND 0xF000 = sys_type m AND 0x3000"
proof -
  have c: "NOT S_IFSOCK AND 0xF000 = 0x3000" by (simp add: S_IFSOCK_def)
  have "sys_mode m AND 0x3000 = sys_type m AND 0x3000"
    by (simp add: sys_mode_def bit.conj_disj_distrib2 and.assoc mode_perm_def)
  then show ?thesis by (simp add: and.assoc c)
qed


lemma create_made:
  assumes "faultless e" "free_place dk w" "same_body i (f dk)"
  shows "\<exists>n dk'. os_call e op (abs_path w) (\<lambda>dk. locate e dk (abs_path w)) (\<lambda>v dk. k_create v (f dk) dk) dk = (Inr n, dk') \<and> made_entry dk w i (dk_next dk) dk'"
proof -
  obtain dk' where c: "k_create w (f dk) dk = Inr (dk_next dk, dk')" "changed {w} (parent_ino dk w) dk dk'" "dk_tree dk' w = Some (dk_next dk)"
    "dk_inodes dk' (dk_next dk) = f dk" using k_create_changed[OF assms(2)] by blast
  have "os_call e op (abs_path w) (\<lambda>dk. locate e dk (abs_path w)) (\<lambda>v dk. k_create v (f dk) dk) dk = (Inr (dk_next dk), dk')"
    using free_place_locate(1)[OF assms(2), of e] assms(1) c(1) by (simp add: os_call_def)
  then show ?thesis using c assms(3) by (auto simp: made_entry_def)
qed

lemma copy_symlink_ok:
  assumes "ordinary_env env" "free_place (co_disk c) w" "entry_at (co_disk c) s k" "copyable (dk_inodes (co_disk c) k)"
    and "kind_of (dk_inodes (co_disk c) k) = mode_symlink"
  shows "\<exists>dk'. copy_symlink env (abs_path s) (abs_path w) c = Some (Inr (), c\<lparr>co_disk := dk'\<rparr>)
    \<and> made_entry (co_disk c) w (dk_inodes (co_disk c) k) (dk_next (co_disk c)) dk'"
proof -
  define dk where "dk = co_disk c"
  define e where "e = cx_disk env"
  define i where "i = dk_inodes dk k"
  have f: "faultless e" using assms(1) by (simp add: ordinary_env_def e_def)
  have at: "entry_at dk s k" "dk_tree dk s = Some k" using assms(3) by (simp_all add: dk_def entry_at_def)
  have m: "in_mode i = mode_symlink OR mode_perm" using assms(4,5) by (simp add: i_def copyable_def dk_def)
  then have l: "is_symlink_node i" by (simp add: is_symlink_node_def has_mode_def mode_is_dir_def mode_bits)
  have r: "os_readlink env (abs_path s) dk = (Inr (in_target i), dk)"
    using entry_at_locate(1)[OF at(1), of e] at(2) f l by (simp add: os_readlink_def os_call_def k_readlink_def node_def e_def[symmetric] i_def)
  let ?f = "\<lambda>dk. (fresh_inode e (mode_symlink OR mode_perm))\<lparr>in_target := in_target i, in_mtime := dk_clock dk\<rparr>"
  have "same_body i (?f dk)"
    using assms(4,5) m by (simp add: same_body_def fresh_inode_def copyable_def i_def dk_def mode_bits)
  from create_made[where f = ?f, OF f assms(2)[folded dk_def] this, of "''symlink''"]
  obtain n dk' where "os_symlink e (in_target i) (abs_path w) dk = (Inr n, dk')" "made_entry dk w i (dk_next dk) dk'"
    by (auto simp: os_symlink_def)
  then show ?thesis using r
    by (intro exI[of _ dk']) (simp add: copy_symlink_def co_call_def co_bind_def wrap_err_def dk_def[symmetric] e_def[symmetric] i_def)
qed

lemma sys_mknod_ok:
  assumes "ordinary_env env" "free_place dk w" "copyable i" "kind_of i \<in> {mode_device OR mode_char_device, mode_named_pipe}"
    and "sm = sys_mode (in_mode i) AND NOT S_IFSOCK"
  shows "\<exists>n dk'. sys_mknod env (abs_path w) sm (in_rdev i) dk = (Inr n, dk') \<and> made_entry dk w i (dk_next dk) dk'"
proof -
  define e where "e = cx_disk env"
  have f: "faultless e" using assms(1) by (simp add: ordinary_env_def e_def)
  have bits: "mode_is_dir (in_mode i) = mode_is_dir (kind_of i)" "has_mode (in_mode i) mode_symlink = has_mode (kind_of i) mode_symlink"
    "has_mode (in_mode i) mode_named_pipe = has_mode (kind_of i) mode_named_pipe" "has_mode (in_mode i) mode_socket = has_mode (kind_of i) mode_socket"
    "has_mode (in_mode i) mode_char_device = has_mode (kind_of i) mode_char_device"
    by (simp_all add: kind_bits special_bits)
  have t: "sys_type (in_mode i) = (if kind_of i = mode_named_pipe then 0x1000 else S_IFCHR)"
    using assms(4) unfolding sys_type_def bits by (auto simp: has_mode_def mode_is_dir_def mode_bits)
  have k: "mknod_kind sm = Inr (kind_of i)"
    using assms(4) t unfolding mknod_kind_def assms(5) sys_mode_type by (auto simp: S_IFCHR_def S_IFBLK_def mode_bits)
  have kk: "kind_of i AND NOT chmod_bits = kind_of i" by (simp add: kind_of_def and.assoc)
  let ?f = "\<lambda>dk. (created e (kind_of i OR go_special sm) sm dk)\<lparr>in_rdev := in_rdev i\<rparr>"
  have "\<not> has_mode (in_mode i) mode_symlink" using assms(4) bits(2) by (auto simp: has_mode_def mode_bits)
  then have "same_body i (?f dk)"
    using assms(3,4) created_kind_bits(2)[of e "kind_of i" sm sm dk] kk
    by (auto simp: same_body_def kind_of_def[symmetric] copyable_def mode_bits)
  from create_made[where f = ?f, OF f assms(2) this, of "''mknod''"] show ?thesis
    by (simp add: sys_mknod_def k e_def[symmetric])
qed

lemma copy_special_ok:
  assumes "ordinary_env env" "free_place (co_disk c) w" "si_node fi = i" "copyable i"
    and "kind_of i \<in> {mode_device OR mode_char_device, mode_named_pipe}"
  shows "\<exists>dk'. copy_special env (abs_path w) fi c = Some (Inr (), c\<lparr>co_disk := dk'\<rparr>) \<and> made_entry (co_disk c) w i (dk_next (co_disk c)) dk'"
proof -
  have "has_mode (in_mode i) mode_device = (kind_of i \<noteq> mode_named_pipe)" "has_mode (in_mode i) mode_char_device = (kind_of i \<noteq> mode_named_pipe)"
    using assms(5) kind_bits(3)[OF special_bits(2), of i] kind_bits(3)[OF special_bits(5), of i] by (auto simp: has_mode_def mode_bits)
  moreover have "kind_of i = mode_named_pipe \<Longrightarrow> in_rdev i = 0" using assms(4) by (auto simp: copyable_def mode_bits)
  ultimately have d: "copy_device env (abs_path w) fi dk = sys_mknod env (abs_path w) (sys_mode (in_mode i) AND NOT S_IFSOCK) (in_rdev i) dk" for dk
    using assms(3) by (simp add: copy_device_def copy_mknod_def)
  obtain n dk' where "sys_mknod env (abs_path w) (sys_mode (in_mode i) AND NOT S_IFSOCK) (in_rdev i) (co_disk c) = (Inr n, dk')"
    "made_entry (co_disk c) w i (dk_next (co_disk c)) dk'" using sys_mknod_ok[OF assms(1,2,4,5) refl] by blast
  then show ?thesis by (intro exI[of _ dk']) (simp add: copy_special_def co_call_def co_bind_def wrap_err_def d)
qed


text \<open>A directory, and a further link to a file that was copied before.\<close>

lemma lstat_free:
  assumes "ordinary_env env" "free_place dk w"
  shows "copy_lstat env (abs_path w) dk = (Inl (PathError ''lstat'' (abs_path w) ENOENT), dk)"
  using free_place_locate(1)[OF assms(2), of "cx_disk env"] assms
  by (simp add: copy_lstat_def os_call_def k_info_def ordinary_env_def free_place_def)

lemma lstat_entry:
  assumes "ordinary_env env" "entry_at dk s k"
  shows "copy_lstat env (abs_path s) dk = (Inr \<lparr>si_ino = k, si_nlink = cx_nlink env dk k, si_node = dk_inodes dk k\<rparr>, dk)"
  using entry_at_locate(1)[OF assms(2), of "cx_disk env"] assms
  by (simp add: copy_lstat_def os_call_def k_info_def ordinary_env_def entry_at_def)

lemma copy_directory_only_ok:
  assumes "ordinary_env env" "free_place dk w" "copyable (si_node fi)" "kind_of (si_node fi) = mode_dir"
  shows "\<exists>dk'. copy_directory_only env (abs_path w) fi overwrite dk = (Inr True, dk') \<and> made_entry dk w (si_node fi) (dk_next dk) dk'"
proof -
  define e where "e = cx_disk env"
  have f: "faultless e" using assms(1) by (simp add: ordinary_env_def e_def)
  let ?f = "\<lambda>dk. created e mode_dir (si_mode fi) dk"
  have kk: "mode_dir AND NOT chmod_bits = mode_dir" by (simp add: mode_bits chmod_bits_eq)
  have "\<not> has_mode (si_mode fi) mode_symlink" using kind_bits(3)[OF special_bits(1), of "si_node fi"] assms(4) by (simp add: has_mode_def mode_bits)
  then have "same_body (si_node fi) (?f dk)"
    using assms(3,4) created_kind_bits(1)[of e mode_dir "si_mode fi" dk]
    by (simp add: same_body_def copyable_def kind_of_def[symmetric] kk) (simp add: mode_bits)
  from create_made[where f = ?f, OF f assms(2) this, of "''mkdir''"]
  obtain n dk' where "os_mkdir e (abs_path w) (si_mode fi) dk = (Inr n, dk')" "made_entry dk w (si_node fi) (dk_next dk) dk'"
    by (auto simp: os_mkdir_def)
  then show ?thesis
    by (intro exI[of _ dk']) (simp add: copy_directory_only_def lstat_free[OF assms(1,2)] os_is_not_exist_def wrap_err_def try_bind_def e_def)
qed

lemma os_link_made:
  assumes "faultless e" "free_place dk w" "entry_at dk q j" "\<not> mode_is_dir (in_mode (dk_inodes dk j))"
  shows "\<exists>dk'. os_link e (abs_path q) (abs_path w) dk = (Inr (), dk') \<and> made_entry dk w (dk_inodes dk j) j dk'"
proof -
  have p: "wf_disk dk" "w \<noteq> []" "is_dir_at dk (butlast w)" "good_comp (last w)" "dk_tree dk w = None"
    using assms(2) by (simp_all add: free_place_def)
  have q: "dk_tree dk q = Some j" using assms(3) by (simp add: entry_at_def)
  obtain dk' where l: "k_link q w dk = Inr ((), dk')" using q p(5) assms(4) by (simp add: k_link_def)
  note r = k_link_result[OF l p(1,3,2,4)]
  obtain pi where pi: "dk_tree dk (butlast w) = Some pi" "mode_is_dir (in_mode (dk_inodes dk pi))" using p(3) by (auto simp: is_dir_at_iff)
  have ne: "butlast w \<noteq> w" using pi p(5) by auto
  have ino: "dk_inodes dk' k = (if k = pi then (dk_inodes dk k)\<lparr>in_mtime := dk_clock dk\<rparr> else dk_inodes dk k)" for k
    using l pi q p(5) ne assms(4) by (auto simp: k_link_def touch_parent_def set_inode_def)
  have "changed {w} (parent_ino dk w) dk dk'"
    using r(1,3,7) pi ino unfolding changed_def parent_ino_def by auto
  moreover have "j \<noteq> pi" using assms(4) pi(2) by auto
  moreover have "os_link e (abs_path q) (abs_path w) dk = (Inr (), dk')"
    using free_place_locate(1)[OF assms(2), of e] entry_at_locate(1)[OF assms(3), of e] assms(1) l by (simp add: os_link_def os_call_def)
  ultimately show ?thesis using r(3) q ino by (auto simp: made_entry_def)
qed

end
