(* ===== verification/Copy_Whole.thy ===== *)
theory Copy_Whole
  imports Copy_Apply
begin

text \<open>
  Copying a whole tree: in an ordinary environment \<open>copy\<close> makes at a free place exactly what is at the source, with all metadata
  and the modification times of directories, and changes nothing else but the time of the directory it
  works in. The induction is over the fuel; \<open>copy_claim\<close> is what it proves for each file of the source.
\<close>

section \<open>Files that are no directories\<close>

lemma abs_path_not_Nil [simp]: "abs_path q \<noteq> []"
  by (simp add: abs_path_def)

text \<open>An entry with an inode of its own; the path of a file with further names is kept.\<close>

definition new_inode :: "bool \<Rightarrow> nat \<Rightarrow> string \<Rightarrow> disk \<Rightarrow> nat \<Rightarrow> (nat \<rightharpoonup> string) \<Rightarrow> (nat \<rightharpoonup> string) \<Rightarrow> bool" where
  "new_inode several k p dk j im m \<longleftrightarrow>
     dk_next dk \<le> j \<and> (if several then im k = None \<and> m = im(k \<mapsto> p) else m = im)"

lemma copy_other_ok:
  assumes "ordinary_env env" "free_place (co_disk c) w" "entry_at (co_disk c) s k" "si_ino fi = k" "si_node fi = i"
    and "dk_inodes (co_disk c) k = i" "copyable i" "kind_of i \<noteq> mode_dir" "length (in_data i) \<le> n" "k < b" "b \<le> dk_next (co_disk c)"
    and links: "\<And>p. co_inodes c k = Some p \<Longrightarrow> p = abs_path lq \<and> entry_at (co_disk c) lq lj \<and> dk_inodes (co_disk c) lj = i \<and> b \<le> lj"
  shows "\<exists>dk' j m. copy_other n env (abs_path s) (abs_path w) fi c = Some (Inr (), c\<lparr>co_inodes := m, co_disk := dk'\<rparr>)
    \<and> made_entry (co_disk c) w i j dk' \<and> b \<le> j \<and> (m = co_inodes c \<or> m = (co_inodes c)(k \<mapsto> abs_path w))
    \<and> (new_inode (kind_of i = 0 \<and> 1 < si_nlink fi) k (abs_path w) (co_disk c) j (co_inodes c) m
       \<or> kind_of i = 0 \<and> m = co_inodes c \<and> co_inodes c k = Some (abs_path lq) \<and> entry_at (co_disk c) lq j)"
proof -
  have bits: "in_mode i AND mode_type = kind_of i AND mode_type" "has_mode (in_mode i) mode_symlink = has_mode (kind_of i) mode_symlink"
    "has_mode (in_mode i) mode_device = has_mode (kind_of i) mode_device" "has_mode (in_mode i) mode_named_pipe = has_mode (kind_of i) mode_named_pipe"
    by (simp_all add: kind_bits special_bits)
  have kinds: "kind_of i \<in> {0, mode_symlink, mode_device OR mode_char_device, mode_named_pipe}" using assms(7,8) by (auto simp: copyable_def)
  have f: "faultless (cx_disk env)" using assms(1) by (simp add: ordinary_env_def)
  consider (regular) "kind_of i = 0" | (symlink) "kind_of i = mode_symlink" | (special) "kind_of i \<in> {mode_device OR mode_char_device, mode_named_pipe}"
    using kinds by blast
  then show ?thesis
  proof cases
    case regular
    have nd: "\<not> mode_is_dir (in_mode i)" "\<not> has_mode (in_mode i) mode_symlink"
      using regular kind_bits(2)[of i] bits(2) by (simp_all add: mode_is_dir_def has_mode_def)
    have o: "copy_other n env (abs_path s) (abs_path w) fi c = copy_regular n env (abs_path s) (abs_path w) fi c"
      using regular bits(1) assms(5) by (simp add: copy_other_def)
    obtain link m where g: "get_link_source (abs_path w) fi (co_inodes c) = (link, m)" by fastforce
    then have m: "m = co_inodes c \<or> m = (co_inodes c)(k \<mapsto> abs_path w)"
      using assms(4) by (auto simp: get_link_source_def get_link_info_def split: if_splits option.splits)
    show ?thesis
    proof (cases "link = []")
      case True
      obtain dk' where "copy_file n env (abs_path s) (abs_path w) (co_disk c) = Some (Inr (), dk')"
        "made_entry (co_disk c) w i (dk_next (co_disk c)) dk'"
        using copy_file_ok[OF assms(1-3)] nd assms(6,7,9) regular by auto
      moreover have "co_inodes c k \<noteq> Some []" using links[of "[]"] abs_path_not_Nil[of lq] by metis
      then have "new_inode (kind_of i = 0 \<and> 1 < si_nlink fi) k (abs_path w) (co_disk c) (dk_next (co_disk c)) (co_inodes c) m"
        using g True assms(4,5) nd(1) regular
        by (auto simp: new_inode_def get_link_source_def get_link_info_def split: if_splits option.splits)
      ultimately show ?thesis using o g m True assms(11)
        by (intro exI[of _ dk'] exI[of _ "dk_next (co_disk c)"] exI[of _ m]) (simp add: copy_regular_def co_run_def wrap_err_def)
    next
      case False
      then have "co_inodes c k = Some link" "m = co_inodes c"
        using g assms(4) by (auto simp: get_link_source_def get_link_info_def split: if_splits option.splits)
      then have q: "link = abs_path lq" "entry_at (co_disk c) lq lj" "dk_inodes (co_disk c) lj = i" "b \<le> lj" "m = co_inodes c"
        "co_inodes c k = Some (abs_path lq)" using links by blast+
      obtain dk' where "os_link (cx_disk env) link (abs_path w) (co_disk c) = (Inr (), dk')" "made_entry (co_disk c) w i lj dk'"
        using os_link_made[OF f assms(2) q(2)] nd(1) q(1,3) by auto
      then show ?thesis using o g False q(2,4-6) regular
        by (intro exI[of _ dk'] exI[of _ lj] exI[of _ m]) (simp add: copy_regular_def co_call_def wrap_err_def)
    qed
  next
    case symlink
    have "copy_other n env (abs_path s) (abs_path w) fi c = copy_symlink env (abs_path s) (abs_path w) c"
      using symlink bits assms(5) by (simp add: copy_other_def mode_bits mode_type_def has_mode_def)
    moreover obtain dk' where "copy_symlink env (abs_path s) (abs_path w) c = Some (Inr (), c\<lparr>co_disk := dk'\<rparr>)"
      "made_entry (co_disk c) w i (dk_next (co_disk c)) dk'" using copy_symlink_ok[OF assms(1-3)] assms(6,7) symlink by auto
    ultimately show ?thesis using assms(11) symlink
      by (intro exI[of _ dk'] exI[of _ "dk_next (co_disk c)"] exI[of _ "co_inodes c"]) (simp add: new_inode_def mode_bits)
  next
    case special
    have "copy_other n env (abs_path s) (abs_path w) fi c = copy_special env (abs_path w) fi c"
      using special bits assms(5) by (auto simp: copy_other_def mode_bits mode_type_def has_mode_def)
    moreover obtain dk' where "copy_special env (abs_path w) fi c = Some (Inr (), c\<lparr>co_disk := dk'\<rparr>)"
      "made_entry (co_disk c) w i (dk_next (co_disk c)) dk'" using copy_special_ok[OF assms(1,2,5,7) special] by blast
    moreover have "kind_of i \<noteq> 0" using special by (auto simp: mode_bits)
    ultimately show ?thesis using assms(11)
      by (intro exI[of _ dk'] exI[of _ "dk_next (co_disk c)"] exI[of _ "co_inodes c"]) (simp add: new_inode_def)
  qed
qed

text \<open>The notification of an ordinary copy.\<close>

lemma notify_ok: "ordinary_options c \<Longrightarrow> \<exists>ns. notify_change t fi c = Some (Inr (), c\<lparr>co_notes := ns\<rparr>)"
  by (cases "co_changefn c")
    (auto simp: ordinary_options_def notify_change_def Let_def intro: exI[of _ "co_notes c"])

lemma create_parents_none:
  "(\<And>i. i \<in> set is \<Longrightarrow> pt_copied (co_parents c ! i)) \<Longrightarrow> create_parents env ow is c = co_ok () c"
  by (induction "is") (simp_all add: create_parent_dir_def co_bind_def)

lemma create_parent_dirs_none: "\<forall>pd \<in> set (co_parents c). pt_copied pd \<Longrightarrow> create_parent_dirs env ow c = co_ok () c"
  unfolding create_parent_dirs_def by (rule create_parents_none) simp

text \<open>The entry with its metadata.\<close>

lemma made_then_metadata:
  assumes "ordinary_env env" "ordinary_options c" "made_entry dk w i j (co_disk c)" "free_place dk w"
    and "entry_at dk s k" "dk_inodes dk k = i" "k \<notin> parent_ino dk w" "si_node fi = i" "copyable i" "j \<noteq> k"
  shows "copy_info_and_xattrs env fi (abs_path s) (abs_path w) c = Some (Inr (), c\<lparr>co_disk := set_inode j (\<lambda>_. i) (co_disk c)\<rparr>)"
    "changed {w} (parent_ino dk w) dk (set_inode j (\<lambda>_. i) (co_disk c))"
proof -
  have m: "changed {w} (parent_ino dk w) dk (co_disk c)" "dk_tree (co_disk c) w = Some j" "same_body i (dk_inodes (co_disk c) j)"
    "dk_next dk \<le> j \<or> dk_inodes (co_disk c) j = i" using assms(3) by (auto simp: made_entry_def)
  have w: "w \<noteq> []" "dk_tree dk w = None" using assms(4) by (simp_all add: free_place_def)
  have s: "wf_disk dk" "s \<noteq> []" "dk_tree dk s = Some k" using assms(5) by (simp_all add: entry_at_def)
  have "s \<noteq> w" using s w by auto
  then have at: "entry_at (co_disk c) s k" using changedD(1,3)[OF m(1)] s by (simp add: entry_at_def)
  have ino: "dk_inodes (co_disk c) k = i" using changedD(4)[OF m(1) wf_diskD(2)[OF s(1,3)] assms(7)] assms(6) by simp
  have wj: "entry_at (co_disk c) w j" using changedD(1)[OF m(1)] m(2) w by (simp add: entry_at_def)
  have "dk_inodes (co_disk c) k = si_node fi" "copyable (si_node fi)" "same_body (si_node fi) (dk_inodes (co_disk c) j)"
    using ino assms(8,9) m(3) by (simp_all only: assms(8))
  note copy_metadata_ok[OF assms(1,2) wj at assms(10) this]
  then show "copy_info_and_xattrs env fi (abs_path s) (abs_path w) c = Some (Inr (), c\<lparr>co_disk := set_inode j (\<lambda>_. i) (co_disk c)\<rparr>)"
    by (simp only: assms(8))
  have dir: "mode_is_dir (in_mode i) = mode_is_dir (in_mode (dk_inodes (co_disk c) j))"
    using m(3) type_of_kind(1)[of "in_mode (dk_inodes (co_disk c) j)" "in_mode i"] by (simp add: same_body_def)
  show "changed {w} (parent_ino dk w) dk (set_inode j (\<lambda>_. i) (co_disk c))"
  proof (cases "dk_next dk \<le> j")
    case True
    then show ?thesis using changed_set_new[OF m(1)] dir by simp
  next
    case False
    then have "dk_inodes (co_disk c) j = i" using m(4) by simp
    then have same: "(dk_inodes (co_disk c))(j := i) = dk_inodes (co_disk c)" by (metis fun_upd_triv)
    show ?thesis by (rule changed_same_disk[OF m(1)]) (simp_all add: same)
  qed
qed


section \<open>The state of a copy\<close>

text \<open>A source and a free place outside of it.\<close>

definition copy_setting :: "disk \<Rightarrow> vpath \<Rightarrow> vpath \<Rightarrow> bool" where
  "copy_setting dk0 u v \<longleftrightarrow> wf_disk dk0 \<and> u \<noteq> [] \<and> dk_tree dk0 u \<noteq> None \<and> free_place dk0 v \<and> \<not> prefix u v"

text \<open>
  During the copy only new inodes are below the target, and the paths kept for further links of an inode lead
  to its copies.
\<close>

definition link_ok :: "disk \<Rightarrow> vpath \<Rightarrow> disk \<Rightarrow> nat \<Rightarrow> string \<Rightarrow> bool" where
  "link_ok dk0 v dk k p \<longleftrightarrow>
     k < dk_next dk0 \<and> \<not> mode_is_dir (in_mode (dk_inodes dk0 k))
     \<and> (\<exists>q j. p = abs_path q \<and> prefix v q \<and> dk_tree dk q = Some j \<and> dk_inodes dk j = dk_inodes dk0 k)"

definition copy_state :: "disk \<Rightarrow> vpath \<Rightarrow> disk \<Rightarrow> (nat \<rightharpoonup> string) \<Rightarrow> bool" where
  "copy_state dk0 v dk im \<longleftrightarrow>
     changed {q. prefix v q} (parent_ino dk0 v) dk0 dk
     \<and> (\<forall>q j. prefix v q \<longrightarrow> dk_tree dk q = Some j \<longrightarrow> dk_next dk0 \<le> j)
     \<and> (\<forall>k p. im k = Some p \<longrightarrow> link_ok dk0 v dk k p)"

lemma copy_stateD:
  assumes "copy_state dk0 v dk im"
  shows "changed {q. prefix v q} (parent_ino dk0 v) dk0 dk" "wf_disk dk" "dk_next dk0 \<le> dk_next dk"
    "prefix v q \<Longrightarrow> dk_tree dk q = Some j \<Longrightarrow> dk_next dk0 \<le> j" "im k = Some p \<Longrightarrow> link_ok dk0 v dk k p"
  using assms changedD(1,2) unfolding copy_state_def by blast+

lemma source_outside:
  assumes "copy_setting dk0 u v"
  shows "\<not> prefix v (u @ q)"
proof
  have s: "wf_disk dk0" "dk_tree dk0 u \<noteq> None" "dk_tree dk0 v = None" "\<not> prefix u v"
    using assms by (simp_all add: copy_setting_def free_place_def)
  assume "prefix v (u @ q)"
  then have "prefix v u" using s(4) prefix_same_cases[of v "u @ q" u] by auto
  then have "strict_prefix v u" using s(2,3) by (auto simp: strict_prefix_def)
  from is_dir_at_prefix[OF s(1,2) this] show False using s(3) by (auto simp: is_dir_at_iff)
qed

lemma source_same:
  assumes "copy_setting dk0 u v" "copy_state dk0 v dk im"
  shows "dk_tree dk (u @ q) = dk_tree dk0 (u @ q)" "dk_tree dk0 (u @ q) = Some k \<Longrightarrow> dk_inodes dk k = dk_inodes dk0 k"
    "dk_tree dk0 (u @ q) = Some k \<Longrightarrow> k < dk_next dk0"
proof -
  have s: "wf_disk dk0" "is_dir_at dk0 (butlast v)" "\<not> prefix u v" using assms(1) by (simp_all add: copy_setting_def free_place_def)
  note ch = copy_stateD(1)[OF assms(2)]
  show "dk_tree dk (u @ q) = dk_tree dk0 (u @ q)" using changedD(3)[OF ch] source_outside[OF assms(1)] by simp
  show k: "k < dk_next dk0" if "dk_tree dk0 (u @ q) = Some k" using wf_diskD(2)[OF s(1) that] .
  show "dk_inodes dk k = dk_inodes dk0 k" if t: "dk_tree dk0 (u @ q) = Some k"
  proof (rule changedD(4)[OF ch k[OF t]])
    show "k \<notin> parent_ino dk0 v"
    proof
      assume "k \<in> parent_ino dk0 v"
      then have "u @ q = butlast v" using wf_diskD(5)[OF s(1) t, of "butlast v"] s(2) by (auto simp: parent_ino_def is_dir_at_iff)
      then have "prefix u (butlast v)" by (metis prefixI)
      then show False using s(3) prefixeq_butlast[of v] prefix_order.trans by blast
    qed
  qed
qed

text \<open>A path above the target of a file.\<close>

lemma parent_below:
  assumes "copy_state dk0 v dk im" "k \<in> parent_ino dk (v @ q)" "k < dk_next dk0" "v \<noteq> []"
  shows "k \<in> parent_ino dk0 v"
proof (cases "q = []")
  case True
  have "\<not> prefix v (butlast v)" using assms(4) by simp
  then show ?thesis using assms(2) changedD(3)[OF copy_stateD(1)[OF assms(1)]] True by (simp add: parent_ino_def)
next
  case False
  then have "prefix v (butlast (v @ q))" by (simp add: butlast_append)
  then show ?thesis using copy_stateD(4)[OF assms(1)] assms(2,3) by (fastforce simp: parent_ino_def)
qed

lemma copy_state_step:
  assumes "copy_state dk0 v dk im" "free_place dk (v @ q)" "changed {r. prefix (v @ q) r} (parent_ino dk (v @ q)) dk d" "wf_disk dk0" "v \<noteq> []"
    and new: "\<And>r j. prefix (v @ q) r \<Longrightarrow> dk_tree d r = Some j \<Longrightarrow> dk_next dk0 \<le> j"
    and links: "\<And>k p. m k = Some p \<Longrightarrow> im k = Some p \<or> link_ok dk0 v d k p"
  shows "copy_state dk0 v d m"
  unfolding copy_state_def
proof (intro conjI allI impI)
  note c0 = copy_stateD(1)[OF assms(1)]
  note le = copy_stateD(3)[OF assms(1)]
  have below: "prefix v r" if "prefix (v @ q) r" for r using that by (auto simp: prefix_def)
  have "changed ({q. prefix v q} \<union> {r. prefix (v @ q) r}) (parent_ino dk0 v \<union> parent_ino dk (v @ q)) dk0 d"
    by (rule changed_trans[OF c0 assms(3)])
  then show "changed {q. prefix v q} (parent_ino dk0 v) dk0 d"
    by (rule changed_mono) (use below parent_below[OF assms(1) _ _ assms(5)] in blast)+
  show "dk_next dk0 \<le> j" if "prefix v r" "dk_tree d r = Some j" for r j
    using new[of r j] that copy_stateD(4)[OF assms(1) that(1)] changedD(3)[OF assms(3), of r] by (cases "prefix (v @ q) r") auto
  fix k p assume "m k = Some p"
  then consider "im k = Some p" | "link_ok dk0 v d k p" using links by blast
  then show "link_ok dk0 v d k p"
  proof cases
    case 1
    then obtain r j where r: "k < dk_next dk0" "\<not> mode_is_dir (in_mode (dk_inodes dk0 k))" "p = abs_path r" "prefix v r" "dk_tree dk r = Some j"
      "dk_inodes dk j = dk_inodes dk0 k" using copy_stateD(5)[OF assms(1) 1] unfolding link_ok_def by blast
    have wf: "wf_disk dk" "dk_tree dk (v @ q) = None" "is_dir_at dk (butlast (v @ q))" using assms(2) by (simp_all add: free_place_def)
    have "\<not> prefix (v @ q) r" using r(5) wf(2) no_entry_below[OF wf(1), of "v @ q" r] by (cases "r = v @ q") (auto simp: is_dir_at_iff)
    moreover have "j \<notin> parent_ino dk (v @ q)" using wf(3) r(2,6) by (auto simp: parent_ino_def is_dir_at_iff)
    ultimately show ?thesis using r changedD(3)[OF assms(3), of r] changedD(4)[OF assms(3) wf_diskD(2)[OF wf(1) r(5)]] by (auto simp: link_ok_def)
  qed
qed


section \<open>Names of one file\<close>

text \<open>Two paths of the source that are names of one regular file.\<close>

definition linked_at :: "disk \<Rightarrow> vpath \<Rightarrow> vpath \<Rightarrow> bool" where
  "linked_at dk p q \<longleftrightarrow> (\<exists>k. dk_tree dk p = Some k \<and> dk_tree dk q = Some k \<and> kind_of (dk_inodes dk k) = 0)"

text \<open>
  The copies made so far are names of one file only if their sources are; the copies of a file with further names
  have the inode of the path that is kept for it.
\<close>

definition links_kept :: "disk \<Rightarrow> vpath \<Rightarrow> vpath \<Rightarrow> disk \<Rightarrow> (nat \<rightharpoonup> string) \<Rightarrow> bool" where
  "links_kept dk0 u v dk im \<longleftrightarrow>
     (\<forall>r r' j. dk_tree dk (v @ r) = Some j \<longrightarrow> dk_tree dk (v @ r') = Some j \<longrightarrow> r = r' \<or> linked_at dk0 (u @ r) (u @ r'))
     \<and> (\<forall>r r' k. dk_tree dk (v @ r) \<noteq> None \<longrightarrow> r \<noteq> r' \<longrightarrow> linked_at dk0 (u @ r) (u @ r') \<longrightarrow> dk_tree dk0 (u @ r) = Some k \<longrightarrow>
          (\<exists>q. im k = Some (abs_path (v @ q)) \<and> dk_tree dk (v @ q) = dk_tree dk (v @ r)))
     \<and> (\<forall>k p. im k = Some p \<longrightarrow>
          (\<exists>q. p = abs_path (v @ q) \<and> dk_tree dk0 (u @ q) = Some k \<and> kind_of (dk_inodes dk0 k) = 0 \<and> dk_tree dk (v @ q) \<noteq> None))"

lemma links_keptD:
  assumes "links_kept dk0 u v dk im"
  shows "dk_tree dk (v @ r) = Some j \<Longrightarrow> dk_tree dk (v @ r') = Some j \<Longrightarrow> r = r' \<or> linked_at dk0 (u @ r) (u @ r')"
    "dk_tree dk (v @ r) \<noteq> None \<Longrightarrow> r \<noteq> r' \<Longrightarrow> linked_at dk0 (u @ r) (u @ r') \<Longrightarrow> dk_tree dk0 (u @ r) = Some k \<Longrightarrow>
      \<exists>q. im k = Some (abs_path (v @ q)) \<and> dk_tree dk (v @ q) = dk_tree dk (v @ r)"
    "im k = Some p \<Longrightarrow> \<exists>q. p = abs_path (v @ q) \<and> dk_tree dk0 (u @ q) = Some k \<and> kind_of (dk_inodes dk0 k) = 0 \<and> dk_tree dk (v @ q) \<noteq> None"
  using assms unfolding links_kept_def by blast+

lemma links_kept_tree: "dk_tree d = dk_tree dk \<Longrightarrow> links_kept dk0 u v dk im \<Longrightarrow> links_kept dk0 u v d im"
  by (simp add: links_kept_def)

lemma links_new:
  assumes "links_kept dk0 u v dk im" "wf_disk dk" "dk_tree dk (v @ q) = None" "dk_tree dk0 (u @ q) = Some k"
    and "dk_tree d = (dk_tree dk)(v @ q \<mapsto> j)" "new_inode several k (abs_path (v @ q)) dk j im m"
    and "several \<Longrightarrow> kind_of (dk_inodes dk0 k) = 0" "\<And>r. r \<noteq> q \<Longrightarrow> linked_at dk0 (u @ q) (u @ r) \<Longrightarrow> several"
  shows "links_kept dk0 u v d m"
proof -
  have old: "j' < dk_next dk" if "dk_tree dk w = Some j'" for w j' using wf_diskD(2)[OF assms(2) that] .
  have j: "dk_next dk \<le> j" using assms(6) by (simp add: new_inode_def)
  then have fresh: "dk_tree dk w \<noteq> Some j" for w using old[of w j] by auto
  have t: "dk_tree d (v @ r) = (if r = q then Some j else dk_tree dk (v @ r))" for r by (simp add: assms(5))
  have keep: "im k' = Some p \<Longrightarrow> m k' = Some p" for k' p using assms(6) by (auto simp: new_inode_def split: if_splits)
  show ?thesis
    unfolding links_kept_def
  proof (intro conjI allI impI)
    fix r r' j' assume "dk_tree d (v @ r) = Some j'" "dk_tree d (v @ r') = Some j'"
    then show "r = r' \<or> linked_at dk0 (u @ r) (u @ r')"
      using links_keptD(1)[OF assms(1), of r j' r'] fresh by (auto simp: t split: if_splits)
  next
    fix r r' k' assume a: "dk_tree d (v @ r) \<noteq> None" "r \<noteq> r'" "linked_at dk0 (u @ r) (u @ r')" "dk_tree dk0 (u @ r) = Some k'"
    show "\<exists>q. m k' = Some (abs_path (v @ q)) \<and> dk_tree d (v @ q) = dk_tree d (v @ r)"
    proof (cases "r = q")
      case True
      then have "several" using assms(8)[of r'] a(2,3) by simp
      then show ?thesis using True a(4) assms(4,6) by (auto simp: new_inode_def)
    next
      case False
      then have r: "dk_tree dk (v @ r) \<noteq> None" using a(1) by (simp add: t)
      obtain q' where q': "im k' = Some (abs_path (v @ q'))" "dk_tree dk (v @ q') = dk_tree dk (v @ r)"
        using links_keptD(2)[OF assms(1) r a(2-4)] by blast
      then have "q' \<noteq> q" using r assms(3) by auto
      then show ?thesis using q' keep False by (intro exI[of _ q']) (simp add: t)
    qed
  next
    fix k' p assume "m k' = Some p"
    then consider "im k' = Some p" | "k' = k" "p = abs_path (v @ q)" "several"
      using assms(6) by (auto simp: new_inode_def split: if_splits)
    then show "\<exists>q. p = abs_path (v @ q) \<and> dk_tree dk0 (u @ q) = Some k' \<and> kind_of (dk_inodes dk0 k') = 0 \<and> dk_tree d (v @ q) \<noteq> None"
    proof cases
      case 1
      then show ?thesis using links_keptD(3)[OF assms(1)] by (fastforce simp: t)
    next
      case 2
      then show ?thesis using assms(4,7) by (intro exI[of _ q]) (simp add: t)
    qed
  qed
qed

lemma links_again:
  assumes "links_kept dk0 u v dk im" "dk_tree dk (v @ q) = None" "dk_tree dk0 (u @ q) = Some k" "kind_of (dk_inodes dk0 k) = 0"
    and "dk_tree d = (dk_tree dk)(v @ q \<mapsto> j)" "im k = Some (abs_path (v @ l))" "dk_tree dk0 (u @ l) = Some k" "dk_tree dk (v @ l) = Some j"
  shows "links_kept dk0 u v d im"
proof -
  have t: "dk_tree d (v @ r) = (if r = q then Some j else dk_tree dk (v @ r))" for r by (simp add: assms(5))
  have lq: "l \<noteq> q" using assms(2,8) by auto
  have to_l: "linked_at dk0 (u @ r) (u @ q)" if r: "dk_tree dk (v @ r) = Some j" for r
    using links_keptD(1)[OF assms(1) r assms(8)] assms(3,4,7) by (auto simp: linked_at_def)
  have sym: "linked_at dk0 x y \<Longrightarrow> linked_at dk0 y x" for x y by (auto simp: linked_at_def)
  show ?thesis
    unfolding links_kept_def
  proof (intro conjI allI impI)
    fix r r' j' assume "dk_tree d (v @ r) = Some j'" "dk_tree d (v @ r') = Some j'"
    then show "r = r' \<or> linked_at dk0 (u @ r) (u @ r')"
      using links_keptD(1)[OF assms(1), of r j' r'] to_l sym by (auto simp: t split: if_splits)
  next
    fix r r' k' assume a: "dk_tree d (v @ r) \<noteq> None" "r \<noteq> r'" "linked_at dk0 (u @ r) (u @ r')" "dk_tree dk0 (u @ r) = Some k'"
    show "\<exists>q. im k' = Some (abs_path (v @ q)) \<and> dk_tree d (v @ q) = dk_tree d (v @ r)"
    proof (cases "r = q")
      case True
      then show ?thesis using a(4) assms(3,6,8) lq by (intro exI[of _ l]) (simp add: t)
    next
      case False
      then have r: "dk_tree dk (v @ r) \<noteq> None" using a(1) by (simp add: t)
      obtain q' where q': "im k' = Some (abs_path (v @ q'))" "dk_tree dk (v @ q') = dk_tree dk (v @ r)"
        using links_keptD(2)[OF assms(1) r a(2-4)] by blast
      then have "q' \<noteq> q" using r assms(2) by auto
      then show ?thesis using q' False by (intro exI[of _ q']) (simp add: t)
    qed
  next
    fix k' p assume "im k' = Some p"
    then show "\<exists>q. p = abs_path (v @ q) \<and> dk_tree dk0 (u @ q) = Some k' \<and> kind_of (dk_inodes dk0 k') = 0 \<and> dk_tree d (v @ q) \<noteq> None"
      using links_keptD(3)[OF assms(1)] by (fastforce simp: t)
  qed
qed

lemma abs_path_eq:
  assumes "list_all good_comp p" "list_all good_comp q" "p \<noteq> []" "q \<noteq> []" "abs_path p = abs_path q"
  shows "p = q"
proof -
  have "split_slash (abs_path p) = [] # p" "split_slash (abs_path q) = [] # q"
    using split_abs_path[OF assms(1)] split_abs_path[OF assms(2)] assms(3,4) by simp_all
  then have "[] # p = [] # q" unfolding assms(5) by (rule box_equals[OF refl])
  then show ?thesis by (rule list.inject[THEN iffD1, THEN conjunct2])
qed

section \<open>Files and directories\<close>

abbreviation after :: "'mi copier \<Rightarrow> disk \<Rightarrow> (nat \<rightharpoonup> string) \<Rightarrow> (string \<times> stat_info) list \<Rightarrow> 'mi copier" where
  "after c d m ns \<equiv> c\<lparr>co_disk := d, co_inodes := m, co_notes := ns\<rparr>"

text \<open>What copying the file at \<open>q\<close> below the source does to the disk.\<close>

definition copied_at :: "disk \<Rightarrow> vpath \<Rightarrow> vpath \<Rightarrow> vpath \<Rightarrow> disk \<Rightarrow> disk \<Rightarrow> (nat \<rightharpoonup> string) \<Rightarrow> bool" where
  "copied_at dk0 u v q dk d m \<longleftrightarrow>
     copy_state dk0 v d m \<and> links_kept dk0 u v d m \<and> changed {r. prefix (v @ q) r} (parent_ino dk (v @ q)) dk d
     \<and> (\<forall>r. node d (v @ q @ r) = node dk0 (u @ q @ r))"

definition ready :: "disk \<Rightarrow> vpath \<Rightarrow> vpath \<Rightarrow> 'mi copier \<Rightarrow> bool" where
  "ready dk0 u v c \<longleftrightarrow> ordinary_options c \<and> (\<forall>pd \<in> set (co_parents c). pt_copied pd) \<and> copy_state dk0 v (co_disk c) (co_inodes c)
     \<and> links_kept dk0 u v (co_disk c) (co_inodes c)"

definition copy_claim :: "'mi copy_fn \<Rightarrow> disk \<Rightarrow> vpath \<Rightarrow> vpath \<Rightarrow> vpath \<Rightarrow> bool" where
  "copy_claim rec dk0 u v q \<longleftrightarrow>
     (\<forall>comps ow ii ei c. ready dk0 u v c \<longrightarrow> free_place (co_disk c) (v @ q) \<longrightarrow>
        (\<exists>d m ns. rec (abs_path (u @ q)) comps (abs_path (v @ q)) ow ii ei c = Some (Inr (), after c d m ns)
           \<and> copied_at dk0 u v q (co_disk c) d m))"

lemma ready_after:
  assumes "ready dk0 u v c" "copy_state dk0 v d m" "links_kept dk0 u v d m"
  shows "ready dk0 u v (after c d m ns)"
  using assms by (simp add: ready_def ordinary_options_def)

text \<open>The names of a directory, one after the other.\<close>

lemma copy_children_ok:
  assumes "copy_setting dk0 u v" "\<And>x. x \<in> set xs \<Longrightarrow> copy_claim rec dk0 u v (q @ [x])" "distinct xs"
    and "ready dk0 u v c" "is_dir_at (co_disk c) (v @ q)" "\<forall>x \<in> set xs. good_comp x \<and> dk_tree (co_disk c) (v @ q @ [x]) = None"
    and "list_all good_comp (u @ q)"
  shows "\<exists>d m ns. copy_children rec (abs_path (u @ q)) comps (abs_path (v @ q)) ii ei xs c = Some (Inr (), after c d m ns)
    \<and> copy_state dk0 v d m \<and> links_kept dk0 u v d m \<and> changed {r. \<exists>x \<in> set xs. prefix (v @ q @ [x]) r} {k. dk_tree (co_disk c) (v @ q) = Some k} (co_disk c) d
    \<and> (\<forall>x \<in> set xs. \<forall>r. node d (v @ q @ x # r) = node dk0 (u @ q @ x # r))"
  using assms(2-6)
proof (induction xs arbitrary: c)
  case Nil
  have "links_kept dk0 u v (co_disk c) (co_inodes c)" "copy_state dk0 v (co_disk c) (co_inodes c)" using Nil.prems(3) by (simp_all add: ready_def)
  moreover from copy_stateD(2)[OF this(2)] have "changed {r. False} {k. dk_tree (co_disk c) (v @ q) = Some k} (co_disk c) (co_disk c)"
    by (rule changed_mono[OF changed_refl]) simp_all
  ultimately show ?case by (intro exI[of _ "co_disk c"] exI[of _ "co_inodes c"] exI[of _ "co_notes c"]) simp
next
  case (Cons x xs)
  let ?dk = "co_disk c"
  have wf: "wf_disk ?dk" using Cons.prems(3) copy_stateD(2) by (auto simp: ready_def)
  have x: "good_comp x" "dk_tree ?dk (v @ q @ [x]) = None" using Cons.prems(5) by simp_all
  obtain k where k: "dk_tree ?dk (v @ q) = Some k" "mode_is_dir (in_mode (dk_inodes ?dk k))" using Cons.prems(4) by (auto simp: is_dir_at_iff)
  have gv: "list_all good_comp (v @ q)" using tree_good_comps[OF wf, of "v @ q"] k(1) by simp
  have free: "free_place ?dk (v @ q @ [x])"
    using wf x Cons.prems(4) by (simp add: free_place_def butlast_append)
  obtain d1 m1 ns1 where r1: "rec (abs_path (u @ q @ [x])) (join2 comps x) (abs_path (v @ q @ [x])) True ii ei c = Some (Inr (), after c d1 m1 ns1)"
    and c1: "copied_at dk0 u v (q @ [x]) ?dk d1 m1"
    using Cons.prems(1)[of x] Cons.prems(3) free unfolding copy_claim_def by (metis append.assoc list.set_intros(1))
  have st: "copy_state dk0 v d1 m1" "links_kept dk0 u v d1 m1" and ch: "changed {r. prefix (v @ q @ [x]) r} {k. dk_tree ?dk (v @ q) = Some k} ?dk d1"
    and nd: "node d1 (v @ q @ x # r) = node dk0 (u @ q @ x # r)" for r
    using c1 by (simp_all add: copied_at_def parent_ino_def butlast_append)
  have out: "\<not> prefix (v @ q @ [x]) (v @ q)" "\<And>y. y \<noteq> x \<Longrightarrow> \<not> prefix (v @ q @ [x]) (v @ q @ [y])"
    by (auto dest: prefix_length_le)
  let ?c1 = "after c d1 m1 ns1"
  have dir1: "is_dir_at d1 (v @ q)" using changed_dir[OF ch wf, of "v @ q"] out(1) Cons.prems(4) by simp
  have rest: "\<forall>y \<in> set xs. good_comp y \<and> dk_tree d1 (v @ q @ [y]) = None"
  proof
    fix y assume y: "y \<in> set xs"
    then have "y \<noteq> x" using Cons.prems(2) by auto
    then show "good_comp y \<and> dk_tree d1 (v @ q @ [y]) = None" using changedD(3)[OF ch, of "v @ q @ [y]"] out(2) Cons.prems(5) y by simp
  qed
  obtain d m ns where r2: "copy_children rec (abs_path (u @ q)) comps (abs_path (v @ q)) ii ei xs ?c1 = Some (Inr (), after ?c1 d m ns)"
    and st2: "copy_state dk0 v d m" "links_kept dk0 u v d m" and ch2: "changed {r. \<exists>x \<in> set xs. prefix (v @ q @ [x]) r} {k. dk_tree d1 (v @ q) = Some k} d1 d"
    and nd2: "\<forall>x \<in> set xs. \<forall>r. node d (v @ q @ x # r) = node dk0 (u @ q @ x # r)"
    using Cons.IH[of ?c1] Cons.prems(1,2) ready_after[OF Cons.prems(3) st] dir1 rest by auto
  have k1: "dk_tree d1 (v @ q) = Some k" using changedD(3)[OF ch, of "v @ q"] out(1) k(1) by simp
  have "changed ({r. prefix (v @ q @ [x]) r} \<union> {r. \<exists>x \<in> set xs. prefix (v @ q @ [x]) r}) ({k. dk_tree ?dk (v @ q) = Some k} \<union> {k. dk_tree d1 (v @ q) = Some k}) ?dk d"
    by (rule changed_trans[OF ch ch2])
  then have ch3: "changed {r. \<exists>x \<in> set (x # xs). prefix (v @ q @ [x]) r} {k. dk_tree ?dk (v @ q) = Some k} ?dk d"
    by (rule changed_mono) (use k(1) k1 in auto)
  have wf1: "wf_disk d1" using copy_stateD(2)[OF st(1)] .
  have "node d (v @ q @ x # r) = node dk0 (u @ q @ x # r)" for r
  proof -
    have "v @ q @ x # r \<notin> {r. \<exists>x \<in> set xs. prefix (v @ q @ [x]) r}" using Cons.prems(2) by auto
    note changed_node[OF ch2 wf1 this]
    moreover have "j \<notin> {k. dk_tree d1 (v @ q) = Some k}" if "dk_tree d1 (v @ q @ x # r) = Some j" for j
    proof
      assume "j \<in> {k. dk_tree d1 (v @ q) = Some k}"
      then have "v @ q @ x # r = v @ q" using wf_diskD(5)[OF wf1 that, of "v @ q"] dir1 by (auto simp: is_dir_at_iff)
      then show False by simp
    qed
    ultimately show ?thesis using nd[of r] by metis
  qed
  moreover have "join2 (abs_path (u @ q)) x = abs_path (u @ q @ [x])" "join2 (abs_path (v @ q)) x = abs_path (v @ q @ [x])"
    using join2_abs_path[OF assms(7), of "[x]"] join2_abs_path[OF gv, of "[x]"] x(1) by simp_all
  ultimately show ?case using r1 r2 st2 ch3 nd2
    by (intro exI[of _ d] exI[of _ m] exI[of _ ns]) (simp add: co_bind_def)
qed


text \<open>The beginning of \<open>copy\<close>: the file is included, it is there, and the target is not.\<close>

lemma copy_body_start:
  assumes "ordinary_env env" "ready dk0 u v c" "entry_at (co_disk c) s k" "free_place (co_disk c) w"
  shows "copy_body n env rec (abs_path s) comps (abs_path w) ow ii ei c =
    copy_included n env rec (abs_path s) comps (abs_path w) ow True False (cx_zero env) (cx_zero env)
      \<lparr>si_ino = k, si_nlink = cx_nlink env (co_disk c) k, si_node = dk_inodes (co_disk c) k\<rparr> None c"
proof -
  have o: "co_include c = None" "co_exclude c = None" using assms(2) by (simp_all add: ready_def ordinary_options_def)
  then have sel: "copy_select env c comps ii ei = Inr (True, False, cx_zero env, cx_zero env)"
    by (simp add: copy_select_def copy_include_def copy_exclude_def)
  have "\<not> cx_done env dk" for dk using assms(1) by (simp add: ordinary_env_def)
  then show ?thesis
    using sel lstat_entry[OF assms(1,3)] lstat_free[OF assms(1,4)]
    by (simp add: copy_body_def co_call_def co_bind_def wrap_err_def os_is_not_exist_def)
qed

lemma ensure_empty_ok:
  "ordinary_env env \<Longrightarrow> free_place dk w \<Longrightarrow> ensure_empty_file_target env (abs_path w) dk = (Inr (), dk)"
  by (simp add: ensure_empty_file_target_def lstat_free os_is_not_exist_def)

lemma source_entry:
  assumes "copy_setting dk0 u v" "ready dk0 u v c" "dk_tree dk0 (u @ q) = Some k"
  shows "entry_at (co_disk c) (u @ q) k" "dk_inodes (co_disk c) k = dk_inodes dk0 k" "k < dk_next dk0" "wf_disk (co_disk c)"
    "dk_next dk0 \<le> dk_next (co_disk c)" "free_place (co_disk c) w \<Longrightarrow> prefix v w \<Longrightarrow> k \<notin> parent_ino (co_disk c) w"
proof -
  have st: "copy_state dk0 v (co_disk c) (co_inodes c)" using assms(2) by (simp add: ready_def)
  note same = source_same[OF assms(1) st]
  show t: "wf_disk (co_disk c)" "dk_next dk0 \<le> dk_next (co_disk c)" using copy_stateD[OF st] by blast+
  show "dk_inodes (co_disk c) k = dk_inodes dk0 k" "k < dk_next dk0" using same(2,3)[OF assms(3)] .
  show e: "entry_at (co_disk c) (u @ q) k" using t(1) same(1)[of q] assms(1,3) by (simp add: entry_at_def copy_setting_def)
  assume f: "free_place (co_disk c) w" "prefix v w"
  show "k \<notin> parent_ino (co_disk c) w"
  proof
    assume "k \<in> parent_ino (co_disk c) w"
    then have b: "u @ q = butlast w"
      using wf_diskD(5)[OF t(1), of "u @ q" k "butlast w"] e f(1) by (auto simp: parent_ino_def entry_at_def free_place_def is_dir_at_iff)
    have "prefix v (butlast w) \<or> w = v" using f(2) by (cases w rule: rev_cases) (auto simp: prefix_snoc)
    then have "w = v" using source_outside[OF assms(1), of q] b by simp
    then have "prefix u (butlast v)" using prefixI[OF b[symmetric]] by simp
    then show False using assms(1) prefixeq_butlast[of v] prefix_order.trans by (auto simp: copy_setting_def)
  qed
qed

lemma node_below_file:
  assumes "wf_disk dk" "node dk w = Some i" "\<not> mode_is_dir (in_mode i)" "r \<noteq> []"
  shows "node dk (w @ r) = None"
  using no_entry_below[OF assms(1), of w "w @ r"] assms(2-4) by (auto simp: is_dir_at_def node_def)

lemma copied_entry:
  assumes "copy_setting dk0 u v" "ready dk0 u v c" "free_place (co_disk c) (v @ q)" "dk_tree dk0 (u @ q) = Some k" "i = dk_inodes dk0 k"
    and "\<not> mode_is_dir (in_mode i)"
    and "changed {v @ q} (parent_ino (co_disk c) (v @ q)) (co_disk c) d" "dk_tree d (v @ q) = Some j" "dk_inodes d j = i" "dk_next dk0 \<le> j"
    and "m = co_inodes c \<or> m = (co_inodes c)(k \<mapsto> abs_path (v @ q))" "links_kept dk0 u v d m"
  shows "copied_at dk0 u v q (co_disk c) d m"
proof -
  have s: "wf_disk dk0" "v \<noteq> []" using assms(1) by (simp_all add: copy_setting_def free_place_def)
  have st: "copy_state dk0 v (co_disk c) (co_inodes c)" using assms(2) by (simp add: ready_def)
  note wf = changedD(1)[OF assms(7)]
  have ch: "changed {r. prefix (v @ q) r} (parent_ino (co_disk c) (v @ q)) (co_disk c) d"
    by (rule changed_mono[OF assms(7)]) auto
  have n: "node d (v @ q) = Some i" "node dk0 (u @ q) = Some i" using assms(4,5,8,9) by (simp_all add: node_def)
  have "node d (v @ q @ r) = node dk0 (u @ q @ r)" for r
  proof (cases "r = []")
    case False
    then show ?thesis using node_below_file[OF wf n(1) assms(6)] node_below_file[OF s(1) n(2) assms(6)] by (metis append.assoc)
  qed (use n in simp)
  moreover have "copy_state dk0 v d m"
  proof (rule copy_state_step[OF st assms(3) ch s])
    show "dk_next dk0 \<le> j'" if r: "prefix (v @ q) r" "dk_tree d r = Some j'" for r j'
    proof (cases "r = v @ q")
      case True
      then show ?thesis using r assms(8,10) by simp
    next
      case False
      then obtain r' where "r = (v @ q) @ r'" "r' \<noteq> []" using r(1) by (auto simp: prefix_def)
      then have "node d r = None" using node_below_file[OF wf n(1) assms(6), of r'] by simp
      then show ?thesis using r(2) by (simp add: node_def)
    qed
    show "co_inodes c k' = Some p \<or> link_ok dk0 v d k' p" if "m k' = Some p" for k' p
      using that assms(11) assms(4-6,8,9) wf_diskD(2)[OF s(1) assms(4)] by (auto simp: link_ok_def split: if_splits)
  qed
  ultimately show ?thesis using ch assms(12) by (simp add: copied_at_def)
qed

lemma copy_file_claim:
  assumes "copy_setting dk0 u v" "ordinary_env env" "dk_tree dk0 (u @ q) = Some k" "i = dk_inodes dk0 k" "copyable i"
    and "kind_of i \<noteq> mode_dir" "length (in_data i) \<le> n"
  shows "copy_claim (copy_body n env rec) dk0 u v q"
  unfolding copy_claim_def
proof (intro allI impI)
  fix comps ow ii ei and c :: "'a copier"
  assume r: "ready dk0 u v c" and f: "free_place (co_disk c) (v @ q)"
  note src = source_entry[OF assms(1) r assms(3)]
  have st: "copy_state dk0 v (co_disk c) (co_inodes c)" "\<forall>pd \<in> set (co_parents c). pt_copied pd" "ordinary_options c" using r by (simp_all add: ready_def)
  let ?fi = "\<lparr>si_ino = k, si_nlink = cx_nlink env (co_disk c) k, si_node = dk_inodes (co_disk c) k\<rparr>"
  have nd: "\<not> mode_is_dir (in_mode i)"
    using assms(5,6) kind_bits(2)[of i] by (auto simp: copyable_def mode_bits mode_is_dir_def has_mode_def)
  have lk: "links_kept dk0 u v (co_disk c) (co_inodes c)" using r by (simp add: ready_def)
  obtain l lj where links: "p = abs_path (v @ l) \<and> entry_at (co_disk c) (v @ l) lj \<and> dk_inodes (co_disk c) lj = i \<and> dk_next dk0 \<le> lj \<and>
      dk_tree dk0 (u @ l) = Some k" if "co_inodes c k = Some p" for p
  proof (cases "co_inodes c k")
    case (Some p)
    obtain l where l: "p = abs_path (v @ l)" "dk_tree dk0 (u @ l) = Some k" "dk_tree (co_disk c) (v @ l) \<noteq> None"
      using links_keptD(3)[OF lk Some] by blast
    obtain w j where w: "p = abs_path w" "prefix v w" "dk_tree (co_disk c) w = Some j" "dk_inodes (co_disk c) j = dk_inodes dk0 k"
      using copy_stateD(5)[OF st(1) Some] unfolding link_ok_def by blast
    have ne: "v \<noteq> []" using assms(1) by (simp add: copy_setting_def free_place_def)
    then have "w \<noteq> []" using w(2) by auto
    have "list_all good_comp (v @ l)" "list_all good_comp w"
      by (rule tree_good_comps[OF src(4) l(3)], rule tree_good_comps[OF src(4)], simp add: w(3))
    then have "v @ l = w" by (rule abs_path_eq) (use l(1) w(1) ne \<open>w \<noteq> []\<close> in simp_all)
    then show ?thesis
      using that[of l j] Some l(1,2) w(3,4) copy_stateD(4)[OF st(1) w(2,3)] src(4) \<open>w \<noteq> []\<close> assms(4) by (auto simp: entry_at_def)
  qed (use that in simp)
  obtain d1 j m where o: "copy_other n env (abs_path (u @ q)) (abs_path (v @ q)) ?fi c = Some (Inr (), c\<lparr>co_inodes := m, co_disk := d1\<rparr>)"
    and e: "made_entry (co_disk c) (v @ q) i j d1" "dk_next dk0 \<le> j" "m = co_inodes c \<or> m = (co_inodes c)(k \<mapsto> abs_path (v @ q))"
    and names: "new_inode (kind_of i = 0 \<and> 1 < si_nlink ?fi) k (abs_path (v @ q)) (co_disk c) j (co_inodes c) m
      \<or> kind_of i = 0 \<and> m = co_inodes c \<and> co_inodes c k = Some (abs_path (v @ l)) \<and> entry_at (co_disk c) (v @ l) j"
    using copy_other_ok[OF assms(2) f src(1), of ?fi i n "dk_next dk0" "v @ l" lj, OF _ _ _ assms(5-7) src(3,5)] links src(2) assms(4) by auto
  have none: "dk_tree (co_disk c) (v @ q) = None" using f by (simp add: free_place_def)
  have t1: "dk_tree d1 = (dk_tree (co_disk c))(v @ q \<mapsto> j)"
    using e(1) changedD(3)[of "{v @ q}" _ "co_disk c" d1] by (intro ext) (auto simp: made_entry_def)
  have several: "1 < si_nlink ?fi \<and> kind_of i = 0" if "r \<noteq> q" "linked_at dk0 (u @ q) (u @ r)" for r
  proof -
    have "dk_tree (co_disk c) (u @ q) = Some k" "dk_tree (co_disk c) (u @ r) = Some k" "kind_of i = 0"
      using that(2) source_same(1)[OF assms(1) st(1)] assms(3,4) by (auto simp: linked_at_def)
    then show ?thesis using ordinary_nlink[OF assms(2), of "co_disk c" "u @ q" k "u @ r"] that(1) by simp
  qed
  have kept: "links_kept dk0 u v d1 m"
    using names
  proof
    assume new: "new_inode (kind_of i = 0 \<and> 1 < si_nlink ?fi) k (abs_path (v @ q)) (co_disk c) j (co_inodes c) m"
    show ?thesis
      by (rule links_new[OF lk src(4) none assms(3) t1 new]) (use several assms(4) in auto)
  next
    assume old: "kind_of i = 0 \<and> m = co_inodes c \<and> co_inodes c k = Some (abs_path (v @ l)) \<and> entry_at (co_disk c) (v @ l) j"
    then have "dk_tree dk0 (u @ l) = Some k" "dk_tree (co_disk c) (v @ l) = Some j" using links by (auto simp: entry_at_def)
    then show ?thesis using links_again[OF lk none assms(3) _ t1] old assms(4) by simp
  qed
  let ?c1 = "c\<lparr>co_inodes := m, co_disk := d1\<rparr>"
  have opt: "ordinary_options ?c1" using st(3) by (simp add: ordinary_options_def)
  have e1: "made_entry (co_disk c) (v @ q) i j (co_disk ?c1)" using e(1) by simp
  have kp: "k \<notin> parent_ino (co_disk c) (v @ q)" using src(6)[OF f] by simp
  have ne: "j \<noteq> k" using e(2) src(3) by simp
  have i: "dk_inodes (co_disk c) k = i" using src(2) assms(4) by simp
  have meta: "copy_info_and_xattrs env ?fi (abs_path (u @ q)) (abs_path (v @ q)) ?c1 = Some (Inr (), ?c1\<lparr>co_disk := set_inode j (\<lambda>_. i) d1\<rparr>)"
    and ch: "changed {v @ q} (parent_ino (co_disk c) (v @ q)) (co_disk c) (set_inode j (\<lambda>_. i) d1)"
    using made_then_metadata[OF assms(2) opt e1 f src(1) i kp _ assms(5) ne, of ?fi] i by simp_all
  let ?d = "set_inode j (\<lambda>_. i) d1"
  have "ordinary_options (?c1\<lparr>co_disk := ?d\<rparr>)" using opt by (simp add: ordinary_options_def)
  then obtain ns where "notify_change (abs_path (v @ q)) ?fi (?c1\<lparr>co_disk := ?d\<rparr>) = Some (Inr (), ?c1\<lparr>co_disk := ?d, co_notes := ns\<rparr>)"
    using notify_ok by fastforce
  then have run: "copy_body n env rec (abs_path (u @ q)) comps (abs_path (v @ q)) ow ii ei c = Some (Inr (), after c ?d m ns)"
    using copy_body_start[OF assms(2) r src(1) f] nd i ensure_empty_ok[OF assms(2) f] o meta create_parent_dirs_none[OF st(2)]
    by (simp add: copy_included_def remove_target_if_needed_def co_bind_def co_call_def copy_finish_def)
  have "dk_tree ?d (v @ q) = Some j" "dk_inodes ?d j = i" using e(1) by (simp_all add: made_entry_def)
  moreover have "links_kept dk0 u v ?d m" by (rule links_kept_tree[OF _ kept]) simp
  ultimately have "copied_at dk0 u v q (co_disk c) ?d m" by (intro copied_entry[OF assms(1) r f assms(3,4) nd ch _ _ e(2,3)])
  with run
  show "\<exists>d m ns. copy_body n env rec (abs_path (u @ q)) comps (abs_path (v @ q)) ow ii ei c = Some (Inr (), after c d m ns)
      \<and> copied_at dk0 u v q (co_disk c) d m" by blast
qed


lemma copy_state_set:
  assumes "copy_state dk0 v d m" "dk_next dk0 \<le> j" "mode_is_dir (in_mode (dk_inodes d j))" "mode_is_dir (in_mode i)"
  shows "copy_state dk0 v (set_inode j (\<lambda>_. i) d) m"
  unfolding copy_state_def
proof (intro conjI allI impI)
  show "changed {q. prefix v q} (parent_ino dk0 v) dk0 (set_inode j (\<lambda>_. i) d)"
    by (rule changed_set_new[OF copy_stateD(1)[OF assms(1)] assms(2)]) (simp add: assms(3,4))
  show "dk_next dk0 \<le> j'" if "prefix v q" "dk_tree (set_inode j (\<lambda>_. i) d) q = Some j'" for q j'
    using copy_stateD(4)[OF assms(1) that(1)] that(2) by simp
  fix k p assume "m k = Some p"
  then have l: "link_ok dk0 v d k p" using copy_stateD(5)[OF assms(1)] by blast
  then obtain q j' where q: "p = abs_path q" "prefix v q" "dk_tree d q = Some j'" "dk_inodes d j' = dk_inodes dk0 k" unfolding link_ok_def by blast
  have "j' \<noteq> j" using l q(4) assms(3) by (auto simp: link_ok_def)
  then show "link_ok dk0 v (set_inode j (\<lambda>_. i) d) k p" using l q unfolding link_ok_def by auto
qed

lemma read_dir_ok:
  assumes "ordinary_env env" "entry_at dk s k" "mode_is_dir (in_mode (dk_inodes dk k))"
  shows "os_read_dir env (abs_path s) dk = (Inr (cx_children env dk s), dk)"
proof -
  have "\<not> is_symlink_node (dk_inodes dk k)" using assms(3) by (simp add: is_symlink_node_def)
  then show ?thesis using entry_at_locate(2)[OF assms(2), of "cx_disk env"] assms
    by (simp add: os_read_dir_def os_call_def k_read_dir_def node_def ordinary_env_def entry_at_def)
qed

text \<open>Making a directory and copying what is in it, up to its metadata.\<close>

lemma copy_directory_ok:
  assumes "copy_setting dk0 u v" "ordinary_env env" "dk_tree dk0 (u @ q) = Some k" "i = dk_inodes dk0 k" "copyable i" "kind_of i = mode_dir"
    and "finite {x. dk_tree dk0 (u @ q @ [x]) \<noteq> None}" "\<And>x. dk_tree dk0 (u @ q @ [x]) \<noteq> None \<Longrightarrow> copy_claim rec dk0 u v (q @ [x])"
    and "ready dk0 u v c" "free_place (co_disk c) (v @ q)" "si_node fi = i"
  shows "\<exists>d m ns j. copy_directory rec env (abs_path (u @ q)) comps (abs_path (v @ q)) fi ow True False ii ei c = Some (Inr True, after c d m ns)
    \<and> copy_state dk0 v d m \<and> links_kept dk0 u v d m \<and> changed {r. prefix (v @ q) r} (parent_ino (co_disk c) (v @ q)) (co_disk c) d
    \<and> dk_tree d (v @ q) = Some j \<and> dk_next (co_disk c) \<le> j \<and> same_body i (dk_inodes d j)
    \<and> (\<forall>x r. node d (v @ q @ x # r) = node dk0 (u @ q @ x # r))"
proof -
  define dk where "dk = co_disk c"
  define w where "w = v @ q"
  define s where "s = u @ q"
  have wf0: "wf_disk dk0" using assms(1) by (simp add: copy_setting_def)
  have st: "copy_state dk0 v dk (co_inodes c)" "\<forall>pd \<in> set (co_parents c). pt_copied pd" "ordinary_options c"
    using assms(9) by (simp_all add: ready_def dk_def)
  note src = source_entry[OF assms(1,9,3), folded dk_def s_def]
  have free: "free_place dk w" using assms(10) by (simp add: dk_def w_def)
  have dir: "mode_is_dir (in_mode i)" using assms(6) kind_bits(2)[of i] by (simp add: mode_is_dir_def has_mode_def mode_bits)
  obtain d1 where made: "copy_directory_only env (abs_path w) fi ow dk = (Inr True, d1)" "made_entry dk w i (dk_next dk) d1"
    using copy_directory_only_ok[OF assms(2) free] assms(5,6,11) by auto
  define j where "j = dk_next dk"
  have m: "changed {w} (parent_ino dk w) dk d1" "dk_tree d1 w = Some j" "same_body i (dk_inodes d1 j)"
    using made(2) by (simp_all add: made_entry_def j_def)
  have none: "dk_tree dk r = None" if "prefix w r" for r
    using free no_entry_below[of dk w r] that by (cases "r = w") (auto simp: free_place_def is_dir_at_iff)
  have none1: "dk_tree d1 r = None" if "prefix w r" "r \<noteq> w" for r using none[OF that(1)] changedD(3)[OF m(1)] that(2) by simp
  have chw: "changed {r. prefix w r} (parent_ino dk w) dk d1" by (rule changed_mono[OF m(1)]) auto
  have st1: "copy_state dk0 v d1 (co_inodes c)"
  proof (rule copy_state_step[OF st(1) free[unfolded w_def] chw[unfolded w_def] wf0])
    show "v \<noteq> []" using assms(1) by (simp add: copy_setting_def free_place_def)
    show "dk_next dk0 \<le> j'" if "prefix (v @ q) r" "dk_tree d1 r = Some j'" for r j'
      using that none1[of r] m(2) src(5) by (cases "r = w") (auto simp: w_def j_def)
  qed simp
  have lk1: "links_kept dk0 u v d1 (co_inodes c)"
  proof (rule links_new)
    show "links_kept dk0 u v dk (co_inodes c)" using assms(9) by (simp add: ready_def dk_def)
    show "wf_disk dk" "dk_tree dk (v @ q) = None" using free by (simp_all add: free_place_def w_def)
    show "dk_tree dk0 (u @ q) = Some k" by (rule assms(3))
    show "dk_tree d1 = (dk_tree dk)(v @ q \<mapsto> j)" using changedD(3)[OF m(1)] m(2) by (intro ext) (simp add: w_def)
    show "new_inode False k (abs_path (v @ q)) dk j (co_inodes c) (co_inodes c)" by (simp add: new_inode_def j_def)
    show False if "linked_at dk0 (u @ q) (u @ r)" for r
      using that assms(3,4,6) by (auto simp: linked_at_def mode_bits)
  qed simp
  define c1 where "c1 = c\<lparr>co_disk := d1\<rparr>"
  have opt1: "ordinary_options c1" using st(3) by (simp add: ordinary_options_def c1_def)
  obtain ns1 where ns1: "notify_change (abs_path w) fi c1 = Some (Inr (), c1\<lparr>co_notes := ns1\<rparr>)" using notify_ok[OF opt1] by blast
  define pd where "pd = \<lparr>pt_src = abs_path s, pt_dst = abs_path w, pt_copied = True\<rparr>"
  define c2 where "c2 = push_parent pd (c1\<lparr>co_notes := ns1\<rparr>)"
  have c2: "co_disk c2 = d1" "co_inodes c2 = co_inodes c" "co_parents c2 = co_parents c @ [pd]" by (simp_all add: c2_def c1_def push_parent_def)
  have ready2: "ready dk0 u v c2" using st(2) opt1 st1 lk1 c2
    by (simp add: ready_def pd_def) (simp add: c2_def push_parent_def ordinary_options_def)
  have t1: "dk_tree d1 (s @ r) = dk_tree dk0 (s @ r)" for r using source_same(1)[OF assms(1) st1, of "q @ r"] by (simp add: s_def)
  have e1: "entry_at d1 s k" and i1: "dk_inodes d1 k = i" using source_entry(1,2)[OF assms(1) ready2 assms(3)] c2 assms(4) by (simp_all add: s_def)
  define xs where "xs = cx_children env d1 s"
  have fin: "finite {x. dk_tree d1 (s @ [x]) \<noteq> None}" using assms(7) t1 by (simp add: s_def)
  have xs: "distinct xs" "set xs = {x. dk_tree d1 (s @ [x]) \<noteq> None}"
    unfolding xs_def by (rule ordinary_children[OF assms(2) fin])+
  have xs0: "set xs = {x. dk_tree dk0 (s @ [x]) \<noteq> None}" using xs(2) t1 by simp
  have rd: "os_read_dir env (abs_path s) d1 = (Inr xs, d1)" using read_dir_ok[OF assms(2) e1] dir i1 by (simp add: xs_def)
  have dirw: "is_dir_at d1 w"
    using m(2,3) dir type_of_kind(1)[of "in_mode (dk_inodes d1 j)" "in_mode i"] by (simp add: is_dir_at_iff same_body_def)
  have names: "\<forall>x \<in> set xs. good_comp x \<and> dk_tree (co_disk c2) (v @ q @ [x]) = None"
    using wf_diskD(4)[OF wf0, of "s @ [_]"] none1[of "w @ [_]"] xs0 by (auto simp: c2 w_def)
  have gs: "list_all good_comp (u @ q)" using tree_good_comps[OF wf0, of "u @ q"] assms(3) by simp
  have dirw': "is_dir_at (co_disk c2) (v @ q)" using dirw c2 by (simp add: w_def)
  have claims: "\<And>x. x \<in> set xs \<Longrightarrow> copy_claim rec dk0 u v (q @ [x])" using assms(8) xs0 by (simp add: s_def)
  obtain d2 m2 ns2 where ch: "copy_children rec (abs_path s) comps (abs_path w) ii ei xs c2 = Some (Inr (), after c2 d2 m2 ns2)"
    and st2: "copy_state dk0 v d2 m2" "links_kept dk0 u v d2 m2" and ch2: "changed {r. \<exists>x \<in> set xs. prefix (w @ [x]) r} {k. dk_tree d1 w = Some k} d1 d2"
    and nd2: "\<forall>x \<in> set xs. \<forall>r. node d2 (w @ x # r) = node dk0 (s @ x # r)"
    using copy_children_ok[OF assms(1) claims xs(1) ready2 dirw' names gs, of comps ii ei]
    unfolding c2(1) w_def s_def append.assoc append_Cons append_Nil by blast
  have same: "c2\<lparr>co_disk := d1\<rparr> = c2" by (simp add: c2_def c1_def push_parent_def)
  have "pop_parent (after c2 d2 m2 ns2) = after c d2 m2 ns2" by (simp add: pop_parent_def c2_def push_parent_def c1_def)
  then have run: "copy_directory rec env (abs_path s) comps (abs_path w) fi ow True False ii ei c = Some (Inr True, after c d2 m2 ns2)"
    using dir made(1) ns1 rd ch assms(11)
    by (simp add: copy_directory_def co_bind_def co_call_def wrap_err_def dk_def[symmetric] c1_def[symmetric] pd_def[symmetric] c2_def[symmetric] c2 same)
  have out: "w \<notin> {r. \<exists>x \<in> set xs. prefix (w @ [x]) r}" by (auto dest: prefix_length_le)
  have "changed ({r. prefix w r} \<union> {r. \<exists>x \<in> set xs. prefix (w @ [x]) r}) (parent_ino dk w \<union> {k. dk_tree d1 w = Some k}) dk d2"
    by (rule changed_trans[OF chw ch2])
  then have chg: "changed {r. prefix w r} (parent_ino dk w) dk d2"
    by (rule changed_mono) (use m(2) in \<open>auto simp: j_def intro: append_prefixD\<close>)
  have tw: "dk_tree d2 w = Some j" using changedD(3)[OF ch2 out] m(2) by simp
  have "j < dk_next d1" using wf_diskD(2)[OF changedD(1)[OF m(1)] m(2)] .
  then obtain t where "dk_inodes d2 j = (dk_inodes d1 j)\<lparr>in_mtime := t\<rparr>" using changedD(5)[OF ch2] by blast
  then have sb: "same_body i (dk_inodes d2 j)" using m(3) by (simp add: same_body_def)
  have "node d2 (w @ x # r) = node dk0 (s @ x # r)" for x r
  proof (cases "x \<in> set xs")
    case False
    then have f: "dk_tree dk0 (s @ [x]) = None" using xs0 by simp
    have "dk_tree dk0 (s @ x # r) = None"
      using no_entry_below[OF wf0, of "s @ [x]" "s @ x # r"] f by (cases "r = []") (auto simp: is_dir_at_iff)
    moreover have "dk_tree d2 (w @ x # r) = None"
      using False none1[of "w @ x # r"] changedD(3)[OF ch2, of "w @ x # r"] by auto
    ultimately show ?thesis by (simp add: node_def)
  qed (use nd2 in blast)
  then show ?thesis using run st2 chg tw sb
    by (intro exI[of _ d2] exI[of _ m2] exI[of _ ns2] exI[of _ j]) (simp add: w_def s_def dk_def j_def)
qed


lemma copy_dir_claim:
  assumes "copy_setting dk0 u v" "ordinary_env env" "dk_tree dk0 (u @ q) = Some k" "i = dk_inodes dk0 k" "copyable i" "kind_of i = mode_dir"
    and "finite {x. dk_tree dk0 (u @ q @ [x]) \<noteq> None}" "\<And>x. dk_tree dk0 (u @ q @ [x]) \<noteq> None \<Longrightarrow> copy_claim rec dk0 u v (q @ [x])"
  shows "copy_claim (copy_body n env rec) dk0 u v q"
  unfolding copy_claim_def
proof (intro allI impI)
  fix comps ow ii ei and c :: "'a copier"
  assume r: "ready dk0 u v c" and f: "free_place (co_disk c) (v @ q)"
  let ?dk = "co_disk c"
  note src = source_entry[OF assms(1) r assms(3)]
  have c: "\<forall>pd \<in> set (co_parents c). pt_copied pd" "ordinary_options c" using r by (simp_all add: ready_def)
  let ?fi = "\<lparr>si_ino = k, si_nlink = cx_nlink env ?dk k, si_node = dk_inodes ?dk k\<rparr>"
  have i: "dk_inodes ?dk k = i" using src(2) assms(4) by simp
  have dir: "mode_is_dir (in_mode i)" using assms(6) kind_bits(2)[of i] by (simp add: mode_is_dir_def has_mode_def mode_bits)
  obtain d m ns j where cd: "copy_directory rec env (abs_path (u @ q)) comps (abs_path (v @ q)) ?fi ow True False (cx_zero env) (cx_zero env) c = Some (Inr True, after c d m ns)"
    and st: "copy_state dk0 v d m" "links_kept dk0 u v d m" and ch: "changed {r. prefix (v @ q) r} (parent_ino ?dk (v @ q)) ?dk d"
    and j: "dk_tree d (v @ q) = Some j" "dk_next ?dk \<le> j" "same_body i (dk_inodes d j)"
    and nd: "\<forall>x r. node d (v @ q @ x # r) = node dk0 (u @ q @ x # r)"
    using copy_directory_ok[OF assms r f, of ?fi comps ow "cx_zero env" "cx_zero env"] i by auto
  let ?c = "after c d m ns" and ?d = "set_inode j (\<lambda>_. i) d"
  note src2 = source_entry[OF assms(1) ready_after[OF r st, of ns] assms(3)]
  have i2: "dk_inodes d k = i" using src2(2) assms(4) by simp
  have opt: "ordinary_options ?c" using c(2) by (simp add: ordinary_options_def)
  have wf: "wf_disk d" using copy_stateD(2)[OF st(1)] .
  have at: "entry_at (co_disk ?c) (v @ q) j" using wf j(1) f by (simp add: entry_at_def free_place_def)
  have ne: "j \<noteq> k" using j(2) src(3,5) by simp
  have dirj: "mode_is_dir (in_mode (dk_inodes d j))"
    using j(3) dir type_of_kind(1)[of "in_mode (dk_inodes d j)" "in_mode i"] by (simp add: same_body_def)
  have meta: "copy_info_and_xattrs env ?fi (abs_path (u @ q)) (abs_path (v @ q)) ?c = Some (Inr (), ?c\<lparr>co_disk := ?d\<rparr>)"
    using copy_metadata_ok[OF assms(2) opt at src2(1) ne, of ?fi] i i2 assms(5) j(3) by simp
  have run: "copy_body n env rec (abs_path (u @ q)) comps (abs_path (v @ q)) ow ii ei c = Some (Inr (), after c ?d m ns)"
    using copy_body_start[OF assms(2) r src(1) f] i dir cd meta create_parent_dirs_none[OF c(1)]
    by (simp add: copy_included_def remove_target_if_needed_def co_bind_def copy_finish_def)
  have n: "node ?d (v @ q @ r) = node dk0 (u @ q @ r)" for r
  proof (cases r)
    case Nil
    then show ?thesis using j(1) assms(3,4) by (simp add: node_def)
  next
    case (Cons x xs)
    have "dk_tree d (v @ q @ x # xs) \<noteq> Some j"
    proof
      assume "dk_tree d (v @ q @ x # xs) = Some j"
      from wf_diskD(5)[OF wf this j(1) dirj] show False by simp
    qed
    then have "node ?d (v @ q @ x # xs) = node d (v @ q @ x # xs)" by (cases "dk_tree d (v @ q @ x # xs)") (auto simp: node_def)
    then show ?thesis using nd Cons by simp
  qed
  have "copied_at dk0 u v q ?dk ?d m"
    unfolding copied_at_def
  proof (intro conjI allI)
    show "copy_state dk0 v ?d m" by (rule copy_state_set[OF st(1) _ dirj dir]) (use j(2) src(5) in simp)
    show "links_kept dk0 u v ?d m" by (rule links_kept_tree[OF _ st(2)]) simp
    show "changed {r. prefix (v @ q) r} (parent_ino ?dk (v @ q)) ?dk ?d" by (rule changed_set_new[OF ch j(2)]) (simp add: dir dirj)
  qed (rule n)
  then show "\<exists>d m ns. copy_body n env rec (abs_path (u @ q)) comps (abs_path (v @ q)) ow ii ei c = Some (Inr (), after c d m ns)
      \<and> copied_at dk0 u v q ?dk d m" using run by blast
qed

section \<open>The whole tree\<close>

definition tree_copyable :: "disk \<Rightarrow> vpath \<Rightarrow> bool" where
  "tree_copyable dk u \<longleftrightarrow> finite (dom (dk_tree dk)) \<and> (\<forall>r i. node dk (u @ r) = Some i \<longrightarrow> copyable i)"

text \<open>Enough fuel: more than the depth of any file and the length of its data together.\<close>

definition fuel_for :: "disk \<Rightarrow> vpath \<Rightarrow> nat \<Rightarrow> bool" where
  "fuel_for dk u n \<longleftrightarrow> (\<forall>r i. node dk (u @ r) = Some i \<longrightarrow> length r + length (in_data i) < n)"

lemma copy_node_claim:
  assumes "copy_setting dk0 u v" "ordinary_env env" "tree_copyable dk0 u"
  shows "dk_tree dk0 (u @ q) \<noteq> None \<Longrightarrow> fuel_for dk0 (u @ q) n \<Longrightarrow> copy_claim (copy_node n env) dk0 u v q"
proof (induction n arbitrary: q)
  case 0
  then show ?case by (fastforce simp: fuel_for_def node_def dest: spec[of _ "[]"])
next
  case (Suc n)
  obtain k where k: "dk_tree dk0 (u @ q) = Some k" using Suc.prems(1) by auto
  have i: "copyable (dk_inodes dk0 k)" using assms(3) k by (auto simp: tree_copyable_def node_def)
  have len: "length (in_data (dk_inodes dk0 k)) \<le> n"
    using Suc.prems(2) k unfolding fuel_for_def by (fastforce simp: node_def dest: spec[of _ "[]"])
  have body: "copy_node (Suc n) env = copy_body n env (copy_node n env)" by (intro ext) simp
  show ?case
  proof (cases "kind_of (dk_inodes dk0 k) = mode_dir")
    case False
    then show ?thesis using copy_file_claim[OF assms(1,2) k refl i _ len] body by simp
  next
    case True
    have "{x. dk_tree dk0 (u @ q @ [x]) \<noteq> None} \<subseteq> last ` dom (dk_tree dk0)"
      by (auto simp: image_iff) (metis domI last_appendR last_snoc snoc_eq_iff_butlast)
    moreover have "finite (last ` dom (dk_tree dk0))" using assms(3) by (simp add: tree_copyable_def)
    ultimately have fin: "finite {x. dk_tree dk0 (u @ q @ [x]) \<noteq> None}" by (rule finite_subset)
    have "copy_claim (copy_node n env) dk0 u v (q @ [x])" if "dk_tree dk0 (u @ q @ [x]) \<noteq> None" for x
    proof (rule Suc.IH)
      show "fuel_for dk0 (u @ q @ [x]) n"
        unfolding fuel_for_def
      proof (intro allI impI)
        fix r i assume "node dk0 ((u @ q @ [x]) @ r) = Some i"
        then show "length r + length (in_data i) < n" using Suc.prems(2) unfolding fuel_for_def by (auto dest: spec[of _ "x # r"])
      qed
    qed (use that in simp)
    from copy_dir_claim[OF assms(1,2) k refl i True fin this] show ?thesis using body by simp
  qed
qed

end
