(* ===== verification/Copy_Facts.thy ===== *)
theory Copy_Facts
  imports Copy_Whole
begin

text \<open>
  The properties of the package \<open>copy\<close>: \<open>Copy\<close> of a tree to a free place, the content of a copied file, and two cases in which the
  code does not do what it means to, each with an example.
\<close>

section \<open>Copy without options\<close>

lemma stat_dir:
  assumes "ordinary_env env" "wf_disk dk" "is_dir_at dk p"
  shows "\<exists>fi. copy_stat env (abs_path p) dk = (Inr fi, dk) \<and> si_is_dir fi"
proof -
  obtain k where k: "dk_tree dk p = Some k" "mode_is_dir (in_mode (dk_inodes dk k))" using assms(3) by (auto simp: is_dir_at_iff)
  then have nl: "\<not> is_symlink_node (dk_inodes dk k)" by (simp add: is_symlink_node_def)
  have "locate_follow (cx_disk env) dk (abs_path p) = Inr p"
  proof (cases "p = []")
    case True
    then show ?thesis using k nl
      by (simp add: locate_follow_def locate_from_def abs_path_def is_abs_def good_comp_def resolve_dirs.simps follow_last.simps node_def)
  next
    case False
    then have "entry_at dk p k" using assms(2) k(1) by (simp add: entry_at_def)
    from entry_at_locate(2)[OF this nl] show ?thesis .
  qed
  then show ?thesis using k assms(1) by (simp add: copy_stat_def os_call_def k_info_def ordinary_env_def)
qed

lemma mkdir_all_there:
  assumes "ordinary_env env" "wf_disk dk" "is_dir_at dk p"
  shows "mkdir_all env (abs_path p) perm user tm dk = (Inr [], dk)"
  using stat_dir[OF assms] by (auto simp: mkdir_all.simps)

lemma stat_free:
  assumes "ordinary_env env" "free_place dk w"
  shows "copy_stat env (abs_path w) dk = (Inl (PathError ''stat'' (abs_path w) ENOENT), dk)"
  using free_place_locate(2)[OF assms(2), of "cx_disk env"] assms
  by (simp add: copy_stat_def os_call_def k_info_def ordinary_env_def free_place_def)

text \<open>The paths that \<open>Copy\<close> gets lead to a source and a free place outside of it.\<close>

definition copy_paths :: "'mi copy_env \<Rightarrow> string \<Rightarrow> string \<Rightarrow> string \<Rightarrow> string \<Rightarrow> disk \<Rightarrow> vpath \<Rightarrow> vpath \<Rightarrow> bool" where
  "copy_paths env src_root src dst_root dst dk u v \<longleftrightarrow>
     copy_root_path env src_root src False dk = Inr (abs_path u)
     \<and> (ensure_path dst \<noteq> [] \<longrightarrow> cx_root_path env dk dst_root (ensure_path dst) = Inr (abs_path (butlast v)))
     \<and> cx_root_path env dk dst_root (clean dst) = Inr (abs_path v)"

lemma no_deferred: "run_deferred env None dss d = d"
  by (induction dss) (simp_all add: run_deferred_def fix_created_parent_dirs_def)

lemma copy_all_ok:
  assumes "copy_setting dk u v" "ordinary_env env" "tree_copyable dk u" "fuel_for dk u n" "copy_paths env src_root src dst_root dst dk u v"
  shows "\<exists>d m ns. copy_all n env src_root src dst_root dst [] dk = Some (Inr (), d, ns) \<and> copied_at dk u v [] dk d m"
proof -
  have s: "wf_disk dk" "u \<noteq> []" "free_place dk v" "is_dir_at dk (butlast v)" "v \<noteq> []" using assms(1) by (simp_all add: copy_setting_def free_place_def)
  obtain k where k: "dk_tree dk u = Some k" using assms(1) by (auto simp: copy_setting_def)
  define c where "c = \<lparr>co_chown = None, co_utime = None, co_mode = None, co_mode_set = None, co_inodes = Map.empty,
    co_xeh = (\<lambda>dst src key e. Some e), co_include = None, co_exclude = None :: 'a matcher option, co_parents = [], co_changefn = None, co_root = dst_root,
    co_always_replace = False, co_disk = dk, co_notes = []\<rparr>"
  have cd: "co_disk c = dk" by (simp add: c_def)
  have st: "copy_state dk v dk Map.empty"
    unfolding copy_state_def
  proof (intro conjI allI impI)
    show "changed {q. prefix v q} (parent_ino dk v) dk dk" by (rule changed_mono[OF changed_refl[OF s(1)]]) auto
    show "dk_next dk \<le> j" if "prefix v q" "dk_tree dk q = Some j" for q j
      using that s(3) no_entry_below[OF s(1), of v q] by (cases "q = v") (auto simp: free_place_def is_dir_at_iff)
  qed simp
  have none: "dk_tree dk (v @ r) = None" for r
    using s(3) no_entry_below[OF s(1), of v "v @ r"] by (cases "r = []") (auto simp: free_place_def is_dir_at_iff)
  have "links_kept dk u v dk Map.empty" by (simp add: links_kept_def none)
  then have r: "ready dk u v c" using st by (simp add: ready_def ordinary_options_def c_def)
  have "dk_tree dk (u @ []) \<noteq> None" using k by simp
  from copy_node_claim[OF assms(1-3) this] assms(4) have cl: "copy_claim (copy_node n env) dk u v []" by simp
  obtain d m ns where run: "copy_node n env (abs_path u) [] (abs_path v) False (cx_zero env) (cx_zero env) c = Some (Inr (), after c d m ns)"
    and at: "copied_at dk u v [] dk d m"
    using cl[unfolded copy_claim_def, rule_format, OF r, unfolded cd append_Nil2, OF s(3), of "[]" False "cx_zero env" "cx_zero env"] by blast
  have "list_all good_comp (butlast v)" "good_comp (last v)"
    using tree_good_comps[OF s(1), of "butlast v"] s(3,4) by (auto simp: free_place_def is_dir_at_iff)
  then have gv: "list_all good_comp (butlast v @ [last v])" by (simp only: list_all_append list.pred_inject simp_thms)
  have dir: "dir (abs_path v) = abs_path (butlast v)" using dir_abs_path[OF gv] s(5) by simp
  have md: "mkdir_all env (abs_path (butlast v)) perm user tm dk = (Inr [], dk)" for perm user tm by (rule mkdir_all_there[OF assms(2) s(1,4)])
  have e: "entry_at dk u k" using s k by (simp add: entry_at_def)
  have p: "copy_root_path env src_root src False dk = Inr (abs_path u)"
    "ensure_path dst \<noteq> [] \<Longrightarrow> cx_root_path env dk dst_root (ensure_path dst) = Inr (abs_path (butlast v))"
    "cx_root_path env dk dst_root (clean dst) = Inr (abs_path v)" using assms(5) by (simp_all add: copy_paths_def)
  let ?ci = "empty_copy_info :: 'a copy_info"
  have ens: "\<exists>ds. copy_ensure_dst env dst_root dst ?ci dk = (Inr ds, dk)"
    using p(2) md by (simp add: copy_ensure_dst_def empty_copy_info_def try_bind_def)
  then obtain ds where ds: "copy_ensure_dst env dst_root dst ?ci dk = (Inr ds, dk)" by blast
  have set: "copy_setup env dst_root dst ?ci dk = Inr (abs_path v, c)"
    using p(3) by (simp add: copy_setup_def new_copier_def make_matcher_def empty_copy_info_def c_def)
  have prep: "prepare_target_dir env (abs_path u) src (abs_path v) False c = Some (Inr (abs_path v, []), c)"
    using lstat_entry[OF assms(2) e] stat_free[OF assms(2) s(3)] md dir
    by (simp add: prepare_target_dir_def co_call_def co_bind_def c_def os_is_not_exist_def target_of_def)
  have flags: "\<not> ci_allow_wildcards ?ci" "\<not> ci_follow_links ?ci" "\<not> ci_copy_dir_contents ?ci" "ci_utime ?ci = None"
    by (simp_all add: empty_copy_info_def)
  have "copy_all n env src_root src dst_root dst [] dk = Some (Inr (), d, ns)"
    using ds set prep run p(1) no_deferred flags by (simp add: copy_all_def copy_expand_def Let_def c_def)
  then show ?thesis using at by blast
qed


text \<open>The names of one file at the end.\<close>

lemma copied_links:
  assumes "wf_disk d" "v \<noteq> []" "links_kept dk u v d m" "\<forall>r. node d (v @ r) = node dk (u @ r)" "dk_tree dk (u @ r) \<noteq> None" "r \<noteq> r'"
  shows "dk_tree d (v @ r) = dk_tree d (v @ r') \<longleftrightarrow> linked_at dk (u @ r) (u @ r')"
proof -
  have some: "dk_tree d (v @ x) \<noteq> None \<longleftrightarrow> dk_tree dk (u @ x) \<noteq> None" for x using assms(4) node_None_iff by metis
  obtain j where j: "dk_tree d (v @ r) = Some j" using some assms(5) by blast
  show ?thesis
  proof
    assume "dk_tree d (v @ r) = dk_tree d (v @ r')"
    then show "linked_at dk (u @ r) (u @ r')" using links_keptD(1)[OF assms(3) j, of r'] j assms(6) by metis
  next
    assume l: "linked_at dk (u @ r) (u @ r')"
    then obtain k where k: "dk_tree dk (u @ r) = Some k" "dk_tree dk (u @ r') = Some k" by (auto simp: linked_at_def)
    have l': "linked_at dk (u @ r') (u @ r)" using l by (auto simp: linked_at_def)
    have t: "dk_tree d (v @ r) \<noteq> None" "dk_tree d (v @ r') \<noteq> None" using some k by simp_all
    obtain q where q: "m k = Some (abs_path (v @ q))" "dk_tree d (v @ q) = dk_tree d (v @ r)"
      using links_keptD(2)[OF assms(3) t(1) assms(6) l k(1)] by blast
    obtain q' where q': "m k = Some (abs_path (v @ q'))" "dk_tree d (v @ q') = dk_tree d (v @ r')"
      using links_keptD(2)[OF assms(3) t(2) assms(6)[symmetric] l' k(2)] by blast
    have "v @ q = v @ q'"
    proof (rule abs_path_eq)
      show "list_all good_comp (v @ q)" by (rule tree_good_comps[OF assms(1)]) (use q(2) t(1) in simp)
      show "list_all good_comp (v @ q')" by (rule tree_good_comps[OF assms(1)]) (use q'(2) t(2) in simp)
    qed (use q(1) q'(1) assms(2) in simp_all)
    then show "dk_tree d (v @ r) = dk_tree d (v @ r')" using q(2) q'(2) by simp
  qed
qed

section \<open>Examples\<close>

text \<open>
  A directory \<open>/s\<close> with a file \<open>f\<close>, a second link \<open>g\<close> to it and a symbolic link \<open>l\<close>, and a directory \<open>/d\<close>. The names in a
  directory and the attributes of a file are sorted, and \<open>fs.RootPath\<close> joins, as there are no links to follow.
\<close>

definition plain_node :: "32 word \<Rightarrow> inode" where
  "plain_node m = \<lparr>in_mode = m, in_uid = 1, in_gid = 2, in_mtime = 7, in_target = [], in_rdev = 0, in_xattrs = Map.empty, in_data = []\<rparr>"

definition copied_disk :: disk where
  "copied_disk = \<lparr>dk_tree = [[] \<mapsto> 0, [''s''] \<mapsto> 1, [''s'', ''f''] \<mapsto> 2, [''s'', ''g''] \<mapsto> 2, [''s'', ''l''] \<mapsto> 3, [''d''] \<mapsto> 4],
     dk_inodes = (\<lambda>i. if i = 2 then (plain_node 0x1A4)\<lparr>in_data := ''data'', in_xattrs := [''user.k'' \<mapsto> ''v'']\<rparr>
       else if i = 3 then (plain_node (mode_symlink OR mode_perm))\<lparr>in_target := ''f''\<rparr>
       else plain_node (mode_dir OR 0x1ED)),
     dk_next = 5, dk_fds = Map.empty, dk_next_fd = 3, dk_clock = 9\<rparr>"

definition quiet_disk_env :: disk_env where
  "quiet_disk_env = \<lparr>de_fail = (\<lambda>op p dk. None), de_cwd = [], de_umask = 0x12, de_uid = 0, de_gid = 0, de_kept = (\<lambda>dk v. False)\<rparr>"

definition copied_env :: "unit copy_env" where
  "copied_env = \<lparr>cx_disk = quiet_disk_env, cx_nlink = (\<lambda>dk i. if finite {v. dk_tree dk v = Some i} then card {v. dk_tree dk v = Some i} else 2),
     cx_children = (\<lambda>dk v. sorted_list_of_set {x. dk_tree dk (v @ [x]) \<noteq> None}), cx_xattr_keys = (\<lambda>xs. sorted_list_of_set (dom xs)),
     cx_range = (\<lambda>dk. 1), cx_root_path = (\<lambda>dk root p. Inr (join2 root p)), cx_match = (\<lambda>pat p. Inr False),
     cx_parse_mode = (\<lambda>s. Inl (Errno EINVAL)), cx_new_matcher = (\<lambda>ps. Inl (Errno EINVAL)), cx_zero = (), cx_umask_zero = False,
     cx_done = (\<lambda>dk. False)\<rparr>"

lemma copied_ordinary: "ordinary_env copied_env"
proof -
  have "1 < card A" if "finite A" "p \<in> A" "q \<in> A" "p \<noteq> q" for A and p q :: vpath
    using card_mono[OF that(1), of "{p, q}"] that(2-4) by simp
  then show ?thesis by (simp add: ordinary_env_def copied_env_def quiet_disk_env_def faultless_def)
qed

lemma copied_tree:
  "dk_tree copied_disk v = Some i \<longleftrightarrow>
     v = [] \<and> i = 0 \<or> v = [''s''] \<and> i = 1 \<or> (v = [''s'', ''f''] \<or> v = [''s'', ''g'']) \<and> i = 2 \<or> v = [''s'', ''l''] \<and> i = 3 \<or> v = [''d''] \<and> i = 4"
  by (auto simp: copied_disk_def)

lemma copied_dir_inodes: "mode_is_dir (in_mode (dk_inodes copied_disk i)) \<longleftrightarrow> i \<noteq> 2 \<and> i \<noteq> 3"
  by (simp add: copied_disk_def plain_node_def mode_is_dir_def has_mode_def mode_bits)

lemma copied_dirs: "is_dir_at copied_disk v \<longleftrightarrow> v = [] \<or> v = [''s''] \<or> v = [''d'']"
  unfolding is_dir_at_iff copied_tree copied_dir_inodes by (intro iffI; elim exE conjE disjE; simp)

lemma copied_wf: "wf_disk copied_disk"
  unfolding wf_disk_def
proof (intro conjI allI impI)
  show "is_dir_at copied_disk []" by (simp add: copied_dirs)
  fix v i assume t: "dk_tree copied_disk v = Some i"
  show "i < dk_next copied_disk" using t by (auto simp: copied_tree) (auto simp: copied_disk_def)
  show "is_dir_at copied_disk (butlast v)" using t by (auto simp: copied_tree copied_dirs)
  show "good_comp (last v)" if "v \<noteq> []" using t that by (auto simp: copied_tree good_comp_def)
  fix w assume w: "dk_tree copied_disk w = Some i" "mode_is_dir (in_mode (dk_inodes copied_disk i))"
  then have "is_dir_at copied_disk v" "is_dir_at copied_disk w" using t by (auto simp: is_dir_at_iff)
  then show "v = w" using t w(1) by (auto simp: copied_tree copied_dirs)
qed

lemma copied_setting: "copy_setting copied_disk [''s''] [''d'', ''t'']"
  using copied_wf by (auto simp: copy_setting_def free_place_def copied_dirs good_comp_def) (simp_all add: copied_disk_def)

lemma copied_nodes:
  assumes "node copied_disk ([''s''] @ r) = Some i"
  shows "copyable i \<and> length r + length (in_data i) < 6"
proof -
  obtain k where k: "dk_tree copied_disk ([''s''] @ r) = Some k" "i = dk_inodes copied_disk k" using assms by (auto simp: node_def)
  then have "k = 1 \<and> r = [] \<or> k = 2 \<and> length r = 1 \<or> k = 3 \<and> length r = 1" by (auto simp: copied_tree)
  then show ?thesis using k(2)
    by (auto simp: copied_disk_def plain_node_def copyable_def kind_of_def chmod_bits_eq mode_bits)
qed

lemma copied_copyable: "tree_copyable copied_disk [''s'']" "fuel_for copied_disk [''s''] 6"
  using copied_nodes by (auto simp: tree_copyable_def fuel_for_def) (simp add: copied_disk_def)

lemma copied_paths: "copy_paths copied_env ''/'' ''s'' ''/d'' ''t'' copied_disk [''s''] [''d'', ''t'']"
  by (simp add: copy_paths_def copy_root_path_def copied_env_def ensure_path_def abs_path_def join2_def clean_def is_abs_def split_dir_def split_file_def)

section \<open>Properties\<close>

text \<open>C8. \<open>Copy\<close> without options, of a source to a free place outside of it, when no call of the operating system fails: it
  ends without an error, at every path below the target is exactly what is at that path below the source, with owner, mode,
  time, attributes, link target and content, also for directories; two paths below the target are names of one file
  exactly when they are names of one regular file below the source, whose links are counted; and nothing else is
  changed but the modification time of the directory of the target. The source has no block devices and no sockets, which are not
  copied as they are, and files belong to a known owner and have no more than their type holds (\<open>copyable\<close>). The fuel is more than the
  depth of every file and the length of its content together.\<close>

theorem copy_tree_faithful:
  assumes "copy_setting dk u v" "ordinary_env env" "tree_copyable dk u" "fuel_for dk u n" "copy_paths env src_root src dst_root dst dk u v"
  shows "\<exists>d ns. copy_all n env src_root src dst_root dst [] dk = Some (Inr (), d, ns)
    \<and> (\<forall>r. node d (v @ r) = node dk (u @ r))
    \<and> (\<forall>r r'. dk_tree dk (u @ r) \<noteq> None \<longrightarrow> r \<noteq> r' \<longrightarrow> (dk_tree d (v @ r) = dk_tree d (v @ r') \<longleftrightarrow> linked_at dk (u @ r) (u @ r')))
    \<and> (\<forall>q. \<not> prefix v q \<longrightarrow> q \<noteq> butlast v \<longrightarrow> node d q = node dk q) \<and> entries d (butlast v) = entries dk (butlast v)"
proof -
  obtain d m ns where run: "copy_all n env src_root src dst_root dst [] dk = Some (Inr (), d, ns)" and at: "copied_at dk u v [] dk d m"
    using copy_all_ok[OF assms] by blast
  have s: "wf_disk dk" "is_dir_at dk (butlast v)" "v \<noteq> []" using assms(1) by (simp_all add: copy_setting_def free_place_def)
  have ch: "changed {q. prefix v q} (parent_ino dk v) dk d" and nd: "\<forall>r. node d (v @ r) = node dk (u @ r)"
    using at by (simp_all add: copied_at_def)
  obtain p where p: "dk_tree dk (butlast v) = Some p" "mode_is_dir (in_mode (dk_inodes dk p))" using s(2) by (auto simp: is_dir_at_iff)
  have "node d q = node dk q" if "\<not> prefix v q" "q \<noteq> butlast v" for q
  proof (rule changed_node[OF ch s(1)])
    show "q \<notin> {q. prefix v q}" using that(1) by simp
    show "k \<notin> parent_ino dk v" if "dk_tree dk q = Some k" for k
    proof
      assume "k \<in> parent_ino dk v"
      then have "k = p" using p(1) by (simp add: parent_ino_def)
      then have "q = butlast v" using wf_diskD(5)[OF s(1) _ p(1,2)] \<open>dk_tree dk q = Some k\<close> by simp
      then show False using \<open>q \<noteq> butlast v\<close> by simp
    qed
  qed
  moreover have "entries d (butlast v) = entries dk (butlast v)"
  proof -
    obtain t where "dk_inodes d p = (dk_inodes dk p)\<lparr>in_mtime := t\<rparr>" using changedD(5)[OF ch wf_diskD(2)[OF s(1) p(1)]] by blast
    moreover have "dk_tree d (butlast v) = Some p" using changedD(3)[OF ch, of "butlast v"] p(1) s(3) by simp
    ultimately show ?thesis using p by (simp add: entries_def node_def seen_def)
  qed
  moreover have "\<forall>r r'. dk_tree dk (u @ r) \<noteq> None \<longrightarrow> r \<noteq> r' \<longrightarrow> (dk_tree d (v @ r) = dk_tree d (v @ r') \<longleftrightarrow> linked_at dk (u @ r) (u @ r'))"
    using copied_links[OF changedD(1)[OF ch] s(3) _ nd] at by (auto simp: copied_at_def)
  ultimately show ?thesis using run nd by blast
qed

theorem copy_tree_faithful_witness:
  "\<exists>d ns. copy_all 6 copied_env ''/'' ''s'' ''/d'' ''t'' [] copied_disk = Some (Inr (), d, ns)
    \<and> node d [''d'', ''t'', ''g''] = Some ((plain_node 0x1A4)\<lparr>in_data := ''data'', in_xattrs := [''user.k'' \<mapsto> ''v'']\<rparr>)
    \<and> dk_tree d [''d'', ''t'', ''f''] = dk_tree d [''d'', ''t'', ''g'']"
proof -
  obtain d ns where run: "copy_all 6 copied_env ''/'' ''s'' ''/d'' ''t'' [] copied_disk = Some (Inr (), d, ns)"
    and same: "\<forall>r. node d ([''d'', ''t''] @ r) = node copied_disk ([''s''] @ r)"
    and links: "\<forall>r r'. dk_tree copied_disk ([''s''] @ r) \<noteq> None \<longrightarrow> r \<noteq> r' \<longrightarrow>
      (dk_tree d ([''d'', ''t''] @ r) = dk_tree d ([''d'', ''t''] @ r') \<longleftrightarrow> linked_at copied_disk ([''s''] @ r) ([''s''] @ r'))"
    using copy_tree_faithful[OF copied_setting copied_ordinary copied_copyable copied_paths] by blast
  have "linked_at copied_disk ([''s''] @ [''f'']) ([''s''] @ [''g''])"
    by (simp add: linked_at_def copied_disk_def kind_of_def plain_node_def chmod_bits_eq)
  then have "dk_tree d [''d'', ''t'', ''f''] = dk_tree d [''d'', ''t'', ''g'']"
    using links[rule_format, of "[''f'']" "[''g'']"] by (simp add: copied_disk_def)
  moreover have "node d [''d'', ''t'', ''g''] = node copied_disk [''s'', ''g'']" using same by (auto dest: spec[of _ "[''g'']"])
  moreover have "node copied_disk [''s'', ''g''] = Some ((plain_node 0x1A4)\<lparr>in_data := ''data'', in_xattrs := [''user.k'' \<mapsto> ''v'']\<rparr>)"
    by (simp add: node_def copied_disk_def)
  ultimately show ?thesis using run by auto
qed

text \<open>C9. The loop of \<open>copyFileContent\<close> ends, however little each \<open>copy_file_range\<close> copies and whichever calls fail: the
  target then holds the beginning of the source, all of it when there is no error, and no other file has changed.\<close>

theorem copy_file_content_ends:
  assumes "dk_fds dk src = Some (i, 0)" "dk_fds dk dst = Some (j, 0)" "i \<noteq> j" "src \<noteq> dst" "in_data (dk_inodes dk j) = []"
    and "length (in_data (dk_inodes dk i)) \<le> n"
  shows "\<exists>r dk' m. copy_file_content n env dst src dk = Some (r, dk')
    \<and> in_data (dk_inodes dk' j) = take m (in_data (dk_inodes dk i))
    \<and> (r = Inr () \<longrightarrow> in_data (dk_inodes dk' j) = in_data (dk_inodes dk i))
    \<and> (\<forall>k. k \<noteq> j \<longrightarrow> dk_inodes dk' k = dk_inodes dk k)"
proof (cases "de_fail (cx_disk env) ''fstat'' [] dk")
  case (Some e)
  then show ?thesis using assms
    by (intro exI[of _ "Inl (Wrap ''unable to stat source'' (Errno e))"] exI[of _ dk] exI[of _ 0]) (simp add: copy_file_content_def)
next
  case None
  define data where "data = in_data (dk_inodes dk i)"
  obtain r dk' m where run: "copy_range_loop n env dst src (length data) 0 True dk = Some (r, dk')" and f: "filled dst j src i data m dk dk'"
    and r: "r = Inr () \<longrightarrow> m = length data"
    using copy_range_loop_ends[OF assms(1-4) data_def[symmetric], of n env True] assms(5,6) unfolding data_def by auto
  have "in_data (dk_inodes dk' j) = take m data" "\<forall>k. k \<noteq> j \<longrightarrow> dk_inodes dk' k = dk_inodes dk k" using f by (auto simp: filled_def)
  then show ?thesis using run r None assms(1)
    by (intro exI[of _ r] exI[of _ dk'] exI[of _ m]) (simp add: copy_file_content_def data_def)
qed

definition opened_disk :: disk where
  "opened_disk = copied_disk\<lparr>dk_fds := [3 \<mapsto> (2, 0), 4 \<mapsto> (5, 0)], dk_next_fd := 5\<rparr>"

theorem copy_file_content_ends_witness:
  "\<exists>r dk' m. copy_file_content 4 copied_env 4 3 opened_disk = Some (r, dk') \<and> in_data (dk_inodes dk' 5) = take m ''data''"
proof -
  have d: "in_data (dk_inodes opened_disk 2) = ''data''" by (simp add: opened_disk_def copied_disk_def)
  have "\<exists>r dk' m. copy_file_content 4 copied_env 4 3 opened_disk = Some (r, dk')
      \<and> in_data (dk_inodes dk' 5) = take m (in_data (dk_inodes opened_disk 2))
      \<and> (r = Inr () \<longrightarrow> in_data (dk_inodes dk' 5) = in_data (dk_inodes opened_disk 2))
      \<and> (\<forall>k. k \<noteq> 5 \<longrightarrow> dk_inodes dk' k = dk_inodes opened_disk k)"
    by (rule copy_file_content_ends) (simp_all add: opened_disk_def copied_disk_def plain_node_def)
  then show ?thesis unfolding d by blast
qed

text \<open>C11. \<open>copyDevice\<close> takes the bits of a socket away from the type of a file, and two of them are those that tell
  a block device from a character device: the copy of a block device is a character device.\<close>

theorem copy_device_block:
  assumes "copy_device env dst fi dk = (Inr n, dk')" "has_mode (si_mode fi) mode_device" "\<not> has_mode (si_mode fi) mode_char_device"
    and "si_mode fi AND mode_type = mode_device"
  shows "has_mode (in_mode (dk_inodes dk' n)) mode_char_device"
proof -
  define sm where "sm = sys_mode (si_mode fi) AND NOT S_IFSOCK"
  have t: "si_mode fi AND b = mode_device AND b" if "b AND mode_type = b" for b
  proof -
    have "si_mode fi AND b = (si_mode fi AND mode_type) AND b" using that by (simp add: and.assoc and.commute[of mode_type])
    then show ?thesis by (simp add: assms(4))
  qed
  have "sys_type (si_mode fi) = S_IFBLK"
    using t[of mode_dir] t[of mode_symlink] t[of mode_named_pipe] t[of mode_socket] assms(2,3)
    by (simp add: sys_type_def mode_is_dir_def has_mode_def mode_type_def mode_bits)
  then have k: "mknod_kind sm = Inr (mode_device OR mode_char_device)"
    unfolding mknod_kind_def sm_def sys_mode_type by (simp add: S_IFBLK_def S_IFCHR_def)
  obtain v where c: "k_create v ((created (cx_disk env) ((mode_device OR mode_char_device) OR go_special sm) sm dk)\<lparr>in_rdev := in_rdev (si_node fi)\<rparr>) dk = Inr (n, dk')"
    using assms(1,2) by (auto simp: copy_device_def copy_mknod_def sys_mknod_def os_call_Inr sm_def[symmetric] k)
  let ?x = "(created (cx_disk env) ((mode_device OR mode_char_device) OR go_special sm) sm dk)\<lparr>in_rdev := in_rdev (si_node fi)\<rparr>"
  have "in_mode (dk_inodes dk' n) = in_mode ?x"
    using c by (auto simp: k_create_def touch_parent_def set_inode_def split: if_splits option.splits)
  moreover have "has_mode (in_mode ?x) mode_char_device"
    by (simp add: created_def fresh_inode_def has_mode_def bit.conj_disj_distrib2) (simp add: mode_bits)
  ultimately show ?thesis by simp
qed

text \<open>A disk with a block device \<open>/b\<close>.\<close>

definition block_info :: stat_info where
  "block_info = \<lparr>si_ino = 9, si_nlink = 1, si_node = (plain_node (mode_device OR 0x1A4))\<lparr>in_rdev := 0x801\<rparr>\<rparr>"

theorem copy_device_block_witness:
  "\<exists>n dk'. copy_device copied_env ''/d/b'' block_info copied_disk = (Inr n, dk') \<and> has_mode (in_mode (dk_inodes dk' n)) mode_char_device"
proof -
  have none: "dk_tree copied_disk [''d'', ''b''] = None" by (simp add: copied_disk_def)
  have "free_place copied_disk [''d'', ''b'']" using copied_wf none by (simp add: free_place_def copied_dirs good_comp_def)
  then have loc: "locate env copied_disk ''/d/b'' = Inr [''d'', ''b'']" for env
    using free_place_locate(1) by (fastforce simp: abs_path_def)
  have m: "has_mode (si_mode block_info) mode_device" "\<not> has_mode (si_mode block_info) mode_char_device" "si_mode block_info AND mode_type = mode_device"
    by (simp_all add: block_info_def plain_node_def has_mode_def mode_type_def mode_bits)
  have quiet: "de_fail (cx_disk copied_env) op p dk = None" for op p dk by (simp add: copied_env_def quiet_disk_env_def)
  have kind: "mknod_kind (sys_mode (si_mode block_info) AND NOT S_IFSOCK) = Inr (mode_device OR mode_char_device)"
    unfolding mknod_kind_def sys_mode_type using m
    by (simp add: sys_type_def block_info_def plain_node_def S_IFBLK_def S_IFCHR_def mode_is_dir_def has_mode_def mode_bits)
  have "\<exists>n dk'. copy_device copied_env ''/d/b'' block_info copied_disk = (Inr n, dk')"
    using loc quiet none by (simp add: copy_device_def copy_mknod_def sys_mknod_def os_call_def kind k_create_def Let_def m)
  then show ?thesis using copy_device_block[OF _ m] by blast
qed

text \<open>The directories above a file that have been made already are left alone.\<close>

lemma create_parents_skip:
  "(\<And>i. i \<in> set is \<Longrightarrow> pt_copied (co_parents c ! i)) \<Longrightarrow> create_parents env ow (is @ js) c = create_parents env ow js c"
  by (induction "is") (simp_all add: create_parent_dir_def co_bind_def)

lemma create_parent_dirs_linked:
  assumes "ordinary_env env" "co_parents c = ps @ \<lparr>pt_src = abs_path sd, pt_dst = abs_path td, pt_copied = False\<rparr> # qs"
    and "\<forall>pd \<in> set ps. pt_copied pd" "wf_disk (co_disk c)" "is_dir_at (co_disk c) sd" "entry_at (co_disk c) td k"
    and "is_symlink_node (dk_inodes (co_disk c) k)"
  shows "create_parent_dirs env ow c = Some (Inl (Errorf ''cannot copy to non-directory: %s'' [abs_path td]), c)"
proof -
  obtain fi where fi: "copy_stat env (abs_path sd) (co_disk c) = (Inr fi, co_disk c)" "si_is_dir fi"
    using stat_dir[OF assms(1,4,5)] by blast
  have "[0..<a + Suc b] = [0..<a] @ a # [Suc a..<a + Suc b]" for a b :: nat
    using upt_add_eq_append[of 0 a "Suc b"] upt_conv_Cons[of a "a + Suc b"] by simp
  from this[of "length ps" "length qs"]
  have "[0..<length (co_parents c)] = [0..<length ps] @ length ps # [Suc (length ps)..<length (co_parents c)]"
    using assms(2) by simp
  moreover have "pt_copied (co_parents c ! i)" if "i \<in> set [0..<length ps]" for i using that assms(2,3) by (simp add: nth_append)
  then have "create_parents env ow ([0..<length ps] @ js) c = create_parents env ow js c" for js by (rule create_parents_skip)
  moreover have "co_parents c ! length ps = \<lparr>pt_src = abs_path sd, pt_dst = abs_path td, pt_copied = False\<rparr>" by (simp add: assms(2))
  ultimately show ?thesis
    using fi lstat_entry[OF assms(1,6)] assms(7)
    by (simp add: create_parent_dirs_def create_parent_dir_def copy_directory_only_def co_bind_def co_call_def wrap_err_def is_symlink_node_def Let_def)
qed

lemma linked_target_removed:
  assumes "ordinary_env env" "locate (cx_disk env) dk target = Inr w" "dk_tree dk w = Some j" "entry_at dk s k" "w \<noteq> []"
  shows "\<exists>dk'. os_remove_all (cx_disk env) target dk = (Inr (), dk') \<and> wf_disk dk' \<and>
    dk_tree dk' = (\<lambda>q. if prefix w q then None else dk_tree dk q) \<and> (\<forall>i. \<not> mode_is_dir (in_mode (dk_inodes dk i)) \<longrightarrow> dk_inodes dk' i = dk_inodes dk i) \<and>
    (\<forall>q. \<not> prefix w q \<longrightarrow> entries dk' q = entries dk q)"
proof -
  have at: "entry_at dk w j" using assms(3-5) by (simp add: entry_at_def)
  have f: "de_fail (cx_disk env) op p d = None" for op p d using assms(1) by (simp add: ordinary_env_def)
  obtain dk' where run: "os_remove_all (cx_disk env) target dk = (Inr (), dk')" "os_remove_all (cx_disk env) (abs_path w) dk = (Inr (), dk')"
    using assms(2,3) entry_at_locate(1)[OF at, of "cx_disk env"] f by (simp add: os_remove_all_def)
  note R = remove_all_result[OF run(2) at]
  show ?thesis using run(1) R(1,2,4) by (intro exI[of _ dk']) (auto simp: R(3))
qed

text \<open>C10. With include patterns the directories above a file are made only when the file is copied, and after the old
  target is removed: when \<open>AlwaysReplaceExistingDestPaths\<close> is set and one of these directories, not made yet, is a
  symbolic link in the destination, what is removed is where the link leads, which is not below the link; then the copy fails, as the
  link is no directory. This holds for the copy of any included file whose target is found through the link, with no call failing.\<close>

theorem copy_removes_outside:
  assumes "ordinary_env env" "co_always_replace c" "copy_select env c comps ii ei = Inr (True, exc, ii', ei')"
    and "entry_at (co_disk c) s k" "\<not> mode_is_dir (in_mode (dk_inodes (co_disk c) k))"
    and "co_parents c = ps @ \<lparr>pt_src = abs_path sd, pt_dst = abs_path td, pt_copied = False\<rparr> # qs" "\<forall>pd \<in> set ps. pt_copied pd"
    and "is_dir_at (co_disk c) sd" "entry_at (co_disk c) td l" "is_symlink_node (dk_inodes (co_disk c) l)"
    and "locate (cx_disk env) (co_disk c) (abs_path (td @ q)) = Inr w" "dk_tree (co_disk c) w \<noteq> None" "\<not> prefix w sd" "\<not> prefix w td"
  shows "\<exists>c'. copy_body n env rec (abs_path s) comps (abs_path (td @ q)) ow ii ei c =
      Some (Inl (Errorf ''cannot copy to non-directory: %s'' [abs_path td]), c')
    \<and> dk_tree (co_disk c') = (\<lambda>v. if prefix w v then None else dk_tree (co_disk c) v) \<and> \<not> prefix td w"
proof -
  let ?dk = "co_disk c"
  obtain j where j: "dk_tree ?dk w = Some j" using assms(12) by blast
  have w: "w \<noteq> []" using assms(14) by auto
  have wf: "wf_disk ?dk" "dk_tree ?dk td = Some l" using assms(9) by (simp_all add: entry_at_def)
  obtain dk' where rm: "os_remove_all (cx_disk env) (abs_path (td @ q)) ?dk = (Inr (), dk')" "wf_disk dk'"
    and t: "dk_tree dk' = (\<lambda>v. if prefix w v then None else dk_tree ?dk v)"
    and ino: "\<forall>i. \<not> mode_is_dir (in_mode (dk_inodes ?dk i)) \<longrightarrow> dk_inodes dk' i = dk_inodes ?dk i"
    and ent: "\<forall>v. \<not> prefix w v \<longrightarrow> entries dk' v = entries ?dk v"
    using linked_target_removed[OF assms(1,11) j assms(4) w] by blast
  have nd: "\<not> mode_is_dir (in_mode (dk_inodes ?dk l))" using assms(10) by (simp add: is_symlink_node_def)
  let ?c = "c\<lparr>co_disk := dk'\<rparr>"
  have dirs: "create_parent_dirs env ow ?c = Some (Inl (Errorf ''cannot copy to non-directory: %s'' [abs_path td]), ?c)"
  proof (rule create_parent_dirs_linked[OF assms(1)])
    show "co_parents ?c = ps @ \<lparr>pt_src = abs_path sd, pt_dst = abs_path td, pt_copied = False\<rparr> # qs" using assms(6) by simp
    show "wf_disk (co_disk ?c)" using rm(2) by simp
    show "is_dir_at (co_disk ?c) sd" using assms(8,13) ent by (simp add: is_dir_at_entries)
    show "entry_at (co_disk ?c) td l" using assms(9,14) rm(2) t by (simp add: entry_at_def)
    show "is_symlink_node (dk_inodes (co_disk ?c) l)" using ino nd assms(10) by simp
  qed (rule assms(7))
  have quiet: "\<not> cx_done env ?dk" "de_fail (cx_disk env) op p d = None" for op p d using assms(1) by (simp_all add: ordinary_env_def)
  have tf: "copy_lstat env (abs_path (td @ q)) ?dk = (Inr \<lparr>si_ino = j, si_nlink = cx_nlink env ?dk j, si_node = dk_inodes ?dk j\<rparr>, ?dk)"
    using assms(11) j quiet(2) by (simp add: copy_lstat_def os_call_def k_info_def)
  have "copy_body n env rec (abs_path s) comps (abs_path (td @ q)) ow ii ei c =
      Some (Inl (Errorf ''cannot copy to non-directory: %s'' [abs_path td]), ?c)"
    using quiet(1) assms(2,3,5) lstat_entry[OF assms(1,4)] tf rm(1) dirs
    by (simp add: copy_body_def copy_included_def remove_target_if_needed_def co_bind_def co_call_def wrap_err_def Let_def)
  moreover have "\<not> prefix td w"
  proof
    assume "prefix td w"
    then have "strict_prefix td w" using assms(14) by (auto simp: strict_prefix_def)
    from is_dir_at_prefix[OF wf(1) assms(12) this] show False using wf(2) nd by (simp add: is_dir_at_iff)
  qed
  ultimately show ?thesis using t by (intro exI[of _ ?c]) simp
qed

text \<open>
  A source with a file \<open>d/f\<close>, and a destination \<open>/t\<close> in which \<open>d\<close> is a symbolic link to a directory \<open>/o\<close> outside, with a file
  of the same name. Only \<open>d/f\<close> is included, so that \<open>/t/d\<close> has not been made when it is copied.
\<close>

definition linked_disk :: disk where
  "linked_disk = \<lparr>dk_tree = [[] \<mapsto> 0, [''s''] \<mapsto> 1, [''s'', ''d''] \<mapsto> 2, [''s'', ''d'', ''f''] \<mapsto> 3, [''t''] \<mapsto> 4, [''t'', ''d''] \<mapsto> 5,
       [''o''] \<mapsto> 6, [''o'', ''f''] \<mapsto> 7],
     dk_inodes = (\<lambda>i. if i = 3 \<or> i = 7 then plain_node 0x1A4 else if i = 5 then (plain_node (mode_symlink OR mode_perm))\<lparr>in_target := ''/o''\<rparr>
       else plain_node (mode_dir OR 0x1ED)),
     dk_next = 8, dk_fds = Map.empty, dk_next_fd = 3, dk_clock = 9\<rparr>"

definition file_matcher :: "unit matcher" where
  "file_matcher = \<lparr>pm_patterns = [(''d/f'', False)], pm_exclusions = False, pm_zero = (), pm_match = (\<lambda>p mi. Inr (p = ''d/f'', ())),
     pm_match_or_parent = (\<lambda>p. Inr (p = ''d/f''))\<rparr>"

definition linked_copier :: "unit copier" where
  "linked_copier = \<lparr>co_chown = None, co_utime = None, co_mode = None, co_mode_set = None, co_inodes = Map.empty,
     co_xeh = (\<lambda>dst src key e. Some e), co_include = Some file_matcher, co_exclude = None,
     co_parents = [\<lparr>pt_src = ''/s'', pt_dst = ''/t'', pt_copied = True\<rparr>, \<lparr>pt_src = ''/s/d'', pt_dst = ''/t/d'', pt_copied = False\<rparr>],
     co_changefn = None, co_root = ''/t'', co_always_replace = True, co_disk = linked_disk, co_notes = []\<rparr>"

lemma linked_tree:
  "dk_tree linked_disk v = Some i \<longleftrightarrow>
     v = [] \<and> i = 0 \<or> v = [''s''] \<and> i = 1 \<or> v = [''s'', ''d''] \<and> i = 2 \<or> v = [''s'', ''d'', ''f''] \<and> i = 3 \<or> v = [''t''] \<and> i = 4 \<or>
     v = [''t'', ''d''] \<and> i = 5 \<or> v = [''o''] \<and> i = 6 \<or> v = [''o'', ''f''] \<and> i = 7"
  by (auto simp: linked_disk_def)

lemma linked_dir_inodes: "mode_is_dir (in_mode (dk_inodes linked_disk i)) \<longleftrightarrow> i \<noteq> 3 \<and> i \<noteq> 5 \<and> i \<noteq> 7"
  by (simp add: linked_disk_def plain_node_def mode_is_dir_def has_mode_def mode_bits)

lemma linked_dirs: "is_dir_at linked_disk v \<longleftrightarrow> v = [] \<or> v = [''s''] \<or> v = [''s'', ''d''] \<or> v = [''t''] \<or> v = [''o'']"
  unfolding is_dir_at_iff linked_tree linked_dir_inodes by (intro iffI; elim exE conjE disjE; simp)

lemma linked_wf: "wf_disk linked_disk"
  unfolding wf_disk_def
proof (intro conjI allI impI)
  show "is_dir_at linked_disk []" by (simp add: linked_dirs)
  fix v i assume t: "dk_tree linked_disk v = Some i"
  show "i < dk_next linked_disk" using t by (auto simp: linked_tree) (auto simp: linked_disk_def)
  show "is_dir_at linked_disk (butlast v)" using t by (auto simp: linked_tree linked_dirs)
  show "good_comp (last v)" if "v \<noteq> []" using t that by (auto simp: linked_tree good_comp_def)
  show "v = w" if "dk_tree linked_disk w = Some i" for w using t that by (auto simp: linked_tree)
qed

lemma linked_found: "locate quiet_disk_env linked_disk (abs_path ([''t'', ''d''] @ [''f''])) = Inr [''o'', ''f'']"
  by (simp add: abs_path_def locate_def locate_from_def resolve_dirs.simps is_abs_def good_comp_def node_def max_links_def is_symlink_node_def
      mode_is_dir_def has_mode_def mode_bits linked_disk_def quiet_disk_env_def plain_node_def)

theorem copy_removes_outside_witness:
  "\<exists>c'. copy_body 4 copied_env (copy_node 4 copied_env) ''/s/d/f'' ''d/f'' ''/t/d/f'' True () () linked_copier =
      Some (Inl (Errorf ''cannot copy to non-directory: %s'' [''/t/d'']), c')
    \<and> dk_tree linked_disk [''o'', ''f''] = Some 7 \<and> dk_tree (co_disk c') [''o'', ''f''] = None"
proof -
  have c: "co_disk linked_copier = linked_disk" "co_always_replace linked_copier" by (simp_all add: linked_copier_def)
  have sel: "copy_select copied_env linked_copier ''d/f'' () () = Inr (True, False, (), ())"
    by (simp add: copy_select_def copy_include_def copy_exclude_def linked_copier_def file_matcher_def copied_env_def)
  have s: "entry_at (co_disk linked_copier) [''s'', ''d'', ''f''] 3" "\<not> mode_is_dir (in_mode (dk_inodes (co_disk linked_copier) 3))"
    using linked_wf linked_dir_inodes[of 3] by (simp_all add: c entry_at_def linked_tree)
  have ps: "co_parents linked_copier =
      [\<lparr>pt_src = ''/s'', pt_dst = ''/t'', pt_copied = True\<rparr>] @ \<lparr>pt_src = abs_path [''s'', ''d''], pt_dst = abs_path [''t'', ''d''], pt_copied = False\<rparr> # []"
    "\<forall>pd \<in> set [\<lparr>pt_src = ''/s'', pt_dst = ''/t'', pt_copied = True\<rparr>]. pt_copied pd"
    by (simp_all add: linked_copier_def abs_path_def)
  have td: "is_dir_at (co_disk linked_copier) [''s'', ''d'']" "entry_at (co_disk linked_copier) [''t'', ''d''] 5"
    "is_symlink_node (dk_inodes (co_disk linked_copier) 5)"
    using linked_wf
    by (simp_all add: c entry_at_def linked_dirs linked_tree)
      (simp add: is_symlink_node_def linked_disk_def plain_node_def mode_is_dir_def has_mode_def mode_bits)
  have loc: "locate (cx_disk copied_env) (co_disk linked_copier) (abs_path ([''t'', ''d''] @ [''f''])) = Inr [''o'', ''f'']"
    using linked_found by (simp add: c copied_env_def)
  have w: "dk_tree (co_disk linked_copier) [''o'', ''f''] \<noteq> None" "\<not> prefix [''o'', ''f''] [''s'', ''d'']" "\<not> prefix [''o'', ''f''] [''t'', ''d'']"
    by (simp_all add: c linked_disk_def)
  obtain c' where "copy_body 4 copied_env (copy_node 4 copied_env) (abs_path [''s'', ''d'', ''f'']) ''d/f'' (abs_path ([''t'', ''d''] @ [''f''])) True () () linked_copier =
      Some (Inl (Errorf ''cannot copy to non-directory: %s'' [abs_path [''t'', ''d'']]), c')"
    "dk_tree (co_disk c') = (\<lambda>v. if prefix [''o'', ''f''] v then None else dk_tree (co_disk linked_copier) v)"
    using copy_removes_outside[OF copied_ordinary c(2) sel s ps td loc w] by blast
  then show ?thesis by (intro exI[of _ c']) (simp add: abs_path_def linked_tree)
qed

end
