(* ===== verification/Spec2Isabelle.thy ===== *)
theory Spec2Isabelle
  imports Double_Walk Stat_Unix Root_Stack Root_Cache Transfer_Session Walk_Order Disk_Facts Proto_Stream Root_Xattr Tar_Writer Root_Facts Copy_Facts
begin

text \<open>
  fsutil synchronises a directory tree between two processes. A \<^bold>\<open>sender\<close> (\<open>send.go\<close>) walks a file system
  (\<open>fs.go\<close>, with filters of \<open>filter.go\<close> and the links of \<open>followlinks.go\<close>) and sends one STAT packet for each
  entry; a \<^bold>\<open>receiver\<close> (\<open>receive.go\<close>) checks the stream (\<open>validator.go\<close>, \<open>hardlinks.go\<close>), compares it with its
  destination (\<open>diff_containerd.go\<close>), and hands the differences to a \<^bold>\<open>disk writer\<close>, which changes the destination and
  requests the data of regular files: \<open>diskwriter.go\<close> on paths, or \<open>rootdiskwriter.go\<close> below an \<open>os.Root\<close>, with the
  directory handles of \<open>root.go\<close>, \<open>rootstack.go\<close> and \<open>rootcache.go\<close>. The same walks are written as archives by
  \<open>tarwriter.go\<close>. The package \<open>copy/\<close> copies trees within one system, without the rest. Source paths are relative to \<open>src/\<close>; the Linux build is the one that is modelled.

  \<^bold>\<open>How the code is represented.\<close> Go strings and byte slices are lists of 8-bit characters, machine integers are words of
  their width, structs are records, errors are the datatype \<open>go_error\<close>, and a fallible function returns \<open>'a res\<close>, the
  sum of an error and a value. A panic is the error \<open>Panic\<close>. State is passed explicitly. An iteration that may not end
  carries fuel and returns an \<open>option\<close>; \<open>None\<close> means that the fuel did not suffice.

  \<^bold>\<open>Theories, in the order of the imports.\<close>
  \<^item> \<open>Fsutil_Prelude\<close>: errors, results, lists and maps. \<open>Go_Path\<close>: \<open>path/filepath\<close> on Unix (\<open>clean\<close>, \<open>join2\<close>, \<open>dir\<close>,
    \<open>base\<close>, \<open>rel_path\<close>). \<open>Types_Stat\<close>: the \<open>Stat\<close> and \<open>Packet\<close> messages of \<open>types/\<close>, \<open>os.FileMode\<close>.
  \<^item> \<open>Path_Order\<close>: \<open>ComparePath\<close> and the order of path components. \<open>Validator\<close>: \<open>Validator.HandleChange\<close> against an
    abstract acceptor of streams in tree order. \<open>Hardlinks\<close>: \<open>Hardlinks.HandleChange\<close> and \<open>WithHardlinkReset\<close>.
  \<^item> \<open>Tree_Merge\<close>, \<open>Tree_Ground\<close> and \<open>Tree_Links\<close>: the specification of a diff, as a merge of two sorted walks, with what a tree holds
    in the middle of its changes, without code of the repository. \<open>Double_Walk\<close>: \<open>doubleWalkDiff\<close>, \<open>sameFile\<close> and \<open>compareFileContent\<close>, with the refinement of that merge.
  \<^item> \<open>Stat_Unix\<close>: \<open>mkstat\<close>, \<open>setUnixOpt\<close>, \<open>loadXattr\<close> and \<open>mkrootstat\<close>. \<open>Fs_Walk\<close>: \<open>NewFS\<close>, \<open>NewRootFS\<close>, \<open>SubDirFS\<close>
    and the walkers of \<open>diff.go\<close>. \<open>Filter_Fs\<close>: \<open>NewFilterFS\<close>. \<open>Follow_Links\<close>: \<open>FollowLinks\<close>. \<open>Walk_Order\<close>: what a walk of these
    reports is in tree order, and the validator and the link check accept it.
  \<^item> \<open>Root_Handle\<close>, \<open>Root_Stack\<close>, \<open>Root_Cache\<close>: the object around \<open>os.Root\<close> with its descriptors, the stack and the cache of
    directory handles, proved over the locale \<open>root_provider\<close>, which the handles of \<open>Root_Handle\<close> and those of
    \<open>Root_Disk\<close> interpret. \<open>Root_Xattr\<close>: reading and writing attributes through a root.
  \<^item> \<open>Chunk_Buffer\<close>: \<open>buffer.go\<close>. \<open>Sender\<close> and \<open>Receiver\<close>: the goroutines of both sides as operations on their shared state.
    \<open>Transfer_Session\<close>: both joined by two streams; \<open>session_step\<close> is one operation of one goroutine, so the runs are all
    interleavings.
  \<^item> \<open>Disk_World\<close>: file systems with hard and symbolic links, and the calls of \<open>os\<close> on them. \<open>Disk_Writer\<close>: \<open>diskwriter.go\<close>.
    \<open>Disk_Apply\<close>, \<open>Disk_Progress\<close>, \<open>Disk_Failure\<close>, \<open>Disk_Data\<close>, \<open>Disk_Transfer\<close>, \<open>Disk_Mirror\<close> and \<open>Disk_Facts\<close>: what one change does,
    that it succeeds without failures, what a failed one leaves, the data of a file, and a whole diff, with the hard links of the sender.
  \<^item> \<open>Root_Disk\<close> and \<open>Root_Writer\<close>: \<open>os.Root\<close> on such file systems, and \<open>rootdiskwriter.go\<close>. \<open>Root_Confined\<close>, \<open>Root_Safety\<close> and
    \<open>Root_Facts\<close>: nothing outside the destination changes.
  \<^item> \<open>Proto_Stream\<close>: \<open>util/protostream.go\<close>. \<open>Tar_Writer\<close>: \<open>tarwriter.go\<close>.
  \<^item> \<open>Copy_Disk\<close>: the further calls of the operating system that \<open>copy/\<close> makes. \<open>Copy_File\<close>: \<open>mkdir.go\<close>, \<open>mkdir_unix.go\<close>,
    \<open>hardlink.go\<close>, \<open>hardlink_unix.go\<close>, \<open>copy_linux.go\<close> and \<open>copy_nowindows.go\<close>. \<open>Copy_Tree\<close>: \<open>copy.go\<close>. \<open>Copy_Content\<close>,
    \<open>Copy_Apply\<close>, \<open>Copy_Whole\<close> and \<open>Copy_Facts\<close>: the loop of \<open>copyFileContent\<close>, what one file of each type becomes, a whole tree with the names that share a file, and
    two cases that go wrong.

  \<^bold>\<open>What the theorems show.\<close> A transfer: the merge of the two walks is what the diff reports, applying it to a
  tree gives the tree of the sender, and so does the disk writer on a file system, leaving everything
  outside alone (\<open>transfer_to_disk\<close>, \<open>double_walk_diff_merge\<close>, \<open>double_walk_diff_correct\<close>); in every interleaving file data arrive
  in order and completely (\<open>transfer_delivers_files\<close>, \<open>transfer_completes\<close>). The checks: the validator accepts exactly the
  streams in tree order with local paths (\<open>validator_accepts_iff\<close>), and every filtered walk is such a stream
  (\<open>filtered_walk_accepted\<close>). Copying: \<open>Copy\<close> without options makes exactly the tree of the source (\<open>copy_tree_faithful\<close>). Safety: the root writer changes nothing outside its destination, whatever it is
  sent (\<open>root_writer_confined\<close>); the cache neither closes a directory in use nor leaks one. Errors: a failed
  replacement keeps the old file (\<open>failed_change_keeps_old\<close>). Where the code does not do what it means to, a theorem states when, and
  its witness runs the model on a concrete input (\<open>root_redundant_delete_fails\<close>, \<open>receiver_second_end_panics\<close>, \<open>copy_removes_outside\<close>,
  \<open>copy_device_block\<close>); \<open>diff_content_is_metadata\<close> shows that comparing contents never adds a change.

  \<^bold>\<open>Conditions that the theorems state.\<close> The disk writer follows a received symbolic link when it sets extended
  attributes, and drops the errors of \<open>setxattr\<close>; so the theorems on a whole transfer are about Stats of links without
  attributes (\<open>plain_meta\<close>), disks on which \<open>setxattr\<close> succeeds, and owners that the Stats name. A hard link names an earlier
  regular file of the sender with the same metadata (\<open>sender_links\<close>). \<open>copy_tree_faithful\<close> excludes block devices, which
  become character devices, and sockets, of which a stub is made. The theorems of \<open>Transfer_Session\<close> are about transfers with
  \<open>MetadataOnly\<close> off. A failed replacement is complete when only the report to \<open>NotifyCb\<close> failed, which comes
  after the rename.

  \<^bold>\<open>Bounds and fuel.\<close> Symbolic links are followed at most 40 times, as on Linux. The fuel of \<open>follow_links\<close> is enough by
  \<open>follow_links_terminates\<close>; that of \<open>copy_node\<close> is more than the depth of each file and the length of its content, by
  \<open>copy_tree_faithful\<close>; that of \<open>read_full\<close>, \<open>copy_buffer\<close>, \<open>erange_loop\<close> and the retries of \<open>handle_change\<close>
  is bounded in \<open>proto_stream_roundtrip\<close>, \<open>transfer_completes\<close>, \<open>root_getxattr_returns\<close> and \<open>transfer_to_disk_completes\<close>. The
  buffers have the sizes of the code (32 KiB chunks, pipelines of 128 requests, a cache of 128 directories).

  \<^bold>\<open>Parameters.\<close> The connection, the protobuf codec, the pattern matcher, \<open>archive/tar\<close>'s writer, continuity's \<open>RootPath\<close>, the parser
  of modes, hash functions,
  callbacks and the device encoding of \<open>golang.org/x/sys\<close> are arguments of the definitions that use them. The environment of the
  file system (\<open>disk_env\<close>) decides for each call whether it fails.

  \<^bold>\<open>Not modelled.\<close> The variants for Windows, macOS and the BSDs; access times; the generated protobuf code beyond \<open>CloneVT\<close> and
  \<open>EqualVT\<close>; the programs under \<open>cmd/\<close> and \<open>bench/\<close>, which only call the library; permission checks of the
  kernel other than as failures of the environment; the contents of wrapped error messages beyond their format string.
\<close>

end
